(* ===== verification/Prelude.thy ===== *)
theory Prelude
  imports Main "HOL-Library.Word"
begin

text \<open>
  Shared material of the development.
  \<^item> The result type of a C++ call: it returns a value, throws an exception, or the process
    halts, and in each case leaves a state behind. An exception keeps the changes made before it
    was thrown. A process halts for one of five causes, which are kept apart; none can be caught.
  \<^item> The combinators the operations are written with: return, throw, sequencing, \<^verbatim>\<open>try\<close> /
    \<^verbatim>\<open>catch\<close>, loops over lists, and running an operation on a part of the state.
  \<^item> Byte strings: \<^verbatim>\<open>memcpy\<close> into and out of a buffer, little-endian integers.
\<close>

unbundle bit_operations_syntax

type_synonym byte = "8 word"
type_synonym u16 = "16 word"
type_synonym u32 = "32 word"
type_synonym u64 = "64 word"
type_synonym bytes = "byte list"

named_theorems op_simps \<open>unfolding rules of the state-exception combinators\<close>
named_theorems codec_simps \<open>lengths and positions of encoded fields\<close>

section \<open>Outcomes and operations\<close>

datatype exn =
    FsError int
  | RuntimeError string
  | OutOfRange string
  | InvalidArgument string
  | LogicError string
  | UsageError string

text \<open>
  Why a process gets no further: the crash injection killed it (\<^term>\<open>Crash\<close>), it waits for what another
  thread holds (\<^term>\<open>Waits\<close>), a loop goes on for ever (\<^term>\<open>Spins\<close>, which is what a model's loop that
  is out of fuel stands for), \<^verbatim>\<open>std::terminate\<close> (\<^term>\<open>Terminates\<close>), or it follows a null pointer
  (\<^term>\<open>Faults\<close>).
\<close>

datatype cause = Crash | Waits | Spins | Terminates | Faults

datatype 'a outcome = Ret 'a | Raise exn | Halted cause

abbreviation Killed :: "'a outcome" where "Killed \<equiv> Halted Crash"

type_synonym ('s, 'a) op = "'s \<Rightarrow> 'a outcome \<times> 's"

definition retE :: "'a \<Rightarrow> ('s, 'a) op" where
  "retE x = (\<lambda>s. (Ret x, s))"

definition throwE :: "exn \<Rightarrow> ('s, 'a) op" where
  "throwE e = (\<lambda>s. (Raise e, s))"

definition haltE :: "cause \<Rightarrow> ('s, 'a) op" where
  "haltE h = (\<lambda>s. (Halted h, s))"

definition getE :: "('s \<Rightarrow> 'a) \<Rightarrow> ('s, 'a) op" where
  "getE f = (\<lambda>s. (Ret (f s), s))"

definition modE :: "('s \<Rightarrow> 's) \<Rightarrow> ('s, unit) op" where
  "modE f = (\<lambda>s. (Ret (), f s))"

definition bindE :: "('s, 'a) op \<Rightarrow> ('a \<Rightarrow> ('s, 'b) op) \<Rightarrow> ('s, 'b) op" where
  "bindE m f = (\<lambda>s. case m s of
       (Ret x, s') \<Rightarrow> f x s'
     | (Raise e, s') \<Rightarrow> (Raise e, s')
     | (Halted h, s') \<Rightarrow> (Halted h, s'))"

definition thenE :: "('s, 'a) op \<Rightarrow> ('s, 'b) op \<Rightarrow> ('s, 'b) op" where
  "thenE m m' = bindE m (\<lambda>_. m')"

definition catchE :: "('s, 'a) op \<Rightarrow> (exn \<Rightarrow> ('s, 'a) op) \<Rightarrow> ('s, 'a) op" where
  "catchE m h = (\<lambda>s. case m s of
       (Ret x, s') \<Rightarrow> (Ret x, s')
     | (Raise e, s') \<Rightarrow> h e s'
     | (Halted r, s') \<Rightarrow> (Halted r, s'))"

text \<open>\<^verbatim>\<open>catch (...) { cleanup; throw; }\<close>\<close>

definition cleanupE :: "('s, 'a) op \<Rightarrow> ('s, unit) op \<Rightarrow> ('s, 'a) op" where
  "cleanupE m c = catchE m (\<lambda>e. thenE c (throwE e))"

text \<open>A destructor: \<^term>\<open>c\<close> runs when the scope is left, by a return or by an exception.\<close>

definition finallyE :: "('s, 'a) op \<Rightarrow> ('s, unit) op \<Rightarrow> ('s, 'a) op" where
  "finallyE m c = bindE (cleanupE m c) (\<lambda>x. thenE c (retE x))"

definition whenE :: "bool \<Rightarrow> ('s, unit) op \<Rightarrow> ('s, unit) op" where
  "whenE b m = (if b then m else retE ())"

primrec forE :: "'a list \<Rightarrow> ('a \<Rightarrow> ('s, unit) op) \<Rightarrow> ('s, unit) op" where
  "forE [] f = retE ()"
| "forE (x # xs) f = thenE (f x) (forE xs f)"

primrec foldE :: "'a list \<Rightarrow> ('b \<Rightarrow> 'a \<Rightarrow> ('s, 'b) op) \<Rightarrow> 'b \<Rightarrow> ('s, 'b) op" where
  "foldE [] f b = retE b"
| "foldE (x # xs) f b = bindE (f b x) (\<lambda>b'. foldE xs f b')"

text \<open>A computation that needs no state: \<^term>\<open>Inl e\<close> is thrown.\<close>

definition liftE :: "exn + 'a \<Rightarrow> ('s, 'a) op" where
  "liftE r = (case r of Inl e \<Rightarrow> throwE e | Inr x \<Rightarrow> retE x)"

text \<open>Runs an operation on the part of the state that \<^term>\<open>get\<close> reads and \<^term>\<open>put\<close> writes.\<close>

definition zoomE :: "('s \<Rightarrow> 'a) \<Rightarrow> ('a \<Rightarrow> 's \<Rightarrow> 's) \<Rightarrow> ('a, 'b) op \<Rightarrow> ('s, 'b) op" where
  "zoomE get put m = (\<lambda>s. case m (get s) of (r, a) \<Rightarrow> (r, put a s))"

section \<open>Byte strings\<close>

definition get_at :: "nat \<Rightarrow> nat \<Rightarrow> 'a list \<Rightarrow> 'a list" where
  "get_at off n b = take n (drop off b)"

definition put_at :: "nat \<Rightarrow> 'a list \<Rightarrow> 'a list \<Rightarrow> 'a list" where
  "put_at off src b = take off b @ src @ drop (off + length src) b"

text \<open>Little-endian bytes of a word, lowest address first.\<close>

primrec le_bytes :: "nat \<Rightarrow> 'a::len word \<Rightarrow> bytes" where
  "le_bytes 0 w = []"
| "le_bytes (Suc n) w = ucast w # le_bytes n (drop_bit 8 w)"

primrec le_word :: "bytes \<Rightarrow> 'a::len word" where
  "le_word [] = 0"
| "le_word (b # bs) = ucast b OR push_bit 8 (le_word bs)"

abbreviation le16 :: "u16 \<Rightarrow> bytes" where "le16 \<equiv> le_bytes 2"
abbreviation le32 :: "u32 \<Rightarrow> bytes" where "le32 \<equiv> le_bytes 4"
abbreviation le64 :: "u64 \<Rightarrow> bytes" where "le64 \<equiv> le_bytes 8"

definition rd16 :: "nat \<Rightarrow> bytes \<Rightarrow> u16" where "rd16 off b = le_word (get_at off 2 b)"
definition rd32 :: "nat \<Rightarrow> bytes \<Rightarrow> u32" where "rd32 off b = le_word (get_at off 4 b)"
definition rd64 :: "nat \<Rightarrow> bytes \<Rightarrow> u64" where "rd64 off b = le_word (get_at off 8 b)"

text \<open>An array of \<^term>\<open>n\<close> 32-bit integers starting at \<^term>\<open>off\<close>.\<close>

definition rd32s :: "nat \<Rightarrow> nat \<Rightarrow> bytes \<Rightarrow> u32 list" where
  "rd32s off n b = map (\<lambda>i. rd32 (off + 4 * i) b) [0..<n]"

definition le32s :: "u32 list \<Rightarrow> bytes" where
  "le32s ws = concat (map le32 ws)"

text \<open>A string literal of the source as bytes, and \<^verbatim>\<open>std::to_string\<close>.\<close>

definition str_bytes :: "string \<Rightarrow> bytes" where
  "str_bytes s = map (\<lambda>c. of_nat (of_char c)) s"

fun to_string :: "nat \<Rightarrow> string" where
  "to_string n = (if n < 10 then [char_of (48 + n)]
                  else to_string (n div 10) @ [char_of (48 + n mod 10)])"

declare to_string.simps [simp del]

section \<open>Rules for the combinators\<close>

lemma retE_apply [simp, op_simps]: "retE x s = (Ret x, s)"
  by (simp add: retE_def)

lemma throwE_apply [simp, op_simps]: "throwE e s = (Raise e, s)"
  by (simp add: throwE_def)

lemma haltE_apply [simp, op_simps]: "haltE h s = (Halted h, s)"
  by (simp add: haltE_def)

lemma getE_apply [simp, op_simps]: "getE f s = (Ret (f s), s)"
  by (simp add: getE_def)

lemma modE_apply [simp, op_simps]: "modE f s = (Ret (), f s)"
  by (simp add: modE_def)

lemma bindE_Ret [simp]: "m s = (Ret x, s') \<Longrightarrow> bindE m f s = f x s'"
  by (simp add: bindE_def)

lemma bindE_Raise [simp]: "m s = (Raise e, s') \<Longrightarrow> bindE m f s = (Raise e, s')"
  by (simp add: bindE_def)

lemma bindE_Halted [simp]: "m s = (Halted h, s') \<Longrightarrow> bindE m f s = (Halted h, s')"
  by (simp add: bindE_def)

lemma thenE_Ret [simp]: "m s = (Ret x, s') \<Longrightarrow> thenE m m' s = m' s'"
  by (simp add: thenE_def)

lemma thenE_Raise [simp]: "m s = (Raise e, s') \<Longrightarrow> thenE m m' s = (Raise e, s')"
  by (simp add: thenE_def)

lemma thenE_Halted [simp]: "m s = (Halted h, s') \<Longrightarrow> thenE m m' s = (Halted h, s')"
  by (simp add: thenE_def)

lemma bindE_eq_Ret:
  "bindE m f s = (Ret y, s'') \<longleftrightarrow> (\<exists>x s'. m s = (Ret x, s') \<and> f x s' = (Ret y, s''))"
  by (auto simp: bindE_def split: prod.splits outcome.splits)

lemma thenE_eq_Ret:
  "thenE m m' s = (Ret y, s'') \<longleftrightarrow> (\<exists>x s'. m s = (Ret x, s') \<and> m' s' = (Ret y, s''))"
  by (simp add: thenE_def bindE_eq_Ret)

lemma catchE_Ret [simp]: "m s = (Ret x, s') \<Longrightarrow> catchE m h s = (Ret x, s')"
  by (simp add: catchE_def)

lemma catchE_Raise [simp]: "m s = (Raise e, s') \<Longrightarrow> catchE m h s = h e s'"
  by (simp add: catchE_def)

lemma catchE_Halted [simp]: "m s = (Halted r, s') \<Longrightarrow> catchE m h s = (Halted r, s')"
  by (simp add: catchE_def)

lemma cleanupE_Ret [simp]: "m s = (Ret x, s') \<Longrightarrow> cleanupE m c s = (Ret x, s')"
  by (simp add: cleanupE_def)

lemma cleanupE_Raise: "m s = (Raise e, s') \<Longrightarrow> cleanupE m c s = thenE c (throwE e) s'"
  by (simp add: cleanupE_def)

lemma whenE_True [simp]: "whenE True m = m"
  by (simp add: whenE_def)

lemma whenE_False [simp]: "whenE False m = retE ()"
  by (simp add: whenE_def)

lemma liftE_Inr [simp, op_simps]: "liftE (Inr x) = retE x"
  and liftE_Inl [simp, op_simps]: "liftE (Inl e) = throwE e"
  by (simp_all add: liftE_def)

lemma bindE_assoc: "bindE (bindE m f) g = bindE m (\<lambda>x. bindE (f x) g)"
  by (rule ext) (simp add: bindE_def split: prod.splits outcome.splits)

lemma bindE_retE [simp]: "bindE (retE x) f = f x"
  by (rule ext) simp

lemma zoomE_apply: "m (get s) = (r, a) \<Longrightarrow> zoomE get put m s = (r, put a s)"
  by (simp add: zoomE_def)

lemma forE_append: "forE (xs @ ys) f = thenE (forE xs f) (forE ys f)"
  by (induction xs) (simp_all add: thenE_def bindE_assoc)

lemma foldE_append: "foldE (xs @ ys) f b = bindE (foldE xs f b) (foldE ys f)"
  by (induction xs arbitrary: b) (simp_all add: bindE_assoc)

lemma bindE_retE_right [simp]: "bindE m retE = m"
  by (rule ext) (simp add: bindE_def split: prod.splits outcome.splits)

lemma foldE_snoc:
  "foldE xs f b s = (Ret b', s') \<Longrightarrow> foldE (xs @ [x]) f b s = f b' x s'"
  by (simp add: foldE_append)

lemma forE_snoc: "forE xs f s = (Ret (), s') \<Longrightarrow> forE (xs @ [x]) f s = f x s'"
  by (simp add: forE_append) (simp add: thenE_def bindE_def split: prod.splits outcome.splits)

text \<open>
  A loop whose body never fails: if the body returns on every state satisfying \<^term>\<open>I\<close> and
  keeps \<^term>\<open>I\<close>, the loop returns and keeps it, and the state it leaves is the fold of the
  body's effect.
\<close>

lemma forE_total:
  assumes "I s"
    and "\<And>x s. x \<in> set xs \<Longrightarrow> I s \<Longrightarrow> f x s = (Ret (), g x s) \<and> I (g x s)"
  shows "forE xs f s = (Ret (), fold g xs s) \<and> I (fold g xs s)"
  using assms
proof (induction xs arbitrary: s)
  case Nil
  then show ?case by simp
next
  case (Cons x xs)
  from Cons.prems have "f x s = (Ret (), g x s)" and "I (g x s)" by simp_all
  with Cons.IH [of "g x s"] Cons.prems(2) show ?case by simp
qed

section \<open>Lemmas on byte strings\<close>

lemma take_min_length [simp]: "take (min k (length xs)) xs = take k xs"
  by (simp add: min_def)

lemma unat_less_2p: "unat (w :: 'a::len word) < 2 ^ LENGTH('a)"
  by (rule unsigned_less)

lemma length_get_at [simp]: "length (get_at off n b) = min n (length b - off)"
  by (simp add: get_at_def min.commute)

lemma length_put_at [simp]:
  "off + length src \<le> length b \<Longrightarrow> length (put_at off src b) = length b"
  by (simp add: put_at_def)

lemma nth_put_at:
  "off + length src \<le> length b \<Longrightarrow> i < length b \<Longrightarrow>
   put_at off src b ! i = (if off \<le> i \<and> i < off + length src then src ! (i - off) else b ! i)"
  by (auto simp: put_at_def nth_append min_def)

lemma nth_get_at: "i < n \<Longrightarrow> off + i < length b \<Longrightarrow> get_at off n b ! i = b ! (off + i)"
  by (simp add: get_at_def)

lemma get_at_put_at_same [simp]:
  "off \<le> length b \<Longrightarrow> n = length src \<Longrightarrow> get_at off n (put_at off src b) = src"
  by (simp add: get_at_def put_at_def)

lemma get_at_put_at_disjoint:
  assumes "off + length src \<le> length b" and "off' + n \<le> off \<or> off + length src \<le> off'"
  shows "get_at off' n (put_at off src b) = get_at off' n b"
proof (rule nth_equalityI)
  show "length (get_at off' n (put_at off src b)) = length (get_at off' n b)"
    using assms(1) by simp
next
  fix i assume "i < length (get_at off' n (put_at off src b))"
  then have "i < n" "off' + i < length b" using assms(1) by auto
  then show "get_at off' n (put_at off src b) ! i = get_at off' n b ! i"
    using assms by (auto simp: nth_get_at nth_put_at)
qed

lemma get_at_inside_put_at:
  "off \<le> off' \<Longrightarrow> off' + n \<le> off + length src \<Longrightarrow> off + length src \<le> length b \<Longrightarrow>
   get_at off' n (put_at off src b) = get_at (off' - off) n src"
  by (rule nth_equalityI) (auto simp: nth_get_at nth_put_at add.commute)

lemma put_at_put_at_same:
  "length src = length src' \<Longrightarrow> off + length src \<le> length b \<Longrightarrow>
   put_at off src (put_at off src' b) = put_at off src b"
  by (rule nth_equalityI) (auto simp: nth_put_at)

lemma put_at_get_at_id: "off + n \<le> length b \<Longrightarrow> put_at off (get_at off n b) b = b"
  by (rule nth_equalityI) (auto simp: nth_put_at nth_get_at)

lemma get_at_all [simp]: "n = length b \<Longrightarrow> get_at 0 n b = b"
  by (simp add: get_at_def)

lemma get_at_append_left: "off + n \<le> length a \<Longrightarrow> get_at off n (a @ b) = get_at off n a"
  by (simp add: get_at_def)

lemma get_at_append_right:
  "length a \<le> off \<Longrightarrow> get_at off n (a @ b) = get_at (off - length a) n b"
  by (simp add: get_at_def)

section \<open>Lemmas on little-endian integers\<close>

lemma length_le_bytes [simp, codec_simps]: "length (le_bytes n w) = n"
  by (induction n arbitrary: w) simp_all

lemma bit_le_word:
  "bit (le_word bs :: 'a::len word) i \<longleftrightarrow>
   i < LENGTH('a) \<and> i div 8 < length bs \<and> bit (bs ! (i div 8)) (i mod 8)"
proof (induction bs arbitrary: i)
  case Nil
  then show ?case by simp
next
  case (Cons b bs)
  show ?case
  proof (cases "i < 8")
    case True
    then show ?thesis
      by (auto simp: bit_or_iff bit_push_bit_iff bit_ucast_iff dest: bit_imp_le_length)
  next
    case False
    then obtain j where j: "i = j + 8" by (metis le_add_diff_inverse2 not_less)
    have "\<not> bit b i" using False by (auto dest: bit_imp_le_length)
    moreover have "(j + 8) div 8 = Suc (j div 8)" by simp
    ultimately show ?thesis using Cons.IH [of j]
      by (auto simp: j bit_or_iff bit_push_bit_iff bit_ucast_iff dest: bit_imp_le_length)
  qed
qed

lemma nth_le_bytes: "i < n \<Longrightarrow> le_bytes n w ! i = ucast (drop_bit (8 * i) w)"
proof (induction n arbitrary: w i)
  case 0
  then show ?case by simp
next
  case (Suc n)
  then show ?case by (cases i) (simp_all add: ac_simps)
qed

lemma le_word_le_bytes [simp]:
  assumes "8 * n = LENGTH('a::len)"
  shows "le_word (le_bytes n w) = (w :: 'a word)"
proof (rule bit_word_eqI)
  fix i assume i: "i < LENGTH('a)"
  then have "i div 8 < n" using assms by auto
  moreover have "8 * (i div 8) + i mod 8 = i" by simp
  ultimately show "bit (le_word (le_bytes n w) :: 'a word) i = bit w i"
    using i by (auto simp: bit_le_word nth_le_bytes bit_ucast_iff bit_drop_bit_eq)
qed

lemma le_bytes_le_word [simp]:
  assumes "8 * n = LENGTH('a::len)" and "length bs = n"
  shows "le_bytes n (le_word bs :: 'a word) = bs"
proof (rule nth_equalityI)
  show "length (le_bytes n (le_word bs :: 'a word)) = length bs" using assms by simp
next
  fix i assume "i < length (le_bytes n (le_word bs :: 'a word))"
  then have i: "i < n" by simp
  show "le_bytes n (le_word bs :: 'a word) ! i = bs ! i"
  proof (rule bit_word_eqI)
    fix k assume "k < LENGTH(8)"
    then have k: "k < 8" by simp
    then have "(8 * i + k) div 8 = i" "(8 * i + k) mod 8 = k" by simp_all
    with i k assms show "bit (le_bytes n (le_word bs :: 'a word) ! i) k = bit (bs ! i) k"
      by (simp add: nth_le_bytes bit_ucast_iff bit_drop_bit_eq bit_le_word)
  qed
qed

lemma length_le32s [simp, codec_simps]: "length (le32s ws) = 4 * length ws"
  by (induction ws) (simp_all add: le32s_def)

lemma le32s_Nil [simp]: "le32s [] = []" and le32s_Cons: "le32s (w # ws) = le32 w @ le32s ws"
  by (simp_all add: le32s_def)

lemma get_at_le32s: "i < length ws \<Longrightarrow> get_at (4 * i) 4 (le32s ws) = le32 (ws ! i)"
proof (induction ws arbitrary: i)
  case Nil
  then show ?case by simp
next
  case (Cons w ws)
  then show ?case
    by (cases i) (simp_all add: le32s_Cons get_at_append_left get_at_append_right)
qed

lemma rd32s_le32s: "n = length ws \<Longrightarrow> rd32s 0 n (le32s ws) = ws"
  by (rule nth_equalityI) (simp_all add: rd32s_def rd32_def get_at_le32s)

lemma length_rd32s [simp]: "length (rd32s off n b) = n"
  by (simp add: rd32s_def)

lemma nth_rd32s [simp]: "i < n \<Longrightarrow> rd32s off n b ! i = rd32 (off + 4 * i) b"
  by (simp add: rd32s_def)

lemma rd32_put_at_same [simp]: "off + 4 \<le> length b \<Longrightarrow> rd32 off (put_at off (le32 w) b) = w"
  by (simp add: rd32_def)

lemma rd32_put_at_disjoint:
  "off + length src \<le> length b \<Longrightarrow> off' + 4 \<le> off \<or> off + length src \<le> off' \<Longrightarrow>
   rd32 off' (put_at off src b) = rd32 off' b"
  by (simp add: rd32_def get_at_put_at_disjoint)

end
