(* ===== verification/Posix.thy ===== *)
theory Posix
  imports Prelude
begin

text \<open>
  The environment of the program: the files the operating system holds for it and the calls
  it makes on them (\<^verbatim>\<open>pread\<close>, \<^verbatim>\<open>pwrite\<close>, \<^verbatim>\<open>fsync\<close>, \<^verbatim>\<open>ftruncate\<close>, \<^verbatim>\<open>fstat\<close>), by their
  POSIX contract. A call may transfer fewer bytes than asked for, or fail with an error
  number, \<^verbatim>\<open>EINTR\<close> included; which of these happens is not the program's choice, so every
  file carries a script of what its next calls do. Theorems hold for every script, or for
  every script without hard failures (\<^verbatim>\<open>benign\<close>).
\<close>

datatype io_event = Full | Short nat | Fail int

record posix_file =
  content :: bytes
  script :: "io_event list"

definition EINTR :: int where "EINTR = 4"

definition next_event :: "posix_file \<Rightarrow> io_event \<times> posix_file" where
  "next_event f = (case script f of
       [] \<Rightarrow> (Full, f)
     | e # es \<Rightarrow> (e, f\<lparr>script := es\<rparr>))"

text \<open>Up to \<^term>\<open>n\<close> bytes from \<^term>\<open>off\<close>; none only at the end of the file.\<close>

definition posix_pread :: "nat \<Rightarrow> nat \<Rightarrow> posix_file \<Rightarrow> (int + bytes) \<times> posix_file" where
  "posix_pread n off f = (case next_event f of
       (Full, f') \<Rightarrow> (Inr (get_at off n (content f)), f')
     | (Short k, f') \<Rightarrow> (Inr (get_at off (min n (max 1 k)) (content f)), f')
     | (Fail e, f') \<Rightarrow> (Inl e, f'))"

text \<open>Storing past the end first fills the gap with zeros.\<close>

definition store_bytes :: "nat \<Rightarrow> bytes \<Rightarrow> bytes \<Rightarrow> bytes" where
  "store_bytes off src c =
     put_at off src (c @ replicate (off + length src - length c) 0)"

definition posix_pwrite :: "bytes \<Rightarrow> nat \<Rightarrow> posix_file \<Rightarrow> (int + nat) \<times> posix_file" where
  "posix_pwrite src off f = (case next_event f of
       (Full, f') \<Rightarrow> (Inr (length src), f'\<lparr>content := store_bytes off src (content f)\<rparr>)
     | (Short k, f') \<Rightarrow>
         (Inr (min k (length src)),
          f'\<lparr>content := store_bytes off (take k src) (content f)\<rparr>)
     | (Fail e, f') \<Rightarrow> (Inl e, f'))"

text \<open>
  \<^verbatim>\<open>fsync\<close>, \<^verbatim>\<open>ftruncate\<close> and \<^verbatim>\<open>fstat\<close>: success or an error number. The last two do not block
  on a regular file, so an interrupt does not make them fail.
\<close>

definition posix_fsync :: "posix_file \<Rightarrow> int option \<times> posix_file" where
  "posix_fsync f = (case next_event f of
       (Fail e, f') \<Rightarrow> (Some e, f')
     | (_, f') \<Rightarrow> (None, f'))"

definition hard_failure :: "io_event \<Rightarrow> bool" where
  "hard_failure e = (case e of Fail n \<Rightarrow> n \<noteq> EINTR | _ \<Rightarrow> False)"

definition error_number :: "io_event \<Rightarrow> int" where
  "error_number e = (case e of Fail n \<Rightarrow> n | _ \<Rightarrow> 0)"

definition posix_ftruncate :: "nat \<Rightarrow> posix_file \<Rightarrow> int option \<times> posix_file" where
  "posix_ftruncate n f = (case next_event f of (e, f') \<Rightarrow>
     if hard_failure e then (Some (error_number e), f')
     else (None, f'\<lparr>content := take n (content f @ replicate n 0)\<rparr>))"

definition posix_fstat_size :: "posix_file \<Rightarrow> (int + nat) \<times> posix_file" where
  "posix_fstat_size f = (case next_event f of (e, f') \<Rightarrow>
     if hard_failure e then (Inl (error_number e), f') else (Inr (length (content f)), f'))"

definition benign_event :: "io_event \<Rightarrow> bool" where
  "benign_event e = (case e of Full \<Rightarrow> True | Short k \<Rightarrow> 0 < k | Fail e' \<Rightarrow> e' = EINTR)"

definition benign :: "posix_file \<Rightarrow> bool" where
  "benign f = list_all benign_event (script f)"

text \<open>
  The counters of \<^verbatim>\<open>vfs::fault\<close> are process-wide, so they live next to the files. A
  descriptor is the number of the file it is open on; \<^verbatim>\<open>wpaths\<close> is the host's directory,
  \<^verbatim>\<open>wopen_err\<close> the error the host gives for a path it will not open, and \<^verbatim>\<open>wnew_script\<close> what
  the calls on the next file created will do.
\<close>

record fault_state =
  counted :: u64
  fatal :: u64
  crash_seed :: u64

record world =
  wfile :: "nat \<Rightarrow> posix_file"
  wfault :: fault_state
  wpaths :: "bytes \<Rightarrow> nat option"
  wopen_err :: "bytes \<Rightarrow> int option"
  wnext :: nat
  wnew_script :: "io_event list"

definition EEXIST :: int where "EEXIST = 17"
definition ENOENT :: int where "ENOENT = 2"

text \<open>\<^verbatim>\<open>open(path, O_RDWR | flags)\<close> with \<^verbatim>\<open>O_CREAT\<close> and \<^verbatim>\<open>O_EXCL\<close> as given.\<close>

definition posix_open :: "bytes \<Rightarrow> bool \<Rightarrow> bool \<Rightarrow> world \<Rightarrow> (int + nat) \<times> world" where
  "posix_open path creat excl w = (case wopen_err w path of
       Some e \<Rightarrow> (Inl e, w)
     | None \<Rightarrow> (case wpaths w path of
         Some fd \<Rightarrow> if creat \<and> excl then (Inl EEXIST, w) else (Inr fd, w)
       | None \<Rightarrow>
           if \<not> creat then (Inl ENOENT, w)
           else (Inr (wnext w),
             w\<lparr>wfile := (wfile w)(wnext w := \<lparr>content = [], script = wnew_script w\<rparr>),
               wpaths := (wpaths w)(path := Some (wnext w)), wnext := Suc (wnext w)\<rparr>)))"

definition posix_exists :: "bytes \<Rightarrow> world \<Rightarrow> bool" where
  "posix_exists path w = (wpaths w path \<noteq> None)"

definition posix_remove :: "bytes \<Rightarrow> world \<Rightarrow> world" where
  "posix_remove path w = w\<lparr>wpaths := (wpaths w)(path := None)\<rparr>"

definition on_file :: "nat \<Rightarrow> (posix_file \<Rightarrow> 'a \<times> posix_file) \<Rightarrow> world \<Rightarrow> 'a \<times> world" where
  "on_file fd f w = (case f (wfile w fd) of (r, x) \<Rightarrow> (r, w\<lparr>wfile := (wfile w)(fd := x)\<rparr>))"

section \<open>The calls' effects\<close>

lemma next_event_content [simp]: "content (snd (next_event f)) = content f"
  by (simp add: next_event_def split: list.split)

lemma next_event_benign:
  "benign f \<Longrightarrow> next_event f = (e, f') \<Longrightarrow>
   benign_event e \<and> benign f' \<and> content f' = content f"
  by (auto simp: next_event_def benign_def benign_event_def [of Full] split: list.splits)

lemma benign_not_hard: "benign_event e \<Longrightarrow> \<not> hard_failure e"
  by (cases e) (simp_all add: benign_event_def hard_failure_def)

lemma posix_fstat_size_benign:
  assumes "benign f"
  shows "\<exists>f'. posix_fstat_size f = (Inr (length (content f)), f') \<and> benign f' \<and> content f' = content f"
proof -
  obtain e f' where e: "next_event f = (e, f')" by fastforce
  from next_event_benign [OF assms e] benign_not_hard e show ?thesis
    by (auto simp: posix_fstat_size_def)
qed

lemma posix_ftruncate_benign:
  assumes "benign f"
  shows "\<exists>f'. posix_ftruncate n f = (None, f') \<and> benign f' \<and>
    content f' = take n (content f @ replicate n 0)"
proof -
  obtain e f' where e: "next_event f = (e, f')" by fastforce
  from next_event_benign [OF assms e] benign_not_hard e show ?thesis
    by (auto simp: posix_ftruncate_def benign_def)
qed

lemma next_event_script:
  "next_event f = (e, f') \<Longrightarrow> content f' = content f \<and>
   (script f' = [] \<and> e = Full \<and> f' = f \<or> length (script f') < length (script f))"
  by (auto simp: next_event_def split: list.splits)

lemma posix_pread_progress:
  "posix_pread n off f = (r, f') \<Longrightarrow>
   (case r of Inl e \<Rightarrow> length (script f') < length (script f) | Inr bs \<Rightarrow> length bs \<le> n)"
  by (auto simp: posix_pread_def next_event_def split: io_event.splits list.splits)

lemma length_store_bytes [simp]:
  "length (store_bytes off src c) = max (length c) (off + length src)"
  by (auto simp: store_bytes_def put_at_def max_def min_def)

lemma store_bytes_inside:
  "off + length src \<le> length c \<Longrightarrow> store_bytes off src c = put_at off src c"
  by (simp add: store_bytes_def)

lemma store_bytes_end: "store_bytes (length c) src c = c @ src"
  by (simp add: store_bytes_def put_at_def)

lemma nth_store_bytes:
  "i < max (length c) (off + length src) \<Longrightarrow>
   store_bytes off src c ! i =
     (if off \<le> i \<and> i < off + length src then src ! (i - off)
      else if i < length c then c ! i else 0)"
  by (auto simp: store_bytes_def nth_put_at nth_append)

lemma store_bytes_empty [simp]: "off \<le> length c \<Longrightarrow> store_bytes off [] c = c"
  by (simp add: store_bytes_def put_at_def)

text \<open>Two stores, the second right after the first, are one store.\<close>

lemma store_bytes_append:
  "store_bytes (off + length a) b (store_bytes off a c) =
   (if b = [] then store_bytes off a c else store_bytes off (a @ b) c)"
proof (cases "b = []")
  case True
  then show ?thesis by simp
next
  case False
  have "store_bytes (off + length a) b (store_bytes off a c) = store_bytes off (a @ b) c"
  proof (rule nth_equalityI)
    fix i assume "i < length (store_bytes (off + length a) b (store_bytes off a c))"
    then show "store_bytes (off + length a) b (store_bytes off a c) ! i =
        store_bytes off (a @ b) c ! i"
      by (auto simp: nth_store_bytes nth_append less_max_iff_disj)
  qed (simp add: max_def)
  with False show ?thesis by simp
qed

lemma on_file_other [simp]: "fd' \<noteq> fd \<Longrightarrow> wfile (snd (on_file fd f w)) fd' = wfile w fd'"
  by (simp add: on_file_def split: prod.split)

lemma on_file_fault [simp]: "wfault (snd (on_file fd f w)) = wfault w"
  by (simp add: on_file_def split: prod.split)

end
