(* ===== verification/Fault.thy ===== *)
theory Fault
  imports Posix
begin

text \<open>
  \<^verbatim>\<open>src/src/fault.cpp\<close>: the simulated crash. The n-th write since \<^verbatim>\<open>arm_crash\<close> is cut short
  at a sector boundary and the process is killed. The torn write is what every crash theorem
  of the development starts from.
\<close>

definition SECTOR :: nat where "SECTOR = 512"

definition mix :: "u64 \<Rightarrow> u64" where
  "mix x = (let x = x + 0x9E3779B97F4A7C15;
                x = (x XOR drop_bit 30 x) * 0xBF58476D1CE4E5B9;
                x = (x XOR drop_bit 27 x) * 0x94D049BB133111EB
            in x XOR drop_bit 31 x)"

definition arm_crash :: "u64 \<Rightarrow> u64 \<Rightarrow> (world, unit) op" where
  "arm_crash n seed =
     modE (\<lambda>w. w\<lparr>wfault := (wfault w)\<lparr>counted := 0, crash_seed := seed, fatal := n\<rparr>\<rparr>)"

definition writes_counted :: "(world, u64) op" where
  "writes_counted = getE (\<lambda>w. counted (wfault w))"

text \<open>
  How many bytes of a fatal write of \<^term>\<open>len\<close> bytes reach the file: whole sectors, never
  all of them. A write of no bytes has no sector to keep (the source divides by the number
  of sectors, and no caller writes zero bytes).
\<close>

definition torn_length :: "u64 \<Rightarrow> u64 \<Rightarrow> nat \<Rightarrow> nat" where
  "torn_length seed index len =
     (let sectors = (len + SECTOR - 1) div SECTOR
      in unat (mix (seed XOR index)) mod sectors * SECTOR)"

text \<open>The loop that writes the torn prefix: interrupted calls are retried, a failure ends it.\<close>

function torn_write :: "bytes \<Rightarrow> nat \<Rightarrow> posix_file \<Rightarrow> posix_file" where
  "torn_write src off f =
     (if src = [] then f
      else case posix_pwrite src off f of
        (Inl e, f') \<Rightarrow> if e = EINTR then torn_write src off f' else f'
      | (Inr n, f') \<Rightarrow> if n = 0 then f' else torn_write (drop n src) (off + n) f')"
  by pat_completeness auto
termination
  by (relation "measures [\<lambda>(src, off, f). length src, \<lambda>(src, off, f). length (script f)]")
     (auto simp: posix_pwrite_def next_event_def split: io_event.splits list.splits prod.splits)

declare torn_write.simps [simp del]

definition before_write :: "nat \<Rightarrow> bytes \<Rightarrow> nat \<Rightarrow> (world, unit) op" where
  "before_write fd buf off = (\<lambda>w.
     let index = counted (wfault w) + 1;
         n = fatal (wfault w);
         w = w\<lparr>wfault := (wfault w)\<lparr>counted := index\<rparr>\<rparr>
     in if n = 0 \<or> index \<noteq> n then (Ret (), w)
        else let keep = torn_length (crash_seed (wfault w)) index (length buf)
             in (Killed, w\<lparr>wfile := (wfile w)(fd := torn_write (take keep buf) off (wfile w fd))\<rparr>))"

section \<open>Properties\<close>

lemma torn_length_less: "0 < len \<Longrightarrow> torn_length seed index len < len"
proof -
  assume len: "0 < len"
  define sectors where "sectors = (len + SECTOR - 1) div SECTOR"
  have s: "0 < sectors" using len by (simp add: sectors_def SECTOR_def)
  have "unat (mix (seed XOR index)) mod sectors \<le> sectors - 1"
    using mod_less_divisor [OF s, of "unat (mix (seed XOR index))"] by linarith
  then have "torn_length seed index len \<le> (sectors - 1) * SECTOR"
    unfolding torn_length_def Let_def sectors_def [symmetric] by (rule mult_le_mono1)
  also have "\<dots> < len"
    using len unfolding sectors_def SECTOR_def by auto
  finally show ?thesis .
qed

lemma torn_length_sector: "torn_length seed index len mod SECTOR = 0"
  by (simp add: torn_length_def Let_def)

text \<open>
  Whatever the calls do, the loop leaves the file with some prefix of the torn bytes stored
  at the offset; if none fails hard, with all of them.
\<close>

lemma torn_write_prefix:
  "off \<le> length (content f) \<Longrightarrow>
   \<exists>k \<le> length src. content (torn_write src off f) = store_bytes off (take k src) (content f)"
proof (induction src off f rule: torn_write.induct)
  case (1 src off f)
  show ?case
  proof (cases "src = []")
    case True
    with "1.prems" show ?thesis by (simp add: torn_write.simps [of "[]"])
  next
    case src: False
    obtain r f' where pw: "posix_pwrite src off f = (r, f')" by fastforce
    show ?thesis
    proof (cases r)
      case (Inl e)
      have c: "content f' = content f"
        using pw Inl by (auto simp: posix_pwrite_def split: io_event.splits prod.splits
            dest: next_event_script)
      show ?thesis
      proof (cases "e = EINTR")
        case True
        with "1.IH"(1) [OF src pw [symmetric] Inl] "1.prems" c src pw Inl show ?thesis
          by (simp add: torn_write.simps [of src])
      next
        case False
        with src pw Inl c "1.prems" show ?thesis
          by (intro exI [of _ 0]) (simp add: torn_write.simps [of src])
      qed
    next
      case (Inr n)
      have n: "n \<le> length src" and c: "content f' = store_bytes off (take n src) (content f)"
        using pw Inr by (auto simp: posix_pwrite_def min_def split: io_event.splits prod.splits)
      show ?thesis
      proof (cases "n = 0")
        case True
        with src pw Inr c show ?thesis
          by (intro exI [of _ 0]) (simp add: torn_write.simps [of src])
      next
        case False
        have "off + n \<le> length (content f')" using c n by simp
        with "1.IH"(2) [OF src pw [symmetric] Inr False] obtain k where
          k: "k \<le> length (drop n src)"
          "content (torn_write (drop n src) (off + n) f') =
             store_bytes (off + n) (take k (drop n src)) (content f')" by auto
        have "take n src @ take k (drop n src) = take (n + k) src" by (simp add: take_add)
        then have "store_bytes (off + n) (take k (drop n src)) (content f') =
            store_bytes off (take (n + k) src) (content f)"
          using store_bytes_append [of off "take n src" "take k (drop n src)" "content f"] n c
          by (auto simp: take_add)
        with k src pw Inr False n show ?thesis
          by (intro exI [of _ "n + k"]) (simp add: torn_write.simps [of src])
      qed
    qed
  qed
qed

lemma before_write_outcome:
  "before_write fd buf off w = (r, w') \<Longrightarrow> r = Ret () \<or> r = Killed"
  by (auto simp: before_write_def Let_def split: if_splits)

lemma before_write_unarmed:
  "fatal (wfault w) = 0 \<Longrightarrow>
   before_write fd buf off w = (Ret (), w\<lparr>wfault := (wfault w)\<lparr>counted := counted (wfault w) + 1\<rparr>\<rparr>)"
  by (simp add: before_write_def Let_def)

end
