(* ===== verification/Errors.thy ===== *)
theory Errors
  imports Prelude
begin

text \<open>\<^verbatim>\<open>src/include/vfs/errors.h\<close>: the error codes and their texts.\<close>

definition VFS_ENOENT :: int where "VFS_ENOENT = 2"
definition VFS_EIO :: int where "VFS_EIO = 5"
definition VFS_EBADF :: int where "VFS_EBADF = 9"
definition VFS_EBUSY :: int where "VFS_EBUSY = 16"
definition VFS_EEXIST :: int where "VFS_EEXIST = 17"
definition VFS_ENOTDIR :: int where "VFS_ENOTDIR = 20"
definition VFS_EISDIR :: int where "VFS_EISDIR = 21"
definition VFS_EINVAL :: int where "VFS_EINVAL = 22"
definition VFS_EMFILE :: int where "VFS_EMFILE = 24"
definition VFS_EFBIG :: int where "VFS_EFBIG = 27"
definition VFS_ENOSPC :: int where "VFS_ENOSPC = 28"
definition VFS_ENAMETOOLONG :: int where "VFS_ENAMETOOLONG = 36"
definition VFS_ENOTEMPTY :: int where "VFS_ENOTEMPTY = 39"

lemmas errno_defs = VFS_ENOENT_def VFS_EIO_def VFS_EBADF_def VFS_EBUSY_def VFS_EEXIST_def
  VFS_ENOTDIR_def VFS_EISDIR_def VFS_EINVAL_def VFS_EMFILE_def VFS_EFBIG_def VFS_ENOSPC_def
  VFS_ENAMETOOLONG_def VFS_ENOTEMPTY_def

text \<open>Takes a code or a negated code.\<close>

definition vfs_strerror :: "int \<Rightarrow> string" where
  "vfs_strerror code = (let c = (if code < 0 then - code else code) in
     if c = 0 then ''success''
     else if c = VFS_ENOENT then ''no such file or directory''
     else if c = VFS_EIO then ''input/output error''
     else if c = VFS_EBADF then ''bad file descriptor''
     else if c = VFS_EBUSY then ''resource busy''
     else if c = VFS_EEXIST then ''file exists''
     else if c = VFS_ENOTDIR then ''not a directory''
     else if c = VFS_EISDIR then ''is a directory''
     else if c = VFS_EINVAL then ''invalid argument''
     else if c = VFS_EMFILE then ''too many open files''
     else if c = VFS_EFBIG then ''file too large''
     else if c = VFS_ENOSPC then ''no space left on device''
     else if c = VFS_ENAMETOOLONG then ''file name too long''
     else if c = VFS_ENOTEMPTY then ''directory not empty''
     else ''unknown error'')"

definition error_codes :: "int list" where
  "error_codes = [VFS_ENOENT, VFS_EIO, VFS_EBADF, VFS_EBUSY, VFS_EEXIST, VFS_ENOTDIR, VFS_EISDIR,
     VFS_EINVAL, VFS_EMFILE, VFS_EFBIG, VFS_ENOSPC, VFS_ENAMETOOLONG, VFS_ENOTEMPTY]"

lemma vfs_strerror_neg: "vfs_strerror (- c) = vfs_strerror c"
proof -
  have "(if - c < 0 then - (- c) else - c) = (if c < 0 then - c else c)" by auto
  then show ?thesis by (simp only: vfs_strerror_def)
qed

text \<open>No two codes share a number or a text, and none is reported as unknown.\<close>

lemma error_texts_distinct: "distinct (''unknown error'' # map vfs_strerror (0 # error_codes))"
  by (simp add: error_codes_def vfs_strerror_def errno_defs Let_def)

end
