(* ===== verification/Layout.thy ===== *)
theory Layout
  imports Prelude
begin

text \<open>
  \<^verbatim>\<open>src/include/vfs/layout.h\<close>: the bytes on the disk. The on-disk structs are records of
  fixed-width words; \<^verbatim>\<open>memcpy\<close> between a struct and a block is an encoder and a decoder, and
  the round trips below are what the source's \<^verbatim>\<open>static_assert\<close>s (fixed size, no padding)
  are there for.
\<close>

definition BLOCK_SIZE :: nat where "BLOCK_SIZE = 4096"
definition MAGIC :: u32 where "MAGIC = 0x31534643"
definition BITS_PER_BLOCK :: nat where "BITS_PER_BLOCK = BLOCK_SIZE * 8"
definition INODE_SIZE :: nat where "INODE_SIZE = 128"
definition INODES_PER_BLOCK :: nat where "INODES_PER_BLOCK = BLOCK_SIZE div INODE_SIZE"
definition DIRENT_SIZE :: nat where "DIRENT_SIZE = 64"
definition DIRENTS_PER_BLOCK :: nat where "DIRENTS_PER_BLOCK = BLOCK_SIZE div DIRENT_SIZE"
definition DIRECT_PTRS :: nat where "DIRECT_PTRS = 12"
definition BLOCKS_PER_INODE :: nat where "BLOCKS_PER_INODE = 16"
definition ROOT_INODE :: u32 where "ROOT_INODE = 1"
definition MODE_TYPE_MASK :: u16 where "MODE_TYPE_MASK = 0xF000"
definition MODE_FILE :: u16 where "MODE_FILE = 0x8000"
definition MODE_DIR :: u16 where "MODE_DIR = 0x4000"
definition MODE_PERM_MASK :: u16 where "MODE_PERM_MASK = 0x0FFF"
definition FT_FILE :: byte where "FT_FILE = 1"
definition FT_DIR :: byte where "FT_DIR = 2"
definition MAX_NAME_LEN :: nat where "MAX_NAME_LEN = 58"
definition PTRS_PER_BLOCK :: nat where "PTRS_PER_BLOCK = BLOCK_SIZE div 4"
definition MAX_FILE_BLOCKS :: nat where
  "MAX_FILE_BLOCKS = DIRECT_PTRS + PTRS_PER_BLOCK + PTRS_PER_BLOCK * PTRS_PER_BLOCK"
definition FILE_PERM :: u16 where "FILE_PERM = 0x1A4"  \<comment> \<open>octal 0644\<close>
definition DIR_PERM :: u16 where "DIR_PERM = 0x1ED"  \<comment> \<open>octal 0755\<close>

lemmas layout_consts = BLOCK_SIZE_def BITS_PER_BLOCK_def INODE_SIZE_def INODES_PER_BLOCK_def
  DIRENT_SIZE_def DIRENTS_PER_BLOCK_def DIRECT_PTRS_def BLOCKS_PER_INODE_def MAX_NAME_LEN_def
  PTRS_PER_BLOCK_def MAX_FILE_BLOCKS_def

text \<open>\<^verbatim>\<open>Block\<close> is an array of \<^const>\<open>BLOCK_SIZE\<close> bytes; the model's blocks are lists of that length.\<close>

type_synonym block = bytes

definition is_block :: "block \<Rightarrow> bool" where
  "is_block b = (length b = BLOCK_SIZE)"

definition zero_block :: block where
  "zero_block = replicate BLOCK_SIZE 0"

record superblock =
  magic :: u32
  block_size :: u32
  total_blocks :: u32
  inode_count :: u32
  inode_bitmap_start :: u32
  data_bitmap_start :: u32
  inode_table_start :: u32
  data_start :: u32
  root_inode :: u32
  clean_unmount :: u32
  last_checkpoint_lsn :: u64

record inode =
  id_of :: u32
  mode :: u16
  link_count :: u16
  size_of :: u64
  mtime :: u64
  block_count :: u32
  direct :: "u32 list"
  single_indirect :: u32
  double_indirect :: u32
  pad :: "u32 list"

record dir_entry =
  inode_id :: u32
  name_len :: byte
  dtype :: byte
  name :: bytes

text \<open>The array members have the source's fixed lengths.\<close>

definition wf_inode :: "inode \<Rightarrow> bool" where
  "wf_inode i = (length (direct i) = DIRECT_PTRS \<and> length (pad i) = 11)"

definition wf_dir_entry :: "dir_entry \<Rightarrow> bool" where
  "wf_dir_entry e = (length (name e) = MAX_NAME_LEN)"

text \<open>\<^verbatim>\<open>Inode ino{}\<close> and \<^verbatim>\<open>DirEntry e{}\<close>: every byte zero.\<close>

definition zero_inode :: inode where
  "zero_inode = \<lparr>id_of = 0, mode = 0, link_count = 0, size_of = 0, mtime = 0, block_count = 0,
     direct = replicate DIRECT_PTRS 0, single_indirect = 0, double_indirect = 0,
     pad = replicate 11 0\<rparr>"

definition zero_dir_entry :: dir_entry where
  "zero_dir_entry = \<lparr>inode_id = 0, name_len = 0, dtype = 0, name = replicate MAX_NAME_LEN 0\<rparr>"

section \<open>Structs as bytes\<close>

definition encode_superblock :: "superblock \<Rightarrow> bytes" where
  "encode_superblock sb =
     le32 (magic sb) @ le32 (block_size sb) @ le32 (total_blocks sb) @ le32 (inode_count sb) @
     le32 (inode_bitmap_start sb) @ le32 (data_bitmap_start sb) @ le32 (inode_table_start sb) @
     le32 (data_start sb) @ le32 (root_inode sb) @ le32 (clean_unmount sb) @
     le64 (last_checkpoint_lsn sb)"

definition decode_superblock :: "bytes \<Rightarrow> superblock" where
  "decode_superblock b =
     \<lparr>magic = rd32 0 b, block_size = rd32 4 b, total_blocks = rd32 8 b, inode_count = rd32 12 b,
      inode_bitmap_start = rd32 16 b, data_bitmap_start = rd32 20 b, inode_table_start = rd32 24 b,
      data_start = rd32 28 b, root_inode = rd32 32 b, clean_unmount = rd32 36 b,
      last_checkpoint_lsn = rd64 40 b\<rparr>"

definition encode_inode :: "inode \<Rightarrow> bytes" where
  "encode_inode i =
     le32 (id_of i) @ le16 (mode i) @ le16 (link_count i) @ le64 (size_of i) @ le64 (mtime i) @
     le32 (block_count i) @ le32s (direct i) @ le32 (single_indirect i) @
     le32 (double_indirect i) @ le32s (pad i)"

definition decode_inode :: "bytes \<Rightarrow> inode" where
  "decode_inode b =
     \<lparr>id_of = rd32 0 b, mode = rd16 4 b, link_count = rd16 6 b, size_of = rd64 8 b,
      mtime = rd64 16 b, block_count = rd32 24 b, direct = rd32s 28 DIRECT_PTRS b,
      single_indirect = rd32 76 b, double_indirect = rd32 80 b, pad = rd32s 84 11 b\<rparr>"

definition encode_dir_entry :: "dir_entry \<Rightarrow> bytes" where
  "encode_dir_entry e = le32 (inode_id e) @ [name_len e, dtype e] @ name e"

definition decode_dir_entry :: "bytes \<Rightarrow> dir_entry" where
  "decode_dir_entry b =
     \<lparr>inode_id = rd32 0 b, name_len = b ! 4, dtype = b ! 5, name = get_at 6 MAX_NAME_LEN b\<rparr>"

text \<open>Where inode \<^term>\<open>ino\<close> lives: which block of the inode table, and how far into it.\<close>

definition inode_block :: "superblock \<Rightarrow> u32 \<Rightarrow> u32" where
  "inode_block sb ino = inode_table_start sb + ino div of_nat INODES_PER_BLOCK"

definition inode_offset :: "u32 \<Rightarrow> nat" where
  "inode_offset ino = (unat ino mod INODES_PER_BLOCK) * INODE_SIZE"

section \<open>Round trips\<close>

lemma layout_numbers [simp]:
  "BLOCK_SIZE = 4096" "BITS_PER_BLOCK = 32768" "INODE_SIZE = 128" "INODES_PER_BLOCK = 32"
  "DIRENT_SIZE = 64" "DIRENTS_PER_BLOCK = 64" "DIRECT_PTRS = 12" "BLOCKS_PER_INODE = 16"
  "MAX_NAME_LEN = 58" "PTRS_PER_BLOCK = 1024" "MAX_FILE_BLOCKS = 1049612"
  by (simp_all add: layout_consts)

lemma length_zero_block [simp]: "length zero_block = 4096"
  by (simp add: zero_block_def)

lemma is_block_zero [simp]: "is_block zero_block"
  by (simp add: is_block_def)

lemma wf_zero_inode [simp]: "wf_inode zero_inode"
  by (simp add: wf_inode_def zero_inode_def)

lemma wf_zero_dir_entry [simp]: "wf_dir_entry zero_dir_entry"
  by (simp add: wf_dir_entry_def zero_dir_entry_def)

lemma length_encode_superblock [simp]: "length (encode_superblock sb) = 48"
  by (simp add: encode_superblock_def)

lemma length_encode_inode [simp]: "wf_inode i \<Longrightarrow> length (encode_inode i) = 128"
  by (simp add: encode_inode_def wf_inode_def)

lemma length_encode_dir_entry [simp]: "wf_dir_entry e \<Longrightarrow> length (encode_dir_entry e) = 64"
  by (simp add: encode_dir_entry_def wf_dir_entry_def)

lemma wf_decode_inode [simp]: "wf_inode (decode_inode b)"
  by (simp add: wf_inode_def decode_inode_def)

lemma wf_decode_dir_entry: "64 \<le> length b \<Longrightarrow> wf_dir_entry (decode_dir_entry b)"
  by (simp add: wf_dir_entry_def decode_dir_entry_def)

lemma decode_encode_superblock [simp]:
  "decode_superblock (encode_superblock sb @ rest) = sb"
  by (simp add: decode_superblock_def encode_superblock_def rd32_def rd64_def get_at_def)

lemma get_at_le32s_append:
  "i < length ws \<Longrightarrow> n = 4 \<Longrightarrow> get_at (4 * i) n (le32s ws @ rest) = le32 (ws ! i)"
  by (simp add: get_at_append_left get_at_le32s)

lemma rd32s_mid:
  assumes "off = length pre" and "n = length ws"
  shows "rd32s off n (pre @ le32s ws @ rest) = ws"
proof (rule nth_equalityI)
  fix i assume "i < length (rd32s off n (pre @ le32s ws @ rest))"
  then show "rd32s off n (pre @ le32s ws @ rest) ! i = ws ! i"
    using assms by (simp add: rd32_def get_at_append_right get_at_le32s_append)
qed (simp add: assms)

lemma decode_encode_inode [simp]:
  assumes "wf_inode i"
  shows "decode_inode (encode_inode i @ rest) = i"
proof -
  let ?b = "encode_inode i @ rest"
  have d: "rd32s 28 12 ?b = direct i"
    using rd32s_mid [of 28 "le32 (id_of i) @ le16 (mode i) @ le16 (link_count i) @ le64 (size_of i) @
      le64 (mtime i) @ le32 (block_count i)" 12 "direct i"] assms
    by (simp add: encode_inode_def wf_inode_def)
  have p: "rd32s 84 11 ?b = pad i"
    using rd32s_mid [of 84 "le32 (id_of i) @ le16 (mode i) @ le16 (link_count i) @ le64 (size_of i) @
      le64 (mtime i) @ le32 (block_count i) @ le32s (direct i) @ le32 (single_indirect i) @
      le32 (double_indirect i)" 11 "pad i"] assms
    by (simp add: encode_inode_def wf_inode_def)
  show ?thesis
    using assms d p
    by (simp add: decode_inode_def)
       (simp add: encode_inode_def wf_inode_def rd16_def rd32_def rd64_def get_at_def)
qed

lemma decode_encode_dir_entry [simp]:
  "wf_dir_entry e \<Longrightarrow> decode_dir_entry (encode_dir_entry e @ rest) = e"
  by (simp add: decode_dir_entry_def encode_dir_entry_def wf_dir_entry_def rd32_def get_at_def
      nth_append)

lemmas decode_encode_exact =
  decode_encode_superblock [where rest = "[]", simplified]
  decode_encode_inode [where rest = "[]", simplified]
  decode_encode_dir_entry [where rest = "[]", simplified]

lemma inode_offset_bound: "inode_offset ino + 128 \<le> 4096"
proof -
  have "unat ino mod 32 < 32" by simp
  then show ?thesis unfolding inode_offset_def by simp
qed

end
