(* ===== verification/Block_Device.thy ===== *)
theory Block_Device
  imports Fault Layout
begin

text \<open>
  \<^verbatim>\<open>src/src/block_device.cpp\<close> and \<^verbatim>\<open>src/include/vfs/block_device.h\<close>: the only code that
  touches the disk image. The abstract class \<^verbatim>\<open>BlockDevice\<close> is a record of its operations
  over a state type, \<^verbatim>\<open>PreadDevice\<close> and \<^verbatim>\<open>InstrumentedDevice\<close> are two such records, and
  the locale \<^verbatim>\<open>block_dev\<close> is what their callers rely on: a device is an array of blocks.
\<close>

section \<open>The interface\<close>

record 'd device =
  read_block :: "u32 \<Rightarrow> ('d, block) op"
  write_block :: "u32 \<Rightarrow> block \<Rightarrow> ('d, unit) op"
  write_run :: "u32 \<Rightarrow> bytes \<Rightarrow> u32 \<Rightarrow> ('d, unit) op"
  dev_sync :: "('d, unit) op"
  dev_count :: u32

text \<open>\<^verbatim>\<open>BlockDevice::write_run\<close>, for a device that does not override it.\<close>

definition default_write_run ::
  "(u32 \<Rightarrow> block \<Rightarrow> ('d, unit) op) \<Rightarrow> u32 \<Rightarrow> bytes \<Rightarrow> u32 \<Rightarrow> ('d, unit) op" where
  "default_write_run wr first data count =
     forE [0..<unat count]
       (\<lambda>i. wr (first + of_nat i) (get_at (i * BLOCK_SIZE) BLOCK_SIZE data))"

section \<open>PreadDevice\<close>

text \<open>The text \<^verbatim>\<open>strerror\<close> adds to the name of the failed call is the host's, and left out.\<close>

definition throw_errno :: "string \<Rightarrow> exn" where
  "throw_errno operation = RuntimeError operation"

definition block_offset :: "u32 \<Rightarrow> nat" where
  "block_offset block_no = unat block_no * BLOCK_SIZE"

text \<open>The loop of \<^verbatim>\<open>read_full\<close>, with the bytes read so far.\<close>

function read_full_loop :: "bytes \<Rightarrow> nat \<Rightarrow> (posix_file, bytes) op" where
  "read_full_loop done off f =
     (if length done < BLOCK_SIZE then
        case posix_pread (BLOCK_SIZE - length done) (off + length done) f of
          (Inl e, f') \<Rightarrow>
            if e = EINTR then read_full_loop done off f' else (Raise (throw_errno ''pread''), f')
        | (Inr bs, f') \<Rightarrow>
            if bs = [] then (Raise (RuntimeError ''short read''), f')
            else read_full_loop (done @ bs) off f'
      else (Ret done, f))"
  by pat_completeness auto
termination
  by (relation "measures [\<lambda>(done, off, f). BLOCK_SIZE - length done, \<lambda>(done, off, f). length (script f)]")
     (auto dest!: posix_pread_progress [OF sym] simp flip: length_greater_0_conv)

declare read_full_loop.simps [simp del]

definition read_full :: "nat \<Rightarrow> nat \<Rightarrow> (world, bytes) op" where
  "read_full fd off = on_file fd (read_full_loop [] off)"

text \<open>The loop of \<^verbatim>\<open>write_full\<close>, with the bytes still to be written.\<close>

function write_full_loop :: "bytes \<Rightarrow> nat \<Rightarrow> (posix_file, unit) op" where
  "write_full_loop src off f =
     (if src = [] then (Ret (), f)
      else case posix_pwrite src off f of
        (Inl e, f') \<Rightarrow>
          if e = EINTR then write_full_loop src off f' else (Raise (throw_errno ''pwrite''), f')
      | (Inr n, f') \<Rightarrow>
          if n = 0 then (Raise (RuntimeError ''short write''), f')
          else write_full_loop (drop n src) (off + n) f')"
  by pat_completeness auto
termination
  by (relation "measures [\<lambda>(src, off, f). length src, \<lambda>(src, off, f). length (script f)]")
     (auto simp: posix_pwrite_def next_event_def split: io_event.splits list.splits prod.splits)

declare write_full_loop.simps [simp del]

definition write_full :: "nat \<Rightarrow> bytes \<Rightarrow> nat \<Rightarrow> (world, unit) op" where
  "write_full fd src off = thenE (before_write fd src off) (on_file fd (write_full_loop src off))"

text \<open>The loop of \<^verbatim>\<open>sync\<close>: \<^verbatim>\<open>fsync\<close> until it is not interrupted.\<close>

function fsync_loop :: "(posix_file, unit) op" where
  "fsync_loop f = (case posix_fsync f of
       (None, f') \<Rightarrow> (Ret (), f')
     | (Some e, f') \<Rightarrow>
         if e = EINTR then fsync_loop f' else (Raise (throw_errno ''fsync''), f'))"
  by pat_completeness auto
termination
  by (relation "measure (\<lambda>f. length (script f))")
     (auto simp: posix_fsync_def next_event_def split: io_event.splits list.splits prod.splits)

declare fsync_loop.simps [simp del]

record pread_dev =
  pd_fd :: nat
  pd_count :: u32

definition pd_create :: "bytes \<Rightarrow> u32 \<Rightarrow> (world, pread_dev) op" where
  "pd_create path count =
     (if count = 0
      then throwE (InvalidArgument ''cannot create a disk with zero blocks'')
      else bindE (\<lambda>w. case posix_open path True True w of (r, w') \<Rightarrow> (Ret r, w')) (\<lambda>r. case r of
          Inl e \<Rightarrow>
            if e = EEXIST
            then throwE (RuntimeError (''refusing to overwrite an existing file: '' @ map (\<lambda>b. char_of (unat b)) path))
            else throwE (throw_errno ''open'')
        | Inr fd \<Rightarrow>
            bindE (\<lambda>w. case on_file fd (posix_ftruncate (unat count * BLOCK_SIZE)) w of (r, w') \<Rightarrow> (Ret r, w'))
              (\<lambda>r. case r of
                 Some e \<Rightarrow> throwE (throw_errno ''ftruncate'')
               | None \<Rightarrow> retE \<lparr>pd_fd = fd, pd_count = count\<rparr>)))"

definition pd_open :: "bytes \<Rightarrow> (world, pread_dev) op" where
  "pd_open path =
     bindE (\<lambda>w. case posix_open path False False w of (r, w') \<Rightarrow> (Ret r, w')) (\<lambda>r. case r of
         Inl e \<Rightarrow> throwE (throw_errno ''open'')
       | Inr fd \<Rightarrow>
           bindE (\<lambda>w. case on_file fd posix_fstat_size w of (r, w') \<Rightarrow> (Ret r, w')) (\<lambda>r. case r of
               Inl e \<Rightarrow> throwE (throw_errno ''fstat'')
             | Inr st_size \<Rightarrow>
                 if st_size mod BLOCK_SIZE \<noteq> 0
                 then throwE (RuntimeError ''disk size is not a multiple of BLOCK_SIZE'')
                 else if st_size = 0 then throwE (RuntimeError ''disk image is empty'')
                 else retE \<lparr>pd_fd = fd, pd_count = of_nat (st_size div BLOCK_SIZE)\<rparr>))"

definition pd_read_block :: "pread_dev \<Rightarrow> u32 \<Rightarrow> (world, block) op" where
  "pd_read_block d block_no =
     (if block_no \<ge> pd_count d then throwE (OutOfRange ''block number out of range'')
      else read_full (pd_fd d) (block_offset block_no))"

definition pd_write_block :: "pread_dev \<Rightarrow> u32 \<Rightarrow> block \<Rightarrow> (world, unit) op" where
  "pd_write_block d block_no src =
     (if block_no \<ge> pd_count d then throwE (OutOfRange ''block number out of range'')
      else write_full (pd_fd d) src (block_offset block_no))"

definition pd_write_run :: "pread_dev \<Rightarrow> u32 \<Rightarrow> bytes \<Rightarrow> u32 \<Rightarrow> (world, unit) op" where
  "pd_write_run d first data count =
     (if (ucast first :: u64) + ucast count > ucast (pd_count d)
      then throwE (OutOfRange ''block number out of range'')
      else write_full (pd_fd d) (take (unat count * BLOCK_SIZE) data) (block_offset first))"

definition pd_sync :: "pread_dev \<Rightarrow> (world, unit) op" where
  "pd_sync d = on_file (pd_fd d) fsync_loop"

definition pread_device :: "pread_dev \<Rightarrow> world device" where
  "pread_device d = \<lparr>read_block = pd_read_block d, write_block = pd_write_block d,
     write_run = pd_write_run d, dev_sync = pd_sync d, dev_count = pd_count d\<rparr>"

section \<open>InstrumentedDevice\<close>

text \<open>The sleep of \<^verbatim>\<open>delay()\<close> has no effect on the data and is left out.\<close>

record 'd instrumented =
  inner :: 'd
  reads :: u64
  writes :: u64

definition on_inner :: "('d, 'a) op \<Rightarrow> ('d instrumented, 'a) op" where
  "on_inner = zoomE inner (\<lambda>d s. s\<lparr>inner := d\<rparr>)"

definition inst_read_block :: "'d device \<Rightarrow> u32 \<Rightarrow> ('d instrumented, block) op" where
  "inst_read_block D block_no =
     bindE (on_inner (read_block D block_no)) (\<lambda>b.
     thenE (modE (\<lambda>s. s\<lparr>reads := reads s + 1\<rparr>))
     (retE b))"

definition inst_write_block :: "'d device \<Rightarrow> u32 \<Rightarrow> block \<Rightarrow> ('d instrumented, unit) op" where
  "inst_write_block D block_no src =
     thenE (on_inner (write_block D block_no src)) (modE (\<lambda>s. s\<lparr>writes := writes s + 1\<rparr>))"

definition inst_write_run :: "'d device \<Rightarrow> u32 \<Rightarrow> bytes \<Rightarrow> u32 \<Rightarrow> ('d instrumented, unit) op" where
  "inst_write_run D first data count =
     thenE (on_inner (write_run D first data count))
       (modE (\<lambda>s. s\<lparr>writes := writes s + ucast count\<rparr>))"

definition inst_sync :: "'d device \<Rightarrow> bool \<Rightarrow> ('d instrumented, unit) op" where
  "inst_sync D sync_enabled = whenE sync_enabled (on_inner (dev_sync D))"

definition instrumented_device :: "'d device \<Rightarrow> bool \<Rightarrow> 'd instrumented device" where
  "instrumented_device D sync_enabled = \<lparr>read_block = inst_read_block D,
     write_block = inst_write_block D, write_run = inst_write_run D,
     dev_sync = inst_sync D sync_enabled, dev_count = dev_count D\<rparr>"

definition inst_reset_counts :: "('d instrumented, unit) op" where
  "inst_reset_counts = modE (\<lambda>s. s\<lparr>reads := 0, writes := 0\<rparr>)"

section \<open>What a device promises\<close>

text \<open>Block \<^term>\<open>i\<close> of a run of blocks laid end to end.\<close>

definition chunk :: "bytes \<Rightarrow> nat \<Rightarrow> block" where
  "chunk data i = get_at (i * BLOCK_SIZE) BLOCK_SIZE data"

definition run_update :: "(u32 \<Rightarrow> block) \<Rightarrow> u32 \<Rightarrow> bytes \<Rightarrow> nat \<Rightarrow> u32 \<Rightarrow> block" where
  "run_update m first data n b =
     (if first \<le> b \<and> unat b < unat first + n then chunk data (unat b - unat first) else m b)"

locale block_dev =
  fixes D :: "'d device" and invar :: "'d \<Rightarrow> bool" and blocks :: "'d \<Rightarrow> u32 \<Rightarrow> block"
  assumes blocks_len: "invar d \<Longrightarrow> b < dev_count D \<Longrightarrow> is_block (blocks d b)"
    and read_ok: "invar d \<Longrightarrow> b < dev_count D \<Longrightarrow>
        \<exists>d'. read_block D b d = (Ret (blocks d b), d') \<and> invar d' \<and> blocks d' = blocks d"
    and write_ok: "invar d \<Longrightarrow> b < dev_count D \<Longrightarrow> is_block x \<Longrightarrow>
        \<exists>d'. write_block D b x d = (Ret (), d') \<and> invar d' \<and> blocks d' = (blocks d)(b := x)"
    and write_run_ok: "invar d \<Longrightarrow> unat first + unat n \<le> unat (dev_count D) \<Longrightarrow>
        unat n * BLOCK_SIZE \<le> length data \<Longrightarrow>
        \<exists>d'. write_run D first data n d = (Ret (), d') \<and> invar d' \<and>
             blocks d' = run_update (blocks d) first data (unat n)"
    and sync_ok: "invar d \<Longrightarrow> \<exists>d'. dev_sync D d = (Ret (), d') \<and> invar d' \<and> blocks d' = blocks d"
    and read_range: "\<not> b < dev_count D \<Longrightarrow> \<exists>e. read_block D b d = (Raise e, d)"
    and write_range: "\<not> b < dev_count D \<Longrightarrow> \<exists>e. write_block D b x d = (Raise e, d)"
begin

text \<open>A sequence of block writes leaves, in every block, the last thing written to it.\<close>

definition write_all :: "(u32 \<times> block) list \<Rightarrow> ('d, unit) op" where
  "write_all ws = forE ws (\<lambda>(b, x). write_block D b x)"

lemma write_all_ok:
  "invar d \<Longrightarrow> (\<forall>(b, x) \<in> set ws. b < dev_count D \<and> is_block x) \<Longrightarrow>
   \<exists>d'. write_all ws d = (Ret (), d') \<and> invar d' \<and>
        blocks d' = fold (\<lambda>(b, x) m. m(b := x)) ws (blocks d)"
proof (induction ws arbitrary: d)
  case Nil
  then show ?case by (simp add: write_all_def)
next
  case (Cons w ws)
  obtain b x where w: "w = (b, x)" by (cases w)
  with Cons.prems obtain d1 where d1: "write_block D b x d = (Ret (), d1)" "invar d1"
    "blocks d1 = (blocks d)(b := x)" using write_ok [of d b x] by auto
  with Cons.IH [of d1] Cons.prems(2) show ?case
    by (auto simp: write_all_def w)
qed

lemma write_read:
  assumes "invar d" "b < dev_count D" "is_block x"
  shows "\<exists>d'. thenE (write_block D b x) (read_block D b) d = (Ret x, d') \<and> invar d'"
proof -
  from write_ok [OF assms] obtain d1 where d1: "write_block D b x d = (Ret (), d1)" "invar d1"
    "blocks d1 = (blocks d)(b := x)" by blast
  with read_ok [OF d1(2) assms(2)] show ?thesis by auto
qed

text \<open>
  Writing a run in one call, which a device may do its own way, is the same as the default
  \<^verbatim>\<open>write_run\<close> that writes its blocks one by one.
\<close>

lemma default_write_run_ok:
  assumes "invar d" and "unat first + unat n \<le> unat (dev_count D)"
    and "unat n * BLOCK_SIZE \<le> length data"
  shows "\<exists>d'. default_write_run (write_block D) first data n d = (Ret (), d') \<and> invar d' \<and>
             blocks d' = run_update (blocks d) first data (unat n)"
proof -
  have "\<exists>d'. forE [0..<k] (\<lambda>i. write_block D (first + of_nat i) (chunk data i)) d = (Ret (), d') \<and>
      invar d' \<and> blocks d' = run_update (blocks d) first data k" if "k \<le> unat n" for k
    using that
  proof (induction k)
    case 0
    have "run_update (blocks d) first data 0 = blocks d"
      by (rule ext) (auto simp: run_update_def word_le_nat_alt)
    with assms(1) show ?case by simp
  next
    case (Suc k)
    then obtain d1 where d1: "forE [0..<k] (\<lambda>i. write_block D (first + of_nat i) (chunk data i)) d = (Ret (), d1)"
      "invar d1" "blocks d1 = run_update (blocks d) first data k" by auto
    have lt: "unat first + k < unat (dev_count D)" using Suc.prems assms(2) by simp
    then have small: "unat first + k < 2 ^ 32"
      using unat_less_2p [of "dev_count D"] by simp
    have u: "unat (first + of_nat k) = unat first + k"
      using small by (simp add: unat_word_ariths unat_of_nat)
    then have b: "first + of_nat k < dev_count D" using lt by (simp add: word_less_nat_alt)
    have "(k + 1) * BLOCK_SIZE \<le> length data"
      using Suc.prems assms(3) by (metis Suc_eq_plus1 le_trans mult_le_mono1)
    then have x: "is_block (chunk data k)" by (simp add: chunk_def is_block_def)
    obtain d2 where d2: "write_block D (first + of_nat k) (chunk data k) d1 = (Ret (), d2)" "invar d2"
      "blocks d2 = (blocks d1)(first + of_nat k := chunk data k)"
      using write_ok [OF d1(2) b x] by blast
    have "(run_update (blocks d) first data k)(first + of_nat k := chunk data k) =
        run_update (blocks d) first data (Suc k)"
    proof (rule ext)
      fix b
      show "((run_update (blocks d) first data k)(first + of_nat k := chunk data k)) b =
          run_update (blocks d) first data (Suc k) b"
      proof (cases "b = first + of_nat k")
        case True
        with u show ?thesis by (simp add: run_update_def word_le_nat_alt)
      next
        case False
        then have "unat b \<noteq> unat first + k" using u by (simp add: word_unat_eq_iff)
        with False show ?thesis by (auto simp: run_update_def)
      qed
    qed
    with d1 d2 show ?case by (auto simp: forE_append)
  qed
  from this [of "unat n"] show ?thesis by (simp add: default_write_run_def chunk_def)
qed

end

section \<open>The file loops are correct for every script without hard failures\<close>

lemma posix_pread_benign:
  assumes "benign f" and "posix_pread n off f = (r, f')"
  shows "benign f' \<and> content f' = content f \<and>
    (r = Inl EINTR \<or> (\<exists>k. r = Inr (get_at off k (content f)) \<and> k \<le> n \<and> (0 < n \<longrightarrow> 0 < k)))"
proof -
  obtain e f'' where e: "next_event f = (e, f'')" by fastforce
  from next_event_benign [OF assms(1) e] assms(2) e show ?thesis
    by (auto simp: posix_pread_def benign_event_def split: io_event.splits)
qed

lemma posix_pwrite_benign:
  assumes "benign f" and "posix_pwrite src off f = (r, f')"
  shows "benign f' \<and> (r = Inl EINTR \<and> content f' = content f \<or>
    (\<exists>k \<le> length src. r = Inr k \<and> (src \<noteq> [] \<longrightarrow> 0 < k) \<and>
        content f' = store_bytes off (take k src) (content f)))"
proof -
  obtain e f'' where e: "next_event f = (e, f'')" by fastforce
  note facts = next_event_benign [OF assms(1) e]
  show ?thesis
  proof (cases e)
    case Full
    with facts assms(2) e show ?thesis
      by (intro conjI disjI2 exI [of _ "length src"]) (auto simp: posix_pwrite_def benign_def)
  next
    case (Short k)
    with facts assms(2) e show ?thesis
      by (intro conjI disjI2 exI [of _ "min k (length src)"])
        (auto simp: posix_pwrite_def benign_def benign_event_def)
  next
    case (Fail n)
    with facts assms(2) e show ?thesis
      by (auto simp: posix_pwrite_def benign_event_def)
  qed
qed

lemma get_at_append_next:
  "get_at off m c @ get_at (off + m) k c = get_at off (m + k) c"
  by (simp add: get_at_def take_add add.commute [of off m])

lemma read_full_loop_ok:
  assumes "benign f" and "off + BLOCK_SIZE \<le> length (content f)"
    and "done = get_at off (length done) (content f)" and "length done \<le> BLOCK_SIZE"
  shows "\<exists>f'. read_full_loop done off f = (Ret (get_at off BLOCK_SIZE (content f)), f') \<and>
    benign f' \<and> content f' = content f"
  using assms
proof (induction "done" off f rule: read_full_loop.induct)
  case (1 "done" off f)
  show ?case
  proof (cases "length done < BLOCK_SIZE")
    case False
    with "1.prems" have "length done = BLOCK_SIZE" by simp
    with "1.prems" show ?thesis by (subst read_full_loop.simps) simp
  next
    case lt: True
    obtain r f' where pr: "posix_pread (BLOCK_SIZE - length done) (off + length done) f = (r, f')"
      by fastforce
    note facts = posix_pread_benign [OF "1.prems"(1) pr]
    show ?thesis
    proof (cases "r = Inl EINTR")
      case True
      with "1.IH"(1) [OF lt pr [symmetric] True] "1.prems" facts lt pr show ?thesis
        by (simp add: read_full_loop.simps [of "done"])
    next
      case False
      with facts lt obtain k where k: "r = Inr (get_at (off + length done) k (content f))"
        "k \<le> BLOCK_SIZE - length done" "0 < k" by auto
      let ?bs = "get_at (off + length done) k (content f)"
      have len: "length ?bs = k" using k(2) "1.prems"(2) by simp
      with k(3) have "0 < length ?bs" by linarith
      then have ne: "?bs \<noteq> []" by (rule length_greater_0_conv [THEN iffD1])
      have l: "length (done @ ?bs) = length done + k" by (simp only: length_append len)
      have "done @ ?bs = get_at off (length done + k) (content f)"
        using "1.prems"(3) get_at_append_next [of off "length done" "content f" k] by simp
      then have "done @ ?bs = get_at off (length (done @ ?bs)) (content f)" unfolding l .
      moreover have "length (done @ ?bs) \<le> BLOCK_SIZE" using l k(2) lt by simp
      ultimately show ?thesis
        using "1.IH"(2) [OF lt pr [symmetric] k(1) ne] "1.prems" facts lt pr k(1) ne
        by (simp add: read_full_loop.simps [of "done"])
    qed
  qed
qed

lemma write_full_loop_ok:
  assumes "benign f" and "off \<le> length (content f)"
  shows "\<exists>f'. write_full_loop src off f = (Ret (), f') \<and>
    benign f' \<and> content f' = store_bytes off src (content f)"
  using assms
proof (induction src off f rule: write_full_loop.induct)
  case (1 src off f)
  show ?case
  proof (cases "src = []")
    case True
    with "1.prems" show ?thesis by (simp add: write_full_loop.simps)
  next
    case src: False
    obtain r f' where pw: "posix_pwrite src off f = (r, f')" by fastforce
    note facts = posix_pwrite_benign [OF "1.prems"(1) pw]
    show ?thesis
    proof (cases "r = Inl EINTR")
      case True
      with facts have "benign f'" "content f' = content f" by auto
      with "1.IH"(1) [OF src pw [symmetric] True] "1.prems" src pw True show ?thesis
        by (simp add: write_full_loop.simps [of src])
    next
      case False
      with facts src obtain k where k: "r = Inr k" "0 < k" "k \<le> length src"
        "content f' = store_bytes off (take k src) (content f)" and b: "benign f'" by auto
      from k have "off + k \<le> length (content f')" by simp
      with "1.IH"(2) [OF src pw [symmetric] k(1)] k b obtain f'' where
        f'': "write_full_loop (drop k src) (off + k) f' = (Ret (), f'')" "benign f''"
        "content f'' = store_bytes (off + k) (drop k src) (content f')" by auto
      have "content f'' = store_bytes off src (content f)"
        using f''(3) k store_bytes_append [of off "take k src" "drop k src" "content f"]
        by (auto split: if_splits)
      with f'' src pw k show ?thesis by (simp add: write_full_loop.simps [of src])
    qed
  qed
qed

lemma fsync_loop_ok:
  "benign f \<Longrightarrow> \<exists>f'. fsync_loop f = (Ret (), f') \<and> benign f' \<and> content f' = content f"
proof (induction f rule: fsync_loop.induct)
  case (1 f)
  obtain e f' where e: "next_event f = (e, f')" by fastforce
  note facts = next_event_benign [OF "1.prems" e]
  show ?case
  proof (cases e)
    case (Fail n)
    with facts have n: "n = EINTR" by (simp add: benign_event_def)
    have ps: "posix_fsync f = (Some n, f')" using e Fail by (simp add: posix_fsync_def)
    show ?thesis
      using "1.IH" [OF ps [symmetric] refl n] facts ps n by (simp add: fsync_loop.simps [of f])
  qed (use facts e in \<open>simp_all add: fsync_loop.simps [of f] posix_fsync_def\<close>)
qed

text \<open>
  The torn write of a simulated crash goes through the same calls as the write it cuts
  short, so it leaves the file as a completed write of the kept prefix would.
\<close>

lemma torn_write_write_full_loop: "torn_write src off f = snd (write_full_loop src off f)"
proof (induction src off f rule: torn_write.induct)
  case (1 src off f)
  show ?case
  proof (cases "src = []")
    case True
    then show ?thesis by (simp add: torn_write.simps write_full_loop.simps)
  next
    case src: False
    obtain r f' where pw: "posix_pwrite src off f = (r, f')" by fastforce
    show ?thesis
    proof (cases r)
      case (Inl e)
      with src pw "1.IH"(1) [OF src pw [symmetric] Inl] show ?thesis
        by (simp add: torn_write.simps [of src] write_full_loop.simps [of src])
    next
      case (Inr n)
      with src pw "1.IH"(2) [OF src pw [symmetric] Inr] show ?thesis
        by (simp add: torn_write.simps [of src] write_full_loop.simps [of src])
    qed
  qed
qed

lemma torn_write_benign:
  "benign f \<Longrightarrow> off \<le> length (content f) \<Longrightarrow>
   benign (torn_write src off f) \<and>
   content (torn_write src off f) = store_bytes off src (content f)"
  using write_full_loop_ok [of f off src] by (auto simp: torn_write_write_full_loop)

section \<open>PreadDevice is a block device\<close>

definition pd_ok :: "pread_dev \<Rightarrow> world \<Rightarrow> bool" where
  "pd_ok d w \<longleftrightarrow> benign (wfile w (pd_fd d)) \<and> fatal (wfault w) = 0 \<and>
     length (content (wfile w (pd_fd d))) = unat (pd_count d) * BLOCK_SIZE"

definition pd_blocks :: "pread_dev \<Rightarrow> world \<Rightarrow> u32 \<Rightarrow> block" where
  "pd_blocks d w b = get_at (block_offset b) BLOCK_SIZE (content (wfile w (pd_fd d)))"

lemma block_in_range:
  assumes "b < (n :: u32)"
  shows "block_offset b + BLOCK_SIZE \<le> unat n * BLOCK_SIZE"
proof -
  have "Suc (unat b) \<le> unat n" using assms by (simp add: word_less_nat_alt)
  then have "Suc (unat b) * BLOCK_SIZE \<le> unat n * BLOCK_SIZE" by (rule mult_le_mono1)
  then show ?thesis by (simp add: block_offset_def)
qed

lemma blocks_apart:
  "b \<noteq> (b' :: u32) \<Longrightarrow>
   block_offset b + BLOCK_SIZE \<le> block_offset b' \<or> block_offset b' + BLOCK_SIZE \<le> block_offset b"
proof -
  assume "b \<noteq> b'"
  then have "Suc (unat b) \<le> unat b' \<or> Suc (unat b') \<le> unat b"
    by (simp add: word_unat_eq_iff) linarith
  then have "Suc (unat b) * BLOCK_SIZE \<le> unat b' * BLOCK_SIZE \<or>
      Suc (unat b') * BLOCK_SIZE \<le> unat b * BLOCK_SIZE"
    using mult_le_mono1 by blast
  then show ?thesis by (auto simp: block_offset_def)
qed

lemma write_full_ok:
  assumes "benign (wfile w fd)" and "fatal (wfault w) = 0" and "off \<le> length (content (wfile w fd))"
  shows "\<exists>w'. write_full fd src off w = (Ret (), w') \<and> benign (wfile w' fd) \<and>
    fatal (wfault w') = 0 \<and>
    content (wfile w' fd) = store_bytes off src (content (wfile w fd)) \<and>
    (\<forall>fd'. fd' \<noteq> fd \<longrightarrow> wfile w' fd' = wfile w fd')"
proof -
  obtain f' where "write_full_loop src off (wfile w fd) = (Ret (), f')" "benign f'"
    "content f' = store_bytes off src (content (wfile w fd))"
    using write_full_loop_ok [OF assms(1,3)] by blast
  then show ?thesis
    using before_write_unarmed [OF assms(2)] assms(2)
    by (simp add: write_full_def on_file_def)
qed

lemma pd_read_block_ok:
  assumes "pd_ok d w" and "b < pd_count d"
  shows "\<exists>w'. pd_read_block d b w = (Ret (pd_blocks d w b), w') \<and> pd_ok d w' \<and>
    pd_blocks d w' = pd_blocks d w"
proof -
  have "block_offset b + BLOCK_SIZE \<le> length (content (wfile w (pd_fd d)))"
    using block_in_range [OF assms(2)] assms(1) by (simp add: pd_ok_def)
  then obtain f' where f': "read_full_loop [] (block_offset b) (wfile w (pd_fd d)) =
      (Ret (get_at (block_offset b) BLOCK_SIZE (content (wfile w (pd_fd d)))), f')"
    "benign f'" "content f' = content (wfile w (pd_fd d))"
    using read_full_loop_ok [of "wfile w (pd_fd d)" "block_offset b" "[]"] assms(1)
    by (auto simp: pd_ok_def get_at_def)
  then show ?thesis using assms
    by (auto simp: pd_read_block_def read_full_def on_file_def pd_ok_def pd_blocks_def fun_eq_iff)
qed

lemma pd_write_block_ok:
  assumes "pd_ok d w" and "b < pd_count d" and "is_block x"
  shows "\<exists>w'. pd_write_block d b x w = (Ret (), w') \<and> pd_ok d w' \<and>
    pd_blocks d w' = (pd_blocks d w)(b := x)"
proof -
  let ?c = "content (wfile w (pd_fd d))"
  have fits: "block_offset b + length x \<le> length ?c"
    using block_in_range [OF assms(2)] assms(1,3) by (simp add: pd_ok_def is_block_def)
  then obtain w' where w': "write_full (pd_fd d) x (block_offset b) w = (Ret (), w')"
    "benign (wfile w' (pd_fd d))" "fatal (wfault w') = 0"
    "content (wfile w' (pd_fd d)) = put_at (block_offset b) x ?c"
    using write_full_ok [of w "pd_fd d" "block_offset b" x] assms(1)
    by (auto simp: pd_ok_def store_bytes_inside)
  have "pd_blocks d w' = (pd_blocks d w)(b := x)"
  proof (rule ext)
    fix b'
    show "pd_blocks d w' b' = ((pd_blocks d w)(b := x)) b'"
      using w'(4) fits assms(3) blocks_apart [of b b']
      by (cases "b' = b") (auto simp: pd_blocks_def is_block_def intro!: get_at_put_at_disjoint)
  qed
  with w' fits assms show ?thesis by (auto simp: pd_write_block_def pd_ok_def)
qed

lemma unat_ucast_u64 [simp]: "unat (ucast (x :: u32) :: u64) = unat x"
  using unat_less_2p [of x] by (simp add: unsigned_ucast_eq take_bit_nat_eq_self)

lemma u64_sum_check:
  "\<not> (ucast (a :: u32) + ucast (n :: u32) > (ucast c :: u64)) \<longleftrightarrow> unat a + unat n \<le> unat (c :: u32)"
  using unat_less_2p [of a] unat_less_2p [of n]
  by (simp add: word_less_nat_alt unat_word_ariths not_less)

lemma pd_write_run_ok:
  assumes "pd_ok d w" and "unat first + unat n \<le> unat (pd_count d)"
    and "unat n * BLOCK_SIZE \<le> length data"
  shows "\<exists>w'. pd_write_run d first data n w = (Ret (), w') \<and> pd_ok d w' \<and>
    pd_blocks d w' = run_update (pd_blocks d w) first data (unat n)"
proof -
  let ?c = "content (wfile w (pd_fd d))"
  let ?src = "take (unat n * BLOCK_SIZE) data"
  have len: "length ?src = unat n * BLOCK_SIZE" using assms(3) by simp
  have "(unat first + unat n) * BLOCK_SIZE \<le> unat (pd_count d) * BLOCK_SIZE"
    using assms(2) by (rule mult_le_mono1)
  then have fits: "block_offset first + length ?src \<le> length ?c"
    using assms(1) len by (simp add: pd_ok_def block_offset_def algebra_simps)
  then obtain w' where w': "write_full (pd_fd d) ?src (block_offset first) w = (Ret (), w')"
    "benign (wfile w' (pd_fd d))" "fatal (wfault w') = 0"
    "content (wfile w' (pd_fd d)) = put_at (block_offset first) ?src ?c"
    using write_full_ok [of w "pd_fd d" "block_offset first" ?src] assms(1)
    by (auto simp: pd_ok_def store_bytes_inside)
  have "pd_blocks d w' b = run_update (pd_blocks d w) first data (unat n) b" for b
  proof (cases "first \<le> b \<and> unat b < unat first + unat n")
    case True
    then obtain k where k: "unat b = unat first + k" "k < unat n"
      by (metis le_Suc_ex nat_add_left_cancel_less word_le_nat_alt)
    then have "Suc k * BLOCK_SIZE \<le> unat n * BLOCK_SIZE" by (intro mult_le_mono1) simp
    then have "k * BLOCK_SIZE + BLOCK_SIZE \<le> length ?src" using len by simp
    moreover from this have "get_at (k * BLOCK_SIZE) BLOCK_SIZE ?src = chunk data k"
      using get_at_append_left [of "k * BLOCK_SIZE" BLOCK_SIZE ?src "drop (unat n * BLOCK_SIZE) data"]
      by (simp add: chunk_def)
    ultimately show ?thesis
      using True k w'(4) fits
      by (simp add: pd_blocks_def run_update_def block_offset_def get_at_inside_put_at)
  next
    case False
    then have "unat b < unat first \<or> unat first + unat n \<le> unat b"
      by (auto simp: word_le_nat_alt)
    then have "Suc (unat b) * BLOCK_SIZE \<le> unat first * BLOCK_SIZE \<or>
        (unat first + unat n) * BLOCK_SIZE \<le> unat b * BLOCK_SIZE"
      by (meson Suc_leI mult_le_mono1)
    then have "block_offset b + BLOCK_SIZE \<le> block_offset first \<or>
        block_offset first + length ?src \<le> block_offset b"
      using len by (simp add: block_offset_def algebra_simps)
    with False w'(4) fits show ?thesis
      by (auto simp: pd_blocks_def run_update_def get_at_put_at_disjoint)
  qed
  with w' fits assms show ?thesis
    by (auto simp: pd_write_run_def pd_ok_def fun_eq_iff u64_sum_check)
qed

lemma pd_sync_ok:
  "pd_ok d w \<Longrightarrow> \<exists>w'. pd_sync d w = (Ret (), w') \<and> pd_ok d w' \<and> pd_blocks d w' = pd_blocks d w"
  using fsync_loop_ok [of "wfile w (pd_fd d)"]
  by (auto simp: pd_sync_def on_file_def pd_ok_def pd_blocks_def fun_eq_iff)

interpretation pread: block_dev "pread_device d" "pd_ok d" "pd_blocks d" for d
proof
  show "is_block (pd_blocks d w b)" if "pd_ok d w" "b < dev_count (pread_device d)" for w b
    using block_in_range [of b "pd_count d"] that
    by (simp add: is_block_def pd_blocks_def pread_device_def pd_ok_def)
qed (use pd_read_block_ok pd_write_block_ok pd_write_run_ok pd_sync_ok in
      \<open>auto simp: pread_device_def pd_read_block_def [abs_def] pd_write_block_def [abs_def]
        not_less\<close>)

section \<open>InstrumentedDevice is a block device wherever its inner device is\<close>

context block_dev
begin

lemma inst_block_dev:
  "block_dev (instrumented_device D sync_enabled) (\<lambda>s. invar (inner s)) (\<lambda>s. blocks (inner s))"
proof
  fix s :: "'d instrumented" and b assume "invar (inner s)" "b < dev_count (instrumented_device D sync_enabled)"
  then show "is_block (blocks (inner s) b)" by (simp add: instrumented_device_def blocks_len)
next
  fix s :: "'d instrumented" and b assume "invar (inner s)" "b < dev_count (instrumented_device D sync_enabled)"
  then show "\<exists>s'. read_block (instrumented_device D sync_enabled) b s = (Ret (blocks (inner s) b), s') \<and>
      invar (inner s') \<and> blocks (inner s') = blocks (inner s)"
    using read_ok [of "inner s" b]
    by (auto simp: instrumented_device_def inst_read_block_def on_inner_def zoomE_def bindE_def)
next
  fix s :: "'d instrumented" and b x
  assume "invar (inner s)" "b < dev_count (instrumented_device D sync_enabled)" "is_block x"
  then show "\<exists>s'. write_block (instrumented_device D sync_enabled) b x s = (Ret (), s') \<and>
      invar (inner s') \<and> blocks (inner s') = (blocks (inner s))(b := x)"
    using write_ok [of "inner s" b x]
    by (auto simp: instrumented_device_def inst_write_block_def on_inner_def zoomE_def thenE_def bindE_def)
next
  fix s :: "'d instrumented" and first n :: u32 and data :: bytes
  assume "invar (inner s)" "unat first + unat n \<le> unat (dev_count (instrumented_device D sync_enabled))"
    "unat n * BLOCK_SIZE \<le> length data"
  then show "\<exists>s'. write_run (instrumented_device D sync_enabled) first data n s = (Ret (), s') \<and>
      invar (inner s') \<and> blocks (inner s') = run_update (blocks (inner s)) first data (unat n)"
    using write_run_ok [of "inner s" first n data]
    by (auto simp: instrumented_device_def inst_write_run_def on_inner_def zoomE_def thenE_def bindE_def)
next
  fix s :: "'d instrumented" assume "invar (inner s)"
  then show "\<exists>s'. dev_sync (instrumented_device D sync_enabled) s = (Ret (), s') \<and>
      invar (inner s') \<and> blocks (inner s') = blocks (inner s)"
    using sync_ok [of "inner s"]
    by (cases sync_enabled) (auto simp: instrumented_device_def inst_sync_def on_inner_def zoomE_def)
next
  fix s :: "'d instrumented" and b assume "\<not> b < dev_count (instrumented_device D sync_enabled)"
  then show "\<exists>e. read_block (instrumented_device D sync_enabled) b s = (Raise e, s)"
    using read_range [of b "inner s"]
    by (auto simp: instrumented_device_def inst_read_block_def on_inner_def zoomE_def bindE_def)
next
  fix s :: "'d instrumented" and b x assume "\<not> b < dev_count (instrumented_device D sync_enabled)"
  then show "\<exists>e. write_block (instrumented_device D sync_enabled) b x s = (Raise e, s)"
    using write_range [of b x "inner s"]
    by (auto simp: instrumented_device_def inst_write_block_def on_inner_def zoomE_def thenE_def bindE_def)
qed

end

interpretation disk: block_dev "instrumented_device (pread_device d) sync_enabled"
    "\<lambda>s. pd_ok d (inner s)" "\<lambda>s. pd_blocks d (inner s)" for d sync_enabled
  by (rule pread.inst_block_dev)

section \<open>A write that the process does not survive\<close>

lemma write_full_killed:
  assumes "write_full fd src off w = (Killed, w')" and "benign (wfile w fd)"
    and "off \<le> length (content (wfile w fd))" and "src \<noteq> []"
  shows "\<exists>keep. keep < length src \<and> keep mod SECTOR = 0 \<and>
    content (wfile w' fd) = store_bytes off (take keep src) (content (wfile w fd)) \<and>
    (\<forall>fd'. fd' \<noteq> fd \<longrightarrow> wfile w' fd' = wfile w fd')"
proof -
  let ?i = "counted (wfault w) + 1"
  let ?keep = "torn_length (crash_seed (wfault w)) ?i (length src)"
  have not_killed: "fst (write_full_loop src off f) \<noteq> Killed" for f
    by (induction src off f rule: write_full_loop.induct)
       (auto simp: write_full_loop.simps split: sum.split prod.split)
  have "fatal (wfault w) \<noteq> 0 \<and> ?i = fatal (wfault w)"
    using assms(1) not_killed [of "wfile w fd"]
    by (auto simp: write_full_def before_write_def Let_def thenE_def bindE_def on_file_def
        split: if_splits outcome.splits prod.splits)
  then have "w' = w\<lparr>wfault := (wfault w)\<lparr>counted := ?i\<rparr>,
      wfile := (wfile w)(fd := torn_write (take ?keep src) off (wfile w fd))\<rparr>"
    using assms(1) by (auto simp: write_full_def before_write_def Let_def thenE_def bindE_def)
  then show ?thesis
    using torn_write_benign [OF assms(2,3), of "take ?keep src"] torn_length_less [of "length src"]
      torn_length_sector assms(4)
    by (intro exI [of _ ?keep]) simp
qed

text \<open>
  C28. Whatever short transfers and interrupted system calls the host deals out, a block written
  to the disk image is written whole and is the block read back, and no other block of the
  image changes.
\<close>

theorem pd_write_then_read:
  assumes "pd_ok d w" and "b < pd_count d" and "is_block x"
  shows "\<exists>w1 w2. pd_write_block d b x w = (Ret (), w1) \<and> pd_read_block d b w1 = (Ret x, w2) \<and>
    pd_ok d w2 \<and> (\<forall>b'. b' \<noteq> b \<longrightarrow> pd_blocks d w2 b' = pd_blocks d w b')"
proof -
  from pd_write_block_ok [OF assms] obtain w1 where w1: "pd_write_block d b x w = (Ret (), w1)"
    "pd_ok d w1" "pd_blocks d w1 = (pd_blocks d w)(b := x)" by blast
  with pd_read_block_ok [OF w1(2) assms(2)] show ?thesis by auto
qed

text \<open>A two-block image whose first call is interrupted and whose second moves 100 bytes.\<close>

definition small_world :: world where
  "small_world = \<lparr>wfile = (\<lambda>_. \<lparr>content = replicate 8192 0, script = [Fail EINTR, Short 100]\<rparr>),
     wfault = \<lparr>counted = 0, fatal = 0, crash_seed = 0\<rparr>, wpaths = (\<lambda>_. None),
     wopen_err = (\<lambda>_. None), wnext = 5, wnew_script = []\<rparr>"

lemma small_world_ok: "pd_ok \<lparr>pd_fd = 3, pd_count = 2\<rparr> small_world"
  by (simp add: pd_ok_def small_world_def benign_def benign_event_def)

theorem pd_write_then_read_witness:
  "pd_ok \<lparr>pd_fd = 3, pd_count = 2\<rparr> small_world \<and> is_block zero_block \<and>
   (\<exists>w1 w2. pd_write_block \<lparr>pd_fd = 3, pd_count = 2\<rparr> 1 zero_block small_world = (Ret (), w1) \<and>
      pd_read_block \<lparr>pd_fd = 3, pd_count = 2\<rparr> 1 w1 = (Ret zero_block, w2) \<and>
      pd_ok \<lparr>pd_fd = 3, pd_count = 2\<rparr> w2 \<and>
      (\<forall>b'. b' \<noteq> 1 \<longrightarrow> pd_blocks \<lparr>pd_fd = 3, pd_count = 2\<rparr> w2 b' =
        pd_blocks \<lparr>pd_fd = 3, pd_count = 2\<rparr> small_world b'))"
  using pd_write_then_read [OF small_world_ok, of 1 zero_block] small_world_ok by simp

text \<open>
  C29. A process killed while it writes a block leaves that block torn at a sector boundary:
  some number of whole sectors of the new contents, fewer than all eight, followed by the old
  contents; every other block of the image is as it was.
\<close>

theorem pd_write_block_torn:
  assumes "pd_write_block d b x w = (Killed, w')" and "is_block x"
    and "benign (wfile w (pd_fd d))"
    and "length (content (wfile w (pd_fd d))) = unat (pd_count d) * BLOCK_SIZE"
  shows "(\<exists>k < 8. pd_blocks d w' b = take (k * SECTOR) x @ drop (k * SECTOR) (pd_blocks d w b)) \<and>
    (\<forall>b'. b' \<noteq> b \<longrightarrow> pd_blocks d w' b' = pd_blocks d w b')"
proof -
  let ?c = "content (wfile w (pd_fd d))"
  from assms(1) have b: "b < pd_count d" by (auto simp: pd_write_block_def split: if_splits)
  then have wf: "write_full (pd_fd d) x (block_offset b) w = (Killed, w')"
    using assms(1) by (auto simp: pd_write_block_def split: if_splits)
  have fits: "block_offset b + 4096 \<le> length ?c"
    using block_in_range [OF b] assms(4) by simp
  have "x \<noteq> []" using assms(2) by (auto simp: is_block_def)
  with fits obtain keep where keep: "keep < length x" "keep mod SECTOR = 0"
    "content (wfile w' (pd_fd d)) = store_bytes (block_offset b) (take keep x) ?c"
    using write_full_killed [OF wf assms(3)] by auto
  then obtain k where k: "keep = k * SECTOR"
    by (metis mod_eq_0_iff_dvd dvd_def mult.commute)
  have len: "length x = 4096" using assms(2) by (simp add: is_block_def)
  have "k < 8" using keep(1) len by (simp add: k SECTOR_def)
  have c: "content (wfile w' (pd_fd d)) = put_at (block_offset b) (take keep x) ?c"
    using keep fits len by (simp add: store_bytes_inside)
  have "pd_blocks d w' b = take keep x @ drop keep (pd_blocks d w b)"
    using keep(1) len fits unfolding pd_blocks_def c
    by (intro nth_equalityI) (auto simp: nth_get_at nth_put_at nth_append)
  moreover have "pd_blocks d w' b' = pd_blocks d w b'" if "b' \<noteq> b" for b'
    using blocks_apart [OF that] keep(1) len fits unfolding pd_blocks_def c
    by (intro get_at_put_at_disjoint) auto
  ultimately show ?thesis using \<open>k < 8\<close> k by auto
qed

definition dying_world :: world where
  "dying_world = small_world\<lparr>wfault := \<lparr>counted = 0, fatal = 1, crash_seed = 7\<rparr>\<rparr>"

theorem pd_write_block_torn_witness:
  "\<exists>w'. pd_write_block \<lparr>pd_fd = 3, pd_count = 2\<rparr> 1 zero_block dying_world = (Killed, w') \<and>
     (\<exists>k < 8. pd_blocks \<lparr>pd_fd = 3, pd_count = 2\<rparr> w' 1 = take (k * SECTOR) zero_block @
        drop (k * SECTOR) (pd_blocks \<lparr>pd_fd = 3, pd_count = 2\<rparr> dying_world 1)) \<and>
     (\<forall>b'. b' \<noteq> 1 \<longrightarrow> pd_blocks \<lparr>pd_fd = 3, pd_count = 2\<rparr> w' b' =
        pd_blocks \<lparr>pd_fd = 3, pd_count = 2\<rparr> dying_world b')"
proof -
  let ?d = "\<lparr>pd_fd = 3, pd_count = 2\<rparr>"
  obtain w' where w': "pd_write_block ?d 1 zero_block dying_world = (Killed, w')"
    by (simp add: pd_write_block_def write_full_def before_write_def dying_world_def small_world_def
        thenE_def bindE_def Let_def word_le_nat_alt)
  have "benign (wfile dying_world (pd_fd ?d))"
    "length (content (wfile dying_world (pd_fd ?d))) = unat (pd_count ?d) * BLOCK_SIZE"
    by (simp_all add: dying_world_def small_world_def benign_def benign_event_def)
  from pd_write_block_torn [OF w' is_block_zero this] w' show ?thesis by blast
qed

end
