(* ===== verification/Bitmap.thy ===== *)
theory Bitmap
  imports Block_Device
begin

text \<open>
  \<^verbatim>\<open>src/src/bitmap.cpp\<close>: one bit per inode or block. In memory the bits are 64-bit words, on
  disk they are bytes; \<^verbatim>\<open>load\<close> and \<^verbatim>\<open>store\<close> are straight copies. The abstract value of a
  bitmap is the set of the numbers in use, and the locale \<^verbatim>\<open>free_pool\<close> is the contract the
  allocator relies on.
\<close>

definition WORD_BITS :: nat where "WORD_BITS = 64"
definition WORDS_PER_BLOCK :: nat where "WORDS_PER_BLOCK = BLOCK_SIZE div 8"

record bitmap =
  nbits :: u32
  words :: "u64 list"

definition bit_mask :: "nat \<Rightarrow> u64" where
  "bit_mask i = push_bit (i mod WORD_BITS) 1"

definition blocks_for :: "u32 \<Rightarrow> u32" where
  "blocks_for n = ucast (((ucast n :: u64) + of_nat BITS_PER_BLOCK - 1) div of_nat BITS_PER_BLOCK)"

definition bitmap_new :: "u32 \<Rightarrow> bitmap" where
  "bitmap_new n = \<lparr>nbits = n, words = replicate (unat (blocks_for n) * WORDS_PER_BLOCK) 0\<rparr>"

definition is_set :: "u32 \<Rightarrow> (bitmap, bool) op" where
  "is_set i = (\<lambda>bm.
     if i \<ge> nbits bm
     then (Raise (OutOfRange (''bit '' @ to_string (unat i) @ '' is past the end of a ''
             @ to_string (unat (nbits bm)) @ ''-bit bitmap'')), bm)
     else (Ret (words bm ! (unat i div WORD_BITS) AND bit_mask (unat i) \<noteq> 0), bm))"

definition set_bit_in :: "u32 \<Rightarrow> (bitmap, unit) op" where
  "set_bit_in i = thenE (is_set i)
     (modE (\<lambda>bm. bm\<lparr>words := (words bm)[unat i div WORD_BITS :=
        words bm ! (unat i div WORD_BITS) OR bit_mask (unat i)]\<rparr>))"

definition clear_bit_in :: "u32 \<Rightarrow> (bitmap, unit) op" where
  "clear_bit_in i = thenE (is_set i)
     (modE (\<lambda>bm. bm\<lparr>words := (words bm)[unat i div WORD_BITS :=
        words bm ! (unat i div WORD_BITS) AND NOT (bit_mask (unat i))]\<rparr>))"

text \<open>\<^verbatim>\<open>__builtin_ctzll\<close> and \<^verbatim>\<open>__builtin_popcountll\<close>.\<close>

definition ctz :: "u64 \<Rightarrow> nat" where
  "ctz w = length (takeWhile (\<lambda>i. \<not> bit w i) [0..<64])"

definition popcount :: "u64 \<Rightarrow> nat" where
  "popcount w = length (filter (bit w) [0..<64])"

fun find_free_from :: "u32 \<Rightarrow> nat \<Rightarrow> u64 list \<Rightarrow> u32 option" where
  "find_free_from n w [] = None"
| "find_free_from n w (x # xs) =
     (if x = NOT 0 then find_free_from n (Suc w) xs
      else let i = w * WORD_BITS + ctz (NOT x)
           in if i \<ge> unat n then None else Some (of_nat i))"

definition find_first_free :: "bitmap \<Rightarrow> u32 option" where
  "find_first_free bm = find_free_from (nbits bm) 0 (words bm)"

definition count_set :: "bitmap \<Rightarrow> u32" where
  "count_set bm = foldl (\<lambda>n w. n + of_nat (popcount w)) 0 (words bm)"

definition words_of_block :: "block \<Rightarrow> u64 list" where
  "words_of_block b = map (\<lambda>i. rd64 (8 * i) b) [0..<WORDS_PER_BLOCK]"

definition block_of_words :: "u64 list \<Rightarrow> block" where
  "block_of_words ws = concat (map le64 ws)"

definition bm_load :: "'d device \<Rightarrow> u32 \<Rightarrow> bitmap \<Rightarrow> ('d, bitmap) op" where
  "bm_load D first_block bm =
     bindE (foldE [0..<unat (blocks_for (nbits bm))]
        (\<lambda>bm k. bindE (read_block D (first_block + of_nat k)) (\<lambda>b.
           retE (bm\<lparr>words := put_at (k * WORDS_PER_BLOCK) (words_of_block b) (words bm)\<rparr>))) bm)
     (\<lambda>bm.
       let n = unat (nbits bm);
           ws = (if n mod WORD_BITS \<noteq> 0
                 then (words bm)[n div WORD_BITS := words bm ! (n div WORD_BITS) AND (bit_mask n - 1)]
                 else words bm);
           first_spare_word = (n + WORD_BITS - 1) div WORD_BITS
       in retE (bm\<lparr>words := take first_spare_word ws @ replicate (length ws - first_spare_word) 0\<rparr>))"

definition bm_store :: "'d device \<Rightarrow> u32 \<Rightarrow> bitmap \<Rightarrow> ('d, unit) op" where
  "bm_store D first_block bm =
     forE [0..<unat (blocks_for (nbits bm))]
       (\<lambda>k. write_block D (first_block + of_nat k)
              (block_of_words (get_at (k * WORDS_PER_BLOCK) WORDS_PER_BLOCK (words bm))))"

section \<open>What a bitmap stands for\<close>

definition bit_at :: "bitmap \<Rightarrow> nat \<Rightarrow> bool" where
  "bit_at bm i = (i div 64 < length (words bm) \<and> bit (words bm ! (i div 64)) (i mod 64))"

definition wf_bitmap :: "bitmap \<Rightarrow> bool" where
  "wf_bitmap bm \<longleftrightarrow> length (words bm) = unat (blocks_for (nbits bm)) * WORDS_PER_BLOCK \<and>
     (\<forall>i. bit_at bm i \<longrightarrow> i < unat (nbits bm))"

definition used :: "bitmap \<Rightarrow> u32 set" where
  "used bm = {i. bit_at bm (unat i)}"

text \<open>On disk, bit \<^term>\<open>i\<close> lives in byte \<^term>\<open>i div 8\<close>, at bit \<^term>\<open>i mod 8\<close>.\<close>

definition block_bit :: "block \<Rightarrow> nat \<Rightarrow> bool" where
  "block_bit b i = bit (b ! (i div 8)) (i mod 8)"

section \<open>The contract of a pool of numbers\<close>

locale free_pool =
  fixes invar :: "'p \<Rightarrow> bool" and limit :: "'p \<Rightarrow> u32" and taken :: "'p \<Rightarrow> u32 set"
    and find_free :: "'p \<Rightarrow> u32 option"
    and test :: "u32 \<Rightarrow> ('p, bool) op" and take_one :: "u32 \<Rightarrow> ('p, unit) op"
    and give_back :: "u32 \<Rightarrow> ('p, unit) op"
  assumes taken_limit: "invar p \<Longrightarrow> i \<in> taken p \<Longrightarrow> i < limit p"
    and find_free_Some: "invar p \<Longrightarrow> find_free p = Some i \<longleftrightarrow>
        i < limit p \<and> i \<notin> taken p \<and> (\<forall>j < i. j \<in> taken p)"
    and find_free_None: "invar p \<Longrightarrow> find_free p = None \<longleftrightarrow> taken p = {i. i < limit p}"
    and test_in: "invar p \<Longrightarrow> i < limit p \<Longrightarrow> test i p = (Ret (i \<in> taken p), p)"
    and test_out: "\<not> i < limit p \<Longrightarrow> \<exists>e. test i p = (Raise e, p)"
    and take_in: "invar p \<Longrightarrow> i < limit p \<Longrightarrow> \<exists>p'. take_one i p = (Ret (), p') \<and> invar p' \<and>
        limit p' = limit p \<and> taken p' = insert i (taken p)"
    and give_in: "invar p \<Longrightarrow> i < limit p \<Longrightarrow> \<exists>p'. give_back i p = (Ret (), p') \<and> invar p' \<and>
        limit p' = limit p \<and> taken p' = taken p - {i}"
begin

text \<open>Taking the number found and giving it back leaves the same set in use.\<close>

lemma take_then_give:
  assumes "invar p" and "find_free p = Some i"
  shows "\<exists>p'. thenE (take_one i) (give_back i) p = (Ret (), p') \<and> invar p' \<and>
    limit p' = limit p \<and> taken p' = taken p"
proof -
  have i: "i < limit p" "i \<notin> taken p" using find_free_Some assms by auto
  then obtain p1 where p1: "take_one i p = (Ret (), p1)" "invar p1" "limit p1 = limit p"
    "taken p1 = insert i (taken p)" using take_in assms(1) by blast
  with give_in [of p1 i] i obtain p2 where "give_back i p1 = (Ret (), p2)" "invar p2"
    "limit p2 = limit p" "taken p2 = taken p1 - {i}" by auto
  with p1 i show ?thesis by auto
qed

text \<open>A taken number is never found again before it is given back.\<close>

lemma take_then_find:
  assumes "invar p" and "find_free p = Some i" and "take_one i p = (Ret (), p')"
  shows "find_free p' \<noteq> Some i"
  using assms take_in [of p i] find_free_Some [of p i] find_free_Some [of p' i] by auto

end

section \<open>Bits\<close>

lemma WORD_numbers [simp]: "WORD_BITS = 64" "WORDS_PER_BLOCK = 512"
  by (simp_all add: WORD_BITS_def WORDS_PER_BLOCK_def)

lemma bit_bit_mask: "bit (bit_mask i) j \<longleftrightarrow> j = i mod 64"
  by (auto simp: bit_mask_def bit_exp_iff)

lemma and_bit_mask_neq_0: "w AND bit_mask i \<noteq> 0 \<longleftrightarrow> bit w (i mod 64)"
proof
  assume "w AND bit_mask i \<noteq> 0"
  then obtain j where "bit (w AND bit_mask i) j" using bit_eq_iff [of "w AND bit_mask i" 0] by auto
  then show "bit w (i mod 64)" by (auto simp: bit_and_iff bit_bit_mask)
next
  assume "bit w (i mod 64)"
  then have "bit (w AND bit_mask i) (i mod 64)" by (simp add: bit_and_iff bit_bit_mask)
  then show "w AND bit_mask i \<noteq> 0" by auto
qed

lemma blocks_for_unat: "unat (blocks_for n) = (unat n + 32767) div 32768"
proof -
  have u: "unat (32767 + (ucast n :: u64)) = unat n + 32767"
    using unat_less_2p [of n] by (simp add: unat_word_ariths)
  have "unat (((ucast n :: u64) + 32768 - 1) div 32768) = (unat n + 32767) div 32768"
    by (simp add: unat_div u)
  moreover have "(unat n + 32767) div 32768 < 2 ^ 32"
    using unat_less_2p [of n] by simp
  ultimately show ?thesis
    by (simp add: blocks_for_def unsigned_ucast_eq take_bit_nat_eq_self)
qed

lemma word_index_in_range:
  assumes "wf_bitmap bm" and "i < unat (nbits bm)"
  shows "i div 64 < length (words bm)"
proof -
  have "i < (unat (nbits bm) + 32767) div 32768 * 32768" using assms(2) by simp
  then have "i div 64 < (unat (nbits bm) + 32767) div 32768 * 512" by simp
  then show ?thesis using assms(1) by (simp add: wf_bitmap_def blocks_for_unat)
qed

lemma used_less: "wf_bitmap bm \<Longrightarrow> i \<in> used bm \<Longrightarrow> i < nbits bm"
  by (auto simp: used_def wf_bitmap_def word_less_nat_alt)

lemma wf_bitmap_new [simp]: "wf_bitmap (bitmap_new n)"
  by (auto simp: wf_bitmap_def bitmap_new_def bit_at_def)

lemma used_bitmap_new [simp]: "used (bitmap_new n) = {}"
  by (auto simp: used_def bitmap_new_def bit_at_def)

lemma is_set_in:
  "wf_bitmap bm \<Longrightarrow> i < nbits bm \<Longrightarrow> is_set i bm = (Ret (i \<in> used bm), bm)"
  using word_index_in_range [of bm "unat i"]
  by (simp add: is_set_def used_def bit_at_def and_bit_mask_neq_0 word_less_nat_alt not_le)

lemma bit_at_update:
  assumes "i div 64 < length (words bm)"
  shows "bit_at (bm\<lparr>words := (words bm)[i div 64 := w]\<rparr>) j =
    (if j div 64 = i div 64 then bit w (j mod 64) else bit_at bm j)"
  using assms by (auto simp: bit_at_def nth_list_update)

lemma div_mod_eq_iff: "(j :: nat) div 64 = i div 64 \<Longrightarrow> j mod 64 = i mod 64 \<longleftrightarrow> j = i"
  by (metis div_mult_mod_eq)

lemma set_bit_in_ok:
  assumes "wf_bitmap bm" and "i < nbits bm"
  shows "\<exists>bm'. set_bit_in i bm = (Ret (), bm') \<and> wf_bitmap bm' \<and> nbits bm' = nbits bm \<and>
    used bm' = insert i (used bm)"
proof -
  let ?k = "unat i div 64"
  let ?bm = "bm\<lparr>words := (words bm)[?k := words bm ! ?k OR bit_mask (unat i)]\<rparr>"
  have k: "?k < length (words bm)"
    using word_index_in_range assms by (simp add: word_less_nat_alt)
  have b: "bit_at ?bm j \<longleftrightarrow> j = unat i \<or> bit_at bm j" for j
    unfolding bit_at_update [OF k]
    by (cases "j div 64 = unat i div 64")
      (auto simp: bit_or_iff bit_bit_mask div_mod_eq_iff bit_at_def k)
  have "wf_bitmap ?bm"
    using assms b by (auto simp: wf_bitmap_def word_less_nat_alt)
  moreover have "used ?bm = insert i (used bm)"
    unfolding used_def b by (auto simp: word_unat_eq_iff)
  moreover have "set_bit_in i bm = (Ret (), ?bm)"
    by (simp add: set_bit_in_def is_set_in [OF assms])
  ultimately show ?thesis by (intro exI [of _ ?bm]) simp
qed

lemma clear_bit_in_ok:
  assumes "wf_bitmap bm" and "i < nbits bm"
  shows "\<exists>bm'. clear_bit_in i bm = (Ret (), bm') \<and> wf_bitmap bm' \<and> nbits bm' = nbits bm \<and>
    used bm' = used bm - {i}"
proof -
  let ?k = "unat i div 64"
  let ?bm = "bm\<lparr>words := (words bm)[?k := words bm ! ?k AND NOT (bit_mask (unat i))]\<rparr>"
  have k: "?k < length (words bm)"
    using word_index_in_range assms by (simp add: word_less_nat_alt)
  have b: "bit_at ?bm j \<longleftrightarrow> j \<noteq> unat i \<and> bit_at bm j" for j
    unfolding bit_at_update [OF k]
    by (cases "j div 64 = unat i div 64")
      (auto simp: bit_and_iff bit_not_iff bit_bit_mask div_mod_eq_iff bit_at_def k)
  have "wf_bitmap ?bm"
    using assms b by (auto simp: wf_bitmap_def word_less_nat_alt)
  moreover have "used ?bm = used bm - {i}"
    unfolding used_def b by (auto simp: word_unat_eq_iff)
  moreover have "clear_bit_in i bm = (Ret (), ?bm)"
    by (simp add: clear_bit_in_def is_set_in [OF assms])
  ultimately show ?thesis by (intro exI [of _ ?bm]) simp
qed

section \<open>The search\<close>

lemma ctz_lowest:
  assumes "x \<noteq> NOT (0 :: u64)"
  shows "ctz (NOT x) < 64" "\<not> bit x (ctz (NOT x))" "j < ctz (NOT x) \<Longrightarrow> bit x j"
proof -
  let ?P = "\<lambda>i. \<not> bit (NOT x) i"
  have ctz: "ctz (NOT x) = length (takeWhile ?P [0..<64])" by (simp add: ctz_def)
  have le: "length (takeWhile ?P [0..<64]) \<le> 64"
    using length_takeWhile_le [of ?P "[0..<64]"] by simp
  show lt: "ctz (NOT x) < 64"
  proof (rule ccontr)
    assume "\<not> ctz (NOT x) < 64"
    then have "takeWhile ?P [0..<64] = [0..<64]"
      using le ctz by (metis diff_zero le_antisym length_upt not_less takeWhile_eq_take take_all)
    then have "\<forall>i \<in> set [0..<64]. ?P i" by (metis set_takeWhileD)
    then have "x = NOT 0" by (intro bit_word_eqI) (simp add: bit_not_iff)
    with assms show False by contradiction
  qed
  have "\<not> ?P ([0..<64] ! ctz (NOT x))"
    unfolding ctz by (rule nth_length_takeWhile) (use lt ctz in simp)
  with lt show "\<not> bit x (ctz (NOT x))" by (simp add: bit_not_iff)
  assume j: "j < ctz (NOT x)"
  then have "?P (takeWhile ?P [0..<64] ! j)"
    by (metis ctz nth_mem set_takeWhileD)
  moreover have "takeWhile ?P [0..<64] ! j = j"
    using j lt by (simp add: ctz takeWhile_nth)
  ultimately show "bit x j" using j lt by (simp add: bit_not_iff)
qed

lemma find_free_from_spec:
  "w \<le> length ws \<Longrightarrow>
   (case find_free_from n w (drop w ws) of
      None \<Rightarrow> \<forall>j. w * 64 \<le> j \<and> j div 64 < length ws \<and> j < unat n \<longrightarrow> bit (ws ! (j div 64)) (j mod 64)
    | Some r \<Rightarrow> \<exists>i. r = of_nat i \<and> i < unat n \<and> i div 64 < length ws \<and>
        \<not> bit (ws ! (i div 64)) (i mod 64) \<and>
        (\<forall>j. w * 64 \<le> j \<and> j < i \<longrightarrow> bit (ws ! (j div 64)) (j mod 64)))"
proof (induction "length ws - w" arbitrary: w)
  case 0
  then show ?case by auto
next
  case (Suc k)
  then have w: "w < length ws" by simp
  then have d: "drop w ws = ws ! w # drop (Suc w) ws" by (simp add: Cons_nth_drop_Suc)
  show ?case
  proof (cases "ws ! w = NOT 0")
    case full: True
    have eq: "find_free_from n w (drop w ws) = find_free_from n (Suc w) (drop (Suc w) ws)"
      by (simp add: d full)
    have here: "bit (ws ! (j div 64)) (j mod 64)" if "w * 64 \<le> j" "\<not> Suc w * 64 \<le> j" for j
    proof -
      have "j div 64 = w" using that by auto
      then show ?thesis using full by (simp add: bit_not_iff)
    qed
    have "k = length ws - Suc w" using Suc.hyps(2) by simp
    note ih = Suc.hyps(1) [OF this Suc_leI [OF w]]
    show ?thesis
    proof (cases "find_free_from n (Suc w) (drop (Suc w) ws)")
      case None
      with ih here show ?thesis unfolding eq None option.case by blast
    next
      case (Some r)
      with ih obtain i where i: "r = of_nat i \<and> i < unat n \<and> i div 64 < length ws \<and>
          \<not> bit (ws ! (i div 64)) (i mod 64)"
        "\<forall>j. Suc w * 64 \<le> j \<and> j < i \<longrightarrow> bit (ws ! (j div 64)) (j mod 64)" by auto
      with here have "\<forall>j. w * 64 \<le> j \<and> j < i \<longrightarrow> bit (ws ! (j div 64)) (j mod 64)" by blast
      with i(1) show ?thesis unfolding eq Some option.case by blast
    qed
  next
    case False
    let ?i = "w * 64 + ctz (NOT (ws ! w))"
    note c = ctz_lowest [OF False]
    have i: "?i div 64 = w" "?i mod 64 = ctz (NOT (ws ! w))" using c(1) by simp_all
    have below: "bit (ws ! (j div 64)) (j mod 64)" if lo: "w * 64 \<le> j" and hi: "j < ?i" for j
    proof -
      obtain k where "j = w * 64 + k" using lo unfolding le_iff_add by blast
      then have "j div 64 = w" "j mod 64 < ctz (NOT (ws ! w))" using hi c(1) by simp_all
      then show ?thesis using c(3) by simp
    qed
    have eq: "find_free_from n w (drop w ws) = (if ?i \<ge> unat n then None else Some (of_nat ?i))"
      using False by (simp add: d Let_def)
    show ?thesis
    proof (cases "?i \<ge> unat n")
      case True
      then have "find_free_from n w (drop w ws) = None" unfolding eq by simp
      with True below show ?thesis by auto
    next
      case lt: False
      then have "find_free_from n w (drop w ws) = Some (of_nat ?i)" unfolding eq by simp
      moreover have "\<not> bit (ws ! (?i div 64)) (?i mod 64)" using c(2) i by simp
      ultimately show ?thesis
        using lt w i(1) below by (auto intro!: exI [of _ ?i])
    qed
  qed
qed

lemma find_first_free_Some:
  assumes "wf_bitmap bm"
  shows "find_first_free bm = Some r \<longleftrightarrow> r < nbits bm \<and> r \<notin> used bm \<and> (\<forall>j < r. j \<in> used bm)"
    and "find_first_free bm = None \<longleftrightarrow> used bm = {i. i < nbits bm}"
proof -
  have range: "j div 64 < length (words bm)" if "j < unat (nbits bm)" for j
    using word_index_in_range [OF assms that] .
  note spec = find_free_from_spec [of 0 "words bm" "nbits bm", simplified,
      folded find_first_free_def]
  have some: "r < nbits bm \<and> r \<notin> used bm \<and> (\<forall>j < r. j \<in> used bm)" if "find_first_free bm = Some r" for r
  proof -
    from spec that obtain i where i: "r = of_nat i" "i < unat (nbits bm)"
      "\<not> bit (words bm ! (i div 64)) (i mod 64)"
      "\<And>j. j < i \<Longrightarrow> bit (words bm ! (j div 64)) (j mod 64)" by auto
    have u: "unat r = i"
      using i(1,2) unat_less_2p [of "nbits bm"] by (simp add: unat_of_nat)
    have "j \<in> used bm" if "j < r" for j
      using i(2) i(4) [of "unat j"] that u range [of "unat j"]
      by (simp add: used_def bit_at_def word_less_nat_alt)
    with u i show ?thesis by (auto simp: used_def bit_at_def word_less_nat_alt)
  qed
  have none: "used bm = {i. i < nbits bm}" if "find_first_free bm = None"
  proof -
    have "i \<in> used bm" if "i < nbits bm" for i
      using spec \<open>find_first_free bm = None\<close> range [of "unat i"] that
      by (simp add: used_def bit_at_def word_less_nat_alt)
    with used_less [OF assms] show ?thesis by auto
  qed
  show "find_first_free bm = Some r \<longleftrightarrow> r < nbits bm \<and> r \<notin> used bm \<and> (\<forall>j < r. j \<in> used bm)"
  proof
    assume r: "r < nbits bm \<and> r \<notin> used bm \<and> (\<forall>j < r. j \<in> used bm)"
    with none obtain r' where r': "find_first_free bm = Some r'" by fastforce
    from some [OF this] r have "r' = r" by (meson linorder_neqE)
    with r' show "find_first_free bm = Some r" by simp
  qed (rule some)
  show "find_first_free bm = None \<longleftrightarrow> used bm = {i. i < nbits bm}"
    using none some by (cases "find_first_free bm") auto
qed

interpretation bits: free_pool wf_bitmap nbits used find_first_free is_set set_bit_in clear_bit_in
proof
  fix bm :: bitmap and i :: u32
  show "wf_bitmap bm \<Longrightarrow> i \<in> used bm \<Longrightarrow> i < nbits bm" by (rule used_less)
  show "\<not> i < nbits bm \<Longrightarrow> \<exists>e. is_set i bm = (Raise e, bm)" by (simp add: is_set_def)
qed (simp_all add: find_first_free_Some is_set_in set_bit_in_ok clear_bit_in_ok)

section \<open>Counting\<close>

lemma popcount_card: "popcount w = card {i. i < 64 \<and> bit w i}"
proof -
  have "distinct (filter (bit w) [0..<64])" by simp
  then have "popcount w = card (set (filter (bit w) [0..<64]))"
    unfolding popcount_def by (simp only: distinct_card)
  also have "set (filter (bit w) [0..<64]) = {i. i < 64 \<and> bit w i}" by auto
  finally show ?thesis .
qed

lemma sum_popcount:
  "sum_list (map popcount ws) = card {i. i div 64 < length ws \<and> bit (ws ! (i div 64)) (i mod 64)}"
proof (induction ws rule: rev_induct)
  case Nil
  then show ?case by simp
next
  case (snoc w ws)
  let ?n = "64 * length ws"
  let ?A = "{i. i div 64 < length ws \<and> bit (ws ! (i div 64)) (i mod 64)}"
  let ?B = "(\<lambda>i. ?n + i) ` {i. i < 64 \<and> bit w i}"
  have "{i. i div 64 < length (ws @ [w]) \<and> bit ((ws @ [w]) ! (i div 64)) (i mod 64)} = ?A \<union> ?B"
  proof (intro equalityI subsetI)
    fix i assume i: "i \<in> {i. i div 64 < length (ws @ [w]) \<and> bit ((ws @ [w]) ! (i div 64)) (i mod 64)}"
    show "i \<in> ?A \<union> ?B"
    proof (cases "i div 64 = length ws")
      case True
      then have "i = ?n + i mod 64" by presburger
      moreover have "i mod 64 \<in> {i. i < 64 \<and> bit w i}" using True i by simp
      ultimately show ?thesis by blast
    next
      case False
      with i show ?thesis by (auto simp: nth_append)
    qed
  qed (auto simp: nth_append)
  moreover have "finite ?A"
    by (rule finite_subset [of _ "{..<?n}"]) auto
  moreover have "?A \<inter> ?B = {}" by auto
  moreover have "card ?B = popcount w"
    by (simp add: popcount_card card_image inj_on_def)
  ultimately show ?case using snoc.IH by (simp add: card_Un_disjoint)
qed

lemma count_set_used:
  assumes "wf_bitmap bm"
  shows "unat (count_set bm) = card (used bm)"
proof -
  have fold: "foldl (\<lambda>n w. n + of_nat (popcount w)) (of_nat a :: u32) ws =
      of_nat (a + sum_list (map popcount ws))" for a ws
    by (induction ws arbitrary: a) (simp_all flip: of_nat_add add: ac_simps)
  let ?A = "{i. bit_at bm i}"
  have sum: "sum_list (map popcount (words bm)) = card ?A"
    using sum_popcount [of "words bm"] by (simp add: bit_at_def)
  have sub: "?A \<subseteq> {..<unat (nbits bm)}" using assms by (auto simp: wf_bitmap_def)
  have "?A = unat ` used bm"
  proof (intro equalityI subsetI)
    fix i assume i: "i \<in> ?A"
    then have "i < 2 ^ 32" using sub unat_less_2p [of "nbits bm"] by auto
    then have "unat (of_nat i :: u32) = i" by (simp add: unat_of_nat)
    with i show "i \<in> unat ` used bm" by (intro image_eqI [of _ _ "of_nat i"]) (simp_all add: used_def)
  qed (auto simp: used_def)
  then have card: "card ?A = card (used bm)"
    by (simp add: card_image inj_on_def word_unat_eq_iff)
  have "card ?A \<le> unat (nbits bm)" using card_mono [OF _ sub] by simp
  then have "card ?A < 2 ^ 32" using unat_less_2p [of "nbits bm"] by simp
  then show ?thesis
    using fold [of 0 "words bm"] sum card by (simp add: count_set_def unat_of_nat)
qed

section \<open>Loading and storing\<close>

lemma bit_rd64:
  assumes "8 * k + 8 \<le> length b"
  shows "bit (rd64 (8 * k) b) j \<longleftrightarrow> j < 64 \<and> block_bit b (64 * k + j)"
proof (cases "j < 64")
  case True
  then have "j div 8 < 8" by simp
  moreover have "(64 * k + j) div 8 = 8 * k + j div 8" "(64 * k + j) mod 8 = j mod 8"
    by presburger+
  ultimately show ?thesis
    using True assms by (simp add: rd64_def bit_le_word nth_get_at block_bit_def)
next
  case False
  then show ?thesis by (auto dest: bit_imp_le_length)
qed

lemma bit_at_words_of_block:
  assumes "is_block b" and "i < 512"
  shows "bit (words_of_block b ! i) j \<longleftrightarrow> j < 64 \<and> block_bit b (64 * i + j)"
  using assms by (simp add: words_of_block_def bit_rd64 is_block_def)

lemma length_words_of_block [simp]: "length (words_of_block b) = 512"
  by (simp add: words_of_block_def)

lemma length_block_of_words [simp]: "length (block_of_words ws) = 8 * length ws"
  by (induction ws) (simp_all add: block_of_words_def)

lemma get_at_block_of_words:
  "get_at (8 * i) (8 * n) (block_of_words ws) = block_of_words (get_at i n ws)"
proof (induction ws arbitrary: i n)
  case Nil
  then show ?case by (simp add: block_of_words_def get_at_def)
next
  case (Cons w ws)
  show ?case
  proof (cases i)
    case (Suc j)
    then show ?thesis using Cons.IH [of j n]
      by (simp add: block_of_words_def get_at_def)
  next
    case 0
    then show ?thesis using Cons.IH [of 0 "n - 1"]
      by (cases n) (simp_all add: block_of_words_def get_at_def)
  qed
qed

lemma nth_block_of_words:
  "j < 8 * length ws \<Longrightarrow> block_of_words ws ! j = ucast (drop_bit (8 * (j mod 8)) (ws ! (j div 8)))"
proof -
  assume j: "j < 8 * length ws"
  then have d: "j div 8 < length ws" by auto
  have "get_at (8 * (j div 8)) 8 (block_of_words ws) = le64 (ws ! (j div 8))"
    using get_at_block_of_words [of "j div 8" 1 ws] d
    by (simp add: block_of_words_def get_at_def take_Suc_conv_app_nth drop_Suc
        take_Suc hd_drop_conv_nth)
  moreover have "block_of_words ws ! j = get_at (8 * (j div 8)) 8 (block_of_words ws) ! (j mod 8)"
    using j by (simp add: nth_get_at)
  ultimately show ?thesis by (simp add: nth_le_bytes)
qed

lemma block_bit_block_of_words:
  assumes "i < 64 * length ws"
  shows "block_bit (block_of_words ws) i \<longleftrightarrow> bit (ws ! (i div 64)) (i mod 64)"
proof -
  have lt: "i div 8 < 8 * length ws" using assms by auto
  have "i div 8 div 8 = i div 64" by (simp add: div_mult2_eq [symmetric])
  moreover have "8 * (i div 8 mod 8) + i mod 8 = i mod 64"
    using mod_mult2_eq [of i 8 8] by simp
  ultimately show ?thesis
    using lt by (simp add: block_bit_def nth_block_of_words bit_ucast_iff bit_drop_bit_eq)
qed

text \<open>The bits past the end that \<^verbatim>\<open>load\<close> drops.\<close>

lemma mask_tail:
  assumes "n \<le> 64 * length ws"
  defines "ws1 \<equiv> if n mod 64 \<noteq> 0 then ws[n div 64 := ws ! (n div 64) AND (bit_mask n - 1)] else ws"
  defines "ws2 \<equiv> take ((n + 63) div 64) ws1 @ replicate (length ws1 - (n + 63) div 64) 0"
  shows "length ws2 = length ws"
    and "i div 64 < length ws \<Longrightarrow> bit (ws2 ! (i div 64)) (i mod 64) \<longleftrightarrow>
      i < n \<and> bit (ws ! (i div 64)) (i mod 64)"
proof -
  have len1: "length ws1 = length ws" by (simp add: ws1_def)
  have spare: "(n + 63) div 64 \<le> length ws" using assms(1) by auto
  then show "length ws2 = length ws" by (simp add: ws2_def len1)
  assume i: "i div 64 < length ws"
  have m: "bit (bit_mask n - 1) j \<longleftrightarrow> j < n mod 64" if "j < 64" for j
    using that by (simp add: bit_mask_def flip: mask_eq_exp_minus_1) (simp add: bit_mask_iff)
  have up: "(n + 63) div 64 = n div 64 + (if n mod 64 = 0 then 0 else 1)"
  proof -
    define q r where "q = n div 64" and "r = n mod 64"
    have n: "n = 64 * q + r" and r: "r < 64" by (simp_all add: q_def r_def)
    have "(n + 63) div 64 = q + (r + 63) div 64" unfolding n by (simp add: add.assoc)
    moreover have "(r + 63) div 64 = (if r = 0 then 0 else 1)"
      using r by (auto intro: div_nat_eqI)
    ultimately show ?thesis by (simp add: q_def r_def)
  qed
  consider "i div 64 < n div 64" | "i div 64 = n div 64" "n mod 64 \<noteq> 0"
    | "(n + 63) div 64 \<le> i div 64"
  proof (cases "i div 64 < n div 64 \<or> i div 64 = n div 64 \<and> n mod 64 \<noteq> 0")
    case False
    then have "(n + 63) div 64 \<le> i div 64" unfolding up by auto
    with that show thesis by blast
  qed (use that in blast)
  then show "bit (ws2 ! (i div 64)) (i mod 64) \<longleftrightarrow> i < n \<and> bit (ws ! (i div 64)) (i mod 64)"
  proof cases
    case 1
    then have "i < n" by (metis div_le_mono not_less)
    moreover from 1 have "i div 64 < (n + 63) div 64" "i div 64 \<noteq> n div 64"
      unfolding up by simp_all
    ultimately show ?thesis
      by (simp add: ws2_def nth_append ws1_def len1 [unfolded ws1_def] spare)
  next
    case 2
    then have "i div 64 < (n + 63) div 64" unfolding up by simp
    then have "ws2 ! (i div 64) = ws ! (n div 64) AND (bit_mask n - 1)"
      using 2 i len1 by (simp add: ws2_def nth_append ws1_def)
    moreover have "i < n \<longleftrightarrow> i mod 64 < n mod 64"
      using 2(1) by (metis div_mult_mod_eq nat_add_left_cancel_less)
    ultimately show ?thesis using 2 m [of "i mod 64"] by (auto simp: bit_and_iff)
  next
    case 3
    have "n \<le> i"
    proof (rule ccontr)
      assume "\<not> n \<le> i"
      then have "i div 64 \<le> n div 64" by (simp add: div_le_mono)
      with 3 up have "i div 64 = n div 64" "n mod 64 = 0" by (auto split: if_splits)
      with \<open>\<not> n \<le> i\<close> show False by (metis add_0_right div_mult_mod_eq le_add1 mult.commute)
    qed
    moreover have "ws2 ! (i div 64) = 0"
      using 3 i len1 spare by (simp add: ws2_def nth_append)
    ultimately show ?thesis by simp
  qed
qed

lemma bitmap_eqI:
  assumes "wf_bitmap a" "wf_bitmap b" "nbits a = nbits b" "used a = used b"
  shows "a = b"
proof -
  have len: "length (words a) = length (words b)" using assms by (simp add: wf_bitmap_def)
  have bits: "bit_at a i = bit_at b i" for i
  proof (cases "i < unat (nbits a)")
    case True
    then have "unat (of_nat i :: u32) = i"
      using unat_less_2p [of "nbits a"] by (simp add: unat_of_nat)
    moreover have "(of_nat i \<in> used a) = (of_nat i \<in> used b)" using assms(4) by simp
    ultimately show ?thesis by (simp add: used_def)
  next
    case False
    with assms show ?thesis by (auto simp: wf_bitmap_def)
  qed
  have "words a = words b"
  proof (rule nth_equalityI [OF len])
    fix k assume k: "k < length (words a)"
    show "words a ! k = words b ! k"
    proof (rule bit_word_eqI)
      fix j assume "j < LENGTH(64)"
      then have "(64 * k + j) div 64 = k" "(64 * k + j) mod 64 = j" by simp_all
      with bits [of "64 * k + j"] k len show "bit (words a ! k) j = bit (words b ! k) j"
        by (simp add: bit_at_def)
    qed
  qed
  with assms(3) show ?thesis by simp
qed

text \<open>Region \<^term>\<open>first\<close> of a device can hold a bitmap of \<^term>\<open>n\<close> bits.\<close>

definition region_fits :: "u32 \<Rightarrow> u32 \<Rightarrow> u32 \<Rightarrow> bool" where
  "region_fits count first n \<longleftrightarrow> unat first + unat (blocks_for n) \<le> unat count"

lemma region_block:
  assumes "region_fits count first n" and "k < unat (blocks_for n)"
  shows "first + of_nat k < count" and "unat (first + of_nat k) = unat first + k"
proof -
  have lt: "unat first + k < unat count" using assms by (simp add: region_fits_def)
  then have small: "unat first + k < 2 ^ 32" using unat_less_2p [of count] by simp
  then show u: "unat (first + of_nat k) = unat first + k"
    by (simp add: unat_word_ariths unat_of_nat)
  with lt show "first + of_nat k < count" by (simp add: word_less_nat_alt)
qed

lemma region_above:
  assumes "region_fits count first n" and "lo \<le> first" and "k < unat (blocks_for n)"
  shows "lo \<le> first + of_nat k"
  using region_block(2) [OF assms(1,3)] assms(2) by (simp add: word_le_nat_alt)

text \<open>
  Loading needs no more of a device than that its blocks from \<^term>\<open>lo\<close> on can be read; the
  allocator loads its bitmaps through the journal, which does not give out block 0.
\<close>

locale block_reader =
  fixes D :: "'d device" and invar :: "'d \<Rightarrow> bool" and blocks :: "'d \<Rightarrow> u32 \<Rightarrow> block" and lo :: u32
  assumes reader_len: "invar d \<Longrightarrow> lo \<le> b \<Longrightarrow> b < dev_count D \<Longrightarrow> is_block (blocks d b)"
    and reader_ok: "invar d \<Longrightarrow> lo \<le> b \<Longrightarrow> b < dev_count D \<Longrightarrow>
        \<exists>d'. read_block D b d = (Ret (blocks d b), d') \<and> invar d' \<and> blocks d' = blocks d"
begin

lemma load_loop:
  assumes "invar d" and "region_fits (dev_count D) first n"
    and "length (words bm) = unat (blocks_for n) * 512" and "lo \<le> first" and "k \<le> unat (blocks_for n)"
  shows "\<exists>d' bm'. foldE [0..<k] (\<lambda>bm k. bindE (read_block D (first + of_nat k)) (\<lambda>b.
           retE (bm\<lparr>words := put_at (k * WORDS_PER_BLOCK) (words_of_block b) (words bm)\<rparr>))) bm d =
      (Ret bm', d') \<and> invar d' \<and> blocks d' = blocks d \<and> nbits bm' = nbits bm \<and>
      length (words bm') = length (words bm) \<and>
      (\<forall>i < k * 512. words bm' ! i = words_of_block (blocks d (first + of_nat (i div 512))) ! (i mod 512))"
  using assms(5)
proof (induction k)
  case 0
  then show ?case using assms(1) by simp
next
  case (Suc k)
  let ?f = "\<lambda>bm k. bindE (read_block D (first + of_nat k)) (\<lambda>b.
           retE (bm\<lparr>words := put_at (k * WORDS_PER_BLOCK) (words_of_block b) (words bm)\<rparr>))"
  from Suc.IH [OF Suc_leD [OF Suc.prems]] obtain d1 bm1 where 1: "foldE [0..<k] ?f bm d = (Ret bm1, d1)" "invar d1"
    "blocks d1 = blocks d" "nbits bm1 = nbits bm" "length (words bm1) = length (words bm)"
    "\<And>i. i < k * 512 \<Longrightarrow> words bm1 ! i = words_of_block (blocks d (first + of_nat (i div 512))) ! (i mod 512)"
    by blast
  have "k < unat (blocks_for n)" using Suc.prems by simp
  from region_block(1) [OF assms(2) this] reader_ok [OF 1(2) region_above [OF assms(2,4) this]] 1(3) obtain d2 where
    2: "read_block D (first + of_nat k) d1 = (Ret (blocks d (first + of_nat k)), d2)" "invar d2"
    "blocks d2 = blocks d" by metis
  let ?new = "words_of_block (blocks d (first + of_nat k))"
  have fits: "k * 512 + length ?new \<le> length (words bm1)"
  proof -
    have "Suc k * 512 \<le> unat (blocks_for n) * 512" using Suc.prems by (rule mult_le_mono1)
    then show ?thesis using 1(5) assms(3) by simp
  qed
  have "put_at (k * 512) ?new (words bm1) ! i =
      words_of_block (blocks d (first + of_nat (i div 512))) ! (i mod 512)" if i: "i < Suc k * 512" for i
  proof (cases "i < k * 512")
    case True
    then show ?thesis using 1(6) fits by (simp add: nth_put_at)
  next
    case False
    then obtain j where j: "i = k * 512 + j" by (metis le_iff_add not_less)
    with i have "j < 512" by simp
    with j fits show ?thesis by (simp add: nth_put_at)
  qed
  moreover have "foldE [0..<Suc k] ?f bm d = (Ret (bm1\<lparr>words := put_at (k * 512) ?new (words bm1)\<rparr>), d2)"
  proof -
    have "?f bm1 k d1 = (Ret (bm1\<lparr>words := put_at (k * 512) ?new (words bm1)\<rparr>), d2)"
      using 2(1) by simp
    with foldE_snoc [OF 1(1), of k] show ?thesis by simp
  qed
  ultimately show ?case
    using 1(4,5) 2(2,3) fits
    by (intro exI [of _ d2] exI [of _ "bm1\<lparr>words := put_at (k * 512) ?new (words bm1)\<rparr>"] conjI)
      (assumption | simp)+
qed

lemma load_ok:
  assumes "invar d" and "region_fits (dev_count D) first (nbits bm)"
    and "length (words bm) = unat (blocks_for (nbits bm)) * 512" and "lo \<le> first"
  shows "\<exists>d' bm'. bm_load D first bm d = (Ret bm', d') \<and> invar d' \<and> blocks d' = blocks d \<and>
    wf_bitmap bm' \<and> nbits bm' = nbits bm \<and>
    (\<forall>i < unat (nbits bm). bit_at bm' i \<longleftrightarrow>
       block_bit (blocks d (first + of_nat (i div BITS_PER_BLOCK))) (i mod BITS_PER_BLOCK))"
proof -
  let ?n = "unat (nbits bm)"
  let ?m = "unat (blocks_for (nbits bm))"
  from load_loop [OF assms order_refl] obtain d1 bm1 where
    1: "foldE [0..<?m] (\<lambda>bm k. bindE (read_block D (first + of_nat k)) (\<lambda>b.
           retE (bm\<lparr>words := put_at (k * WORDS_PER_BLOCK) (words_of_block b) (words bm)\<rparr>))) bm d = (Ret bm1, d1)"
    "invar d1" "blocks d1 = blocks d" "nbits bm1 = nbits bm" "length (words bm1) = length (words bm)"
    "\<And>i. i < ?m * 512 \<Longrightarrow> words bm1 ! i = words_of_block (blocks d (first + of_nat (i div 512))) ! (i mod 512)"
    by blast
  have cover: "?n \<le> 64 * length (words bm1)"
    using 1(5) assms(3) by (simp add: blocks_for_unat)
  define ws where "ws = (if ?n mod 64 \<noteq> 0 then (words bm1)[?n div 64 := words bm1 ! (?n div 64) AND (bit_mask ?n - 1)]
    else words bm1)"
  define ws2 where "ws2 = take ((?n + 63) div 64) ws @ replicate (length ws - (?n + 63) div 64) 0"
  note tail = mask_tail [OF cover, folded ws_def, folded ws2_def]
  let ?bm = "bm1\<lparr>words := ws2\<rparr>"
  have load: "bm_load D first bm d = (Ret ?bm, d1)"
    using 1(1,4) by (simp add: bm_load_def ws2_def ws_def Let_def add.commute [of 63])
  have wf: "wf_bitmap ?bm"
    using tail 1(4,5) assms(3) by (auto simp: wf_bitmap_def bit_at_def)
  have "bit_at ?bm i \<longleftrightarrow> block_bit (blocks d (first + of_nat (i div 32768))) (i mod 32768)"
    if i: "i < ?n" for i
  proof -
    have k: "i div 64 < ?m * 512"
      using word_index_in_range [OF wf, of i] i 1(4,5) assms(3) tail(1) by simp
    have d: "i div 64 div 512 = i div 32768" by (simp add: div_mult2_eq [symmetric])
    have m: "64 * (i div 64 mod 512) + i mod 64 = i mod 32768"
      using mod_mult2_eq [of i 64 512] by simp
    have "i div 32768 < ?m" using k unfolding d [symmetric] by (simp add: div_less_iff_less_mult)
    then have blk: "is_block (blocks d (first + of_nat (i div 32768)))"
      using region_block(1) [OF assms(2)] region_above [OF assms(2,4)] reader_len [OF assms(1)] by blast
    have "bit_at ?bm i \<longleftrightarrow> bit (words bm1 ! (i div 64)) (i mod 64)"
      using tail i k 1(5) assms(3) by (simp add: bit_at_def)
    also have "\<dots> \<longleftrightarrow> block_bit (blocks d (first + of_nat (i div 32768))) (i mod 32768)"
      using 1(6) [OF k] bit_at_words_of_block [OF blk, of "i div 64 mod 512" "i mod 64"]
      by (simp add: d m)
    finally show ?thesis .
  qed
  with load 1 wf show ?thesis by (intro exI [of _ d1] exI [of _ ?bm]) simp
qed

end

sublocale block_dev \<subseteq> reader: block_reader D invar blocks 0
  by unfold_locales (simp_all add: blocks_len read_ok)

context block_dev
begin

lemma bm_store_run:
  "bm_store D first bm = default_write_run (write_block D) first (block_of_words (words bm)) (blocks_for (nbits bm))"
proof -
  have "block_of_words (get_at (k * 512) 512 (words bm)) =
      get_at (k * 4096) 4096 (block_of_words (words bm))" for k
    using get_at_block_of_words [of "k * 512" 512 "words bm"] by (simp add: ac_simps)
  then show ?thesis by (simp add: bm_store_def default_write_run_def)
qed

lemma store_ok:
  assumes "invar d" and "region_fits (dev_count D) first (nbits bm)" and "wf_bitmap bm"
  shows "\<exists>d'. bm_store D first bm d = (Ret (), d') \<and> invar d' \<and>
    blocks d' = run_update (blocks d) first (block_of_words (words bm)) (unat (blocks_for (nbits bm)))"
  unfolding bm_store_run
  by (rule default_write_run_ok [OF assms(1)])
     (use assms in \<open>simp_all add: region_fits_def wf_bitmap_def\<close>)

text \<open>What was stored is what is loaded.\<close>

lemma store_then_load:
  assumes "invar d" and "region_fits (dev_count D) first (nbits bm)" and "wf_bitmap bm"
  shows "\<exists>d'. thenE (bm_store D first bm) (bm_load D first (bitmap_new (nbits bm))) d = (Ret bm, d') \<and>
    invar d'"
proof -
  let ?m = "unat (blocks_for (nbits bm))"
  from store_ok [OF assms] obtain d1 where 1: "bm_store D first bm d = (Ret (), d1)" "invar d1"
    "blocks d1 = run_update (blocks d) first (block_of_words (words bm)) ?m" by blast
  have new: "length (words (bitmap_new (nbits bm))) = unat (blocks_for (nbits (bitmap_new (nbits bm)))) * 512"
    "nbits (bitmap_new (nbits bm)) = nbits bm"
    by (simp_all add: bitmap_new_def)
  have "region_fits (dev_count D) first (nbits (bitmap_new (nbits bm)))"
    using assms(2) new(2) by simp
  from reader.load_ok [OF 1(2) this new(1)] new(2) obtain d2 bm2 where
    2: "bm_load D first (bitmap_new (nbits bm)) d1 = (Ret bm2, d2)" "invar d2" "wf_bitmap bm2"
    "nbits bm2 = nbits bm" "\<And>i. i < unat (nbits bm) \<Longrightarrow> bit_at bm2 i \<longleftrightarrow>
       block_bit (blocks d1 (first + of_nat (i div 32768))) (i mod 32768)" by auto
  have "bit_at bm2 i \<longleftrightarrow> bit_at bm i" if i: "i < unat (nbits bm)" for i
  proof -
    let ?k = "i div 32768"
    have w: "i div 64 < ?m * 512"
      using word_index_in_range [OF assms(3) i] assms(3) by (simp add: wf_bitmap_def)
    then have "i div 64 div 512 < ?m" by (simp add: div_less_iff_less_mult)
    then have k: "?k < ?m" by (simp add: div_mult2_eq [symmetric])
    note u = region_block(2) [OF assms(2) k]
    have "blocks d1 (first + of_nat ?k) = chunk (block_of_words (words bm)) ?k"
      using u k by (simp add: 1(3) run_update_def word_le_nat_alt)
    also have "\<dots> = block_of_words (get_at (?k * 512) 512 (words bm))"
      using get_at_block_of_words [of "?k * 512" 512 "words bm"] by (simp add: chunk_def ac_simps)
    finally have b: "blocks d1 (first + of_nat ?k) = block_of_words (get_at (?k * 512) 512 (words bm))" .
    have "Suc ?k * 512 \<le> ?m * 512" using k by (intro mult_le_mono1) simp
    then have len: "length (get_at (?k * 512) 512 (words bm)) = 512"
      using assms(3) by (simp add: wf_bitmap_def)
    have idx: "?k * 512 + i mod 32768 div 64 = i div 64" "i mod 32768 mod 64 = i mod 64"
    proof -
      define q r where "q = i div 32768" and "r = i mod 32768"
      have i: "i = r + (q * 512) * 64" by (simp add: q_def r_def)
      show "?k * 512 + i mod 32768 div 64 = i div 64"
        unfolding q_def [symmetric] r_def [symmetric] unfolding i by (subst div_mult_self1) simp_all
      show "i mod 32768 mod 64 = i mod 64"
        unfolding r_def [symmetric] unfolding i by (subst mod_mult_self1) simp_all
    qed
    have "block_bit (blocks d1 (first + of_nat ?k)) (i mod 32768) \<longleftrightarrow>
        bit (get_at (?k * 512) 512 (words bm) ! (i mod 32768 div 64)) (i mod 32768 mod 64)"
      unfolding b by (rule block_bit_block_of_words) (unfold len, simp)
    also have "\<dots> \<longleftrightarrow> bit_at bm i"
      using w assms(3) idx by (simp add: nth_get_at bit_at_def wf_bitmap_def less_mult_imp_div_less)
    finally show ?thesis using 2(5) [OF i] by simp
  qed
  then have "used bm2 = used bm"
    using 2(3,4) assms(3) by (auto simp: used_def wf_bitmap_def)
  then have "bm2 = bm" using bitmap_eqI 2(3,4) assms(3) by blast
  with 1 2 show ?thesis by auto
qed

end

text \<open>
  A search of a bitmap returns the lowest number not in use, and finds nothing exactly when
  every number is in use; setting the number it found is what makes it used.
\<close>

lemma find_first_free_lowest:
  assumes "wf_bitmap bm"
  shows "case find_first_free bm of
      None \<Rightarrow> used bm = {i. i < nbits bm}
    | Some r \<Rightarrow> r < nbits bm \<and> r \<notin> used bm \<and> (\<forall>j < r. j \<in> used bm) \<and>
        (\<exists>bm'. set_bit_in r bm = (Ret (), bm') \<and> wf_bitmap bm' \<and> used bm' = insert r (used bm))"
proof (cases "find_first_free bm")
  case None
  with find_first_free_Some(2) [OF assms] show ?thesis by simp
next
  case (Some r)
  with find_first_free_Some(1) [OF assms, of r] set_bit_in_ok [OF assms, of r] show ?thesis by auto
qed

text \<open>
  C30. A bitmap stored in its region of the disk image and loaded back is the same bitmap, bit
  for bit, and its count is the number of set bits.
\<close>

theorem bitmap_store_load:
  assumes "pd_ok d w" and "region_fits (pd_count d) first (nbits bm)" and "wf_bitmap bm"
  shows "(\<exists>w1 w2. bm_store (pread_device d) first bm w = (Ret (), w1) \<and>
      bm_load (pread_device d) first (bitmap_new (nbits bm)) w1 = (Ret bm, w2) \<and> pd_ok d w2) \<and>
    unat (count_set bm) = card (used bm)"
proof -
  have "region_fits (dev_count (pread_device d)) first (nbits bm)"
    using assms(2) by (simp add: pread_device_def)
  from pread.store_then_load [OF assms(1) this assms(3)] count_set_used [OF assms(3)]
  show ?thesis by (auto simp: thenE_eq_Ret)
qed

theorem bitmap_store_load_witness:
  "pd_ok \<lparr>pd_fd = 3, pd_count = 2\<rparr> small_world \<and>
   (\<exists>w1 w2. bm_store (pread_device \<lparr>pd_fd = 3, pd_count = 2\<rparr>) 1 (bitmap_new 40) small_world = (Ret (), w1) \<and>
      bm_load (pread_device \<lparr>pd_fd = 3, pd_count = 2\<rparr>) 1 (bitmap_new 40) w1 = (Ret (bitmap_new 40), w2) \<and>
      pd_ok \<lparr>pd_fd = 3, pd_count = 2\<rparr> w2) \<and>
   unat (count_set (bitmap_new 40)) = card (used (bitmap_new 40))"
proof -
  have n: "nbits (bitmap_new 40) = 40" by (simp add: bitmap_new_def)
  have "region_fits (pd_count \<lparr>pd_fd = 3, pd_count = 2\<rparr>) 1 (nbits (bitmap_new 40))"
    by (simp add: region_fits_def blocks_for_unat n)
  from bitmap_store_load [OF small_world_ok this wf_bitmap_new] small_world_ok n show ?thesis by simp
qed

end
