(* ===== verification/Crc32.thy ===== *)
theory Crc32
  imports Prelude
begin

text \<open>
  \<^verbatim>\<open>src/src/crc32.cpp\<close>: the checksum on every log record, computed from a table of 256
  entries. The reference it is compared with is the shift register that divides by the
  polynomial one message bit at a time. (On ARM the source may use the CRC32 instructions
  instead of the table, under a preprocessor condition; that branch is not modelled.)
\<close>

definition crc_shift :: "u32 \<Rightarrow> u32" where
  "crc_shift c = (if c AND 1 \<noteq> 0 then 0xEDB88320 XOR drop_bit 1 c else drop_bit 1 c)"

definition make_table :: "u32 list" where
  "make_table = map (\<lambda>i. (crc_shift ^^ 8) (of_nat i)) [0..<256]"

definition TABLE :: "u32 list" where
  "TABLE = make_table"

definition crc_update :: "u32 \<Rightarrow> byte \<Rightarrow> u32" where
  "crc_update c b = TABLE ! unat ((c XOR ucast b) AND 0xFF) XOR drop_bit 8 c"

definition crc32 :: "bytes \<Rightarrow> u32 \<Rightarrow> u32" where
  "crc32 data crc = NOT (foldl crc_update (NOT crc) data)"

text \<open>The reference: one step of the register per message bit, lowest bit of each byte first.\<close>

definition crc_feed_bit :: "u32 \<Rightarrow> bool \<Rightarrow> u32" where
  "crc_feed_bit c b = crc_shift (c XOR of_bool b)"

definition crc32_serial :: "bytes \<Rightarrow> u32 \<Rightarrow> u32" where
  "crc32_serial data crc =
     NOT (foldl crc_feed_bit (NOT crc) (concat (map (\<lambda>b. map (bit b) [0..<8]) data)))"

section \<open>The register is linear\<close>

lemma crc_shift_alt: "crc_shift c = (if odd c then 0xEDB88320 else 0) XOR drop_bit 1 c"
  by (simp add: crc_shift_def and_one_eq odd_iff_mod_2_eq_one)

lemma odd_xor_iff: "odd (a XOR b :: u32) \<longleftrightarrow> odd a \<noteq> odd b"
  by (simp add: even_xor_iff)

lemma xor_cancel_left: "p XOR x = p XOR y \<Longrightarrow> x = (y :: 'a::len word)"
  by (metis bit.xor_left_self)

lemma xor_cancel_right: "x XOR p = y XOR p \<Longrightarrow> x = (y :: 'a::len word)"
  by (metis bit.xor_left_self xor.commute)

lemma crc_shift_xor: "crc_shift (a XOR b) = crc_shift a XOR crc_shift b"
  unfolding crc_shift_alt odd_xor_iff drop_bit_xor
  by (cases "odd a"; cases "odd b") (simp_all add: ac_simps xor.left_commute)

lemma crc_shift_pow_xor: "(crc_shift ^^ n) (a XOR b) = (crc_shift ^^ n) a XOR (crc_shift ^^ n) b"
  by (induction n) (simp_all add: crc_shift_xor)

text \<open>Bits above the ones shifted out only move down.\<close>

lemma crc_shift_pow_high:
  "(\<And>i. i < n \<Longrightarrow> \<not> bit c i) \<Longrightarrow> (crc_shift ^^ n) c = drop_bit n c"
proof (induction n arbitrary: c)
  case 0
  then show ?case by simp
next
  case (Suc n)
  from Suc.prems [of 0] have e: "even c" by (simp add: bit_0)
  then have "crc_shift c = drop_bit 1 c" by (simp add: crc_shift_alt)
  moreover have "(crc_shift ^^ n) (drop_bit 1 c) = drop_bit n (drop_bit 1 c)"
    using Suc.prems by (intro Suc.IH) (simp add: bit_drop_bit_eq)
  ultimately show ?case by (simp add: funpow_swap1)
qed

lemma low_high_split: "(c :: u32) = (c AND 0xFF) XOR (push_bit 8 (drop_bit 8 c))"
proof (rule bit_word_eqI)
  fix i assume "i < LENGTH(32)"
  have m: "(0xFF :: u32) = mask 8" by (simp add: mask_eq_exp_minus_1)
  show "bit c i = bit ((c AND 0xFF) XOR push_bit 8 (drop_bit 8 c)) i"
    unfolding m by (auto simp: bit_simps dest: bit_imp_le_length)
qed

lemma TABLE_nth: "i < 256 \<Longrightarrow> TABLE ! i = (crc_shift ^^ 8) (of_nat i)"
  by (simp add: TABLE_def make_table_def del: funpow.simps)

lemma and_255_less: "unat (c AND 0xFF :: u32) < 256"
proof -
  have "c AND 0xFF \<le> 0xFF" by (rule word_and_le1)
  then show ?thesis by (simp add: word_le_nat_alt)
qed

lemma crc_update_shift: "crc_update c b = (crc_shift ^^ 8) (c XOR ucast b)"
proof -
  let ?x = "c XOR ucast b"
  have d: "drop_bit 8 ?x = drop_bit 8 c"
    by (rule bit_word_eqI) (auto simp: bit_simps dest: bit_imp_le_length)
  have "(crc_shift ^^ 8) ?x = (crc_shift ^^ 8) (?x AND 0xFF) XOR (crc_shift ^^ 8) (push_bit 8 (drop_bit 8 ?x))"
    using crc_shift_pow_xor [of 8 "?x AND 0xFF" "push_bit 8 (drop_bit 8 ?x)"]
    by (simp only: low_high_split [of ?x, symmetric])
  also have "(crc_shift ^^ 8) (push_bit 8 (drop_bit 8 ?x)) = drop_bit 8 (push_bit 8 (drop_bit 8 ?x))"
    by (rule crc_shift_pow_high) (simp only: bit_push_bit_iff, simp)
  also have "\<dots> = drop_bit 8 c"
    unfolding d by (rule bit_word_eqI) (auto simp: bit_simps dest: bit_imp_le_length)
  also have "(crc_shift ^^ 8) (?x AND 0xFF) = TABLE ! unat (?x AND 0xFF)"
    using TABLE_nth [OF and_255_less [of ?x]] by simp
  finally show ?thesis by (simp add: crc_update_def)
qed

text \<open>Feeding the low \<^term>\<open>n\<close> bits of a byte one at a time is feeding them at once.\<close>

lemma feed_bits:
  "n \<le> 8 \<Longrightarrow> foldl crc_feed_bit c (map (bit (b :: byte)) [0..<n]) =
   (crc_shift ^^ n) (c XOR (ucast b AND mask n))"
proof (induction n)
  case 0
  then show ?case by simp
next
  case (Suc n)
  let ?b = "ucast b :: u32"
  have split: "?b AND mask (Suc n) = (?b AND mask n) XOR push_bit n (of_bool (bit b n))"
    using Suc.prems by (intro bit_word_eqI) (auto simp: bit_simps less_Suc_eq)
  have one: "(crc_shift ^^ n) (push_bit n (of_bool (bit b n))) = of_bool (bit b n)"
  proof -
    have "drop_bit n (push_bit n (of_bool (bit b n))) = (of_bool (bit b n) :: u32)"
      using Suc.prems by (intro bit_word_eqI) (auto simp: bit_simps)
    then show ?thesis
      by (subst crc_shift_pow_high) (auto simp: bit_push_bit_iff)
  qed
  have "foldl crc_feed_bit c (map (bit b) [0..<Suc n]) =
      crc_shift ((crc_shift ^^ n) (c XOR (?b AND mask n)) XOR of_bool (bit b n))"
  proof -
    have "n \<le> 8" using Suc.prems by simp
    from Suc.IH [OF this] show ?thesis
      by (simp add: crc_feed_bit_def [of _ "bit b n"])
  qed
  also have "\<dots> = crc_shift ((crc_shift ^^ n) (c XOR (?b AND mask (Suc n))))"
    by (simp only: split xor.assoc [symmetric] crc_shift_pow_xor one)
  finally show ?case by simp
qed

lemma feed_byte: "foldl crc_feed_bit c (map (bit (b :: byte)) [0..<8]) = crc_update c b"
proof -
  have "(ucast b :: u32) AND mask 8 = ucast b"
    by (rule bit_word_eqI) (auto simp: bit_simps dest: bit_imp_le_length)
  with feed_bits [of 8 c b] show ?thesis by (simp only: crc_update_shift order_refl)
qed

lemma foldl_feed:
  "foldl crc_feed_bit c (concat (map (\<lambda>b. map (bit b) [0..<8]) data)) = foldl crc_update c data"
  by (induction data arbitrary: c) (simp_all only: list.map concat.simps foldl_append foldl.simps feed_byte)

lemma crc_shift_inj: "crc_shift a = crc_shift b \<Longrightarrow> a = b"
proof -
  assume eq: "crc_shift a = crc_shift b"
  have top: "bit (crc_shift c) 31 = odd c" for c :: u32
    by (auto simp: crc_shift_alt bit_xor_iff bit_drop_bit_eq dest: bit_imp_le_length)
  have o: "odd a = odd b" using top [of a] top [of b] eq by simp
  then have d: "drop_bit 1 a = drop_bit 1 b" using eq unfolding crc_shift_alt by (auto dest: xor_cancel_left)
  show "a = b"
  proof (rule bit_word_eqI)
    fix i assume "i < LENGTH(32)"
    show "bit a i = bit b i"
    proof (cases i)
      case 0
      with o show ?thesis by (simp add: bit_0)
    next
      case (Suc j)
      have "bit (drop_bit 1 a) j = bit (drop_bit 1 b) j" using d by simp
      with Suc show ?thesis by (simp add: bit_drop_bit_eq)
    qed
  qed
qed

lemma crc_shift_pow_inj: "(crc_shift ^^ n) a = (crc_shift ^^ n) b \<Longrightarrow> a = b"
  by (induction n) (auto dest: crc_shift_inj)

lemma crc_update_inj_state: "crc_update c b = crc_update c' b \<Longrightarrow> c = c'"
  unfolding crc_update_shift
  by (drule crc_shift_pow_inj) (rule xor_cancel_right)

lemma byte_through_u32: "ucast (ucast (b :: byte) :: u32) = b"
  by (rule bit_word_eqI) (simp add: bit_ucast_iff)

lemma crc_update_inj_byte: "crc_update c a = crc_update c b \<Longrightarrow> a = b"
proof -
  assume "crc_update c a = crc_update c b"
  then have "c XOR ucast a = c XOR (ucast b :: u32)"
    unfolding crc_update_shift by (rule crc_shift_pow_inj)
  then have "ucast a = (ucast b :: u32)" by (rule xor_cancel_left)
  then have "(ucast (ucast a :: u32) :: byte) = ucast (ucast b :: u32)" by (rule arg_cong)
  then show "a = b" by (simp only: byte_through_u32)
qed

lemma foldl_update_inj: "foldl crc_update c data = foldl crc_update c' data \<Longrightarrow> c = c'"
  by (induction data arbitrary: c c') (auto dest: crc_update_inj_state)

lemma crc32_append: "crc32 (a @ b) crc = crc32 b (crc32 a crc)"
  by (simp add: crc32_def)

text \<open>
  C31. The table-driven checksum of a log record is the bitwise CRC-32: for every message and
  every starting value, looking up one table entry per byte gives what shifting the register
  once per message bit gives.
\<close>

theorem crc32_is_serial: "crc32 data crc = crc32_serial data crc"
  by (simp only: crc32_def crc32_serial_def foldl_feed)

text \<open>The published check value of this CRC, the checksum of the digits one to nine.\<close>

lemma byte_bits:
  "map (bit (b :: byte)) [0..<8] =
   [bit b 0, bit b 1, bit b 2, bit b 3, bit b 4, bit b 5, bit b 6, bit b 7]"
  by (simp add: upt_rec eval_nat_numeral)

lemma digits_bytes:
  "str_bytes ''123456789'' = [0x31, 0x32, 0x33, 0x34, 0x35, 0x36, 0x37, 0x38, 0x39]"
  by (simp add: str_bytes_def)

lemma crc32_check_value: "crc32 (str_bytes ''123456789'') 0 = 0xCBF43926"
  unfolding crc32_def digits_bytes foldl_feed [symmetric]
  by (simp add: byte_bits crc_feed_bit_def crc_shift_def bit_0)

text \<open>
  C32. A record in which one byte changed never keeps its checksum: two messages that differ
  in exactly one byte have different checksums, from any starting value.
\<close>

theorem crc32_detects_byte:
  assumes "a \<noteq> b"
  shows "crc32 (pre @ a # post) crc \<noteq> crc32 (pre @ b # post) crc"
proof
  assume "crc32 (pre @ a # post) crc = crc32 (pre @ b # post) crc"
  then have "foldl crc_update (crc_update (foldl crc_update (NOT crc) pre) a) post =
      foldl crc_update (crc_update (foldl crc_update (NOT crc) pre) b) post"
    by (simp add: crc32_def)
  then have "crc_update (foldl crc_update (NOT crc) pre) a = crc_update (foldl crc_update (NOT crc) pre) b"
    by (rule foldl_update_inj)
  then show False using assms by (auto dest: crc_update_inj_byte)
qed

theorem crc32_detects_byte_witness:
  "(1 :: byte) \<noteq> 2 \<and> crc32 ([7, 8] @ 1 # [9]) 0 \<noteq> crc32 ([7, 8] @ 2 # [9]) 0"
  using crc32_detects_byte [of 1 2 "[7, 8]" "[9]" 0] by simp

end
