(* ===== verification/Superblock.thy ===== *)
theory Superblock
  imports Bitmap
begin

text \<open>
  \<^verbatim>\<open>src/src/superblock.cpp\<close>: where every region of a disk goes, the check that a superblock
  read from an image describes exactly that layout, and reading and writing block 0.
  The arithmetic of \<^verbatim>\<open>plan_layout\<close> is 64-bit and the fields it fills are 32-bit, as in the
  source; the lemmas show that nothing wraps and nothing is cut off.
\<close>

definition corrupt :: "string \<Rightarrow> exn" where
  "corrupt what = RuntimeError (''bad superblock: '' @ what)"

definition expect_field :: "string \<Rightarrow> u32 \<Rightarrow> u32 \<Rightarrow> exn + unit" where
  "expect_field fname got want =
     (if got \<noteq> want
      then Inl (corrupt (fname @ '' is '' @ to_string (unat got) @ '', expected '' @ to_string (unat want)))
      else Inr ())"

text \<open>The number of inodes: as asked or one per sixteen blocks, then up to a whole table block.\<close>

definition planned_inodes :: "u32 \<Rightarrow> u32 \<Rightarrow> u64" where
  "planned_inodes nblocks inodes_wanted =
     (let i0 = (if inodes_wanted \<noteq> 0 then ucast inodes_wanted
                else ucast (nblocks div of_nat BLOCKS_PER_INODE)) :: u64;
          i1 = (i0 + of_nat INODES_PER_BLOCK - 1) div of_nat INODES_PER_BLOCK * of_nat INODES_PER_BLOCK
      in if i1 < of_nat INODES_PER_BLOCK then of_nat INODES_PER_BLOCK else i1)"

definition plan_layout :: "u32 \<Rightarrow> u32 \<Rightarrow> exn + superblock" where
  "plan_layout nblocks inodes_wanted =
     (let inodes = planned_inodes nblocks inodes_wanted in
      if inodes > ucast (- 1 :: u32)
      then Inl (InvalidArgument (''too many inodes: '' @ to_string (unat inodes)))
      else
        let inode_bitmap_blocks = ucast (blocks_for (ucast inodes)) :: u64;
            data_bitmap_blocks = ucast (blocks_for nblocks) :: u64;
            inode_table_blocks = inodes div of_nat INODES_PER_BLOCK;
            inode_bitmap_at = 1;
            data_bitmap_at = inode_bitmap_at + inode_bitmap_blocks;
            inode_table_at = data_bitmap_at + data_bitmap_blocks;
            data_at = inode_table_at + inode_table_blocks
        in
        if data_at \<ge> ucast nblocks
        then Inl (InvalidArgument (to_string (unat nblocks) @ '' blocks is too small for '' @
               to_string (unat inodes) @ '' inodes: the metadata needs '' @
               to_string (unat data_at) @ '' blocks, and the root directory one more''))
        else Inr
          \<lparr>magic = MAGIC, block_size = of_nat BLOCK_SIZE, total_blocks = nblocks,
           inode_count = ucast inodes, inode_bitmap_start = ucast inode_bitmap_at,
           data_bitmap_start = ucast data_bitmap_at, inode_table_start = ucast inode_table_at,
           data_start = ucast data_at, root_inode = ROOT_INODE, clean_unmount = 1,
           last_checkpoint_lsn = 0\<rparr>)"

text \<open>\<^verbatim>\<open>snprintf\<close> with the format \<^verbatim>\<open>0x%08x\<close>.\<close>

definition hex_digit :: "nat \<Rightarrow> char" where
  "hex_digit d = char_of (if d < 10 then 48 + d else 87 + d)"

definition hex32 :: "u32 \<Rightarrow> string" where
  "hex32 w = ''0x'' @ map (\<lambda>i. hex_digit (unat (drop_bit (28 - 4 * i) w) mod 16)) [0..<8]"

text \<open>A failed check throws: nothing after it runs.\<close>

definition andThen :: "exn + unit \<Rightarrow> exn + 'a \<Rightarrow> exn + 'a" where
  "andThen a b = (case a of Inl e \<Rightarrow> Inl e | Inr _ \<Rightarrow> b)"

definition validate_superblock :: "superblock \<Rightarrow> u32 \<Rightarrow> exn + unit" where
  "validate_superblock sb device_blocks =
     (if magic sb \<noteq> MAGIC
      then Inl (corrupt (''magic is '' @ hex32 (magic sb) @ '' - this is not a ConcurrentFS image''))
      else
        andThen (expect_field ''block_size'' (block_size sb) (of_nat BLOCK_SIZE))
       (if total_blocks sb \<noteq> device_blocks
        then Inl (corrupt (''it says the disk has '' @ to_string (unat (total_blocks sb)) @
               '' blocks, but the image holds '' @ to_string (unat device_blocks)))
        else
          andThen (expect_field ''root_inode'' (root_inode sb) ROOT_INODE)
         (case plan_layout (total_blocks sb) (inode_count sb) of
            Inl (InvalidArgument what) \<Rightarrow> Inl (corrupt what)
          | Inl e \<Rightarrow> Inl e
          | Inr want \<Rightarrow>
              andThen (expect_field ''inode_count'' (inode_count sb) (inode_count want))
             (andThen (expect_field ''inode_bitmap_start'' (inode_bitmap_start sb) (inode_bitmap_start want))
             (andThen (expect_field ''data_bitmap_start'' (data_bitmap_start sb) (data_bitmap_start want))
             (andThen (expect_field ''inode_table_start'' (inode_table_start sb) (inode_table_start want))
             (expect_field ''data_start'' (data_start sb) (data_start want))))))))"

definition read_superblock :: "'d device \<Rightarrow> ('d, superblock) op" where
  "read_superblock dev =
     bindE (read_block dev 0) (\<lambda>b.
       let sb = decode_superblock b in
       bindE (liftE (validate_superblock sb (dev_count dev))) (\<lambda>_. retE sb))"

definition write_superblock :: "'d device \<Rightarrow> superblock \<Rightarrow> ('d, unit) op" where
  "write_superblock dev sb = write_block dev 0 (put_at 0 (encode_superblock sb) zero_block)"

section \<open>The layout\<close>

lemma andThen_simps [simp]: "andThen (Inl e) b = Inl e" "andThen (Inr u) b = b"
  by (simp_all add: andThen_def)

lemma andThen_Inr: "andThen a b = Inr x \<longleftrightarrow> a = Inr () \<and> b = Inr x"
  by (cases a) auto

lemma expect_field_Inr: "expect_field f a b = Inr () \<longleftrightarrow> a = b"
  by (simp add: expect_field_def)

text \<open>The regions of a layout, as natural numbers: each ends where the next begins.\<close>

definition wf_super :: "superblock \<Rightarrow> bool" where
  "wf_super sb \<longleftrightarrow>
     magic sb = MAGIC \<and> block_size sb = of_nat BLOCK_SIZE \<and> root_inode sb = ROOT_INODE \<and>
     32 dvd unat (inode_count sb) \<and> 32 \<le> unat (inode_count sb) \<and>
     unat (inode_bitmap_start sb) = 1 \<and>
     unat (data_bitmap_start sb) = 1 + unat (blocks_for (inode_count sb)) \<and>
     unat (inode_table_start sb) = unat (data_bitmap_start sb) + unat (blocks_for (total_blocks sb)) \<and>
     unat (data_start sb) = unat (inode_table_start sb) + unat (inode_count sb) div 32 \<and>
     data_start sb < total_blocks sb"

lemma planned_inodes_nat:
  "unat (planned_inodes t n) =
     max 32 (((if n \<noteq> 0 then unat n else unat t div 16) + 31) div 32 * 32)"
proof -
  define i0 where "i0 = (if n \<noteq> 0 then ucast n else ucast (t div of_nat BLOCKS_PER_INODE) :: u64)"
  have u: "unat i0 = (if n \<noteq> 0 then unat n else unat t div 16)"
    by (simp add: i0_def unat_div)
  have "unat i0 < 2 ^ 32"
    using unat_less_2p [of n] unat_less_2p [of t] div_le_dividend [of "unat t" 16]
    by (simp add: u del: div_le_dividend)
  then have "unat ((i0 + 32 - 1) div 32 * 32) = (unat i0 + 31) div 32 * 32"
    by (simp add: unat_word_ariths unat_div)
  then show ?thesis
    by (auto simp: planned_inodes_def Let_def i0_def [symmetric] u [symmetric] word_less_nat_alt max_def)
qed

lemma unat_minus_one_u32: "unat (- 1 :: u32) = 2 ^ 32 - 1"
  by (simp add: unsigned_minus_1_eq_mask mask_eq_exp_minus_1)

lemma ucast_down_nat: "unat (x :: u64) < 2 ^ 32 \<Longrightarrow> unat (ucast x :: u32) = unat x"
  by (simp add: unsigned_ucast_eq take_bit_nat_eq_self)

text \<open>What \<^term>\<open>plan_layout\<close> computes, without words: none of its sums wraps.\<close>

lemma plan_layout_nat:
  fixes t n :: u32
  defines "ino \<equiv> unat (planned_inodes t n)"
  defines "ibs \<equiv> (ino + 32767) div 32768" and "dbs \<equiv> (unat t + 32767) div 32768"
  defines "at \<equiv> 1 + ibs + dbs + ino div 32"
  shows "(\<exists>sb. plan_layout t n = Inr sb) \<longleftrightarrow> ino < 2 ^ 32 \<and> at < unat t"
    and "plan_layout t n = Inr sb \<Longrightarrow>
      sb = \<lparr>magic = MAGIC, block_size = of_nat BLOCK_SIZE, total_blocks = t, inode_count = of_nat ino,
        inode_bitmap_start = 1, data_bitmap_start = of_nat (1 + ibs),
        inode_table_start = of_nat (1 + ibs + dbs), data_start = of_nat at,
        root_inode = ROOT_INODE, clean_unmount = 1, last_checkpoint_lsn = 0\<rparr>"
    and "plan_layout t n = Inl e \<Longrightarrow> \<exists>what. e = InvalidArgument what"
proof -
  let ?i = "planned_inodes t n"
  let ?at = "1 + ucast (blocks_for (ucast ?i)) + ucast (blocks_for t) + ?i div of_nat INODES_PER_BLOCK :: u64"
  have big: "?i > ucast (- 1 :: u32) \<longleftrightarrow> \<not> ino < 2 ^ 32"
    by (simp add: word_less_nat_alt ino_def unat_minus_one_u32) linarith
  have d: "unat (blocks_for t) = dbs" by (simp add: dbs_def blocks_for_unat)
  have nat: "unat (ucast ?i :: u32) = ino" "unat (blocks_for (ucast ?i)) = ibs" "unat ?at = at"
    if "ino < 2 ^ 32"
  proof -
    from that show i: "unat (ucast ?i :: u32) = ino" by (simp add: ino_def ucast_down_nat)
    then show b: "unat (blocks_for (ucast ?i)) = ibs" by (simp add: ibs_def blocks_for_unat)
    show "unat ?at = at"
      using that b d unat_less_2p [of t]
      by (simp add: at_def unat_word_ariths unat_div ino_def ibs_def dbs_def)
  qed
  have ucast_nat: "(ucast x :: u32) = of_nat (unat x)" for x :: u64
    by (simp add: of_nat_unat)
  have le: "?at \<ge> ucast t \<longleftrightarrow> unat t \<le> unat ?at" by (simp add: word_le_nat_alt)
  show "(\<exists>sb. plan_layout t n = Inr sb) \<longleftrightarrow> ino < 2 ^ 32 \<and> at < unat t"
    unfolding plan_layout_def Let_def big le using nat by auto
  show "plan_layout t n = Inl e \<Longrightarrow> \<exists>what. e = InvalidArgument what"
    unfolding plan_layout_def Let_def by (auto split: if_splits)
  assume sb: "plan_layout t n = Inr sb"
  then have small: "ino < 2 ^ 32" unfolding plan_layout_def Let_def big by (auto split: if_splits)
  have "unat (1 + ucast (blocks_for (ucast ?i)) :: u64) = 1 + ibs"
    "unat (1 + ucast (blocks_for (ucast ?i)) + ucast (blocks_for t) :: u64) = 1 + ibs + dbs"
    using nat(2) [OF small] d small unat_less_2p [of t]
    by (simp_all add: unat_word_ariths ibs_def dbs_def)
  with nat [OF small] sb show "sb = \<lparr>magic = MAGIC, block_size = of_nat BLOCK_SIZE, total_blocks = t,
      inode_count = of_nat ino, inode_bitmap_start = 1, data_bitmap_start = of_nat (1 + ibs),
      inode_table_start = of_nat (1 + ibs + dbs), data_start = of_nat at,
      root_inode = ROOT_INODE, clean_unmount = 1, last_checkpoint_lsn = 0\<rparr>"
    unfolding plan_layout_def Let_def ucast_nat by (auto split: if_splits simp: ino_def)
qed

lemma planned_inodes_32: "32 dvd unat (planned_inodes t n)" "32 \<le> unat (planned_inodes t n)"
  by (simp_all add: planned_inodes_nat max_def)

lemma planned_inodes_fix:
  assumes "unat (planned_inodes t n) < 2 ^ 32"
  shows "planned_inodes t (of_nat (unat (planned_inodes t n))) = planned_inodes t n"
proof -
  let ?i = "unat (planned_inodes t n)"
  have u: "unat (of_nat ?i :: u32) = ?i" using assms by (simp add: unat_of_nat del: of_nat_unat)
  obtain k where k: "?i = 32 * k" "0 < k"
    using planned_inodes_32 [of t n] by (metis dvdE gr0I mult_0_right not_numeral_le_zero)
  have "(of_nat ?i :: u32) \<noteq> 0"
    using u k by (metis mult_is_0 not_gr_zero unat_0 zero_neq_numeral)
  then have "unat (planned_inodes t (of_nat ?i)) = ?i"
    unfolding planned_inodes_nat [of t "of_nat ?i"] u using k by simp
  then show ?thesis by (simp add: word_unat_eq_iff del: of_nat_unat)
qed

lemma plan_layout_wf:
  assumes "plan_layout t n = Inr sb"
  shows "wf_super sb" and "total_blocks sb = t" and "n \<le> inode_count sb"
    and "clean_unmount sb = 1" and "last_checkpoint_lsn sb = 0"
proof -
  let ?i = "unat (planned_inodes t n)"
  let ?b = "(?i + 32767) div 32768" and ?d = "(unat t + 32767) div 32768"
  note sb = plan_layout_nat(2) [OF assms]
  from assms plan_layout_nat(1) [of t n] have lt: "?i < 2 ^ 32" "1 + ?b + ?d + ?i div 32 < unat t"
    by auto
  note t = unat_less_2p [of t]
  have u: "unat (inode_count sb) = ?i" "unat (data_bitmap_start sb) = 1 + ?b"
    "unat (inode_table_start sb) = 1 + ?b + ?d" "unat (data_start sb) = 1 + ?b + ?d + ?i div 32"
    using lt t by (simp_all add: sb unat_of_nat del: of_nat_unat of_nat_add of_nat_Suc)
  show "wf_super sb"
    using planned_inodes_32 [of t n] lt
    by (simp add: wf_super_def u blocks_for_unat word_less_nat_alt) (simp add: sb)
  show "total_blocks sb = t" "clean_unmount sb = 1" "last_checkpoint_lsn sb = 0"
    by (simp_all add: sb)
  have "m \<le> (m + 31) div 32 * 32" for m :: nat by presburger
  from this [of "unat n"] have "unat n \<le> ?i" by (auto simp: planned_inodes_nat le_max_iff_disj)
  then show "n \<le> inode_count sb" by (simp add: word_le_nat_alt u)
qed

lemma plan_layout_again:
  assumes "plan_layout t n = Inr sb"
  shows "plan_layout t (inode_count sb) = Inr sb"
proof -
  from assms plan_layout_nat(1) [of t n] have lt: "unat (planned_inodes t n) < 2 ^ 32" by auto
  have "inode_count sb = of_nat (unat (planned_inodes t n))"
    using plan_layout_nat(2) [OF assms] by simp
  with planned_inodes_fix [OF lt] have p: "planned_inodes t (inode_count sb) = planned_inodes t n"
    by simp
  have "plan_layout t (inode_count sb) = plan_layout t n"
    unfolding plan_layout_def p ..
  with assms show ?thesis by simp
qed

text \<open>The fields that say nothing about the layout.\<close>

definition mount_fields_reset :: "superblock \<Rightarrow> superblock" where
  "mount_fields_reset sb = sb\<lparr>clean_unmount := 1, last_checkpoint_lsn := 0\<rparr>"

lemma validate_superblock_iff:
  "validate_superblock sb dev = Inr () \<longleftrightarrow>
     total_blocks sb = dev \<and> plan_layout dev (inode_count sb) = Inr (mount_fields_reset sb)"
proof
  assume v: "validate_superblock sb dev = Inr ()"
  then obtain want where w: "plan_layout (total_blocks sb) (inode_count sb) = Inr want"
    and eqs: "magic sb = MAGIC" "block_size sb = of_nat BLOCK_SIZE" "total_blocks sb = dev"
      "root_inode sb = ROOT_INODE" "inode_count sb = inode_count want"
      "inode_bitmap_start sb = inode_bitmap_start want" "data_bitmap_start sb = data_bitmap_start want"
      "inode_table_start sb = inode_table_start want" "data_start sb = data_start want"
    by (auto simp: validate_superblock_def andThen_Inr expect_field_Inr
        split: if_splits sum.splits exn.splits)
  have "want = mount_fields_reset sb"
    using eqs plan_layout_nat(2) [OF w] plan_layout_wf(2) [OF w]
    by (auto simp: mount_fields_reset_def intro!: superblock.equality)
  with w eqs show "total_blocks sb = dev \<and> plan_layout dev (inode_count sb) = Inr (mount_fields_reset sb)"
    by simp
next
  assume a: "total_blocks sb = dev \<and> plan_layout dev (inode_count sb) = Inr (mount_fields_reset sb)"
  then have p: "plan_layout dev (inode_count sb) = Inr (mount_fields_reset sb)" by simp
  from plan_layout_wf(1) [OF p] a show "validate_superblock sb dev = Inr ()"
    by (simp add: validate_superblock_def wf_super_def expect_field_Inr)
       (simp add: mount_fields_reset_def expect_field_def)
qed

lemma validate_superblock_wf:
  "validate_superblock sb dev = Inr () \<Longrightarrow> wf_super sb \<and> total_blocks sb = dev"
  using plan_layout_wf(1) [of dev "inode_count sb" "mount_fields_reset sb"]
  by (simp add: validate_superblock_iff wf_super_def mount_fields_reset_def)

lemma validate_plan_layout:
  assumes "plan_layout t n = Inr sb"
  shows "validate_superblock (sb\<lparr>clean_unmount := c, last_checkpoint_lsn := l\<rparr>) t = Inr ()"
proof -
  have "mount_fields_reset (sb\<lparr>clean_unmount := c, last_checkpoint_lsn := l\<rparr>) = sb"
    using plan_layout_wf(4,5) [OF assms] by (simp add: mount_fields_reset_def)
  with plan_layout_again [OF assms] plan_layout_wf(2) [OF assms] show ?thesis
    by (simp add: validate_superblock_iff)
qed

text \<open>Block 0 on a device.\<close>

definition super_image :: "superblock \<Rightarrow> block" where
  "super_image sb = put_at 0 (encode_superblock sb) zero_block"

lemma is_block_super_image [simp]: "is_block (super_image sb)"
  by (simp add: super_image_def is_block_def)

lemma decode_super_image [simp]: "decode_superblock (super_image sb) = sb"
  by (simp add: super_image_def put_at_def)

context block_dev
begin

lemma write_superblock_ok:
  assumes "invar d" and "0 < dev_count D"
  shows "\<exists>d'. write_superblock D sb d = (Ret (), d') \<and> invar d' \<and>
    blocks d' = (blocks d)(0 := super_image sb)"
  using write_ok [OF assms, of "super_image sb"]
  by (simp add: write_superblock_def super_image_def [symmetric])

lemma read_superblock_ok:
  assumes "invar d" and "0 < dev_count D"
    and "validate_superblock (decode_superblock (blocks d 0)) (dev_count D) = Inr ()"
  shows "\<exists>d'. read_superblock D d = (Ret (decode_superblock (blocks d 0)), d') \<and> invar d' \<and>
    blocks d' = blocks d"
  using read_ok [OF assms(1,2)] assms(3) by (auto simp: read_superblock_def Let_def)

lemma read_superblock_bad:
  assumes "invar d" and "0 < dev_count D"
    and "validate_superblock (decode_superblock (blocks d 0)) (dev_count D) = Inl e"
  shows "\<exists>d'. read_superblock D d = (Raise e, d') \<and> invar d' \<and> blocks d' = blocks d"
  using read_ok [OF assms(1,2)] assms(3) by (auto simp: read_superblock_def Let_def)

end

text \<open>
  C26. A layout that is planned is sound: block 0, the two bitmaps, the inode table and the data
  region follow each other without gap or overlap, each large enough for what it holds, and at
  least one data block is left; the arithmetic never wraps. Validation accepts the planned
  superblock whatever its clean flag and checkpoint number say.
\<close>

theorem plan_layout_sound:
  assumes "plan_layout t n = Inr sb"
  shows "wf_super sb \<and> total_blocks sb = t \<and> n \<le> inode_count sb \<and>
    validate_superblock (sb\<lparr>clean_unmount := c, last_checkpoint_lsn := l\<rparr>) t = Inr ()"
  using plan_layout_wf [OF assms] validate_plan_layout [OF assms] by blast

lemma planned_small: "planned_inodes 64 0 = 32"
  using planned_inodes_nat [of 64 0] by (simp add: word_unat_eq_iff)

lemma plan_layout_small: "\<exists>sb. plan_layout 64 0 = Inr sb"
  using plan_layout_nat(1) [of 64 0] by (simp add: planned_small)

theorem plan_layout_sound_witness:
  "\<exists>sb. plan_layout 64 0 = Inr sb \<and> wf_super sb \<and> total_blocks sb = 64 \<and> 0 \<le> inode_count sb \<and>
     validate_superblock (sb\<lparr>clean_unmount := 0, last_checkpoint_lsn := 9\<rparr>) 64 = Inr ()"
proof -
  from plan_layout_small obtain sb where sb: "plan_layout 64 0 = Inr sb" by blast
  from plan_layout_sound [OF sb, where c = 0 and l = 9] sb show ?thesis by blast
qed

text \<open>
  C27. Validation accepts a superblock exactly when it names the size of the device and every
  field of its layout is what \<^verbatim>\<open>plan_layout\<close> computes from that size and its inode count; in
  particular every accepted superblock describes regions that do not overlap.
\<close>

theorem validate_superblock_exact:
  "(validate_superblock sb dev = Inr () \<longleftrightarrow>
      total_blocks sb = dev \<and> plan_layout dev (inode_count sb) = Inr (mount_fields_reset sb)) \<and>
   (validate_superblock sb dev = Inr () \<longrightarrow> wf_super sb)"
  using validate_superblock_iff validate_superblock_wf by blast

theorem validate_superblock_exact_witness:
  "\<exists>sb. validate_superblock sb 64 = Inr () \<and> wf_super sb"
proof -
  from plan_layout_small obtain sb where sb: "plan_layout 64 0 = Inr sb" by blast
  then have v: "validate_superblock (sb\<lparr>clean_unmount := 1, last_checkpoint_lsn := 0\<rparr>) 64 = Inr ()"
    by (rule validate_plan_layout)
  with validate_superblock_exact [of "sb\<lparr>clean_unmount := 1, last_checkpoint_lsn := 0\<rparr>" 64]
  show ?thesis by blast
qed

end
