(* ===== verification/Path.thy ===== *)
theory Path
  imports Errors Layout
begin

text \<open>
  \<^verbatim>\<open>src/src/path.cpp\<close>: a path as the list of names it goes through. A C string is the list
  of its bytes before the terminating zero, and the null pointer is \<^term>\<open>None\<close>. The
  specification it is compared with splits at every slash and then resolves the empty name,
  the dot and the double dot one after the other.
\<close>

definition SLASH :: byte where "SLASH = 47"
definition DOT :: byte where "DOT = 46"

lemma byte_consts [simp]: "SLASH \<noteq> DOT" "SLASH \<noteq> 0" "DOT \<noteq> 0"
  by (simp_all add: SLASH_def DOT_def)

lemma dropWhile_shorter: "p \<noteq> [] \<Longrightarrow> length (dropWhile (\<lambda>c. c \<noteq> x) (dropWhile (\<lambda>c. c = x) p)) < length p"
proof (cases p)
  case (Cons c cs)
  have "length (dropWhile (\<lambda>c. c \<noteq> x) (dropWhile (\<lambda>c. c = x) p)) \<le> length (dropWhile (\<lambda>c. c = x) p)"
    by (rule length_dropWhile_le)
  moreover have "length (dropWhile P cs) < length p" for P
    using Cons length_dropWhile_le [of P cs] by simp
  ultimately show ?thesis using Cons by (cases "c = x") (auto simp: less_Suc_eq_le intro: order.trans)
qed simp

function split_loop :: "bytes list \<Rightarrow> bytes \<Rightarrow> exn + bytes list" where
  "split_loop names p =
     (if p = [] then Inr names
      else
        let p1 = dropWhile (\<lambda>c. c = SLASH) p;
            start = takeWhile (\<lambda>c. c \<noteq> SLASH) p1;
            p2 = dropWhile (\<lambda>c. c \<noteq> SLASH) p1
        in
        if length start = 0 then split_loop names p2
        else if length start > MAX_NAME_LEN then Inl (FsError VFS_ENAMETOOLONG)
        else if length start = 1 \<and> start ! 0 = DOT then split_loop names p2
        else if length start = 2 \<and> start ! 0 = DOT \<and> start ! 1 = DOT
        then split_loop (if names \<noteq> [] then butlast names else names) p2
        else split_loop (names @ [start]) p2)"
  by pat_completeness auto
termination
  by (relation "measure (\<lambda>(names, p). length p)") (auto simp: dropWhile_shorter)

declare split_loop.simps [simp del]

definition split_path :: "bytes option \<Rightarrow> exn + bytes list" where
  "split_path path = (case path of
       None \<Rightarrow> Inl (FsError VFS_EINVAL)
     | Some p \<Rightarrow>
         let s = takeWhile (\<lambda>c. c \<noteq> 0) p in
         if s = [] \<or> s ! 0 \<noteq> SLASH then Inl (FsError VFS_EINVAL) else split_loop [] s)"

section \<open>Specification\<close>

text \<open>The pieces between slashes, empty ones included.\<close>

fun pieces :: "bytes \<Rightarrow> bytes list" where
  "pieces [] = [[]]"
| "pieces (c # cs) = (if c = SLASH then [] # pieces cs
     else case pieces cs of [] \<Rightarrow> [[c]] | q # qs \<Rightarrow> (c # q) # qs)"

definition resolve_step :: "bytes list \<Rightarrow> bytes \<Rightarrow> bytes list" where
  "resolve_step names q =
     (if q = [] \<or> q = [DOT] then names
      else if q = [DOT, DOT] then butlast names
      else names @ [q])"

definition resolve_path :: "bytes \<Rightarrow> exn + bytes list" where
  "resolve_path p =
     (if \<exists>q \<in> set (pieces p). length q > MAX_NAME_LEN then Inl (FsError VFS_ENAMETOOLONG)
      else Inr (foldl resolve_step [] (pieces p)))"

definition valid_name :: "bytes \<Rightarrow> bool" where
  "valid_name q \<longleftrightarrow> q \<noteq> [] \<and> length q \<le> MAX_NAME_LEN \<and> SLASH \<notin> set q \<and> 0 \<notin> set q \<and>
     q \<noteq> [DOT] \<and> q \<noteq> [DOT, DOT]"

text \<open>The path of a list of names.\<close>

definition join_path :: "bytes list \<Rightarrow> bytes" where
  "join_path names = (if names = [] then [SLASH] else concat (map (\<lambda>q. SLASH # q) names))"

section \<open>The loop computes the specification\<close>

lemma pieces_nonempty [simp]: "pieces p \<noteq> []"
  by (cases p) (auto split: list.splits)

lemma pieces_prefix:
  "SLASH \<notin> set q \<Longrightarrow> pieces (q @ p) = (q @ hd (pieces p)) # tl (pieces p)"
  by (induction q) (auto split: list.splits)

lemma pieces_slash: "pieces (q @ SLASH # p) = (if SLASH \<in> set q then pieces (q @ SLASH # p) else q # pieces p)"
  by (simp add: pieces_prefix)

lemma pieces_no_slash: "q \<in> set (pieces p) \<Longrightarrow> SLASH \<notin> set q \<and> set q \<subseteq> set p"
proof (induction p arbitrary: q)
  case (Cons c cs)
  then show ?case
    by (cases "pieces cs") (fastforce split: if_splits)+
qed simp

text \<open>Leading slashes only add empty pieces.\<close>

lemma pieces_skip_slashes:
  "\<exists>k. pieces p = replicate k [] @ pieces (dropWhile (\<lambda>c. c = SLASH) p)"
proof (induction p)
  case (Cons c cs)
  then obtain k where k: "pieces cs = replicate k [] @ pieces (dropWhile (\<lambda>c. c = SLASH) cs)" by auto
  show ?case
  proof (cases "c = SLASH")
    case True
    with k show ?thesis by (intro exI [of _ "Suc k"]) simp
  next
    case False
    then show ?thesis by (intro exI [of _ 0]) simp
  qed
qed (intro exI [of _ 0], simp)

lemma resolve_step_Nil [simp]: "resolve_step names [] = names"
  by (simp add: resolve_step_def)

lemma foldl_resolve_skip [simp]: "foldl resolve_step names (replicate k [] @ qs) = foldl resolve_step names qs"
  by (induction k) simp_all

lemma pieces_head:
  "pieces p = takeWhile (\<lambda>c. c \<noteq> SLASH) p #
     (case dropWhile (\<lambda>c. c \<noteq> SLASH) p of [] \<Rightarrow> [] | c # cs \<Rightarrow> pieces cs)"
  by (induction p) (auto split: list.splits)

lemma singleton_iff: "length q = 1 \<and> q ! 0 = x \<longleftrightarrow> q = [x]"
  by (cases q) auto

lemma pair_iff: "length q = 2 \<and> q ! 0 = x \<and> q ! 1 = y \<longleftrightarrow> q = [x, y]"
  by (cases q; cases "tl q") auto

lemma butlast_same: "(if names \<noteq> [] then butlast names else names) = butlast names"
  by simp

lemma split_loop_spec:
  assumes "p = [] \<or> hd p = SLASH"
  shows "split_loop names p =
    (if \<exists>q \<in> set (pieces p). length q > MAX_NAME_LEN then Inl (FsError VFS_ENAMETOOLONG)
     else Inr (foldl resolve_step names (pieces p)))"
  using assms
proof (induction names p rule: split_loop.induct)
  case (1 names p)
  show ?case
  proof (cases "p = []")
    case True
    then show ?thesis by (simp add: split_loop.simps)
  next
    case False
    define p1 where "p1 = dropWhile (\<lambda>c. c = SLASH) p"
    define start where "start = takeWhile (\<lambda>c. c \<noteq> SLASH) p1"
    define p2 where "p2 = dropWhile (\<lambda>c. c \<noteq> SLASH) p1"
    have hd2: "p2 = [] \<or> hd p2 = SLASH" unfolding p2_def by (metis (full_types) hd_dropWhile)
    obtain k where k: "pieces p = replicate k [] @ pieces p1"
      using pieces_skip_slashes [of p] unfolding p1_def by blast
    have p1: "pieces p1 = start # tl (pieces p2)"
      using pieces_head [of p1] hd2 unfolding start_def [symmetric] p2_def [symmetric]
      by (cases p2) auto
    have p2: "pieces p2 = [] # tl (pieces p2)" using hd2 by (cases p2) auto
    have long: "(\<exists>q \<in> set (pieces p). length q > MAX_NAME_LEN) \<longleftrightarrow>
        length start > MAX_NAME_LEN \<or> (\<exists>q \<in> set (pieces p2). length q > MAX_NAME_LEN)"
      unfolding k p1 by (subst p2) auto
    have fold: "foldl resolve_step names (pieces p) = foldl resolve_step (resolve_step names start) (pieces p2)"
      unfolding k p1 foldl_resolve_skip by (subst p2) simp
    have step: "split_loop names p =
        (if length start > MAX_NAME_LEN then Inl (FsError VFS_ENAMETOOLONG)
         else split_loop (resolve_step names start) p2)"
      using False unfolding split_loop.simps [of names p] Let_def
        p1_def [symmetric] start_def [symmetric] p2_def [symmetric] singleton_iff pair_iff
      by (auto simp: resolve_step_def)
    note IH = "1.IH" [OF False p1_def start_def p2_def, unfolded singleton_iff pair_iff]
    have "split_loop (resolve_step names start) p2 =
        (if \<exists>q \<in> set (pieces p2). length q > MAX_NAME_LEN then Inl (FsError VFS_ENAMETOOLONG)
         else Inr (foldl resolve_step (resolve_step names start) (pieces p2)))"
      if "\<not> length start > MAX_NAME_LEN"
      using IH that hd2 unfolding resolve_step_def [of names start] butlast_same by auto
    with step long fold show ?thesis by auto
  qed
qed

lemma c_string_cases:
  "split_path (Some p) =
     (let s = takeWhile (\<lambda>c. c \<noteq> 0) p in
      if s = [] \<or> hd s \<noteq> SLASH then Inl (FsError VFS_EINVAL) else resolve_path s)"
  using split_loop_spec [of "takeWhile (\<lambda>c. c \<noteq> 0) p" "[]"]
  by (auto simp: split_path_def resolve_path_def Let_def hd_conv_nth)

lemma resolve_step_valid:
  assumes "\<forall>n \<in> set names. valid_name n" and "length q \<le> MAX_NAME_LEN" "SLASH \<notin> set q" "0 \<notin> set q"
  shows "\<forall>n \<in> set (resolve_step names q). valid_name n"
  using assms by (auto simp: resolve_step_def valid_name_def dest: in_set_butlastD)

lemma foldl_resolve_valid:
  assumes "\<forall>n \<in> set names. valid_name n"
    and "\<forall>q \<in> set qs. length q \<le> MAX_NAME_LEN \<and> SLASH \<notin> set q \<and> 0 \<notin> set q"
  shows "\<forall>n \<in> set (foldl resolve_step names qs). valid_name n"
  using assms
proof (induction qs arbitrary: names)
  case (Cons q qs)
  then have "\<forall>n \<in> set (resolve_step names q). valid_name n" by (intro resolve_step_valid) auto
  with Cons show ?case by simp
qed simp

lemma foldl_resolve_names:
  "\<forall>n \<in> set ns. valid_name n \<Longrightarrow> foldl resolve_step names ns = names @ ns"
  by (induction ns arbitrary: names) (auto simp: resolve_step_def valid_name_def)

lemma pieces_join:
  "\<forall>n \<in> set ns. valid_name n \<Longrightarrow> pieces (concat (map (\<lambda>q. SLASH # q) ns)) = [] # ns"
proof (induction ns)
  case (Cons n ns)
  then have "SLASH \<notin> set n" by (simp add: valid_name_def)
  with Cons show ?case by (simp add: pieces_prefix)
qed simp

lemma takeWhile_c_string: "0 \<notin> set p \<Longrightarrow> takeWhile (\<lambda>c. c \<noteq> (0 :: byte)) p = p"
  by (auto simp: takeWhile_eq_all_conv)

lemma join_path_no_nul: "\<forall>n \<in> set ns. valid_name n \<Longrightarrow> 0 \<notin> set (join_path ns)"
  by (auto simp: join_path_def valid_name_def)

lemma resolve_join: "\<forall>n \<in> set ns. valid_name n \<Longrightarrow> resolve_path (join_path ns) = Inr ns"
proof -
  assume v: "\<forall>n \<in> set ns. valid_name n"
  then have "\<forall>q \<in> set ns. length q \<le> MAX_NAME_LEN" by (auto simp: valid_name_def)
  with v show ?thesis
    by (cases "ns = []")
       (auto simp: resolve_path_def join_path_def pieces_join foldl_resolve_names not_less)
qed

text \<open>
  C33. Splitting an absolute path gives exactly its resolution: cut at every slash, skip empty
  names and the dot, drop the last name at a double dot (which at the root stays at the root),
  fail with \<^verbatim>\<open>VFS_ENAMETOOLONG\<close> if any piece is over the limit; a null, empty or relative path
  is \<^verbatim>\<open>VFS_EINVAL\<close>.
\<close>

theorem split_path_resolves:
  "split_path path = (case path of
       None \<Rightarrow> Inl (FsError VFS_EINVAL)
     | Some p \<Rightarrow>
         let s = takeWhile (\<lambda>c. c \<noteq> 0) p in
         if s \<noteq> [] \<and> hd s = SLASH then resolve_path s else Inl (FsError VFS_EINVAL))"
  by (cases path) (auto simp: c_string_cases Let_def, simp add: split_path_def)

text \<open>
  C34. The names a path resolves to are names a directory can hold (not empty, not too long,
  no slash or zero byte, neither dot nor double dot), and writing them out as a path again and
  splitting that gives the same names.
\<close>

theorem split_path_normal_form:
  assumes "split_path path = Inr names"
  shows "(\<forall>n \<in> set names. valid_name n) \<and> split_path (Some (join_path names)) = Inr names"
proof -
  from assms obtain p where path: "path = Some p" by (cases path) (auto simp: split_path_def)
  define s where "s = takeWhile (\<lambda>c. c \<noteq> 0) p"
  have r: "resolve_path s = Inr names"
    using assms unfolding path c_string_cases s_def [symmetric] Let_def by (auto split: if_splits)
  have "0 \<notin> set s" unfolding s_def by (auto dest: set_takeWhileD)
  then have "\<forall>q \<in> set (pieces s). length q \<le> MAX_NAME_LEN \<and> SLASH \<notin> set q \<and> 0 \<notin> set q"
    using r pieces_no_slash [of _ s] by (auto simp: resolve_path_def not_less split: if_splits)
  then have v: "\<forall>n \<in> set names. valid_name n"
    using r foldl_resolve_valid [of "[]" "pieces s"] by (auto simp: resolve_path_def split: if_splits)
  have "join_path names \<noteq> []" "hd (join_path names) = SLASH"
    by (auto simp: join_path_def) (cases names; simp)
  with v show ?thesis
    by (simp add: c_string_cases takeWhile_c_string join_path_no_nul resolve_join)
qed

theorem split_path_normal_form_witness:
  "split_path (Some (str_bytes ''/a//b/./c/../d'')) = Inr [str_bytes ''a'', str_bytes ''b'', str_bytes ''d''] \<and>
   list_all valid_name [str_bytes ''a'', str_bytes ''b'', str_bytes ''d''] \<and>
   split_path (Some (join_path [str_bytes ''a'', str_bytes ''b'', str_bytes ''d''])) =
     Inr [str_bytes ''a'', str_bytes ''b'', str_bytes ''d'']"
proof -
  have "split_path (Some (str_bytes ''/a//b/./c/../d'')) =
      Inr [str_bytes ''a'', str_bytes ''b'', str_bytes ''d'']"
    by (simp add: c_string_cases resolve_path_def resolve_step_def str_bytes_def SLASH_def DOT_def)
  with split_path_normal_form [OF this] show ?thesis unfolding list_all_iff by blast
qed

end
