(* ===== verification/Wal.thy ===== *)
theory Wal
  imports Block_Device Crc32
begin

text \<open>
  \<^verbatim>\<open>src/src/wal.cpp\<close>: the write-ahead log, a file of checksummed records. The state of an
  operation is the \<^verbatim>\<open>Wal\<close> object and the world its file lives in; the operations that lay
  out a record (\<^verbatim>\<open>encode\<close>, \<^verbatim>\<open>stage\<close>, \<^verbatim>\<open>stage_block\<close>, \<^verbatim>\<open>append\<close>) also carry an environment,
  because \<^verbatim>\<open>stage_block\<close> is handed a function that reads the payload out of the cache.
\<close>

definition WAL_MAGIC :: u32 where "WAL_MAGIC = 0x524C4157"
definition WAL_BEGIN :: u16 where "WAL_BEGIN = 1"
definition WAL_BLOCK :: u16 where "WAL_BLOCK = 2"
definition WAL_COMMIT :: u16 where "WAL_COMMIT = 3"
definition BATCH_BYTES :: nat where "BATCH_BYTES = 2 ^ 20"

record wal_header =
  h_magic :: u32
  h_type :: u16
  h_reserved :: u16
  h_block_no :: u32
  h_payload_len :: u32
  h_lsn :: u64
  h_txn_id :: u64
  h_checksum :: u32
  h_pad :: u32

record wal_record =
  header :: wal_header
  payload :: block

definition HEADER_SIZE :: nat where "HEADER_SIZE = 40"

definition encode_header :: "wal_header \<Rightarrow> bytes" where
  "encode_header h =
     le32 (h_magic h) @ le16 (h_type h) @ le16 (h_reserved h) @ le32 (h_block_no h) @
     le32 (h_payload_len h) @ le64 (h_lsn h) @ le64 (h_txn_id h) @ le32 (h_checksum h) @
     le32 (h_pad h)"

definition decode_header :: "bytes \<Rightarrow> wal_header" where
  "decode_header b =
     \<lparr>h_magic = rd32 0 b, h_type = rd16 4 b, h_reserved = rd16 6 b, h_block_no = rd32 8 b,
      h_payload_len = rd32 12 b, h_lsn = rd64 16 b, h_txn_id = rd64 24 b, h_checksum = rd32 32 b,
      h_pad = rd32 36 b\<rparr>"

record wal =
  wl_fd :: nat
  wl_sync :: bool
  wl_end :: nat
  next_lsn :: u64
  durable_lsn :: u64
  bytes_appended :: nat
  batch :: bytes

section \<open>Reading\<close>

definition log_errno :: "string \<Rightarrow> exn" where
  "log_errno operation = RuntimeError (''log: '' @ operation)"

definition record_checksum :: "wal_header \<Rightarrow> bytes \<Rightarrow> u32" where
  "record_checksum h pl =
     (let c = crc32 (encode_header (h\<lparr>h_checksum := 0\<rparr>)) 0
      in if h_payload_len h > 0 then crc32 (take (unat (h_payload_len h)) pl) c else c)"

text \<open>The loop of \<^verbatim>\<open>read_at\<close>, with the bytes read so far.\<close>

function read_at_loop :: "bytes \<Rightarrow> nat \<Rightarrow> nat \<Rightarrow> (posix_file, bytes) op" where
  "read_at_loop done n off f =
     (if length done < n then
        case posix_pread (n - length done) (off + length done) f of
          (Inl e, f') \<Rightarrow>
            if e = EINTR then read_at_loop done n off f' else (Raise (log_errno ''pread''), f')
        | (Inr bs, f') \<Rightarrow> if bs = [] then (Ret done, f') else read_at_loop (done @ bs) n off f'
      else (Ret done, f))"
  by pat_completeness auto
termination
  by (relation "measures [\<lambda>(done, n, off, f). n - length done, \<lambda>(done, n, off, f). length (script f)]")
     (auto dest!: posix_pread_progress [OF sym] simp flip: length_greater_0_conv)

declare read_at_loop.simps [simp del]

definition read_at :: "nat \<Rightarrow> nat \<Rightarrow> (posix_file, bytes) op" where
  "read_at n off = read_at_loop [] n off"

text \<open>\<^verbatim>\<open>full_sync\<close>; the \<^verbatim>\<open>F_FULLFSYNC\<close> branch exists on macOS only.\<close>

function full_sync :: "(posix_file, unit) op" where
  "full_sync f = (case posix_fsync f of
       (None, f') \<Rightarrow> (Ret (), f')
     | (Some e, f') \<Rightarrow> if e = EINTR then full_sync f' else (Raise (log_errno ''fsync''), f'))"
  by pat_completeness auto
termination
  by (relation "measure (\<lambda>f. length (script f))")
     (auto simp: posix_fsync_def next_event_def split: io_event.splits list.splits prod.splits)

declare full_sync.simps [simp del]

definition wal_open :: "bytes \<Rightarrow> bool \<Rightarrow> (world, wal) op" where
  "wal_open path sync_enabled =
     bindE (\<lambda>w. case posix_open path True False w of (r, w') \<Rightarrow> (Ret r, w')) (\<lambda>r. case r of
         Inl e \<Rightarrow> throwE (log_errno (''open '' @ map (\<lambda>b. char_of (unat b)) path))
       | Inr fd \<Rightarrow>
           bindE (\<lambda>w. case on_file fd posix_fstat_size w of (r, w') \<Rightarrow> (Ret r, w')) (\<lambda>r. case r of
               Inl e \<Rightarrow> throwE (log_errno ''fstat'')
             | Inr st_size \<Rightarrow> retE \<lparr>wl_fd = fd, wl_sync = sync_enabled, wl_end = st_size, next_lsn = 1,
                 durable_lsn = 0, bytes_appended = 0, batch = []\<rparr>))"

text \<open>
  The checks \<^verbatim>\<open>scan\<close> makes on a header, given the log sequence number of the record before
  it, before it looks at the payload.
\<close>

definition header_ok :: "u32 \<Rightarrow> u64 option \<Rightarrow> wal_header \<Rightarrow> bool" where
  "header_ok nblocks prev h =
     (let blk = (h_type h = WAL_BLOCK) in
      \<not> (h_magic h \<noteq> WAL_MAGIC \<or> h_reserved h \<noteq> 0 \<or> h_pad h \<noteq> 0) \<and>
      \<not> (h_type h \<noteq> WAL_BEGIN \<and> h_type h \<noteq> WAL_BLOCK \<and> h_type h \<noteq> WAL_COMMIT) \<and>
      h_payload_len h = (if blk then of_nat BLOCK_SIZE else 0) \<and>
      \<not> (blk \<and> (h_block_no h = 0 \<or> (nblocks \<noteq> 0 \<and> h_block_no h \<ge> nblocks))) \<and>
      \<not> (\<not> blk \<and> h_block_no h \<noteq> 0) \<and>
      \<not> (h_lsn h = 0 \<or> (case prev of None \<Rightarrow> False | Some p \<Rightarrow> h_lsn h \<noteq> p + 1)))"

definition last_lsn_of :: "wal_record list \<Rightarrow> u64 option" where
  "last_lsn_of rs = (if rs = [] then None else Some (h_lsn (header (last rs))))"

lemma get_at_past: "\<not> off + min n (length b - off) \<le> length b \<Longrightarrow> get_at off n b = []"
  by (auto simp: get_at_def)

lemma read_at_loop_length:
  "read_at_loop done n off f = (Ret bs, f') \<Longrightarrow> length done \<le> n \<Longrightarrow> off + length done \<le> length (content f) \<or> done = [] \<Longrightarrow>
   content f' = content f \<and> length bs \<le> n \<and> (off + length bs \<le> length (content f) \<or> bs = [])"
proof (induction "done" n off f rule: read_at_loop.induct)
  case (1 "done" n off f)
  show ?case
  proof (cases "length done < n")
    case False
    with "1.prems" show ?thesis by (simp add: read_at_loop.simps [of "done"])
  next
    case lt: True
    obtain r f1 where pr: "posix_pread (n - length done) (off + length done) f = (r, f1)" by fastforce
    have c: "content f1 = content f"
      using pr by (auto simp: posix_pread_def split: io_event.splits prod.splits dest: next_event_script)
    show ?thesis
    proof (cases r)
      case (Inl e)
      with "1.prems"(1) pr lt have "e = EINTR" "read_at_loop done n off f1 = (Ret bs, f')"
        by (auto simp: read_at_loop.simps [of "done"] split: if_splits)
      with "1.IH"(1) [OF lt pr [symmetric] Inl] "1.prems"(2,3) c show ?thesis by simp
    next
      case (Inr x)
      have x: "length x \<le> n - length done" "x = [] \<or> off + length done + length x \<le> length (content f)"
        using pr Inr
        by (auto simp: posix_pread_def get_at_past split: io_event.splits prod.splits)
      show ?thesis
      proof (cases "x = []")
        case True
        with "1.prems" pr lt Inr c show ?thesis by (auto simp: read_at_loop.simps [of "done"])
      next
        case False
        with "1.prems"(1) pr lt Inr have "read_at_loop (done @ x) n off f1 = (Ret bs, f')"
          by (simp add: read_at_loop.simps [of "done"])
        with "1.IH"(2) [OF lt pr [symmetric] Inr False] x False lt c show ?thesis by auto
      qed
    qed
  qed
qed

lemma read_at_progress:
  "read_at n off f = (Ret bs, f') \<Longrightarrow> content f' = content f \<and> length bs \<le> n \<and>
     (off + length bs \<le> length (content f) \<or> bs = [])"
  unfolding read_at_def by (drule read_at_loop_length) auto

lemma encode_header_length [simp]: "length (encode_header h) = 40"
  by (simp add: encode_header_def)

text \<open>
  The loop of \<^verbatim>\<open>scan\<close>: the records found so far, the offset, and the size of the file as it
  was when the scan began. It ends because a record takes at least a header's worth of the file.
\<close>

function scan_loop :: "u32 \<Rightarrow> nat \<Rightarrow> wal_record list \<Rightarrow> nat \<Rightarrow> (posix_file, wal_record list) op" where
  "scan_loop nblocks st_size records off f =
     (case read_at HEADER_SIZE off f of
        (Raise e, f1) \<Rightarrow> (Raise e, f1)
      | (Halted h, f1) \<Rightarrow> (Halted h, f1)
      | (Ret hb, f1) \<Rightarrow>
          if length hb \<noteq> HEADER_SIZE then (Ret records, f1)
          else
            let h = decode_header hb in
            if \<not> header_ok nblocks (last_lsn_of records) h then (Ret records, f1)
            else if h_type h = WAL_BLOCK then
              if off + HEADER_SIZE + BLOCK_SIZE > st_size then (Ret records, f1)
              else (case read_at BLOCK_SIZE (off + HEADER_SIZE) f1 of
                  (Raise e, f2) \<Rightarrow> (Raise e, f2)
                | (Halted h, f2) \<Rightarrow> (Halted h, f2)
                | (Ret pb, f2) \<Rightarrow>
                    if length pb \<noteq> BLOCK_SIZE then (Ret records, f2)
                    else if record_checksum h pb \<noteq> h_checksum h then (Ret records, f2)
                    else scan_loop nblocks st_size (records @ [\<lparr>header = h, payload = pb\<rparr>])
                           (off + HEADER_SIZE + unat (h_payload_len h)) f2)
            else if record_checksum h zero_block \<noteq> h_checksum h then (Ret records, f1)
            else scan_loop nblocks st_size (records @ [\<lparr>header = h, payload = zero_block\<rparr>])
                   (off + HEADER_SIZE + unat (h_payload_len h)) f1)"
  by pat_completeness auto
termination
proof (relation "measure (\<lambda>(nblocks, st_size, records, off, f). length (content f) - off)", goal_cases)
  case 1
  then show ?case by simp
next
  case (2 nblocks st_size records off f p f1 hb h q f2 pb)
  then have "read_at HEADER_SIZE off f = (Ret hb, f1)" by simp
  from read_at_progress [OF this] 2 show ?case
    using read_at_progress [of BLOCK_SIZE "off + HEADER_SIZE" f1 pb f2]
    by (auto simp: HEADER_SIZE_def)
next
  case (3 nblocks st_size records off f p f1 hb h)
  then have "read_at HEADER_SIZE off f = (Ret hb, f1)" by simp
  from read_at_progress [OF this] 3 show ?case by (auto simp: HEADER_SIZE_def)
qed

declare scan_loop.simps [simp del]

type_synonym wal_state = "wal \<times> world"

definition on_log :: "(posix_file, 'a) op \<Rightarrow> (wal_state, 'a) op" where
  "on_log m = (\<lambda>(l, w). case on_file (wl_fd l) m w of (r, w') \<Rightarrow> (r, (l, w')))"

definition wal_scan :: "u32 \<Rightarrow> (wal_state, wal_record list) op" where
  "wal_scan nblocks =
     bindE (on_log (\<lambda>f. case posix_fstat_size f of (r, f') \<Rightarrow> (Ret r, f'))) (\<lambda>r. case r of
         Inl e \<Rightarrow> throwE (log_errno ''fstat'')
       | Inr st_size \<Rightarrow> on_log (scan_loop nblocks st_size [] 0))"

section \<open>Writing\<close>

text \<open>The loop of \<^verbatim>\<open>write_out\<close>, with the bytes still to be written.\<close>

function write_out_loop :: "bytes \<Rightarrow> nat \<Rightarrow> (posix_file, unit) op" where
  "write_out_loop src off f =
     (if src = [] then (Ret (), f)
      else case posix_pwrite src off f of
        (Inl e, f') \<Rightarrow>
          if e = EINTR then write_out_loop src off f' else (Raise (log_errno ''pwrite''), f')
      | (Inr n, f') \<Rightarrow>
          if n = 0 then (Raise (RuntimeError ''log: short write''), f')
          else write_out_loop (drop n src) (off + n) f')"
  by pat_completeness auto
termination
  by (relation "measures [\<lambda>(src, off, f). length src, \<lambda>(src, off, f). length (script f)]")
     (auto simp: posix_pwrite_def next_event_def split: io_event.splits list.splits prod.splits)

declare write_out_loop.simps [simp del]

definition write_out :: "bytes \<Rightarrow> (wal_state, unit) op" where
  "write_out bs =
     thenE (\<lambda>(l, w). case before_write (wl_fd l) bs (wl_end l) w of (r, w') \<Rightarrow> (r, (l, w')))
    (thenE (\<lambda>(l, w). on_log (write_out_loop bs (wl_end l)) (l, w))
    (modE (\<lambda>(l, w). (l\<lparr>wl_end := wl_end l + length bs,
       bytes_appended := bytes_appended l + length bs\<rparr>, w))))"

definition wal_flush :: "(wal_state, unit) op" where
  "wal_flush = (\<lambda>(l, w).
     if batch l = [] then (Ret (), (l, w))
     else thenE (write_out (batch l)) (modE (\<lambda>(l, w). (l\<lparr>batch := []\<rparr>, w))) (l, w))"

text \<open>The state with an environment, and operations on either part of it.\<close>

definition on_env :: "('e, 'a) op \<Rightarrow> ('e \<times> wal_state, 'a) op" where
  "on_env = zoomE fst (\<lambda>e s. (e, snd s))"

definition on_wal :: "(wal_state, 'a) op \<Rightarrow> ('e \<times> wal_state, 'a) op" where
  "on_wal = zoomE snd (\<lambda>l s. (fst s, l))"

definition new_header :: "u16 \<Rightarrow> u64 \<Rightarrow> u32 \<Rightarrow> bool \<Rightarrow> u64 \<Rightarrow> wal_header" where
  "new_header typ txn_id block_no has_payload lsn =
     \<lparr>h_magic = WAL_MAGIC, h_type = typ, h_reserved = 0, h_block_no = block_no,
      h_payload_len = (if has_payload then of_nat BLOCK_SIZE else 0), h_lsn = lsn,
      h_txn_id = txn_id, h_checksum = 0, h_pad = 0\<rparr>"

text \<open>\<^verbatim>\<open>fill\<close> is given when the record has a payload; it yields the payload's bytes.\<close>

definition wal_encode :: "u16 \<Rightarrow> u64 \<Rightarrow> u32 \<Rightarrow> ('e, block) op option \<Rightarrow> ('e \<times> wal_state, u64) op" where
  "wal_encode typ txn_id block_no fill =
     (if (typ = WAL_BLOCK) \<noteq> (fill \<noteq> None)
      then throwE (LogicError ''log: a BLOCK record, and only a BLOCK record, has a payload'')
      else
        bindE (case fill of None \<Rightarrow> retE [] | Some f \<Rightarrow> on_env f) (\<lambda>pl.
        on_wal (\<lambda>(l, w).
          let h = new_header typ txn_id block_no (fill \<noteq> None) (next_lsn l);
              h = h\<lparr>h_checksum := record_checksum h pl\<rparr>
          in (Ret (next_lsn l),
              (l\<lparr>batch := batch l @ encode_header h @ pl, next_lsn := next_lsn l + 1\<rparr>, w)))))"

definition wal_append :: "u16 \<Rightarrow> u64 \<Rightarrow> u32 \<Rightarrow> block option \<Rightarrow> ('e \<times> wal_state, u64) op" where
  "wal_append typ txn_id block_no pl =
     thenE (on_wal wal_flush)
    (bindE (wal_encode typ txn_id block_no (map_option retE pl)) (\<lambda>lsn.
     thenE (on_wal wal_flush) (retE lsn)))"

definition wal_stage_record ::
  "u16 \<Rightarrow> u64 \<Rightarrow> u32 \<Rightarrow> ('e, block) op option \<Rightarrow> ('e \<times> wal_state, u64) op" where
  "wal_stage_record typ txn_id block_no fill =
     thenE (on_wal (\<lambda>(l, w).
        let len = HEADER_SIZE + (if fill \<noteq> None then BLOCK_SIZE else 0) in
        if length (batch l) > 0 \<and> length (batch l) + len > BATCH_BYTES
        then wal_flush (l, w) else (Ret (), (l, w))))
     (wal_encode typ txn_id block_no fill)"

definition wal_stage :: "u16 \<Rightarrow> u64 \<Rightarrow> u32 \<Rightarrow> block option \<Rightarrow> ('e \<times> wal_state, u64) op" where
  "wal_stage typ txn_id block_no pl = wal_stage_record typ txn_id block_no (map_option retE pl)"

definition wal_stage_block :: "u64 \<Rightarrow> u32 \<Rightarrow> ('e, block) op \<Rightarrow> ('e \<times> wal_state, u64) op" where
  "wal_stage_block txn_id block_no fill = wal_stage_record WAL_BLOCK txn_id block_no (Some fill)"

definition wal_sync :: "(wal_state, unit) op" where
  "wal_sync =
     thenE wal_flush
    (thenE (\<lambda>(l, w). if wl_sync l then on_log full_sync (l, w) else (Ret (), (l, w)))
    (modE (\<lambda>(l, w). (l\<lparr>durable_lsn := next_lsn l - 1\<rparr>, w))))"

definition wal_reset :: "u64 \<Rightarrow> (wal_state, unit) op" where
  "wal_reset next =
     (if next = 0 then throwE (InvalidArgument ''log: lsns start at 1'')
      else
        thenE (modE (\<lambda>(l, w). (l\<lparr>batch := []\<rparr>, w)))
       (bindE (on_log (\<lambda>f. case posix_ftruncate 0 f of (r, f') \<Rightarrow> (Ret r, f'))) (\<lambda>r. case r of
           Some e \<Rightarrow> throwE (log_errno ''ftruncate'')
         | None \<Rightarrow>
             thenE (\<lambda>(l, w). if wl_sync l then on_log full_sync (l, w) else (Ret (), (l, w)))
            (modE (\<lambda>(l, w). (l\<lparr>wl_end := 0, next_lsn := next, durable_lsn := next - 1\<rparr>, w))))))"

definition wal_reset_stats :: "(wal_state, unit) op" where
  "wal_reset_stats = modE (\<lambda>(l, w). (l\<lparr>bytes_appended := 0\<rparr>, w))"

end
