(* ===== verification/Wal_Log.thy ===== *)
theory Wal_Log
  imports Wal "HOL-Library.Sublist"
begin

text \<open>
  The log as a sequence of records. \<^verbatim>\<open>parse_log\<close> is what a scan of a log file should return,
  on the bytes alone; the scan of the file computes it however the reads are cut up; and
  parsing undoes the encoding of any sequence of records the log can hold, also when the bytes
  stop anywhere inside a record, as they do after a torn write.
\<close>

definition encode_record :: "wal_record \<Rightarrow> bytes" where
  "encode_record r = encode_header (header r) @ (if h_type (header r) = WAL_BLOCK then payload r else [])"

definition log_bytes :: "wal_record list \<Rightarrow> bytes" where
  "log_bytes rs = concat (map encode_record rs)"

function parse_log :: "u32 \<Rightarrow> u64 option \<Rightarrow> bytes \<Rightarrow> wal_record list" where
  "parse_log nblocks prev b =
     (if length b < HEADER_SIZE then []
      else
        let h = decode_header (take HEADER_SIZE b);
            n = (if h_type h = WAL_BLOCK then BLOCK_SIZE else 0);
            pl = (if h_type h = WAL_BLOCK then get_at HEADER_SIZE BLOCK_SIZE b else zero_block)
        in
        if \<not> header_ok nblocks prev h \<or> length b < HEADER_SIZE + n \<or>
           record_checksum h pl \<noteq> h_checksum h then []
        else \<lparr>header = h, payload = pl\<rparr> # parse_log nblocks (Some (h_lsn h)) (drop (HEADER_SIZE + n) b))"
  by pat_completeness auto
termination
  by (relation "measure (\<lambda>(nblocks, prev, b). length b)") (auto simp: HEADER_SIZE_def)

declare parse_log.simps [simp del]

text \<open>A record that may follow one with sequence number \<^term>\<open>prev\<close> in a log.\<close>

definition rec_ok :: "u32 \<Rightarrow> u64 option \<Rightarrow> wal_record \<Rightarrow> bool" where
  "rec_ok nblocks prev r \<longleftrightarrow> header_ok nblocks prev (header r) \<and>
     record_checksum (header r) (payload r) = h_checksum (header r) \<and>
     is_block (payload r) \<and> (h_type (header r) \<noteq> WAL_BLOCK \<longrightarrow> payload r = zero_block)"

fun chain_ok :: "u32 \<Rightarrow> u64 option \<Rightarrow> wal_record list \<Rightarrow> bool" where
  "chain_ok nblocks prev [] = True"
| "chain_ok nblocks prev (r # rs) \<longleftrightarrow>
     rec_ok nblocks prev r \<and> chain_ok nblocks (Some (h_lsn (header r))) rs"

lemma HEADER_SIZE_simp [simp]: "HEADER_SIZE = 40"
  by (simp add: HEADER_SIZE_def)

lemma decode_encode_header [simp]: "decode_header (encode_header h @ rest) = h"
  by (simp add: decode_header_def encode_header_def rd16_def rd32_def rd64_def get_at_def)

lemma length_encode_record:
  "is_block (payload r) \<Longrightarrow>
   length (encode_record r) = 40 + (if h_type (header r) = WAL_BLOCK then 4096 else 0)"
  by (simp add: encode_record_def is_block_def)

lemma header_ok_payload_len:
  "header_ok nblocks prev h \<Longrightarrow> unat (h_payload_len h) = (if h_type h = WAL_BLOCK then 4096 else 0)"
  by (auto simp: header_ok_def Let_def)

section \<open>Scanning a file is parsing its bytes\<close>

lemma read_at_loop_ok:
  "benign f \<Longrightarrow> done = get_at off (length done) (content f) \<Longrightarrow> length done \<le> n \<Longrightarrow>
   \<exists>f'. read_at_loop done n off f = (Ret (get_at off n (content f)), f') \<and> benign f' \<and> content f' = content f"
proof (induction "done" n off f rule: read_at_loop.induct)
  case (1 "done" n off f)
  show ?case
  proof (cases "length done < n")
    case False
    with "1.prems"(3) have len: "length done = n" by simp
    have d: "get_at off n (content f) = done" using "1.prems"(2) unfolding len by (rule sym)
    show ?thesis
      using "1.prems"(1) len unfolding d by (simp add: read_at_loop.simps [of "done"])
  next
    case lt: True
    obtain r f1 where pr: "posix_pread (n - length done) (off + length done) f = (r, f1)" by fastforce
    note facts = posix_pread_benign [OF "1.prems"(1) pr]
    show ?thesis
    proof (cases "r = Inl EINTR")
      case True
      from facts have b: "benign f1" "content f1 = content f" by auto
      with "1.IH"(1) [OF lt pr [symmetric] True refl b(1)] "1.prems" lt pr True show ?thesis
        by (simp add: read_at_loop.simps [of "done"])
    next
      case False
      with facts lt obtain k where k: "r = Inr (get_at (off + length done) k (content f))"
        "k \<le> n - length done" "0 < k" and b: "benign f1" "content f1 = content f" by auto
      let ?x = "get_at (off + length done) k (content f)"
      have split: "get_at off (length done + k) (content f) = done @ ?x"
        unfolding get_at_def take_add using "1.prems"(2) by (simp add: get_at_def add.commute)
      show ?thesis
      proof (cases "?x = []")
        case True
        then have "length (content f) \<le> off + length done" using k(3) by (simp add: get_at_def)
        then have "get_at off n (content f) = done"
          using "1.prems"(2) lt by (simp add: get_at_def)
        with True k b lt pr show ?thesis by (simp add: read_at_loop.simps [of "done"])
      next
        case False
        have eq: "done @ ?x = get_at off (length (done @ ?x)) (content f)"
          using "1.prems"(2) k(2) by (subst split [symmetric]) (simp add: get_at_def min_def)
        have le: "length (done @ ?x) \<le> n" using k(2) lt by simp
        have "read_at_loop done n off f = read_at_loop (done @ ?x) n off f1"
          using False k(1) lt pr by (simp add: read_at_loop.simps [of "done"])
        with "1.IH"(2) [OF lt pr [symmetric] k(1) False b(1), unfolded b(2), OF eq le] show ?thesis
          by simp
      qed
    qed
  qed
qed

lemma read_at_ok:
  "benign f \<Longrightarrow> \<exists>f'. read_at n off f = (Ret (get_at off n (content f)), f') \<and> benign f' \<and> content f' = content f"
  unfolding read_at_def using read_at_loop_ok [of f "[]" off n] by (simp add: get_at_def)

lemma scan_loop_parse:
  "benign f \<Longrightarrow> st_size = length (content f) \<Longrightarrow>
   \<exists>f'. scan_loop nblocks st_size records off f =
     (Ret (records @ parse_log nblocks (last_lsn_of records) (drop off (content f))), f') \<and>
     benign f' \<and> content f' = content f"
proof (induction nblocks st_size records off f rule: scan_loop.induct)
  case (1 nblocks st_size records off f)
  let ?c = "content f"
  let ?b = "drop off ?c"
  obtain f1 where f1: "read_at HEADER_SIZE off f = (Ret (take 40 ?b), f1)" "benign f1" "content f1 = ?c"
    using read_at_ok [OF "1.prems"(1), of HEADER_SIZE off] by (auto simp: get_at_def)
  obtain f2 where f2: "read_at BLOCK_SIZE (off + HEADER_SIZE) f1 = (Ret (get_at 40 4096 ?b), f2)"
    "benign f2" "content f2 = ?c"
    using read_at_ok [OF f1(2), of BLOCK_SIZE "off + HEADER_SIZE"] f1(3)
    by (auto simp: get_at_def add.commute)
  let ?h = "decode_header (take 40 ?b)"
  let ?prev = "last_lsn_of records"
  have last: "last_lsn_of (records @ [\<lparr>header = h, payload = pl\<rparr>]) = Some (h_lsn h)" for h pl
    by (simp add: last_lsn_of_def)
  consider (short) "length ?b < 40"
    | (bad) "40 \<le> length ?b" "\<not> header_ok nblocks ?prev ?h"
    | (blk) "40 \<le> length ?b" "header_ok nblocks ?prev ?h" "h_type ?h = WAL_BLOCK"
    | (mark) "40 \<le> length ?b" "header_ok nblocks ?prev ?h" "h_type ?h \<noteq> WAL_BLOCK" by fastforce
  then show ?case
  proof cases
    case short
    with f1 show ?thesis by (auto simp: scan_loop.simps [of _ _ _ _ f] parse_log.simps [of _ _ ?b])
  next
    case bad
    with f1 show ?thesis
      by (auto simp: scan_loop.simps [of _ _ _ _ f] parse_log.simps [of _ _ ?b] Let_def)
  next
    case blk
    note n = header_ok_payload_len [OF blk(2)]
    show ?thesis
    proof (cases "4136 \<le> length ?b \<and> record_checksum ?h (get_at 40 4096 ?b) = h_checksum ?h")
      case True
      have sz: "\<not> st_size < off + HEADER_SIZE + BLOCK_SIZE" using True [THEN conjunct1] "1.prems"(2) by simp
      have "\<exists>f'. scan_loop nblocks st_size (records @ [\<lparr>header = ?h, payload = get_at 40 4096 ?b\<rparr>])
          (off + HEADER_SIZE + unat (h_payload_len ?h)) f2 =
          (Ret ((records @ [\<lparr>header = ?h, payload = get_at 40 4096 ?b\<rparr>]) @
             parse_log nblocks (Some (h_lsn ?h)) (drop (off + 40 + unat (h_payload_len ?h)) ?c)), f') \<and>
          benign f' \<and> content f' = ?c"
        using "1.IH"(1) [OF f1(1) [symmetric] refl _ refl _ blk(3) sz f2(1) [symmetric] refl]
          blk True f2 "1.prems"(2) by (auto simp: last)
      with f1 f2 blk True sz n show ?thesis
        by (auto simp: scan_loop.simps [of _ _ _ _ f] parse_log.simps [of _ _ ?b] Let_def ac_simps)
    next
      case False
      with f1 f2 blk "1.prems"(2) n show ?thesis
        by (auto simp: scan_loop.simps [of _ _ _ _ f] parse_log.simps [of _ _ ?b] Let_def not_le)
    qed
  next
    case mark
    note n = header_ok_payload_len [OF mark(2)]
    show ?thesis
    proof (cases "record_checksum ?h zero_block = h_checksum ?h")
      case True
      have "\<exists>f'. scan_loop nblocks st_size (records @ [\<lparr>header = ?h, payload = zero_block\<rparr>])
          (off + HEADER_SIZE + unat (h_payload_len ?h)) f1 =
          (Ret ((records @ [\<lparr>header = ?h, payload = zero_block\<rparr>]) @
             parse_log nblocks (Some (h_lsn ?h)) (drop (off + 40 + unat (h_payload_len ?h)) ?c)), f') \<and>
          benign f' \<and> content f' = ?c"
        using "1.IH"(2) [OF f1(1) [symmetric] refl _ refl _ mark(3)] mark True f1 "1.prems"(2)
        by (auto simp: last)
      with f1 mark True n show ?thesis
        by (auto simp: scan_loop.simps [of _ _ _ _ f] parse_log.simps [of _ _ ?b] Let_def ac_simps)
    next
      case False
      with f1 mark n show ?thesis
        by (auto simp: scan_loop.simps [of _ _ _ _ f] parse_log.simps [of _ _ ?b] Let_def)
    qed
  qed
qed

text \<open>The log file of a \<^verbatim>\<open>Wal\<close>.\<close>

definition log_file :: "wal_state \<Rightarrow> posix_file" where
  "log_file s = wfile (snd s) (wl_fd (fst s))"

lemma wal_scan_parse:
  assumes "benign (log_file s)"
  shows "\<exists>w'. wal_scan nblocks s = (Ret (parse_log nblocks None (content (log_file s))), (fst s, w')) \<and>
    benign (log_file (fst s, w')) \<and> content (log_file (fst s, w')) = content (log_file s) \<and>
    wfault w' = wfault (snd s) \<and> (\<forall>fd. fd \<noteq> wl_fd (fst s) \<longrightarrow> wfile w' fd = wfile (snd s) fd)"
proof -
  obtain l w where s: "s = (l, w)" by (cases s)
  have b: "benign (wfile w (wl_fd l))" using assms by (simp add: s log_file_def)
  obtain f1 where f1: "posix_fstat_size (wfile w (wl_fd l)) = (Inr (length (content (wfile w (wl_fd l)))), f1)"
    "benign f1" "content f1 = content (wfile w (wl_fd l))"
    using posix_fstat_size_benign [OF b] by blast
  with scan_loop_parse [OF f1(2), of "length (content (wfile w (wl_fd l)))" nblocks "[]" 0] show ?thesis
    by (auto simp: wal_scan_def s on_log_def on_file_def bindE_def log_file_def last_lsn_of_def)
qed

section \<open>Parsing undoes encoding\<close>

lemma parse_log_short: "length b < 40 \<Longrightarrow> parse_log nblocks prev b = []"
  by (simp add: parse_log.simps)

lemma parse_log_Nil [simp]: "parse_log nblocks prev [] = []"
  by (simp add: parse_log_short)

lemma parse_log_record:
  assumes "rec_ok nblocks prev r"
  shows "parse_log nblocks prev (encode_record r @ rest) =
    r # parse_log nblocks (Some (h_lsn (header r))) rest"
proof -
  have p: "length (payload r) = 4096" using assms by (simp add: rec_ok_def is_block_def)
  have h: "take 40 (encode_record r @ rest) = encode_header (header r)"
    by (simp add: encode_record_def)
  have d: "decode_header (encode_header (header r)) = header r"
    using decode_encode_header [of "header r" "[]"] by simp
  show ?thesis
  proof (cases "h_type (header r) = WAL_BLOCK")
    case True
    then have "get_at 40 4096 (encode_record r @ rest) = payload r"
      using p by (simp add: encode_record_def get_at_def)
    with True p h d assms show ?thesis
      by (simp add: parse_log.simps [of nblocks prev "encode_record r @ rest"] rec_ok_def Let_def)
         (simp add: encode_record_def)
  next
    case False
    with assms have z: "payload r = zero_block" by (simp add: rec_ok_def)
    with False p h d assms show ?thesis
      by (simp add: parse_log.simps [of nblocks prev "encode_record r @ rest"] rec_ok_def Let_def)
         (simp add: encode_record_def)
  qed
qed

lemma parse_log_torn:
  assumes "rec_ok nblocks prev r" and "k < length (encode_record r)"
  shows "parse_log nblocks prev (take k (encode_record r)) = []"
proof (cases "k < 40")
  case True
  then show ?thesis by (intro parse_log_short) simp
next
  case False
  have p: "length (payload r) = 4096" using assms by (simp add: rec_ok_def is_block_def)
  with False assms(2) have blk: "h_type (header r) = WAL_BLOCK" and k: "k < 4136"
    by (auto simp: encode_record_def split: if_splits)
  have h: "take 40 (take k (encode_record r)) = encode_header (header r)"
    using False by (simp add: encode_record_def min_def)
  have d: "decode_header (encode_header (header r)) = header r"
    using decode_encode_header [of "header r" "[]"] by simp
  show ?thesis
    unfolding parse_log.simps [of nblocks prev "take k (encode_record r)"] HEADER_SIZE_simp h d
    using blk k assms(2) False by (simp add: Let_def)
qed

definition lsn_after :: "u64 option \<Rightarrow> wal_record list \<Rightarrow> u64 option" where
  "lsn_after prev rs = (if rs = [] then prev else Some (h_lsn (header (last rs))))"

lemma lsn_after_simps [simp]:
  "lsn_after prev [] = prev" "lsn_after prev (r # rs) = lsn_after (Some (h_lsn (header r))) rs"
  by (simp_all add: lsn_after_def)

lemma log_bytes_simps [simp]:
  "log_bytes [] = []" "log_bytes (r # rs) = encode_record r @ log_bytes rs"
  "log_bytes (rs @ rs') = log_bytes rs @ log_bytes rs'"
  by (simp_all add: log_bytes_def)

lemma chain_ok_append:
  "chain_ok nblocks prev (rs @ rs') \<longleftrightarrow> chain_ok nblocks prev rs \<and> chain_ok nblocks (lsn_after prev rs) rs'"
  by (induction rs arbitrary: prev) auto

lemma parse_log_bytes:
  "chain_ok nblocks prev rs \<Longrightarrow>
   parse_log nblocks prev (log_bytes rs @ rest) = rs @ parse_log nblocks (lsn_after prev rs) rest"
  by (induction rs arbitrary: prev) (simp_all add: parse_log_record)

text \<open>The records of a log that lie wholly within its first \<^term>\<open>k\<close> bytes.\<close>

fun whole_records :: "nat \<Rightarrow> wal_record list \<Rightarrow> wal_record list" where
  "whole_records k [] = []"
| "whole_records k (r # rs) =
     (if length (encode_record r) \<le> k then r # whole_records (k - length (encode_record r)) rs else [])"

lemma parse_log_cut:
  "chain_ok nblocks prev rs \<Longrightarrow> parse_log nblocks prev (take k (log_bytes rs)) = whole_records k rs"
proof (induction rs arbitrary: prev k)
  case (Cons r rs)
  then show ?case by (auto simp: parse_log_record parse_log_torn)
qed simp

lemma whole_records_prefix: "\<exists>j \<le> length rs. whole_records k rs = take j rs"
proof (induction rs arbitrary: k)
  case (Cons r rs)
  then obtain j where "j \<le> length rs" "whole_records (k - length (encode_record r)) rs = take j rs" by blast
  then show ?case by (cases "length (encode_record r) \<le> k") (auto intro: exI [of _ "Suc j"] exI [of _ 0])
qed simp

lemma whole_records_append:
  "whole_records k (rs @ rs') =
     (if length (log_bytes rs) \<le> k then rs @ whole_records (k - length (log_bytes rs)) rs' else whole_records k rs)"
  by (induction rs arbitrary: k) auto

lemma whole_records_all: "length (log_bytes rs) \<le> k \<Longrightarrow> whole_records k rs = rs"
  using whole_records_append [of k rs "[]"] by simp

section \<open>What the writing operations leave in the file\<close>

definition wal_ok :: "wal_state \<Rightarrow> bool" where
  "wal_ok s \<longleftrightarrow> benign (log_file s) \<and> wl_end (fst s) = length (content (log_file s))"

text \<open>The bytes logically in the log: those in the file, then those waiting in the batch.\<close>

definition stream :: "wal_state \<Rightarrow> bytes" where
  "stream s = content (log_file s) @ batch (fst s)"

text \<open>Only the log file changes; the crash stays armed or unarmed.\<close>

definition same_but :: "nat \<Rightarrow> world \<Rightarrow> world \<Rightarrow> bool" where
  "same_but fd w w' \<longleftrightarrow> (\<forall>fd'. fd' \<noteq> fd \<longrightarrow> wfile w' fd' = wfile w fd') \<and>
     fatal (wfault w') = fatal (wfault w) \<and> crash_seed (wfault w') = crash_seed (wfault w)"

lemma same_but_refl [simp]: "same_but fd w w"
  by (simp add: same_but_def)

lemma same_but_trans: "same_but fd w w' \<Longrightarrow> same_but fd w' w'' \<Longrightarrow> same_but fd w w''"
  by (simp add: same_but_def)

text \<open>
  The judgement the log's operations share: \<^term>\<open>log_grows s added n r s'\<close> says that a run from
  \<^term>\<open>s\<close> to \<^term>\<open>s'\<close> that returns has put \<^term>\<open>added\<close> at the end of the log and used \<^term>\<open>n\<close>
  sequence numbers, and that one which is killed has left the file with some prefix, not
  shorter than what it held and not the whole, of the log it was making.
\<close>

definition log_grows :: "wal_state \<Rightarrow> bytes \<Rightarrow> nat \<Rightarrow> 'a outcome \<Rightarrow> wal_state \<Rightarrow> bool" where
  "log_grows s added n r s' \<longleftrightarrow>
     wl_fd (fst s') = wl_fd (fst s) \<and> wl_sync (fst s') = wl_sync (fst s) \<and>
     same_but (wl_fd (fst s)) (snd s) (snd s') \<and>
     (case r of
        Ret _ \<Rightarrow> wal_ok s' \<and> stream s' = stream s @ added \<and>
          next_lsn (fst s') = next_lsn (fst s) + of_nat n \<and>
          length (content (log_file s)) \<le> length (content (log_file s'))
      | Halted h \<Rightarrow> h = Crash \<and> fatal (wfault (snd s)) \<noteq> 0 \<and>
          (\<exists>k. length (content (log_file s)) \<le> k \<and> k < length (stream s @ added) \<and>
            content (log_file s') = take k (stream s @ added))
      | Raise _ \<Rightarrow> False)"

lemma log_grows_refl: "wal_ok s \<Longrightarrow> log_grows s [] 0 (Ret x) s"
  by (simp add: log_grows_def)

lemma log_grows_killed_more:
  assumes "log_grows s a n (Killed :: 'a outcome) s'"
  shows "log_grows s (a @ b) m (Killed :: 'b outcome) s'"
proof -
  from assms obtain k where k: "length (content (log_file s)) \<le> k" "k < length (stream s @ a)"
    "content (log_file s') = take k (stream s @ a)" by (auto simp: log_grows_def)
  then have "content (log_file s') = take k (stream s @ a @ b)" by (auto simp: take_append)
  with k assms show ?thesis by (auto simp: log_grows_def)
qed

lemma log_grows_trans:
  assumes "log_grows s a n (Ret x) s1" and "log_grows s1 b m r s2"
  shows "log_grows s (a @ b) (n + m) r s2"
proof (cases r)
  case (Halted h)
  with assms(2) have Killed: "r = Killed" by (simp add: log_grows_def)
  with assms(2) obtain k where k: "length (content (log_file s1)) \<le> k" "k < length (stream s1 @ b)"
    "content (log_file s2) = take k (stream s1 @ b)" by (auto simp: log_grows_def)
  with assms Killed show ?thesis
    by (auto simp: log_grows_def same_but_def intro!: exI [of _ k])
qed (use assms in \<open>auto simp: log_grows_def same_but_def ac_simps\<close>)

lemma write_out_loop_as_write_full:
  "write_out_loop src off f =
     (case write_full_loop src off f of
        (Ret u, f') \<Rightarrow> (Ret u, f')
      | (Halted h, f') \<Rightarrow> (Halted h, f')
      | (Raise e, f') \<Rightarrow> (Raise (if e = throw_errno ''pwrite'' then log_errno ''pwrite''
                                  else RuntimeError ''log: short write''), f'))"
proof (induction src off f rule: write_out_loop.induct)
  case (1 src off f)
  show ?case
  proof (cases "src = []")
    case True
    then show ?thesis by (simp add: write_out_loop.simps write_full_loop.simps)
  next
    case src: False
    obtain r f' where pw: "posix_pwrite src off f = (r, f')" by fastforce
    show ?thesis
    proof (cases r)
      case (Inl e)
      with src pw "1.IH"(1) [OF src pw [symmetric] Inl] show ?thesis
        by (simp add: write_out_loop.simps [of src] write_full_loop.simps [of src])
    next
      case (Inr n)
      with src pw "1.IH"(2) [OF src pw [symmetric] Inr] show ?thesis
        by (simp add: write_out_loop.simps [of src] write_full_loop.simps [of src] throw_errno_def)
    qed
  qed
qed

lemma write_out_loop_ok:
  "benign f \<Longrightarrow> off \<le> length (content f) \<Longrightarrow>
   \<exists>f'. write_out_loop src off f = (Ret (), f') \<and> benign f' \<and> content f' = store_bytes off src (content f)"
  using write_full_loop_ok [of f off src] by (auto simp: write_out_loop_as_write_full)

lemma before_write_cases:
  assumes "benign (wfile w fd)" and "off \<le> length (content (wfile w fd))" and "src \<noteq> []"
  shows "(\<exists>w'. before_write fd src off w = (Ret (), w') \<and> wfile w' = wfile w \<and> same_but fd w w') \<or>
    (\<exists>w' k. before_write fd src off w = (Killed, w') \<and> fatal (wfault w) \<noteq> 0 \<and> k < length src \<and>
       content (wfile w' fd) = store_bytes off (take k src) (content (wfile w fd)) \<and> same_but fd w w')"
proof (cases "fatal (wfault w) = 0 \<or> counted (wfault w) + 1 \<noteq> fatal (wfault w)")
  case True
  then show ?thesis by (auto simp: before_write_def Let_def same_but_def)
next
  case False
  let ?k = "torn_length (crash_seed (wfault w)) (counted (wfault w) + 1) (length src)"
  have "?k < length src" using assms(3) by (intro torn_length_less) simp
  with False torn_write_benign [OF assms(1,2), of "take ?k src"] show ?thesis
    by (intro disjI2 exI [of _ ?k]) (auto simp: before_write_def Let_def same_but_def)
qed

lemma write_out_grows:
  assumes "wal_ok s" and "bs \<noteq> []"
  shows "(\<exists>s'. write_out bs s = (Ret (), s') \<and> wal_ok s' \<and>
      fst s' = (fst s)\<lparr>wl_end := wl_end (fst s) + length bs, bytes_appended := bytes_appended (fst s) + length bs\<rparr> \<and>
      content (log_file s') = content (log_file s) @ bs \<and> same_but (wl_fd (fst s)) (snd s) (snd s')) \<or>
    (\<exists>s' k. write_out bs s = (Killed, s') \<and> fst s' = fst s \<and> fatal (wfault (snd s)) \<noteq> 0 \<and> k < length bs \<and>
      content (log_file s') = content (log_file s) @ take k bs \<and> same_but (wl_fd (fst s)) (snd s) (snd s'))"
proof -
  obtain l w where s: "s = (l, w)" by (cases s)
  let ?f = "wfile w (wl_fd l)"
  have ok: "benign ?f" "wl_end l = length (content ?f)"
    using assms(1) by (simp_all add: s wal_ok_def log_file_def)
  have off: "wl_end l \<le> length (content ?f)" using ok(2) by simp
  consider (go) w' where "before_write (wl_fd l) bs (wl_end l) w = (Ret (), w')" "wfile w' = wfile w"
      "same_but (wl_fd l) w w'"
    | (die) w' k where "before_write (wl_fd l) bs (wl_end l) w = (Killed, w')" "fatal (wfault w) \<noteq> 0"
      "k < length bs" "content (wfile w' (wl_fd l)) = store_bytes (wl_end l) (take k bs) (content ?f)"
      "same_but (wl_fd l) w w'"
    using before_write_cases [OF ok(1) off assms(2)] by blast
  then show ?thesis
  proof cases
    case go
    obtain f' where f': "write_out_loop bs (wl_end l) ?f = (Ret (), f')" "benign f'"
      "content f' = content ?f @ bs"
      using write_out_loop_ok [OF ok(1) off, of bs] ok(2) by (auto simp: store_bytes_end)
    with go ok show ?thesis
      by (intro disjI1)
         (auto simp: write_out_def s on_log_def on_file_def log_file_def wal_ok_def same_but_def thenE_def bindE_def)
  next
    case die
    with ok show ?thesis
      by (intro disjI2 exI [of _ "(l, w')"] exI [of _ k])
         (auto simp: write_out_def s log_file_def store_bytes_end thenE_def bindE_def)
  qed
qed

lemma wal_flush_grows:
  assumes "wal_ok s"
  shows "\<exists>r s'. wal_flush s = (r, s') \<and> log_grows s [] 0 r s' \<and>
    durable_lsn (fst s') = durable_lsn (fst s) \<and> (r = Ret () \<longrightarrow> batch (fst s') = [])"
proof (cases "batch (fst s) = []")
  case True
  with assms show ?thesis by (cases s) (auto simp: wal_flush_def log_grows_refl)
next
  case False
  obtain l w where s: "s = (l, w)" by (cases s)
  from write_out_grows [OF assms False] show ?thesis
  proof (elim disjE exE conjE)
    fix s' assume "write_out (batch (fst s)) s = (Ret (), s')" "wal_ok s'"
      "fst s' = (fst s)\<lparr>wl_end := wl_end (fst s) + length (batch (fst s)),
        bytes_appended := bytes_appended (fst s) + length (batch (fst s))\<rparr>"
      "content (log_file s') = content (log_file s) @ batch (fst s)"
      "same_but (wl_fd (fst s)) (snd s) (snd s')"
    then show ?thesis using False
      by (cases s') (auto simp: wal_flush_def s log_grows_def wal_ok_def stream_def log_file_def)
  next
    fix s' k assume "write_out (batch (fst s)) s = (Killed, s')" "fst s' = fst s" "fatal (wfault (snd s)) \<noteq> 0"
      "k < length (batch (fst s))" "content (log_file s') = content (log_file s) @ take k (batch (fst s))"
      "same_but (wl_fd (fst s)) (snd s) (snd s')"
    then show ?thesis using False
      by (cases s')
         (auto simp: wal_flush_def s log_grows_def stream_def intro!: exI [of _ "length (content (log_file s)) + k"])
  qed
qed

text \<open>The record that \<^verbatim>\<open>encode\<close> lays out.\<close>

definition made_record :: "u16 \<Rightarrow> u64 \<Rightarrow> u32 \<Rightarrow> block option \<Rightarrow> u64 \<Rightarrow> wal_record" where
  "made_record typ txn_id block_no pl lsn =
     (let h = new_header typ txn_id block_no (pl \<noteq> None) lsn;
          p = (case pl of None \<Rightarrow> zero_block | Some p \<Rightarrow> p)
      in \<lparr>header = h\<lparr>h_checksum := record_checksum h p\<rparr>, payload = p\<rparr>)"

lemma made_record_fields [simp]:
  "h_type (header (made_record typ txn b pl lsn)) = typ"
  "h_txn_id (header (made_record typ txn b pl lsn)) = txn"
  "h_block_no (header (made_record typ txn b pl lsn)) = b"
  "h_lsn (header (made_record typ txn b pl lsn)) = lsn"
  "payload (made_record typ txn b (Some p) lsn) = p"
  "payload (made_record typ txn b None lsn) = zero_block"
  by (simp_all add: made_record_def new_header_def Let_def)

lemma record_checksum_self: "record_checksum (h\<lparr>h_checksum := c\<rparr>) p = record_checksum h p"
  by (simp add: record_checksum_def Let_def)

lemma record_checksum_no_payload:
  "h_payload_len h = 0 \<Longrightarrow> record_checksum h p = record_checksum h q"
  by (simp add: record_checksum_def)

lemma WAL_types_distinct [simp]:
  "WAL_BEGIN \<noteq> WAL_BLOCK" "WAL_COMMIT \<noteq> WAL_BLOCK" "WAL_BEGIN \<noteq> WAL_COMMIT"
  "WAL_BLOCK \<noteq> WAL_BEGIN" "WAL_BLOCK \<noteq> WAL_COMMIT" "WAL_COMMIT \<noteq> WAL_BEGIN"
  by (simp_all add: WAL_BEGIN_def WAL_BLOCK_def WAL_COMMIT_def)

definition follows :: "u64 option \<Rightarrow> u64 \<Rightarrow> bool" where
  "follows prev lsn \<longleftrightarrow> lsn \<noteq> 0 \<and> (case prev of None \<Rightarrow> True | Some p \<Rightarrow> lsn = p + 1)"

lemma rec_ok_mark:
  assumes "follows prev lsn" and "typ = WAL_BEGIN \<or> typ = WAL_COMMIT"
  shows "rec_ok nblocks prev (made_record typ txn 0 None lsn)"
  using assms
  by (auto simp: rec_ok_def header_ok_def Let_def follows_def made_record_def new_header_def
      record_checksum_self [unfolded wal_header.simps] record_checksum_def split: option.splits)

lemma rec_ok_block:
  assumes "follows prev lsn" and "is_block p" and "b \<noteq> 0" and "nblocks \<noteq> 0 \<longrightarrow> b < nblocks"
  shows "rec_ok nblocks prev (made_record WAL_BLOCK txn b (Some p) lsn)"
  using assms
  by (auto simp: rec_ok_def header_ok_def Let_def follows_def made_record_def new_header_def
      record_checksum_def split: option.splits)

text \<open>What \<^verbatim>\<open>fill\<close> yields, and what it does to the environment.\<close>

definition fills :: "('e, block) op option \<Rightarrow> 'e \<Rightarrow> block option \<Rightarrow> 'e \<Rightarrow> bool" where
  "fills fill e pl e' \<longleftrightarrow> (case fill of
       None \<Rightarrow> pl = None \<and> e' = e
     | Some f \<Rightarrow> (\<exists>p. pl = Some p \<and> is_block p \<and> f e = (Ret p, e')))"

lemma wal_encode_grows:
  assumes "wal_ok s" and "fills fill e pl e'" and "typ = WAL_BLOCK \<longleftrightarrow> pl \<noteq> None"
  shows "\<exists>s'. wal_encode typ txn b fill (e, s) = (Ret (next_lsn (fst s)), (e', s')) \<and>
    log_grows s (encode_record (made_record typ txn b pl (next_lsn (fst s)))) 1 (Ret ()) s' \<and>
    durable_lsn (fst s') = durable_lsn (fst s) \<and> content (log_file s') = content (log_file s)"
proof -
  obtain l w where s: "s = (l, w)" by (cases s)
  have len: "record_checksum (new_header typ txn b False (next_lsn l)) [] =
      record_checksum (new_header typ txn b False (next_lsn l)) zero_block"
    by (rule record_checksum_no_payload) (simp add: new_header_def)
  show ?thesis
  proof (cases fill)
    case None
    with assms have "pl = None" "e' = e" "typ \<noteq> WAL_BLOCK" by (auto simp: fills_def)
    with None assms(1) len show ?thesis
      by (auto simp: wal_encode_def s on_wal_def zoomE_def Let_def log_grows_def wal_ok_def stream_def
          log_file_def made_record_def encode_record_def new_header_def)
  next
    case (Some f)
    with assms obtain p where "pl = Some p" "is_block p" "f e = (Ret p, e')" "typ = WAL_BLOCK"
      by (auto simp: fills_def)
    with Some assms(1) show ?thesis
      by (auto simp: wal_encode_def s on_wal_def on_env_def zoomE_def bindE_def Let_def log_grows_def
          wal_ok_def stream_def log_file_def made_record_def encode_record_def new_header_def)
  qed
qed

lemma wal_stage_record_grows:
  assumes "wal_ok s" and "fills fill e pl e'" and "typ = WAL_BLOCK \<longleftrightarrow> pl \<noteq> None"
  shows "\<exists>r e'' s'. wal_stage_record typ txn b fill (e, s) = (r, (e'', s')) \<and>
    log_grows s (encode_record (made_record typ txn b pl (next_lsn (fst s)))) 1 r s' \<and>
    durable_lsn (fst s') = durable_lsn (fst s) \<and>
    (r = Ret (next_lsn (fst s)) \<and> e'' = e' \<or> r = Killed \<and> e'' = e)"
proof -
  let ?r = "encode_record (made_record typ txn b pl (next_lsn (fst s)))"
  let ?room = "\<lambda>(l, w). let len = HEADER_SIZE + (if fill \<noteq> None then BLOCK_SIZE else 0) in
        if length (batch l) > 0 \<and> length (batch l) + len > BATCH_BYTES
        then wal_flush (l, w) else (Ret (), (l, w))"
  obtain r1 s1 where 1: "?room s = (r1, s1)" "log_grows s [] 0 r1 s1" "durable_lsn (fst s1) = durable_lsn (fst s)"
  proof -
    obtain l w where s: "s = (l, w)" by (cases s)
    obtain r s' where fl: "wal_flush s = (r, s')" "log_grows s [] 0 r s'"
      "durable_lsn (fst s') = durable_lsn (fst s)" using wal_flush_grows [OF assms(1)] by blast
    have "?room s = wal_flush s \<or> ?room s = (Ret (), s)" by (simp add: s Let_def)
    then show ?thesis
    proof
      assume "?room s = wal_flush s"
      with fl show ?thesis by (intro that [of r s']) simp_all
    next
      assume "?room s = (Ret (), s)"
      then show ?thesis by (rule that) (simp_all add: log_grows_refl assms(1))
    qed
  qed
  show ?thesis
  proof (cases r1)
    case (Ret u)
    with 1 have ok1: "wal_ok s1" and n: "next_lsn (fst s1) = next_lsn (fst s)"
      by (auto simp: log_grows_def)
    obtain s2 where 2: "wal_encode typ txn b fill (e, s1) = (Ret (next_lsn (fst s1)), (e', s2))"
      "log_grows s1 ?r 1 (Ret ()) s2" "durable_lsn (fst s2) = durable_lsn (fst s1)"
      using wal_encode_grows [OF ok1 assms(2,3), of txn b] n by auto
    have "log_grows s ([] @ ?r) (0 + 1) (Ret ()) s2"
      using 1(2) 2(2) unfolding Ret by (rule log_grows_trans)
    then have "log_grows s ?r 1 (Ret (next_lsn (fst s))) s2" by (simp add: log_grows_def)
    with 1 2 n Ret show ?thesis
      by (simp add: wal_stage_record_def on_wal_def zoomE_def thenE_def bindE_def)
  next
    case (Raise x)
    with 1 show ?thesis by (simp add: log_grows_def)
  next
    case (Halted h)
    with 1(2) have Killed: "r1 = Killed" by (simp add: log_grows_def)
    have "log_grows s ([] @ ?r) 1 (Killed :: u64 outcome) s1"
      using 1(2) unfolding Killed by (rule log_grows_killed_more)
    with 1 Killed show ?thesis
      by (simp add: wal_stage_record_def on_wal_def zoomE_def thenE_def bindE_def)
  qed
qed

lemma log_grows_ret: "log_grows s a n (Ret x) s' \<Longrightarrow> log_grows s a n (Ret y) s'"
  by (simp add: log_grows_def)

lemma log_grows_wal_ok: "log_grows s a n (Ret x) s' \<Longrightarrow> wal_ok s'"
  by (simp add: log_grows_def)

lemma fills_retE: "is_block p \<Longrightarrow> fills (map_option retE (Some p)) e (Some p) e"
  "fills (map_option retE None) e None e"
  by (simp_all add: fills_def)

lemma wal_append_grows:
  assumes "wal_ok s" and "typ = WAL_BLOCK \<longleftrightarrow> pl \<noteq> None" and "\<forall>p. pl = Some p \<longrightarrow> is_block p"
  shows "\<exists>r s'. wal_append typ txn b pl (e, s) = (r, (e, s')) \<and>
    log_grows s (encode_record (made_record typ txn b pl (next_lsn (fst s)))) 1 r s' \<and>
    durable_lsn (fst s') = durable_lsn (fst s) \<and>
    (r = Ret (next_lsn (fst s)) \<and> batch (fst s') = [] \<or> r = Killed)"
proof -
  let ?r = "encode_record (made_record typ txn b pl (next_lsn (fst s)))"
  obtain r1 s1 where 1: "wal_flush s = (r1, s1)" "log_grows s [] 0 r1 s1" "durable_lsn (fst s1) = durable_lsn (fst s)"
    using wal_flush_grows [OF assms(1)] by blast
  show ?thesis
  proof (cases r1)
    case r1: (Ret u)
    with 1 have ok1: "wal_ok s1" and n: "next_lsn (fst s1) = next_lsn (fst s)" by (auto simp: log_grows_def)
    have "fills (map_option retE pl) e pl e" using assms(3) by (cases pl) (simp_all add: fills_def)
    from wal_encode_grows [OF ok1 this assms(2), of txn b] n obtain s2 where
      2: "wal_encode typ txn b (map_option retE pl) (e, s1) = (Ret (next_lsn (fst s)), (e, s2))"
      "log_grows s1 ?r 1 (Ret ()) s2" "durable_lsn (fst s2) = durable_lsn (fst s1)" by auto
    obtain r3 s3 where 3: "wal_flush s2 = (r3, s3)" "log_grows s2 [] 0 r3 s3"
      "durable_lsn (fst s3) = durable_lsn (fst s2)" "r3 = Ret () \<longrightarrow> batch (fst s3) = []"
      using wal_flush_grows [OF log_grows_wal_ok [OF 2(2)]] by blast
    have "log_grows s ([] @ ?r) (0 + 1) (Ret ()) s2"
      using 1(2) 2(2) unfolding r1 by (rule log_grows_trans)
    from log_grows_trans [OF this 3(2)] have g: "log_grows s ?r 1 r3 s3" by simp
    show ?thesis
    proof (cases r3)
      case (Ret u3)
      with g have "log_grows s ?r 1 (Ret (next_lsn (fst s))) s3" by (simp add: log_grows_def)
      with 1 2 3 Ret r1 show ?thesis
        by (simp add: wal_append_def on_wal_def zoomE_def thenE_def bindE_def)
    next
      case (Raise x)
      with g show ?thesis by (simp add: log_grows_def)
    next
      case (Halted h)
      with g have Killed: "r3 = Killed" by (simp add: log_grows_def)
      with g have "log_grows s ?r 1 (Killed :: u64 outcome) s3" by (simp add: log_grows_def)
      with 1 2 3 Killed r1 show ?thesis
        by (simp add: wal_append_def on_wal_def zoomE_def thenE_def bindE_def)
    qed
  next
    case (Raise x)
    with 1 show ?thesis by (simp add: log_grows_def)
  next
    case (Halted h)
    with 1(2) have Killed: "r1 = Killed" by (simp add: log_grows_def)
    have "log_grows s ([] @ ?r) 1 (Killed :: u64 outcome) s1"
      using 1(2) unfolding Killed by (rule log_grows_killed_more)
    with 1 Killed show ?thesis
      by (simp add: wal_append_def on_wal_def zoomE_def thenE_def bindE_def)
  qed
qed

lemma full_sync_ok:
  "benign f \<Longrightarrow> \<exists>f'. full_sync f = (Ret (), f') \<and> benign f' \<and> content f' = content f"
proof (induction f rule: full_sync.induct)
  case (1 f)
  obtain e f' where e: "next_event f = (e, f')" by fastforce
  note facts = next_event_benign [OF "1.prems" e]
  show ?case
  proof (cases e)
    case (Fail n)
    with facts have n: "n = EINTR" by (simp add: benign_event_def)
    have ps: "posix_fsync f = (Some n, f')" using e Fail by (simp add: posix_fsync_def)
    show ?thesis
      using "1.IH" [OF ps [symmetric] refl n] facts ps n by (simp add: full_sync.simps [of f])
  qed (use facts e in \<open>simp_all add: full_sync.simps [of f] posix_fsync_def\<close>)
qed

lemma maybe_sync_ok:
  assumes "wal_ok s"
  shows "\<exists>w'. (\<lambda>(l, w). if wl_sync l then on_log full_sync (l, w) else (Ret (), (l, w))) s = (Ret (), (fst s, w')) \<and>
    benign (log_file (fst s, w')) \<and> content (log_file (fst s, w')) = content (log_file s) \<and>
    same_but (wl_fd (fst s)) (snd s) w'"
proof -
  obtain l w where s: "s = (l, w)" by (cases s)
  then have "benign (wfile w (wl_fd l))" using assms by (simp add: wal_ok_def log_file_def)
  from full_sync_ok [OF this] assms show ?thesis
    by (auto simp: s on_log_def on_file_def log_file_def same_but_def wal_ok_def)
qed

lemma wal_sync_grows:
  assumes "wal_ok s"
  shows "\<exists>r s'. wal_sync s = (r, s') \<and> log_grows s [] 0 r s' \<and>
    (r = Ret () \<and> batch (fst s') = [] \<and> durable_lsn (fst s') = next_lsn (fst s) - 1 \<or>
     r = Killed \<and> durable_lsn (fst s') = durable_lsn (fst s))"
proof -
  obtain r1 s1 where 1: "wal_flush s = (r1, s1)" "log_grows s [] 0 r1 s1"
    "durable_lsn (fst s1) = durable_lsn (fst s)" "r1 = Ret () \<longrightarrow> batch (fst s1) = []"
    using wal_flush_grows [OF assms(1)] by blast
  show ?thesis
  proof (cases r1)
    case (Ret u)
    with 1 have ok1: "wal_ok s1" by (simp add: log_grows_def)
    from maybe_sync_ok [OF ok1] obtain w' where
      2: "(\<lambda>(l, w). if wl_sync l then on_log full_sync (l, w) else (Ret (), (l, w))) s1 = (Ret (), (fst s1, w'))"
      "benign (log_file (fst s1, w'))" "content (log_file (fst s1, w')) = content (log_file s1)"
      "same_but (wl_fd (fst s1)) (snd s1) w'" by blast
    have "wal_sync s = (Ret (), ((fst s1)\<lparr>durable_lsn := next_lsn (fst s1) - 1\<rparr>, w'))"
      using 1(1) Ret 2(1) by (simp add: wal_sync_def)
    moreover have "log_grows s [] 0 (Ret ()) ((fst s1)\<lparr>durable_lsn := next_lsn (fst s1) - 1\<rparr>, w')"
      using 1(2) Ret 2 by (auto simp: log_grows_def wal_ok_def stream_def log_file_def same_but_def)
    ultimately show ?thesis using 1 Ret by (auto simp: log_grows_def)
  next
    case (Raise x)
    with 1 show ?thesis by (simp add: log_grows_def)
  next
    case (Halted h)
    with 1(2) have "r1 = Killed" by (simp add: log_grows_def)
    with 1 show ?thesis by (auto simp: wal_sync_def)
  qed
qed

lemma wal_reset_ok:
  assumes "benign (log_file s)" and "n \<noteq> 0"
  shows "\<exists>s'. wal_reset n s = (Ret (), s') \<and> wal_ok s' \<and> stream s' = [] \<and> batch (fst s') = [] \<and>
    next_lsn (fst s') = n \<and> durable_lsn (fst s') = n - 1 \<and> wl_fd (fst s') = wl_fd (fst s) \<and>
    wl_sync (fst s') = wl_sync (fst s) \<and> same_but (wl_fd (fst s)) (snd s) (snd s')"
proof -
  obtain l w where s: "s = (l, w)" by (cases s)
  let ?l = "l\<lparr>batch := []\<rparr>"
  have b: "benign (wfile w (wl_fd l))" using assms(1) by (simp add: s log_file_def)
  from posix_ftruncate_benign [OF b, of 0] obtain f1 where
    1: "posix_ftruncate 0 (wfile w (wl_fd l)) = (None, f1)" "benign f1" "content f1 = []" by auto
  obtain f2 where 2: "full_sync f1 = (Ret (), f2)" "benign f2" "content f2 = []"
    using full_sync_ok [OF 1(2)] 1(3) by auto
  show ?thesis
    using assms(2) 1 2
    by (cases "wl_sync l")
       (auto simp: wal_reset_def s on_log_def on_file_def bindE_def thenE_def wal_ok_def stream_def
          log_file_def same_but_def)
qed

section \<open>Properties of the log\<close>

text \<open>
  C35. Scanning a log file of which a crash has kept any number of bytes returns exactly the
  records that lie wholly within those bytes, in order: a record cut short anywhere, header or
  payload, is dropped with everything after it, and no whole record is lost. It holds for every
  way the reads of the scan are cut up or interrupted.
\<close>

theorem scan_of_torn_log:
  assumes "chain_ok nblocks None rs" and "benign (log_file s)"
    and "content (log_file s) = take k (log_bytes rs)"
  shows "fst (wal_scan nblocks s) = Ret (whole_records k rs) \<and> prefix (whole_records k rs) rs"
proof -
  have "prefix (whole_records k rs) rs"
    using whole_records_prefix [of rs k] by (auto simp: take_is_prefix)
  then show ?thesis
    using wal_scan_parse [OF assms(2), of nblocks] parse_log_cut [OF assms(1)] assms(3) by auto
qed

definition tiny_log :: "wal_record list" where
  "tiny_log = [made_record WAL_BEGIN 1 0 None 1, made_record WAL_BLOCK 1 5 (Some zero_block) 2,
     made_record WAL_COMMIT 1 0 None 3]"

lemma tiny_log_ok: "chain_ok 64 None tiny_log"
  by (simp add: tiny_log_def rec_ok_mark rec_ok_block follows_def)

definition tiny_state :: "nat \<Rightarrow> wal_state" where
  "tiny_state k = (\<lparr>wl_fd = 4, wl_sync = True, wl_end = k, next_lsn = 1, durable_lsn = 0,
     bytes_appended = 0, batch = []\<rparr>,
     small_world\<lparr>wfile := (\<lambda>_. \<lparr>content = take k (log_bytes tiny_log), script = [Short 7]\<rparr>)\<rparr>)"

theorem scan_of_torn_log_witness:
  "chain_ok 64 None tiny_log \<and> whole_records 4000 tiny_log = [hd tiny_log] \<and>
   fst (wal_scan 64 (tiny_state 4000)) = Ret (whole_records 4000 tiny_log) \<and>
   prefix (whole_records 4000 tiny_log) tiny_log"
proof -
  have b: "benign (log_file (tiny_state 4000))"
    "content (log_file (tiny_state 4000)) = take 4000 (log_bytes tiny_log)"
    by (simp_all add: tiny_state_def log_file_def benign_def benign_event_def)
  have w: "whole_records 4000 tiny_log = [hd tiny_log]"
    by (simp add: tiny_log_def encode_record_def)
  from scan_of_torn_log [OF tiny_log_ok b] tiny_log_ok w show ?thesis by blast
qed

text \<open>A record to be logged: its type, transaction, block number and payload.\<close>

type_synonym log_item = "u16 \<times> u64 \<times> u32 \<times> block option"

definition item_ok :: "log_item \<Rightarrow> bool" where
  "item_ok i = (case i of (ty, txn, b, pl) \<Rightarrow>
     (ty = WAL_BLOCK \<longleftrightarrow> pl \<noteq> None) \<and> (case pl of None \<Rightarrow> True | Some p \<Rightarrow> is_block p))"

fun made_records :: "u64 \<Rightarrow> log_item list \<Rightarrow> wal_record list" where
  "made_records lsn [] = []"
| "made_records lsn ((ty, txn, b, pl) # items) = made_record ty txn b pl lsn # made_records (lsn + 1) items"

definition stage_all :: "log_item list \<Rightarrow> ('e \<times> wal_state, unit) op" where
  "stage_all items = forE items (\<lambda>(ty, txn, b, pl). thenE (wal_stage ty txn b pl) (retE ()))"

definition append_all :: "log_item list \<Rightarrow> ('e \<times> wal_state, unit) op" where
  "append_all items = forE items (\<lambda>(ty, txn, b, pl). thenE (wal_append ty txn b pl) (retE ()))"

lemma log_grows_unarmed: "fatal (wfault (snd s)) = 0 \<Longrightarrow> log_grows s a n r s' \<Longrightarrow> \<exists>x. r = Ret x"
  by (cases r) (auto simp: log_grows_def)

text \<open>Any way of logging one record that grows the log by it also does so for a list of records.\<close>

lemma log_all_grows:
  assumes one: "\<And>ty txn b pl s. wal_ok s \<Longrightarrow> item_ok (ty, txn, b, pl) \<Longrightarrow> fatal (wfault (snd s)) = 0 \<Longrightarrow>
      \<exists>x s'. m (ty, txn, b, pl) (e, s) = (Ret x, (e, s')) \<and>
        log_grows s (encode_record (made_record ty txn b pl (next_lsn (fst s)))) 1 (Ret x) s' \<and>
        (Q s \<longrightarrow> Q s')"
    and "wal_ok s" and "list_all item_ok items" and "fatal (wfault (snd s)) = 0"
  shows "\<exists>s'. forE items (\<lambda>i. thenE (m i) (retE ())) (e, s) = (Ret (), (e, s')) \<and>
    log_grows s (log_bytes (made_records (next_lsn (fst s)) items)) (length items) (Ret ()) s' \<and> (Q s \<longrightarrow> Q s')"
  using assms(2-4)
proof (induction items arbitrary: s)
  case Nil
  then show ?case by (simp add: log_grows_refl)
next
  case (Cons i items)
  obtain ty txn b pl where i: "i = (ty, txn, b, pl)" by (cases i)
  let ?r = "encode_record (made_record ty txn b pl (next_lsn (fst s)))"
  obtain x s1 where 1: "m i (e, s) = (Ret x, (e, s1))" "log_grows s ?r 1 (Ret x) s1" "Q s \<longrightarrow> Q s1"
    using one [of s ty txn b pl] Cons.prems i by auto
  have s1: "wal_ok s1" "fatal (wfault (snd s1)) = 0" "next_lsn (fst s1) = next_lsn (fst s) + 1"
    using 1(2) Cons.prems(3) by (auto simp: log_grows_def same_but_def)
  have "list_all item_ok items" using Cons.prems(2) by simp
  from Cons.IH [OF s1(1) this s1(2)] obtain s2 where
    2: "forE items (\<lambda>i. thenE (m i) (retE ())) (e, s1) = (Ret (), (e, s2))"
    "log_grows s1 (log_bytes (made_records (next_lsn (fst s1)) items)) (length items) (Ret ()) s2" "Q s1 \<longrightarrow> Q s2"
    by blast
  have "log_grows s (?r @ log_bytes (made_records (next_lsn (fst s1)) items)) (1 + length items) (Ret ()) s2"
    using 1(2) 2(2) by (rule log_grows_trans)
  then have g: "log_grows s (log_bytes (made_records (next_lsn (fst s)) (i # items))) (length (i # items)) (Ret ()) s2"
    by (simp add: i s1(3))
  have step: "thenE (m i) (retE ()) (e, s) = (Ret (), (e, s1))" using 1(1) by simp
  have "forE (i # items) (\<lambda>i. thenE (m i) (retE ())) (e, s) = (Ret (), (e, s2))"
    unfolding forE.simps thenE_Ret [where m = "thenE (m i) (retE ())", OF step] by (rule 2(1))
  with g 1(3) 2(3) show ?case by blast
qed

text \<open>
  C36. Staging records in the batch and flushing it leaves in the log file exactly the bytes
  that appending them one by one would, with the same sequence numbers: the old contents
  followed by the encodings of the records.
\<close>

theorem stage_flush_is_append:
  fixes e :: 'e
  assumes "wal_ok s" and "batch (fst s) = []" and "list_all item_ok items" and "fatal (wfault (snd s)) = 0"
  shows "\<exists>s1 s2. thenE (stage_all items) (on_wal wal_flush) (e, s) = (Ret (), (e, s1)) \<and>
    append_all items (e, s) = (Ret (), (e, s2)) \<and>
    content (log_file s1) = content (log_file s) @ log_bytes (made_records (next_lsn (fst s)) items) \<and>
    content (log_file s2) = content (log_file s1) \<and> next_lsn (fst s1) = next_lsn (fst s2) \<and>
    batch (fst s1) = [] \<and> batch (fst s2) = []"
proof -
  let ?bs = "log_bytes (made_records (next_lsn (fst s)) items)"
  have stage1: "\<exists>x s'. (case (ty, txn, b, pl) of (ty, txn, b, pl) \<Rightarrow> wal_stage ty txn b pl) (e, s) = (Ret x, (e, s')) \<and>
      log_grows s (encode_record (made_record ty txn b pl (next_lsn (fst s)))) 1 (Ret x) s' \<and> (True \<longrightarrow> True)"
    if "wal_ok s" "item_ok (ty, txn, b, pl)" "fatal (wfault (snd s)) = 0" for ty txn b pl s
  proof -
    have f: "fills (map_option retE pl) e pl e" "ty = WAL_BLOCK \<longleftrightarrow> pl \<noteq> None"
      using that(2) by (cases pl; simp add: item_ok_def fills_def)+
    from wal_stage_record_grows [OF that(1) f, of txn b] log_grows_unarmed [OF that(3)] show ?thesis
      unfolding wal_stage_def prod.case by (metis outcome.distinct(3))
  qed
  have app1: "\<exists>x s'. (case (ty, txn, b, pl) of (ty, txn, b, pl) \<Rightarrow> wal_append ty txn b pl) (e, s) = (Ret x, (e, s')) \<and>
      log_grows s (encode_record (made_record ty txn b pl (next_lsn (fst s)))) 1 (Ret x) s' \<and>
      (batch (fst s) = [] \<longrightarrow> batch (fst s') = [])"
    if "wal_ok s" "item_ok (ty, txn, b, pl)" "fatal (wfault (snd s)) = 0" for ty txn b pl s
  proof -
    have f: "ty = WAL_BLOCK \<longleftrightarrow> pl \<noteq> None" "\<forall>p. pl = Some p \<longrightarrow> is_block p"
      using that(2) by (cases pl; simp add: item_ok_def)+
    from wal_append_grows [OF that(1) f, of txn b e] log_grows_unarmed [OF that(3)] show ?thesis
      unfolding prod.case by (metis outcome.distinct(3))
  qed
  have loops: "stage_all items = forE items (\<lambda>i. thenE ((\<lambda>(ty, txn, b, pl). wal_stage ty txn b pl) i) (retE ()))"
    "append_all items = forE items (\<lambda>i. thenE ((\<lambda>(ty, txn, b, pl). wal_append ty txn b pl) i) (retE ()))"
    unfolding stage_all_def append_all_def case_prod_unfold by (rule refl)+
  obtain s1 where 1: "stage_all items (e, s) = (Ret (), (e, s1))" "log_grows s ?bs (length items) (Ret ()) s1"
    using log_all_grows [OF stage1 assms(1,3,4)] unfolding loops by blast
  have "wal_ok s1" "fatal (wfault (snd s1)) = 0"
    using 1(2) assms(4) by (auto simp: log_grows_def same_but_def)
  with wal_flush_grows [of s1] log_grows_unarmed [of s1] obtain s1' where
    flush: "wal_flush s1 = (Ret (), s1')" "log_grows s1 [] 0 (Ret ()) s1'" "batch (fst s1') = []"
    by (metis (full_types) old.unit.exhaust)
  obtain s2 where 2: "append_all items (e, s) = (Ret (), (e, s2))" "log_grows s ?bs (length items) (Ret ()) s2"
    "batch (fst s2) = []"
    using log_all_grows [OF app1 assms(1,3,4)] assms(2) unfolding loops by blast
  have "thenE (stage_all items) (on_wal wal_flush) (e, s) = (Ret (), (e, s1'))"
    using 1(1) flush(1) by (simp add: on_wal_def zoomE_def)
  with 1 flush 2 assms(2) show ?thesis
    by (intro exI [of _ s1'] exI [of _ s2]) (auto simp: log_grows_def stream_def)
qed

definition empty_log :: wal_state where
  "empty_log = (\<lparr>wl_fd = 4, wl_sync = True, wl_end = 0, next_lsn = 1, durable_lsn = 0,
     bytes_appended = 0, batch = []\<rparr>,
     small_world\<lparr>wfile := (\<lambda>_. \<lparr>content = [], script = [Fail EINTR, Short 3]\<rparr>)\<rparr>)"

lemma empty_log_ok: "wal_ok empty_log" "batch (fst empty_log) = []" "fatal (wfault (snd empty_log)) = 0"
  by (simp_all add: empty_log_def wal_ok_def log_file_def benign_def benign_event_def small_world_def)

theorem stage_flush_is_append_witness:
  "\<exists>s1 s2. thenE (stage_all [(WAL_BEGIN, 1, 0, None), (WAL_BLOCK, 1, 5, Some zero_block)]) (on_wal wal_flush)
       ((), empty_log) = (Ret (), ((), s1)) \<and>
     append_all [(WAL_BEGIN, 1, 0, None), (WAL_BLOCK, 1, 5, Some zero_block)] ((), empty_log) = (Ret (), ((), s2)) \<and>
     content (log_file s2) = content (log_file s1) \<and> next_lsn (fst s1) = next_lsn (fst s2)"
proof -
  have "list_all item_ok [(WAL_BEGIN, 1, 0, None), (WAL_BLOCK, 1, 5, Some zero_block)]"
    by (simp add: item_ok_def)
  from stage_flush_is_append [OF empty_log_ok(1,2) this empty_log_ok(3), of "()"] show ?thesis by blast
qed

end
