(* ===== verification/Recovery.thy ===== *)
theory Recovery
  imports Wal_Log Superblock
begin

text \<open>
  \<^verbatim>\<open>src/src/recovery.cpp\<close>: replaying the log at mount. The disk and the log are two files of
  one world, so the state of a recovery is the instrumented disk, whose inner state is that
  world, beside the \<^verbatim>\<open>Wal\<close> object.
\<close>

record recovery_info =
  ran :: bool
  txns_replayed :: u64
  blocks_replayed :: u64
  txns_discarded :: u64

type_synonym disk = "world instrumented"
type_synonym stable = "wal \<times> disk"

text \<open>Operations on the disk, and on the log that shares its world.\<close>

definition on_disk :: "(disk, 'a) op \<Rightarrow> (stable, 'a) op" where
  "on_disk = zoomE snd (\<lambda>d s. (fst s, d))"

definition on_wal_file :: "(wal_state, 'a) op \<Rightarrow> (stable, 'a) op" where
  "on_wal_file = zoomE (\<lambda>(l, d). (l, inner d)) (\<lambda>(l, w) (_, d). (l, d\<lparr>inner := w\<rparr>))"

definition committed_txns :: "wal_record list \<Rightarrow> u64 set" where
  "committed_txns records = set (map (\<lambda>r. h_txn_id (header r))
     (filter (\<lambda>r. h_type (header r) = WAL_COMMIT) records))"

text \<open>One turn of the replay loop: the highest sequence number so far and the counts.\<close>

definition replay_record ::
  "disk device \<Rightarrow> u64 set \<Rightarrow> u64 \<Rightarrow> u64 \<times> recovery_info \<Rightarrow> wal_record \<Rightarrow> (stable, u64 \<times> recovery_info) op" where
  "replay_record dev committed checkpoint acc r =
     (let h = header r;
          last_lsn = max (fst acc) (h_lsn h);
          info = snd acc
      in
      if h_lsn h \<le> checkpoint then retE (last_lsn, info)
      else
        let done = h_txn_id h \<in> committed;
            info = (if h_type h = WAL_BEGIN then
                      (if done then info\<lparr>txns_replayed := txns_replayed info + 1\<rparr>
                       else info\<lparr>txns_discarded := txns_discarded info + 1\<rparr>)
                    else info)
        in
        if h_type h = WAL_BLOCK \<and> done
        then thenE (on_disk (write_block dev (h_block_no h) (payload r)))
               (retE (last_lsn, info\<lparr>blocks_replayed := blocks_replayed info + 1\<rparr>))
        else retE (last_lsn, info))"

definition recover :: "disk device \<Rightarrow> superblock \<Rightarrow> (stable, recovery_info \<times> superblock) op" where
  "recover dev sb =
     bindE (on_wal_file (wal_scan (total_blocks sb))) (\<lambda>records.
     let committed = committed_txns records in
     bindE (foldE records (replay_record dev committed (last_checkpoint_lsn sb))
       (last_checkpoint_lsn sb,
        \<lparr>ran = True, txns_replayed = 0, blocks_replayed = 0, txns_discarded = 0\<rparr>)) (\<lambda>(last_lsn, info).
     thenE (on_disk (dev_sync dev))
    (let sb = sb\<lparr>last_checkpoint_lsn := last_lsn\<rparr> in
     thenE (on_disk (write_superblock dev sb))
    (thenE (on_disk (dev_sync dev))
    (thenE (on_wal_file (wal_reset (last_lsn + 1)))
    (retE (info, sb)))))))"

section \<open>The disk with a crash armed\<close>

text \<open>As \<^const>\<open>pd_ok\<close>, but the process may be going to be killed at some write.\<close>

definition pd_live :: "pread_dev \<Rightarrow> world \<Rightarrow> bool" where
  "pd_live d w \<longleftrightarrow> benign (wfile w (pd_fd d)) \<and>
     length (content (wfile w (pd_fd d))) = unat (pd_count d) * BLOCK_SIZE"

lemma pd_ok_live: "pd_ok d w \<longleftrightarrow> pd_live d w \<and> fatal (wfault w) = 0"
  by (auto simp: pd_ok_def pd_live_def)

definition torn_block :: "nat \<Rightarrow> block \<Rightarrow> block \<Rightarrow> block" where
  "torn_block k new old = take (k * SECTOR) new @ drop (k * SECTOR) old"

lemma put_prefix_blocks:
  assumes "b < pd_count d" and "length c = unat (pd_count d) * BLOCK_SIZE" and "is_block x" and "keep \<le> 4096"
    and "content (wfile w' (pd_fd d)) = store_bytes (block_offset b) (take keep x) c"
    and "content (wfile w (pd_fd d)) = c"
  shows "pd_blocks d w' = (pd_blocks d w)(b := take keep x @ drop keep (pd_blocks d w b))"
    and "length (content (wfile w' (pd_fd d))) = length c"
proof -
  have len: "length x = 4096" using assms(3) by (simp add: is_block_def)
  have fits: "block_offset b + 4096 \<le> length c" using block_in_range [OF assms(1)] assms(2) by simp
  have c: "content (wfile w' (pd_fd d)) = put_at (block_offset b) (take keep x) c"
    using assms(4,5) fits len by (simp add: store_bytes_inside)
  show "length (content (wfile w' (pd_fd d))) = length c" unfolding c using fits len assms(4) by simp
  show "pd_blocks d w' = (pd_blocks d w)(b := take keep x @ drop keep (pd_blocks d w b))"
  proof (rule ext)
    fix b'
    show "pd_blocks d w' b' = ((pd_blocks d w)(b := take keep x @ drop keep (pd_blocks d w b))) b'"
    proof (cases "b' = b")
      case True
      then show ?thesis
        using len fits assms(4) unfolding pd_blocks_def c assms(6)
        by (intro nth_equalityI) (auto simp: nth_get_at nth_put_at nth_append)
    next
      case False
      then show ?thesis
        using blocks_apart [OF False] len fits assms(4) unfolding pd_blocks_def c assms(6)
        by (auto intro!: get_at_put_at_disjoint)
    qed
  qed
qed

lemma before_write_sector:
  assumes "before_write fd src off w = (Killed, w')" and "src \<noteq> []" and "benign (wfile w fd)"
    and "off \<le> length (content (wfile w fd))"
  shows "\<exists>keep. keep < length src \<and> keep mod SECTOR = 0 \<and> fatal (wfault w) \<noteq> 0 \<and> benign (wfile w' fd) \<and>
    content (wfile w' fd) = store_bytes off (take keep src) (content (wfile w fd)) \<and> same_but fd w w'"
proof -
  let ?k = "torn_length (crash_seed (wfault w)) (counted (wfault w) + 1) (length src)"
  have "fatal (wfault w) \<noteq> 0" and w': "w' = w\<lparr>wfault := (wfault w)\<lparr>counted := counted (wfault w) + 1\<rparr>,
      wfile := (wfile w)(fd := torn_write (take ?k src) off (wfile w fd))\<rparr>"
    using assms(1) by (auto simp: before_write_def Let_def split: if_splits)
  with torn_write_benign [OF assms(3,4), of "take ?k src"] torn_length_less [of "length src"]
    torn_length_sector assms(2) show ?thesis
    by (intro exI [of _ ?k]) (simp add: same_but_def)
qed

lemma pd_write_block_cases:
  assumes "pd_live d w" and "b < pd_count d" and "is_block x"
  shows "(\<exists>w'. pd_write_block d b x w = (Ret (), w') \<and> pd_live d w' \<and>
      pd_blocks d w' = (pd_blocks d w)(b := x) \<and> same_but (pd_fd d) w w') \<or>
    (\<exists>w' k. pd_write_block d b x w = (Killed, w') \<and> fatal (wfault w) \<noteq> 0 \<and> pd_live d w' \<and> k < 8 \<and>
      pd_blocks d w' = (pd_blocks d w)(b := torn_block k x (pd_blocks d w b)) \<and> same_but (pd_fd d) w w')"
proof -
  let ?f = "wfile w (pd_fd d)"
  have live: "benign ?f" "length (content ?f) = unat (pd_count d) * BLOCK_SIZE"
    using assms(1) by (simp_all add: pd_live_def)
  have len: "length x = 4096" using assms(3) by (simp add: is_block_def)
  then have x: "x \<noteq> []" by auto
  have off: "block_offset b \<le> length (content ?f)"
    using block_in_range [OF assms(2)] live(2) by simp
  have wr: "pd_write_block d b x = write_full (pd_fd d) x (block_offset b)"
    using leD [of "pd_count d" b] assms(2) by (auto simp: pd_write_block_def)
  obtain r w1 where bw: "before_write (pd_fd d) x (block_offset b) w = (r, w1)" by fastforce
  from before_write_outcome [OF bw] show ?thesis
  proof
    assume r: "r = Ret ()"
    then have w1: "wfile w1 = wfile w" "same_but (pd_fd d) w w1"
      using bw by (auto simp: before_write_def Let_def same_but_def split: if_splits)
    obtain f' where f': "write_full_loop x (block_offset b) ?f = (Ret (), f')" "benign f'"
      "content f' = store_bytes (block_offset b) x (content ?f)"
      using write_full_loop_ok [OF live(1) off] by blast
    let ?w = "w1\<lparr>wfile := (wfile w1)(pd_fd d := f')\<rparr>"
    have run: "pd_write_block d b x w = (Ret (), ?w)"
      unfolding wr write_full_def thenE_Ret [where m = "before_write (pd_fd d) x (block_offset b)", OF bw [unfolded r]] on_file_def w1(1) by (simp add: f'(1))
    have "content (wfile ?w (pd_fd d)) = store_bytes (block_offset b) (take 4096 x) (content ?f)"
      using f'(3) len by simp
    note st = put_prefix_blocks [OF assms(2) live(2) assms(3) order_refl this refl]
    have "pd_blocks d ?w = (pd_blocks d w)(b := x)"
    proof -
      have "length (pd_blocks d w b) \<le> 4096" by (simp add: pd_blocks_def)
      then show ?thesis unfolding st(1) using len by simp
    qed
    moreover have "pd_live d ?w" using st(2) f'(2) live(2) by (simp add: pd_live_def)
    moreover have "same_but (pd_fd d) w ?w" using w1 by (simp add: same_but_def)
    ultimately show ?thesis using run by blast
  next
    assume r: "r = Killed"
    with bw have bw': "before_write (pd_fd d) x (block_offset b) w = (Killed, w1)" by simp
    from before_write_sector [OF bw' x live(1) off] obtain keep where
      keep: "keep < length x" "keep mod SECTOR = 0" "fatal (wfault w) \<noteq> 0" "benign (wfile w1 (pd_fd d))"
      "content (wfile w1 (pd_fd d)) = store_bytes (block_offset b) (take keep x) (content ?f)"
      "same_but (pd_fd d) w w1" by (elim exE conjE)
    have "SECTOR dvd keep" using keep(2) by (rule mod_0_imp_dvd)
    then obtain k where k: "keep = k * SECTOR" by (metis dvd_def mult.commute)
    have k8: "k < 8" using keep(1) len by (simp add: k SECTOR_def)
    have "keep \<le> 4096" using keep(1) len by simp
    note st = put_prefix_blocks [OF assms(2) live(2) assms(3) this keep(5) refl]
    have run: "pd_write_block d b x w = (Killed, w1)" using bw' by (simp add: wr write_full_def)
    moreover have "pd_live d w1" using st(2) keep(4) live(2) by (simp add: pd_live_def)
    moreover have "pd_blocks d w1 = (pd_blocks d w)(b := torn_block k x (pd_blocks d w b))"
      unfolding st(1) by (simp add: torn_block_def k)
    ultimately show ?thesis using keep(3,6) k8 by blast
  qed
qed

lemma pd_sync_live:
  assumes "pd_live d w"
  shows "\<exists>w'. pd_sync d w = (Ret (), w') \<and> pd_live d w' \<and> pd_blocks d w' = pd_blocks d w \<and> same_but (pd_fd d) w w'"
  using fsync_loop_ok [of "wfile w (pd_fd d)"] assms
  by (auto simp: pd_sync_def on_file_def pd_live_def pd_blocks_def fun_eq_iff same_but_def)

section \<open>Replay on the contents of the disk\<close>

definition replayed :: "u64 set \<Rightarrow> u64 \<Rightarrow> wal_record \<Rightarrow> bool" where
  "replayed committed checkpoint r \<longleftrightarrow> checkpoint < h_lsn (header r) \<and>
     h_type (header r) = WAL_BLOCK \<and> h_txn_id (header r) \<in> committed"

definition apply_records :: "(wal_record \<Rightarrow> bool) \<Rightarrow> wal_record list \<Rightarrow> (u32 \<Rightarrow> block) \<Rightarrow> u32 \<Rightarrow> block" where
  "apply_records P rs = fold (\<lambda>r m. if P r then m(h_block_no (header r) := payload r) else m) rs"

definition written :: "(wal_record \<Rightarrow> bool) \<Rightarrow> wal_record list \<Rightarrow> u32 set" where
  "written P rs = {h_block_no (header r) |r. r \<in> set rs \<and> P r}"

text \<open>The disk that recovery makes of a disk and a log.\<close>

definition replay :: "u64 \<Rightarrow> wal_record list \<Rightarrow> (u32 \<Rightarrow> block) \<Rightarrow> u32 \<Rightarrow> block" where
  "replay checkpoint rs = apply_records (replayed (committed_txns rs) checkpoint) rs"

lemma apply_records_simps [simp]:
  "apply_records P [] m = m"
  "apply_records P (r # rs) m = apply_records P rs (if P r then m(h_block_no (header r) := payload r) else m)"
  by (simp_all add: apply_records_def)

lemma written_simps [simp]:
  "written P [] = {}"
  "written P (r # rs) = (if P r then insert (h_block_no (header r)) (written P rs) else written P rs)"
  by (auto simp: written_def)

lemma apply_records_unwritten: "b \<notin> written P rs \<Longrightarrow> apply_records P rs m b = m b"
  by (induction rs arbitrary: m) auto

lemma apply_records_agree:
  "(\<And>b. b \<notin> written P rs \<Longrightarrow> m b = m' b) \<Longrightarrow> apply_records P rs m = apply_records P rs m'"
proof (induction rs arbitrary: m m')
  case (Cons r rs)
  show ?case
  proof (cases "P r")
    case True
    then show ?thesis using Cons.prems by (auto intro!: Cons.IH)
  next
    case False
    then show ?thesis using Cons.prems by (auto intro!: Cons.IH)
  qed
qed auto

lemma apply_records_at: "m b = m' b \<Longrightarrow> apply_records P rs m b = apply_records P rs m' b"
proof (induction rs arbitrary: m m')
  case (Cons r rs)
  let ?up = "\<lambda>m. if P r then m(h_block_no (header r) := payload r) else m"
  have "?up m b = ?up m' b" using Cons.prems by simp
  from Cons.IH [of "?up m" "?up m'", OF this] show ?case by simp
qed simp

lemma apply_records_idem: "apply_records P rs (apply_records P rs m) = apply_records P rs m"
  by (rule apply_records_agree) (simp add: apply_records_unwritten)

lemma apply_records_none: "(\<And>r. r \<in> set rs \<Longrightarrow> \<not> P r) \<Longrightarrow> apply_records P rs m = m"
  by (induction rs arbitrary: m) auto

definition top_lsn :: "u64 \<Rightarrow> wal_record list \<Rightarrow> u64" where
  "top_lsn checkpoint rs = fold (\<lambda>r a. max a (h_lsn (header r))) rs checkpoint"

lemma top_lsn_simps [simp]:
  "top_lsn c [] = c" "top_lsn c (r # rs) = top_lsn (max c (h_lsn (header r))) rs"
  by (simp_all add: top_lsn_def)

lemma top_lsn_ge: "c \<le> top_lsn c rs"
proof (induction rs arbitrary: c)
  case (Cons r rs)
  have "c \<le> max c (h_lsn (header r))" by simp
  also have "\<dots> \<le> top_lsn (max c (h_lsn (header r))) rs" by (rule Cons.IH)
  finally show ?case by simp
qed simp

lemma top_lsn_mem: "r \<in> set rs \<Longrightarrow> h_lsn (header r) \<le> top_lsn c rs"
proof (induction rs arbitrary: c)
  case (Cons r' rs)
  show ?case
  proof (cases "r = r'")
    case True
    have "h_lsn (header r) \<le> max c (h_lsn (header r'))" by (simp add: True)
    also have "\<dots> \<le> top_lsn (max c (h_lsn (header r'))) rs" by (rule top_lsn_ge)
    finally show ?thesis by simp
  next
    case False
    with Cons show ?thesis by simp
  qed
qed simp

lemma top_lsn_stay: "(\<And>r. r \<in> set rs \<Longrightarrow> h_lsn (header r) \<le> c) \<Longrightarrow> top_lsn c rs = c"
  by (induction rs) (simp_all add: max_absorb1)

lemma top_lsn_again: "top_lsn (top_lsn c rs) rs = top_lsn c rs"
  by (rule top_lsn_stay) (rule top_lsn_mem)

lemma replay_past_top: "replay (top_lsn c rs) rs m = m"
  unfolding replay_def
  by (rule apply_records_none) (use top_lsn_mem in \<open>auto simp: replayed_def not_less\<close>)

lemma parse_log_facts:
  "r \<in> set (parse_log nblocks prev b) \<Longrightarrow> is_block (payload r) \<and>
   (h_type (header r) = WAL_BLOCK \<longrightarrow> h_block_no (header r) \<noteq> 0 \<and>
      (nblocks \<noteq> 0 \<longrightarrow> h_block_no (header r) < nblocks))"
proof (induction nblocks prev b rule: parse_log.induct)
  case (1 nblocks prev b)
  define h where "h = decode_header (take HEADER_SIZE b)"
  define n where "n = (if h_type h = WAL_BLOCK then BLOCK_SIZE else 0)"
  define pl where "pl = (if h_type h = WAL_BLOCK then get_at HEADER_SIZE BLOCK_SIZE b else zero_block)"
  have go: "\<not> length b < HEADER_SIZE" "header_ok nblocks prev h" "\<not> length b < HEADER_SIZE + n"
      "record_checksum h pl = h_checksum h"
    and r: "r = \<lparr>header = h, payload = pl\<rparr> \<or> r \<in> set (parse_log nblocks (Some (h_lsn h)) (drop (HEADER_SIZE + n) b))"
    using "1.prems" unfolding parse_log.simps [of nblocks prev b] Let_def h_def [symmetric]
      n_def [symmetric] pl_def [symmetric] by (auto split: if_splits)
  from r show ?case
  proof
    assume "r = \<lparr>header = h, payload = pl\<rparr>"
    then show ?thesis
      using go(2,3) by (auto simp: pl_def n_def is_block_def header_ok_def Let_def split: if_splits)
  next
    assume "r \<in> set (parse_log nblocks (Some (h_lsn h)) (drop (HEADER_SIZE + n) b))"
    then show ?thesis using "1.IH" [OF go(1) h_def n_def pl_def] go by simp
  qed
qed

section \<open>The replay loop\<close>

text \<open>The disk that \<^verbatim>\<open>Storage\<close> mounts: an instrumented image.\<close>

definition disk_of :: "pread_dev \<Rightarrow> bool \<Rightarrow> disk device" where
  "disk_of d sync_enabled = instrumented_device (pread_device d) sync_enabled"

definition dblocks :: "pread_dev \<Rightarrow> stable \<Rightarrow> u32 \<Rightarrow> block" where
  "dblocks d s = pd_blocks d (inner (snd s))"

definition dlive :: "pread_dev \<Rightarrow> stable \<Rightarrow> bool" where
  "dlive d s = pd_live d (inner (snd s))"

definition same_log :: "pread_dev \<Rightarrow> stable \<Rightarrow> stable \<Rightarrow> bool" where
  "same_log d s s' \<longleftrightarrow> fst s' = fst s \<and> same_but (pd_fd d) (inner (snd s)) (inner (snd s'))"

lemma same_log_refl [simp]: "same_log d s s"
  by (simp add: same_log_def)

lemma same_log_trans: "same_log d s s' \<Longrightarrow> same_log d s' s'' \<Longrightarrow> same_log d s s''"
  by (auto simp: same_log_def intro: same_but_trans)

definition armed :: "stable \<Rightarrow> bool" where
  "armed s \<longleftrightarrow> fatal (wfault (inner (snd s))) \<noteq> 0"

lemma same_log_armed: "same_log d s s' \<Longrightarrow> armed s' = armed s"
  by (simp add: same_log_def same_but_def armed_def)

lemma on_disk_write_cases:
  assumes "dlive d s" and "b < pd_count d" and "is_block x"
  shows "(\<exists>s'. on_disk (write_block (disk_of d sy) b x) s = (Ret (), s') \<and> dlive d s' \<and>
      dblocks d s' = (dblocks d s)(b := x) \<and> same_log d s s') \<or>
    (\<exists>s' k. on_disk (write_block (disk_of d sy) b x) s = (Killed, s') \<and> armed s \<and> dlive d s' \<and> k < 8 \<and>
      dblocks d s' = (dblocks d s)(b := torn_block k x (dblocks d s b)) \<and> same_log d s s')"
proof -
  obtain l ds where s: "s = (l, ds)" by (cases s)
  have live: "pd_live d (inner ds)" using assms(1) by (simp add: dlive_def s)
  note defs = on_disk_def disk_of_def instrumented_device_def inst_write_block_def on_inner_def
    zoomE_def thenE_def bindE_def pread_device_def
  from pd_write_block_cases [OF live assms(2,3)] show ?thesis
  proof (elim disjE exE conjE)
    fix w' assume "pd_write_block d b x (inner ds) = (Ret (), w')" "pd_live d w'"
      "pd_blocks d w' = (pd_blocks d (inner ds))(b := x)" "same_but (pd_fd d) (inner ds) w'"
    then show ?thesis
      by (intro disjI1) (simp add: s defs dlive_def dblocks_def same_log_def)
  next
    fix w' k assume "pd_write_block d b x (inner ds) = (Killed, w')" "fatal (wfault (inner ds)) \<noteq> 0"
      "pd_live d w'" "k < 8" "pd_blocks d w' = (pd_blocks d (inner ds))(b := torn_block k x (pd_blocks d (inner ds) b))"
      "same_but (pd_fd d) (inner ds) w'"
    then show ?thesis
      by (intro disjI2) (auto simp: s defs dlive_def dblocks_def same_log_def armed_def)
  qed
qed

lemma on_disk_sync:
  assumes "dlive d s"
  shows "\<exists>s'. on_disk (dev_sync (disk_of d sy)) s = (Ret (), s') \<and> dlive d s' \<and>
    dblocks d s' = dblocks d s \<and> same_log d s s'"
proof -
  obtain l ds where s: "s = (l, ds)" by (cases s)
  have live: "pd_live d (inner ds)" using assms(1) by (simp add: dlive_def s)
  from pd_sync_live [OF live] live show ?thesis
    by (cases sy) (auto simp: s on_disk_def disk_of_def instrumented_device_def inst_sync_def on_inner_def
        zoomE_def pread_device_def dlive_def dblocks_def same_log_def)
qed

text \<open>What a record must be for the replay loop to write it.\<close>

definition writable :: "pread_dev \<Rightarrow> wal_record \<Rightarrow> bool" where
  "writable d r \<longleftrightarrow> is_block (payload r) \<and>
     (h_type (header r) = WAL_BLOCK \<longrightarrow> h_block_no (header r) \<noteq> 0 \<and> h_block_no (header r) < pd_count d)"

lemma replay_record_cases:
  assumes "dlive d s" and "writable d r"
  shows "\<exists>out s'. replay_record (disk_of d sy) committed c acc r s = (out, s') \<and> dlive d s' \<and> same_log d s s' \<and>
    (case out of
       Ret (last_lsn, _) \<Rightarrow> last_lsn = max (fst acc) (h_lsn (header r)) \<and>
         dblocks d s' = (if replayed committed c r then (dblocks d s)(h_block_no (header r) := payload r) else dblocks d s)
     | Halted h \<Rightarrow> h = Crash \<and> armed s \<and> replayed committed c r \<and>
         (\<forall>b. b \<noteq> h_block_no (header r) \<longrightarrow> dblocks d s' b = dblocks d s b)
     | Raise _ \<Rightarrow> False)"
proof (cases "replayed committed c r")
  case True
  then have t: "c < h_lsn (header r)" "h_type (header r) = WAL_BLOCK" "h_txn_id (header r) \<in> committed"
    by (simp_all add: replayed_def)
  with assms(2) have b: "h_block_no (header r) < pd_count d" "is_block (payload r)" by (simp_all add: writable_def)
  from on_disk_write_cases [OF assms(1) b, of sy] t True show ?thesis
    by (auto simp: replay_record_def Let_def thenE_def bindE_def not_le)
next
  case False
  with assms(1) show ?thesis
    by (cases s) (auto simp: replay_record_def Let_def replayed_def not_le)
qed

lemma replay_loop:
  assumes "dlive d s" and "\<forall>r \<in> set rs. writable d r"
  shows "\<exists>out s'. foldE rs (replay_record (disk_of d sy) committed c) acc s = (out, s') \<and> dlive d s' \<and> same_log d s s' \<and>
    (case out of
       Ret (last_lsn, _) \<Rightarrow> last_lsn = top_lsn (fst acc) rs \<and>
         dblocks d s' = apply_records (replayed committed c) rs (dblocks d s)
     | Halted h \<Rightarrow> h = Crash \<and> armed s \<and> (\<forall>b. b \<notin> written (replayed committed c) rs \<longrightarrow> dblocks d s' b = dblocks d s b)
     | Raise _ \<Rightarrow> False)"
  using assms
proof (induction rs arbitrary: acc s)
  case Nil
  then show ?case by (cases acc) simp
next
  case (Cons r rs)
  have wr: "writable d r" using Cons.prems(2) by simp
  obtain out s1 where 1: "replay_record (disk_of d sy) committed c acc r s = (out, s1)" "dlive d s1" "same_log d s s1"
    "case out of
       Ret (last_lsn, _) \<Rightarrow> last_lsn = max (fst acc) (h_lsn (header r)) \<and>
         dblocks d s1 = (if replayed committed c r then (dblocks d s)(h_block_no (header r) := payload r) else dblocks d s)
     | Halted h \<Rightarrow> h = Crash \<and> armed s \<and> replayed committed c r \<and>
         (\<forall>b. b \<noteq> h_block_no (header r) \<longrightarrow> dblocks d s1 b = dblocks d s b)
     | Raise _ \<Rightarrow> False"
    using replay_record_cases [OF Cons.prems(1) wr, of sy committed c acc] by blast
  show ?case
  proof (cases out)
    case (Ret a)
    obtain out2 s2 where 2: "foldE rs (replay_record (disk_of d sy) committed c) a s1 = (out2, s2)" "dlive d s2" "same_log d s1 s2"
      "case out2 of
       Ret (last_lsn, _) \<Rightarrow> last_lsn = top_lsn (fst a) rs \<and>
         dblocks d s2 = apply_records (replayed committed c) rs (dblocks d s1)
     | Halted h \<Rightarrow> h = Crash \<and> armed s1 \<and> (\<forall>b. b \<notin> written (replayed committed c) rs \<longrightarrow> dblocks d s2 b = dblocks d s1 b)
     | Raise _ \<Rightarrow> False"
      using Cons.IH [OF 1(2), of a] Cons.prems(2) by auto
    have run: "foldE (r # rs) (replay_record (disk_of d sy) committed c) acc s = (out2, s2)"
      using 1(1) Ret 2(1) by (simp add: bindE_def)
    have sl: "same_log d s s2" using 1(3) 2(3) by (rule same_log_trans)
    show ?thesis
      using run 2 1(3,4) Ret sl same_log_armed [OF 1(3)]
      by (cases a) (auto split: outcome.splits if_splits)
  next
    case (Raise e)
    with 1 show ?thesis by simp
  next
    case (Halted h)
    with 1 show ?thesis by (auto simp: bindE_def)
  qed
qed

section \<open>Recovery and crashes during it\<close>

text \<open>
  What the next mount will make of a disk and a log: the superblock on the disk says how long
  the disk is and where the last checkpoint was, and the log is replayed from there.
\<close>

definition recovered :: "pread_dev \<Rightarrow> stable \<Rightarrow> u32 \<Rightarrow> block" where
  "recovered d s =
     (let sb = decode_superblock (dblocks d s 0);
          rs = parse_log (total_blocks sb) None (content (log_file (fst s, inner (snd s))))
      in replay (last_checkpoint_lsn sb) rs (dblocks d s))"

definition stable_ok :: "pread_dev \<Rightarrow> stable \<Rightarrow> bool" where
  "stable_ok d s \<longleftrightarrow> dlive d s \<and> benign (log_file (fst s, inner (snd s))) \<and> wl_fd (fst s) \<noteq> pd_fd d"

lemma same_log_file:
  "same_log d s s' \<Longrightarrow> wl_fd (fst s) \<noteq> pd_fd d \<Longrightarrow>
   log_file (fst s', inner (snd s')) = log_file (fst s, inner (snd s))"
  by (simp add: same_log_def same_but_def log_file_def)

lemma stable_ok_same_log: "stable_ok d s \<Longrightarrow> same_log d s s' \<Longrightarrow> dlive d s' \<Longrightarrow> stable_ok d s'"
  using same_log_file [of d s s'] by (simp add: stable_ok_def) (simp add: same_log_def)

text \<open>A superblock fits in the first sector, so a torn write of block 0 leaves the old or the new one.\<close>

lemma torn_super:
  assumes "is_block old"
  shows "decode_superblock (torn_block k (super_image sb) old) = (if k = 0 then decode_superblock old else sb)"
proof (cases k)
  case 0
  then show ?thesis by (simp add: torn_block_def)
next
  case (Suc j)
  have "take (k * SECTOR) (super_image sb) = encode_superblock sb @ take (k * SECTOR - 48) (drop 48 zero_block)"
    using Suc by (simp add: super_image_def put_at_def SECTOR_def)
  then show ?thesis using Suc by (simp add: torn_block_def)
qed

lemma on_wal_file_scan:
  assumes "stable_ok d s"
  shows "\<exists>s'. on_wal_file (wal_scan n) s = (Ret (parse_log n None (content (log_file (fst s, inner (snd s))))), s') \<and>
    stable_ok d s' \<and> dblocks d s' = dblocks d s \<and> fst s' = fst s \<and> armed s' = armed s \<and>
    content (log_file (fst s', inner (snd s'))) = content (log_file (fst s, inner (snd s)))"
proof -
  obtain l ds where s: "s = (l, ds)" by (cases s)
  have b: "benign (log_file (l, inner ds))" using assms by (simp add: stable_ok_def s)
  from wal_scan_parse [OF b, of n] obtain w' where w':
    "wal_scan n (l, inner ds) = (Ret (parse_log n None (content (log_file (l, inner ds)))), (l, w'))"
    "benign (log_file (l, w'))" "content (log_file (l, w')) = content (log_file (l, inner ds))"
    "wfault w' = wfault (inner ds)" "\<forall>fd. fd \<noteq> wl_fd l \<longrightarrow> wfile w' fd = wfile (inner ds) fd" by auto
  with assms show ?thesis
    by (auto simp: s on_wal_file_def zoomE_def stable_ok_def dlive_def pd_live_def dblocks_def pd_blocks_def
        fun_eq_iff armed_def)
qed

lemma on_wal_file_reset:
  assumes "stable_ok d s" and "n \<noteq> 0"
  shows "\<exists>s'. on_wal_file (wal_reset n) s = (Ret (), s') \<and> stable_ok d s' \<and> dblocks d s' = dblocks d s \<and>
    wal_ok (fst s', inner (snd s')) \<and> stream (fst s', inner (snd s')) = [] \<and> batch (fst s') = [] \<and>
    next_lsn (fst s') = n \<and> durable_lsn (fst s') = n - 1 \<and> wl_fd (fst s') = wl_fd (fst s) \<and>
    armed s' = armed s"
proof -
  obtain l ds where s: "s = (l, ds)" by (cases s)
  have b: "benign (log_file (l, inner ds))" using assms by (simp add: stable_ok_def s)
  from wal_reset_ok [OF b assms(2)] obtain l' w' where w':
    "wal_reset n (l, inner ds) = (Ret (), (l', w'))" "wal_ok (l', w')" "stream (l', w') = []" "batch l' = []"
    "next_lsn l' = n" "durable_lsn l' = n - 1" "wl_fd l' = wl_fd l" "same_but (wl_fd l) (inner ds) w'" by auto
  then have "wfile w' (pd_fd d) = wfile (inner ds) (pd_fd d)"
    using assms(1) by (auto simp: stable_ok_def s same_but_def)
  with w' assms show ?thesis
    by (auto simp: s on_wal_file_def zoomE_def stable_ok_def dlive_def pd_live_def dblocks_def pd_blocks_def
        fun_eq_iff wal_ok_def armed_def same_but_def)
qed

text \<open>
  The two states a crash can leave: block 0 still the old superblock and the rest of the disk
  different only in blocks the log writes again, or block 0 the new one and the disk complete.
\<close>

lemma recovered_midway:
  assumes "same_log d s s'" and "wl_fd (fst s) \<noteq> pd_fd d"
    and "decode_superblock (dblocks d s' 0) = decode_superblock (dblocks d s 0)"
    and "rs = parse_log (total_blocks (decode_superblock (dblocks d s 0))) None (content (log_file (fst s, inner (snd s))))"
    and "\<And>b. b \<noteq> 0 \<Longrightarrow> b \<notin> written (replayed (committed_txns rs) (last_checkpoint_lsn (decode_superblock (dblocks d s 0)))) rs \<Longrightarrow>
      dblocks d s' b = dblocks d s b"
    and "b \<noteq> 0"
  shows "recovered d s' b = recovered d s b"
proof -
  let ?P = "replayed (committed_txns rs) (last_checkpoint_lsn (decode_superblock (dblocks d s 0)))"
  have "apply_records ?P rs ((dblocks d s')(0 := dblocks d s 0)) = apply_records ?P rs (dblocks d s)"
    by (rule apply_records_agree) (use assms(5) in auto)
  moreover have "apply_records ?P rs ((dblocks d s')(0 := dblocks d s 0)) b = apply_records ?P rs (dblocks d s') b"
    by (rule apply_records_at) (use assms(6) in simp)
  ultimately have "apply_records ?P rs (dblocks d s') b = apply_records ?P rs (dblocks d s) b" by simp
  then show ?thesis
    using same_log_file [OF assms(1,2)] assms(3,4) by (simp add: recovered_def Let_def replay_def)
qed

lemma recovered_complete:
  assumes "same_log d s s'" and "wl_fd (fst s) \<noteq> pd_fd d"
    and "sb = decode_superblock (dblocks d s 0)"
    and "rs = parse_log (total_blocks sb) None (content (log_file (fst s, inner (snd s))))"
    and "decode_superblock (dblocks d s' 0) = sb\<lparr>last_checkpoint_lsn := top_lsn (last_checkpoint_lsn sb) rs\<rparr>"
    and "dblocks d s' b = apply_records (replayed (committed_txns rs) (last_checkpoint_lsn sb)) rs (dblocks d s) b"
  shows "recovered d s' b = recovered d s b"
  using assms same_log_file [OF assms(1,2)] replay_past_top
  by (simp add: recovered_def Let_def) (simp add: replay_def)

definition log_of :: "stable \<Rightarrow> u32 \<Rightarrow> wal_record list" where
  "log_of s n = parse_log n None (content (log_file (fst s, inner (snd s))))"

definition fresh_log :: "stable \<Rightarrow> u64 \<Rightarrow> bool" where
  "fresh_log s n \<longleftrightarrow> wal_ok (fst s, inner (snd s)) \<and> stream (fst s, inner (snd s)) = [] \<and>
     batch (fst s) = [] \<and> next_lsn (fst s) = n \<and> durable_lsn (fst s) = n - 1"

lemma recover_finish:
  assumes "stable_ok d s1" and "0 < pd_count d" and "last_no \<noteq> - 1"
  shows "\<exists>out s'. thenE (on_disk (dev_sync (disk_of d sy)))
      (thenE (on_disk (write_superblock (disk_of d sy) sb'))
      (thenE (on_disk (dev_sync (disk_of d sy)))
      (thenE (on_wal_file (wal_reset (last_no + 1))) (retE (info, sb'))))) s1 = (out, s') \<and> stable_ok d s' \<and> armed s' = armed s1 \<and>
    (out = Ret (info, sb') \<and> dblocks d s' = (dblocks d s1)(0 := super_image sb') \<and> fresh_log s' (last_no + 1) \<and>
       wl_fd (fst s') = wl_fd (fst s1) \<or>
     out = Killed \<and> armed s1 \<and> same_log d s1 s' \<and>
       (\<exists>k. dblocks d s' = (dblocks d s1)(0 := torn_block k (super_image sb') (dblocks d s1 0))))"
proof -
  have live1: "dlive d s1" using assms(1) by (simp add: stable_ok_def)
  obtain s2 where 2: "on_disk (dev_sync (disk_of d sy)) s1 = (Ret (), s2)" "dlive d s2"
    "dblocks d s2 = dblocks d s1" "same_log d s1 s2" using on_disk_sync [OF live1] by blast
  have wsb: "write_superblock (disk_of d sy) sb' = write_block (disk_of d sy) 0 (super_image sb')"
    by (simp add: write_superblock_def super_image_def)
  from on_disk_write_cases [OF 2(2) assms(2) is_block_super_image [of sb'], of sy] show ?thesis
  proof (elim disjE exE conjE)
    fix s3 assume 3: "on_disk (write_block (disk_of d sy) 0 (super_image sb')) s2 = (Ret (), s3)" "dlive d s3"
      "dblocks d s3 = (dblocks d s2)(0 := super_image sb')" "same_log d s2 s3"
    obtain s4 where 4: "on_disk (dev_sync (disk_of d sy)) s3 = (Ret (), s4)" "dlive d s4"
      "dblocks d s4 = dblocks d s3" "same_log d s3 s4" using on_disk_sync [OF 3(2)] by blast
    have sl: "same_log d s1 s4" by (rule same_log_trans [OF same_log_trans [OF 2(4) 3(4)] 4(4)])
    have ok4: "stable_ok d s4" using stable_ok_same_log [OF assms(1) sl 4(2)] .
    have "last_no + 1 \<noteq> 0" using assms(3) by (simp add: add_eq_0_iff2)
    from on_wal_file_reset [OF ok4 this] obtain s5 where
      5: "on_wal_file (wal_reset (last_no + 1)) s4 = (Ret (), s5)" "stable_ok d s5" "dblocks d s5 = dblocks d s4"
      "fresh_log s5 (last_no + 1)" "wl_fd (fst s5) = wl_fd (fst s4)" "armed s5 = armed s4" by (auto simp: fresh_log_def)
    have run: "thenE (on_disk (dev_sync (disk_of d sy)))
      (thenE (on_disk (write_superblock (disk_of d sy) sb'))
      (thenE (on_disk (dev_sync (disk_of d sy)))
      (thenE (on_wal_file (wal_reset (last_no + 1))) (retE (info, sb'))))) s1 = (Ret (info, sb'), s5)"
      using 2(1) 3(1) 4(1) 5(1) by (simp add: wsb)
    have blocks: "dblocks d s5 = (dblocks d s1)(0 := super_image sb')" using 2(3) 3(3) 4(3) 5(3) by simp
    have "wl_fd (fst s5) = wl_fd (fst s1)" using 5(5) sl by (simp add: same_log_def)
    moreover have "armed s5 = armed s1" using 5(6) same_log_armed [OF sl] by simp
    ultimately show ?thesis using run blocks 5(2,4) by blast
  next
    fix s3 k assume 3: "on_disk (write_block (disk_of d sy) 0 (super_image sb')) s2 = (Killed, s3)" "armed s2" "dlive d s3"
      "dblocks d s3 = (dblocks d s2)(0 := torn_block k (super_image sb') (dblocks d s2 0))" "same_log d s2 s3"
    have sl: "same_log d s1 s3" using 2(4) 3(5) by (rule same_log_trans)
    have run: "thenE (on_disk (dev_sync (disk_of d sy)))
      (thenE (on_disk (write_superblock (disk_of d sy) sb'))
      (thenE (on_disk (dev_sync (disk_of d sy)))
      (thenE (on_wal_file (wal_reset (last_no + 1))) (retE (info, sb'))))) s1 = (Killed, s3)"
      using 2(1) 3(1) by (simp add: wsb)
    have "stable_ok d s3" "armed s1" "dblocks d s3 = (dblocks d s1)(0 := torn_block k (super_image sb') (dblocks d s1 0))"
      using stable_ok_same_log [OF assms(1) sl 3(3)] same_log_armed [OF 2(4)] 3(2,4) 2(3) by simp_all
    with run sl same_log_armed [OF sl] show ?thesis by blast
  qed
qed

text \<open>What is needed of a disk and a log for a mount to recover them.\<close>

definition recoverable :: "pread_dev \<Rightarrow> stable \<Rightarrow> bool" where
  "recoverable d s \<longleftrightarrow> stable_ok d s \<and> 0 < pd_count d \<and>
     (let sb = decode_superblock (dblocks d s 0) in
      total_blocks sb = pd_count d \<and>
      top_lsn (last_checkpoint_lsn sb) (log_of s (pd_count d)) \<noteq> - 1)"

definition recovered_super :: "pread_dev \<Rightarrow> stable \<Rightarrow> superblock" where
  "recovered_super d s = (let sb = decode_superblock (dblocks d s 0) in
     sb\<lparr>last_checkpoint_lsn := top_lsn (last_checkpoint_lsn sb) (log_of s (total_blocks sb))\<rparr>)"

lemma recover_outcomes:
  assumes "recoverable d s"
  shows "case recover (disk_of d sy) (decode_superblock (dblocks d s 0)) s of
      (Ret (info, sb'), s') \<Rightarrow> stable_ok d s' \<and> sb' = recovered_super d s \<and> dblocks d s' 0 = super_image sb' \<and>
        (\<forall>b. b \<noteq> 0 \<longrightarrow> dblocks d s' b = recovered d s b) \<and> fresh_log s' (last_checkpoint_lsn sb' + 1) \<and>
        wl_fd (fst s') = wl_fd (fst s) \<and> armed s' = armed s
    | (Halted h, s') \<Rightarrow> h = Crash \<and> armed s \<and> recoverable d s' \<and> (\<forall>b. b \<noteq> 0 \<longrightarrow> recovered d s' b = recovered d s b) \<and>
        (decode_superblock (dblocks d s' 0) = decode_superblock (dblocks d s 0) \<or>
         decode_superblock (dblocks d s' 0) = recovered_super d s)
    | (Raise _, _) \<Rightarrow> False"
proof -
  define sb where "sb = decode_superblock (dblocks d s 0)"
  define rs where "rs = parse_log (total_blocks sb) None (content (log_file (fst s, inner (snd s))))"
  define c where "c = last_checkpoint_lsn sb"
  define P where "P = replayed (committed_txns rs) c"
  define sb' where "sb' = sb\<lparr>last_checkpoint_lsn := top_lsn c rs\<rparr>"
  let ?D = "disk_of d sy"
  have ok: "stable_ok d s" and cnt: "0 < pd_count d" and tot: "total_blocks sb = pd_count d"
    and last_no: "top_lsn c rs \<noteq> - 1"
    using assms by (simp_all add: recoverable_def Let_def sb_def rs_def c_def log_of_def)
  have fd: "wl_fd (fst s) \<noteq> pd_fd d" using ok by (simp add: stable_ok_def)
  have wr: "\<forall>r \<in> set rs. writable d r"
    using parse_log_facts [of _ "total_blocks sb" None] cnt tot
    by (auto simp: rs_def writable_def)
  have sb'_rec: "sb' = recovered_super d s"
    by (simp add: sb'_def recovered_super_def Let_def sb_def rs_def c_def log_of_def)
  have no0: "0 \<notin> written P rs"
    using wr by (auto simp: written_def P_def replayed_def writable_def)
  obtain s1 where 1: "on_wal_file (wal_scan (total_blocks sb)) s = (Ret rs, s1)" "stable_ok d s1"
    "dblocks d s1 = dblocks d s" "fst s1 = fst s" "armed s1 = armed s"
    "content (log_file (fst s1, inner (snd s1))) = content (log_file (fst s, inner (snd s)))"
    using on_wal_file_scan [OF ok, of "total_blocks sb"] unfolding rs_def by blast
  have same_rec: "recovered d s1 = recovered d s" using 1 by (simp add: recovered_def)
  have rs1: "rs = parse_log (total_blocks (decode_superblock (dblocks d s1 0))) None
      (content (log_file (fst s1, inner (snd s1))))"
    using 1 by (simp add: rs_def sb_def)
  have fd1: "wl_fd (fst s1) \<noteq> pd_fd d" using fd 1 by simp
  have live1: "dlive d s1" using 1 by (simp add: stable_ok_def)
  let ?acc = "(c, \<lparr>ran = True, txns_replayed = 0, blocks_replayed = 0, txns_discarded = 0\<rparr>)"
  obtain out s2 where 2: "foldE rs (replay_record ?D (committed_txns rs) c) ?acc s1 = (out, s2)" "dlive d s2" "same_log d s1 s2"
    "case out of
       Ret (last_lsn, _) \<Rightarrow> last_lsn = top_lsn c rs \<and> dblocks d s2 = apply_records P rs (dblocks d s1)
     | Halted h \<Rightarrow> h = Crash \<and> armed s1 \<and> (\<forall>b. b \<notin> written P rs \<longrightarrow> dblocks d s2 b = dblocks d s1 b)
     | Raise _ \<Rightarrow> False"
    using replay_loop [OF live1 wr, of sy "committed_txns rs" c ?acc] unfolding P_def fst_conv by blast
  have ok2: "stable_ok d s2" using stable_ok_same_log [OF 1(2) 2(3,2)] .
  show ?thesis
  proof (cases out)
    case (Raise e)
    with 2 show ?thesis by simp
  next
    case (Halted h)
    then have Killed: "out = Killed" using 2(4) by simp
    have run: "recover ?D sb s = (Killed, s2)"
      using 1(1) 2(1) Killed by (simp add: recover_def Let_def bindE_def c_def)
    have unw: "dblocks d s2 b = dblocks d s1 b" if "b \<notin> written P rs" for b using 2(4) Killed that by simp
    then have sb2: "dblocks d s2 0 = dblocks d s 0" using no0 1(3) by simp
    have "recovered d s2 b = recovered d s1 b" if "b \<noteq> 0" for b
      by (rule recovered_midway [OF 2(3) fd1 _ rs1 _ that])
         (use sb2 1(3) unw in \<open>simp_all add: P_def c_def sb_def\<close>)
    moreover have "recoverable d s2"
      using ok2 cnt tot last_no sb2 1(6) same_log_file [OF 2(3) fd1] rs_def
      by (simp add: recoverable_def Let_def sb_def c_def log_of_def)
    ultimately show ?thesis
      using run sb2 2(4) Killed 1(5) same_rec by (simp add: sb_def [symmetric])
  next
    case (Ret a)
    with 2(4) obtain info where a: "a = (top_lsn c rs, info)" and m2: "dblocks d s2 = apply_records P rs (dblocks d s1)"
      by (cases a) auto
    obtain out3 s3 where 3: "thenE (on_disk (dev_sync ?D)) (thenE (on_disk (write_superblock ?D sb'))
      (thenE (on_disk (dev_sync ?D)) (thenE (on_wal_file (wal_reset (top_lsn c rs + 1))) (retE (info, sb'))))) s2 = (out3, s3)"
      "stable_ok d s3" "armed s3 = armed s2"
      "out3 = Ret (info, sb') \<and> dblocks d s3 = (dblocks d s2)(0 := super_image sb') \<and> fresh_log s3 (top_lsn c rs + 1) \<and>
         wl_fd (fst s3) = wl_fd (fst s2) \<or>
       out3 = Killed \<and> armed s2 \<and> same_log d s2 s3 \<and>
         (\<exists>k. dblocks d s3 = (dblocks d s2)(0 := torn_block k (super_image sb') (dblocks d s2 0)))"
      using recover_finish [OF ok2 cnt last_no, of sy sb' info] by auto
    have run: "recover ?D sb s = (out3, s3)"
      using 1(1) 2(1) Ret a 3(1) by (simp add: recover_def Let_def bindE_def c_def [symmetric] sb'_def)
    have view: "dblocks d s2 b = recovered d s b" for b
      using m2 1(3) by (simp add: recovered_def replay_def P_def Let_def c_def sb_def rs_def)
    show ?thesis using 3(4)
    proof (elim disjE conjE exE)
      assume r: "out3 = Ret (info, sb')" "dblocks d s3 = (dblocks d s2)(0 := super_image sb')"
        "fresh_log s3 (top_lsn c rs + 1)" "wl_fd (fst s3) = wl_fd (fst s2)"
      have "wl_fd (fst s2) = wl_fd (fst s)" using 2(3) 1(4) by (simp add: same_log_def)
      moreover have "last_checkpoint_lsn (recovered_super d s) = top_lsn c rs"
        unfolding sb'_rec [symmetric] by (simp add: sb'_def)
      moreover have "armed s3 = armed s" using 3(3) same_log_armed [OF 2(3)] 1(5) by simp
      ultimately show ?thesis using run r 3(2) view sb'_rec unfolding sb_def [symmetric] by simp
    next
      fix k assume r: "out3 = Killed" "armed s2" "same_log d s2 s3"
        "dblocks d s3 = (dblocks d s2)(0 := torn_block k (super_image sb') (dblocks d s2 0))"
      have sl: "same_log d s1 s3" using 2(3) r(3) by (rule same_log_trans)
      have z: "dblocks d s2 0 = dblocks d s 0" using m2 no0 1(3) by (simp add: apply_records_unwritten)
      have blk: "is_block (dblocks d s 0)"
        using pread.blocks_len block_in_range [OF cnt] ok
        by (simp add: is_block_def dblocks_def pd_blocks_def stable_ok_def dlive_def pd_live_def)
      have sb3: "decode_superblock (dblocks d s3 0) = (if k = 0 then sb else sb')"
        using torn_super [OF blk] by (simp add: r(4) z sb_def)
      have m3: "dblocks d s3 b = apply_records P rs (dblocks d s1) b" if "b \<noteq> 0" for b
        using that r(4) m2 by simp
      have "recovered d s3 b = recovered d s1 b" if b: "b \<noteq> 0" for b
      proof (cases "k = 0")
        case True
        show ?thesis
          by (rule recovered_midway [OF sl fd1 _ rs1 _ b])
             (use sb3 True 1(3) m3 in \<open>simp_all add: P_def c_def sb_def apply_records_unwritten\<close>)
      next
        case False
        show ?thesis
        proof (rule recovered_complete [OF sl fd1, of sb rs])
          show "sb = decode_superblock (dblocks d s1 0)" by (simp add: sb_def 1(3))
          show "rs = parse_log (total_blocks sb) None (content (log_file (fst s1, inner (snd s1))))"
            by (simp add: rs_def 1(6))
          show "decode_superblock (dblocks d s3 0) = sb\<lparr>last_checkpoint_lsn := top_lsn (last_checkpoint_lsn sb) rs\<rparr>"
            using sb3 False by (simp add: sb'_def c_def)
          show "dblocks d s3 b = apply_records (replayed (committed_txns rs) (last_checkpoint_lsn sb)) rs (dblocks d s1) b"
            using m3 [OF b] by (simp add: P_def c_def)
        qed
      qed
      moreover have "recoverable d s3"
      proof -
        have "log_of s3 (pd_count d) = rs"
          using same_log_file [OF sl fd1] 1(6) by (simp add: log_of_def rs_def tot)
        moreover have "top_lsn (top_lsn c rs) rs = top_lsn c rs"
          by (rule top_lsn_again)
        ultimately show ?thesis
          using 3(2) cnt tot last_no sb3 by (auto simp: recoverable_def Let_def c_def [symmetric] sb'_def)
      qed
      moreover have "armed s" using r(2) same_log_armed [OF 2(3)] 1(5) by simp
      ultimately show ?thesis
        using run r(1) same_rec sb3 sb'_rec by (simp add: sb_def [symmetric])
    qed
  qed
qed

section \<open>Recovery interrupted any number of times\<close>

text \<open>
  A new process opens the same two files: their bytes are what the last one left, while the
  \<^verbatim>\<open>Wal\<close> object, the counters and the crash to come are new.
\<close>

definition reopened :: "pread_dev \<Rightarrow> stable \<Rightarrow> stable \<Rightarrow> bool" where
  "reopened d s s' \<longleftrightarrow> stable_ok d s' \<and> wl_fd (fst s') = wl_fd (fst s) \<and>
     content (wfile (inner (snd s')) (pd_fd d)) = content (wfile (inner (snd s)) (pd_fd d)) \<and>
     content (log_file (fst s', inner (snd s'))) = content (log_file (fst s, inner (snd s)))"

inductive crashed_mounts :: "pread_dev \<Rightarrow> bool \<Rightarrow> stable \<Rightarrow> stable \<Rightarrow> bool" for d sy where
  start: "crashed_mounts d sy s s"
| again: "crashed_mounts d sy s s1 \<Longrightarrow>
    recover (disk_of d sy) (decode_superblock (dblocks d s1 0)) s1 = (Killed, s2) \<Longrightarrow> reopened d s2 s3 \<Longrightarrow>
    crashed_mounts d sy s s3"

lemma reopened_same:
  assumes "reopened d s s'" and "recoverable d s"
  shows "recoverable d s'" and "recovered d s' = recovered d s" and "dblocks d s' = dblocks d s"
proof -
  show b: "dblocks d s' = dblocks d s"
    using assms(1) by (simp add: reopened_def dblocks_def pd_blocks_def fun_eq_iff)
  have l: "log_of s' n = log_of s n" for n using assms(1) by (simp add: reopened_def log_of_def)
  show "recoverable d s'" using assms b l by (simp add: recoverable_def reopened_def)
  show "recovered d s' = recovered d s"
    using b assms(1) by (simp add: recovered_def reopened_def)
qed

lemma crashed_mounts_same:
  "crashed_mounts d sy s s' \<Longrightarrow> recoverable d s \<Longrightarrow>
   recoverable d s' \<and> (\<forall>b. b \<noteq> 0 \<longrightarrow> recovered d s' b = recovered d s b)"
proof (induction rule: crashed_mounts.induct)
  case (again s s1 s2 s3)
  then have "recoverable d s1" by simp
  from recover_outcomes [OF this, of sy] again.hyps(2)
  have "recoverable d s2" "\<And>b. b \<noteq> 0 \<Longrightarrow> recovered d s2 b = recovered d s1 b" by simp_all
  with reopened_same [OF again.hyps(3)] again.IH again.prems show ?case by simp
qed simp

lemma recover_unarmed:
  assumes "recoverable d s" and "\<not> armed s"
  shows "\<exists>info s'. recover (disk_of d sy) (decode_superblock (dblocks d s 0)) s = (Ret (info, recovered_super d s), s') \<and>
    stable_ok d s' \<and> dblocks d s' 0 = super_image (recovered_super d s) \<and>
    (\<forall>b. b \<noteq> 0 \<longrightarrow> dblocks d s' b = recovered d s b) \<and>
    fresh_log s' (last_checkpoint_lsn (recovered_super d s) + 1) \<and> \<not> armed s'"
  using recover_outcomes [OF assms(1), of sy] assms(2)
  by (auto split: prod.splits outcome.splits)

text \<open>
  C4. Recovery is restartable: however many mounts are killed while they recover, at whichever
  write and with whatever part of a block torn, the mount that gets through leaves in every
  block what replaying the committed transactions of the original log over the original disk
  gives, and an empty log.
\<close>

theorem recovery_restartable:
  assumes "recoverable d s" and "crashed_mounts d sy s s'" and "\<not> armed s'"
  shows "\<exists>info sb s''. recover (disk_of d sy) (decode_superblock (dblocks d s' 0)) s' = (Ret (info, sb), s'') \<and>
    (\<forall>b. b \<noteq> 0 \<longrightarrow> dblocks d s'' b = recovered d s b) \<and> dblocks d s'' 0 = super_image sb \<and>
    fresh_log s'' (last_checkpoint_lsn sb + 1)"
proof -
  from crashed_mounts_same [OF assms(2,1)] have r: "recoverable d s'"
    and same: "\<And>b. b \<noteq> 0 \<Longrightarrow> recovered d s' b = recovered d s b" by simp_all
  from recover_unarmed [OF r assms(3)] same show ?thesis by fastforce
qed

definition demo_super :: superblock where
  "demo_super = \<lparr>magic = MAGIC, block_size = 4096, total_blocks = 64, inode_count = 32,
     inode_bitmap_start = 1, data_bitmap_start = 2, inode_table_start = 3, data_start = 4,
     root_inode = 1, clean_unmount = 0, last_checkpoint_lsn = 0\<rparr>"

text \<open>A 64-block disk of ones whose log holds one committed transaction that zeroes block 5.\<close>

definition demo_stable :: stable where
  "demo_stable = (fst (tiny_state 0), \<lparr>inner = small_world\<lparr>wfile := (\<lambda>fd.
      if fd = 3 then \<lparr>content = super_image demo_super @ replicate (63 * 4096) 1, script = [Short 9]\<rparr>
      else \<lparr>content = log_bytes tiny_log, script = [Fail EINTR]\<rparr>)\<rparr>, reads = 0, writes = 0\<rparr>)"

lemma demo_stable_facts:
  "log_of demo_stable 64 = tiny_log" "dblocks \<lparr>pd_fd = 3, pd_count = 64\<rparr> demo_stable 0 = super_image demo_super"
proof -
  show "log_of demo_stable 64 = tiny_log"
    using parse_log_bytes [OF tiny_log_ok, of "[]"]
    by (simp add: log_of_def demo_stable_def log_file_def tiny_state_def)
  have "length (super_image demo_super) = 4096" using is_block_super_image by (simp add: is_block_def)
  then show "dblocks \<lparr>pd_fd = 3, pd_count = 64\<rparr> demo_stable 0 = super_image demo_super"
    by (simp add: dblocks_def pd_blocks_def demo_stable_def block_offset_def get_at_def)
qed

lemma demo_recoverable: "recoverable \<lparr>pd_fd = 3, pd_count = 64\<rparr> demo_stable" "\<not> armed demo_stable"
proof -
  have "length (super_image demo_super) = 4096" using is_block_super_image by (simp add: is_block_def)
  moreover have "top_lsn 0 tiny_log = 3" by (simp add: tiny_log_def max_def word_le_nat_alt)
  ultimately show "recoverable \<lparr>pd_fd = 3, pd_count = 64\<rparr> demo_stable"
    by (simp add: recoverable_def demo_stable_facts)
       (simp add: stable_ok_def dlive_def pd_live_def demo_stable_def tiny_state_def log_file_def demo_super_def
        benign_def benign_event_def)
  show "\<not> armed demo_stable" by (simp add: armed_def demo_stable_def small_world_def)
qed

theorem recovery_restartable_witness:
  "recoverable \<lparr>pd_fd = 3, pd_count = 64\<rparr> demo_stable \<and>
   (\<exists>info sb s''. recover (disk_of \<lparr>pd_fd = 3, pd_count = 64\<rparr> True)
       (decode_superblock (dblocks \<lparr>pd_fd = 3, pd_count = 64\<rparr> demo_stable 0)) demo_stable = (Ret (info, sb), s'') \<and>
     dblocks \<lparr>pd_fd = 3, pd_count = 64\<rparr> s'' 5 = zero_block \<and> fresh_log s'' (last_checkpoint_lsn sb + 1))"
proof -
  have "recovered \<lparr>pd_fd = 3, pd_count = 64\<rparr> demo_stable 5 = zero_block"
    unfolding recovered_def Let_def demo_stable_facts decode_super_image log_of_def [symmetric]
    by (simp add: demo_stable_facts demo_super_def replay_def)
       (simp add: tiny_log_def replayed_def committed_txns_def word_less_nat_alt)
  with recovery_restartable [OF demo_recoverable(1) crashed_mounts.start demo_recoverable(2), of True]
    demo_recoverable(1) show ?thesis by fastforce
qed

end
