(* ===== verification/Buffer_Cache.thy ===== *)
theory Buffer_Cache
  imports Block_Device
begin

text \<open>
  \<^verbatim>\<open>src/src/buffer_cache.cpp\<close>: the block cache. A frame pointer is an index into its shard's
  vector of frames, which only grows; the LRU list is kept in the frames' \<^verbatim>\<open>prev\<close> and \<^verbatim>\<open>next\<close>
  pointers as in the source. One call runs at a time here, so the mutexes and frame locks are
  not part of the state, and \<^verbatim>\<open>durable_lsn_()\<close>, which cannot change during a call, is an
  argument. The function handed to \<^verbatim>\<open>modify\<close> is an operation on the block's bytes that may
  throw.
\<close>

definition SHARDS :: nat where "SHARDS = 16"
definition MIN_FRAMES :: u32 where "MIN_FRAMES = 256"
definition RUN_BLOCKS :: nat where "RUN_BLOCKS = 256"

record frame =
  f_block_no :: u32
  mapped :: bool
  dirty :: bool
  in_txn :: bool
  f_lsn :: u64
  version :: u64
  pins :: int
  f_prev :: "nat option"
  f_next :: "nat option"
  load_failed :: bool
  f_data :: block

definition new_frame_value :: frame where
  "new_frame_value = \<lparr>f_block_no = 0, mapped = False, dirty = False, in_txn = False, f_lsn = 0,
     version = 0, pins = 0, f_prev = None, f_next = None, load_failed = False, f_data = zero_block\<rparr>"

record shard =
  smap :: "u32 \<Rightarrow> nat option"
  lru_head :: "nat option"
  lru_tail :: "nat option"
  frames :: "frame list"
  share :: nat

record cache =
  capacity :: u32
  shards :: "shard list"
  dirty_count :: u64
  hits :: u64
  misses :: u64
  evictions :: u64

definition cache_new :: "u32 \<Rightarrow> cache" where
  "cache_new nframes =
     (let cap = (if nframes < MIN_FRAMES then MIN_FRAMES else nframes) in
      \<lparr>capacity = cap,
       shards = map (\<lambda>i. \<lparr>smap = (\<lambda>_. None), lru_head = None, lru_tail = None, frames = [],
         share = unat cap div SHARDS + (if i < unat cap mod SHARDS then 1 else 0)\<rparr>) [0..<SHARDS],
       dirty_count = 0, hits = 0, misses = 0, evictions = 0\<rparr>)"

definition shard_for :: "u32 \<Rightarrow> nat" where
  "shard_for block_no = unat block_no mod SHARDS"

section \<open>The LRU list\<close>

definition upd_frame :: "nat \<Rightarrow> (frame \<Rightarrow> frame) \<Rightarrow> shard \<Rightarrow> shard" where
  "upd_frame i g s = s\<lparr>frames := (frames s)[i := g (frames s ! i)]\<rparr>"

definition lru_unlink :: "nat \<Rightarrow> shard \<Rightarrow> shard" where
  "lru_unlink f s =
     (let pr = f_prev (frames s ! f); nx = f_next (frames s ! f);
          s = (case pr of Some p \<Rightarrow> upd_frame p (\<lambda>x. x\<lparr>f_next := nx\<rparr>) s | None \<Rightarrow> s\<lparr>lru_head := nx\<rparr>);
          s = (case nx of Some n \<Rightarrow> upd_frame n (\<lambda>x. x\<lparr>f_prev := pr\<rparr>) s | None \<Rightarrow> s\<lparr>lru_tail := pr\<rparr>)
      in upd_frame f (\<lambda>x. x\<lparr>f_prev := None, f_next := None\<rparr>) s)"

definition lru_push_front :: "nat \<Rightarrow> shard \<Rightarrow> shard" where
  "lru_push_front f s =
     (let s = upd_frame f (\<lambda>x. x\<lparr>f_prev := None, f_next := lru_head s\<rparr>) s;
          s = (case lru_head s of Some h \<Rightarrow> upd_frame h (\<lambda>x. x\<lparr>f_prev := Some f\<rparr>) s
               | None \<Rightarrow> s\<lparr>lru_tail := Some f\<rparr>)
      in s\<lparr>lru_head := Some f\<rparr>)"

definition lru_push_back :: "nat \<Rightarrow> shard \<Rightarrow> shard" where
  "lru_push_back f s =
     (let s = upd_frame f (\<lambda>x. x\<lparr>f_next := None, f_prev := lru_tail s\<rparr>) s;
          s = (case lru_tail s of Some t \<Rightarrow> upd_frame t (\<lambda>x. x\<lparr>f_next := Some f\<rparr>) s
               | None \<Rightarrow> s\<lparr>lru_head := Some f\<rparr>)
      in s\<lparr>lru_tail := Some f\<rparr>)"

definition new_frame :: "shard \<Rightarrow> nat \<times> shard" where
  "new_frame s =
     (let f = length (frames s);
          s = s\<lparr>frames := frames s @ [new_frame_value]\<rparr>
      in (f, lru_push_front f s))"

text \<open>
  The frames a walk over \<^verbatim>\<open>prev\<close> from the tail visits. The list holds every frame once, so as
  many steps as there are frames reach its end.
\<close>

fun lru_walk :: "nat \<Rightarrow> shard \<Rightarrow> nat option \<Rightarrow> nat list" where
  "lru_walk 0 s p = []"
| "lru_walk (Suc n) s None = []"
| "lru_walk (Suc n) s (Some f) = f # lru_walk n s (f_prev (frames s ! f))"

definition from_tail :: "shard \<Rightarrow> nat list" where
  "from_tail s = lru_walk (length (frames s)) s (lru_tail s)"

section \<open>Frames\<close>

type_synonym 'd cache_state = "cache \<times> 'd"

definition on_dev :: "('d, 'a) op \<Rightarrow> ('d cache_state, 'a) op" where
  "on_dev = zoomE snd (\<lambda>d s. (fst s, d))"

definition upd_shard :: "nat \<Rightarrow> (shard \<Rightarrow> shard) \<Rightarrow> cache \<Rightarrow> cache" where
  "upd_shard k g c = c\<lparr>shards := (shards c)[k := g (shards c ! k)]\<rparr>"

definition in_shard :: "nat \<Rightarrow> (shard \<Rightarrow> shard) \<Rightarrow> ('d cache_state, unit) op" where
  "in_shard k g = modE (\<lambda>(c, d). (upd_shard k g c, d))"

definition the_frame :: "nat \<Rightarrow> nat \<Rightarrow> cache \<Rightarrow> frame" where
  "the_frame k f c = frames (shards c ! k) ! f"

text \<open>The loop of \<^verbatim>\<open>take_frame\<close>: the first frame that can be reused at once, and the first
  dirty one that may be written.\<close>

fun pick_victim :: "u64 \<Rightarrow> shard \<Rightarrow> nat option \<Rightarrow> nat list \<Rightarrow> nat option \<times> nat option" where
  "pick_victim durable s dv [] = (None, dv)"
| "pick_victim durable s dv (f # fs) =
     (let x = frames s ! f in
      if pins x > 0 \<or> in_txn x then pick_victim durable s dv fs
      else if \<not> mapped x \<or> \<not> dirty x then (Some f, dv)
      else pick_victim durable s (if dv = None \<and> f_lsn x \<le> durable then Some f else dv) fs)"

definition take_new :: "nat \<Rightarrow> ('d cache_state, nat) op" where
  "take_new k = (\<lambda>(c, d). case new_frame (shards c ! k) of (f, s) \<Rightarrow> (Ret f, (upd_shard k (\<lambda>_. s) c, d)))"

text \<open>The end of \<^verbatim>\<open>take_frame\<close>: the victim leaves the map.\<close>

definition evict :: "nat \<Rightarrow> nat \<Rightarrow> ('d cache_state, nat) op" where
  "evict k f = (\<lambda>(c, d).
     let x = the_frame k f c in
     if mapped x
     then (Ret f, ((upd_shard k (\<lambda>s. upd_frame f (\<lambda>x. x\<lparr>mapped := False\<rparr>)
             (s\<lparr>smap := (smap s)(f_block_no x := None)\<rparr>)) c)\<lparr>evictions := evictions c + 1\<rparr>, d))
     else (Ret f, (c, d)))"

definition take_frame :: "'d device \<Rightarrow> u64 \<Rightarrow> nat \<Rightarrow> ('d cache_state, nat) op" where
  "take_frame dev durable k = (\<lambda>(c, d).
     let s = shards c ! k in
     if length (frames s) < share s then take_new k (c, d)
     else case pick_victim durable s None (from_tail s) of
       (Some f, _) \<Rightarrow> evict k f (c, d)
     | (None, Some f) \<Rightarrow>
         let x = frames s ! f in
         thenE (on_dev (write_block dev (f_block_no x) (f_data x)))
        (thenE (modE (\<lambda>(c, d). ((upd_shard k (upd_frame f (\<lambda>x. x\<lparr>dirty := False\<rparr>)) c)
            \<lparr>dirty_count := dirty_count c - 1\<rparr>, d)))
         (evict k f)) (c, d)
     | (None, None) \<Rightarrow> take_new k (c, d))"

text \<open>\<^verbatim>\<open>acquire\<close> returns the frame, whether this call loaded it, and whether it newly joined
  the transaction.\<close>

definition acquire :: "'d device \<Rightarrow> u64 \<Rightarrow> u32 \<Rightarrow> bool \<Rightarrow> bool \<Rightarrow> ('d cache_state, nat \<times> bool \<times> bool) op" where
  "acquire dev durable block_no zero_fill join_txn = (\<lambda>(c, d).
     let k = shard_for block_no in
     case smap (shards c ! k) block_no of
       Some f \<Rightarrow>
         let joined = (join_txn \<and> \<not> in_txn (the_frame k f c));
             c = upd_shard k (upd_frame f (\<lambda>x. x\<lparr>pins := pins x + 1\<rparr>)) c;
             c = upd_shard k (\<lambda>s. lru_push_front f (lru_unlink f s)) c;
             c = upd_shard k (upd_frame f (\<lambda>x. x\<lparr>in_txn := in_txn x \<or> join_txn\<rparr>)) c
         in (Ret (f, False, joined), (c\<lparr>hits := hits c + 1\<rparr>, d))
     | None \<Rightarrow>
         bindE (take_frame dev durable k) (\<lambda>f.
         thenE (in_shard k (upd_frame f (\<lambda>x. x\<lparr>f_block_no := block_no, mapped := True, dirty := False,
            in_txn := join_txn, f_lsn := 0, version := 0, pins := 1\<rparr>)))
        (thenE (in_shard k (\<lambda>s. s\<lparr>smap := (smap s)(block_no := Some f)\<rparr>))
        (thenE (in_shard k (\<lambda>s. lru_push_front f (lru_unlink f s)))
        (thenE (in_shard k (upd_frame f (\<lambda>x. x\<lparr>load_failed := False\<rparr>)))
        (thenE (if zero_fill then in_shard k (upd_frame f (\<lambda>x. x\<lparr>f_data := zero_block\<rparr>))
          else cleanupE
            (bindE (on_dev (read_block dev block_no)) (\<lambda>b. in_shard k (upd_frame f (\<lambda>x. x\<lparr>f_data := b\<rparr>))))
            (in_shard k (\<lambda>s. lru_push_back f (lru_unlink f
               (upd_frame f (\<lambda>x. x\<lparr>load_failed := True, mapped := False, in_txn := False, pins := pins x - 1\<rparr>)
               (s\<lparr>smap := (smap s)(block_no := None)\<rparr>))))))
        (retE (f, True, join_txn)))))))
         (c\<lparr>misses := misses c + 1\<rparr>, d))"

definition unpin :: "nat \<Rightarrow> nat \<Rightarrow> ('d cache_state, unit) op" where
  "unpin k f = in_shard k (upd_frame f (\<lambda>x. x\<lparr>pins := pins x - 1\<rparr>))"

definition unreadable :: "u32 \<Rightarrow> exn" where
  "unreadable block_no = RuntimeError (''cache: block '' @ to_string (unat block_no) @ '' could not be read'')"

definition cache_read :: "'d device \<Rightarrow> u64 \<Rightarrow> u32 \<Rightarrow> ('d cache_state, block) op" where
  "cache_read dev durable block_no =
     bindE (acquire dev durable block_no False False) (\<lambda>(f, exclusive, _).
     bindE (getE (\<lambda>(c, d). the_frame (shard_for block_no) f c)) (\<lambda>x.
     thenE (unpin (shard_for block_no) f)
     (if \<not> exclusive \<and> load_failed x then throwE (unreadable block_no) else retE (f_data x))))"

definition finish_modify :: "nat \<Rightarrow> nat \<Rightarrow> bool \<Rightarrow> ('d cache_state, unit) op" where
  "finish_modify k f join = modE (\<lambda>(c, d).
     let x = the_frame k f c;
         fresh_dirty = (\<not> join \<and> \<not> dirty x);
         c = upd_shard k (upd_frame f (\<lambda>x. x\<lparr>version := version x + 1, dirty := dirty x \<or> fresh_dirty,
           pins := pins x - 1\<rparr>)) c
     in (if fresh_dirty then c\<lparr>dirty_count := dirty_count c + 1\<rparr> else c, d))"

text \<open>
  \<^verbatim>\<open>modify\<close> returns whether the frame joined the transaction and, if \<^verbatim>\<open>fn\<close> threw, what: the
  caller learns of the joining through an out parameter even then.
\<close>

definition cache_modify ::
  "'d device \<Rightarrow> u64 \<Rightarrow> u32 \<Rightarrow> bool \<Rightarrow> bool \<Rightarrow> (block, unit) op \<Rightarrow> ('d cache_state, bool \<times> exn option) op" where
  "cache_modify dev durable block_no fresh join fn =
     (let k = shard_for block_no in
      bindE (acquire dev durable block_no fresh join) (\<lambda>(f, exclusive, joined).
      bindE (getE (\<lambda>(c, d). the_frame k f c)) (\<lambda>x.
      if load_failed x then thenE (unpin k f) (throwE (unreadable block_no))
      else
        let start = (if fresh \<and> \<not> exclusive then zero_block else f_data x) in
        case fn start of
          (Ret _, b) \<Rightarrow> thenE (in_shard k (upd_frame f (\<lambda>x. x\<lparr>f_data := b\<rparr>)))
            (thenE (finish_modify k f join) (retE (joined, None)))
        | (Raise e, b) \<Rightarrow> thenE (in_shard k (upd_frame f (\<lambda>x. x\<lparr>f_data := b\<rparr>)))
            (thenE (finish_modify k f join) (retE (joined, Some e)))
        | (Halted h, b) \<Rightarrow> haltE h)))"

definition not_in_txn :: "u32 \<Rightarrow> exn" where
  "not_in_txn block_no = LogicError (''cache: block '' @ to_string (unat block_no) @ '' is not in the running transaction'')"

text \<open>The pin that \<^verbatim>\<open>copy_txn_frame\<close> takes is gone again when it returns.\<close>

definition copy_txn_frame :: "u32 \<Rightarrow> (cache, block) op" where
  "copy_txn_frame block_no = (\<lambda>c.
     let k = shard_for block_no in
     case smap (shards c ! k) block_no of
       None \<Rightarrow> (Raise (not_in_txn block_no), c)
     | Some f \<Rightarrow> if \<not> in_txn (the_frame k f c) then (Raise (not_in_txn block_no), c)
         else (Ret (f_data (the_frame k f c)), c))"

definition commit_frame :: "u32 \<Rightarrow> u64 \<Rightarrow> (cache, unit) op" where
  "commit_frame block_no lsn = (\<lambda>c.
     let k = shard_for block_no in
     case smap (shards c ! k) block_no of
       None \<Rightarrow> (Raise (not_in_txn block_no), c)
     | Some f \<Rightarrow>
         let x = the_frame k f c in
         if \<not> in_txn x then (Raise (not_in_txn block_no), c)
         else
           let c' = upd_shard k (upd_frame f (\<lambda>x. x\<lparr>in_txn := False, f_lsn := lsn,
                  version := version x + 1, dirty := True\<rparr>)) c
           in (Ret (), if dirty x then c' else c'\<lparr>dirty_count := dirty_count c + 1\<rparr>))"

section \<open>Writing back\<close>

record pick =
  p_shard :: nat
  p_frame :: nat
  p_block :: u32
  p_version :: u64

definition may_go :: "u64 \<Rightarrow> frame \<Rightarrow> bool" where
  "may_go durable x = (mapped x \<and> dirty x \<and> \<not> in_txn x \<and> f_lsn x \<le> durable)"

text \<open>The picks of one shard, oldest first, while there is room for \<^term>\<open>room\<close> more.\<close>

definition shard_picks :: "u64 \<Rightarrow> nat \<Rightarrow> nat \<Rightarrow> shard \<Rightarrow> pick list" where
  "shard_picks durable room k s =
     take room (map (\<lambda>f. \<lparr>p_shard = k, p_frame = f, p_block = f_block_no (frames s ! f),
         p_version = version (frames s ! f)\<rparr>)
       (filter (\<lambda>f. may_go durable (frames s ! f)) (from_tail s)))"

definition all_picks :: "u64 \<Rightarrow> nat option \<Rightarrow> cache \<Rightarrow> pick list" where
  "all_picks durable limit c =
     foldl (\<lambda>ps k. ps @ shard_picks durable
        (case limit of None \<Rightarrow> length (frames (shards c ! k)) | Some m \<Rightarrow> m - length ps) k (shards c ! k))
       [] [0..<SHARDS]"

definition pin_pick :: "pick \<Rightarrow> cache \<Rightarrow> cache" where
  "pin_pick p = upd_shard (p_shard p) (upd_frame (p_frame p) (\<lambda>x. x\<lparr>pins := pins x + 1\<rparr>))"

definition unpin_pick :: "pick \<Rightarrow> cache \<Rightarrow> cache" where
  "unpin_pick p = upd_shard (p_shard p) (upd_frame (p_frame p) (\<lambda>x. x\<lparr>pins := pins x - 1\<rparr>))"

definition pick_data :: "cache \<Rightarrow> pick \<Rightarrow> frame" where
  "pick_data c p = the_frame (p_shard p) (p_frame p) c"

definition settle_pick :: "pick \<Rightarrow> cache \<Rightarrow> cache" where
  "settle_pick p c =
     (let x = pick_data c p;
          c' = (if version x = p_version p \<and> dirty x
                then (upd_shard (p_shard p) (upd_frame (p_frame p) (\<lambda>x. x\<lparr>dirty := False\<rparr>)) c)
                   \<lparr>dirty_count := dirty_count c - 1\<rparr>
                else c)
      in unpin_pick p c')"

text \<open>\<^verbatim>\<open>flush_run\<close>: \<^term>\<open>run\<close> are the picks whose bytes are in \<^term>\<open>buf\<close>.\<close>

definition flush_run :: "'d device \<Rightarrow> pick list \<Rightarrow> bytes \<Rightarrow> ('d cache_state, unit) op" where
  "flush_run dev run buf =
     (if run = [] then retE ()
      else thenE (on_dev (write_run dev (p_block (hd run)) buf (of_nat (length run))))
             (modE (\<lambda>(c, d). (fold settle_pick run c, d))))"

text \<open>
  The loop over the sorted picks. When a write throws, the picks not yet settled lose their
  pins and the exception goes on.
\<close>

fun write_back_loop ::
  "'d device \<Rightarrow> u64 \<Rightarrow> pick list \<Rightarrow> bytes \<Rightarrow> nat \<Rightarrow> pick list \<Rightarrow> ('d cache_state, nat) op" where
  "write_back_loop dev durable run buf written [] =
     thenE (cleanupE (flush_run dev run buf) (modE (\<lambda>(c, d). (fold unpin_pick run c, d))))
       (retE (written + length run))"
| "write_back_loop dev durable run buf written (p # ps) =
     (let joins = (run \<noteq> [] \<and> length run < RUN_BLOCKS \<and>
            p_block p = p_block (hd run) + of_nat (length run))
      in
      thenE (whenE (\<not> joins) (cleanupE (flush_run dev run buf)
         (modE (\<lambda>(c, d). (fold unpin_pick (run @ p # ps) c, d)))))
     (bindE (getE (\<lambda>(c, d). pick_data c p)) (\<lambda>x.
        let run1 = (if joins then run else []);
            buf1 = (if joins then buf else []);
            written1 = (if joins then written else written + length run)
        in
        if \<not> in_txn x \<and> f_lsn x \<le> durable
        then write_back_loop dev durable (run1 @ [p]) (buf1 @ f_data x) written1 ps
        else thenE (cleanupE (flush_run dev run1 buf1)
               (modE (\<lambda>(c, d). (fold unpin_pick (run1 @ p # ps) c, d))))
            (thenE (modE (\<lambda>(c, d). (unpin_pick p c, d)))
             (write_back_loop dev durable [] [] (written1 + length run1) ps)))))"

definition write_back :: "'d device \<Rightarrow> u64 \<Rightarrow> nat option \<Rightarrow> ('d cache_state, nat) op" where
  "write_back dev durable limit =
     bindE (getE (\<lambda>(c, d). all_picks durable limit c)) (\<lambda>picks.
     thenE (modE (\<lambda>(c, d). (fold pin_pick picks c, d)))
     (write_back_loop dev durable [] [] 0 (sort_key (\<lambda>p. unat (p_block p)) picks)))"

definition cache_contains :: "u32 \<Rightarrow> cache \<Rightarrow> bool" where
  "cache_contains block_no c = (smap (shards c ! shard_for block_no) block_no \<noteq> None)"

definition cache_reset_stats :: "(cache, unit) op" where
  "cache_reset_stats = modE (\<lambda>c. c\<lparr>hits := 0, misses := 0, evictions := 0\<rparr>)"

end
