(* ===== verification/Lru_List.thy ===== *)
theory Lru_List
  imports Buffer_Cache
begin

text \<open>
  The LRU list of a shard as a list: the frames' \<^verbatim>\<open>prev\<close> and \<^verbatim>\<open>next\<close> pointers represent a list
  of frame numbers, and unlinking a frame or pushing it to either end of the pointers is
  removing it from that list or adding it there.
\<close>

fun first_of :: "nat list \<Rightarrow> nat option \<Rightarrow> nat option" where
  "first_of [] n = n"
| "first_of (x # xs) n = Some x"

definition last_of :: "nat list \<Rightarrow> nat option \<Rightarrow> nat option" where
  "last_of xs p = (if xs = [] then p else Some (last xs))"

text \<open>The frames \<^term>\<open>xs\<close> are linked in this order, between the neighbours \<^term>\<open>p\<close> and \<^term>\<open>n\<close>.\<close>

fun chained :: "frame list \<Rightarrow> nat option \<Rightarrow> nat list \<Rightarrow> nat option \<Rightarrow> bool" where
  "chained fs p [] n = True"
| "chained fs p (x # xs) n \<longleftrightarrow> f_prev (fs ! x) = p \<and> f_next (fs ! x) = first_of xs n \<and> chained fs (Some x) xs n"

definition linked :: "shard \<Rightarrow> nat list \<Rightarrow> bool" where
  "linked s xs \<longleftrightarrow> distinct xs \<and> set xs \<subseteq> {..<length (frames s)} \<and>
     lru_head s = first_of xs None \<and> lru_tail s = last_of xs None \<and> chained (frames s) None xs None"

text \<open>A frame without its links; everything but the links of a shard.\<close>

definition unlinked :: "frame \<Rightarrow> frame" where
  "unlinked x = x\<lparr>f_prev := None, f_next := None\<rparr>"

definition same_frames :: "shard \<Rightarrow> shard \<Rightarrow> bool" where
  "same_frames s s' \<longleftrightarrow> map unlinked (frames s') = map unlinked (frames s) \<and> smap s' = smap s \<and> share s' = share s"

lemma same_frames_refl [simp]: "same_frames s s"
  by (simp add: same_frames_def)

lemma same_frames_trans: "same_frames s s' \<Longrightarrow> same_frames s' s'' \<Longrightarrow> same_frames s s''"
  by (simp add: same_frames_def)

lemma same_frames_length: "same_frames s s' \<Longrightarrow> length (frames s') = length (frames s)"
  by (metis same_frames_def length_map)

lemma same_frames_upd:
  assumes "\<And>x. unlinked (g x) = unlinked x"
  shows "same_frames s (upd_frame i g s)"
  using assms
  by (cases "i < length (frames s)")
     (auto simp: same_frames_def upd_frame_def map_update list_update_same_conv list_update_beyond)

lemma upd_frame_length [simp]: "length (frames (upd_frame i g s)) = length (frames s)"
  by (simp add: upd_frame_def)

lemma upd_frame_fields [simp]:
  "smap (upd_frame i g s) = smap s" "lru_head (upd_frame i g s) = lru_head s"
  "lru_tail (upd_frame i g s) = lru_tail s" "share (upd_frame i g s) = share s"
  by (simp_all add: upd_frame_def)

lemma nth_upd_frame:
  "j < length (frames s) \<Longrightarrow> frames (upd_frame i g s) ! j = (if i = j then g (frames s ! j) else frames s ! j)"
  by (simp add: upd_frame_def nth_list_update)

section \<open>Chains\<close>

lemma last_of_simps [simp]: "last_of [] p = p" "last_of (x # xs) p = last_of xs (Some x)"
  "last_of (xs @ [x]) p = Some x"
  by (simp_all add: last_of_def)

lemma chained_append:
  "chained fs p (xs @ ys) n \<longleftrightarrow> chained fs p xs (first_of ys n) \<and> chained fs (last_of xs p) ys n"
proof (induction xs arbitrary: p)
  case (Cons x xs)
  have "first_of (xs @ ys) n = first_of xs (first_of ys n)" by (cases xs) simp_all
  with Cons show ?case by simp
qed simp

lemma chained_cong:
  "(\<And>x. x \<in> set xs \<Longrightarrow> f_prev (fs' ! x) = f_prev (fs ! x) \<and> f_next (fs' ! x) = f_next (fs ! x)) \<Longrightarrow>
   chained fs' p xs n = chained fs p xs n"
  by (induction xs arbitrary: p) auto

lemma chained_set_next:
  assumes "chained fs p xs n" and "distinct xs" and "set xs \<subseteq> {..<length fs}" and "xs \<noteq> []"
  shows "chained (fs[last xs := (fs ! last xs)\<lparr>f_next := n'\<rparr>]) p xs n'"
proof -
  obtain ys l where xs: "xs = ys @ [l]" using assms(4) by (metis rev_exhaust)
  have l: "l < length fs" "l \<notin> set ys" using assms(2,3) xs by auto
  have "chained (fs[l := (fs ! l)\<lparr>f_next := n'\<rparr>]) p ys (Some l) = chained fs p ys (Some l)"
    by (rule chained_cong) (use l in \<open>auto simp: nth_list_update\<close>)
  with assms(1) l show ?thesis by (simp add: xs chained_append)
qed

lemma chained_set_prev:
  assumes "chained fs p (x # xs) n" and "distinct (x # xs)" and "x < length fs"
  shows "chained (fs[x := (fs ! x)\<lparr>f_prev := p'\<rparr>]) p' (x # xs) n"
proof -
  have "chained (fs[x := (fs ! x)\<lparr>f_prev := p'\<rparr>]) (Some x) xs n = chained fs (Some x) xs n"
    by (rule chained_cong) (use assms in \<open>auto simp: nth_list_update\<close>)
  with assms show ?thesis by simp
qed

lemma chained_other: "i \<notin> set xs \<Longrightarrow> chained (fs[i := y]) p xs n = chained fs p xs n"
  by (rule chained_cong) (metis nth_list_update_neq)

section \<open>The operations on the list\<close>

lemma linked_unlink:
  assumes "linked s (as @ f # bs)"
  shows "linked (lru_unlink f s) (as @ bs)" and "same_frames s (lru_unlink f s)"
proof -
  let ?fs = "frames s"
  have d: "distinct (as @ f # bs)" and sub: "set (as @ f # bs) \<subseteq> {..<length ?fs}"
    and hd: "lru_head s = first_of (as @ f # bs) None" and tl: "lru_tail s = last_of (as @ f # bs) None"
    and ch: "chained ?fs None as (Some f)" "f_prev (?fs ! f) = last_of as None" "f_next (?fs ! f) = first_of bs None"
      "chained ?fs (Some f) bs None"
    using assms by (simp_all add: linked_def chained_append)
  define s1 where "s1 = (case last_of as None of Some p \<Rightarrow> upd_frame p (\<lambda>x. x\<lparr>f_next := first_of bs None\<rparr>) s
      | None \<Rightarrow> s\<lparr>lru_head := first_of bs None\<rparr>)"
  define s2 where "s2 = (case first_of bs None of Some n \<Rightarrow> upd_frame n (\<lambda>x. x\<lparr>f_prev := last_of as None\<rparr>) s1
      | None \<Rightarrow> s1\<lparr>lru_tail := last_of as None\<rparr>)"
  have un: "lru_unlink f s = upd_frame f (\<lambda>x. x\<lparr>f_prev := None, f_next := None\<rparr>) s2"
    unfolding lru_unlink_def Let_def ch s2_def s1_def ..
  have f: "f \<notin> set as" "f \<notin> set bs" "set as \<inter> set bs = {}" "distinct as" "distinct bs" using d by auto
  have s1: "same_frames s s1" "chained (frames s1) None as (first_of bs None)" "chained (frames s1) (Some f) bs None"
    "lru_head s1 = first_of (as @ bs) None" "lru_tail s1 = lru_tail s"
  proof -
    show "same_frames s s1"
    proof (cases "last_of as None")
      case None
      then show ?thesis by (simp add: s1_def same_frames_def)
    next
      case (Some p)
      show ?thesis unfolding s1_def Some by (simp add: same_frames_upd unlinked_def)
    qed
    show "chained (frames s1) None as (first_of bs None)"
    proof (cases "as = []")
      case False
      then have "chained (?fs[last as := (?fs ! last as)\<lparr>f_next := first_of bs None\<rparr>]) None as (first_of bs None)"
        using ch(1) f sub by (intro chained_set_next [where n = "Some f"]) auto
      with False show ?thesis by (simp add: s1_def last_of_def upd_frame_def)
    qed simp
    show "chained (frames s1) (Some f) bs None"
    proof (cases "as = []")
      case False
      then have "last as \<notin> set bs" using f(3) by (meson disjoint_iff last_in_set)
      then show ?thesis using ch(4) False by (simp add: s1_def last_of_def upd_frame_def chained_other)
    qed (use ch(4) in \<open>simp add: s1_def\<close>)
    show "lru_head s1 = first_of (as @ bs) None"
      using hd by (cases as) (simp_all add: s1_def last_of_def)
    show "lru_tail s1 = lru_tail s" by (simp add: s1_def split: option.split)
  qed
  have len1: "length (frames s1) = length ?fs" using s1(1) by (rule same_frames_length)
  have s2: "same_frames s s2" "chained (frames s2) None (as @ bs) None" "lru_head s2 = first_of (as @ bs) None"
    "lru_tail s2 = last_of (as @ bs) None"
  proof -
    have "same_frames s1 s2"
    proof (cases "first_of bs None")
      case None
      then show ?thesis by (simp add: s2_def same_frames_def)
    next
      case (Some n)
      show ?thesis unfolding s2_def Some by (simp add: same_frames_upd unlinked_def)
    qed
    with s1(1) show "same_frames s s2" by (rule same_frames_trans)
    show "chained (frames s2) None (as @ bs) None"
    proof (cases bs)
      case Nil
      with s1(2) show ?thesis by (simp add: s2_def)
    next
      case (Cons b bs')
      have b: "b \<notin> set as" "b < length (frames s1)" using Cons f(3) sub len1 by auto
      have "chained ((frames s1)[b := (frames s1 ! b)\<lparr>f_prev := last_of as None\<rparr>]) (last_of as None) (b # bs') None"
        using s1(3) f(5) b unfolding Cons by (intro chained_set_prev [where p = "Some f"]) auto
      moreover have "chained ((frames s1)[b := y]) None as (Some b)" for y
        using s1(2) b(1) by (simp add: Cons chained_other)
      ultimately show ?thesis using Cons by (simp add: chained_append s2_def upd_frame_def)
    qed
    show "lru_head s2 = first_of (as @ bs) None" using s1(4) by (simp add: s2_def split: option.split)
    show "lru_tail s2 = last_of (as @ bs) None"
      using tl s1(5) by (cases bs) (simp_all add: s2_def last_of_def)
  qed
  have "chained (frames (upd_frame f g s2)) None (as @ bs) None" for g
    using s2(2) f by (simp add: upd_frame_def chained_other)
  moreover have "length (frames s2) = length ?fs" using s2(1) by (rule same_frames_length)
  ultimately show "linked (lru_unlink f s) (as @ bs)"
    using s2 f sub unfolding un by (simp add: linked_def)
  have "same_frames s2 (lru_unlink f s)" unfolding un by (rule same_frames_upd) (simp add: unlinked_def)
  with s2(1) show "same_frames s (lru_unlink f s)" by (rule same_frames_trans)
qed

lemma linked_push_front:
  assumes "linked s xs" and "f \<notin> set xs" and "f < length (frames s)"
  shows "linked (lru_push_front f s) (f # xs)" and "same_frames s (lru_push_front f s)"
proof -
  let ?g = "\<lambda>x. x\<lparr>f_prev := None, f_next := first_of xs None\<rparr>"
  define s1 where "s1 = upd_frame f ?g s"
  have d: "distinct xs" "set xs \<subseteq> {..<length (frames s)}" "lru_head s = first_of xs None"
    "lru_tail s = last_of xs None" "chained (frames s) None xs None"
    using assms(1) by (simp_all add: linked_def)
  have ch1: "chained (frames s1) None xs None"
    using d(5) assms(2) by (simp add: s1_def upd_frame_def chained_other)
  have f1: "f_prev (frames s1 ! f) = None" "f_next (frames s1 ! f) = first_of xs None"
    using assms(3) by (simp_all add: s1_def nth_upd_frame)
  have sf1: "same_frames s s1" unfolding s1_def by (rule same_frames_upd) (simp add: unlinked_def)
  have push: "lru_push_front f s = (case first_of xs None of
      Some h \<Rightarrow> upd_frame h (\<lambda>x. x\<lparr>f_prev := Some f\<rparr>) s1 | None \<Rightarrow> s1\<lparr>lru_tail := Some f\<rparr>)\<lparr>lru_head := Some f\<rparr>"
    unfolding lru_push_front_def Let_def upd_frame_fields d(3) s1_def ..
  show "linked (lru_push_front f s) (f # xs)"
  proof (cases xs)
    case Nil
    then show ?thesis using assms(3) f1 by (simp add: push linked_def) (simp add: s1_def)
  next
    case (Cons h ys)
    have h: "h < length (frames s1)" "h \<noteq> f" using d(2) assms(2) Cons by (auto simp: s1_def)
    have "chained ((frames s1)[h := (frames s1 ! h)\<lparr>f_prev := Some f\<rparr>]) (Some f) (h # ys) None"
      using ch1 d(1) h(1) unfolding Cons by (intro chained_set_prev [where p = None]) auto
    moreover have "(frames s1)[h := y] ! f = frames s1 ! f" for y using h(2) by simp
    moreover have "length (frames s1) = length (frames s)" "lru_tail s1 = last_of xs None"
      by (simp_all add: s1_def d(4))
    ultimately show ?thesis
      using Cons assms(2,3) d(1,2) f1 h(2) by (simp add: push linked_def upd_frame_def last_of_def)
  qed
  show "same_frames s (lru_push_front f s)"
  proof (cases "first_of xs None")
    case None
    with sf1 show ?thesis by (simp add: push same_frames_def)
  next
    case (Some h)
    have "same_frames s1 (upd_frame h (\<lambda>x. x\<lparr>f_prev := Some f\<rparr>) s1)"
      by (rule same_frames_upd) (simp add: unlinked_def)
    with sf1 Some show ?thesis by (simp add: push same_frames_def)
  qed
qed

lemma linked_push_back:
  assumes "linked s xs" and "f \<notin> set xs" and "f < length (frames s)"
  shows "linked (lru_push_back f s) (xs @ [f])" and "same_frames s (lru_push_back f s)"
proof -
  let ?g = "\<lambda>x. x\<lparr>f_next := None, f_prev := last_of xs None\<rparr>"
  define s1 where "s1 = upd_frame f ?g s"
  have d: "distinct xs" "set xs \<subseteq> {..<length (frames s)}" "lru_head s = first_of xs None"
    "lru_tail s = last_of xs None" "chained (frames s) None xs None"
    using assms(1) by (simp_all add: linked_def)
  have ch1: "chained (frames s1) None xs None"
    using d(5) assms(2) by (simp add: s1_def upd_frame_def chained_other)
  have f1: "f_prev (frames s1 ! f) = last_of xs None" "f_next (frames s1 ! f) = None"
    using assms(3) by (simp_all add: s1_def nth_upd_frame)
  have sf1: "same_frames s s1" unfolding s1_def by (rule same_frames_upd) (simp add: unlinked_def)
  have push: "lru_push_back f s = (case last_of xs None of
      Some t \<Rightarrow> upd_frame t (\<lambda>x. x\<lparr>f_next := Some f\<rparr>) s1 | None \<Rightarrow> s1\<lparr>lru_head := Some f\<rparr>)\<lparr>lru_tail := Some f\<rparr>"
    unfolding lru_push_back_def Let_def upd_frame_fields d(4) s1_def ..
  show "linked (lru_push_back f s) (xs @ [f])"
  proof (cases "xs = []")
    case True
    then show ?thesis using assms(3) f1 by (simp add: push linked_def) (simp add: s1_def)
  next
    case False
    then have t: "last xs \<noteq> f" "first_of xs None = Some (hd xs)"
      using assms(2) last_in_set [OF False] by (auto, cases xs) simp_all
    have "chained ((frames s1)[last xs := (frames s1 ! last xs)\<lparr>f_next := Some f\<rparr>]) None xs (Some f)"
      using ch1 d(1,2) False by (intro chained_set_next [where n = None]) (auto simp: s1_def)
    moreover have "(frames s1)[last xs := y] ! f = frames s1 ! f" for y using t(1) by simp
    moreover have "length (frames s1) = length (frames s)" "lru_head s1 = first_of xs None"
      by (simp_all add: s1_def d(3))
    moreover have "first_of (xs @ [f]) None = Some (hd xs)" using False by (cases xs) simp_all
    ultimately show ?thesis
      using False assms(2,3) d(1,2) f1 t
      by (simp add: push linked_def upd_frame_def last_of_def chained_append)
  qed
  show "same_frames s (lru_push_back f s)"
  proof (cases "last_of xs None")
    case None
    with sf1 show ?thesis by (simp add: push same_frames_def)
  next
    case (Some h)
    have "same_frames s1 (upd_frame h (\<lambda>x. x\<lparr>f_next := Some f\<rparr>) s1)"
      by (rule same_frames_upd) (simp add: unlinked_def)
    with sf1 Some show ?thesis by (simp add: push same_frames_def)
  qed
qed

lemma lru_walk_rev:
  "chained (frames s) None xs n \<Longrightarrow> length xs \<le> k \<Longrightarrow> lru_walk k s (last_of xs None) = rev xs"
proof (induction xs arbitrary: n k rule: rev_induct)
  case Nil
  then show ?case by (cases k) simp_all
next
  case (snoc x xs)
  from snoc.prems have "chained (frames s) None xs (Some x)" "f_prev (frames s ! x) = last_of xs None"
    by (simp_all add: chained_append)
  with snoc show ?case by (cases k) simp_all
qed

lemma from_tail_rev:
  assumes "linked s xs"
  shows "from_tail s = rev xs"
proof -
  have "length xs = card (set xs)" using assms by (simp add: linked_def distinct_card)
  also have "\<dots> \<le> card {..<length (frames s)}"
    using assms by (intro card_mono) (simp_all add: linked_def)
  finally have "length xs \<le> length (frames s)" by simp
  with lru_walk_rev [of s xs None] assms show ?thesis by (simp add: linked_def from_tail_def)
qed

text \<open>Using a frame: it moves to the front of the list and the others keep their order.\<close>

lemma linked_touch:
  assumes "linked s xs" and "f \<in> set xs"
  shows "linked (lru_push_front f (lru_unlink f s)) (f # remove1 f xs)"
    and "same_frames s (lru_push_front f (lru_unlink f s))"
proof -
  obtain as bs where xs: "xs = as @ f # bs" "f \<notin> set as" using assms(2) by (metis split_list_first)
  have l: "linked s (as @ f # bs)" using assms(1) xs by simp
  have f: "f \<notin> set (as @ bs)" "f < length (frames s)" using l by (auto simp: linked_def)
  note u = linked_unlink [OF l]
  have f': "f < length (frames (lru_unlink f s))" using f(2) same_frames_length [OF u(2)] by simp
  note p = linked_push_front [OF u(1) f(1) f']
  from p(1) xs show "linked (lru_push_front f (lru_unlink f s)) (f # remove1 f xs)"
    by (simp add: remove1_append)
  show "same_frames s (lru_push_front f (lru_unlink f s))" using u(2) p(2) by (rule same_frames_trans)
qed

lemma linked_retire:
  assumes "linked s xs" and "f \<in> set xs"
  shows "linked (lru_push_back f (lru_unlink f s)) (remove1 f xs @ [f])"
    and "same_frames s (lru_push_back f (lru_unlink f s))"
proof -
  obtain as bs where xs: "xs = as @ f # bs" "f \<notin> set as" using assms(2) by (metis split_list_first)
  have l: "linked s (as @ f # bs)" using assms(1) xs by simp
  have f: "f \<notin> set (as @ bs)" "f < length (frames s)" using l by (auto simp: linked_def)
  note u = linked_unlink [OF l]
  have f': "f < length (frames (lru_unlink f s))" using f(2) same_frames_length [OF u(2)] by simp
  note p = linked_push_back [OF u(1) f(1) f']
  from p(1) xs show "linked (lru_push_back f (lru_unlink f s)) (remove1 f xs @ [f])"
    by (simp add: remove1_append)
  show "same_frames s (lru_push_back f (lru_unlink f s))" using u(2) p(2) by (rule same_frames_trans)
qed

text \<open>
  C37. The pointers of the LRU list implement a list: if they represent \<^term>\<open>xs\<close>, most recently
  used first, then using a frame makes them represent that frame followed by the others in
  their old order, retiring one makes it the last, a walk from the tail visits exactly \<^term>\<open>xs\<close>
  backwards, and nothing but the pointers of the frames changes.
\<close>

theorem lru_pointers_implement_list:
  assumes "linked s xs" and "f \<in> set xs"
  shows "linked (lru_push_front f (lru_unlink f s)) (f # remove1 f xs) \<and>
    linked (lru_push_back f (lru_unlink f s)) (remove1 f xs @ [f]) \<and>
    from_tail s = rev xs \<and>
    same_frames s (lru_push_front f (lru_unlink f s)) \<and> same_frames s (lru_push_back f (lru_unlink f s))"
  using linked_touch [OF assms] linked_retire [OF assms] from_tail_rev [OF assms(1)] by blast

definition two_frames :: shard where
  "two_frames = snd (new_frame (snd (new_frame
     \<lparr>smap = (\<lambda>_. None), lru_head = None, lru_tail = None, frames = [], share = 2\<rparr>)))"

theorem lru_pointers_implement_list_witness:
  "linked two_frames [1, 0] \<and> linked (lru_push_front 0 (lru_unlink 0 two_frames)) [0, 1] \<and>
   from_tail two_frames = [0, 1]"
proof -
  have "linked two_frames [1, 0]"
    by (simp add: two_frames_def new_frame_def lru_push_front_def upd_frame_def linked_def new_frame_value_def)
  from lru_pointers_implement_list [OF this, of 0] this show ?thesis by simp
qed

end
