(* ===== verification/Crash_Device.thy ===== *)
theory Crash_Device
  imports Recovery
begin

text \<open>
  The contract of a disk on which the process may be killed at any write: a write that does not
  return leaves damage only in the blocks it was writing. The cache and the journal rely on
  this contract alone, and the mounted image satisfies it.
\<close>

locale crash_dev =
  fixes D :: "'d device" and live :: "'d \<Rightarrow> bool" and blocks :: "'d \<Rightarrow> u32 \<Rightarrow> block"
    and beside :: "'d \<Rightarrow> 'd \<Rightarrow> bool" and doomed :: "'d \<Rightarrow> bool"
  assumes len: "live d \<Longrightarrow> b < dev_count D \<Longrightarrow> is_block (blocks d b)"
    and read_any: "live d \<Longrightarrow> b < dev_count D \<Longrightarrow>
      \<exists>d'. read_block D b d = (Ret (blocks d b), d') \<and> live d' \<and> blocks d' = blocks d \<and> beside d d'"
    and write_any: "live d \<Longrightarrow> b < dev_count D \<Longrightarrow> is_block x \<Longrightarrow>
      \<exists>r d'. write_block D b x d = (r, d') \<and> live d' \<and> beside d d' \<and>
        (r = Ret () \<and> blocks d' = (blocks d)(b := x) \<or>
         r = Killed \<and> doomed d \<and> (\<forall>b'. b' \<noteq> b \<longrightarrow> blocks d' b' = blocks d b'))"
    and write_many: "live d \<Longrightarrow> unat first + unat n \<le> unat (dev_count D) \<Longrightarrow> 0 < n \<Longrightarrow>
      unat n * BLOCK_SIZE \<le> length data \<Longrightarrow>
      \<exists>r d'. write_run D first data n d = (r, d') \<and> live d' \<and> beside d d' \<and>
        (r = Ret () \<and> blocks d' = run_update (blocks d) first data (unat n) \<or>
         r = Killed \<and> doomed d \<and>
         (\<forall>b'. \<not> (first \<le> b' \<and> unat b' < unat first + unat n) \<longrightarrow> blocks d' b' = blocks d b'))"
    and sync_any: "live d \<Longrightarrow>
      \<exists>d'. dev_sync D d = (Ret (), d') \<and> live d' \<and> blocks d' = blocks d \<and> beside d d'"
    and beside_refl: "beside d d"
    and beside_trans: "beside d d' \<Longrightarrow> beside d' d'' \<Longrightarrow> beside d d''"
    and beside_doomed: "beside d d' \<Longrightarrow> doomed d' = doomed d"

section \<open>The mounted image\<close>

lemma pd_write_run_cases:
  assumes "pd_live d w" and "unat first + unat n \<le> unat (pd_count d)" and "0 < n"
    and "unat n * BLOCK_SIZE \<le> length data"
  shows "\<exists>r w'. pd_write_run d first data n w = (r, w') \<and> pd_live d w' \<and> same_but (pd_fd d) w w' \<and>
    (r = Ret () \<and> pd_blocks d w' = run_update (pd_blocks d w) first data (unat n) \<or>
     r = Killed \<and> fatal (wfault w) \<noteq> 0 \<and>
     (\<forall>b'. \<not> (first \<le> b' \<and> unat b' < unat first + unat n) \<longrightarrow> pd_blocks d w' b' = pd_blocks d w b'))"
proof (cases "fatal (wfault w) = 0")
  case True
  then have ok: "pd_ok d w" using assms(1) by (simp add: pd_ok_live)
  let ?src = "take (unat n * BLOCK_SIZE) data"
  have wr: "pd_write_run d first data n = write_full (pd_fd d) ?src (block_offset first)"
    using assms(2) u64_sum_check [where a = first and n = n and c = "pd_count d"] by (simp add: pd_write_run_def)
  from pd_write_run_ok [OF ok assms(2,4)] obtain w' where
    w': "pd_write_run d first data n w = (Ret (), w')" "pd_ok d w'"
    "pd_blocks d w' = run_update (pd_blocks d w) first data (unat n)" by blast
  have "same_but (pd_fd d) w w'"
    using w'(1) True unfolding wr write_full_def
    by (auto simp: before_write_unarmed [OF True] thenE_def bindE_def on_file_def same_but_def
        split: prod.splits)
  with w' show ?thesis by (auto simp: pd_ok_live)
next
  case armed: False
  let ?src = "take (unat n * BLOCK_SIZE) data"
  let ?f = "wfile w (pd_fd d)"
  have live: "benign ?f" "length (content ?f) = unat (pd_count d) * BLOCK_SIZE"
    using assms(1) by (simp_all add: pd_live_def)
  have len: "length ?src = unat n * BLOCK_SIZE" using assms(4) by simp
  have "(unat first + unat n) * BLOCK_SIZE \<le> unat (pd_count d) * BLOCK_SIZE"
    using assms(2) by (rule mult_le_mono1)
  then have fits: "block_offset first + length ?src \<le> length (content ?f)"
    using live(2) len by (simp add: block_offset_def algebra_simps)
  have ne: "?src \<noteq> []" using len assms(3) by (auto simp: word_less_nat_alt)
  have wr: "pd_write_run d first data n = write_full (pd_fd d) ?src (block_offset first)"
    using assms(2) u64_sum_check [where a = first and n = n and c = "pd_count d"] by (simp add: pd_write_run_def)
  have off: "block_offset first \<le> length (content ?f)" using fits by simp
  obtain r w1 where bw: "before_write (pd_fd d) ?src (block_offset first) w = (r, w1)" by fastforce
  from before_write_outcome [OF bw] show ?thesis
  proof
    assume r: "r = Ret ()"
    then have w1: "wfile w1 = wfile w" "same_but (pd_fd d) w w1"
      using bw by (auto simp: before_write_def Let_def same_but_def split: if_splits)
    define w0 where "w0 = w1\<lparr>wfault := (wfault w1)\<lparr>fatal := 0\<rparr>\<rparr>"
    have ok0: "pd_ok d w0" using live w1(1) by (simp add: w0_def pd_ok_def)
    obtain f' where f': "write_full_loop ?src (block_offset first) ?f = (Ret (), f')" "benign f'"
      "content f' = store_bytes (block_offset first) ?src (content ?f)"
      using write_full_loop_ok [OF live(1) off] by blast
    let ?w = "w1\<lparr>wfile := (wfile w1)(pd_fd d := f')\<rparr>"
    have run: "pd_write_run d first data n w = (Ret (), ?w)"
      unfolding wr write_full_def thenE_Ret [where m = "before_write (pd_fd d) ?src (block_offset first)", OF bw [unfolded r]]
        on_file_def w1(1) using f'(1) by simp
    from pd_write_run_ok [OF ok0 assms(2,4)] obtain w2 where
      w2: "pd_write_run d first data n w0 = (Ret (), w2)"
      "pd_blocks d w2 = run_update (pd_blocks d w0) first data (unat n)" by blast
    have "wfile w2 (pd_fd d) = f'"
      using w2(1) f'(1) w1(1) unfolding wr write_full_def
      by (auto simp: before_write_unarmed w0_def thenE_def bindE_def on_file_def)
    then have blocks: "pd_blocks d ?w = pd_blocks d w2" by (simp add: pd_blocks_def fun_eq_iff)
    have b0: "pd_blocks d w0 = pd_blocks d w" by (simp add: pd_blocks_def fun_eq_iff w0_def w1(1))
    have "pd_live d ?w" using f'(2,3) fits live(2) by (simp add: pd_live_def)
    moreover have "same_but (pd_fd d) w ?w" using w1 by (simp add: same_but_def)
    ultimately show ?thesis using run blocks b0 w2(2) by auto
  next
    assume r: "r = Killed"
    with bw have bw': "before_write (pd_fd d) ?src (block_offset first) w = (Killed, w1)" by simp
    from before_write_sector [OF bw' ne live(1) off] obtain keep where
      keep: "keep < length ?src" "benign (wfile w1 (pd_fd d))"
      "content (wfile w1 (pd_fd d)) = store_bytes (block_offset first) (take keep ?src) (content ?f)"
      "same_but (pd_fd d) w w1" by (elim exE conjE)
    have inside: "block_offset first + length (take keep ?src) \<le> length (content ?f)"
    proof -
      have "length (take keep ?src) \<le> length ?src" by simp
      with fits show ?thesis by linarith
    qed
    have c: "content (wfile w1 (pd_fd d)) = put_at (block_offset first) (take keep ?src) (content ?f)"
      unfolding keep(3) by (rule store_bytes_inside) (use inside in simp)
    have "pd_blocks d w1 b' = pd_blocks d w b'"
      if "\<not> (first \<le> b' \<and> unat b' < unat first + unat n)" for b'
    proof -
      have "unat b' < unat first \<or> unat first + unat n \<le> unat b'" using that by (auto simp: word_le_nat_alt)
      then have "Suc (unat b') * BLOCK_SIZE \<le> unat first * BLOCK_SIZE \<or>
          (unat first + unat n) * BLOCK_SIZE \<le> unat b' * BLOCK_SIZE"
        by (meson Suc_leI mult_le_mono1)
      then have "block_offset b' + BLOCK_SIZE \<le> block_offset first \<or>
          block_offset first + length (take keep ?src) \<le> block_offset b'"
        using len keep(1) by (auto simp: block_offset_def algebra_simps)
      then show ?thesis
        unfolding pd_blocks_def c using inside by (intro get_at_put_at_disjoint) auto
    qed
    moreover have "pd_live d w1"
      using keep(2) live(2) length_put_at [OF inside] unfolding pd_live_def c by simp
    moreover have "pd_write_run d first data n w = (Killed, w1)" using bw' by (simp add: wr write_full_def)
    ultimately show ?thesis using keep(4) armed by blast
  qed
qed

definition disk_live :: "pread_dev \<Rightarrow> disk \<Rightarrow> bool" where
  "disk_live d ds = pd_live d (inner ds)"

definition disk_blocks :: "pread_dev \<Rightarrow> disk \<Rightarrow> u32 \<Rightarrow> block" where
  "disk_blocks d ds = pd_blocks d (inner ds)"

definition disk_beside :: "pread_dev \<Rightarrow> disk \<Rightarrow> disk \<Rightarrow> bool" where
  "disk_beside d ds ds' = same_but (pd_fd d) (inner ds) (inner ds')"

definition disk_doomed :: "disk \<Rightarrow> bool" where
  "disk_doomed ds \<longleftrightarrow> fatal (wfault (inner ds)) \<noteq> 0"

lemma pd_read_live:
  assumes "pd_live d w" and "b < pd_count d"
  shows "\<exists>w'. pd_read_block d b w = (Ret (pd_blocks d w b), w') \<and> pd_live d w' \<and>
    pd_blocks d w' = pd_blocks d w \<and> same_but (pd_fd d) w w'"
proof -
  have fits: "block_offset b + BLOCK_SIZE \<le> length (content (wfile w (pd_fd d)))"
    using block_in_range [OF assms(2)] assms(1) by (simp add: pd_live_def)
  obtain f' where f': "read_full_loop [] (block_offset b) (wfile w (pd_fd d)) =
      (Ret (pd_blocks d w b), f')" "benign f'" "content f' = content (wfile w (pd_fd d))"
    using read_full_loop_ok [of "wfile w (pd_fd d)" "block_offset b" "[]"] assms(1) fits
    by (auto simp: pd_live_def get_at_def pd_blocks_def)
  with assms leD [of "pd_count d" b] show ?thesis
    by (auto simp: pd_read_block_def read_full_def on_file_def pd_live_def pd_blocks_def fun_eq_iff same_but_def)
qed

interpretation image: crash_dev "disk_of d sy" "disk_live d" "disk_blocks d" "disk_beside d" disk_doomed for d sy
proof
  note defs = disk_of_def instrumented_device_def pread_device_def inst_read_block_def inst_write_block_def
    inst_write_run_def inst_sync_def on_inner_def zoomE_def thenE_def bindE_def
    disk_live_def disk_blocks_def disk_beside_def disk_doomed_def
  fix ds :: disk and b :: u32
  assume live: "disk_live d ds"
  show "b < dev_count (disk_of d sy) \<Longrightarrow> is_block (disk_blocks d ds b)"
    using block_in_range [of b "pd_count d"] live
    by (simp add: is_block_def pd_blocks_def defs pd_live_def)
  show "b < dev_count (disk_of d sy) \<Longrightarrow>
      \<exists>ds'. read_block (disk_of d sy) b ds = (Ret (disk_blocks d ds b), ds') \<and> disk_live d ds' \<and>
        disk_blocks d ds' = disk_blocks d ds \<and> disk_beside d ds ds'"
    using pd_read_live [of d "inner ds" b] live by (auto simp: defs)
  show "\<exists>ds'. dev_sync (disk_of d sy) ds = (Ret (), ds') \<and> disk_live d ds' \<and>
      disk_blocks d ds' = disk_blocks d ds \<and> disk_beside d ds ds'"
    using pd_sync_live [of d "inner ds"] live by (cases sy) (auto simp: defs)
next
  note defs = disk_of_def instrumented_device_def pread_device_def inst_read_block_def inst_write_block_def
    inst_write_run_def inst_sync_def on_inner_def zoomE_def thenE_def bindE_def
    disk_live_def disk_blocks_def disk_beside_def disk_doomed_def
  fix ds :: disk and b :: u32 and x
  assume "disk_live d ds" "b < dev_count (disk_of d sy)" "is_block x"
  then have "pd_live d (inner ds)" "b < pd_count d" "is_block x" by (simp_all add: defs)
  from pd_write_block_cases [OF this] show "\<exists>r ds'. write_block (disk_of d sy) b x ds = (r, ds') \<and>
      disk_live d ds' \<and> disk_beside d ds ds' \<and>
      (r = Ret () \<and> disk_blocks d ds' = (disk_blocks d ds)(b := x) \<or>
       r = Killed \<and> disk_doomed ds \<and> (\<forall>b'. b' \<noteq> b \<longrightarrow> disk_blocks d ds' b' = disk_blocks d ds b'))"
    by (auto simp: defs)
next
  note defs = disk_of_def instrumented_device_def pread_device_def
    inst_write_run_def on_inner_def zoomE_def thenE_def bindE_def
    disk_live_def disk_blocks_def disk_beside_def disk_doomed_def
  fix ds :: disk and first n :: u32 and data :: bytes
  assume "disk_live d ds" "unat first + unat n \<le> unat (dev_count (disk_of d sy))" "0 < n"
    "unat n * BLOCK_SIZE \<le> length data"
  then have "pd_live d (inner ds)" "unat first + unat n \<le> unat (pd_count d)" "0 < n"
    "unat n * BLOCK_SIZE \<le> length data" by (simp_all add: defs)
  from pd_write_run_cases [OF this] show "\<exists>r ds'. write_run (disk_of d sy) first data n ds = (r, ds') \<and>
      disk_live d ds' \<and> disk_beside d ds ds' \<and>
      (r = Ret () \<and> disk_blocks d ds' = run_update (disk_blocks d ds) first data (unat n) \<or>
       r = Killed \<and> disk_doomed ds \<and>
       (\<forall>b'. \<not> (first \<le> b' \<and> unat b' < unat first + unat n) \<longrightarrow> disk_blocks d ds' b' = disk_blocks d ds b'))"
    by (auto simp: defs)
qed (auto simp: disk_beside_def disk_doomed_def same_but_def)

end
