(* ===== verification/Cache_Frames.thy ===== *)
theory Cache_Frames
  imports Lru_List
begin

text \<open>
  What a shard of the cache stands for: \<^verbatim>\<open>sview\<close> gives the bytes and the state it holds for a
  block number. \<^verbatim>\<open>shard_inv\<close> is the invariant of its map, its frames and its LRU list; the
  steps the cache's operations are made of keep it.
\<close>

type_synonym entry = "block \<times> bool \<times> bool \<times> u64"

definition ent :: "frame \<Rightarrow> entry" where
  "ent x = (f_data x, dirty x, in_txn x, f_lsn x)"

definition sview :: "shard \<Rightarrow> u32 \<Rightarrow> entry option" where
  "sview s b = map_option (\<lambda>f. ent (frames s ! f)) (smap s b)"

definition map_ok :: "shard \<Rightarrow> bool" where
  "map_ok s \<longleftrightarrow>
     (\<forall>b i. smap s b = Some i \<longrightarrow>
        i < length (frames s) \<and> mapped (frames s ! i) \<and> f_block_no (frames s ! i) = b) \<and>
     (\<forall>i < length (frames s). mapped (frames s ! i) \<longrightarrow> smap s (f_block_no (frames s ! i)) = Some i)"

lemma map_okD:
  assumes "map_ok s" and "smap s b = Some i"
  shows "i < length (frames s)" "mapped (frames s ! i)" "f_block_no (frames s ! i) = b"
  using assms by (simp_all add: map_ok_def)

lemma map_okI:
  assumes "\<And>b i. smap s b = Some i \<Longrightarrow> i < length (frames s) \<and> mapped (frames s ! i) \<and> f_block_no (frames s ! i) = b"
    and "\<And>i. i < length (frames s) \<Longrightarrow> mapped (frames s ! i) \<Longrightarrow> smap s (f_block_no (frames s ! i)) = Some i"
  shows "map_ok s"
  using assms by (simp add: map_ok_def)

lemma map_ok_find:
  "map_ok s \<Longrightarrow> i < length (frames s) \<Longrightarrow> mapped (frames s ! i) \<Longrightarrow> smap s (f_block_no (frames s ! i)) = Some i"
  by (simp add: map_ok_def)

definition frames_ok :: "u32 \<Rightarrow> nat \<Rightarrow> shard \<Rightarrow> bool" where
  "frames_ok n k s \<longleftrightarrow> (\<forall>i < length (frames s). is_block (f_data (frames s ! i)) \<and>
     (mapped (frames s ! i) \<longrightarrow> shard_for (f_block_no (frames s ! i)) = k \<and>
        f_block_no (frames s ! i) \<noteq> 0 \<and> f_block_no (frames s ! i) < n))"

definition whole_list :: "shard \<Rightarrow> bool" where
  "whole_list s \<longleftrightarrow> (\<exists>xs. linked s xs \<and> set xs = {..<length (frames s)})"

definition shard_inv :: "u32 \<Rightarrow> nat \<Rightarrow> shard \<Rightarrow> bool" where
  "shard_inv n k s \<longleftrightarrow> whole_list s \<and> map_ok s \<and> frames_ok n k s"

text \<open>No frame but \<^term>\<open>E\<close>, which is being loaded, holds the mark of a failed load.\<close>

definition loaded :: "nat set \<Rightarrow> shard \<Rightarrow> bool" where
  "loaded E s \<longleftrightarrow> (\<forall>i < length (frames s). mapped (frames s ! i) \<and> i \<notin> E \<longrightarrow> \<not> load_failed (frames s ! i))"

section \<open>Changes that keep the frames\<close>

lemma same_frames_nth:
  assumes "same_frames s s'" and "i < length (frames s)"
  shows "unlinked (frames s' ! i) = unlinked (frames s ! i)"
proof -
  have "map unlinked (frames s') ! i = map unlinked (frames s) ! i" using assms(1) by (simp add: same_frames_def)
  with assms same_frames_length [OF assms(1)] show ?thesis by simp
qed

lemma unlinked_fields:
  assumes "unlinked x = unlinked y"
  shows "ent x = ent y" "mapped x = mapped y" "f_block_no x = f_block_no y" "f_data x = f_data y"
    "load_failed x = load_failed y" "in_txn x = in_txn y" "dirty x = dirty y" "pins x = pins y" "version x = version y"
  using assms by (cases x; cases y; simp add: unlinked_def ent_def)+

lemma shard_inv_cong:
  assumes "shard_inv n k s" and "whole_list s'" and "length (frames s') = length (frames s)" and "smap s' = smap s"
    and "\<And>i. i < length (frames s) \<Longrightarrow> mapped (frames s' ! i) = mapped (frames s ! i)"
    and "\<And>i. i < length (frames s) \<Longrightarrow> mapped (frames s ! i) \<Longrightarrow> f_block_no (frames s' ! i) = f_block_no (frames s ! i)"
    and "\<And>i. i < length (frames s) \<Longrightarrow> is_block (f_data (frames s' ! i))"
  shows "shard_inv n k s'"
proof -
  have io: "map_ok s" "frames_ok n k s" using assms(1) by (simp_all add: shard_inv_def)
  have "map_ok s'"
  proof (rule map_okI)
    fix b i assume "smap s' b = Some i"
    with assms(4) have "smap s b = Some i" by simp
    note i = map_okD [OF io(1) this]
    with assms(3) assms(5,6) [OF i(1)] show "i < length (frames s') \<and> mapped (frames s' ! i) \<and> f_block_no (frames s' ! i) = b"
      by simp
  next
    fix i assume "i < length (frames s')" "mapped (frames s' ! i)"
    with assms(3,5) have i: "i < length (frames s)" "mapped (frames s ! i)" by simp_all
    with map_ok_find [OF io(1) i] assms(4,6) show "smap s' (f_block_no (frames s' ! i)) = Some i" by simp
  qed
  moreover have "frames_ok n k s'"
    using io(2) assms(3,5-7) by (simp add: frames_ok_def)
  ultimately show ?thesis using assms(2) by (simp add: shard_inv_def)
qed

lemma sview_cong:
  assumes "map_ok s" and "smap s' = smap s"
    and "\<And>i. i < length (frames s) \<Longrightarrow> ent (frames s' ! i) = ent (frames s ! i)"
  shows "sview s' = sview s"
proof
  fix b
  show "sview s' b = sview s b"
  proof (cases "smap s b")
    case (Some i)
    from map_okD(1) [OF assms(1) this] Some assms(2,3) show ?thesis by (simp add: sview_def)
  qed (simp add: sview_def assms(2))
qed

lemma shard_inv_same_frames:
  assumes "shard_inv n k s" and "same_frames s s'" and "whole_list s'"
  shows "shard_inv n k s'" and "sview s' = sview s" and "loaded E s' = loaded E s"
proof -
  note len = same_frames_length [OF assms(2)]
  note nth = same_frames_nth [OF assms(2)]
  note flds = unlinked_fields [OF nth]
  have sm: "smap s' = smap s" using assms(2) by (simp add: same_frames_def)
  have fo: "frames_ok n k s" "map_ok s" using assms(1) by (simp_all add: shard_inv_def)
  show "shard_inv n k s'"
    using assms(1,3) len sm
  proof (rule shard_inv_cong)
    fix i assume i: "i < length (frames s)"
    show "mapped (frames s' ! i) = mapped (frames s ! i)" "f_block_no (frames s' ! i) = f_block_no (frames s ! i)"
      by (rule flds(2,3) [OF i])+
    show "is_block (f_data (frames s' ! i))" using fo(1) i flds(4) [OF i] by (simp add: frames_ok_def)
  qed
  show "sview s' = sview s" by (rule sview_cong [OF fo(2) sm flds(1)])
  show "loaded E s' = loaded E s" using len flds by (auto simp: loaded_def)
qed

lemma whole_list_touch:
  assumes "whole_list s" and "f < length (frames s)"
  shows "whole_list (lru_push_front f (lru_unlink f s))" and "same_frames s (lru_push_front f (lru_unlink f s))"
proof -
  obtain xs where xs: "linked s xs" "set xs = {..<length (frames s)}" using assms(1) by (auto simp: whole_list_def)
  with assms(2) have f: "f \<in> set xs" by simp
  note t = linked_touch [OF xs(1) f]
  have "set (f # remove1 f xs) = set xs"
    using xs(1) f by (auto simp: linked_def set_remove1_eq)
  with t xs(2) same_frames_length [OF t(2)] show "whole_list (lru_push_front f (lru_unlink f s))"
    unfolding whole_list_def by metis
  show "same_frames s (lru_push_front f (lru_unlink f s))" by (rule t(2))
qed

lemma touch_ok:
  assumes "shard_inv n k s" and "f < length (frames s)"
  shows "shard_inv n k (lru_push_front f (lru_unlink f s))" and "sview (lru_push_front f (lru_unlink f s)) = sview s"
    and "loaded E (lru_push_front f (lru_unlink f s)) = loaded E s"
    and "length (frames (lru_push_front f (lru_unlink f s))) = length (frames s)"
    and "\<And>i. i < length (frames s) \<Longrightarrow> unlinked (frames (lru_push_front f (lru_unlink f s)) ! i) = unlinked (frames s ! i)"
    and "smap (lru_push_front f (lru_unlink f s)) = smap s"
proof -
  have w: "whole_list s" using assms(1) by (simp add: shard_inv_def)
  note t = whole_list_touch [OF w assms(2)]
  show "shard_inv n k (lru_push_front f (lru_unlink f s))" "sview (lru_push_front f (lru_unlink f s)) = sview s"
    "loaded E (lru_push_front f (lru_unlink f s)) = loaded E s"
    by (rule shard_inv_same_frames [OF assms(1) t(2,1)])+
  show "length (frames (lru_push_front f (lru_unlink f s))) = length (frames s)" by (rule same_frames_length [OF t(2)])
  show "\<And>i. i < length (frames s) \<Longrightarrow> unlinked (frames (lru_push_front f (lru_unlink f s)) ! i) = unlinked (frames s ! i)"
    by (rule same_frames_nth [OF t(2)])
  show "smap (lru_push_front f (lru_unlink f s)) = smap s" using t(2) by (simp add: same_frames_def)
qed

definition keeps_links :: "(frame \<Rightarrow> frame) \<Rightarrow> bool" where
  "keeps_links g \<longleftrightarrow> (\<forall>x. f_prev (g x) = f_prev x \<and> f_next (g x) = f_next x)"

lemma linked_upd:
  assumes "keeps_links g"
  shows "linked (upd_frame i g s) xs = linked s xs"
proof -
  have "chained (frames (upd_frame i g s)) None xs None = chained (frames s) None xs None"
    if "set xs \<subseteq> {..<length (frames s)}"
    by (rule chained_cong) (use that assms in \<open>auto simp: nth_upd_frame keeps_links_def\<close>)
  then show ?thesis by (auto simp: linked_def)
qed

lemma whole_list_upd: "keeps_links g \<Longrightarrow> whole_list (upd_frame i g s) = whole_list s"
  by (simp add: whole_list_def linked_upd)

text \<open>Changing a mapped frame in place.\<close>

lemma upd_mapped_ok:
  assumes "shard_inv n k s" and "smap s b = Some f" and "keeps_links g"
    and "mapped (g (frames s ! f)) \<and> f_block_no (g (frames s ! f)) = b \<and> is_block (f_data (g (frames s ! f)))"
  shows "shard_inv n k (upd_frame f g s)"
    and "sview (upd_frame f g s) = (sview s)(b := Some (ent (g (frames s ! f))))"
proof -
  have mo: "map_ok s" "frames_ok n k s" "whole_list s" using assms(1) by (simp_all add: shard_inv_def)
  note f = map_okD [OF mo(1) assms(2)]
  show "shard_inv n k (upd_frame f g s)"
  proof (rule shard_inv_cong [OF assms(1)])
    show "whole_list (upd_frame f g s)" using mo(3) by (simp add: whole_list_upd assms(3))
    fix i assume i: "i < length (frames s)"
    show "mapped (frames (upd_frame f g s) ! i) = mapped (frames s ! i)"
      "f_block_no (frames (upd_frame f g s) ! i) = f_block_no (frames s ! i)"
      "is_block (f_data (frames (upd_frame f g s) ! i))"
      using i f assms(4) mo(2) by (cases "f = i"; simp add: nth_upd_frame frames_ok_def)+
  qed simp_all
  show "sview (upd_frame f g s) = (sview s)(b := Some (ent (g (frames s ! f))))"
  proof
    fix b'
    show "sview (upd_frame f g s) b' = ((sview s)(b := Some (ent (g (frames s ! f))))) b'"
    proof (cases "smap s b'")
      case None
      with assms(2) show ?thesis by (auto simp: sview_def)
    next
      case (Some i)
      note i = map_okD [OF mo(1) Some]
      show ?thesis
      proof (cases "b' = b")
        case True
        with Some assms(2) f show ?thesis by (simp add: sview_def nth_upd_frame)
      next
        case False
        then have "i \<noteq> f" using i f by auto
        with Some i False show ?thesis by (simp add: sview_def nth_upd_frame)
      qed
    qed
  qed
qed

text \<open>A change of a frame that leaves what it holds.\<close>

definition keeps_entry :: "(frame \<Rightarrow> frame) \<Rightarrow> bool" where
  "keeps_entry g \<longleftrightarrow> (\<forall>x. ent (g x) = ent x \<and> mapped (g x) = mapped x \<and> f_block_no (g x) = f_block_no x \<and>
     load_failed (g x) = load_failed x)"

lemma upd_kept_ok:
  assumes "shard_inv n k s" and "keeps_links g" and "keeps_entry g"
  shows "shard_inv n k (upd_frame f g s)" and "sview (upd_frame f g s) = sview s"
    and "loaded E (upd_frame f g s) = loaded E s"
proof -
  have k: "ent (g x) = ent x" "mapped (g x) = mapped x" "f_block_no (g x) = f_block_no x" "f_data (g x) = f_data x" for x
    using assms(3) by (simp_all add: keeps_entry_def ent_def)
  have mo: "map_ok s" "frames_ok n k s" "whole_list s" using assms(1) by (simp_all add: shard_inv_def)
  show "shard_inv n k (upd_frame f g s)"
  proof (rule shard_inv_cong [OF assms(1)])
    show "whole_list (upd_frame f g s)" using mo(3) by (simp add: whole_list_upd assms(2))
    fix i assume i: "i < length (frames s)"
    show "mapped (frames (upd_frame f g s) ! i) = mapped (frames s ! i)"
      "f_block_no (frames (upd_frame f g s) ! i) = f_block_no (frames s ! i)"
      "is_block (f_data (frames (upd_frame f g s) ! i))"
      using i k mo(2) by (simp_all add: nth_upd_frame frames_ok_def)
  qed simp_all
  show "sview (upd_frame f g s) = sview s"
    by (rule sview_cong [OF mo(1)]) (simp_all add: nth_upd_frame k)
  show "loaded E (upd_frame f g s) = loaded E s"
    using assms(3) by (auto simp: loaded_def nth_upd_frame keeps_entry_def split: if_splits)
qed

lemma loaded_upd:
  assumes "loaded E s" and "\<not> load_failed (g (frames s ! f)) \<or> f \<in> E'" and "E \<subseteq> insert f E'"
  shows "loaded E' (upd_frame f g s)"
  unfolding loaded_def
proof (intro allI impI)
  fix i assume i: "i < length (frames (upd_frame f g s))"
    and m: "mapped (frames (upd_frame f g s) ! i) \<and> i \<notin> E'"
  show "\<not> load_failed (frames (upd_frame f g s) ! i)"
  proof (cases "f = i")
    case True
    with assms(2) i m show ?thesis by (simp add: nth_upd_frame)
  next
    case False
    then have "i \<notin> E" using m assms(3) by auto
    with False assms(1) i m show ?thesis by (simp add: loaded_def nth_upd_frame)
  qed
qed

section \<open>Eviction, new frames, and loading a frame\<close>

definition unmap_frame :: "nat \<Rightarrow> shard \<Rightarrow> shard" where
  "unmap_frame f s =
     upd_frame f (\<lambda>x. x\<lparr>mapped := False\<rparr>) (s\<lparr>smap := (smap s)(f_block_no (frames s ! f) := None)\<rparr>)"

lemma unmap_frame_nth:
  "i < length (frames s) \<Longrightarrow> frames (unmap_frame f s) ! i =
     (if f = i then (frames s ! i)\<lparr>mapped := False\<rparr> else frames s ! i)"
  "length (frames (unmap_frame f s)) = length (frames s)"
  "smap (unmap_frame f s) = (smap s)(f_block_no (frames s ! f) := None)"
  by (simp_all add: unmap_frame_def upd_frame_def nth_list_update)

lemma map_ok_unmap:
  assumes "map_ok s" and "f < length (frames s)" and "mapped (frames s ! f)"
  shows "map_ok (unmap_frame f s)"
proof (rule map_okI)
  fix b i assume "smap (unmap_frame f s) b = Some i"
  then have b: "smap s b = Some i" "b \<noteq> f_block_no (frames s ! f)"
    by (simp_all add: unmap_frame_nth split: if_splits)
  note i = map_okD [OF assms(1) b(1)]
  with b(2) have "f \<noteq> i" by auto
  with i show "i < length (frames (unmap_frame f s)) \<and> mapped (frames (unmap_frame f s) ! i) \<and>
      f_block_no (frames (unmap_frame f s) ! i) = b"
    by (simp add: unmap_frame_nth)
next
  fix i assume "i < length (frames (unmap_frame f s))" "mapped (frames (unmap_frame f s) ! i)"
  then have i: "i < length (frames s)" "f \<noteq> i" "mapped (frames s ! i)"
    by (simp_all add: unmap_frame_nth split: if_splits)
  have "f_block_no (frames s ! i) \<noteq> f_block_no (frames s ! f)"
    using map_ok_find [OF assms(1) i(1,3)] map_ok_find [OF assms] i(2) by auto
  with map_ok_find [OF assms(1) i(1,3)] i show
    "smap (unmap_frame f s) (f_block_no (frames (unmap_frame f s) ! i)) = Some i"
    by (simp add: unmap_frame_nth)
qed

lemma unmap_ok:
  assumes "shard_inv n k s" and "f < length (frames s)" and "mapped (frames s ! f)"
  shows "shard_inv n k (unmap_frame f s)"
    and "sview (unmap_frame f s) = (sview s)(f_block_no (frames s ! f) := None)"
    and "loaded E s \<Longrightarrow> loaded E (unmap_frame f s)"
proof -
  have mo: "map_ok s" "whole_list s" "frames_ok n k s" using assms(1) by (simp_all add: shard_inv_def)
  have "whole_list (unmap_frame f s) = whole_list (upd_frame f (\<lambda>x. x\<lparr>mapped := False\<rparr>) s)"
    by (simp add: whole_list_def linked_def upd_frame_def unmap_frame_def)
  then have "whole_list (unmap_frame f s)" using mo(2) by (simp add: whole_list_upd keeps_links_def)
  moreover have "frames_ok n k (unmap_frame f s)"
    using mo(3) by (simp add: frames_ok_def unmap_frame_nth)
  ultimately show "shard_inv n k (unmap_frame f s)"
    using map_ok_unmap [OF mo(1) assms(2,3)] by (simp add: shard_inv_def)
  show "sview (unmap_frame f s) = (sview s)(f_block_no (frames s ! f) := None)"
  proof
    fix b
    show "sview (unmap_frame f s) b = ((sview s)(f_block_no (frames s ! f) := None)) b"
    proof (cases "smap s b")
      case (Some i)
      from map_okD [OF mo(1) this] Some show ?thesis by (simp add: sview_def unmap_frame_nth ent_def)
    qed (simp add: sview_def unmap_frame_nth)
  qed
  show "loaded E s \<Longrightarrow> loaded E (unmap_frame f s)"
    by (simp add: loaded_def unmap_frame_nth)
qed

text \<open>The frame \<^verbatim>\<open>new_frame\<close> adds is not in the map, so the shard stands for the same blocks.\<close>

lemma new_frame_frames:
  assumes "whole_list s" and "new_frame s = (f, s')"
  shows "whole_list s'" "f = length (frames s)" "length (frames s') = Suc (length (frames s))" "smap s' = smap s"
    "\<And>i. i < length (frames s) \<Longrightarrow> unlinked (frames s' ! i) = unlinked (frames s ! i)"
    "unlinked (frames s' ! f) = unlinked new_frame_value"
proof -
  let ?s1 = "s\<lparr>frames := frames s @ [new_frame_value]\<rparr>"
  have fs: "f = length (frames s) \<and> s' = lru_push_front (length (frames s)) ?s1"
    using assms(2) [symmetric] unfolding new_frame_def Let_def prod.inject .
  show f: "f = length (frames s)" using fs by (rule conjunct1)
  have s': "s' = lru_push_front f ?s1" unfolding f by (rule conjunct2 [OF fs])
  obtain xs where xs: "linked s xs" "set xs = {..<length (frames s)}" using assms(1) by (auto simp: whole_list_def)
  have "chained (frames s @ [new_frame_value]) None xs None = chained (frames s) None xs None"
    by (rule chained_cong) (use xs(2) in \<open>simp add: nth_append\<close>)
  then have l1: "linked ?s1 xs" using xs(1) by (auto simp: linked_def)
  have "f \<notin> set xs" "f < length (frames ?s1)" using xs(2) f by simp_all
  note p = linked_push_front [OF l1 this]
  show len: "length (frames s') = Suc (length (frames s))" using same_frames_length [OF p(2)] s' by simp
  have "set (f # xs) = {..<length (frames s')}" unfolding len f list.set xs(2) by (rule lessThan_Suc [symmetric])
  with p(1) show "whole_list s'" unfolding whole_list_def s' [symmetric] by (intro exI conjI)
  show "smap s' = smap s" using p(2) s' by (simp add: same_frames_def)
  show "unlinked (frames s' ! i) = unlinked (frames s ! i)" if "i < length (frames s)" for i
    using same_frames_nth [OF p(2), of i] that s' by (simp add: nth_append)
  show "unlinked (frames s' ! f) = unlinked new_frame_value"
    using same_frames_nth [OF p(2), of f] s' f by (simp add: nth_append)
qed

lemma new_frame_ok:
  assumes "shard_inv n k s" and "new_frame s = (f, s')"
  shows "shard_inv n k s'" and "sview s' = sview s" and "loaded E s \<Longrightarrow> loaded E s'"
    and "f < length (frames s')" and "\<not> mapped (frames s' ! f)"
proof -
  have io: "map_ok s" "frames_ok n k s" "whole_list s" using assms(1) by (simp_all add: shard_inv_def)
  note nf = new_frame_frames [OF io(3) assms(2)]
  note old = unlinked_fields [OF nf(5)]
  note new = unlinked_fields [OF nf(6)]
  have nv: "\<not> mapped new_frame_value" "is_block (f_data new_frame_value)" by (simp_all add: new_frame_value_def)
  show fl: "f < length (frames s')" using nf(2,3) by simp
  show m: "\<not> mapped (frames s' ! f)" using new(2) nv by simp
  have cases: "i < length (frames s) \<or> i = f" if "i < length (frames s')" for i using that nf(2,3) by auto
  have "map_ok s'"
  proof (rule map_okI)
    fix b i assume "smap s' b = Some i"
    with nf(4) have "smap s b = Some i" by simp
    note i = map_okD [OF io(1) this]
    then show "i < length (frames s') \<and> mapped (frames s' ! i) \<and> f_block_no (frames s' ! i) = b"
      using old(2,3) [OF i(1)] nf(3) by simp
  next
    fix i assume "i < length (frames s')" "mapped (frames s' ! i)"
    then have i: "i < length (frames s)" using cases m by blast
    with \<open>mapped (frames s' ! i)\<close> show "smap s' (f_block_no (frames s' ! i)) = Some i"
      using map_ok_find [OF io(1) i] old(2,3) [OF i] nf(4) by simp
  qed
  moreover have "frames_ok n k s'"
    unfolding frames_ok_def
  proof (intro allI impI)
    fix i assume "i < length (frames s')"
    from cases [OF this] show "is_block (f_data (frames s' ! i)) \<and> (mapped (frames s' ! i) \<longrightarrow>
      shard_for (f_block_no (frames s' ! i)) = k \<and> f_block_no (frames s' ! i) \<noteq> 0 \<and> f_block_no (frames s' ! i) < n)"
    proof
      assume i: "i < length (frames s)"
      with io(2) old(2-4) [OF i] show ?thesis by (simp add: frames_ok_def)
    next
      assume "i = f"
      then show ?thesis using m new(4) nv(2) by simp
    qed
  qed
  ultimately show "shard_inv n k s'" using nf(1) by (simp add: shard_inv_def)
  show "sview s' = sview s"
  proof
    fix b
    show "sview s' b = sview s b"
    proof (cases "smap s b")
      case (Some i)
      from map_okD(1) [OF io(1) this] Some old(1) nf(4) show ?thesis by (simp add: sview_def)
    qed (simp add: sview_def nf(4))
  qed
  show "loaded E s'" if "loaded E s"
    unfolding loaded_def
  proof (intro allI impI)
    fix i assume i: "i < length (frames s')" "mapped (frames s' ! i) \<and> i \<notin> E"
    then have "i < length (frames s)" using cases m by blast
    with i that old(2,5) show "\<not> load_failed (frames s' ! i)" by (simp add: loaded_def)
  qed
qed

text \<open>What \<^verbatim>\<open>acquire\<close> does with the frame it took, up to the bytes.\<close>

definition enter_frame :: "nat \<Rightarrow> u32 \<Rightarrow> bool \<Rightarrow> shard \<Rightarrow> shard" where
  "enter_frame f b join s =
     (upd_frame f (\<lambda>x. x\<lparr>f_block_no := b, mapped := True, dirty := False, in_txn := join, f_lsn := 0,
        version := 0, pins := 1\<rparr>) s)\<lparr>smap := (smap s)(b := Some f)\<rparr>"

lemma enter_frame_nth:
  "i < length (frames s) \<Longrightarrow> frames (enter_frame f b join s) ! i =
     (if f = i then (frames s ! i)\<lparr>f_block_no := b, mapped := True, dirty := False, in_txn := join, f_lsn := 0,
        version := 0, pins := 1\<rparr> else frames s ! i)"
  "length (frames (enter_frame f b join s)) = length (frames s)"
  "smap (enter_frame f b join s) = (smap s)(b := Some f)"
  by (simp_all add: enter_frame_def upd_frame_def nth_list_update)

lemma map_ok_enter:
  assumes "map_ok s" and "f < length (frames s)" and "\<not> mapped (frames s ! f)" and "smap s b = None"
  shows "map_ok (enter_frame f b join s)"
proof (rule map_okI)
  fix b' i assume i: "smap (enter_frame f b join s) b' = Some i"
  show "i < length (frames (enter_frame f b join s)) \<and> mapped (frames (enter_frame f b join s) ! i) \<and>
      f_block_no (frames (enter_frame f b join s) ! i) = b'"
  proof (cases "b' = b")
    case True
    with i assms(2) show ?thesis by (simp add: enter_frame_nth)
  next
    case False
    with i have "smap s b' = Some i" by (simp add: enter_frame_nth)
    note i = map_okD [OF assms(1) this]
    with assms(3) have "f \<noteq> i" by auto
    with i show ?thesis by (simp add: enter_frame_nth)
  qed
next
  fix i assume i: "i < length (frames (enter_frame f b join s))" "mapped (frames (enter_frame f b join s) ! i)"
  show "smap (enter_frame f b join s) (f_block_no (frames (enter_frame f b join s) ! i)) = Some i"
  proof (cases "f = i")
    case True
    with assms(2) show ?thesis by (simp add: enter_frame_nth)
  next
    case False
    with i have i': "i < length (frames s)" "mapped (frames s ! i)" by (simp_all add: enter_frame_nth)
    with map_ok_find [OF assms(1) this] assms(4) have "f_block_no (frames s ! i) \<noteq> b" by auto
    with map_ok_find [OF assms(1) i'] False i' show ?thesis by (simp add: enter_frame_nth)
  qed
qed

lemma enter_ok:
  assumes "shard_inv n k s" and "f < length (frames s)" and "\<not> mapped (frames s ! f)" and "smap s b = None"
    and "shard_for b = k" and "b \<noteq> 0" and "b < n"
  shows "shard_inv n k (enter_frame f b join s)"
    and "sview (enter_frame f b join s) = (sview s)(b := Some (f_data (frames s ! f), False, join, 0))"
    and "loaded {} s \<Longrightarrow> loaded {f} (enter_frame f b join s)"
proof -
  let ?s = "enter_frame f b join s"
  have io: "map_ok s" "frames_ok n k s" "whole_list s" using assms(1) by (simp_all add: shard_inv_def)
  have "whole_list ?s = whole_list (upd_frame f (\<lambda>x. x\<lparr>f_block_no := b, mapped := True, dirty := False,
      in_txn := join, f_lsn := 0, version := 0, pins := 1\<rparr>) s)"
    by (simp add: whole_list_def linked_def upd_frame_def enter_frame_def)
  then have "whole_list ?s" using io(3) by (simp add: whole_list_upd keeps_links_def)
  moreover have "frames_ok n k ?s" using io(2) assms(5-7) by (simp add: frames_ok_def enter_frame_nth)
  ultimately show "shard_inv n k ?s" using map_ok_enter [OF io(1) assms(2-4)] by (simp add: shard_inv_def)
  show "sview ?s = (sview s)(b := Some (f_data (frames s ! f), False, join, 0))"
  proof
    fix b'
    show "sview ?s b' = ((sview s)(b := Some (f_data (frames s ! f), False, join, 0))) b'"
    proof (cases "b' = b")
      case True
      with assms(2) show ?thesis by (simp add: sview_def enter_frame_nth ent_def)
    next
      case False
      show ?thesis
      proof (cases "smap s b'")
        case (Some i)
        note i = map_okD [OF io(1) this]
        with assms(3) have "f \<noteq> i" by auto
        with i Some False show ?thesis by (simp add: sview_def enter_frame_nth)
      qed (use False in \<open>simp add: sview_def enter_frame_nth\<close>)
    qed
  qed
  show "loaded {} s \<Longrightarrow> loaded {f} ?s" by (simp add: loaded_def enter_frame_nth)
qed

text \<open>With the frame moved to the front of the list and the bytes in place.\<close>

definition install_frame :: "nat \<Rightarrow> u32 \<Rightarrow> bool \<Rightarrow> block \<Rightarrow> shard \<Rightarrow> shard" where
  "install_frame f b join x s =
     upd_frame f (\<lambda>y. y\<lparr>f_data := x\<rparr>) (upd_frame f (\<lambda>y. y\<lparr>load_failed := False\<rparr>)
       (lru_push_front f (lru_unlink f (enter_frame f b join s))))"

lemma install_ok:
  assumes "shard_inv n k s" and "f < length (frames s)" and "\<not> mapped (frames s ! f)" and "smap s b = None"
    and "shard_for b = k" and "b \<noteq> 0" and "b < n" and "is_block x" and "loaded {} s"
  shows "shard_inv n k (install_frame f b join x s)"
    and "sview (install_frame f b join x s) = (sview s)(b := Some (x, False, join, 0))"
    and "loaded {} (install_frame f b join x s)"
    and "smap (install_frame f b join x s) b = Some f"
    and "f_data (frames (install_frame f b join x s) ! f) = x"
    and "\<not> load_failed (frames (install_frame f b join x s) ! f)"
proof -
  let ?s1 = "enter_frame f b join s"
  let ?s2 = "lru_push_front f (lru_unlink f ?s1)"
  let ?s3 = "upd_frame f (\<lambda>y. y\<lparr>load_failed := False\<rparr>) ?s2"
  note e = enter_ok [OF assms(1-7), of join]
  have f1: "f < length (frames ?s1)" using assms(2) by (simp add: enter_frame_nth)
  note t = touch_ok [OF e(1) f1]
  have m2: "smap ?s2 b = Some f" using t(6) by (simp add: enter_frame_nth)
  have f2: "f < length (frames ?s2)" using t(4) f1 by simp
  have u: "unlinked (frames ?s2 ! f) = unlinked (frames ?s1 ! f)" by (rule t(5) [OF f1])
  have ld: "is_block (f_data (frames ?s2 ! f))" using t(1) f2 by (simp add: shard_inv_def frames_ok_def)
  note mo2 = map_okD [OF _ m2]
  have mp: "map_ok ?s2" using t(1) by (simp add: shard_inv_def)
  have i3: "shard_inv n k ?s3" "sview ?s3 = (sview ?s2)(b := Some (ent ((frames ?s2 ! f)\<lparr>load_failed := False\<rparr>)))"
    by (rule upd_mapped_ok [OF t(1) m2]; use map_okD [OF mp m2] ld in \<open>simp add: keeps_links_def\<close>)+
  have m3: "smap ?s3 b = Some f" using m2 by simp
  have n3: "frames ?s3 ! f = (frames ?s2 ! f)\<lparr>load_failed := False\<rparr>" using f2 by (simp add: nth_upd_frame)
  have i4: "shard_inv n k (install_frame f b join x s)"
    "sview (install_frame f b join x s) = (sview ?s3)(b := Some (ent ((frames ?s3 ! f)\<lparr>f_data := x\<rparr>)))"
    unfolding install_frame_def
    by (rule upd_mapped_ok [OF i3(1) m3]; use map_okD [OF mp m2] n3 assms(8) in \<open>simp add: keeps_links_def\<close>)+
  show "shard_inv n k (install_frame f b join x s)" by (rule i4(1))
  have "ent ((frames ?s3 ! f)\<lparr>f_data := x\<rparr>) = (x, False, join, 0)"
    using unlinked_fields(1) [OF u] assms(2) by (simp add: n3 ent_def enter_frame_nth)
  then show "sview (install_frame f b join x s) = (sview s)(b := Some (x, False, join, 0))"
    unfolding i4(2) i3(2) t(2) e(2) by simp
  have "loaded {f} ?s2" using t(3) [of "{f}"] e(3) [OF assms(9)] by simp
  then have "loaded {} ?s3" by (rule loaded_upd) simp_all
  then show "loaded {} (install_frame f b join x s)" unfolding install_frame_def
    by (rule loaded_upd) (use n3 in simp_all)
  show "smap (install_frame f b join x s) b = Some f" using m2 by (simp add: install_frame_def)
  show "f_data (frames (install_frame f b join x s) ! f) = x" "\<not> load_failed (frames (install_frame f b join x s) ! f)"
    using f2 by (simp_all add: install_frame_def nth_upd_frame)
qed

end
