(* ===== verification/Cache_Coherence.thy ===== *)
theory Cache_Coherence
  imports Cache_Frames Crash_Device
begin

text \<open>
  The cache over a disk on which the process may be killed. \<^verbatim>\<open>vw\<close> is what a reader sees: the
  cached bytes, or the disk's. \<^verbatim>\<open>coherent\<close> relates the cache and the disk to the committed
  contents \<^term>\<open>G\<close> of the disk and the set \<^term>\<open>W\<close> of the blocks the log will write again: a frame
  that is not in the transaction holds committed bytes, a block without a dirty frame is on the
  disk as committed, and only blocks in \<^term>\<open>W\<close> have dirty frames. Every operation keeps it,
  and whether it returns or is killed it has written to no block outside \<^term>\<open>W\<close>: this is the
  no-steal rule of the header of \<^verbatim>\<open>buffer_cache.h\<close>.
\<close>

definition cinv :: "u32 \<Rightarrow> cache \<Rightarrow> bool" where
  "cinv n c \<longleftrightarrow> length (shards c) = SHARDS \<and>
     (\<forall>k < SHARDS. shard_inv n k (shards c ! k) \<and> loaded {} (shards c ! k))"

definition cview :: "cache \<Rightarrow> u32 \<Rightarrow> entry option" where
  "cview c b = sview (shards c ! shard_for b) b"

definition vw :: "cache \<Rightarrow> (u32 \<Rightarrow> block) \<Rightarrow> u32 \<Rightarrow> block" where
  "vw c m b = (case cview c b of Some (x, _) \<Rightarrow> x | None \<Rightarrow> m b)"

definition entry_ok :: "block \<Rightarrow> bool \<Rightarrow> block \<Rightarrow> entry option \<Rightarrow> bool" where
  "entry_ok g w m e = (case e of
       None \<Rightarrow> m = g
     | Some (x, d, t, l) \<Rightarrow> (\<not> t \<longrightarrow> x = g) \<and> (\<not> d \<longrightarrow> m = g) \<and> (d \<longrightarrow> w))"

definition coherent :: "(u32 \<Rightarrow> block) \<Rightarrow> u32 set \<Rightarrow> u32 \<Rightarrow> cache \<Rightarrow> (u32 \<Rightarrow> block) \<Rightarrow> bool" where
  "coherent G W n c m \<longleftrightarrow> (\<forall>b. 0 < b \<longrightarrow> b < n \<longrightarrow> entry_ok (G b) (b \<in> W) (m b) (cview c b))"

definition txns :: "cache \<Rightarrow> u32 set" where
  "txns c = {b. \<exists>x d l. cview c b = Some (x, d, True, l)}"

definition lsn_below :: "u64 \<Rightarrow> cache \<Rightarrow> bool" where
  "lsn_below L c \<longleftrightarrow> (\<forall>b x d t l. cview c b = Some (x, d, t, l) \<longrightarrow> l \<le> L)"

text \<open>Only blocks in \<^term>\<open>W\<close> differ.\<close>

definition only_in :: "u32 set \<Rightarrow> (u32 \<Rightarrow> block) \<Rightarrow> (u32 \<Rightarrow> block) \<Rightarrow> bool" where
  "only_in W m m' \<longleftrightarrow> (\<forall>b. b \<notin> W \<longrightarrow> m' b = m b)"

lemma only_in_refl [simp]: "only_in W m m"
  by (simp add: only_in_def)

lemma only_in_trans: "only_in W m m' \<Longrightarrow> only_in W m' m'' \<Longrightarrow> only_in W m m''"
  by (simp add: only_in_def)

lemma SHARDS_pos [simp]: "shard_for b < SHARDS"
  by (simp add: shard_for_def SHARDS_def)

lemma cinv_shard: "cinv n c \<Longrightarrow> k < SHARDS \<Longrightarrow> shard_inv n k (shards c ! k) \<and> loaded {} (shards c ! k)"
  by (simp add: cinv_def)

lemma upd_shard_nth:
  "length (shards c) = SHARDS \<Longrightarrow> j < SHARDS \<Longrightarrow>
   shards (upd_shard k g c) ! j = (if k = j then g (shards c ! j) else shards c ! j)"
  "length (shards (upd_shard k g c)) = length (shards c)"
  by (simp_all add: upd_shard_def nth_list_update)

lemma upd_shard_cinv:
  assumes "cinv n c" and "k < SHARDS" and "shard_inv n k (g (shards c ! k))" and "loaded {} (g (shards c ! k))"
  shows "cinv n (upd_shard k g c)"
  unfolding cinv_def
proof (intro conjI allI impI)
  show "length (shards (upd_shard k g c)) = SHARDS" using assms(1) by (simp add: cinv_def upd_shard_nth)
  fix j assume "j < SHARDS"
  with assms show "shard_inv n j (shards (upd_shard k g c) ! j)" "loaded {} (shards (upd_shard k g c) ! j)"
    by (cases "k = j"; simp add: cinv_def upd_shard_nth)+
qed

lemma upd_shard_cview:
  "cinv n c \<Longrightarrow> cview (upd_shard k g c) b = (if shard_for b = k then sview (g (shards c ! k)) b else cview c b)"
  by (auto simp: cview_def cinv_def upd_shard_nth)

text \<open>Counters do not matter.\<close>

lemma counters [simp]:
  "cinv n (c\<lparr>hits := x\<rparr>) = cinv n c" "cinv n (c\<lparr>misses := x\<rparr>) = cinv n c" "cinv n (c\<lparr>evictions := x\<rparr>) = cinv n c"
  "cinv n (c\<lparr>dirty_count := x\<rparr>) = cinv n c"
  "cview (c\<lparr>hits := x\<rparr>) = cview c" "cview (c\<lparr>misses := x\<rparr>) = cview c" "cview (c\<lparr>evictions := x\<rparr>) = cview c"
  "cview (c\<lparr>dirty_count := x\<rparr>) = cview c"
  by (simp_all add: cinv_def cview_def fun_eq_iff)

lemma counters_seen [simp]:
  "vw (c\<lparr>hits := x\<rparr>) = vw c" "vw (c\<lparr>misses := x\<rparr>) = vw c" "vw (c\<lparr>dirty_count := x\<rparr>) = vw c"
  "txns (c\<lparr>hits := x\<rparr>) = txns c" "txns (c\<lparr>misses := x\<rparr>) = txns c" "txns (c\<lparr>dirty_count := x\<rparr>) = txns c"
  "lsn_below L (c\<lparr>hits := x\<rparr>) = lsn_below L c" "lsn_below L (c\<lparr>misses := x\<rparr>) = lsn_below L c"
  "lsn_below L (c\<lparr>dirty_count := x\<rparr>) = lsn_below L c"
  "coherent G W n (c\<lparr>hits := x\<rparr>) m = coherent G W n c m" "coherent G W n (c\<lparr>misses := x\<rparr>) m = coherent G W n c m"
  "coherent G W n (c\<lparr>dirty_count := x\<rparr>) m = coherent G W n c m"
  by (simp_all add: vw_def txns_def lsn_below_def coherent_def fun_eq_iff)

text \<open>A shard that stands for the same blocks, or for the same but one.\<close>

lemma upd_shard_same:
  assumes "cinv n c" and "sview (g (shards c ! k)) = sview (shards c ! k)"
  shows "cview (upd_shard k g c) = cview c"
  by (rule ext) (simp add: upd_shard_cview [OF assms(1)] assms(2), simp add: cview_def)

lemma upd_shard_one:
  assumes "cinv n c" and "sview (g (shards c ! k)) = (sview (shards c ! k))(b := e)" and "shard_for b = k"
  shows "cview (upd_shard k g c) = (cview c)(b := e)"
  by (rule ext) (simp add: upd_shard_cview [OF assms(1)] assms(2,3), auto simp: cview_def assms(3))

text \<open>The frame a block is mapped to.\<close>

lemma cview_frame:
  assumes "cinv n c" and "smap (shards c ! shard_for b) b = Some f"
  shows "cview c b = Some (ent (the_frame (shard_for b) f c))"
    and "f < length (frames (shards c ! shard_for b))"
    and "mapped (the_frame (shard_for b) f c)" and "f_block_no (the_frame (shard_for b) f c) = b"
    and "is_block (f_data (the_frame (shard_for b) f c))" and "\<not> load_failed (the_frame (shard_for b) f c)"
proof -
  have s: "shard_inv n (shard_for b) (shards c ! shard_for b)" "loaded {} (shards c ! shard_for b)"
    using cinv_shard [OF assms(1)] by simp_all
  then have mo: "map_ok (shards c ! shard_for b)" "frames_ok n (shard_for b) (shards c ! shard_for b)"
    by (simp_all add: shard_inv_def)
  show "cview c b = Some (ent (the_frame (shard_for b) f c))"
    using assms(2) by (simp add: cview_def sview_def the_frame_def)
  show f: "f < length (frames (shards c ! shard_for b))" "mapped (the_frame (shard_for b) f c)"
    "f_block_no (the_frame (shard_for b) f c) = b"
    using map_okD [OF mo(1) assms(2)] by (simp_all add: the_frame_def)
  show "is_block (f_data (the_frame (shard_for b) f c))" "\<not> load_failed (the_frame (shard_for b) f c)"
    using mo(2) s(2) f by (simp_all add: frames_ok_def loaded_def the_frame_def)
qed

lemma cview_range:
  assumes "cinv n c" and "cview c b = Some e"
  shows "b \<noteq> 0" "b < n" "is_block (fst e)"
proof -
  obtain f where f: "smap (shards c ! shard_for b) b = Some f" using assms(2) by (auto simp: cview_def sview_def)
  note v = cview_frame [OF assms(1) f]
  show "is_block (fst e)" using v(1,5) assms(2) by (simp add: ent_def)
  have "frames_ok n (shard_for b) (shards c ! shard_for b)"
    using cinv_shard [OF assms(1)] by (simp add: shard_inv_def)
  with v(2-4) show "b \<noteq> 0" "b < n" by (auto simp: frames_ok_def the_frame_def)
qed

text \<open>Changing a frame in place, with or without changing what it holds.\<close>

lemma upd_frame_kept:
  assumes "cinv n c" and "k < SHARDS" and "keeps_links g" and "keeps_entry g"
  shows "cinv n (upd_shard k (upd_frame f g) c)" and "cview (upd_shard k (upd_frame f g) c) = cview c"
proof -
  note s = cinv_shard [OF assms(1,2)]
  note u = upd_kept_ok [OF conjunct1 [OF s] assms(3,4), where f = f]
  show "cinv n (upd_shard k (upd_frame f g) c)"
    by (rule upd_shard_cinv [OF assms(1,2)]) (use u s in simp_all)
  show "cview (upd_shard k (upd_frame f g) c) = cview c"
    by (rule upd_shard_same [where g = "upd_frame f g", OF assms(1) u(2)])
qed

lemma upd_frame_mapped:
  assumes "cinv n c" and "smap (shards c ! shard_for b) b = Some f" and "keeps_links g"
    and "mapped (g x) \<and> f_block_no (g x) = b \<and> is_block (f_data (g x)) \<and> \<not> load_failed (g x)"
    and "x = the_frame (shard_for b) f c"
  shows "cinv n (upd_shard (shard_for b) (upd_frame f g) c)"
    and "cview (upd_shard (shard_for b) (upd_frame f g) c) = (cview c)(b := Some (ent (g x)))"
proof -
  note s = cinv_shard [OF assms(1) SHARDS_pos [of b]]
  have x: "mapped (g (frames (shards c ! shard_for b) ! f)) \<and> f_block_no (g (frames (shards c ! shard_for b) ! f)) = b \<and>
      is_block (f_data (g (frames (shards c ! shard_for b) ! f)))"
    using assms(4,5) by (simp add: the_frame_def)
  note u = upd_mapped_ok [OF conjunct1 [OF s] assms(2,3) x]
  have "loaded {} (upd_frame f g (shards c ! shard_for b))"
    by (rule loaded_upd [OF conjunct2 [OF s]]) (use assms(4,5) in \<open>simp_all add: the_frame_def\<close>)
  then show "cinv n (upd_shard (shard_for b) (upd_frame f g) c)"
    by (rule upd_shard_cinv [where g = "upd_frame f g", OF assms(1) SHARDS_pos u(1)])
  show "cview (upd_shard (shard_for b) (upd_frame f g) c) = (cview c)(b := Some (ent (g x)))"
    using upd_shard_one [where g = "upd_frame f g", OF assms(1) u(2)] assms(5) by (simp add: the_frame_def)
qed

lemma coherent_entry: "coherent G W n c m \<Longrightarrow> 0 < b \<Longrightarrow> b < n \<Longrightarrow> entry_ok (G b) (b \<in> W) (m b) (cview c b)"
  by (simp add: coherent_def)

lemma coherent_upd:
  assumes "coherent G W n c m" and "cview c' = (cview c)(b := e)" and "m' = m(b := y)"
    and "0 < b \<Longrightarrow> b < n \<Longrightarrow> entry_ok (G b) (b \<in> W) y e"
  shows "coherent G W n c' m'"
  using assms by (auto simp: coherent_def)

lemma vw_cong: "cview c' b = cview c b \<Longrightarrow> (cview c b = None \<Longrightarrow> m' b = m b) \<Longrightarrow> vw c' m' b = vw c m b"
  by (simp add: vw_def split: option.split)

lemma vw_None: "cview c b = None \<Longrightarrow> vw c m b = m b"
  and vw_Some: "cview c b = Some (x, e) \<Longrightarrow> vw c m b = x"
  by (simp_all add: vw_def)

section \<open>Taking a frame\<close>

text \<open>Frames are only ever dropped, and only frames outside the transaction.\<close>

definition shrinks :: "cache \<Rightarrow> cache \<Rightarrow> bool" where
  "shrinks c c' \<longleftrightarrow> (\<forall>b. cview c' b = cview c b \<or> (cview c' b = None \<and> b \<notin> txns c))"

lemma shrinks_refl [simp]: "shrinks c c"
  by (simp add: shrinks_def)

lemma shrinks_eq: "cview c' = cview c \<Longrightarrow> shrinks c c'"
  by (simp add: shrinks_def)

lemma in_txns: "b \<in> txns c \<longleftrightarrow> (case cview c b of Some (x, d, t, l) \<Rightarrow> t | None \<Rightarrow> False)"
  by (simp add: txns_def split: option.split prod.split)

lemma shrinksD: "shrinks c c' \<Longrightarrow> cview c' b = cview c b \<or> (cview c' b = None \<and> b \<notin> txns c)"
  by (simp add: shrinks_def)

lemma shrinks_trans:
  assumes "shrinks c c'" and "shrinks c' c''"
  shows "shrinks c c''"
  unfolding shrinks_def
proof
  fix b
  from shrinksD [OF assms(1), of b] shrinksD [OF assms(2), of b]
  show "cview c'' b = cview c b \<or> (cview c'' b = None \<and> b \<notin> txns c)"
    by (elim disjE conjE) (simp_all add: in_txns)
qed

lemma shrinks_None: "shrinks c c' \<Longrightarrow> cview c b = None \<Longrightarrow> cview c' b = None"
  using shrinksD [of c c' b] by auto

lemma shrinks_lsn:
  assumes "shrinks c c'" and "lsn_below L c"
  shows "lsn_below L c'"
  unfolding lsn_below_def
proof (intro allI impI)
  fix b x d t l assume e: "cview c' b = Some (x, d, t, l)"
  with shrinksD [OF assms(1), of b] have "cview c b = Some (x, d, t, l)" by auto
  with assms(2) show "l \<le> L" unfolding lsn_below_def by blast
qed

lemma shrinks_txns:
  assumes "shrinks c c'"
  shows "txns c' = txns c"
proof (rule set_eqI)
  fix b
  from shrinksD [OF assms, of b] show "b \<in> txns c' \<longleftrightarrow> b \<in> txns c"
    by (elim disjE conjE) (simp_all add: in_txns)
qed

lemma evict_unmapped: "\<not> mapped (the_frame k f c) \<Longrightarrow> evict k f (c, d) = (Ret f, (c, d))"
  by (simp add: evict_def)

lemma evict_mapped:
  assumes "mapped (the_frame k f c)"
  shows "evict k f (c, d) = (Ret f, ((upd_shard k (unmap_frame f) c)\<lparr>evictions := evictions c + 1\<rparr>, d))"
  using assms by (simp add: evict_def Let_def unmap_frame_def the_frame_def upd_shard_def)

lemma evict_ok:
  assumes "cinv n c" and "k < SHARDS" and "f < length (frames (shards c ! k))" and "\<not> in_txn (the_frame k f c)"
    and "coherent G W n c m" and "mapped (the_frame k f c) \<Longrightarrow> \<not> dirty (the_frame k f c)"
  shows "\<exists>c'. evict k f (c, d) = (Ret f, (c', d)) \<and> cinv n c' \<and> coherent G W n c' m \<and> vw c' m = vw c m \<and>
    shrinks c c' \<and> f < length (frames (shards c' ! k)) \<and> \<not> mapped (the_frame k f c')"
proof (cases "mapped (the_frame k f c)")
  case False
  with evict_unmapped [of k f c d] assms show ?thesis by (intro exI [of _ c]) simp
next
  case True
  let ?s = "shards c ! k"
  let ?b = "f_block_no (frames ?s ! f)"
  let ?c = "(upd_shard k (unmap_frame f) c)\<lparr>evictions := evictions c + 1\<rparr>"
  note s = cinv_shard [OF assms(1,2)]
  have mf: "mapped (frames ?s ! f)" using True by (simp add: the_frame_def)
  note u = unmap_ok [OF conjunct1 [OF s] assms(3) mf]
  have kb: "shard_for ?b = k" "?b \<noteq> 0" "?b < n"
    using s assms(3) mf by (simp_all add: shard_inv_def frames_ok_def)
  have "smap ?s ?b = Some f"
    using s map_ok_find [OF _ assms(3) mf] by (simp add: shard_inv_def)
  then have cb: "cview c ?b = Some (ent (frames ?s ! f))" using kb(1) by (simp add: cview_def sview_def)
  have ci: "cinv n ?c"
    using upd_shard_cinv [where g = "unmap_frame f", OF assms(1,2) u(1)] u(3) s by simp
  have cv: "cview ?c = (cview c)(?b := None)" using upd_shard_one [where g = "unmap_frame f", OF assms(1) u(2) kb(1)] by simp
  have e: "ent (frames ?s ! f) = (f_data (frames ?s ! f), False, False, f_lsn (frames ?s ! f))"
    using assms(4) assms(6) [OF True] by (simp add: ent_def the_frame_def)
  have "0 < ?b" using kb(2) by (simp add: word_neq_0_conv)
  with coherent_entry [OF assms(5) _ kb(3)] cb e have g: "m ?b = G ?b" "f_data (frames ?s ! f) = G ?b"
    by (simp_all add: entry_ok_def)
  have "coherent G W n ?c m"
    by (rule coherent_upd [OF assms(5) cv, where y = "m ?b"]) (simp, simp add: entry_ok_def g(1))
  moreover have "vw ?c m = vw c m"
  proof
    fix b show "vw ?c m b = vw c m b"
    proof (cases "b = ?b")
      case True
      then show ?thesis unfolding vw_def cv by (simp add: cb e g)
    next
      case False
      then show ?thesis by (intro vw_cong) (unfold cv, simp_all)
    qed
  qed
  moreover have "shrinks c ?c"
    unfolding shrinks_def
  proof
    fix b show "cview ?c b = cview c b \<or> (cview ?c b = None \<and> b \<notin> txns c)"
      unfolding cv by (cases "b = ?b") (simp_all add: in_txns cb e)
  qed
  moreover have "f < length (frames (shards ?c ! k))" "\<not> mapped (the_frame k f ?c)"
    using assms(1-3) by (simp_all add: the_frame_def upd_shard_nth cinv_def unmap_frame_nth)
  ultimately show ?thesis using ci evict_mapped [OF True, of d] by blast
qed

lemma take_new_ok:
  assumes "cinv n c" and "k < SHARDS"
  shows "\<exists>f c'. take_new k (c, d) = (Ret f, (c', d)) \<and> cinv n c' \<and> cview c' = cview c \<and>
    f < length (frames (shards c' ! k)) \<and> \<not> mapped (the_frame k f c')"
proof -
  obtain f s' where nf: "new_frame (shards c ! k) = (f, s')" by fastforce
  note s = cinv_shard [OF assms]
  note u = new_frame_ok [OF conjunct1 [OF s] nf]
  let ?c = "upd_shard k (\<lambda>_. s') c"
  have "cinv n ?c" by (rule upd_shard_cinv [OF assms]) (use u s in simp_all)
  moreover have "cview ?c = cview c" by (rule upd_shard_same [where g = "\<lambda>_. s'", OF assms(1) u(2)])
  moreover have "f < length (frames (shards ?c ! k))" "\<not> mapped (the_frame k f ?c)"
    using u assms by (simp_all add: the_frame_def upd_shard_nth cinv_def)
  moreover have "take_new k (c, d) = (Ret f, (?c, d))" by (simp add: take_new_def nf)
  ultimately show ?thesis by blast
qed

text \<open>What the search for a victim finds.\<close>

definition clean_victim :: "shard \<Rightarrow> nat \<Rightarrow> bool" where
  "clean_victim s f \<longleftrightarrow> f < length (frames s) \<and> \<not> in_txn (frames s ! f) \<and> (mapped (frames s ! f) \<longrightarrow> \<not> dirty (frames s ! f))"

definition dirty_victim :: "u64 \<Rightarrow> shard \<Rightarrow> nat \<Rightarrow> bool" where
  "dirty_victim durable s f \<longleftrightarrow> f < length (frames s) \<and> \<not> in_txn (frames s ! f) \<and> mapped (frames s ! f) \<and>
     dirty (frames s ! f) \<and> f_lsn (frames s ! f) \<le> durable"

lemma pick_victim_spec:
  "pick_victim durable s dv fs = (v, dv') \<Longrightarrow> pred_option (dirty_victim durable s) dv \<Longrightarrow>
   set fs \<subseteq> {..<length (frames s)} \<Longrightarrow>
   pred_option (clean_victim s) v \<and> pred_option (dirty_victim durable s) dv'"
proof (induction fs arbitrary: dv)
  case (Cons f fs)
  let ?x = "frames s ! f"
  have fl: "f < length (frames s)" and sub: "set fs \<subseteq> {..<length (frames s)}" using Cons.prems(3) by simp_all
  show ?case
  proof (cases "pins ?x > 0 \<or> in_txn ?x")
    case True
    with Cons.prems have "pick_victim durable s dv fs = (v, dv')" by (simp add: Let_def)
    from Cons.IH [OF this Cons.prems(2) sub] show ?thesis .
  next
    case idle: False
    show ?thesis
    proof (cases "\<not> mapped ?x \<or> \<not> dirty ?x")
      case True
      with idle Cons.prems have "v = Some f" "dv' = dv" by (simp_all add: Let_def)
      with True idle fl Cons.prems(2) show ?thesis by (auto simp: clean_victim_def)
    next
      case False
      let ?dv = "if dv = None \<and> f_lsn ?x \<le> durable then Some f else dv"
      from False idle Cons.prems(1) have "pick_victim durable s ?dv fs = (v, dv')" by (simp add: Let_def)
      moreover have "pred_option (dirty_victim durable s) ?dv"
        using False idle fl Cons.prems(2) by (cases "dv = None \<and> f_lsn ?x \<le> durable") (simp add: dirty_victim_def, auto)
      ultimately show ?thesis using Cons.IH sub by blast
    qed
  qed
qed simp

lemma from_tail_set:
  assumes "whole_list s"
  shows "set (from_tail s) = {..<length (frames s)}"
proof -
  obtain xs where xs: "linked s xs" "set xs = {..<length (frames s)}" using assms by (auto simp: whole_list_def)
  show ?thesis using xs(2) by (simp add: from_tail_rev [OF xs(1)])
qed

section \<open>The operations\<close>

lemma cview_determines:
  assumes "cview c' = cview c"
  shows "vw c' m = vw c m" "txns c' = txns c" "lsn_below L c' = lsn_below L c" "coherent G W n c' m = coherent G W n c m"
  using assms by (simp_all add: vw_def txns_def lsn_below_def coherent_def fun_eq_iff)

lemma lsn_below_upd:
  assumes "cview c' = (cview c)(b := Some (x, d, t, l))" and "lsn_below L c" and "l \<le> L"
  shows "lsn_below L c'"
  unfolding lsn_below_def
proof (intro allI impI)
  fix b' x' d' t' l' assume "cview c' b' = Some (x', d', t', l')"
  with assms show "l' \<le> L" by (cases "b' = b") (auto simp: lsn_below_def)
qed

lemma txns_upd:
  assumes "cview c' = (cview c)(b := Some (x, d, t, l))"
  shows "txns c' = (if t then insert b (txns c) else txns c - {b})"
proof (rule set_eqI)
  fix b' show "b' \<in> txns c' \<longleftrightarrow> b' \<in> (if t then insert b (txns c) else txns c - {b})"
    by (cases "b' = b") (simp_all add: in_txns assms)
qed

context crash_dev
begin

text \<open>The invariant of the cache over its disk, and what every outcome of an operation has in common.\<close>

definition ok :: "(u32 \<Rightarrow> block) \<Rightarrow> u32 set \<Rightarrow> cache \<Rightarrow> 'd \<Rightarrow> bool" where
  "ok G W c d \<longleftrightarrow> cinv (dev_count D) c \<and> live d \<and> coherent G W (dev_count D) c (blocks d)"

definition moved :: "u32 set \<Rightarrow> 'd \<Rightarrow> 'd \<Rightarrow> bool" where
  "moved W d d' \<longleftrightarrow> live d' \<and> beside d d' \<and> only_in W (blocks d) (blocks d')"

lemma moved_refl: "live d \<Longrightarrow> moved W d d"
  by (simp add: moved_def beside_refl)

lemma moved_trans: "moved W d d' \<Longrightarrow> moved W d' d'' \<Longrightarrow> moved W d d''"
  unfolding moved_def by (blast intro: beside_trans only_in_trans)

text \<open>Cleaning a dirty frame: the disk gets its bytes.\<close>

lemma clean_frame:
  assumes "cinv n c" and "smap (shards c ! shard_for b) b = Some f" and "coherent G W n c m"
    and "\<not> in_txn (the_frame (shard_for b) f c)" and "x = the_frame (shard_for b) f c"
    and "c' = (upd_shard (shard_for b) (upd_frame f (\<lambda>x. x\<lparr>dirty := False\<rparr>)) c)\<lparr>dirty_count := dc\<rparr>"
  shows "cinv n c'" "coherent G W n c' (m(b := f_data x))" "vw c' (m(b := f_data x)) = vw c m"
    "txns c' = txns c" "lsn_below L c \<Longrightarrow> lsn_below L c'"
    "cview c' = (cview c)(b := Some (f_data x, False, False, f_lsn x))"
proof -
  note v = cview_frame [OF assms(1,2)]
  have u: "cinv n (upd_shard (shard_for b) (upd_frame f (\<lambda>x. x\<lparr>dirty := False\<rparr>)) c)"
    "cview (upd_shard (shard_for b) (upd_frame f (\<lambda>x. x\<lparr>dirty := False\<rparr>)) c) =
       (cview c)(b := Some (ent (x\<lparr>dirty := False\<rparr>)))"
    by (rule upd_frame_mapped [OF assms(1,2)]; use v assms(5) in \<open>simp add: keeps_links_def\<close>)+
  have e: "ent (x\<lparr>dirty := False\<rparr>) = (f_data x, False, False, f_lsn x)" using assms(4,5) by (simp add: ent_def)
  show ci: "cinv n c'" using u(1) assms(6) by simp
  show cv: "cview c' = (cview c)(b := Some (f_data x, False, False, f_lsn x))" using u(2) e assms(6) by simp
  have old: "cview c b = Some (f_data x, dirty x, False, f_lsn x)" using v(1) assms(4,5) by (simp add: ent_def)
  from cview_range [OF assms(1) old] have "0 < b" "b < n" by (simp_all add: word_neq_0_conv)
  from coherent_entry [OF assms(3) this] old have g: "f_data x = G b" by (simp add: entry_ok_def)
  show "coherent G W n c' (m(b := f_data x))"
    by (rule coherent_upd [OF assms(3) cv, where y = "f_data x"]) (simp_all add: entry_ok_def g)
  show "vw c' (m(b := f_data x)) = vw c m"
  proof
    fix b' show "vw c' (m(b := f_data x)) b' = vw c m b'"
      by (cases "b' = b") (simp add: vw_def cv old, rule vw_cong, simp_all add: cv)
  qed
  show "txns c' = txns c"
  proof (rule set_eqI)
    fix b' show "b' \<in> txns c' \<longleftrightarrow> b' \<in> txns c" by (cases "b' = b") (simp_all add: in_txns cv old)
  qed
  show "lsn_below L c'" if "lsn_below L c"
    unfolding lsn_below_def
  proof (intro allI impI)
    fix b' x' d t l assume "cview c' b' = Some (x', d, t, l)"
    with that old show "l \<le> L" unfolding lsn_below_def cv by (cases "b' = b") auto
  qed
qed

text \<open>A frame that may be reused at once.\<close>

definition took :: "(u32 \<Rightarrow> block) \<Rightarrow> u32 set \<Rightarrow> nat \<Rightarrow> cache \<Rightarrow> 'd \<Rightarrow> nat \<Rightarrow> cache \<Rightarrow> 'd \<Rightarrow> bool" where
  "took G W k c d f c' d' \<longleftrightarrow> ok G W c' d' \<and> vw c' (blocks d') = vw c (blocks d) \<and> shrinks c c' \<and>
     f < length (frames (shards c' ! k)) \<and> \<not> mapped (the_frame k f c')"

lemma evict_clean:
  assumes "ok G W c d" and "k < SHARDS" and "clean_victim (shards c ! k) f"
  shows "\<exists>c'. evict k f (c, d) = (Ret f, (c', d)) \<and> took G W k c d f c' d"
  using evict_ok [of "dev_count D" c k f G W "blocks d" d] assms
  by (auto simp: ok_def took_def clean_victim_def the_frame_def)

lemma take_new_took:
  assumes "ok G W c d" and "k < SHARDS"
  shows "\<exists>f c'. take_new k (c, d) = (Ret f, (c', d)) \<and> took G W k c d f c' d"
proof -
  from take_new_ok [of "dev_count D" c k d] assms obtain f c' where
    n: "take_new k (c, d) = (Ret f, (c', d))" "cinv (dev_count D) c'" "cview c' = cview c"
      "f < length (frames (shards c' ! k))" "\<not> mapped (the_frame k f c')" by (auto simp: ok_def)
  have "ok G W c' d" using n(2,3) assms(1) by (simp add: ok_def coherent_def)
  moreover have "vw c' (blocks d) = vw c (blocks d)" using n(3) by (simp add: vw_def fun_eq_iff)
  ultimately show ?thesis using n shrinks_eq [OF n(3)] by (auto simp: took_def)
qed

text \<open>A dirty frame is written, marked clean and then evicted.\<close>

definition write_victim :: "nat \<Rightarrow> nat \<Rightarrow> frame \<Rightarrow> ('d cache_state, nat) op" where
  "write_victim k f x =
     thenE (on_dev (write_block D (f_block_no x) (f_data x)))
    (thenE (modE (\<lambda>(c, d). ((upd_shard k (upd_frame f (\<lambda>x. x\<lparr>dirty := False\<rparr>)) c)
        \<lparr>dirty_count := dirty_count c - 1\<rparr>, d)))
     (evict k f))"

lemma cleaned_took:
  assumes "ok G W c d" and "live d1" and "dirty_victim durable (shards c ! k) f" and "k < SHARDS"
    and "x = frames (shards c ! k) ! f" and "blocks d1 = (blocks d)(f_block_no x := f_data x)"
    and "c1 = (upd_shard k (upd_frame f (\<lambda>x. x\<lparr>dirty := False\<rparr>)) c)\<lparr>dirty_count := dirty_count c - 1\<rparr>"
  shows "\<exists>c'. evict k f (c1, d1) = (Ret f, (c', d1)) \<and> took G W k c d f c' d1"
proof -
  let ?n = "dev_count D" and ?s = "shards c ! k" and ?b = "f_block_no x"
  have ci: "cinv ?n c" and co: "coherent G W ?n c (blocks d)" using assms(1) by (simp_all add: ok_def)
  note s = cinv_shard [OF ci assms(4)]
  have f: "f < length (frames ?s)" "\<not> in_txn x" "mapped x" using assms(3,5) by (simp_all add: dirty_victim_def)
  have kb: "shard_for ?b = k" using s f assms(5) by (simp add: shard_inv_def frames_ok_def)
  have sm: "smap (shards c ! shard_for ?b) ?b = Some f"
    using s map_ok_find [OF _ f(1)] f(3) kb assms(5) by (simp add: shard_inv_def)
  have xf: "x = the_frame (shard_for ?b) f c" and nt: "\<not> in_txn (the_frame (shard_for ?b) f c)"
    using kb f(2) assms(5) by (simp_all add: the_frame_def)
  note cl = clean_frame [OF ci sm co nt xf assms(7) [folded kb]]
  have ok1: "ok G W c1 d1" using cl(1,2) assms(2,6) by (simp add: ok_def)
  have sh: "shards c1 ! k = upd_frame f (\<lambda>x. x\<lparr>dirty := False\<rparr>) ?s"
    using ci assms(4) by (simp add: assms(7) upd_shard_nth cinv_def)
  have vic: "clean_victim (shards c1 ! k) f" using f assms(5) by (simp add: clean_victim_def sh nth_upd_frame)
  from evict_clean [OF ok1 assms(4) vic] obtain c2 where
    e: "evict k f (c1, d1) = (Ret f, (c2, d1))" "took G W k c1 d1 f c2 d1" by blast
  have m1: "mapped (the_frame k f c1)" using f sh assms(5) by (simp add: the_frame_def nth_upd_frame)
  from e(1) evict_mapped [OF m1, of d1] have "c2 = (upd_shard k (unmap_frame f) c1)\<lparr>evictions := evictions c1 + 1\<rparr>" by simp
  then have "smap (shards c2 ! k) ?b = None"
    using cl(1) assms(4,5) f(1) by (simp add: upd_shard_nth cinv_def unmap_frame_nth sh nth_upd_frame)
  then have b2: "cview c2 ?b = None" using kb by (simp add: cview_def sview_def)
  have "shrinks c c2"
    unfolding shrinks_def
  proof
    fix b
    show "cview c2 b = cview c b \<or> (cview c2 b = None \<and> b \<notin> txns c)"
    proof (cases "b = ?b")
      case True
      with b2 cview_frame(1) [OF ci sm] nt show ?thesis by (simp add: in_txns ent_def)
    next
      case False
      then have "cview c1 b = cview c b" unfolding cl(6) by simp
      with shrinksD [of c1 c2 b] e(2) cl(4) show ?thesis by (simp add: took_def)
    qed
  qed
  with e cl(3) assms(6) show ?thesis by (auto simp: took_def)
qed

lemma write_victim_ok:
  assumes "ok G W c d" and "k < SHARDS" and "dirty_victim durable (shards c ! k) f" and "x = frames (shards c ! k) ! f"
  shows "\<exists>r c' d'. write_victim k f x (c, d) = (r, (c', d')) \<and> moved W d d' \<and>
    (r = Killed \<and> doomed d \<or> r = Ret f \<and> took G W k c d f c' d')"
proof -
  let ?n = "dev_count D" and ?s = "shards c ! k" and ?b = "f_block_no x"
  have ci: "cinv ?n c" and lv: "live d" and co: "coherent G W ?n c (blocks d)" using assms(1) by (simp_all add: ok_def)
  note s = cinv_shard [OF ci assms(2)]
  have f: "f < length (frames ?s)" "mapped x" "dirty x" using assms(3,4) by (simp_all add: dirty_victim_def)
  have kb: "shard_for ?b = k" "?b \<noteq> 0" "?b < ?n" "is_block (f_data x)"
    using s f assms(4) by (simp_all add: shard_inv_def frames_ok_def)
  have "smap ?s ?b = Some f" using s map_ok_find [OF _ f(1)] f(2) assms(4) by (simp add: shard_inv_def)
  then have "cview c ?b = Some (ent x)" using kb(1) assms(4) by (simp add: cview_def sview_def)
  then have inW: "?b \<in> W" using coherent_entry [OF co _ kb(3)] kb(2) f(3) by (simp add: entry_ok_def ent_def word_neq_0_conv)
  from write_any [OF lv kb(3,4)] obtain r d1 where
    w: "write_block D ?b (f_data x) d = (r, d1)" "live d1" "beside d d1"
      "r = Ret () \<and> blocks d1 = (blocks d)(?b := f_data x) \<or>
       r = Killed \<and> doomed d \<and> (\<forall>b'. b' \<noteq> ?b \<longrightarrow> blocks d1 b' = blocks d b')" by blast
  from w(4) have "\<forall>b'. b' \<noteq> ?b \<longrightarrow> blocks d1 b' = blocks d b'" by (elim disjE) simp_all
  then have mv: "moved W d d1" using w(2,3) inW unfolding moved_def only_in_def by metis
  from w(4) show ?thesis
  proof (elim disjE conjE)
    assume r: "r = Killed" "doomed d"
    then have "write_victim k f x (c, d) = (Killed, (c, d1))"
      using w(1) by (simp add: write_victim_def on_dev_def zoomE_def thenE_def bindE_def)
    with mv r show ?thesis by blast
  next
    assume r: "r = Ret ()" and m1: "blocks d1 = (blocks d)(?b := f_data x)"
    from cleaned_took [OF assms(1) w(2) assms(3,2,4) m1 refl] obtain c2 where
      e: "evict k f ((upd_shard k (upd_frame f (\<lambda>x. x\<lparr>dirty := False\<rparr>)) c)\<lparr>dirty_count := dirty_count c - 1\<rparr>, d1) =
        (Ret f, (c2, d1))" "took G W k c d f c2 d1" by blast
    then have "write_victim k f x (c, d) = (Ret f, (c2, d1))"
      using w(1) r by (simp add: write_victim_def on_dev_def zoomE_def thenE_def bindE_def)
    with mv e show ?thesis by blast
  qed
qed

lemma take_frame_cases:
  "take_frame D durable k (c, d) =
     (let s = shards c ! k in
      if length (frames s) < share s then take_new k (c, d)
      else case pick_victim durable s None (from_tail s) of
        (Some f, _) \<Rightarrow> evict k f (c, d)
      | (None, Some f) \<Rightarrow> write_victim k f (frames s ! f) (c, d)
      | (None, None) \<Rightarrow> take_new k (c, d))"
  by (simp add: take_frame_def write_victim_def Let_def split: prod.split option.split)

text \<open>Whether it returns or is killed, taking a frame writes at most one dirty frame back.\<close>

lemma take_frame_ok:
  assumes "ok G W c d" and "k < SHARDS"
  shows "\<exists>r c' d'. take_frame D durable k (c, d) = (r, (c', d')) \<and> moved W d d' \<and>
    (r = Killed \<and> doomed d \<or> (\<exists>f. r = Ret f \<and> took G W k c d f c' d'))"
proof -
  let ?s = "shards c ! k"
  have "live d" using assms(1) by (simp add: ok_def)
  note stay = moved_refl [OF this, of W]
  obtain v dv where pv: "pick_victim durable ?s None (from_tail ?s) = (v, dv)" by fastforce
  have "whole_list ?s" using assms cinv_shard [of "dev_count D" c k] by (simp add: ok_def shard_inv_def)
  from pick_victim_spec [OF pv] from_tail_set [OF this]
  have vic: "pred_option (clean_victim ?s) v" "pred_option (dirty_victim durable ?s) dv" by simp_all
  have new: ?thesis if "take_frame D durable k (c, d) = take_new k (c, d)"
    using take_new_took [OF assms] that stay by fastforce
  show ?thesis
  proof (cases "length (frames ?s) < share ?s \<or> v = None \<and> dv = None")
    case True
    then show ?thesis by (intro new) (auto simp: take_frame_cases Let_def pv)
  next
    case False
    show ?thesis
    proof (cases v)
      case (Some f)
      with evict_clean [OF assms, of f] vic(1) obtain c' where
        "evict k f (c, d) = (Ret f, (c', d))" "took G W k c d f c' d" by auto
      with Some False stay show ?thesis by (auto simp: take_frame_cases Let_def pv)
    next
      case None
      with False obtain f where f: "dv = Some f" by auto
      with vic(2) have "dirty_victim durable ?s f" by simp
      from write_victim_ok [OF assms this refl] None False f show ?thesis
        by (fastforce simp: take_frame_cases Let_def pv)
    qed
  qed
qed

text \<open>
  What \<^verbatim>\<open>acquire\<close> leaves: the block is mapped to the frame, its bytes are what a reader saw before,
  or zeros if it was loaded that way, and it is in the transaction if it was to join it.
\<close>

definition acquired ::
  "(u32 \<Rightarrow> block) \<Rightarrow> u32 set \<Rightarrow> u32 \<Rightarrow> bool \<Rightarrow> bool \<Rightarrow> cache \<Rightarrow> 'd \<Rightarrow> nat \<times> bool \<times> bool \<Rightarrow> cache \<Rightarrow> 'd \<Rightarrow> bool" where
  "acquired G W b zero join c d r c' d' \<longleftrightarrow> (case r of (f, excl, joined) \<Rightarrow>
     ok G W c' d' \<and> smap (shards c' ! shard_for b) b = Some f \<and> (excl \<longleftrightarrow> cview c b = None) \<and>
     (joined \<longleftrightarrow> join \<and> b \<notin> txns c) \<and>
     vw c' (blocks d') = (vw c (blocks d))(b := if zero \<and> excl then zero_block else vw c (blocks d) b) \<and>
     txns c' = (if join then insert b (txns c) else txns c) \<and> (\<forall>L. lsn_below L c \<longrightarrow> lsn_below L c'))"

lemma acquire_hit:
  assumes "ok G W c d" and "smap (shards c ! shard_for b) b = Some f"
  shows "\<exists>c' joined. acquire D durable b zero join (c, d) = (Ret (f, False, joined), (c', d)) \<and>
    acquired G W b zero join c d (f, False, joined) c' d"
proof -
  let ?n = "dev_count D" and ?k = "shard_for b"
  have ci: "cinv ?n c" and co: "coherent G W ?n c (blocks d)" using assms(1) by (simp_all add: ok_def)
  note v = cview_frame [OF ci assms(2)]
  define x where "x = the_frame ?k f c"
  define c1 where "c1 = upd_shard ?k (upd_frame f (\<lambda>x. x\<lparr>pins := pins x + 1\<rparr>)) c"
  define c2 where "c2 = upd_shard ?k (\<lambda>s. lru_push_front f (lru_unlink f s)) c1"
  define c3 where "c3 = upd_shard ?k (upd_frame f (\<lambda>x. x\<lparr>in_txn := in_txn x \<or> join\<rparr>)) c2"
  have 1: "cinv ?n c1" "cview c1 = cview c"
    unfolding c1_def by (rule upd_frame_kept [OF ci SHARDS_pos]; simp add: keeps_links_def keeps_entry_def ent_def)+
  have sh1: "shards c1 ! ?k = upd_frame f (\<lambda>x. x\<lparr>pins := pins x + 1\<rparr>) (shards c ! ?k)"
    using ci by (simp add: c1_def upd_shard_nth cinv_def)
  have f1: "f < length (frames (shards c1 ! ?k))" using v(2) by (simp add: sh1)
  note s1 = cinv_shard [OF 1(1) SHARDS_pos [of b]]
  note t = touch_ok [OF conjunct1 [OF s1] f1]
  have 2: "cinv ?n c2" "cview c2 = cview c"
    unfolding c2_def
    using upd_shard_cinv [OF 1(1) SHARDS_pos [of b], where g = "\<lambda>s. lru_push_front f (lru_unlink f s)"]
      upd_shard_same [OF 1(1), where g = "\<lambda>s. lru_push_front f (lru_unlink f s)" and k = ?k] t(1,2) t(3) [of "{}"] s1 1(2)
    by simp_all
  have sh2: "shards c2 ! ?k = lru_push_front f (lru_unlink f (shards c1 ! ?k))"
    using 1(1) by (simp add: c2_def upd_shard_nth cinv_def)
  have sm2: "smap (shards c2 ! ?k) b = Some f" using t(6) assms(2) by (simp add: sh2 sh1)
  note v2 = cview_frame [OF 2(1) sm2]
  have 3: "cinv ?n c3" "cview c3 = (cview c2)(b := Some (ent ((the_frame ?k f c2)\<lparr>in_txn := in_txn (the_frame ?k f c2) \<or> join\<rparr>)))"
    unfolding c3_def by (rule upd_frame_mapped [OF 2(1) sm2]; use v2 in \<open>simp add: keeps_links_def\<close>)+
  have e2: "ent (the_frame ?k f c2) = ent x" using v2(1) v(1) 2(2) by (simp add: x_def)
  then have cv: "cview c3 = (cview c)(b := Some (f_data x, dirty x, in_txn x \<or> join, f_lsn x))"
    using 3(2) 2(2) by (simp add: ent_def)
  have old: "cview c b = Some (f_data x, dirty x, in_txn x, f_lsn x)" using v(1) by (simp add: x_def ent_def)
  have b: "0 < b" "b < ?n" using cview_range [OF ci old] by (simp_all add: word_neq_0_conv)
  have "coherent G W ?n c3 (blocks d)"
    by (rule coherent_upd [OF co cv, where y = "blocks d b"])
       (use coherent_entry [OF co b] old in \<open>auto simp: entry_ok_def\<close>)
  then have ok3: "ok G W (c3\<lparr>hits := hits c3 + 1\<rparr>) d" using 3(1) assms(1) by (simp add: ok_def coherent_def)
  have sm3: "smap (shards c3 ! ?k) b = Some f" using sm2 2(1) by (simp add: c3_def upd_shard_nth cinv_def)
  have "vw c3 (blocks d) = vw c (blocks d)"
  proof
    fix b' show "vw c3 (blocks d) b' = vw c (blocks d) b'" by (cases "b' = b") (simp_all add: vw_def cv old)
  qed
  moreover have "txns c3 = (if join then insert b (txns c) else txns c)"
    unfolding txns_upd [OF cv] using old by (auto simp: in_txns)
  moreover have "lsn_below L c3" if "lsn_below L c" for L
    by (rule lsn_below_upd [OF cv that]) (use that old in \<open>auto simp: lsn_below_def\<close>)
  moreover have "hits c3 = hits c" by (simp add: c3_def c2_def c1_def upd_shard_def)
  moreover have "acquire D durable b zero join (c, d) = (Ret (f, False, join \<and> \<not> in_txn x), (c3\<lparr>hits := hits c3 + 1\<rparr>, d))"
    using assms(2) by (simp add: acquire_def Let_def x_def c3_def c2_def c1_def)
  moreover have "b \<in> txns c \<longleftrightarrow> in_txn x" using old by (simp add: in_txns)
  moreover have "vw c (blocks d) = (vw c (blocks d))(b := vw c (blocks d) b)" by simp
  ultimately show ?thesis using ok3 sm3 old
    by (intro exI [of _ "c3\<lparr>hits := hits c3 + 1\<rparr>"] exI [of _ "join \<and> \<not> in_txn x"]) (simp add: acquired_def)
qed

lemma acquire_miss:
  assumes "ok G W c d" and "smap (shards c ! shard_for b) b = None" and "0 < b" and "b < dev_count D"
    and "zero \<Longrightarrow> join"
  shows "\<exists>r c' d'. acquire D durable b zero join (c, d) = (r, (c', d')) \<and> moved W d d' \<and>
    (r = Killed \<and> doomed d \<or> (\<exists>f. r = Ret (f, True, join) \<and> acquired G W b zero join c d (f, True, join) c' d'))"
proof -
  let ?n = "dev_count D" and ?k = "shard_for b"
  let ?c0 = "c\<lparr>misses := misses c + 1\<rparr>"
  have ok0: "ok G W ?c0 d" using assms(1) by (simp add: ok_def)
  from take_frame_ok [OF ok0 SHARDS_pos [of b], of durable] obtain r c1 d1 where
    t: "take_frame D durable ?k (?c0, d) = (r, (c1, d1))" "moved W d d1"
      "r = Killed \<and> doomed d \<or> (\<exists>f. r = Ret f \<and> took G W ?k ?c0 d f c1 d1)" by blast
  from t(3) show ?thesis
  proof (elim disjE exE conjE)
    assume r: "r = Killed" "doomed d"
    then have "acquire D durable b zero join (c, d) = (Killed, (c1, d1))"
      using assms(2) t(1) by (simp add: acquire_def)
    with r t(2) show ?thesis by blast
  next
    fix f assume r: "r = Ret f" and took: "took G W ?k ?c0 d f c1 d1"
    have ok1: "ok G W c1 d1" and v1: "vw c1 (blocks d1) = vw c (blocks d)" and sh: "shrinks ?c0 c1"
      and fl: "f < length (frames (shards c1 ! ?k))" and nm: "\<not> mapped (frames (shards c1 ! ?k) ! f)"
      using took by (simp_all add: took_def the_frame_def)
    have ci: "cinv ?n c1" and lv: "live d1" and co: "coherent G W ?n c1 (blocks d1)" using ok1 by (simp_all add: ok_def)
    have c0: "cview c b = None" using assms(2) by (simp add: cview_def sview_def)
    then have n1: "cview c1 b = None" using shrinks_None [OF sh] by simp
    then have sm: "smap (shards c1 ! ?k) b = None" by (simp add: cview_def sview_def)
    from read_any [OF lv assms(4)] obtain d2 where
      rd: "read_block D b d1 = (Ret (blocks d1 b), d2)" "live d2" "blocks d2 = blocks d1" "beside d1 d2" by blast
    define y where "y = (if zero then zero_block else blocks d1 b)"
    define d3 where "d3 = (if zero then d1 else d2)"
    have d3: "live d3" "blocks d3 = blocks d1" "beside d1 d3" using rd lv beside_refl by (simp_all add: d3_def)
    have blk: "is_block y" using len [OF lv assms(4)] by (simp add: y_def)
    note s = cinv_shard [OF ci SHARDS_pos [of b]]
    have b0: "b \<noteq> 0" using assms(3) by auto
    note inst = install_ok [OF conjunct1 [OF s] fl nm sm refl b0 assms(4) blk conjunct2 [OF s], of join]
    define c3 where "c3 = upd_shard ?k (install_frame f b join y) c1"
    have run: "acquire D durable b zero join (c, d) = (Ret (f, True, join), (c3, d3))"
    proof -
      have "c3 = upd_shard ?k (upd_frame f (\<lambda>x. x\<lparr>f_data := y\<rparr>)) (upd_shard ?k (upd_frame f (\<lambda>x. x\<lparr>load_failed := False\<rparr>))
          (upd_shard ?k (\<lambda>s. lru_push_front f (lru_unlink f s)) (upd_shard ?k (\<lambda>s. s\<lparr>smap := (smap s)(b := Some f)\<rparr>)
          (upd_shard ?k (upd_frame f (\<lambda>x. x\<lparr>f_block_no := b, mapped := True, dirty := False,
            in_txn := join, f_lsn := 0, version := 0, pins := 1\<rparr>)) c1))))"
        using ci by (simp add: c3_def upd_shard_def install_frame_def enter_frame_def cinv_def)
      then show ?thesis
        using assms(2) t(1) r rd(1)
        by (simp add: acquire_def in_shard_def cleanupE_def on_dev_def zoomE_def thenE_def bindE_def y_def d3_def
            Let_def split: if_split)
    qed
    have ci3: "cinv ?n c3" unfolding c3_def
      by (rule upd_shard_cinv [where g = "install_frame f b join y", OF ci SHARDS_pos inst(1,3)])
    have cv: "cview c3 = (cview c1)(b := Some (y, False, join, 0))" unfolding c3_def
      by (rule upd_shard_one [where g = "install_frame f b join y", OF ci inst(2) refl])
    have g: "blocks d1 b = G b" using coherent_entry [OF co assms(3,4)] n1 by (simp add: entry_ok_def)
    have "coherent G W ?n c3 (blocks d3)"
      by (rule coherent_upd [OF co cv, where y = "blocks d1 b"])
         (use d3(2) g assms(5) in \<open>auto simp: entry_ok_def y_def\<close>)
    then have "ok G W c3 d3" using ci3 d3(1) by (simp add: ok_def)
    moreover have "smap (shards c3 ! ?k) b = Some f" using ci inst(4) by (simp add: c3_def upd_shard_nth cinv_def)
    moreover have "vw c3 (blocks d3) = (vw c (blocks d))(b := if zero then zero_block else vw c (blocks d) b)"
    proof
      fix b' show "vw c3 (blocks d3) b' = ((vw c (blocks d))(b := if zero then zero_block else vw c (blocks d) b)) b'"
      proof (cases "b' = b")
        case True
        have "vw c (blocks d) b = blocks d1 b" using n1 by (simp add: vw_None flip: v1)
        with True show ?thesis by (simp add: vw_def cv y_def)
      next
        case False
        have "vw c3 (blocks d3) b' = vw c1 (blocks d1) b'" by (rule vw_cong) (use False d3(2) in \<open>simp_all add: cv\<close>)
        with False v1 show ?thesis by simp
      qed
    qed
    moreover have "txns c3 = (if join then insert b (txns c) else txns c)"
      unfolding txns_upd [OF cv] shrinks_txns [OF sh] using c0 by (auto simp: in_txns)
    moreover have "lsn_below L c3" if "lsn_below L c" for L
      by (rule lsn_below_upd [OF cv]) (use shrinks_lsn [OF sh, of L] that in simp_all)
    moreover have "b \<notin> txns c" using c0 by (simp add: in_txns)
    ultimately have "acquired G W b zero join c d (f, True, join) c3 d3" using c0 by (simp add: acquired_def)
    moreover have "moved W d d3" using t(2) d3 by (auto simp: moved_def intro: beside_trans)
    ultimately show ?thesis using run by blast
  qed
qed

lemma acquire_ok:
  assumes "ok G W c d" and "0 < b" and "b < dev_count D" and "zero \<Longrightarrow> join"
  shows "\<exists>r c' d'. acquire D durable b zero join (c, d) = (r, (c', d')) \<and> moved W d d' \<and>
    (r = Killed \<and> doomed d \<or> (\<exists>a. r = Ret a \<and> acquired G W b zero join c d a c' d'))"
proof (cases "smap (shards c ! shard_for b) b")
  case None
  from acquire_miss [OF assms(1) None assms(2-4), where durable = durable] show ?thesis by blast
next
  case (Some f)
  have "live d" using assms(1) by (simp add: ok_def)
  with acquire_hit [OF assms(1) Some, of durable zero join] moved_refl show ?thesis by blast
qed

text \<open>What an operation that only looks leaves: everyone sees what they saw.\<close>

definition undisturbed :: "(u32 \<Rightarrow> block) \<Rightarrow> u32 set \<Rightarrow> cache \<Rightarrow> 'd \<Rightarrow> cache \<Rightarrow> 'd \<Rightarrow> bool" where
  "undisturbed G W c d c' d' \<longleftrightarrow> ok G W c' d' \<and> vw c' (blocks d') = vw c (blocks d) \<and> txns c' = txns c \<and>
     (\<forall>L. lsn_below L c \<longrightarrow> lsn_below L c')"

lemma unpin_ok:
  assumes "ok G W c d" and "k < SHARDS"
  shows "\<exists>c'. unpin k f (c, d) = (Ret (), (c', d)) \<and> cinv (dev_count D) c' \<and> cview c' = cview c"
proof -
  have "cinv (dev_count D) c" using assms(1) by (simp add: ok_def)
  note u = upd_frame_kept [OF this assms(2), of "\<lambda>x. x\<lparr>pins := pins x - 1\<rparr>" f]
  show ?thesis
    by (intro exI [of _ "upd_shard k (upd_frame f (\<lambda>x. x\<lparr>pins := pins x - 1\<rparr>)) c"])
       (use u in \<open>simp add: unpin_def in_shard_def keeps_links_def keeps_entry_def ent_def\<close>)
qed

lemma cache_read_ok:
  assumes "ok G W c d" and "0 < b" and "b < dev_count D"
  shows "\<exists>r c' d'. cache_read D durable b (c, d) = (r, (c', d')) \<and> moved W d d' \<and>
    (r = Killed \<and> doomed d \<or> r = Ret (vw c (blocks d) b) \<and> undisturbed G W c d c' d')"
proof -
  from acquire_ok [OF assms, of False False durable] obtain r c1 d1 where
    a: "acquire D durable b False False (c, d) = (r, (c1, d1))" "moved W d d1"
      "r = Killed \<and> doomed d \<or> (\<exists>a. r = Ret a \<and> acquired G W b False False c d a c1 d1)" by auto
  from a(3) show ?thesis
  proof (elim disjE exE conjE)
    assume r: "r = Killed" "doomed d"
    then have "cache_read D durable b (c, d) = (Killed, (c1, d1))" using a(1) by (simp add: cache_read_def)
    with r a(2) show ?thesis by blast
  next
    fix x assume r: "r = Ret x" and acq: "acquired G W b False False c d x c1 d1"
    obtain f excl joined where x: "x = (f, excl, joined)" by (cases x)
    have 1: "ok G W c1 d1" "smap (shards c1 ! shard_for b) b = Some f" "vw c1 (blocks d1) = vw c (blocks d)"
      "txns c1 = txns c" "\<forall>L. lsn_below L c \<longrightarrow> lsn_below L c1"
      using acq x by (simp_all add: acquired_def)
    have ci: "cinv (dev_count D) c1" using 1(1) by (simp add: ok_def)
    note v = cview_frame [OF ci 1(2)]
    from unpin_ok [OF 1(1) SHARDS_pos [of b], of f] obtain c2 where
      u: "unpin (shard_for b) f (c1, d1) = (Ret (), (c2, d1))" "cinv (dev_count D) c2" "cview c2 = cview c1" by blast
    have "f_data (the_frame (shard_for b) f c1) = vw c (blocks d) b"
      using v(1) 1(3) by (metis ent_def vw_Some)
    then have "cache_read D durable b (c, d) = (Ret (vw c (blocks d) b), (c2, d1))"
      using a(1) r x u(1) v(6) by (simp add: cache_read_def)
    moreover have "undisturbed G W c d c2 d1"
      using 1 u(2) cview_determines [OF u(3)] by (simp add: undisturbed_def ok_def)
    ultimately show ?thesis using a(2) by blast
  qed
qed

text \<open>
  A change of a block in the transaction. What a reader sees of it is what the function made of
  it, nothing else changes, and the disk does not get it: \<^term>\<open>G\<close> and \<^term>\<open>W\<close> are as before.
\<close>

definition modified ::
  "(u32 \<Rightarrow> block) \<Rightarrow> u32 set \<Rightarrow> u32 \<Rightarrow> block \<Rightarrow> cache \<Rightarrow> 'd \<Rightarrow> cache \<Rightarrow> 'd \<Rightarrow> bool" where
  "modified G W b x c d c' d' \<longleftrightarrow> ok G W c' d' \<and> vw c' (blocks d') = (vw c (blocks d))(b := x) \<and>
     txns c' = insert b (txns c) \<and> (\<forall>L. lsn_below L c \<longrightarrow> lsn_below L c')"

lemma cache_modify_ok:
  assumes "ok G W c d" and "0 < b" and "b < dev_count D"
    and "fn (if fresh then zero_block else vw c (blocks d) b) = (Ret (), x)" and "is_block x"
  shows "\<exists>r c' d'. cache_modify D durable b fresh True fn (c, d) = (r, (c', d')) \<and> moved W d d' \<and>
    (r = Killed \<and> doomed d \<or> r = Ret (b \<notin> txns c, None) \<and> modified G W b x c d c' d')"
proof -
  let ?k = "shard_for b"
  from acquire_ok [OF assms(1-3), of fresh True durable] obtain r c1 d1 where
    a: "acquire D durable b fresh True (c, d) = (r, (c1, d1))" "moved W d d1"
      "r = Killed \<and> doomed d \<or> (\<exists>a. r = Ret a \<and> acquired G W b fresh True c d a c1 d1)" by auto
  from a(3) show ?thesis
  proof (elim disjE exE conjE)
    assume r: "r = Killed" "doomed d"
    then have "cache_modify D durable b fresh True fn (c, d) = (Killed, (c1, d1))"
      using a(1) by (simp add: cache_modify_def Let_def)
    with r a(2) show ?thesis by blast
  next
    fix y assume r: "r = Ret y" and acq: "acquired G W b fresh True c d y c1 d1"
    obtain f excl joined where y: "y = (f, excl, joined)" by (cases y)
    have 1: "ok G W c1 d1" "smap (shards c1 ! ?k) b = Some f" "joined \<longleftrightarrow> b \<notin> txns c"
      "vw c1 (blocks d1) = (vw c (blocks d))(b := if fresh \<and> excl then zero_block else vw c (blocks d) b)"
      "txns c1 = insert b (txns c)" "\<forall>L. lsn_below L c \<longrightarrow> lsn_below L c1"
      using acq y by (simp_all add: acquired_def)
    have ci: "cinv (dev_count D) c1" and co: "coherent G W (dev_count D) c1 (blocks d1)" using 1(1) by (simp_all add: ok_def)
    note v = cview_frame [OF ci 1(2)]
    define z where "z = the_frame ?k f c1"
    define c2 where "c2 = upd_shard ?k (upd_frame f (\<lambda>y. y\<lparr>f_data := x\<rparr>)) c1"
    define c3 where "c3 = upd_shard ?k (upd_frame f (\<lambda>y. y\<lparr>version := version y + 1, dirty := dirty y \<or> False, pins := pins y - 1\<rparr>)) c2"
    have "f_data z = vw c1 (blocks d1) b" using v(1) by (metis z_def ent_def vw_Some)
    then have start: "(if fresh \<and> \<not> excl then zero_block else f_data z) = (if fresh then zero_block else vw c (blocks d) b)"
      using 1(4) by simp
    have 2: "cinv (dev_count D) c2" "cview c2 = (cview c1)(b := Some (ent (z\<lparr>f_data := x\<rparr>)))"
      unfolding c2_def
      by (rule upd_frame_mapped [OF ci 1(2), where x = z]; use v assms(5) in \<open>simp add: keeps_links_def z_def\<close>)+
    have 3: "cinv (dev_count D) c3" "cview c3 = cview c2"
      unfolding c3_def by (rule upd_frame_kept [OF 2(1) SHARDS_pos]; simp add: keeps_links_def keeps_entry_def ent_def)+
    have tz: "in_txn z"
    proof -
      have "b \<in> txns c1" using 1(5) by simp
      with v(1) show ?thesis by (simp add: in_txns ent_def z_def)
    qed
    have cv: "cview c3 = (cview c1)(b := Some (x, dirty z, True, f_lsn z))" using 2(2) 3(2) tz by (simp add: ent_def)
    have old: "cview c1 b = Some (f_data z, dirty z, True, f_lsn z)" using v(1) tz by (simp add: ent_def z_def)
    have run: "cache_modify D durable b fresh True fn (c, d) = (Ret (joined, None), (c3, d1))"
    proof -
      have fm: "finish_modify ?k f True (c2, d1) = (Ret (), (c3, d1))" by (simp add: finish_modify_def c3_def Let_def)
      have fn: "fn (if fresh \<and> \<not> excl then zero_block else f_data z) = (Ret (), x)" using assms(4) start by simp
      show ?thesis
        unfolding cache_modify_def Let_def
          bindE_Ret [where m = "acquire D durable b fresh True", OF a(1) [unfolded r y]]
        using v(6) fn fm by (cases "fresh \<and> \<not> excl") (auto simp: z_def in_shard_def c2_def)
    qed
    have "coherent G W (dev_count D) c3 (blocks d1)"
      by (rule coherent_upd [OF co cv, where y = "blocks d1 b"])
         (use coherent_entry [OF co assms(2,3)] old in \<open>simp_all add: entry_ok_def\<close>)
    moreover have "vw c3 (blocks d1) = (vw c (blocks d))(b := x)"
    proof
      fix b' show "vw c3 (blocks d1) b' = ((vw c (blocks d))(b := x)) b'"
      proof (cases "b' = b")
        case False
        have "vw c3 (blocks d1) b' = vw c1 (blocks d1) b'" by (rule vw_cong) (use False in \<open>simp_all add: cv\<close>)
        with False 1(4) show ?thesis by simp
      qed (simp add: vw_def cv)
    qed
    moreover have "txns c3 = insert b (txns c)" using txns_upd [OF cv] 1(5) by simp
    moreover have "lsn_below L c3" if "lsn_below L c" for L
      by (rule lsn_below_upd [OF cv]) (use 1(6) that old in \<open>auto simp: lsn_below_def\<close>)
    ultimately have "modified G W b x c d c3 d1" using 3(1) 1(1) by (simp add: modified_def ok_def)
    with run a(2) 1(3) show ?thesis by blast
  qed
qed

end

end
