(* ===== verification/Cache_Writeback.thy ===== *)
theory Cache_Writeback
  imports Cache_Coherence
begin

text \<open>
  Committing the frames of a transaction, and writing dirty frames back. A commit makes what
  the transaction's frames hold the committed contents; writing back brings the disk up to
  them, and nothing else can be seen of it.
\<close>

lemma txns_frame:
  assumes "cinv n c" and "b \<in> txns c"
  shows "\<exists>f. smap (shards c ! shard_for b) b = Some f \<and> in_txn (the_frame (shard_for b) f c) \<and>
    f_data (the_frame (shard_for b) f c) = vw c m b"
proof -
  from assms(2) obtain f where f: "smap (shards c ! shard_for b) b = Some f"
    by (auto simp: txns_def cview_def sview_def)
  note v = cview_frame [OF assms(1) f]
  from v(1) assms(2) have "in_txn (the_frame (shard_for b) f c)" by (simp add: in_txns ent_def)
  moreover have "f_data (the_frame (shard_for b) f c) = vw c m b" using v(1) by (metis ent_def vw_Some)
  ultimately show ?thesis using f by blast
qed

lemma copy_txn_frame_ok:
  assumes "cinv n c" and "b \<in> txns c"
  shows "copy_txn_frame b c = (Ret (vw c m b), c)"
  using txns_frame [OF assms, of m] by (auto simp: copy_txn_frame_def)

lemma copy_txn_frame_other:
  assumes "cinv n c" and "b \<notin> txns c"
  shows "copy_txn_frame b c = (Raise (not_in_txn b), c)"
proof (cases "smap (shards c ! shard_for b) b")
  case (Some f)
  with cview_frame(1) [OF assms(1) Some] assms(2) show ?thesis
    by (simp add: copy_txn_frame_def in_txns ent_def)
qed (simp add: copy_txn_frame_def)

text \<open>A committed frame is dirty, and what it holds is the new committed contents.\<close>

lemma commit_frame_ok:
  assumes "cinv n c" and "b \<in> txns c" and "coherent G W n c m"
  shows "\<exists>c'. commit_frame b lsn c = (Ret (), c') \<and> cinv n c' \<and>
    coherent (G(b := vw c m b)) (insert b W) n c' m \<and> vw c' m = vw c m \<and> txns c' = txns c - {b} \<and>
    (\<forall>L. lsn_below L c \<longrightarrow> lsn \<le> L \<longrightarrow> lsn_below L c')"
proof -
  let ?k = "shard_for b"
  from txns_frame [OF assms(1,2), of m] obtain f where
    f: "smap (shards c ! ?k) b = Some f" "in_txn (the_frame ?k f c)" "f_data (the_frame ?k f c) = vw c m b" by blast
  note v = cview_frame [OF assms(1) f(1)]
  define x where "x = the_frame ?k f c"
  define c1 where "c1 = upd_shard ?k (upd_frame f (\<lambda>x. x\<lparr>in_txn := False, f_lsn := lsn, version := version x + 1, dirty := True\<rparr>)) c"
  have 1: "cinv n c1" "cview c1 = (cview c)(b := Some (ent (x\<lparr>in_txn := False, f_lsn := lsn, version := version x + 1, dirty := True\<rparr>)))"
    unfolding c1_def by (rule upd_frame_mapped [OF assms(1) f(1), where x = x]; use v in \<open>simp add: keeps_links_def x_def\<close>)+
  then have cv: "cview c1 = (cview c)(b := Some (vw c m b, True, False, lsn))" using f(3) by (simp add: ent_def x_def)
  obtain c2 where c2: "commit_frame b lsn c = (Ret (), c2)" "cinv n c2" "cview c2 = cview c1"
    using 1(1) f(1,2) by (cases "dirty x") (simp_all add: commit_frame_def Let_def c1_def x_def)
  note same = cview_determines [OF c2(3)]
  have "coherent (G(b := vw c m b)) (insert b W) n c1 m"
    unfolding coherent_def
  proof (intro allI impI)
    fix b' assume b': "0 < b'" "b' < n"
    show "entry_ok ((G(b := vw c m b)) b') (b' \<in> insert b W) (m b') (cview c1 b')"
      using coherent_entry [OF assms(3) b'] by (cases "b' = b") (simp_all add: cv entry_ok_def)
  qed
  moreover have "vw c1 m = vw c m"
  proof
    fix b' show "vw c1 m b' = vw c m b'"
      by (cases "b' = b") (simp add: vw_def [of c1] cv, rule vw_cong, simp_all add: cv)
  qed
  ultimately show ?thesis
    using c2(1,2) same txns_upd [OF cv] lsn_below_upd [OF cv] by auto
qed

section \<open>Picks\<close>

text \<open>The cache with the frames of the blocks in \<^term>\<open>P\<close> marked clean.\<close>

definition clean_ent :: "entry \<Rightarrow> entry" where
  "clean_ent e = (case e of (x, d, t, l) \<Rightarrow> (x, False, t, l))"

definition cleaned :: "u32 set \<Rightarrow> cache \<Rightarrow> cache \<Rightarrow> bool" where
  "cleaned P c c' \<longleftrightarrow> cview c' = (\<lambda>b. if b \<in> P then map_option clean_ent (cview c b) else cview c b)"

lemma clean_ent_simps [simp]: "clean_ent (x, d, t, l) = (x, False, t, l)"
  by (simp add: clean_ent_def)

lemma cleaned_empty: "cview c' = cview c \<Longrightarrow> cleaned {} c c'"
  by (simp add: cleaned_def fun_eq_iff)

lemma cleaned_trans:
  assumes "cleaned P c c'" and "cleaned Q c' c''"
  shows "cleaned (P \<union> Q) c c''"
proof -
  have "map_option clean_ent (map_option clean_ent e) = map_option clean_ent e" for e
    by (cases e) (auto simp: clean_ent_def)
  with assms show ?thesis by (auto simp: cleaned_def fun_eq_iff)
qed

lemma cleaned_seen:
  assumes "cleaned P c c'"
  shows "vw c' m = vw c m" "txns c' = txns c" "lsn_below L c' = lsn_below L c"
    "cview c b = Some (x, d, t, l) \<Longrightarrow> cview c' b = Some (x, d \<and> b \<notin> P, t, l)"
    "cview c b = None \<Longrightarrow> cview c' b = None"
proof -
  have e: "cview c' b = (case cview c b of None \<Rightarrow> None | Some (x, d, t, l) \<Rightarrow> Some (x, d \<and> b \<notin> P, t, l))" for b
    using assms by (auto simp: cleaned_def clean_ent_def split: option.splits prod.splits)
  show "vw c' m = vw c m" by (auto simp: vw_def fun_eq_iff e split: option.splits)
  show "txns c' = txns c"
  proof (rule set_eqI)
    fix b show "b \<in> txns c' \<longleftrightarrow> b \<in> txns c" by (cases "cview c b") (auto simp: in_txns e)
  qed
  show "lsn_below L c' = lsn_below L c"
    unfolding lsn_below_def e by (fastforce split: option.splits)
  show "cview c b = Some (x, d, t, l) \<Longrightarrow> cview c' b = Some (x, d \<and> b \<notin> P, t, l)" "cview c b = None \<Longrightarrow> cview c' b = None"
    by (simp_all add: e)
qed

text \<open>Everything about a pick's frame that writing back looks at.\<close>

definition pinfo :: "cache \<Rightarrow> pick \<Rightarrow> nat option \<times> block \<times> u64 \<times> bool \<times> bool \<times> u64" where
  "pinfo c p = (let x = pick_data c p in
     (smap (shards c ! shard_for (p_block p)) (p_block p), f_data x, version x, dirty x, in_txn x, f_lsn x))"

text \<open>A pick that still stands for what was picked.\<close>

definition pick_in :: "u64 \<Rightarrow> cache \<Rightarrow> pick \<Rightarrow> bool" where
  "pick_in durable c p \<longleftrightarrow> p_shard p = shard_for (p_block p) \<and>
     smap (shards c ! shard_for (p_block p)) (p_block p) = Some (p_frame p) \<and> version (pick_data c p) = p_version p \<and>
     dirty (pick_data c p) \<and> \<not> in_txn (pick_data c p) \<and> f_lsn (pick_data c p) \<le> durable"

lemma pinfo_same:
  assumes "pinfo c' p = pinfo c p"
  shows "pick_in durable c' p = pick_in durable c p" "f_data (pick_data c' p) = f_data (pick_data c p)"
  using assms by (simp_all add: pinfo_def pick_in_def Let_def)

lemma pick_in_cview:
  assumes "cinv n c" and "pick_in durable c p"
  shows "cview c (p_block p) = Some (f_data (pick_data c p), True, False, f_lsn (pick_data c p))"
    and "0 < p_block p" "p_block p < n" "is_block (f_data (pick_data c p))"
    and "p_frame p < length (frames (shards c ! shard_for (p_block p)))" "f_block_no (pick_data c p) = p_block p"
proof -
  have sm: "smap (shards c ! shard_for (p_block p)) (p_block p) = Some (p_frame p)" using assms(2) by (simp add: pick_in_def)
  note v = cview_frame [OF assms(1) sm]
  show e: "cview c (p_block p) = Some (f_data (pick_data c p), True, False, f_lsn (pick_data c p))"
    using v(1) assms(2) by (auto simp: pick_in_def pick_data_def ent_def)
  show "0 < p_block p" "p_block p < n" "is_block (f_data (pick_data c p))"
    using cview_range [OF assms(1) e] by (simp_all add: word_neq_0_conv)
  show "p_frame p < length (frames (shards c ! shard_for (p_block p)))" "f_block_no (pick_data c p) = p_block p"
    using v(2,4) assms(2) by (auto simp: pick_in_def pick_data_def)
qed

text \<open>An update of a frame leaves a pick as it is unless it changes what writing back looks at.\<close>

lemma pinfo_upd:
  assumes "cinv n c" and "pick_in durable c q" and "k < SHARDS"
    and "k = p_shard q \<and> f = p_frame q \<Longrightarrow>
      (let x = pick_data c q; y = g x in f_data y = f_data x \<and> version y = version x \<and> dirty y = dirty x \<and>
        in_txn y = in_txn x \<and> f_lsn y = f_lsn x)"
  shows "pinfo (upd_shard k (upd_frame f g) c) q = pinfo c q"
proof -
  have sh: "p_shard q = shard_for (p_block q)" using assms(2) by (simp add: pick_in_def)
  have len: "length (shards c) = SHARDS" using assms(1) by (simp add: cinv_def)
  have s: "shards (upd_shard k (upd_frame f g) c) ! shard_for (p_block q) =
      (if k = shard_for (p_block q) then upd_frame f g (shards c ! shard_for (p_block q)) else shards c ! shard_for (p_block q))"
    by (rule upd_shard_nth(1) [OF len SHARDS_pos])
  have "pick_data (upd_shard k (upd_frame f g) c) q = (if k = p_shard q \<and> f = p_frame q then g (pick_data c q) else pick_data c q)"
    using pick_in_cview(5) [OF assms(1,2)] by (simp add: pick_data_def the_frame_def sh s nth_upd_frame)
  then show ?thesis using assms(4) by (simp add: pinfo_def Let_def s split: if_splits)
qed

text \<open>Pins come and go without anyone seeing.\<close>

lemma repin_ok:
  assumes "cinv n c" and "k < SHARDS" and "c' = upd_shard k (upd_frame f (\<lambda>x. x\<lparr>pins := g x\<rparr>)) c"
  shows "cinv n c'" "cview c' = cview c" "pick_in durable c p \<Longrightarrow> pinfo c' p = pinfo c p"
proof -
  show "cinv n c'" "cview c' = cview c"
    unfolding assms(3) by (rule upd_frame_kept [OF assms(1,2)]; simp add: keeps_links_def keeps_entry_def ent_def)+
  show "pinfo c' p = pinfo c p" if "pick_in durable c p"
    unfolding assms(3) by (rule pinfo_upd [OF assms(1) that assms(2)]) (simp add: Let_def)
qed

lemma pin_picks_ok:
  assumes "cinv n c" and "\<forall>p \<in> set ps. pick_in durable c p"
  shows "cinv n (fold pin_pick ps c) \<and> cview (fold pin_pick ps c) = cview c \<and>
    (\<forall>q. pick_in durable c q \<longrightarrow> pinfo (fold pin_pick ps c) q = pinfo c q)"
  using assms
proof (induction ps arbitrary: c)
  case (Cons p ps)
  have "p_shard p < SHARDS" using Cons.prems(2) by (simp add: pick_in_def)
  note r = repin_ok [OF Cons.prems(1) this pin_pick_def [of p, THEN fun_cong]]
  have "\<forall>q \<in> set ps. pick_in durable (pin_pick p c) q" using Cons.prems(2) r(3) pinfo_same(1) by (metis list.set_intros(2))
  from Cons.IH [OF r(1) this] r(2) show ?case
    using r(3) pinfo_same(1) by (metis (no_types, lifting) fold_simps(2))
qed simp

lemma settle_pick_ok:
  assumes "cinv n c" and "pick_in durable c p" and "coherent G W n c m" and "m (p_block p) = f_data (pick_data c p)"
  shows "cinv n (settle_pick p c)" "coherent G W n (settle_pick p c) m" "cleaned {p_block p} c (settle_pick p c)"
    "pick_in durable c q \<Longrightarrow> p_block q \<noteq> p_block p \<Longrightarrow> pinfo (settle_pick p c) q = pinfo c q"
proof -
  let ?x = "pick_data c p" and ?k = "shard_for (p_block p)"
  note v = pick_in_cview [OF assms(1,2)]
  have p: "p_shard p = ?k" "smap (shards c ! ?k) (p_block p) = Some (p_frame p)" "version ?x = p_version p" "dirty ?x" "\<not> in_txn ?x"
    using assms(2) by (simp_all add: pick_in_def)
  define c1 where "c1 = upd_shard ?k (upd_frame (p_frame p) (\<lambda>x. x\<lparr>dirty := False\<rparr>)) c"
  define c2 where "c2 = c1\<lparr>dirty_count := dirty_count c - 1\<rparr>"
  have st: "settle_pick p c = unpin_pick p c2" using p by (simp add: settle_pick_def Let_def c2_def c1_def)
  have 1: "cinv n c1" "cview c1 = (cview c)(p_block p := Some (ent (?x\<lparr>dirty := False\<rparr>)))"
    unfolding c1_def
    by (rule upd_frame_mapped [OF assms(1) p(2), where x = ?x]; use cview_frame [OF assms(1) p(2)] p(1) in
        \<open>simp add: keeps_links_def pick_data_def\<close>)+
  have 2: "cinv n c2" "cview c2 = (cview c)(p_block p := Some (f_data ?x, False, False, f_lsn ?x))"
    using 1 p(5) by (simp_all add: c2_def ent_def)
  have sh: "p_shard p < SHARDS" by (simp add: p(1))
  note 3 = repin_ok [OF 2(1) sh unpin_pick_def [of p, THEN fun_cong]]
  show ci: "cinv n (settle_pick p c)" unfolding st by (rule 3(1))
  have cv: "cview (settle_pick p c) = (cview c)(p_block p := Some (f_data ?x, False, False, f_lsn ?x))"
    unfolding st using 3(2) 2(2) by simp
  have "f_data ?x = G (p_block p)" using coherent_entry [OF assms(3) v(2,3)] v(1) by (simp add: entry_ok_def)
  with assms(3,4) show "coherent G W n (settle_pick p c) m"
    unfolding coherent_def cv by (simp add: entry_ok_def)
  show "cleaned {p_block p} c (settle_pick p c)"
    unfolding cleaned_def cv by (simp add: fun_eq_iff v(1))
  assume q: "pick_in durable c q" "p_block q \<noteq> p_block p"
  have q1: "pinfo c1 q = pinfo c q"
    unfolding c1_def
  proof (rule pinfo_upd [OF assms(1) q(1) SHARDS_pos])
    assume "?k = p_shard q \<and> p_frame p = p_frame q"
    then have "pick_data c q = pick_data c p" using p(1) by (simp add: pick_data_def)
    with v(6) pick_in_cview(6) [OF assms(1) q(1)] q(2)
    show "let x = pick_data c q; y = x\<lparr>dirty := False\<rparr> in f_data y = f_data x \<and> version y = version x \<and>
        dirty y = dirty x \<and> in_txn y = in_txn x \<and> f_lsn y = f_lsn x" by simp
  qed
  have q2: "pinfo c2 q = pinfo c1 q" by (simp add: c2_def pinfo_def pick_data_def the_frame_def Let_def)
  have "pick_in durable c2 q" using pinfo_same(1) q1 q2 q(1) by metis
  then show "pinfo (settle_pick p c) q = pinfo c q" unfolding st using 3(3) q1 q2 by simp
qed

lemma settle_picks_ok:
  assumes "cinv n c" and "\<forall>p \<in> set ps. pick_in durable c p \<and> m (p_block p) = f_data (pick_data c p)"
    and "distinct (map p_block ps)" and "coherent G W n c m"
  shows "cinv n (fold settle_pick ps c) \<and> coherent G W n (fold settle_pick ps c) m \<and>
    cleaned (p_block ` set ps) c (fold settle_pick ps c) \<and>
    (\<forall>q. pick_in durable c q \<longrightarrow> p_block q \<notin> p_block ` set ps \<longrightarrow> pinfo (fold settle_pick ps c) q = pinfo c q)"
  using assms
proof (induction ps arbitrary: c)
  case Nil
  then show ?case by (simp add: cleaned_empty)
next
  case (Cons p ps)
  have p: "pick_in durable c p" "m (p_block p) = f_data (pick_data c p)" using Cons.prems(2) by simp_all
  note s = settle_pick_ok [OF Cons.prems(1) p(1) Cons.prems(4) p(2)]
  have rest: "\<forall>q \<in> set ps. pick_in durable (settle_pick p c) q \<and> m (p_block q) = f_data (pick_data (settle_pick p c) q)"
  proof
    fix q assume q: "q \<in> set ps"
    then have "p_block q \<noteq> p_block p" using Cons.prems(3) by (metis distinct.simps(2) image_eqI list.map(2) list.set_map)
    with s(4) Cons.prems(2) q have same: "pinfo (settle_pick p c) q = pinfo c q" by simp
    show "pick_in durable (settle_pick p c) q \<and> m (p_block q) = f_data (pick_data (settle_pick p c) q)"
      using Cons.prems(2) q by (simp add: pinfo_same [OF same])
  qed
  have "distinct (map p_block ps)" using Cons.prems(3) by simp
  note ih = Cons.IH [OF s(1) rest this s(2)]
  have "pinfo (fold settle_pick ps (settle_pick p c)) q = pinfo c q"
    if "pick_in durable c q" "p_block q \<notin> p_block ` set (p # ps)" for q
  proof -
    have same: "pinfo (settle_pick p c) q = pinfo c q" using s(4) that by simp
    show ?thesis using ih that by (simp add: pinfo_same(1) [OF same] same)
  qed
  moreover have "cleaned (p_block ` set (p # ps)) c (fold settle_pick ps (settle_pick p c))"
    using cleaned_trans [OF s(3), of "p_block ` set ps"] ih by simp
  ultimately show ?case using ih by simp
qed

section \<open>Runs\<close>

text \<open>A run: picks of consecutive blocks, with their bytes in the buffer.\<close>

definition run_ok :: "u64 \<Rightarrow> cache \<Rightarrow> pick list \<Rightarrow> bytes \<Rightarrow> bool" where
  "run_ok durable c run buf \<longleftrightarrow> (\<forall>p \<in> set run. pick_in durable c p) \<and> length run \<le> RUN_BLOCKS \<and>
     (\<forall>i < length run. unat (p_block (run ! i)) = unat (p_block (hd run)) + i) \<and>
     buf = concat (map (\<lambda>p. f_data (pick_data c p)) run)"

lemma run_distinct: "run_ok durable c run buf \<Longrightarrow> distinct (map p_block run)"
  unfolding distinct_conv_nth run_ok_def by (metis add_left_cancel length_map nth_map)

lemma run_covers:
  assumes "run_ok durable c run buf"
  shows "p_block (hd run) \<le> b \<and> unat b < unat (p_block (hd run)) + length run \<longleftrightarrow> b \<in> p_block ` set run"
proof
  assume b: "p_block (hd run) \<le> b \<and> unat b < unat (p_block (hd run)) + length run"
  define i where "i = unat b - unat (p_block (hd run))"
  have i: "i < length run" "unat b = unat (p_block (hd run)) + i" using b by (auto simp: i_def word_le_nat_alt)
  then have "unat (p_block (run ! i)) = unat b" using assms by (simp add: run_ok_def)
  then show "b \<in> p_block ` set run" using i(1) by (metis image_eqI nth_mem word_unat_eq_iff)
next
  assume "b \<in> p_block ` set run"
  then obtain i where i: "i < length run" "b = p_block (run ! i)" by (auto simp: in_set_conv_nth)
  then have "unat b = unat (p_block (hd run)) + i" using assms by (simp add: run_ok_def)
  with i(1) show "p_block (hd run) \<le> b \<and> unat b < unat (p_block (hd run)) + length run"
    by (simp add: word_le_nat_alt)
qed

lemma chunk_concat:
  assumes "\<forall>x \<in> set xs. is_block x"
  shows "length (concat xs) = length xs * BLOCK_SIZE" and "i < length xs \<Longrightarrow> chunk (concat xs) i = xs ! i"
  using assms
proof (induction xs arbitrary: i)
  case (Cons x xs)
  { case 1 with Cons.IH(1) show ?case by (simp add: is_block_def) }
  { case 2 with Cons.IH(2) [of "i - 1"] show ?case
      by (cases i) (simp_all add: chunk_def get_at_def is_block_def) }
qed simp_all

lemma run_bytes:
  assumes "cinv n c" and "run_ok durable c run buf"
  shows "length buf = length run * BLOCK_SIZE" and "i < length run \<Longrightarrow> chunk buf i = f_data (pick_data c (run ! i))"
proof -
  have blk: "\<forall>x \<in> set (map (\<lambda>p. f_data (pick_data c p)) run). is_block x"
    using assms(2) pick_in_cview(4) [OF assms(1)] by (auto simp: run_ok_def)
  have buf: "buf = concat (map (\<lambda>p. f_data (pick_data c p)) run)" using assms(2) by (simp add: run_ok_def)
  show "length buf = length run * BLOCK_SIZE" using chunk_concat(1) [OF blk] buf by simp
  show "chunk buf i = f_data (pick_data c (run ! i))" if "i < length run"
    using chunk_concat(2) [OF blk, of i] buf that by simp
qed

lemma run_update_run:
  assumes "cinv n c" and "run_ok durable c run buf"
  shows "run_update m (p_block (hd run)) buf (length run) b = (if b \<in> p_block ` set run then vw c m b else m b)"
proof (cases "b \<in> p_block ` set run")
  case True
  then obtain i where i: "i < length run" "b = p_block (run ! i)" by (auto simp: in_set_conv_nth)
  have p: "pick_in durable c (run ! i)" using assms(2) i(1) by (simp add: run_ok_def)
  have "unat b - unat (p_block (hd run)) = i" using assms(2) i by (simp add: run_ok_def)
  moreover note run_bytes(2) [OF assms i(1)]
  ultimately show ?thesis
    using True run_covers [OF assms(2)] pick_in_cview(1) [OF assms(1) p] by (simp add: run_update_def vw_def i(2))
next
  case False
  with run_covers [OF assms(2)] show ?thesis by (simp add: run_update_def)
qed

lemma run_fits:
  assumes "cinv n c" and "run_ok durable c run buf" and "run \<noteq> []"
  shows "unat (p_block (hd run)) + length run \<le> unat n" "unat (of_nat (length run) :: u32) = length run"
proof -
  define i where "i = length run - 1"
  have i: "i < length run" "Suc i = length run" using assms(3) by (simp_all add: i_def)
  then have p: "unat (p_block (run ! i)) = unat (p_block (hd run)) + i" "pick_in durable c (run ! i)"
    using assms(2) by (simp_all add: run_ok_def)
  have "unat (p_block (run ! i)) < unat n" using pick_in_cview(3) [OF assms(1) p(2)] by (simp add: word_less_nat_alt)
  with p(1) i(2) show "unat (p_block (hd run)) + length run \<le> unat n" by linarith
  show "unat (of_nat (length run) :: u32) = length run"
    using assms(2) by (simp add: run_ok_def RUN_BLOCKS_def unat_of_nat)
qed

text \<open>What writing a run does: the blocks of the run are on the disk and their frames are clean.\<close>

lemma picks_in_W:
  assumes "cinv n c" and "coherent G W n c m" and "\<forall>p \<in> set run. pick_in durable c p"
  shows "p_block ` set run \<subseteq> W"
proof
  fix b assume "b \<in> p_block ` set run"
  then obtain p where p: "p \<in> set run" "b = p_block p" by blast
  note v = pick_in_cview [OF assms(1) assms(3) [rule_format, OF p(1)]]
  from coherent_entry [OF assms(2) v(2,3)] v(1) p(2) show "b \<in> W" by (simp add: entry_ok_def)
qed

context crash_dev
begin

definition wrote :: "(u32 \<Rightarrow> block) \<Rightarrow> u32 set \<Rightarrow> u32 set \<Rightarrow> cache \<Rightarrow> 'd \<Rightarrow> cache \<Rightarrow> 'd \<Rightarrow> bool" where
  "wrote G W P c d c' d' \<longleftrightarrow> ok G W c' d' \<and> vw c' (blocks d') = vw c (blocks d) \<and> cleaned P c c'"

lemma flush_run_ok:
  assumes "ok G W c d" and "run_ok durable c run buf"
  shows "\<exists>r c' d'. flush_run D run buf (c, d) = (r, (c', d')) \<and> moved W d d' \<and>
    (r = Killed \<and> doomed d \<or> r = Ret () \<and> wrote G W (p_block ` set run) c d c' d' \<and>
     (\<forall>q. pick_in durable c q \<longrightarrow> p_block q \<notin> p_block ` set run \<longrightarrow> pinfo c' q = pinfo c q))"
proof (cases "run = []")
  case True
  with assms(1) show ?thesis by (simp add: flush_run_def wrote_def cleaned_empty moved_refl ok_def)
next
  case False
  have ci: "cinv (dev_count D) c" and li: "live d" and co: "coherent G W (dev_count D) c (blocks d)"
    using assms(1) by (simp_all add: ok_def)
  have pk: "\<forall>p \<in> set run. pick_in durable c p" using assms(2) by (simp add: run_ok_def)
  let ?P = "p_block ` set run" and ?m = "\<lambda>b. if b \<in> p_block ` set run then vw c (blocks d) b else blocks d b"
  note fits = run_fits [OF ci assms(2) False]
  have inW: "?P \<subseteq> W" by (rule picks_in_W [OF ci co pk])
  have upd: "run_update (blocks d) (p_block (hd run)) buf (length run) = ?m"
    using run_update_run [OF ci assms(2)] by (rule ext)
  have n0: "(0 :: u32) < of_nat (length run)" using fits(2) False by (simp add: word_less_nat_alt)
  have le: "unat (of_nat (length run) :: u32) * BLOCK_SIZE \<le> length buf"
    using run_bytes(1) [OF ci assms(2)] fits(2) by simp
  have sum: "unat (p_block (hd run)) + unat (of_nat (length run) :: u32) \<le> unat (dev_count D)" using fits by simp
  from write_many [OF li sum n0 le] obtain r d' where
    w: "write_run D (p_block (hd run)) buf (of_nat (length run)) d = (r, d')" "live d'" "beside d d'"
      "r = Ret () \<and> blocks d' = ?m \<or> r = Killed \<and> doomed d \<and> (\<forall>b'. b' \<notin> ?P \<longrightarrow> blocks d' b' = blocks d b')"
    unfolding fits(2) run_covers [OF assms(2)] upd by blast
  have "blocks d' b = blocks d b" if "b \<notin> W" for b
  proof -
    have "b \<notin> ?P" using that inW by blast
    with w(4) show ?thesis by auto
  qed
  then have mv: "moved W d d'" using w(2,3) by (simp add: moved_def only_in_def)
  from w(4) show ?thesis
  proof (elim disjE conjE)
    assume r: "r = Killed" "doomed d"
    then have "flush_run D run buf (c, d) = (Killed, (c, d'))"
      using w(1) False by (simp add: flush_run_def on_dev_def zoomE_def thenE_def bindE_def)
    with r mv show ?thesis by blast
  next
    assume r: "r = Ret ()" "blocks d' = ?m"
    have run: "flush_run D run buf (c, d) = (Ret (), (fold settle_pick run c, d'))"
      using w(1) r False by (simp add: flush_run_def on_dev_def zoomE_def thenE_def bindE_def)
    have all: "\<forall>p \<in> set run. pick_in durable c p \<and> ?m (p_block p) = f_data (pick_data c p)"
      using pk pick_in_cview(1) [OF ci] by (auto simp: vw_def)
    have "coherent G W (dev_count D) c ?m"
      unfolding coherent_def
    proof (intro allI impI)
      fix b assume b: "0 < b" "b < dev_count D"
      show "entry_ok (G b) (b \<in> W) (?m b) (cview c b)"
      proof (cases "b \<in> ?P")
        case True
        then obtain p where p: "p \<in> set run" "b = p_block p" by blast
        from coherent_entry [OF co b] pick_in_cview(1) [OF ci pk [rule_format, OF p(1)]] p(2) True
        show ?thesis by (simp add: entry_ok_def)
      qed (use coherent_entry [OF co b] in simp)
    qed
    note s = settle_picks_ok [OF ci all run_distinct [OF assms(2)] this]
    have "vw (fold settle_pick run c) ?m = vw c ?m" using cleaned_seen(1) s by blast
    also have "\<dots> = vw c (blocks d)"
    proof
      fix b show "vw c ?m b = vw c (blocks d) b" by (auto simp: vw_def split: option.split)
    qed
    finally have "wrote G W ?P c d (fold settle_pick run c) d'"
      using s w(2) by (simp add: wrote_def ok_def r(2))
    with run mv s show ?thesis by blast
  qed
qed

lemma wrote_trans: "wrote G W P c d c1 d1 \<Longrightarrow> wrote G W Q c1 d1 c2 d2 \<Longrightarrow> wrote G W (P \<union> Q) c d c2 d2"
  using cleaned_trans by (auto simp: wrote_def)

lemma moved_doomed: "moved W d d' \<Longrightarrow> doomed d' = doomed d"
  using beside_doomed by (simp add: moved_def)

lemma run_one:
  assumes "pick_in durable c p"
  shows "run_ok durable c [p] (f_data (pick_data c p))"
  using assms by (simp add: run_ok_def RUN_BLOCKS_def)

lemma run_joins:
  assumes "cinv n c" and "run_ok durable c run buf" and "pick_in durable c p" and "run \<noteq> []"
    and "length run < RUN_BLOCKS" and "p_block p = p_block (hd run) + of_nat (length run)"
  shows "run_ok durable c (run @ [p]) (buf @ f_data (pick_data c p))"
proof -
  let ?h = "unat (p_block (hd run))"
  have le: "?h + length run \<le> 2 ^ 32"
    using le_trans [OF run_fits(1) [OF assms(1,2,4)] less_imp_le [OF unsigned_less]] by simp
  have len: "length run < 2 ^ 32" using assms(5) by (simp add: RUN_BLOCKS_def)
  have u: "unat (p_block p) = (?h + length run) mod 2 ^ 32"
    unfolding assms(6) using len by (simp add: unat_word_ariths unat_of_nat)
  have "unat (p_block p) \<noteq> 0" using pick_in_cview(2) [OF assms(1,3)] by (simp add: word_less_nat_alt)
  with u have "?h + length run \<noteq> 2 ^ 32" by auto
  with u le have "unat (p_block p) = ?h + length run" by simp
  then show ?thesis using assms(2-5) by (auto simp: run_ok_def nth_append less_Suc_eq)
qed

lemma write_back_loop_ok:
  assumes "ok G W c d" and "run_ok durable c run buf" and "\<forall>p \<in> set ps. pick_in durable c p"
    and "distinct (map p_block (run @ ps))"
  shows "\<exists>r c' d'. write_back_loop D durable run buf cnt ps (c, d) = (r, (c', d')) \<and> moved W d d' \<and>
    (r = Killed \<and> doomed d \<or>
     r = Ret (cnt + length run + length ps) \<and> wrote G W (p_block ` set (run @ ps)) c d c' d')"
  using assms
proof (induction ps arbitrary: run buf cnt c d)
  case Nil
  from flush_run_ok [OF Nil.prems(1,2)] obtain r c' d' where
    "flush_run D run buf (c, d) = (r, (c', d'))" "moved W d d'"
    "r = Killed \<and> doomed d \<or> r = Ret () \<and> wrote G W (p_block ` set run) c d c' d'" by blast
  then show ?case by (intro exI [of _ "case r of Ret _ \<Rightarrow> Ret (cnt + length run) | Halted h \<Rightarrow> Halted h"] exI [of _ c'] exI [of _ d'])
      (auto simp: thenE_def bindE_def cleanupE_def)
next
  case (Cons p ps)
  have ci: "cinv (dev_count D) c" using Cons.prems(1) by (simp add: ok_def)
  have p: "pick_in durable c p" using Cons.prems(3) by simp
  have go: "\<not> in_txn (pick_data c p) \<and> f_lsn (pick_data c p) \<le> durable" using p by (simp add: pick_in_def)
  show ?case
  proof (cases "run \<noteq> [] \<and> length run < RUN_BLOCKS \<and> p_block p = p_block (hd run) + of_nat (length run)")
    case True
    then have "run_ok durable c (run @ [p]) (buf @ f_data (pick_data c p))"
      using run_joins [OF ci Cons.prems(2) p] by blast
    from Cons.IH [OF Cons.prems(1) this, of cnt] Cons.prems(3,4) show ?thesis
      using True go by (simp add: Let_def thenE_def bindE_def getE_def)
  next
    case False
    then have eqF: "(run \<noteq> [] \<and> length run < RUN_BLOCKS \<and> p_block p = p_block (hd run) + of_nat (length run)) = False"
      by blast
    have step: "write_back_loop D durable run buf cnt (p # ps) =
      thenE (cleanupE (flush_run D run buf) (modE (\<lambda>(c, d). (fold unpin_pick (run @ p # ps) c, d))))
       (bindE (getE (\<lambda>(c, d). pick_data c p)) (\<lambda>x.
          if \<not> in_txn x \<and> f_lsn x \<le> durable then write_back_loop D durable [p] (f_data x) (cnt + length run) ps
          else thenE (cleanupE (flush_run D [] []) (modE (\<lambda>(c, d). (fold unpin_pick (p # ps) c, d))))
            (thenE (modE (\<lambda>(c, d). (unpin_pick p c, d)))
             (write_back_loop D durable [] [] (cnt + length run) ps))))"
      unfolding write_back_loop.simps Let_def eqF by (simp cong: if_cong)
    from flush_run_ok [OF Cons.prems(1,2)] obtain r c1 d1 where
      f: "flush_run D run buf (c, d) = (r, (c1, d1))" "moved W d d1"
      "r = Killed \<and> doomed d \<or> r = Ret () \<and> wrote G W (p_block ` set run) c d c1 d1 \<and>
       (\<forall>q. pick_in durable c q \<longrightarrow> p_block q \<notin> p_block ` set run \<longrightarrow> pinfo c1 q = pinfo c q)" by blast
    from f(3) show ?thesis
    proof (elim disjE conjE)
      assume "r = Killed" "doomed d"
      then show ?thesis using f(1,2) unfolding step by (simp add: thenE_def bindE_def cleanupE_def)
    next
      assume r: "r = Ret ()" and wr: "wrote G W (p_block ` set run) c d c1 d1"
        and keep: "\<forall>q. pick_in durable c q \<longrightarrow> p_block q \<notin> p_block ` set run \<longrightarrow> pinfo c1 q = pinfo c q"
      have pk: "pick_in durable c1 q" if "q \<in> set (p # ps)" for q
      proof -
        have "p_block q \<notin> p_block ` set run" using Cons.prems(4) that by auto
        then have "pinfo c1 q = pinfo c q" using keep Cons.prems(3) that by blast
        from pinfo_same(1) [OF this] Cons.prems(3) that show ?thesis by blast
      qed
      have ok1: "ok G W c1 d1" using wr by (simp add: wrote_def)
      have p1: "pick_in durable c1 p" "\<forall>q \<in> set ps. pick_in durable c1 q" using pk by simp_all
      have dist: "distinct (map p_block ([p] @ ps))" using Cons.prems(4) by simp
      from Cons.IH [OF ok1 run_one [OF p1(1)] p1(2) dist, of "cnt + length run"] obtain r2 c2 d2 where
        l: "write_back_loop D durable [p] (f_data (pick_data c1 p)) (cnt + length run) ps (c1, d1) = (r2, (c2, d2))"
        "moved W d1 d2"
        "r2 = Killed \<and> doomed d1 \<or> r2 = Ret (cnt + length run + length [p] + length ps) \<and>
         wrote G W (p_block ` set ([p] @ ps)) c1 d1 c2 d2" by blast
      have "write_back_loop D durable run buf cnt (p # ps) (c, d) = (r2, (c2, d2))"
        unfolding step using f(1) r p1(1) l(1) by (simp add: thenE_def bindE_def cleanupE_def getE_def pick_in_def)
      moreover have "moved W d d2" using moved_trans f(2) l(2) by blast
      moreover have "r2 = Killed \<and> doomed d \<or> r2 = Ret (cnt + length run + length (p # ps)) \<and>
          wrote G W (p_block ` set (run @ p # ps)) c d c2 d2"
        using l(3) wrote_trans [OF wr, of "p_block ` set ([p] @ ps)" c2 d2] moved_doomed [OF f(2)] by (auto simp: image_Un)
      ultimately show ?thesis by blast
    qed
  qed
qed

end

section \<open>What is picked\<close>

lemma shard_picks_ok:
  assumes "cinv n c" and "k < SHARDS" and "p \<in> set (shard_picks durable room k (shards c ! k))"
  shows "pick_in durable c p \<and> p_shard p = k"
proof -
  have si: "shard_inv n k (shards c ! k)" using cinv_shard [OF assms(1,2)] by simp
  from assms(3) obtain f where f: "f \<in> set (from_tail (shards c ! k))" "may_go durable (frames (shards c ! k) ! f)"
    "p = \<lparr>p_shard = k, p_frame = f, p_block = f_block_no (frames (shards c ! k) ! f), p_version = version (frames (shards c ! k) ! f)\<rparr>"
    by (auto simp: shard_picks_def dest!: in_set_takeD)
  have io: "whole_list (shards c ! k)" "map_ok (shards c ! k)" "frames_ok n k (shards c ! k)"
    using si by (simp_all add: shard_inv_def)
  have fl: "f < length (frames (shards c ! k))" using f(1) from_tail_set [OF io(1)] by simp
  have m: "mapped (frames (shards c ! k) ! f)" using f(2) by (simp add: may_go_def)
  note map_ok_find [OF io(2) fl m]
  moreover have "shard_for (f_block_no (frames (shards c ! k) ! f)) = k" using io(3) fl m by (simp add: frames_ok_def)
  ultimately show ?thesis using f(2,3) by (simp add: pick_in_def pick_data_def the_frame_def may_go_def)
qed

lemma length_lru_walk: "length (lru_walk n s p) \<le> n"
  by (induction n s p rule: lru_walk.induct) simp_all

lemma distinct_from_tail: "whole_list s \<Longrightarrow> distinct (from_tail s)"
proof -
  assume "whole_list s"
  then obtain xs where xs: "linked s xs" by (auto simp: whole_list_def)
  then have "distinct xs" by (simp add: linked_def)
  then show ?thesis by (simp add: from_tail_rev [OF xs])
qed

lemma shard_picks_distinct:
  assumes "cinv n c" and "k < SHARDS"
  shows "distinct (map p_block (shard_picks durable room k (shards c ! k)))"
proof -
  let ?s = "shards c ! k" and ?fs = "filter (\<lambda>f. may_go durable (frames (shards c ! k) ! f)) (from_tail (shards c ! k))"
  have io: "whole_list ?s" "map_ok ?s" using cinv_shard [OF assms] by (simp_all add: shard_inv_def)
  have "inj_on (\<lambda>f. f_block_no (frames ?s ! f)) (set ?fs)"
  proof (rule inj_onI)
    fix f g assume fg: "f \<in> set ?fs" "g \<in> set ?fs" and eq: "f_block_no (frames ?s ! f) = f_block_no (frames ?s ! g)"
    have "smap ?s (f_block_no (frames ?s ! x)) = Some x" if "x \<in> set ?fs" for x
      using that from_tail_set [OF io(1)] by (intro map_ok_find [OF io(2)]) (simp_all add: may_go_def)
    with fg eq show "f = g" by (metis option.inject)
  qed
  then have "distinct (map (\<lambda>f. f_block_no (frames ?s ! f)) ?fs)"
    using distinct_from_tail [OF io(1)] by (simp add: distinct_map)
  then show ?thesis unfolding shard_picks_def by (simp add: take_map [symmetric] comp_def)
qed

lemma shard_picks_all:
  assumes "cinv n c" and "cview c b = Some (x, True, False, l)" and "l \<le> durable" and "k = shard_for b"
  shows "b \<in> p_block ` set (shard_picks durable (length (frames (shards c ! k))) k (shards c ! k))"
proof -
  let ?s = "shards c ! k"
  have io: "whole_list ?s" using cinv_shard [OF assms(1) SHARDS_pos [of b]] assms(4) by (simp add: shard_inv_def)
  obtain f where f: "smap ?s b = Some f" using assms(2,4) by (auto simp: cview_def sview_def)
  note v = cview_frame [OF assms(1) f [unfolded assms(4)]]
  have go: "may_go durable (frames ?s ! f)" "f_block_no (frames ?s ! f) = b"
    using v(1,3,4) assms(2-4) by (simp_all add: ent_def may_go_def the_frame_def)
  have "length (filter (\<lambda>f. may_go durable (frames ?s ! f)) (from_tail ?s)) \<le> length (frames ?s)"
    using length_filter_le length_lru_walk unfolding from_tail_def by (rule le_trans)
  moreover have "f \<in> set (from_tail ?s)" using from_tail_set [OF io] v(2) assms(4) by simp
  ultimately show ?thesis using go by (force simp: shard_picks_def)
qed

definition picks_upto :: "u64 \<Rightarrow> nat option \<Rightarrow> nat \<Rightarrow> cache \<Rightarrow> pick list" where
  "picks_upto durable limit m c =
     foldl (\<lambda>ps k. ps @ shard_picks durable
        (case limit of None \<Rightarrow> length (frames (shards c ! k)) | Some m \<Rightarrow> m - length ps) k (shards c ! k))
       [] [0..<m]"

lemma picks_upto_ok:
  assumes "cinv n c" and "m \<le> SHARDS"
  shows "(\<forall>p \<in> set (picks_upto durable limit m c). pick_in durable c p \<and> p_shard p < m) \<and>
    distinct (map p_block (picks_upto durable limit m c)) \<and>
    (limit = None \<longrightarrow> (\<forall>b x l. cview c b = Some (x, True, False, l) \<longrightarrow> l \<le> durable \<longrightarrow> shard_for b < m \<longrightarrow>
       b \<in> p_block ` set (picks_upto durable limit m c)))"
  using assms(2)
proof (induction m)
  case 0
  then show ?case by (simp add: picks_upto_def)
next
  case (Suc m)
  define ps where "ps = picks_upto durable limit m c"
  define new where "new = shard_picks durable (case limit of None \<Rightarrow> length (frames (shards c ! m)) | Some i \<Rightarrow> i - length ps) m (shards c ! m)"
  have all: "picks_upto durable limit (Suc m) c = ps @ new"
    by (cases limit) (simp_all add: picks_upto_def ps_def new_def)
  have m: "m < SHARDS" "m \<le> SHARDS" using Suc.prems by simp_all
  have old: "\<forall>p \<in> set ps. pick_in durable c p \<and> p_shard p < m" "distinct (map p_block ps)"
    using Suc.IH [OF m(2)] by (simp_all add: ps_def)
  have nw: "\<forall>p \<in> set new. pick_in durable c p \<and> p_shard p = m" "distinct (map p_block new)"
    using shard_picks_ok [OF assms(1) m(1)] shard_picks_distinct [OF assms(1) m(1)] by (simp_all add: new_def)
  have "p_block p \<noteq> p_block q" if "p \<in> set ps" "q \<in> set new" for p q
  proof
    assume "p_block p = p_block q"
    then have "p_shard p = p_shard q" using old(1) nw(1) that by (metis pick_in_def)
    with old(1) nw(1) that show False by auto
  qed
  then have d: "distinct (map p_block (ps @ new))" using old(2) nw(2) by fastforce
  have "b \<in> p_block ` set (ps @ new)" if "limit = None" "cview c b = Some (x, True, False, l)" "l \<le> durable" "shard_for b < Suc m" for b x l
  proof (cases "shard_for b = m")
    case True
    then show ?thesis using shard_picks_all [OF assms(1) that(2,3), of m] that(1) by (auto simp: new_def)
  next
    case False
    then have "shard_for b < m" using that(4) by simp
    with Suc.IH [OF m(2)] that show ?thesis unfolding ps_def by (metis Un_iff image_Un set_append)
  qed
  with d old(1) nw(1) show ?case unfolding all by (auto simp: less_Suc_eq)
qed

lemma all_picks_ok:
  assumes "cinv n c"
  shows "\<forall>p \<in> set (all_picks durable limit c). pick_in durable c p"
    and "distinct (map p_block (all_picks durable limit c))"
    and "cview c b = Some (x, True, False, l) \<Longrightarrow> l \<le> durable \<Longrightarrow> b \<in> p_block ` set (all_picks durable None c)"
proof -
  have all: "all_picks durable limit c = picks_upto durable limit SHARDS c" for limit
    by (simp add: all_picks_def picks_upto_def)
  note ok = picks_upto_ok [OF assms order_refl]
  show "\<forall>p \<in> set (all_picks durable limit c). pick_in durable c p" "distinct (map p_block (all_picks durable limit c))"
    using ok [of durable limit] by (auto simp: all)
  show "b \<in> p_block ` set (all_picks durable None c)" if "cview c b = Some (x, True, False, l)" "l \<le> durable"
    using ok [of durable None] that by (simp add: all)
qed

context crash_dev
begin

text \<open>
  Writing back: some dirty frames reach the disk and are clean; when all are asked for, every
  frame outside the transaction whose log records are durable does.
\<close>

lemma write_back_ok:
  assumes "ok G W c d"
  shows "\<exists>r c' d'. write_back D durable limit (c, d) = (r, (c', d')) \<and> moved W d d' \<and>
    (r = Killed \<and> doomed d \<or>
     (\<exists>P. r = Ret (card P) \<and> finite P \<and> wrote G W P c d c' d' \<and>
      (limit = None \<longrightarrow> (\<forall>b x l. cview c b = Some (x, True, False, l) \<longrightarrow> l \<le> durable \<longrightarrow> b \<in> P))))"
proof -
  let ?ps = "all_picks durable limit c"
  let ?qs = "sort_key (\<lambda>p. unat (p_block p)) ?ps"
  define c1 where "c1 = fold pin_pick ?ps c"
  have ci: "cinv (dev_count D) c" using assms by (simp add: ok_def)
  note pk = all_picks_ok [OF ci, where durable = durable]
  from pin_picks_ok [OF ci pk(1)] have c1: "cinv (dev_count D) c1" "cview c1 = cview c"
    "\<forall>q. pick_in durable c q \<longrightarrow> pinfo c1 q = pinfo c q" by (simp_all add: c1_def)
  note same = cview_determines [OF c1(2)]
  have ok1: "ok G W c1 d" using assms c1(1) same(4) by (simp add: ok_def)
  have in1: "\<forall>p \<in> set ?qs. pick_in durable c1 p" using pk(1) c1(3) pinfo_same(1) by (metis set_sort)
  have dist: "distinct (map p_block ([] @ ?qs))" using pk(2) by (simp add: distinct_map)
  have nil: "run_ok durable c1 [] []" by (simp add: run_ok_def)
  from write_back_loop_ok [OF ok1 nil in1 dist, of 0] obtain r c' d' where
    l: "write_back_loop D durable [] [] 0 ?qs (c1, d) = (r, (c', d'))" "moved W d d'"
    "r = Killed \<and> doomed d \<or> r = Ret (length ?ps) \<and> wrote G W (p_block ` set ?ps) c1 d c' d'" by auto
  have run: "write_back D durable limit (c, d) = (r, (c', d'))"
    using l(1) by (simp add: write_back_def c1_def thenE_def bindE_def getE_def modE_def)
  have "length ?ps = card (p_block ` set ?ps)" using pk(2) by (metis distinct_card length_map set_map)
  moreover have "wrote G W P c d c' d'" if "wrote G W P c1 d c' d'" for P
    using that unfolding wrote_def cleaned_def c1(2) same .
  moreover have "limit = None \<longrightarrow> (\<forall>b x l. cview c b = Some (x, True, False, l) \<longrightarrow> l \<le> durable \<longrightarrow> b \<in> p_block ` set ?ps)"
    using pk(3) by blast
  ultimately show ?thesis using run l(2,3) by auto
qed

text \<open>With no transaction running and the log durable, the disk then holds the committed contents
  and nothing needs to be replayed.\<close>

lemma write_back_all:
  assumes "ok G W c d" and "txns c = {}" and "lsn_below durable c"
  shows "\<exists>r c' d'. write_back D durable None (c, d) = (r, (c', d')) \<and> moved W d d' \<and>
    (r = Killed \<and> doomed d \<or>
     (\<exists>k. r = Ret k) \<and> ok G {} c' d' \<and> txns c' = {} \<and> vw c' (blocks d') = vw c (blocks d) \<and>
     (\<forall>L. lsn_below L c \<longrightarrow> lsn_below L c') \<and> (\<forall>b. 0 < b \<longrightarrow> b < dev_count D \<longrightarrow> blocks d' b = G b))"
proof -
  from write_back_ok [OF assms(1), of durable None] obtain r c' d' where
    w: "write_back D durable None (c, d) = (r, (c', d'))" "moved W d d'"
    "r = Killed \<and> doomed d \<or> (\<exists>P. r = Ret (card P) \<and> wrote G W P c d c' d' \<and>
      (\<forall>b x l. cview c b = Some (x, True, False, l) \<longrightarrow> l \<le> durable \<longrightarrow> b \<in> P))" by auto
  from w(3) show ?thesis
  proof (elim disjE exE conjE)
    assume "r = Killed" "doomed d" with w(1,2) show ?thesis by blast
  next
    fix P assume r: "r = Ret (card P)" and wr: "wrote G W P c d c' d'"
      and P: "\<forall>b x l. cview c b = Some (x, True, False, l) \<longrightarrow> l \<le> durable \<longrightarrow> b \<in> P"
    have ok': "ok G W c' d'" and cl: "cleaned P c c'" using wr by (simp_all add: wrote_def)
    note s = cleaned_seen [OF cl]
    have clean: "\<not> dt" if c': "cview c' b = Some (x, dt, t, l)" for b x dt t l
    proof
      assume dt: "dt"
      obtain x0 d0 t0 l0 where c0: "cview c b = Some (x0, d0, t0, l0)" using s(5) [of b] c' by (cases "cview c b") auto
      then have "b \<notin> P" "d0" using s(4) [OF c0] c' dt by auto
      moreover have "\<not> t0" using assms(2) c0 in_txns [of b c] by simp
      moreover have "l0 \<le> durable" using assms(3) c0 by (auto simp: lsn_below_def)
      ultimately show False using P c0 by (metis (full_types))
    qed
    have co: "coherent G {} (dev_count D) c' (blocks d') \<and> (\<forall>b. 0 < b \<longrightarrow> b < dev_count D \<longrightarrow> blocks d' b = G b)"
    proof -
      have "entry_ok (G b) False (blocks d' b) (cview c' b) \<and> blocks d' b = G b" if b: "0 < b" "b < dev_count D" for b
      proof -
        from ok' have "entry_ok (G b) (b \<in> W) (blocks d' b) (cview c' b)" by (intro coherent_entry [OF _ b]) (simp add: ok_def)
        then show ?thesis using clean [of b] by (auto simp: entry_ok_def split: option.splits)
      qed
      then show ?thesis unfolding coherent_def empty_iff by blast
    qed
    then have "ok G {} c' d'" using ok' by (simp add: ok_def)
    then show ?thesis using w(1,2) r co wr s(2,3) assms(2) by (auto simp: wrote_def)
  qed
qed

end

end
