(* ===== verification/Journal.thy ===== *)
theory Journal
  imports Block_Device
begin

text \<open>
  The \<^verbatim>\<open>Journal\<close> interface of \<^verbatim>\<open>src/include/vfs/storage.h\<close>, through which the file system reads
  and changes blocks, as a record of operations on a state the caller does not look into. The
  engine behind it is modelled in \<^verbatim>\<open>Storage\<close>. The locale \<^verbatim>\<open>journal_store\<close> is what the layers
  above rely on: the journal shows one block of bytes per block number, a read returns it and
  a write changes that block and no other.
\<close>

record 'j journal =
  begin_op :: "('j, unit) op"
  end_op :: "('j, unit) op"
  jread :: "u32 \<Rightarrow> ('j, block) op"
  jwrite :: "u32 \<Rightarrow> bool \<Rightarrow> (block, unit) op \<Rightarrow> ('j, unit) op"
  jcommit :: "('j, unit) op"

text \<open>
  \<^verbatim>\<open>OpScope\<close>: the destructor runs \<^verbatim>\<open>end_op\<close> however the scope is left. A destructor must not
  throw, so an exception out of \<^verbatim>\<open>end_op\<close> ends the process.
\<close>

definition op_scope :: "('s, unit) op \<Rightarrow> ('s, unit) op \<Rightarrow> ('s, 'a) op \<Rightarrow> ('s, 'a) op" where
  "op_scope beg en body = thenE beg (finallyE body (catchE en (\<lambda>_. haltE Terminates)))"

locale journal_store =
  fixes J :: "'j journal" and invar :: "'j \<Rightarrow> bool" and view :: "'j \<Rightarrow> u32 \<Rightarrow> block"
    and limit :: u32
  assumes view_len: "invar s \<Longrightarrow> 0 < b \<Longrightarrow> b < limit \<Longrightarrow> is_block (view s b)"
    and read_ok: "invar s \<Longrightarrow> 0 < b \<Longrightarrow> b < limit \<Longrightarrow>
        \<exists>s'. jread J b s = (Ret (view s b), s') \<and> invar s' \<and> view s' = view s"
    and write_ok: "invar s \<Longrightarrow> 0 < b \<Longrightarrow> b < limit \<Longrightarrow>
        fn (if fresh then zero_block else view s b) = (Ret (), x) \<Longrightarrow> is_block x \<Longrightarrow>
        \<exists>s'. jwrite J b fresh fn s = (Ret (), s') \<and> invar s' \<and> view s' = (view s)(b := x)"
    and read_range: "invar s \<Longrightarrow> b = 0 \<or> \<not> b < limit \<Longrightarrow> \<exists>e. jread J b s = (Raise e, s)"
    and write_range: "invar s \<Longrightarrow> b = 0 \<or> \<not> b < limit \<Longrightarrow> \<exists>e. jwrite J b fresh fn s = (Raise e, s)"
begin

text \<open>A change of a block in place that keeps its length.\<close>

lemma modify_ok:
  assumes "invar s" "0 < b" "b < limit" "is_block (f (view s b))"
  shows "\<exists>s'. jwrite J b False (modE f) s = (Ret (), s') \<and> invar s' \<and>
    view s' = (view s)(b := f (view s b))"
  using write_ok [OF assms(1-3), of "modE f" False] assms(4) by simp

lemma fill_ok:
  assumes "invar s" "0 < b" "b < limit" "is_block (f zero_block)"
  shows "\<exists>s'. jwrite J b True (modE f) s = (Ret (), s') \<and> invar s' \<and>
    view s' = (view s)(b := f zero_block)"
  using write_ok [OF assms(1-3), of "modE f" True] assms(4) by simp

end

end
