(* ===== verification/Inode_Table.thy ===== *)
theory Inode_Table
  imports Journal Superblock Errors
begin

text \<open>
  \<^verbatim>\<open>src/src/inode_table.cpp\<close>: inodes read from and written to their slots of the inode table,
  through the journal.
\<close>

definition check_id :: "superblock \<Rightarrow> u32 \<Rightarrow> ('j, unit) op" where
  "check_id sb ino = whenE (ino = 0 \<or> ino \<ge> inode_count sb) (throwE (FsError VFS_EIO))"

definition read_inode :: "'j journal \<Rightarrow> superblock \<Rightarrow> u32 \<Rightarrow> ('j, inode) op" where
  "read_inode j sb ino =
     thenE (check_id sb ino)
    (bindE (jread j (inode_block sb ino)) (\<lambda>b.
     retE (decode_inode (get_at (inode_offset ino) INODE_SIZE b))))"

definition write_inode :: "'j journal \<Rightarrow> superblock \<Rightarrow> inode \<Rightarrow> ('j, unit) op" where
  "write_inode j sb ino =
     thenE (check_id sb (id_of ino))
     (jwrite j (inode_block sb (id_of ino)) False
        (modE (\<lambda>b. put_at (inode_offset (id_of ino)) (encode_inode ino) b)))"

definition clear_inode :: "'j journal \<Rightarrow> superblock \<Rightarrow> u32 \<Rightarrow> ('j, unit) op" where
  "clear_inode j sb ino =
     thenE (check_id sb ino)
     (jwrite j (inode_block sb ino) False
        (modE (\<lambda>b. put_at (inode_offset ino) (replicate INODE_SIZE 0) b)))"

definition is_dir :: "inode \<Rightarrow> bool" where
  "is_dir ino = (mode ino AND MODE_TYPE_MASK = MODE_DIR)"

section \<open>Slots\<close>

text \<open>Where the superblock is one \<^verbatim>\<open>plan_layout\<close> makes, the inode's block is one of the inode table's.\<close>

lemma inode_block_range:
  assumes "wf_super sb" and "ino < inode_count sb"
  shows "unat (inode_block sb ino) = unat (inode_table_start sb) + unat ino div 32"
    and "0 < inode_block sb ino" and "inode_table_start sb \<le> inode_block sb ino"
    and "inode_block sb ino < data_start sb" and "inode_block sb ino < total_blocks sb"
proof -
  obtain k where k: "unat (inode_count sb) = 32 * k" using assms(1) by (auto simp: wf_super_def dvd_def)
  have "unat ino < 32 * k" using assms(2) k by (simp add: word_less_nat_alt)
  then have lt: "unat ino div 32 < unat (inode_count sb) div 32" by (simp add: k less_mult_imp_div_less mult.commute)
  have ds: "unat (data_start sb) = unat (inode_table_start sb) + unat (inode_count sb) div 32" "data_start sb < total_blocks sb"
    "0 < unat (inode_table_start sb)"
    using assms(1) by (simp_all add: wf_super_def)
  have dv: "unat (ino div of_nat INODES_PER_BLOCK) = unat ino div 32" by (simp add: unat_div)
  have "unat (inode_table_start sb) + unat ino div 32 < 2 ^ 32"
    using lt ds(1) unat_less_2p [of "data_start sb"] by simp
  then show u: "unat (inode_block sb ino) = unat (inode_table_start sb) + unat ino div 32"
    unfolding inode_block_def unat_word_ariths(1) dv by simp
  show "0 < inode_block sb ino" "inode_table_start sb \<le> inode_block sb ino" "inode_block sb ino < data_start sb"
    using u lt ds by (simp_all add: word_less_nat_alt word_le_nat_alt)
  then show "inode_block sb ino < total_blocks sb" using ds(2) by simp
qed

definition valid_ino :: "superblock \<Rightarrow> u32 \<Rightarrow> bool" where
  "valid_ino sb ino \<longleftrightarrow> ino \<noteq> 0 \<and> ino < inode_count sb"

lemma check_id_ok: "check_id sb ino s = (if valid_ino sb ino then (Ret (), s) else (Raise (FsError VFS_EIO), s))"
  by (cases "valid_ino sb ino") (auto simp: check_id_def valid_ino_def whenE_def not_less)

text \<open>The inode in a slot of the table.\<close>

definition inode_at :: "superblock \<Rightarrow> (u32 \<Rightarrow> block) \<Rightarrow> u32 \<Rightarrow> inode" where
  "inode_at sb v ino = decode_inode (get_at (inode_offset ino) INODE_SIZE (v (inode_block sb ino)))"

definition put_inode :: "superblock \<Rightarrow> u32 \<Rightarrow> bytes \<Rightarrow> (u32 \<Rightarrow> block) \<Rightarrow> u32 \<Rightarrow> block" where
  "put_inode sb ino x v = v(inode_block sb ino := put_at (inode_offset ino) x (v (inode_block sb ino)))"

lemma inode_slots_disjoint:
  assumes "wf_super sb" and "valid_ino sb i" and "valid_ino sb j" and "i \<noteq> j" and "inode_block sb i = inode_block sb j"
  shows "inode_offset i + INODE_SIZE \<le> inode_offset j \<or> inode_offset j + INODE_SIZE \<le> inode_offset i"
proof -
  have "unat i div 32 = unat j div 32"
    using inode_block_range(1) [OF assms(1)] assms(2,3,5) unfolding valid_ino_def by (metis add_left_cancel)
  moreover have "unat i \<noteq> unat j" using assms(4) by (simp add: word_unat_eq_iff)
  ultimately have "unat i mod 32 \<noteq> unat j mod 32" by (metis div_mult_mod_eq)
  then have "Suc (unat i mod 32) \<le> unat j mod 32 \<or> Suc (unat j mod 32) \<le> unat i mod 32" by linarith
  then show ?thesis unfolding inode_offset_def by auto
qed

lemma inode_at_put:
  assumes "wf_super sb" and "valid_ino sb i" and "valid_ino sb j" and "length x = INODE_SIZE" and "is_block (v (inode_block sb i))"
  shows "inode_at sb (put_inode sb i x v) j = (if j = i then decode_inode x else inode_at sb v j)"
proof -
  have fit: "inode_offset k + length x \<le> length (v (inode_block sb i))" for k
    using inode_offset_bound [of k] assms(4,5) by (simp add: is_block_def)
  show ?thesis
  proof (cases "j = i")
    case True
    have "inode_offset i \<le> length (v (inode_block sb i))" using fit [of i] by simp
    then show ?thesis using True assms(4) by (simp add: inode_at_def put_inode_def)
  next
    case False
    show ?thesis
    proof (cases "inode_block sb j = inode_block sb i")
      case True
      have "get_at (inode_offset j) INODE_SIZE (put_at (inode_offset i) x (v (inode_block sb i))) =
          get_at (inode_offset j) INODE_SIZE (v (inode_block sb i))"
        using inode_slots_disjoint [OF assms(1,2,3)] False True fit assms(4) by (intro get_at_put_at_disjoint) auto
      with False True show ?thesis by (simp add: inode_at_def put_inode_def)
    next
      case ne: False
      then show ?thesis using False by (simp add: inode_at_def put_inode_def)
    qed
  qed
qed

section \<open>Over the journal\<close>

context journal_store
begin

lemma read_inode_ok:
  assumes "invar s" and "wf_super sb" and "total_blocks sb = limit" and "valid_ino sb ino"
  shows "\<exists>s'. read_inode J sb ino s = (Ret (inode_at sb (view s) ino), s') \<and> invar s' \<and> view s' = view s"
proof -
  note r = inode_block_range [OF assms(2), of ino]
  from read_ok [OF assms(1), of "inode_block sb ino"] r assms(3,4) obtain s' where
    "jread J (inode_block sb ino) s = (Ret (view s (inode_block sb ino)), s')" "invar s'" "view s' = view s"
    by (auto simp: valid_ino_def)
  then show ?thesis using assms(4) by (simp add: read_inode_def check_id_ok thenE_def bindE_def inode_at_def)
qed

lemma slot_write_ok:
  assumes "invar s" and "wf_super sb" and "total_blocks sb = limit" and "valid_ino sb ino" and "length x = INODE_SIZE"
  shows "\<exists>s'. jwrite J (inode_block sb ino) False (modE (\<lambda>b. put_at (inode_offset ino) x b)) s = (Ret (), s') \<and> invar s' \<and>
    view s' = put_inode sb ino x (view s)"
proof -
  note r = inode_block_range [OF assms(2), of ino]
  have b: "0 < inode_block sb ino" "inode_block sb ino < limit" using r assms(3,4) by (simp_all add: valid_ino_def)
  have blk: "is_block (view s (inode_block sb ino))" by (rule view_len [OF assms(1) b])
  have "is_block (put_at (inode_offset ino) x (view s (inode_block sb ino)))"
    using blk inode_offset_bound [of ino] assms(5) length_put_at [of "inode_offset ino" x "view s (inode_block sb ino)"]
    by (simp add: is_block_def)
  from modify_ok [where f = "\<lambda>b. put_at (inode_offset ino) x b", OF assms(1) b this] show ?thesis
    by (simp add: put_inode_def)
qed

lemma write_inode_ok:
  assumes "invar s" and "wf_super sb" and "total_blocks sb = limit" and "valid_ino sb (id_of ino)" and "wf_inode ino"
  shows "\<exists>s'. write_inode J sb ino s = (Ret (), s') \<and> invar s' \<and> view s' = put_inode sb (id_of ino) (encode_inode ino) (view s)"
  using slot_write_ok [OF assms(1-4), of "encode_inode ino"] assms(4,5)
  by (auto simp: write_inode_def check_id_ok thenE_def bindE_def)

lemma clear_inode_ok:
  assumes "invar s" and "wf_super sb" and "total_blocks sb = limit" and "valid_ino sb ino"
  shows "\<exists>s'. clear_inode J sb ino s = (Ret (), s') \<and> invar s' \<and> view s' = put_inode sb ino (replicate INODE_SIZE 0) (view s)"
  using slot_write_ok [OF assms(1-4), of "replicate INODE_SIZE 0"] assms(4)
  by (auto simp: clear_inode_def check_id_ok thenE_def bindE_def)

lemma inode_store_law:
  assumes "invar s" and "wf_super sb" and "total_blocks sb = limit" and "valid_ino sb (id_of ino)" and "wf_inode ino"
  shows "\<exists>s'. write_inode J sb ino s = (Ret (), s') \<and> invar s' \<and>
    (\<forall>k. valid_ino sb k \<longrightarrow> fst (read_inode J sb k s') = (if k = id_of ino then Ret ino else fst (read_inode J sb k s)))"
proof -
  from write_inode_ok [OF assms] obtain s' where
    w: "write_inode J sb ino s = (Ret (), s')" "invar s'" "view s' = put_inode sb (id_of ino) (encode_inode ino) (view s)" by blast
  have blk: "is_block (view s (inode_block sb (id_of ino)))"
    using view_len [OF assms(1)] inode_block_range [OF assms(2), of "id_of ino"] assms(3,4) by (simp add: valid_ino_def)
  have "fst (read_inode J sb k s') = (if k = id_of ino then Ret ino else fst (read_inode J sb k s))" if k: "valid_ino sb k" for k
    using read_inode_ok [OF w(2) assms(2,3) k] read_inode_ok [OF assms(1-3) k] assms(5)
      inode_at_put [where v = "view s" and x = "encode_inode ino", OF assms(2,4) k _ blk] w(3)
      decode_encode_inode [OF assms(5), of "[]"] by auto
  with w show ?thesis by blast
qed

end

end
