(* ===== verification/Alloc.thy ===== *)
theory Alloc
  imports Inode_Table
begin

text \<open>
  \<^verbatim>\<open>src/src/alloc.cpp\<close>: free blocks and inodes, lowest number first. The allocator keeps both
  bitmaps in memory and makes every change to the bitmap blocks too, through the journal. Its
  state is the allocator and the journal's.
\<close>

definition flip :: "u32 \<Rightarrow> bool \<Rightarrow> block \<Rightarrow> block" where
  "flip i v b =
     (let k = unat i mod BITS_PER_BLOCK; mask = push_bit (k mod 8) (1 :: byte) in
      b[k div 8 := (if v then b ! (k div 8) OR mask else b ! (k div 8) AND NOT mask)])"

definition journal_set_bit :: "'j journal \<Rightarrow> u32 \<Rightarrow> u32 \<Rightarrow> bool \<Rightarrow> ('j, unit) op" where
  "journal_set_bit j region_start i v =
     jwrite j (region_start + i div of_nat BITS_PER_BLOCK) False (modE (flip i v))"

definition journal_reader :: "'j journal \<Rightarrow> u32 \<Rightarrow> 'j device" where
  "journal_reader j nblocks =
     (let wr = (\<lambda>_ _. throwE (LogicError ''JournalReader is read-only'')) in
      \<lparr>read_block = jread j, write_block = wr, write_run = default_write_run wr, dev_sync = retE (),
       dev_count = nblocks\<rparr>)"

record allocator =
  a_sb :: superblock
  a_inodes :: bitmap
  a_blocks :: bitmap

type_synonym 'j alloc_state = "allocator \<times> 'j"

definition on_journal :: "('j, 'a) op \<Rightarrow> ('j alloc_state, 'a) op" where
  "on_journal = zoomE snd (\<lambda>j s. (fst s, j))"

definition on_inodes :: "(bitmap, 'a) op \<Rightarrow> ('j alloc_state, 'a) op" where
  "on_inodes = zoomE (\<lambda>s. a_inodes (fst s)) (\<lambda>bm s. ((fst s)\<lparr>a_inodes := bm\<rparr>, snd s))"

definition on_blocks :: "(bitmap, 'a) op \<Rightarrow> ('j alloc_state, 'a) op" where
  "on_blocks = zoomE (\<lambda>s. a_blocks (fst s)) (\<lambda>bm s. ((fst s)\<lparr>a_blocks := bm\<rparr>, snd s))"

definition alloc_new :: "'j journal \<Rightarrow> superblock \<Rightarrow> ('j, allocator) op" where
  "alloc_new j sb =
     (let reader = journal_reader j (total_blocks sb) in
      bindE (bm_load reader (inode_bitmap_start sb) (bitmap_new (inode_count sb))) (\<lambda>inodes.
      bindE (bm_load reader (data_bitmap_start sb) (bitmap_new (total_blocks sb))) (\<lambda>blocks.
      retE \<lparr>a_sb = sb, a_inodes = inodes, a_blocks = blocks\<rparr>)))"

definition alloc_block :: "'j journal \<Rightarrow> ('j alloc_state, u32) op" where
  "alloc_block j =
     bindE (getE (\<lambda>(a, _). (a_sb a, find_first_free (a_blocks a)))) (\<lambda>(sb, r). case r of
         None \<Rightarrow> throwE (FsError VFS_ENOSPC)
       | Some b \<Rightarrow>
           if b < data_start sb then throwE (FsError VFS_EIO)
           else thenE (on_blocks (set_bit_in b))
               (thenE (on_journal (journal_set_bit j (data_bitmap_start sb) b True))
               (retE b)))"

definition alloc_inode :: "'j journal \<Rightarrow> ('j alloc_state, u32) op" where
  "alloc_inode j =
     bindE (getE (\<lambda>(a, _). (a_sb a, find_first_free (a_inodes a)))) (\<lambda>(sb, r). case r of
         None \<Rightarrow> throwE (FsError VFS_ENOSPC)
       | Some ino \<Rightarrow>
           if ino = 0 then throwE (FsError VFS_EIO)
           else thenE (on_inodes (set_bit_in ino))
               (thenE (on_journal (journal_set_bit j (inode_bitmap_start sb) ino True))
               (retE ino)))"

text \<open>The first loop of \<^verbatim>\<open>free_blocks\<close>, over the sorted list; \<^term>\<open>prev\<close> is the entry before.\<close>

fun check_frees :: "superblock \<Rightarrow> u32 option \<Rightarrow> u32 list \<Rightarrow> ('j alloc_state, unit) op" where
  "check_frees sb prev [] = retE ()"
| "check_frees sb prev (b # bs) =
     (if prev = Some b \<or> b < data_start sb \<or> b \<ge> total_blocks sb then throwE (FsError VFS_EIO)
      else bindE (on_blocks (is_set b)) (\<lambda>used.
        if \<not> used then throwE (FsError VFS_EIO) else check_frees sb (Some b) bs))"

text \<open>The second loop: one journal write for the run of blocks that share a bitmap block.\<close>

function free_runs :: "'j journal \<Rightarrow> superblock \<Rightarrow> u32 list \<Rightarrow> ('j alloc_state, unit) op" where
  "free_runs j sb [] = retE ()"
| "free_runs j sb (b # bs) =
     (let map_block = b div of_nat BITS_PER_BLOCK;
          run = takeWhile (\<lambda>x. x div of_nat BITS_PER_BLOCK = map_block) (b # bs);
          rest = dropWhile (\<lambda>x. x div of_nat BITS_PER_BLOCK = map_block) (b # bs)
      in thenE (on_journal (jwrite j (data_bitmap_start sb + map_block) False
                  (modE (fold (\<lambda>x. flip x False) run))))
        (thenE (forE run (\<lambda>x. on_blocks (clear_bit_in x)))
        (free_runs j sb rest)))"
  by pat_completeness auto
termination
  by (relation "measure (\<lambda>(j, sb, bs). length bs)") (auto simp: le_imp_less_Suc length_dropWhile_le)

definition free_blocks :: "'j journal \<Rightarrow> u32 list \<Rightarrow> ('j alloc_state, unit) op" where
  "free_blocks j blocks =
     (if blocks = [] then retE ()
      else bindE (getE (\<lambda>(a, _). a_sb a)) (\<lambda>sb.
        thenE (check_frees sb None (sort blocks)) (free_runs j sb (sort blocks))))"

definition free_inode :: "'j journal \<Rightarrow> u32 \<Rightarrow> ('j alloc_state, unit) op" where
  "free_inode j ino =
     bindE (getE (\<lambda>(a, _). a_sb a)) (\<lambda>sb.
     if ino = 0 \<or> ino \<ge> inode_count sb then throwE (FsError VFS_EIO)
     else bindE (on_inodes (is_set ino)) (\<lambda>used.
       if \<not> used then throwE (FsError VFS_EIO)
       else thenE (on_inodes (clear_bit_in ino))
           (on_journal (journal_set_bit j (inode_bitmap_start sb) ino False))))"

section \<open>Bits on the disk\<close>

lemma block_bit_flip:
  assumes "is_block b" and "k < 32768"
  shows "block_bit (flip i v b) k = (if k = unat i mod 32768 then v else block_bit b k)"
proof -
  define m where "m = unat i mod 32768"
  have m: "m div 8 < length b" "k div 8 < length b" using assms by (simp_all add: m_def is_block_def less_mult_imp_div_less)
  have bit: "bit (push_bit (m mod 8) (1 :: byte)) j \<longleftrightarrow> j = m mod 8" if "j < 8" for j
    using that by (auto simp: bit_simps)
  have km: "k div 8 = m div 8 \<Longrightarrow> k mod 8 = m mod 8 \<longleftrightarrow> k = m" by (metis div_mult_mod_eq)
  have k8: "k mod 8 < LENGTH(8)" by simp
  show ?thesis
  proof (cases "k div 8 = m div 8")
    case True
    then show ?thesis
      using m km bit [of "k mod 8"] unfolding flip_def Let_def block_bit_def layout_numbers m_def [symmetric]
      by (auto simp: bit_or_iff bit_and_iff bit_not_iff)
  next
    case False
    then have "k \<noteq> m" by auto
    with False m show ?thesis unfolding flip_def Let_def block_bit_def layout_numbers m_def [symmetric] by simp
  qed
qed

lemma is_block_flip [simp]: "is_block (flip i v b) = is_block b"
  by (simp add: flip_def is_block_def Let_def)

lemma is_block_fold_flip [simp]: "is_block (fold (\<lambda>x. flip x v) xs b) = is_block b"
  by (induction xs arbitrary: b) simp_all

lemma block_bit_fold_flip:
  assumes "is_block b" and "k < 32768"
  shows "block_bit (fold (\<lambda>x. flip x v) xs b) k = (if k \<in> (\<lambda>x. unat x mod 32768) ` set xs then v else block_bit b k)"
  using assms(1)
proof (induction xs arbitrary: b)
  case (Cons x xs)
  have "is_block (flip x v b)" using Cons.prems by simp
  from Cons.IH [OF this] block_bit_flip [OF Cons.prems assms(2)] show ?case by auto
qed simp

text \<open>A bitmap in memory that agrees with its region of the disk.\<close>

definition map_block :: "u32 \<Rightarrow> u32 \<Rightarrow> u32" where
  "map_block start i = start + i div of_nat BITS_PER_BLOCK"

definition bm_ok :: "(u32 \<Rightarrow> block) \<Rightarrow> u32 \<Rightarrow> u32 \<Rightarrow> bitmap \<Rightarrow> bool" where
  "bm_ok v start n bm \<longleftrightarrow> wf_bitmap bm \<and> nbits bm = n \<and>
     (\<forall>i < n. i \<in> used bm \<longleftrightarrow> block_bit (v (map_block start i)) (unat i mod 32768))"

definition in_region :: "u32 \<Rightarrow> u32 \<Rightarrow> u32 \<Rightarrow> bool" where
  "in_region start n b \<longleftrightarrow> unat start \<le> unat b \<and> unat b < unat start + unat (blocks_for n)"

lemma map_block_region:
  assumes "unat start + unat (blocks_for n) \<le> unat (c :: u32)" and "i < n"
  shows "unat (map_block start i) = unat start + unat i div 32768" "in_region start n (map_block start i)"
    "map_block start i < c"
proof -
  have "unat i < unat n" using assms(2) by (simp add: word_less_nat_alt)
  then have lt: "unat i div 32768 < unat (blocks_for n)" unfolding blocks_for_unat by linarith
  have dv: "unat (i div of_nat BITS_PER_BLOCK) = unat i div 32768" by (simp add: unat_div)
  have "unat start + unat i div 32768 < 2 ^ 32" using lt assms(1) unat_less_2p [of c] by simp
  then show u: "unat (map_block start i) = unat start + unat i div 32768"
    unfolding map_block_def unat_word_ariths(1) dv by simp
  show "in_region start n (map_block start i)" "map_block start i < c"
    using u lt assms(1) by (simp_all add: in_region_def word_less_nat_alt)
qed

lemma bm_ok_cong:
  assumes "bm_ok v start n bm" and "unat start + unat (blocks_for n) \<le> unat (c :: u32)"
    and "\<And>b. in_region start n b \<Longrightarrow> v' b = v b"
  shows "bm_ok v' start n bm"
  using assms(1) map_block_region(2) [OF assms(2)] assms(3) by (simp add: bm_ok_def)

text \<open>Bits of one bitmap block set or cleared, in memory and on the disk.\<close>

lemma bm_ok_flips:
  assumes "bm_ok v start n bm" and "unat start + unat (blocks_for n) \<le> unat (c :: u32)"
    and "\<forall>x \<in> set xs. x < n \<and> map_block start x = mb" and "is_block (v mb)"
    and "wf_bitmap bm'" "nbits bm' = n" "used bm' = (if val then used bm \<union> set xs else used bm - set xs)"
  shows "bm_ok (v(mb := fold (\<lambda>x. flip x val) xs (v mb))) start n bm'"
  unfolding bm_ok_def
proof (intro conjI allI impI)
  show "wf_bitmap bm'" "nbits bm' = n" by fact+
  fix i assume i: "i < n"
  let ?v = "v(mb := fold (\<lambda>x. flip x val) xs (v mb))"
  have old: "i \<in> used bm \<longleftrightarrow> block_bit (v (map_block start i)) (unat i mod 32768)" using assms(1) i by (simp add: bm_ok_def)
  show "i \<in> used bm' \<longleftrightarrow> block_bit (?v (map_block start i)) (unat i mod 32768)"
  proof (cases "map_block start i = mb")
    case True
    have "unat i mod 32768 \<in> (\<lambda>x. unat x mod 32768) ` set xs \<longleftrightarrow> i \<in> set xs"
    proof
      assume "unat i mod 32768 \<in> (\<lambda>x. unat x mod 32768) ` set xs"
      then obtain x where x: "x \<in> set xs" "unat x mod 32768 = unat i mod 32768" by auto
      then have "unat start + unat x div 32768 = unat start + unat i div 32768"
        using map_block_region(1) [OF assms(2)] assms(3) i True by metis
      then have "unat x = unat i" using x(2) by (metis add_left_cancel div_mult_mod_eq)
      then have "x = i" by (simp only: word_unat_eq_iff)
      with x(1) show "i \<in> set xs" by simp
    qed auto
    moreover have "unat i mod 32768 < 32768" by simp
    ultimately show ?thesis
      using True old block_bit_fold_flip [OF assms(4)] assms(7) by auto
  next
    case False
    then have "i \<notin> set xs" using assms(3) by auto
    with False old assms(7) show ?thesis by auto
  qed
qed


section \<open>The allocator's invariant\<close>

lemma super_regions:
  assumes "wf_super sb"
  shows "unat (inode_bitmap_start sb) + unat (blocks_for (inode_count sb)) \<le> unat (total_blocks sb)"
    and "unat (data_bitmap_start sb) + unat (blocks_for (total_blocks sb)) \<le> unat (total_blocks sb)"
    and "0 < unat (inode_bitmap_start sb)" and "0 < unat (data_bitmap_start sb)"
    and "in_region (inode_bitmap_start sb) (inode_count sb) b \<Longrightarrow> \<not> in_region (data_bitmap_start sb) (total_blocks sb) b"
  using assms by (auto simp: wf_super_def in_region_def word_less_nat_alt)

text \<open>The two bitmaps agree with the disk; the blocks of the layout and inode 0 are never free.\<close>

definition alloc_ok :: "superblock \<Rightarrow> (u32 \<Rightarrow> block) \<Rightarrow> allocator \<Rightarrow> bool" where
  "alloc_ok sb v a \<longleftrightarrow> a_sb a = sb \<and>
     bm_ok v (inode_bitmap_start sb) (inode_count sb) (a_inodes a) \<and>
     bm_ok v (data_bitmap_start sb) (total_blocks sb) (a_blocks a) \<and>
     (\<forall>b < data_start sb. b \<in> used (a_blocks a)) \<and> 0 \<in> used (a_inodes a)"

text \<open>What a change of the block bitmap keeps, and what a change of the inode bitmap keeps.\<close>

lemma alloc_ok_blocks:
  assumes "alloc_ok sb v a" and "wf_super sb" and "in_region (data_bitmap_start sb) (total_blocks sb) mb"
    and "bm_ok (v(mb := x)) (data_bitmap_start sb) (total_blocks sb) bm" and "\<forall>b < data_start sb. b \<in> used bm"
  shows "alloc_ok sb (v(mb := x)) (a\<lparr>a_blocks := bm\<rparr>)"
proof -
  have "bm_ok (v(mb := x)) (inode_bitmap_start sb) (inode_count sb) (a_inodes a)"
  proof (rule bm_ok_cong [OF _ super_regions(1) [OF assms(2)]])
    show "bm_ok v (inode_bitmap_start sb) (inode_count sb) (a_inodes a)" using assms(1) by (simp add: alloc_ok_def)
    fix b assume "in_region (inode_bitmap_start sb) (inode_count sb) b"
    then have "b \<noteq> mb" using super_regions(5) [OF assms(2)] assms(3) by blast
    then show "(v(mb := x)) b = v b" by simp
  qed
  with assms show ?thesis by (simp add: alloc_ok_def)
qed

lemma alloc_ok_inodes:
  assumes "alloc_ok sb v a" and "wf_super sb" and "in_region (inode_bitmap_start sb) (inode_count sb) mb"
    and "bm_ok (v(mb := x)) (inode_bitmap_start sb) (inode_count sb) bm" and "0 \<in> used bm"
  shows "alloc_ok sb (v(mb := x)) (a\<lparr>a_inodes := bm\<rparr>)"
proof -
  have "bm_ok (v(mb := x)) (data_bitmap_start sb) (total_blocks sb) (a_blocks a)"
  proof (rule bm_ok_cong [OF _ super_regions(2) [OF assms(2)]])
    show "bm_ok v (data_bitmap_start sb) (total_blocks sb) (a_blocks a)" using assms(1) by (simp add: alloc_ok_def)
    fix b assume "in_region (data_bitmap_start sb) (total_blocks sb) b"
    then have "b \<noteq> mb" using super_regions(5) [OF assms(2)] assms(3) by blast
    then show "(v(mb := x)) b = v b" by simp
  qed
  with assms show ?thesis by (simp add: alloc_ok_def)
qed

lemma alloc_ok_cong:
  assumes "alloc_ok sb v a" and "wf_super sb"
    and "\<And>b. in_region (inode_bitmap_start sb) (inode_count sb) b \<or> in_region (data_bitmap_start sb) (total_blocks sb) b \<Longrightarrow> v' b = v b"
  shows "alloc_ok sb v' a"
  using assms bm_ok_cong [OF _ super_regions(1) [OF assms(2)], of v "a_inodes a" v']
    bm_ok_cong [OF _ super_regions(2) [OF assms(2)], of v "a_blocks a" v'] by (simp add: alloc_ok_def)

lemma on_blocks_run: "on_blocks m (a, s) = (case m (a_blocks a) of (r, bm) \<Rightarrow> (r, (a\<lparr>a_blocks := bm\<rparr>, s)))"
  by (simp add: on_blocks_def zoomE_def)

lemma on_inodes_run: "on_inodes m (a, s) = (case m (a_inodes a) of (r, bm) \<Rightarrow> (r, (a\<lparr>a_inodes := bm\<rparr>, s)))"
  by (simp add: on_inodes_def zoomE_def)

lemma on_journal_run: "on_journal m (a, s) = (case m s of (r, s') \<Rightarrow> (r, (a, s')))"
  by (simp add: on_journal_def zoomE_def)

text \<open>The loop that checks a list of blocks to be freed, for a sorted list: it changes nothing.\<close>

lemma check_frees_ok:
  assumes "wf_bitmap (a_blocks a)" and "nbits (a_blocks a) = total_blocks sb" and "sorted xs"
    and "\<forall>p. prev = Some p \<longrightarrow> (\<forall>x \<in> set xs. p \<le> x)"
  shows "check_frees sb prev xs (a, s) =
    (if distinct xs \<and> (\<forall>p. prev = Some p \<longrightarrow> p \<notin> set xs) \<and>
        (\<forall>x \<in> set xs. data_start sb \<le> x \<and> x < total_blocks sb \<and> x \<in> used (a_blocks a))
     then Ret () else Raise (FsError VFS_EIO), (a, s))"
  using assms(3,4)
proof (induction xs arbitrary: prev)
  case (Cons b bs)
  have sorted: "sorted bs" "\<forall>p. Some b = Some p \<longrightarrow> (\<forall>x \<in> set bs. p \<le> x)" using Cons.prems by auto
  show ?case
  proof (cases "prev = Some b \<or> b < data_start sb \<or> b \<ge> total_blocks sb")
    case True
    then show ?thesis by (auto simp: not_le not_less)
  next
    case False
    then have lt: "b < nbits (a_blocks a)" using assms(2) by (simp add: not_le)
    have run: "on_blocks (is_set b) (a, s) = (Ret (b \<in> used (a_blocks a)), (a, s))"
      by (simp add: on_blocks_run is_set_in [OF assms(1) lt])
    have pre: "p \<notin> set bs" if "prev = Some p" for p
      using Cons.prems that False by (auto dest: order_antisym)
    show ?thesis using False pre by (auto simp: run bindE_def Cons.IH [OF sorted] not_less)
  qed
qed simp

lemma clear_each:
  assumes "wf_bitmap (a_blocks a)" and "\<forall>x \<in> set xs. x < nbits (a_blocks a)"
  shows "\<exists>bm. forE xs (\<lambda>x. on_blocks (clear_bit_in x)) (a, s) = (Ret (), (a\<lparr>a_blocks := bm\<rparr>, s)) \<and> wf_bitmap bm \<and>
    nbits bm = nbits (a_blocks a) \<and> used bm = used (a_blocks a) - set xs"
  using assms
proof (induction xs arbitrary: a)
  case Nil
  then show ?case by (intro exI [of _ "a_blocks a"]) simp
next
  case (Cons x xs)
  from clear_bit_in_ok [OF Cons.prems(1), of x] Cons.prems(2) obtain bm where
    1: "clear_bit_in x (a_blocks a) = (Ret (), bm)" "wf_bitmap bm" "nbits bm = nbits (a_blocks a)" "used bm = used (a_blocks a) - {x}" by auto
  from Cons.IH [of "a\<lparr>a_blocks := bm\<rparr>"] Cons.prems(2) 1(2,3) obtain bm2 where
    2: "forE xs (\<lambda>x. on_blocks (clear_bit_in x)) (a\<lparr>a_blocks := bm\<rparr>, s) = (Ret (), (a\<lparr>a_blocks := bm2\<rparr>, s))" "wf_bitmap bm2"
    "nbits bm2 = nbits bm" "used bm2 = used bm - set xs" by auto
  then show ?case using 1 by (intro exI [of _ bm2]) (auto simp: thenE_def bindE_def on_blocks_run)
qed


section \<open>Over the journal\<close>

lemma blocks_map:
  assumes "wf_super sb" and "i < total_blocks sb"
  shows "0 < map_block (data_bitmap_start sb) i" "map_block (data_bitmap_start sb) i < total_blocks sb"
    "in_region (data_bitmap_start sb) (total_blocks sb) (map_block (data_bitmap_start sb) i)"
  using map_block_region [OF super_regions(2) [OF assms(1)] assms(2)] super_regions(4) [OF assms(1)]
  by (simp_all add: word_less_nat_alt)

lemma inodes_map:
  assumes "wf_super sb" and "i < inode_count sb"
  shows "0 < map_block (inode_bitmap_start sb) i" "map_block (inode_bitmap_start sb) i < total_blocks sb"
    "in_region (inode_bitmap_start sb) (inode_count sb) (map_block (inode_bitmap_start sb) i)"
  using map_block_region [OF super_regions(1) [OF assms(1)] assms(2)] super_regions(3) [OF assms(1)]
  by (simp_all add: word_less_nat_alt)

text \<open>What a change of the block bitmap, or of the inode bitmap, promises of the blocks.\<close>

definition region_only :: "u32 \<Rightarrow> u32 \<Rightarrow> (u32 \<Rightarrow> block) \<Rightarrow> (u32 \<Rightarrow> block) \<Rightarrow> bool" where
  "region_only start n v v' \<longleftrightarrow> (\<forall>b. \<not> in_region start n b \<longrightarrow> v' b = v b)"

lemma region_only_upd: "in_region start n mb \<Longrightarrow> region_only start n v (v(mb := x))"
  by (auto simp: region_only_def)

lemma region_only_refl [simp]: "region_only start n v v"
  by (simp add: region_only_def)

lemma region_only_trans: "region_only start n v v' \<Longrightarrow> region_only start n v' v'' \<Longrightarrow> region_only start n v v''"
  by (simp add: region_only_def)

definition blocks_changed :: "superblock \<Rightarrow> (u32 \<Rightarrow> block) \<Rightarrow> allocator \<Rightarrow> (u32 \<Rightarrow> block) \<Rightarrow> allocator \<Rightarrow> u32 set \<Rightarrow> bool" where
  "blocks_changed sb v a v' a' u \<longleftrightarrow> alloc_ok sb v' a' \<and> a_inodes a' = a_inodes a \<and> used (a_blocks a') = u \<and>
     region_only (data_bitmap_start sb) (total_blocks sb) v v'"

definition inodes_changed :: "superblock \<Rightarrow> (u32 \<Rightarrow> block) \<Rightarrow> allocator \<Rightarrow> (u32 \<Rightarrow> block) \<Rightarrow> allocator \<Rightarrow> u32 set \<Rightarrow> bool" where
  "inodes_changed sb v a v' a' u \<longleftrightarrow> alloc_ok sb v' a' \<and> a_blocks a' = a_blocks a \<and> used (a_inodes a') = u \<and>
     region_only (inode_bitmap_start sb) (inode_count sb) v v'"

context journal_store
begin

lemma flips_ok:
  assumes "invar s" and "0 < mb" and "mb < limit"
  shows "\<exists>s'. jwrite J mb False (modE (fold (\<lambda>x. flip x val) xs)) s = (Ret (), s') \<and> invar s' \<and>
    view s' = (view s)(mb := fold (\<lambda>x. flip x val) xs (view s mb))"
  using modify_ok [where f = "fold (\<lambda>x. flip x val) xs", OF assms] view_len [OF assms] by simp

lemma journal_set_bit_ok:
  assumes "invar s" and "0 < map_block start i" and "map_block start i < limit"
  shows "\<exists>s'. journal_set_bit J start i val s = (Ret (), s') \<and> invar s' \<and>
    view s' = (view s)(map_block start i := fold (\<lambda>x. flip x val) [i] (view s (map_block start i)))"
proof -
  have f: "fold (\<lambda>x. flip x val) [i] = flip i val" by simp
  show ?thesis using flips_ok [OF assms, of val "[i]"] unfolding journal_set_bit_def map_block_def [symmetric] f .
qed

lemma alloc_block_ok:
  assumes "invar s" and "wf_super sb" and "total_blocks sb = limit" and "alloc_ok sb (view s) a"
  shows "case find_first_free (a_blocks a) of
      None \<Rightarrow> used (a_blocks a) = {b. b < limit} \<and> alloc_block J (a, s) = (Raise (FsError VFS_ENOSPC), (a, s))
    | Some b \<Rightarrow> data_start sb \<le> b \<and> b < limit \<and> b \<notin> used (a_blocks a) \<and> (\<forall>x < b. x \<in> used (a_blocks a)) \<and>
        (\<exists>a' s'. alloc_block J (a, s) = (Ret b, (a', s')) \<and> invar s' \<and>
          blocks_changed sb (view s) a (view s') a' (insert b (used (a_blocks a))))"
proof -
  have a: "a_sb a = sb" "wf_bitmap (a_blocks a)" "nbits (a_blocks a) = limit" "bm_ok (view s) (data_bitmap_start sb) (total_blocks sb) (a_blocks a)"
    "\<forall>b < data_start sb. b \<in> used (a_blocks a)"
    using assms(3,4) by (simp_all add: alloc_ok_def bm_ok_def)
  show ?thesis
  proof (cases "find_first_free (a_blocks a)")
    case None
    then show ?thesis using find_first_free_Some(2) [OF a(2)] a(1,3) by (simp add: alloc_block_def getE_def bindE_def throwE_def)
  next
    case (Some b)
    then have b: "b < limit" "b \<notin> used (a_blocks a)" "\<forall>x < b. x \<in> used (a_blocks a)" using find_first_free_Some(1) [OF a(2)] a(3) by auto
    then have ds: "data_start sb \<le> b" using a(5) not_less by blast
    from set_bit_in_ok [OF a(2)] b(1) a(3) obtain bm where
      m: "set_bit_in b (a_blocks a) = (Ret (), bm)" "wf_bitmap bm" "nbits bm = total_blocks sb" "used bm = insert b (used (a_blocks a))"
      using assms(3) by auto
    let ?mb = "map_block (data_bitmap_start sb) b"
    have bt: "b < total_blocks sb" using b(1) assms(3) by simp
    note r = blocks_map [OF assms(2) bt]
    from journal_set_bit_ok [OF assms(1) r(1) r(2) [unfolded assms(3)], of True] obtain s' where
      j: "journal_set_bit J (data_bitmap_start sb) b True s = (Ret (), s')" "invar s'"
      "view s' = (view s)(?mb := fold (\<lambda>x. flip x True) [b] (view s ?mb))" by blast
    have "bm_ok (view s') (data_bitmap_start sb) (total_blocks sb) bm"
      unfolding j(3) by (rule bm_ok_flips [OF a(4) super_regions(2) [OF assms(2)] _ _ m(2,3)])
        (use m(4) bt view_len [OF assms(1) r(1)] r(2) assms(3) in simp_all)
    then have "alloc_ok sb (view s') (a\<lparr>a_blocks := bm\<rparr>)"
      using m(4) a(5) unfolding j(3) by (intro alloc_ok_blocks [OF assms(4,2) r(3)]) auto
    moreover have "region_only (data_bitmap_start sb) (total_blocks sb) (view s) (view s')" unfolding j(3) by (rule region_only_upd [OF r(3)])
    ultimately have "blocks_changed sb (view s) a (view s') (a\<lparr>a_blocks := bm\<rparr>) (insert b (used (a_blocks a)))"
      using m(4) by (simp add: blocks_changed_def)
    moreover have "alloc_block J (a, s) = (Ret b, (a\<lparr>a_blocks := bm\<rparr>, s'))"
      using Some ds a(1) m(1) j(1)
      by (simp add: alloc_block_def getE_def bindE_def thenE_def retE_def on_blocks_run on_journal_run not_less [symmetric])
    ultimately show ?thesis using Some b ds j(2) by simp
  qed
qed

lemma alloc_inode_ok:
  assumes "invar s" and "wf_super sb" and "total_blocks sb = limit" and "alloc_ok sb (view s) a"
  shows "case find_first_free (a_inodes a) of
      None \<Rightarrow> used (a_inodes a) = {i. i < inode_count sb} \<and> alloc_inode J (a, s) = (Raise (FsError VFS_ENOSPC), (a, s))
    | Some i \<Rightarrow> valid_ino sb i \<and> i \<notin> used (a_inodes a) \<and> (\<forall>x < i. x \<in> used (a_inodes a)) \<and>
        (\<exists>a' s'. alloc_inode J (a, s) = (Ret i, (a', s')) \<and> invar s' \<and>
          inodes_changed sb (view s) a (view s') a' (insert i (used (a_inodes a))))"
proof -
  have a: "a_sb a = sb" "wf_bitmap (a_inodes a)" "nbits (a_inodes a) = inode_count sb" "bm_ok (view s) (inode_bitmap_start sb) (inode_count sb) (a_inodes a)"
    "0 \<in> used (a_inodes a)"
    using assms(3,4) by (simp_all add: alloc_ok_def bm_ok_def)
  show ?thesis
  proof (cases "find_first_free (a_inodes a)")
    case None
    then show ?thesis using find_first_free_Some(2) [OF a(2)] a(1,3) by (simp add: alloc_inode_def getE_def bindE_def throwE_def)
  next
    case (Some i)
    then have i: "i < inode_count sb" "i \<notin> used (a_inodes a)" "\<forall>x < i. x \<in> used (a_inodes a)" using find_first_free_Some(1) [OF a(2)] a(3) by auto
    then have nz: "i \<noteq> 0" using a(5) by blast
    from set_bit_in_ok [OF a(2)] i(1) a(3) obtain bm where
      m: "set_bit_in i (a_inodes a) = (Ret (), bm)" "wf_bitmap bm" "nbits bm = inode_count sb" "used bm = insert i (used (a_inodes a))" by auto
    let ?mb = "map_block (inode_bitmap_start sb) i"
    note r = inodes_map [OF assms(2) i(1)]
    from journal_set_bit_ok [OF assms(1) r(1) r(2) [unfolded assms(3)], of True] obtain s' where
      j: "journal_set_bit J (inode_bitmap_start sb) i True s = (Ret (), s')" "invar s'"
      "view s' = (view s)(?mb := fold (\<lambda>x. flip x True) [i] (view s ?mb))" by blast
    have "bm_ok (view s') (inode_bitmap_start sb) (inode_count sb) bm"
      unfolding j(3) by (rule bm_ok_flips [OF a(4) super_regions(1) [OF assms(2)] _ _ m(2,3)])
        (use m(4) i(1) view_len [OF assms(1) r(1)] r(2) assms(3) in simp_all)
    then have "alloc_ok sb (view s') (a\<lparr>a_inodes := bm\<rparr>)"
      using m(4) a(5) unfolding j(3) by (intro alloc_ok_inodes [OF assms(4,2) r(3)]) auto
    moreover have "region_only (inode_bitmap_start sb) (inode_count sb) (view s) (view s')" unfolding j(3) by (rule region_only_upd [OF r(3)])
    ultimately have "inodes_changed sb (view s) a (view s') (a\<lparr>a_inodes := bm\<rparr>) (insert i (used (a_inodes a)))"
      using m(4) by (simp add: inodes_changed_def)
    moreover have "alloc_inode J (a, s) = (Ret i, (a\<lparr>a_inodes := bm\<rparr>, s'))"
      using Some nz a(1) m(1) j(1)
      by (simp add: alloc_inode_def getE_def bindE_def thenE_def retE_def on_inodes_run on_journal_run)
    ultimately show ?thesis using Some i nz j(2) by (simp add: valid_ino_def)
  qed
qed

lemma free_runs_ok:
  assumes "invar s" and "wf_super sb" and "total_blocks sb = limit" and "alloc_ok sb (view s) a"
    and "\<forall>x \<in> set xs. data_start sb \<le> x \<and> x < limit"
  shows "\<exists>a' s'. free_runs J sb xs (a, s) = (Ret (), (a', s')) \<and> invar s' \<and>
    blocks_changed sb (view s) a (view s') a' (used (a_blocks a) - set xs)"
  using assms(1,4,5)
proof (induction "length xs" arbitrary: xs a s rule: less_induct)
  case less
  show ?case
  proof (cases xs)
    case Nil
    then show ?thesis using less.prems by (simp add: blocks_changed_def)
  next
    case (Cons b bs)
    define q :: "u32 \<Rightarrow> bool" where "q = (\<lambda>x. x div of_nat BITS_PER_BLOCK = b div of_nat BITS_PER_BLOCK)"
    let ?run = "takeWhile q xs" and ?rest = "dropWhile q xs"
    let ?mb = "map_block (data_bitmap_start sb) b"
    have a: "wf_bitmap (a_blocks a)" "nbits (a_blocks a) = total_blocks sb" "bm_ok (view s) (data_bitmap_start sb) (total_blocks sb) (a_blocks a)"
      "\<forall>b < data_start sb. b \<in> used (a_blocks a)"
      using less.prems(2) by (simp_all add: alloc_ok_def bm_ok_def)
    have split: "set xs = set ?run \<union> set ?rest" by (metis set_append takeWhile_dropWhile_id)
    have mb: "map_block (data_bitmap_start sb) x = ?mb" if "q x" for x
      using that unfolding map_block_def q_def by (rule arg_cong)
    have run: "\<forall>x \<in> set ?run. x < total_blocks sb \<and> map_block (data_bitmap_start sb) x = ?mb" "\<forall>x \<in> set ?run. data_start sb \<le> x"
    proof -
      have "q x \<and> data_start sb \<le> x \<and> x < total_blocks sb" if "x \<in> set ?run" for x
        using set_takeWhileD [OF that] less.prems(3) assms(3) by blast
      with mb show "\<forall>x \<in> set ?run. x < total_blocks sb \<and> map_block (data_bitmap_start sb) x = ?mb" "\<forall>x \<in> set ?run. data_start sb \<le> x" by blast+
    qed
    have "b < total_blocks sb" using less.prems(3) Cons assms(3) by simp
    note r = blocks_map [OF assms(2) this]
    from flips_ok [OF less.prems(1) r(1) r(2) [unfolded assms(3)], of False ?run] obtain s1 where
      j: "jwrite J ?mb False (modE (fold (\<lambda>x. flip x False) ?run)) s = (Ret (), s1)" "invar s1"
      "view s1 = (view s)(?mb := fold (\<lambda>x. flip x False) ?run (view s ?mb))" by blast
    from clear_each [OF a(1), of ?run s1] run(1) a(2) obtain bm where
      m: "forE ?run (\<lambda>x. on_blocks (clear_bit_in x)) (a, s1) = (Ret (), (a\<lparr>a_blocks := bm\<rparr>, s1))" "wf_bitmap bm"
      "nbits bm = total_blocks sb" "used bm = used (a_blocks a) - set ?run" by auto
    have "bm_ok (view s1) (data_bitmap_start sb) (total_blocks sb) bm"
      unfolding j(3) by (rule bm_ok_flips [OF a(3) super_regions(2) [OF assms(2)] run(1) _ m(2,3)])
        (use m(4) view_len [OF less.prems(1) r(1)] r(2) assms(3) in simp_all)
    moreover have "\<forall>b < data_start sb. b \<in> used bm" using a(4) run(2) m(4) by (auto simp: not_le [symmetric])
    ultimately have ok: "alloc_ok sb (view s1) (a\<lparr>a_blocks := bm\<rparr>)"
      unfolding j(3) by (intro alloc_ok_blocks [OF less.prems(2) assms(2) r(3)])
    have shorter: "length ?rest < length xs" using Cons by (simp add: q_def le_imp_less_Suc length_dropWhile_le)
    have "\<forall>x \<in> set ?rest. data_start sb \<le> x \<and> x < limit" using less.prems(3) split by blast
    from less.hyps [OF shorter j(2) ok this] obtain a' s' where
      rec: "free_runs J sb ?rest (a\<lparr>a_blocks := bm\<rparr>, s1) = (Ret (), (a', s'))" "invar s'"
      "blocks_changed sb (view s1) (a\<lparr>a_blocks := bm\<rparr>) (view s') a' (used bm - set ?rest)" by auto
    have "free_runs J sb xs = thenE (on_journal (jwrite J ?mb False (modE (fold (\<lambda>x. flip x False) ?run))))
        (thenE (forE ?run (\<lambda>x. on_blocks (clear_bit_in x))) (free_runs J sb ?rest))"
      unfolding Cons free_runs.simps(2) Let_def q_def map_block_def by (rule refl)
    then have "free_runs J sb xs (a, s) = (Ret (), (a', s'))"
      using j(1) m(1) rec(1) by (simp add: thenE_def bindE_def on_journal_run)
    moreover have "region_only (data_bitmap_start sb) (total_blocks sb) (view s) (view s')"
      using rec(3) region_only_upd [OF r(3), of "view s"] region_only_trans unfolding j(3) blocks_changed_def by blast
    moreover have "used bm - set ?rest = used (a_blocks a) - set xs" using m(4) split by auto
    ultimately show ?thesis using rec(2,3) by (intro exI [of _ a'] exI [of _ s']) (auto simp: blocks_changed_def)
  qed
qed

text \<open>All the blocks of a list are freed, or none and nothing is changed.\<close>

lemma free_blocks_ok:
  assumes "invar s" and "wf_super sb" and "total_blocks sb = limit" and "alloc_ok sb (view s) a"
  shows "if distinct xs \<and> (\<forall>x \<in> set xs. data_start sb \<le> x \<and> x < limit \<and> x \<in> used (a_blocks a))
    then \<exists>a' s'. free_blocks J xs (a, s) = (Ret (), (a', s')) \<and> invar s' \<and>
      blocks_changed sb (view s) a (view s') a' (used (a_blocks a) - set xs)
    else free_blocks J xs (a, s) = (Raise (FsError VFS_EIO), (a, s))"
proof (cases "xs = []")
  case True
  then show ?thesis using assms by (simp add: free_blocks_def blocks_changed_def)
next
  case False
  have a: "a_sb a = sb" "wf_bitmap (a_blocks a)" "nbits (a_blocks a) = total_blocks sb"
    using assms(4) by (simp_all add: alloc_ok_def bm_ok_def)
  note chk = check_frees_ok [where prev = None and xs = "sort xs" and s = s, OF a(2,3), simplified]
  have run: "free_blocks J xs (a, s) = thenE (check_frees sb None (sort xs)) (free_runs J sb (sort xs)) (a, s)"
    using False a(1) by (simp add: free_blocks_def getE_def bindE_def)
  show ?thesis
    using free_runs_ok [OF assms, of "sort xs"] chk assms(3) by (auto simp: run thenE_def bindE_def)
qed

lemma free_inode_ok:
  assumes "invar s" and "wf_super sb" and "total_blocks sb = limit" and "alloc_ok sb (view s) a"
  shows "if valid_ino sb i \<and> i \<in> used (a_inodes a)
    then \<exists>a' s'. free_inode J i (a, s) = (Ret (), (a', s')) \<and> invar s' \<and>
      inodes_changed sb (view s) a (view s') a' (used (a_inodes a) - {i})
    else free_inode J i (a, s) = (Raise (FsError VFS_EIO), (a, s))"
proof (cases "valid_ino sb i")
  case False
  then show ?thesis using assms(4) by (auto simp: free_inode_def getE_def bindE_def throwE_def valid_ino_def alloc_ok_def not_less)
next
  case True
  have a: "a_sb a = sb" "wf_bitmap (a_inodes a)" "nbits (a_inodes a) = inode_count sb"
    "bm_ok (view s) (inode_bitmap_start sb) (inode_count sb) (a_inodes a)" "0 \<in> used (a_inodes a)"
    using assms(4) by (simp_all add: alloc_ok_def bm_ok_def)
  have i: "i < inode_count sb" "i \<noteq> 0" using True by (simp_all add: valid_ino_def)
  have chk: "on_inodes (is_set i) (a, s) = (Ret (i \<in> used (a_inodes a)), (a, s))"
    using is_set_in [OF a(2)] i a(3) by (simp add: on_inodes_run)
  show ?thesis
  proof (cases "i \<in> used (a_inodes a)")
    case False
    then show ?thesis using i a(1) chk by (simp add: free_inode_def getE_def bindE_def throwE_def)
  next
    case used: True
    from clear_bit_in_ok [OF a(2)] i a(3) obtain bm where
      m: "clear_bit_in i (a_inodes a) = (Ret (), bm)" "wf_bitmap bm" "nbits bm = inode_count sb" "used bm = used (a_inodes a) - {i}" by auto
    let ?mb = "map_block (inode_bitmap_start sb) i"
    note r = inodes_map [OF assms(2) i(1)]
    from journal_set_bit_ok [OF assms(1) r(1) r(2) [unfolded assms(3)], of False] obtain s' where
      j: "journal_set_bit J (inode_bitmap_start sb) i False s = (Ret (), s')" "invar s'"
      "view s' = (view s)(?mb := fold (\<lambda>x. flip x False) [i] (view s ?mb))" by blast
    have "bm_ok (view s') (inode_bitmap_start sb) (inode_count sb) bm"
      unfolding j(3) by (rule bm_ok_flips [OF a(4) super_regions(1) [OF assms(2)] _ _ m(2,3)])
        (use m(4) i(1) view_len [OF assms(1) r(1)] r(2) assms(3) in simp_all)
    then have "alloc_ok sb (view s') (a\<lparr>a_inodes := bm\<rparr>)"
      using m(4) a(5) i(2) unfolding j(3) by (intro alloc_ok_inodes [OF assms(4,2) r(3)]) auto
    moreover have "region_only (inode_bitmap_start sb) (inode_count sb) (view s) (view s')" unfolding j(3) by (rule region_only_upd [OF r(3)])
    ultimately have "inodes_changed sb (view s) a (view s') (a\<lparr>a_inodes := bm\<rparr>) (used (a_inodes a) - {i})"
      using m(4) by (simp add: inodes_changed_def)
    moreover have "free_inode J i (a, s) = (Ret (), (a\<lparr>a_inodes := bm\<rparr>, s'))"
      using used i a(1) m(1) j(1) chk
      by (simp add: free_inode_def getE_def bindE_def thenE_def on_inodes_run on_journal_run not_less [symmetric])
    ultimately show ?thesis using True used j(2) by auto
  qed
qed

end


section \<open>Loading\<close>

sublocale journal_store \<subseteq> reader: block_reader "journal_reader J limit" invar view 1
proof unfold_locales
  fix d and b :: u32
  assume "invar d" "1 \<le> b" "b < dev_count (journal_reader J limit)"
  then have "0 < b" "b < limit" by (simp_all add: journal_reader_def Let_def word_less_nat_alt word_le_nat_alt)
  with view_len [OF \<open>invar d\<close>, of b] read_ok [OF \<open>invar d\<close>, of b]
  show "is_block (view d b)"
    "\<exists>d'. read_block (journal_reader J limit) b d = (Ret (view d b), d') \<and> invar d' \<and> view d' = view d"
    by (simp_all add: journal_reader_def Let_def)
qed

lemma map_block_of_nat: "map_block start i = start + of_nat (unat i div 32768)"
proof -
  have "i div of_nat BITS_PER_BLOCK = of_nat (unat i div 32768)"
    using unat_less_2p [of i] by (simp add: word_unat_eq_iff unat_div unat_of_nat order_le_less_trans [OF div_le_dividend])
  then show ?thesis by (simp add: map_block_def)
qed

text \<open>The bits of a bitmap's region, as the numbers they stand for.\<close>

definition marked :: "(u32 \<Rightarrow> block) \<Rightarrow> u32 \<Rightarrow> u32 \<Rightarrow> u32 set" where
  "marked v start n = {i. i < n \<and> block_bit (v (map_block start i)) (unat i mod 32768)}"

lemma bm_ok_marked: "bm_ok v start n bm \<longleftrightarrow> wf_bitmap bm \<and> nbits bm = n \<and> used bm = marked v start n"
proof -
  have "used bm = marked v start n \<longleftrightarrow> (\<forall>i < n. i \<in> used bm \<longleftrightarrow> block_bit (v (map_block start i)) (unat i mod 32768))"
    if "wf_bitmap bm" "nbits bm = n"
    using used_less [OF that(1)] unfolding that(2) marked_def by blast
  then show ?thesis unfolding bm_ok_def by blast
qed

context journal_store
begin

lemma load_region_ok:
  assumes "invar s" and "region_fits limit start n" and "1 \<le> start"
  shows "\<exists>bm s'. bm_load (journal_reader J limit) start (bitmap_new n) s = (Ret bm, s') \<and> invar s' \<and> view s' = view s \<and>
    bm_ok (view s) start n bm"
proof -
  have new: "nbits (bitmap_new n) = n" "length (words (bitmap_new n)) = unat (blocks_for n) * 512" by (simp_all add: bitmap_new_def)
  have cnt: "dev_count (journal_reader J limit) = limit" by (simp add: journal_reader_def Let_def)
  from reader.load_ok [of s start "bitmap_new n"] assms new cnt obtain bm s' where
    l: "bm_load (journal_reader J limit) start (bitmap_new n) s = (Ret bm, s')" "invar s'" "view s' = view s" "wf_bitmap bm" "nbits bm = n"
    "\<forall>i < unat n. bit_at bm i \<longleftrightarrow> block_bit (view s (start + of_nat (i div 32768))) (i mod 32768)" by auto
  have "bm_ok (view s) start n bm"
    unfolding bm_ok_def map_block_of_nat using l(4-6) by (simp add: used_def word_less_nat_alt)
  with l show ?thesis by blast
qed

lemma alloc_new_ok:
  assumes "invar s" and "wf_super sb" and "total_blocks sb = limit"
    and "{b. b < data_start sb} \<subseteq> marked (view s) (data_bitmap_start sb) limit"
    and "0 \<in> marked (view s) (inode_bitmap_start sb) (inode_count sb)"
  shows "\<exists>a s'. alloc_new J sb s = (Ret a, s') \<and> invar s' \<and> view s' = view s \<and> alloc_ok sb (view s) a"
proof -
  note r = super_regions [OF assms(2), unfolded assms(3)]
  have fit: "region_fits limit (inode_bitmap_start sb) (inode_count sb)" "region_fits limit (data_bitmap_start sb) limit"
    "1 \<le> inode_bitmap_start sb" "1 \<le> data_bitmap_start sb"
    using r by (simp_all add: region_fits_def word_le_nat_alt)
  from load_region_ok [OF assms(1) fit(1,3)] obtain bm s1 where
    1: "bm_load (journal_reader J limit) (inode_bitmap_start sb) (bitmap_new (inode_count sb)) s = (Ret bm, s1)" "invar s1"
    "view s1 = view s" "bm_ok (view s) (inode_bitmap_start sb) (inode_count sb) bm" by blast
  from load_region_ok [OF 1(2) fit(2,4)] 1(3) obtain bm2 s2 where
    2: "bm_load (journal_reader J limit) (data_bitmap_start sb) (bitmap_new limit) s1 = (Ret bm2, s2)" "invar s2"
    "view s2 = view s" "bm_ok (view s) (data_bitmap_start sb) limit bm2" by auto
  have "alloc_ok sb (view s) \<lparr>a_sb = sb, a_inodes = bm, a_blocks = bm2\<rparr>"
    using 1(4) 2(4) assms(3-5) by (auto simp: alloc_ok_def bm_ok_marked)
  then show ?thesis using 1 2 assms(3) by (auto simp: alloc_new_def Let_def bindE_def retE_def)
qed

end

end
