(* ===== verification/Block_Map.thy ===== *)
theory Block_Map
  imports Alloc
begin

text \<open>
  \<^verbatim>\<open>src/src/block_map.cpp\<close>: which disk block holds a block of a file. An operation that changes
  the inode it is given works on the inode, the allocator and the journal together, so that
  what the caller's copy of the inode holds after an exception is part of the model. File block
  indices come from 64-bit sizes divided by the block size and are natural numbers here; none of
  the arithmetic on them can wrap.
\<close>

definition DOUBLE_SPAN :: nat where "DOUBLE_SPAN = PTRS_PER_BLOCK * PTRS_PER_BLOCK"

definition get_ptr :: "'j journal \<Rightarrow> u32 \<Rightarrow> nat \<Rightarrow> ('j, u32) op" where
  "get_ptr j b i = bindE (jread j b) (\<lambda>x. retE (rd32 (i * 4) x))"

definition set_ptr :: "'j journal \<Rightarrow> u32 \<Rightarrow> bool \<Rightarrow> nat \<Rightarrow> u32 \<Rightarrow> ('j, unit) op" where
  "set_ptr j b fresh i v = jwrite j b fresh (modE (put_at (i * 4) (le32 v)))"

fun alloc_loop :: "'j journal \<Rightarrow> nat \<Rightarrow> u32 list \<Rightarrow> ('j alloc_state, u32 list) op" where
  "alloc_loop j 0 got = retE got"
| "alloc_loop j (Suc n) got =
     bindE (cleanupE (alloc_block j) (free_blocks j got)) (\<lambda>b. alloc_loop j n (got @ [b]))"

definition alloc_all :: "'j journal \<Rightarrow> nat \<Rightarrow> ('j alloc_state, u32 list) op" where
  "alloc_all j n = alloc_loop j n []"

definition collect :: "'j journal \<Rightarrow> u32 \<Rightarrow> ('j, u32 list) op" where
  "collect j b = bindE (jread j b) (\<lambda>x. retE (filter (\<lambda>p. p \<noteq> 0) (rd32s 0 PTRS_PER_BLOCK x)))"

definition bmap_read :: "'j journal \<Rightarrow> inode \<Rightarrow> nat \<Rightarrow> ('j, u32) op" where
  "bmap_read j ino index =
     (if index < DIRECT_PTRS then retE (direct ino ! index)
      else let index = index - DIRECT_PTRS in
      if index < PTRS_PER_BLOCK
      then (if single_indirect ino \<noteq> 0 then get_ptr j (single_indirect ino) index else retE 0)
      else let index = index - PTRS_PER_BLOCK in
      if index \<ge> DOUBLE_SPAN then throwE (FsError VFS_EFBIG)
      else if double_indirect ino = 0 then retE 0
      else bindE (get_ptr j (double_indirect ino) (index div PTRS_PER_BLOCK)) (\<lambda>second.
        if second \<noteq> 0 then get_ptr j second (index mod PTRS_PER_BLOCK) else retE 0))"

type_synonym 'j inode_state = "inode \<times> 'j alloc_state"

definition on_alloc :: "('j alloc_state, 'a) op \<Rightarrow> ('j inode_state, 'a) op" where
  "on_alloc = zoomE snd (\<lambda>a s. (fst s, a))"

definition on_ijournal :: "('j, 'a) op \<Rightarrow> ('j inode_state, 'a) op" where
  "on_ijournal m = on_alloc (on_journal m)"

definition upd_inode :: "(inode \<Rightarrow> inode) \<Rightarrow> ('j inode_state, unit) op" where
  "upd_inode f = modE (\<lambda>(ino, s). (f ino, s))"

text \<open>The three parts of \<^verbatim>\<open>bmap_alloc\<close>. Each returns the block and whether it is new.\<close>

definition bmap_alloc_direct :: "'j journal \<Rightarrow> inode \<Rightarrow> nat \<Rightarrow> ('j inode_state, u32 \<times> bool) op" where
  "bmap_alloc_direct j ino index =
     (if direct ino ! index \<noteq> 0 then retE (direct ino ! index, False)
      else bindE (on_alloc (alloc_block j)) (\<lambda>data.
        thenE (upd_inode (\<lambda>i. i\<lparr>direct := (direct i)[index := data], block_count := block_count i + 1\<rparr>))
        (retE (data, True))))"

definition bmap_alloc_single :: "'j journal \<Rightarrow> inode \<Rightarrow> nat \<Rightarrow> ('j inode_state, u32 \<times> bool) op" where
  "bmap_alloc_single j ino index =
     (if single_indirect ino \<noteq> 0
      then bindE (on_ijournal (get_ptr j (single_indirect ino) index)) (\<lambda>data.
        if data \<noteq> 0 then retE (data, False)
        else bindE (on_alloc (alloc_block j)) (\<lambda>data.
          thenE (on_ijournal (set_ptr j (single_indirect ino) False index data))
         (thenE (upd_inode (\<lambda>i. i\<lparr>block_count := block_count i + 1\<rparr>))
         (retE (data, True)))))
      else bindE (on_alloc (alloc_all j 2)) (\<lambda>got.
        thenE (on_ijournal (set_ptr j (got ! 0) True index (got ! 1)))
       (thenE (upd_inode (\<lambda>i. i\<lparr>single_indirect := got ! 0, block_count := block_count i + 2\<rparr>))
       (retE (got ! 1, True)))))"

definition bmap_alloc_double :: "'j journal \<Rightarrow> inode \<Rightarrow> nat \<Rightarrow> ('j inode_state, u32 \<times> bool) op" where
  "bmap_alloc_double j ino index =
     (let i1 = index div PTRS_PER_BLOCK; i2 = index mod PTRS_PER_BLOCK; top = double_indirect ino in
      bindE (if top \<noteq> 0 then on_ijournal (get_ptr j top i1) else retE 0) (\<lambda>second.
      bindE (if second \<noteq> 0 then on_ijournal (get_ptr j second i2) else retE 0) (\<lambda>data.
      if data \<noteq> 0 then retE (data, False)
      else
        let new_top = (top = 0); new_second = (second = 0);
            need = 1 + (if new_second then 1 else 0) + (if new_top then 1 else 0)
        in bindE (on_alloc (alloc_all j need)) (\<lambda>got.
           let top = (if new_top then got ! 0 else top);
               k = (if new_top then 1 else 0);
               second = (if new_second then got ! k else second);
               k = (if new_second then k + 1 else k);
               data = got ! k
           in thenE (on_ijournal (set_ptr j second new_second i2 data))
             (thenE (whenE new_second (on_ijournal (set_ptr j top new_top i1 second)))
             (thenE (upd_inode (\<lambda>i. i\<lparr>double_indirect := top, block_count := block_count i + of_nat need\<rparr>))
             (retE (data, True))))))))"

definition bmap_alloc :: "'j journal \<Rightarrow> nat \<Rightarrow> ('j inode_state, u32 \<times> bool) op" where
  "bmap_alloc j index =
     bindE (getE fst) (\<lambda>ino.
     if index < DIRECT_PTRS then bmap_alloc_direct j ino index
     else let index = index - DIRECT_PTRS in
     if index < PTRS_PER_BLOCK then bmap_alloc_single j ino index
     else let index = index - PTRS_PER_BLOCK in
     if index \<ge> DOUBLE_SPAN then throwE (FsError VFS_EFBIG)
     else bmap_alloc_double j ino index)"

text \<open>The blocks \<^verbatim>\<open>free_all_blocks\<close> gathers, in the order the source pushes them.\<close>

definition owned_blocks :: "'j journal \<Rightarrow> inode \<Rightarrow> ('j, u32 list) op" where
  "owned_blocks j ino =
     (let owned = filter (\<lambda>p. p \<noteq> 0) (direct ino) in
      bindE (if single_indirect ino \<noteq> 0
             then bindE (collect j (single_indirect ino)) (\<lambda>ps. retE (owned @ ps @ [single_indirect ino]))
             else retE owned) (\<lambda>owned.
      if double_indirect ino \<noteq> 0
      then bindE (collect j (double_indirect ino)) (\<lambda>seconds.
           bindE (foldE seconds (\<lambda>owned second.
                bindE (collect j second) (\<lambda>ps. retE (owned @ ps @ [second]))) owned) (\<lambda>owned.
           retE (owned @ [double_indirect ino])))
      else retE owned))"

definition free_all_blocks :: "'j journal \<Rightarrow> ('j inode_state, unit) op" where
  "free_all_blocks j =
     bindE (getE fst) (\<lambda>ino.
     bindE (on_ijournal (owned_blocks j ino)) (\<lambda>owned.
     thenE (on_alloc (free_blocks j owned))
     (upd_inode (\<lambda>i. i\<lparr>direct := replicate DIRECT_PTRS 0, single_indirect := 0, double_indirect := 0,
        block_count := 0\<rparr>))))"

section \<open>The blocks of a file\<close>

text \<open>
  Every pointer of an inode has a place: the block of the file it is for, or the indirect block it
  leads to. \<^term>\<open>place_ptr v ino\<close> is what the pointers are where the blocks are \<^term>\<open>v\<close>; 0 is no block.
\<close>

datatype place = Data nat | Single | Double | Second nat

definition ptr_at :: "block \<Rightarrow> nat \<Rightarrow> u32" where
  "ptr_at b i = rd32 (i * 4) b"

definition second_at :: "(u32 \<Rightarrow> block) \<Rightarrow> inode \<Rightarrow> nat \<Rightarrow> u32" where
  "second_at v ino i = (if double_indirect ino = 0 then 0 else ptr_at (v (double_indirect ino)) i)"

definition file_block :: "(u32 \<Rightarrow> block) \<Rightarrow> inode \<Rightarrow> nat \<Rightarrow> u32" where
  "file_block v ino k =
     (if k < 12 then direct ino ! k
      else if k < 1036 then (if single_indirect ino = 0 then 0 else ptr_at (v (single_indirect ino)) (k - 12))
      else (let second = second_at v ino ((k - 1036) div 1024) in
        if second = 0 then 0 else ptr_at (v second) ((k - 1036) mod 1024)))"

definition place_ptr :: "(u32 \<Rightarrow> block) \<Rightarrow> inode \<Rightarrow> place \<Rightarrow> u32" where
  "place_ptr v ino p = (case p of
       Data k \<Rightarrow> if k < MAX_FILE_BLOCKS then file_block v ino k else 0
     | Single \<Rightarrow> single_indirect ino
     | Double \<Rightarrow> double_indirect ino
     | Second i \<Rightarrow> if i < 1024 then second_at v ino i else 0)"

text \<open>No block is pointed to twice, and all of them are in use.\<close>

definition owns :: "superblock \<Rightarrow> u32 set \<Rightarrow> (place \<Rightarrow> u32) \<Rightarrow> bool" where
  "owns sb U f \<longleftrightarrow> (\<forall>p. f p \<noteq> 0 \<longrightarrow> data_start sb \<le> f p \<and> f p < total_blocks sb \<and> f p \<in> U) \<and>
     (\<forall>p q. f p = f q \<longrightarrow> f p \<noteq> 0 \<longrightarrow> p = q)"

lemma owns_upd:
  assumes "owns sb U f" and "b \<notin> U" and "data_start sb \<le> b" and "b < total_blocks sb"
  shows "owns sb (insert b U) (f(p := b))"
proof -
  have "f q \<noteq> b \<or> b = 0" for q using assms(1,2) by (auto simp: owns_def)
  then show ?thesis using assms by (auto simp: owns_def)
qed

lemma ownsD:
  assumes "owns sb U f" and "f p \<noteq> 0"
  shows "data_start sb \<le> f p" "f p < total_blocks sb" "f p \<in> U" "p \<noteq> q \<Longrightarrow> f q \<noteq> f p"
  using assms by (auto simp: owns_def)

lemma ptr_at_put:
  assumes "is_block b" and "i < 1024" and "j < 1024"
  shows "ptr_at (put_at (i * 4) (le32 w) b) j = (if j = i then w else ptr_at b j)"
proof (cases "j = i")
  case True
  then show ?thesis using assms by (simp add: ptr_at_def is_block_def)
next
  case False
  then have "i * 4 + 4 \<le> j * 4 \<or> j * 4 + 4 \<le> i * 4" by linarith
  then show ?thesis using assms False unfolding ptr_at_def is_block_def by (subst rd32_put_at_disjoint) auto
qed

lemma ptr_at_zero [simp]: "j < 1024 \<Longrightarrow> ptr_at zero_block j = 0"
proof -
  assume j: "j < 1024"
  have "get_at (j * 4) 4 zero_block = replicate 4 0" using j by (simp add: get_at_def zero_block_def)
  then show ?thesis by (simp add: ptr_at_def rd32_def numeral_eq_Suc)
qed

lemma is_block_put_ptr: "is_block b \<Longrightarrow> i < 1024 \<Longrightarrow> is_block (put_at (i * 4) (le32 w) b)"
  by (simp add: is_block_def)

text \<open>The index of a block reached through the second indirect block \<^term>\<open>i\<close>.\<close>

lemma double_index:
  assumes "i < 1024" and "j < 1024"
  shows "1036 + i * 1024 + j < MAX_FILE_BLOCKS" "(1036 + i * 1024 + j - 1036) div 1024 = i" "(1036 + i * 1024 + j - 1036) mod 1024 = j"
  using assms by simp_all

lemma file_block_range:
  assumes "1036 \<le> k" and "k < MAX_FILE_BLOCKS"
  shows "(k - 1036) div 1024 < 1024" "(k - 1036) mod 1024 < 1024" "k = 1036 + (k - 1036) div 1024 * 1024 + (k - 1036) mod 1024"
  using assms by auto

lemma place_ptr_cong:
  assumes "single_indirect ino \<noteq> 0 \<Longrightarrow> v' (single_indirect ino) = v (single_indirect ino)"
    and "double_indirect ino \<noteq> 0 \<Longrightarrow> v' (double_indirect ino) = v (double_indirect ino)"
    and "\<And>i. i < 1024 \<Longrightarrow> second_at v ino i \<noteq> 0 \<Longrightarrow> v' (second_at v ino i) = v (second_at v ino i)"
  shows "place_ptr v' ino = place_ptr v ino"
proof
  fix p
  have sec: "second_at v' ino i = second_at v ino i" for i using assms(2) by (simp add: second_at_def)
  have fb: "file_block v' ino k = file_block v ino k" if "k < MAX_FILE_BLOCKS" for k
    using assms(1) assms(3) [of "(k - 1036) div 1024"] file_block_range(1) [of k] that
    by (auto simp: file_block_def sec Let_def)
  show "place_ptr v' ino p = place_ptr v ino p" using sec fb by (simp add: place_ptr_def split: place.split)
qed

text \<open>Blocks that are not indirect blocks of the file do not matter.\<close>

lemma place_ptr_other:
  assumes "\<And>p. p \<in> {Single, Double} \<union> range Second \<Longrightarrow> place_ptr v ino p \<noteq> 0 \<Longrightarrow> v' (place_ptr v ino p) = v (place_ptr v ino p)"
  shows "place_ptr v' ino = place_ptr v ino"
proof (rule place_ptr_cong)
  show "single_indirect ino \<noteq> 0 \<Longrightarrow> v' (single_indirect ino) = v (single_indirect ino)"
    using assms [of Single] by (simp add: place_ptr_def)
  show "double_indirect ino \<noteq> 0 \<Longrightarrow> v' (double_indirect ino) = v (double_indirect ino)"
    using assms [of Double] by (simp add: place_ptr_def)
  show "i < 1024 \<Longrightarrow> second_at v ino i \<noteq> 0 \<Longrightarrow> v' (second_at v ino i) = v (second_at v ino i)" for i
    using assms [of "Second i"] by (simp add: place_ptr_def)
qed

text \<open>A pointer set: in the inode, in the single indirect block, in a second indirect block.\<close>

lemma set_direct:
  assumes "k < 12" and "length (direct ino) = 12"
  shows "place_ptr v (ino\<lparr>direct := (direct ino)[k := b], block_count := c\<rparr>) = (place_ptr v ino)(Data k := b)"
proof
  fix p
  let ?i = "ino\<lparr>direct := (direct ino)[k := b], block_count := c\<rparr>"
  have "file_block v ?i n = (if n = k then b else file_block v ino n)" for n
    using assms by (simp add: file_block_def second_at_def nth_list_update)
  then show "place_ptr v ?i p = ((place_ptr v ino)(Data k := b)) p"
    using assms by (auto simp: place_ptr_def second_at_def split: place.split)
qed

lemma place_ptr_block_count [simp]: "place_ptr v (ino\<lparr>block_count := c\<rparr>) = place_ptr v ino"
  by (simp add: place_ptr_def file_block_def second_at_def fun_eq_iff split: place.split)

lemma second_at_upd: "x \<noteq> double_indirect ino \<Longrightarrow> second_at (v(x := w)) ino j = second_at v ino j"
  by (simp add: second_at_def)

lemma set_in_single:
  assumes "owns sb U (place_ptr v ino)" and "single_indirect ino \<noteq> 0" and "is_block (v (single_indirect ino))" and "i < 1024"
  shows "place_ptr (v(single_indirect ino := put_at (i * 4) (le32 b) (v (single_indirect ino)))) ino = (place_ptr v ino)(Data (12 + i) := b)"
proof
  fix p
  let ?s = "single_indirect ino"
  let ?v = "v(?s := put_at (i * 4) (le32 b) (v ?s))"
  note other = ownsD(4) [OF assms(1), of Single, unfolded place_ptr_def, simplified, OF assms(2)]
  have dbl: "double_indirect ino \<noteq> ?s" using other [of Double] by simp
  have sec: "second_at ?v ino j = second_at v ino j" for j using dbl by (simp add: second_at_def)
  have ne: "second_at v ino j \<noteq> ?s" if "j < 1024" for j using other [of "Second j"] that by simp
  have "file_block ?v ino n = (if n = 12 + i then b else file_block v ino n)" if "n < MAX_FILE_BLOCKS" for n
  proof (cases "n < 1036")
    case True
    then show ?thesis using assms(2-4) ptr_at_put [OF assms(3,4), of "n - 12" b] by (auto simp: file_block_def)
  next
    case False
    then have "1036 \<le> n" by simp
    from file_block_range(1) [OF this that] have "second_at v ino ((n - 1036) div 1024) \<noteq> ?s" by (rule ne)
    with False assms(4) show ?thesis by (auto simp: file_block_def sec Let_def)
  qed
  then show "place_ptr ?v ino p = ((place_ptr v ino)(Data (12 + i) := b)) p"
    using sec assms(4) by (auto simp: place_ptr_def split: place.split)
qed

lemma set_in_second:
  assumes "owns sb U (place_ptr v ino)" and "i1 < 1024" and "i2 < 1024" and "second_at v ino i1 \<noteq> 0" and "is_block (v (second_at v ino i1))"
  shows "place_ptr (v(second_at v ino i1 := put_at (i2 * 4) (le32 b) (v (second_at v ino i1)))) ino =
    (place_ptr v ino)(Data (1036 + i1 * 1024 + i2) := b)"
proof
  fix p
  let ?s = "second_at v ino i1"
  let ?v = "v(?s := put_at (i2 * 4) (le32 b) (v ?s))"
  have pp: "place_ptr v ino (Second i1) = ?s" using assms(2) by (simp add: place_ptr_def)
  note other = ownsD(4) [OF assms(1), of "Second i1", unfolded pp, OF assms(4)]
  have dbl: "double_indirect ino \<noteq> ?s" "single_indirect ino \<noteq> ?s" using other [of Double] other [of Single] by (simp_all add: place_ptr_def)
  have sec: "second_at ?v ino j = second_at v ino j" for j using dbl(1) by (intro second_at_upd) simp
  have ne: "second_at v ino j \<noteq> ?s" if "j < 1024" "j \<noteq> i1" for j using other [of "Second j"] that by (simp add: place_ptr_def)
  have "file_block ?v ino n = (if n = 1036 + i1 * 1024 + i2 then b else file_block v ino n)" if n: "n < MAX_FILE_BLOCKS" for n
  proof (cases "n < 1036")
    case True
    then show ?thesis using dbl by (auto simp: file_block_def)
  next
    case False
    then have "1036 \<le> n" by simp
    note r = file_block_range [OF this n]
    show ?thesis
    proof (cases "(n - 1036) div 1024 = i1")
      case True
      have "n = 1036 + i1 * 1024 + i2 \<longleftrightarrow> (n - 1036) mod 1024 = i2"
        using r(3) True double_index(3) [OF assms(2,3)] by metis
      with False True assms(4) ptr_at_put [OF assms(5,3) r(2), of b] show ?thesis by (simp add: file_block_def sec Let_def)
    next
      case ne1: False
      then have "n \<noteq> 1036 + i1 * 1024 + i2" using double_index(2) [OF assms(2,3)] by auto
      with False ne [OF r(1) ne1] show ?thesis by (simp add: file_block_def sec Let_def)
    qed
  qed
  then show "place_ptr ?v ino p = ((place_ptr v ino)(Data (1036 + i1 * 1024 + i2) := b)) p"
    using sec double_index(1) [OF assms(2,3)] by (auto simp: place_ptr_def split: place.split)
qed

text \<open>A new indirect block, filled with zeros, that no pointer of the file leads to yet.\<close>

lemma attach_single:
  assumes "single_indirect ino = 0" and "\<And>p. place_ptr v ino p \<noteq> b" and "b \<noteq> 0"
  shows "place_ptr (v(b := zero_block)) (ino\<lparr>single_indirect := b\<rparr>) = (place_ptr v ino)(Single := b)"
proof
  fix p
  let ?v = "v(b := zero_block)" and ?i = "ino\<lparr>single_indirect := b\<rparr>"
  have "double_indirect ino \<noteq> b" using assms(2) [of Double] by (simp add: place_ptr_def)
  then have sec: "second_at ?v ?i j = second_at v ino j" for j by (simp add: second_at_def)
  have ne: "second_at v ino j \<noteq> b" if "j < 1024" for j using assms(2) [of "Second j"] that by (simp add: place_ptr_def)
  have "file_block ?v ?i n = file_block v ino n" if n: "n < MAX_FILE_BLOCKS" for n
    using sec ne file_block_range(1) [OF _ n] assms(1,3) by (auto simp: file_block_def Let_def)
  then show "place_ptr ?v ?i p = ((place_ptr v ino)(Single := b)) p"
    using sec by (auto simp: place_ptr_def split: place.split)
qed

lemma attach_double:
  assumes "double_indirect ino = 0" and "\<And>p. place_ptr v ino p \<noteq> b" and "b \<noteq> 0"
  shows "place_ptr (v(b := zero_block)) (ino\<lparr>double_indirect := b\<rparr>) = (place_ptr v ino)(Double := b)"
proof
  fix p
  let ?v = "v(b := zero_block)" and ?i = "ino\<lparr>double_indirect := b\<rparr>"
  have sgl: "single_indirect ino \<noteq> b" using assms(2) [of Single] by (simp add: place_ptr_def)
  have sec: "second_at ?v ?i j = 0" "second_at v ino j = 0" if "j < 1024" for j using that assms(1,3) by (simp_all add: second_at_def)
  have "file_block ?v ?i n = file_block v ino n" if n: "n < MAX_FILE_BLOCKS" for n
    using sec file_block_range(1) [OF _ n] sgl by (auto simp: file_block_def Let_def)
  then show "place_ptr ?v ?i p = ((place_ptr v ino)(Double := b)) p"
    using sec by (auto simp: place_ptr_def split: place.split)
qed

lemma attach_second:
  assumes "owns sb U (place_ptr v ino)" and "double_indirect ino \<noteq> 0" and "is_block (v (double_indirect ino))" and "i < 1024"
    and "second_at v ino i = 0" and "\<And>p. place_ptr v ino p \<noteq> b" and "b \<noteq> 0"
  shows "place_ptr (v(b := zero_block, double_indirect ino := put_at (i * 4) (le32 b) (v (double_indirect ino)))) ino =
    (place_ptr v ino)(Second i := b)"
proof
  fix p
  let ?d = "double_indirect ino"
  let ?v = "v(b := zero_block, ?d := put_at (i * 4) (le32 b) (v ?d))"
  have pp: "place_ptr v ino Double = ?d" by (simp add: place_ptr_def)
  note other = ownsD(4) [OF assms(1), of Double, unfolded pp, OF assms(2)]
  have sgl: "single_indirect ino \<noteq> b" "single_indirect ino \<noteq> ?d" using assms(6) [of Single] other [of Single] by (simp_all add: place_ptr_def)
  have bd: "b \<noteq> ?d" using assms(6) [of Double] pp by simp
  have sec: "second_at ?v ino j = (if j = i then b else second_at v ino j)" if "j < 1024" for j
    using that ptr_at_put [OF assms(3,4) that, of b] assms(2) by (simp add: second_at_def)
  have ne: "second_at v ino j \<noteq> b" "second_at v ino j \<noteq> ?d" if "j < 1024" for j
    using assms(6) [of "Second j"] other [of "Second j"] that by (simp_all add: place_ptr_def)
  have "file_block ?v ino n = file_block v ino n" if n: "n < MAX_FILE_BLOCKS" for n
  proof (cases "n < 1036")
    case True
    then show ?thesis using sgl by (auto simp: file_block_def)
  next
    case False
    then have "1036 \<le> n" by simp
    note r = file_block_range [OF this n]
    show ?thesis
      using False sec [OF r(1)] ne [OF r(1)] bd assms(5,7) ptr_at_zero [OF r(2)] by (auto simp: file_block_def Let_def)
  qed
  then show "place_ptr ?v ino p = ((place_ptr v ino)(Second i := b)) p"
    using sec assms(4) by (auto simp: place_ptr_def split: place.split)
qed

section \<open>Over the journal\<close>

text \<open>What the allocator may change beside its bitmap in memory: the blocks of the bitmap, all below the data.\<close>

lemma data_bitmap_below:
  assumes "wf_super sb" and "in_region (data_bitmap_start sb) (total_blocks sb) b"
  shows "b < data_start sb"
  using assms by (auto simp: wf_super_def in_region_def word_less_nat_alt)

lemma data_unchanged:
  assumes "wf_super sb" and "region_only (data_bitmap_start sb) (total_blocks sb) v v'" and "data_start sb \<le> b"
  shows "v' b = v b"
  using assms data_bitmap_below [OF assms(1), of b] by (auto simp: region_only_def not_le [symmetric])

lemma on_alloc_run: "on_alloc m (ino, x) = (case m x of (r, y) \<Rightarrow> (r, (ino, y)))"
  by (simp add: on_alloc_def zoomE_def)

lemma on_ijournal_run: "on_ijournal m (ino, (a, s)) = (case m s of (r, s') \<Rightarrow> (r, (ino, (a, s'))))"
  by (simp add: on_ijournal_def on_alloc_run on_journal_run split: prod.split)

lemma upd_inode_run: "upd_inode f (ino, x) = (Ret (), (f ino, x))"
  by (simp add: upd_inode_def)

text \<open>What allocating blocks promises: they are new, different, data blocks, and marked.\<close>

definition free_count :: "superblock \<Rightarrow> allocator \<Rightarrow> nat" where
  "free_count sb a = card ({b. b < total_blocks sb} - used (a_blocks a))"

definition got_blocks :: "superblock \<Rightarrow> (u32 \<Rightarrow> block) \<Rightarrow> allocator \<Rightarrow> (u32 \<Rightarrow> block) \<Rightarrow> allocator \<Rightarrow> u32 list \<Rightarrow> bool" where
  "got_blocks sb v a v' a' got \<longleftrightarrow> distinct got \<and> set got \<inter> used (a_blocks a) = {} \<and>
     (\<forall>b \<in> set got. data_start sb \<le> b \<and> b < total_blocks sb) \<and>
     blocks_changed sb v a v' a' (used (a_blocks a) \<union> set got)"

lemma blocks_changed_trans:
  assumes "blocks_changed sb v a v1 a1 U" and "blocks_changed sb v1 a1 v2 a2 W"
  shows "blocks_changed sb v a v2 a2 W"
  using assms region_only_trans unfolding blocks_changed_def by metis

lemma got_blocks_snoc:
  assumes "got_blocks sb v a v1 a1 got" and "b \<notin> used (a_blocks a1)" and "data_start sb \<le> b" and "b < total_blocks sb"
    and "blocks_changed sb v1 a1 v2 a2 (insert b (used (a_blocks a1)))"
  shows "got_blocks sb v a v2 a2 (got @ [b])"
proof -
  have u: "used (a_blocks a1) = used (a_blocks a) \<union> set got" using assms(1) by (simp add: got_blocks_def blocks_changed_def)
  have "blocks_changed sb v a v1 a1 (used (a_blocks a) \<union> set got)" using assms(1) by (simp add: got_blocks_def)
  from blocks_changed_trans [OF this assms(5)] u have "blocks_changed sb v a v2 a2 (used (a_blocks a) \<union> set (got @ [b]))" by simp
  with assms u show ?thesis by (auto simp: got_blocks_def)
qed

context journal_store
begin

lemma get_ptr_ok:
  assumes "invar s" and "0 < b" and "b < limit"
  shows "\<exists>s'. get_ptr J b i s = (Ret (ptr_at (view s b) i), s') \<and> invar s' \<and> view s' = view s"
  using read_ok [OF assms] by (auto simp: get_ptr_def ptr_at_def)

lemma set_ptr_ok:
  assumes "invar s" and "0 < b" and "b < limit" and "i < 1024"
  shows "\<exists>s'. set_ptr J b fresh i w s = (Ret (), s') \<and> invar s' \<and>
    view s' = (view s)(b := put_at (i * 4) (le32 w) (if fresh then zero_block else view s b))"
proof -
  have "is_block (if fresh then zero_block else view s b)" using view_len [OF assms(1-3)] by simp
  from is_block_put_ptr [OF this assms(4), of w] write_ok [where fn = "modE (put_at (i * 4) (le32 w))" and fresh = fresh, OF assms(1-3)]
  show ?thesis by (simp add: set_ptr_def)
qed

lemma bmap_read_ok:
  assumes "invar s" and "owns sb U (place_ptr (view s) ino)" and "wf_super sb" and "total_blocks sb = limit" and "k < MAX_FILE_BLOCKS"
  shows "\<exists>s'. bmap_read J ino k s = (Ret (file_block (view s) ino k), s') \<and> invar s' \<and> view s' = view s"
proof -
  have range: "0 < p \<and> p < limit" if "p \<noteq> 0" "place_ptr (view s) ino q = p" for p q
    using ownsD(2) [OF assms(2), of q] that assms(4) by (auto simp: word_neq_0_conv)
  consider "k < 12" | "12 \<le> k" "k < 1036" | "1036 \<le> k" by linarith
  then show ?thesis
  proof cases
    case 1
    then show ?thesis using assms(1) by (simp add: bmap_read_def file_block_def)
  next
    case 2
    show ?thesis
    proof (cases "single_indirect ino = 0")
      case True
      then show ?thesis using 2 assms(1) by (auto simp: bmap_read_def file_block_def Let_def)
    next
      case False
      with range [of "single_indirect ino" Single] have "0 < single_indirect ino" "single_indirect ino < limit" by (simp_all add: place_ptr_def)
      from get_ptr_ok [OF assms(1) this, of "k - 12"] False 2 show ?thesis by (auto simp: bmap_read_def file_block_def Let_def)
    qed
  next
    case 3
    note r = file_block_range [OF 3 assms(5)]
    have i: "\<not> k < 12" "\<not> k - 12 < 1024" "\<not> k - 12 - 1024 \<ge> DOUBLE_SPAN" "k - 12 - 1024 = k - 1036"
      using 3 assms(5) by (auto simp: DOUBLE_SPAN_def)
    show ?thesis
    proof (cases "double_indirect ino = 0")
      case True
      then show ?thesis using 3 i assms(1) by (simp add: bmap_read_def file_block_def Let_def second_at_def)
    next
      case False
      with range [of "double_indirect ino" Double] have d: "0 < double_indirect ino" "double_indirect ino < limit" by (simp_all add: place_ptr_def)
      let ?s2 = "second_at (view s) ino ((k - 1036) div 1024)"
      from get_ptr_ok [OF assms(1) d, of "(k - 1036) div 1024"] False obtain s1 where
        1: "get_ptr J (double_indirect ino) ((k - 1036) div 1024) s = (Ret ?s2, s1)" "invar s1" "view s1 = view s" by (auto simp: second_at_def)
      show ?thesis
      proof (cases "?s2 = 0")
        case True
        then show ?thesis using 1 i 3 False by (simp add: bmap_read_def file_block_def Let_def)
      next
        case ne: False
        with range [of ?s2 "Second ((k - 1036) div 1024)"] r(1) have "0 < ?s2" "?s2 < limit" by (simp_all add: place_ptr_def)
        from get_ptr_ok [OF 1(2) this, of "(k - 1036) mod 1024"] 1 ne i 3 False show ?thesis
          by (auto simp: bmap_read_def file_block_def Let_def)
      qed
    qed
  qed
qed

lemma alloc_block_cases:
  assumes "invar s" and "wf_super sb" and "total_blocks sb = limit" and "alloc_ok sb (view s) a"
  shows "(alloc_block J (a, s) = (Raise (FsError VFS_ENOSPC), (a, s)) \<and> used (a_blocks a) = {b. b < total_blocks sb}) \<or>
    (\<exists>b a' s'. alloc_block J (a, s) = (Ret b, (a', s')) \<and> invar s' \<and> got_blocks sb (view s) a (view s') a' [b])"
proof (cases "find_first_free (a_blocks a)")
  case (Some b)
  with alloc_block_ok [OF assms] assms(3) show ?thesis by (fastforce simp: got_blocks_def)
qed (use alloc_block_ok [OF assms] assms(3) in simp)

text \<open>Several blocks at once: if one cannot be had, those already had are given back.\<close>

lemma alloc_loop_ok:
  assumes "wf_super sb" and "total_blocks sb = limit" and "alloc_ok sb v a"
    and "invar s" and "got_blocks sb v a (view s) a1 got"
  shows "(\<exists>a' s'. alloc_loop J n got (a1, s) = (Raise (FsError VFS_ENOSPC), (a', s')) \<and> invar s' \<and>
      blocks_changed sb v a (view s') a' (used (a_blocks a)) \<and> free_count sb a < length got + n) \<or>
    (\<exists>new a' s'. alloc_loop J n got (a1, s) = (Ret (got @ new), (a', s')) \<and> length new = n \<and> invar s' \<and>
      got_blocks sb v a (view s') a' (got @ new))"
  using assms(4,5)
proof (induction n arbitrary: got a1 s)
  case 0
  then show ?case by auto
next
  case (Suc n)
  have ok: "alloc_ok sb (view s) a1" and u: "used (a_blocks a1) = used (a_blocks a) \<union> set got" and disj: "set got \<inter> used (a_blocks a) = {}"
    using Suc.prems(2) by (simp_all add: got_blocks_def blocks_changed_def)
  from alloc_block_cases [OF Suc.prems(1) assms(1,2) ok] show ?case
  proof (elim disjE exE conjE)
    assume none: "alloc_block J (a1, s) = (Raise (FsError VFS_ENOSPC), (a1, s))" and all: "used (a_blocks a1) = {b. b < total_blocks sb}"
    have "{b. b < total_blocks sb} - used (a_blocks a) \<subseteq> set got" using all u by auto
    then have few: "free_count sb a < length got + Suc n"
      unfolding free_count_def using card_mono [of "set got" "{b. b < total_blocks sb} - used (a_blocks a)"] card_length [of got] by simp
    have "distinct got \<and> (\<forall>x \<in> set got. data_start sb \<le> x \<and> x < limit \<and> x \<in> used (a_blocks a1))"
      using Suc.prems(2) u assms(2) by (simp add: got_blocks_def)
    with free_blocks_ok [OF Suc.prems(1) assms(1,2) ok, of got] obtain a' s' where
      f: "free_blocks J got (a1, s) = (Ret (), (a', s'))" "invar s'" "blocks_changed sb (view s) a1 (view s') a' (used (a_blocks a1) - set got)" by auto
    have "used (a_blocks a1) - set got = used (a_blocks a)" using u disj by auto
    with f(3) blocks_changed_trans [OF _ f(3)] Suc.prems(2) have "blocks_changed sb v a (view s') a' (used (a_blocks a))"
      by (auto simp: got_blocks_def)
    moreover have "alloc_loop J (Suc n) got (a1, s) = (Raise (FsError VFS_ENOSPC), (a', s'))"
      using none f(1) by (simp add: cleanupE_Raise)
    ultimately show ?thesis using f(2) few by blast
  next
    fix b a2 s2
    assume b: "alloc_block J (a1, s) = (Ret b, (a2, s2))" "invar s2" "got_blocks sb (view s) a1 (view s2) a2 [b]"
    from got_blocks_snoc [OF Suc.prems(2), of b "view s2" a2] b(3) have "got_blocks sb v a (view s2) a2 (got @ [b])"
      by (auto simp: got_blocks_def)
    from Suc.IH [OF b(2) this] b(1) show ?thesis by fastforce
  qed
qed

end

section \<open>Growing a file\<close>

text \<open>Nothing of the inode but its pointers and its count of blocks differs.\<close>

definition same_file :: "inode \<Rightarrow> inode \<Rightarrow> bool" where
  "same_file i i' \<longleftrightarrow> i' = i\<lparr>direct := direct i', single_indirect := single_indirect i',
     double_indirect := double_indirect i', block_count := block_count i'\<rparr>"

definition indirects :: "(u32 \<Rightarrow> block) \<Rightarrow> inode \<Rightarrow> u32 set" where
  "indirects v ino = place_ptr v ino ` ({Single, Double} \<union> range Second)"

text \<open>
  Block \<^term>\<open>k\<close> of the file is now \<^term>\<open>b\<close>, which was free; its other blocks are the same, and so are
  the contents of every block that was in use, but for the file's indirect blocks and the bitmap.
\<close>

definition grown ::
  "superblock \<Rightarrow> (u32 \<Rightarrow> block) \<Rightarrow> allocator \<Rightarrow> inode \<Rightarrow> nat \<Rightarrow> u32 \<Rightarrow> (u32 \<Rightarrow> block) \<Rightarrow> allocator \<Rightarrow> inode \<Rightarrow> bool" where
  "grown sb v a ino k b v' a' ino' \<longleftrightarrow>
     alloc_ok sb v' a' \<and> owns sb (used (a_blocks a')) (place_ptr v' ino') \<and> length (direct ino') = 12 \<and> same_file ino ino' \<and>
     a_inodes a' = a_inodes a \<and> b \<notin> used (a_blocks a) \<and> used (a_blocks a) \<subseteq> used (a_blocks a') \<and>
     (\<forall>n < MAX_FILE_BLOCKS. file_block v' ino' n = (if n = k then b else file_block v ino n)) \<and>
     (\<forall>p. place_ptr v' ino' p \<in> used (a_blocks a) \<longrightarrow> place_ptr v' ino' p = place_ptr v ino p) \<and>
     (\<forall>x \<in> used (a_blocks a) - indirects v ino. \<not> in_region (data_bitmap_start sb) (total_blocks sb) x \<longrightarrow> v' x = v x)"

text \<open>How many blocks a file has to be given for block \<^term>\<open>k\<close>: the block and the indirect blocks on the way to it.\<close>

definition missing :: "(u32 \<Rightarrow> block) \<Rightarrow> inode \<Rightarrow> nat \<Rightarrow> nat" where
  "missing v ino k =
     (if k < 12 then 1
      else if k < 1036 then (if single_indirect ino = 0 then 2 else 1)
      else if double_indirect ino = 0 then 3
      else if second_at v ino ((k - 1036) div 1024) = 0 then 2 else 1)"

lemma missing_le: "missing v ino k \<le> 3"
  by (simp add: missing_def)

definition bmap_result ::
  "superblock \<Rightarrow> ('j \<Rightarrow> bool) \<Rightarrow> ('j \<Rightarrow> u32 \<Rightarrow> block) \<Rightarrow> (u32 \<Rightarrow> block) \<Rightarrow> allocator \<Rightarrow> inode \<Rightarrow> nat \<Rightarrow>
   (u32 \<times> bool) outcome \<times> 'j inode_state \<Rightarrow> bool" where
  "bmap_result sb iv vw v a ino k r \<longleftrightarrow>
     (if file_block v ino k \<noteq> 0
      then \<exists>s'. r = (Ret (file_block v ino k, False), (ino, (a, s'))) \<and> iv s' \<and> vw s' = v
      else (\<exists>a' s'. r = (Raise (FsError VFS_ENOSPC), (ino, (a', s'))) \<and> iv s' \<and>
             blocks_changed sb v a (vw s') a' (used (a_blocks a)) \<and> free_count sb a < missing v ino k) \<or>
           (\<exists>b ino' a' s'. r = (Ret (b, True), (ino', (a', s'))) \<and> iv s' \<and> grown sb v a ino k b (vw s') a' ino'))"

text \<open>The blocks of a file are above the bitmaps, so allocation does not move its pointers.\<close>

lemma place_ptr_alloc:
  assumes "wf_super sb" and "owns sb U (place_ptr v ino)" and "region_only (data_bitmap_start sb) (total_blocks sb) v v1"
  shows "place_ptr v1 ino = place_ptr v ino"
  by (rule place_ptr_other) (rule data_unchanged [OF assms(1,3)], rule ownsD(1) [OF assms(2)])

lemma grownI:
  assumes wf: "wf_super sb" and ok: "alloc_ok sb v a" "owns sb (used (a_blocks a)) (place_ptr v ino)"
    and got: "got_blocks sb v a v1 a1 got" "b \<in> set got"
    and own: "owns sb (used (a_blocks a1)) (place_ptr v2 ino')" and k: "k < MAX_FILE_BLOCKS"
    and ino: "length (direct ino') = 12" "same_file ino ino'"
    and ptr: "\<And>n. place_ptr v2 ino' (Data n) = (if n = k then b else place_ptr v ino (Data n))"
    and ptr2: "\<And>p. place_ptr v2 ino' p \<in> set got \<or> place_ptr v2 ino' p = place_ptr v ino p"
    and same: "\<And>x. x \<notin> set got \<Longrightarrow> x \<notin> indirects v ino \<Longrightarrow> v2 x = v1 x" "\<And>x. x < data_start sb \<Longrightarrow> v2 x = v1 x"
  shows "grown sb v a ino k b v2 a1 ino'"
proof -
  have bc: "blocks_changed sb v a v1 a1 (used (a_blocks a) \<union> set got)" and disj: "set got \<inter> used (a_blocks a) = {}"
    using got(1) by (simp_all add: got_blocks_def)
  have "alloc_ok sb v2 a1"
  proof (rule alloc_ok_cong [OF _ wf])
    show "alloc_ok sb v1 a1" using bc by (simp add: blocks_changed_def)
    fix x assume "in_region (inode_bitmap_start sb) (inode_count sb) x \<or> in_region (data_bitmap_start sb) (total_blocks sb) x"
    then have "x < data_start sb" using wf by (auto simp: wf_super_def in_region_def word_less_nat_alt)
    then show "v2 x = v1 x" by (rule same(2))
  qed
  moreover have "file_block v2 ino' n = (if n = k then b else file_block v ino n)" if "n < MAX_FILE_BLOCKS" for n
    using ptr [of n] that by (simp add: place_ptr_def)
  moreover have "v2 x = v x" if "x \<in> used (a_blocks a) - indirects v ino" "\<not> in_region (data_bitmap_start sb) (total_blocks sb) x" for x
    using that same(1) [of x] disj bc by (auto simp: blocks_changed_def region_only_def)
  moreover have "place_ptr v2 ino' p = place_ptr v ino p" if "place_ptr v2 ino' p \<in> used (a_blocks a)" for p
    using ptr2 [of p] that disj by blast
  ultimately show ?thesis using own ino bc got(2) disj by (auto simp: grown_def blocks_changed_def)
qed

text \<open>The state of a file: everything the operations on its blocks rely on.\<close>

definition file_ok :: "superblock \<Rightarrow> (u32 \<Rightarrow> block) \<Rightarrow> allocator \<Rightarrow> inode \<Rightarrow> bool" where
  "file_ok sb v a ino \<longleftrightarrow> wf_super sb \<and> alloc_ok sb v a \<and> owns sb (used (a_blocks a)) (place_ptr v ino) \<and> length (direct ino) = 12"

lemma file_okD:
  assumes "file_ok sb v a ino"
  shows "wf_super sb" "alloc_ok sb v a" "owns sb (used (a_blocks a)) (place_ptr v ino)" "length (direct ino) = 12"
  using assms by (simp_all add: file_ok_def)

lemma got_blocksD:
  assumes "got_blocks sb v a v1 a1 got"
  shows "distinct got" "set got \<inter> used (a_blocks a) = {}" "b \<in> set got \<Longrightarrow> data_start sb \<le> b \<and> b < total_blocks sb"
    "used (a_blocks a1) = used (a_blocks a) \<union> set got" "region_only (data_bitmap_start sb) (total_blocks sb) v v1"
  using assms by (auto simp: got_blocks_def blocks_changed_def)

text \<open>A block that was just allocated is none of the file's, and not 0.\<close>

lemma got_fresh:
  assumes "file_ok sb v a ino" and "got_blocks sb v a v1 a1 got" and "b \<in> set got"
  shows "place_ptr v ino p \<noteq> b" "b \<noteq> 0" "0 < b"
proof -
  have b: "b \<notin> used (a_blocks a)" "data_start sb \<le> b" using got_blocksD(2,3) [OF assms(2)] assms(3) by auto
  have "0 < data_start sb" using file_okD(1) [OF assms(1)] by (auto simp: wf_super_def word_less_nat_alt)
  with b(2) show "0 < b" by simp
  then show nz: "b \<noteq> 0" by auto
  show "place_ptr v ino p \<noteq> b" using ownsD(3) [OF file_okD(3) [OF assms(1)], of p] b(1) nz by auto
qed

context journal_store
begin

lemma bmap_full:
  assumes "file_block v ino k = 0" and "r = (Raise (FsError VFS_ENOSPC), (ino, (a', s')))" and "invar s'"
    and "blocks_changed sb v a (view s') a' (used (a_blocks a))" and "free_count sb a < missing v ino k"
  shows "bmap_result sb invar view v a ino k r"
  using assms by (auto simp: bmap_result_def)

lemma bmap_grown:
  assumes "file_block v ino k = 0" and "r = (Ret (b, True), (ino', (a', s')))" and "invar s'" and "grown sb v a ino k b (view s') a' ino'"
  shows "bmap_result sb invar view v a ino k r"
  using assms by (auto simp: bmap_result_def)

lemma place_range:
  assumes "owns sb U (place_ptr v ino)" and "total_blocks sb = limit" and "place_ptr v ino p \<noteq> 0"
  shows "0 < place_ptr v ino p" "place_ptr v ino p < limit"
  using ownsD(2) [OF assms(1,3)] assms(2,3) by (auto simp: word_neq_0_conv)

lemma bmap_alloc_direct_ok:
  assumes "invar s" and "file_ok sb (view s) a ino" and "total_blocks sb = limit" and k: "k < 12"
  shows "bmap_result sb invar view (view s) a ino k (bmap_alloc_direct J ino k (ino, (a, s)))"
proof (cases "direct ino ! k = 0")
  case False
  then show ?thesis using k assms(1) by (simp add: bmap_alloc_direct_def bmap_result_def file_block_def)
next
  case True
  note f = file_okD [OF assms(2)]
  have fb: "file_block (view s) ino k = 0" using True k by (simp add: file_block_def)
  from alloc_block_cases [OF assms(1) f(1) assms(3) f(2)] show ?thesis
  proof (elim disjE exE conjE)
    assume none: "alloc_block J (a, s) = (Raise (FsError VFS_ENOSPC), (a, s))" and all: "used (a_blocks a) = {b. b < total_blocks sb}"
    have "bmap_alloc_direct J ino k (ino, (a, s)) = (Raise (FsError VFS_ENOSPC), (ino, (a, s)))"
      using True none by (simp add: bmap_alloc_direct_def on_alloc_run bindE_def)
    then show ?thesis by (rule bmap_full [OF fb _ assms(1)]) (simp_all add: blocks_changed_def f(2) free_count_def all missing_def k)
  next
    fix b a1 s1
    assume b: "alloc_block J (a, s) = (Ret b, (a1, s1))" "invar s1" "got_blocks sb (view s) a (view s1) a1 [b]"
    note g = got_blocksD [OF b(3)]
    let ?i = "ino\<lparr>direct := (direct ino)[k := b], block_count := block_count ino + 1\<rparr>"
    have run: "bmap_alloc_direct J ino k (ino, (a, s)) = (Ret (b, True), (?i, (a1, s1)))"
      using True b(1) by (simp add: bmap_alloc_direct_def on_alloc_run bindE_def thenE_def upd_inode_run)
    have ptr: "place_ptr (view s1) ?i = (place_ptr (view s) ino)(Data k := b)"
      using set_direct [OF k f(4), where v = "view s1" and b = b and c = "block_count ino + 1"] place_ptr_alloc [OF f(1,3) g(5)] by simp
    have "grown sb (view s) a ino k b (view s1) a1 ?i"
    proof (rule grownI [OF f(1-3) b(3)])
      show "owns sb (used (a_blocks a1)) (place_ptr (view s1) ?i)"
        unfolding ptr using owns_upd [OF f(3), of b "Data k"] g(2,3,4) by simp
      show "place_ptr (view s1) ?i (Data n) = (if n = k then b else place_ptr (view s) ino (Data n))" for n unfolding ptr by simp
      show "place_ptr (view s1) ?i p \<in> set [b] \<or> place_ptr (view s1) ?i p = place_ptr (view s) ino p" for p unfolding ptr by simp
    qed (use k f(4) in \<open>simp_all add: same_file_def\<close>)
    with run b(2) show ?thesis by (intro bmap_grown [OF fb])
  qed
qed

lemma bmap_alloc_single_ok:
  assumes "invar s" and "file_ok sb (view s) a ino" and "total_blocks sb = limit" and i: "i < 1024"
  shows "bmap_result sb invar view (view s) a ino (12 + i) (bmap_alloc_single J ino i (ino, (a, s)))"
proof (cases "single_indirect ino = 0")
  case False
  note f = file_okD [OF assms(2)]
  let ?si = "single_indirect ino"
  have r: "0 < ?si" "?si < limit" using place_range [OF f(3) assms(3), of Single] False by (simp_all add: place_ptr_def)
  have fb: "file_block (view s) ino (12 + i) = ptr_at (view s ?si) i" using False i by (simp add: file_block_def)
  from get_ptr_ok [OF assms(1) r, of i] obtain s0 where
    0: "get_ptr J ?si i s = (Ret (ptr_at (view s ?si) i), s0)" "invar s0" "view s0 = view s" by blast
  show ?thesis
  proof (cases "ptr_at (view s ?si) i = 0")
    case ne: False
    then show ?thesis using False 0 fb by (simp add: bmap_alloc_single_def on_ijournal_run bindE_def bmap_result_def)
  next
    case True
    have fb0: "file_block (view s) ino (12 + i) = 0" using fb True by simp
    from alloc_block_cases [OF 0(2) f(1) assms(3)] f(2) 0(3) have
      "(alloc_block J (a, s0) = (Raise (FsError VFS_ENOSPC), (a, s0)) \<and> used (a_blocks a) = {b. b < total_blocks sb}) \<or>
       (\<exists>b a' s'. alloc_block J (a, s0) = (Ret b, (a', s')) \<and> invar s' \<and> got_blocks sb (view s) a (view s') a' [b])" by metis
    then show ?thesis
    proof (elim disjE exE conjE)
      assume none: "alloc_block J (a, s0) = (Raise (FsError VFS_ENOSPC), (a, s0))" and all: "used (a_blocks a) = {b. b < total_blocks sb}"
      have "bmap_alloc_single J ino i (ino, (a, s)) = (Raise (FsError VFS_ENOSPC), (ino, (a, s0)))"
        using False True none 0(1) by (simp add: bmap_alloc_single_def on_alloc_run on_ijournal_run bindE_def)
      then show ?thesis by (rule bmap_full [OF fb0 _ 0(2)]) (use i False in \<open>simp_all add: blocks_changed_def f(2) 0(3) free_count_def all missing_def\<close>)
    next
      fix b a1 s1
      assume b: "alloc_block J (a, s0) = (Ret b, (a1, s1))" "invar s1" "got_blocks sb (view s) a (view s1) a1 [b]"
      note g = got_blocksD [OF b(3)]
      from set_ptr_ok [OF b(2) r i, of False b] obtain s2 where
        2: "set_ptr J ?si False i b s1 = (Ret (), s2)" "invar s2" "view s2 = (view s1)(?si := put_at (i * 4) (le32 b) (view s1 ?si))" by auto
      let ?i = "ino\<lparr>block_count := block_count ino + 1\<rparr>"
      have run: "bmap_alloc_single J ino i (ino, (a, s)) = (Ret (b, True), (?i, (a1, s2)))"
        using False True b(1) 0(1) 2(1)
        by (simp add: bmap_alloc_single_def on_alloc_run on_ijournal_run bindE_def thenE_def upd_inode_run)
      note p1 = place_ptr_alloc [OF f(1,3) g(5)]
      have own1: "owns sb (used (a_blocks a)) (place_ptr (view s1) ino)" using f(3) p1 by simp
      have ptr: "place_ptr (view s2) ?i = (place_ptr (view s) ino)(Data (12 + i) := b)"
        using set_in_single [OF own1 False view_len [OF b(2) r] i, of b] 2(3) p1 by simp
      have "?si \<in> indirects (view s) ino" by (auto simp: indirects_def place_ptr_def)
      moreover have "data_start sb \<le> ?si" using ownsD(1) [OF f(3), of Single] False by (simp add: place_ptr_def)
      ultimately have "grown sb (view s) a ino (12 + i) b (view s2) a1 ?i"
      proof (intro grownI [OF f(1-3) b(3)])
        show "owns sb (used (a_blocks a1)) (place_ptr (view s2) ?i)"
          unfolding ptr using owns_upd [OF f(3), of b "Data (12 + i)"] g(2,3,4) by simp
        show "place_ptr (view s2) ?i (Data n) = (if n = 12 + i then b else place_ptr (view s) ino (Data n))" for n unfolding ptr by simp
        show "place_ptr (view s2) ?i p \<in> set [b] \<or> place_ptr (view s2) ?i p = place_ptr (view s) ino p" for p unfolding ptr by simp
      qed (use i f(4) 2(3) in \<open>auto simp: same_file_def\<close>)
      with run 2(2) show ?thesis by (intro bmap_grown [OF fb0])
    qed
  qed
next
  case True
  note f = file_okD [OF assms(2)]
  have fb0: "file_block (view s) ino (12 + i) = 0" using True i by (simp add: file_block_def)
  have "got_blocks sb (view s) a (view s) a []" using f(2) by (simp add: got_blocks_def blocks_changed_def)
  from alloc_loop_ok [OF f(1) assms(3) f(2) assms(1) this, of 2] show ?thesis
  proof (elim disjE exE conjE)
    fix a' s' assume none: "alloc_loop J 2 [] (a, s) = (Raise (FsError VFS_ENOSPC), (a', s'))" "invar s'"
      "blocks_changed sb (view s) a (view s') a' (used (a_blocks a))" "free_count sb a < length ([] :: u32 list) + 2"
    have "bmap_alloc_single J ino i (ino, (a, s)) = (Raise (FsError VFS_ENOSPC), (ino, (a', s')))"
      using True none(1) by (simp add: bmap_alloc_single_def on_alloc_run bindE_def alloc_all_def)
    then show ?thesis by (rule bmap_full [OF fb0 _ none(2,3)]) (use none(4) True i in \<open>simp add: missing_def\<close>)
  next
    fix new a1 s1 assume n: "alloc_loop J 2 [] (a, s) = (Ret ([] @ new), (a1, s1))" "length new = 2" "invar s1"
      "got_blocks sb (view s) a (view s1) a1 ([] @ new)"
    from n(2) obtain n0 b where new: "new = [n0, b]" by (auto simp: numeral_2_eq_2 length_Suc_conv)
    have gb: "got_blocks sb (view s) a (view s1) a1 [n0, b]" using n(4) new by simp
    note g = got_blocksD [OF gb]
    have n0: "0 < n0" "n0 < limit" "n0 \<noteq> b" using got_fresh(3) [OF assms(2) gb, of n0] g(1,3) assms(3) by auto
    from set_ptr_ok [OF n(3) n0(1,2) i, of True b] obtain s2 where
      2: "set_ptr J n0 True i b s1 = (Ret (), s2)" "invar s2" "view s2 = (view s1)(n0 := put_at (i * 4) (le32 b) zero_block)" by auto
    let ?base = "ino\<lparr>single_indirect := n0\<rparr>" and ?i = "ino\<lparr>single_indirect := n0, block_count := block_count ino + 2\<rparr>"
    have run: "bmap_alloc_single J ino i (ino, (a, s)) = (Ret (b, True), (?i, (a1, s2)))"
      using True n(1) new 2(1)
      by (simp add: bmap_alloc_single_def on_alloc_run on_ijournal_run bindE_def thenE_def upd_inode_run alloc_all_def)
    note p1 = place_ptr_alloc [OF f(1,3) g(5)]
    have p2: "place_ptr ((view s1)(n0 := zero_block)) ?base = (place_ptr (view s) ino)(Single := n0)"
      using attach_single [OF True, of "view s1" n0] got_fresh [OF assms(2) gb, of n0] p1 by simp
    have own2: "owns sb (insert n0 (used (a_blocks a))) (place_ptr ((view s1)(n0 := zero_block)) ?base)"
      unfolding p2 using owns_upd [OF f(3), of n0 Single] g(2,3) by simp
    have ptr: "place_ptr (view s2) ?i = (place_ptr (view s) ino)(Single := n0, Data (12 + i) := b)"
      using set_in_single [OF own2 _ _ i, of b] n0(1) p2 place_ptr_block_count [of "view s2" _ ?base] by (simp add: 2(3))
    have "grown sb (view s) a ino (12 + i) b (view s2) a1 ?i"
    proof (rule grownI [OF f(1-3) gb])
      have "b \<notin> insert n0 (used (a_blocks a))" using g(1,2) by auto
      from owns_upd [OF own2 this, of "Data (12 + i)"] g(3,4) show "owns sb (used (a_blocks a1)) (place_ptr (view s2) ?i)"
        unfolding ptr p2 by (simp add: insert_commute)
      show "place_ptr (view s2) ?i (Data n) = (if n = 12 + i then b else place_ptr (view s) ino (Data n))" for n unfolding ptr by simp
      show "place_ptr (view s2) ?i p \<in> set [n0, b] \<or> place_ptr (view s2) ?i p = place_ptr (view s) ino p" for p unfolding ptr by simp
      show "x < data_start sb \<Longrightarrow> view s2 x = view s1 x" for x using g(3) [of n0] 2(3) by auto
    qed (use i f(4) 2(3) in \<open>auto simp: same_file_def\<close>)
    with run 2(2) show ?thesis by (intro bmap_grown [OF fb0])
  qed
qed

end

text \<open>What \<^verbatim>\<open>bmap_alloc\<close> does once it knows that a block behind the double indirect block is missing.\<close>

definition double_grow :: "'j journal \<Rightarrow> inode \<Rightarrow> nat \<Rightarrow> u32 \<Rightarrow> ('j inode_state, u32 \<times> bool) op" where
  "double_grow j ino index second =
     (let i1 = index div PTRS_PER_BLOCK; i2 = index mod PTRS_PER_BLOCK; top = double_indirect ino;
          new_top = (top = 0); new_second = (second = 0);
          need = 1 + (if new_second then 1 else 0) + (if new_top then 1 else 0)
      in bindE (on_alloc (alloc_all j need)) (\<lambda>got.
         let top = (if new_top then got ! 0 else top);
             k = (if new_top then 1 else 0);
             second = (if new_second then got ! k else second);
             k = (if new_second then k + 1 else k);
             data = got ! k
         in thenE (on_ijournal (set_ptr j second new_second i2 data))
           (thenE (whenE new_second (on_ijournal (set_ptr j top new_top i1 second)))
           (thenE (upd_inode (\<lambda>i. i\<lparr>double_indirect := top, block_count := block_count i + of_nat need\<rparr>))
           (retE (data, True))))))"

lemma bmap_alloc_double_grow:
  "bmap_alloc_double j ino index =
     bindE (if double_indirect ino \<noteq> 0 then on_ijournal (get_ptr j (double_indirect ino) (index div PTRS_PER_BLOCK)) else retE 0) (\<lambda>second.
     bindE (if second \<noteq> 0 then on_ijournal (get_ptr j second (index mod PTRS_PER_BLOCK)) else retE 0) (\<lambda>data.
     if data \<noteq> 0 then retE (data, False) else double_grow j ino index second))"
  unfolding bmap_alloc_double_def double_grow_def Let_def by (rule refl)

context journal_store
begin

lemma double_reads_ok:
  assumes "invar s" and "file_ok sb (view s) a ino" and "total_blocks sb = limit" and "i1 < 1024" and "i2 < 1024"
  shows "\<exists>s0. invar s0 \<and> view s0 = view s \<and> bmap_alloc_double J ino (i1 * 1024 + i2) (ino, (a, s)) =
    (if file_block (view s) ino (1036 + i1 * 1024 + i2) \<noteq> 0 then (Ret (file_block (view s) ino (1036 + i1 * 1024 + i2), False), (ino, (a, s0)))
     else double_grow J ino (i1 * 1024 + i2) (second_at (view s) ino i1) (ino, (a, s0)))"
proof -
  note f = file_okD [OF assms(2)]
  let ?t = "double_indirect ino" and ?s2 = "second_at (view s) ino i1"
  have ix: "(i1 * 1024 + i2) div 1024 = i1" "(i1 * 1024 + i2) mod 1024 = i2" using assms(5) by simp_all
  have fb: "file_block (view s) ino (1036 + i1 * 1024 + i2) = (if ?s2 = 0 then 0 else ptr_at (view s ?s2) i2)"
    using double_index [OF assms(4,5)] by (simp add: file_block_def Let_def)
  have "\<exists>s0. (if ?t \<noteq> 0 then on_ijournal (get_ptr J ?t i1) else retE 0) (ino, (a, s)) = (Ret ?s2, (ino, (a, s0))) \<and> invar s0 \<and> view s0 = view s"
  proof (cases "?t = 0")
    case True
    then show ?thesis using assms(1) by (simp add: second_at_def)
  next
    case False
    with place_range [OF f(3) assms(3), of Double] have "0 < ?t" "?t < limit" by (simp_all add: place_ptr_def)
    from get_ptr_ok [OF assms(1) this, of i1] False show ?thesis by (auto simp: on_ijournal_run second_at_def)
  qed
  then obtain s0 where 0: "(if ?t \<noteq> 0 then on_ijournal (get_ptr J ?t i1) else retE 0) (ino, (a, s)) = (Ret ?s2, (ino, (a, s0)))"
    "invar s0" "view s0 = view s" by blast
  have "\<exists>s1. (if ?s2 \<noteq> 0 then on_ijournal (get_ptr J ?s2 i2) else retE 0) (ino, (a, s0)) =
      (Ret (file_block (view s) ino (1036 + i1 * 1024 + i2)), (ino, (a, s1))) \<and> invar s1 \<and> view s1 = view s"
  proof (cases "?s2 = 0")
    case True
    then show ?thesis using 0(2,3) fb by simp
  next
    case False
    with place_range [OF f(3) assms(3), of "Second i1"] assms(4) have "0 < ?s2" "?s2 < limit" by (simp_all add: place_ptr_def)
    from get_ptr_ok [OF 0(2) this, of i2] False 0(3) fb show ?thesis by (auto simp: on_ijournal_run)
  qed
  then obtain s1 where 1: "(if ?s2 \<noteq> 0 then on_ijournal (get_ptr J ?s2 i2) else retE 0) (ino, (a, s0)) =
      (Ret (file_block (view s) ino (1036 + i1 * 1024 + i2)), (ino, (a, s1)))" "invar s1" "view s1 = view s" by blast
  have P: "PTRS_PER_BLOCK = 1024" by simp
  have "bmap_alloc_double J ino (i1 * 1024 + i2) (ino, (a, s)) =
    (if file_block (view s) ino (1036 + i1 * 1024 + i2) \<noteq> 0 then (Ret (file_block (view s) ino (1036 + i1 * 1024 + i2), False), (ino, (a, s1)))
     else double_grow J ino (i1 * 1024 + i2) ?s2 (ino, (a, s1)))"
    unfolding bmap_alloc_double_grow P ix bindE_def 0(1) prod.case outcome.case 1(1) by simp
  with 1(2,3) show ?thesis by blast
qed

text \<open>The last pointer is missing only.\<close>

lemma double_grow_data:
  assumes "invar s" and "file_ok sb (view s) a ino" and "total_blocks sb = limit" and i: "i1 < 1024" "i2 < 1024"
    and s2: "second_at (view s) ino i1 \<noteq> 0" and fb: "file_block (view s) ino (1036 + i1 * 1024 + i2) = 0"
  shows "bmap_result sb invar view (view s) a ino (1036 + i1 * 1024 + i2)
    (double_grow J ino (i1 * 1024 + i2) (second_at (view s) ino i1) (ino, (a, s)))"
proof -
  note f = file_okD [OF assms(2)]
  let ?s2 = "second_at (view s) ino i1" and ?k = "1036 + i1 * 1024 + i2"
  have pp: "place_ptr (view s) ino (Second i1) = ?s2" using i by (simp add: place_ptr_def)
  have r: "0 < ?s2" "?s2 < limit" using place_range [OF f(3) assms(3), of "Second i1"] s2 pp by simp_all
  have ix: "(i1 * 1024 + i2) div PTRS_PER_BLOCK = i1" "(i1 * 1024 + i2) mod PTRS_PER_BLOCK = i2" using i by simp_all
  have t: "double_indirect ino \<noteq> 0" using s2 by (auto simp: second_at_def split: if_splits)
  have run1: "double_grow J ino (i1 * 1024 + i2) ?s2 = bindE (on_alloc (alloc_loop J 1 [])) (\<lambda>got.
      thenE (on_ijournal (set_ptr J ?s2 False i2 (got ! 0)))
     (thenE (upd_inode (\<lambda>x. x\<lparr>double_indirect := double_indirect ino, block_count := block_count x + 1\<rparr>)) (retE (got ! 0, True))))"
    unfolding double_grow_def ix alloc_all_def using s2 t by (simp add: Let_def thenE_def)
  have "got_blocks sb (view s) a (view s) a []" using f(2) by (simp add: got_blocks_def blocks_changed_def)
  from alloc_loop_ok [OF f(1) assms(3) f(2) assms(1) this, of 1] show ?thesis
  proof (elim disjE exE conjE)
    fix a' s' assume none: "alloc_loop J 1 [] (a, s) = (Raise (FsError VFS_ENOSPC), (a', s'))" "invar s'"
      "blocks_changed sb (view s) a (view s') a' (used (a_blocks a))" "free_count sb a < length ([] :: u32 list) + 1"
    have "double_grow J ino (i1 * 1024 + i2) ?s2 (ino, (a, s)) = (Raise (FsError VFS_ENOSPC), (ino, (a', s')))"
      unfolding run1 using none(1) by (simp add: on_alloc_run bindE_def)
    then show ?thesis by (rule bmap_full [OF fb _ none(2,3)]) (use none(4) s2 t double_index [OF i] in \<open>simp add: missing_def\<close>)
  next
    fix new a1 s1 assume n: "alloc_loop J 1 [] (a, s) = (Ret ([] @ new), (a1, s1))" "length new = 1" "invar s1"
      "got_blocks sb (view s) a (view s1) a1 ([] @ new)"
    from n(2) obtain b where new: "new = [b]" by (auto simp: length_Suc_conv)
    have gb: "got_blocks sb (view s) a (view s1) a1 [b]" using n(4) new by simp
    note g = got_blocksD [OF gb]
    from set_ptr_ok [OF n(3) r i(2), of False b] obtain s3 where
      3: "set_ptr J ?s2 False i2 b s1 = (Ret (), s3)" "invar s3" "view s3 = (view s1)(?s2 := put_at (i2 * 4) (le32 b) (view s1 ?s2))" by auto
    let ?i = "ino\<lparr>block_count := block_count ino + 1\<rparr>"
    have run: "double_grow J ino (i1 * 1024 + i2) ?s2 (ino, (a, s)) = (Ret (b, True), (?i, (a1, s3)))"
      unfolding run1 using n(1) new 3(1)
      by (simp add: on_alloc_run on_ijournal_run bindE_def thenE_def upd_inode_run)
    note p1 = place_ptr_alloc [OF f(1,3) g(5)]
    have own1: "owns sb (used (a_blocks a)) (place_ptr (view s1) ino)" using f(3) p1 by simp
    have sec: "second_at (view s1) ino i1 = ?s2" using fun_cong [OF p1, of "Second i1"] i by (simp add: place_ptr_def)
    have ptr: "place_ptr (view s3) ?i = (place_ptr (view s) ino)(Data ?k := b)"
      using set_in_second [OF own1 i, of b] sec s2 view_len [OF n(3) r] 3(3) p1 by simp
    have "?s2 \<in> indirects (view s) ino" unfolding indirects_def pp [symmetric] by blast
    moreover have "data_start sb \<le> ?s2" using ownsD(1) [OF f(3), of "Second i1"] s2 pp by simp
    ultimately have "grown sb (view s) a ino ?k b (view s3) a1 ?i"
    proof (intro grownI [OF f(1-3) gb])
      show "owns sb (used (a_blocks a1)) (place_ptr (view s3) ?i)"
        unfolding ptr using owns_upd [OF f(3), of b "Data ?k"] g(2,3,4) by simp
      show "place_ptr (view s3) ?i (Data n) = (if n = ?k then b else place_ptr (view s) ino (Data n))" for n unfolding ptr by simp
      show "place_ptr (view s3) ?i p \<in> set [b] \<or> place_ptr (view s3) ?i p = place_ptr (view s) ino p" for p unfolding ptr by simp
    qed (use i f(4) 3(3) double_index(1) [OF i] in \<open>auto simp: same_file_def\<close>)
    with run 3(2) show ?thesis by (intro bmap_grown [OF fb])
  qed
qed

text \<open>The second indirect block is missing, or the double indirect block too.\<close>

lemma double_grow_second:
  assumes "invar s" and "file_ok sb (view s) a ino" and "total_blocks sb = limit" and i: "i1 < 1024" "i2 < 1024"
    and s2: "second_at (view s) ino i1 = 0" and t: "double_indirect ino \<noteq> 0" and fb: "file_block (view s) ino (1036 + i1 * 1024 + i2) = 0"
  shows "bmap_result sb invar view (view s) a ino (1036 + i1 * 1024 + i2) (double_grow J ino (i1 * 1024 + i2) 0 (ino, (a, s)))"
proof -
  note f = file_okD [OF assms(2)]
  let ?t = "double_indirect ino" and ?k = "1036 + i1 * 1024 + i2"
  have r: "0 < ?t" "?t < limit" using place_range [OF f(3) assms(3), of Double] t by (simp_all add: place_ptr_def)
  have ix: "(i1 * 1024 + i2) div PTRS_PER_BLOCK = i1" "(i1 * 1024 + i2) mod PTRS_PER_BLOCK = i2" using i by simp_all
  have run1: "double_grow J ino (i1 * 1024 + i2) 0 = bindE (on_alloc (alloc_loop J 2 [])) (\<lambda>got.
      thenE (on_ijournal (set_ptr J (got ! 0) True i2 (got ! 1)))
     (thenE (on_ijournal (set_ptr J ?t False i1 (got ! 0)))
     (thenE (upd_inode (\<lambda>x. x\<lparr>double_indirect := ?t, block_count := block_count x + 2\<rparr>)) (retE (got ! 1, True)))))"
    unfolding double_grow_def ix alloc_all_def using t by (simp add: Let_def numeral_2_eq_2)
  have "got_blocks sb (view s) a (view s) a []" using f(2) by (simp add: got_blocks_def blocks_changed_def)
  from alloc_loop_ok [OF f(1) assms(3) f(2) assms(1) this, of 2] show ?thesis
  proof (elim disjE exE conjE)
    fix a' s' assume none: "alloc_loop J 2 [] (a, s) = (Raise (FsError VFS_ENOSPC), (a', s'))" "invar s'"
      "blocks_changed sb (view s) a (view s') a' (used (a_blocks a))" "free_count sb a < length ([] :: u32 list) + 2"
    have "double_grow J ino (i1 * 1024 + i2) 0 (ino, (a, s)) = (Raise (FsError VFS_ENOSPC), (ino, (a', s')))"
      unfolding run1 using none(1) by (simp add: on_alloc_run bindE_def)
    then show ?thesis by (rule bmap_full [OF fb _ none(2,3)]) (use none(4) s2 t double_index [OF i] in \<open>simp add: missing_def\<close>)
  next
    fix new a1 s1 assume n: "alloc_loop J 2 [] (a, s) = (Ret ([] @ new), (a1, s1))" "length new = 2" "invar s1"
      "got_blocks sb (view s) a (view s1) a1 ([] @ new)"
    from n(2) obtain n2 b where new: "new = [n2, b]" by (auto simp: numeral_2_eq_2 length_Suc_conv)
    have gb: "got_blocks sb (view s) a (view s1) a1 [n2, b]" using n(4) new by simp
    note g = got_blocksD [OF gb]
    note fr = got_fresh [OF assms(2) gb, of n2, simplified]
    have n2: "n2 < limit" "n2 \<noteq> b" "n2 \<noteq> ?t" using g(1,3) assms(3) fr(1) [of Double] by (auto simp: place_ptr_def)
    from set_ptr_ok [OF n(3) fr(3) n2(1) i(2), of True b] obtain s3 where
      3: "set_ptr J n2 True i2 b s1 = (Ret (), s3)" "invar s3" "view s3 = (view s1)(n2 := put_at (i2 * 4) (le32 b) zero_block)" by auto
    from set_ptr_ok [OF 3(2) r i(1), of False n2] obtain s4 where
      4: "set_ptr J ?t False i1 n2 s3 = (Ret (), s4)" "invar s4" "view s4 = (view s3)(?t := put_at (i1 * 4) (le32 n2) (view s3 ?t))" by auto
    let ?i = "ino\<lparr>block_count := block_count ino + 2\<rparr>"
    have run: "double_grow J ino (i1 * 1024 + i2) 0 (ino, (a, s)) = (Ret (b, True), (?i, (a1, s4)))"
      unfolding run1 using n(1) new 3(1) 4(1)
      by (simp add: on_alloc_run on_ijournal_run bindE_def thenE_def upd_inode_run)
    note p1 = place_ptr_alloc [OF f(1,3) g(5)]
    have own1: "owns sb (used (a_blocks a)) (place_ptr (view s1) ino)" using f(3) p1 by simp
    have sec1: "second_at (view s1) ino i1 = 0" using fun_cong [OF p1, of "Second i1"] i s2 by (simp add: place_ptr_def)
    define v2 where "v2 = (view s1)(n2 := zero_block, ?t := put_at (i1 * 4) (le32 n2) (view s1 ?t))"
    have p2: "place_ptr v2 ino = (place_ptr (view s) ino)(Second i1 := n2)"
      using attach_second [OF own1 t view_len [OF n(3) r] i(1) sec1, of n2] fr p1 by (simp add: v2_def)
    have sec2: "second_at v2 ino i1 = n2" using fun_cong [OF p2, of "Second i1"] i by (simp add: place_ptr_def)
    have own2: "owns sb (insert n2 (used (a_blocks a))) (place_ptr v2 ino)"
      unfolding p2 using owns_upd [OF f(3), of n2 "Second i1"] g(2,3) by simp
    have v4: "view s4 = v2(n2 := put_at (i2 * 4) (le32 b) (v2 n2))"
      using n2(3) by (simp add: 4(3) 3(3) v2_def fun_upd_twist)
    have ptr: "place_ptr (view s4) ?i = (place_ptr (view s) ino)(Second i1 := n2, Data ?k := b)"
      using set_in_second [OF own2 i, of b] sec2 fr(2) n2(3) p2 by (simp add: v4) (simp add: v2_def)
    have "?t \<in> indirects (view s) ino" by (auto simp: indirects_def place_ptr_def)
    moreover have "data_start sb \<le> ?t" using ownsD(1) [OF f(3), of Double] t by (simp add: place_ptr_def)
    moreover have "data_start sb \<le> n2" using g(3) [of n2] by simp
    ultimately have "grown sb (view s) a ino ?k b (view s4) a1 ?i"
    proof (intro grownI [OF f(1-3) gb])
      have "b \<notin> insert n2 (used (a_blocks a))" using g(1,2) by auto
      from owns_upd [OF own2 this, of "Data ?k"] g(3,4) show "owns sb (used (a_blocks a1)) (place_ptr (view s4) ?i)"
        unfolding ptr p2 by (simp add: insert_commute)
      show "place_ptr (view s4) ?i (Data n) = (if n = ?k then b else place_ptr (view s) ino (Data n))" for n unfolding ptr by simp
      show "place_ptr (view s4) ?i p \<in> set [n2, b] \<or> place_ptr (view s4) ?i p = place_ptr (view s) ino p" for p unfolding ptr by simp
    qed (use i f(4) 3(3) 4(3) double_index(1) [OF i] in \<open>auto simp: same_file_def\<close>)
    with run 4(2) show ?thesis by (intro bmap_grown [OF fb])
  qed
qed

lemma double_grow_top:
  assumes "invar s" and "file_ok sb (view s) a ino" and "total_blocks sb = limit" and i: "i1 < 1024" "i2 < 1024"
    and t: "double_indirect ino = 0" and fb: "file_block (view s) ino (1036 + i1 * 1024 + i2) = 0"
  shows "bmap_result sb invar view (view s) a ino (1036 + i1 * 1024 + i2) (double_grow J ino (i1 * 1024 + i2) 0 (ino, (a, s)))"
proof -
  note f = file_okD [OF assms(2)]
  let ?k = "1036 + i1 * 1024 + i2"
  have ix: "(i1 * 1024 + i2) div PTRS_PER_BLOCK = i1" "(i1 * 1024 + i2) mod PTRS_PER_BLOCK = i2" using i by simp_all
  have run1: "double_grow J ino (i1 * 1024 + i2) 0 = bindE (on_alloc (alloc_loop J 3 [])) (\<lambda>got.
      thenE (on_ijournal (set_ptr J (got ! 1) True i2 (got ! 2)))
     (thenE (on_ijournal (set_ptr J (got ! 0) True i1 (got ! 1)))
     (thenE (upd_inode (\<lambda>x. x\<lparr>double_indirect := got ! 0, block_count := block_count x + 3\<rparr>)) (retE (got ! 2, True)))))"
    unfolding double_grow_def ix alloc_all_def using t by (simp add: Let_def numeral_3_eq_3 numeral_2_eq_2)
  have "got_blocks sb (view s) a (view s) a []" using f(2) by (simp add: got_blocks_def blocks_changed_def)
  from alloc_loop_ok [OF f(1) assms(3) f(2) assms(1) this, of 3] show ?thesis
  proof (elim disjE exE conjE)
    fix a' s' assume none: "alloc_loop J 3 [] (a, s) = (Raise (FsError VFS_ENOSPC), (a', s'))" "invar s'"
      "blocks_changed sb (view s) a (view s') a' (used (a_blocks a))" "free_count sb a < length ([] :: u32 list) + 3"
    have "double_grow J ino (i1 * 1024 + i2) 0 (ino, (a, s)) = (Raise (FsError VFS_ENOSPC), (ino, (a', s')))"
      unfolding run1 using none(1) by (simp add: on_alloc_run bindE_def)
    then show ?thesis by (rule bmap_full [OF fb _ none(2,3)]) (use none(4) t double_index [OF i] in \<open>simp add: missing_def\<close>)
  next
    fix new a1 s1 assume n: "alloc_loop J 3 [] (a, s) = (Ret ([] @ new), (a1, s1))" "length new = 3" "invar s1"
      "got_blocks sb (view s) a (view s1) a1 ([] @ new)"
    from n(2) obtain n0 n2 b where new: "new = [n0, n2, b]" by (auto simp: numeral_3_eq_3 length_Suc_conv)
    have gb: "got_blocks sb (view s) a (view s1) a1 [n0, n2, b]" using n(4) new by simp
    note g = got_blocksD [OF gb]
    note fr0 = got_fresh [OF assms(2) gb, of n0, simplified] and fr2 = got_fresh [OF assms(2) gb, of n2, simplified]
    have lim: "n0 < limit" "n2 < limit" and ne: "n0 \<noteq> n2" "n0 \<noteq> b" "n2 \<noteq> b" using g(1,3) assms(3) by auto
    from set_ptr_ok [OF n(3) fr2(3) lim(2) i(2), of True b] obtain s3 where
      3: "set_ptr J n2 True i2 b s1 = (Ret (), s3)" "invar s3" "view s3 = (view s1)(n2 := put_at (i2 * 4) (le32 b) zero_block)" by auto
    from set_ptr_ok [OF 3(2) fr0(3) lim(1) i(1), of True n2] obtain s4 where
      4: "set_ptr J n0 True i1 n2 s3 = (Ret (), s4)" "invar s4" "view s4 = (view s3)(n0 := put_at (i1 * 4) (le32 n2) zero_block)" by auto
    let ?base = "ino\<lparr>double_indirect := n0\<rparr>" and ?i = "ino\<lparr>double_indirect := n0, block_count := block_count ino + 3\<rparr>"
    have run: "double_grow J ino (i1 * 1024 + i2) 0 (ino, (a, s)) = (Ret (b, True), (?i, (a1, s4)))"
      unfolding run1 using n(1) new 3(1) 4(1)
      by (simp add: on_alloc_run on_ijournal_run bindE_def thenE_def upd_inode_run)
    note p1 = place_ptr_alloc [OF f(1,3) g(5)]
    define v1 where "v1 = (view s1)(n0 := zero_block)"
    have p2: "place_ptr v1 ?base = (place_ptr (view s) ino)(Double := n0)"
      using attach_double [OF t, of "view s1" n0] fr0 p1 by (simp add: v1_def)
    have own2: "owns sb (insert n0 (used (a_blocks a))) (place_ptr v1 ?base)"
      unfolding p2 using owns_upd [OF f(3), of n0 Double] g(2,3) by simp
    define v2 where "v2 = v1(n2 := zero_block, n0 := put_at (i1 * 4) (le32 n2) (v1 n0))"
    have sec1: "second_at v1 ?base i1 = 0" using i fr0(2) by (simp add: second_at_def v1_def)
    have p3: "place_ptr v2 ?base = (place_ptr (view s) ino)(Double := n0, Second i1 := n2)"
      using attach_second [OF own2 _ _ i(1) sec1, of n2] fr0(2) fr2 ne(1) p2 by (simp add: v2_def) (simp add: v1_def)
    have "n2 \<notin> insert n0 (used (a_blocks a))" using g(1,2) by auto
    from owns_upd [OF own2 this, of "Second i1"] g(3) have own3: "owns sb (insert n2 (insert n0 (used (a_blocks a)))) (place_ptr v2 ?base)"
      unfolding p3 p2 by simp
    have sec2: "second_at v2 ?base i1 = n2" using fun_cong [OF p3, of "Second i1"] i by (simp add: place_ptr_def)
    have v4: "view s4 = v2(n2 := put_at (i2 * 4) (le32 b) (v2 n2))"
      using ne(1) by (simp add: 4(3) 3(3) v2_def v1_def fun_eq_iff)
    have ptr: "place_ptr (view s4) ?i = (place_ptr (view s) ino)(Double := n0, Second i1 := n2, Data ?k := b)"
      using set_in_second [OF own3 i, of b] sec2 fr2(2) ne(1) p3 place_ptr_block_count [of "view s4" _ ?base] by (simp add: v4) (simp add: v2_def)
    have "data_start sb \<le> n2" "data_start sb \<le> n0" using g(3) [of n2] g(3) [of n0] by simp_all
    then have "grown sb (view s) a ino ?k b (view s4) a1 ?i"
    proof (intro grownI [OF f(1-3) gb])
      have "b \<notin> insert n2 (insert n0 (used (a_blocks a)))" using g(1,2) by auto
      from owns_upd [OF own3 this, of "Data ?k"] g(3,4) show "owns sb (used (a_blocks a1)) (place_ptr (view s4) ?i)"
        unfolding ptr p3 by (simp add: insert_commute)
      show "place_ptr (view s4) ?i (Data n) = (if n = ?k then b else place_ptr (view s) ino (Data n))" for n unfolding ptr by simp
      show "place_ptr (view s4) ?i p \<in> set [n0, n2, b] \<or> place_ptr (view s4) ?i p = place_ptr (view s) ino p" for p unfolding ptr by simp
    qed (use i f(4) 3(3) 4(3) double_index(1) [OF i] in \<open>auto simp: same_file_def\<close>)
    with run 4(2) show ?thesis by (intro bmap_grown [OF fb])
  qed
qed

text \<open>\<^verbatim>\<open>bmap_alloc\<close> as a whole.\<close>

lemma bmap_alloc_ok:
  assumes "invar s" and "file_ok sb (view s) a ino" and "total_blocks sb = limit"
  shows "if k < MAX_FILE_BLOCKS then bmap_result sb invar view (view s) a ino k (bmap_alloc J k (ino, (a, s)))
    else bmap_alloc J k (ino, (a, s)) = (Raise (FsError VFS_EFBIG), (ino, (a, s)))"
proof -
  consider "k < 12" | "12 \<le> k" "k < 1036" | "1036 \<le> k" "k < MAX_FILE_BLOCKS" | "MAX_FILE_BLOCKS \<le> k" by linarith
  then show ?thesis
  proof cases
    case 1
    with bmap_alloc_direct_ok [OF assms 1] show ?thesis by (simp add: bmap_alloc_def)
  next
    case 2
    define i where "i = k - 12"
    have i: "k = 12 + i" "i < 1024" using 2 by (simp_all add: i_def)
    with bmap_alloc_single_ok [OF assms i(2)] show ?thesis by (simp add: bmap_alloc_def Let_def)
  next
    case 3
    note r = file_block_range [OF 3]
    define i1 i2 where "i1 = (k - 1036) div 1024" and "i2 = (k - 1036) mod 1024"
    have i: "i1 < 1024" "i2 < 1024" and k: "k = 1036 + i1 * 1024 + i2" using r by (simp_all add: i1_def i2_def)
    have run: "bmap_alloc J k (ino, (a, s)) = bmap_alloc_double J ino (i1 * 1024 + i2) (ino, (a, s))"
      using 3 k i by (simp add: bmap_alloc_def Let_def DOUBLE_SPAN_def)
    from double_reads_ok [OF assms i] obtain s0 where s0: "invar s0" "view s0 = view s"
      "bmap_alloc_double J ino (i1 * 1024 + i2) (ino, (a, s)) =
        (if file_block (view s) ino k \<noteq> 0 then (Ret (file_block (view s) ino k, False), (ino, (a, s0)))
         else double_grow J ino (i1 * 1024 + i2) (second_at (view s) ino i1) (ino, (a, s0)))" unfolding k by blast
    show ?thesis
    proof (cases "file_block (view s) ino k = 0")
      case False
      with 3(2) s0 run show ?thesis by (simp add: bmap_result_def)
    next
      case fb: True
      have ok0: "file_ok sb (view s0) a ino" "file_block (view s0) ino (1036 + i1 * 1024 + i2) = 0" using assms(2) s0(2) fb k by simp_all
      consider "second_at (view s0) ino i1 \<noteq> 0" | "second_at (view s0) ino i1 = 0" "double_indirect ino \<noteq> 0" | "double_indirect ino = 0"
        by blast
      then have "bmap_result sb invar view (view s0) a ino k (double_grow J ino (i1 * 1024 + i2) (second_at (view s0) ino i1) (ino, (a, s0)))"
      proof cases
        case 1 with double_grow_data [OF s0(1) ok0(1) assms(3) i 1 ok0(2)] k show ?thesis by simp
      next
        case 2 with double_grow_second [OF s0(1) ok0(1) assms(3) i 2 ok0(2)] k show ?thesis by simp
      next
        case 3
        then have "second_at (view s0) ino i1 = 0" by (simp add: second_at_def)
        with double_grow_top [OF s0(1) ok0(1) assms(3) i 3 ok0(2)] k show ?thesis by simp
      qed
      with 3(2) fb s0 run show ?thesis by simp
    qed
  next
    case 4
    then have "\<not> k < 12" "\<not> k - 12 < 1024" "DOUBLE_SPAN \<le> k - 12 - 1024" by (simp_all add: DOUBLE_SPAN_def)
    with 4 show ?thesis by (simp add: bmap_alloc_def Let_def)
  qed
qed

end

end
