(* ===== verification/Directory.thy ===== *)
theory Directory
  imports Block_Map
begin

text \<open>
  \<^verbatim>\<open>src/src/directory.cpp\<close>: a directory is a file of 64-byte slots. Names are byte strings.
\<close>

record dir_item =
  di_name :: bytes
  di_inode :: u32
  di_type :: byte

definition slot :: "block \<Rightarrow> nat \<Rightarrow> dir_entry" where
  "slot b i = decode_dir_entry (get_at (i * DIRENT_SIZE) DIRENT_SIZE b)"

definition is_named :: "dir_entry \<Rightarrow> bytes \<Rightarrow> bool" where
  "is_named e nm = (inode_id e \<noteq> 0 \<and> unat (name_len e) = length nm \<and> take (length nm) (name e) = nm)"

definition make_entry :: "bytes \<Rightarrow> u32 \<Rightarrow> byte \<Rightarrow> dir_entry" where
  "make_entry nm ino ty =
     zero_dir_entry\<lparr>inode_id := ino, name_len := of_nat (length nm), dtype := ty,
       name := put_at 0 nm (name zero_dir_entry)\<rparr>"

definition block_count_of :: "inode \<Rightarrow> nat" where
  "block_count_of dir = unat (size_of dir) div BLOCK_SIZE"

definition read_dir_block :: "'j journal \<Rightarrow> inode \<Rightarrow> nat \<Rightarrow> ('j, u32 \<times> block) op" where
  "read_dir_block j dir k =
     bindE (bmap_read j dir k) (\<lambda>blk.
     if blk = 0 then throwE (FsError VFS_EIO)
     else bindE (jread j blk) (\<lambda>b. retE (blk, b)))"

text \<open>The first slot, from \<^term>\<open>s0\<close> on, that satisfies \<^term>\<open>P\<close>.\<close>

definition find_slot :: "(dir_entry \<Rightarrow> bool) \<Rightarrow> nat \<Rightarrow> block \<Rightarrow> nat option" where
  "find_slot P s0 b = find (\<lambda>s. P (slot b s)) [s0..<DIRENTS_PER_BLOCK]"

text \<open>
  The two nested loops every operation here starts with: the directory's blocks in order, and
  in each its slots in order, up to the first that satisfies \<^term>\<open>P\<close>.
\<close>

fun scan_dir ::
  "'j journal \<Rightarrow> inode \<Rightarrow> (dir_entry \<Rightarrow> bool) \<Rightarrow> nat list \<Rightarrow> ('j, (u32 \<times> nat \<times> dir_entry) option) op" where
  "scan_dir j dir P [] = retE None"
| "scan_dir j dir P (k # ks) =
     bindE (read_dir_block j dir k) (\<lambda>(blk, b).
     case find_slot P 0 b of
       Some s \<Rightarrow> retE (Some (blk, s, slot b s))
     | None \<Rightarrow> scan_dir j dir P ks)"

text \<open>The inode a name points at, or 0, and the entry's type when found.\<close>

definition dir_lookup :: "'j journal \<Rightarrow> inode \<Rightarrow> bytes \<Rightarrow> ('j, u32 \<times> byte option) op" where
  "dir_lookup j dir nm =
     bindE (scan_dir j dir (\<lambda>e. is_named e nm) [0..<block_count_of dir]) (\<lambda>r. case r of
         Some (_, _, e) \<Rightarrow> retE (inode_id e, Some (dtype e))
       | None \<Rightarrow> retE (0, None))"

definition dir_add :: "'j journal \<Rightarrow> bytes \<Rightarrow> u32 \<Rightarrow> byte \<Rightarrow> ('j inode_state, unit) op" where
  "dir_add j nm ino ty =
     (let e = make_entry nm ino ty in
      bindE (getE fst) (\<lambda>dir.
      let blocks = block_count_of dir in
      bindE (on_ijournal (scan_dir j dir (\<lambda>e. inode_id e = 0) [0..<blocks])) (\<lambda>r. case r of
          Some (blk, s, _) \<Rightarrow>
            on_ijournal (jwrite j blk False (modE (put_at (s * DIRENT_SIZE) (encode_dir_entry e))))
        | None \<Rightarrow>
            bindE (bmap_alloc j blocks) (\<lambda>(blk, _).
            thenE (on_ijournal (jwrite j blk True (modE (put_at 0 (encode_dir_entry e)))))
            (upd_inode (\<lambda>i. i\<lparr>size_of := size_of i + of_nat BLOCK_SIZE\<rparr>))))))"

definition dir_remove :: "'j journal \<Rightarrow> inode \<Rightarrow> bytes \<Rightarrow> ('j, bool) op" where
  "dir_remove j dir nm =
     bindE (scan_dir j dir (\<lambda>e. is_named e nm) [0..<block_count_of dir]) (\<lambda>r. case r of
         Some (blk, s, _) \<Rightarrow>
           thenE (jwrite j blk False (modE (put_at (s * DIRENT_SIZE) (replicate DIRENT_SIZE 0))))
           (retE True)
       | None \<Rightarrow> retE False)"

definition dir_items :: "block \<Rightarrow> dir_item list" where
  "dir_items b =
     map (\<lambda>e. \<lparr>di_name = take (if unat (name_len e) \<le> MAX_NAME_LEN then unat (name_len e) else MAX_NAME_LEN) (name e),
               di_inode = inode_id e, di_type = dtype e\<rparr>)
       (filter (\<lambda>e. inode_id e \<noteq> 0) (map (slot b) [0..<DIRENTS_PER_BLOCK]))"

definition dir_list :: "'j journal \<Rightarrow> inode \<Rightarrow> ('j, dir_item list) op" where
  "dir_list j dir =
     foldE [0..<block_count_of dir] (\<lambda>items k.
       bindE (read_dir_block j dir k) (\<lambda>(_, b). retE (items @ dir_items b))) []"

fun dir_empty_from :: "'j journal \<Rightarrow> inode \<Rightarrow> nat list \<Rightarrow> ('j, bool) op" where
  "dir_empty_from j dir [] = retE True"
| "dir_empty_from j dir (k # ks) =
     bindE (read_dir_block j dir k) (\<lambda>(_, b).
     if find_slot (\<lambda>e. inode_id e \<noteq> 0) (if k = 0 then 2 else 0) b \<noteq> None then retE False
     else dir_empty_from j dir ks)"

definition dir_is_empty :: "'j journal \<Rightarrow> inode \<Rightarrow> ('j, bool) op" where
  "dir_is_empty j dir = dir_empty_from j dir [0..<block_count_of dir]"

definition dir_init :: "'j journal \<Rightarrow> u32 \<Rightarrow> u32 \<Rightarrow> u32 \<Rightarrow> ('j, unit) op" where
  "dir_init j blk self parent =
     (let dot = make_entry (str_bytes ''.'') self FT_DIR;
          dotdot = make_entry (str_bytes ''..'') parent FT_DIR
      in jwrite j blk True (modE (\<lambda>b.
           put_at DIRENT_SIZE (encode_dir_entry dotdot) (put_at 0 (encode_dir_entry dot) b))))"

end
