(* ===== verification/Mkfs.thy ===== *)
theory Mkfs
  imports Alloc
begin

text \<open>
  \<^verbatim>\<open>src/src/mkfs.cpp\<close>: formatting a device. \<^term>\<open>t\<close> is what \<^verbatim>\<open>std::time\<close> returns.
\<close>

definition mkfs_entry :: "string \<Rightarrow> u32 \<Rightarrow> byte \<Rightarrow> dir_entry" where
  "mkfs_entry nm ino ty =
     zero_dir_entry\<lparr>inode_id := ino, name_len := of_nat (length nm), dtype := ty,
       name := put_at 0 (str_bytes nm) (name zero_dir_entry)\<rparr>"

text \<open>An operation on a local bitmap, with its exceptions passed on.\<close>

definition with_bits :: "(bitmap, unit) op \<Rightarrow> bitmap \<Rightarrow> ('d, bitmap) op" where
  "with_bits m bm = (case m bm of
       (Ret _, bm') \<Rightarrow> retE bm' | (Raise e, _) \<Rightarrow> throwE e | (Halted h, _) \<Rightarrow> haltE h)"

definition mkfs_root :: "superblock \<Rightarrow> u64 \<Rightarrow> inode" where
  "mkfs_root sb t =
     zero_inode\<lparr>id_of := ROOT_INODE, mode := MODE_DIR OR 0x1ED, link_count := 2,
       size_of := of_nat BLOCK_SIZE, mtime := t, block_count := 1,
       direct := (direct zero_inode)[0 := data_start sb]\<rparr>"

definition mkfs_root_block :: block where
  "mkfs_root_block =
     put_at DIRENT_SIZE (encode_dir_entry (mkfs_entry ''..'' ROOT_INODE FT_DIR))
       (put_at 0 (encode_dir_entry (mkfs_entry ''.'' ROOT_INODE FT_DIR)) zero_block)"

definition mkfs :: "'d device \<Rightarrow> u32 \<Rightarrow> u64 \<Rightarrow> ('d, superblock) op" where
  "mkfs dev ninodes t =
     bindE (liftE (plan_layout (dev_count dev) ninodes)) (\<lambda>sb.
     let root_block = data_start sb in
     thenE (write_block dev 0 zero_block)
    (thenE (dev_sync dev)
    (thenE (forE [unat (inode_table_start sb)..<unat (data_start sb)]
       (\<lambda>b. write_block dev (of_nat b) zero_block))
    (bindE (with_bits (thenE (set_bit_in 0) (set_bit_in ROOT_INODE)) (bitmap_new (inode_count sb))) (\<lambda>inodes.
     thenE (bm_store dev (inode_bitmap_start sb) inodes)
    (bindE (with_bits (thenE (forE [0..<unat (data_start sb)] (\<lambda>b. set_bit_in (of_nat b)))
         (set_bit_in root_block)) (bitmap_new (total_blocks sb))) (\<lambda>blocks.
     thenE (bm_store dev (data_bitmap_start sb) blocks)
    (thenE (write_block dev root_block mkfs_root_block)
    (thenE (write_block dev (inode_block sb ROOT_INODE)
       (put_at (inode_offset ROOT_INODE) (encode_inode (mkfs_root sb t)) zero_block))
    (thenE (dev_sync dev)
    (thenE (write_superblock dev sb)
    (thenE (dev_sync dev)
    (retE sb)))))))))))))"

section \<open>A formatted disk\<close>

lemma marked_cong:
  assumes "unat start + unat (blocks_for n) \<le> unat (c :: u32)" and "\<And>b. in_region start n b \<Longrightarrow> v' b = v b"
  shows "marked v' start n = marked v start n"
  using map_block_region(2) [OF assms(1)] assms(2) by (auto simp: marked_def)

lemma set_bits_ok:
  assumes "wf_bitmap bm" and "\<forall>b \<in> set bs. b < unat (nbits bm)"
  shows "\<exists>bm'. forE bs (\<lambda>b. set_bit_in (of_nat b)) bm = (Ret (), bm') \<and> wf_bitmap bm' \<and> nbits bm' = nbits bm \<and>
    used bm' = used bm \<union> of_nat ` set bs"
  using assms
proof (induction bs arbitrary: bm)
  case (Cons b bs)
  have "(of_nat b :: u32) < nbits bm"
    using Cons.prems(2) unat_less_2p [of "nbits bm"] by (simp add: word_less_nat_alt unat_of_nat)
  from set_bit_in_ok [OF Cons.prems(1) this] obtain bm1 where
    1: "set_bit_in (of_nat b) bm = (Ret (), bm1)" "wf_bitmap bm1" "nbits bm1 = nbits bm" "used bm1 = insert (of_nat b) (used bm)" by blast
  from Cons.IH [OF 1(2)] Cons.prems(2) 1(3) obtain bm2 where
    "forE bs (\<lambda>b. set_bit_in (of_nat b)) bm1 = (Ret (), bm2)" "wf_bitmap bm2" "nbits bm2 = nbits bm" "used bm2 = used bm1 \<union> of_nat ` set bs"
    by auto
  with 1 show ?case by (intro exI [of _ bm2]) auto
qed simp

lemma root_inode_bits:
  assumes "1 < n"
  shows "\<exists>bm. thenE (set_bit_in 0) (set_bit_in ROOT_INODE) (bitmap_new n) = (Ret (), bm) \<and> wf_bitmap bm \<and> nbits bm = n \<and> used bm = {0, 1}"
proof -
  have n: "nbits (bitmap_new n) = n" "0 < n" using assms by (simp_all add: bitmap_new_def word_less_nat_alt)
  from set_bit_in_ok [OF wf_bitmap_new, of 0 n] n obtain bm1 where
    1: "set_bit_in 0 (bitmap_new n) = (Ret (), bm1)" "wf_bitmap bm1" "nbits bm1 = n" "used bm1 = {0}" by auto
  from set_bit_in_ok [OF 1(2), of 1] assms 1(3,4) obtain bm2 where
    2: "set_bit_in 1 bm1 = (Ret (), bm2)" "wf_bitmap bm2" "nbits bm2 = n" "used bm2 = {0, 1}" by auto
  from 1(1) 2(1) have "thenE (set_bit_in 0) (set_bit_in ROOT_INODE) (bitmap_new n) = (Ret (), bm2)" by (simp add: ROOT_INODE_def)
  with 2 show ?thesis by blast
qed

lemma metadata_bits:
  assumes "ds < n"
  shows "\<exists>bm. thenE (forE [0..<unat ds] (\<lambda>b. set_bit_in (of_nat b))) (set_bit_in ds) (bitmap_new n) = (Ret (), bm) \<and>
    wf_bitmap bm \<and> nbits bm = n \<and> used bm = {b. b \<le> ds}"
proof -
  have n: "nbits (bitmap_new n) = n" by (simp add: bitmap_new_def)
  have "unat ds < unat n" using assms by (simp add: word_less_nat_alt)
  with set_bits_ok [OF wf_bitmap_new, of "[0..<unat ds]" n] n obtain bm1 where
    1: "forE [0..<unat ds] (\<lambda>b. set_bit_in (of_nat b)) (bitmap_new n) = (Ret (), bm1)" "wf_bitmap bm1" "nbits bm1 = n"
    "used bm1 = of_nat ` {0..<unat ds}" by auto
  from set_bit_in_ok [OF 1(2), of ds] assms 1(3) obtain bm2 where
    2: "set_bit_in ds bm1 = (Ret (), bm2)" "wf_bitmap bm2" "nbits bm2 = n" "used bm2 = insert ds (used bm1)" by auto
  have "(of_nat ` {0..<unat ds} :: u32 set) = {b. b < ds}"
  proof (intro set_eqI iffI)
    fix b :: u32 assume "b \<in> of_nat ` {0..<unat ds}"
    then obtain k where "b = of_nat k" "k < unat ds" by auto
    then show "b \<in> {b. b < ds}" using unat_less_2p [of ds] by (simp add: word_less_nat_alt unat_of_nat)
  next
    fix b assume "b \<in> {b. b < ds}"
    then have "b = of_nat (unat b)" "unat b < unat ds" by (simp_all add: word_less_nat_alt)
    then show "b \<in> of_nat ` {0..<unat ds}" by (metis atLeastLessThan_iff image_eqI zero_le)
  qed
  then have "used bm2 = {b. b \<le> ds}" using 1(4) 2(4) by auto
  moreover have "thenE (forE [0..<unat ds] (\<lambda>b. set_bit_in (of_nat b))) (set_bit_in ds) (bitmap_new n) = (Ret (), bm2)"
    using 1(1) 2(1) by simp
  ultimately show ?thesis using 2(2,3) by blast
qed

context block_dev
begin

lemma store_marked:
  assumes "invar d" and "region_fits (dev_count D) start (nbits bm)" and "wf_bitmap bm"
  shows "\<exists>d'. bm_store D start bm d = (Ret (), d') \<and> invar d' \<and> marked (blocks d') start (nbits bm) = used bm \<and>
    region_only start (nbits bm) (blocks d) (blocks d')"
proof -
  let ?n = "nbits bm"
  from store_ok [OF assms] obtain d1 where
    1: "bm_store D start bm d = (Ret (), d1)" "invar d1" "blocks d1 = run_update (blocks d) start (block_of_words (words bm)) (unat (blocks_for ?n))" by blast
  have new: "nbits (bitmap_new ?n) = ?n" "length (words (bitmap_new ?n)) = unat (blocks_for (nbits (bitmap_new ?n))) * 512"
    by (simp_all add: bitmap_new_def)
  have fit: "region_fits (dev_count D) start (nbits (bitmap_new ?n))" using assms(2) new(1) by simp
  from store_then_load [OF assms] 1(1) obtain d2 where l: "bm_load D start (bitmap_new ?n) d1 = (Ret bm, d2)" by auto
  from reader.load_ok [OF 1(2) fit new(2)] l new(1) have
    bits: "\<forall>i < unat ?n. bit_at bm i \<longleftrightarrow> block_bit (blocks d1 (start + of_nat (i div 32768))) (i mod 32768)" by auto
  have "marked (blocks d1) start ?n = used bm"
    using bits used_less [OF assms(3)] by (auto simp: marked_def map_block_of_nat used_def word_less_nat_alt)
  moreover have "region_only start ?n (blocks d) (blocks d1)"
    by (auto simp: region_only_def in_region_def 1(3) run_update_def word_le_nat_alt)
  ultimately show ?thesis using 1 by blast
qed

lemma zero_blocks_ok:
  assumes "invar d" and "\<forall>b \<in> set bs. b < unat (dev_count D)"
  shows "\<exists>d'. forE bs (\<lambda>b. write_block D (of_nat b) zero_block) d = (Ret (), d') \<and> invar d' \<and>
    (\<forall>x. blocks d' x = (if unat x \<in> set bs then zero_block else blocks d x))"
  using assms
proof (induction bs arbitrary: d)
  case (Cons b bs)
  have u: "unat (of_nat b :: u32) = b" using Cons.prems(2) unat_less_2p [of "dev_count D"] by (simp add: unat_of_nat)
  have "(of_nat b :: u32) < dev_count D" using u Cons.prems(2) by (simp add: word_less_nat_alt)
  from write_ok [OF Cons.prems(1) this, of zero_block] obtain d1 where
    1: "write_block D (of_nat b) zero_block d = (Ret (), d1)" "invar d1" "blocks d1 = (blocks d)(of_nat b := zero_block)" by auto
  from Cons.IH [OF 1(2)] Cons.prems(2) obtain d2 where
    2: "forE bs (\<lambda>b. write_block D (of_nat b) zero_block) d1 = (Ret (), d2)" "invar d2"
    "\<forall>x. blocks d2 x = (if unat x \<in> set bs then zero_block else blocks d1 x)" by auto
  have "blocks d2 x = (if unat x \<in> set (b # bs) then zero_block else blocks d x)" for x
    using 2(3) 1(3) u by auto
  with 1(1) 2(1,2) show ?case by auto
qed simp

end

text \<open>What a freshly formatted disk shows.\<close>

definition formatted :: "superblock \<Rightarrow> u64 \<Rightarrow> (u32 \<Rightarrow> block) \<Rightarrow> bool" where
  "formatted sb t v \<longleftrightarrow> v 0 = super_image sb \<and>
     marked v (inode_bitmap_start sb) (inode_count sb) = {0, ROOT_INODE} \<and>
     marked v (data_bitmap_start sb) (total_blocks sb) = {b. b \<le> data_start sb} \<and>
     v (data_start sb) = mkfs_root_block \<and>
     (\<forall>i < inode_count sb. inode_at sb v i = (if i = ROOT_INODE then mkfs_root sb t else zero_inode))"

lemma decode_zero_inode: "decode_inode (replicate 128 0) = zero_inode"
proof -
  have "encode_inode zero_inode = replicate 128 0" by code_simp
  with decode_encode_inode [OF wf_zero_inode, of "[]"] show ?thesis by simp
qed

lemma wf_mkfs_root: "wf_inode (mkfs_root sb t)"
  using wf_zero_inode by (simp add: mkfs_root_def wf_inode_def)

lemma wf_mkfs_entry: "length nm \<le> MAX_NAME_LEN \<Longrightarrow> wf_dir_entry (mkfs_entry nm ino ty)"
  using wf_zero_dir_entry by (simp add: wf_dir_entry_def mkfs_entry_def str_bytes_def)

lemma is_block_root_block: "is_block mkfs_root_block"
  using wf_mkfs_entry [of "''.''"] wf_mkfs_entry [of "''..''"] by (simp add: mkfs_root_block_def is_block_def)

text \<open>The blocks of the layout, in the order the writes touch them.\<close>

lemma layout_blocks:
  assumes "wf_super sb"
  shows "\<not> in_region (inode_bitmap_start sb) (inode_count sb) 0" "\<not> in_region (data_bitmap_start sb) (total_blocks sb) 0"
    and "\<not> in_region (inode_bitmap_start sb) (inode_count sb) (data_start sb)"
    and "\<not> in_region (data_bitmap_start sb) (total_blocks sb) (data_start sb)"
    and "inode_table_start sb \<le> b \<Longrightarrow> \<not> in_region (inode_bitmap_start sb) (inode_count sb) b \<and> \<not> in_region (data_bitmap_start sb) (total_blocks sb) b"
    and "0 < data_start sb" "1 < inode_count sb" "valid_ino sb ROOT_INODE" "0 < total_blocks sb"
  using assms by (auto simp: wf_super_def in_region_def word_less_nat_alt word_le_nat_alt valid_ino_def ROOT_INODE_def)

lemma formatted_layout:
  assumes wf: "wf_super sb"
    and v: "\<And>i. i < inode_count sb \<Longrightarrow> v (inode_block sb i) = zero_block"
      "marked v (inode_bitmap_start sb) (inode_count sb) = {0, ROOT_INODE}"
      "marked v (data_bitmap_start sb) (total_blocks sb) = {b. b \<le> data_start sb}"
  shows "formatted sb t (v(data_start sb := mkfs_root_block,
    inode_block sb ROOT_INODE := put_at (inode_offset ROOT_INODE) (encode_inode (mkfs_root sb t)) zero_block, 0 := super_image sb))"
    (is "formatted sb t ?v")
proof -
  note lb = layout_blocks [OF wf]
  note ib = inode_block_range [OF wf]
  let ?r = "inode_block sb ROOT_INODE"
  have root: "ROOT_INODE < inode_count sb" using lb(8) by (simp add: valid_ino_def)
  have same: "?v b = v b" if "b \<noteq> 0" "b \<noteq> data_start sb" "b \<noteq> ?r" for b using that by simp
  have reg: "marked ?v (inode_bitmap_start sb) (inode_count sb) = marked v (inode_bitmap_start sb) (inode_count sb)"
    "marked ?v (data_bitmap_start sb) (total_blocks sb) = marked v (data_bitmap_start sb) (total_blocks sb)"
    using lb(1-4) lb(5) [OF ib(3) [OF root]]
    by (intro marked_cong [OF super_regions(1) [OF wf]] marked_cong [OF super_regions(2) [OF wf]] same; metis)+
  let ?p = "put_inode sb ROOT_INODE (encode_inode (mkfs_root sb t)) v"
  have z: "v ?r = zero_block" by (rule v(1) [OF root])
  have "inode_at sb ?v i = (if i = ROOT_INODE then mkfs_root sb t else zero_inode)" if i: "i < inode_count sb" for i
  proof -
    have ne: "inode_block sb i \<noteq> 0" "inode_block sb i \<noteq> data_start sb" using ib(2,4) [OF i] by auto
    then have "?v (inode_block sb i) = ?p (inode_block sb i)" by (simp add: put_inode_def z)
    then have "inode_at sb ?v i = inode_at sb ?p i" by (simp add: inode_at_def)
    also have "\<dots> = (if i = ROOT_INODE then mkfs_root sb t else inode_at sb v i)"
    proof (cases "i = 0")
      case True
      have "inode_offset 0 = 0" "inode_offset ROOT_INODE = 128" by (simp_all add: inode_offset_def ROOT_INODE_def)
      then show ?thesis using True z
        by (simp add: inode_at_def put_inode_def get_at_put_at_disjoint wf_mkfs_root ROOT_INODE_def)
    next
      case False
      with i have "valid_ino sb i" by (simp add: valid_ino_def)
      from inode_at_put [where v = v and x = "encode_inode (mkfs_root sb t)", OF wf lb(8) this] wf_mkfs_root z
        decode_encode_inode [OF wf_mkfs_root, of sb t "[]"] show ?thesis by simp
    qed
    also have "inode_at sb v i = zero_inode"
      using v(1) [OF i] inode_offset_bound [of i] decode_zero_inode by (simp add: inode_at_def get_at_def zero_block_def)
    finally show ?thesis .
  qed
  moreover have "?v (data_start sb) = mkfs_root_block" "?v 0 = super_image sb" using lb(6) ib(4) [OF root] by auto
  ultimately show ?thesis unfolding formatted_def using reg v(2,3) by simp
qed

context block_dev
begin

lemma mkfs_ok:
  assumes "invar d" and "plan_layout (dev_count D) n = Inr sb"
  shows "\<exists>d'. mkfs D n t d = (Ret sb, d') \<and> invar d' \<and> formatted sb t (blocks d')"
proof -
  from plan_layout_wf [OF assms(2)] have wf: "wf_super sb" and tot: "total_blocks sb = dev_count D" by simp_all
  note lb = layout_blocks [OF wf]
  note ib = inode_block_range [OF wf]
  have root: "ROOT_INODE < inode_count sb" using lb(8) by (simp add: valid_ino_def)
  have zero: "(0 :: u32) < dev_count D" using lb(9) tot by simp
  have ds: "data_start sb < dev_count D" using wf tot by (simp add: wf_super_def)
  from write_ok [OF assms(1) zero, of zero_block] obtain d1 where
    1: "write_block D 0 zero_block d = (Ret (), d1)" "invar d1" by auto
  from sync_ok [OF 1(2)] obtain d2 where 2: "dev_sync D d1 = (Ret (), d2)" "invar d2" by blast
  have "\<forall>b \<in> set [unat (inode_table_start sb)..<unat (data_start sb)]. b < unat (dev_count D)" using ds by (auto simp: word_less_nat_alt)
  from zero_blocks_ok [OF 2(2) this] obtain d3 where
    3: "forE [unat (inode_table_start sb)..<unat (data_start sb)] (\<lambda>b. write_block D (of_nat b) zero_block) d2 = (Ret (), d3)" "invar d3"
    "\<forall>x. blocks d3 x = (if unat x \<in> set [unat (inode_table_start sb)..<unat (data_start sb)] then zero_block else blocks d2 x)" by blast
  from root_inode_bits [OF lb(7)] obtain ibm where
    i: "thenE (set_bit_in 0) (set_bit_in ROOT_INODE) (bitmap_new (inode_count sb)) = (Ret (), ibm)"
    "wf_bitmap ibm" "nbits ibm = inode_count sb" "used ibm = {0, 1}" by blast
  have fit: "region_fits (dev_count D) (inode_bitmap_start sb) (nbits ibm)" "region_fits (dev_count D) (data_bitmap_start sb) (total_blocks sb)"
    using super_regions(1,2) [OF wf] tot i(3) by (simp_all add: region_fits_def)
  from store_marked [OF 3(2) fit(1) i(2)] i(3,4) obtain d4 where
    4: "bm_store D (inode_bitmap_start sb) ibm d3 = (Ret (), d4)" "invar d4" "marked (blocks d4) (inode_bitmap_start sb) (inode_count sb) = {0, 1}"
    "region_only (inode_bitmap_start sb) (inode_count sb) (blocks d3) (blocks d4)" by auto
  from metadata_bits [of "data_start sb" "total_blocks sb"] ds tot obtain bbm where
    b: "thenE (forE [0..<unat (data_start sb)] (\<lambda>b. set_bit_in (of_nat b))) (set_bit_in (data_start sb)) (bitmap_new (total_blocks sb)) = (Ret (), bbm)"
    "wf_bitmap bbm" "nbits bbm = total_blocks sb" "used bbm = {b. b \<le> data_start sb}" by auto
  from store_marked [OF 4(2) fit(2) [folded b(3)] b(2)] b(3,4) obtain d5 where
    5: "bm_store D (data_bitmap_start sb) bbm d4 = (Ret (), d5)" "invar d5" "marked (blocks d5) (data_bitmap_start sb) (total_blocks sb) = {b. b \<le> data_start sb}"
    "region_only (data_bitmap_start sb) (total_blocks sb) (blocks d4) (blocks d5)" by auto
  from write_ok [OF 5(2) ds is_block_root_block] obtain d6 where
    6: "write_block D (data_start sb) mkfs_root_block d5 = (Ret (), d6)" "invar d6" "blocks d6 = (blocks d5)(data_start sb := mkfs_root_block)" by blast
  let ?rb = "put_at (inode_offset ROOT_INODE) (encode_inode (mkfs_root sb t)) zero_block"
  have "is_block ?rb" using wf_mkfs_root inode_offset_bound [of ROOT_INODE] by (simp add: is_block_def)
  from write_ok [OF 6(2) _ this, of "inode_block sb ROOT_INODE"] ib(5) [OF root] tot obtain d7 where
    7: "write_block D (inode_block sb ROOT_INODE) ?rb d6 = (Ret (), d7)" "invar d7" "blocks d7 = (blocks d6)(inode_block sb ROOT_INODE := ?rb)" by auto
  from sync_ok [OF 7(2)] obtain d8 where 8: "dev_sync D d7 = (Ret (), d8)" "invar d8" "blocks d8 = blocks d7" by blast
  from write_superblock_ok [OF 8(2) zero] obtain d9 where
    9: "write_superblock D sb d8 = (Ret (), d9)" "invar d9" "blocks d9 = (blocks d8)(0 := super_image sb)" by blast
  from sync_ok [OF 9(2)] obtain d10 where 10: "dev_sync D d9 = (Ret (), d10)" "invar d10" "blocks d10 = blocks d9" by blast
  have run: "mkfs D n t d = (Ret sb, d10)"
    using 1(1) 2(1) 3(1) 4(1) 5(1) 6(1) 7(1) 8(1) 9(1) 10(1) by (simp add: mkfs_def assms(2) with_bits_def i(1) b(1) Let_def)
  have zeroes: "blocks d5 (inode_block sb k) = zero_block" if k: "k < inode_count sb" for k
  proof -
    have "blocks d3 (inode_block sb k) = zero_block" using 3(3) ib(3,4) [OF k] by (simp add: word_less_nat_alt word_le_nat_alt)
    then show ?thesis using 4(4) 5(4) lb(5) [OF ib(3) [OF k]] unfolding region_only_def by metis
  qed
  have "marked (blocks d5) (inode_bitmap_start sb) (inode_count sb) = {0, ROOT_INODE}"
    using marked_cong [OF super_regions(1) [OF wf], of "blocks d5" "blocks d4"] 5(4) super_regions(5) [OF wf] 4(3)
    by (auto simp: region_only_def ROOT_INODE_def)
  from formatted_layout [OF wf zeroes this 5(3)] have "formatted sb t (blocks d10)"
    unfolding 10(3) 9(3) 8(3) 7(3) 6(3) .
  with run 10(2) show ?thesis by blast
qed

end

text \<open>
  C14. A formatted disk is a file system. Formatting a disk image whose size and inode count can be
  laid out returns the layout, and from the image afterwards the superblock is read back and
  accepted, the bitmaps have inode 0 and the root and every block up to the root directory's in
  use and nothing else, the root's inode is a directory of one block that holds \<^verbatim>\<open>.\<close> and \<^verbatim>\<open>..\<close>, and
  every other inode is empty. A size that cannot be laid out is refused before anything is written.
\<close>

theorem mkfs_formats:
  assumes "pd_ok d w"
  shows "case plan_layout (pd_count d) n of
      Inr sb \<Rightarrow> \<exists>w1 w2. mkfs (pread_device d) n t w = (Ret sb, w1) \<and> pd_ok d w1 \<and> formatted sb t (pd_blocks d w1) \<and>
        read_superblock (pread_device d) w1 = (Ret sb, w2)
    | Inl e \<Rightarrow> mkfs (pread_device d) n t w = (Raise e, w)"
proof (cases "plan_layout (pd_count d) n")
  case (Inl e)
  then show ?thesis by (simp add: mkfs_def pread_device_def)
next
  case (Inr sb)
  have cnt: "dev_count (pread_device d) = pd_count d" by (simp add: pread_device_def)
  from pread.mkfs_ok [OF assms, of n sb t] Inr cnt obtain w1 where
    1: "mkfs (pread_device d) n t w = (Ret sb, w1)" "pd_ok d w1" "formatted sb t (pd_blocks d w1)" by auto
  have "plan_layout (pd_count d) n = Inr sb" by (rule Inr)
  note v = validate_plan_layout [OF this, where c = "clean_unmount sb" and l = "last_checkpoint_lsn sb"]
  have z: "0 < dev_count (pread_device d)" using layout_blocks(9) plan_layout_wf [OF Inr] cnt by metis
  have "decode_superblock (pd_blocks d w1 0) = sb" using 1(3) by (simp add: formatted_def)
  with pread.read_superblock_ok [OF 1(2) z] v cnt obtain w2 where "read_superblock (pread_device d) w1 = (Ret sb, w2)" by auto
  with 1 Inr show ?thesis by auto
qed

definition blank_world :: world where
  "blank_world = small_world\<lparr>wfile := (\<lambda>fd. \<lparr>content = replicate (64 * 4096) 7, script = [Short 9]\<rparr>)\<rparr>"

lemma blank_world_ok: "pd_ok \<lparr>pd_fd = 3, pd_count = 64\<rparr> blank_world"
  using small_world_ok by (simp add: pd_ok_def blank_world_def small_world_def benign_def benign_event_def)

theorem mkfs_formats_witness:
  "\<exists>sb w1 w2. plan_layout 64 0 = Inr sb \<and> mkfs (pread_device \<lparr>pd_fd = 3, pd_count = 64\<rparr>) 0 99 blank_world = (Ret sb, w1) \<and>
     read_superblock (pread_device \<lparr>pd_fd = 3, pd_count = 64\<rparr>) w1 = (Ret sb, w2)"
proof -
  from plan_layout_small obtain sb where sb: "plan_layout 64 0 = Inr sb" by blast
  with mkfs_formats [OF blank_world_ok, of 0 99] show ?thesis by auto
qed

end
