(* ===== verification/Lock_Manager.thy ===== *)
theory Lock_Manager
  imports Layout
begin

text \<open>
  \<^verbatim>\<open>src/src/lock_manager.cpp\<close>: one reader-writer lock per inode in use. An \<^verbatim>\<open>Entry\<close> never moves
  while someone refers to it, so a pointer to it is the inode number it is stored under. The
  state of its \<^verbatim>\<open>std::shared_mutex\<close> is who holds it. A thread that would have to wait for another
  does not return here: the calls are those of one thread.
\<close>

record lock_entry =
  readers :: nat
  writer :: bool
  open_count :: u32
  refs :: u32
  e_inode :: inode
  inode_valid :: bool

definition new_entry :: lock_entry where
  "new_entry = \<lparr>readers = 0, writer = False, open_count = 0, refs = 0, e_inode = zero_inode,
     inode_valid = False\<rparr>"

type_synonym locks = "u32 \<Rightarrow> lock_entry option"

definition upd_entry :: "u32 \<Rightarrow> (lock_entry \<Rightarrow> lock_entry) \<Rightarrow> locks \<Rightarrow> locks" where
  "upd_entry ino f m = m(ino := map_option f (m ino))"

definition the_entry :: "u32 \<Rightarrow> locks \<Rightarrow> lock_entry" where
  "the_entry ino m = (case m ino of Some e \<Rightarrow> e | None \<Rightarrow> new_entry)"

definition lm_acquire :: "u32 \<Rightarrow> (locks, unit) op" where
  "lm_acquire ino = modE (\<lambda>m.
     let e = the_entry ino m in m(ino := Some (e\<lparr>refs := refs e + 1\<rparr>)))"

definition lm_release :: "u32 \<Rightarrow> (locks, unit) op" where
  "lm_release ino = modE (\<lambda>m. case m ino of
       None \<Rightarrow> m
     | Some e \<Rightarrow> if refs e - 1 = 0 then m(ino := None) else m(ino := Some (e\<lparr>refs := refs e - 1\<rparr>)))"

definition lm_size :: "locks \<Rightarrow> nat" where
  "lm_size m = card (dom m)"

text \<open>The four calls on an entry's \<^verbatim>\<open>std::shared_mutex\<close>.\<close>

definition mutex_lock :: "u32 \<Rightarrow> (locks, unit) op" where
  "mutex_lock ino = (\<lambda>m.
     let e = the_entry ino m in
     if writer e \<or> readers e > 0 then (Halted Waits, m)
     else (Ret (), upd_entry ino (\<lambda>e. e\<lparr>writer := True\<rparr>) m))"

definition mutex_unlock :: "u32 \<Rightarrow> (locks, unit) op" where
  "mutex_unlock ino = modE (upd_entry ino (\<lambda>e. e\<lparr>writer := False\<rparr>))"

definition mutex_lock_shared :: "u32 \<Rightarrow> (locks, unit) op" where
  "mutex_lock_shared ino = (\<lambda>m.
     if writer (the_entry ino m) then (Halted Waits, m)
     else (Ret (), upd_entry ino (\<lambda>e. e\<lparr>readers := readers e + 1\<rparr>) m))"

definition mutex_unlock_shared :: "u32 \<Rightarrow> (locks, unit) op" where
  "mutex_unlock_shared ino = modE (upd_entry ino (\<lambda>e. e\<lparr>readers := readers e - 1\<rparr>))"

text \<open>\<^verbatim>\<open>InodeLock\<close>; \<^verbatim>\<open>il_held\<close> is false once it has been moved from or dropped.\<close>

record inode_lock =
  il_id :: u32
  il_held :: bool
  il_exclusive :: bool

definition inode_lock_new :: "u32 \<Rightarrow> bool \<Rightarrow> (locks, inode_lock) op" where
  "inode_lock_new ino exclusive =
     thenE (lm_acquire ino)
    (thenE (if exclusive then mutex_lock ino else mutex_lock_shared ino)
    (retE \<lparr>il_id = ino, il_held = True, il_exclusive = exclusive\<rparr>))"

definition il_drop :: "inode_lock \<Rightarrow> (locks, unit) op" where
  "il_drop l =
     whenE (il_held l)
      (thenE (if il_exclusive l then mutex_unlock (il_id l) else mutex_unlock_shared (il_id l))
       (lm_release (il_id l)))"

text \<open>Move assignment, to a lock that is not the one moved from: the old lock is dropped and the
  new one takes over; the one moved from holds nothing any more.\<close>

definition il_move_assign :: "inode_lock \<Rightarrow> inode_lock \<Rightarrow> (locks, inode_lock \<times> inode_lock) op" where
  "il_move_assign l other =
     thenE (il_drop l) (retE (other, other\<lparr>il_held := False\<rparr>))"

section \<open>Many threads\<close>

text \<open>
  Who refers to which entry: references with no lock (an open file, a thread that waits for the
  lock or has just let go of it), shared holders and exclusive holders, counted per inode. A step
  is one critical section: of the map's mutex for \<^verbatim>\<open>acquire\<close> and \<^verbatim>\<open>release\<close>, of the entry's mutex
  for the others. A thread that would have to wait takes no step. The counter of references has
  32 bits; there are never as many threads and open files as that.
\<close>

record lock_run =
  entries :: locks
  plain_refs :: "u32 \<Rightarrow> nat"
  shared :: "u32 \<Rightarrow> nat"
  excl :: "u32 \<Rightarrow> nat"

definition lock_start :: lock_run where
  "lock_start = \<lparr>entries = (\<lambda>_. None), plain_refs = (\<lambda>_. 0), shared = (\<lambda>_. 0), excl = (\<lambda>_. 0)\<rparr>"

definition referrers :: "lock_run \<Rightarrow> u32 \<Rightarrow> nat" where
  "referrers r i = plain_refs r i + shared r i + excl r i"

inductive lock_step :: "lock_run \<Rightarrow> lock_run \<Rightarrow> bool" where
  acquire: "referrers r i < 2 ^ 32 - 1 \<Longrightarrow> lm_acquire i (entries r) = (Ret (), m) \<Longrightarrow>
    lock_step r (r\<lparr>entries := m, plain_refs := (plain_refs r)(i := plain_refs r i + 1)\<rparr>)"
| lock: "0 < plain_refs r i \<Longrightarrow> mutex_lock i (entries r) = (Ret (), m) \<Longrightarrow>
    lock_step r (r\<lparr>entries := m, plain_refs := (plain_refs r)(i := plain_refs r i - 1), excl := (excl r)(i := excl r i + 1)\<rparr>)"
| lock_shared: "0 < plain_refs r i \<Longrightarrow> mutex_lock_shared i (entries r) = (Ret (), m) \<Longrightarrow>
    lock_step r (r\<lparr>entries := m, plain_refs := (plain_refs r)(i := plain_refs r i - 1), shared := (shared r)(i := shared r i + 1)\<rparr>)"
| unlock: "0 < excl r i \<Longrightarrow> mutex_unlock i (entries r) = (Ret (), m) \<Longrightarrow>
    lock_step r (r\<lparr>entries := m, plain_refs := (plain_refs r)(i := plain_refs r i + 1), excl := (excl r)(i := excl r i - 1)\<rparr>)"
| unlock_shared: "0 < shared r i \<Longrightarrow> mutex_unlock_shared i (entries r) = (Ret (), m) \<Longrightarrow>
    lock_step r (r\<lparr>entries := m, plain_refs := (plain_refs r)(i := plain_refs r i + 1), shared := (shared r)(i := shared r i - 1)\<rparr>)"
| release: "0 < plain_refs r i \<Longrightarrow> lm_release i (entries r) = (Ret (), m) \<Longrightarrow>
    lock_step r (r\<lparr>entries := m, plain_refs := (plain_refs r)(i := plain_refs r i - 1)\<rparr>)"

text \<open>An entry and those who refer to it.\<close>

definition lentry_ok :: "lock_entry option \<Rightarrow> nat \<Rightarrow> nat \<Rightarrow> nat \<Rightarrow> bool" where
  "lentry_ok eo p sh ex \<longleftrightarrow> (case eo of
       None \<Rightarrow> p + sh + ex = 0
     | Some e \<Rightarrow> 0 < p + sh + ex \<and> unat (refs e) = p + sh + ex \<and> readers e = sh \<and>
         ex = (if writer e then 1 else 0) \<and> (writer e \<longrightarrow> sh = 0))"

definition locks_ok :: "lock_run \<Rightarrow> bool" where
  "locks_ok r \<longleftrightarrow> (\<forall>i. lentry_ok (entries r i) (plain_refs r i) (shared r i) (excl r i))"

lemma locks_okD: "locks_ok r \<Longrightarrow> lentry_ok (entries r i) (plain_refs r i) (shared r i) (excl r i)"
  by (simp add: locks_ok_def)

text \<open>Only the entry of one inode, and the counts for it, have changed.\<close>

lemma locks_ok_upd:
  assumes "locks_ok r" and "lentry_ok eo p sh ex"
  shows "locks_ok \<lparr>entries = (entries r)(i := eo), plain_refs = (plain_refs r)(i := p), shared = (shared r)(i := sh), excl = (excl r)(i := ex)\<rparr>"
  using assms by (simp add: locks_ok_def)

lemma refs_inc: "unat (x :: u32) < 2 ^ 32 - 1 \<Longrightarrow> unat (x + 1) = unat x + 1"
  by (simp add: unat_word_ariths)

lemma refs_dec: "0 < unat (x :: u32) \<Longrightarrow> unat (x - 1) = unat x - 1" "unat (x :: u32) \<noteq> 1 \<Longrightarrow> x - 1 \<noteq> 0" "unat (x :: u32) = 1 \<Longrightarrow> x - 1 = 0"
proof -
  show "0 < unat x \<Longrightarrow> unat (x - 1) = unat x - 1" by (metis unat_minus_one unat_gt_0)
  show "unat x \<noteq> 1 \<Longrightarrow> x - 1 \<noteq> 0" by auto
  show "unat x = 1 \<Longrightarrow> x - 1 = 0" by (metis diff_self unat_1 word_unat_eq_iff)
qed

lemma entry_some:
  assumes "lentry_ok eo p sh ex" and "0 < p + sh + ex"
  shows "\<exists>e. eo = Some e \<and> unat (refs e) = p + sh + ex \<and> readers e = sh \<and>
    ex = (if writer e then 1 else 0) \<and> (writer e \<longrightarrow> sh = 0)"
proof (cases eo)
  case (Some e)
  then show ?thesis using assms(1) unfolding lentry_ok_def by (intro exI [of _ e]) simp
qed (use assms in \<open>simp add: lentry_ok_def\<close>)

lemma entry_acquire:
  assumes "lentry_ok (m i) p sh ex" and "p + sh + ex < 2 ^ 32 - 1"
  shows "\<exists>e. lm_acquire i m = (Ret (), m(i := Some e)) \<and> lentry_ok (Some e) (p + 1) sh ex"
proof (cases "m i")
  case None
  then show ?thesis using assms(1)
    by (intro exI [of _ "new_entry\<lparr>refs := 1\<rparr>"]) (simp add: lm_acquire_def modE_def the_entry_def new_entry_def lentry_ok_def)
next
  case (Some e)
  then show ?thesis using assms refs_inc [of "refs e"]
    by (intro exI [of _ "e\<lparr>refs := refs e + 1\<rparr>"]) (simp add: lm_acquire_def modE_def the_entry_def lentry_ok_def Let_def)
qed

lemma entry_release:
  assumes "lentry_ok (m i) p sh ex" and "0 < p"
  shows "\<exists>eo. lm_release i m = (Ret (), m(i := eo)) \<and> lentry_ok eo (p - 1) sh ex"
proof -
  have "0 < p + sh + ex" using assms(2) by simp
  from entry_some [OF assms(1) this] obtain e where e: "m i = Some e" "unat (refs e) = p + sh + ex" "readers e = sh"
    "ex = (if writer e then 1 else 0)" "writer e \<longrightarrow> sh = 0" by blast
  show ?thesis
  proof (cases "unat (refs e) = 1")
    case True
    then show ?thesis using e assms(2) refs_dec(3)
      by (intro exI [of _ None]) (auto simp: lm_release_def modE_def lentry_ok_def)
  next
    case False
    then show ?thesis using e assms(2) refs_dec(1,2) [of "refs e"]
      by (intro exI [of _ "Some (e\<lparr>refs := refs e - 1\<rparr>)"]) (auto simp: lm_release_def modE_def lentry_ok_def)
  qed
qed

text \<open>The calls on the mutex leave the references alone.\<close>

lemma entry_mutex:
  assumes "lentry_ok (m i) p sh ex" and "0 < p + sh + ex"
  shows "mutex_lock i m = (Ret (), m') \<Longrightarrow> 0 < p \<Longrightarrow> \<exists>e. m' = m(i := Some e) \<and> lentry_ok (Some e) (p - 1) sh (ex + 1)"
    and "mutex_lock_shared i m = (Ret (), m') \<Longrightarrow> 0 < p \<Longrightarrow> \<exists>e. m' = m(i := Some e) \<and> lentry_ok (Some e) (p - 1) (sh + 1) ex"
    and "mutex_unlock i m = (Ret (), m') \<Longrightarrow> 0 < ex \<Longrightarrow> \<exists>e. m' = m(i := Some e) \<and> lentry_ok (Some e) (p + 1) sh (ex - 1)"
    and "mutex_unlock_shared i m = (Ret (), m') \<Longrightarrow> 0 < sh \<Longrightarrow> \<exists>e. m' = m(i := Some e) \<and> lentry_ok (Some e) (p + 1) (sh - 1) ex"
proof -
  from entry_some [OF assms] obtain e where e: "m i = Some e" "unat (refs e) = p + sh + ex" "readers e = sh"
    "ex = (if writer e then 1 else 0)" "writer e \<longrightarrow> sh = 0" by blast
  note defs = lentry_ok_def mutex_lock_def mutex_lock_shared_def mutex_unlock_def mutex_unlock_shared_def modE_def
    upd_entry_def the_entry_def Let_def
  show "\<exists>e. m' = m(i := Some e) \<and> lentry_ok (Some e) (p - 1) sh (ex + 1)" if "mutex_lock i m = (Ret (), m')" "0 < p"
    using that e by (intro exI [of _ "e\<lparr>writer := True\<rparr>"]) (auto simp: defs split: if_splits)
  show "\<exists>e. m' = m(i := Some e) \<and> lentry_ok (Some e) (p - 1) (sh + 1) ex" if "mutex_lock_shared i m = (Ret (), m')" "0 < p"
    using that e by (intro exI [of _ "e\<lparr>readers := sh + 1\<rparr>"]) (auto simp: defs split: if_splits)
  show "\<exists>e. m' = m(i := Some e) \<and> lentry_ok (Some e) (p + 1) sh (ex - 1)" if "mutex_unlock i m = (Ret (), m')" "0 < ex"
    using that e by (intro exI [of _ "e\<lparr>writer := False\<rparr>"]) (auto simp: defs split: if_splits)
  show "\<exists>e. m' = m(i := Some e) \<and> lentry_ok (Some e) (p + 1) (sh - 1) ex" if "mutex_unlock_shared i m = (Ret (), m')" "0 < sh"
    using that e by (intro exI [of _ "e\<lparr>readers := sh - 1\<rparr>"]) (auto simp: defs split: if_splits)
qed

lemma locks_ok_step:
  assumes "locks_ok r" and "lock_step r r'"
  shows "locks_ok r'"
  using assms(2)
proof (cases rule: lock_step.cases)
  case (acquire i m)
  with entry_acquire [where m = "entries r" and i = i, OF locks_okD [OF assms(1), of i]] obtain e where
    "m = (entries r)(i := Some e)" "lentry_ok (Some e) (plain_refs r i + 1) (shared r i) (excl r i)" by (auto simp: referrers_def)
  with locks_ok_upd [OF assms(1) this(2), of i] acquire(1) show ?thesis by (cases r) simp
next
  case (release i m)
  with entry_release [where m = "entries r" and i = i, OF locks_okD [OF assms(1), of i]] obtain eo where
    "m = (entries r)(i := eo)" "lentry_ok eo (plain_refs r i - 1) (shared r i) (excl r i)" by auto
  with locks_ok_upd [OF assms(1) this(2), of i] release(1) show ?thesis by (cases r) simp
next
  case (lock i m)
  with entry_mutex(1) [where m = "entries r" and i = i, OF locks_okD [OF assms(1), of i]] obtain e where
    "m = (entries r)(i := Some e)" "lentry_ok (Some e) (plain_refs r i - 1) (shared r i) (excl r i + 1)" by auto
  with locks_ok_upd [OF assms(1) this(2), of i] lock(1) show ?thesis by (cases r) simp
next
  case (lock_shared i m)
  with entry_mutex(2) [where m = "entries r" and i = i, OF locks_okD [OF assms(1), of i]] obtain e where
    "m = (entries r)(i := Some e)" "lentry_ok (Some e) (plain_refs r i - 1) (shared r i + 1) (excl r i)" by auto
  with locks_ok_upd [OF assms(1) this(2), of i] lock_shared(1) show ?thesis by (cases r) simp
next
  case (unlock i m)
  with entry_mutex(3) [where m = "entries r" and i = i, OF locks_okD [OF assms(1), of i]] obtain e where
    "m = (entries r)(i := Some e)" "lentry_ok (Some e) (plain_refs r i + 1) (shared r i) (excl r i - 1)" by auto
  with locks_ok_upd [OF assms(1) this(2), of i] unlock(1) show ?thesis by (cases r) simp
next
  case (unlock_shared i m)
  with entry_mutex(4) [where m = "entries r" and i = i, OF locks_okD [OF assms(1), of i]] obtain e where
    "m = (entries r)(i := Some e)" "lentry_ok (Some e) (plain_refs r i + 1) (shared r i - 1) (excl r i)" by auto
  with locks_ok_upd [OF assms(1) this(2), of i] unlock_shared(1) show ?thesis by (cases r) simp
qed

lemma locks_ok_reached: "lock_step\<^sup>*\<^sup>* lock_start r \<Longrightarrow> locks_ok r"
proof (induction rule: rtranclp_induct)
  case base
  show ?case by (simp add: locks_ok_def lock_start_def lentry_ok_def)
qed (rule locks_ok_step)

text \<open>Taking a lock and dropping it again leaves the map as it was.\<close>

lemma lock_then_drop:
  assumes "\<forall>e. m i = Some e \<longrightarrow> 0 < unat (refs e) \<and> unat (refs e) < 2 ^ 32 - 1" and "inode_lock_new i ex m = (Ret l, m1)"
  shows "il_drop l m1 = (Ret (), m)"
proof -
  define m0 where "m0 = m(i := Some ((the_entry i m)\<lparr>refs := refs (the_entry i m) + 1\<rparr>))"
  define g where "g b e = (if b then e\<lparr>writer := True\<rparr> else e\<lparr>readers := readers e + 1\<rparr>)" for b and e :: lock_entry
  have acq: "lm_acquire i m = (Ret (), m0)" by (simp add: lm_acquire_def modE_def m0_def Let_def)
  have l: "l = \<lparr>il_id = i, il_held = True, il_exclusive = ex\<rparr>" and
    m1: "m1 = m0(i := Some (g ex ((the_entry i m)\<lparr>refs := refs (the_entry i m) + 1\<rparr>)))" and
    free: "ex \<Longrightarrow> \<not> writer (the_entry i m)"
    using assms(2) acq
    by (auto simp: inode_lock_new_def thenE_def bindE_def retE_def g_def mutex_lock_def mutex_lock_shared_def Let_def
        the_entry_def m0_def upd_entry_def split: if_splits)
  have undo: "(if ex then mutex_unlock i else mutex_unlock_shared i) m1 =
      (Ret (), m0(i := Some ((the_entry i m)\<lparr>refs := refs (the_entry i m) + 1\<rparr>)))"
  proof (cases ex)
    case True
    then have "(the_entry i m)\<lparr>refs := refs (the_entry i m) + 1, writer := False\<rparr> = (the_entry i m)\<lparr>refs := refs (the_entry i m) + 1\<rparr>"
      using free by (cases "the_entry i m") simp
    with True show ?thesis by (simp add: m1 g_def mutex_unlock_def modE_def upd_entry_def)
  qed (simp add: m1 g_def mutex_unlock_shared_def modE_def upd_entry_def)
  have "lm_release i m0 = (Ret (), m)"
  proof (cases "m i")
    case None
    then show ?thesis by (simp add: lm_release_def modE_def m0_def the_entry_def new_entry_def fun_upd_idem)
  next
    case (Some e)
    then have "refs e \<noteq> 0" using assms(1) by auto
    with Some show ?thesis by (simp add: lm_release_def modE_def m0_def the_entry_def fun_upd_idem)
  qed
  moreover have "m0(i := Some ((the_entry i m)\<lparr>refs := refs (the_entry i m) + 1\<rparr>)) = m0" by (simp add: m0_def)
  ultimately show ?thesis using undo by (cases ex) (simp_all add: il_drop_def l whenE_def thenE_def bindE_def)
qed

text \<open>The steps a thread takes to hold a lock, and to let go of it.\<close>

lemma lock_new_steps:
  assumes "referrers r i < 2 ^ 32 - 1" and "inode_lock_new i ex (entries r) = (Ret l, m)"
  shows "lock_step\<^sup>*\<^sup>* r (if ex then r\<lparr>entries := m, excl := (excl r)(i := excl r i + 1)\<rparr>
    else r\<lparr>entries := m, shared := (shared r)(i := shared r i + 1)\<rparr>)"
proof -
  obtain m0 where acq: "lm_acquire i (entries r) = (Ret (), m0)" by (simp add: lm_acquire_def modE_def)
  let ?r = "r\<lparr>entries := m0, plain_refs := (plain_refs r)(i := plain_refs r i + 1)\<rparr>"
  have m: "(if ex then mutex_lock i else mutex_lock_shared i) m0 = (Ret (), m)"
    using assms(2) acq by (auto simp: inode_lock_new_def thenE_def bindE_def retE_def split: outcome.splits prod.splits)
  have one: "lock_step r ?r" by (rule lock_step.acquire [OF assms(1) acq])
  show ?thesis
  proof (cases ex)
    case True
    then show ?thesis using lock_step.lock [of ?r i m] m one by (auto intro: converse_rtranclp_into_rtranclp simp: fun_upd_idem)
  next
    case False
    then show ?thesis using lock_step.lock_shared [of ?r i m] m one by (auto intro: converse_rtranclp_into_rtranclp simp: fun_upd_idem)
  qed
qed

text \<open>
  C19. Exclusion and lifetime of inode locks. However any number of threads interleave acquiring
  references, locking, unlocking and releasing: an inode locked exclusively has one holder and no
  shared one; an inode has an entry exactly as long as somebody refers to it, so no pointer
  dangles and the table is as large as the number of inodes in use; and a lock taken and dropped
  leaves the table as it was.
\<close>

theorem inode_locks_exclude:
  assumes "lock_step\<^sup>*\<^sup>* lock_start r"
  shows "excl r i \<le> 1 \<and> (excl r i = 1 \<longrightarrow> shared r i = 0) \<and>
    (i \<in> dom (entries r) \<longleftrightarrow> 0 < referrers r i) \<and> lm_size (entries r) = card {i. 0 < referrers r i} \<and>
    (\<forall>ex l m. referrers r i < 2 ^ 32 - 1 \<longrightarrow> inode_lock_new i ex (entries r) = (Ret l, m) \<longrightarrow> il_drop l m = (Ret (), entries r))"
proof -
  note ok = locks_okD [OF locks_ok_reached [OF assms]]
  have d: "j \<in> dom (entries r) \<longleftrightarrow> 0 < referrers r j" for j
    using ok [of j] by (cases "entries r j") (auto simp: lentry_ok_def referrers_def)
  have "excl r i \<le> 1 \<and> (excl r i = 1 \<longrightarrow> shared r i = 0)"
    using ok [of i] by (cases "entries r i") (auto simp: lentry_ok_def split: if_splits)
  moreover have "dom (entries r) = {i. 0 < referrers r i}" using d by blast
  moreover have "il_drop l m = (Ret (), entries r)"
    if n: "referrers r i < 2 ^ 32 - 1" and new: "inode_lock_new i ex (entries r) = (Ret l, m)" for ex l m
  proof (rule lock_then_drop [OF _ new])
    show "\<forall>e. entries r i = Some e \<longrightarrow> 0 < unat (refs e) \<and> unat (refs e) < 2 ^ 32 - 1"
      using ok [of i] n by (auto simp: lentry_ok_def referrers_def)
  qed
  ultimately show ?thesis using d unfolding lm_size_def by simp
qed

theorem inode_locks_exclude_witness:
  "\<exists>r. lock_step\<^sup>*\<^sup>* lock_start r \<and> excl r 5 = 1 \<and> shared r 5 = 0"
proof -
  obtain l m where "inode_lock_new 5 True (entries lock_start) = (Ret l, m)"
    by (simp add: lock_start_def inode_lock_new_def thenE_def bindE_def retE_def lm_acquire_def modE_def mutex_lock_def
        Let_def the_entry_def new_entry_def)
  from lock_new_steps [OF _ this] have r: "lock_step\<^sup>*\<^sup>* lock_start (lock_start\<lparr>entries := m, excl := (excl lock_start)(5 := excl lock_start 5 + 1)\<rparr>)"
    by (simp add: referrers_def lock_start_def)
  have one: "excl (lock_start\<lparr>entries := m, excl := (excl lock_start)(5 := excl lock_start 5 + 1)\<rparr>) 5 = 1"
    by (simp add: lock_start_def)
  from inode_locks_exclude [OF r, of 5] one r show ?thesis by blast
qed

end
