(* ===== verification/Flusher.thy ===== *)
theory Flusher
  imports Prelude
begin

text \<open>
  \<^verbatim>\<open>src/src/flusher.cpp\<close>: the background thread. Its loop runs beside the threads that kick and
  stop it, so it is a step relation: every step is one critical section of the flusher's mutex,
  which is where the threads can interleave. What the work does is the storage engine's
  business; here a run of it is only counted.
\<close>

datatype fl_pc = Not_started | Waiting | Working | Finished

record flusher =
  stop_flag :: bool
  kicked :: bool
  fl_at :: fl_pc
  runs :: nat

definition flusher_new :: flusher where
  "flusher_new = \<lparr>stop_flag = False, kicked = False, fl_at = Not_started, runs = 0\<rparr>"

text \<open>The test at the head of \<^verbatim>\<open>run\<close>'s loop.\<close>

definition loop_head :: "flusher \<Rightarrow> flusher" where
  "loop_head f = f\<lparr>fl_at := (if stop_flag f then Finished else Waiting)\<rparr>"

definition flusher_start :: "flusher \<Rightarrow> flusher" where
  "flusher_start f = loop_head f"

definition flusher_kick :: "flusher \<Rightarrow> flusher" where
  "flusher_kick f = f\<lparr>kicked := True\<rparr>"

definition flusher_stop :: "flusher \<Rightarrow> flusher" where
  "flusher_stop f = f\<lparr>stop_flag := True\<rparr>"

text \<open>
  The thread comes out of \<^verbatim>\<open>wait_for\<close>, because the predicate holds or the period is over, and
  goes to work unless it is to stop. The work's exceptions are swallowed, so a run always ends.
\<close>

definition flusher_wake :: "flusher \<Rightarrow> flusher" where
  "flusher_wake f =
     (if stop_flag f then f\<lparr>fl_at := Finished\<rparr>
      else f\<lparr>kicked := False, fl_at := Working, runs := runs f + 1\<rparr>)"

definition flusher_done :: "flusher \<Rightarrow> flusher" where
  "flusher_done f = loop_head f"

inductive flusher_step :: "flusher \<Rightarrow> flusher \<Rightarrow> bool" where
  start: "fl_at f = Not_started \<Longrightarrow> flusher_step f (flusher_start f)"
| kick: "flusher_step f (flusher_kick f)"
| stop: "flusher_step f (flusher_stop f)"
| wake: "fl_at f = Waiting \<Longrightarrow> flusher_step f (flusher_wake f)"
| work_done: "fl_at f = Working \<Longrightarrow> flusher_step f (flusher_done f)"

inductive_cases flusher_stepE: "flusher_step f f'"

lemmas flusher_defs = flusher_start_def flusher_kick_def flusher_stop_def flusher_wake_def
  flusher_done_def loop_head_def

section \<open>Kicks and stops\<close>

text \<open>The steps of the background thread itself; with the others it makes up \<^term>\<open>flusher_step\<close>.\<close>

definition flusher_thread :: "flusher \<Rightarrow> flusher" where
  "flusher_thread f = (case fl_at f of
       Not_started \<Rightarrow> flusher_start f | Waiting \<Rightarrow> flusher_wake f | Working \<Rightarrow> flusher_done f | Finished \<Rightarrow> f)"

lemma flusher_thread_step: "fl_at f \<noteq> Finished \<Longrightarrow> flusher_step f (flusher_thread f)"
  by (cases "fl_at f") (simp_all add: flusher_thread_def flusher_step.intros)

text \<open>Once stopped a flusher stays stopped; runs are only counted up; the thread ends only when told to.\<close>

lemma flusher_step_keeps:
  assumes "flusher_step f f'"
  shows "stop_flag f \<Longrightarrow> stop_flag f' \<and> runs f' = runs f"
    and "runs f \<le> runs f'" and "kicked f \<Longrightarrow> runs f' = runs f \<Longrightarrow> kicked f'"
    and "(fl_at f = Finished \<Longrightarrow> stop_flag f) \<Longrightarrow> fl_at f' = Finished \<Longrightarrow> stop_flag f'"
  using assms by (auto elim!: flusher_stepE simp: flusher_defs split: if_splits)

lemma flusher_steps_keep:
  assumes "flusher_step\<^sup>*\<^sup>* f f'"
  shows "stop_flag f \<Longrightarrow> stop_flag f' \<and> runs f' = runs f"
    and "runs f \<le> runs f'" and "kicked f \<Longrightarrow> runs f' = runs f \<Longrightarrow> kicked f'"
    and "(fl_at f = Finished \<Longrightarrow> stop_flag f) \<Longrightarrow> fl_at f' = Finished \<Longrightarrow> stop_flag f'"
proof -
  from assms have "(stop_flag f \<longrightarrow> stop_flag f' \<and> runs f' = runs f) \<and> runs f \<le> runs f' \<and>
    (kicked f \<longrightarrow> runs f' = runs f \<longrightarrow> kicked f') \<and>
    ((fl_at f = Finished \<longrightarrow> stop_flag f) \<longrightarrow> fl_at f' = Finished \<longrightarrow> stop_flag f')"
  proof (induction rule: rtranclp_induct)
    case (step g h)
    note k = flusher_step_keeps [OF step.hyps(2)]
    from step.IH k(2) have "runs h = runs f \<Longrightarrow> runs g = runs f" by linarith
    with step.IH k show ?case by (metis order_trans)
  qed simp
  then show "stop_flag f \<Longrightarrow> stop_flag f' \<and> runs f' = runs f" "runs f \<le> runs f'"
    "kicked f \<Longrightarrow> runs f' = runs f \<Longrightarrow> kicked f'"
    "(fl_at f = Finished \<Longrightarrow> stop_flag f) \<Longrightarrow> fl_at f' = Finished \<Longrightarrow> stop_flag f'" by blast+
qed

lemma flusher_thread_runs:
  assumes "\<not> stop_flag f" and "fl_at f \<noteq> Finished"
  shows "runs f < runs ((flusher_thread ^^ 3) f)"
  using assms by (cases "fl_at f") (simp_all add: numeral_3_eq_3 flusher_thread_def flusher_defs)

lemma flusher_thread_ends:
  assumes "stop_flag f"
  shows "fl_at (flusher_thread f) = Finished"
  using assms by (cases "fl_at f") (simp_all add: flusher_thread_def flusher_defs)

text \<open>
  C20. A kick is never lost and a stop is obeyed. However the threads that start, kick and stop a
  flusher and the flusher's own thread interleave from its creation on: after a kick the flag
  stays up until a run of the work begins; as long as nobody stops it, the thread is alive and
  begins a run within three of its steps; after a stop no run begins any more, and the thread
  ends at its next step, so that \<^verbatim>\<open>join\<close> returns.
\<close>

theorem flusher_answers:
  assumes "flusher_step\<^sup>*\<^sup>* flusher_new f"
  shows "if stop_flag f
    then fl_at (flusher_thread f) = Finished \<and> (\<forall>g. flusher_step\<^sup>*\<^sup>* f g \<longrightarrow> runs g = runs f)
    else fl_at f \<noteq> Finished \<and> runs f < runs ((flusher_thread ^^ 3) f) \<and>
      (\<forall>g. flusher_step\<^sup>*\<^sup>* (flusher_kick f) g \<longrightarrow> kicked g \<or> runs f < runs g)"
proof (cases "stop_flag f")
  case True
  with flusher_steps_keep(1) flusher_thread_ends show ?thesis by auto
next
  case False
  have live: "fl_at f \<noteq> Finished" using flusher_steps_keep(4) [OF assms] False by (auto simp: flusher_new_def)
  have "kicked g \<or> runs f < runs g" if "flusher_step\<^sup>*\<^sup>* (flusher_kick f) g" for g
    using flusher_steps_keep(2,3) [OF that] by (auto simp: flusher_kick_def)
  with False live flusher_thread_runs [OF False live] show ?thesis by simp
qed

theorem flusher_answers_witness:
  "flusher_step\<^sup>*\<^sup>* flusher_new (flusher_start flusher_new) \<and>
   runs (flusher_start flusher_new) < runs ((flusher_thread ^^ 3) (flusher_start flusher_new))"
proof -
  have r: "flusher_step\<^sup>*\<^sup>* flusher_new (flusher_start flusher_new)"
    by (rule r_into_rtranclp, rule flusher_step.start) (simp add: flusher_new_def)
  have "\<not> stop_flag (flusher_start flusher_new)" by (simp add: flusher_new_def flusher_defs)
  with flusher_answers [OF r] r show ?thesis by simp
qed

end
