(* ===== verification/Mount_Gate.thy ===== *)
theory Mount_Gate
  imports Prelude
begin

text \<open>
  The \<^verbatim>\<open>MountGate\<close> of \<^verbatim>\<open>src/src/vfs.cpp\<close>: every call counts itself in a slot of its thread,
  and an unmount closes the gate and waits for every slot to read zero.
\<close>

definition SLOTS :: nat where "SLOTS = 64"

record mount_gate =
  slots :: "int list"
  gate_closed :: bool

definition gate_new :: mount_gate where
  "gate_new = \<lparr>slots = replicate SLOTS 0, gate_closed = True\<rparr>"

text \<open>The slot of the \<^term>\<open>k\<close>-th thread to make a call.\<close>

definition my_slot :: "nat \<Rightarrow> nat" where
  "my_slot k = k mod SLOTS"

definition slot_add :: "nat \<Rightarrow> int \<Rightarrow> mount_gate \<Rightarrow> mount_gate" where
  "slot_add k d g = g\<lparr>slots := (slots g)[my_slot k := slots g ! my_slot k + d]\<rparr>"

definition gate_enter :: "nat \<Rightarrow> (mount_gate, bool) op" where
  "gate_enter k =
     thenE (modE (slot_add k 1))
    (bindE (getE gate_closed) (\<lambda>closed.
     if closed then thenE (modE (slot_add k (- 1))) (retE False) else retE True))"

definition gate_leave :: "nat \<Rightarrow> (mount_gate, unit) op" where
  "gate_leave k = modE (slot_add k (- 1))"

text \<open>A slot that does not read zero is waited for; with no other thread about, for ever.\<close>

definition gate_close_and_drain :: "(mount_gate, unit) op" where
  "gate_close_and_drain =
     thenE (modE (\<lambda>g. g\<lparr>gate_closed := True\<rparr>))
     (\<lambda>g. if list_all (\<lambda>n. n = 0) (slots g) then (Ret (), g) else (Halted Waits, g))"

definition gate_open :: "(mount_gate, unit) op" where
  "gate_open = modE (\<lambda>g. g\<lparr>gate_closed := False\<rparr>)"

section \<open>Calls and an unmount at the same time\<close>

text \<open>
  The same operations one atomic access at a time. A thread counts itself in, then looks whether
  the gate is closed, and backs out if it is. \<^verbatim>\<open>vfs_mount\<close> sets \<^verbatim>\<open>g_fs\<close> and then opens the gate;
  \<^verbatim>\<open>vfs_unmount\<close> closes it, looks at one slot after the other, going on only when it reads zero,
  and then clears \<^verbatim>\<open>g_fs\<close>; the mutex \<^verbatim>\<open>change\<close> admits one of them at a time. All accesses are
  sequentially consistent, so a run is any interleaving of these steps.
\<close>

datatype call_at = Outside | Counted | Refused | Inside

datatype mount_at = No_fs | Fs_set | Gate_up | Draining nat

record gate_run =
  the_gate :: mount_gate
  calls :: "nat \<Rightarrow> call_at"
  phase :: mount_at

definition gate_start :: gate_run where
  "gate_start = \<lparr>the_gate = gate_new, calls = (\<lambda>_. Outside), phase = No_fs\<rparr>"

definition moves :: "nat \<Rightarrow> call_at \<Rightarrow> (mount_gate \<Rightarrow> mount_gate) \<Rightarrow> gate_run \<Rightarrow> gate_run" where
  "moves k c f r = r\<lparr>the_gate := f (the_gate r), calls := (calls r)(k := c)\<rparr>"

inductive gate_step :: "gate_run \<Rightarrow> gate_run \<Rightarrow> bool" where
  count_in: "calls r k = Outside \<Longrightarrow> gate_step r (moves k Counted (slot_add k 1) r)"
| look: "calls r k = Counted \<Longrightarrow> gate_step r (moves k (if gate_closed (the_gate r) then Refused else Inside) (\<lambda>g. g) r)"
| back_out: "calls r k = Refused \<Longrightarrow> gate_step r (moves k Outside (slot_add k (- 1)) r)"
| leave: "calls r k = Inside \<Longrightarrow> gate_step r (moves k Outside (slot_add k (- 1)) r)"
| set_fs: "phase r = No_fs \<Longrightarrow> gate_step r (r\<lparr>phase := Fs_set\<rparr>)"
| open_gate: "phase r = Fs_set \<Longrightarrow>
    gate_step r (r\<lparr>the_gate := (the_gate r)\<lparr>gate_closed := False\<rparr>, phase := Gate_up\<rparr>)"
| close_gate: "phase r = Gate_up \<Longrightarrow>
    gate_step r (r\<lparr>the_gate := (the_gate r)\<lparr>gate_closed := True\<rparr>, phase := Draining 0\<rparr>)"
| scan: "phase r = Draining i \<Longrightarrow> i < SLOTS \<Longrightarrow> slots (the_gate r) ! i = 0 \<Longrightarrow>
    gate_step r (r\<lparr>phase := Draining (Suc i)\<rparr>)"
| clear_fs: "phase r = Draining SLOTS \<Longrightarrow> gate_step r (r\<lparr>phase := No_fs\<rparr>)"

inductive_cases gate_stepE: "gate_step r r'"

text \<open>The threads counted in a slot.\<close>

definition counted :: "(nat \<Rightarrow> call_at) \<Rightarrow> nat \<Rightarrow> nat set" where
  "counted cs i = {k. cs k \<noteq> Outside \<and> my_slot k = i}"

text \<open>The gate is open exactly while mounted, and nobody is inside where \<^verbatim>\<open>g_fs\<close> may change.\<close>

definition phase_ok :: "mount_at \<Rightarrow> bool \<Rightarrow> (nat \<Rightarrow> call_at) \<Rightarrow> bool" where
  "phase_ok p closed cs \<longleftrightarrow> (case p of
       Gate_up \<Rightarrow> \<not> closed
     | Draining i \<Rightarrow> closed \<and> i \<le> SLOTS \<and> (\<forall>k. cs k = Inside \<longrightarrow> i \<le> my_slot k)
     | _ \<Rightarrow> closed \<and> (\<forall>k. cs k \<noteq> Inside))"

definition gate_inv :: "gate_run \<Rightarrow> bool" where
  "gate_inv r \<longleftrightarrow> length (slots (the_gate r)) = SLOTS \<and>
     (\<forall>i < SLOTS. finite (counted (calls r) i) \<and> slots (the_gate r) ! i = int (card (counted (calls r) i))) \<and>
     phase_ok (phase r) (gate_closed (the_gate r)) (calls r)"

lemma phase_ok_call:
  assumes "phase_ok p closed cs" and "c = Inside \<Longrightarrow> \<not> closed"
  shows "phase_ok p closed (cs(k := c))"
  using assms by (auto simp: phase_ok_def split: mount_at.splits)

lemma my_slot_less [simp]: "my_slot k < SLOTS"
  by (simp add: my_slot_def SLOTS_def)

lemma slots_add:
  assumes "length (slots g) = SLOTS" and "i < SLOTS"
  shows "slots (slot_add k d g) ! i = slots g ! i + (if i = my_slot k then d else 0)"
    and "length (slots (slot_add k d g)) = SLOTS" and "gate_closed (slot_add k d g) = gate_closed g"
  using assms by (simp_all add: slot_add_def nth_list_update)

lemma counted_in:
  assumes "cs k = Outside" and "c \<noteq> Outside"
  shows "counted (cs(k := c)) i = (if i = my_slot k then insert k (counted cs i) else counted cs i)" "k \<notin> counted cs i"
  using assms by (auto simp: counted_def)

lemma counted_out:
  assumes "cs k \<noteq> Outside"
  shows "counted (cs(k := Outside)) i = counted cs i - {k}" "k \<in> counted cs i \<longleftrightarrow> i = my_slot k"
  using assms by (auto simp: counted_def)

lemma counted_on:
  assumes "cs k \<noteq> Outside" and "c \<noteq> Outside"
  shows "counted (cs(k := c)) i = counted cs i"
  using assms by (auto simp: counted_def)

lemma gate_inv_start: "gate_inv gate_start"
  by (simp add: gate_inv_def gate_start_def gate_new_def counted_def phase_ok_def)

lemma gate_inv_out:
  assumes "gate_inv r" and "calls r k \<noteq> Outside"
  shows "gate_inv (moves k Outside (slot_add k (- 1)) r)"
proof -
  note inv = assms(1) [unfolded gate_inv_def]
  have "finite (counted (calls r) i - {k}) \<and>
      slots (slot_add k (- 1) (the_gate r)) ! i = int (card (counted (calls r) i - {k}))" if i: "i < SLOTS" for i
  proof (cases "i = my_slot k")
    case True
    then have k: "k \<in> counted (calls r) i" using counted_out(2) [of "calls r" k, OF assms(2)] by blast
    have f: "finite (counted (calls r) i)" using inv i by blast
    have "0 < card (counted (calls r) i)" using k f card_gt_0_iff by blast
    with True k f i inv show ?thesis using slots_add(1) by (auto simp: card_Diff_singleton)
  next
    case False
    then have "k \<notin> counted (calls r) i" using counted_out(2) [of "calls r" k, OF assms(2)] by blast
    with False i inv show ?thesis using slots_add(1) by simp
  qed
  with inv show ?thesis
    using slots_add(2,3) [of "the_gate r" 0 k "- 1"] phase_ok_call [where c = Outside and k = k]
    by (simp add: gate_inv_def moves_def counted_out(1) [of "calls r" k, OF assms(2)] SLOTS_def)
qed

lemma gate_inv_in:
  assumes "gate_inv r" and "calls r k = Outside"
  shows "gate_inv (moves k Counted (slot_add k 1) r)"
proof -
  note inv = assms(1) [unfolded gate_inv_def]
  have c: "counted ((calls r)(k := Counted)) i = (if i = my_slot k then insert k (counted (calls r) i) else counted (calls r) i)"
    "k \<notin> counted (calls r) i" for i using counted_in [of "calls r" k Counted i, OF assms(2)] by simp_all
  have "finite (counted ((calls r)(k := Counted)) i) \<and>
      slots (slot_add k 1 (the_gate r)) ! i = int (card (counted ((calls r)(k := Counted)) i))" if i: "i < SLOTS" for i
    using inv i c(2) [of i] slots_add(1) unfolding c(1) by (cases "i = my_slot k") simp_all
  with inv show ?thesis
    using slots_add(2,3) [of "the_gate r" 0 k 1] phase_ok_call [where c = Counted and k = k]
    by (simp add: gate_inv_def moves_def SLOTS_def)
qed

lemma gate_inv_look:
  assumes "gate_inv r" and "calls r k = Counted"
  shows "gate_inv (moves k (if gate_closed (the_gate r) then Refused else Inside) (\<lambda>g. g) r)"
proof -
  have "counted ((calls r)(k := if gate_closed (the_gate r) then Refused else Inside)) i = counted (calls r) i" for i
    using assms(2) by (intro counted_on) auto
  moreover have "phase_ok (phase r) (gate_closed (the_gate r))
      ((calls r)(k := if gate_closed (the_gate r) then Refused else Inside))"
    using assms(1) by (intro phase_ok_call) (simp_all add: gate_inv_def split: if_splits)
  ultimately show ?thesis using assms(1) unfolding gate_inv_def moves_def by simp
qed

text \<open>A slot that reads zero has nobody inside.\<close>

lemma gate_inv_scan:
  assumes "gate_inv r" and "phase r = Draining i" and "i < SLOTS" and "slots (the_gate r) ! i = 0"
  shows "gate_inv (r\<lparr>phase := Draining (Suc i)\<rparr>)"
proof -
  note inv = assms(1) [unfolded gate_inv_def]
  have "counted (calls r) i = {}" using inv assms(3,4) by auto
  then have ne: "my_slot k \<noteq> i" if "calls r k = Inside" for k
    using that unfolding counted_def by (metis (mono_tags, lifting) call_at.distinct(5) empty_iff mem_Collect_eq)
  have "\<forall>k. calls r k = Inside \<longrightarrow> i \<le> my_slot k" using inv assms(2) by (simp add: phase_ok_def)
  with ne have "Suc i \<le> my_slot k" if "calls r k = Inside" for k using that by (metis Suc_leI le_neq_implies_less)
  with inv assms show ?thesis by (simp add: gate_inv_def phase_ok_def)
qed

lemma gate_inv_phase:
  assumes "gate_inv r"
  shows "phase r = No_fs \<Longrightarrow> gate_inv (r\<lparr>phase := Fs_set\<rparr>)"
    and "phase r = Fs_set \<Longrightarrow> gate_inv (r\<lparr>the_gate := (the_gate r)\<lparr>gate_closed := False\<rparr>, phase := Gate_up\<rparr>)"
    and "phase r = Gate_up \<Longrightarrow> gate_inv (r\<lparr>the_gate := (the_gate r)\<lparr>gate_closed := True\<rparr>, phase := Draining 0\<rparr>)"
    and "phase r = Draining SLOTS \<Longrightarrow> gate_inv (r\<lparr>phase := No_fs\<rparr>)"
  using assms by (simp_all add: gate_inv_def phase_ok_def not_less_eq_eq [symmetric]) (metis my_slot_less not_le)

lemma gate_inv_step:
  assumes "gate_inv r" and "gate_step r r'"
  shows "gate_inv r'"
  using assms(2) gate_inv_in [OF assms(1)] gate_inv_look [OF assms(1)] gate_inv_out [OF assms(1)] gate_inv_scan [OF assms(1)]
    gate_inv_phase [OF assms(1)]
  by (cases rule: gate_step.cases) auto

lemma gate_inv_reached: "gate_step\<^sup>*\<^sup>* gate_start r \<Longrightarrow> gate_inv r"
  by (induction rule: rtranclp_induct) (simp_all add: gate_inv_start gate_inv_step)

text \<open>With nobody inside any more the wait ends: every thread that is still counted can back out,
  and a slot nobody is counted in reads zero.\<close>

lemma zero_when_out:
  assumes "gate_inv r" and "i < SLOTS" and "\<forall>k. my_slot k = i \<longrightarrow> calls r k = Outside"
  shows "slots (the_gate r) ! i = 0"
proof -
  have "counted (calls r) i = {}" using assms(3) by (auto simp: counted_def)
  with assms(1,2) show ?thesis by (simp add: gate_inv_def)
qed

text \<open>A call that is not interrupted, step by step.\<close>

lemma gate_enter_steps:
  assumes "calls r k = Outside" and "gate_enter k (the_gate r) = (Ret b, g)"
  shows "gate_step\<^sup>*\<^sup>* r (r\<lparr>the_gate := g, calls := (calls r)(k := if b then Inside else Outside)\<rparr>)"
proof -
  define r1 where "r1 = moves k Counted (slot_add k 1) r"
  define r2 where "r2 = moves k (if gate_closed (the_gate r1) then Refused else Inside) (\<lambda>g. g) r1"
  have s: "gate_step r r1" "gate_step r1 r2"
    unfolding r1_def r2_def by (rule gate_step.count_in [OF assms(1)], rule gate_step.look) (simp add: moves_def)
  show ?thesis
  proof (cases "gate_closed (the_gate r1)")
    case True
    have "gate_step r2 (moves k Outside (slot_add k (- 1)) r2)"
      by (rule gate_step.back_out) (simp add: r2_def moves_def True)
    moreover have "moves k Outside (slot_add k (- 1)) r2 = r\<lparr>the_gate := g, calls := (calls r)(k := if b then Inside else Outside)\<rparr>"
      using assms(2) True
      by (auto simp: gate_enter_def thenE_def bindE_def modE_def getE_def retE_def r1_def r2_def moves_def)
    ultimately show ?thesis using s by (metis converse_rtranclp_into_rtranclp rtranclp.rtrancl_refl)
  next
    case False
    have "r2 = r\<lparr>the_gate := g, calls := (calls r)(k := if b then Inside else Outside)\<rparr>"
      using assms(2) False
      by (auto simp: gate_enter_def thenE_def bindE_def modE_def getE_def retE_def r1_def r2_def moves_def)
    with s show ?thesis by (metis converse_rtranclp_into_rtranclp rtranclp.rtrancl_refl)
  qed
qed

text \<open>
  C18. No call slips past a closing gate. In every interleaving of any number of calls with mounts
  and unmounts, whenever \<^verbatim>\<open>g_fs\<close> is not set or is being set, and when an unmount has seen every
  slot at zero and goes on to clear it, no call is inside, and a call that has counted itself in
  will find the gate closed. The wait ends: a slot whose calls have left reads zero. And
  \<^verbatim>\<open>enter\<close>, not interrupted, is a sequence of these steps and answers whether the call is inside.
\<close>

theorem drained_gate_empty:
  assumes "gate_step\<^sup>*\<^sup>* gate_start r"
  shows "(phase r \<in> {No_fs, Fs_set, Draining SLOTS} \<longrightarrow>
      (\<forall>k. calls r k \<noteq> Inside) \<and> gate_closed (the_gate r)) \<and>
    (\<forall>i < SLOTS. (\<forall>k. my_slot k = i \<longrightarrow> calls r k = Outside) \<longrightarrow> slots (the_gate r) ! i = 0) \<and>
    (\<forall>k b g. calls r k = Outside \<longrightarrow> gate_enter k (the_gate r) = (Ret b, g) \<longrightarrow>
      gate_step\<^sup>*\<^sup>* r (r\<lparr>the_gate := g, calls := (calls r)(k := if b then Inside else Outside)\<rparr>))"
proof -
  note inv = gate_inv_reached [OF assms]
  have "calls r k \<noteq> Inside" if "phase r = Draining SLOTS" for k
    using that inv by (simp add: gate_inv_def phase_ok_def) (metis my_slot_less not_le)
  then have "phase r \<in> {No_fs, Fs_set, Draining SLOTS} \<longrightarrow> (\<forall>k. calls r k \<noteq> Inside) \<and> gate_closed (the_gate r)"
    using inv by (auto simp: gate_inv_def phase_ok_def)
  with zero_when_out [OF inv] gate_enter_steps show ?thesis by blast
qed

lemma idle_drains:
  "i \<le> SLOTS \<Longrightarrow> gate_step\<^sup>*\<^sup>* gate_start \<lparr>the_gate = gate_new, calls = (\<lambda>_. Outside), phase = Draining i\<rparr>"
proof (induction i)
  case 0
  define m where "m = gate_start\<lparr>phase := Fs_set\<rparr>"
  define o1 where "o1 = gate_start\<lparr>the_gate := gate_new\<lparr>gate_closed := False\<rparr>, phase := Gate_up\<rparr>"
  have "gate_step gate_start m" unfolding m_def by (rule gate_step.set_fs) (simp add: gate_start_def)
  moreover have "gate_step m o1" using gate_step.open_gate [of m] by (simp add: m_def o1_def gate_start_def)
  moreover have "gate_step o1 \<lparr>the_gate = gate_new, calls = (\<lambda>_. Outside), phase = Draining 0\<rparr>"
    using gate_step.close_gate [of o1] by (simp add: o1_def gate_start_def gate_new_def)
  ultimately show ?case by (meson converse_rtranclp_into_rtranclp rtranclp.rtrancl_refl)
next
  case (Suc i)
  let ?r = "\<lparr>the_gate = gate_new, calls = (\<lambda>_. Outside), phase = Draining i\<rparr>"
  have "gate_step ?r (?r\<lparr>phase := Draining (Suc i)\<rparr>)"
    using Suc.prems by (intro gate_step.scan) (simp_all add: gate_new_def)
  with Suc show ?case by (auto intro: rtranclp.rtrancl_into_rtrancl)
qed

theorem drained_gate_empty_witness:
  "\<exists>r. gate_step\<^sup>*\<^sup>* gate_start r \<and> phase r = Draining SLOTS \<and> gate_closed (the_gate r)"
  using idle_drains [OF order_refl] drained_gate_empty [OF idle_drains [OF order_refl]] by fastforce

end
