(* ===== verification/Storage.thy ===== *)
theory Storage
  imports Recovery Buffer_Cache Journal Flusher
begin

text \<open>
  \<^verbatim>\<open>src/src/storage.cpp\<close>: the storage engine. The journal's members, the cache, the log and the
  disk are one state. The calls are those of one thread. Where a call waits for another thread
  on the condition variable, it is given \<^term>\<open>turns\<close>: what the other threads do to the engine
  during each wait; a call that has used them all up is still waiting and does not return.
\<close>

definition MAX_OP_BLOCKS :: u32 where "MAX_OP_BLOCKS = 64"
definition CLOSED :: u64 where "CLOSED = push_bit 63 1"

record storage_options =
  so_cache_frames :: u32
  so_disk_latency_us :: u32
  so_journal :: bool
  so_fsync :: bool
  so_flusher :: bool
  so_commit_interval_ms :: u32
  so_checkpoint_bytes :: u64

definition default_storage_options :: storage_options where
  "default_storage_options = \<lparr>so_cache_frames = 4096, so_disk_latency_us = 0, so_journal = True,
     so_fsync = True, so_flusher = True, so_commit_interval_ms = 1000,
     so_checkpoint_bytes = push_bit 20 32\<rparr>"

record storage_stats =
  ss_disk_reads :: u64
  ss_disk_writes :: u64
  ss_cache_hits :: u64
  ss_cache_misses :: u64
  ss_evictions :: u64
  ss_log_bytes :: u64
  ss_commits :: u64
  ss_checkpoints :: u64

text \<open>The members of \<^verbatim>\<open>JournalImpl\<close>; times are readings of the steady clock, in milliseconds.\<close>

record control =
  j_sb :: superblock
  enabled :: bool
  j_total_blocks :: u32
  max_txn_blocks :: u64
  checkpoint_bytes :: u64
  gate :: u64
  txn_count :: u64
  ended :: u64
  committing :: bool
  commit_requested :: bool
  checkpoint_requested :: bool
  failed :: "exn option"
  committed_through :: u64
  checkpoints_done :: u64
  txn_blocks :: "u32 list"
  txn_set :: "u32 set"
  txn_started :: int
  commits :: u64
  checkpoints :: u64

text \<open>\<^verbatim>\<open>Storage::Impl\<close>: the journal, the cache, the log and the disk, and the flusher.\<close>

record engine =
  ctl :: control
  e_cache :: cache
  e_stable :: stable
  e_flusher :: "flusher option"
  e_clock :: int
  s_sb :: superblock
  s_recovery :: recovery_info
  s_closed :: bool

definition journal_new :: "cache \<Rightarrow> superblock \<Rightarrow> storage_options \<Rightarrow> control" where
  "journal_new c sb opts = \<lparr>j_sb = sb, enabled = so_journal opts, j_total_blocks = total_blocks sb,
     max_txn_blocks = ucast (capacity c div 2 - MAX_OP_BLOCKS), checkpoint_bytes = so_checkpoint_bytes opts,
     gate = 0, txn_count = 0, ended = 0, committing = False, commit_requested = False,
     checkpoint_requested = False, failed = None, committed_through = 0, checkpoints_done = 0,
     txn_blocks = [], txn_set = {}, txn_started = 0, commits = 0, checkpoints = 0\<rparr>"

section \<open>Parts of the engine\<close>

definition upd_ctl :: "(control \<Rightarrow> control) \<Rightarrow> (engine, unit) op" where
  "upd_ctl f = modE (\<lambda>s. s\<lparr>ctl := f (ctl s)\<rparr>)"

definition log_of_engine :: "engine \<Rightarrow> wal" where
  "log_of_engine s = fst (e_stable s)"

definition on_cache :: "(disk cache_state, 'a) op \<Rightarrow> (engine, 'a) op" where
  "on_cache = zoomE (\<lambda>s. (e_cache s, snd (e_stable s)))
     (\<lambda>(c, d) s. s\<lparr>e_cache := c, e_stable := (fst (e_stable s), d)\<rparr>)"

definition on_frames :: "(cache, 'a) op \<Rightarrow> (engine, 'a) op" where
  "on_frames = zoomE e_cache (\<lambda>c s. s\<lparr>e_cache := c\<rparr>)"

definition on_stable :: "(stable, 'a) op \<Rightarrow> (engine, 'a) op" where
  "on_stable = zoomE e_stable (\<lambda>st s. s\<lparr>e_stable := st\<rparr>)"

text \<open>The log beside the cache a commit copies its records from.\<close>

definition on_txn_log :: "(cache \<times> wal_state, 'a) op \<Rightarrow> (engine, 'a) op" where
  "on_txn_log = zoomE (\<lambda>s. (e_cache s, (fst (e_stable s), inner (snd (e_stable s)))))
     (\<lambda>(c, l, w) s. s\<lparr>e_cache := c, e_stable := (l, (snd (e_stable s))\<lparr>inner := w\<rparr>)\<rparr>)"

definition with_durable :: "(u64 \<Rightarrow> (engine, 'a) op) \<Rightarrow> (engine, 'a) op" where
  "with_durable f = bindE (getE (\<lambda>s. durable_lsn (log_of_engine s))) f"

section \<open>The journal\<close>

definition check_block :: "u32 \<Rightarrow> (engine, unit) op" where
  "check_block block_no = (\<lambda>s.
     if block_no = 0 \<or> block_no \<ge> j_total_blocks (ctl s)
     then (Raise (OutOfRange (''journal: block '' @ to_string (unat block_no) @ '' is not a block it may touch'')), s)
     else (Ret (), s))"

definition add_to_txn :: "u32 \<Rightarrow> (engine, unit) op" where
  "add_to_txn block_no = modE (\<lambda>s.
     let c = ctl s in
     if block_no \<in> txn_set c then s
     else s\<lparr>ctl := c\<lparr>txn_set := insert block_no (txn_set c),
            txn_started := (if txn_blocks c = [] then e_clock s else txn_started c),
            txn_blocks := txn_blocks c @ [block_no],
            txn_count := of_nat (card (insert block_no (txn_set c)))\<rparr>\<rparr>)"

definition fits :: "control \<Rightarrow> u64 \<Rightarrow> bool" where
  "fits c running =
     (let blocks = txn_count c in
      if running = 0 \<and> blocks = 0 then True
      else blocks + (running + 1) * ucast MAX_OP_BLOCKS \<le> max_txn_blocks c)"

definition kick_if_dirty :: "(engine, unit) op" where
  "kick_if_dirty = modE (\<lambda>s.
     if e_flusher s \<noteq> None \<and> dirty_count (e_cache s) > ucast (capacity (e_cache s) div 2)
     then s\<lparr>e_flusher := map_option flusher_kick (e_flusher s)\<rparr> else s)"

definition rethrow_if_failed :: "(engine, unit) op" where
  "rethrow_if_failed = (\<lambda>s. case failed (ctl s) of Some e \<Rightarrow> (Raise e, s) | None \<Rightarrow> (Ret (), s))"

definition journal_read :: "disk device \<Rightarrow> u32 \<Rightarrow> (engine, block) op" where
  "journal_read dev block_no =
     thenE (check_block block_no)
     (with_durable (\<lambda>durable. on_cache (cache_read dev durable block_no)))"

definition journal_write :: "disk device \<Rightarrow> u32 \<Rightarrow> bool \<Rightarrow> (block, unit) op \<Rightarrow> (engine, unit) op" where
  "journal_write dev block_no fresh fn =
     thenE (check_block block_no)
    (bindE (getE (\<lambda>s. enabled (ctl s))) (\<lambda>en.
     if \<not> en then
       bindE (with_durable (\<lambda>durable. on_cache (cache_modify dev durable block_no fresh False fn))) (\<lambda>(_, err).
       case err of Some e \<Rightarrow> throwE e | None \<Rightarrow> kick_if_dirty)
     else
       bindE (with_durable (\<lambda>durable. on_cache (cache_modify dev durable block_no fresh True fn))) (\<lambda>(joined, err).
       thenE (whenE joined (add_to_txn block_no))
       (case err of Some e \<Rightarrow> throwE e | None \<Rightarrow> retE ()))))"

definition write_txn :: "u32 list \<Rightarrow> (engine, unit) op" where
  "write_txn blocks =
     bindE (getE (\<lambda>s. next_lsn (log_of_engine s))) (\<lambda>txn.
     thenE (on_txn_log (wal_stage WAL_BEGIN txn 0 None))
    (thenE (forE blocks (\<lambda>b. thenE (on_txn_log (wal_stage_block txn b (copy_txn_frame b))) (retE ())))
    (thenE (on_stable (on_wal_file wal_sync))
    (bindE (on_txn_log (wal_append WAL_COMMIT txn 0 None)) (\<lambda>commit_lsn.
     thenE (on_stable (on_wal_file wal_sync))
    (thenE (forE blocks (\<lambda>b. on_frames (commit_frame b commit_lsn)))
    (upd_ctl (\<lambda>c. c\<lparr>commits := commits c + 1\<rparr>))))))))"

definition do_checkpoint :: "disk device \<Rightarrow> (engine, unit) op" where
  "do_checkpoint dev =
     thenE (with_durable (\<lambda>durable. on_cache (write_back dev durable None)))
    (thenE (on_stable (on_disk (dev_sync dev)))
    (bindE (getE (\<lambda>s. next_lsn (log_of_engine s) - 1)) (\<lambda>last_lsn.
     thenE (upd_ctl (\<lambda>c. c\<lparr>j_sb := (j_sb c)\<lparr>last_checkpoint_lsn := last_lsn\<rparr>\<rparr>))
    (bindE (getE (\<lambda>s. j_sb (ctl s))) (\<lambda>sb.
     thenE (on_stable (on_disk (write_superblock dev sb)))
    (thenE (on_stable (on_disk (dev_sync dev)))
    (thenE (on_stable (on_wal_file (wal_reset (last_lsn + 1))))
    (upd_ctl (\<lambda>c. c\<lparr>checkpoints := checkpoints c + 1\<rparr>)))))))))"

text \<open>What \<^verbatim>\<open>run_commit\<close> does with the mutex released: the commit itself, and a checkpoint if one
  was asked for or the log has grown past the limit. Returns whether it checkpointed.\<close>

definition commit_work :: "disk device \<Rightarrow> u32 list \<Rightarrow> bool \<Rightarrow> (engine, bool) op" where
  "commit_work dev blocks checkpoint_wanted =
     thenE (whenE (blocks \<noteq> []) (write_txn blocks))
    (bindE (getE (\<lambda>s. checkpoint_wanted \<or> wl_end (log_of_engine s) > unat (checkpoint_bytes (ctl s)))) (\<lambda>due.
     if due then thenE (do_checkpoint dev) (retE True) else retE False))"

text \<open>Under the mutex again: the gate opens, or stays closed for good after a failure.\<close>

definition commit_done :: "u64 \<Rightarrow> bool \<Rightarrow> control \<Rightarrow> control" where
  "commit_done covered checkpointed c =
     c\<lparr>committing := False, committed_through := covered,
       checkpoints_done := (if checkpointed then checkpoints_done c + 1 else checkpoints_done c),
       gate := gate c AND NOT CLOSED\<rparr>"

definition commit_failed :: "exn \<Rightarrow> control \<Rightarrow> control" where
  "commit_failed e c = c\<lparr>committing := False, failed := Some e\<rparr>"

definition run_commit :: "disk device \<Rightarrow> (engine, bool) op" where
  "run_commit dev = (\<lambda>s.
     let c = ctl s; g = gate c; c1 = c\<lparr>gate := g OR CLOSED\<rparr> in
     if g AND NOT CLOSED \<noteq> 0
     then (Ret False, s\<lparr>ctl := c1\<lparr>commit_requested := True\<rparr>\<rparr>)
     else
       let c2 = c1\<lparr>committing := True, commit_requested := False, checkpoint_requested := False,
             txn_blocks := [], txn_set := {}, txn_count := 0\<rparr>
       in catchE
            (bindE (commit_work dev (txn_blocks c) (checkpoint_requested c)) (\<lambda>checkpointed.
             thenE kick_if_dirty
            (thenE (upd_ctl (commit_done (ended c) checkpointed))
            (retE True))))
            (\<lambda>e. thenE (upd_ctl (commit_failed e)) (throwE e))
            (s\<lparr>ctl := c2\<rparr>))"

type_synonym turns = "(engine \<Rightarrow> engine) list"

text \<open>One turn of a waiting loop per element of the list. The loop of \<^verbatim>\<open>begin_op_slow\<close>:\<close>

fun begin_op_slow :: "disk device \<Rightarrow> turns \<Rightarrow> (engine, unit) op" where
  "begin_op_slow dev [] = haltE Waits"
| "begin_op_slow dev (wait # turns) =
     thenE rethrow_if_failed (\<lambda>s.
       if committing (ctl s) then begin_op_slow dev turns (wait s)
       else
         let c = ctl s; g = gate c;
             full = (g AND CLOSED = 0 \<and> \<not> fits c (g AND NOT CLOSED));
             c1 = (if full then c\<lparr>commit_requested := True, gate := g OR CLOSED\<rparr> else c);
             s1 = s\<lparr>ctl := c1\<rparr>
         in if gate c1 AND CLOSED = 0
            then (Ret (), s1\<lparr>ctl := c1\<lparr>gate := gate c1 + 1\<rparr>\<rparr>)
            else bindE (run_commit dev) (\<lambda>done s2.
              begin_op_slow dev turns (if done then s2 else wait s2)) s1)"

definition journal_begin_op :: "disk device \<Rightarrow> turns \<Rightarrow> (engine, unit) op" where
  "journal_begin_op dev turns = (\<lambda>s.
     let c = ctl s; g = gate c in
     if \<not> enabled c then (Ret (), s)
     else if g AND CLOSED = 0 \<and> fits c g then (Ret (), s\<lparr>ctl := c\<lparr>gate := g + 1\<rparr>\<rparr>)
     else begin_op_slow dev turns s)"

definition end_op_slow :: "disk device \<Rightarrow> (engine, unit) op" where
  "end_op_slow dev = (\<lambda>s.
     let c = ctl s in
     if failed c \<noteq> None \<or> committing c then (Ret (), s)
     else if gate c AND NOT CLOSED \<noteq> 0 then (Ret (), s)
     else if commit_requested c \<or> checkpoint_requested c \<or> of_nat (card (txn_set c)) > max_txn_blocks c
     then thenE (run_commit dev) (retE ()) s
     else (Ret (), s))"

definition journal_end_op :: "disk device \<Rightarrow> (engine, unit) op" where
  "journal_end_op dev = (\<lambda>s.
     let c = ctl s; g = gate c;
         s1 = s\<lparr>ctl := c\<lparr>ended := ended c + 1, gate := g - 1\<rparr>\<rparr> in
     if \<not> enabled c then (Ret (), s)
     else if g AND NOT CLOSED \<noteq> 1 then (Ret (), s1)
     else if g AND CLOSED = 0 \<and> txn_count c \<le> max_txn_blocks c then (Ret (), s1)
     else end_op_slow dev s1)"

fun commit_loop :: "disk device \<Rightarrow> u64 \<Rightarrow> turns \<Rightarrow> (engine, unit) op" where
  "commit_loop dev target [] = (\<lambda>s.
     if committed_through (ctl s) < target then (Halted Waits, s) else (Ret (), s))"
| "commit_loop dev target (wait # turns) = (\<lambda>s.
     if committed_through (ctl s) < target then
       thenE rethrow_if_failed (\<lambda>s.
         if committing (ctl s) then commit_loop dev target turns (wait s)
         else bindE (run_commit dev) (\<lambda>done s.
           commit_loop dev target turns (if done then s else wait s)) s) s
     else (Ret (), s))"

definition journal_commit :: "disk device \<Rightarrow> turns \<Rightarrow> (engine, unit) op" where
  "journal_commit dev turns = (\<lambda>s.
     if \<not> enabled (ctl s)
     then thenE (with_durable (\<lambda>durable. on_cache (write_back dev durable None)))
            (on_stable (on_disk (dev_sync dev))) s
     else commit_loop dev (ended (ctl s)) turns s)"

fun checkpoint_loop :: "disk device \<Rightarrow> u64 \<Rightarrow> turns \<Rightarrow> (engine, unit) op" where
  "checkpoint_loop dev target [] = (\<lambda>s.
     if checkpoints_done (ctl s) < target then (Halted Waits, s) else (Ret (), s))"
| "checkpoint_loop dev target (wait # turns) = (\<lambda>s.
     if checkpoints_done (ctl s) < target then
       thenE rethrow_if_failed (\<lambda>s.
         if committing (ctl s) then checkpoint_loop dev target turns (wait s)
         else thenE (upd_ctl (\<lambda>c. c\<lparr>checkpoint_requested := True\<rparr>))
           (bindE (run_commit dev) (\<lambda>done s.
              checkpoint_loop dev target turns (if done then s else wait s))) s) s
     else (Ret (), s))"

definition journal_checkpoint :: "disk device \<Rightarrow> turns \<Rightarrow> (engine, unit) op" where
  "journal_checkpoint dev turns = (\<lambda>s.
     if \<not> enabled (ctl s) then journal_commit dev turns s
     else checkpoint_loop dev (checkpoints_done (ctl s) + 1) turns s)"

definition commit_if_older :: "disk device \<Rightarrow> int \<Rightarrow> (engine, unit) op" where
  "commit_if_older dev age = (\<lambda>s.
     let c = ctl s in
     if \<not> enabled c then (Ret (), s)
     else if failed c \<noteq> None \<or> committing c \<or> txn_set c = {} \<or> e_clock s - txn_started c < age
     then (Ret (), s)
     else thenE (run_commit dev) (retE ()) s)"

definition journal_close :: "disk device \<Rightarrow> turns \<Rightarrow> (engine, unit) op" where
  "journal_close dev turns =
     thenE (journal_checkpoint dev turns)
    (thenE (upd_ctl (\<lambda>c. c\<lparr>j_sb := (j_sb c)\<lparr>clean_unmount := 1\<rparr>\<rparr>))
    (bindE (getE (\<lambda>s. j_sb (ctl s))) (\<lambda>sb.
     thenE (on_stable (on_disk (write_superblock dev sb)))
     (on_stable (on_disk (dev_sync dev))))))"

definition journal_reset_stats :: "(engine, unit) op" where
  "journal_reset_stats = upd_ctl (\<lambda>c. c\<lparr>commits := 0, checkpoints := 0\<rparr>)"

text \<open>
  The journal as one thread sees it. With no other thread running an operation nobody needs to
  be waited for: one turn to commit and one to get through are enough.
\<close>

definition alone :: turns where
  "alone = [\<lambda>s. s, \<lambda>s. s]"

definition engine_journal :: "disk device \<Rightarrow> engine journal" where
  "engine_journal dev = \<lparr>begin_op = journal_begin_op dev alone, end_op = journal_end_op dev,
     jread = journal_read dev, jwrite = journal_write dev, jcommit = journal_commit dev alone\<rparr>"

section \<open>Mounting and closing\<close>

definition fresh_disk :: "world \<Rightarrow> disk" where
  "fresh_disk w = \<lparr>inner = w, reads = 0, writes = 0\<rparr>"

definition no_recovery :: recovery_info where
  "no_recovery = \<lparr>ran = False, txns_replayed = 0, blocks_replayed = 0, txns_discarded = 0\<rparr>"

text \<open>The body of \<^verbatim>\<open>Impl\<close>'s constructor, with the disk and the log open. The flusher's thread is
  started last.\<close>

definition storage_start :: "storage_options \<Rightarrow> disk device \<Rightarrow> superblock \<Rightarrow> (stable, engine) op" where
  "storage_start opts dev sb =
     bindE (if clean_unmount sb = 0 then recover dev sb
            else thenE (on_wal_file (wal_reset (last_checkpoint_lsn sb + 1))) (retE (no_recovery, sb)))
    (\<lambda>(info, sb).
     let sb = sb\<lparr>clean_unmount := 0\<rparr> in
     thenE (on_disk (write_superblock dev sb))
    (thenE (on_disk (dev_sync dev))
    (let c = cache_new (so_cache_frames opts) in
     thenE (on_disk inst_reset_counts)
    (thenE (on_wal_file wal_reset_stats)
    (getE (\<lambda>st. \<lparr>ctl = journal_new c sb opts, e_cache = c, e_stable = st,
       e_flusher = (if so_flusher opts then Some (flusher_start flusher_new) else None), e_clock = 0,
       s_sb = sb, s_recovery = info, s_closed = False\<rparr>))))))"

text \<open>The disk is opened and its superblock read before the log is opened. The engine that is
  returned holds the world from then on.\<close>

definition storage_open :: "bytes \<Rightarrow> bytes \<Rightarrow> storage_options \<Rightarrow> (world, pread_dev \<times> engine) op" where
  "storage_open disk_path wal_path opts =
     bindE (pd_open disk_path) (\<lambda>raw w.
       let dev = disk_of raw (so_fsync opts) in
       case read_superblock dev (fresh_disk w) of
         (Raise e, d) \<Rightarrow> (Raise e, inner d)
       | (Halted h, d) \<Rightarrow> (Halted h, inner d)
       | (Ret sb, d) \<Rightarrow> (case wal_open wal_path (so_fsync opts) (inner d) of
           (Raise e, w) \<Rightarrow> (Raise e, w)
         | (Halted h, w) \<Rightarrow> (Halted h, w)
         | (Ret l, w) \<Rightarrow> (case storage_start opts dev sb (l, d\<lparr>inner := w\<rparr>) of
             (Raise e, st) \<Rightarrow> (Raise e, inner (snd st))
           | (Halted h, st) \<Rightarrow> (Halted h, inner (snd st))
           | (Ret eng, st) \<Rightarrow> (Ret (raw, eng), inner (snd st)))))"

definition flush_tick :: "disk device \<Rightarrow> int \<Rightarrow> (engine, unit) op" where
  "flush_tick dev interval =
     thenE (commit_if_older dev interval)
    (bindE (getE (\<lambda>s. (dirty_count (e_cache s), capacity (e_cache s) div 4))) (\<lambda>(nd, allowed).
     if nd > ucast allowed
     then thenE (with_durable (\<lambda>durable. on_cache (write_back dev durable (Some (unat (nd - ucast allowed)))))) (retE ())
     else retE ()))"

definition storage_close :: "disk device \<Rightarrow> turns \<Rightarrow> (engine, unit) op" where
  "storage_close dev turns = (\<lambda>s.
     if s_closed s then (Ret (), s)
     else journal_close dev turns
            (s\<lparr>s_closed := True, e_flusher := map_option flusher_stop (e_flusher s)\<rparr>))"

text \<open>\<^verbatim>\<open>~Storage\<close> swallows the errors of the close.\<close>

definition storage_destroy :: "disk device \<Rightarrow> turns \<Rightarrow> (engine, unit) op" where
  "storage_destroy dev turns = catchE (storage_close dev turns) (\<lambda>_. retE ())"

definition storage_checkpoint :: "disk device \<Rightarrow> turns \<Rightarrow> (engine, unit) op" where
  "storage_checkpoint dev turns = journal_checkpoint dev turns"

definition storage_stats_of :: "engine \<Rightarrow> storage_stats" where
  "storage_stats_of s = \<lparr>ss_disk_reads = reads (snd (e_stable s)), ss_disk_writes = writes (snd (e_stable s)),
     ss_cache_hits = hits (e_cache s), ss_cache_misses = misses (e_cache s),
     ss_evictions = evictions (e_cache s), ss_log_bytes = of_nat (bytes_appended (log_of_engine s)),
     ss_commits = commits (ctl s), ss_checkpoints = checkpoints (ctl s)\<rparr>"

definition storage_reset_stats :: "(engine, unit) op" where
  "storage_reset_stats =
     thenE (on_stable (on_disk inst_reset_counts))
    (thenE (on_frames cache_reset_stats)
    (thenE (on_stable (on_wal_file wal_reset_stats))
     journal_reset_stats))"

end
