(* ===== verification/Engine.thy ===== *)
theory Engine
  imports Storage Cache_Coherence
begin

text \<open>
  The running storage engine, with journalling on. \<^verbatim>\<open>engine_ok\<close> is the invariant of its state:
  the cache is coherent over the disk with the committed contents \<^term>\<open>G\<close>, the journal's record
  of the transaction is exactly the frames marked as in it, and no frame is newer than the
  durable part of the log. Through the journal every block then reads as what was last written
  to it: this is the contract \<^verbatim>\<open>journal_store\<close> the layers above are verified against.
\<close>

definition disk_part :: "engine \<Rightarrow> disk" where
  "disk_part s = snd (e_stable s)"

definition engine_view :: "pread_dev \<Rightarrow> engine \<Rightarrow> u32 \<Rightarrow> block" where
  "engine_view d s = vw (e_cache s) (disk_blocks d (disk_part s))"

definition txn_ok :: "control \<Rightarrow> cache \<Rightarrow> bool" where
  "txn_ok j c \<longleftrightarrow> txn_set j = txns c \<and> set (txn_blocks j) = txns c \<and> distinct (txn_blocks j) \<and>
     txn_count j = of_nat (card (txns c))"

definition cache_ok :: "pread_dev \<Rightarrow> (u32 \<Rightarrow> block) \<Rightarrow> u32 set \<Rightarrow> cache \<Rightarrow> disk \<Rightarrow> bool" where
  "cache_ok d G W c ds \<longleftrightarrow> cinv (pd_count d) c \<and> disk_live d ds \<and> coherent G W (pd_count d) c (disk_blocks d ds)"

definition engine_ok :: "pread_dev \<Rightarrow> (u32 \<Rightarrow> block) \<Rightarrow> u32 set \<Rightarrow> engine \<Rightarrow> bool" where
  "engine_ok d G W s \<longleftrightarrow> enabled (ctl s) \<and> j_total_blocks (ctl s) = pd_count d \<and>
     cache_ok d G W (e_cache s) (disk_part s) \<and> txn_ok (ctl s) (e_cache s) \<and>
     lsn_below (durable_lsn (log_of_engine s)) (e_cache s)"

text \<open>Crash injection is off: no write of this process ends it.\<close>

definition unarmed :: "engine \<Rightarrow> bool" where
  "unarmed s \<longleftrightarrow> \<not> disk_doomed (disk_part s)"

definition engine_inv :: "pread_dev \<Rightarrow> engine \<Rightarrow> bool" where
  "engine_inv d s \<longleftrightarrow> unarmed s \<and> (\<exists>G W. engine_ok d G W s)"

lemma disk_of_count [simp]: "dev_count (disk_of d sy) = pd_count d"
  by (simp add: disk_of_def instrumented_device_def pread_device_def)

lemma cache_ok_image: "cache_ok d G W c ds = image.ok d sy G W c ds"
  by (simp add: cache_ok_def image.ok_def)

lemma inside_check:
  assumes "engine_ok d G W s" and "0 < b" and "b < pd_count d"
  shows "check_block b s = (Ret (), s)"
  using assms by (auto simp: check_block_def engine_ok_def)

lemma outside_check:
  assumes "engine_ok d G W s" and "b = 0 \<or> \<not> b < pd_count d"
  shows "check_block b s =
    (Raise (OutOfRange (''journal: block '' @ to_string (unat b) @ '' is not a block it may touch'')), s)"
  using assms by (auto simp: check_block_def engine_ok_def not_less)

text \<open>What an operation of the cache does to the engine.\<close>

lemma on_cache_run:
  assumes "m (e_cache s, disk_part s) = (r, (c', ds'))"
  shows "with_durable (\<lambda>_. on_cache m) s = (r, s\<lparr>e_cache := c', e_stable := (fst (e_stable s), ds')\<rparr>)"
  using assms by (simp add: with_durable_def on_cache_def zoomE_def disk_part_def)

text \<open>Nothing but the journal's record of the transaction differs.\<close>

definition same_ctl :: "control \<Rightarrow> control \<Rightarrow> bool" where
  "same_ctl j j' \<longleftrightarrow> j' = j\<lparr>txn_count := txn_count j', txn_blocks := txn_blocks j', txn_set := txn_set j',
     txn_started := txn_started j'\<rparr>"

lemma same_ctl_refl [simp]: "same_ctl j j"
  by (simp add: same_ctl_def)

lemma same_ctlD:
  assumes "same_ctl j j'"
  shows "enabled j' = enabled j" "j_total_blocks j' = j_total_blocks j" "j_sb j' = j_sb j" "gate j' = gate j"
    "committing j' = committing j" "failed j' = failed j" "ended j' = ended j" "committed_through j' = committed_through j"
    "max_txn_blocks j' = max_txn_blocks j" "commit_requested j' = commit_requested j"
    "checkpoint_requested j' = checkpoint_requested j" "checkpoint_bytes j' = checkpoint_bytes j"
proof -
  from assms obtain a b c e where "j' = j\<lparr>txn_count := a, txn_blocks := b, txn_set := c, txn_started := e\<rparr>"
    unfolding same_ctl_def by blast
  then show "enabled j' = enabled j" "j_total_blocks j' = j_total_blocks j" "j_sb j' = j_sb j" "gate j' = gate j"
    "committing j' = committing j" "failed j' = failed j" "ended j' = ended j" "committed_through j' = committed_through j"
    "max_txn_blocks j' = max_txn_blocks j" "commit_requested j' = commit_requested j"
    "checkpoint_requested j' = checkpoint_requested j" "checkpoint_bytes j' = checkpoint_bytes j" by simp_all
qed

text \<open>Between two states of the engine the disk has changed in blocks of \<^term>\<open>W\<close> only, and the log
  not at all.\<close>

definition stays :: "pread_dev \<Rightarrow> u32 set \<Rightarrow> engine \<Rightarrow> engine \<Rightarrow> bool" where
  "stays d W s s' \<longleftrightarrow> disk_live d (disk_part s') \<and> disk_beside d (disk_part s) (disk_part s') \<and>
     only_in W (disk_blocks d (disk_part s)) (disk_blocks d (disk_part s')) \<and>
     log_of_engine s' = log_of_engine s \<and> same_ctl (ctl s) (ctl s')"

lemma stays_image:
  "image.moved d W (disk_part s) ds' \<Longrightarrow> stays d W s (s\<lparr>e_cache := c', e_stable := (fst (e_stable s), ds')\<rparr>)"
  by (simp add: stays_def image.moved_def disk_part_def log_of_engine_def)

lemma stays_unarmed: "stays d W s s' \<Longrightarrow> unarmed s' = unarmed s"
  using image.beside_doomed by (auto simp: stays_def unarmed_def)

lemma journal_read_ok:
  assumes "engine_ok d G W s" and "0 < b" and "b < pd_count d"
  shows "\<exists>r s'. journal_read (disk_of d sy) b s = (r, s') \<and> stays d W s s' \<and>
    (r = Killed \<and> \<not> unarmed s \<or>
     r = Ret (engine_view d s b) \<and> engine_ok d G W s' \<and> engine_view d s' = engine_view d s)"
proof -
  have c: "image.ok d sy G W (e_cache s) (disk_part s)" using assms(1) by (simp add: engine_ok_def cache_ok_image [of _ _ _ _ _ sy])
  from image.cache_read_ok [OF c assms(2), of "durable_lsn (log_of_engine s)"] assms(3) obtain r c' ds' where
    r: "cache_read (disk_of d sy) (durable_lsn (log_of_engine s)) b (e_cache s, disk_part s) = (r, (c', ds'))"
    "image.moved d W (disk_part s) ds'"
    "r = Killed \<and> disk_doomed (disk_part s) \<or>
     r = Ret (engine_view d s b) \<and> image.undisturbed d sy G W (e_cache s) (disk_part s) c' ds'"
    by (auto simp: engine_view_def)
  define s' where "s' = s\<lparr>e_cache := c', e_stable := (fst (e_stable s), ds')\<rparr>"
  have run: "journal_read (disk_of d sy) b s = (r, s')"
    using r(1) inside_check [OF assms(1-3)]
    by (simp add: journal_read_def thenE_def bindE_def with_durable_def getE_def on_cache_def zoomE_def disk_part_def s'_def)
  moreover have "engine_ok d G W s' \<and> engine_view d s' = engine_view d s"
    if "image.undisturbed d sy G W (e_cache s) (disk_part s) c' ds'"
    using that assms(1) by (simp add: image.undisturbed_def engine_ok_def cache_ok_image [of _ _ _ _ _ sy] s'_def disk_part_def
        txn_ok_def log_of_engine_def engine_view_def)
  ultimately show ?thesis using r(3) stays_image [OF r(2)] by (auto simp: s'_def unarmed_def)
qed

lemma add_to_txn_ok:
  assumes "txn_ok (ctl s) c" and "txns c' = insert b (txns c)"
  shows "\<exists>j. whenE (b \<notin> txns c) (add_to_txn b) s = (Ret (), s\<lparr>ctl := j\<rparr>) \<and> txn_ok j c' \<and> same_ctl (ctl s) j"
proof (cases "b \<in> txns c")
  case True
  with assms show ?thesis by (intro exI [of _ "ctl s"]) (simp add: txn_ok_def insert_absorb)
next
  case False
  let ?j = "(ctl s)\<lparr>txn_set := insert b (txns c),
     txn_started := (if txn_blocks (ctl s) = [] then e_clock s else txn_started (ctl s)),
     txn_blocks := txn_blocks (ctl s) @ [b], txn_count := of_nat (card (insert b (txns c)))\<rparr>"
  show ?thesis using False assms by (intro exI [of _ ?j]) (simp add: txn_ok_def add_to_txn_def Let_def same_ctl_def)
qed

lemma journal_write_ok:
  assumes "engine_ok d G W s" and "0 < b" and "b < pd_count d"
    and "fn (if fresh then zero_block else engine_view d s b) = (Ret (), x)" and "is_block x"
  shows "\<exists>r s'. journal_write (disk_of d sy) b fresh fn s = (r, s') \<and> stays d W s s' \<and>
    (r = Killed \<and> \<not> unarmed s \<or>
     r = Ret () \<and> engine_ok d G W s' \<and> engine_view d s' = (engine_view d s)(b := x))"
proof -
  have c: "image.ok d sy G W (e_cache s) (disk_part s)" and tx: "txn_ok (ctl s) (e_cache s)" and en: "enabled (ctl s)"
    using assms(1) by (simp_all add: engine_ok_def cache_ok_image [of _ _ _ _ _ sy])
  have fn: "fn (if fresh then zero_block else vw (e_cache s) (disk_blocks d (disk_part s)) b) = (Ret (), x)"
    using assms(4) unfolding engine_view_def .
  from image.cache_modify_ok [where fn = fn and fresh = fresh and x = x and
      durable = "durable_lsn (log_of_engine s)", OF c assms(2) _ fn assms(5)] assms(3) obtain r c' ds' where
    r: "cache_modify (disk_of d sy) (durable_lsn (log_of_engine s)) b fresh True fn (e_cache s, disk_part s) = (r, (c', ds'))"
    "image.moved d W (disk_part s) ds'"
    "r = Killed \<and> disk_doomed (disk_part s) \<or>
     r = Ret (b \<notin> txns (e_cache s), None) \<and> image.modified d sy G W b x (e_cache s) (disk_part s) c' ds'" by auto
  define s1 where "s1 = s\<lparr>e_cache := c', e_stable := (fst (e_stable s), ds')\<rparr>"
  have st: "stays d W s s1" unfolding s1_def by (rule stays_image [OF r(2)])
  have oc: "on_cache (cache_modify (disk_of d sy) (durable_lsn (log_of_engine s)) b fresh True fn) s = (r, s1)"
    using r(1) by (simp add: on_cache_def zoomE_def disk_part_def s1_def)
  have run: "journal_write (disk_of d sy) b fresh fn s =
      bindE (\<lambda>_. (r, s1)) (\<lambda>(joined, err). thenE (whenE joined (add_to_txn b)) (case err of Some e \<Rightarrow> throwE e | None \<Rightarrow> retE ())) s"
    using oc inside_check [OF assms(1-3)] en
    by (simp add: journal_write_def thenE_def bindE_def with_durable_def getE_def)
  from r(3) show ?thesis
  proof (elim disjE conjE)
    assume "r = Killed" "disk_doomed (disk_part s)"
    with run st show ?thesis by (auto simp: bindE_def unarmed_def)
  next
    assume ret: "r = Ret (b \<notin> txns (e_cache s), None)" and mo: "image.modified d sy G W b x (e_cache s) (disk_part s) c' ds'"
    have "txns c' = insert b (txns (e_cache s))" using mo by (simp add: image.modified_def)
    then obtain j where j: "whenE (b \<notin> txns (e_cache s)) (add_to_txn b) s1 = (Ret (), s1\<lparr>ctl := j\<rparr>)" "txn_ok j c'" "same_ctl (ctl s) j"
      using add_to_txn_ok [of s1 "e_cache s" c' b] tx en by (auto simp: s1_def)
    have "journal_write (disk_of d sy) b fresh fn s = (Ret (), s1\<lparr>ctl := j\<rparr>)"
      unfolding run using j(1) by (simp add: ret bindE_def thenE_def)
    moreover have "stays d W s (s1\<lparr>ctl := j\<rparr>)" using st j(3) by (simp add: stays_def disk_part_def log_of_engine_def)
    moreover have "engine_ok d G W (s1\<lparr>ctl := j\<rparr>)" "engine_view d (s1\<lparr>ctl := j\<rparr>) = (engine_view d s)(b := x)"
      using mo assms(1) j(2) same_ctlD(1,2) [OF j(3)] by (simp_all add: image.modified_def engine_ok_def cache_ok_image [of _ _ _ _ _ sy]
          s1_def disk_part_def log_of_engine_def engine_view_def)
    ultimately show ?thesis by blast
  qed
qed

text \<open>The engine keeps the contract of the journal.\<close>

lemma engine_store: "journal_store (engine_journal (disk_of d sy)) (engine_inv d) (engine_view d) (pd_count d)"
proof
  fix s b assume s: "engine_inv d s" and b: "0 < b" "b < pd_count d"
  then obtain G W where un: "unarmed s" and e: "engine_ok d G W s" by (auto simp: engine_inv_def)
  show "is_block (engine_view d s b)"
  proof -
    have ci: "cinv (pd_count d) (e_cache s)" "disk_live d (disk_part s)" using e by (simp_all add: engine_ok_def cache_ok_def)
    show ?thesis using cview_range [OF ci(1)] image.len [OF ci(2)] b(2)
      by (auto simp: engine_view_def vw_def split: option.split)
  qed
  show "\<exists>s'. jread (engine_journal (disk_of d sy)) b s = (Ret (engine_view d s b), s') \<and> engine_inv d s' \<and>
      engine_view d s' = engine_view d s"
    using journal_read_ok [OF e b, of sy] un stays_unarmed by (fastforce simp: engine_journal_def engine_inv_def)
next
  fix s b fresh x and fn :: "(block, unit) op"
  assume s: "engine_inv d s" and b: "0 < b" "b < pd_count d"
    and fn: "fn (if fresh then zero_block else engine_view d s b) = (Ret (), x)" "is_block x"
  then obtain G W where un: "unarmed s" and e: "engine_ok d G W s" by (auto simp: engine_inv_def)
  show "\<exists>s'. jwrite (engine_journal (disk_of d sy)) b fresh fn s = (Ret (), s') \<and> engine_inv d s' \<and>
      engine_view d s' = (engine_view d s)(b := x)"
    using journal_write_ok [where fn = fn and fresh = fresh and x = x, OF e b fn, of sy] un stays_unarmed by (fastforce simp: engine_journal_def engine_inv_def)
next
  fix s b assume s: "engine_inv d s" and b: "b = 0 \<or> \<not> b < pd_count d"
  then obtain G W where e: "engine_ok d G W s" by (auto simp: engine_inv_def)
  note out = outside_check [OF e b]
  show "\<exists>e. jread (engine_journal (disk_of d sy)) b s = (Raise e, s)"
    using out by (auto simp: engine_journal_def journal_read_def thenE_def bindE_def)
  show "\<exists>e. jwrite (engine_journal (disk_of d sy)) b fresh fn s = (Raise e, s)" for fresh fn
    using out by (auto simp: engine_journal_def journal_write_def thenE_def bindE_def)
qed

end
