(* ===== verification/Commit.thy ===== *)
theory Commit
  imports Engine Cache_Writeback
begin

text \<open>
  Committing and checkpointing, with the process killed at any write. \<^verbatim>\<open>logged\<close> is the
  invariant of the engine beside its log: the log file holds whole committed transactions, and
  replaying them over the disk gives the committed contents \<^term>\<open>G\<close>. A commit that is killed
  leaves files from which the next mount recovers the old contents, one that returns leaves
  files from which it recovers what the engine showed; a checkpoint changes nothing of what a
  mount recovers, wherever it is killed.
\<close>

section \<open>The log beside the cache\<close>

definition wal_of :: "engine \<Rightarrow> wal_state" where
  "wal_of s = (fst (e_stable s), inner (disk_part s))"

definition upd_log :: "wal_state \<Rightarrow> engine \<Rightarrow> engine" where
  "upd_log ws s = s\<lparr>e_stable := (fst ws, (disk_part s)\<lparr>inner := snd ws\<rparr>)\<rparr>"

lemma upd_log_simps [simp]:
  "wal_of (upd_log ws s) = ws" "upd_log ws' (upd_log ws s) = upd_log ws' s" "e_cache (upd_log ws s) = e_cache s"
  "ctl (upd_log ws s) = ctl s" "log_of_engine (upd_log ws s) = fst ws" "inner (disk_part (upd_log ws s)) = snd ws"
  "fst (e_stable (upd_log ws s)) = fst ws" "inner (snd (e_stable (upd_log ws s))) = snd ws"
  by (simp_all add: wal_of_def upd_log_def disk_part_def log_of_engine_def)

lemma upd_log_self [simp]: "upd_log (wal_of s) s = s"
  by (simp add: wal_of_def upd_log_def disk_part_def)

lemma log_of_wal: "log_of_engine s = fst (wal_of s)" "inner (snd (e_stable s)) = snd (wal_of s)"
  by (simp_all add: log_of_engine_def wal_of_def disk_part_def)

lemma on_txn_log_run:
  assumes "m (e_cache s, wal_of s) = (r, (e_cache s, ws))"
  shows "on_txn_log m s = (r, upd_log ws s)"
  using assms by (cases ws) (simp add: on_txn_log_def zoomE_def wal_of_def disk_part_def upd_log_def)

lemma on_wal_engine_run:
  assumes "m (wal_of s) = (r, ws)"
  shows "on_stable (on_wal_file m) s = (r, upd_log ws s)"
  using assms by (cases ws; cases "e_stable s")
    (simp add: on_stable_def on_wal_file_def zoomE_def wal_of_def disk_part_def upd_log_def)

text \<open>The block records of a transaction.\<close>

definition block_items :: "u64 \<Rightarrow> (u32 \<Rightarrow> block) \<Rightarrow> u32 list \<Rightarrow> log_item list" where
  "block_items txn v bs = map (\<lambda>b. (WAL_BLOCK, txn, b, Some (v b))) bs"

lemma stage_blocks_ok:
  assumes "wal_ok (wal_of s)" and "cinv n (e_cache s)" and "set bs \<subseteq> txns (e_cache s)"
    and "v = vw (e_cache s) m"
  shows "\<exists>r ws. forE bs (\<lambda>b. thenE (on_txn_log (wal_stage_block txn b (copy_txn_frame b))) (retE ())) s = (r, upd_log ws s) \<and>
    log_grows (wal_of s) (log_bytes (made_records (next_lsn (fst (wal_of s))) (block_items txn v bs))) (length bs) r ws \<and>
    durable_lsn (fst ws) = durable_lsn (fst (wal_of s))"
  using assms
proof (induction bs arbitrary: s)
  case Nil
  then show ?case
    by (intro exI [of _ "Ret ()"] exI [of _ "wal_of s"]) (simp add: block_items_def log_grows_refl)
next
  case (Cons b bs)
  let ?c = "e_cache s" and ?l = "next_lsn (fst (wal_of s))"
  let ?rec = "made_record WAL_BLOCK txn b (Some (v b)) ?l"
  have "is_block (v b)"
  proof -
    from txns_frame [OF Cons.prems(2), of b m] Cons.prems(3) obtain f where
      "smap (shards ?c ! shard_for b) b = Some f" "f_data (the_frame (shard_for b) f ?c) = vw ?c m b" by auto
    with cview_frame(5) [OF Cons.prems(2)] Cons.prems(4) show ?thesis by metis
  qed
  moreover have "copy_txn_frame b ?c = (Ret (v b), ?c)"
    using copy_txn_frame_ok [OF Cons.prems(2), of b m] Cons.prems(3,4) by simp
  ultimately have "fills (Some (copy_txn_frame b)) ?c (Some (v b)) ?c" by (simp add: fills_def)
  from wal_stage_record_grows [OF Cons.prems(1) this, of WAL_BLOCK txn b] obtain r e'' ws where
    st: "wal_stage_record WAL_BLOCK txn b (Some (copy_txn_frame b)) (?c, wal_of s) = (r, (e'', ws))"
    "log_grows (wal_of s) (encode_record ?rec) 1 r ws" "durable_lsn (fst ws) = durable_lsn (fst (wal_of s))"
    "r = Ret ?l \<and> e'' = ?c \<or> r = Killed \<and> e'' = ?c" by auto
  have e: "e'' = ?c" using st(4) by blast
  have run: "on_txn_log (wal_stage_block txn b (copy_txn_frame b)) s = (r, upd_log ws s)"
    by (rule on_txn_log_run) (use st(1) e in \<open>simp add: wal_stage_block_def\<close>)
  let ?items = "made_records (?l + 1) (block_items txn v bs)"
  have all: "log_bytes (made_records ?l (block_items txn v (b # bs))) = encode_record ?rec @ log_bytes ?items"
    by (simp add: block_items_def)
  show ?case
  proof (cases "r = Killed")
    case True
    have "log_grows (wal_of s) (encode_record ?rec @ log_bytes ?items) (length (b # bs)) (Killed :: unit outcome) ws"
      using st(2) unfolding True by (rule log_grows_killed_more)
    moreover have "forE (b # bs) (\<lambda>b. thenE (on_txn_log (wal_stage_block txn b (copy_txn_frame b))) (retE ())) s = (Killed, upd_log ws s)"
      using run True by (simp add: thenE_def bindE_def)
    ultimately show ?thesis unfolding all using st(3) by blast
  next
    case False
    then have r: "r = Ret ?l" using st(4) by blast
    have g: "log_grows (wal_of s) (encode_record ?rec) 1 (Ret ?l) ws" using st(2) r by simp
    then have ok: "wal_ok ws" "next_lsn (fst ws) = ?l + 1" by (simp_all add: log_grows_def)
    have sub: "set bs \<subseteq> txns (e_cache s)" using Cons.prems(3) by simp
    from Cons.IH [of "upd_log ws s", unfolded upd_log_simps, OF ok(1) Cons.prems(2) sub Cons.prems(4), unfolded ok(2)] obtain r2 ws2 where
      ih: "forE bs (\<lambda>b. thenE (on_txn_log (wal_stage_block txn b (copy_txn_frame b))) (retE ())) (upd_log ws s) = (r2, upd_log ws2 s)"
      "log_grows ws (log_bytes ?items) (length bs) r2 ws2" "durable_lsn (fst ws2) = durable_lsn (fst ws)" by blast
    have "log_grows (wal_of s) (encode_record ?rec @ log_bytes ?items) (length (b # bs)) r2 ws2"
      using log_grows_trans [OF g ih(2)] by simp
    moreover have "forE (b # bs) (\<lambda>b. thenE (on_txn_log (wal_stage_block txn b (copy_txn_frame b))) (retE ())) s = (r2, upd_log ws2 s)"
      using run r ih(1) by (simp add: thenE_def bindE_def)
    moreover have "durable_lsn (fst ws2) = durable_lsn (fst (wal_of s))" using st(3) ih(3) by simp
    ultimately show ?thesis unfolding all by blast
  qed
qed

text \<open>
  \<^term>\<open>grows m s a n Q\<close>: run from \<^term>\<open>s\<close>, the operation \<^term>\<open>m\<close> changes the log only, which
  grows by the bytes \<^term>\<open>a\<close> and \<^term>\<open>n\<close> sequence numbers, and if it returns then \<^term>\<open>Q\<close>.
\<close>

definition grows :: "(engine, 'a) op \<Rightarrow> engine \<Rightarrow> bytes \<Rightarrow> nat \<Rightarrow> ('a \<Rightarrow> wal_state \<Rightarrow> bool) \<Rightarrow> bool" where
  "grows m s a n Q \<longleftrightarrow> (\<exists>r ws. m s = (r, upd_log ws s) \<and> log_grows (wal_of s) a n r ws \<and> (\<forall>x. r = Ret x \<longrightarrow> Q x ws))"

lemma growsI:
  "m s = (r, upd_log ws s) \<Longrightarrow> log_grows (wal_of s) a n r ws \<Longrightarrow> (\<And>x. r = Ret x \<Longrightarrow> Q x ws) \<Longrightarrow> grows m s a n Q"
  unfolding grows_def by blast

lemma grows_bind:
  assumes "grows m s a n Q"
    and "\<And>x ws. Q x ws \<Longrightarrow> log_grows (wal_of s) a n (Ret x) ws \<Longrightarrow> grows (f x) (upd_log ws s) b k R"
  shows "grows (bindE m f) s (a @ b) (n + k) R"
proof -
  from assms(1) obtain r ws where m: "m s = (r, upd_log ws s)" "log_grows (wal_of s) a n r ws" "\<forall>x. r = Ret x \<longrightarrow> Q x ws"
    unfolding grows_def by blast
  show ?thesis
  proof (cases r)
    case (Ret x)
    have "grows (f x) (upd_log ws s) b k R" using assms(2) [of x ws] m(2,3) Ret by simp
    then obtain r2 ws2 where
      f: "f x (upd_log ws s) = (r2, upd_log ws2 s)" "log_grows ws b k r2 ws2" "\<forall>x. r2 = Ret x \<longrightarrow> R x ws2"
      unfolding grows_def upd_log_simps by blast
    show ?thesis
      by (rule growsI [OF _ log_grows_trans [OF m(2) [unfolded Ret] f(2)]]) (use m(1) Ret f in \<open>simp_all add: bindE_def\<close>)
  next
    case (Raise e)
    with m(2) show ?thesis by (simp add: log_grows_def)
  next
    case (Halted h)
    with m(2) have Killed: "r = Killed" by (simp add: log_grows_def)
    show ?thesis
      by (rule growsI [where r = Killed and ws = ws]) (use m(1) Killed log_grows_killed_more [OF m(2) [unfolded Killed]] in \<open>simp_all add: bindE_def\<close>)
  qed
qed

lemma grows_then:
  assumes "grows m s a n Q"
    and "\<And>x ws. Q x ws \<Longrightarrow> log_grows (wal_of s) a n (Ret x) ws \<Longrightarrow> grows m' (upd_log ws s) b k R"
  shows "grows (thenE m m') s (a @ b) (n + k) R"
  unfolding thenE_def by (rule grows_bind [OF assms])

lemma grows_ret: "wal_ok (wal_of s) \<Longrightarrow> Q x (wal_of s) \<Longrightarrow> grows (retE x) s [] 0 Q"
  by (rule growsI [where r = "Ret x" and ws = "wal_of s"]) (simp_all add: log_grows_refl)

lemma grows_mark:
  assumes "wal_ok (wal_of s)" and "typ = WAL_BEGIN \<or> typ = WAL_COMMIT"
  shows "grows (on_txn_log (wal_stage typ txn 0 None)) s (encode_record (made_record typ txn 0 None (next_lsn (fst (wal_of s))))) 1
      (\<lambda>_ _. True)"
    and "grows (on_txn_log (wal_append typ txn 0 None)) s (encode_record (made_record typ txn 0 None (next_lsn (fst (wal_of s))))) 1
      (\<lambda>x ws. x = next_lsn (fst (wal_of s)) \<and> batch (fst ws) = [])"
proof -
  have ty: "typ = WAL_BLOCK \<longleftrightarrow> (None :: block option) \<noteq> None" using assms(2) by auto
  from wal_stage_record_grows [OF assms(1) fills_retE(2) ty, where e = "e_cache s" and txn = txn and b = 0] obtain r e ws where
    st: "wal_stage_record typ txn 0 (map_option retE None) (e_cache s, wal_of s) = (r, (e, ws))"
    "log_grows (wal_of s) (encode_record (made_record typ txn 0 None (next_lsn (fst (wal_of s))))) 1 r ws"
    "e = e_cache s" by blast
  show "grows (on_txn_log (wal_stage typ txn 0 None)) s (encode_record (made_record typ txn 0 None (next_lsn (fst (wal_of s))))) 1 (\<lambda>_ _. True)"
    by (rule growsI [OF _ st(2)], rule on_txn_log_run) (use st(1,3) in \<open>simp_all add: wal_stage_def\<close>)
  from wal_append_grows [OF assms(1) ty, where e = "e_cache s" and txn = txn and b = 0] obtain r2 ws2 where
    ap: "wal_append typ txn 0 None (e_cache s, wal_of s) = (r2, (e_cache s, ws2))"
    "log_grows (wal_of s) (encode_record (made_record typ txn 0 None (next_lsn (fst (wal_of s))))) 1 r2 ws2"
    "r2 = Ret (next_lsn (fst (wal_of s))) \<and> batch (fst ws2) = [] \<or> r2 = Killed" by auto
  show "grows (on_txn_log (wal_append typ txn 0 None)) s (encode_record (made_record typ txn 0 None (next_lsn (fst (wal_of s))))) 1
      (\<lambda>x ws. x = next_lsn (fst (wal_of s)) \<and> batch (fst ws) = [])"
    by (rule growsI [OF _ ap(2)], rule on_txn_log_run) (use ap(1,3) in auto)
qed

lemma grows_sync:
  assumes "wal_ok (wal_of s)"
  shows "grows (on_stable (on_wal_file wal_sync)) s [] 0
    (\<lambda>_ ws. batch (fst ws) = [] \<and> durable_lsn (fst ws) = next_lsn (fst (wal_of s)) - 1)"
proof -
  from wal_sync_grows [OF assms] obtain r ws where "wal_sync (wal_of s) = (r, ws)" "log_grows (wal_of s) [] 0 r ws"
    "r = Ret () \<and> batch (fst ws) = [] \<and> durable_lsn (fst ws) = next_lsn (fst (wal_of s)) - 1 \<or> r = Killed" by blast
  then show ?thesis by (intro growsI [OF on_wal_engine_run]) auto
qed

section \<open>Logging a transaction\<close>

definition log_txn :: "u32 list \<Rightarrow> (engine, u64) op" where
  "log_txn blocks =
     bindE (getE (\<lambda>s. next_lsn (log_of_engine s))) (\<lambda>txn.
     thenE (on_txn_log (wal_stage WAL_BEGIN txn 0 None))
    (thenE (forE blocks (\<lambda>b. thenE (on_txn_log (wal_stage_block txn b (copy_txn_frame b))) (retE ())))
    (thenE (on_stable (on_wal_file wal_sync))
    (bindE (on_txn_log (wal_append WAL_COMMIT txn 0 None)) (\<lambda>commit_lsn.
     thenE (on_stable (on_wal_file wal_sync)) (retE commit_lsn))))))"

lemma write_txn_log:
  "write_txn blocks = bindE (log_txn blocks) (\<lambda>commit_lsn.
     thenE (forE blocks (\<lambda>b. on_frames (commit_frame b commit_lsn)))
    (upd_ctl (\<lambda>c. c\<lparr>commits := commits c + 1\<rparr>)))"
  by (simp add: write_txn_def log_txn_def thenE_def bindE_assoc)

definition txn_records :: "u64 \<Rightarrow> (u32 \<Rightarrow> block) \<Rightarrow> u32 list \<Rightarrow> wal_record list" where
  "txn_records txn v bs = made_record WAL_BEGIN txn 0 None txn #
     made_records (txn + 1) (block_items txn v bs) @ [made_record WAL_COMMIT txn 0 None (txn + 1 + of_nat (length bs))]"

lemma log_txn_ok:
  assumes "wal_ok (wal_of s)" and "cinv n (e_cache s)" and "set bs \<subseteq> txns (e_cache s)" and "v = vw (e_cache s) m"
    and "txn = next_lsn (fst (wal_of s))"
  shows "grows (log_txn bs) s (log_bytes (txn_records txn v bs)) (length bs + 2)
    (\<lambda>x ws. x = txn + 1 + of_nat (length bs) \<and> batch (fst ws) = [] \<and> durable_lsn (fst ws) = x)"
proof -
  have blocks: "grows (forE bs (\<lambda>b. thenE (on_txn_log (wal_stage_block txn b (copy_txn_frame b))) (retE ()))) s'
      (log_bytes (made_records (txn + 1) (block_items txn v bs))) (length bs) (\<lambda>_ _. True)"
    if "s' = upd_log ws s" "wal_ok ws" "next_lsn (fst ws) = txn + 1" for s' ws
    using stage_blocks_ok [of s' n bs v m txn] that assms(2-4) unfolding grows_def by auto
  let ?sync = "on_stable (on_wal_file wal_sync)"
  let ?fin = "bindE (on_txn_log (wal_append WAL_COMMIT txn 0 None)) (\<lambda>x. thenE ?sync (retE x))"
  define t where "t = txn + 1 + of_nat (length bs)"
  define Q where "Q = (\<lambda>x (ws :: wal_state). x = t \<and> batch (fst ws) = [] \<and> durable_lsn (fst ws) = x)"
  have fin: "grows (thenE ?sync (retE t)) (upd_log ws s) ([] @ []) (0 + 0) Q"
    if "wal_ok ws" "next_lsn (fst ws) = t + 1" for ws
    by (rule grows_then [OF grows_sync], use that in simp, rule grows_ret) (use that in \<open>auto simp: log_grows_def Q_def\<close>)
  have last: "grows ?fin (upd_log ws s) (encode_record (made_record WAL_COMMIT txn 0 None t) @ [] @ []) (1 + (0 + 0)) Q"
    if "wal_ok ws" "next_lsn (fst ws) = t" for ws
  proof (rule grows_bind [where Q = "\<lambda>x ws. x = t \<and> batch (fst ws) = []"])
    show "grows (on_txn_log (wal_append WAL_COMMIT txn 0 None)) (upd_log ws s) (encode_record (made_record WAL_COMMIT txn 0 None t)) 1
        (\<lambda>x ws. x = t \<and> batch (fst ws) = [])"
      using grows_mark(2) [of "upd_log ws s" WAL_COMMIT txn] that by simp
  next
    fix x ws' assume "x = t \<and> batch (fst ws') = []"
      "log_grows (wal_of (upd_log ws s)) (encode_record (made_record WAL_COMMIT txn 0 None t)) 1 (Ret x) ws'"
    then show "grows (thenE ?sync (retE x)) (upd_log ws' (upd_log ws s)) ([] @ []) (0 + 0) Q"
      using fin [of ws'] that(2) by (simp add: log_grows_def)
  qed
  have sync: "grows (thenE ?sync ?fin) (upd_log ws s) ([] @ encode_record (made_record WAL_COMMIT txn 0 None t) @ [] @ []) (0 + (1 + (0 + 0))) Q"
    if "wal_ok ws" "next_lsn (fst ws) = t" for ws
  proof (rule grows_then [OF grows_sync])
    show "wal_ok (wal_of (upd_log ws s))" using that by simp
  next
    fix x ws' assume "log_grows (wal_of (upd_log ws s)) [] 0 (Ret x) ws'"
    then show "grows ?fin (upd_log ws' (upd_log ws s)) (encode_record (made_record WAL_COMMIT txn 0 None t) @ [] @ []) (1 + (0 + 0)) Q"
      using last [of ws'] that(2) by (simp add: log_grows_def)
  qed
  have mid: "grows (thenE (forE bs (\<lambda>b. thenE (on_txn_log (wal_stage_block txn b (copy_txn_frame b))) (retE ()))) (thenE ?sync ?fin))
      (upd_log ws s) (log_bytes (made_records (txn + 1) (block_items txn v bs)) @ [] @
        encode_record (made_record WAL_COMMIT txn 0 None t) @ [] @ []) (length bs + (0 + (1 + (0 + 0)))) Q"
    if "wal_ok ws" "next_lsn (fst ws) = txn + 1" for ws
  proof (rule grows_then [OF blocks [OF refl that]])
    fix x ws' assume "log_grows (wal_of (upd_log ws s)) (log_bytes (made_records (txn + 1) (block_items txn v bs))) (length bs) (Ret x) ws'"
    then show "grows (thenE ?sync ?fin) (upd_log ws' (upd_log ws s))
        ([] @ encode_record (made_record WAL_COMMIT txn 0 None t) @ [] @ []) (0 + (1 + (0 + 0))) Q"
      using sync [of ws'] that(2) by (simp add: log_grows_def t_def)
  qed
  have "grows (thenE (on_txn_log (wal_stage WAL_BEGIN txn 0 None))
      (thenE (forE bs (\<lambda>b. thenE (on_txn_log (wal_stage_block txn b (copy_txn_frame b))) (retE ()))) (thenE ?sync ?fin))) s
     (encode_record (made_record WAL_BEGIN txn 0 None txn) @ log_bytes (made_records (txn + 1) (block_items txn v bs)) @ [] @
        encode_record (made_record WAL_COMMIT txn 0 None t) @ [] @ []) (1 + (length bs + (0 + (1 + (0 + 0))))) Q"
  proof (rule grows_then [OF grows_mark(1) [OF assms(1), of WAL_BEGIN txn, folded assms(5)]])
    fix x ws assume "log_grows (wal_of s) (encode_record (made_record WAL_BEGIN txn 0 None txn)) 1 (Ret x) ws"
    show "grows (thenE (forE bs (\<lambda>b. thenE (on_txn_log (wal_stage_block txn b (copy_txn_frame b))) (retE ()))) (thenE ?sync ?fin))
      (upd_log ws s) (log_bytes (made_records (txn + 1) (block_items txn v bs)) @ [] @
        encode_record (made_record WAL_COMMIT txn 0 None t) @ [] @ []) (length bs + (0 + (1 + (0 + 0)))) Q"
      by (rule mid) (use \<open>log_grows (wal_of s) (encode_record (made_record WAL_BEGIN txn 0 None txn)) 1 (Ret x) ws\<close> assms(5) in
        \<open>simp_all add: log_grows_def\<close>)
  qed simp
  moreover have "grows (log_txn bs) s a k Q = grows (thenE (on_txn_log (wal_stage WAL_BEGIN txn 0 None))
      (thenE (forE bs (\<lambda>b. thenE (on_txn_log (wal_stage_block txn b (copy_txn_frame b))) (retE ()))) (thenE ?sync ?fin))) s a k Q" for a k
    by (simp add: grows_def log_txn_def bindE_def getE_def log_of_wal assms(5))
  ultimately show ?thesis by (simp add: txn_records_def t_def Q_def)
qed

section \<open>What the records mean\<close>

definition item_fits :: "u32 \<Rightarrow> log_item \<Rightarrow> bool" where
  "item_fits n i = (case i of (ty, txn, b, pl) \<Rightarrow>
     (ty = WAL_BLOCK \<and> b \<noteq> 0 \<and> b < n \<and> pl \<noteq> None \<and> is_block (the pl)) \<or>
     ((ty = WAL_BEGIN \<or> ty = WAL_COMMIT) \<and> b = 0 \<and> pl = None))"

lemma u64_succ: "unat (l :: u64) + 1 < 2 ^ 64 \<Longrightarrow> unat (l + 1) = unat l + 1"
  by (simp add: unat_word_ariths)

lemma chain_made:
  assumes "follows prev l" and "list_all (item_fits n) items" and "unat l + length items < 2 ^ 64"
  shows "chain_ok n prev (made_records l items)"
  using assms
proof (induction l items arbitrary: prev rule: made_records.induct)
  case (2 l ty txn b pl items)
  have rec: "rec_ok n prev (made_record ty txn b pl l)"
    using "2.prems"(1,2) rec_ok_mark [OF "2.prems"(1)] rec_ok_block [OF "2.prems"(1)]
    by (auto simp: item_fits_def)
  have u: "unat (l + 1) = unat l + 1" by (rule u64_succ) (use "2.prems"(3) in simp)
  then have "l + 1 \<noteq> 0" by (metis Suc_eq_plus1 nat.distinct(1) unsigned_0)
  then have "follows (Some l) (l + 1)" by (simp add: follows_def)
  from "2.IH" [OF this] "2.prems"(2,3) u rec show ?case by simp
qed simp

lemma made_records_append:
  "made_records l (xs @ ys) = made_records l xs @ made_records (l + of_nat (length xs)) ys"
  by (induction l xs rule: made_records.induct) (simp_all add: add.assoc)

lemma txn_records_made:
  "txn_records txn v bs = made_records txn ((WAL_BEGIN, txn, 0, None) # block_items txn v bs @ [(WAL_COMMIT, txn, 0, None)])"
  by (simp add: txn_records_def made_records_append block_items_def)

lemma length_made_records [simp]: "length (made_records l items) = length items"
  by (induction l items rule: made_records.induct) simp_all

lemma made_records_mem:
  assumes "r \<in> set (made_records l items)" and "unat l + length items < 2 ^ 64"
  shows "\<exists>ty txn b pl. (ty, txn, b, pl) \<in> set items \<and> r = made_record ty txn b pl (h_lsn (header r)) \<and>
    l \<le> h_lsn (header r) \<and> unat (h_lsn (header r)) < unat l + length items"
  using assms
proof (induction l items rule: made_records.induct)
  case (2 l ty txn b pl items)
  have u: "unat (l + 1) = unat l + 1" by (rule u64_succ) (use "2.prems"(2) in simp)
  show ?case
  proof (cases "r = made_record ty txn b pl l")
    case True
    then show ?thesis by (intro exI [of _ ty] exI [of _ txn] exI [of _ b] exI [of _ pl]) simp
  next
    case False
    with "2.prems" have r: "r \<in> set (made_records (l + 1) items)" by simp
    from "2.IH" [OF r] u "2.prems"(2) obtain ty' txn' b' pl' where
      "(ty', txn', b', pl') \<in> set items" "r = made_record ty' txn' b' pl' (h_lsn (header r))"
      "l + 1 \<le> h_lsn (header r)" "unat (h_lsn (header r)) < unat (l + 1) + length items" by auto
    then show ?thesis using u by (intro exI [of _ ty'] exI [of _ txn'] exI [of _ b'] exI [of _ pl']) (simp add: word_le_nat_alt)
  qed
qed simp

text \<open>The records of a log that holds whole transactions, all of them after the checkpoint.\<close>

definition records_ok :: "u32 \<Rightarrow> superblock \<Rightarrow> wal_record list \<Rightarrow> u64 \<Rightarrow> bool" where
  "records_ok n sb rs next \<longleftrightarrow> chain_ok n None rs \<and> follows (lsn_after None rs) next \<and> total_blocks sb = n \<and>
     last_checkpoint_lsn sb < next \<and>
     (\<forall>r \<in> set rs. last_checkpoint_lsn sb < h_lsn (header r) \<and> h_lsn (header r) < next \<and> h_txn_id (header r) < next \<and>
        (h_type (header r) = WAL_BLOCK \<longrightarrow> h_txn_id (header r) \<in> committed_txns rs))"

definition logW :: "superblock \<Rightarrow> wal_record list \<Rightarrow> u32 set" where
  "logW sb rs = written (replayed (committed_txns rs) (last_checkpoint_lsn sb)) rs"

lemma committed_txns_append: "committed_txns (rs @ rs') = committed_txns rs \<union> committed_txns rs'"
  by (auto simp: committed_txns_def)

lemma apply_records_append: "apply_records P (rs @ rs') m = apply_records P rs' (apply_records P rs m)"
  by (simp add: apply_records_def)

lemma apply_records_cong: "(\<And>r. r \<in> set rs \<Longrightarrow> P r = Q r) \<Longrightarrow> apply_records P rs m = apply_records Q rs m"
  by (induction rs arbitrary: m) simp_all

text \<open>Records of a transaction that did not commit change nothing.\<close>

lemma replay_uncommitted:
  assumes "\<forall>r \<in> set extra. h_type (header r) \<noteq> WAL_COMMIT \<and> h_txn_id (header r) \<notin> committed_txns rs"
  shows "replay ck (rs @ extra) m = replay ck rs m"
proof -
  have "committed_txns extra = {}" using assms by (auto simp: committed_txns_def)
  then have c: "committed_txns (rs @ extra) = committed_txns rs" by (simp add: committed_txns_append)
  have "apply_records (replayed (committed_txns rs) ck) extra m' = m'" for m'
    by (rule apply_records_none) (use assms in \<open>auto simp: replayed_def\<close>)
  then show ?thesis by (simp add: replay_def c apply_records_append)
qed

lemma replay_blocks:
  assumes "\<forall>r \<in> set (made_records l (block_items txn v bs)). P r"
  shows "apply_records P (made_records l (block_items txn v bs)) m = (\<lambda>b. if b \<in> set bs then v b else m b)"
    and "written P (made_records l (block_items txn v bs)) = set bs"
  using assms
proof (induction bs arbitrary: l m)
  case (Cons b bs)
  { case 1 with Cons.IH(1) [of "l + 1"] show ?case by (auto simp: block_items_def fun_eq_iff) }
  { case 2 with Cons.IH(2) [of "l + 1"] show ?case by (simp add: block_items_def) }
qed (simp_all add: block_items_def)

lemma written_append: "written P (rs @ rs') = written P rs \<union> written P rs'"
  by (auto simp: written_def)

lemma written_cong: "(\<And>r. r \<in> set rs \<Longrightarrow> P r = Q r) \<Longrightarrow> written P rs = written Q rs"
  by (auto simp: written_def)

lemma txn_record_facts:
  assumes "r \<in> set (txn_records txn v bs)" and "unat txn + length bs + 2 < 2 ^ 64"
  shows "h_txn_id (header r) = txn" "txn \<le> h_lsn (header r)" "unat (h_lsn (header r)) < unat txn + length bs + 2"
    "h_type (header r) = WAL_BLOCK \<Longrightarrow> h_block_no (header r) \<in> set bs"
proof -
  have "length ((WAL_BEGIN, txn, 0, None) # block_items txn v bs @ [(WAL_COMMIT, txn, 0, None)]) = length bs + 2"
    by (simp add: block_items_def)
  with made_records_mem [OF assms(1) [unfolded txn_records_made]] assms(2) obtain ty t b pl where
    r: "(ty, t, b, pl) \<in> set ((WAL_BEGIN, txn, 0, None) # block_items txn v bs @ [(WAL_COMMIT, txn, 0, None)])"
    "r = made_record ty t b pl (h_lsn (header r))" "txn \<le> h_lsn (header r)"
    "unat (h_lsn (header r)) < unat txn + length bs + 2" by (auto simp: add.assoc)
  have h: "h_txn_id (header r) = t" "h_type (header r) = ty" "h_block_no (header r) = b"
    using arg_cong [OF r(2), of "\<lambda>r. h_txn_id (header r)"] arg_cong [OF r(2), of "\<lambda>r. h_type (header r)"]
      arg_cong [OF r(2), of "\<lambda>r. h_block_no (header r)"] by simp_all
  show "h_txn_id (header r) = txn" "h_type (header r) = WAL_BLOCK \<Longrightarrow> h_block_no (header r) \<in> set bs"
    using r(1) h by (auto simp: block_items_def)
  show "txn \<le> h_lsn (header r)" "unat (h_lsn (header r)) < unat txn + length bs + 2" using r(3,4) by simp_all
qed

lemma committed_txn_records: "committed_txns (txn_records txn v bs) = {txn}"
proof -
  have "committed_txns (made_records l (block_items txn v bs)) = {}" for l
    by (induction bs arbitrary: l) (simp_all add: block_items_def committed_txns_def)
  moreover have "txn_records txn v bs = [made_record WAL_BEGIN txn 0 None txn] @ made_records (txn + 1) (block_items txn v bs) @
      [made_record WAL_COMMIT txn 0 None (txn + 1 + of_nat (length bs))]"
    by (simp add: txn_records_def)
  ultimately show ?thesis by (simp add: committed_txns_append) (simp add: committed_txns_def)
qed

text \<open>A committed transaction: its blocks, over what the log gave before.\<close>

lemma replay_txn:
  assumes "records_ok n sb rs txn" and "unat txn + length bs + 2 < 2 ^ 64"
  shows "replay (last_checkpoint_lsn sb) (rs @ txn_records txn v bs) m =
      (\<lambda>b. if b \<in> set bs then v b else replay (last_checkpoint_lsn sb) rs m b)"
    and "logW sb (rs @ txn_records txn v bs) = logW sb rs \<union> set bs"
proof -
  let ?ck = "last_checkpoint_lsn sb" and ?new = "txn_records txn v bs"
  let ?P = "replayed (committed_txns (rs @ ?new)) ?ck" and ?Q = "replayed (committed_txns rs) ?ck"
  have c: "committed_txns (rs @ ?new) = insert txn (committed_txns rs)"
    by (simp add: committed_txns_append committed_txn_records)
  have ck: "?ck < txn" using assms(1) by (simp add: records_ok_def)
  have old: "?P r = ?Q r" if "r \<in> set rs" for r
    using assms(1) that unfolding c by (auto simp: records_ok_def replayed_def)
  have "\<forall>r \<in> set ?new. h_type (header r) = WAL_BLOCK \<longrightarrow> ?P r"
  proof (intro ballI impI)
    fix r assume r: "r \<in> set ?new" "h_type (header r) = WAL_BLOCK"
    note txn_record_facts(1,2) [OF r(1) assms(2)]
    then show "?P r" unfolding c replayed_def using ck r(2) by auto
  qed
  moreover have ty: "\<forall>r \<in> set (made_records l (block_items txn v bs)). h_type (header r) = WAL_BLOCK" for l
    by (induction bs arbitrary: l) (simp_all add: block_items_def)
  ultimately have new: "\<forall>r \<in> set (made_records (txn + 1) (block_items txn v bs)). ?P r"
    by (simp add: txn_records_def)
  have marks: "\<not> ?P (made_record WAL_BEGIN txn 0 None l)" "\<not> ?P (made_record WAL_COMMIT txn 0 None l)" for l
    by (simp_all add: replayed_def)
  have "apply_records ?P ?new m' = (\<lambda>b. if b \<in> set bs then v b else m' b)" for m'
    using marks replay_blocks(1) [OF new] by (simp add: txn_records_def apply_records_append)
  then show "replay ?ck (rs @ ?new) m = (\<lambda>b. if b \<in> set bs then v b else replay ?ck rs m b)"
    unfolding replay_def apply_records_append using apply_records_cong [OF old] by simp
  have "written ?P ?new = set bs" using marks replay_blocks(2) [OF new] by (simp add: txn_records_def written_append)
  then show "logW sb (rs @ ?new) = logW sb rs \<union> set bs"
    unfolding logW_def written_append using written_cong [OF old] by simp
qed

lemma lsn_after_append: "lsn_after prev (rs @ rs') = lsn_after (lsn_after prev rs) rs'"
  by (simp add: lsn_after_def)

lemma records_ok_txn:
  assumes "records_ok n sb rs txn" and "unat txn + length bs + 2 < 2 ^ 64"
    and "\<forall>b \<in> set bs. b \<noteq> 0 \<and> b < n \<and> is_block (v b)"
  shows "records_ok n sb (rs @ txn_records txn v bs) (txn + of_nat (length bs + 2))"
proof -
  let ?new = "txn_records txn v bs" and ?next = "txn + of_nat (length bs + 2)"
  have u: "unat ?next = unat txn + (length bs + 2)"
    using assms(2) by (simp add: unat_word_ariths unat_of_nat)
  have lt: "txn < ?next" unfolding word_less_nat_alt u by simp
  have "chain_ok n (lsn_after None rs) ?new"
    unfolding txn_records_made
    by (rule chain_made) (use assms in \<open>auto simp: records_ok_def item_fits_def block_items_def list_all_iff\<close>)
  moreover have "lsn_after None (rs @ ?new) = Some (txn + 1 + of_nat (length bs))"
    by (simp add: lsn_after_def txn_records_def)
  moreover have "?next \<noteq> 0" using u by (metis add_is_0 unsigned_0 zero_neq_numeral)
  ultimately have "chain_ok n None (rs @ ?new)" "follows (lsn_after None (rs @ ?new)) ?next"
    using assms(1) by (simp_all add: records_ok_def chain_ok_append follows_def)
  moreover have "last_checkpoint_lsn sb < h_lsn (header r) \<and> h_lsn (header r) < ?next \<and> h_txn_id (header r) < ?next \<and>
      (h_type (header r) = WAL_BLOCK \<longrightarrow> h_txn_id (header r) \<in> committed_txns (rs @ ?new))" if r: "r \<in> set (rs @ ?new)" for r
  proof (cases "r \<in> set rs")
    case True
    then show ?thesis using assms(1) lt by (auto simp: records_ok_def committed_txns_append)
  next
    case False
    then have r': "r \<in> set ?new" using r by simp
    note f = txn_record_facts [OF r' assms(2)]
    have "h_lsn (header r) < ?next" unfolding word_less_nat_alt u using f(3) by simp
    moreover have "last_checkpoint_lsn sb < h_lsn (header r)" using assms(1) f(2) by (auto simp: records_ok_def)
    ultimately show ?thesis using f(1) lt by (simp add: committed_txns_append committed_txn_records)
  qed
  moreover have "last_checkpoint_lsn sb < ?next" "total_blocks sb = n" using assms(1) lt by (auto simp: records_ok_def)
  ultimately show ?thesis by (simp add: records_ok_def)
qed

section \<open>The engine and its log\<close>

definition log_state :: "pread_dev \<Rightarrow> superblock \<Rightarrow> wal_record list \<Rightarrow> stable \<Rightarrow> bool" where
  "log_state d sb rs st \<longleftrightarrow> stable_ok d st \<and> wal_ok (fst st, inner (snd st)) \<and> batch (fst st) = [] \<and>
     content (log_file (fst st, inner (snd st))) = log_bytes rs \<and> durable_lsn (fst st) = next_lsn (fst st) - 1 \<and>
     decode_superblock (dblocks d st 0) = sb \<and> records_ok (pd_count d) sb rs (next_lsn (fst st))"

text \<open>The log gives the committed contents of the blocks it writes, whatever is on the disk.\<close>

definition gives :: "superblock \<Rightarrow> wal_record list \<Rightarrow> (u32 \<Rightarrow> block) \<Rightarrow> bool" where
  "gives sb rs G \<longleftrightarrow> (\<forall>b \<in> logW sb rs. \<forall>m. replay (last_checkpoint_lsn sb) rs m b = G b)"

definition core :: "pread_dev \<Rightarrow> (u32 \<Rightarrow> block) \<Rightarrow> u32 set \<Rightarrow> engine \<Rightarrow> bool" where
  "core d G W s \<longleftrightarrow> enabled (ctl s) \<and> j_total_blocks (ctl s) = pd_count d \<and>
     cache_ok d G W (e_cache s) (disk_part s) \<and> lsn_below (durable_lsn (log_of_engine s)) (e_cache s)"

definition store_ok :: "pread_dev \<Rightarrow> (u32 \<Rightarrow> block) \<Rightarrow> engine \<Rightarrow> bool" where
  "store_ok d G s \<longleftrightarrow> (\<exists>rs. log_state d (j_sb (ctl s)) rs (e_stable s) \<and> core d G (logW (j_sb (ctl s)) rs) s \<and>
     gives (j_sb (ctl s)) rs G)"

definition logged :: "pread_dev \<Rightarrow> (u32 \<Rightarrow> block) \<Rightarrow> engine \<Rightarrow> bool" where
  "logged d G s \<longleftrightarrow> store_ok d G s \<and> txn_ok (ctl s) (e_cache s)"

lemma engine_ok_core: "engine_ok d G W s \<longleftrightarrow> core d G W s \<and> txn_ok (ctl s) (e_cache s)"
  by (auto simp: engine_ok_def core_def)

lemma dblocks_disk: "dblocks d (e_stable s) = disk_blocks d (disk_part s)"
  by (simp add: dblocks_def disk_blocks_def disk_part_def)

lemma coherent_disk:
  assumes "coherent G W n c m" and "0 < b" and "b < n" and "b \<notin> W"
  shows "m b = G b"
  using coherent_entry [OF assms(1-3)] assms(4) by (auto simp: entry_ok_def split: option.splits)

text \<open>
  What a mount recovers from a disk and a log: the committed contents, as long as the disk holds
  them in the blocks the log does not write again and the log ends in no other committed
  transaction.
\<close>

lemma recovered_gives:
  assumes "sb = decode_superblock (dblocks d st 0)"
    and "parse_log (total_blocks sb) None (content (log_file (fst st, inner (snd st)))) = rs @ extra"
    and "\<forall>r \<in> set extra. h_type (header r) \<noteq> WAL_COMMIT \<and> h_txn_id (header r) \<notin> committed_txns rs"
    and "gives sb rs G" and "b \<notin> logW sb rs \<Longrightarrow> dblocks d st b = G b"
  shows "recovered d st b = G b"
proof -
  have "recovered d st b = replay (last_checkpoint_lsn sb) rs (dblocks d st) b"
    by (simp add: recovered_def assms(1) [symmetric] assms(2) replay_uncommitted [OF assms(3)])
  also have "\<dots> = G b"
  proof (cases "b \<in> logW sb rs")
    case True
    with assms(4) show ?thesis by (simp add: gives_def)
  next
    case False
    then show ?thesis using assms(5) apply_records_unwritten unfolding logW_def replay_def by metis
  qed
  finally show ?thesis .
qed

text \<open>The next mount gets through, and recovers \<^term>\<open>G\<close>.\<close>

definition mountable :: "pread_dev \<Rightarrow> stable \<Rightarrow> bool" where
  "mountable d st \<longleftrightarrow> (let sb = decode_superblock (dblocks d st 0) in
     total_blocks sb = pd_count d \<and> top_lsn (last_checkpoint_lsn sb) (log_of st (pd_count d)) \<noteq> - 1)"

definition recovers :: "pread_dev \<Rightarrow> (u32 \<Rightarrow> block) \<Rightarrow> engine \<Rightarrow> bool" where
  "recovers d G s \<longleftrightarrow> mountable d (e_stable s) \<and>
     (\<forall>b. 0 < b \<longrightarrow> b < pd_count d \<longrightarrow> recovered d (e_stable s) b = G b)"

lemma top_lsn_less: "c < N \<Longrightarrow> (\<And>r. r \<in> set rs \<Longrightarrow> h_lsn (header r) < N) \<Longrightarrow> top_lsn c rs < N"
  by (induction rs arbitrary: c) auto

lemma recoversI:
  assumes "sb = decode_superblock (dblocks d (e_stable s) 0)" and "total_blocks sb = pd_count d"
    and "parse_log (pd_count d) None (content (log_file (fst (e_stable s), inner (snd (e_stable s))))) = rs @ extra"
    and "\<forall>r \<in> set extra. h_type (header r) \<noteq> WAL_COMMIT \<and> h_txn_id (header r) \<notin> committed_txns rs"
    and "gives sb rs G" and "\<And>b. 0 < b \<Longrightarrow> b < pd_count d \<Longrightarrow> b \<notin> logW sb rs \<Longrightarrow> dblocks d (e_stable s) b = G b"
    and "last_checkpoint_lsn sb < N" and "\<And>r. r \<in> set (rs @ extra) \<Longrightarrow> h_lsn (header r) < N"
  shows "recovers d G s"
proof -
  have "top_lsn (last_checkpoint_lsn sb) (rs @ extra) < N" by (rule top_lsn_less [OF assms(7,8)])
  then have "top_lsn (last_checkpoint_lsn sb) (rs @ extra) \<noteq> - 1" by auto
  then have "mountable d (e_stable s)" using assms(1-3) by (simp add: mountable_def log_of_def Let_def)
  moreover have "recovered d (e_stable s) b = G b" if "0 < b" "b < pd_count d" for b
    by (rule recovered_gives [OF assms(1) _ assms(4,5)]) (use assms(2,3,6) that in simp_all)
  ultimately show ?thesis by (simp add: recovers_def)
qed

lemma logW_0:
  assumes "records_ok n sb rs l"
  shows "0 \<notin> logW sb rs"
proof
  assume "0 \<in> logW sb rs"
  then obtain r where r: "r \<in> set rs" "h_type (header r) = WAL_BLOCK" "h_block_no (header r) = 0"
    by (auto simp: logW_def written_def replayed_def)
  have "chain_ok n None rs" using assms by (simp add: records_ok_def)
  then have "rs = parse_log n None (log_bytes rs)" using parse_log_bytes [of n None rs "[]"] by simp
  with r show False using parse_log_facts [of r n None "log_bytes rs"] by auto
qed

lemma log_state_parse:
  assumes "log_state d sb rs st"
  shows "parse_log (total_blocks sb) None (content (log_file (fst st, inner (snd st)))) = rs @ []"
  using assms parse_log_bytes [of "pd_count d" None rs "[]"] by (simp add: log_state_def records_ok_def)

lemma core_disk: "core d G W s \<Longrightarrow> 0 < b \<Longrightarrow> b < pd_count d \<Longrightarrow> b \<notin> W \<Longrightarrow> dblocks d (e_stable s) b = G b"
  using coherent_disk by (auto simp: core_def cache_ok_def dblocks_disk)

lemma log_state_recovers:
  assumes "log_state d sb rs (e_stable s)" and "gives sb rs G"
    and "\<And>b. 0 < b \<Longrightarrow> b < pd_count d \<Longrightarrow> b \<notin> logW sb rs \<Longrightarrow> dblocks d (e_stable s) b = G b"
  shows "recovers d G s"
proof (rule recoversI [where rs = rs and extra = "[]" and N = "next_lsn (fst (e_stable s))"])
  have ro: "records_ok (pd_count d) sb rs (next_lsn (fst (e_stable s)))" using assms(1) by (simp add: log_state_def)
  show "sb = decode_superblock (dblocks d (e_stable s) 0)" "total_blocks sb = pd_count d"
    "last_checkpoint_lsn sb < next_lsn (fst (e_stable s))"
    using assms(1) ro by (simp_all add: log_state_def records_ok_def)
  show "parse_log (pd_count d) None (content (log_file (fst (e_stable s), inner (snd (e_stable s))))) = rs @ []"
    using log_state_parse [OF assms(1)] ro by (simp add: records_ok_def)
  show "h_lsn (header r) < next_lsn (fst (e_stable s))" if "r \<in> set (rs @ [])" for r
    using ro that by (simp add: records_ok_def)
qed (use assms(2,3) in simp_all)

text \<open>Between commits the disk changes in blocks the log writes again only.\<close>

lemma stays_log_state:
  assumes "log_state d sb rs (e_stable s)" and "stays d (logW sb rs) s s'"
  shows "log_state d sb rs (e_stable s')"
proof -
  have fd: "wl_fd (fst (e_stable s)) \<noteq> pd_fd d" using assms(1) by (simp add: log_state_def stable_ok_def)
  have l: "fst (e_stable s') = fst (e_stable s)" using assms(2) by (simp add: stays_def log_of_engine_def)
  have f: "log_file (fst (e_stable s'), inner (snd (e_stable s'))) = log_file (fst (e_stable s), inner (snd (e_stable s)))"
    using assms(2) fd l by (auto simp: stays_def disk_beside_def same_but_def log_file_def disk_part_def)
  have "dblocks d (e_stable s') 0 = dblocks d (e_stable s) 0"
    using assms(2) logW_0 assms(1) by (auto simp: stays_def only_in_def dblocks_disk log_state_def)
  moreover have "dlive d (e_stable s')" using assms(2) by (simp add: stays_def disk_live_def dlive_def disk_part_def)
  ultimately show ?thesis using assms(1) l f by (simp add: log_state_def stable_ok_def wal_ok_def)
qed

lemma stays_recovers:
  assumes "log_state d sb rs (e_stable s)" and "gives sb rs G" and "core d G (logW sb rs) s" and "stays d (logW sb rs) s s'"
  shows "recovers d G s'"
proof (rule log_state_recovers [OF stays_log_state [OF assms(1,4)] assms(2)])
  fix b assume b: "0 < b" "b < pd_count d" "b \<notin> logW sb rs"
  then have "dblocks d (e_stable s') b = dblocks d (e_stable s) b"
    using assms(4) by (simp add: stays_def only_in_def dblocks_disk)
  with core_disk [OF assms(3) b] show "dblocks d (e_stable s') b = G b" by simp
qed

lemma store_ok_recovers: "store_ok d G s \<Longrightarrow> recovers d G s"
  unfolding store_ok_def using log_state_recovers core_disk by blast

lemma logged_engine: "logged d G s \<Longrightarrow> \<exists>W. engine_ok d G W s"
  by (auto simp: logged_def store_ok_def engine_ok_core)

text \<open>Reads and writes through the journal, with the log in view: they may be killed, and then the
  committed contents are recovered; if they return, those are still the committed contents.\<close>

lemma logged_stays:
  assumes "logged d G s"
  shows "\<exists>W. engine_ok d G W s \<and> (\<forall>s'. stays d W s s' \<longrightarrow> recovers d G s' \<and> (engine_ok d G W s' \<longrightarrow> logged d G s'))"
proof -
  from assms obtain rs where rs: "log_state d (j_sb (ctl s)) rs (e_stable s)" "core d G (logW (j_sb (ctl s)) rs) s"
    "gives (j_sb (ctl s)) rs G" "txn_ok (ctl s) (e_cache s)" by (auto simp: logged_def store_ok_def)
  let ?W = "logW (j_sb (ctl s)) rs"
  have "recovers d G s'" "engine_ok d G ?W s' \<Longrightarrow> logged d G s'" if st: "stays d ?W s s'" for s'
  proof -
    show "recovers d G s'" by (rule stays_recovers [OF rs(1,3,2) st])
    have "j_sb (ctl s') = j_sb (ctl s)" using st same_ctlD(3) by (simp add: stays_def)
    then show "logged d G s'" if "engine_ok d G ?W s'"
      using stays_log_state [OF rs(1) st] rs(3) that by (auto simp: logged_def store_ok_def engine_ok_core)
  qed
  then show ?thesis using rs(2,4) by (intro exI [of _ ?W]) (simp add: engine_ok_core)
qed

lemma logged_write:
  assumes "logged d G s" and "0 < b" and "b < pd_count d"
    and "fn (if fresh then zero_block else engine_view d s b) = (Ret (), x)" and "is_block x"
  shows "\<exists>r s'. journal_write (disk_of d sy) b fresh fn s = (r, s') \<and> same_ctl (ctl s) (ctl s') \<and> unarmed s' = unarmed s \<and>
    log_of_engine s' = log_of_engine s \<and>
    (r = Killed \<and> \<not> unarmed s \<and> recovers d G s' \<or>
     r = Ret () \<and> logged d G s' \<and> engine_view d s' = (engine_view d s)(b := x))"
proof -
  from logged_stays [OF assms(1)] obtain W where W: "engine_ok d G W s"
    "\<And>s'. stays d W s s' \<Longrightarrow> recovers d G s'" "\<And>s'. stays d W s s' \<Longrightarrow> engine_ok d G W s' \<Longrightarrow> logged d G s'" by blast
  from journal_write_ok [where fn = fn and fresh = fresh and x = x, OF W(1) assms(2-5), of sy] obtain r s' where
    r: "journal_write (disk_of d sy) b fresh fn s = (r, s')" "stays d W s s'"
    "r = Killed \<and> \<not> unarmed s \<or> r = Ret () \<and> engine_ok d G W s' \<and> engine_view d s' = (engine_view d s)(b := x)" by blast
  have "same_ctl (ctl s) (ctl s')" "log_of_engine s' = log_of_engine s" using r(2) by (simp_all add: stays_def)
  then show ?thesis using r W(2,3) stays_unarmed [OF r(2)] by blast
qed

lemma logged_read:
  assumes "logged d G s" and "0 < b" and "b < pd_count d"
  shows "\<exists>r s'. journal_read (disk_of d sy) b s = (r, s') \<and> same_ctl (ctl s) (ctl s') \<and> unarmed s' = unarmed s \<and>
    log_of_engine s' = log_of_engine s \<and>
    (r = Killed \<and> \<not> unarmed s \<and> recovers d G s' \<or>
     r = Ret (engine_view d s b) \<and> logged d G s' \<and> engine_view d s' = engine_view d s)"
proof -
  from logged_stays [OF assms(1)] obtain W where W: "engine_ok d G W s"
    "\<And>s'. stays d W s s' \<Longrightarrow> recovers d G s'" "\<And>s'. stays d W s s' \<Longrightarrow> engine_ok d G W s' \<Longrightarrow> logged d G s'" by blast
  from journal_read_ok [OF W(1) assms(2,3), of sy] obtain r s' where
    r: "journal_read (disk_of d sy) b s = (r, s')" "stays d W s s'"
    "r = Killed \<and> \<not> unarmed s \<or> r = Ret (engine_view d s b) \<and> engine_ok d G W s' \<and> engine_view d s' = engine_view d s" by blast
  have "same_ctl (ctl s) (ctl s')" "log_of_engine s' = log_of_engine s" using r(2) by (simp_all add: stays_def)
  then show ?thesis using r W(2,3) stays_unarmed [OF r(2)] by blast
qed

section \<open>The commit\<close>

lemma on_frames_run: "m (e_cache s) = (r, c) \<Longrightarrow> on_frames m s = (r, s\<lparr>e_cache := c\<rparr>)"
  by (simp add: on_frames_def zoomE_def)

lemma commit_frames_ok:
  assumes "cinv n (e_cache s)" and "set bs \<subseteq> txns (e_cache s)" and "distinct bs" and "coherent G W n (e_cache s) m"
  shows "\<exists>c'. forE bs (\<lambda>b. on_frames (commit_frame b lsn)) s = (Ret (), s\<lparr>e_cache := c'\<rparr>) \<and> cinv n c' \<and>
    coherent (\<lambda>b. if b \<in> set bs then vw (e_cache s) m b else G b) (W \<union> set bs) n c' m \<and>
    vw c' m = vw (e_cache s) m \<and> txns c' = txns (e_cache s) - set bs \<and>
    (\<forall>L. lsn_below L (e_cache s) \<longrightarrow> lsn \<le> L \<longrightarrow> lsn_below L c')"
  using assms
proof (induction bs arbitrary: s G W)
  case Nil
  then show ?case by (intro exI [of _ "e_cache s"]) simp
next
  case (Cons b bs)
  let ?v = "vw (e_cache s) m"
  have b: "b \<in> txns (e_cache s)" using Cons.prems(2) by simp
  from commit_frame_ok [OF Cons.prems(1) b Cons.prems(4), of lsn] obtain c1 where
    1: "commit_frame b lsn (e_cache s) = (Ret (), c1)" "cinv n c1" "coherent (G(b := ?v b)) (insert b W) n c1 m"
      "vw c1 m = ?v" "txns c1 = txns (e_cache s) - {b}" "\<forall>L. lsn_below L (e_cache s) \<longrightarrow> lsn \<le> L \<longrightarrow> lsn_below L c1" by blast
  let ?s = "s\<lparr>e_cache := c1\<rparr>"
  have pre: "cinv n (e_cache ?s)" "set bs \<subseteq> txns (e_cache ?s)" "distinct bs"
    "coherent (G(b := ?v b)) (insert b W) n (e_cache ?s) m"
    using 1 Cons.prems(2,3) by auto
  have e: "e_cache ?s = c1" "\<And>x. ?s\<lparr>e_cache := x\<rparr> = s\<lparr>e_cache := x\<rparr>" by simp_all
  from Cons.IH [OF pre] obtain c2 where
    2: "forE bs (\<lambda>b. on_frames (commit_frame b lsn)) ?s = (Ret (), s\<lparr>e_cache := c2\<rparr>)" "cinv n c2"
      "coherent (\<lambda>x. if x \<in> set bs then ?v x else (G(b := ?v b)) x) (insert b W \<union> set bs) n c2 m"
      "vw c2 m = ?v" "txns c2 = txns c1 - set bs" "\<forall>L. lsn_below L c1 \<longrightarrow> lsn \<le> L \<longrightarrow> lsn_below L c2"
    unfolding e 1(4) by blast
  have "forE (b # bs) (\<lambda>b. on_frames (commit_frame b lsn)) s = (Ret (), s\<lparr>e_cache := c2\<rparr>)"
    using on_frames_run [of "commit_frame b lsn", OF 1(1)] 2(1) by (simp add: thenE_def bindE_def)
  moreover have "(\<lambda>x. if x \<in> set bs then ?v x else (G(b := ?v b)) x) = (\<lambda>x. if x \<in> set (b # bs) then ?v x else G x)" by auto
  moreover have "txns c2 = txns (e_cache s) - set (b # bs)" using 1(5) 2(5) by auto
  ultimately show ?case using 2(2-4,6) 1(6) by (intro exI [of _ c2]) simp
qed

lemma length_whole_records: "length (log_bytes (whole_records k rs)) \<le> k"
  by (induction k rs rule: whole_records.induct) auto

lemma torn_txn:
  assumes "records_ok n sb rs txn" and "unat txn + length bs + 2 < 2 ^ 64"
    and "\<forall>b \<in> set bs. b \<noteq> 0 \<and> b < n \<and> is_block (v b)"
    and "length (log_bytes rs) \<le> k" and "k < length (log_bytes (rs @ txn_records txn v bs))"
  shows "\<exists>extra. parse_log n None (take k (log_bytes (rs @ txn_records txn v bs))) = rs @ extra \<and>
    (\<forall>r \<in> set extra. h_type (header r) \<noteq> WAL_COMMIT \<and> h_txn_id (header r) \<notin> committed_txns rs) \<and>
    set extra \<subseteq> set (txn_records txn v bs)"
proof -
  let ?new = "txn_records txn v bs"
  have "chain_ok n None (rs @ ?new)" using records_ok_txn [OF assms(1-3)] by (simp add: records_ok_def)
  then have p: "parse_log n None (take k (log_bytes (rs @ ?new))) = rs @ whole_records (k - length (log_bytes rs)) ?new"
    using parse_log_cut whole_records_append assms(4) by metis
  obtain j where j: "j \<le> length ?new" "whole_records (k - length (log_bytes rs)) ?new = take j ?new"
    using whole_records_prefix by blast
  have "j < length ?new"
  proof (rule ccontr)
    assume "\<not> j < length ?new"
    then have "whole_records (k - length (log_bytes rs)) ?new = ?new" using j by simp
    then have "length (log_bytes ?new) \<le> k - length (log_bytes rs)" using length_whole_records by metis
    with assms(4,5) show False by simp
  qed
  then have sub: "set (take j ?new) \<subseteq> set (butlast ?new)"
    by (metis (no_types, lifting) butlast_conv_take set_take_subset_set_take less_Suc_eq_le Suc_pred' length_greater_0_conv less_nat_zero_code list.size(3))
  have bl: "butlast ?new = made_record WAL_BEGIN txn 0 None txn # made_records (txn + 1) (block_items txn v bs)"
    by (simp add: txn_records_def butlast_append)
  have ty: "\<forall>r \<in> set (made_records l (block_items txn v bs)). h_type (header r) = WAL_BLOCK" for l
    by (induction bs arbitrary: l) (simp_all add: block_items_def)
  have old: "txn \<notin> committed_txns rs" using assms(1) by (fastforce simp: records_ok_def committed_txns_def)
  have "h_type (header r) \<noteq> WAL_COMMIT \<and> h_txn_id (header r) \<notin> committed_txns rs" if "r \<in> set (take j ?new)" for r
  proof -
    have r: "r \<in> set (butlast ?new)" using sub that by blast
    then have "r \<in> set ?new" by (rule in_set_butlastD)
    from txn_record_facts(1) [OF this assms(2)] have "h_txn_id (header r) = txn" .
    moreover have "h_type (header r) \<noteq> WAL_COMMIT" using r ty [of "txn + 1"] unfolding bl by auto
    ultimately show ?thesis using old by simp
  qed
  moreover have "set (take j ?new) \<subseteq> set ?new" by (rule set_take_subset)
  ultimately show ?thesis using p j(2) by auto
qed

lemma log_grows_disk:
  assumes "log_grows (wal_of s) a n r ws" and "wl_fd (fst (e_stable s)) \<noteq> pd_fd d"
  shows "dblocks d (e_stable (upd_log ws s)) = dblocks d (e_stable s)"
    "disk_live d (disk_part (upd_log ws s)) = disk_live d (disk_part s)"
    "unarmed (upd_log ws s) = unarmed s" "wl_fd (fst ws) = wl_fd (fst (e_stable s))"
proof -
  have sb: "same_but (wl_fd (fst (e_stable s))) (inner (disk_part s)) (snd ws)" and fd: "wl_fd (fst ws) = wl_fd (fst (e_stable s))"
    using assms(1) by (simp_all add: log_grows_def wal_of_def)
  then have f: "wfile (snd ws) (pd_fd d) = wfile (inner (disk_part s)) (pd_fd d)" using assms(2) by (simp add: same_but_def)
  show "dblocks d (e_stable (upd_log ws s)) = dblocks d (e_stable s)"
    by (simp add: dblocks_disk disk_blocks_def pd_blocks_def fun_eq_iff f)
  show "disk_live d (disk_part (upd_log ws s)) = disk_live d (disk_part s)"
    by (simp add: disk_live_def pd_live_def f)
  show "unarmed (upd_log ws s) = unarmed s" using sb by (simp add: unarmed_def disk_doomed_def same_but_def)
  show "wl_fd (fst ws) = wl_fd (fst (e_stable s))" by (rule fd)
qed

lemma lsn_below_mono: "lsn_below L c \<Longrightarrow> L \<le> L' \<Longrightarrow> lsn_below L' c"
  by (fastforce simp: lsn_below_def)

lemma outside_txn:
  assumes "coherent G W n c m" and "0 < b" and "b < n" and "b \<notin> txns c"
  shows "vw c m b = G b"
  using coherent_entry [OF assms(1-3)] assms(4) by (auto simp: entry_ok_def vw_def in_txns split: option.splits)

text \<open>The log of a transaction that was cut short: the next mount still recovers the old contents.\<close>

lemma txn_killed:
  assumes "log_state d sb rs (e_stable s)" and "core d G (logW sb rs) s" and "gives sb rs G"
    and "unat (next_lsn (log_of_engine s)) + length bs + 2 < 2 ^ 64"
    and "\<forall>b \<in> set bs. b \<noteq> 0 \<and> b < pd_count d \<and> is_block (v b)"
    and "log_grows (wal_of s) (log_bytes (txn_records (next_lsn (log_of_engine s)) v bs)) k (Killed :: 'a outcome) ws"
  shows "recovers d G (upd_log ws s)" "\<not> unarmed s"
proof -
  let ?new = "txn_records (next_lsn (log_of_engine s)) v bs"
  have fd: "wl_fd (fst (e_stable s)) \<noteq> pd_fd d" and ro: "records_ok (pd_count d) sb rs (next_lsn (log_of_engine s))"
    using assms(1) by (simp_all add: log_state_def stable_ok_def log_of_engine_def)
  note disk = log_grows_disk [OF assms(6) fd]
  have str: "stream (wal_of s) = log_bytes rs" "content (log_file (wal_of s)) = log_bytes rs"
    using assms(1) by (simp_all add: stream_def log_state_def wal_of_def disk_part_def)
  from assms(6) obtain j where j: "length (log_bytes rs) \<le> j" "j < length (log_bytes (rs @ ?new))"
    "content (log_file ws) = take j (log_bytes (rs @ ?new))" and dm: "fatal (wfault (snd (wal_of s))) \<noteq> 0"
    by (auto simp: log_grows_def str)
  show "\<not> unarmed s" using dm by (simp add: unarmed_def disk_doomed_def wal_of_def)
  from torn_txn [OF ro assms(4,5) j(1,2)] obtain extra where
    ex: "parse_log (pd_count d) None (take j (log_bytes (rs @ ?new))) = rs @ extra"
    "\<forall>r \<in> set extra. h_type (header r) \<noteq> WAL_COMMIT \<and> h_txn_id (header r) \<notin> committed_txns rs"
    "set extra \<subseteq> set ?new" by blast
  have sb: "sb = decode_superblock (dblocks d (e_stable (upd_log ws s)) 0)" "total_blocks sb = pd_count d"
    using assms(1) ro by (simp_all add: disk(1) log_state_def records_ok_def)
  note ro' = records_ok_txn [OF ro assms(4,5)]
  show "recovers d G (upd_log ws s)"
  proof (rule recoversI [OF sb _ ex(2) assms(3), where N = "next_lsn (log_of_engine s) + of_nat (length bs + 2)"])
    show "parse_log (pd_count d) None (content (log_file (fst (e_stable (upd_log ws s)), inner (snd (e_stable (upd_log ws s)))))) = rs @ extra"
      using ex(1) j(3) by simp
    show "dblocks d (e_stable (upd_log ws s)) b = G b" if "0 < b" "b < pd_count d" "b \<notin> logW sb rs" for b
      unfolding disk(1) by (rule core_disk [OF assms(2) that])
    show "last_checkpoint_lsn sb < next_lsn (log_of_engine s) + of_nat (length bs + 2)" using ro' by (simp add: records_ok_def)
    show "h_lsn (header r) < next_lsn (log_of_engine s) + of_nat (length bs + 2)" if "r \<in> set (rs @ extra)" for r
      using ro' ex(3) that unfolding records_ok_def by auto
  qed
qed

lemma txn_logged:
  assumes "log_state d sb rs (e_stable s)" and "unat txn + length bs + 2 < 2 ^ 64" and "txn = next_lsn (log_of_engine s)"
    and "\<forall>b \<in> set bs. b \<noteq> 0 \<and> b < pd_count d \<and> is_block (v b)"
    and "log_grows (wal_of s) (log_bytes (txn_records txn v bs)) (length bs + 2) (Ret x) ws"
    and "batch (fst ws) = []" and "durable_lsn (fst ws) = txn + 1 + of_nat (length bs)"
  shows "log_state d sb (rs @ txn_records txn v bs) (e_stable (upd_log ws s))"
proof -
  have fd: "wl_fd (fst (e_stable s)) \<noteq> pd_fd d" and ro: "records_ok (pd_count d) sb rs txn"
    using assms(1,3) by (simp_all add: log_state_def stable_ok_def log_of_engine_def)
  note disk = log_grows_disk [OF assms(5) fd]
  have str: "stream (wal_of s) = log_bytes rs" using assms(1) by (simp add: stream_def log_state_def wal_of_def disk_part_def)
  have g: "wal_ok ws" "content (log_file ws) = log_bytes (rs @ txn_records txn v bs)"
    "next_lsn (fst ws) = txn + of_nat (length bs + 2)"
  proof -
    have "content (log_file ws) = stream ws" by (simp add: stream_def assms(6))
    then show "wal_ok ws" "content (log_file ws) = log_bytes (rs @ txn_records txn v bs)"
      "next_lsn (fst ws) = txn + of_nat (length bs + 2)"
      using assms(3,5) by (simp_all add: log_grows_def str log_of_wal)
  qed
  have "dlive d (e_stable (upd_log ws s))"
    using assms(1) disk(2) by (simp add: log_state_def stable_ok_def dlive_def disk_live_def disk_part_def)
  then have "stable_ok d (e_stable (upd_log ws s))"
    using g(1) disk(4) fd by (simp add: stable_ok_def wal_ok_def)
  moreover have "durable_lsn (fst ws) = next_lsn (fst ws) - 1" using assms(7) g(3) by simp
  moreover have "records_ok (pd_count d) sb (rs @ txn_records txn v bs) (next_lsn (fst ws))"
    unfolding g(3) by (rule records_ok_txn [OF ro assms(2,4)])
  ultimately show ?thesis using assms(1,6) g(1,2) by (simp add: log_state_def disk(1))
qed

lemma write_txn_ok:
  assumes "store_ok d G s" and "set bs = txns (e_cache s)" and "distinct bs"
    and "unat (next_lsn (log_of_engine s)) + length bs + 2 < 2 ^ 64"
  shows "\<exists>r s'. write_txn bs s = (r, s') \<and> unarmed s' = unarmed s \<and>
    (r = Killed \<and> \<not> unarmed s \<and> recovers d G s' \<or>
     r = Ret () \<and> (\<exists>G'. store_ok d G' s' \<and> (\<forall>b. 0 < b \<longrightarrow> b < pd_count d \<longrightarrow> G' b = engine_view d s b)) \<and>
     txns (e_cache s') = {} \<and> engine_view d s' = engine_view d s \<and>
     ctl s' = (ctl s)\<lparr>commits := commits (ctl s) + 1\<rparr> \<and>
     next_lsn (log_of_engine s') = next_lsn (log_of_engine s) + of_nat (length bs + 2))"
proof -
  let ?sb = "j_sb (ctl s)" and ?c = "e_cache s" and ?m = "disk_blocks d (disk_part s)"
  define v where "v = vw ?c ?m"
  define txn where "txn = next_lsn (log_of_engine s)"
  define t where "t = txn + 1 + of_nat (length bs)"
  from assms(1) obtain rs where ls: "log_state d ?sb rs (e_stable s)" and co: "core d G (logW ?sb rs) s" and gv: "gives ?sb rs G"
    by (auto simp: store_ok_def)
  have ci: "cinv (pd_count d) ?c" "coherent G (logW ?sb rs) (pd_count d) ?c ?m" "disk_live d (disk_part s)"
    and lb: "lsn_below (durable_lsn (log_of_engine s)) ?c"
    using co by (simp_all add: core_def cache_ok_def)
  have fd: "wl_fd (fst (e_stable s)) \<noteq> pd_fd d" and wok: "wal_ok (wal_of s)"
    and dur: "durable_lsn (log_of_engine s) = txn - 1" and ro: "records_ok (pd_count d) ?sb rs txn"
    using ls by (simp_all add: log_state_def stable_ok_def wal_of_def disk_part_def log_of_engine_def txn_def)
  have range: "\<forall>b \<in> set bs. b \<noteq> 0 \<and> b < pd_count d \<and> is_block (v b)"
  proof
    fix b assume "b \<in> set bs"
    then obtain x dt l where "cview ?c b = Some (x, dt, True, l)" using assms(2) by (auto simp: txns_def)
    with cview_range [OF ci(1) this] show "b \<noteq> 0 \<and> b < pd_count d \<and> is_block (v b)" by (simp add: v_def vw_def)
  qed
  have room: "unat txn + length bs + 2 < 2 ^ 64" using assms(4) by (simp add: txn_def)
  have "set bs \<subseteq> txns ?c" "txn = next_lsn (fst (wal_of s))" using assms(2) by (simp_all add: txn_def log_of_wal)
  from log_txn_ok [OF wok ci(1) this(1) v_def this(2)] obtain r ws where
    lt: "log_txn bs s = (r, upd_log ws s)" "log_grows (wal_of s) (log_bytes (txn_records txn v bs)) (length bs + 2) r ws"
    "\<forall>x. r = Ret x \<longrightarrow> x = t \<and> batch (fst ws) = [] \<and> durable_lsn (fst ws) = x"
    by (auto simp: grows_def t_def)
  note disk = log_grows_disk [OF lt(2) fd]
  show ?thesis
  proof (cases r)
    case (Halted h)
    with lt(2) have Killed: "r = Killed" by (simp add: log_grows_def)
    have "recovers d G (upd_log ws s)" "\<not> unarmed s"
      using txn_killed [OF ls co gv assms(4) range lt(2) [unfolded Killed txn_def]] by simp_all
    moreover have "write_txn bs s = (Killed, upd_log ws s)" using lt(1) Killed by (simp add: write_txn_log bindE_def)
    ultimately show ?thesis using disk(3) by blast
  next
    case (Raise e)
    with lt(2) show ?thesis by (simp add: log_grows_def)
  next
    case (Ret x)
    then have x: "x = t" "batch (fst ws) = []" "durable_lsn (fst ws) = t" using lt(3) by simp_all
    let ?s1 = "upd_log ws s" and ?new = "txn_records txn v bs"
    let ?G = "\<lambda>b. if b \<in> set bs then v b else G b"
    have m1: "disk_blocks d (disk_part ?s1) = ?m" using disk(1) by (simp add: dblocks_disk)
    have "cinv (pd_count d) (e_cache ?s1)" "set bs \<subseteq> txns (e_cache ?s1)" "coherent G (logW ?sb rs) (pd_count d) (e_cache ?s1) ?m"
      using ci assms(2) by simp_all
    from commit_frames_ok [OF this(1,2) assms(3) this(3), of t] obtain c' where
      c': "forE bs (\<lambda>b. on_frames (commit_frame b t)) ?s1 = (Ret (), ?s1\<lparr>e_cache := c'\<rparr>)" "cinv (pd_count d) c'"
      "coherent ?G (logW ?sb rs \<union> set bs) (pd_count d) c' ?m" "vw c' ?m = v" "txns c' = {}"
      "\<forall>L. lsn_below L ?c \<longrightarrow> t \<le> L \<longrightarrow> lsn_below L c'"
      unfolding upd_log_simps(3) v_def [symmetric] assms(2) [symmetric] Diff_cancel by blast
    define s' where "s' = ?s1\<lparr>e_cache := c', ctl := (ctl s)\<lparr>commits := commits (ctl s) + 1\<rparr>\<rparr>"
    have run: "write_txn bs s = (Ret (), s')"
      using lt(1) Ret x(1) c'(1) by (simp add: write_txn_log bindE_def thenE_def upd_ctl_def modE_def s'_def)
    have st': "e_stable s' = e_stable ?s1" "disk_part s' = disk_part ?s1" "e_cache s' = c'" "log_of_engine s' = fst ws" "j_sb (ctl s') = ?sb"
      by (simp_all add: s'_def disk_part_def log_of_engine_def)
    have ls': "log_state d ?sb (rs @ ?new) (e_stable s')"
      unfolding st'(1) by (rule txn_logged [OF ls room txn_def range lt(2) [unfolded Ret]]) (use x in \<open>simp_all add: t_def\<close>)
    have "txn - 1 \<le> t"
    proof -
      have "unat t = unat txn + 1 + length bs" using room unfolding t_def by (simp add: unat_word_ariths unat_of_nat)
      moreover have "unat (txn - 1) = unat txn - 1" using ro by (intro unat_minus_one) (simp add: records_ok_def follows_def)
      ultimately show ?thesis by (simp add: word_le_nat_alt)
    qed
    then have "lsn_below t c'" using c'(6) lsn_below_mono [OF lb] dur by simp
    moreover have "cache_ok d ?G (logW ?sb (rs @ ?new)) c' (disk_part s')"
      unfolding replay_txn(2) [OF ro room] cache_ok_def st'(2) using c'(2,3) disk(2) ci(3) m1 by simp
    ultimately have co': "core d ?G (logW ?sb (rs @ ?new)) s'"
      using co x(3) unfolding core_def st' by (simp add: s'_def)
    have "gives ?sb (rs @ ?new) ?G"
      using gv unfolding gives_def replay_txn [OF ro room] by auto
    with ls' co' st'(5) have so: "store_ok d ?G s'" by (auto simp: store_ok_def)
    have ev: "engine_view d s' = v" "engine_view d s = v"
      using c'(4) by (simp_all add: engine_view_def st'(2,3) m1 v_def)
    have "?G b = engine_view d s b" if "0 < b" "b < pd_count d" for b
      using outside_txn [OF ci(2) that] assms(2) unfolding ev(2) by (simp add: v_def)
    then have "\<exists>G'. store_ok d G' s' \<and> (\<forall>b. 0 < b \<longrightarrow> b < pd_count d \<longrightarrow> G' b = engine_view d s b)" using so by blast
    moreover have "unarmed s' = unarmed s" using disk(3) by (simp add: unarmed_def st'(2))
    moreover have "next_lsn (log_of_engine s') = txn + of_nat (length bs + 2)"
      unfolding st'(4) using lt(2) Ret by (simp add: log_grows_def txn_def log_of_wal)
    moreover have "ctl s' = (ctl s)\<lparr>commits := commits (ctl s) + 1\<rparr>" by (simp add: s'_def)
    moreover have "txns (e_cache s') = {}" "engine_view d s' = engine_view d s" using c'(5) st'(3) ev by simp_all
    ultimately show ?thesis using run unfolding txn_def [symmetric] by blast
  qed
qed

section \<open>The checkpoint\<close>

definition after_write_back :: "disk device \<Rightarrow> (engine, unit) op" where
  "after_write_back dev =
     thenE (on_stable (on_disk (dev_sync dev)))
    (bindE (getE (\<lambda>s. next_lsn (log_of_engine s) - 1)) (\<lambda>last_lsn.
     thenE (upd_ctl (\<lambda>c. c\<lparr>j_sb := (j_sb c)\<lparr>last_checkpoint_lsn := last_lsn\<rparr>\<rparr>))
    (bindE (getE (\<lambda>s. j_sb (ctl s))) (\<lambda>sb.
     thenE (on_stable (on_disk (write_superblock dev sb)))
    (thenE (on_stable (on_disk (dev_sync dev)))
    (thenE (on_stable (on_wal_file (wal_reset (last_lsn + 1))))
    (upd_ctl (\<lambda>c. c\<lparr>checkpoints := checkpoints c + 1\<rparr>))))))))"

lemma do_checkpoint_parts:
  "do_checkpoint dev = thenE (with_durable (\<lambda>durable. on_cache (write_back dev durable None))) (after_write_back dev)"
  by (simp add: do_checkpoint_def after_write_back_def)

lemma on_stable_run: "m (e_stable s) = (r, st) \<Longrightarrow> on_stable m s = (r, s\<lparr>e_stable := st\<rparr>)"
  by (simp add: on_stable_def zoomE_def)

lemma on_disk_fst: "on_disk m st = (r, st') \<Longrightarrow> fst st' = fst st"
  by (auto simp: on_disk_def zoomE_def split: prod.splits)

definition mark_checkpoint :: "u64 \<Rightarrow> control \<Rightarrow> control" where
  "mark_checkpoint l c = c\<lparr>j_sb := (j_sb c)\<lparr>last_checkpoint_lsn := l\<rparr>\<rparr>"

text \<open>The end of a checkpoint does to the disk and the log what the end of a recovery does.\<close>

lemma after_write_back_run:
  assumes "l = next_lsn (log_of_engine s) - 1" and "sb' = (j_sb (ctl s))\<lparr>last_checkpoint_lsn := l\<rparr>"
    and "thenE (on_disk (dev_sync dev)) (thenE (on_disk (write_superblock dev sb'))
      (thenE (on_disk (dev_sync dev)) (thenE (on_wal_file (wal_reset (l + 1))) (retE x)))) (e_stable s) = (r, st)"
    and "r = Ret x \<or> r = Killed"
  shows "\<exists>j. after_write_back dev s = (if r = Killed then Killed else Ret (), s\<lparr>e_stable := st, ctl := j\<rparr>) \<and>
    (r = Ret x \<longrightarrow> j = (mark_checkpoint l (ctl s))\<lparr>checkpoints := checkpoints (ctl s) + 1\<rparr>)"
proof -
  obtain rA stA where A: "on_disk (dev_sync dev) (e_stable s) = (rA, stA)" by (metis surj_pair)
  let ?sA = "s\<lparr>e_stable := stA\<rparr>"
  have lA: "next_lsn (log_of_engine ?sA) - 1 = l" using on_disk_fst [OF A] assms(1) by (simp add: log_of_engine_def)
  let ?s2 = "?sA\<lparr>ctl := mark_checkpoint l (ctl s)\<rparr>"
  obtain rB stB where B: "on_disk (write_superblock dev sb') stA = (rB, stB)" by (metis surj_pair)
  obtain rC stC where C: "on_disk (dev_sync dev) stB = (rC, stC)" by (metis surj_pair)
  obtain rD stD where D: "on_wal_file (wal_reset (l + 1)) stC = (rD, stD)" by (metis surj_pair)
  have sb: "j_sb (mark_checkpoint l (ctl s)) = sb'" by (simp add: mark_checkpoint_def assms(2))
  have A': "on_stable (on_disk (dev_sync dev)) s = (rA, ?sA)" by (rule on_stable_run) (rule A)
  have B': "on_stable (on_disk (write_superblock dev sb')) ?s2 = (rB, ?s2\<lparr>e_stable := stB\<rparr>)"
    by (rule on_stable_run) (use B in simp)
  have C': "on_stable (on_disk (dev_sync dev)) (?s2\<lparr>e_stable := stB\<rparr>) = (rC, ?s2\<lparr>e_stable := stC\<rparr>)"
    using on_stable_run [where s = "?s2\<lparr>e_stable := stB\<rparr>" and m = "on_disk (dev_sync dev)"] C by simp
  have D': "on_stable (on_wal_file (wal_reset (l + 1))) (?s2\<lparr>e_stable := stC\<rparr>) = (rD, ?s2\<lparr>e_stable := stD\<rparr>)"
    using on_stable_run [where s = "?s2\<lparr>e_stable := stC\<rparr>" and m = "on_wal_file (wal_reset (l + 1))"] D by simp
  have run: "after_write_back dev s = bindE (\<lambda>_. (rA, ?sA)) (\<lambda>_. bindE (\<lambda>_. (rB, ?s2\<lparr>e_stable := stB\<rparr>)) (\<lambda>_.
      bindE (\<lambda>_. (rC, ?s2\<lparr>e_stable := stC\<rparr>)) (\<lambda>_. bindE (\<lambda>_. (rD, ?s2\<lparr>e_stable := stD\<rparr>)) (\<lambda>_.
      upd_ctl (\<lambda>c. c\<lparr>checkpoints := checkpoints c + 1\<rparr>))))) s"
  proof (cases rA)
    case (Ret y)
    have mid: "thenE (upd_ctl (\<lambda>c. c\<lparr>j_sb := (j_sb c)\<lparr>last_checkpoint_lsn := l\<rparr>\<rparr>)) k ?sA = k ?s2" for k :: "(engine, unit) op"
      by (simp add: thenE_def bindE_def upd_ctl_def modE_def mark_checkpoint_def)
    show ?thesis
      unfolding after_write_back_def thenE_def [of "on_stable (on_disk (dev_sync dev))"]
      using A' B' C' D' lA sb Ret mid by (cases rB; cases rC; cases rD) (simp_all add: thenE_def bindE_def getE_def)
  qed (use A' in \<open>simp_all add: after_write_back_def thenE_def bindE_def\<close>)
  have fin: "(r, st) = bindE (\<lambda>_. (rA, stA)) (\<lambda>_. bindE (\<lambda>_. (rB, stB)) (\<lambda>_. bindE (\<lambda>_. (rC, stC)) (\<lambda>_.
      bindE (\<lambda>_. (rD, stD)) (\<lambda>_. retE x)))) (e_stable s)"
    using assms(3) A B C D by (cases rA; cases rB; cases rC; cases rD) (simp_all add: thenE_def bindE_def)
  show ?thesis
  proof (intro exI [of _ "ctl (snd (after_write_back dev s))"])
    note defs = bindE_def upd_ctl_def modE_def mark_checkpoint_def
    show "after_write_back dev s = (if r = Killed then Killed else Ret (), s\<lparr>e_stable := st, ctl := ctl (snd (after_write_back dev s))\<rparr>) \<and>
      (r = Ret x \<longrightarrow> ctl (snd (after_write_back dev s)) = (mark_checkpoint l (ctl s))\<lparr>checkpoints := checkpoints (ctl s) + 1\<rparr>)"
    proof (cases rA)
      case rA: (Ret a)
      show ?thesis
      proof (cases rB)
        case rB: (Ret b)
        show ?thesis
        proof (cases rC)
          case rC: (Ret c)
          show ?thesis by (cases rD) (use run fin assms(4) rA rB rC in \<open>simp_all add: defs\<close>)
        qed (use run fin assms(4) rA rB in \<open>simp_all add: defs\<close>)
      qed (use run fin assms(4) rA in \<open>simp_all add: defs\<close>)
    qed (use run fin assms(4) in \<open>simp_all add: defs\<close>)
  qed
qed

text \<open>Once the disk is up to date either superblock makes the next mount recover the same.\<close>

lemma past_checkpoint:
  assumes "records_ok n sb rs nxt" and "sb' = sb\<lparr>last_checkpoint_lsn := nxt - 1\<rparr>"
  shows "logW sb' rs = {}" "gives sb' rs G" "records_ok n sb' [] nxt"
proof -
  have nz: "nxt \<noteq> 0" using assms(1) by (simp add: records_ok_def follows_def)
  then have u: "unat (nxt - 1) = unat nxt - 1" "0 < unat nxt" by (simp_all add: unat_minus_one unat_gt_0)
  have "\<not> nxt - 1 < h_lsn (header r)" if "r \<in> set rs" for r
  proof -
    have "h_lsn (header r) < nxt" using assms(1) that by (simp add: records_ok_def)
    then show ?thesis using u by (simp add: word_less_nat_alt)
  qed
  then show w: "logW sb' rs = {}" unfolding logW_def written_def replayed_def assms(2) by auto
  then show "gives sb' rs G" by (simp add: gives_def)
  have "nxt - 1 < nxt" using u by (simp add: word_less_nat_alt)
  with nz assms show "records_ok n sb' [] nxt" by (simp add: records_ok_def follows_def)
qed

text \<open>What holds when everything has been written back: the disk alone has the committed contents.\<close>

definition synced :: "pread_dev \<Rightarrow> (u32 \<Rightarrow> block) \<Rightarrow> wal_record list \<Rightarrow> engine \<Rightarrow> bool" where
  "synced d G rs s \<longleftrightarrow> log_state d (j_sb (ctl s)) rs (e_stable s) \<and> gives (j_sb (ctl s)) rs G \<and> core d G {} s \<and>
     (\<forall>b. 0 < b \<longrightarrow> b < pd_count d \<longrightarrow> dblocks d (e_stable s) b = G b)"

lemma torn_checkpoint:
  assumes "synced d G rs s" and "sb' = (j_sb (ctl s))\<lparr>last_checkpoint_lsn := next_lsn (log_of_engine s) - 1\<rparr>"
    and "same_log d (e_stable s) st'" and "dblocks d st' = (dblocks d (e_stable s))(0 := torn_block k (super_image sb') (dblocks d (e_stable s) 0))"
    and "0 < pd_count d" and "s' = s\<lparr>e_stable := st', ctl := j\<rparr>"
  shows "recovers d G s'"
proof -
  let ?sb = "j_sb (ctl s)" and ?n = "next_lsn (log_of_engine s)" and ?d = "decode_superblock (dblocks d st' 0)"
  have ls: "log_state d ?sb rs (e_stable s)" and gv: "gives ?sb rs G" using assms(1) by (simp_all add: synced_def)
  have ro: "records_ok (pd_count d) ?sb rs ?n" using ls by (simp add: log_state_def log_of_engine_def)
  have fd: "wl_fd (fst (e_stable s)) \<noteq> pd_fd d" using ls by (simp add: log_state_def stable_ok_def)
  have "is_block (dblocks d (e_stable s) 0)"
    using assms(1,5) image.len by (simp add: synced_def core_def cache_ok_def dblocks_disk)
  then have "?d = (if k = 0 then ?sb else sb')" using torn_super ls by (simp add: assms(4) log_state_def)
  then have dec: "?d \<in> {?sb, sb'}" by simp
  have log: "log_file (fst st', inner (snd st')) = log_file (fst (e_stable s), inner (snd (e_stable s)))"
    by (rule same_log_file [OF assms(3) fd])
  have tot: "total_blocks ?d = pd_count d" using dec assms(2) ro by (auto simp: records_ok_def)
  have st: "e_stable s' = st'" by (simp add: assms(6))
  show ?thesis
  proof (rule recoversI [where s = s' and rs = rs and extra = "[]" and N = ?n, unfolded st, OF refl tot])
    show "parse_log (pd_count d) None (content (log_file (fst st', inner (snd st')))) = rs @ []"
      unfolding log using log_state_parse [OF ls] ro by (simp add: records_ok_def)
    show "gives ?d rs G" using dec gv past_checkpoint(2) [OF ro assms(2)] by auto
    have "last_checkpoint_lsn sb' < ?n" using past_checkpoint(3) [OF ro assms(2)] by (simp add: records_ok_def)
    then show "last_checkpoint_lsn ?d < ?n" using dec ro by (auto simp: records_ok_def)
    show "h_lsn (header r) < ?n" if "r \<in> set (rs @ [])" for r using ro that by (simp add: records_ok_def)
    show "dblocks d st' b = G b" if "0 < b" "b < pd_count d" for b using assms(1,4) that by (auto simp: synced_def)
  qed simp
qed

lemma after_write_back_ok:
  assumes "synced d G rs s" and "0 < pd_count d"
  shows "\<exists>r s'. after_write_back (disk_of d sy) s = (r, s') \<and> unarmed s' = unarmed s \<and>
    (r = Killed \<and> \<not> unarmed s \<and> recovers d G s' \<or>
     r = Ret () \<and> store_ok d G s' \<and> e_cache s' = e_cache s \<and>
     (\<forall>b. b \<noteq> 0 \<longrightarrow> dblocks d (e_stable s') b = dblocks d (e_stable s) b) \<and>
     ctl s' = (mark_checkpoint (next_lsn (log_of_engine s) - 1) (ctl s))\<lparr>checkpoints := checkpoints (ctl s) + 1\<rparr> \<and>
     next_lsn (log_of_engine s') = next_lsn (log_of_engine s))"
proof -
  let ?sb = "j_sb (ctl s)" and ?D = "disk_of d sy"
  define nxt where "nxt = next_lsn (log_of_engine s)"
  define sb' where "sb' = ?sb\<lparr>last_checkpoint_lsn := nxt - 1\<rparr>"
  have ls: "log_state d ?sb rs (e_stable s)" and co: "core d G {} s" using assms(1) by (simp_all add: synced_def)
  have so: "stable_ok d (e_stable s)" and ro: "records_ok (pd_count d) ?sb rs nxt" and dur: "durable_lsn (log_of_engine s) = nxt - 1"
    using ls by (simp_all add: log_state_def nxt_def log_of_engine_def)
  note past = past_checkpoint [OF ro sb'_def]
  have ne: "nxt - 1 \<noteq> - 1" using ro by (simp add: records_ok_def follows_def)
  from recover_finish [where sb' = sb' and info = no_recovery and sy = sy, OF so assms(2) ne] obtain out st' where
    fin: "thenE (on_disk (dev_sync ?D)) (thenE (on_disk (write_superblock ?D sb')) (thenE (on_disk (dev_sync ?D))
      (thenE (on_wal_file (wal_reset (nxt - 1 + 1))) (retE (no_recovery, sb'))))) (e_stable s) = (out, st')"
    "stable_ok d st'" "armed st' = armed (e_stable s)"
    "out = Ret (no_recovery, sb') \<and> dblocks d st' = (dblocks d (e_stable s))(0 := super_image sb') \<and> fresh_log st' (nxt - 1 + 1) \<or>
     out = Killed \<and> armed (e_stable s) \<and> same_log d (e_stable s) st' \<and>
       (\<exists>k. dblocks d st' = (dblocks d (e_stable s))(0 := torn_block k (super_image sb') (dblocks d (e_stable s) 0)))" by blast
  have oc: "out = Ret (no_recovery, sb') \<or> out = Killed" using fin(4) by blast
  from after_write_back_run [OF _ sb'_def fin(1) oc] obtain j where
    j: "after_write_back ?D s = (if out = Killed then Killed else Ret (), s\<lparr>e_stable := st', ctl := j\<rparr>)"
    "out = Ret (no_recovery, sb') \<longrightarrow> j = (mark_checkpoint (nxt - 1) (ctl s))\<lparr>checkpoints := checkpoints (ctl s) + 1\<rparr>"
    by (auto simp: nxt_def)
  define s' where "s' = s\<lparr>e_stable := st', ctl := j\<rparr>"
  have arm: "armed st \<longleftrightarrow> disk_doomed (snd st)" for st by (simp add: armed_def disk_doomed_def)
  have un: "unarmed s' = unarmed s" using fin(3) by (simp add: unarmed_def s'_def disk_part_def arm)
  from fin(4) show ?thesis
  proof (elim disjE conjE exE)
    fix k assume out: "out = Killed" and k: "armed (e_stable s)" "same_log d (e_stable s) st'"
      "dblocks d st' = (dblocks d (e_stable s))(0 := torn_block k (super_image sb') (dblocks d (e_stable s) 0))"
    have "recovers d G s'" by (rule torn_checkpoint [OF assms(1) sb'_def [unfolded nxt_def] k(2,3) assms(2) s'_def])
    moreover have "\<not> unarmed s" using k(1) by (simp add: arm unarmed_def disk_part_def)
    ultimately show ?thesis using j(1) out un by (simp add: s'_def)
  next
    assume out: "out = Ret (no_recovery, sb')" and bl: "dblocks d st' = (dblocks d (e_stable s))(0 := super_image sb')"
      and fr: "fresh_log st' (nxt - 1 + 1)"
    have jv: "j = (mark_checkpoint (nxt - 1) (ctl s))\<lparr>checkpoints := checkpoints (ctl s) + 1\<rparr>" using j(2) out by simp
    then have jsb: "j_sb j = sb'" "enabled j = enabled (ctl s)" "j_total_blocks j = j_total_blocks (ctl s)"
      by (simp_all add: mark_checkpoint_def sb'_def)
    have "log_state d sb' [] st'"
      using fin(2) fr past(3) bl by (simp add: log_state_def fresh_log_def stream_def)
    moreover have "core d G {} s'"
    proof -
      have m: "disk_blocks d (disk_part s') = (disk_blocks d (disk_part s))(0 := super_image sb')"
        using bl by (simp add: s'_def disk_part_def dblocks_def disk_blocks_def)
      have "coherent G {} (pd_count d) (e_cache s) (disk_blocks d (disk_part s'))"
        using co unfolding m core_def cache_ok_def coherent_def by auto
      moreover have "disk_live d (disk_part s')" using fin(2) by (simp add: stable_ok_def dlive_def disk_live_def s'_def disk_part_def)
      moreover have "durable_lsn (log_of_engine s') = durable_lsn (log_of_engine s)"
        using fr dur by (simp add: fresh_log_def s'_def log_of_engine_def)
      ultimately show ?thesis using co jsb by (simp add: core_def cache_ok_def s'_def)
    qed
    ultimately have "store_ok d G s'"
      unfolding store_ok_def by (intro exI [of _ "[]"]) (simp add: s'_def jsb gives_def logW_def)
    moreover have "next_lsn (log_of_engine s') = nxt" using fr by (simp add: fresh_log_def s'_def log_of_engine_def)
    ultimately show ?thesis using j(1) out un jv bl unfolding nxt_def [symmetric] by (simp add: s'_def)
  qed
qed

lemma do_checkpoint_ok:
  assumes "store_ok d G s" and "txns (e_cache s) = {}" and "0 < pd_count d"
  shows "\<exists>r s'. do_checkpoint (disk_of d sy) s = (r, s') \<and> unarmed s' = unarmed s \<and>
    (r = Killed \<and> \<not> unarmed s \<and> recovers d G s' \<or>
     r = Ret () \<and> store_ok d G s' \<and> txns (e_cache s') = {} \<and>
     (\<forall>b. b \<noteq> 0 \<longrightarrow> engine_view d s' b = engine_view d s b) \<and>
     ctl s' = (mark_checkpoint (next_lsn (log_of_engine s) - 1) (ctl s))\<lparr>checkpoints := checkpoints (ctl s) + 1\<rparr> \<and>
     next_lsn (log_of_engine s') = next_lsn (log_of_engine s))"
proof -
  let ?sb = "j_sb (ctl s)" and ?D = "disk_of d sy" and ?L = "durable_lsn (log_of_engine s)"
  from assms(1) obtain rs where ls: "log_state d ?sb rs (e_stable s)" and co: "core d G (logW ?sb rs) s" and gv: "gives ?sb rs G"
    by (auto simp: store_ok_def)
  have ok: "image.ok d sy G (logW ?sb rs) (e_cache s) (disk_part s)" and lb: "lsn_below ?L (e_cache s)"
    using co by (simp_all add: core_def cache_ok_image [of _ _ _ _ _ sy])
  from image.write_back_all [OF ok assms(2) lb] obtain r c1 ds1 where
    w: "write_back ?D ?L None (e_cache s, disk_part s) = (r, (c1, ds1))" "image.moved d (logW ?sb rs) (disk_part s) ds1"
    "r = Killed \<and> disk_doomed (disk_part s) \<or> (\<exists>k. r = Ret k) \<and> image.ok d sy G {} c1 ds1 \<and> txns c1 = {} \<and>
      vw c1 (disk_blocks d ds1) = engine_view d s \<and> (\<forall>L. lsn_below L (e_cache s) \<longrightarrow> lsn_below L c1) \<and>
      (\<forall>b. 0 < b \<longrightarrow> b < pd_count d \<longrightarrow> disk_blocks d ds1 b = G b)"
    by (auto simp: engine_view_def)
  define s1 where "s1 = s\<lparr>e_cache := c1, e_stable := (fst (e_stable s), ds1)\<rparr>"
  have st: "stays d (logW ?sb rs) s s1" unfolding s1_def by (rule stays_image [OF w(2)])
  have wb: "with_durable (\<lambda>durable. on_cache (write_back ?D durable None)) s = (r, s1)"
    using w(1) by (simp add: with_durable_def bindE_def getE_def on_cache_def zoomE_def disk_part_def s1_def)
  from w(3) show ?thesis
  proof (elim disjE conjE exE)
    assume "r = Killed" "disk_doomed (disk_part s)"
    then have "do_checkpoint ?D s = (Killed, s1)" "\<not> unarmed s" using wb by (simp_all add: do_checkpoint_parts thenE_def bindE_def unarmed_def)
    with stays_recovers [OF ls gv co st] stays_unarmed [OF st] show ?thesis by blast
  next
    fix k assume r: "r = Ret k" and ok1: "image.ok d sy G {} c1 ds1" and tx: "txns c1 = {}"
      and vw1: "vw c1 (disk_blocks d ds1) = engine_view d s" and lb1: "\<forall>L. lsn_below L (e_cache s) \<longrightarrow> lsn_below L c1"
      and onG: "\<forall>b. 0 < b \<longrightarrow> b < pd_count d \<longrightarrow> disk_blocks d ds1 b = G b"
    have s1: "log_of_engine s1 = log_of_engine s" "ctl s1 = ctl s" "e_cache s1 = c1" "disk_part s1 = ds1"
      by (simp_all add: s1_def log_of_engine_def disk_part_def)
    have "core d G {} s1" using co ok1 lb lb1 by (simp add: core_def s1 cache_ok_image [of _ _ _ _ _ sy])
    then have sy1: "synced d G rs s1"
      using stays_log_state [OF ls st] gv onG by (simp add: synced_def s1 dblocks_disk)
    have view: "engine_view d s' b = engine_view d s b"
      if "e_cache s' = e_cache s1" "dblocks d (e_stable s') b = dblocks d (e_stable s1) b" for s' b
    proof -
      have "vw (e_cache s') (disk_blocks d (disk_part s')) b = vw c1 (disk_blocks d ds1) b"
        by (rule vw_cong) (use that in \<open>simp_all add: dblocks_disk s1\<close>)
      then show ?thesis unfolding vw1 by (simp add: engine_view_def [of d s'])
    qed
    from after_write_back_ok [OF sy1 assms(3), of sy, unfolded s1] obtain r2 s' where
      a: "after_write_back ?D s1 = (r2, s')" "unarmed s' = unarmed s1"
      "r2 = Killed \<and> \<not> unarmed s1 \<and> recovers d G s' \<or>
       r2 = Ret () \<and> store_ok d G s' \<and> e_cache s' = c1 \<and> (\<forall>b. b \<noteq> 0 \<longrightarrow> dblocks d (e_stable s') b = dblocks d (e_stable s1) b) \<and>
       ctl s' = (mark_checkpoint (next_lsn (log_of_engine s) - 1) (ctl s))\<lparr>checkpoints := checkpoints (ctl s) + 1\<rparr> \<and>
       next_lsn (log_of_engine s') = next_lsn (log_of_engine s)" by blast
    have "do_checkpoint ?D s = (r2, s')" using wb r a(1) by (simp add: do_checkpoint_parts thenE_def bindE_def)
    moreover have "unarmed s1 = unarmed s" by (rule stays_unarmed [OF st])
    ultimately show ?thesis using a(2,3) view tx s1(3) by auto
  qed
qed

end
