(* ===== verification/Durability.thy ===== *)
theory Durability
  imports Commit
begin

text \<open>
  The journal's operations as the file system calls them, for one thread: what a commit makes
  durable, and what a mount after a kill at any write recovers.
\<close>

section \<open>The work of a commit\<close>

text \<open>A commit changes the journal's copy of the superblock and its counters only.\<close>

definition work_ctl :: "control \<Rightarrow> control \<Rightarrow> bool" where
  "work_ctl j j' \<longleftrightarrow> j' = j\<lparr>j_sb := j_sb j', commits := commits j', checkpoints := checkpoints j'\<rparr>"

lemma work_ctl_refl [simp]: "work_ctl j j"
  by (simp add: work_ctl_def)

lemma work_ctlD:
  assumes "work_ctl j j'"
  shows "enabled j' = enabled j" "j_total_blocks j' = j_total_blocks j" "gate j' = gate j"
    "committing j' = committing j" "failed j' = failed j" "ended j' = ended j" "committed_through j' = committed_through j"
    "max_txn_blocks j' = max_txn_blocks j" "txn_set j' = txn_set j" "txn_blocks j' = txn_blocks j" "txn_count j' = txn_count j"
proof -
  from assms obtain a b c where "j' = j\<lparr>j_sb := a, commits := b, checkpoints := c\<rparr>"
    unfolding work_ctl_def by blast
  then show "enabled j' = enabled j" "j_total_blocks j' = j_total_blocks j" "gate j' = gate j"
    "committing j' = committing j" "failed j' = failed j" "ended j' = ended j" "committed_through j' = committed_through j"
    "max_txn_blocks j' = max_txn_blocks j" "txn_set j' = txn_set j" "txn_blocks j' = txn_blocks j" "txn_count j' = txn_count j"
    by simp_all
qed

text \<open>The engine shows the same blocks; block 0 is the engine's own.\<close>

definition same_view :: "pread_dev \<Rightarrow> engine \<Rightarrow> engine \<Rightarrow> bool" where
  "same_view d s s' \<longleftrightarrow> (\<forall>b. b \<noteq> 0 \<longrightarrow> engine_view d s' b = engine_view d s b)"

lemma same_view_trans: "same_view d s s' \<Longrightarrow> same_view d s' s'' \<Longrightarrow> same_view d s s''"
  by (simp add: same_view_def)

text \<open>Everything the engine shows is committed, and nothing else is.\<close>

definition settled :: "pread_dev \<Rightarrow> (u32 \<Rightarrow> block) \<Rightarrow> engine \<Rightarrow> bool" where
  "settled d V s \<longleftrightarrow> txns (e_cache s) = {} \<and>
     (\<exists>G. store_ok d G s \<and> (\<forall>b. 0 < b \<longrightarrow> b < pd_count d \<longrightarrow> G b = V b))"

lemma recovers_cong:
  "(\<And>b. 0 < b \<Longrightarrow> b < pd_count d \<Longrightarrow> G b = G' b) \<Longrightarrow> recovers d G s = recovers d G' s"
  by (auto simp: recovers_def)

lemma settled_recovers: "settled d V s \<Longrightarrow> recovers d V s"
  unfolding settled_def using store_ok_recovers recovers_cong by metis

lemma write_txn_settles:
  assumes "store_ok d G s" and "set bs = txns (e_cache s)" and "distinct bs"
    and "unat (next_lsn (log_of_engine s)) + length bs + 2 < 2 ^ 64"
  shows "\<exists>r s'. whenE (bs \<noteq> []) (write_txn bs) s = (r, s') \<and> unarmed s' = unarmed s \<and>
    (r = Killed \<and> \<not> unarmed s \<and> recovers d G s' \<or>
     r = Ret () \<and> settled d (engine_view d s) s' \<and> same_view d s s' \<and> work_ctl (ctl s) (ctl s') \<and>
     unat (next_lsn (log_of_engine s')) \<le> unat (next_lsn (log_of_engine s)) + length bs + 2)"
proof (cases "bs = []")
  case True
  then have tx: "txns (e_cache s) = {}" using assms(2) by simp
  from assms(1) obtain rs where "core d G (logW (j_sb (ctl s)) rs) s" by (auto simp: store_ok_def)
  then have "engine_view d s b = G b" if "0 < b" "b < pd_count d" for b
    using outside_txn [OF _ that] tx by (auto simp: core_def cache_ok_def engine_view_def)
  then have "settled d (engine_view d s) s" using assms(1) tx by (auto simp: settled_def)
  with True show ?thesis by (simp add: same_view_def)
next
  case False
  from write_txn_ok [OF assms] obtain r s' where
    w: "write_txn bs s = (r, s')" "unarmed s' = unarmed s"
    "r = Killed \<and> \<not> unarmed s \<and> recovers d G s' \<or>
     r = Ret () \<and> (\<exists>G'. store_ok d G' s' \<and> (\<forall>b. 0 < b \<longrightarrow> b < pd_count d \<longrightarrow> G' b = engine_view d s b)) \<and>
     txns (e_cache s') = {} \<and> engine_view d s' = engine_view d s \<and>
     ctl s' = (ctl s)\<lparr>commits := commits (ctl s) + 1\<rparr> \<and>
     next_lsn (log_of_engine s') = next_lsn (log_of_engine s) + of_nat (length bs + 2)" by blast
  have "unat (l + of_nat (length bs + 2)) \<le> unat l + length bs + 2" if "l = next_lsn (log_of_engine s)" for l :: u64
    using assms(4) that by (simp add: unat_word_ariths unat_of_nat)
  moreover have "work_ctl (ctl s) ((ctl s)\<lparr>commits := commits (ctl s) + 1\<rparr>)" by (simp add: work_ctl_def)
  ultimately show ?thesis using w False by (auto simp: settled_def same_view_def)
qed

lemma commit_work_ok:
  assumes "store_ok d G s" and "set bs = txns (e_cache s)" and "distinct bs"
    and "unat (next_lsn (log_of_engine s)) + length bs + 2 < 2 ^ 64" and "0 < pd_count d"
  shows "\<exists>r s'. commit_work (disk_of d sy) bs wanted s = (r, s') \<and> unarmed s' = unarmed s \<and>
    (r = Killed \<and> \<not> unarmed s \<and> (recovers d G s' \<or> recovers d (engine_view d s) s') \<or>
     (\<exists>done. r = Ret done) \<and> settled d (engine_view d s) s' \<and> same_view d s s' \<and> work_ctl (ctl s) (ctl s') \<and>
     unat (next_lsn (log_of_engine s')) \<le> unat (next_lsn (log_of_engine s)) + length bs + 2)"
proof -
  let ?D = "disk_of d sy"
  from write_txn_settles [OF assms(1-4)] obtain r s1 where
    w: "whenE (bs \<noteq> []) (write_txn bs) s = (r, s1)" "unarmed s1 = unarmed s"
    "r = Killed \<and> \<not> unarmed s \<and> recovers d G s1 \<or>
     r = Ret () \<and> settled d (engine_view d s) s1 \<and> same_view d s s1 \<and> work_ctl (ctl s) (ctl s1) \<and>
     unat (next_lsn (log_of_engine s1)) \<le> unat (next_lsn (log_of_engine s)) + length bs + 2" by blast
  define due where "due \<longleftrightarrow> wanted \<or> wl_end (log_of_engine s1) > unat (checkpoint_bytes (ctl s1))"
  from w(3) show ?thesis
  proof (elim disjE conjE)
    assume "r = Killed" "\<not> unarmed s" "recovers d G s1"
    moreover have "commit_work ?D bs wanted s = (Killed, s1)" if "r = Killed"
      using w(1) that unfolding commit_work_def by (simp add: thenE_def bindE_def)
    ultimately show ?thesis using w(2) by blast
  next
    assume r: "r = Ret ()" and se: "settled d (engine_view d s) s1" and sv: "same_view d s s1"
      and wc: "work_ctl (ctl s) (ctl s1)" and nl: "unat (next_lsn (log_of_engine s1)) \<le> unat (next_lsn (log_of_engine s)) + length bs + 2"
    have run: "commit_work ?D bs wanted s = (if due then thenE (do_checkpoint ?D) (retE True) s1 else (Ret False, s1))"
      using w(1) r unfolding commit_work_def due_def by (simp add: thenE_def bindE_def getE_def)
    show ?thesis
    proof (cases due)
      case False
      then show ?thesis using run w(2) se sv wc nl by auto
    next
      case True
      from se obtain G1 where G1: "store_ok d G1 s1" "\<And>b. 0 < b \<Longrightarrow> b < pd_count d \<Longrightarrow> G1 b = engine_view d s b"
        and tx: "txns (e_cache s1) = {}" by (auto simp: settled_def)
      from do_checkpoint_ok [OF G1(1) tx assms(5), of sy] obtain r2 s2 where
        c: "do_checkpoint ?D s1 = (r2, s2)" "unarmed s2 = unarmed s1"
        "r2 = Killed \<and> \<not> unarmed s1 \<and> recovers d G1 s2 \<or>
         r2 = Ret () \<and> store_ok d G1 s2 \<and> txns (e_cache s2) = {} \<and> same_view d s1 s2 \<and>
         ctl s2 = (mark_checkpoint (next_lsn (log_of_engine s1) - 1) (ctl s1))\<lparr>checkpoints := checkpoints (ctl s1) + 1\<rparr> \<and>
         next_lsn (log_of_engine s2) = next_lsn (log_of_engine s1)" unfolding same_view_def by blast
      from c(3) show ?thesis
      proof (elim disjE conjE)
        assume k: "r2 = Killed" "\<not> unarmed s1" "recovers d G1 s2"
        then have "recovers d (engine_view d s) s2" using recovers_cong G1(2) by metis
        moreover have "commit_work ?D bs wanted s = (Killed, s2)" using run True c(1) k(1) by (simp add: thenE_def bindE_def)
        ultimately show ?thesis using k(2) c(2) w(2) by auto
      next
        assume k: "r2 = Ret ()" "store_ok d G1 s2" "txns (e_cache s2) = {}" "same_view d s1 s2"
          "ctl s2 = (mark_checkpoint (next_lsn (log_of_engine s1) - 1) (ctl s1))\<lparr>checkpoints := checkpoints (ctl s1) + 1\<rparr>"
          "next_lsn (log_of_engine s2) = next_lsn (log_of_engine s1)"
        have "work_ctl (ctl s) (ctl s2)"
        proof -
          from wc obtain a b c where "ctl s1 = (ctl s)\<lparr>j_sb := a, commits := b, checkpoints := c\<rparr>"
            unfolding work_ctl_def by blast
          then show ?thesis by (simp add: k(5) mark_checkpoint_def work_ctl_def)
        qed
        moreover have "settled d (engine_view d s) s2" using k(2,3) G1(2) by (auto simp: settled_def)
        moreover have "commit_work ?D bs wanted s = (Ret True, s2)" using run True c(1) k(1) by (simp add: thenE_def bindE_def)
        ultimately show ?thesis using same_view_trans [OF sv k(4)] k(6) nl c(2) w(2) by auto
      qed
    qed
  qed
qed

section \<open>Running a commit\<close>

lemma store_ok_ctl:
  assumes "j_sb j = j_sb (ctl s)" and "enabled j = enabled (ctl s)" and "j_total_blocks j = j_total_blocks (ctl s)"
  shows "store_ok d G (s\<lparr>ctl := j\<rparr>) = store_ok d G s"
  using assms by (simp add: store_ok_def core_def disk_part_def log_of_engine_def)

lemma store_ok_flusher: "store_ok d G (s\<lparr>e_flusher := f\<rparr>) = store_ok d G s"
  by (simp add: store_ok_def core_def disk_part_def log_of_engine_def)

lemma ctl_irrelevant [simp]:
  "unarmed (s\<lparr>ctl := j\<rparr>) = unarmed s" "engine_view d (s\<lparr>ctl := j\<rparr>) = engine_view d s"
  "log_of_engine (s\<lparr>ctl := j\<rparr>) = log_of_engine s" "unarmed (s\<lparr>e_flusher := f\<rparr>) = unarmed s"
  "engine_view d (s\<lparr>e_flusher := f\<rparr>) = engine_view d s" "log_of_engine (s\<lparr>e_flusher := f\<rparr>) = log_of_engine s"
  by (simp_all add: unarmed_def engine_view_def disk_part_def log_of_engine_def)

lemma kick_if_dirty_run: "\<exists>f. kick_if_dirty s = (Ret (), s\<lparr>e_flusher := f\<rparr>)"
  by (cases "e_flusher s \<noteq> None \<and> dirty_count (e_cache s) > ucast (capacity (e_cache s) div 2)")
     (auto simp: kick_if_dirty_def modE_def intro: exI [of _ "e_flusher s"])

lemma CLOSED_bits [simp]: "CLOSED AND NOT CLOSED = 0" "(0 OR CLOSED) AND NOT CLOSED = 0" "(0 :: u64) AND NOT CLOSED = 0"
  "(0 :: u64) AND CLOSED = 0"
  by simp_all

text \<open>The journal between two operations of its only thread: the gate is open and nobody is inside.\<close>

definition at_rest :: "engine \<Rightarrow> bool" where
  "at_rest s \<longleftrightarrow> gate (ctl s) = 0 \<and> \<not> committing (ctl s) \<and> failed (ctl s) = None"

definition lsn_room :: "engine \<Rightarrow> bool" where
  "lsn_room s \<longleftrightarrow> unat (next_lsn (log_of_engine s)) + length (txn_blocks (ctl s)) + 2 < 2 ^ 64"

lemma lsn_room_if:
  assumes "logged d G s" and "unat (next_lsn (log_of_engine s)) + 2 ^ 32 + 2 < 2 ^ 64"
  shows "lsn_room s"
proof -
  have "length (txn_blocks (ctl s)) = card (txns (e_cache s))"
    using assms(1) distinct_card by (fastforce simp: logged_def txn_ok_def)
  also have "\<dots> \<le> CARD(u32)" by (rule card_mono) simp_all
  also have "\<dots> = 2 ^ 32" by (simp add: card_word)
  finally show ?thesis using assms(2) by (simp add: lsn_room_def)
qed

lemma run_commit_ok:
  assumes "logged d G s" and "gate (ctl s) AND NOT CLOSED = 0" and "failed (ctl s) = None" and "lsn_room s" and "0 < pd_count d"
  shows "\<exists>r s'. run_commit (disk_of d sy) s = (r, s') \<and> unarmed s' = unarmed s \<and>
    (r = Killed \<and> \<not> unarmed s \<and> (recovers d G s' \<or> recovers d (engine_view d s) s') \<or>
     r = Ret True \<and> settled d (engine_view d s) s' \<and> same_view d s s' \<and> txn_ok (ctl s') (e_cache s') \<and> at_rest s' \<and>
     ended (ctl s') = ended (ctl s) \<and> committed_through (ctl s') = ended (ctl s) \<and>
     max_txn_blocks (ctl s') = max_txn_blocks (ctl s))"
proof -
  let ?D = "disk_of d sy" and ?c = "ctl s"
  define c2 where "c2 = ?c\<lparr>gate := gate ?c OR CLOSED, committing := True, commit_requested := False,
     checkpoint_requested := False, txn_blocks := [], txn_set := {}, txn_count := 0\<rparr>"
  define s0 where "s0 = s\<lparr>ctl := c2\<rparr>"
  have tx: "txn_ok ?c (e_cache s)" using assms(1) by (simp add: logged_def)
  have so: "store_ok d G s0" using assms(1) unfolding s0_def by (subst store_ok_ctl) (simp_all add: c2_def logged_def)
  have bs: "set (txn_blocks ?c) = txns (e_cache s0)" "distinct (txn_blocks ?c)"
    using tx by (simp_all add: s0_def txn_ok_def)
  have room: "unat (next_lsn (log_of_engine s0)) + length (txn_blocks ?c) + 2 < 2 ^ 64"
    using assms(4) by (simp add: lsn_room_def s0_def)
  from commit_work_ok [OF so bs room assms(5), of sy "checkpoint_requested ?c"] obtain r s1 where
    w: "commit_work ?D (txn_blocks ?c) (checkpoint_requested ?c) s0 = (r, s1)" "unarmed s1 = unarmed s"
    "r = Killed \<and> \<not> unarmed s \<and> (recovers d G s1 \<or> recovers d (engine_view d s) s1) \<or>
     (\<exists>done. r = Ret done) \<and> settled d (engine_view d s) s1 \<and> same_view d s0 s1 \<and> work_ctl (ctl s0) (ctl s1)"
    by (auto simp: s0_def)
  have run: "run_commit ?D s = catchE
      (bindE (commit_work ?D (txn_blocks ?c) (checkpoint_requested ?c)) (\<lambda>checkpointed.
       thenE kick_if_dirty (thenE (upd_ctl (commit_done (ended ?c) checkpointed)) (retE True))))
      (\<lambda>e. thenE (upd_ctl (commit_failed e)) (throwE e)) s0"
    using assms(2) by (simp add: run_commit_def Let_def s0_def c2_def)
  define K where "K \<longleftrightarrow> recovers d G s1 \<or> recovers d (engine_view d s) s1"
  from w(3) [folded K_def] show ?thesis
  proof (elim disjE conjE exE)
    assume "r = Killed" "\<not> unarmed s" K
    moreover have "run_commit ?D s = (Killed, s1)" if "r = Killed"
      unfolding run using w(1) that by (simp add: catchE_def bindE_def)
    ultimately show ?thesis using w(2) unfolding K_def by blast
  next
    fix cp assume r: "r = Ret cp" and se: "settled d (engine_view d s) s1" and sv: "same_view d s0 s1"
      and wc: "work_ctl (ctl s0) (ctl s1)"
    obtain f where f: "kick_if_dirty s1 = (Ret (), s1\<lparr>e_flusher := f\<rparr>)" using kick_if_dirty_run by blast
    define s' where "s' = s1\<lparr>e_flusher := f, ctl := commit_done (ended ?c) cp (ctl s1)\<rparr>"
    have res: "run_commit ?D s = (Ret True, s')"
      unfolding run using w(1) r f by (simp add: catchE_def bindE_def thenE_def upd_ctl_def modE_def s'_def)
    note wd = work_ctlD [OF wc]
    have "settled d (engine_view d s) s'"
      using se unfolding settled_def s'_def
      by (subst store_ok_ctl) (simp_all add: commit_done_def store_ok_flusher)
    moreover have "same_view d s s'" using sv by (simp add: same_view_def s'_def s0_def)
    moreover have "txn_ok (ctl s') (e_cache s')" "at_rest s'" "ended (ctl s') = ended ?c"
      "committed_through (ctl s') = ended ?c" "max_txn_blocks (ctl s') = max_txn_blocks ?c"
      using wd se assms(3) by (simp_all add: s'_def s0_def c2_def commit_done_def txn_ok_def settled_def at_rest_def
          bit.conj_disj_distrib2 assms(2))
    moreover have "unarmed s' = unarmed s" using w(2) by (simp add: s'_def)
    ultimately show ?thesis using res by blast
  qed
qed

lemma settled_now:
  assumes "logged d G s" and "txns (e_cache s) = {}"
  shows "settled d (engine_view d s) s"
proof -
  from assms(1) obtain rs where so: "store_ok d G s" "core d G (logW (j_sb (ctl s)) rs) s" by (auto simp: logged_def store_ok_def)
  then have "engine_view d s b = G b" if "0 < b" "b < pd_count d" for b
    using outside_txn [OF _ that] assms(2) by (auto simp: core_def cache_ok_def engine_view_def)
  with so(1) assms(2) show ?thesis by (auto simp: settled_def)
qed

lemma settled_logged:
  assumes "settled d V s" and "txn_ok (ctl s) (e_cache s)"
  shows "\<exists>G. logged d G s \<and> (\<forall>b. 0 < b \<longrightarrow> b < pd_count d \<longrightarrow> G b = V b)"
  using assms by (auto simp: settled_def logged_def)

text \<open>
  \<^verbatim>\<open>commit()\<close> called between operations. It has work to do if an operation has ended since the last
  commit; if none has, there is nothing uncommitted.
\<close>

lemma journal_commit_ok:
  assumes "logged d G s" and "at_rest s" and "lsn_room s" and "0 < pd_count d"
    and "committed_through (ctl s) < ended (ctl s) \<or> txns (e_cache s) = {}"
  shows "\<exists>r s'. journal_commit (disk_of d sy) alone s = (r, s') \<and> unarmed s' = unarmed s \<and>
    (r = Killed \<and> \<not> unarmed s \<and> (recovers d G s' \<or> recovers d (engine_view d s) s') \<or>
     r = Ret () \<and> settled d (engine_view d s) s' \<and> same_view d s s' \<and> txn_ok (ctl s') (e_cache s') \<and> at_rest s')"
proof -
  let ?D = "disk_of d sy"
  have en: "enabled (ctl s)" and tx: "txn_ok (ctl s) (e_cache s)"
    using assms(1) by (auto simp: logged_def store_ok_def core_def)
  have rest: "gate (ctl s) AND NOT CLOSED = 0" "failed (ctl s) = None" "\<not> committing (ctl s)"
    using assms(2) by (simp_all add: at_rest_def)
  show ?thesis
  proof (cases "committed_through (ctl s) < ended (ctl s)")
    case False
    then have "journal_commit ?D alone s = (Ret (), s)" using en by (simp add: journal_commit_def alone_def)
    then show ?thesis using False assms(2,5) settled_now [OF assms(1)] tx by (auto simp: same_view_def)
  next
    case True
    from run_commit_ok [OF assms(1) rest(1,2) assms(3,4), of sy] obtain r s1 where
      c: "run_commit ?D s = (r, s1)" "unarmed s1 = unarmed s"
      "r = Killed \<and> \<not> unarmed s \<and> (recovers d G s1 \<or> recovers d (engine_view d s) s1) \<or>
       r = Ret True \<and> settled d (engine_view d s) s1 \<and> same_view d s s1 \<and> txn_ok (ctl s1) (e_cache s1) \<and> at_rest s1 \<and>
       committed_through (ctl s1) = ended (ctl s)" by blast
    have run: "journal_commit ?D alone s = (case r of Ret _ \<Rightarrow> commit_loop ?D (ended (ctl s)) [\<lambda>s. s] s1 | Halted h \<Rightarrow> (Halted h, s1) | Raise e \<Rightarrow> (Raise e, s1))"
      using en True rest(2,3) c(1)
      by (cases r) (simp_all add: journal_commit_def alone_def rethrow_if_failed_def thenE_def bindE_def)
    from c show ?thesis unfolding run by (cases r) auto
  qed
qed

section \<open>The next mount\<close>

lemma recovers_reopened:
  assumes "recovers d G s" and "0 < pd_count d" and "reopened d (e_stable s) st"
  shows "recoverable d st" "\<And>b. 0 < b \<Longrightarrow> b < pd_count d \<Longrightarrow> recovered d st b = G b"
proof -
  have b: "dblocks d st = dblocks d (e_stable s)"
    using assms(3) by (simp add: reopened_def dblocks_def pd_blocks_def fun_eq_iff)
  have l: "log_of st n = log_of (e_stable s) n" for n using assms(3) by (simp add: reopened_def log_of_def)
  show "recoverable d st"
    using assms by (simp add: recoverable_def recovers_def mountable_def Let_def b l reopened_def)
  have "recovered d st = recovered d (e_stable s)"
    using l by (simp add: recovered_def b log_of_def Let_def)
  then show "recovered d st b = G b" if "0 < b" "b < pd_count d" for b
    using assms(1) that by (simp add: recovers_def)
qed

text \<open>Any number of mounts may be killed before one gets through.\<close>

lemma recovers_mount:
  assumes "recovers d G s" and "0 < pd_count d" and "reopened d (e_stable s) st0" and "crashed_mounts d sy st0 st"
    and "\<not> armed st"
  shows "\<exists>info sb st'. recover (disk_of d sy) (decode_superblock (dblocks d st 0)) st = (Ret (info, sb), st') \<and>
    (\<forall>b. 0 < b \<longrightarrow> b < pd_count d \<longrightarrow> dblocks d st' b = G b)"
proof -
  note r = recovers_reopened [OF assms(1-3)]
  from crashed_mounts_same [OF assms(4) r(1)] have
    c: "recoverable d st" "\<forall>b. b \<noteq> 0 \<longrightarrow> recovered d st b = recovered d st0 b" by simp_all
  from recover_unarmed [OF c(1) assms(5), of sy] obtain info st' where
    "recover (disk_of d sy) (decode_superblock (dblocks d st 0)) st = (Ret (info, recovered_super d st), st')"
    "\<forall>b. b \<noteq> 0 \<longrightarrow> dblocks d st' b = recovered d st b" by blast
  with c(2) r(2) show ?thesis by auto
qed

section \<open>Operations\<close>

text \<open>The journal inside the only operation that runs.\<close>

definition inside :: "engine \<Rightarrow> bool" where
  "inside s \<longleftrightarrow> gate (ctl s) = 1 \<and> \<not> committing (ctl s) \<and> failed (ctl s) = None"

lemma gate_bits [simp]: "(1 :: u64) AND NOT CLOSED = 1" "(1 :: u64) AND CLOSED = 0"
  by (simp_all add: CLOSED_def)

lemma logged_ctl:
  assumes "logged d G s" and "j_sb j = j_sb (ctl s)" and "enabled j = enabled (ctl s)" and "j_total_blocks j = j_total_blocks (ctl s)"
    and "txn_set j = txn_set (ctl s)" and "txn_blocks j = txn_blocks (ctl s)" and "txn_count j = txn_count (ctl s)"
  shows "logged d G (s\<lparr>ctl := j\<rparr>)"
proof -
  have "store_ok d G (s\<lparr>ctl := j\<rparr>)" using assms(1) store_ok_ctl [OF assms(2-4)] by (simp add: logged_def)
  moreover have "txn_ok j (e_cache s)" using assms(1,5-7) by (simp add: logged_def txn_ok_def)
  ultimately show ?thesis by (simp add: logged_def)
qed

text \<open>
  Entering an operation may commit what came before it; whether it returns or is killed, what a
  mount recovers is the contents at the last commit or those at the end of the last operation.
\<close>

lemma begin_op_ok:
  assumes "logged d G s" and "at_rest s" and "lsn_room s" and "0 < pd_count d"
  shows "\<exists>r s'. journal_begin_op (disk_of d sy) alone s = (r, s') \<and> unarmed s' = unarmed s \<and>
    (r = Killed \<and> \<not> unarmed s \<and> (recovers d G s' \<or> recovers d (engine_view d s) s') \<or>
     r = Ret () \<and> inside s' \<and> same_view d s s' \<and>
     (\<exists>G'. logged d G' s' \<and> (G' = G \<or> (\<forall>b. 0 < b \<longrightarrow> b < pd_count d \<longrightarrow> G' b = engine_view d s b))))"
proof -
  let ?D = "disk_of d sy"
  have en: "enabled (ctl s)" using assms(1) by (auto simp: logged_def store_ok_def core_def)
  have rest: "gate (ctl s) = 0" "failed (ctl s) = None" "\<not> committing (ctl s)" using assms(2) by (simp_all add: at_rest_def)
  show ?thesis
  proof (cases "fits (ctl s) 0")
    case True
    let ?s = "s\<lparr>ctl := (ctl s)\<lparr>gate := 1\<rparr>\<rparr>"
    have "journal_begin_op ?D alone s = (Ret (), ?s)" using en rest True by (simp add: journal_begin_op_def Let_def)
    moreover have "logged d G ?s" by (rule logged_ctl [OF assms(1)]) simp_all
    moreover have "inside ?s" "same_view d s ?s" using rest by (simp_all add: inside_def same_view_def)
    ultimately show ?thesis by auto
  next
    case False
    define s0 where "s0 = s\<lparr>ctl := (ctl s)\<lparr>commit_requested := True, gate := CLOSED\<rparr>\<rparr>"
    have run: "journal_begin_op ?D alone s = bindE (run_commit ?D) (\<lambda>done s2. begin_op_slow ?D [\<lambda>s. s] s2) s0"
      using en rest False by (simp add: journal_begin_op_def Let_def alone_def thenE_def bindE_def rethrow_if_failed_def
          s0_def CLOSED_def)
    have lg: "logged d G s0" unfolding s0_def by (rule logged_ctl [OF assms(1)]) simp_all
    have pre: "gate (ctl s0) AND NOT CLOSED = 0" "failed (ctl s0) = None" "lsn_room s0"
      using rest(2) assms(3) by (simp_all add: s0_def lsn_room_def)
    from run_commit_ok [OF lg pre assms(4), of sy] obtain r s1 where
      c: "run_commit ?D s0 = (r, s1)" "unarmed s1 = unarmed s"
      "r = Killed \<and> \<not> unarmed s \<and> (recovers d G s1 \<or> recovers d (engine_view d s) s1) \<or>
       r = Ret True \<and> settled d (engine_view d s) s1 \<and> same_view d s s1 \<and> txn_ok (ctl s1) (e_cache s1) \<and> at_rest s1"
      by (auto simp: s0_def same_view_def)
    show ?thesis
    proof (cases "r = Killed")
      case True
      then show ?thesis using c run by (auto simp: bindE_def)
    next
      case False
      then have r: "r = Ret True" and se: "settled d (engine_view d s) s1" and sv: "same_view d s s1"
        and tx: "txn_ok (ctl s1) (e_cache s1)" and ar: "at_rest s1" using c(3) by auto
      let ?s = "s1\<lparr>ctl := (ctl s1)\<lparr>gate := 1\<rparr>\<rparr>"
      have "txn_count (ctl s1) = 0" using tx se by (simp add: txn_ok_def settled_def)
      then have "begin_op_slow ?D [\<lambda>s. s] s1 = (Ret (), ?s)"
        using ar by (simp add: at_rest_def thenE_def bindE_def rethrow_if_failed_def fits_def Let_def)
      then have "journal_begin_op ?D alone s = (Ret (), ?s)" unfolding run using c(1) r by (simp add: bindE_def)
      moreover obtain G' where "logged d G' s1" "\<forall>b. 0 < b \<longrightarrow> b < pd_count d \<longrightarrow> G' b = engine_view d s b"
        using settled_logged [OF se tx] by blast
      moreover have "logged d G' ?s" if "logged d G' s1" for G' by (rule logged_ctl [OF that]) simp_all
      moreover have "inside ?s" "same_view d s ?s" "unarmed ?s = unarmed s"
        using ar sv c(2) by (simp_all add: inside_def at_rest_def same_view_def)
      ultimately show ?thesis by blast
    qed
  qed
qed

lemma end_op_ok:
  assumes "logged d G s" and "inside s" and "lsn_room s" and "0 < pd_count d"
  shows "\<exists>r s'. journal_end_op (disk_of d sy) s = (r, s') \<and> unarmed s' = unarmed s \<and>
    (r = Killed \<and> \<not> unarmed s \<and> (recovers d G s' \<or> recovers d (engine_view d s) s') \<or>
     r = Ret () \<and> at_rest s' \<and> same_view d s s' \<and> ended (ctl s') = ended (ctl s) + 1 \<and>
     (\<exists>G'. logged d G' s' \<and> (G' = G \<or> (\<forall>b. 0 < b \<longrightarrow> b < pd_count d \<longrightarrow> G' b = engine_view d s b))))"
proof -
  let ?D = "disk_of d sy"
  have en: "enabled (ctl s)" and tx: "txn_ok (ctl s) (e_cache s)"
    using assms(1) by (auto simp: logged_def store_ok_def core_def)
  have ins: "gate (ctl s) = 1" "failed (ctl s) = None" "\<not> committing (ctl s)" using assms(2) by (simp_all add: inside_def)
  define s1 where "s1 = s\<lparr>ctl := (ctl s)\<lparr>ended := ended (ctl s) + 1, gate := 0\<rparr>\<rparr>"
  have lg: "logged d G s1" unfolding s1_def by (rule logged_ctl [OF assms(1)]) simp_all
  have s1: "at_rest s1" "same_view d s s1" "unarmed s1 = unarmed s" "ended (ctl s1) = ended (ctl s) + 1"
    using ins by (simp_all add: s1_def at_rest_def same_view_def)
  show ?thesis
  proof (cases "txn_count (ctl s) \<le> max_txn_blocks (ctl s)")
    case True
    then have "journal_end_op ?D s = (Ret (), s1)" using en ins by (simp add: journal_end_op_def Let_def s1_def)
    then show ?thesis using lg s1 by blast
  next
    case False
    then have "of_nat (card (txn_set (ctl s))) > max_txn_blocks (ctl s)" using tx by (simp add: txn_ok_def not_le)
    then have run: "journal_end_op ?D s = thenE (run_commit ?D) (retE ()) s1"
      using en ins False by (simp add: journal_end_op_def end_op_slow_def Let_def s1_def)
    have pre: "gate (ctl s1) AND NOT CLOSED = 0" "failed (ctl s1) = None" "lsn_room s1"
      using ins assms(3) by (simp_all add: s1_def lsn_room_def)
    from run_commit_ok [OF lg pre assms(4), of sy] obtain r s2 where
      c: "run_commit ?D s1 = (r, s2)" "unarmed s2 = unarmed s"
      "r = Killed \<and> \<not> unarmed s \<and> (recovers d G s2 \<or> recovers d (engine_view d s) s2) \<or>
       r = Ret True \<and> settled d (engine_view d s) s2 \<and> same_view d s s2 \<and> txn_ok (ctl s2) (e_cache s2) \<and> at_rest s2 \<and>
       ended (ctl s2) = ended (ctl s) + 1"
      by (auto simp: s1_def same_view_def)
    show ?thesis
    proof (cases "r = Killed")
      case True
      then show ?thesis using c run by (auto simp: bindE_def thenE_def)
    next
      case False
      then have r: "r = Ret True" "settled d (engine_view d s) s2" "same_view d s s2" "txn_ok (ctl s2) (e_cache s2)" "at_rest s2"
        "ended (ctl s2) = ended (ctl s) + 1" using c(3) by auto
      then have "journal_end_op ?D s = (Ret (), s2)" unfolding run using c(1) by (simp add: thenE_def bindE_def)
      with settled_logged [OF r(2,4)] r c(2) show ?thesis by blast
    qed
  qed
qed

section \<open>What happens inside an operation\<close>

text \<open>A change of a block that does not throw and keeps its length.\<close>

definition whole :: "(block, unit) op \<Rightarrow> bool" where
  "whole fn \<longleftrightarrow> (\<forall>x. is_block x \<longrightarrow> (\<exists>y. fn x = (Ret (), y) \<and> is_block y))"

text \<open>
  Any sequence of reads and writes through the journal; \<^term>\<open>k\<close> tells whether the last one was
  killed. A call for a block the journal may not touch throws and the sequence may go on.
\<close>

inductive op_run :: "pread_dev \<Rightarrow> bool \<Rightarrow> engine \<Rightarrow> bool \<Rightarrow> engine \<Rightarrow> bool" for d sy where
  stop: "op_run d sy s False s"
| read: "journal_read (disk_of d sy) b s = (r, s1) \<Longrightarrow> r \<noteq> Killed \<Longrightarrow> op_run d sy s1 k s' \<Longrightarrow> op_run d sy s k s'"
| wrote: "whole fn \<Longrightarrow> journal_write (disk_of d sy) b fresh fn s = (r, s1) \<Longrightarrow> r \<noteq> Killed \<Longrightarrow> op_run d sy s1 k s' \<Longrightarrow>
    op_run d sy s k s'"
| read_killed: "journal_read (disk_of d sy) b s = (Killed, s') \<Longrightarrow> op_run d sy s True s'"
| write_killed: "whole fn \<Longrightarrow> journal_write (disk_of d sy) b fresh fn s = (Killed, s') \<Longrightarrow> op_run d sy s True s'"

lemma same_ctl_trans:
  assumes "same_ctl j j'" and "same_ctl j' j''"
  shows "same_ctl j j''"
proof -
  from assms(1) obtain a b c e where 1: "j' = j\<lparr>txn_count := a, txn_blocks := b, txn_set := c, txn_started := e\<rparr>"
    unfolding same_ctl_def by blast
  from assms(2) obtain a' b' c' e' where "j'' = j'\<lparr>txn_count := a', txn_blocks := b', txn_set := c', txn_started := e'\<rparr>"
    unfolding same_ctl_def by blast
  with 1 show ?thesis by (simp add: same_ctl_def)
qed

lemma logged_view_block: "logged d G s \<Longrightarrow> 0 < b \<Longrightarrow> b < pd_count d \<Longrightarrow> is_block (engine_view d s b)"
proof -
  assume "logged d G s" and b: "0 < b" "b < pd_count d"
  then have ci: "cinv (pd_count d) (e_cache s)" "disk_live d (disk_part s)"
    by (auto simp: logged_def store_ok_def core_def cache_ok_def)
  show ?thesis using cview_range [OF ci(1)] image.len [OF ci(2)] b(2)
    by (auto simp: engine_view_def vw_def split: option.split)
qed

lemma read_step:
  assumes "logged d G s" and "journal_read (disk_of d sy) b s = (r, s')"
  shows "if r = Killed then recovers d G s' else logged d G s' \<and> same_ctl (ctl s) (ctl s') \<and> unarmed s' = unarmed s"
proof (cases "0 < b \<and> b < pd_count d")
  case True
  with logged_read [OF assms(1), of b sy] assms(2) show ?thesis by auto
next
  case False
  then have "b = 0 \<or> \<not> b < pd_count d" by (auto simp: word_neq_0_conv)
  with outside_check assms logged_engine [OF assms(1)] show ?thesis
    by (auto simp: journal_read_def thenE_def bindE_def)
qed

lemma write_step:
  assumes "logged d G s" and "journal_write (disk_of d sy) b fresh fn s = (r, s')" and "whole fn"
  shows "if r = Killed then recovers d G s' else logged d G s' \<and> same_ctl (ctl s) (ctl s') \<and> unarmed s' = unarmed s"
proof (cases "0 < b \<and> b < pd_count d")
  case True
  have "is_block (if fresh then zero_block else engine_view d s b)"
    using True logged_view_block [OF assms(1)] by (simp add: is_block_def)
  then obtain x where "fn (if fresh then zero_block else engine_view d s b) = (Ret (), x)" "is_block x"
    using assms(3) unfolding whole_def by blast
  from logged_write [where fn = fn and fresh = fresh and x = x, OF assms(1) _ _ this, of sy] True assms(2)
  show ?thesis by auto
next
  case False
  then have "b = 0 \<or> \<not> b < pd_count d" by (auto simp: word_neq_0_conv)
  with outside_check assms(1,2) logged_engine [OF assms(1)] show ?thesis
    by (auto simp: journal_write_def thenE_def bindE_def)
qed

lemma op_run_keeps:
  "op_run d sy s k s' \<Longrightarrow> logged d G s \<Longrightarrow>
   if k then recovers d G s' else logged d G s' \<and> same_ctl (ctl s) (ctl s') \<and> unarmed s' = unarmed s"
proof (induction rule: op_run.induct)
  case (stop s)
  then show ?case by simp
next
  case (read b s r s1 k s')
  from read_step [OF read.prems read.hyps(1)] read.hyps(2) have
    "logged d G s1" "same_ctl (ctl s) (ctl s1)" "unarmed s1 = unarmed s" by simp_all
  with read.IH same_ctl_trans show ?case by (auto split: if_splits)
next
  case (wrote fn b fresh s r s1 k s')
  from write_step [OF wrote.prems wrote.hyps(2,1)] wrote.hyps(3) have
    "logged d G s1" "same_ctl (ctl s) (ctl s1)" "unarmed s1 = unarmed s" by simp_all
  with wrote.IH same_ctl_trans show ?case by (auto split: if_splits)
next
  case (read_killed b s s')
  from read_step [OF read_killed.prems read_killed.hyps] show ?case by simp
next
  case (write_killed fn b fresh s s')
  from write_step [OF write_killed.prems write_killed.hyps(2,1)] show ?case by simp
qed

text \<open>Whether the process was killed in a call or is gone between two, the files hold the last commit.\<close>

lemma op_run_recovers: "op_run d sy s k s' \<Longrightarrow> logged d G s \<Longrightarrow> recovers d G s'"
  using op_run_keeps [of d sy s k s' G] store_ok_recovers [of d G s'] by (cases k) (auto simp: logged_def)

end
