(* ===== verification/Mount.thy ===== *)
theory Mount
  imports Durability
begin

text \<open>
  Mounting: what \<^verbatim>\<open>storage_start\<close> makes of a disk and a log satisfies the invariant of the engine,
  and shows what the log and the disk recover to.
\<close>

lemma cache_new_ok: "cinv n (cache_new k)" "cview (cache_new k) b = None"
proof -
  have e: "frames (shards (cache_new k) ! i) = []" "smap (shards (cache_new k) ! i) = (\<lambda>_. None)"
    "lru_head (shards (cache_new k) ! i) = None" "lru_tail (shards (cache_new k) ! i) = None" if "i < SHARDS" for i
    using that by (simp_all add: cache_new_def Let_def)
  have "shard_inv n i (shards (cache_new k) ! i) \<and> loaded {} (shards (cache_new k) ! i)" if "i < SHARDS" for i
  proof -
    have "linked (shards (cache_new k) ! i) []" using e [OF that] by (simp add: linked_def)
    then have "whole_list (shards (cache_new k) ! i)" using e(1) [OF that] by (auto simp: whole_list_def)
    then show ?thesis using e [OF that] by (simp add: shard_inv_def map_ok_def frames_ok_def loaded_def)
  qed
  moreover have "length (shards (cache_new k)) = SHARDS" by (simp add: cache_new_def Let_def)
  ultimately show "cinv n (cache_new k)" by (simp add: cinv_def)
  show "cview (cache_new k) b = None" using e(2) [of "shard_for b"] by (simp add: cview_def sview_def)
qed

lemma empty_cache: "txns (cache_new k) = {}" "lsn_below L (cache_new k)" "vw (cache_new k) m = m"
  by (simp_all add: txns_def lsn_below_def vw_def cache_new_ok fun_eq_iff)

text \<open>A fresh engine over a disk whose log is empty.\<close>

definition new_engine :: "storage_options \<Rightarrow> superblock \<Rightarrow> recovery_info \<Rightarrow> stable \<Rightarrow> engine" where
  "new_engine opts sb info st =
     (let c = cache_new (so_cache_frames opts) in
      \<lparr>ctl = journal_new c sb opts, e_cache = c, e_stable = st,
       e_flusher = (if so_flusher opts then Some (flusher_start flusher_new) else None), e_clock = 0,
       s_sb = sb, s_recovery = info, s_closed = False\<rparr>)"

lemma new_engine_logged:
  assumes "so_journal opts" and "stable_ok d st" and "fresh_log st (last_checkpoint_lsn sb + 1)"
    and "decode_superblock (dblocks d st 0) = sb" and "total_blocks sb = pd_count d" and "last_checkpoint_lsn sb \<noteq> - 1"
  shows "logged d (dblocks d st) (new_engine opts sb info st)" and "at_rest (new_engine opts sb info st)"
    and "engine_view d (new_engine opts sb info st) = dblocks d st" and "txns (e_cache (new_engine opts sb info st)) = {}"
proof -
  let ?e = "new_engine opts sb info st" and ?n = "last_checkpoint_lsn sb + 1"
  have fields: "e_stable ?e = st" "j_sb (ctl ?e) = sb" "e_cache ?e = cache_new (so_cache_frames opts)" "enabled (ctl ?e)"
    "j_total_blocks (ctl ?e) = pd_count d" "disk_part ?e = snd st"
    using assms(1,5) by (simp_all add: new_engine_def journal_new_def Let_def disk_part_def)
  have nz: "?n \<noteq> 0" using assms(6) by (simp add: add_eq_0_iff2)
  then have "unat (1 + last_checkpoint_lsn sb) = Suc (unat (last_checkpoint_lsn sb))"
    by (intro unatSuc) (simp add: add.commute)
  then have "last_checkpoint_lsn sb < ?n" by (simp add: word_less_nat_alt add.commute)
  then have "records_ok (pd_count d) sb [] ?n" using nz assms(5) by (simp add: records_ok_def follows_def)
  then have "log_state d sb [] st" using assms(2-4) by (simp add: log_state_def fresh_log_def stream_def)
  moreover have "core d (dblocks d st) {} ?e"
    using assms(2) by (simp add: core_def fields cache_ok_def cache_new_ok coherent_def entry_ok_def empty_cache
        stable_ok_def dlive_def disk_live_def dblocks_def disk_blocks_def)
  ultimately have "store_ok d (dblocks d st) ?e"
    unfolding store_ok_def fields by (intro exI [of _ "[]"]) (simp add: gives_def logW_def)
  moreover have "txn_ok (ctl ?e) (e_cache ?e)"
    by (simp add: txn_ok_def fields empty_cache) (simp add: new_engine_def journal_new_def Let_def)
  ultimately show "logged d (dblocks d st) ?e" by (simp add: logged_def)
  show "at_rest ?e" by (simp add: at_rest_def new_engine_def journal_new_def Let_def)
  show "engine_view d ?e = dblocks d st" by (simp add: engine_view_def fields empty_cache dblocks_def disk_blocks_def)
  show "txns (e_cache ?e) = {}" by (simp add: fields empty_cache)
qed

text \<open>The end of the mount: the superblock is marked in use, and the counters are reset.\<close>

lemma start_tail:
  assumes "stable_ok d st" and "fresh_log st n" and "\<not> armed st" and "0 < pd_count d"
  shows "\<exists>st'. thenE (on_disk (write_superblock (disk_of d sy) sb)) (thenE (on_disk (dev_sync (disk_of d sy)))
      (thenE (on_disk inst_reset_counts) (thenE (on_wal_file wal_reset_stats) (getE (\<lambda>st. new_engine opts sb info st))))) st =
      (Ret (new_engine opts sb info st'), st') \<and>
    stable_ok d st' \<and> fresh_log st' n \<and> \<not> armed st' \<and> dblocks d st' = (dblocks d st)(0 := super_image sb)"
proof -
  let ?D = "disk_of d sy"
  have live: "dlive d st" and fd: "wl_fd (fst st) \<noteq> pd_fd d" using assms(1) by (simp_all add: stable_ok_def)
  have wsb: "write_superblock ?D sb = write_block ?D 0 (super_image sb)" by (simp add: write_superblock_def super_image_def)
  from on_disk_write_cases [OF live assms(4) is_block_super_image [of sb], of sy] assms(3) obtain s1 where
    1: "on_disk (write_superblock ?D sb) st = (Ret (), s1)" "dlive d s1" "dblocks d s1 = (dblocks d st)(0 := super_image sb)"
      "same_log d st s1" unfolding wsb by blast
  from on_disk_sync [OF 1(2), of sy] obtain s2 where
    2: "on_disk (dev_sync ?D) s1 = (Ret (), s2)" "dlive d s2" "dblocks d s2 = dblocks d s1" "same_log d s1 s2" by blast
  define s3 where "s3 = ((fst s2)\<lparr>bytes_appended := 0\<rparr>, (snd s2)\<lparr>reads := 0, writes := 0\<rparr>)"
  have run: "thenE (on_disk (write_superblock ?D sb)) (thenE (on_disk (dev_sync ?D))
      (thenE (on_disk inst_reset_counts) (thenE (on_wal_file wal_reset_stats) (getE (\<lambda>st. new_engine opts sb info st))))) st =
      (Ret (new_engine opts sb info s3), s3)"
    using 1(1) 2(1) by (cases s2) (simp add: thenE_def bindE_def getE_def on_disk_def on_wal_file_def zoomE_def
        inst_reset_counts_def wal_reset_stats_def modE_def s3_def)
  have sl: "same_log d st s2" by (rule same_log_trans [OF 1(4) 2(4)])
  have f: "log_file (fst s2, inner (snd s2)) = log_file (fst st, inner (snd st))" by (rule same_log_file [OF sl fd])
  have l: "fst s2 = fst st" using sl by (simp add: same_log_def)
  have f3: "log_file (fst s3, inner (snd s3)) = log_file (fst st, inner (snd st))"
    using f by (simp add: s3_def log_file_def)
  have "stable_ok d s3" using assms(1) 2(2) f3 l by (simp add: stable_ok_def s3_def dlive_def)
  moreover have "fresh_log s3 n"
    using assms(2) f3 l by (simp add: fresh_log_def wal_ok_def stream_def) (simp add: s3_def)
  moreover have "\<not> armed s3" using assms(3) same_log_armed [OF sl] by (simp add: s3_def armed_def)
  moreover have "dblocks d s3 = (dblocks d st)(0 := super_image sb)" using 1(3) 2(3) by (simp add: s3_def dblocks_def)
  ultimately show ?thesis using run by blast
qed

lemma storage_start_new:
  "storage_start opts dev sb =
     bindE (if clean_unmount sb = 0 then recover dev sb
            else thenE (on_wal_file (wal_reset (last_checkpoint_lsn sb + 1))) (retE (no_recovery, sb)))
    (\<lambda>(info, sb). thenE (on_disk (write_superblock dev (sb\<lparr>clean_unmount := 0\<rparr>))) (thenE (on_disk (dev_sync dev))
      (thenE (on_disk inst_reset_counts) (thenE (on_wal_file wal_reset_stats)
        (getE (\<lambda>st. new_engine opts (sb\<lparr>clean_unmount := 0\<rparr>) info st))))))"
  by (simp add: storage_start_def new_engine_def Let_def)

text \<open>What a mount finds in the blocks: after a clean unmount, the disk; otherwise what the log gives.\<close>

definition mounts_to :: "pread_dev \<Rightarrow> stable \<Rightarrow> u32 \<Rightarrow> block" where
  "mounts_to d st = (if clean_unmount (decode_superblock (dblocks d st 0)) = 0 then recovered d st else dblocks d st)"

lemma storage_start_ok:
  assumes "recoverable d st" and "\<not> armed st" and "so_journal opts" and "sb = decode_superblock (dblocks d st 0)"
  shows "\<exists>eng st' G. storage_start opts (disk_of d sy) sb st = (Ret eng, st') \<and> e_stable eng = st' \<and> unarmed eng \<and>
    logged d G eng \<and> at_rest eng \<and> txns (e_cache eng) = {} \<and>
    (\<forall>b. b \<noteq> 0 \<longrightarrow> engine_view d eng b = mounts_to d st b \<and> G b = mounts_to d st b)"
proof -
  let ?D = "disk_of d sy"
  have so: "stable_ok d st" and cnt: "0 < pd_count d" and tot: "total_blocks sb = pd_count d"
    and top: "top_lsn (last_checkpoint_lsn sb) (log_of st (pd_count d)) \<noteq> - 1"
    using assms(1) by (simp_all add: recoverable_def assms(4) Let_def)
  have "\<exists>info sb1 st1. (if clean_unmount sb = 0 then recover ?D sb
      else thenE (on_wal_file (wal_reset (last_checkpoint_lsn sb + 1))) (retE (no_recovery, sb))) st = (Ret (info, sb1), st1) \<and>
    stable_ok d st1 \<and> \<not> armed st1 \<and> fresh_log st1 (last_checkpoint_lsn sb1 + 1) \<and> total_blocks sb1 = pd_count d \<and>
    last_checkpoint_lsn sb1 \<noteq> - 1 \<and> (\<forall>b. b \<noteq> 0 \<longrightarrow> dblocks d st1 b = mounts_to d st b)"
  proof (cases "clean_unmount sb = 0")
    case True
    from recover_unarmed [OF assms(1,2), of sy] obtain info s1 where
      r: "recover ?D sb st = (Ret (info, recovered_super d st), s1)" "stable_ok d s1"
      "\<forall>b. b \<noteq> 0 \<longrightarrow> dblocks d s1 b = recovered d st b" "fresh_log s1 (last_checkpoint_lsn (recovered_super d st) + 1)"
      "\<not> armed s1" unfolding assms(4) by blast
    have "total_blocks (recovered_super d st) = pd_count d" "last_checkpoint_lsn (recovered_super d st) \<noteq> - 1"
      using tot top by (simp_all add: recovered_super_def assms(4) [symmetric] Let_def)
    with r True show ?thesis by (simp add: mounts_to_def assms(4))
  next
    case False
    have "last_checkpoint_lsn sb \<noteq> - 1"
    proof
      assume m: "last_checkpoint_lsn sb = - 1"
      have "last_checkpoint_lsn sb \<le> top_lsn (last_checkpoint_lsn sb) (log_of st (pd_count d))" by (rule top_lsn_ge)
      with m top show False by (simp add: word_order.extremum_unique)
    qed
    moreover from this have "last_checkpoint_lsn sb + 1 \<noteq> 0" by (simp add: add_eq_0_iff2)
    from on_wal_file_reset [OF so this] obtain s1 where
      "on_wal_file (wal_reset (last_checkpoint_lsn sb + 1)) st = (Ret (), s1)" "stable_ok d s1" "dblocks d s1 = dblocks d st"
      "fresh_log s1 (last_checkpoint_lsn sb + 1)" "armed s1 = armed st" by (auto simp: fresh_log_def)
    ultimately show ?thesis using False assms(2,4) tot by (simp add: thenE_def bindE_def mounts_to_def)
  qed
  then obtain info sb1 st1 where
    1: "(if clean_unmount sb = 0 then recover ?D sb
      else thenE (on_wal_file (wal_reset (last_checkpoint_lsn sb + 1))) (retE (no_recovery, sb))) st = (Ret (info, sb1), st1)"
    "stable_ok d st1" "\<not> armed st1" "fresh_log st1 (last_checkpoint_lsn sb1 + 1)" "total_blocks sb1 = pd_count d"
    "last_checkpoint_lsn sb1 \<noteq> - 1" "\<forall>b. b \<noteq> 0 \<longrightarrow> dblocks d st1 b = mounts_to d st b" by blast
  let ?sb = "sb1\<lparr>clean_unmount := 0\<rparr>"
  from start_tail [OF 1(2,4,3) cnt, of sy ?sb opts info] obtain st' where
    2: "thenE (on_disk (write_superblock ?D ?sb)) (thenE (on_disk (dev_sync ?D))
      (thenE (on_disk inst_reset_counts) (thenE (on_wal_file wal_reset_stats) (getE (\<lambda>st. new_engine opts ?sb info st))))) st1 =
      (Ret (new_engine opts ?sb info st'), st')" "stable_ok d st'" "fresh_log st' (last_checkpoint_lsn ?sb + 1)" "\<not> armed st'"
    "dblocks d st' = (dblocks d st1)(0 := super_image ?sb)" by auto
  have run: "storage_start opts ?D sb st = (Ret (new_engine opts ?sb info st'), st')"
    unfolding storage_start_new using 1(1) 2(1) by (simp add: bindE_def)
  have "decode_superblock (dblocks d st' 0) = ?sb" "total_blocks ?sb = pd_count d" "last_checkpoint_lsn ?sb \<noteq> - 1"
    using 1(5,6) 2(5) by simp_all
  note ne = new_engine_logged [OF assms(3) 2(2,3) this]
  have "unarmed (new_engine opts ?sb info st')"
    using 2(4) by (simp add: unarmed_def disk_doomed_def armed_def disk_part_def new_engine_def Let_def)
  moreover have "e_stable (new_engine opts ?sb info st') = st'" by (simp add: new_engine_def Let_def)
  moreover have "dblocks d st' b = mounts_to d st b" if "b \<noteq> 0" for b using that 1(7) 2(5) by simp
  ultimately show ?thesis using run ne by metis
qed

section \<open>A small disk\<close>

text \<open>A freshly mounted disk of 64 blocks: block 0 the superblock, ones everywhere else.\<close>

definition demo_disk :: pread_dev where
  "demo_disk = \<lparr>pd_fd = 3, pd_count = 64\<rparr>"

definition demo_mounted :: stable where
  "demo_mounted = (\<lparr>wl_fd = 4, wl_sync = True, wl_end = 0, next_lsn = 1, durable_lsn = 0, bytes_appended = 0, batch = []\<rparr>,
     \<lparr>inner = small_world\<lparr>wfile := (\<lambda>fd.
        if fd = 3 then \<lparr>content = super_image demo_super @ replicate (63 * 4096) 1, script = [Short 9]\<rparr>
        else \<lparr>content = [], script = [Fail EINTR]\<rparr>)\<rparr>, reads = 0, writes = 0\<rparr>)"

definition demo_engine :: engine where
  "demo_engine = new_engine default_storage_options demo_super no_recovery demo_mounted"

lemma demo_mounted_facts:
  "stable_ok demo_disk demo_mounted" "fresh_log demo_mounted 1" "\<not> armed demo_mounted"
  "dblocks demo_disk demo_mounted 0 = super_image demo_super" "dblocks demo_disk demo_mounted 5 = replicate 4096 1"
proof -
  have len: "length (super_image demo_super) = 4096" using is_block_super_image by (simp add: is_block_def)
  show "stable_ok demo_disk demo_mounted"
    using len by (simp add: stable_ok_def dlive_def pd_live_def demo_mounted_def log_file_def demo_disk_def benign_def benign_event_def)
  show "fresh_log demo_mounted 1"
    by (simp add: fresh_log_def wal_ok_def stream_def demo_mounted_def log_file_def benign_def benign_event_def)
  show "\<not> armed demo_mounted" by (simp add: armed_def demo_mounted_def small_world_def)
  show "dblocks demo_disk demo_mounted 0 = super_image demo_super" "dblocks demo_disk demo_mounted 5 = replicate 4096 1"
    using len by (simp_all add: dblocks_def pd_blocks_def demo_mounted_def demo_disk_def block_offset_def get_at_def)
qed

lemma demo_mounted_ones: "dblocks demo_disk demo_mounted 1 = replicate 4096 1"
proof -
  have len: "length (super_image demo_super) = 4096" using is_block_super_image by (simp add: is_block_def)
  then show ?thesis by (simp add: dblocks_def pd_blocks_def demo_mounted_def demo_disk_def block_offset_def get_at_def)
qed

lemma demo_engine_facts:
  "logged demo_disk (dblocks demo_disk demo_mounted) demo_engine" "at_rest demo_engine"
  "engine_view demo_disk demo_engine = dblocks demo_disk demo_mounted" "unarmed demo_engine" "lsn_room demo_engine"
  "0 < pd_count demo_disk" "e_stable demo_engine = demo_mounted" "txn_blocks (ctl demo_engine) = []" "txn_count (ctl demo_engine) = 0"
  "enabled (ctl demo_engine)"
proof -
  have pre: "so_journal default_storage_options" "fresh_log demo_mounted (last_checkpoint_lsn demo_super + 1)"
    "decode_superblock (dblocks demo_disk demo_mounted 0) = demo_super" "total_blocks demo_super = pd_count demo_disk"
    "last_checkpoint_lsn demo_super \<noteq> - 1"
    using demo_mounted_facts(2,4) by (simp_all add: default_storage_options_def demo_super_def demo_disk_def)
  note ne = new_engine_logged [OF pre(1) demo_mounted_facts(1) pre(2-5), of no_recovery, folded demo_engine_def]
  show "logged demo_disk (dblocks demo_disk demo_mounted) demo_engine" "at_rest demo_engine"
    "engine_view demo_disk demo_engine = dblocks demo_disk demo_mounted" using ne by simp_all
  show st: "e_stable demo_engine = demo_mounted" "txn_blocks (ctl demo_engine) = []" "txn_count (ctl demo_engine) = 0"
    "enabled (ctl demo_engine)"
    by (simp_all add: demo_engine_def new_engine_def Let_def journal_new_def default_storage_options_def)
  show "unarmed demo_engine"
    using demo_mounted_facts(3) by (simp add: unarmed_def disk_doomed_def armed_def disk_part_def st)
  show "lsn_room demo_engine" by (simp add: lsn_room_def st log_of_engine_def) (simp add: demo_mounted_def)
  show "0 < pd_count demo_disk" by (simp add: demo_disk_def)
qed

text \<open>A process that has gone without being killed by a write leaves files that can be opened as they are.\<close>

lemma reopened_as_is:
  assumes "logged d G s" and "unarmed s"
  shows "reopened d (e_stable s) (e_stable s)" "\<not> armed (e_stable s)"
  using assms by (auto simp: logged_def store_ok_def log_state_def reopened_def unarmed_def disk_doomed_def armed_def disk_part_def)

lemma whole_ret: "whole (retE ())"
  by (simp add: whole_def)

text \<open>One block written, with an operation about to be committed.\<close>

definition demo_ended :: engine where
  "demo_ended = demo_engine\<lparr>ctl := (ctl demo_engine)\<lparr>ended := 1\<rparr>\<rparr>"

lemma demo_write:
  "\<exists>s. journal_write (disk_of demo_disk True) 5 True (retE ()) demo_ended = (Ret (), s) \<and>
     logged demo_disk (dblocks demo_disk demo_mounted) s \<and> unarmed s \<and> at_rest s \<and> lsn_room s \<and>
     committed_through (ctl s) < ended (ctl s) \<and> engine_view demo_disk s 5 = zero_block"
proof -
  let ?D = "disk_of demo_disk True" and ?G = "dblocks demo_disk demo_mounted"
  have ls: "logged demo_disk ?G demo_ended"
    unfolding demo_ended_def by (rule logged_ctl [OF demo_engine_facts(1)]) simp_all
  have five: "(0 :: u32) < 5" "5 < pd_count demo_disk" by (simp_all add: demo_disk_def)
  have fn: "(retE () :: (block, unit) op) (if True then zero_block else engine_view demo_disk demo_ended 5) = (Ret (), zero_block)" by simp
  have z: "is_block zero_block" by simp
  have un: "unarmed demo_ended" using demo_engine_facts(4) by (simp add: demo_ended_def)
  from logged_write [where fn = "retE ()" and fresh = True and x = zero_block and b = 5 and sy = True, OF ls five fn z] un obtain s where
    w: "journal_write ?D 5 True (retE ()) demo_ended = (Ret (), s)" "same_ctl (ctl demo_ended) (ctl s)" "unarmed s"
    "logged demo_disk ?G s" "engine_view demo_disk s 5 = zero_block" "log_of_engine s = log_of_engine demo_ended" by auto
  have l: "next_lsn (log_of_engine s) = 1"
    unfolding w(6) by (simp add: demo_ended_def log_of_engine_def demo_engine_facts) (simp add: demo_mounted_def)
  have "committed_through (ctl demo_ended) < ended (ctl demo_ended)" "at_rest demo_ended"
    using demo_engine_facts(2)
    by (simp_all add: demo_ended_def demo_engine_def new_engine_def Let_def journal_new_def at_rest_def)
  then have "committed_through (ctl s) < ended (ctl s)" "at_rest s"
    using same_ctlD [OF w(2)] by (simp_all add: at_rest_def)
  moreover have "lsn_room s" by (rule lsn_room_if [OF w(4)]) (simp add: l)
  ultimately show ?thesis using w by blast
qed

end
