(* ===== verification/Vfs.thy ===== *)
theory Vfs
  imports Storage Inode_Table Directory Lock_Manager Mount_Gate Path
begin

text \<open>
  \<^verbatim>\<open>src/src/vfs.cpp\<close>: the public calls. The mounted file system is a record of the journal's
  state, the allocator, the inode locks and the open file table. Every call is the whole of the
  function in the source, from the gate to the error code it returns; locks and operation
  scopes are taken and given back where the source does. The calls are those of one thread.

  The time comes from the host: \<^verbatim>\<open>fs_clock\<close> gives what the \<^term>\<open>n\<close>-th call of \<^verbatim>\<open>time\<close> returns.
  A string argument or a buffer that may be a null pointer is an option. A call that fails says
  nothing about the bytes of the caller's buffer.
\<close>

definition MAX_OPEN :: nat where "MAX_OPEN = 1024"
definition WRITE_CHUNK_BLOCKS :: nat where "WRITE_CHUNK_BLOCKS = 16"
definition MAX_FILE_BYTES :: nat where "MAX_FILE_BYTES = MAX_FILE_BLOCKS * BLOCK_SIZE"
definition SSIZE_MAX :: nat where "SSIZE_MAX = 2 ^ 63 - 1"
definition INT_MAX :: nat where "INT_MAX = 2 ^ 31 - 1"

definition VFS_O_RDONLY :: u32 where "VFS_O_RDONLY = 0"
definition VFS_O_WRONLY :: u32 where "VFS_O_WRONLY = 1"
definition VFS_O_RDWR :: u32 where "VFS_O_RDWR = 2"
definition VFS_O_ACCMODE :: u32 where "VFS_O_ACCMODE = 3"
definition VFS_O_CREAT :: u32 where "VFS_O_CREAT = 0x100"
definition VFS_O_EXCL :: u32 where "VFS_O_EXCL = 0x200"
definition VFS_O_TRUNC :: u32 where "VFS_O_TRUNC = 0x400"
definition VFS_O_APPEND :: u32 where "VFS_O_APPEND = 0x800"
definition VFS_SEEK_SET :: int where "VFS_SEEK_SET = 0"
definition VFS_SEEK_CUR :: int where "VFS_SEEK_CUR = 1"
definition VFS_SEEK_END :: int where "VFS_SEEK_END = 2"

record open_file =
  f_offset :: u64
  f_inode :: u32
  f_flags :: u32
  f_lock :: "u32 option"
  in_use :: bool

definition closed_file :: open_file where
  "closed_file = \<lparr>f_offset = 0, f_inode = 0, f_flags = 0, f_lock = None, in_use = False\<rparr>"

record 'j fs =
  fs_j :: 'j
  fs_sb :: superblock
  fs_alloc :: allocator
  fs_locks :: locks
  fs_files :: "open_file list"
  fs_clock :: "nat \<Rightarrow> u64"
  fs_ticks :: nat

record vfs_options =
  vo_cache_frames :: u32
  vo_disk_latency_us :: u32
  vo_journal :: bool
  vo_fsync :: bool
  vo_flusher :: bool
  vo_commit_interval_ms :: u32
  vo_checkpoint_bytes :: u64

definition default_vfs_options :: vfs_options where
  "default_vfs_options = \<lparr>vo_cache_frames = 4096, vo_disk_latency_us = 0, vo_journal = True,
     vo_fsync = True, vo_flusher = True, vo_commit_interval_ms = 1000,
     vo_checkpoint_bytes = push_bit 20 32\<rparr>"

record vfs_stat_buf =
  vs_inode :: u32
  vs_mode :: u16
  vs_link_count :: u16
  vs_size :: u64
  vs_blocks :: u32
  vs_mtime :: u64

record vfs_dirent =
  vd_inode :: u32
  vd_type :: byte
  vd_name :: bytes

record vfs_stats =
  vt_storage :: storage_stats
  vt_recovered_txns :: u64
  vt_recovered_blocks :: u64

section \<open>Parts of the file system\<close>

definition on_j :: "('j, 'a) op \<Rightarrow> ('j fs, 'a) op" where
  "on_j = zoomE fs_j (\<lambda>j s. s\<lparr>fs_j := j\<rparr>)"

definition on_allocator :: "('j alloc_state, 'a) op \<Rightarrow> ('j fs, 'a) op" where
  "on_allocator = zoomE (\<lambda>s. (fs_alloc s, fs_j s)) (\<lambda>(a, j) s. s\<lparr>fs_alloc := a, fs_j := j\<rparr>)"

definition on_locks :: "(locks, 'a) op \<Rightarrow> ('j fs, 'a) op" where
  "on_locks = zoomE fs_locks (\<lambda>m s. s\<lparr>fs_locks := m\<rparr>)"

text \<open>Runs an operation that changes the inode in a local variable; returns the variable too.\<close>

definition with_inode :: "inode \<Rightarrow> ('j inode_state, 'a) op \<Rightarrow> ('j fs, inode \<times> 'a) op" where
  "with_inode ino m = (\<lambda>s. case m (ino, (fs_alloc s, fs_j s)) of (r, (ino', (a, j))) \<Rightarrow>
     ((case r of Ret x \<Rightarrow> Ret (ino', x) | Raise e \<Rightarrow> Raise e | Halted h \<Rightarrow> Halted h),
      s\<lparr>fs_alloc := a, fs_j := j\<rparr>))"

definition now :: "('j fs, u64) op" where
  "now = (\<lambda>s. (Ret (fs_clock s (fs_ticks s)), s\<lparr>fs_ticks := fs_ticks s + 1\<rparr>))"

definition fs_error :: "int \<Rightarrow> ('s, 'a) op" where
  "fs_error code = throwE (FsError code)"

definition op_in_fs :: "'j journal \<Rightarrow> ('j fs, 'a) op \<Rightarrow> ('j fs, 'a) op" where
  "op_in_fs J body = op_scope (on_j (begin_op J)) (on_j (end_op J)) body"

text \<open>A scope that holds an inode's lock, given the lock or taking it.\<close>

definition holding :: "inode_lock \<Rightarrow> ('j fs, 'a) op \<Rightarrow> ('j fs, 'a) op" where
  "holding l body = finallyE body (on_locks (il_drop l))"

definition with_lock :: "u32 \<Rightarrow> bool \<Rightarrow> ('j fs, 'a) op \<Rightarrow> ('j fs, 'a) op" where
  "with_lock ino exclusive body = bindE (on_locks (inode_lock_new ino exclusive)) (\<lambda>l. holding l body)"

text \<open>\<^verbatim>\<open>std::shared_lock\<close> and \<^verbatim>\<open>std::unique_lock\<close> on an entry a descriptor refers to.\<close>

definition with_shared :: "u32 \<Rightarrow> ('j fs, 'a) op \<Rightarrow> ('j fs, 'a) op" where
  "with_shared ino body =
     thenE (on_locks (mutex_lock_shared ino)) (finallyE body (on_locks (mutex_unlock_shared ino)))"

definition with_unique :: "u32 \<Rightarrow> ('j fs, 'a) op \<Rightarrow> ('j fs, 'a) op" where
  "with_unique ino body =
     thenE (on_locks (mutex_lock ino)) (finallyE body (on_locks (mutex_unlock ino)))"

definition upd_lock_entry :: "u32 \<Rightarrow> (lock_entry \<Rightarrow> lock_entry) \<Rightarrow> ('j fs, unit) op" where
  "upd_lock_entry ino f = on_locks (modE (upd_entry ino f))"

section \<open>Path lookup\<close>

text \<open>One step down: the lock on \<^term>\<open>cur\<close> is held until the next one has been taken, and dropped
  if the step fails.\<close>

fun walk_from :: "'j journal \<Rightarrow> bool \<Rightarrow> inode_lock \<Rightarrow> bytes list \<Rightarrow> ('j fs, inode_lock) op" where
  "walk_from J exclusive cur [] = retE cur"
| "walk_from J exclusive cur (nm # names) =
     bindE (cleanupE
       (bindE (getE fs_sb) (\<lambda>sb.
        bindE (on_j (read_inode J sb (il_id cur))) (\<lambda>dir.
        if \<not> is_dir dir then fs_error VFS_ENOTDIR
        else bindE (on_j (dir_lookup J dir nm)) (\<lambda>(child, _).
        if child = 0 then fs_error VFS_ENOENT
        else on_locks (inode_lock_new child (names = [] \<and> exclusive))))))
       (on_locks (il_drop cur)))
     (\<lambda>next.
     bindE (on_locks (il_move_assign cur next)) (\<lambda>(cur', _).
     walk_from J exclusive cur' names))"

definition walk :: "'j journal \<Rightarrow> bytes list \<Rightarrow> bool \<Rightarrow> ('j fs, inode_lock) op" where
  "walk J names exclusive =
     bindE (on_locks (inode_lock_new ROOT_INODE (names = [] \<and> exclusive))) (\<lambda>cur.
     walk_from J exclusive cur names)"

section \<open>The open file table\<close>

definition upd_file :: "nat \<Rightarrow> (open_file \<Rightarrow> open_file) \<Rightarrow> ('j fs, unit) op" where
  "upd_file fd f = modE (\<lambda>s. s\<lparr>fs_files := (fs_files s)[fd := f (fs_files s ! fd)]\<rparr>)"

definition reserve_fd :: "('j fs, nat) op" where
  "reserve_fd =
     bindE (getE (\<lambda>s. find (\<lambda>fd. \<not> in_use (fs_files s ! fd)) [0..<MAX_OPEN])) (\<lambda>r. case r of
         Some fd \<Rightarrow> thenE (upd_file fd (\<lambda>f. f\<lparr>in_use := True\<rparr>)) (retE fd)
       | None \<Rightarrow> fs_error VFS_EMFILE)"

definition release_fd :: "nat \<Rightarrow> ('j fs, unit) op" where
  "release_fd fd = upd_file fd (\<lambda>f. f\<lparr>in_use := False\<rparr>)"

definition file_at :: "int \<Rightarrow> ('j fs, nat) op" where
  "file_at fd = (if fd < 0 \<or> fd \<ge> int MAX_OPEN then fs_error VFS_EBADF else retE (nat fd))"

text \<open>The descriptor as it is, when it is open.\<close>

definition snapshot :: "nat \<Rightarrow> ('j fs, open_file) op" where
  "snapshot fd =
     bindE (getE (\<lambda>s. fs_files s ! fd)) (\<lambda>f.
     if f_inode f = 0 then fs_error VFS_EBADF else retE f)"

definition register_open :: "u32 \<Rightarrow> ('j fs, u32) op" where
  "register_open ino =
     thenE (on_locks (lm_acquire ino))
    (thenE (upd_lock_entry ino (\<lambda>e. e\<lparr>open_count := open_count e + 1\<rparr>))
    (retE ino))"

section \<open>Creating\<close>

definition new_inode :: "u32 \<Rightarrow> u16 \<Rightarrow> ('j fs, inode) op" where
  "new_inode ino md =
     bindE now (\<lambda>t. retE (zero_inode\<lparr>id_of := ino, mode := md, link_count := 1, mtime := t\<rparr>))"

text \<open>Returns the changed directory and the new file's inode number.\<close>

definition create_file :: "'j journal \<Rightarrow> inode \<Rightarrow> bytes \<Rightarrow> ('j fs, inode \<times> u32) op" where
  "create_file J dir nm =
     bindE (getE fs_sb) (\<lambda>sb.
     bindE (on_allocator (alloc_inode J)) (\<lambda>ino.
     bindE (cleanupE (with_inode dir (dir_add J nm ino FT_FILE)) (on_allocator (free_inode J ino))) (\<lambda>(dir, _).
     bindE (new_inode ino (MODE_FILE OR FILE_PERM)) (\<lambda>f.
     thenE (on_j (write_inode J sb f))
    (bindE now (\<lambda>t.
     let dir = dir\<lparr>mtime := t\<rparr> in
     thenE (on_j (write_inode J sb dir))
     (retE (dir, ino))))))))"

definition open_new :: "'j journal \<Rightarrow> inode \<Rightarrow> bytes \<Rightarrow> ('j fs, u32 \<times> u32) op" where
  "open_new J dir nm =
     bindE (create_file J dir nm) (\<lambda>(_, ino).
     with_lock ino True (bindE (register_open ino) (\<lambda>entry. retE (ino, entry))))"

definition truncate_file :: "'j journal \<Rightarrow> u32 \<Rightarrow> ('j fs, unit) op" where
  "truncate_file J ino =
     thenE (upd_lock_entry ino (\<lambda>e. e\<lparr>inode_valid := False\<rparr>))
    (bindE (getE fs_sb) (\<lambda>sb.
     bindE (on_j (read_inode J sb ino)) (\<lambda>i.
     if size_of i \<noteq> 0 \<or> block_count i \<noteq> 0
     then bindE (with_inode i (free_all_blocks J)) (\<lambda>(i, _).
          bindE now (\<lambda>t. on_j (write_inode J sb (i\<lparr>size_of := 0, mtime := t\<rparr>))))
     else retE ())))"

definition open_changing :: "'j journal \<Rightarrow> bytes list \<Rightarrow> u32 \<Rightarrow> ('j fs, u32 \<times> u32) op" where
  "open_changing J names flags =
     op_in_fs J (
     let create = (flags AND VFS_O_CREAT \<noteq> 0) in
     bindE (walk J (butlast names) create) (\<lambda>parent. holding parent (
     bindE (getE fs_sb) (\<lambda>sb.
     bindE (on_j (read_inode J sb (il_id parent))) (\<lambda>dir.
     if \<not> is_dir dir then fs_error VFS_ENOTDIR
     else bindE (on_j (dir_lookup J dir (last names))) (\<lambda>(ino, ty).
     if ino = 0 then (if \<not> create then fs_error VFS_ENOENT else open_new J dir (last names))
     else if create \<and> flags AND VFS_O_EXCL \<noteq> 0 then fs_error VFS_EEXIST
     else if ty = Some FT_DIR then fs_error VFS_EISDIR
     else
       let trunc = (flags AND VFS_O_TRUNC \<noteq> 0) in
       with_lock ino trunc
         (thenE (whenE trunc (truncate_file J ino))
         (bindE (register_open ino) (\<lambda>entry. retE (ino, entry))))))))))"

definition open_existing :: "'j journal \<Rightarrow> bytes list \<Rightarrow> ('j fs, u32 \<times> u32) op" where
  "open_existing J names =
     bindE (walk J names False) (\<lambda>l. holding l (
     bindE (getE fs_sb) (\<lambda>sb.
     bindE (on_j (read_inode J sb (il_id l))) (\<lambda>i.
     if is_dir i then fs_error VFS_EISDIR
     else bindE (register_open (il_id l)) (\<lambda>entry. retE (il_id l, entry))))))"

section \<open>Reading\<close>

definition file_inode :: "'j journal \<Rightarrow> u32 \<Rightarrow> ('j fs, inode) op" where
  "file_inode J ino =
     bindE (getE (\<lambda>s. (the_entry ino (fs_locks s), fs_sb s))) (\<lambda>(e, sb).
     if inode_valid e then retE (e_inode e) else on_j (read_inode J sb ino))"

text \<open>The parts of the byte range from \<^term>\<open>at\<close> to \<^term>\<open>e\<close> that lie in one block each: the block's
  index in the file, the offset in it and the length.\<close>

function pieces :: "nat \<Rightarrow> nat \<Rightarrow> (nat \<times> nat \<times> nat) list" where
  "pieces at e =
     (if at < e then
        let off = at mod BLOCK_SIZE; len = min (BLOCK_SIZE - off) (e - at)
        in (at div BLOCK_SIZE, off, len) # pieces (at + len) e
      else [])"
  by pat_completeness auto
termination
proof (relation "measure (\<lambda>(at, e). e - at)", goal_cases)
  case (2 at e off len)
  define r where "r = at mod 4096"
  have "r < 4096" by (simp add: r_def)
  with 2 show ?case by (simp flip: r_def)
qed simp

declare pieces.simps [simp del]

definition read_piece :: "'j journal \<Rightarrow> inode \<Rightarrow> nat \<times> nat \<times> nat \<Rightarrow> ('j, bytes) op" where
  "read_piece J ino p = (case p of (index, off, len) \<Rightarrow>
     bindE (bmap_read J ino index) (\<lambda>blk.
     if blk = 0 then retE (replicate len 0)
     else bindE (jread J blk) (\<lambda>b. retE (get_at off len b))))"

definition read_range :: "'j journal \<Rightarrow> inode \<Rightarrow> nat \<Rightarrow> nat \<Rightarrow> ('j, bytes) op" where
  "read_range J ino pos n =
     (if pos \<ge> unat (size_of ino) then retE []
      else
        let left = unat (size_of ino) - pos; tot = (if left < n then left else n)
        in foldE (pieces pos (pos + tot)) (\<lambda>done p.
             bindE (read_piece J ino p) (\<lambda>bs. retE (done @ bs))) [])"

section \<open>Writing\<close>

text \<open>The loop over the blocks of one chunk: how far it got, whether a block is new, and whether
  the disk is full. \<^term>\<open>src\<close> are the bytes to be written from the chunk's start \<^term>\<open>pos\<close> on.\<close>

fun write_pieces ::
  "'j journal \<Rightarrow> bytes \<Rightarrow> nat \<Rightarrow> nat \<Rightarrow> bool \<Rightarrow> (nat \<times> nat \<times> nat) list \<Rightarrow>
   ('j inode_state, nat \<times> bool \<times> bool) op" where
  "write_pieces J src pos at changed [] = retE (at, changed, False)"
| "write_pieces J src pos at changed ((index, off, len) # ps) =
     bindE (catchE (bindE (bmap_alloc J index) (\<lambda>r. retE (Some r)))
              (\<lambda>e. if e = FsError VFS_ENOSPC then retE None else throwE e)) (\<lambda>r.
     case r of
       None \<Rightarrow> retE (at, changed, True)
     | Some (blk, fresh) \<Rightarrow>
         let whole = (off = 0 \<and> len = BLOCK_SIZE) in
         thenE (on_ijournal (jwrite J blk (fresh \<or> whole) (modE (put_at off (get_at (at - pos) len src)))))
         (write_pieces J src pos (at + len) (changed \<or> fresh) ps))"

text \<open>The end of a chunk: the size and the time, and the inode written back if it changed.\<close>

definition finish_chunk ::
  "'j journal \<Rightarrow> inode \<Rightarrow> nat \<Rightarrow> nat \<Rightarrow> bool \<Rightarrow> ('j fs, inode) op" where
  "finish_chunk J ino pos at changed =
     bindE (if at > pos
            then let grown = (at > unat (size_of ino));
                     ino = (if grown then ino\<lparr>size_of := of_nat at\<rparr> else ino)
                 in bindE now (\<lambda>t. retE (if mtime ino \<noteq> t then (ino\<lparr>mtime := t\<rparr>, True)
                                         else (ino, changed \<or> grown)))
            else retE (ino, changed)) (\<lambda>(ino, changed).
     bindE (getE fs_sb) (\<lambda>sb.
     thenE (whenE changed (on_j (write_inode J sb ino))) (retE ino)))"

datatype chunk_end = Chunk_break nat | Chunk_done nat nat bool  \<comment> \<open>bytes written, next position, disk full\<close>

definition write_chunk ::
  "'j journal \<Rightarrow> u32 \<Rightarrow> bool \<Rightarrow> bytes \<Rightarrow> nat \<Rightarrow> nat \<Rightarrow> ('j fs, chunk_end) op" where
  "write_chunk J ino app src done pos =
     op_in_fs J (with_unique ino (
     bindE (file_inode J ino) (\<lambda>i.
     thenE (upd_lock_entry ino (\<lambda>e. e\<lparr>inode_valid := False\<rparr>))
    (let pos = (if app then unat (size_of i) else pos) in
     if pos \<ge> MAX_FILE_BYTES
     then (if done = 0 then fs_error VFS_EFBIG else retE (Chunk_break pos))
     else
       let stop = min (pos + (length src - done))
                   (min ((pos div BLOCK_SIZE + WRITE_CHUNK_BLOCKS) * BLOCK_SIZE) MAX_FILE_BYTES)
       in bindE (with_inode i (write_pieces J (drop done src) pos pos False (pieces pos stop)))
            (\<lambda>(i, at, changed, disk_full).
          bindE (finish_chunk J i pos at changed) (\<lambda>i.
          thenE (upd_lock_entry ino (\<lambda>e. e\<lparr>e_inode := i, inode_valid := True\<rparr>))
          (retE (Chunk_done (at - pos) at disk_full))))))))"

text \<open>
  The loop over the chunks, with fuel: each turn that does not end the loop writes at least one
  byte, so one turn per byte and one more are enough. It returns the bytes written, where the
  next write would go, and whether the disk is full.
\<close>

fun write_loop ::
  "'j journal \<Rightarrow> u32 \<Rightarrow> bool \<Rightarrow> bytes \<Rightarrow> nat \<Rightarrow> nat \<Rightarrow> nat \<Rightarrow> ('j fs, nat \<times> nat \<times> bool) op" where
  "write_loop J ino app src 0 done pos = haltE Spins"
| "write_loop J ino app src (Suc fuel) done pos =
     (if done < length src
      then bindE (write_chunk J ino app src done pos) (\<lambda>r. case r of
          Chunk_break pos \<Rightarrow> retE (done, pos, False)
        | Chunk_done n at disk_full \<Rightarrow>
            if disk_full then retE (done + n, at, True)
            else write_loop J ino app src fuel (done + n) at)
      else retE (done, pos, False))"

section \<open>Calls\<close>

text \<open>The globals \<^verbatim>\<open>g_gate\<close> and \<^verbatim>\<open>g_fs\<close>.\<close>

record 'j vfs =
  g_gate :: mount_gate
  g_fs :: "'j fs option"

definition on_gate :: "(mount_gate, 'a) op \<Rightarrow> ('j vfs, 'a) op" where
  "on_gate = zoomE g_gate (\<lambda>g s. s\<lparr>g_gate := g\<rparr>)"

text \<open>An operation on the mounted file system; the gate is only open while there is one.\<close>

definition on_fs :: "('j fs, 'a) op \<Rightarrow> ('j vfs, 'a) op" where
  "on_fs m = (\<lambda>s. case g_fs s of
       None \<Rightarrow> (Halted Faults, s)
     | Some fs \<Rightarrow> (case m fs of (r, fs') \<Rightarrow> (r, s\<lparr>g_fs := Some fs'\<rparr>)))"

text \<open>
  \<^verbatim>\<open>with_fs\<close>, for the \<^term>\<open>k\<close>-th thread: the body's result with what it puts into the caller's
  buffer, or a negative error code and nothing.
\<close>

definition with_fs :: "nat \<Rightarrow> 'b \<Rightarrow> ('j fs, int \<times> 'b) op \<Rightarrow> ('j vfs, int \<times> 'b) op" where
  "with_fs k nothing body =
     bindE (on_gate (gate_enter k)) (\<lambda>entered.
     if \<not> entered then retE (- VFS_EINVAL, nothing)
     else finallyE
       (catchE (on_fs body) (\<lambda>e. case e of
           FsError code \<Rightarrow> retE (- code, nothing)
         | _ \<Rightarrow> retE (- VFS_EIO, nothing)))
       (on_gate (gate_leave k)))"

definition simple_call :: "nat \<Rightarrow> ('j fs, int) op \<Rightarrow> ('j vfs, int) op" where
  "simple_call k body =
     bindE (with_fs k () (bindE body (\<lambda>r. retE (r, ())))) (\<lambda>(r, _). retE r)"

definition vfs_open_fs :: "'j journal \<Rightarrow> bytes option \<Rightarrow> u32 \<Rightarrow> ('j fs, int) op" where
  "vfs_open_fs J path flags =
     (let access = flags AND VFS_O_ACCMODE in
      if access = VFS_O_ACCMODE then fs_error VFS_EINVAL
      else if flags AND VFS_O_TRUNC \<noteq> 0 \<and> access = VFS_O_RDONLY then fs_error VFS_EINVAL
      else bindE (liftE (split_path path)) (\<lambda>names.
      if names = [] then fs_error VFS_EISDIR
      else bindE reserve_fd (\<lambda>fd.
        thenE (cleanupE
          (bindE (if flags AND (VFS_O_CREAT OR VFS_O_TRUNC) \<noteq> 0 then open_changing J names flags
                  else open_existing J names) (\<lambda>(ino, entry).
           upd_file fd (\<lambda>f. f\<lparr>f_inode := ino, f_flags := flags, f_lock := Some entry, f_offset := 0\<rparr>)))
          (release_fd fd))
        (retE (int fd)))))"

definition vfs_open :: "'j journal \<Rightarrow> nat \<Rightarrow> bytes option \<Rightarrow> u32 \<Rightarrow> ('j vfs, int) op" where
  "vfs_open J k path flags = simple_call k (vfs_open_fs J path flags)"

definition vfs_close_fs :: "int \<Rightarrow> ('j fs, int) op" where
  "vfs_close_fs fd =
     bindE (file_at fd) (\<lambda>i.
     bindE (snapshot i) (\<lambda>f.
     thenE (upd_lock_entry (f_inode f) (\<lambda>e. e\<lparr>open_count := open_count e - 1\<rparr>))
    (thenE (on_locks (lm_release (f_inode f)))
    (thenE (upd_file i (\<lambda>f. f\<lparr>f_inode := 0, f_lock := None\<rparr>))
    (thenE (release_fd i)
    (retE 0))))))"

definition vfs_close :: "nat \<Rightarrow> int \<Rightarrow> ('j vfs, int) op" where
  "vfs_close k fd = simple_call k (vfs_close_fs fd)"

text \<open>Returns how many bytes were read, and the bytes. \<^term>\<open>buf\<close> says whether the pointer is null.\<close>

definition vfs_read_fs :: "'j journal \<Rightarrow> int \<Rightarrow> bool \<Rightarrow> nat \<Rightarrow> ('j fs, int \<times> bytes) op" where
  "vfs_read_fs J fd null_buf n =
     bindE (file_at fd) (\<lambda>i.
     bindE (snapshot i) (\<lambda>f.
     if f_flags f AND VFS_O_ACCMODE = VFS_O_WRONLY then fs_error VFS_EBADF
     else if n = 0 then retE (0, [])
     else if null_buf then fs_error VFS_EINVAL
     else
       bindE (with_shared (f_inode f)
         (bindE (file_inode J (f_inode f)) (\<lambda>ino.
          on_j (read_range J ino (unat (f_offset f)) (min n SSIZE_MAX))))) (\<lambda>got.
       thenE (upd_file i (\<lambda>f. f\<lparr>f_offset := f_offset f + of_nat (length got)\<rparr>))
       (retE (int (length got), got)))))"

definition vfs_read :: "'j journal \<Rightarrow> nat \<Rightarrow> int \<Rightarrow> bool \<Rightarrow> nat \<Rightarrow> ('j vfs, int \<times> bytes) op" where
  "vfs_read J k fd null_buf n = with_fs k [] (vfs_read_fs J fd null_buf n)"

text \<open>\<^term>\<open>buf\<close> holds the bytes to be written; only their number is looked at when it is null.\<close>

definition vfs_write_fs :: "'j journal \<Rightarrow> int \<Rightarrow> bool \<Rightarrow> bytes \<Rightarrow> ('j fs, int) op" where
  "vfs_write_fs J fd null_buf buf =
     bindE (file_at fd) (\<lambda>i.
     bindE (snapshot i) (\<lambda>f.
     if f_flags f AND VFS_O_ACCMODE = VFS_O_RDONLY then fs_error VFS_EBADF
     else if buf = [] then retE 0
     else if null_buf then fs_error VFS_EINVAL
     else
       let src = take SSIZE_MAX buf in
       bindE (write_loop J (f_inode f) (f_flags f AND VFS_O_APPEND \<noteq> 0) src (length src + 1) 0
                (unat (f_offset f))) (\<lambda>(done, pos, disk_full).
       thenE (upd_file i (\<lambda>f. f\<lparr>f_offset := of_nat pos\<rparr>))
       (if done = 0 \<and> disk_full then fs_error VFS_ENOSPC else retE (int done)))))"

definition vfs_write :: "'j journal \<Rightarrow> nat \<Rightarrow> int \<Rightarrow> bool \<Rightarrow> bytes \<Rightarrow> ('j vfs, int) op" where
  "vfs_write J k fd null_buf buf = simple_call k (vfs_write_fs J fd null_buf buf)"

text \<open>\<^verbatim>\<open>off_t\<close> is a signed 64-bit integer; a result that does not fit is an error.\<close>

definition vfs_lseek_fs :: "'j journal \<Rightarrow> int \<Rightarrow> int \<Rightarrow> int \<Rightarrow> ('j fs, int) op" where
  "vfs_lseek_fs J fd off whence =
     bindE (file_at fd) (\<lambda>i.
     bindE (snapshot i) (\<lambda>f.
     bindE (if whence = VFS_SEEK_SET then retE 0
            else if whence = VFS_SEEK_CUR then retE (sint (f_offset f))
            else if whence = VFS_SEEK_END
            then with_shared (f_inode f) (bindE (file_inode J (f_inode f)) (\<lambda>ino. retE (sint (size_of ino))))
            else fs_error VFS_EINVAL) (\<lambda>base.
     let result = base + off in
     if result < - (2 ^ 63) \<or> result \<ge> 2 ^ 63 \<or> result < 0 then fs_error VFS_EINVAL
     else thenE (upd_file i (\<lambda>f. f\<lparr>f_offset := of_int result\<rparr>)) (retE result))))"

definition vfs_lseek :: "'j journal \<Rightarrow> nat \<Rightarrow> int \<Rightarrow> int \<Rightarrow> int \<Rightarrow> ('j vfs, int) op" where
  "vfs_lseek J k fd off whence = simple_call k (vfs_lseek_fs J fd off whence)"

definition vfs_fsync :: "'j journal \<Rightarrow> nat \<Rightarrow> int \<Rightarrow> ('j vfs, int) op" where
  "vfs_fsync J k fd = simple_call k
     (bindE (file_at fd) (\<lambda>i. thenE (snapshot i) (thenE (on_j (jcommit J)) (retE 0))))"

definition vfs_sync :: "disk device \<Rightarrow> nat \<Rightarrow> (engine vfs, int) op" where
  "vfs_sync dev k = simple_call k (thenE (on_j (storage_checkpoint dev alone)) (retE 0))"

section \<open>Directories\<close>

text \<open>What \<^verbatim>\<open>mkdir\<close> does once the name is known to be free.\<close>

definition make_dir :: "'j journal \<Rightarrow> u32 \<Rightarrow> inode \<Rightarrow> bytes \<Rightarrow> ('j fs, int) op" where
  "make_dir J parent dir nm =
     bindE (getE fs_sb) (\<lambda>sb.
     bindE (on_allocator (alloc_inode J)) (\<lambda>ino.
     bindE (cleanupE (on_allocator (alloc_block J)) (on_allocator (free_inode J ino))) (\<lambda>blk.
     bindE (cleanupE (with_inode dir (dir_add J nm ino FT_DIR))
              (thenE (on_allocator (free_blocks J [blk])) (on_allocator (free_inode J ino)))) (\<lambda>(dir, _).
     thenE (on_j (dir_init J blk ino parent))
    (bindE (new_inode ino (MODE_DIR OR DIR_PERM)) (\<lambda>i.
     let i = i\<lparr>link_count := 2, size_of := of_nat BLOCK_SIZE, block_count := 1,
               direct := (direct i)[0 := blk]\<rparr> in
     thenE (on_j (write_inode J sb i))
    (bindE now (\<lambda>t.
     thenE (on_j (write_inode J sb (dir\<lparr>link_count := link_count dir + 1, mtime := t\<rparr>)))
     (retE 0)))))))))"

definition vfs_mkdir_fs :: "'j journal \<Rightarrow> bytes option \<Rightarrow> ('j fs, int) op" where
  "vfs_mkdir_fs J path =
     bindE (liftE (split_path path)) (\<lambda>names.
     if names = [] then fs_error VFS_EEXIST
     else op_in_fs J (
       bindE (walk J (butlast names) True) (\<lambda>parent. holding parent (
       bindE (getE fs_sb) (\<lambda>sb.
       bindE (on_j (read_inode J sb (il_id parent))) (\<lambda>dir.
       if \<not> is_dir dir then fs_error VFS_ENOTDIR
       else bindE (on_j (dir_lookup J dir (last names))) (\<lambda>(ino, _).
       if ino \<noteq> 0 then fs_error VFS_EEXIST
       else if link_count dir = - 1 then fs_error VFS_ENOSPC
       else make_dir J (il_id parent) dir (last names))))))))"

definition vfs_mkdir :: "'j journal \<Rightarrow> nat \<Rightarrow> bytes option \<Rightarrow> ('j vfs, int) op" where
  "vfs_mkdir J k path = simple_call k (vfs_mkdir_fs J path)"

text \<open>What \<^verbatim>\<open>unlink\<close> and \<^verbatim>\<open>rmdir\<close> do with the inode they take away.\<close>

definition remove_inode :: "'j journal \<Rightarrow> inode \<Rightarrow> bytes \<Rightarrow> u32 \<Rightarrow> inode \<Rightarrow> ('j fs, unit) op" where
  "remove_inode J dir nm ino i =
     bindE (getE fs_sb) (\<lambda>sb.
     thenE (on_j (dir_remove J dir nm))
    (thenE (with_inode i (free_all_blocks J))
    (thenE (on_j (clear_inode J sb ino))
     (on_allocator (free_inode J ino)))))"

definition vfs_unlink_fs :: "'j journal \<Rightarrow> bytes option \<Rightarrow> ('j fs, int) op" where
  "vfs_unlink_fs J path =
     bindE (liftE (split_path path)) (\<lambda>names.
     if names = [] then fs_error VFS_EISDIR
     else op_in_fs J (
       bindE (walk J (butlast names) True) (\<lambda>parent. holding parent (
       bindE (getE fs_sb) (\<lambda>sb.
       bindE (on_j (read_inode J sb (il_id parent))) (\<lambda>dir.
       if \<not> is_dir dir then fs_error VFS_ENOTDIR
       else bindE (on_j (dir_lookup J dir (last names))) (\<lambda>(ino, ty).
       if ino = 0 then fs_error VFS_ENOENT
       else if ty = Some FT_DIR then fs_error VFS_EISDIR
       else with_lock ino True (
         bindE (getE (\<lambda>s. open_count (the_entry ino (fs_locks s)))) (\<lambda>opened.
         if opened > 0 then fs_error VFS_EBUSY
         else
           thenE (upd_lock_entry ino (\<lambda>e. e\<lparr>inode_valid := False\<rparr>))
          (bindE (on_j (read_inode J sb ino)) (\<lambda>i.
           thenE (remove_inode J dir (last names) ino i)
          (bindE now (\<lambda>t.
           thenE (on_j (write_inode J sb (dir\<lparr>mtime := t\<rparr>)))
           (retE 0))))))))))))))"

definition vfs_unlink :: "'j journal \<Rightarrow> nat \<Rightarrow> bytes option \<Rightarrow> ('j vfs, int) op" where
  "vfs_unlink J k path = simple_call k (vfs_unlink_fs J path)"

definition vfs_rmdir_fs :: "'j journal \<Rightarrow> bytes option \<Rightarrow> ('j fs, int) op" where
  "vfs_rmdir_fs J path =
     bindE (liftE (split_path path)) (\<lambda>names.
     if names = [] then fs_error VFS_EBUSY
     else op_in_fs J (
       bindE (walk J (butlast names) True) (\<lambda>parent. holding parent (
       bindE (getE fs_sb) (\<lambda>sb.
       bindE (on_j (read_inode J sb (il_id parent))) (\<lambda>dir.
       if \<not> is_dir dir then fs_error VFS_ENOTDIR
       else bindE (on_j (dir_lookup J dir (last names))) (\<lambda>(ino, ty).
       if ino = 0 then fs_error VFS_ENOENT
       else if ty \<noteq> Some FT_DIR then fs_error VFS_ENOTDIR
       else with_lock ino True (
         thenE (upd_lock_entry ino (\<lambda>e. e\<lparr>inode_valid := False\<rparr>))
        (bindE (on_j (read_inode J sb ino)) (\<lambda>i.
         bindE (on_j (dir_is_empty J i)) (\<lambda>empty.
         if \<not> empty then fs_error VFS_ENOTEMPTY
         else
           thenE (remove_inode J dir (last names) ino i)
          (bindE now (\<lambda>t.
           thenE (on_j (write_inode J sb (dir\<lparr>link_count := link_count dir - 1, mtime := t\<rparr>)))
           (retE 0))))))))))))))"

definition vfs_rmdir :: "'j journal \<Rightarrow> nat \<Rightarrow> bytes option \<Rightarrow> ('j vfs, int) op" where
  "vfs_rmdir J k path = simple_call k (vfs_rmdir_fs J path)"

definition stat_of :: "inode \<Rightarrow> vfs_stat_buf" where
  "stat_of i = \<lparr>vs_inode = id_of i, vs_mode = mode i, vs_link_count = link_count i, vs_size = size_of i,
     vs_blocks = block_count i, vs_mtime = mtime i\<rparr>"

definition vfs_stat_fs :: "'j journal \<Rightarrow> bytes option \<Rightarrow> bool \<Rightarrow> ('j fs, int \<times> vfs_stat_buf option) op" where
  "vfs_stat_fs J path null_out =
     (if null_out then fs_error VFS_EINVAL
      else bindE (liftE (split_path path)) (\<lambda>names.
        bindE (walk J names False) (\<lambda>l. holding l (
        bindE (getE fs_sb) (\<lambda>sb.
        bindE (on_j (read_inode J sb (il_id l))) (\<lambda>i. retE (0, Some (stat_of i))))))))"

definition vfs_stat :: "'j journal \<Rightarrow> nat \<Rightarrow> bytes option \<Rightarrow> bool \<Rightarrow> ('j vfs, int \<times> vfs_stat_buf option) op" where
  "vfs_stat J k path null_out = with_fs k None (vfs_stat_fs J path null_out)"

text \<open>An entry as the caller gets it: the name in an array of 59 bytes that starts out as zeros.\<close>

definition dirent_of :: "dir_item \<Rightarrow> vfs_dirent" where
  "dirent_of i = \<lparr>vd_inode = di_inode i, vd_type = di_type i,
     vd_name = put_at 0 (di_name i) (replicate 59 0)\<rparr>"

definition vfs_readdir_fs ::
  "'j journal \<Rightarrow> bytes option \<Rightarrow> bool \<Rightarrow> nat \<Rightarrow> ('j fs, int \<times> vfs_dirent list) op" where
  "vfs_readdir_fs J path null_out limit =
     (if null_out \<and> limit > 0 then fs_error VFS_EINVAL
      else bindE (liftE (split_path path)) (\<lambda>names.
        bindE (walk J names False) (\<lambda>l. holding l (
        bindE (getE fs_sb) (\<lambda>sb.
        bindE (on_j (read_inode J sb (il_id l))) (\<lambda>dir.
        if \<not> is_dir dir then fs_error VFS_ENOTDIR
        else bindE (on_j (dir_list J dir)) (\<lambda>items.
          retE (int (min (length items) INT_MAX), map dirent_of (take limit items)))))))))"

definition vfs_readdir ::
  "'j journal \<Rightarrow> nat \<Rightarrow> bytes option \<Rightarrow> bool \<Rightarrow> nat \<Rightarrow> ('j vfs, int \<times> vfs_dirent list) op" where
  "vfs_readdir J k path null_out limit = with_fs k [] (vfs_readdir_fs J path null_out limit)"

section \<open>Mounting\<close>

text \<open>
  What is there when nothing is mounted is the world, with the disk and the log in it; mounting
  moves it into the engine and unmounting back. The device is the one the image was opened as.
\<close>

datatype session = Unmounted world | Mounted pread_dev bool "engine fs"

definition storage_options_of :: "vfs_options \<Rightarrow> storage_options" where
  "storage_options_of o1 = \<lparr>so_cache_frames = vo_cache_frames o1, so_disk_latency_us = vo_disk_latency_us o1,
     so_journal = vo_journal o1, so_fsync = vo_fsync o1, so_flusher = vo_flusher o1,
     so_commit_interval_ms = vo_commit_interval_ms o1, so_checkpoint_bytes = vo_checkpoint_bytes o1\<rparr>"

definition world_of :: "engine \<Rightarrow> world" where
  "world_of e = inner (snd (e_stable e))"

text \<open>\<^verbatim>\<open>FileSystem\<close>'s constructor. If the allocator cannot load the bitmaps, the storage that was
  opened is destroyed, which closes it.\<close>

definition file_system_new ::
  "bytes \<Rightarrow> bytes \<Rightarrow> storage_options \<Rightarrow> (nat \<Rightarrow> u64) \<Rightarrow> (world, pread_dev \<times> engine fs) op" where
  "file_system_new disk_path wal_path opts clock =
     bindE (storage_open disk_path wal_path opts) (\<lambda>(raw, eng) w.
       let dev = disk_of raw (so_fsync opts) in
       case alloc_new (engine_journal dev) (s_sb eng) eng of
         (Ret a, eng) \<Rightarrow> (Ret (raw, \<lparr>fs_j = eng, fs_sb = s_sb eng, fs_alloc = a, fs_locks = (\<lambda>_. None),
             fs_files = replicate MAX_OPEN closed_file, fs_clock = clock, fs_ticks = 0\<rparr>), world_of eng)
       | (Halted h, eng) \<Rightarrow> (Halted h, world_of eng)
       | (Raise e, eng) \<Rightarrow> (case storage_destroy dev alone eng of
             (Halted h, eng) \<Rightarrow> (Halted h, world_of eng)
           | (_, eng) \<Rightarrow> (Raise e, world_of eng)))"

definition vfs_mount ::
  "bytes option \<Rightarrow> bytes option \<Rightarrow> vfs_options option \<Rightarrow> (nat \<Rightarrow> u64) \<Rightarrow> (mount_gate \<times> session, int) op" where
  "vfs_mount disk_path wal_path opts clock = (\<lambda>(g, ses). case ses of
       Mounted _ _ _ \<Rightarrow> (Ret (- VFS_EBUSY), (g, ses))
     | Unmounted w \<Rightarrow> (case (disk_path, wal_path) of
         (Some dp, Some wp) \<Rightarrow>
           if \<not> posix_exists dp w then (Ret (- VFS_ENOENT), (g, ses))
           else
             let o1 = (case opts of Some x \<Rightarrow> x | None \<Rightarrow> default_vfs_options) in
             if vo_cache_frames o1 < 256 then (Ret (- VFS_EINVAL), (g, ses))
             else (case file_system_new dp wp (storage_options_of o1) clock w of
                 (Ret (raw, fs), w) \<Rightarrow>
                   (case gate_open g of (_, g) \<Rightarrow> (Ret 0, (g, Mounted raw (vo_fsync o1) fs)))
               | (Halted h, w) \<Rightarrow> (Halted h, (g, Unmounted w))
               | (Raise e, w) \<Rightarrow>
                   (Ret (case e of FsError code \<Rightarrow> - code | _ \<Rightarrow> - VFS_EINVAL), (g, Unmounted w)))
       | _ \<Rightarrow> (Ret (- VFS_EINVAL), (g, ses))))"

text \<open>The loop of \<^verbatim>\<open>vfs_unmount\<close> over the open file table.\<close>

definition close_file :: "nat \<Rightarrow> ('j fs, unit) op" where
  "close_file fd =
     bindE (getE (\<lambda>s. fs_files s ! fd)) (\<lambda>f.
     thenE (whenE (f_inode f \<noteq> 0)
       (thenE (upd_lock_entry (f_inode f) (\<lambda>e. e\<lparr>open_count := open_count e - 1\<rparr>))
        (on_locks (lm_release (f_inode f)))))
     (upd_file fd (\<lambda>f. f\<lparr>f_inode := 0, f_lock := None, in_use := False\<rparr>)))"

definition vfs_unmount :: "(mount_gate \<times> session, int) op" where
  "vfs_unmount = (\<lambda>(g, ses). case ses of
       Unmounted w \<Rightarrow> (Ret (- VFS_EINVAL), (g, ses))
     | Mounted raw sy fs \<Rightarrow> (case gate_close_and_drain g of
         (Ret _, g) \<Rightarrow>
           let dev = disk_of raw sy in
           (case thenE (forE [0..<MAX_OPEN] close_file) (on_j (storage_close dev alone)) fs of
              (Ret _, fs) \<Rightarrow> (Ret 0, (g, Unmounted (world_of (fs_j fs))))
            | (Raise _, fs) \<Rightarrow> (Ret (- VFS_EIO), (g, Unmounted (world_of (fs_j fs))))
            | (Halted h, fs) \<Rightarrow> (Halted h, (g, Unmounted (world_of (fs_j fs)))))
       | (Raise e, g) \<Rightarrow> (Raise e, (g, ses))
       | (Halted h, g) \<Rightarrow> (Halted h, (g, ses))))"

section \<open>Counters\<close>

definition no_stats :: vfs_stats where
  "no_stats = \<lparr>vt_storage = \<lparr>ss_disk_reads = 0, ss_disk_writes = 0, ss_cache_hits = 0, ss_cache_misses = 0,
      ss_evictions = 0, ss_log_bytes = 0, ss_commits = 0, ss_checkpoints = 0\<rparr>,
     vt_recovered_txns = 0, vt_recovered_blocks = 0\<rparr>"

definition vfs_get_stats :: "nat \<Rightarrow> (engine vfs, vfs_stats) op" where
  "vfs_get_stats k =
     bindE (on_gate (gate_enter k)) (\<lambda>entered.
     if \<not> entered then retE no_stats
     else finallyE
       (on_fs (getE (\<lambda>fs. \<lparr>vt_storage = storage_stats_of (fs_j fs),
          vt_recovered_txns = txns_replayed (s_recovery (fs_j fs)),
          vt_recovered_blocks = blocks_replayed (s_recovery (fs_j fs))\<rparr>)))
       (on_gate (gate_leave k)))"

definition vfs_reset_stats :: "nat \<Rightarrow> (engine vfs, unit) op" where
  "vfs_reset_stats k =
     bindE (on_gate (gate_enter k)) (\<lambda>entered.
     whenE entered (finallyE (on_fs (on_j storage_reset_stats)) (on_gate (gate_leave k))))"

end
