(* ===== verification/Vfs_Calls.thy ===== *)
theory Vfs_Calls
  imports Vfs
begin

text \<open>
  What every public call has in common: it passes the gate, turns exceptions into error codes and
  checks its descriptor; and that the loop of \<^verbatim>\<open>vfs_write\<close> gets on with every turn.
\<close>

section \<open>The gate and the error codes\<close>

definition gate_ok :: "mount_gate \<Rightarrow> bool" where
  "gate_ok g \<longleftrightarrow> length (slots g) = SLOTS"

lemma slot_back:
  assumes "gate_ok g"
  shows "slot_add k (- 1) (slot_add k 1 g) = g"
proof -
  have "my_slot k < length (slots g)" using assms by (simp add: gate_ok_def)
  then show ?thesis by (simp add: slot_add_def)
qed

lemma enter_open:
  assumes "gate_ok g"
  shows "gate_enter k g = (if gate_closed g then (Ret False, g) else (Ret True, slot_add k 1 g))"
proof -
  have "gate_closed (slot_add k 1 g) = gate_closed g" by (simp add: slot_add_def)
  then show ?thesis using slot_back [OF assms] by (simp add: gate_enter_def)
qed

text \<open>The error code an exception becomes.\<close>

definition code_of :: "exn \<Rightarrow> int" where
  "code_of e = (case e of FsError code \<Rightarrow> code | _ \<Rightarrow> VFS_EIO)"

lemma with_fs_closed:
  assumes "gate_ok (g_gate s)" and "gate_closed (g_gate s)"
  shows "with_fs k nothing body s = (Ret (- VFS_EINVAL, nothing), s)"
  using assms by (simp add: with_fs_def on_gate_def zoomE_def enter_open bindE_def)

lemma with_fs_open:
  assumes "gate_ok (g_gate s)" and "\<not> gate_closed (g_gate s)" and "g_fs s = Some fs"
  shows "with_fs k nothing body s = (case body fs of
      (Ret x, fs') \<Rightarrow> (Ret x, s\<lparr>g_fs := Some fs'\<rparr>)
    | (Raise e, fs') \<Rightarrow> (Ret (- code_of e, nothing), s\<lparr>g_fs := Some fs'\<rparr>)
    | (Halted h, fs') \<Rightarrow> (Halted h, s\<lparr>g_gate := slot_add k 1 (g_gate s), g_fs := Some fs'\<rparr>))"
proof -
  let ?s1 = "s\<lparr>g_gate := slot_add k 1 (g_gate s)\<rparr>"
  have enter: "on_gate (gate_enter k) s = (Ret True, ?s1)"
    using assms(1,2) by (simp add: on_gate_def zoomE_def enter_open)
  obtain r fs' where r: "body fs = (r, fs')" by fastforce
  have run: "on_fs body ?s1 = (r, ?s1\<lparr>g_fs := Some fs'\<rparr>)" using assms(3) r by (simp add: on_fs_def)
  have out: "on_gate (gate_leave k) (?s1\<lparr>g_fs := Some fs'\<rparr>) = (Ret (), s\<lparr>g_fs := Some fs'\<rparr>)"
    using slot_back [OF assms(1)] by (simp add: on_gate_def zoomE_def gate_leave_def)
  show ?thesis
    using enter run out r
    by (cases r) (auto simp: with_fs_def finallyE_def cleanupE_def catchE_def code_of_def bindE_def thenE_def split: exn.splits)
qed

text \<open>A body that throws before it has changed anything.\<close>

lemma with_fs_throws:
  assumes "gate_ok (g_gate s)" and "\<not> gate_closed (g_gate s)" and "g_fs s = Some fs" and "body fs = (Raise e, fs)"
  shows "with_fs k x body s = (Ret (- code_of e, x), s)"
proof -
  have "s\<lparr>g_fs := Some fs\<rparr> = s" using assms(3) by (cases s) simp
  with assms(4) show ?thesis by (simp add: with_fs_open [OF assms(1-3)])
qed

lemma simple_call_throws:
  assumes "gate_ok (g_gate s)" and "\<not> gate_closed (g_gate s)" and "g_fs s = Some fs" and "body fs = (Raise e, fs)"
  shows "simple_call k body s = (Ret (- code_of e), s)"
proof -
  have b: "bindE body (\<lambda>r. retE (r, ())) fs = (Raise e, fs)" using assms(4) by simp
  have "with_fs k () (bindE body (\<lambda>r. retE (r, ()))) s = (Ret (- code_of e, ()), s)"
    by (rule with_fs_throws [OF assms(1-3)]) (rule b)
  then show ?thesis by (simp add: simple_call_def)
qed

text \<open>
  C22. What a call returns. A call made when the gate is closed, because nothing is mounted or an
  unmount is under way, returns \<^verbatim>\<open>-EINVAL\<close> and changes nothing. Otherwise it returns what its body
  returns, or the negated code of the error its body threw, and \<^verbatim>\<open>-EIO\<close> for any other exception;
  no exception escapes, and the gate is left as it was found.
\<close>

theorem call_outcome:
  assumes "gate_ok (g_gate s)"
  shows "if gate_closed (g_gate s) then with_fs k nothing body s = (Ret (- VFS_EINVAL, nothing), s)
    else \<forall>fs. g_fs s = Some fs \<longrightarrow> (case (body fs, with_fs k nothing body s) of
        ((Ret x, fs'), (r, s')) \<Rightarrow> r = Ret x \<and> s' = s\<lparr>g_fs := Some fs'\<rparr>
      | ((Raise e, fs'), (r, s')) \<Rightarrow> r = Ret (- code_of e, nothing) \<and> s' = s\<lparr>g_fs := Some fs'\<rparr>
      | ((Halted h, fs'), (r, s')) \<Rightarrow> r = Halted h)"
proof (cases "gate_closed (g_gate s)")
  case True
  with with_fs_closed [OF assms] show ?thesis by simp
next
  case False
  have "case (body fs, with_fs k nothing body s) of
        ((Ret x, fs'), (r, s')) \<Rightarrow> r = Ret x \<and> s' = s\<lparr>g_fs := Some fs'\<rparr>
      | ((Raise e, fs'), (r, s')) \<Rightarrow> r = Ret (- code_of e, nothing) \<and> s' = s\<lparr>g_fs := Some fs'\<rparr>
      | ((Halted h, fs'), (r, s')) \<Rightarrow> r = Halted h" if "g_fs s = Some fs" for fs
    unfolding with_fs_open [OF assms False that]
    by (cases "body fs"; cases "fst (body fs)") simp_all
  with False show ?thesis by simp
qed

definition demo_fs :: "unit fs" where
  "demo_fs = \<lparr>fs_j = (), fs_sb = decode_superblock (replicate 4096 0), fs_alloc = \<lparr>a_sb = decode_superblock [], a_inodes = bitmap_new 0, a_blocks = bitmap_new 0\<rparr>,
     fs_locks = (\<lambda>_. None), fs_files = replicate MAX_OPEN closed_file, fs_clock = (\<lambda>n. of_nat n), fs_ticks = 0\<rparr>"

definition demo_vfs :: "unit vfs" where
  "demo_vfs = \<lparr>g_gate = gate_new\<lparr>gate_closed := False\<rparr>, g_fs = Some demo_fs\<rparr>"

theorem call_outcome_witness:
  "gate_ok (g_gate demo_vfs) \<and> with_fs 3 () (fs_error VFS_EBADF) demo_vfs = (Ret (- VFS_EBADF, ()), demo_vfs)"
proof -
  have g: "gate_ok (g_gate demo_vfs)" by (simp add: gate_ok_def demo_vfs_def gate_new_def)
  obtain r s' where rs: "with_fs 3 () (fs_error VFS_EBADF) demo_vfs = (r, s')" by fastforce
  from call_outcome [OF g, of 3 "()" "fs_error VFS_EBADF"] rs
  have "r = Ret (- VFS_EBADF, ()) \<and> s' = demo_vfs"
    by (simp add: demo_vfs_def fs_error_def code_of_def)
  with g rs show ?thesis by simp
qed

section \<open>Descriptors\<close>

definition is_open :: "'j fs \<Rightarrow> int \<Rightarrow> bool" where
  "is_open fs fd \<longleftrightarrow> 0 \<le> fd \<and> fd < int MAX_OPEN \<and> f_inode (fs_files fs ! nat fd) \<noteq> 0"

lemma descriptor_check:
  "bindE (file_at fd) (\<lambda>i. bindE (snapshot i) (m i)) fs =
     (if is_open fs fd then m (nat fd) (fs_files fs ! nat fd) fs else (Raise (FsError VFS_EBADF), fs))"
  by (auto simp: file_at_def snapshot_def is_open_def fs_error_def bindE_def)

text \<open>
  C23. A bad descriptor. Every call on a descriptor that is out of range or not open returns
  \<^verbatim>\<open>-EBADF\<close>, whatever its other arguments, and changes nothing.
\<close>

theorem bad_descriptor:
  assumes "gate_ok (g_gate s)" and "\<not> gate_closed (g_gate s)" and "g_fs s = Some fs" and "\<not> is_open fs fd"
  shows "vfs_close k fd s = (Ret (- VFS_EBADF), s) \<and>
    vfs_read J k fd null n s = (Ret (- VFS_EBADF, []), s) \<and>
    vfs_write J k fd null buf s = (Ret (- VFS_EBADF), s) \<and>
    vfs_lseek J k fd off whence s = (Ret (- VFS_EBADF), s) \<and>
    vfs_fsync J k fd s = (Ret (- VFS_EBADF), s)"
proof -
  note chk = descriptor_check [of fd _ fs] assms(4)
  show ?thesis
    unfolding vfs_close_def vfs_read_def vfs_write_def vfs_lseek_def vfs_fsync_def thenE_def [of "snapshot _"]
    by (intro conjI with_fs_throws [OF assms(1-3), where e = "FsError VFS_EBADF", unfolded code_of_def exn.case]
        simple_call_throws [OF assms(1-3), where e = "FsError VFS_EBADF", unfolded code_of_def exn.case])
      (simp_all add: vfs_close_fs_def vfs_read_fs_def vfs_write_fs_def vfs_lseek_fs_def chk)
qed

theorem bad_descriptor_witness:
  "gate_ok (g_gate demo_vfs) \<and> vfs_close 3 5 demo_vfs = (Ret (- VFS_EBADF), demo_vfs)"
proof -
  have g: "gate_ok (g_gate demo_vfs)" "\<not> gate_closed (g_gate demo_vfs)" "g_fs demo_vfs = Some demo_fs"
    by (simp_all add: gate_ok_def demo_vfs_def gate_new_def)
  have "\<not> is_open demo_fs 5" by (simp add: is_open_def demo_fs_def closed_file_def MAX_OPEN_def nth_replicate)
  from bad_descriptor [OF g this, of 3] g(1) show ?thesis by simp
qed

text \<open>
  What a seek counts from, and the state once that is known: zero, where the descriptor is, or
  the file's size, which is the one kept with the file's lock while that is valid and is read from
  the journal otherwise. The lock must not be held by a writer.
\<close>

definition size_known :: "'j journal \<Rightarrow> u32 \<Rightarrow> 'j fs \<Rightarrow> u64 \<Rightarrow> 'j fs \<Rightarrow> bool" where
  "size_known J i fs n fs1 \<longleftrightarrow>
     (let e = the_entry i (fs_locks fs) in
      if inode_valid e then n = size_of (e_inode e) \<and> fs1 = fs
      else \<exists>ino j. read_inode J (fs_sb fs) i (fs_j fs) = (Ret ino, j) \<and> n = size_of ino \<and> fs1 = fs\<lparr>fs_j := j\<rparr>)"

definition seeks_from :: "'j journal \<Rightarrow> open_file \<Rightarrow> int \<Rightarrow> 'j fs \<Rightarrow> int \<Rightarrow> 'j fs \<Rightarrow> bool" where
  "seeks_from J f whence fs base fs1 \<longleftrightarrow>
     whence = 0 \<and> base = 0 \<and> fs1 = fs \<or>
     whence = 1 \<and> base = sint (f_offset f) \<and> fs1 = fs \<or>
     whence = 2 \<and> \<not> writer (the_entry (f_inode f) (fs_locks fs)) \<and>
       (\<exists>n. size_known J (f_inode f) fs n fs1 \<and> base = sint n)"

lemma readers_back:
  "upd_entry i (\<lambda>e. e\<lparr>readers := readers e - 1\<rparr>) (upd_entry i (\<lambda>e. e\<lparr>readers := readers e + 1\<rparr>) m) = m"
  by (auto simp: upd_entry_def option.map_comp o_def intro!: ext split: option.splits)
     (metis option.map_ident)

lemma shared_size:
  assumes "\<not> writer (the_entry i (fs_locks fs))"
  shows "size_known J i fs n fs1 \<Longrightarrow>
      with_shared i (bindE (file_inode J i) (\<lambda>ino. retE (sint (size_of ino)))) fs = (Ret (sint n), fs1)"
    and "\<not> inode_valid (the_entry i (fs_locks fs)) \<Longrightarrow> read_inode J (fs_sb fs) i (fs_j fs) = (Raise x, j) \<Longrightarrow>
      with_shared i (bindE (file_inode J i) (\<lambda>ino. retE (sint (size_of ino)))) fs = (Raise x, fs\<lparr>fs_j := j\<rparr>)"
proof -
  define m where "m = upd_entry i (\<lambda>e. e\<lparr>readers := readers e + 1\<rparr>) (fs_locks fs)"
  have lock: "on_locks (mutex_lock_shared i) fs = (Ret (), fs\<lparr>fs_locks := m\<rparr>)"
    using assms by (simp add: on_locks_def zoomE_def mutex_lock_shared_def m_def)
  have unlock: "on_locks (mutex_unlock_shared i) (fs\<lparr>fs_locks := m, fs_j := j\<rparr>) = (Ret (), fs\<lparr>fs_j := j\<rparr>)" for j
    using readers_back [of i "fs_locks fs"] by (cases fs) (simp add: on_locks_def zoomE_def mutex_unlock_shared_def m_def)
  have entry: "inode_valid (the_entry i m) = inode_valid (the_entry i (fs_locks fs))"
    "e_inode (the_entry i m) = e_inode (the_entry i (fs_locks fs))"
    by (auto simp: m_def the_entry_def upd_entry_def new_entry_def split: option.split)
  have same: "fs\<lparr>fs_locks := m, fs_j := fs_j fs\<rparr> = fs\<lparr>fs_locks := m\<rparr>" "fs\<lparr>fs_j := fs_j fs\<rparr> = fs" by simp_all
  note run = with_shared_def thenE_def bindE_def lock file_inode_def entry finallyE_def cleanupE_def catchE_def on_j_def zoomE_def
  show "with_shared i (bindE (file_inode J i) (\<lambda>ino. retE (sint (size_of ino)))) fs = (Ret (sint n), fs1)"
    if "size_known J i fs n fs1"
    using that unlock unlock [of "fs_j fs", unfolded same] by (auto simp: run size_known_def Let_def split: if_splits)
  show "with_shared i (bindE (file_inode J i) (\<lambda>ino. retE (sint (size_of ino)))) fs = (Raise x, fs\<lparr>fs_j := j\<rparr>)"
    if "\<not> inode_valid (the_entry i (fs_locks fs))" "read_inode J (fs_sb fs) i (fs_j fs) = (Raise x, j)"
    using that unlock by (simp add: run)
qed

text \<open>The part of \<^verbatim>\<open>vfs_lseek\<close> that finds out what to count from, and the part after it.\<close>

definition seek_base :: "'j journal \<Rightarrow> open_file \<Rightarrow> int \<Rightarrow> ('j fs, int) op" where
  "seek_base J f whence =
     (if whence = VFS_SEEK_SET then retE 0
      else if whence = VFS_SEEK_CUR then retE (sint (f_offset f))
      else if whence = VFS_SEEK_END
      then with_shared (f_inode f) (bindE (file_inode J (f_inode f)) (\<lambda>ino. retE (sint (size_of ino))))
      else fs_error VFS_EINVAL)"

lemma lseek_body:
  assumes "is_open fs fd"
  shows "vfs_lseek_fs J fd off whence fs = bindE (seek_base J (fs_files fs ! nat fd) whence) (\<lambda>base.
     if base + off < - (2 ^ 63) \<or> base + off \<ge> 2 ^ 63 \<or> base + off < 0 then fs_error VFS_EINVAL
     else thenE (upd_file (nat fd) (\<lambda>f. f\<lparr>f_offset := of_int (base + off)\<rparr>)) (retE (base + off))) fs"
  unfolding vfs_lseek_fs_def descriptor_check seek_base_def Let_def using assms by simp

lemma seek_base_found: "seeks_from J f whence fs base fs1 \<Longrightarrow> seek_base J f whence fs = (Ret base, fs1)"
  using shared_size(1) [of "f_inode f" fs J _ fs1]
  by (auto simp: seeks_from_def seek_base_def VFS_SEEK_SET_def VFS_SEEK_CUR_def VFS_SEEK_END_def)

lemma seeks_from_files: "seeks_from J f whence fs base fs1 \<Longrightarrow> fs_files fs1 = fs_files fs"
  by (auto simp: seeks_from_def size_known_def Let_def split: if_splits)

lemma lseek_from:
  assumes "is_open fs fd" and "seeks_from J (fs_files fs ! nat fd) whence fs base fs1"
  shows "vfs_lseek_fs J fd off whence fs =
    (if 0 \<le> base + off \<and> base + off < 2 ^ 63
     then (Ret (base + off), fs1\<lparr>fs_files := (fs_files fs)[nat fd := (fs_files fs ! nat fd)\<lparr>f_offset := of_int (base + off)\<rparr>]\<rparr>)
     else (Raise (FsError VFS_EINVAL), fs1))"
  unfolding lseek_body [OF assms(1)] bindE_def seek_base_found [OF assms(2)]
  by (auto simp: fs_error_def upd_file_def thenE_def bindE_def seeks_from_files [OF assms(2)])

text \<open>
  C24. Seeking. Counted from the start, from where the descriptor is or from the end of the file, the
  new position is the sum, computed without overflow, if it is neither negative nor beyond the
  largest \<^verbatim>\<open>off_t\<close>; it is returned, stored in the descriptor as it is, and what the descriptor's
  next seek of zero bytes from there reports, and nothing else changes. Any other sum is
  \<^verbatim>\<open>EINVAL\<close> and the position stays. If the file's inode cannot be read, that error is thrown and the
  position stays; any other \<^verbatim>\<open>whence\<close> is \<^verbatim>\<open>EINVAL\<close> and changes nothing.
\<close>

theorem lseek_in_bounds:
  assumes "is_open fs fd" and "length (fs_files fs) = MAX_OPEN" and "f = fs_files fs ! nat fd"
  shows "(\<forall>base fs1. seeks_from J f whence fs base fs1 \<longrightarrow>
      (if 0 \<le> base + off \<and> base + off < 2 ^ 63
       then \<exists>fs'. vfs_lseek_fs J fd off whence fs = (Ret (base + off), fs') \<and>
         fs' = fs1\<lparr>fs_files := (fs_files fs)[nat fd := f\<lparr>f_offset := of_int (base + off)\<rparr>]\<rparr> \<and>
         int (unat (f_offset (fs_files fs' ! nat fd))) = base + off \<and>
         vfs_lseek_fs J fd 0 VFS_SEEK_CUR fs' = (Ret (base + off), fs')
       else vfs_lseek_fs J fd off whence fs = (Raise (FsError VFS_EINVAL), fs1))) \<and>
    (let e = the_entry (f_inode f) (fs_locks fs) in
     whence = VFS_SEEK_END \<and> \<not> writer e \<and> \<not> inode_valid e \<longrightarrow>
     (\<forall>x j. read_inode J (fs_sb fs) (f_inode f) (fs_j fs) = (Raise x, j) \<longrightarrow>
        vfs_lseek_fs J fd off whence fs = (Raise x, fs\<lparr>fs_j := j\<rparr>))) \<and>
    (whence \<notin> {0, 1, 2} \<longrightarrow> vfs_lseek_fs J fd off whence fs = (Raise (FsError VFS_EINVAL), fs))"
proof (intro conjI allI impI)
  fix base fs1 assume sf: "seeks_from J f whence fs base fs1"
  define r where "r = base + off"
  note run = lseek_from [OF assms(1) sf [unfolded assms(3)], of off, folded r_def assms(3)]
  show "if 0 \<le> base + off \<and> base + off < 2 ^ 63
       then \<exists>fs'. vfs_lseek_fs J fd off whence fs = (Ret (base + off), fs') \<and>
         fs' = fs1\<lparr>fs_files := (fs_files fs)[nat fd := f\<lparr>f_offset := of_int (base + off)\<rparr>]\<rparr> \<and>
         int (unat (f_offset (fs_files fs' ! nat fd))) = base + off \<and>
         vfs_lseek_fs J fd 0 VFS_SEEK_CUR fs' = (Ret (base + off), fs')
       else vfs_lseek_fs J fd off whence fs = (Raise (FsError VFS_EINVAL), fs1)"
  proof (cases "0 \<le> r \<and> r < 2 ^ 63")
    case True
    let ?f = "f\<lparr>f_offset := of_int r\<rparr>"
    define fs' where "fs' = fs1\<lparr>fs_files := (fs_files fs)[nat fd := ?f]\<rparr>"
    have "nat fd < length (fs_files fs)" using assms(1,2) by (auto simp: is_open_def)
    then have f: "fs_files fs' ! nat fd = ?f" by (simp add: fs'_def)
    have sint: "sint (of_int r :: u64) = r" using True by (simp add: signed_of_int signed_take_bit_int_eq_self)
    have unat: "int (unat (of_int r :: u64)) = r" using True by (simp add: unsigned_of_int take_bit_int_eq_self)
    have open': "is_open fs' fd" using assms(1,3) f by (simp add: is_open_def)
    have "seeks_from J (fs_files fs' ! nat fd) VFS_SEEK_CUR fs' r fs'" using f sint by (simp add: seeks_from_def VFS_SEEK_CUR_def)
    note again = lseek_from [OF open' this, of 0]
    have "fs'\<lparr>fs_files := (fs_files fs')[nat fd := (fs_files fs' ! nat fd)\<lparr>f_offset := of_int r\<rparr>]\<rparr> = fs'"
      using f by (simp add: fs'_def)
    then have "vfs_lseek_fs J fd 0 VFS_SEEK_CUR fs' = (Ret r, fs')" using again True by simp
    moreover have "vfs_lseek_fs J fd off whence fs = (Ret r, fs')" unfolding run if_P [OF True] fs'_def ..
    moreover have "int (unat (f_offset (fs_files fs' ! nat fd))) = r" using f unat by simp
    ultimately show ?thesis unfolding r_def [symmetric] if_P [OF True]
      by (intro exI [of _ fs'] conjI) (simp_all only: fs'_def)
  next
    case False
    with run show ?thesis unfolding r_def [symmetric] by (simp only: if_False)
  qed
next
  show "let e = the_entry (f_inode f) (fs_locks fs) in
     whence = VFS_SEEK_END \<and> \<not> writer e \<and> \<not> inode_valid e \<longrightarrow>
     (\<forall>x j. read_inode J (fs_sb fs) (f_inode f) (fs_j fs) = (Raise x, j) \<longrightarrow>
        vfs_lseek_fs J fd off whence fs = (Raise x, fs\<lparr>fs_j := j\<rparr>))"
    using shared_size(2) [of "f_inode f" fs J]
    by (auto simp: Let_def lseek_body [OF assms(1)] assms(3) bindE_def seek_base_def VFS_SEEK_SET_def VFS_SEEK_CUR_def VFS_SEEK_END_def)
next
  assume "whence \<notin> {0, 1, 2}"
  then show "vfs_lseek_fs J fd off whence fs = (Raise (FsError VFS_EINVAL), fs)"
    by (simp add: lseek_body [OF assms(1)] bindE_def seek_base_def fs_error_def VFS_SEEK_SET_def VFS_SEEK_CUR_def VFS_SEEK_END_def)
qed

definition one_open :: "unit fs" where
  "one_open = demo_fs\<lparr>fs_files := (closed_file\<lparr>f_inode := 2, f_offset := 5, in_use := True\<rparr>) # replicate 1023 closed_file,
     fs_locks := [2 \<mapsto> new_entry\<lparr>refs := 1, e_inode := zero_inode\<lparr>size_of := 40\<rparr>, inode_valid := True\<rparr>]\<rparr>"

theorem lseek_in_bounds_witness:
  "is_open one_open 0 \<and> (\<exists>J. vfs_lseek_fs J 0 7 3 one_open = (Raise (FsError VFS_EINVAL), one_open) \<and>
     (\<exists>fs'. vfs_lseek_fs J 0 7 VFS_SEEK_CUR one_open = (Ret 12, fs')) \<and>
     (\<exists>fs'. vfs_lseek_fs J 0 (- 10) VFS_SEEK_END one_open = (Ret 30, fs') \<and> int (unat (f_offset (fs_files fs' ! 0))) = 30) \<and>
     vfs_lseek_fs J 0 (- 41) VFS_SEEK_END one_open = (Raise (FsError VFS_EINVAL), one_open))"
proof -
  have o: "is_open one_open 0" "length (fs_files one_open) = MAX_OPEN"
    by (simp_all add: is_open_def one_open_def demo_fs_def closed_file_def MAX_OPEN_def)
  let ?f = "fs_files one_open ! nat 0"
  have cur: "seeks_from J ?f VFS_SEEK_CUR one_open 5 one_open" and end_: "seeks_from J ?f VFS_SEEK_END one_open 40 one_open" for J
    by (simp_all add: seeks_from_def size_known_def Let_def one_open_def demo_fs_def closed_file_def the_entry_def new_entry_def
        zero_inode_def VFS_SEEK_CUR_def VFS_SEEK_END_def)
  note l = lseek_in_bounds [OF o refl]
  have "vfs_lseek_fs J 0 7 3 one_open = (Raise (FsError VFS_EINVAL), one_open)" for J
    using l [of J 3 7] by simp
  moreover have "\<exists>fs'. vfs_lseek_fs J 0 7 VFS_SEEK_CUR one_open = (Ret 12, fs')" for J
    using conjunct1 [OF l [of J VFS_SEEK_CUR 7]] cur [of J] by fastforce
  moreover have "\<exists>fs'. vfs_lseek_fs J 0 (- 10) VFS_SEEK_END one_open = (Ret 30, fs') \<and> int (unat (f_offset (fs_files fs' ! 0))) = 30" for J
    using conjunct1 [OF l [of J VFS_SEEK_END "- 10"]] end_ [of J] by fastforce
  moreover have "vfs_lseek_fs J 0 (- 41) VFS_SEEK_END one_open = (Raise (FsError VFS_EINVAL), one_open)" for J
    using conjunct1 [OF l [of J VFS_SEEK_END "- 41"]] end_ [of J] by fastforce
  ultimately show ?thesis using o(1) by blast
qed

section \<open>The loop of a write\<close>

lemma pieces_Nil: "e \<le> at \<Longrightarrow> pieces at e = []"
  by (subst pieces.simps) simp

lemma pieces_Cons:
  assumes "at < e"
  shows "pieces at e = (at div 4096, at mod 4096, min (4096 - at mod 4096) (e - at)) #
    pieces (at + min (4096 - at mod 4096) (e - at)) e"
  using assms by (subst pieces.simps) (simp add: Let_def)

lemma piece_bounds:
  fixes at e :: nat
  assumes "at < e"
  shows "0 < min (4096 - at mod 4096) (e - at)" "at + min (4096 - at mod 4096) (e - at) \<le> e"
proof -
  define q where "q = at mod 4096"
  have "q < 4096" "q \<le> at" by (simp_all add: q_def)
  then show "0 < min (4096 - at mod 4096) (e - at)" "at + min (4096 - at mod 4096) (e - at) \<le> e"
    using assms unfolding q_def [symmetric] by linarith+
qed

text \<open>The blocks of a chunk are written up to the end, unless the disk is full.\<close>

lemma write_pieces_end:
  assumes "write_pieces J src pos at c (pieces at e) s = (Ret (at', c', full), s')" and "at \<le> e"
  shows "at \<le> at' \<and> at' \<le> e \<and> (\<not> full \<longrightarrow> at' = e)"
  using assms
proof (induction "e - at" arbitrary: at c s rule: less_induct)
  case less
  show ?case
  proof (cases "at < e")
    case False
    with less.prems show ?thesis by (simp add: pieces_Nil)
  next
    case True
    let ?len = "min (4096 - at mod 4096) (e - at)"
    note b = piece_bounds [OF True]
    have run: "write_pieces J src pos at c (pieces at e) s = (Ret (at', c', full), s')" by (rule less.prems(1))
    show ?thesis
    proof (cases "at' = at \<and> full")
      case True
      with less.prems(2) show ?thesis by simp
    next
      case False
      obtain r s1 where r: "(case r of None \<Rightarrow> retE (at, c, True) | Some (blk, fresh) \<Rightarrow>
          let whole = (at mod 4096 = 0 \<and> ?len = BLOCK_SIZE) in
          thenE (on_ijournal (jwrite J blk (fresh \<or> whole) (modE (put_at (at mod 4096) (get_at (at - pos) ?len src)))))
            (write_pieces J src pos (at + ?len) (c \<or> fresh) (pieces (at + ?len) e))) s1 = (Ret (at', c', full), s')"
        using run unfolding pieces_Cons [OF True] write_pieces.simps(2) bindE_eq_Ret by blast
      with False obtain b where "r = Some b" by (cases r) auto
      with r obtain c2 s2 where "write_pieces J src pos (at + ?len) c2 (pieces (at + ?len) e) s2 = (Ret (at', c', full), s')"
        by (cases b) (simp only: option.case prod.case Let_def thenE_eq_Ret, blast)
      moreover have "e - (at + ?len) < e - at" using b True by linarith
      ultimately have "at + ?len \<le> at' \<and> at' \<le> e \<and> (\<not> full \<longrightarrow> at' = e)" using less.hyps b(2) by blast
      with b show ?thesis by linarith
    qed
  qed
qed

text \<open>Where a scope returns, its body has.\<close>

lemma finallyE_eq_Ret: "finallyE m c s = (Ret x, s') \<Longrightarrow> \<exists>s1. m s = (Ret x, s1)"
  by (cases "m s"; cases "fst (m s)") (auto simp: finallyE_def cleanupE_def catchE_def bindE_def thenE_def throwE_def
      split: prod.splits outcome.splits)

lemma op_in_fs_eq_Ret: "op_in_fs J m s = (Ret x, s') \<Longrightarrow> \<exists>s1 s2. m s1 = (Ret x, s2)"
  unfolding op_in_fs_def op_scope_def by (auto simp: thenE_eq_Ret dest!: finallyE_eq_Ret)

lemma with_unique_eq_Ret: "with_unique i m s = (Ret x, s') \<Longrightarrow> \<exists>s1 s2. m s1 = (Ret x, s2)"
  unfolding with_unique_def by (auto simp: thenE_eq_Ret dest!: finallyE_eq_Ret)

lemma with_inode_eq_Ret: "with_inode i m s = (Ret (i', x), s') \<Longrightarrow> \<exists>s1 s2. m s1 = (Ret x, s2)"
proof -
  assume w: "with_inode i m s = (Ret (i', x), s')"
  obtain o1 i1 a j where o1: "m (i, fs_alloc s, fs_j s) = (o1, (i1, (a, j)))" by (metis surj_pair)
  with w have "o1 = Ret x" by (cases o1) (simp_all add: with_inode_def)
  with o1 show ?thesis by blast
qed

text \<open>What a chunk does between taking the file's lock and giving it back.\<close>

definition chunk_body :: "'j journal \<Rightarrow> u32 \<Rightarrow> bool \<Rightarrow> bytes \<Rightarrow> nat \<Rightarrow> nat \<Rightarrow> inode \<Rightarrow> ('j fs, chunk_end) op" where
  "chunk_body J ino app src done pos i =
     thenE (upd_lock_entry ino (\<lambda>e. e\<lparr>inode_valid := False\<rparr>))
    (let pos = (if app then unat (size_of i) else pos) in
     if pos \<ge> MAX_FILE_BYTES
     then (if done = 0 then fs_error VFS_EFBIG else retE (Chunk_break pos))
     else
       let stop = min (pos + (length src - done))
                   (min ((pos div BLOCK_SIZE + WRITE_CHUNK_BLOCKS) * BLOCK_SIZE) MAX_FILE_BYTES)
       in bindE (with_inode i (write_pieces J (drop done src) pos pos False (pieces pos stop)))
            (\<lambda>(i, at, changed, disk_full).
          bindE (finish_chunk J i pos at changed) (\<lambda>i.
          thenE (upd_lock_entry ino (\<lambda>e. e\<lparr>e_inode := i, inode_valid := True\<rparr>))
          (retE (Chunk_done (at - pos) at disk_full)))))"

lemma write_chunk_body:
  "write_chunk J ino app src done pos =
     op_in_fs J (with_unique ino (bindE (file_inode J ino) (chunk_body J ino app src done pos)))"
  by (simp add: write_chunk_def chunk_body_def [abs_def])

lemma chunk_body_eq_Ret:
  assumes "chunk_body J ino app src done pos i s = (Ret (Chunk_done n at full), s')"
  shows "\<exists>m at' c p e s1 s2. with_inode i (write_pieces J (drop done src) p p False (pieces p e)) s1 = (Ret (m, at', c, full), s2) \<and>
    n = at' - p \<and> \<not> p \<ge> MAX_FILE_BYTES \<and>
    e = min (p + (length src - done)) (min ((p div BLOCK_SIZE + WRITE_CHUNK_BLOCKS) * BLOCK_SIZE) MAX_FILE_BYTES)"
proof -
  define p where "p = (if app then unat (size_of i) else pos)"
  define e where "e = min (p + (length src - done)) (min ((p div BLOCK_SIZE + WRITE_CHUNK_BLOCKS) * BLOCK_SIZE) MAX_FILE_BYTES)"
  note run = assms [unfolded chunk_body_def Let_def, folded p_def, folded e_def]
  have small: "\<not> p \<ge> MAX_FILE_BYTES"
    using run by (auto simp: thenE_eq_Ret fs_error_def split: if_splits)
  from run [unfolded if_not_P [OF small] thenE_eq_Ret bindE_eq_Ret] obtain s1 x s2 where
    x: "with_inode i (write_pieces J (drop done src) p p False (pieces p e)) s1 = (Ret x, s2)"
    and rest: "(case x of (i, at, changed, disk_full) \<Rightarrow> bindE (finish_chunk J i p at changed) (\<lambda>i.
          thenE (upd_lock_entry ino (\<lambda>e. e\<lparr>e_inode := i, inode_valid := True\<rparr>))
          (retE (Chunk_done (at - p) at disk_full)))) s2 = (Ret (Chunk_done n at full), s')" by blast
  obtain m at' c full' where xs: "x = (m, at', c, full')" by (cases x) auto
  from rest have "n = at' - p" "full' = full" unfolding xs by (auto simp: bindE_eq_Ret thenE_eq_Ret)
  then show ?thesis using x xs small e_def by blast
qed

text \<open>A chunk that does not end the loop has written something, and no more than there is.\<close>

lemma write_chunk_progress:
  assumes "write_chunk J ino app src done pos s = (Ret (Chunk_done n at full), s')" and "done < length src"
  shows "done + n \<le> length src \<and> (\<not> full \<longrightarrow> 0 < n)"
proof -
  from op_in_fs_eq_Ret [OF assms(1) [unfolded write_chunk_body]] obtain t1 t2 where
    body: "with_unique ino (bindE (file_inode J ino) (chunk_body J ino app src done pos)) t1 = (Ret (Chunk_done n at full), t2)" by blast
  from with_unique_eq_Ret [OF body] obtain i t3 t4 where "chunk_body J ino app src done pos i t3 = (Ret (Chunk_done n at full), t4)"
    by (auto simp: bindE_eq_Ret)
  from chunk_body_eq_Ret [OF this] obtain i m at' c p e s1 s2 where
    w: "with_inode i (write_pieces J (drop done src) p p False (pieces p e)) s1 = (Ret (m, at', c, full), s2)"
    "n = at' - p" "\<not> p \<ge> MAX_FILE_BYTES"
    "e = min (p + (length src - done)) (min ((p div BLOCK_SIZE + WRITE_CHUNK_BLOCKS) * BLOCK_SIZE) MAX_FILE_BYTES)" by blast
  have "p < (p div 4096 + 16) * 4096" by (simp add: dividend_less_div_times add.commute)
  then have pe: "p < e" "e \<le> p + (length src - done)" using w(3,4) assms(2) by (simp_all add: WRITE_CHUNK_BLOCKS_def)
  from with_inode_eq_Ret [OF w(1)] write_pieces_end pe(1) have "p \<le> at' \<and> at' \<le> e \<and> (\<not> full \<longrightarrow> at' = e)"
    using less_imp_le by blast
  with pe w(2) assms(2) show ?thesis by auto
qed

lemma write_chunk_break:
  assumes "write_chunk J ino app src done pos s = (Ret (Chunk_break at), s')"
  shows "MAX_FILE_BYTES \<le> at \<and> 0 < done"
proof -
  from op_in_fs_eq_Ret [OF assms(1) [unfolded write_chunk_body]] obtain t1 t2 where
    body: "with_unique ino (bindE (file_inode J ino) (chunk_body J ino app src done pos)) t1 = (Ret (Chunk_break at), t2)" by blast
  from with_unique_eq_Ret [OF body] obtain i t3 t4 where "chunk_body J ino app src done pos i t3 = (Ret (Chunk_break at), t4)"
    by (auto simp: bindE_eq_Ret)
  then show ?thesis unfolding chunk_body_def
    by (auto simp: thenE_eq_Ret bindE_eq_Ret fs_error_def Let_def split: if_splits)
qed

end
