(* ===== verification/File_Data.thy ===== *)
theory File_Data
  imports Vfs_Calls
begin

text \<open>
  The bytes of a file. \<^verbatim>\<open>file_byte\<close> is what a file holds where the blocks are \<^term>\<open>v\<close>; reading a range
  returns these bytes, and writing a range changes these bytes and no others, allocating the
  blocks it needs and leaving every block of other files alone.
\<close>

definition file_byte :: "(u32 \<Rightarrow> block) \<Rightarrow> inode \<Rightarrow> nat \<Rightarrow> byte" where
  "file_byte v ino n = (let b = file_block v ino (n div 4096) in if b = 0 then 0 else v b ! (n mod 4096))"

lemma max_file_bytes: "MAX_FILE_BYTES = 4096 * MAX_FILE_BLOCKS"
  by (simp add: MAX_FILE_BYTES_def)

lemma in_file: "n < MAX_FILE_BYTES \<Longrightarrow> n div 4096 < MAX_FILE_BLOCKS"
  unfolding max_file_bytes by (simp add: less_mult_imp_div_less mult.commute)

text \<open>A data block of a file is none of its indirect blocks and no other of its data blocks.\<close>

lemma data_block:
  assumes "owns sb U (place_ptr v ino)" and "k < MAX_FILE_BLOCKS" and "file_block v ino k \<noteq> 0"
  shows "file_block v ino k \<in> U" "data_start sb \<le> file_block v ino k" "file_block v ino k < total_blocks sb"
    "file_block v ino k \<notin> indirects v ino" "n < MAX_FILE_BLOCKS \<Longrightarrow> n \<noteq> k \<Longrightarrow> file_block v ino n \<noteq> file_block v ino k"
proof -
  have p: "place_ptr v ino (Data j) = file_block v ino j" if "j < MAX_FILE_BLOCKS" for j using that by (simp add: place_ptr_def)
  note o = ownsD [OF assms(1), of "Data k", unfolded p [OF assms(2)], OF assms(3)]
  show "file_block v ino k \<in> U" "data_start sb \<le> file_block v ino k" "file_block v ino k < total_blocks sb" using o by simp_all
  show "n < MAX_FILE_BLOCKS \<Longrightarrow> n \<noteq> k \<Longrightarrow> file_block v ino n \<noteq> file_block v ino k" using o(4) [of "Data n"] p by auto
  have "place_ptr v ino q \<noteq> file_block v ino k" if "q \<in> {Single, Double} \<union> range Second" for q
    using o(4) [of q] that by auto
  then show "file_block v ino k \<notin> indirects v ino" unfolding indirects_def by (metis imageE)
qed

text \<open>A data block that is written anew.\<close>

lemma place_ptr_data:
  assumes "owns sb U (place_ptr v ino)" and "k < MAX_FILE_BLOCKS" and "file_block v ino k \<noteq> 0"
  shows "place_ptr (v(file_block v ino k := x)) ino = place_ptr v ino"
proof (rule place_ptr_other)
  fix p assume "p \<in> {Single, Double} \<union> range Second"
  then have "place_ptr v ino p \<noteq> file_block v ino k" using data_block(4) [OF assms] unfolding indirects_def by (metis imageI)
  then show "(v(file_block v ino k := x)) (place_ptr v ino p) = v (place_ptr v ino p)" by simp
qed

lemma file_block_place: "place_ptr v ino = place_ptr v' ino' \<Longrightarrow> n < MAX_FILE_BLOCKS \<Longrightarrow> file_block v ino n = file_block v' ino' n"
  by (auto simp: place_ptr_def dest: fun_cong [of _ _ "Data n"])

lemma file_byte_data:
  assumes "owns sb U (place_ptr v ino)" and "k < MAX_FILE_BLOCKS" and "file_block v ino k \<noteq> 0" and "n < MAX_FILE_BYTES"
  shows "file_byte (v(file_block v ino k := x)) ino n = (if n div 4096 = k then x ! (n mod 4096) else file_byte v ino n)"
proof -
  note f = file_block_place [OF place_ptr_data [OF assms(1-3)], of "n div 4096" x] in_file [OF assms(4)]
  show ?thesis
  proof (cases "n div 4096 = k")
    case True
    then show ?thesis using f assms(3) by (simp add: file_byte_def)
  next
    case False
    then have "file_block v ino (n div 4096) \<noteq> file_block v ino k" using data_block(5) [OF assms(1-3)] in_file [OF assms(4)] by blast
    then show ?thesis using False f by (simp add: file_byte_def Let_def)
  qed
qed

lemma data_blocks_alloc_ok:
  assumes "file_ok sb v a ino" and "k < MAX_FILE_BLOCKS" and "file_block v ino k \<noteq> 0"
  shows "file_ok sb (v(file_block v ino k := x)) a ino"
proof -
  note f = file_okD [OF assms(1)]
  have "alloc_ok sb (v(file_block v ino k := x)) a"
  proof (rule alloc_ok_cong [OF f(2,1)])
    fix b assume "in_region (inode_bitmap_start sb) (inode_count sb) b \<or> in_region (data_bitmap_start sb) (total_blocks sb) b"
    then have "b < data_start sb" using f(1) by (auto simp: wf_super_def in_region_def word_less_nat_alt)
    then show "(v(file_block v ino k := x)) b = v b" using data_block(2) [OF f(3) assms(2,3)] by auto
  qed
  then show ?thesis using f place_ptr_data [OF f(3) assms(2,3)] by (simp add: file_ok_def)
qed

text \<open>A file that has grown by a block still holds the same bytes; the new block may hold anything.\<close>

lemma grown_file_ok: "grown sb v a ino k b v' a' ino' \<Longrightarrow> wf_super sb \<Longrightarrow> file_ok sb v' a' ino'"
  by (simp add: grown_def file_ok_def)

lemma grown_byte:
  assumes "file_ok sb v a ino" and "grown sb v a ino k b v' a' ino'" and "n < MAX_FILE_BYTES" and "n div 4096 \<noteq> k"
  shows "file_byte v' ino' n = file_byte v ino n"
proof -
  note f = file_okD [OF assms(1)]
  let ?x = "file_block v ino (n div 4096)"
  have m: "n div 4096 < MAX_FILE_BLOCKS" by (rule in_file [OF assms(3)])
  have same: "file_block v' ino' (n div 4096) = ?x" using assms(2,4) m by (simp add: grown_def)
  show ?thesis
  proof (cases "?x = 0")
    case True
    then show ?thesis using same by (simp add: file_byte_def)
  next
    case False
    note d = data_block [OF f(3) m False]
    have "\<not> in_region (data_bitmap_start sb) (total_blocks sb) ?x" using data_bitmap_below [OF f(1), of ?x] d(2) by auto
    then have "v' ?x = v ?x" using assms(2) d(1,4) by (simp add: grown_def)
    then show ?thesis using same by (simp add: file_byte_def Let_def)
  qed
qed

text \<open>The size is no part of what a file holds.\<close>

lemma file_byte_size [simp]: "file_byte v (ino\<lparr>size_of := z\<rparr>) = file_byte v ino"
  by (simp add: file_byte_def file_block_def second_at_def fun_eq_iff)

lemma file_ok_size [simp]: "file_ok sb v a (ino\<lparr>size_of := z\<rparr>) = file_ok sb v a ino"
proof -
  have "place_ptr v (ino\<lparr>size_of := z\<rparr>) = place_ptr v ino"
    by (simp add: place_ptr_def file_block_def second_at_def fun_eq_iff split: place.split)
  then show ?thesis by (simp add: file_ok_def)
qed

section \<open>Reading\<close>

lemma map_file_bytes:
  assumes "off + len \<le> 4096"
  shows "map (file_byte v ino) [k * 4096 + off..<k * 4096 + off + len] =
    (if file_block v ino k = 0 then replicate len 0 else map (\<lambda>i. v (file_block v ino k) ! i) [off..<off + len])"
proof -
  have "file_byte v ino (k * 4096 + i) = (if file_block v ino k = 0 then 0 else v (file_block v ino k) ! i)" if "i < 4096" for i
    using that by (simp add: file_byte_def Let_def)
  moreover have "[k * 4096 + off..<k * 4096 + off + len] = map (\<lambda>i. k * 4096 + i) [off..<off + len]"
    by (rule nth_equalityI) simp_all
  ultimately have "map (file_byte v ino) [k * 4096 + off..<k * 4096 + off + len] =
      map (\<lambda>i. if file_block v ino k = 0 then 0 else v (file_block v ino k) ! i) [off..<off + len]"
    using assms by (auto simp: o_def)
  then show ?thesis by (simp add: map_replicate_const)
qed

lemma get_at_map: "off + len \<le> length b \<Longrightarrow> get_at off len b = map (\<lambda>i. b ! i) [off..<off + len]"
  by (rule nth_equalityI) (simp_all add: get_at_def)

text \<open>A piece is the bytes from \<^term>\<open>at\<close> on.\<close>

lemma piece_at: "at div 4096 * 4096 + at mod 4096 = (at :: nat)"
  by simp

context journal_store
begin

lemma read_piece_ok:
  assumes "invar s" and "file_ok sb (view s) a ino" and "total_blocks sb = limit" and "at < e" and "e \<le> MAX_FILE_BYTES"
    and len: "len = min (4096 - at mod 4096) (e - at)"
  shows "\<exists>s'. read_piece J ino (at div 4096, at mod 4096, len) s = (Ret (map (file_byte (view s) ino) [at..<at + len]), s') \<and>
    invar s' \<and> view s' = view s"
proof -
  note f = file_okD [OF assms(2)]
  let ?k = "at div 4096" and ?o = "at mod 4096"
  have k: "?k < MAX_FILE_BLOCKS" using in_file assms(4,5) by simp
  have ol: "?o + len \<le> 4096" using len mod_less_divisor [of 4096 at] by linarith
  have bytes: "map (file_byte (view s) ino) [at..<at + len] =
      (if file_block (view s) ino ?k = 0 then replicate len 0 else map (\<lambda>i. view s (file_block (view s) ino ?k) ! i) [?o..<?o + len])"
    using map_file_bytes [OF ol, of "view s" ino ?k] unfolding piece_at by simp
  from bmap_read_ok [OF assms(1) f(3,1) assms(3) k] obtain s1 where
    1: "bmap_read J ino ?k s = (Ret (file_block (view s) ino ?k), s1)" "invar s1" "view s1 = view s" by blast
  show ?thesis
  proof (cases "file_block (view s) ino ?k = 0")
    case True
    then show ?thesis using 1 bytes by (simp add: read_piece_def)
  next
    case False
    let ?b = "file_block (view s) ino ?k"
    have r: "0 < ?b" "?b < limit" using data_block(3) [OF f(3) k False] False assms(3) by (simp_all add: word_neq_0_conv)
    from read_ok [OF 1(2) r] 1(3) obtain s2 where 2: "jread J ?b s1 = (Ret (view s ?b), s2)" "invar s2" "view s2 = view s" by auto
    have "length (view s ?b) = 4096" using view_len [OF assms(1) r] by (simp add: is_block_def)
    then have "get_at ?o len (view s ?b) = map (\<lambda>i. view s ?b ! i) [?o..<?o + len]" using ol by (intro get_at_map) simp
    with 1(1) 2 False bytes show ?thesis by (simp add: read_piece_def)
  qed
qed

lemma read_pieces_ok:
  assumes "invar s" and "file_ok sb (view s) a ino" and "total_blocks sb = limit" and "at \<le> e" and "e \<le> MAX_FILE_BYTES"
  shows "\<exists>s'. foldE (pieces at e) (\<lambda>done p. bindE (read_piece J ino p) (\<lambda>bs. retE (done @ bs))) acc s =
      (Ret (acc @ map (file_byte (view s) ino) [at..<e]), s') \<and> invar s' \<and> view s' = view s"
  using assms(1,2,4)
proof (induction "e - at" arbitrary: at acc s rule: less_induct)
  case less
  show ?case
  proof (cases "at < e")
    case False
    with less.prems show ?thesis by (simp add: pieces_Nil)
  next
    case True
    define len where "len = min (4096 - at mod 4096) (e - at)"
    note b = piece_bounds [OF True, folded len_def]
    from read_piece_ok [OF less.prems(1,2) assms(3) True assms(5) len_def] obtain s1 where
      1: "read_piece J ino (at div 4096, at mod 4096, len) s = (Ret (map (file_byte (view s) ino) [at..<at + len]), s1)" "invar s1" "view s1 = view s" by blast
    have lt: "e - (at + len) < e - at" using b True by linarith
    from less.hyps [OF lt 1(2) _ b(2), of "acc @ map (file_byte (view s) ino) [at..<at + len]"] less.prems(2) 1(3) obtain s2 where
      2: "foldE (pieces (at + len) e) (\<lambda>done p. bindE (read_piece J ino p) (\<lambda>bs. retE (done @ bs))) (acc @ map (file_byte (view s) ino) [at..<at + len]) s1 =
        (Ret ((acc @ map (file_byte (view s) ino) [at..<at + len]) @ map (file_byte (view s) ino) [at + len..<e]), s2)" "invar s2" "view s2 = view s" by auto
    have "[at..<at + len] @ [at + len..<e] = [at..<e]" using b(2) by (metis le_add1 upt_add_eq_append le_add_diff_inverse)
    then have "map (file_byte (view s) ino) [at..<at + len] @ map (file_byte (view s) ino) [at + len..<e] = map (file_byte (view s) ino) [at..<e]"
      by (metis map_append)
    with 1(1) 2 show ?thesis unfolding pieces_Cons [OF True, folded len_def] by simp
  qed
qed

lemma read_range_ok:
  assumes "invar s" and "file_ok sb (view s) a ino" and "total_blocks sb = limit" and "unat (size_of ino) \<le> MAX_FILE_BYTES"
  shows "\<exists>s'. read_range J ino pos n s = (Ret (map (file_byte (view s) ino) [pos..<min (unat (size_of ino)) (pos + n)]), s') \<and>
    invar s' \<and> view s' = view s"
proof (cases "pos \<ge> unat (size_of ino)")
  case True
  then show ?thesis using assms(1) by (simp add: Vfs.read_range_def)
next
  case False
  define t where "t = (if unat (size_of ino) - pos < n then unat (size_of ino) - pos else n)"
  have t: "pos + t = min (unat (size_of ino)) (pos + n)" using False by (simp add: t_def)
  have "pos + t \<le> MAX_FILE_BYTES" using t assms(4) by simp
  from read_pieces_ok [OF assms(1-3) _ this, of pos "[]"] False show ?thesis
    unfolding Vfs.read_range_def t_def [symmetric] Let_def t [symmetric] by simp
qed

end

section \<open>Writing\<close>

text \<open>What a write of the bytes \<^term>\<open>src\<close>, which start at \<^term>\<open>pos\<close>, has done between \<^term>\<open>at\<close> and \<^term>\<open>e\<close>.\<close>

definition wrote ::
  "superblock \<Rightarrow> bytes \<Rightarrow> nat \<Rightarrow> nat \<Rightarrow> nat \<Rightarrow> (u32 \<Rightarrow> block) \<Rightarrow> allocator \<Rightarrow> inode \<Rightarrow> (u32 \<Rightarrow> block) \<Rightarrow> allocator \<Rightarrow> inode \<Rightarrow> bool" where
  "wrote sb src pos at e v a ino v' a' ino' \<longleftrightarrow> file_ok sb v' a' ino' \<and> same_file ino ino' \<and> a_inodes a' = a_inodes a \<and>
     used (a_blocks a) \<subseteq> used (a_blocks a') \<and>
     (\<forall>n < MAX_FILE_BYTES. file_byte v' ino' n = (if at \<le> n \<and> n < e then src ! (n - pos) else file_byte v ino n)) \<and>
     (\<forall>p. place_ptr v' ino' p \<in> used (a_blocks a) \<longrightarrow> place_ptr v' ino' p = place_ptr v ino p) \<and>
     (\<forall>x \<in> used (a_blocks a) - range (place_ptr v ino). \<not> in_region (data_bitmap_start sb) (total_blocks sb) x \<longrightarrow> v' x = v x)"

lemma same_file_trans: "same_file i i1 \<Longrightarrow> same_file i1 i2 \<Longrightarrow> same_file i i2"
proof -
  assume 1: "same_file i i1" and 2: "same_file i1 i2"
  from 1 obtain a b c e where i1: "i1 = i\<lparr>direct := a, single_indirect := b, double_indirect := c, block_count := e\<rparr>"
    unfolding same_file_def by blast
  from 2 obtain a' b' c' e' where "i2 = i1\<lparr>direct := a', single_indirect := b', double_indirect := c', block_count := e'\<rparr>"
    unfolding same_file_def by blast
  then show "same_file i i2" unfolding i1 by (simp add: same_file_def)
qed

lemma wrote_refl: "file_ok sb v a ino \<Longrightarrow> wrote sb src pos at at v a ino v a ino"
  by (auto simp: wrote_def same_file_def)

lemma wroteD:
  assumes "wrote sb src pos at e v a ino v' a' ino'"
  shows "file_ok sb v' a' ino'" "same_file ino ino'" "a_inodes a' = a_inodes a" "used (a_blocks a) \<subseteq> used (a_blocks a')"
    and "n < MAX_FILE_BYTES \<Longrightarrow> file_byte v' ino' n = (if at \<le> n \<and> n < e then src ! (n - pos) else file_byte v ino n)"
    and "place_ptr v' ino' p \<in> used (a_blocks a) \<Longrightarrow> place_ptr v' ino' p = place_ptr v ino p"
    and "x \<in> used (a_blocks a) \<Longrightarrow> x \<notin> range (place_ptr v ino) \<Longrightarrow> \<not> in_region (data_bitmap_start sb) (total_blocks sb) x \<Longrightarrow> v' x = v x"
  using assms by (simp_all add: wrote_def)

lemma wrote_seq:
  assumes "wrote sb src pos at m v a ino v1 a1 ino1" and "wrote sb src pos m e v1 a1 ino1 v2 a2 ino2" and "at \<le> m" "m \<le> e"
  shows "wrote sb src pos at e v a ino v2 a2 ino2"
proof -
  note 1 = wroteD [OF assms(1)] and 2 = wroteD [OF assms(2)]
  have byte: "file_byte v2 ino2 n = (if at \<le> n \<and> n < e then src ! (n - pos) else file_byte v ino n)" if "n < MAX_FILE_BYTES" for n
    using 1(5) [OF that] 2(5) [OF that] assms(3,4) by auto
  have place: "place_ptr v2 ino2 p = place_ptr v ino p" if p: "place_ptr v2 ino2 p \<in> used (a_blocks a)" for p
  proof -
    have "place_ptr v2 ino2 p = place_ptr v1 ino1 p" using p 1(4) by (intro 2(6)) blast
    with p 1(6) [of p] show ?thesis by simp
  qed
  have frame: "v2 x = v x" if x: "x \<in> used (a_blocks a)" "x \<notin> range (place_ptr v ino)" "\<not> in_region (data_bitmap_start sb) (total_blocks sb) x" for x
  proof -
    have "place_ptr v1 ino1 p \<noteq> x" for p using 1(6) [of p] x(1,2) by auto
    then have "x \<notin> range (place_ptr v1 ino1)" by auto
    then have "v2 x = v1 x" using x 1(4) by (intro 2(7)) auto
    with 1(7) [OF x] show ?thesis by simp
  qed
  show ?thesis unfolding wrote_def
    using 2(1) same_file_trans [OF 1(2) 2(2)] 1(3,4) 2(3,4) byte place frame by auto
qed

text \<open>One block: it is there already, or the file grows by it.\<close>

definition has_block ::
  "superblock \<Rightarrow> (u32 \<Rightarrow> block) \<Rightarrow> allocator \<Rightarrow> inode \<Rightarrow> nat \<Rightarrow> u32 \<Rightarrow> bool \<Rightarrow> (u32 \<Rightarrow> block) \<Rightarrow> allocator \<Rightarrow> inode \<Rightarrow> bool" where
  "has_block sb v a ino k b fresh v' a' ino' \<longleftrightarrow>
     (if fresh then file_block v ino k = 0 \<and> grown sb v a ino k b v' a' ino'
      else file_block v ino k = b \<and> b \<noteq> 0 \<and> v' = v \<and> a' = a \<and> ino' = ino)"

lemma has_blockD:
  assumes "file_ok sb v a ino" and "has_block sb v a ino k b fresh v' a' ino'" and "k < MAX_FILE_BLOCKS"
  shows "file_ok sb v' a' ino'" "file_block v' ino' k = b" "b \<noteq> 0"
proof -
  note f = file_okD [OF assms(1)]
  show ok: "file_ok sb v' a' ino'"
    using assms(1,2) grown_file_ok [OF _ f(1)] by (auto simp: has_block_def split: if_splits)
  show fb: "file_block v' ino' k = b" using assms(2,3) by (auto simp: has_block_def grown_def split: if_splits)
  have "0 \<in> used (a_blocks a)" using f(1,2) by (auto simp: alloc_ok_def wf_super_def word_less_nat_alt)
  then show "b \<noteq> 0" using assms(2) by (auto simp: has_block_def grown_def split: if_splits)
qed

text \<open>The bytes a block is given: those of \<^term>\<open>src\<close>, over zeros or over what was there.\<close>

lemma write_block_bytes:
  assumes "file_ok sb v a ino" and "has_block sb v a ino k b fresh v1 a1 ino1" and k: "k = at div 4096" "at < MAX_FILE_BYTES"
    and len: "at mod 4096 + len \<le> 4096" "length bs = len" and base: "base = (if fresh \<or> whole then zero_block else v1 b)" "length base = 4096"
    and wh: "whole \<Longrightarrow> len = 4096" and n: "n < MAX_FILE_BYTES"
  shows "file_byte (v1(b := put_at (at mod 4096) bs base)) ino1 n =
    (if at \<le> n \<and> n < at + len then bs ! (n - at) else file_byte v ino n)"
proof -
  have km: "k < MAX_FILE_BLOCKS" using in_file [OF k(2)] k(1) by simp
  note h = has_blockD [OF assms(1,2) km]
  note f1 = file_okD [OF h(1)]
  have fn: "file_block v1 ino1 k \<noteq> 0" using h(2,3) by simp
  have new: "file_byte (v1(b := put_at (at mod 4096) bs base)) ino1 n =
      (if n div 4096 = k then put_at (at mod 4096) bs base ! (n mod 4096) else file_byte v1 ino1 n)"
    using file_byte_data [OF f1(3) km fn n] h(2) by simp
  have at: "at = k * 4096 + at mod 4096" using k(1) by simp
  show ?thesis
  proof (cases "n div 4096 = k")
    case False
    have "\<not> (at \<le> n \<and> n < at + len)"
    proof
      assume "at \<le> n \<and> n < at + len"
      then have "k * 4096 \<le> n" "n < Suc k * 4096" using at len(1) by auto
      then have "n div 4096 = k" by (intro div_nat_eqI) simp_all
      with False show False by blast
    qed
    moreover have "file_byte v1 ino1 n = file_byte v ino n"
    proof (cases fresh)
      case True
      with assms(2) grown_byte [OF assms(1) _ n False] show ?thesis by (auto simp: has_block_def)
    next
      case nf: False
      with assms(2) show ?thesis by (auto simp: has_block_def)
    qed
    ultimately show ?thesis using new False by auto
  next
    case True
    have nn: "n = k * 4096 + n mod 4096" unfolding True [symmetric] by simp
    have "put_at (at mod 4096) bs base ! (n mod 4096) =
        (if at mod 4096 \<le> n mod 4096 \<and> n mod 4096 < at mod 4096 + len then bs ! (n mod 4096 - at mod 4096) else base ! (n mod 4096))"
      using len base(2) by (simp add: nth_put_at)
    moreover have "at mod 4096 \<le> n mod 4096 \<and> n mod 4096 < at mod 4096 + len \<longleftrightarrow> at \<le> n \<and> n < at + len" using at nn by linarith
    moreover have "n mod 4096 - at mod 4096 = n - at" using at nn by linarith
    moreover have "base ! (n mod 4096) = file_byte v ino n" if out: "\<not> (at \<le> n \<and> n < at + len)"
    proof -
      have "\<not> whole"
      proof
        assume whole
        with wh len(1) have l: "len = 4096" "at mod 4096 = 0" by simp_all
        with at nn out mod_less_divisor [of 4096 n] show False by linarith
      qed
      show ?thesis
      proof (cases fresh)
        case f: True
        then have "file_block v ino (n div 4096) = 0" using assms(2) True by (simp add: has_block_def)
        with f base(1) show ?thesis by (simp add: file_byte_def zero_block_def)
      next
        case f: False
        then have "v1 = v" "ino1 = ino" "file_block v ino (n div 4096) = b" using assms(2) True by (auto simp: has_block_def)
        with f \<open>\<not> whole\<close> base(1) h(3) show ?thesis by (simp add: file_byte_def Let_def)
      qed
    qed
    ultimately show ?thesis using new True by simp
  qed
qed

lemma wrote_block:
  assumes "file_ok sb v a ino" and "has_block sb v a ino k b fresh v1 a1 ino1" and k: "k = at div 4096" "at < MAX_FILE_BYTES" "pos \<le> at"
    and len: "at mod 4096 + len \<le> 4096" "at - pos + len \<le> length src"
    and base: "base = (if fresh \<or> whole then zero_block else v1 b)" "length base = 4096" and wh: "whole \<Longrightarrow> len = 4096"
  shows "wrote sb src pos at (at + len) v a ino (v1(b := put_at (at mod 4096) (get_at (at - pos) len src) base)) a1 ino1"
    (is "wrote _ _ _ _ _ _ _ _ ?v _ _")
proof -
  have km: "k < MAX_FILE_BLOCKS" using in_file [OF k(2)] k(1) by simp
  note h = has_blockD [OF assms(1,2) km]
  note f1 = file_okD [OF h(1)]
  have fn: "file_block v1 ino1 k \<noteq> 0" using h(2,3) by simp
  have ok: "file_ok sb ?v a1 ino1" using data_blocks_alloc_ok [OF h(1) km fn] h(2) by simp
  have pl: "place_ptr ?v ino1 = place_ptr v1 ino1" using place_ptr_data [OF f1(3) km fn] h(2) by simp
  have bl: "length (get_at (at - pos) len src) = len" using len(2) by (simp add: get_at_def)
  have byte: "file_byte ?v ino1 n = (if at \<le> n \<and> n < at + len then src ! (n - pos) else file_byte v ino n)" if n: "n < MAX_FILE_BYTES" for n
  proof -
    have "get_at (at - pos) len src ! (n - at) = src ! (n - pos)" if "at \<le> n" "n < at + len"
      using that len(2) k(3) by (simp add: get_at_def)
    then show ?thesis using write_block_bytes [OF assms(1,2) k(1,2) len(1) bl base wh n] by auto
  qed
  have rest: "same_file ino ino1" "a_inodes a1 = a_inodes a" "used (a_blocks a) \<subseteq> used (a_blocks a1)"
    using assms(2) by (auto simp: has_block_def grown_def same_file_def split: if_splits)
  have place: "place_ptr ?v ino1 p = place_ptr v ino p" if "place_ptr ?v ino1 p \<in> used (a_blocks a)" for p
    using that assms(2) unfolding pl by (auto simp: has_block_def grown_def split: if_splits)
  have frame: "?v x = v x" if x: "x \<in> used (a_blocks a)" "x \<notin> range (place_ptr v ino)" "\<not> in_region (data_bitmap_start sb) (total_blocks sb) x" for x
  proof (cases fresh)
    case True
    then have g: "grown sb v a ino k b v1 a1 ino1" using assms(2) by (simp add: has_block_def)
    have "x \<notin> indirects v ino" using x(2) by (auto simp: indirects_def)
    then have "v1 x = v x" using g x by (simp add: grown_def)
    moreover have "x \<noteq> b" using g x(1) by (auto simp: grown_def)
    ultimately show ?thesis by simp
  next
    case False
    then have "v1 = v" "place_ptr v ino (Data k) = b" using assms(2) km by (auto simp: has_block_def place_ptr_def)
    with x(2) show ?thesis by auto
  qed
  show ?thesis unfolding wrote_def using ok rest byte place frame by blast
qed

text \<open>An allocation that failed has changed nothing of the file.\<close>

lemma wrote_nothing:
  assumes "file_ok sb v a ino" and "blocks_changed sb v a v' a' (used (a_blocks a))"
  shows "wrote sb src pos at at v a ino v' a' ino"
proof -
  note f = file_okD [OF assms(1)]
  have bc: "alloc_ok sb v' a'" "a_inodes a' = a_inodes a" "used (a_blocks a') = used (a_blocks a)"
    "region_only (data_bitmap_start sb) (total_blocks sb) v v'" using assms(2) by (simp_all add: blocks_changed_def)
  note p = place_ptr_alloc [OF f(1,3) bc(4)]
  have ok: "file_ok sb v' a' ino" using f bc p by (simp add: file_ok_def)
  have "file_byte v' ino n = file_byte v ino n" if n: "n < MAX_FILE_BYTES" for n
  proof -
    note m = in_file [OF n]
    have fb: "file_block v' ino (n div 4096) = file_block v ino (n div 4096)" by (rule file_block_place [OF p m])
    have "v' (file_block v ino (n div 4096)) = v (file_block v ino (n div 4096))" if "file_block v ino (n div 4096) \<noteq> 0"
      by (rule data_unchanged [OF f(1) bc(4) data_block(2) [OF f(3) m that]])
    then show ?thesis using fb by (simp add: file_byte_def Let_def)
  qed
  then show ?thesis using ok p bc by (auto simp: wrote_def same_file_def region_only_def)
qed

context journal_store
begin

text \<open>The block a piece needs.\<close>

lemma bmap_alloc_has:
  assumes "invar s" and "file_ok sb (view s) a ino" and "total_blocks sb = limit" and "k < MAX_FILE_BLOCKS"
  shows "(\<exists>a' s'. bmap_alloc J k (ino, (a, s)) = (Raise (FsError VFS_ENOSPC), (ino, (a', s'))) \<and> invar s' \<and>
      blocks_changed sb (view s) a (view s') a' (used (a_blocks a)) \<and>
      file_block (view s) ino k = 0 \<and> free_count sb a < missing (view s) ino k) \<or>
    (\<exists>b fresh ino' a' s'. bmap_alloc J k (ino, (a, s)) = (Ret (b, fresh), (ino', (a', s'))) \<and> invar s' \<and>
      has_block sb (view s) a ino k b fresh (view s') a' ino')"
proof -
  have r: "bmap_result sb invar view (view s) a ino k (bmap_alloc J k (ino, (a, s)))" using bmap_alloc_ok [OF assms(1-3), of k] assms(4) by simp
  show ?thesis
  proof (cases "file_block (view s) ino k = 0")
    case True
    with r show ?thesis unfolding bmap_result_def has_block_def by (simp add: True) blast
  next
    case False
    with r obtain s' where "bmap_alloc J k (ino, (a, s)) = (Ret (file_block (view s) ino k, False), (ino, (a, s')))" "invar s'" "view s' = view s"
      unfolding bmap_result_def by auto
    with False show ?thesis unfolding has_block_def by auto
  qed
qed

lemma write_pieces_ok:
  assumes "total_blocks sb = limit" and "e \<le> MAX_FILE_BYTES" and "e - pos \<le> length src"
    and "invar s" and "file_ok sb (view s) a ino" and "pos \<le> at" and "at \<le> e"
  shows "\<exists>at' c' full ino' a' s'. write_pieces J src pos at c (pieces at e) (ino, (a, s)) = (Ret (at', c', full), (ino', (a', s'))) \<and>
    invar s' \<and> at \<le> at' \<and> at' \<le> e \<and> (if full then free_count sb a' < 3 else at' = e) \<and> wrote sb src pos at at' (view s) a ino (view s') a' ino'"
  using assms(4-7)
proof (induction "e - at" arbitrary: at c s a ino rule: less_induct)
  case less
  show ?case
  proof (cases "at < e")
    case False
    with less.prems wrote_refl [OF less.prems(2), of src pos e] show ?thesis
      by (intro exI [of _ e] exI [of _ c] exI [of _ False] exI [of _ ino] exI [of _ a] exI [of _ s]) (simp add: pieces_Nil)
  next
    case True
    define len where "len = min (4096 - at mod 4096) (e - at)"
    note b = piece_bounds [OF True, folded len_def]
    have ol: "at mod 4096 + len \<le> 4096" using mod_less_divisor [of 4096 at] unfolding len_def by linarith
    have km: "at div 4096 < MAX_FILE_BLOCKS" using in_file assms(2) True by simp
    note pc = pieces_Cons [OF True, folded len_def]
    from bmap_alloc_has [OF less.prems(1,2) assms(1) km] show ?thesis
    proof (elim disjE exE conjE)
      fix a' s' assume n: "bmap_alloc J (at div 4096) (ino, (a, s)) = (Raise (FsError VFS_ENOSPC), (ino, (a', s')))" "invar s'"
        "blocks_changed sb (view s) a (view s') a' (used (a_blocks a))" "free_count sb a < missing (view s) ino (at div 4096)"
      have "free_count sb a' = free_count sb a" using n(3) by (simp add: free_count_def blocks_changed_def)
      then have "free_count sb a' < 3" using n(4) missing_le [of "view s" ino "at div 4096"] by linarith
      moreover have "write_pieces J src pos at c (pieces at e) (ino, (a, s)) = (Ret (at, c, True), (ino, (a', s')))"
        unfolding pc using n(1) by (simp add: bindE_def catchE_def)
      moreover have "wrote sb src pos at at (view s) a ino (view s') a' ino" by (rule wrote_nothing [OF less.prems(2) n(3)])
      ultimately show ?thesis using n(2) True by (intro exI conjI) auto
    next
      fix blk fresh ino1 a1 s1 assume n: "bmap_alloc J (at div 4096) (ino, (a, s)) = (Ret (blk, fresh), (ino1, (a1, s1)))" "invar s1"
        "has_block sb (view s) a ino (at div 4096) blk fresh (view s1) a1 ino1"
      note h = has_blockD [OF less.prems(2) n(3) km]
      have fn: "file_block (view s1) ino1 (at div 4096) \<noteq> 0" using h(2,3) by simp
      have r: "0 < blk" "blk < limit" using data_block(3) [OF file_okD(3) [OF h(1)] km fn] h(2,3) assms(1) by (simp_all add: word_neq_0_conv)
      define whole where "whole \<longleftrightarrow> at mod 4096 = 0 \<and> len = BLOCK_SIZE"
      define base where "base = (if fresh \<or> whole then zero_block else view s1 blk)"
      define x where "x = put_at (at mod 4096) (get_at (at - pos) len src) base"
      have sl: "at - pos + len \<le> length src" using assms(3) b(2) less.prems(3) by linarith
      have bl: "length base = 4096" using view_len [OF n(2) r] by (simp add: base_def is_block_def zero_block_def)
      have "is_block x" using bl ol sl by (simp add: x_def is_block_def get_at_def)
      with write_ok [where fn = "modE (put_at (at mod 4096) (get_at (at - pos) len src))" and fresh = "fresh \<or> whole" and x = x, OF n(2) r]
      obtain s2 where 2: "jwrite J blk (fresh \<or> whole) (modE (put_at (at mod 4096) (get_at (at - pos) len src))) s1 = (Ret (), s2)" "invar s2"
        "view s2 = (view s1)(blk := x)" by (auto simp: x_def base_def)
      have atm: "at < MAX_FILE_BYTES" using True assms(2) by simp
      have w: "wrote sb src pos at (at + len) (view s) a ino (view s2) a1 ino1"
        unfolding 2(3) x_def
        by (rule wrote_block [OF less.prems(2) n(3) refl atm less.prems(3) ol sl base_def bl]) (simp add: whole_def)
      have lt: "e - (at + len) < e - at" and pl: "pos \<le> at + len" using b True less.prems(3) by linarith+
      from less.hyps [OF lt 2(2) wroteD(1) [OF w] pl b(2), of "c \<or> fresh"] obtain at' c' full ino' a' s' where
        3: "write_pieces J src pos (at + len) (c \<or> fresh) (pieces (at + len) e) (ino1, (a1, s2)) = (Ret (at', c', full), (ino', (a', s')))"
        "invar s'" "at + len \<le> at'" "at' \<le> e" "if full then free_count sb a' < 3 else at' = e"
        "wrote sb src pos (at + len) at' (view s2) a1 ino1 (view s') a' ino'" by blast
      have "write_pieces J src pos at c (pieces at e) (ino, (a, s)) = (Ret (at', c', full), (ino', (a', s')))"
        unfolding pc write_pieces.simps(2) whole_def [symmetric] Let_def
        using n(1) 2(1) 3(1) by (simp add: bindE_def catchE_def thenE_def on_ijournal_run)
      moreover have "wrote sb src pos at at' (view s) a ino (view s') a' ino'" by (rule wrote_seq [OF w 3(6)]) (use 3(3) in simp_all)
      ultimately show ?thesis using 3(2-5) by (intro exI [of _ at'] exI [of _ c'] exI [of _ full] exI [of _ ino'] exI [of _ a'] exI [of _ s']) auto
    qed
  qed
qed

end

end
