(* ===== verification/Dir_Map.thy ===== *)
theory Dir_Map
  imports File_Data
begin

text \<open>
  Directories as maps. A directory is a list of slots; the slots in use, each with a name of its
  own, are a map from names to inode numbers and types. Looking a name up reads the map, adding
  and removing an entry update it at one name, and listing returns it.
\<close>

section \<open>Slots as a map\<close>

definition entry_name :: "dir_entry \<Rightarrow> bytes" where
  "entry_name e = take (unat (name_len e)) (name e)"

definition live :: "dir_entry list \<Rightarrow> dir_entry list" where
  "live es = filter (\<lambda>e. inode_id e \<noteq> 0) es"

definition good_name :: "dir_entry \<Rightarrow> bool" where
  "good_name e \<longleftrightarrow> wf_dir_entry e \<and> unat (name_len e) \<le> 58"

text \<open>The names in use are in bounds and all different.\<close>

definition names_ok :: "dir_entry list \<Rightarrow> bool" where
  "names_ok es \<longleftrightarrow> (\<forall>e \<in> set (live es). good_name e) \<and> distinct (map entry_name (live es))"

definition entry_map :: "dir_entry list \<Rightarrow> bytes \<Rightarrow> (u32 \<times> byte) option" where
  "entry_map es = map_of (map (\<lambda>e. (entry_name e, (inode_id e, dtype e))) (live es))"

lemma live_simps [simp]:
  "live [] = []" "live (e # es) = (if inode_id e = 0 then live es else e # live es)" "live (es @ fs) = live es @ live fs"
  by (simp_all add: live_def)

lemma live_replicate [simp]: "inode_id e = 0 \<Longrightarrow> live (replicate n e) = []"
  by (simp add: live_def)

lemma set_live: "set (live es) = {e \<in> set es. inode_id e \<noteq> 0}"
  by (auto simp: live_def)

lemma is_named_entry: "good_name e \<Longrightarrow> is_named e nm \<longleftrightarrow> inode_id e \<noteq> 0 \<and> entry_name e = nm"
  by (auto simp: is_named_def entry_name_def good_name_def wf_dir_entry_def min_def)

lemma is_named_unique: "is_named e a \<Longrightarrow> is_named e b \<Longrightarrow> a = b"
  unfolding is_named_def by metis

lemma entry_map_find:
  assumes "names_ok es"
  shows "entry_map es nm = map_option (\<lambda>e. (inode_id e, dtype e)) (find (\<lambda>e. is_named e nm) es)"
  using assms
proof (induction es)
  case (Cons e es)
  have ok: "names_ok es" using Cons.prems by (auto simp: names_ok_def split: if_splits)
  show ?case
  proof (cases "inode_id e = 0")
    case True
    then show ?thesis using Cons.IH [OF ok] by (simp add: entry_map_def is_named_def)
  next
    case False
    then have "good_name e" using Cons.prems by (simp add: names_ok_def)
    then show ?thesis using Cons.IH [OF ok] False is_named_entry [of e nm] by (simp add: entry_map_def)
  qed
qed (simp add: entry_map_def)

lemma entry_map_None: "entry_map es nm = None \<longleftrightarrow> nm \<notin> entry_name ` set (live es)"
  by (simp add: entry_map_def map_of_eq_None_iff image_image)

lemma dom_entry_map: "dom (entry_map es) = entry_name ` set (live es)"
proof (rule set_eqI)
  show "nm \<in> dom (entry_map es) \<longleftrightarrow> nm \<in> entry_name ` set (live es)" for nm
    by (simp only: domIff entry_map_None not_not)
qed

text \<open>A free slot is given an entry with a new name.\<close>

lemma entry_map_add:
  assumes "names_ok (xs @ old # ys)" and "inode_id old = 0" and "good_name e" and "inode_id e \<noteq> 0"
    and "entry_map (xs @ old # ys) (entry_name e) = None"
  shows "names_ok (xs @ e # ys)" "entry_map (xs @ e # ys) = (entry_map (xs @ old # ys))(entry_name e \<mapsto> (inode_id e, dtype e))"
proof -
  have new: "entry_name e \<notin> entry_name ` set (live xs)" "entry_name e \<notin> entry_name ` set (live ys)"
    using assms(2,5) by (auto simp: entry_map_None)
  then show "names_ok (xs @ e # ys)" using assms(1-4) by (auto simp: names_ok_def)
  have "map_of (map (\<lambda>e. (entry_name e, (inode_id e, dtype e))) (live xs)) (entry_name e) = None"
    using new(1) by (simp add: map_of_eq_None_iff image_image)
  then show "entry_map (xs @ e # ys) = (entry_map (xs @ old # ys))(entry_name e \<mapsto> (inode_id e, dtype e))"
    using assms(2,4) by (auto simp: entry_map_def fun_eq_iff map_add_def split: option.split)
qed

text \<open>A slot in use is cleared.\<close>

lemma entry_map_remove:
  assumes "names_ok (xs @ old # ys)" and "inode_id old \<noteq> 0" and "inode_id e = 0"
  shows "names_ok (xs @ e # ys)" "entry_map (xs @ e # ys) = (entry_map (xs @ old # ys))(entry_name old := None)"
proof -
  have new: "entry_name old \<notin> entry_name ` set (live xs)" "entry_name old \<notin> entry_name ` set (live ys)"
    using assms(1,2) by (auto simp: names_ok_def)
  show "names_ok (xs @ e # ys)" using assms by (auto simp: names_ok_def)
  have none: "entry_map (xs @ ys) (entry_name old) = None" using new by (auto simp: entry_map_None)
  have "entry_map (xs @ e # ys) = entry_map (xs @ ys)" using assms(3) by (simp add: entry_map_def)
  moreover have "entry_map (xs @ old # ys) nm = entry_map (xs @ ys) nm" if "nm \<noteq> entry_name old" for nm
    using assms(2) that by (auto simp: entry_map_def map_add_def split: option.split)
  ultimately show "entry_map (xs @ e # ys) = (entry_map (xs @ old # ys))(entry_name old := None)"
    using none by (auto simp: fun_eq_iff)
qed

text \<open>An entry that \<^verbatim>\<open>make_entry\<close> makes.\<close>

lemma make_entry_ok:
  assumes "length nm \<le> 58"
  shows "good_name (make_entry nm ino ty)" "entry_name (make_entry nm ino ty) = nm" "inode_id (make_entry nm ino ty) = ino"
    "dtype (make_entry nm ino ty) = ty" "wf_dir_entry (make_entry nm ino ty)"
proof -
  have l: "unat (of_nat (length nm) :: byte) = length nm" using assms by (simp add: unat_of_nat)
  show "wf_dir_entry (make_entry nm ino ty)" "good_name (make_entry nm ino ty)" "entry_name (make_entry nm ino ty) = nm"
    using assms l by (simp_all add: good_name_def entry_name_def make_entry_def wf_dir_entry_def zero_dir_entry_def put_at_def)
  show "inode_id (make_entry nm ino ty) = ino" "dtype (make_entry nm ino ty) = ty" by (simp_all add: make_entry_def)
qed

lemma decode_zero_entry [simp]: "decode_dir_entry (replicate 64 0) = zero_dir_entry"
proof -
  have "le_word (replicate n 0) = (0 :: u32)" for n by (induction n) simp_all
  then show ?thesis by (simp add: decode_dir_entry_def zero_dir_entry_def rd32_def get_at_def)
qed

section \<open>A directory on the disk\<close>

definition dir_slot :: "(u32 \<Rightarrow> block) \<Rightarrow> inode \<Rightarrow> nat \<Rightarrow> dir_entry" where
  "dir_slot v dir n = decode_dir_entry (map (file_byte v dir) [64 * n..<64 * n + 64])"

definition dir_slots :: "(u32 \<Rightarrow> block) \<Rightarrow> inode \<Rightarrow> dir_entry list" where
  "dir_slots v dir = map (dir_slot v dir) [0..<64 * block_count_of dir]"

definition dir_map :: "(u32 \<Rightarrow> block) \<Rightarrow> inode \<Rightarrow> bytes \<Rightarrow> (u32 \<times> byte) option" where
  "dir_map v dir = entry_map (dir_slots v dir)"

text \<open>A directory is a file of whole blocks without holes, whose names are all different and whose first
  two slots are the directory itself and its parent.\<close>

definition dir_ok :: "superblock \<Rightarrow> (u32 \<Rightarrow> block) \<Rightarrow> allocator \<Rightarrow> inode \<Rightarrow> bool" where
  "dir_ok sb v a dir \<longleftrightarrow> file_ok sb v a dir \<and> unat (size_of dir) = 4096 * block_count_of dir \<and>
     0 < block_count_of dir \<and> block_count_of dir \<le> MAX_FILE_BLOCKS \<and>
     (\<forall>k < block_count_of dir. file_block v dir k \<noteq> 0) \<and> names_ok (dir_slots v dir) \<and>
     is_named (dir_slot v dir 0) (str_bytes ''.'') \<and> is_named (dir_slot v dir 1) (str_bytes ''..'')"

lemma dir_okD:
  assumes "dir_ok sb v a dir"
  shows "file_ok sb v a dir" "unat (size_of dir) = 4096 * block_count_of dir" "0 < block_count_of dir"
    "block_count_of dir \<le> MAX_FILE_BLOCKS" "k < block_count_of dir \<Longrightarrow> file_block v dir k \<noteq> 0" "names_ok (dir_slots v dir)"
    "is_named (dir_slot v dir 0) (str_bytes ''.'')" "is_named (dir_slot v dir 1) (str_bytes ''..'')"
  using assms by (simp_all add: dir_ok_def)

lemma length_dir_slots [simp]: "length (dir_slots v dir) = 64 * block_count_of dir"
  by (simp add: dir_slots_def)

lemma nth_dir_slots [simp]: "n < 64 * block_count_of dir \<Longrightarrow> dir_slots v dir ! n = dir_slot v dir n"
  by (simp add: dir_slots_def)

text \<open>A slot in the block it is in.\<close>

lemma slot_dir_slot:
  assumes "file_block v dir k \<noteq> 0" and "length (v (file_block v dir k)) = 4096" and "i < 64"
  shows "slot (v (file_block v dir k)) i = dir_slot v dir (64 * k + i)"
proof -
  let ?b = "v (file_block v dir k)"
  have m: "64 * (64 * k + i) = k * 4096 + 64 * i" by simp
  have "map (file_byte v dir) [64 * (64 * k + i)..<64 * (64 * k + i) + 64] = map (\<lambda>j. ?b ! j) [64 * i..<64 * i + 64]"
    unfolding m using map_file_bytes [of "64 * i" 64 v dir k] assms(1,3) by simp
  also have "\<dots> = get_at (i * 64) 64 ?b" using get_at_map [of "64 * i" 64 ?b] assms(2,3) by (simp add: mult.commute)
  finally show ?thesis by (simp add: slot_def dir_slot_def)
qed

text \<open>The slots of a block in the order of the loops.\<close>

lemma upt_block: "[64 * k..<64 * Suc k] = map (\<lambda>i. 64 * k + i) [0..<64]"
  by (rule nth_equalityI) simp_all

lemma find_map: "find P (map f xs) = map_option f (find (\<lambda>x. P (f x)) xs)"
  by (induction xs) simp_all

lemma find_append: "find P (xs @ ys) = (case find P xs of None \<Rightarrow> find P ys | r \<Rightarrow> r)"
  by (induction xs) simp_all

context journal_store
begin

lemma dir_block_range:
  assumes "dir_ok sb v a dir" and "total_blocks sb = limit" and "k < block_count_of dir"
  shows "0 < file_block v dir k" "file_block v dir k < limit"
proof -
  note d = dir_okD [OF assms(1)]
  have "k < MAX_FILE_BLOCKS" using assms(3) d(4) by linarith
  from data_block(3) [OF file_okD(3) [OF d(1)] this d(5) [OF assms(3)]] d(5) [OF assms(3)] assms(2)
  show "0 < file_block v dir k" "file_block v dir k < limit" by (simp_all add: word_neq_0_conv)
qed

lemma read_dir_block_ok:
  assumes "invar s" and "dir_ok sb (view s) a dir" and "total_blocks sb = limit" and "k < block_count_of dir"
  shows "\<exists>s'. read_dir_block J dir k s = (Ret (file_block (view s) dir k, view s (file_block (view s) dir k)), s') \<and> invar s' \<and> view s' = view s"
    "length (view s (file_block (view s) dir k)) = 4096"
proof -
  note d = dir_okD [OF assms(2)]
  note f = file_okD [OF d(1)]
  have k: "k < MAX_FILE_BLOCKS" using assms(4) d(4) by linarith
  let ?b = "file_block (view s) dir k"
  have n: "?b \<noteq> 0" by (rule d(5) [OF assms(4)])
  note r = dir_block_range [OF assms(2-4)]
  from bmap_read_ok [OF assms(1) f(3,1) assms(3) k] obtain s1 where
    1: "bmap_read J dir k s = (Ret ?b, s1)" "invar s1" "view s1 = view s" by blast
  from read_ok [OF 1(2) r] 1(3) obtain s2 where 2: "jread J ?b s1 = (Ret (view s ?b), s2)" "invar s2" "view s2 = view s" by auto
  show "\<exists>s'. read_dir_block J dir k s = (Ret (?b, view s ?b), s') \<and> invar s' \<and> view s' = view s"
    using 1(1) 2 n by (simp add: read_dir_block_def)
  show "length (view s ?b) = 4096" using view_len [OF assms(1) r] by (simp add: is_block_def)
qed

text \<open>The scan finds the first slot that satisfies the test.\<close>

lemma scan_dir_ok:
  assumes "invar s" and "dir_ok sb (view s) a dir" and "total_blocks sb = limit" and "k \<le> block_count_of dir"
  shows "\<exists>s'. scan_dir J dir P [k..<block_count_of dir] s =
      (Ret (map_option (\<lambda>n. (file_block (view s) dir (n div 64), n mod 64, dir_slot (view s) dir n))
        (find (\<lambda>n. P (dir_slot (view s) dir n)) [64 * k..<64 * block_count_of dir])), s') \<and> invar s' \<and> view s' = view s"
  using assms(1,2,4)
proof (induction "block_count_of dir - k" arbitrary: k s)
  case 0
  then show ?case by simp
next
  case (Suc m)
  let ?N = "block_count_of dir" and ?b = "file_block (view s) dir k"
  have k: "k < ?N" using Suc.hyps(2) by linarith
  note r = read_dir_block_ok [OF Suc.prems(1,2) assms(3) k]
  from r(1) obtain s1 where 1: "read_dir_block J dir k s = (Ret (?b, view s ?b), s1)" "invar s1" "view s1 = view s" by blast
  have sl: "slot (view s ?b) i = dir_slot (view s) dir (64 * k + i)" if "i < 64" for i
    by (rule slot_dir_slot [OF dir_okD(5) [OF Suc.prems(2) k] r(2) that])
  have fs: "find (\<lambda>n. P (dir_slot (view s) dir n)) [64 * k..<64 * Suc k] = map_option (\<lambda>i. 64 * k + i) (find_slot P 0 (view s ?b))"
    unfolding upt_block find_map find_slot_def using sl by (auto intro!: arg_cong [where f = "map_option _"] find_cong)
  have "64 * k \<le> 64 * Suc k" "64 * Suc k \<le> 64 * ?N" using k by simp_all
  then have sp: "[64 * k..<64 * ?N] = [64 * k..<64 * Suc k] @ [64 * Suc k..<64 * ?N]"
    by (metis le_Suc_ex upt_add_eq_append)
  have up: "[k..<?N] = k # [Suc k..<?N]" using k by (rule upt_conv_Cons)
  show ?case
  proof (cases "find_slot P 0 (view s ?b)")
    case None
    have "m = ?N - Suc k" "Suc k \<le> ?N" using Suc.hyps(2) by linarith+
    with Suc.hyps(1) [of "Suc k" s1] 1(2,3) Suc.prems(2) obtain s2 where
      "scan_dir J dir P [Suc k..<?N] s1 = (Ret (map_option (\<lambda>n. (file_block (view s) dir (n div 64), n mod 64, dir_slot (view s) dir n))
        (find (\<lambda>n. P (dir_slot (view s) dir n)) [64 * Suc k..<64 * ?N])), s2)" "invar s2" "view s2 = view s" by auto
    with 1(1) None fs show ?thesis unfolding up sp find_append by simp
  next
    case (Some i)
    then have i: "i < 64" by (auto simp: find_slot_def find_Some_iff)
    with 1 Some fs sl [OF i] show ?thesis unfolding up sp find_append by simp
  qed
qed

end

text \<open>The map is what a search of the slots finds.\<close>

lemma dir_map_find:
  assumes "names_ok (dir_slots v dir)"
  shows "dir_map v dir nm = map_option (\<lambda>n. (inode_id (dir_slot v dir n), dtype (dir_slot v dir n)))
    (find (\<lambda>n. is_named (dir_slot v dir n) nm) [0..<64 * block_count_of dir])"
  using entry_map_find [OF assms, of nm] by (simp add: dir_map_def dir_slots_def find_map option.map_comp comp_def)

text \<open>A write of whole slots.\<close>

lemma dir_slot_wrote:
  assumes w: "wrote sb src (64 * n) (64 * n) (64 * n + 64 * c) v a dir v' a' dir'" and l: "length src = 64 * c"
    and m: "m < 64 * MAX_FILE_BLOCKS"
  shows "dir_slot v' dir' m = (if n \<le> m \<and> m < n + c then decode_dir_entry (get_at (64 * (m - n)) 64 src) else dir_slot v dir m)"
proof -
  have b: "file_byte v' dir' x = (if 64 * n \<le> x \<and> x < 64 * n + 64 * c then src ! (x - 64 * n) else file_byte v dir x)"
    if "x \<in> set [64 * m..<64 * m + 64]" for x
  proof (rule wroteD(5) [OF w])
    have "x < 64 * m + 64" "64 * m + 64 \<le> 4096 * MAX_FILE_BLOCKS" using that m by simp_all
    then show "x < MAX_FILE_BYTES" unfolding max_file_bytes by linarith
  qed
  show ?thesis
  proof (cases "n \<le> m \<and> m < n + c")
    case True
    then have r: "64 * n \<le> 64 * m" "64 * m + 64 \<le> 64 * n + 64 * c" by auto
    have "map (file_byte v' dir') [64 * m..<64 * m + 64] = map (\<lambda>x. src ! (x - 64 * n)) [64 * m..<64 * m + 64]"
      using b r by (intro map_cong) auto
    also have "\<dots> = get_at (64 * (m - n)) 64 src"
      using r l by (intro nth_equalityI) (auto simp: nth_get_at diff_mult_distrib2)
    finally show ?thesis using True by (simp add: dir_slot_def)
  next
    case False
    then have "64 * m + 64 \<le> 64 * n \<or> 64 * n + 64 * c \<le> 64 * m" by linarith
    then have eq: "map (file_byte v' dir') [64 * m..<64 * m + 64] = map (file_byte v dir) [64 * m..<64 * m + 64]"
      using b by (intro map_cong) auto
    show ?thesis unfolding if_not_P [OF False] dir_slot_def eq by (rule refl)
  qed
qed

lemma dir_slots_split:
  assumes "n < 64 * block_count_of dir"
  obtains xs ys where "dir_slots v dir = xs @ dir_slot v dir n # ys" "length xs = n"
  using assms id_take_nth_drop [of n "dir_slots v dir"] by (metis length_dir_slots length_take min.absorb4 nth_dir_slots)

text \<open>One slot of a directory is written in place.\<close>

lemma slot_written:
  assumes d: "dir_ok sb v a dir" and n: "n < 64 * block_count_of dir" and bs: "length bs = 64"
    and len: "length (v (file_block v dir (n div 64))) = 4096"
  defines "v' \<equiv> v(file_block v dir (n div 64) := put_at (n mod 64 * 64) bs (v (file_block v dir (n div 64))))"
  shows "wrote sb bs (64 * n) (64 * n) (64 * n + 64) v a dir v' a dir"
    "dir_slots v' dir = (dir_slots v dir)[n := decode_dir_entry bs]"
    "k < block_count_of dir \<Longrightarrow> file_block v' dir k \<noteq> 0"
proof -
  note D = dir_okD [OF d]
  let ?k = "n div 64"
  have k: "?k < block_count_of dir" using n by (simp add: less_mult_imp_div_less mult.commute)
  have km: "?k < MAX_FILE_BLOCKS" using k D(4) by linarith
  have at: "?k = 64 * n div 4096" "64 * n mod 4096 = n mod 64 * 64" using div_mult2_eq [of "64 * n" 64 64] mult_mod_right [of 64 n 64]
    by (simp_all add: mult.commute)
  have lim: "64 * n < MAX_FILE_BYTES" using n D(4) unfolding max_file_bytes by linarith
  have h: "has_block sb v a dir ?k (file_block v dir ?k) False v a dir" using D(5) [OF k] by (simp add: has_block_def)
  have sp: "64 * n mod 4096 + 64 \<le> 4096" unfolding at(2) using mod_less_divisor [of 64 n] by linarith
  show w: "wrote sb bs (64 * n) (64 * n) (64 * n + 64) v a dir v' a dir"
    using wrote_block [OF D(1) h at(1) lim order_refl sp, of bs _ False] len bs at(2) by (simp add: v'_def)
  have "dir_slot v' dir m = (if m = n then decode_dir_entry bs else dir_slot v dir m)" if "m < 64 * block_count_of dir" for m
    using dir_slot_wrote [of sb bs n 1 v a dir v' a dir m] w bs that D(4) by (auto simp: less_Suc_eq_le)
  then show "dir_slots v' dir = (dir_slots v dir)[n := decode_dir_entry bs]"
    by (intro nth_equalityI) (simp_all add: nth_list_update)
  show "k < block_count_of dir \<Longrightarrow> file_block v' dir k \<noteq> 0"
    unfolding v'_def using file_block_place [OF place_ptr_data [OF file_okD(3) [OF D(1)] km D(5) [OF k]]] D(4,5) by simp
qed

lemma dir_slot_changed:
  assumes d: "dir_ok sb v a dir"
    and w: "wrote sb bs (64 * n) (64 * n) (64 * n + 64) v a dir v' a dir" "dir_slots v' dir = (dir_slots v dir)[n := e]"
      "\<And>k. k < block_count_of dir \<Longrightarrow> file_block v' dir k \<noteq> 0"
    and n: "n \<noteq> 0" "n \<noteq> 1" "n < 64 * block_count_of dir" and ok: "names_ok (dir_slots v' dir)"
  shows "dir_ok sb v' a dir"
proof -
  note D = dir_okD [OF d]
  have keep: "dir_slot v' dir i = dir_slot v dir i" if "i \<noteq> n" "i < 64 * block_count_of dir" for i
    using arg_cong [OF w(2), of "\<lambda>l. l ! i"] that by simp
  then show ?thesis unfolding dir_ok_def using wroteD(1) [OF w(1)] D(2-4) w(3) ok keep [of 0] keep [of 1] n D(7,8) by simp
qed

text \<open>A block is added to a directory, with one entry in it.\<close>

lemma dir_slot_size [simp]: "dir_slot v (dir\<lparr>size_of := z\<rparr>) n = dir_slot v dir n"
  by (simp add: dir_slot_def)

lemma file_block_size [simp]: "file_block v (dir\<lparr>size_of := z\<rparr>) n = file_block v dir n"
  by (simp add: file_block_def second_at_def)

lemma new_dir_block:
  assumes "wf_dir_entry e"
  shows "put_at 0 (encode_dir_entry e) zero_block = encode_dir_entry e @ replicate 4032 0"
    "i < 64 \<Longrightarrow> get_at (64 * i) 64 (encode_dir_entry e @ replicate 4032 0) = (if i = 0 then encode_dir_entry e else replicate 64 0)"
proof -
  have l: "length (encode_dir_entry e) = 64" using assms by simp
  show "put_at 0 (encode_dir_entry e) zero_block = encode_dir_entry e @ replicate 4032 0"
    using l by (simp add: put_at_def zero_block_def)
  show "get_at (64 * i) 64 (encode_dir_entry e @ replicate 4032 0) = (if i = 0 then encode_dir_entry e else replicate 64 0)" if "i < 64"
  proof -
    have "64 \<le> 4032 - (64 * i - 64)" using that by linarith
    then show ?thesis using l by (simp add: get_at_def)
  qed
qed

lemma dir_grown:
  assumes d: "dir_ok sb v a dir" and lim: "block_count_of dir < MAX_FILE_BLOCKS"
    and h: "has_block sb v a dir (block_count_of dir) b fresh v1 a1 dir1"
    and e: "good_name e" "inode_id e \<noteq> 0" "dir_map v dir (entry_name e) = None"
  defines "v' \<equiv> v1(b := put_at 0 (encode_dir_entry e) zero_block)" and "dir' \<equiv> dir1\<lparr>size_of := size_of dir1 + 4096\<rparr>"
  shows "dir_ok sb v' a1 dir'" "dir_map v' dir' = (dir_map v dir)(entry_name e \<mapsto> (inode_id e, dtype e))"
    "used (a_blocks a) \<subseteq> used (a_blocks a1)"
    "x \<in> used (a_blocks a) \<Longrightarrow> x \<notin> range (place_ptr v dir) \<Longrightarrow> \<not> in_region (data_bitmap_start sb) (total_blocks sb) x \<Longrightarrow> v' x = v x"
proof -
  note D = dir_okD [OF d]
  let ?N = "block_count_of dir" and ?src = "encode_dir_entry e @ replicate 4032 0"
  have wf: "wf_dir_entry e" using e(1) by (simp add: good_name_def)
  have ls: "length ?src = 64 * 64" using wf by simp
  have "4096 * ?N < MAX_FILE_BYTES" using lim unfolding max_file_bytes by simp
  from wrote_block [OF D(1) h _ this, of "4096 * ?N" 4096 ?src zero_block True] ls
  have w: "wrote sb ?src (4096 * ?N) (4096 * ?N) (4096 * ?N + 4096) v a dir v' a1 dir1"
    unfolding v'_def new_dir_block(1) [OF wf] by (simp add: put_at_def zero_block_def)
  note W = wroteD [OF w]
  show "used (a_blocks a) \<subseteq> used (a_blocks a1)" by (rule W(4))
  show "x \<in> used (a_blocks a) \<Longrightarrow> x \<notin> range (place_ptr v dir) \<Longrightarrow> \<not> in_region (data_bitmap_start sb) (total_blocks sb) x \<Longrightarrow> v' x = v x"
    by (rule W(7))
  have sz: "size_of dir1 = size_of dir" using W(2) unfolding same_file_def by (metis inode.select_convs(4) inode.surjective inode.update_convs)
  have "4096 * ?N + 4096 < 2 ^ 64" using lim by simp
  then have sz': "unat (size_of dir') = 4096 * Suc ?N" unfolding dir'_def using D(2) sz by (simp add: unat_word_ariths)
  then have N': "block_count_of dir' = Suc ?N" by (simp add: block_count_of_def)
  have slots: "dir_slot v' dir' m = (if m < 64 * ?N then dir_slot v dir m else if m = 64 * ?N then e else zero_dir_entry)"
    if "m < 64 * Suc ?N" for m
  proof -
    have "m < 64 * MAX_FILE_BLOCKS" using that lim by simp
    from dir_slot_wrote [of sb ?src "64 * ?N" 64 v a dir v' a1 dir1 m, OF _ _ this] w ls
    have "dir_slot v' dir1 m = (if 64 * ?N \<le> m \<and> m < 64 * ?N + 64 then decode_dir_entry (get_at (64 * (m - 64 * ?N)) 64 ?src) else dir_slot v dir m)"
      by simp
    moreover have "m - 64 * ?N < 64" using that unfolding mult_Suc_right by linarith
    ultimately show ?thesis unfolding dir'_def using that new_dir_block(2) [OF wf, of "m - 64 * ?N"] decode_encode_exact(3) [OF wf] by auto
  qed
  have ds: "dir_slots v' dir' = dir_slots v dir @ e # replicate 63 zero_dir_entry"
    by (rule nth_equalityI) (use N' slots in \<open>auto simp: nth_append nth_Cons'\<close>)
  have z: "inode_id zero_dir_entry = 0" by (simp add: zero_dir_entry_def)
  have "names_ok (dir_slots v dir @ zero_dir_entry # replicate 63 zero_dir_entry)"
    "entry_map (dir_slots v dir @ zero_dir_entry # replicate 63 zero_dir_entry) = dir_map v dir"
    using D(6) z by (simp_all add: names_ok_def entry_map_def dir_map_def)
  note add = entry_map_add [OF this(1) z e(1,2), unfolded this(2), OF e(3)]
  show "dir_map v' dir' = (dir_map v dir)(entry_name e \<mapsto> (inode_id e, dtype e))" using add(2) by (simp add: dir_map_def ds)
  note hb = has_blockD [OF D(1) h lim]
  have fb: "file_block v' dir1 k \<noteq> 0" if k: "k < Suc ?N" for k
  proof -
    have km: "k < MAX_FILE_BLOCKS" using k lim by linarith
    have n0: "file_block v1 dir1 ?N \<noteq> 0" using hb(2,3) by simp
    have "file_block v' dir1 k = file_block v1 dir1 k"
      unfolding v'_def using file_block_place [OF place_ptr_data [OF file_okD(3) [OF hb(1)] lim n0] km] hb(2) by simp
    also have "\<dots> \<noteq> 0"
    proof (cases "k = ?N")
      case False
      with k have "file_block v dir k \<noteq> 0" by (intro D(5)) simp
      moreover have "file_block v1 dir1 k = file_block v dir k"
        using h km False by (auto simp: has_block_def grown_def split: if_splits)
      ultimately show ?thesis by simp
    qed (use n0 in simp)
    finally show ?thesis .
  qed
  have "file_ok sb v' a1 dir'" unfolding dir'_def using W(1) by simp
  moreover have "file_block v' dir' k \<noteq> 0" if "k < Suc ?N" for k unfolding dir'_def using fb [OF that] by simp
  moreover have "names_ok (dir_slots v' dir')" unfolding ds by (rule add(1))
  moreover have "dir_slot v' dir' 0 = dir_slot v dir 0" "dir_slot v' dir' 1 = dir_slot v dir 1" using slots D(3) by simp_all
  ultimately show "dir_ok sb v' a1 dir'" unfolding dir_ok_def N' using sz' lim D(7,8) by simp
qed

text \<open>An allocation that failed has changed nothing of the directory.\<close>

lemma dir_unchanged:
  assumes d: "dir_ok sb v a dir" and bc: "blocks_changed sb v a v' a' (used (a_blocks a))"
  shows "dir_ok sb v' a' dir" "dir_map v' dir = dir_map v dir"
proof -
  note D = dir_okD [OF d]
  note f = file_okD [OF D(1)]
  note W = wroteD [OF wrote_nothing [OF D(1) bc, of "[]" 0 0]]
  have ro: "region_only (data_bitmap_start sb) (total_blocks sb) v v'" using bc by (simp add: blocks_changed_def)
  have fb: "file_block v' dir k \<noteq> 0" if "k < block_count_of dir" for k
    using file_block_place [OF place_ptr_alloc [OF f(1,3) ro], of k] D(4,5) that by simp
  have sl: "dir_slot v' dir n = dir_slot v dir n" if n: "n < 64 * block_count_of dir" for n
  proof -
    have "file_byte v' dir x = file_byte v dir x" if x: "x \<in> set [64 * n..<64 * n + 64]" for x
    proof -
      have "x < 64 * n + 64" "64 * n + 64 \<le> 4096 * block_count_of dir" "4096 * block_count_of dir \<le> 4096 * MAX_FILE_BLOCKS"
        using x n D(4) by simp_all
      then have "x < MAX_FILE_BYTES" unfolding max_file_bytes by linarith
      then show ?thesis using W(5) [of x] by simp
    qed
    then have eq: "map (file_byte v' dir) [64 * n..<64 * n + 64] = map (file_byte v dir) [64 * n..<64 * n + 64]" by (rule map_cong [OF refl])
    show ?thesis unfolding dir_slot_def eq by (rule refl)
  qed
  then have ds: "dir_slots v' dir = dir_slots v dir" by (simp add: dir_slots_def)
  show "dir_map v' dir = dir_map v dir" by (simp add: dir_map_def ds)
  show "dir_ok sb v' a' dir" unfolding dir_ok_def using W(1) D(2-4,6-8) fb ds sl [of 0] sl [of 1] by simp
qed

context journal_store
begin

lemma dir_lookup_ok:
  assumes "invar s" and "dir_ok sb (view s) a dir" and "total_blocks sb = limit"
  shows "\<exists>s'. dir_lookup J dir nm s = (Ret (case dir_map (view s) dir nm of None \<Rightarrow> (0, None) | Some (i, t) \<Rightarrow> (i, Some t)), s') \<and>
    invar s' \<and> view s' = view s"
proof -
  let ?f = "find (\<lambda>n. is_named (dir_slot (view s) dir n) nm) [0..<64 * block_count_of dir]"
  have m: "dir_map (view s) dir nm = map_option (\<lambda>n. (inode_id (dir_slot (view s) dir n), dtype (dir_slot (view s) dir n))) ?f"
    by (rule dir_map_find [OF dir_okD(6) [OF assms(2)]])
  from scan_dir_ok [OF assms, of 0 "\<lambda>e. is_named e nm"] m show ?thesis
    unfolding dir_lookup_def by (cases ?f) auto
qed

lemma dir_remove_ok:
  assumes "invar s" and "dir_ok sb (view s) a dir" and "total_blocks sb = limit" and "nm \<noteq> str_bytes ''.''" and "nm \<noteq> str_bytes ''..''"
  shows "\<exists>s'. dir_remove J dir nm s = (Ret (nm \<in> dom (dir_map (view s) dir)), s') \<and> invar s' \<and> dir_ok sb (view s') a dir \<and>
    dir_map (view s') dir = (dir_map (view s) dir)(nm := None) \<and>
    (\<forall>x. x \<notin> range (place_ptr (view s) dir) \<longrightarrow> view s' x = view s x)"
proof -
  note D = dir_okD [OF assms(2)]
  let ?P = "\<lambda>n. is_named (dir_slot (view s) dir n) nm"
  let ?f = "find ?P [0..<64 * block_count_of dir]"
  have m: "dir_map (view s) dir nm = map_option (\<lambda>n. (inode_id (dir_slot (view s) dir n), dtype (dir_slot (view s) dir n))) ?f"
    by (rule dir_map_find [OF D(6)])
  from scan_dir_ok [OF assms(1-3), of 0 "\<lambda>e. is_named e nm"] obtain s1 where
    1: "scan_dir J dir (\<lambda>e. is_named e nm) [0..<block_count_of dir] s =
      (Ret (map_option (\<lambda>n. (file_block (view s) dir (n div 64), n mod 64, dir_slot (view s) dir n)) ?f), s1)" "invar s1" "view s1 = view s" by auto
  show ?thesis
  proof (cases ?f)
    case None
    then show ?thesis using 1 m assms(2) by (auto simp: dir_remove_def dom_def fun_upd_idem)
  next
    case (Some n)
    then have n: "n < 64 * block_count_of dir" "?P n" by (auto simp: find_Some_iff)
    let ?k = "n div 64" and ?o = "n mod 64 * 64"
    let ?b = "file_block (view s) dir ?k"
    have k: "?k < block_count_of dir" using n(1) by (simp add: less_mult_imp_div_less mult.commute)
    have km: "?k < MAX_FILE_BLOCKS" using k D(4) by linarith
    note len = read_dir_block_ok(2) [OF assms(1-3) k]
    note r = dir_block_range [OF assms(2,3) k]
    have o: "?o + 64 \<le> 4096" using mod_less_divisor [of 64 n] by linarith
    define x where "x = put_at ?o (replicate 64 0) (view s ?b)"
    have "is_block x" using len o by (simp add: x_def is_block_def)
    with write_ok [where fn = "modE (put_at ?o (replicate 64 0))" and fresh = False and x = x, OF 1(2) r] 1(3) obtain s2 where
      2: "jwrite J ?b False (modE (put_at ?o (replicate 64 0))) s1 = (Ret (), s2)" "invar s2" "view s2 = (view s)(?b := x)" by (auto simp: x_def)
    have l64: "length (replicate 64 (0 :: byte)) = 64" by simp
    note sw = slot_written [OF assms(2) n(1) l64 len, folded x_def, folded 2(3)]
    from dir_slots_split [OF n(1), of "view s"] obtain xs ys where
      sp: "dir_slots (view s) dir = xs @ dir_slot (view s) dir n # ys" "length xs = n" by metis
    have sp': "dir_slots (view s2) dir = xs @ zero_dir_entry # ys" unfolding sw(2) sp(1) using sp(2) by (simp add: list_update_append)
    have use: "inode_id (dir_slot (view s) dir n) \<noteq> 0" using n(2) by (simp add: is_named_def)
    have "good_name (dir_slot (view s) dir n)" using D(6) use unfolding sp(1) by (simp add: names_ok_def)
    then have en: "entry_name (dir_slot (view s) dir n) = nm" using is_named_entry n(2) by blast
    have "inode_id zero_dir_entry = 0" by (simp add: zero_dir_entry_def)
    note er = entry_map_remove [OF D(6) [unfolded sp(1)] use this]
    have dots: "n \<noteq> 0" "n \<noteq> 1" by (metis is_named_unique n(2) D(7) assms(4)) (metis is_named_unique n(2) D(8) assms(5))
    have "dir_ok sb (view s2) a dir" by (rule dir_slot_changed [OF assms(2) sw dots n(1)]) (simp_all add: sp' er(1))
    moreover have "dir_map (view s2) dir = (dir_map (view s) dir)(nm := None)" using er(2) en by (simp add: dir_map_def sp(1) sp')
    moreover have "view s2 y = view s y" if "y \<notin> range (place_ptr (view s) dir)" for y
    proof -
      have "place_ptr (view s) dir (Data ?k) = ?b" using km by (simp add: place_ptr_def)
      with that have "y \<noteq> ?b" by (metis rangeI)
      then show ?thesis by (simp add: 2(3))
    qed
    moreover have "dir_remove J dir nm s = (Ret True, s2)" using 1(1) 2(1) Some by (simp add: dir_remove_def)
    moreover have "nm \<in> dom (dir_map (view s) dir)" using m Some by auto
    ultimately show ?thesis using 2(2) by auto
  qed
qed

lemma dir_add_ok:
  assumes "invar s" and "dir_ok sb (view s) a dir" and "total_blocks sb = limit"
    and nm: "length nm \<le> 58" and ino: "ino \<noteq> 0" and new: "dir_map (view s) dir nm = None"
  shows "(\<exists>c a' s'. dir_add J nm ino ty (dir, (a, s)) = (Raise (FsError c), (dir, (a', s'))) \<and> invar s' \<and>
      dir_ok sb (view s') a' dir \<and> dir_map (view s') dir = dir_map (view s) dir \<and> used (a_blocks a') = used (a_blocks a) \<and>
      (c = VFS_ENOSPC \<and> free_count sb a < 3 \<or> c = VFS_EFBIG \<and> block_count_of dir = MAX_FILE_BLOCKS)) \<or>
    (\<exists>dir' a' s'. dir_add J nm ino ty (dir, (a, s)) = (Ret (), (dir', (a', s'))) \<and> invar s' \<and>
      dir_ok sb (view s') a' dir' \<and> dir_map (view s') dir' = (dir_map (view s) dir)(nm \<mapsto> (ino, ty)) \<and> used (a_blocks a) \<subseteq> used (a_blocks a') \<and>
      (\<forall>x \<in> used (a_blocks a) - range (place_ptr (view s) dir). \<not> in_region (data_bitmap_start sb) (total_blocks sb) x \<longrightarrow> view s' x = view s x))"
    (is "?fails \<or> ?adds")
proof -
  note D = dir_okD [OF assms(2)]
  let ?N = "block_count_of dir" and ?e = "make_entry nm ino ty"
  note e = make_entry_ok [OF nm, of ino ty]
  have en: "inode_id ?e \<noteq> 0" using e(3) ino by simp
  let ?f = "find (\<lambda>n. inode_id (dir_slot (view s) dir n) = 0) [0..<64 * ?N]"
  from scan_dir_ok [OF assms(1-3), of 0 "\<lambda>e. inode_id e = 0"] obtain s1 where
    1: "scan_dir J dir (\<lambda>e. inode_id e = 0) [0..<?N] s =
      (Ret (map_option (\<lambda>n. (file_block (view s) dir (n div 64), n mod 64, dir_slot (view s) dir n)) ?f), s1)" "invar s1" "view s1 = view s" by auto
  show ?thesis
  proof (cases ?f)
    case (Some n)
    then have n: "n < 64 * ?N" "inode_id (dir_slot (view s) dir n) = 0" by (auto simp: find_Some_iff)
    let ?k = "n div 64" and ?o = "n mod 64 * 64"
    let ?b = "file_block (view s) dir ?k"
    have k: "?k < ?N" using n(1) by (simp add: less_mult_imp_div_less mult.commute)
    note len = read_dir_block_ok(2) [OF assms(1-3) k] and r = dir_block_range [OF assms(2,3) k]
    have l64: "length (encode_dir_entry ?e) = 64" using e(5) by simp
    have o: "?o + 64 \<le> 4096" using mod_less_divisor [of 64 n] by linarith
    define x where "x = put_at ?o (encode_dir_entry ?e) (view s ?b)"
    have "is_block x" using len o l64 by (simp add: x_def is_block_def)
    with write_ok [where fn = "modE (put_at ?o (encode_dir_entry ?e))" and fresh = False and x = x, OF 1(2) r] 1(3) obtain s2 where
      2: "jwrite J ?b False (modE (put_at ?o (encode_dir_entry ?e))) s1 = (Ret (), s2)" "invar s2" "view s2 = (view s)(?b := x)" by (auto simp: x_def)
    note sw = slot_written [OF assms(2) n(1) l64 len, folded x_def, folded 2(3)]
    have dots: "n \<noteq> 0" "n \<noteq> 1" by (metis is_named_def n(2) D(7)) (metis is_named_def n(2) D(8))
    from dir_slots_split [OF n(1), of "view s"] obtain xs ys where
      sp: "dir_slots (view s) dir = xs @ dir_slot (view s) dir n # ys" "length xs = n" by metis
    have sp': "dir_slots (view s2) dir = xs @ ?e # ys"
      unfolding sw(2) sp(1) using sp(2) decode_encode_exact(3) [OF e(5)] by (simp add: list_update_append)
    have "entry_map (xs @ dir_slot (view s) dir n # ys) (entry_name ?e) = None" using new sp(1) e(2) by (simp add: dir_map_def)
    note ea = entry_map_add [OF D(6) [unfolded sp(1)] n(2) e(1) en this]
    have "dir_ok sb (view s2) a dir" by (rule dir_slot_changed [OF assms(2) sw dots n(1)]) (simp_all add: sp' ea(1))
    moreover have "dir_map (view s2) dir = (dir_map (view s) dir)(nm \<mapsto> (ino, ty))"
      using ea(2) e(2-4) by (simp add: dir_map_def sp(1) sp')
    moreover have "dir_add J nm ino ty (dir, (a, s)) = (Ret (), (dir, (a, s2)))"
      using 1(1) 2(1) Some by (simp add: dir_add_def on_ijournal_run Let_def bindE_def)
    moreover have "view s2 y = view s y"
      if "y \<in> used (a_blocks a)" "y \<notin> range (place_ptr (view s) dir)" "\<not> in_region (data_bitmap_start sb) (total_blocks sb) y" for y
      by (rule wroteD(7) [OF sw(1) that])
    ultimately have ?adds using 2(2) by (intro exI [of _ dir] exI [of _ a] exI [of _ s2]) auto
    then show ?thesis ..
  next
    case None
    have run: "dir_add J nm ino ty (dir, (a, s)) = bindE (bmap_alloc J ?N) (\<lambda>(blk, _).
        thenE (on_ijournal (jwrite J blk True (modE (put_at 0 (encode_dir_entry ?e)))))
        (upd_inode (\<lambda>i. i\<lparr>size_of := size_of i + of_nat BLOCK_SIZE\<rparr>))) (dir, (a, s1))"
      using 1(1) None by (simp add: dir_add_def on_ijournal_run Let_def bindE_def)
    have ok1: "file_ok sb (view s1) a dir" using D(1) 1(3) by simp
    show ?thesis
    proof (cases "?N < MAX_FILE_BLOCKS")
      case False
      then have "bmap_alloc J ?N (dir, (a, s1)) = (Raise (FsError VFS_EFBIG), (dir, (a, s1)))"
        using bmap_alloc_ok [OF 1(2) ok1 assms(3), of ?N] by simp
      then have "dir_add J nm ino ty (dir, (a, s)) = (Raise (FsError VFS_EFBIG), (dir, (a, s1)))" unfolding run by (simp add: bindE_def)
      then have ?fails using 1(2,3) assms(2) D(4) False by (intro exI [of _ VFS_EFBIG] exI [of _ a] exI [of _ s1]) simp
      then show ?thesis ..
    next
      case True
      from bmap_alloc_has [OF 1(2) ok1 assms(3) True] show ?thesis
      proof (elim disjE exE conjE)
        fix a' s' assume n: "bmap_alloc J ?N (dir, (a, s1)) = (Raise (FsError VFS_ENOSPC), (dir, (a', s')))" "invar s'"
          "blocks_changed sb (view s1) a (view s') a' (used (a_blocks a))" "free_count sb a < missing (view s1) dir ?N"
        have "dir_add J nm ino ty (dir, (a, s)) = (Raise (FsError VFS_ENOSPC), (dir, (a', s')))" unfolding run using n(1) by (simp add: bindE_def)
        moreover have "free_count sb a < 3" using n(4) missing_le [of "view s1" dir ?N] by linarith
        moreover have "used (a_blocks a') = used (a_blocks a)" using n(3) by (simp add: blocks_changed_def)
        ultimately have ?fails using n(2) dir_unchanged [OF assms(2) n(3) [unfolded 1(3)]]
          by (intro exI [of _ VFS_ENOSPC] exI [of _ a'] exI [of _ s']) simp
        then show ?thesis ..
      next
        fix b fresh dir1 a1 s2 assume n: "bmap_alloc J ?N (dir, (a, s1)) = (Ret (b, fresh), (dir1, (a1, s2)))" "invar s2"
          "has_block sb (view s1) a dir ?N b fresh (view s2) a1 dir1"
        note h = has_blockD [OF ok1 n(3) True]
        have nz: "file_block (view s2) dir1 ?N \<noteq> 0" using h(2,3) by simp
        have r: "0 < b" "b < limit" using data_block(3) [OF file_okD(3) [OF h(1)] True nz] h(2,3) assms(3) by (simp_all add: word_neq_0_conv)
        define x where "x = put_at 0 (encode_dir_entry ?e) zero_block"
        have "is_block x" using e(5) by (simp add: x_def is_block_def)
        with write_ok [where fn = "modE (put_at 0 (encode_dir_entry ?e))" and fresh = True and x = x, OF n(2) r] obtain s3 where
          3: "jwrite J b True (modE (put_at 0 (encode_dir_entry ?e))) s2 = (Ret (), s3)" "invar s3" "view s3 = (view s2)(b := x)" by (auto simp: x_def)
        let ?d = "dir1\<lparr>size_of := size_of dir1 + 4096\<rparr>"
        have "dir_add J nm ino ty (dir, (a, s)) = (Ret (), (?d, (a1, s3)))"
          unfolding run using n(1) 3(1) by (simp add: bindE_def thenE_def on_ijournal_run upd_inode_run)
        moreover note g = dir_grown [OF assms(2) True n(3) [unfolded 1(3)] e(1) en, folded x_def, folded 3(3), unfolded e(2-4), OF new]
        ultimately have ?adds using 3(2) g(1,2,3) g(4) by (intro exI [of _ ?d] exI [of _ a1] exI [of _ s3]) auto
        then show ?thesis ..
      qed
    qed
  qed
qed

end

section \<open>Listing\<close>

definition item_of :: "dir_entry \<Rightarrow> dir_item" where
  "item_of e = \<lparr>di_name = entry_name e, di_inode = inode_id e, di_type = dtype e\<rparr>"

lemma items_of_entries:
  assumes "\<forall>e \<in> set es. wf_dir_entry e"
  shows "map (\<lambda>e. \<lparr>di_name = take (if unat (name_len e) \<le> MAX_NAME_LEN then unat (name_len e) else MAX_NAME_LEN) (name e),
      di_inode = inode_id e, di_type = dtype e\<rparr>) (filter (\<lambda>e. inode_id e \<noteq> 0) es) = map item_of (live es)"
  using assms by (induction es) (simp_all add: item_of_def entry_name_def wf_dir_entry_def)

lemma dir_items_block:
  assumes "file_block v dir k \<noteq> 0" and "length (v (file_block v dir k)) = 4096"
  shows "dir_items (v (file_block v dir k)) = map item_of (live (map (dir_slot v dir) [64 * k..<64 * Suc k]))"
proof -
  let ?b = "v (file_block v dir k)"
  have "wf_dir_entry (slot ?b i)" if "i < 64" for i
    unfolding slot_def using that assms(2) by (intro wf_decode_dir_entry) simp
  then have "dir_items ?b = map item_of (live (map (slot ?b) [0..<64]))"
    unfolding dir_items_def by (subst items_of_entries) auto
  also have "map (slot ?b) [0..<64] = map (dir_slot v dir) [64 * k..<64 * Suc k]"
    unfolding upt_block using slot_dir_slot [OF assms] by simp
  finally show ?thesis .
qed

lemma slots_from:
  assumes "k < N"
  shows "map f [64 * k..<64 * N] = map f [64 * k..<64 * Suc k] @ map f [64 * Suc k..<64 * N]"
proof -
  have "64 * k \<le> 64 * Suc k" "64 * Suc k \<le> 64 * N" using assms by simp_all
  then have "[64 * k..<64 * N] = [64 * k..<64 * Suc k] @ [64 * Suc k..<64 * N]" by (metis le_Suc_ex upt_add_eq_append)
  then show ?thesis by (metis map_append)
qed

lemma pair_union: "x \<notin> S \<Longrightarrow> y \<notin> S \<Longrightarrow> D = {x, y} \<union> S \<Longrightarrow> D = {x, y} \<longleftrightarrow> S = {}"
  by auto

text \<open>The entries but the first two; the directory is empty when none is in use.\<close>

lemma dir_slots_dots:
  assumes "dir_ok sb v a dir"
  shows "dom (dir_map v dir) = {str_bytes ''.'', str_bytes ''..''} \<longleftrightarrow> live (map (dir_slot v dir) [2..<64 * block_count_of dir]) = []"
proof -
  note D = dir_okD [OF assms]
  let ?rest = "map (dir_slot v dir) [2..<64 * block_count_of dir]"
  have "[0..<64 * block_count_of dir] = 0 # 1 # [2..<64 * block_count_of dir]" using D(3) by (simp add: upt_conv_Cons numeral_2_eq_2)
  then have ds: "dir_slots v dir = dir_slot v dir 0 # dir_slot v dir 1 # ?rest" by (simp add: dir_slots_def)
  have n: "inode_id (dir_slot v dir 0) \<noteq> 0" "inode_id (dir_slot v dir 1) \<noteq> 0" using D(7,8) by (simp_all add: is_named_def)
  have "good_name (dir_slot v dir 0)" "good_name (dir_slot v dir 1)" using D(6) n unfolding ds by (simp_all add: names_ok_def)
  then have e: "entry_name (dir_slot v dir 0) = str_bytes ''.''" "entry_name (dir_slot v dir 1) = str_bytes ''..''"
    using is_named_entry D(7,8) by blast+
  have dom: "dom (dir_map v dir) = entry_name ` set (live (dir_slots v dir))" unfolding dir_map_def by (rule dom_entry_map)
  have split: "live (dir_slots v dir) = dir_slot v dir 0 # dir_slot v dir 1 # live ?rest" unfolding ds live_simps using n by simp
  have other: "str_bytes ''.'' \<notin> entry_name ` set (live ?rest)" "str_bytes ''..'' \<notin> entry_name ` set (live ?rest)"
    using D(6) unfolding names_ok_def split list.map e by simp_all
  have "dom (dir_map v dir) = {str_bytes ''.'', str_bytes ''..''} \<union> entry_name ` set (live ?rest)"
    unfolding dom split list.set image_insert e by simp
  from pair_union [OF other this] show ?thesis by simp
qed

context journal_store
begin

lemma dir_list_from:
  assumes "invar s" and "dir_ok sb (view s) a dir" and "total_blocks sb = limit" and "k \<le> block_count_of dir"
  shows "\<exists>s'. foldE [k..<block_count_of dir] (\<lambda>items k. bindE (read_dir_block J dir k) (\<lambda>(_, b). retE (items @ dir_items b))) items s =
      (Ret (items @ map item_of (live (map (dir_slot (view s) dir) [64 * k..<64 * block_count_of dir]))), s') \<and> invar s' \<and> view s' = view s"
  using assms(1,2,4)
proof (induction "block_count_of dir - k" arbitrary: k s items)
  case 0
  then show ?case by simp
next
  case (Suc m)
  let ?N = "block_count_of dir" and ?b = "file_block (view s) dir k"
  have k: "k < ?N" using Suc.hyps(2) by linarith
  note r = read_dir_block_ok [OF Suc.prems(1,2) assms(3) k]
  from r(1) obtain s1 where 1: "read_dir_block J dir k s = (Ret (?b, view s ?b), s1)" "invar s1" "view s1 = view s" by blast
  note it = dir_items_block [OF dir_okD(5) [OF Suc.prems(2) k] r(2)]
  have "m = ?N - Suc k" "Suc k \<le> ?N" using Suc.hyps(2) by linarith+
  with Suc.hyps(1) [of "Suc k" s1 "items @ dir_items (view s ?b)"] 1(2,3) Suc.prems(2) obtain s2 where
    "foldE [Suc k..<?N] (\<lambda>items k. bindE (read_dir_block J dir k) (\<lambda>(_, b). retE (items @ dir_items b))) (items @ dir_items (view s ?b)) s1 =
      (Ret ((items @ dir_items (view s ?b)) @ map item_of (live (map (dir_slot (view s) dir) [64 * Suc k..<64 * ?N]))), s2)" "invar s2" "view s2 = view s" by auto
  with 1(1) show ?case unfolding upt_conv_Cons [OF k] slots_from [OF k] by (simp add: it)
qed

lemma dir_list_ok:
  assumes "invar s" and "dir_ok sb (view s) a dir" and "total_blocks sb = limit"
  shows "\<exists>s'. dir_list J dir s = (Ret (map item_of (live (dir_slots (view s) dir))), s') \<and> invar s' \<and> view s' = view s"
  using dir_list_from [OF assms, of 0 "[]"] by (simp add: dir_list_def dir_slots_def)

lemma dir_empty_from_ok:
  assumes "invar s" and "dir_ok sb (view s) a dir" and "total_blocks sb = limit" and "k \<le> block_count_of dir"
  shows "\<exists>s'. dir_empty_from J dir [k..<block_count_of dir] s =
      (Ret (live (map (dir_slot (view s) dir) [64 * k + (if k = 0 then 2 else 0)..<64 * block_count_of dir]) = []), s') \<and> invar s' \<and> view s' = view s"
  using assms(1,2,4)
proof (induction "block_count_of dir - k" arbitrary: k s)
  case 0
  then show ?case by simp
next
  case (Suc m)
  let ?N = "block_count_of dir" and ?b = "file_block (view s) dir k" and ?o = "if k = 0 then 2 else 0 :: nat"
  have k: "k < ?N" using Suc.hyps(2) by linarith
  note r = read_dir_block_ok [OF Suc.prems(1,2) assms(3) k]
  from r(1) obtain s1 where 1: "read_dir_block J dir k s = (Ret (?b, view s ?b), s1)" "invar s1" "view s1 = view s" by blast
  have o: "?o \<le> 64" by simp
  have "[64 * k + ?o..<64 * Suc k] = map (\<lambda>i. 64 * k + i) [?o..<64]" by (rule nth_equalityI) simp_all
  then have blk: "find_slot (\<lambda>e. inode_id e \<noteq> 0) ?o (view s ?b) = None \<longleftrightarrow> live (map (dir_slot (view s) dir) [64 * k + ?o..<64 * Suc k]) = []"
    using slot_dir_slot [OF dir_okD(5) [OF Suc.prems(2) k] r(2)]
    by (auto simp: find_slot_def find_None_iff live_def filter_empty_conv)
  have "64 * k + ?o \<le> 64 * Suc k" "64 * Suc k \<le> 64 * ?N" using k by simp_all
  then have sp: "[64 * k + ?o..<64 * ?N] = [64 * k + ?o..<64 * Suc k] @ [64 * Suc k..<64 * ?N]" by (metis le_Suc_ex upt_add_eq_append)
  have "m = ?N - Suc k" "Suc k \<le> ?N" using Suc.hyps(2) by linarith+
  with Suc.hyps(1) [of "Suc k" s1] 1(2,3) Suc.prems(2) obtain s2 where
    2: "dir_empty_from J dir [Suc k..<?N] s1 = (Ret (live (map (dir_slot (view s) dir) [64 * Suc k..<64 * ?N]) = []), s2)" "invar s2" "view s2 = view s" by auto
  show ?case
  proof (cases "find_slot (\<lambda>e. inode_id e \<noteq> 0) ?o (view s ?b) = None")
    case True
    with 1(1) 2 blk show ?thesis unfolding upt_conv_Cons [OF k] sp by simp
  next
    case False
    with 1 blk show ?thesis unfolding upt_conv_Cons [OF k] sp by simp
  qed
qed

lemma dir_is_empty_ok:
  assumes "invar s" and "dir_ok sb (view s) a dir" and "total_blocks sb = limit"
  shows "\<exists>s'. dir_is_empty J dir s = (Ret (dom (dir_map (view s) dir) = {str_bytes ''.'', str_bytes ''..''}), s') \<and> invar s' \<and> view s' = view s"
  using dir_empty_from_ok [OF assms, of 0] unfolding dir_slots_dots [OF assms(2)] by (simp add: dir_is_empty_def numeral_2_eq_2)

end

section \<open>A new directory\<close>

lemma init_block:
  assumes "wf_dir_entry d" and "wf_dir_entry e"
  shows "put_at 64 (encode_dir_entry e) (put_at 0 (encode_dir_entry d) zero_block) = encode_dir_entry d @ encode_dir_entry e @ replicate 3968 0"
    and "m < 64 \<Longrightarrow> decode_dir_entry (get_at (64 * m) 64 (encode_dir_entry d @ encode_dir_entry e @ replicate 3968 0)) =
      (if m = 0 then d else if m = 1 then e else zero_dir_entry)"
proof -
  have l: "length (encode_dir_entry d) = 64" "length (encode_dir_entry e) = 64" using assms by simp_all
  show "put_at 64 (encode_dir_entry e) (put_at 0 (encode_dir_entry d) zero_block) = encode_dir_entry d @ encode_dir_entry e @ replicate 3968 0"
    using l by (simp add: put_at_def zero_block_def)
  show "decode_dir_entry (get_at (64 * m) 64 (encode_dir_entry d @ encode_dir_entry e @ replicate 3968 0)) =
      (if m = 0 then d else if m = 1 then e else zero_dir_entry)" if "m < 64"
  proof -
    consider "m = 0" | "m = 1" | "2 \<le> m" by linarith
    then show ?thesis
    proof cases
      case 3
      then have "64 * m - 64 - 64 = 64 * (m - 2)" "64 \<le> 3968 - 64 * (m - 2)" "64 \<le> 64 * m" "64 \<le> 64 * m - 64" using that by linarith+
      then show ?thesis using 3 l by (simp add: get_at_append_right) (simp add: get_at_def)
    qed (use l assms in \<open>simp_all add: get_at_append_left get_at_append_right decode_encode_exact(3)\<close>)
  qed
qed

context journal_store
begin

lemma dir_init_ok:
  assumes "invar s" and "file_ok sb (view s) a dir" and "total_blocks sb = limit" and blk: "file_block (view s) dir 0 = blk" "blk \<noteq> 0"
    and sz: "size_of dir = 4096" and nz: "self \<noteq> 0" "parent \<noteq> 0"
  shows "\<exists>s'. dir_init J blk self parent s = (Ret (), s') \<and> invar s' \<and> dir_ok sb (view s') a dir \<and>
    dir_map (view s') dir = [str_bytes ''.'' \<mapsto> (self, FT_DIR), str_bytes ''..'' \<mapsto> (parent, FT_DIR)] \<and> view s' = (view s)(blk := view s' blk)"
proof -
  note f = file_okD [OF assms(2)]
  let ?d = "make_entry (str_bytes ''.'') self FT_DIR" and ?e = "make_entry (str_bytes ''..'') parent FT_DIR"
  have ln: "length (str_bytes ''.'') \<le> 58" "length (str_bytes ''..'') \<le> 58" by (simp_all add: str_bytes_def)
  have ne: "str_bytes ''.'' \<noteq> str_bytes ''..''" by (simp add: str_bytes_def)
  note d = make_entry_ok [OF ln(1), of self FT_DIR] and e = make_entry_ok [OF ln(2), of parent FT_DIR]
  define x where "x = encode_dir_entry ?d @ encode_dir_entry ?e @ replicate 3968 0"
  note ib = init_block [OF d(5) e(5), folded x_def]
  have lx: "length x = 4096" using d(5) e(5) by (simp add: x_def)
  have N: "block_count_of dir = 1" using sz by (simp add: block_count_of_def)
  have r: "0 < blk" "blk < limit" using data_block(3) [OF f(3), of 0] blk assms(3) by (auto simp: word_neq_0_conv)
  let ?fn = "\<lambda>b. put_at DIRENT_SIZE (encode_dir_entry ?e) (put_at 0 (encode_dir_entry ?d) b)"
  have "is_block x" using lx by (simp add: is_block_def)
  with write_ok [where fn = "modE ?fn" and fresh = True and x = x, OF assms(1) r] ib(1) obtain s' where
    w: "jwrite J blk True (modE ?fn) s = (Ret (), s')" "invar s'" "view s' = (view s)(blk := x)" by auto
  have run: "dir_init J blk self parent s = (Ret (), s')" using w(1) by (simp add: dir_init_def Let_def)
  have h: "has_block sb (view s) a dir 0 blk False (view s) a dir" using blk by (simp add: has_block_def)
  have lim: "0 < MAX_FILE_BYTES" by (simp add: max_file_bytes)
  from wrote_block [OF assms(2) h _ lim, of 0 4096 x zero_block True] lx
  have wr: "wrote sb x (64 * 0) (64 * 0) (64 * 0 + 64 * 64) (view s) a dir (view s') a dir" unfolding w(3) by (simp add: put_at_def zero_block_def)
  have sl: "dir_slot (view s') dir m = (if m = 0 then ?d else if m = 1 then ?e else zero_dir_entry)" if "m < 64" for m
    using dir_slot_wrote [OF wr, of m] lx that ib(2) [OF that] by simp
  have ds: "dir_slots (view s') dir = ?d # ?e # replicate 62 zero_dir_entry"
    by (rule nth_equalityI) (use N sl in \<open>auto simp: nth_Cons'\<close>)
  have z: "inode_id zero_dir_entry = 0" by (simp add: zero_dir_entry_def)
  have lv: "live (dir_slots (view s') dir) = [?d, ?e]" unfolding ds using z d(3) e(3) nz by simp
  have "names_ok (dir_slots (view s') dir)" unfolding names_ok_def lv using d(1,2) e(1,2) ne by simp
  moreover have "file_block (view s') dir 0 \<noteq> 0"
    unfolding w(3) using file_block_place [OF place_ptr_data [OF f(3), of 0], of 0] blk by auto
  moreover have "is_named ?d (str_bytes ''.'')" "is_named ?e (str_bytes ''..'')" 
    unfolding is_named_entry [OF d(1)] is_named_entry [OF e(1)] using d(2,3) e(2,3) nz by simp_all
  ultimately have "dir_ok sb (view s') a dir"
    unfolding dir_ok_def N using wroteD(1) [OF wr] sz sl [of 0] sl [of 1] by (simp add: unat_word_ariths)
  moreover have "dir_map (view s') dir = [str_bytes ''.'' \<mapsto> (self, FT_DIR), str_bytes ''..'' \<mapsto> (parent, FT_DIR)]"
    unfolding dir_map_def entry_map_def lv using d(2-4) e(2-4) ne by (simp add: fun_upd_twist)
  ultimately show ?thesis using run w(2,3) by auto
qed

end

end
