(* ===== verification/Free_File.thy ===== *)
theory Free_File
  imports File_Data
begin

text \<open>
  Giving back the blocks of a file: \<^verbatim>\<open>free_all_blocks\<close> of \<^verbatim>\<open>src/src/block_map.cpp\<close> gathers every block and
  indirect block of a file, each once, and frees them together. Files that share no block with it
  are left as they are.
\<close>

section \<open>All places\<close>

text \<open>The places of the pointers in the order in which \<^verbatim>\<open>free_all_blocks\<close> visits them.\<close>

definition second_places :: "nat \<Rightarrow> place list" where
  "second_places i = map (\<lambda>j. Data (1036 + i * 1024 + j)) [0..<1024] @ [Second i]"

definition all_places :: "place list" where
  "all_places = map Data [0..<12] @ map (\<lambda>j. Data (12 + j)) [0..<1024] @ [Single] @
     concat (map second_places [0..<1024]) @ [Double]"

lemma set_second_places: "set (second_places i) = (\<lambda>j. Data (1036 + i * 1024 + j)) ` {0..<1024} \<union> {Second i}"
  by (simp add: second_places_def)

lemma distinct_second_places: "distinct (second_places i)"
  by (auto simp: second_places_def distinct_map inj_on_def)

lemma second_places_disjoint:
  assumes "i \<noteq> k"
  shows "set (second_places i) \<inter> set (second_places k) = {}"
proof -
  have "1036 + i * 1024 + j \<noteq> 1036 + k * 1024 + l" if "j < 1024" "l < 1024" for j l
  proof -
    have "(i * 1024 + j) div 1024 = i" "(k * 1024 + l) div 1024 = k" using that by simp_all
    with assms have "i * 1024 + j \<noteq> k * 1024 + l" by metis
    then show ?thesis by linarith
  qed
  then show ?thesis using assms by (auto simp: set_second_places)
qed

lemma distinct_all_places: "distinct all_places"
proof -
  have "distinct (concat (map second_places [0..<n]))" for n
  proof (induction n)
    case (Suc n)
    have "set (second_places a) \<inter> set (second_places n) = {}" if "a < n" for a using second_places_disjoint that by simp
    then have "set (concat (map second_places [0..<n])) \<inter> set (second_places n) = {}" by (auto simp: disjoint_iff)
    with Suc show ?case by (simp add: distinct_second_places Int_commute)
  qed simp
  then show ?thesis by (auto simp: all_places_def distinct_map inj_on_def set_second_places)
qed

lemma all_places_cover:
  assumes "place_ptr v ino p \<noteq> 0"
  shows "p \<in> set all_places"
proof (cases p)
  case (Data k)
  then have k: "k < MAX_FILE_BLOCKS" using assms by (auto simp: place_ptr_def split: if_splits)
  consider "k < 12" | "12 \<le> k" "k < 1036" | "1036 \<le> k" by linarith
  then show ?thesis
  proof cases
    case 1
    then show ?thesis using Data by (auto simp: all_places_def)
  next
    case 2
    then have "k = 12 + (k - 12)" "k - 12 < 1024" by simp_all
    then have "p \<in> set (map (\<lambda>j. Data (12 + j)) [0..<1024])" unfolding Data by (metis (no_types, lifting) atLeastLessThan_iff image_eqI le0 list.set_map set_upt)
    then show ?thesis by (simp only: all_places_def set_append Un_iff simp_thms)
  next
    case 3
    note r = file_block_range [OF 3 k]
    have "p \<in> set (second_places ((k - 1036) div 1024))"
      unfolding Data set_second_places by (rule UnI1, rule image_eqI [of _ _ "(k - 1036) mod 1024"]) (use r in auto)
    then have "p \<in> set (concat (map second_places [0..<1024]))" using r(1) by auto
    then show ?thesis by (simp only: all_places_def set_append Un_iff simp_thms)
  qed
next
  case (Second i)
  then have i: "i < 1024" using assms by (auto simp: place_ptr_def split: if_splits)
  have "p \<in> set (second_places i)" unfolding Second set_second_places by blast
  then have "p \<in> set (concat (map second_places [0..<1024]))" using i by auto
  then show ?thesis by (simp only: all_places_def set_append Un_iff simp_thms)
qed (simp_all add: all_places_def)

text \<open>The blocks at a list of places.\<close>

definition blocks_at :: "(place \<Rightarrow> u32) \<Rightarrow> place list \<Rightarrow> u32 list" where
  "blocks_at f ps = filter (\<lambda>b. b \<noteq> 0) (map f ps)"

lemma blocks_at_simps [simp]:
  "blocks_at f [] = []" "blocks_at f (p # ps) = (if f p = 0 then blocks_at f ps else f p # blocks_at f ps)"
  "blocks_at f (ps @ qs) = blocks_at f ps @ blocks_at f qs"
  by (simp_all add: blocks_at_def)

lemma set_blocks_at: "set (blocks_at f ps) = f ` set ps - {0}"
  by (auto simp: blocks_at_def)

lemma distinct_blocks_at:
  assumes "owns sb U f" and "distinct ps"
  shows "distinct (blocks_at f ps)"
  using assms(2)
proof (induction ps)
  case (Cons p ps)
  have "f p \<notin> f ` set ps" if "f p \<noteq> 0" using ownsD(4) [OF assms(1) that] Cons.prems by (metis distinct.simps(2) imageE)
  then show ?case using Cons by (auto simp: set_blocks_at)
qed simp

lemma blocks_at_all: "set (blocks_at (place_ptr v ino) all_places) = range (place_ptr v ino) - {0}"
  unfolding set_blocks_at using all_places_cover by blast

section \<open>Gathering\<close>

lemma blocks_at_map: "blocks_at f (map g xs) = filter (\<lambda>b. b \<noteq> 0) (map (\<lambda>x. f (g x)) xs)"
  by (simp add: blocks_at_def comp_def)

lemma blocks_at_empty: "(\<And>p. p \<in> set ps \<Longrightarrow> f p = 0) \<Longrightarrow> blocks_at f ps = []"
  by (auto simp: blocks_at_def)

text \<open>What one indirect block adds.\<close>

lemma direct_places:
  assumes "length (direct ino) = 12"
  shows "blocks_at (place_ptr v ino) (map Data [0..<12]) = filter (\<lambda>p. p \<noteq> 0) (direct ino)"
proof -
  have "map (\<lambda>k. place_ptr v ino (Data k)) [0..<12] = direct ino"
    using assms by (intro nth_equalityI) (simp_all add: place_ptr_def file_block_def)
  then show ?thesis unfolding blocks_at_map by simp
qed

lemma single_places:
  "blocks_at (place_ptr v ino) (map (\<lambda>j. Data (12 + j)) [0..<1024] @ [Single]) =
     (if single_indirect ino = 0 then [] else filter (\<lambda>p. p \<noteq> 0) (rd32s 0 1024 (v (single_indirect ino))) @ [single_indirect ino])"
proof (cases "single_indirect ino = 0")
  case True
  then have "place_ptr v ino p = 0" if "p \<in> set (map (\<lambda>j. Data (12 + j)) [0..<1024] @ [Single])" for p
    using that by (auto simp: place_ptr_def file_block_def)
  with True show ?thesis by (simp only: refl if_True blocks_at_empty)
next
  case False
  have "map (\<lambda>j. place_ptr v ino (Data (12 + j))) [0..<1024] = rd32s 0 1024 (v (single_indirect ino))"
    by (rule nth_equalityI) (use False in \<open>simp_all add: place_ptr_def file_block_def ptr_at_def mult.commute\<close>)
  then show ?thesis using False unfolding blocks_at_simps(3) blocks_at_map by (simp add: place_ptr_def)
qed

lemma second_places_blocks:
  assumes "i < 1024"
  shows "blocks_at (place_ptr v ino) (second_places i) =
     (if second_at v ino i = 0 then [] else filter (\<lambda>p. p \<noteq> 0) (rd32s 0 1024 (v (second_at v ino i))) @ [second_at v ino i])"
proof (cases "second_at v ino i = 0")
  case True
  have "place_ptr v ino (Data (1036 + i * 1024 + j)) = 0" if "j < 1024" for j
    using that True double_index [OF assms that] by (simp add: place_ptr_def file_block_def)
  then have "place_ptr v ino p = 0" if "p \<in> set (second_places i)" for p
    using that True assms by (auto simp: set_second_places) (simp add: place_ptr_def)
  with True show ?thesis by (simp only: refl if_True blocks_at_empty)
next
  case False
  have "map (\<lambda>j. place_ptr v ino (Data (1036 + i * 1024 + j))) [0..<1024] = rd32s 0 1024 (v (second_at v ino i))"
  proof (rule nth_equalityI)
    fix j assume "j < length (map (\<lambda>j. place_ptr v ino (Data (1036 + i * 1024 + j))) [0..<1024])"
    then have j: "j < 1024" by simp
    with False double_index [OF assms j] show "map (\<lambda>j. place_ptr v ino (Data (1036 + i * 1024 + j))) [0..<1024] ! j = rd32s 0 1024 (v (second_at v ino i)) ! j"
      by (simp add: place_ptr_def file_block_def ptr_at_def mult.commute)
  qed simp
  then show ?thesis using False assms unfolding second_places_def blocks_at_simps(3) blocks_at_map by (simp add: place_ptr_def)
qed

lemma seconds_of_double:
  assumes "double_indirect ino \<noteq> 0"
  shows "map (second_at v ino) [0..<1024] = rd32s 0 1024 (v (double_indirect ino))"
  by (rule nth_equalityI) (use assms in \<open>simp_all add: second_at_def ptr_at_def mult.commute\<close>)

text \<open>All of them, in the order of the source.\<close>

lemma blocks_at_seconds:
  assumes "\<And>i. i \<in> set iss \<Longrightarrow> i < 1024"
  shows "blocks_at (place_ptr v ino) (concat (map second_places iss)) =
     concat (map (\<lambda>second. filter (\<lambda>p. p \<noteq> 0) (rd32s 0 1024 (v second)) @ [second]) (filter (\<lambda>p. p \<noteq> 0) (map (second_at v ino) iss)))"
  using assms by (induction iss) (simp_all add: second_places_blocks)

context journal_store
begin

lemma collect_ok:
  assumes "invar s" and "0 < b" and "b < limit"
  shows "\<exists>s'. collect J b s = (Ret (filter (\<lambda>p. p \<noteq> 0) (rd32s 0 1024 (view s b))), s') \<and> invar s' \<and> view s' = view s"
  using read_ok [OF assms] by (auto simp: collect_def)

lemma collect_seconds:
  assumes "invar s" and "\<And>b. b \<in> set seconds \<Longrightarrow> 0 < b \<and> b < limit"
  shows "\<exists>s'. foldE seconds (\<lambda>owned second. bindE (collect J second) (\<lambda>ps. retE (owned @ ps @ [second]))) owned s =
      (Ret (owned @ concat (map (\<lambda>second. filter (\<lambda>p. p \<noteq> 0) (rd32s 0 1024 (view s second)) @ [second]) seconds)), s') \<and> invar s' \<and> view s' = view s"
  using assms
proof (induction seconds arbitrary: s owned)
  case (Cons b bs)
  from collect_ok [OF Cons.prems(1), of b] Cons.prems(2) obtain s1 where
    1: "collect J b s = (Ret (filter (\<lambda>p. p \<noteq> 0) (rd32s 0 1024 (view s b))), s1)" "invar s1" "view s1 = view s" by auto
  from Cons.IH [OF 1(2), of "owned @ filter (\<lambda>p. p \<noteq> 0) (rd32s 0 1024 (view s b)) @ [b]"] Cons.prems(2) 1 show ?case by auto
qed simp

lemma owned_blocks_ok:
  assumes "invar s" and "file_ok sb (view s) a ino" and "total_blocks sb = limit"
  shows "\<exists>s'. owned_blocks J ino s = (Ret (blocks_at (place_ptr (view s) ino) all_places), s') \<and> invar s' \<and> view s' = view s"
proof -
  note f = file_okD [OF assms(2)]
  let ?f = "place_ptr (view s) ino" and ?si = "single_indirect ino" and ?di = "double_indirect ino"
  have r: "0 < ?f p \<and> ?f p < limit" if "?f p \<noteq> 0" for p using place_range [OF f(3) assms(3) that] by blast
  let ?d = "filter (\<lambda>p. p \<noteq> 0) (direct ino)"
  let ?s1 = "blocks_at ?f (map (\<lambda>j. Data (12 + j)) [0..<1024] @ [Single])"
  have "\<exists>s1. (if ?si \<noteq> 0 then bindE (collect J ?si) (\<lambda>ps. retE (?d @ ps @ [?si])) else retE ?d) s = (Ret (?d @ ?s1), s1) \<and>
      invar s1 \<and> view s1 = view s"
  proof (cases "?si = 0")
    case True
    then show ?thesis using assms(1) unfolding single_places by simp
  next
    case False
    with r [of Single] collect_ok [OF assms(1), of ?si] show ?thesis unfolding single_places by (auto simp: place_ptr_def)
  qed
  then obtain s1 part where part: "part = ?d @ ?s1" and 1: "(if ?si \<noteq> 0 then bindE (collect J ?si) (\<lambda>ps. retE (?d @ ps @ [?si])) else retE ?d) s = (Ret part, s1)"
    "invar s1" "view s1 = view s" by simp metis
  let ?s2 = "blocks_at ?f (concat (map second_places [0..<1024]) @ [Double])"
  have all: "blocks_at ?f all_places = part @ ?s2"
    unfolding all_places_def by (simp only: blocks_at_simps(3) append_assoc direct_places [OF f(4)] part)
  have "\<exists>s2. (if ?di \<noteq> 0 then bindE (collect J ?di) (\<lambda>seconds.
          bindE (foldE seconds (\<lambda>owned second. bindE (collect J second) (\<lambda>ps. retE (owned @ ps @ [second]))) part) (\<lambda>owned. retE (owned @ [?di])))
        else retE part) s1 = (Ret (part @ ?s2), s2) \<and> invar s2 \<and> view s2 = view s"
  proof (cases "?di = 0")
    case True
    then have "?s2 = []" by (intro blocks_at_empty) (auto simp: place_ptr_def set_second_places second_at_def file_block_def)
    then show ?thesis using True 1(2,3) by simp
  next
    case False
    let ?seconds = "filter (\<lambda>p. p \<noteq> 0) (rd32s 0 1024 (view s ?di))"
    from r [of Double] collect_ok [OF 1(2), of ?di] False 1(3) obtain s2 where
      2: "collect J ?di s1 = (Ret ?seconds, s2)" "invar s2" "view s2 = view s" by (auto simp: place_ptr_def)
    have sec: "?seconds = filter (\<lambda>p. p \<noteq> 0) (map (second_at (view s) ino) [0..<1024])" using seconds_of_double [OF False] by simp
    have sr: "0 < b \<and> b < limit" if "b \<in> set ?seconds" for b
    proof -
      from that obtain i where "i < 1024" "b = ?f (Second i)" "b \<noteq> 0" unfolding sec by (auto simp: place_ptr_def)
      with r [of "Second i"] show ?thesis by simp
    qed
    from collect_seconds [OF 2(2) sr, of ?seconds part] 2(3) obtain s3 where
      3: "foldE ?seconds (\<lambda>owned second. bindE (collect J second) (\<lambda>ps. retE (owned @ ps @ [second]))) part s2 =
        (Ret (part @ concat (map (\<lambda>second. filter (\<lambda>p. p \<noteq> 0) (rd32s 0 1024 (view s second)) @ [second]) ?seconds)), s3)" "invar s3" "view s3 = view s"
      by (auto simp del: append_assoc)
    have "?s2 = concat (map (\<lambda>second. filter (\<lambda>p. p \<noteq> 0) (rd32s 0 1024 (view s second)) @ [second]) ?seconds) @ [?di]"
      unfolding blocks_at_simps(3) sec using blocks_at_seconds [of "[0..<1024]" "view s" ino] False by (simp add: place_ptr_def)
    with 2(1) 3 False show ?thesis by simp
  qed
  then show ?thesis unfolding owned_blocks_def all Let_def using 1(1) by (auto simp: bindE_def)
qed

lemma free_all_blocks_ok:
  assumes "invar s" and "file_ok sb (view s) a ino" and "total_blocks sb = limit"
  shows "\<exists>a' s'. free_all_blocks J (ino, (a, s)) =
      (Ret (), (ino\<lparr>direct := replicate 12 0, single_indirect := 0, double_indirect := 0, block_count := 0\<rparr>, (a', s'))) \<and> invar s' \<and>
    blocks_changed sb (view s) a (view s') a' (used (a_blocks a) - (range (place_ptr (view s) ino) - {0}))"
proof -
  note f = file_okD [OF assms(2)]
  let ?f = "place_ptr (view s) ino"
  let ?owned = "blocks_at ?f all_places"
  from owned_blocks_ok [OF assms] obtain s1 where 1: "owned_blocks J ino s = (Ret ?owned, s1)" "invar s1" "view s1 = view s" by blast
  have ok: "distinct ?owned \<and> (\<forall>x \<in> set ?owned. data_start sb \<le> x \<and> x < limit \<and> x \<in> used (a_blocks a))"
  proof
    show "distinct ?owned" by (rule distinct_blocks_at [OF f(3) distinct_all_places])
    show "\<forall>x \<in> set ?owned. data_start sb \<le> x \<and> x < limit \<and> x \<in> used (a_blocks a)"
      using ownsD(1-3) [OF f(3)] assms(3) by (auto simp: set_blocks_at)
  qed
  have al: "alloc_ok sb (view s1) a" using f(2) 1(3) by simp
  from free_blocks_ok [OF 1(2) f(1) assms(3) al, of ?owned] ok 1(3) obtain a' s' where
    2: "free_blocks J ?owned (a, s1) = (Ret (), (a', s'))" "invar s'" "blocks_changed sb (view s) a (view s') a' (used (a_blocks a) - set ?owned)" by auto
  then show ?thesis using 1(1) unfolding blocks_at_all
    by (simp add: free_all_blocks_def on_ijournal_run on_alloc_run upd_inode_run bindE_def thenE_def)
qed

end

section \<open>Other files\<close>

lemma other_file_kept:
  assumes ok: "file_ok sb v a other" and bc: "blocks_changed sb v a v' a' U"
    and keep: "\<And>p. place_ptr v other p \<noteq> 0 \<Longrightarrow> place_ptr v other p \<in> U"
  shows "file_ok sb v' a' other" "n < MAX_FILE_BYTES \<Longrightarrow> file_byte v' other n = file_byte v other n"
proof -
  note f = file_okD [OF ok]
  have c: "alloc_ok sb v' a'" "used (a_blocks a') = U" "region_only (data_bitmap_start sb) (total_blocks sb) v v'"
    using bc by (simp_all add: blocks_changed_def)
  note p = place_ptr_alloc [OF f(1,3) c(3)]
  have "owns sb U (place_ptr v other)" using f(3) keep by (auto simp: owns_def)
  then show "file_ok sb v' a' other" using f(1,4) c(1,2) p by (simp add: file_ok_def)
  show "file_byte v' other n = file_byte v other n" if n: "n < MAX_FILE_BYTES"
  proof -
    note m = in_file [OF n]
    have fb: "file_block v' other (n div 4096) = file_block v other (n div 4096)" by (rule file_block_place [OF p m])
    have "v' (file_block v other (n div 4096)) = v (file_block v other (n div 4096))" if "file_block v other (n div 4096) \<noteq> 0"
      by (rule data_unchanged [OF f(1) c(3) data_block(2) [OF f(3) m that]])
    then show ?thesis using fb by (simp add: file_byte_def Let_def)
  qed
qed

text \<open>An inode without blocks is a file.\<close>

lemma no_places:
  assumes "direct ino = replicate 12 0" and "single_indirect ino = 0" and "double_indirect ino = 0"
  shows "place_ptr v ino p = 0"
  using assms by (simp add: place_ptr_def file_block_def second_at_def split: place.split)

lemma empty_file:
  assumes "direct ino = replicate 12 0" and "single_indirect ino = 0" and "double_indirect ino = 0"
    and "wf_super sb" and "alloc_ok sb v a"
  shows "file_ok sb v a ino"
  using assms no_places [OF assms(1-3)] by (simp add: file_ok_def owns_def)

end
