(* ===== verification/Engine_Files.thy ===== *)
theory Engine_Files
  imports Mount Dir_Map Free_File
begin

text \<open>
  The inode table, the allocator, the block map and the bytes of files on the storage engine. What
  their theories prove against the contract \<^verbatim>\<open>journal_store\<close> holds of the running engine, which
  satisfies it.
\<close>

abbreviation jr :: "pread_dev \<Rightarrow> bool \<Rightarrow> engine journal" where
  "jr d sy \<equiv> engine_journal (disk_of d sy)"

interpretation engine: journal_store "jr d sy" "engine_inv d" "engine_view d" "pd_count d" for d sy
  by (rule engine_store)

text \<open>A disk like the one of the demo, whose block bitmap has the first eight blocks in use.\<close>

lemma demo_super_wf: "wf_super demo_super" "total_blocks demo_super = pd_count demo_disk"
  by (simp_all add: wf_super_def demo_super_def demo_disk_def blocks_for_unat MAGIC_def ROOT_INODE_def word_less_nat_alt)

lemma demo_inv: "engine_inv demo_disk demo_engine"
  using demo_engine_facts(4) logged_engine [OF demo_engine_facts(1)] by (auto simp: engine_inv_def)

definition first_eight :: block where
  "first_eight = 255 # replicate 4095 0"

lemma first_eight_bit: "i < 32768 \<Longrightarrow> block_bit first_eight i \<longleftrightarrow> i < 8"
proof -
  assume i: "i < 32768"
  have "bit (255 :: byte) n \<longleftrightarrow> n < 8" for n
  proof -
    have m: "(255 :: byte) = mask 8" by (simp add: mask_eq_exp_minus_1)
    show ?thesis unfolding m by (simp add: bit_mask_iff)
  qed
  then show ?thesis using i
    by (cases "i div 8") (auto simp: block_bit_def first_eight_def nth_Cons' dest: div_eq_dividend_iff)
qed

lemma demo_alloc:
  "\<exists>s a. engine_inv demo_disk s \<and> alloc_ok demo_super (engine_view demo_disk s) a \<and> used (a_blocks a) = {b. b < 8} \<and>
     0 \<in> used (a_inodes a) \<and> 1 \<notin> used (a_inodes a)"
proof -
  have two: "(0 :: u32) < 2" "2 < pd_count demo_disk" by (simp_all add: demo_disk_def)
  have blk: "is_block ((\<lambda>_. first_eight) zero_block)" by (simp add: is_block_def first_eight_def)
  from engine.fill_ok [where f = "\<lambda>_. first_eight", OF demo_inv two blk, of True] obtain s where
    s: "engine_inv demo_disk s" "engine_view demo_disk s = (engine_view demo_disk demo_engine)(2 := first_eight)" by auto
  have starts: "data_bitmap_start demo_super = 2" "inode_bitmap_start demo_super = 1" "inode_count demo_super = 32"
    "data_start demo_super = 4" "total_blocks demo_super = 64" "pd_count demo_disk = 64"
    by (simp_all add: demo_super_def demo_disk_def)
  have mb: "map_block 2 i = 2" if "i < 64" for i :: u32
    using that by (simp add: map_block_of_nat word_less_nat_alt)
  have "i < 8 \<and> i < 64 \<longleftrightarrow> i < (8 :: u32)" for i by (auto simp: word_less_nat_alt)
  then have m: "marked (engine_view demo_disk s) 2 64 = {b. b < 8}"
    unfolding marked_def s(2) using mb first_eight_bit by (auto simp: word_less_nat_alt)
  have one: "engine_view demo_disk s 1 = replicate 4096 1"
    unfolding s(2) demo_engine_facts(3) using demo_mounted_ones by simp
  have i: "0 \<in> marked (engine_view demo_disk s) 1 32" "1 \<notin> marked (engine_view demo_disk s) 1 32"
    by (simp_all add: marked_def map_block_of_nat one block_bit_def bit_1_iff)
  have "{b :: u32. b < 4} \<subseteq> {b. b < 8}" by (auto simp: word_less_nat_alt)
  then obtain a where "alloc_ok demo_super (engine_view demo_disk s) a"
    using i(1) m engine.alloc_new_ok [OF s(1) demo_super_wf, of True] unfolding starts by blast
  moreover from this m i have "used (a_blocks a) = {b. b < 8}" "0 \<in> used (a_inodes a)" "1 \<notin> used (a_inodes a)"
    by (simp_all add: alloc_ok_def bm_ok_marked starts)
  ultimately show ?thesis using s(1) by blast
qed

section \<open>Inodes\<close>



section \<open>Allocation\<close>

text \<open>
  C12. The allocator gives out the lowest free block, once. Where its bitmaps agree with those on the
  disk, \<^verbatim>\<open>alloc_block\<close> returns the lowest block number not in use, which is a data block, marks it in
  memory and on the disk and nothing else, and keeps the agreement; when no block is free it throws
  \<^verbatim>\<open>ENOSPC\<close> and changes nothing.
\<close>

theorem alloc_block_lowest:
  assumes "engine_inv d s" and "wf_super sb" and "total_blocks sb = pd_count d" and "alloc_ok sb (engine_view d s) a"
  shows "if used (a_blocks a) = {b. b < pd_count d}
    then alloc_block (jr d sy) (a, s) = (Raise (FsError VFS_ENOSPC), (a, s))
    else \<exists>b a' s'. alloc_block (jr d sy) (a, s) = (Ret b, (a', s')) \<and> data_start sb \<le> b \<and> b < pd_count d \<and>
      b \<notin> used (a_blocks a) \<and> (\<forall>x < b. x \<in> used (a_blocks a)) \<and> engine_inv d s' \<and>
      blocks_changed sb (engine_view d s) a (engine_view d s') a' (insert b (used (a_blocks a)))"
  using engine.alloc_block_ok [OF assms, of sy] by (cases "find_first_free (a_blocks a)") auto

theorem alloc_block_lowest_witness:
  "\<exists>s a a' s'. alloc_ok demo_super (engine_view demo_disk s) a \<and> alloc_block (jr demo_disk True) (a, s) = (Ret 8, (a', s')) \<and>
     alloc_ok demo_super (engine_view demo_disk s') a'"
proof -
  from demo_alloc obtain s a where sa: "engine_inv demo_disk s" "alloc_ok demo_super (engine_view demo_disk s) a"
    "used (a_blocks a) = {b. b < 8}" by blast
  have "(20 :: u32) \<in> {b. b < pd_count demo_disk}" "(20 :: u32) \<notin> {b. b < 8}" by (simp_all add: demo_disk_def word_less_nat_alt)
  then have ne: "used (a_blocks a) \<noteq> {b. b < pd_count demo_disk}" unfolding sa(3) by blast
  from alloc_block_lowest [OF sa(1) demo_super_wf sa(2), of True] ne sa(3) obtain b a' s' where
    b: "alloc_block (jr demo_disk True) (a, s) = (Ret b, (a', s'))" "b \<notin> {b. b < 8}" "\<forall>x < b. x \<in> {b. b < 8}"
    "blocks_changed demo_super (engine_view demo_disk s) a (engine_view demo_disk s') a' (insert b {b. b < 8})" by auto
  from b(2,3) have "b = 8" by (metis linorder_neqE mem_Collect_eq order_less_irrefl)
  with b(1,4) sa(2) show ?thesis by (auto simp: blocks_changed_def)
qed

text \<open>The lowest free inode number, never 0, in the same way.\<close>

lemma alloc_inode_lowest:
  assumes "engine_inv d s" and "wf_super sb" and "total_blocks sb = pd_count d" and "alloc_ok sb (engine_view d s) a"
  shows "if used (a_inodes a) = {i. i < inode_count sb}
    then alloc_inode (jr d sy) (a, s) = (Raise (FsError VFS_ENOSPC), (a, s))
    else \<exists>i a' s'. alloc_inode (jr d sy) (a, s) = (Ret i, (a', s')) \<and> valid_ino sb i \<and>
      i \<notin> used (a_inodes a) \<and> (\<forall>x < i. x \<in> used (a_inodes a)) \<and> engine_inv d s' \<and>
      inodes_changed sb (engine_view d s) a (engine_view d s') a' (insert i (used (a_inodes a)))"
  using engine.alloc_inode_ok [OF assms, of sy] by (cases "find_first_free (a_inodes a)") (auto simp: valid_ino_def)

text \<open>
  C11. Blocks are freed together or not at all. A list of distinct data blocks that are all in use is
  freed as a whole, in memory and on the disk, with one write per block of the bitmap; a list that
  names a block twice, a block outside the data region or a block that is free is refused with
  \<^verbatim>\<open>EIO\<close> before anything has been changed.
\<close>

theorem free_blocks_all_or_nothing:
  assumes "engine_inv d s" and "wf_super sb" and "total_blocks sb = pd_count d" and "alloc_ok sb (engine_view d s) a"
  shows "if distinct xs \<and> (\<forall>x \<in> set xs. data_start sb \<le> x \<and> x < pd_count d \<and> x \<in> used (a_blocks a))
    then \<exists>a' s'. free_blocks (jr d sy) xs (a, s) = (Ret (), (a', s')) \<and> engine_inv d s' \<and>
      blocks_changed sb (engine_view d s) a (engine_view d s') a' (used (a_blocks a) - set xs)
    else free_blocks (jr d sy) xs (a, s) = (Raise (FsError VFS_EIO), (a, s))"
  by (rule engine.free_blocks_ok [OF assms])

theorem free_blocks_all_or_nothing_witness:
  "\<exists>s a a' s'. alloc_ok demo_super (engine_view demo_disk s) a \<and>
     free_blocks (jr demo_disk True) [7, 5] (a, s) = (Ret (), (a', s')) \<and> 7 \<notin> used (a_blocks a') \<and>
     free_blocks (jr demo_disk True) [5, 7, 5] (a, s) = (Raise (FsError VFS_EIO), (a, s))"
proof -
  from demo_alloc obtain s a where sa: "engine_inv demo_disk s" "alloc_ok demo_super (engine_view demo_disk s) a"
    "used (a_blocks a) = {b. b < 8}" by blast
  have ok: "distinct [7, 5 :: u32]"
    "\<forall>x \<in> set [7, 5 :: u32]. data_start demo_super \<le> x \<and> x < pd_count demo_disk \<and> x \<in> used (a_blocks a)"
    by (simp_all add: sa(3) demo_super_def demo_disk_def word_less_nat_alt word_le_nat_alt)
  from free_blocks_all_or_nothing [OF sa(1) demo_super_wf sa(2), of "[7, 5]" True] ok obtain a' s' where
    f: "free_blocks (jr demo_disk True) [7, 5] (a, s) = (Ret (), (a', s'))"
    "blocks_changed demo_super (engine_view demo_disk s) a (engine_view demo_disk s') a' (used (a_blocks a) - set [7, 5])" by auto
  have "free_blocks (jr demo_disk True) [5, 7, 5] (a, s) = (Raise (FsError VFS_EIO), (a, s))"
    using free_blocks_all_or_nothing [OF sa(1) demo_super_wf sa(2), of "[5, 7, 5]" True] by simp
  with f sa(2) show ?thesis by (auto simp: blocks_changed_def)
qed

section \<open>Files\<close>

lemma demo_file:
  "\<exists>s a. engine_inv demo_disk s \<and> file_ok demo_super (engine_view demo_disk s) a zero_inode \<and> used (a_blocks a) = {b. b < 8}"
  using demo_alloc empty_file [of zero_inode, OF _ _ _ demo_super_wf(1)] by (auto simp: zero_inode_def)

lemma demo_free:
  assumes "used (a_blocks a) = {b. b < 8}"
  shows "3 \<le> free_count demo_super a"
proof -
  have "{8, 9, 10} \<subseteq> {b. b < total_blocks demo_super} - used (a_blocks a)"
    by (simp add: assms demo_super_def)
  from card_mono [OF _ this] show ?thesis unfolding free_count_def by simp
qed

text \<open>
  C6. The block map. Asked for block \<^term>\<open>k\<close> of a file, direct or behind one or two indirect blocks,
  \<^verbatim>\<open>bmap_alloc\<close> returns the very block the file has there, if it has one, and then neither the inode nor the
  allocator nor any block has changed; otherwise it returns a block that was free before, which is
  then the file's, changes nothing of the inode but its pointers and its count of blocks, and no
  block in use but the file's indirect blocks and the bitmap. It says which it was. Afterwards
  \<^verbatim>\<open>bmap_read\<close> returns the block for \<^term>\<open>k\<close> and for every other index what it returned before, and
  no block is shared. It throws \<^verbatim>\<open>ENOSPC\<close> only if the file has no such block and fewer blocks are free
  than it would take with the indirect blocks on the way; then the same blocks are in use as before
  and the file is as it was.
\<close>

theorem bmap_alloc_maps:
  assumes "engine_inv d s" and "file_ok sb (engine_view d s) a ino" and "total_blocks sb = pd_count d" and "k < MAX_FILE_BLOCKS"
  shows "(\<exists>a' s'. bmap_alloc (jr d sy) k (ino, (a, s)) = (Raise (FsError VFS_ENOSPC), (ino, (a', s'))) \<and> engine_inv d s' \<and>
      file_ok sb (engine_view d s') a' ino \<and> used (a_blocks a') = used (a_blocks a) \<and>
      fst (bmap_read (jr d sy) ino k s) = Ret 0 \<and> free_count sb a < missing (engine_view d s) ino k \<and>
      (\<forall>n < MAX_FILE_BLOCKS. fst (bmap_read (jr d sy) ino n s') = fst (bmap_read (jr d sy) ino n s))) \<or>
    (\<exists>b fresh ino' a' s'. bmap_alloc (jr d sy) k (ino, (a, s)) = (Ret (b, fresh), (ino', (a', s'))) \<and> engine_inv d s' \<and>
      file_ok sb (engine_view d s') a' ino' \<and> b \<noteq> 0 \<and>
      (if fresh
       then fst (bmap_read (jr d sy) ino k s) = Ret 0 \<and> b \<notin> used (a_blocks a) \<and> used (a_blocks a) \<subseteq> used (a_blocks a') \<and>
         same_file ino ino' \<and> (\<forall>x \<in> used (a_blocks a) - indirects (engine_view d s) ino.
           \<not> in_region (data_bitmap_start sb) (total_blocks sb) x \<longrightarrow> engine_view d s' x = engine_view d s x)
       else fst (bmap_read (jr d sy) ino k s) = Ret b \<and> ino' = ino \<and> a' = a \<and> engine_view d s' = engine_view d s) \<and>
      (\<forall>n < MAX_FILE_BLOCKS. fst (bmap_read (jr d sy) ino' n s') = (if n = k then Ret b else fst (bmap_read (jr d sy) ino n s))))"
proof -
  note f = file_okD [OF assms(2)]
  have read: "fst (bmap_read (jr d sy) i n t) = Ret (file_block (engine_view d t) i n)"
    if "engine_inv d t" "file_ok sb (engine_view d t) b i" "n < MAX_FILE_BLOCKS" for i n t b
    using engine.bmap_read_ok [OF that(1) file_okD(3) [OF that(2)] f(1) assms(3) that(3), of sy] by auto
  from engine.bmap_alloc_has [OF assms, of sy] show ?thesis
  proof (elim disjE exE conjE)
    fix a' s' assume n: "bmap_alloc (jr d sy) k (ino, (a, s)) = (Raise (FsError VFS_ENOSPC), (ino, (a', s')))" "engine_inv d s'"
      "blocks_changed sb (engine_view d s) a (engine_view d s') a' (used (a_blocks a))"
      "file_block (engine_view d s) ino k = 0" "free_count sb a < missing (engine_view d s) ino k"
    note w = wrote_nothing [OF assms(2) n(3), of "[]" 0 0]
    have ro: "region_only (data_bitmap_start sb) (total_blocks sb) (engine_view d s) (engine_view d s')"
      and us: "used (a_blocks a') = used (a_blocks a)" using n(3) by (simp_all add: blocks_changed_def)
    have "file_block (engine_view d s') ino m = file_block (engine_view d s) ino m" if "m < MAX_FILE_BLOCKS" for m
      by (rule file_block_place [OF place_ptr_alloc [OF f(1,3) ro] that])
    then have "fst (bmap_read (jr d sy) ino m s') = fst (bmap_read (jr d sy) ino m s)" if "m < MAX_FILE_BLOCKS" for m
      using read [OF n(2) wroteD(1) [OF w] that] read [OF assms(1,2) that] that by simp
    moreover have "fst (bmap_read (jr d sy) ino k s) = Ret 0" using read [OF assms(1,2,4)] n(4) by simp
    ultimately show ?thesis using us n(1,2,5) wroteD(1) [OF w] by (intro disjI1 exI [of _ a'] exI [of _ s'] conjI allI impI)
  next
    fix b fresh ino' a' s' assume n: "bmap_alloc (jr d sy) k (ino, (a, s)) = (Ret (b, fresh), (ino', (a', s')))" "engine_inv d s'"
      "has_block sb (engine_view d s) a ino k b fresh (engine_view d s') a' ino'"
    note h = has_blockD [OF assms(2) n(3) assms(4)]
    have "file_block (engine_view d s') ino' m = (if m = k then b else file_block (engine_view d s) ino m)" if "m < MAX_FILE_BLOCKS" for m
    proof (cases fresh)
      case True
      with n(3) have "grown sb (engine_view d s) a ino k b (engine_view d s') a' ino'" by (simp add: has_block_def)
      with that show ?thesis by (simp add: grown_def)
    qed (use n(3) in \<open>simp add: has_block_def\<close>)
    then have "fst (bmap_read (jr d sy) ino' m s') = (if m = k then Ret b else fst (bmap_read (jr d sy) ino m s))" if "m < MAX_FILE_BLOCKS" for m
      using read [OF n(2) h(1) that] read [OF assms(1,2) that] that by simp
    moreover have "if fresh
       then fst (bmap_read (jr d sy) ino k s) = Ret 0 \<and> b \<notin> used (a_blocks a) \<and> used (a_blocks a) \<subseteq> used (a_blocks a') \<and>
         same_file ino ino' \<and> (\<forall>x \<in> used (a_blocks a) - indirects (engine_view d s) ino.
           \<not> in_region (data_bitmap_start sb) (total_blocks sb) x \<longrightarrow> engine_view d s' x = engine_view d s x)
       else fst (bmap_read (jr d sy) ino k s) = Ret b \<and> ino' = ino \<and> a' = a \<and> engine_view d s' = engine_view d s"
      using n(3) read [OF assms(1,2,4)] by (cases fresh) (simp_all add: has_block_def grown_def)
    ultimately show ?thesis using n(1,2) h(1,3)
      by (intro disjI2 exI [of _ b] exI [of _ fresh] exI [of _ ino'] exI [of _ a'] exI [of _ s'] conjI allI impI)
  qed
qed

theorem bmap_alloc_maps_witness:
  "\<exists>s a b ino' a' s'. file_ok demo_super (engine_view demo_disk s) a zero_inode \<and>
     bmap_alloc (jr demo_disk True) 2000 (zero_inode, (a, s)) = (Ret (b, True), (ino', (a', s'))) \<and> b \<notin> used (a_blocks a) \<and>
     (\<exists>s''. bmap_alloc (jr demo_disk True) 2000 (ino', (a', s')) = (Ret (b, False), (ino', (a', s''))))"
proof -
  from demo_file obtain s a where sa: "engine_inv demo_disk s" "file_ok demo_super (engine_view demo_disk s) a zero_inode"
    "used (a_blocks a) = {b. b < 8}" by blast
  have k: "2000 < MAX_FILE_BLOCKS" by simp
  have "\<not> free_count demo_super a < missing (engine_view demo_disk s) zero_inode 2000"
    using demo_free [OF sa(3)] missing_le [of "engine_view demo_disk s" zero_inode 2000] by linarith
  with bmap_alloc_maps [OF sa(1,2) demo_super_wf(2) k, of True] obtain b fresh ino' a' s' where
    b: "bmap_alloc (jr demo_disk True) 2000 (zero_inode, (a, s)) = (Ret (b, fresh), (ino', (a', s')))" "b \<noteq> 0"
    "engine_inv demo_disk s'" "file_ok demo_super (engine_view demo_disk s') a' ino'"
    "if fresh then b \<notin> used (a_blocks a) else fst (bmap_read (jr demo_disk True) zero_inode 2000 s) = Ret b"
    "\<forall>n < MAX_FILE_BLOCKS. fst (bmap_read (jr demo_disk True) ino' n s') =
      (if n = 2000 then Ret b else fst (bmap_read (jr demo_disk True) zero_inode n s))" by (elim disjE exE conjE) (blast, force)
  have "fst (bmap_read (jr demo_disk True) zero_inode 2000 s) = Ret 0"
    by (simp add: bmap_read_def zero_inode_def Let_def DOUBLE_SPAN_def)
  with b(2,5) have f: "fresh" by (auto split: if_splits)
  have "fst (bmap_read (jr demo_disk True) ino' 2000 s') = Ret b" using b(6) k by (metis (full_types))
  with bmap_alloc_maps [OF b(3,4) demo_super_wf(2) k, of True] b(2) obtain s'' where
    "bmap_alloc (jr demo_disk True) 2000 (ino', (a', s')) = (Ret (b, False), (ino', (a', s'')))"
    by (elim disjE exE conjE) (simp, auto split: if_splits)
  with b(1,5) f sa(2) show ?thesis by (simp only: if_True) blast
qed

text \<open>
  C5. What is written is read. The loop of \<^verbatim>\<open>vfs_write\<close> over the blocks of a chunk writes the bytes from
  \<^term>\<open>pos\<close> up to \<^term>\<open>at\<close>, which is the end of the chunk unless fewer than three blocks are left on the disk; afterwards, whatever the
  file's size is set to, reading that range returns these bytes, reading any range beside it returns
  what it returned before, holes included, and no block in use that is not the file's has changed,
  but for the bitmap of blocks.
\<close>

theorem written_is_read:
  assumes "engine_inv d s" and "file_ok sb (engine_view d s) a ino" and "total_blocks sb = pd_count d"
    and "pos \<le> e" and "e \<le> MAX_FILE_BYTES" and "e - pos \<le> length src"
  shows "\<exists>at c full ino' a' s'. write_pieces (jr d sy) src pos pos False (pieces pos e) (ino, (a, s)) = (Ret (at, c, full), (ino', (a', s'))) \<and>
    engine_inv d s' \<and> file_ok sb (engine_view d s') a' ino' \<and> pos \<le> at \<and> at \<le> e \<and> (if full then free_count sb a' < 3 else at = e) \<and>
    (\<forall>z. at \<le> unat z \<longrightarrow> unat z \<le> MAX_FILE_BYTES \<longrightarrow>
      fst (read_range (jr d sy) (ino'\<lparr>size_of := z\<rparr>) pos (at - pos) s') = Ret (take (at - pos) src)) \<and>
    (\<forall>z p n. p + n \<le> pos \<or> at \<le> p \<longrightarrow> unat z \<le> MAX_FILE_BYTES \<longrightarrow>
      fst (read_range (jr d sy) (ino'\<lparr>size_of := z\<rparr>) p n s') = fst (read_range (jr d sy) (ino\<lparr>size_of := z\<rparr>) p n s)) \<and>
    (\<forall>x \<in> used (a_blocks a) - range (place_ptr (engine_view d s) ino).
      \<not> in_region (data_bitmap_start sb) (total_blocks sb) x \<longrightarrow> engine_view d s' x = engine_view d s x)"
proof -
  from engine.write_pieces_ok [OF assms(3,5,6,1,2) order_refl assms(4), where c = False and sy = sy] obtain at c full ino' a' s' where
    w: "write_pieces (jr d sy) src pos pos False (pieces pos e) (ino, (a, s)) = (Ret (at, c, full), (ino', (a', s')))" "engine_inv d s'"
    "pos \<le> at" "at \<le> e" "if full then free_count sb a' < 3 else at = e" "wrote sb src pos pos at (engine_view d s) a ino (engine_view d s') a' ino'" by blast
  note wd = wroteD [OF w(6)]
  have read: "fst (read_range (jr d sy) (i\<lparr>size_of := z\<rparr>) p n t) = Ret (map (file_byte (engine_view d t) i) [p..<min (unat z) (p + n)])"
    if "engine_inv d t" "file_ok sb (engine_view d t) b i" "unat z \<le> MAX_FILE_BYTES" for i z p n t b
    using engine.read_range_ok [OF that(1) _ assms(3), of b "i\<lparr>size_of := z\<rparr>" sy p n] that(2,3) by auto
  have "fst (read_range (jr d sy) (ino'\<lparr>size_of := z\<rparr>) pos (at - pos) s') = Ret (take (at - pos) src)"
    if z: "at \<le> unat z" "unat z \<le> MAX_FILE_BYTES" for z
  proof -
    have "map (file_byte (engine_view d s') ino') [pos..<at] = map (\<lambda>n. src ! (n - pos)) [pos..<at]"
      using wd(5) w(4) assms(5) by (intro map_cong) auto
    also have "\<dots> = take (at - pos) src" using w(4) assms(6) by (intro nth_equalityI) auto
    finally show ?thesis using read [OF w(2) wd(1) z(2)] z(1) w(3) by (simp add: min_def)
  qed
  moreover have "fst (read_range (jr d sy) (ino'\<lparr>size_of := z\<rparr>) p n s') = fst (read_range (jr d sy) (ino\<lparr>size_of := z\<rparr>) p n s)"
    if o: "p + n \<le> pos \<or> at \<le> p" and z: "unat z \<le> MAX_FILE_BYTES" for z p n
  proof -
    have "map (file_byte (engine_view d s') ino') [p..<min (unat z) (p + n)] = map (file_byte (engine_view d s) ino) [p..<min (unat z) (p + n)]"
      using wd(5) o z by (intro map_cong) auto
    then show ?thesis using read [OF w(2) wd(1) z] read [OF assms(1,2) z] by simp
  qed
  ultimately show ?thesis using w wd(1,7) by (intro exI [of _ at] exI [of _ c] exI [of _ full] exI [of _ ino'] exI [of _ a'] exI [of _ s']) auto
qed

theorem written_is_read_witness:
  "\<exists>s a at c full ino' a' s'. file_ok demo_super (engine_view demo_disk s) a zero_inode \<and>
     write_pieces (jr demo_disk True) [7, 8, 9] 5000 5000 False (pieces 5000 5003) (zero_inode, (a, s)) = (Ret (at, c, full), (ino', (a', s'))) \<and>
     fst (read_range (jr demo_disk True) (ino'\<lparr>size_of := 6000\<rparr>) 5000 (at - 5000) s') = Ret (take (at - 5000) [7, 8, 9])"
proof -
  from demo_file obtain s a where sa: "engine_inv demo_disk s" "file_ok demo_super (engine_view demo_disk s) a zero_inode" by blast
  have e: "(5000 :: nat) \<le> 5003" "5003 \<le> MAX_FILE_BYTES" "5003 - 5000 \<le> length [7, 8, 9 :: byte]" by (simp_all add: MAX_FILE_BYTES_def)
  from written_is_read [OF sa demo_super_wf(2) e, of True] obtain at c full ino' a' s' where
    w: "write_pieces (jr demo_disk True) [7, 8, 9] 5000 5000 False (pieces 5000 5003) (zero_inode, (a, s)) = (Ret (at, c, full), (ino', (a', s')))" "at \<le> 5003"
    "\<forall>z. at \<le> unat z \<longrightarrow> unat z \<le> MAX_FILE_BYTES \<longrightarrow>
      fst (read_range (jr demo_disk True) (ino'\<lparr>size_of := z\<rparr>) 5000 (at - 5000) s') = Ret (take (at - 5000) [7, 8, 9])" by blast
  have "at \<le> unat (6000 :: u64)" "unat (6000 :: u64) \<le> MAX_FILE_BYTES" using w(2) by (simp_all add: MAX_FILE_BYTES_def)
  with w sa(2) show ?thesis by blast
qed

text \<open>A directory in block 7 of the demonstration disk.\<close>

definition demo_dir :: inode where
  "demo_dir = zero_inode\<lparr>direct := 7 # replicate 11 0, size_of := 4096\<rparr>"

lemma demo_directory:
  "\<exists>s a. engine_inv demo_disk s \<and> dir_ok demo_super (engine_view demo_disk s) a demo_dir \<and>
     dir_map (engine_view demo_disk s) demo_dir = [str_bytes ''.'' \<mapsto> (1, FT_DIR), str_bytes ''..'' \<mapsto> (1, FT_DIR)] \<and>
     used (a_blocks a) = {b. b < 8}"
proof -
  from demo_alloc obtain s a where sa: "engine_inv demo_disk s" "alloc_ok demo_super (engine_view demo_disk s) a"
    "used (a_blocks a) = {b. b < 8}" by blast
  let ?v = "engine_view demo_disk s"
  have fb: "file_block ?v demo_dir k = (if k = 0 then 7 else 0)" for k
    by (auto simp: file_block_def second_at_def demo_dir_def zero_inode_def nth_Cons')
  have ptr: "place_ptr ?v demo_dir p = (if p = Data 0 then 7 else 0)" for p
    using fb by (simp add: place_ptr_def demo_dir_def zero_inode_def second_at_def split: place.split)
  have "owns demo_super (used (a_blocks a)) (place_ptr ?v demo_dir)"
    unfolding owns_def ptr by (simp add: sa(3) demo_super_def)
  then have ok: "file_ok demo_super ?v a demo_dir"
    using sa(2) demo_super_wf(1) by (simp add: file_ok_def demo_dir_def zero_inode_def)
  have n: "(7 :: u32) \<noteq> 0" "(1 :: u32) \<noteq> 0" by simp_all
  have f7: "file_block ?v demo_dir 0 = 7" using fb by simp
  from engine.dir_init_ok [OF sa(1) ok demo_super_wf(2) f7 n(1) _ n(2) n(2), of True] sa(3) show ?thesis
    by (auto simp: demo_dir_def)
qed

text \<open>
  C10. A file gives back its blocks. \<^verbatim>\<open>free_all_blocks\<close> frees every block and indirect block of the file and
  no other, once each, and leaves an inode without blocks; a file that shares no block with it is
  still a file and has the same bytes.
\<close>

theorem free_all_blocks_frees:
  assumes "engine_inv d s" and "file_ok sb (engine_view d s) a ino" and "total_blocks sb = pd_count d"
  shows "\<exists>ino' a' s'. free_all_blocks (jr d sy) (ino, (a, s)) = (Ret (), (ino', (a', s'))) \<and> engine_inv d s' \<and>
    file_ok sb (engine_view d s') a' ino' \<and> (\<forall>n < MAX_FILE_BLOCKS. fst (bmap_read (jr d sy) ino' n s') = Ret 0) \<and>
    used (a_blocks a') = used (a_blocks a) - (range (place_ptr (engine_view d s) ino) - {0}) \<and>
    (\<forall>other. file_ok sb (engine_view d s) a other \<longrightarrow>
      range (place_ptr (engine_view d s) other) \<inter> range (place_ptr (engine_view d s) ino) \<subseteq> {0} \<longrightarrow>
      file_ok sb (engine_view d s') a' other \<and>
      (\<forall>n < MAX_FILE_BYTES. file_byte (engine_view d s') other n = file_byte (engine_view d s) other n))"
proof -
  let ?f = "place_ptr (engine_view d s)" and ?i = "ino\<lparr>direct := replicate 12 0, single_indirect := 0, double_indirect := 0, block_count := 0\<rparr>"
  note f = file_okD [OF assms(2)]
  from engine.free_all_blocks_ok [OF assms, of sy] obtain a' s' where
    r: "free_all_blocks (jr d sy) (ino, (a, s)) = (Ret (), (?i, (a', s')))" "engine_inv d s'"
    "blocks_changed sb (engine_view d s) a (engine_view d s') a' (used (a_blocks a) - (range (?f ino) - {0}))" by blast
  have al: "alloc_ok sb (engine_view d s') a'" using r(3) by (simp add: blocks_changed_def)
  have ok: "file_ok sb (engine_view d s') a' ?i" by (rule empty_file [OF _ _ _ f(1) al]) simp_all
  have "fst (bmap_read (jr d sy) ?i n s') = Ret 0" if n: "n < MAX_FILE_BLOCKS" for n
  proof -
    have "file_block (engine_view d s') ?i n = 0"
      by (simp add: file_block_def second_at_def)
    then show ?thesis using engine.bmap_read_ok [OF r(2) file_okD(3) [OF ok] f(1) assms(3) n, of sy] by auto
  qed
  moreover have "file_ok sb (engine_view d s') a' other \<and> (\<forall>n < MAX_FILE_BYTES. file_byte (engine_view d s') other n = file_byte (engine_view d s) other n)"
    if o: "file_ok sb (engine_view d s) a other" "range (?f other) \<inter> range (?f ino) \<subseteq> {0}" for other
  proof -
    have "?f other p \<in> used (a_blocks a) - (range (?f ino) - {0})" if "?f other p \<noteq> 0" for p
      using ownsD(3) [OF file_okD(3) [OF o(1)] that] o(2) that by blast
    from other_file_kept [OF o(1) r(3) this] show ?thesis by blast
  qed
  moreover have "used (a_blocks a') = used (a_blocks a) - (range (?f ino) - {0})" using r(3) by (simp add: blocks_changed_def)
  ultimately show ?thesis using r(1,2) ok by (intro exI [of _ ?i] exI [of _ a'] exI [of _ s'] conjI allI impI) auto
qed

theorem free_all_blocks_frees_witness:
  "\<exists>s a ino' a' s'. file_ok demo_super (engine_view demo_disk s) a demo_dir \<and> 7 \<in> used (a_blocks a) \<and>
     free_all_blocks (jr demo_disk True) (demo_dir, (a, s)) = (Ret (), (ino', (a', s'))) \<and> 7 \<notin> used (a_blocks a')"
proof -
  from demo_directory obtain s a where sa: "engine_inv demo_disk s" "dir_ok demo_super (engine_view demo_disk s) a demo_dir"
    "used (a_blocks a) = {b. b < 8}" by blast
  note ok = dir_okD(1) [OF sa(2)]
  have "place_ptr (engine_view demo_disk s) demo_dir (Data 0) = 7" by (simp add: place_ptr_def file_block_def demo_dir_def)
  then have "7 \<in> range (place_ptr (engine_view demo_disk s) demo_dir) - {0}" by (auto intro: range_eqI [of _ _ "Data 0"])
  moreover from free_all_blocks_frees [OF sa(1) ok demo_super_wf(2), of True] obtain ino' a' s' where
    "free_all_blocks (jr demo_disk True) (demo_dir, (a, s)) = (Ret (), (ino', (a', s')))"
    "used (a_blocks a') = used (a_blocks a) - (range (place_ptr (engine_view demo_disk s) demo_dir) - {0})" by blast
  moreover have "7 \<in> used (a_blocks a)" by (simp add: sa(3))
  ultimately show ?thesis using ok by blast
qed

section \<open>Directories\<close>

text \<open>
  C9. Reading a directory reads a map from names to inode numbers and types. \<^verbatim>\<open>dir_lookup\<close> returns what
  the map has for a name, or 0; \<^verbatim>\<open>dir_list\<close> returns every name once with what the map has for it; and
  \<^verbatim>\<open>dir_is_empty\<close> says whether there is any name but the directory itself and its parent.
\<close>

theorem directory_is_map:
  assumes "engine_inv d s" and "dir_ok sb (engine_view d s) a dir" and "total_blocks sb = pd_count d"
  shows "fst (dir_lookup (jr d sy) dir nm s) = Ret (case dir_map (engine_view d s) dir nm of None \<Rightarrow> (0, None) | Some (i, t) \<Rightarrow> (i, Some t)) \<and>
    (\<exists>items. fst (dir_list (jr d sy) dir s) = Ret items \<and> distinct (map di_name items) \<and>
      map_of (map (\<lambda>i. (di_name i, (di_inode i, di_type i))) items) = dir_map (engine_view d s) dir) \<and>
    fst (dir_is_empty (jr d sy) dir s) = Ret (dom (dir_map (engine_view d s) dir) = {str_bytes ''.'', str_bytes ''..''})"
proof (intro conjI)
  show "fst (dir_lookup (jr d sy) dir nm s) = Ret (case dir_map (engine_view d s) dir nm of None \<Rightarrow> (0, None) | Some (i, t) \<Rightarrow> (i, Some t))"
    using engine.dir_lookup_ok [OF assms, of sy nm] by auto
  show "fst (dir_is_empty (jr d sy) dir s) = Ret (dom (dir_map (engine_view d s) dir) = {str_bytes ''.'', str_bytes ''..''})"
    using engine.dir_is_empty_ok [OF assms, of sy] by auto
  let ?items = "map item_of (live (dir_slots (engine_view d s) dir))"
  have "fst (dir_list (jr d sy) dir s) = Ret ?items" using engine.dir_list_ok [OF assms, of sy] by auto
  moreover have "map di_name ?items = map entry_name (live (dir_slots (engine_view d s) dir))" by (simp add: item_of_def)
  then have dist: "distinct (map di_name ?items)" using dir_okD(6) [OF assms(2)] unfolding names_ok_def by (simp del: map_map)
  moreover have "map_of (map (\<lambda>i. (di_name i, (di_inode i, di_type i))) ?items) = dir_map (engine_view d s) dir"
    by (simp add: dir_map_def entry_map_def item_of_def comp_def)
  ultimately show "\<exists>items. fst (dir_list (jr d sy) dir s) = Ret items \<and> distinct (map di_name items) \<and>
      map_of (map (\<lambda>i. (di_name i, (di_inode i, di_type i))) items) = dir_map (engine_view d s) dir"
    using dist by (intro exI [of _ ?items] conjI)
qed

theorem directory_is_map_witness:
  "\<exists>s a. dir_ok demo_super (engine_view demo_disk s) a demo_dir \<and>
     fst (dir_lookup (jr demo_disk True) demo_dir (str_bytes ''..'') s) = Ret (1, Some FT_DIR) \<and>
     fst (dir_is_empty (jr demo_disk True) demo_dir s) = Ret True"
proof -
  from demo_directory obtain s a where sa: "engine_inv demo_disk s" "dir_ok demo_super (engine_view demo_disk s) a demo_dir"
    "dir_map (engine_view demo_disk s) demo_dir = [str_bytes ''.'' \<mapsto> (1, FT_DIR), str_bytes ''..'' \<mapsto> (1, FT_DIR)]" by blast
  have "dom (dir_map (engine_view demo_disk s) demo_dir) = {str_bytes ''.'', str_bytes ''..''}" unfolding sa(3) by auto
  with directory_is_map [OF sa(1,2) demo_super_wf(2), of True "str_bytes ''..''"] sa(2,3) show ?thesis by auto
qed

text \<open>
  C7. Adding a name to a directory adds it to the map. A new name of at most 58 bytes is put into the
  first free slot, or into a new block when there is none; afterwards the map has it and is
  otherwise the same, the directory is well formed, and no block in use that is not the
  directory's has changed, but for the bitmap of blocks. It fails only when fewer than three blocks
  are free or the directory has the largest size of a file; then the map is as it was.
\<close>

theorem dir_add_updates:
  assumes "engine_inv d s" and "dir_ok sb (engine_view d s) a dir" and "total_blocks sb = pd_count d"
    and "length nm \<le> 58" and "ino \<noteq> 0" and "dir_map (engine_view d s) dir nm = None"
  shows "(\<exists>c a' s'. dir_add (jr d sy) nm ino ty (dir, (a, s)) = (Raise (FsError c), (dir, (a', s'))) \<and> engine_inv d s' \<and>
      dir_ok sb (engine_view d s') a' dir \<and> dir_map (engine_view d s') dir = dir_map (engine_view d s) dir \<and> used (a_blocks a') = used (a_blocks a) \<and>
      (c = VFS_ENOSPC \<and> free_count sb a < 3 \<or> c = VFS_EFBIG \<and> block_count_of dir = MAX_FILE_BLOCKS)) \<or>
    (\<exists>dir' a' s'. dir_add (jr d sy) nm ino ty (dir, (a, s)) = (Ret (), (dir', (a', s'))) \<and> engine_inv d s' \<and>
      dir_ok sb (engine_view d s') a' dir' \<and> dir_map (engine_view d s') dir' = (dir_map (engine_view d s) dir)(nm \<mapsto> (ino, ty)) \<and>
      used (a_blocks a) \<subseteq> used (a_blocks a') \<and>
      (\<forall>x \<in> used (a_blocks a) - range (place_ptr (engine_view d s) dir).
        \<not> in_region (data_bitmap_start sb) (total_blocks sb) x \<longrightarrow> engine_view d s' x = engine_view d s x))"
  by (rule engine.dir_add_ok [OF assms])

theorem dir_add_updates_witness:
  "\<exists>s a dir' a' s'. dir_ok demo_super (engine_view demo_disk s) a demo_dir \<and>
     dir_add (jr demo_disk True) (str_bytes ''a'') 9 FT_FILE (demo_dir, (a, s)) = (Ret (), (dir', (a', s'))) \<and>
     dir_map (engine_view demo_disk s') dir' (str_bytes ''a'') = Some (9, FT_FILE)"
proof -
  from demo_directory obtain s a where sa: "engine_inv demo_disk s" "dir_ok demo_super (engine_view demo_disk s) a demo_dir"
    "dir_map (engine_view demo_disk s) demo_dir = [str_bytes ''.'' \<mapsto> (1, FT_DIR), str_bytes ''..'' \<mapsto> (1, FT_DIR)]"
    "used (a_blocks a) = {b. b < 8}" by blast
  have h: "length (str_bytes ''a'') \<le> 58" "(9 :: u32) \<noteq> 0" "dir_map (engine_view demo_disk s) demo_dir (str_bytes ''a'') = None"
    unfolding sa(3) by (simp_all add: str_bytes_def)
  have "\<not> free_count demo_super a < 3" using demo_free [OF sa(4)] by simp
  moreover have "block_count_of demo_dir \<noteq> MAX_FILE_BLOCKS" by (simp add: block_count_of_def demo_dir_def)
  ultimately obtain dir' a' s' where r: "dir_add (jr demo_disk True) (str_bytes ''a'') 9 FT_FILE (demo_dir, (a, s)) = (Ret (), (dir', (a', s')))"
    "dir_map (engine_view demo_disk s') dir' = (dir_map (engine_view demo_disk s) demo_dir)(str_bytes ''a'' \<mapsto> (9, FT_FILE))"
    using dir_add_updates [OF sa(1,2) demo_super_wf(2) h, of True FT_FILE] by blast
  have "dir_map (engine_view demo_disk s') dir' (str_bytes ''a'') = Some (9, FT_FILE)" unfolding r(2) by simp
  with r(1) sa(2) show ?thesis by blast
qed

text \<open>
  C8. Removing a name from a directory removes it from the map: \<^verbatim>\<open>dir_remove\<close> says whether the map had
  the name, the map is otherwise the same, and no block that is not the directory's has changed.
\<close>

theorem dir_remove_updates:
  assumes "engine_inv d s" and "dir_ok sb (engine_view d s) a dir" and "total_blocks sb = pd_count d"
    and "nm \<noteq> str_bytes ''.''" and "nm \<noteq> str_bytes ''..''"
  shows "\<exists>s'. dir_remove (jr d sy) dir nm s = (Ret (nm \<in> dom (dir_map (engine_view d s) dir)), s') \<and> engine_inv d s' \<and>
    dir_ok sb (engine_view d s') a dir \<and> dir_map (engine_view d s') dir = (dir_map (engine_view d s) dir)(nm := None) \<and>
    (\<forall>x. x \<notin> range (place_ptr (engine_view d s) dir) \<longrightarrow> engine_view d s' x = engine_view d s x)"
  by (rule engine.dir_remove_ok [OF assms])

theorem dir_remove_updates_witness:
  "\<exists>s a s'. dir_ok demo_super (engine_view demo_disk s) a demo_dir \<and>
     dir_remove (jr demo_disk True) demo_dir (str_bytes ''a'') s = (Ret False, s') \<and>
     dir_map (engine_view demo_disk s') demo_dir = dir_map (engine_view demo_disk s) demo_dir"
proof -
  from demo_directory obtain s a where sa: "engine_inv demo_disk s" "dir_ok demo_super (engine_view demo_disk s) a demo_dir"
    "dir_map (engine_view demo_disk s) demo_dir = [str_bytes ''.'' \<mapsto> (1, FT_DIR), str_bytes ''..'' \<mapsto> (1, FT_DIR)]" by blast
  have h: "str_bytes ''a'' \<noteq> str_bytes ''.''" "str_bytes ''a'' \<noteq> str_bytes ''..''" by (simp_all add: str_bytes_def)
  have no: "str_bytes ''a'' \<notin> dom (dir_map (engine_view demo_disk s) demo_dir)" unfolding sa(3) using h by simp
  from dir_remove_updates [OF sa(1,2) demo_super_wf(2) h, of True] obtain s' where
    "dir_remove (jr demo_disk True) demo_dir (str_bytes ''a'') s = (Ret False, s')"
    "dir_map (engine_view demo_disk s') demo_dir = (dir_map (engine_view demo_disk s) demo_dir)(str_bytes ''a'' := None)" using no by auto
  moreover have "(dir_map (engine_view demo_disk s) demo_dir)(str_bytes ''a'' := None) = dir_map (engine_view demo_disk s) demo_dir"
    using no by (simp add: domIff fun_upd_idem)
  ultimately show ?thesis using sa(2) by metis
qed

end
