(* ===== verification/Fsck.thy ===== *)
theory Fsck
  imports Superblock Bitmap Errors
begin

text \<open>
  \<^verbatim>\<open>src/src/fsck.cpp\<close>: the checker. It reads the image straight from the device and decodes it
  itself. Its state is the members of \<^verbatim>\<open>Checker\<close> beside the device; the messages are the
  source's.
\<close>

definition MAX_LISTED :: nat where "MAX_LISTED = 200"

datatype kind = K_none | K_file | K_dir | K_bad

datatype ptr = P_data | P_single | P_dbl | P_dbl2

record fsck_report =
  problems :: "string list"
  r_files :: u32
  r_directories :: u32
  inodes_used :: u32
  blocks_used :: u32

record checker =
  report :: fsck_report
  suppressed :: nat
  c_sb :: superblock
  inode_bm :: bitmap
  block_bm :: bitmap
  c_inodes :: "inode list"
  c_kind :: "kind list"
  owner :: "u32 list"
  dir_blocks :: "u32 list list"
  c_refs :: "u32 list"
  c_names :: "u32 list"
  reachable :: "bool list"

type_synonym 'd check_state = "checker \<times> 'd"

definition zero_super :: superblock where
  "zero_super = decode_superblock (replicate 48 0)"

definition empty_report :: fsck_report where
  "empty_report = \<lparr>problems = [], r_files = 0, r_directories = 0, inodes_used = 0, blocks_used = 0\<rparr>"

definition checker_new :: checker where
  "checker_new = \<lparr>report = empty_report, suppressed = 0, c_sb = zero_super, inode_bm = bitmap_new 0,
     block_bm = bitmap_new 0, c_inodes = [], c_kind = [], owner = [], dir_blocks = [], c_refs = [],
     c_names = [], reachable = []\<rparr>"

definition report_ok :: "fsck_report \<Rightarrow> bool" where
  "report_ok r = (problems r = [])"

section \<open>Parts of the state\<close>

definition str :: "nat \<Rightarrow> string" where
  "str n = to_string n"

definition str32 :: "u32 \<Rightarrow> string" where
  "str32 n = to_string (unat n)"

definition quoted :: "string \<Rightarrow> string" where
  "quoted s = CHR 0x22 # s @ [CHR 0x22]"

definition text_of :: "bytes \<Rightarrow> string" where
  "text_of bs = map (\<lambda>b. char_of (unat b)) bs"

fun octal :: "nat \<Rightarrow> string" where
  "octal n = (if n < 8 then [char_of (48 + n)] else octal (n div 8) @ [char_of (48 + n mod 8)])"

declare octal.simps [simp del]

definition exn_what :: "exn \<Rightarrow> string" where
  "exn_what e = (case e of FsError c \<Rightarrow> vfs_strerror c | RuntimeError s \<Rightarrow> s | OutOfRange s \<Rightarrow> s
     | InvalidArgument s \<Rightarrow> s | LogicError s \<Rightarrow> s | UsageError s \<Rightarrow> s)"

definition ck :: "(checker \<Rightarrow> 'a) \<Rightarrow> ('d check_state, 'a) op" where
  "ck f = getE (\<lambda>(c, _). f c)"

definition upd_ck :: "(checker \<Rightarrow> checker) \<Rightarrow> ('d check_state, unit) op" where
  "upd_ck f = modE (\<lambda>(c, d). (f c, d))"

definition upd_report :: "(fsck_report \<Rightarrow> fsck_report) \<Rightarrow> ('d check_state, unit) op" where
  "upd_report f = upd_ck (\<lambda>c. c\<lparr>report := f (report c)\<rparr>)"

definition problem :: "string \<Rightarrow> ('d check_state, unit) op" where
  "problem what = upd_ck (\<lambda>c.
     if length (problems (report c)) < MAX_LISTED
     then c\<lparr>report := (report c)\<lparr>problems := problems (report c) @ [what]\<rparr>\<rparr>
     else c\<lparr>suppressed := suppressed c + 1\<rparr>)"

definition on_device :: "('d, 'a) op \<Rightarrow> ('d check_state, 'a) op" where
  "on_device = zoomE snd (\<lambda>d s. (fst s, d))"

definition ck_read :: "'d device \<Rightarrow> u32 \<Rightarrow> ('d check_state, block) op" where
  "ck_read dev block_no = on_device (read_block dev block_no)"

definition read_pointers :: "'d device \<Rightarrow> u32 \<Rightarrow> ('d check_state, u32 list) op" where
  "read_pointers dev block_no = bindE (ck_read dev block_no) (\<lambda>b. retE (rd32s 0 PTRS_PER_BLOCK b))"

definition test_bit_of :: "bitmap \<Rightarrow> u32 \<Rightarrow> ('s, bool) op" where
  "test_bit_of bm i = (case is_set i bm of
       (Ret x, _) \<Rightarrow> retE x | (Raise e, _) \<Rightarrow> throwE e | (Halted h, _) \<Rightarrow> haltE h)"

section \<open>The superblock and the inode table\<close>

definition check_superblock :: "'d device \<Rightarrow> ('d check_state, bool) op" where
  "check_superblock dev =
     bindE (ck_read dev 0) (\<lambda>b.
     let sb = decode_superblock b in
     thenE (upd_ck (\<lambda>c. c\<lparr>c_sb := sb\<rparr>))
     (case validate_superblock sb (dev_count dev) of
        Inl e \<Rightarrow> thenE (problem (''superblock: '' @ exn_what e)) (retE False)
      | Inr _ \<Rightarrow> (case find (\<lambda>i. b ! i \<noteq> 0) [48..<BLOCK_SIZE] of
            Some i \<Rightarrow> thenE (problem (''superblock: block 0 has data after the superblock, at byte '' @ str i))
              (retE True)
          | None \<Rightarrow> retE True)))"

definition inodes_of_block :: "block \<Rightarrow> inode list" where
  "inodes_of_block b = map (\<lambda>i. decode_inode (get_at (i * INODE_SIZE) INODE_SIZE b)) [0..<INODES_PER_BLOCK]"

definition load_inodes :: "'d device \<Rightarrow> ('d check_state, unit) op" where
  "load_inodes dev =
     bindE (ck c_sb) (\<lambda>sb.
     let n = unat (inode_count sb) in
     bindE (foldE [0..<n div INODES_PER_BLOCK] (\<lambda>inodes t.
        bindE (ck_read dev (inode_table_start sb + of_nat t)) (\<lambda>b.
        retE (put_at (t * INODES_PER_BLOCK) (inodes_of_block b) inodes))) (replicate n zero_inode)) (\<lambda>inodes.
     upd_ck (\<lambda>c. c\<lparr>c_inodes := inodes, c_kind := replicate n K_none,
       owner := replicate (unat (total_blocks sb)) 0, dir_blocks := replicate n [],
       c_refs := replicate n 0, c_names := replicate n 0, reachable := replicate n False\<rparr>)))"

section \<open>The blocks of an inode\<close>

definition describe :: "ptr \<Rightarrow> nat \<Rightarrow> string" where
  "describe p index = (case p of
       P_data \<Rightarrow> ''file block '' @ str index
     | P_single \<Rightarrow> ''its single-indirect block''
     | P_dbl \<Rightarrow> ''its double-indirect block''
     | P_dbl2 \<Rightarrow> ''entry '' @ str index @ '' of its double-indirect block'')"

definition claim :: "u32 \<Rightarrow> u32 \<Rightarrow> ptr \<Rightarrow> nat \<Rightarrow> ('d check_state, bool) op" where
  "claim ino b p index =
     bindE (ck (\<lambda>c. (c_sb c, owner c))) (\<lambda>(sb, own).
     if b < data_start sb \<or> b \<ge> total_blocks sb
     then thenE (problem (''inode '' @ str32 ino @ '': '' @ describe p index @ '' points to block ''
            @ str32 b @ '', outside the data region '' @ str32 (data_start sb) @ ''-''
            @ str32 (total_blocks sb - 1))) (retE False)
     else if own ! unat b = ino
     then thenE (problem (''inode '' @ str32 ino @ '' points to block '' @ str32 b @ '' twice (''
            @ describe p index @ '')'')) (retE False)
     else if own ! unat b \<noteq> 0
     then thenE (problem (''block '' @ str32 b @ '' is owned twice: by inode '' @ str32 (own ! unat b)
            @ '' and by inode '' @ str32 ino @ '' ('' @ describe p index @ '')'')) (retE False)
     else thenE (upd_ck (\<lambda>c. c\<lparr>owner := (owner c)[unat b := ino]\<rparr>)) (retE True))"

text \<open>The locals of \<^verbatim>\<open>check_blocks\<close>; \<^verbatim>\<open>b_map\<close> is the directory's list of blocks.\<close>

record blocks_acc =
  b_owned :: nat
  b_end :: nat
  b_map :: "u32 list"

definition set_grown :: "nat \<Rightarrow> u32 \<Rightarrow> u32 list \<Rightarrow> u32 list" where
  "set_grown i b xs = (xs @ replicate (i + 1 - length xs) 0)[i := b]"

definition check_data :: "u32 \<Rightarrow> bool \<Rightarrow> nat \<Rightarrow> u32 \<Rightarrow> blocks_acc \<Rightarrow> ('d check_state, blocks_acc) op" where
  "check_data ino dirp index b acc =
     bindE (claim ino b P_data index) (\<lambda>mine.
     retE (acc\<lparr>b_owned := b_owned acc + 1, b_end := max (b_end acc) (index + 1),
        b_map := (if dirp \<and> mine \<and> index < 2 ^ 20 then set_grown index b (b_map acc) else b_map acc)\<rparr>))"

text \<open>A row of pointers to data blocks, the first of which is file block \<^term>\<open>base\<close>.\<close>

definition check_row :: "u32 \<Rightarrow> bool \<Rightarrow> nat \<Rightarrow> u32 list \<Rightarrow> blocks_acc \<Rightarrow> ('d check_state, blocks_acc) op" where
  "check_row ino dirp base ps acc =
     foldE (enumerate base ps) (\<lambda>acc (i, p). if p \<noteq> 0 then check_data ino dirp i p acc else retE acc) acc"

definition check_single :: "'d device \<Rightarrow> u32 \<Rightarrow> bool \<Rightarrow> inode \<Rightarrow> blocks_acc \<Rightarrow> ('d check_state, blocks_acc) op" where
  "check_single dev ino dirp i acc =
     (if single_indirect i = 0 then retE acc
      else
        let acc = acc\<lparr>b_owned := b_owned acc + 1\<rparr> in
        bindE (claim ino (single_indirect i) P_single 0) (\<lambda>mine.
        if \<not> mine then retE acc
        else bindE (read_pointers dev (single_indirect i)) (\<lambda>p.
          check_row ino dirp DIRECT_PTRS p acc)))"

definition check_double :: "'d device \<Rightarrow> u32 \<Rightarrow> bool \<Rightarrow> inode \<Rightarrow> blocks_acc \<Rightarrow> ('d check_state, blocks_acc) op" where
  "check_double dev ino dirp i acc =
     (if double_indirect i = 0 then retE acc
      else
        let acc = acc\<lparr>b_owned := b_owned acc + 1\<rparr> in
        bindE (claim ino (double_indirect i) P_dbl 0) (\<lambda>mine.
        if \<not> mine then retE acc
        else bindE (read_pointers dev (double_indirect i)) (\<lambda>top.
          foldE (enumerate 0 top) (\<lambda>acc (k, second).
            if second = 0 then retE acc
            else
              let acc = acc\<lparr>b_owned := b_owned acc + 1\<rparr> in
              bindE (claim ino second P_dbl2 k) (\<lambda>mine.
              if \<not> mine then retE acc
              else bindE (read_pointers dev second) (\<lambda>p.
                check_row ino dirp (DIRECT_PTRS + PTRS_PER_BLOCK + k * PTRS_PER_BLOCK) p acc))) acc)))"

definition check_file_size :: "u32 \<Rightarrow> inode \<Rightarrow> nat \<Rightarrow> ('d check_state, unit) op" where
  "check_file_size ino i endb =
     (let size_blocks = unat ((size_of i + of_nat BLOCK_SIZE - 1) div of_nat BLOCK_SIZE) in
      whenE (endb > size_blocks)
        (problem (''inode '' @ str32 ino @ '' owns file block '' @ str (endb - 1) @ '', past the end of its ''
           @ str (unat (size_of i)) @ ''-byte size'')))"

definition check_dir_size :: "u32 \<Rightarrow> inode \<Rightarrow> nat \<Rightarrow> u32 list \<Rightarrow> ('d check_state, unit) op" where
  "check_dir_size ino i endb dmap =
     (let who = ''directory inode '' @ str32 ino; sz = unat (size_of i); nblocks = sz div BLOCK_SIZE in
      thenE (whenE (sz mod BLOCK_SIZE \<noteq> 0)
        (problem (who @ '': size '' @ str sz @ '' is not a whole number of blocks'')))
     (thenE (whenE (nblocks = 0)
        (problem (who @ '' has no blocks: it needs one for '' @ quoted ''.'' @ '' and '' @ quoted ''..'')))
     (thenE (whenE (endb > nblocks)
        (problem (who @ '' owns file block '' @ str (endb - 1) @ '', past the end of its '' @ str sz @ ''-byte size'')))
     (case find (\<lambda>k. k \<ge> length dmap \<or> dmap ! k = 0) [0..<nblocks] of
        Some k \<Rightarrow> problem (who @ '' has a hole at file block '' @ str k)
      | None \<Rightarrow> retE ()))))"

definition check_blocks :: "'d device \<Rightarrow> u32 \<Rightarrow> ('d check_state, unit) op" where
  "check_blocks dev ino =
     bindE (ck (\<lambda>c. (c_inodes c ! unat ino, c_kind c ! unat ino = K_dir))) (\<lambda>(i, dirp).
     bindE (ck (\<lambda>c. dir_blocks c ! unat ino)) (\<lambda>dmap.
     bindE (check_row ino dirp 0 (direct i) \<lparr>b_owned = 0, b_end = 0, b_map = dmap\<rparr>) (\<lambda>acc.
     bindE (check_single dev ino dirp i acc) (\<lambda>acc.
     bindE (check_double dev ino dirp i acc) (\<lambda>acc.
     thenE (whenE (b_owned acc \<noteq> unat (block_count i))
       (problem (''inode '' @ str32 ino @ '': block_count is '' @ str32 (block_count i) @ '', but it owns ''
          @ str (b_owned acc) @ '' blocks'')))
    (thenE (whenE (unat (size_of i) > MAX_FILE_BLOCKS * BLOCK_SIZE)
       (problem (''inode '' @ str32 ino @ '': size '' @ str (unat (size_of i)) @ '' is larger than any file can be'')))
    (if \<not> dirp then check_file_size ino i (b_end acc)
     else
       thenE (check_dir_size ino i (b_end acc) (b_map acc))
       (upd_ck (\<lambda>c. c\<lparr>dir_blocks := (dir_blocks c)[unat ino := take (unat (size_of i) div BLOCK_SIZE) (b_map acc)]\<rparr>)))))))))"

text \<open>The kind of an inode by its mode, and the problem of one that is neither.\<close>

definition check_kind :: "u32 \<Rightarrow> inode \<Rightarrow> ('d check_state, unit) op" where
  "check_kind ino i =
     (if mode i = MODE_FILE OR FILE_PERM then upd_ck (\<lambda>c. c\<lparr>c_kind := (c_kind c)[unat ino := K_file]\<rparr>)
      else if mode i = MODE_DIR OR DIR_PERM then upd_ck (\<lambda>c. c\<lparr>c_kind := (c_kind c)[unat ino := K_dir]\<rparr>)
      else thenE (problem (''inode '' @ str32 ino @ '': mode 0'' @ octal (unat (mode i))
             @ '' is neither a file (0100644) nor a directory (040755)''))
           (upd_ck (\<lambda>c. c\<lparr>c_kind := (c_kind c)[unat ino := K_bad]\<rparr>)))"

definition check_inode :: "'d device \<Rightarrow> u32 \<Rightarrow> ('d check_state, unit) op" where
  "check_inode dev ino =
     bindE (ck (\<lambda>c. (c_inodes c ! unat ino, inode_bm c))) (\<lambda>(i, bm).
     bindE (test_bit_of bm ino) (\<lambda>marked.
     let is_zero = (i = zero_inode) in
     if ino = 0 then
       thenE (whenE (\<not> marked) (problem ''inode 0 is reserved but not marked in the inode bitmap''))
       (whenE (\<not> is_zero) (problem ''inode 0 is reserved and should be all zeros''))
     else if \<not> marked then
       whenE (\<not> is_zero) (problem (''inode '' @ str32 ino @ '' is free but not zeroed''))
     else
       thenE (upd_report (\<lambda>r. r\<lparr>inodes_used := inodes_used r + 1\<rparr>))
      (thenE (whenE (id_of i \<noteq> ino)
         (problem (''inode '' @ str32 ino @ '': its id field says '' @ str32 (id_of i))))
      (thenE (check_kind ino i)
      (thenE (whenE (link_count i = 0)
         (problem (''inode '' @ str32 ino @ '' is in use but has link_count 0'')))
      (check_blocks dev ino))))))"

definition check_inodes :: "'d device \<Rightarrow> ('d check_state, unit) op" where
  "check_inodes dev =
     bindE (ck c_sb) (\<lambda>sb.
     thenE (forE [0..<unat (inode_count sb)] (\<lambda>i. check_inode dev (of_nat i)))
    (bindE (ck c_kind) (\<lambda>ks.
     whenE (inode_count sb \<le> ROOT_INODE \<or> ks ! unat ROOT_INODE \<noteq> K_dir)
       (problem (''the root, inode '' @ str32 ROOT_INODE @ '', is not a directory in use'')))))"

section \<open>The tree\<close>

definition check_dot :: "string \<Rightarrow> dir_entry \<Rightarrow> string \<Rightarrow> u32 \<Rightarrow> ('d check_state, unit) op" where
  "check_dot who e want_name want_id =
     (let want_len = length want_name;
          name_ok = (unat (name_len e) = want_len \<and> take want_len (name e) = str_bytes want_name)
      in
      if \<not> name_ok \<or> dtype e \<noteq> FT_DIR
      then problem (who @ '': slot '' @ (if want_len = 1 then ''0'' else ''1'') @ '' should be ''
             @ quoted want_name @ '', a directory entry'')
      else whenE (inode_id e \<noteq> want_id)
        (problem (who @ '': '' @ quoted want_name @ '' points to inode '' @ str32 (inode_id e)
           @ '', but should point to inode '' @ str32 want_id)))"

type_synonym dir_stack = "(u32 \<times> u32) list"

definition add_ref :: "u32 \<Rightarrow> checker \<Rightarrow> checker" where
  "add_ref x c = c\<lparr>c_refs := (c_refs c)[unat x := c_refs c ! unat x + 1]\<rparr>"

definition add_name :: "u32 \<Rightarrow> checker \<Rightarrow> checker" where
  "add_name x c = c\<lparr>c_names := (c_names c)[unat x := c_names c ! unat x + 1]\<rparr>"

definition mark_reachable :: "u32 \<Rightarrow> checker \<Rightarrow> checker" where
  "mark_reachable x c = c\<lparr>reachable := (reachable c)[unat x := True]\<rparr>"

definition check_name :: "string \<Rightarrow> dir_entry \<Rightarrow> nat \<Rightarrow> bytes \<Rightarrow> ('d check_state, unit) op" where
  "check_name who e slot nm =
     (if name_len e = 0 \<or> unat (name_len e) > MAX_NAME_LEN
      then problem (who @ '': slot '' @ str slot @ '' has a name '' @ str (unat (name_len e)) @ '' bytes long'')
      else if 0x2F \<in> set nm \<or> 0 \<in> set nm
      then problem (''entry '' @ quoted (text_of nm) @ '' in '' @ who @ '' has a '' @ [CHR 0x27, CHR 0x2F, CHR 0x27]
             @ '' or NUL in its name'')
      else if nm = str_bytes ''.'' \<or> nm = str_bytes ''..''
      then problem (who @ '': an extra '' @ quoted (text_of nm) @ '' entry in slot '' @ str slot)
      else retE ())"

text \<open>What an entry in use points at. Returns the stack with a directory found for the first time.\<close>

definition check_target ::
  "u32 \<Rightarrow> string \<Rightarrow> dir_entry \<Rightarrow> bytes \<Rightarrow> dir_stack \<Rightarrow> ('d check_state, dir_stack) op" where
  "check_target dir who e nm stack =
     (let x = inode_id e; entry = ''entry '' @ quoted (text_of nm) @ '' in '' @ who in
      bindE (ck c_sb) (\<lambda>sb.
      if x \<ge> inode_count sb
      then thenE (problem (entry @ '' points to inode '' @ str32 x @ '', which does not exist'')) (retE stack)
      else
        thenE (upd_ck (add_ref x))
       (bindE (ck (\<lambda>c. c_kind c ! unat x)) (\<lambda>k.
        if k = K_none
        then thenE (problem (entry @ '' points to inode '' @ str32 x @ '', which is not in use'')) (retE stack)
        else if k = K_bad
        then thenE (upd_ck (\<lambda>c. mark_reachable x (add_name x c))) (retE stack)
        else
          let want = (if k = K_dir then FT_DIR else FT_FILE) in
          thenE (whenE (dtype e \<noteq> want)
            (problem (entry @ '' has type '' @ str (unat (dtype e)) @ '', but inode '' @ str32 x @ '' is a ''
               @ (if k = K_dir then ''directory'' else ''file''))))
         (thenE (upd_ck (add_name x))
         (bindE (ck (\<lambda>c. c_names c ! unat x)) (\<lambda>n.
          if n > 1 \<or> x = ROOT_INODE then retE stack
          else
            thenE (upd_ck (mark_reachable x))
            (if k = K_dir then retE (stack @ [(x, dir)])
             else thenE (upd_report (\<lambda>r. r\<lparr>r_files := r_files r + 1\<rparr>)) (retE stack)))))))))"

text \<open>One slot of a directory; \<^term>\<open>seen\<close> are the names found so far.\<close>

definition check_slot ::
  "u32 \<Rightarrow> u32 \<Rightarrow> block \<Rightarrow> nat \<Rightarrow> bytes set \<times> dir_stack \<Rightarrow> nat \<Rightarrow> ('d check_state, bytes set \<times> dir_stack) op" where
  "check_slot dir parent b fb acc s =
     (let e = decode_dir_entry (get_at (s * DIRENT_SIZE) DIRENT_SIZE b);
          slot = fb * DIRENTS_PER_BLOCK + s;
          who = ''directory inode '' @ str32 dir;
          seen = fst acc; stack = snd acc
      in
      if slot < 2 then
        thenE (check_dot who e (if slot = 0 then ''.'' else ''..'') (if slot = 0 then dir else parent))
       (thenE (bindE (ck c_sb) (\<lambda>sb.
          whenE (inode_id e \<noteq> 0 \<and> inode_id e < inode_count sb) (upd_ck (add_ref (inode_id e)))))
        (retE acc))
      else if inode_id e = 0 then
        thenE (whenE (e \<noteq> zero_dir_entry) (problem (who @ '': free slot '' @ str slot @ '' is not zeroed'')))
        (retE acc)
      else
        let nm = take (min (unat (name_len e)) MAX_NAME_LEN) (name e) in
        thenE (check_name who e slot nm)
       (thenE (whenE (nm \<in> seen) (problem (who @ '' has two entries named '' @ quoted (text_of nm))))
       (bindE (check_target dir who e nm stack) (\<lambda>stack.
        retE (insert nm seen, stack)))))"

definition check_directory :: "'d device \<Rightarrow> u32 \<Rightarrow> u32 \<Rightarrow> dir_stack \<Rightarrow> ('d check_state, dir_stack) op" where
  "check_directory dev dir parent stack =
     bindE (ck (\<lambda>c. dir_blocks c ! unat dir)) (\<lambda>blocks.
     bindE (foldE (enumerate 0 blocks) (\<lambda>acc (fb, blk).
        if blk = 0 then retE acc
        else bindE (ck_read dev blk) (\<lambda>b.
          foldE [0..<DIRENTS_PER_BLOCK] (\<lambda>acc s. check_slot dir parent b fb acc s) acc)) ({}, stack))
     (\<lambda>(_, stack). retE stack))"

text \<open>
  The loop over the stack, the last element first, with fuel. A directory goes on the stack when
  the first entry that names it is found, so there are at most as many turns as inodes while the
  32-bit counters of names do not wrap.
\<close>

fun walk_stack :: "'d device \<Rightarrow> nat \<Rightarrow> dir_stack \<Rightarrow> ('d check_state, unit) op" where
  "walk_stack dev fuel [] = retE ()"
| "walk_stack dev 0 (x # xs) = haltE Spins"
| "walk_stack dev (Suc fuel) (x # xs) =
     (let stack = x # xs; (dir, parent) = last stack in
      thenE (upd_report (\<lambda>r. r\<lparr>r_directories := r_directories r + 1\<rparr>))
     (bindE (check_directory dev dir parent (butlast stack)) (\<lambda>stack.
      walk_stack dev fuel stack)))"

definition walk_tree :: "'d device \<Rightarrow> ('d check_state, unit) op" where
  "walk_tree dev =
     bindE (ck (\<lambda>c. (c_kind c, unat (inode_count (c_sb c))))) (\<lambda>(ks, n).
     if length ks \<le> unat ROOT_INODE \<or> ks ! unat ROOT_INODE \<noteq> K_dir then retE ()
     else
       thenE (upd_ck (mark_reachable ROOT_INODE))
       (walk_stack dev (n + 1) [(ROOT_INODE, ROOT_INODE)]))"

section \<open>Links and the data bitmap\<close>

definition check_link :: "u32 \<Rightarrow> ('d check_state, unit) op" where
  "check_link ino =
     bindE (ck (\<lambda>c. (c_kind c ! unat ino, c_names c ! unat ino, c_refs c ! unat ino, reachable c ! unat ino,
         link_count (c_inodes c ! unat ino)))) (\<lambda>(k, nms, rfs, reach, links).
     if k = K_none then retE ()
     else
       let who = (if k = K_dir then ''directory'' else if k = K_file then ''file'' else ''bad'') @ '' inode '' @ str32 ino;
           count = whenE (k \<noteq> K_bad \<and> ucast links \<noteq> rfs)
             (problem (who @ '' has link_count '' @ str (unat links) @ '', but '' @ str32 rfs
                @ (if rfs = 1 then '' directory entry names it'' else '' directory entries name it'')))
       in
       if ino = ROOT_INODE then
         thenE (whenE (nms > 0)
           (problem (''the root directory is named by '' @ str32 nms @ '' entries; only its own ''
              @ quoted ''.'' @ '' and '' @ quoted ''..'' @ '' may name it''))) count
       else if \<not> reach then problem (who @ '' is in use but not reachable from the root'')
       else
         thenE (whenE (nms > 1)
           (problem (who @ '' is named by '' @ str32 nms @ '' entries; it must have exactly one name''))) count)"

definition check_links :: "('d check_state, unit) op" where
  "check_links =
     bindE (ck c_sb) (\<lambda>sb. forE [1..<unat (inode_count sb)] (\<lambda>i. check_link (of_nat i)))"

definition check_bit :: "u32 \<Rightarrow> ('d check_state, unit) op" where
  "check_bit b =
     bindE (ck (\<lambda>c. (block_bm c, c_sb c, owner c ! unat b))) (\<lambda>(bm, sb, own).
     bindE (test_bit_of bm b) (\<lambda>marked.
     if b < data_start sb
     then whenE (\<not> marked) (problem (''metadata block '' @ str32 b @ '' is not marked in use in the data bitmap''))
     else if own \<noteq> 0 \<and> \<not> marked
     then problem (''block '' @ str32 b @ '' is owned by inode '' @ str32 own @ '' but not marked in use in the data bitmap'')
     else whenE (own = 0 \<and> marked)
       (problem (''block '' @ str32 b @ '' is marked in use, but no inode owns it (leaked)''))))"

definition check_data_bitmap :: "('d check_state, unit) op" where
  "check_data_bitmap =
     bindE (ck c_sb) (\<lambda>sb. forE [0..<unat (total_blocks sb)] (\<lambda>b. check_bit (of_nat b)))"

section \<open>The whole check\<close>

definition checker_run :: "'d device \<Rightarrow> ('d check_state, unit) op" where
  "checker_run dev =
     bindE (check_superblock dev) (\<lambda>good.
     if \<not> good then retE ()
     else
       bindE (ck c_sb) (\<lambda>sb.
       bindE (on_device (bm_load dev (inode_bitmap_start sb) (bitmap_new (inode_count sb)))) (\<lambda>ibm.
       thenE (upd_ck (\<lambda>c. c\<lparr>inode_bm := ibm\<rparr>))
      (bindE (on_device (bm_load dev (data_bitmap_start sb) (bitmap_new (total_blocks sb)))) (\<lambda>bbm.
       thenE (upd_ck (\<lambda>c. c\<lparr>block_bm := bbm\<rparr>))
      (thenE (load_inodes dev)
      (thenE (check_inodes dev)
      (thenE (walk_tree dev)
      (thenE check_links
      (thenE check_data_bitmap
      (thenE (upd_ck (\<lambda>c. c\<lparr>report := (report c)\<lparr>blocks_used := count_set (block_bm c)\<rparr>\<rparr>))
      (upd_ck (\<lambda>c. if suppressed c > 0
          then c\<lparr>report := (report c)\<lparr>problems := problems (report c)
             @ [''... and '' @ str (suppressed c) @ '' more problems'']\<rparr>\<rparr>
          else c)))))))))))))"

definition fsck :: "'d device \<Rightarrow> ('d, fsck_report) op" where
  "fsck dev = (\<lambda>d. case checker_run dev (checker_new, d) of
       (Ret _, (c, d')) \<Rightarrow> (Ret (report c), d')
     | (Raise e, (c, d')) \<Rightarrow> (Raise e, d')
     | (Halted h, (c, d')) \<Rightarrow> (Halted h, d'))"

end
