(* ===== verification/Outcomes.thy ===== *)
theory Outcomes
  imports Prelude
begin

text \<open>
  Rules, one per combinator, for how an operation can end: from a state that satisfies \<^term>\<open>P\<close> it
  ends in such a state, by a return with a value that satisfies \<^term>\<open>V\<close> or by an exception that
  satisfies \<^term>\<open>E\<close>, or it halts. Halting by a crash is always possible; any other cause needs
  \<^term>\<open>H\<close>, which says which causes there can be and in what state they leave the process.
\<close>

fun outcome_ok :: "('s \<Rightarrow> bool) \<Rightarrow> ('a \<Rightarrow> bool) \<Rightarrow> (exn \<Rightarrow> bool) \<Rightarrow> (cause \<Rightarrow> 's \<Rightarrow> bool) \<Rightarrow> 'a outcome \<times> 's \<Rightarrow> bool" where
  "outcome_ok P V E H (Ret x, s) \<longleftrightarrow> V x \<and> P s"
| "outcome_ok P V E H (Raise e, s) \<longleftrightarrow> E e \<and> P s"
| "outcome_ok P V E H (Halted h, s) \<longleftrightarrow> h = Crash \<or> H h s"

definition ends :: "('s \<Rightarrow> bool) \<Rightarrow> ('a \<Rightarrow> bool) \<Rightarrow> (exn \<Rightarrow> bool) \<Rightarrow> (cause \<Rightarrow> 's \<Rightarrow> bool) \<Rightarrow> ('s, 'a) op \<Rightarrow> bool" where
  "ends P V E H m \<longleftrightarrow> (\<forall>s. P s \<longrightarrow> outcome_ok P V E H (m s))"

named_theorems ends_rules \<open>how the combinators end\<close>

abbreviation any :: "'a \<Rightarrow> bool" where
  "any \<equiv> (\<lambda>_. True)"

text \<open>Halts by a crash only; may halt in any way.\<close>

abbreviation crash_only :: "cause \<Rightarrow> 's \<Rightarrow> bool" where
  "crash_only \<equiv> (\<lambda>_ _. False)"

abbreviation some_way :: "cause \<Rightarrow> 's \<Rightarrow> bool" where
  "some_way \<equiv> (\<lambda>_ _. True)"

lemma ends_at: "ends P V E H m \<Longrightarrow> P s \<Longrightarrow> outcome_ok P V E H (m s)"
  by (simp add: ends_def)

lemma ends_by: "(\<And>s. P s \<Longrightarrow> outcome_ok P V E H (m s)) \<Longrightarrow> ends P V E H m"
  by (simp add: ends_def)

lemma endsD:
  assumes "ends P V E H m" and "P s"
  shows "m s = (Ret x, s') \<Longrightarrow> V x" "m s = (Ret x, s') \<Longrightarrow> P s'" "m s = (Raise e, s') \<Longrightarrow> E e" "m s = (Raise e, s') \<Longrightarrow> P s'"
  using ends_at [OF assms] by simp_all

lemma endsH: "ends P V E H m \<Longrightarrow> P s \<Longrightarrow> m s = (Halted h, s') \<Longrightarrow> h = Crash \<or> H h s'"
  using ends_at [of P V E H m s] by simp

lemma endsI:
  assumes "\<And>s x s'. P s \<Longrightarrow> m s = (Ret x, s') \<Longrightarrow> V x \<and> P s'" and "\<And>s e s'. P s \<Longrightarrow> m s = (Raise e, s') \<Longrightarrow> E e \<and> P s'"
    and "\<And>s h s'. P s \<Longrightarrow> m s = (Halted h, s') \<Longrightarrow> h = Crash \<or> H h s'"
  shows "ends P V E H m"
proof (rule ends_by)
  fix s assume s: "P s"
  obtain r s' where m: "m s = (r, s')" by fastforce
  with assms(1) [OF s] assms(2) [OF s] assms(3) [OF s] show "outcome_ok P V E H (m s)" by (cases r) simp_all
qed

lemma ends_weaken: "ends P V E H m \<Longrightarrow> (\<And>x. V x \<Longrightarrow> V' x) \<Longrightarrow> (\<And>e. E e \<Longrightarrow> E' e) \<Longrightarrow> ends P V' E' H m"
  by (rule endsI) (blast dest: endsD endsH)+

lemma ends_halts: "ends P V E H m \<Longrightarrow> (\<And>h s. H h s \<Longrightarrow> H' h s) \<Longrightarrow> ends P V E H' m"
  by (rule endsI) (blast dest: endsD endsH)+

lemma ends_quiet: "ends P V E crash_only m \<Longrightarrow> ends P V E H m"
  by (erule ends_halts) simp

section \<open>How a result came about\<close>

lemma bindE_eq_Raise:
  "bindE m f s = (Raise e, s'') \<longleftrightarrow> m s = (Raise e, s'') \<or> (\<exists>x s'. m s = (Ret x, s') \<and> f x s' = (Raise e, s''))"
  by (auto simp: bindE_def split: prod.splits outcome.splits)

lemma catchE_eq:
  "catchE m h s = (r, s'') \<longleftrightarrow> (m s = (r, s'') \<and> (\<forall>e. r \<noteq> Raise e)) \<or> (\<exists>e s'. m s = (Raise e, s') \<and> h e s' = (r, s''))"
  by (auto simp: catchE_def split: prod.splits outcome.splits)

lemma bindE_eq_Halted:
  "bindE m f s = (Halted h, s'') \<longleftrightarrow> m s = (Halted h, s'') \<or> (\<exists>x s'. m s = (Ret x, s') \<and> f x s' = (Halted h, s''))"
  by (auto simp: bindE_def split: prod.splits outcome.splits)

section \<open>The rules\<close>

declare TrueI [ends_rules]

lemma ends_ret [ends_rules]: "V x \<Longrightarrow> ends P V E H (retE x)"
  by (simp add: ends_def)

lemma ends_throw [ends_rules]: "E e \<Longrightarrow> ends P V E H (throwE e)"
  by (simp add: ends_def)

lemma ends_halt: "(\<And>s. P s \<Longrightarrow> h = Crash \<or> H h s) \<Longrightarrow> ends P V E H (haltE h)"
  by (simp add: ends_def)

lemma ends_get [ends_rules]: "ends P any E H (getE f)"
  by (simp add: ends_def)

lemma ends_mod: "(\<And>s. P s \<Longrightarrow> P (f s)) \<Longrightarrow> ends P any E H (modE f)"
  by (simp add: ends_def)

lemma ends_mod_any [ends_rules]: "ends any any E H (modE f)"
  by (simp add: ends_mod)

lemma ends_bind:
  assumes "ends P W E H m" and "\<And>x. W x \<Longrightarrow> ends P V E H (f x)"
  shows "ends P V E H (bindE m f)"
proof (rule endsI)
  fix s x s' assume "P s" "bindE m f s = (Ret x, s')"
  then obtain y s1 where "m s = (Ret y, s1)" "f y s1 = (Ret x, s')" by (auto simp: bindE_eq_Ret)
  with \<open>P s\<close> show "V x \<and> P s'" using endsD [OF assms(1)] endsD [OF assms(2)] by blast
next
  fix s e s' assume "P s" "bindE m f s = (Raise e, s')"
  then show "E e \<and> P s'" using endsD [OF assms(1)] endsD [OF assms(2)] unfolding bindE_eq_Raise by metis
next
  fix s h s' assume "P s" "bindE m f s = (Halted h, s')"
  then show "h = Crash \<or> H h s'" using endsH [OF assms(1)] endsD(1,2) [OF assms(1)] endsH [OF assms(2)] unfolding bindE_eq_Halted by metis
qed

lemma ends_bind_any [ends_rules]: "ends P any E H m \<Longrightarrow> (\<And>x. ends P V E H (f x)) \<Longrightarrow> ends P V E H (bindE m f)"
  by (rule ends_bind)

lemma ends_then [ends_rules]: "ends P any E H m \<Longrightarrow> ends P V E H m' \<Longrightarrow> ends P V E H (thenE m m')"
  unfolding thenE_def by (rule ends_bind_any)

lemma ends_if [ends_rules]: "(b \<Longrightarrow> ends P V E H m) \<Longrightarrow> (\<not> b \<Longrightarrow> ends P V E H m') \<Longrightarrow> ends P V E H (if b then m else m')"
  by simp

lemma ends_when [ends_rules]: "ends P any E H m \<Longrightarrow> ends P any E H (whenE b m)"
  unfolding whenE_def by (intro ends_rules) simp_all

lemma ends_lift: "(\<And>e. r = Inl e \<Longrightarrow> E e) \<Longrightarrow> ends P any E H (liftE r)"
  by (cases r) (simp_all add: ends_def liftE_def)

lemma ends_handler:
  assumes "ends P V E' H m" and "\<And>e. E' e \<Longrightarrow> ends P V E H (h e)"
  shows "ends P V E H (catchE m h)"
proof (rule endsI)
  fix s x s' assume "P s" "catchE m h s = (Ret x, s')"
  then show "V x \<and> P s'" using endsD [OF assms(1)] endsD [OF assms(2)] unfolding catchE_eq by blast
next
  fix s e s' assume "P s" "catchE m h s = (Raise e, s')"
  then show "E e \<and> P s'" using endsD [OF assms(1)] endsD [OF assms(2)] unfolding catchE_eq by metis
next
  fix s c s' assume "P s" "catchE m h s = (Halted c, s')"
  then show "c = Crash \<or> H c s'" using endsH [OF assms(1)] endsD(3,4) [OF assms(1)] endsH [OF assms(2)] unfolding catchE_eq by metis
qed

lemma ends_catch [ends_rules]: "ends P V E H m \<Longrightarrow> (\<And>e. E e \<Longrightarrow> ends P V E H (h e)) \<Longrightarrow> ends P V E H (catchE m h)"
  by (rule ends_handler)

lemma ends_cleanup [ends_rules]: "ends P V E H m \<Longrightarrow> ends P any E H c \<Longrightarrow> ends P V E H (cleanupE m c)"
  unfolding cleanupE_def by (intro ends_rules)

lemma ends_finally [ends_rules]: "ends P V E H m \<Longrightarrow> ends P any E H c \<Longrightarrow> ends P V E H (finallyE m c)"
  unfolding finallyE_def by (rule ends_bind, erule (1) ends_cleanup) (intro ends_rules)

lemma ends_for [ends_rules]: "(\<And>x. ends P any E H (f x)) \<Longrightarrow> ends P any E H (forE xs f)"
  by (induction xs) (auto intro: ends_rules)

lemma ends_fold: "V b \<Longrightarrow> (\<And>b x. V b \<Longrightarrow> ends P V E H (f b x)) \<Longrightarrow> ends P V E H (foldE xs f b)"
  by (induction xs arbitrary: b) (auto intro: ends_rules ends_bind)

lemma ends_fold_any [ends_rules]: "(\<And>b x. ends P any E H (f b x)) \<Longrightarrow> ends P any E H (foldE xs f b)"
  by (rule ends_fold) simp_all

lemma ends_prod [ends_rules]: "(\<And>a b. ends P V E H (f a b)) \<Longrightarrow> ends P V E H (case x of (a, b) \<Rightarrow> f a b)"
  by (cases x) simp

lemma ends_option [ends_rules]:
  "ends P V E H m \<Longrightarrow> (\<And>a. ends P V E H (f a)) \<Longrightarrow> ends P V E H (case x of None \<Rightarrow> m | Some a \<Rightarrow> f a)"
  by (cases x) simp_all

lemma ends_sum [ends_rules]:
  "(\<And>a. ends P V E H (f a)) \<Longrightarrow> (\<And>b. ends P V E H (g b)) \<Longrightarrow> ends P V E H (case x of Inl a \<Rightarrow> f a | Inr b \<Rightarrow> g b)"
  by (cases x) simp_all

text \<open>On a part of the state, which has its own predicate.\<close>

lemma ends_zoom:
  assumes "ends Q V E H' m" and "\<And>s. P s \<Longrightarrow> Q (get s)" and "\<And>s a. P s \<Longrightarrow> Q a \<Longrightarrow> P (put a s)"
    and "\<And>s h a. P s \<Longrightarrow> H' h a \<Longrightarrow> H h (put a s)"
  shows "ends P V E H (zoomE get put m)"
proof (rule endsI)
  fix s x s' assume "P s" "zoomE get put m s = (Ret x, s')"
  then show "V x \<and> P s'" using endsD [OF assms(1) assms(2)] assms(3) by (auto simp: zoomE_def split: prod.splits)
next
  fix s e s' assume "P s" "zoomE get put m s = (Raise e, s')"
  then show "E e \<and> P s'" using endsD [OF assms(1) assms(2)] assms(3) by (auto simp: zoomE_def split: prod.splits)
next
  fix s h s' assume "P s" "zoomE get put m s = (Halted h, s')"
  then show "h = Crash \<or> H h s'" using endsH [OF assms(1) assms(2)] assms(4) by (fastforce simp: zoomE_def split: prod.splits)
qed

section \<open>Operations that return\<close>

text \<open>From a state that satisfies \<^term>\<open>P\<close> the operation returns, and its value and the state after it satisfy \<^term>\<open>Q\<close>.\<close>

definition works :: "('s \<Rightarrow> bool) \<Rightarrow> ('s, 'a) op \<Rightarrow> ('a \<Rightarrow> 's \<Rightarrow> bool) \<Rightarrow> bool" where
  "works P m Q \<longleftrightarrow> (\<forall>s. P s \<longrightarrow> (\<exists>x s'. m s = (Ret x, s') \<and> Q x s'))"

named_theorems works_rules \<open>how the combinators return\<close>

lemma worksI: "(\<And>s. P s \<Longrightarrow> \<exists>x s'. m s = (Ret x, s') \<and> Q x s') \<Longrightarrow> works P m Q"
  by (simp add: works_def)

lemma worksD: "works P m Q \<Longrightarrow> P s \<Longrightarrow> \<exists>x s'. m s = (Ret x, s') \<and> Q x s'"
  by (simp add: works_def)

lemma works_conseq: "works P m Q \<Longrightarrow> (\<And>s. P' s \<Longrightarrow> P s) \<Longrightarrow> (\<And>x s. Q x s \<Longrightarrow> Q' x s) \<Longrightarrow> works P' m Q'"
  unfolding works_def by blast

text \<open>What holds of every state there is to start from can be assumed.\<close>

lemma works_fact: "(\<And>s. P s \<Longrightarrow> F) \<Longrightarrow> (F \<Longrightarrow> works P m Q) \<Longrightarrow> works P m Q"
  unfolding works_def by blast

lemma works_given: "(\<And>a. works (\<lambda>s. P s \<and> f s = a) m Q) \<Longrightarrow> works P m Q"
  unfolding works_def by blast

lemma works_bind: "works P m R \<Longrightarrow> (\<And>x. works (R x) (f x) Q) \<Longrightarrow> works P (bindE m f) Q"
  unfolding works_def bindE_def by fastforce

lemma works_then: "works P m (\<lambda>_. R) \<Longrightarrow> works R m' Q \<Longrightarrow> works P (thenE m m') Q"
  unfolding thenE_def by (rule works_bind)

lemma works_ret: "(\<And>s. P s \<Longrightarrow> Q x s) \<Longrightarrow> works P (retE x) Q"
  by (simp add: works_def)

lemma works_get: "(\<And>s. P s \<Longrightarrow> Q (f s) s) \<Longrightarrow> works P (getE f) Q"
  by (simp add: works_def)

lemma works_mod: "(\<And>s. P s \<Longrightarrow> Q () (f s)) \<Longrightarrow> works P (modE f) Q"
  by (simp add: works_def)

lemma works_if [works_rules]: "(b \<Longrightarrow> works P m Q) \<Longrightarrow> (\<not> b \<Longrightarrow> works P m' Q) \<Longrightarrow> works P (if b then m else m') Q"
  by simp

lemma works_prod [works_rules]: "(\<And>a b. x = (a, b) \<Longrightarrow> works P (f a b) Q) \<Longrightarrow> works P (case x of (a, b) \<Rightarrow> f a b) Q"
  by (cases x) simp

lemma works_option [works_rules]:
  "(x = None \<Longrightarrow> works P m Q) \<Longrightarrow> (\<And>a. x = Some a \<Longrightarrow> works P (f a) Q) \<Longrightarrow> works P (case x of None \<Rightarrow> m | Some a \<Rightarrow> f a) Q"
  by (cases x) simp_all

lemma works_zoom:
  assumes "works P' m (\<lambda>x a. Q' x a)" and "\<And>s. P s \<Longrightarrow> P' (get s)" and "\<And>s x a. P s \<Longrightarrow> Q' x a \<Longrightarrow> Q x (put a s)"
  shows "works P (zoomE get put m) Q"
proof (rule worksI)
  fix s assume "P s"
  from worksD [OF assms(1) assms(2) [OF this]] obtain x a where "m (get s) = (Ret x, a)" "Q' x a" by blast
  with assms(3) [OF \<open>P s\<close>] show "\<exists>x s'. zoomE get put m s = (Ret x, s') \<and> Q x s'" by (auto simp: zoomE_def)
qed

text \<open>Loops, with an invariant that goes with the accumulator.\<close>

lemma works_fold:
  "(\<And>x acc. x \<in> set xs \<Longrightarrow> works (I acc) (f acc x) I) \<Longrightarrow> works (I acc) (foldE xs f acc) I"
proof (induction xs arbitrary: acc)
  case (Cons x xs)
  show ?case unfolding foldE.simps by (rule works_bind [of _ _ I]) (use Cons in simp_all)
qed (unfold foldE.simps, rule works_ret)

text \<open>A loop whose turns use up what there is: each its own share, and all of them no more than \<^term>\<open>N\<close>.\<close>

lemma works_fold_share:
  fixes w :: "'b \<Rightarrow> nat"
  assumes "\<And>x acc n. x \<in> set xs \<Longrightarrow> n + w x \<le> N \<Longrightarrow> works (I n acc) (f acc x) (I (n + w x))"
    and "n + sum_list (map w xs) \<le> N"
  shows "works (I n acc) (foldE xs f acc) (I (n + sum_list (map w xs)))"
  using assms
proof (induction xs arbitrary: n acc)
  case (Cons x xs)
  have "works (I n acc) (f acc x) (I (n + w x))" by (rule Cons.prems(1)) (use Cons.prems(2) in simp_all)
  moreover have "works (I (n + w x) acc) (foldE xs f acc) (I (n + sum_list (map w (x # xs))))" for acc
    using Cons.IH [of "n + w x" acc] Cons.prems by (simp add: add.assoc)
  ultimately show ?case unfolding foldE.simps by (rule works_bind)
qed (unfold foldE.simps, rule works_ret, simp)

lemma works_for:
  "(\<And>x. x \<in> set xs \<Longrightarrow> works P (f x) (\<lambda>_. P)) \<Longrightarrow> works P (forE xs f) (\<lambda>_. P)"
proof (induction xs)
  case (Cons x xs)
  show ?case unfolding forE.simps by (rule works_then [of _ _ P]) (use Cons in simp_all)
qed (unfold forE.simps, rule works_ret)

text \<open>An operation that keeps \<^term>\<open>P\<close>.\<close>

abbreviation steady :: "('s \<Rightarrow> bool) \<Rightarrow> ('s, 'a) op \<Rightarrow> bool" where
  "steady P m \<equiv> works P m (\<lambda>_. P)"

lemma steady_rules [works_rules]:
  "steady P (retE x)" "steady P (getE f)" "(\<And>s. P s \<Longrightarrow> P (g s)) \<Longrightarrow> steady P (modE g)"
  "steady P m \<Longrightarrow> (\<And>x. works P (k x) Q) \<Longrightarrow> works P (bindE m k) Q" "steady P m \<Longrightarrow> works P m' Q \<Longrightarrow> works P (thenE m m') Q"
  "steady P w \<Longrightarrow> steady P (whenE b w)"
proof -
  show "steady P (retE x)" "steady P (getE f)" by (simp_all add: works_ret works_get)
  show "(\<And>s. P s \<Longrightarrow> P (g s)) \<Longrightarrow> steady P (modE g)" by (rule works_mod)
  show "steady P m \<Longrightarrow> (\<And>x. works P (k x) Q) \<Longrightarrow> works P (bindE m k) Q" by (rule works_bind)
  show "steady P m \<Longrightarrow> works P m' Q \<Longrightarrow> works P (thenE m m') Q" by (rule works_then)
  show "steady P w \<Longrightarrow> steady P (whenE b w)" by (simp add: whenE_def works_ret)
qed

section \<open>What holds if it returns\<close>

definition gives :: "('s \<Rightarrow> bool) \<Rightarrow> ('s, 'a) op \<Rightarrow> ('a \<Rightarrow> 's \<Rightarrow> bool) \<Rightarrow> bool" where
  "gives P m Q \<longleftrightarrow> (\<forall>s x s'. P s \<longrightarrow> m s = (Ret x, s') \<longrightarrow> Q x s')"

named_theorems gives_rules \<open>what the combinators keep\<close>

lemma givesI: "(\<And>s x s'. P s \<Longrightarrow> m s = (Ret x, s') \<Longrightarrow> Q x s') \<Longrightarrow> gives P m Q"
  by (simp add: gives_def)

lemma givesD: "gives P m Q \<Longrightarrow> P s \<Longrightarrow> m s = (Ret x, s') \<Longrightarrow> Q x s'"
  by (simp add: gives_def)

lemma works_gives: "works P m Q \<Longrightarrow> gives P m Q"
  by (fastforce simp: works_def gives_def)

lemma gives_conseq: "gives P m Q \<Longrightarrow> (\<And>s. P' s \<Longrightarrow> P s) \<Longrightarrow> (\<And>x s. Q x s \<Longrightarrow> Q' x s) \<Longrightarrow> gives P' m Q'"
  unfolding gives_def by blast

lemma gives_fact: "(\<And>s. P s \<Longrightarrow> F) \<Longrightarrow> (F \<Longrightarrow> gives P m Q) \<Longrightarrow> gives P m Q"
  unfolding gives_def by blast

lemma gives_bind: "gives P m R \<Longrightarrow> (\<And>x. gives (R x) (f x) Q) \<Longrightarrow> gives P (bindE m f) Q"
  unfolding gives_def bindE_eq_Ret by blast

lemma gives_then: "gives P m (\<lambda>_. R) \<Longrightarrow> gives R m' Q \<Longrightarrow> gives P (thenE m m') Q"
  unfolding thenE_def by (rule gives_bind)

lemma gives_ret: "(\<And>s. P s \<Longrightarrow> Q x s) \<Longrightarrow> gives P (retE x) Q"
  by (simp add: gives_def)

lemma gives_kill [gives_rules]: "gives P (haltE h) Q" "gives P (throwE e) Q"
  by (simp_all add: gives_def)

lemma gives_when: "(b \<Longrightarrow> gives P m (\<lambda>_. Q)) \<Longrightarrow> (\<And>s. \<not> b \<Longrightarrow> P s \<Longrightarrow> Q s) \<Longrightarrow> gives P (whenE b m) (\<lambda>_. Q)"
  by (simp add: whenE_def gives_ret)

lemma gives_if [gives_rules]: "(b \<Longrightarrow> gives P m Q) \<Longrightarrow> (\<not> b \<Longrightarrow> gives P m' Q) \<Longrightarrow> gives P (if b then m else m') Q"
  by simp

lemma gives_prod [gives_rules]: "(\<And>a b. x = (a, b) \<Longrightarrow> gives P (f a b) Q) \<Longrightarrow> gives P (case x of (a, b) \<Rightarrow> f a b) Q"
  by (cases x) simp

lemma gives_option [gives_rules]:
  "(x = None \<Longrightarrow> gives P m Q) \<Longrightarrow> (\<And>a. x = Some a \<Longrightarrow> gives P (f a) Q) \<Longrightarrow> gives P (case x of None \<Rightarrow> m | Some a \<Rightarrow> f a) Q"
  by (cases x) simp_all

lemma gives_steps [gives_rules]:
  "gives P (retE x) (\<lambda>_. P)"
  "gives P m (\<lambda>_. P) \<Longrightarrow> (\<And>x. gives P (k x) Q) \<Longrightarrow> gives P (bindE m k) Q"
  "gives P m (\<lambda>_. P) \<Longrightarrow> gives P m' Q \<Longrightarrow> gives P (thenE m m') Q"
  "gives P w (\<lambda>_. P) \<Longrightarrow> gives P (whenE b w) (\<lambda>_. P)"
proof -
  show "gives P (retE x) (\<lambda>_. P)" by (simp add: gives_def)
  show "gives P m (\<lambda>_. P) \<Longrightarrow> (\<And>x. gives P (k x) Q) \<Longrightarrow> gives P (bindE m k) Q" by (rule gives_bind)
  show "gives P m (\<lambda>_. P) \<Longrightarrow> gives P m' Q \<Longrightarrow> gives P (thenE m m') Q" by (rule gives_then)
  show "gives P w (\<lambda>_. P) \<Longrightarrow> gives P (whenE b w) (\<lambda>_. P)" by (simp add: whenE_def gives_ret)
qed

text \<open>Loops, with an invariant that goes with the part done.\<close>

lemma gives_fold:
  assumes "\<And>ys x acc. x \<in> set xs \<Longrightarrow> gives (I ys acc) (f acc x) (I (ys @ [x]))"
  shows "gives (I zs acc) (foldE xs f acc) (I (zs @ xs))"
  using assms
proof (induction xs arbitrary: zs acc)
  case (Cons x xs)
  have "gives (I zs acc) (f acc x) (I (zs @ [x]))" by (rule Cons.prems) simp
  moreover have "gives (I (zs @ [x]) acc) (foldE xs f acc) (I (zs @ x # xs))" for acc
    using Cons.IH [of "zs @ [x]"] Cons.prems by simp
  ultimately show ?case unfolding foldE.simps by (rule gives_bind)
qed (unfold foldE.simps, rule gives_ret, simp)

lemma gives_for:
  assumes "\<And>ys x. x \<in> set xs \<Longrightarrow> gives (I ys) (f x) (\<lambda>_. I (ys @ [x]))"
  shows "gives (I zs) (forE xs f) (\<lambda>_. I (zs @ xs))"
  using assms
proof (induction xs arbitrary: zs)
  case (Cons x xs)
  have "gives (I zs) (f x) (\<lambda>_. I (zs @ [x]))" by (rule Cons.prems) simp
  moreover have "gives (I (zs @ [x])) (forE xs f) (\<lambda>_. I (zs @ x # xs))"
    using Cons.IH [of "zs @ [x]"] Cons.prems by simp
  ultimately show ?case unfolding forE.simps by (rule gives_then)
qed (unfold forE.simps, rule gives_ret, simp)

end
