(* ===== verification/Fsck_Total.thy ===== *)
theory Fsck_Total
  imports Fsck Outcomes Mkfs
begin

text \<open>
  The checker always reports: on an image with any contents, however damaged, \<^verbatim>\<open>fsck\<close> reads no block
  that is not there, tests no bit that is not there and ends its walk.
\<close>

section \<open>What the checker keeps\<close>

definition base :: "superblock \<Rightarrow> checker \<Rightarrow> bool" where
  "base sb c \<longleftrightarrow> c_sb c = sb \<and> nbits (inode_bm c) = inode_count sb \<and> nbits (block_bm c) = total_blocks sb \<and>
     length (c_names c) = unat (inode_count sb) \<and> length (owner c) = unat (total_blocks sb) \<and>
     length (dir_blocks c) = unat (inode_count sb)"

abbreviation nonzero :: "u32 list \<Rightarrow> u32 list" where
  "nonzero \<equiv> filter (\<lambda>b. b \<noteq> 0)"

text \<open>The blocks in a directory's list are its own: no block is in the lists of two, or twice in one.\<close>

definition own_ok :: "superblock \<Rightarrow> checker \<Rightarrow> u32 \<Rightarrow> u32 list \<Rightarrow> bool" where
  "own_ok sb c i xs \<longleftrightarrow> distinct (nonzero xs) \<and> (\<forall>b \<in> set (nonzero xs). b < total_blocks sb \<and> owner c ! unat b = i)"

definition claims_ok :: "superblock \<Rightarrow> checker \<Rightarrow> bool" where
  "claims_ok sb c \<longleftrightarrow> (\<forall>i. 0 < i \<longrightarrow> i < inode_count sb \<longrightarrow> own_ok sb c i (dir_blocks c ! unat i))"

text \<open>A claimed block was nobody's before.\<close>

lemma own_ok_claim:
  assumes "own_ok sb c i xs" and "i \<noteq> 0" and "owner c ! unat b = 0" and "own = (owner c)[unat b := j]"
  shows "own_ok sb (c\<lparr>owner := own\<rparr>) i xs"
proof -
  have "unat x \<noteq> unat b" if "x \<in> set (nonzero xs)" for x using assms(1-3) that by (auto simp: own_ok_def)
  then have "own ! unat x = owner c ! unat x" if "x \<in> set (nonzero xs)" for x using that assms(4) by (metis nth_list_update_neq)
  then show ?thesis using assms(1) unfolding own_ok_def by simp
qed

lemma own_ok_dirs [simp]: "own_ok sb (c\<lparr>dir_blocks := ds\<rparr>) i xs = own_ok sb c i xs"
  by (simp add: own_ok_def)

lemma nonzero_set_grown:
  assumes "b \<noteq> 0" and "b \<notin> set xs" and "distinct (nonzero xs)"
  shows "distinct (nonzero (set_grown k b xs))" "set (nonzero (set_grown k b xs)) \<subseteq> insert b (set (nonzero xs))"
proof -
  define ys where "ys = xs @ replicate (k + 1 - length xs) 0"
  have k: "k < length ys" by (simp add: ys_def)
  have ys: "distinct (nonzero ys)" "set ys \<subseteq> insert 0 (set xs)" using assms(3) by (auto simp: ys_def)
  have u: "ys[k := b] = take k ys @ b # drop (Suc k) ys" using k by (rule upd_conv_take_nth_drop)
  have d: "ys = take k ys @ ys ! k # drop (Suc k) ys" using k by (rule id_take_nth_drop)
  have "distinct (nonzero (take k ys) @ nonzero (drop (Suc k) ys))"
    using ys(1) by (subst (asm) d) (auto split: if_splits)
  moreover have "b \<notin> set (take k ys)" "b \<notin> set (drop (Suc k) ys)"
    using ys(2) assms(1,2) by (auto dest: in_set_takeD in_set_dropD)
  ultimately show "distinct (nonzero (set_grown k b xs))"
    unfolding set_grown_def ys_def [symmetric] u using assms(1) by auto
  show "set (nonzero (set_grown k b xs)) \<subseteq> insert b (set (nonzero xs))"
    unfolding set_grown_def ys_def [symmetric] u using ys(2) by (auto dest: in_set_takeD in_set_dropD)
qed

text \<open>There are not more blocks in the lists than on the disk.\<close>

lemma blocks_of_dirs:
  assumes "claims_ok sb c" and "finite S" and "\<And>i. i \<in> S \<Longrightarrow> 0 < i \<and> i < inode_count sb"
  shows "(\<Sum>i \<in> S. length (nonzero (dir_blocks c ! unat i))) \<le> unat (total_blocks sb)"
proof -
  let ?B = "\<lambda>i. set (nonzero (dir_blocks c ! unat i))"
  have own: "own_ok sb c i (dir_blocks c ! unat i)" if "i \<in> S" for i using assms(1,3) that by (auto simp: claims_ok_def)
  have dis: "?B i \<inter> ?B j = {}" if "i \<in> S" "j \<in> S" "i \<noteq> j" for i j
    using own [OF that(1)] own [OF that(2)] that(3) by (fastforce simp: own_ok_def)
  have "(\<Sum>i \<in> S. length (nonzero (dir_blocks c ! unat i))) = (\<Sum>i \<in> S. card (?B i))"
    by (rule sum.cong [OF refl], rule distinct_card [symmetric]) (use own in \<open>simp add: own_ok_def\<close>)
  also have "\<dots> = card (\<Union>i \<in> S. ?B i)" using assms(2) dis by (intro card_UN_disjoint [symmetric]) auto
  also have "\<dots> = card (unat ` (\<Union>i \<in> S. ?B i))" by (rule card_image [symmetric], rule inj_onI) (simp add: word_unat_eq_iff)
  also have "\<dots> \<le> card {..<unat (total_blocks sb)}"
    using own by (intro card_mono) (auto simp: own_ok_def word_less_nat_alt)
  finally show ?thesis by simp
qed

lemma own_ok_grow:
  assumes "own_ok sb c i m" and "0 < b" and "b < total_blocks sb" and "owner c ! unat b = i" and "b \<notin> set m"
  shows "own_ok sb c i (set_grown k b m)"
proof -
  have "b \<noteq> 0" using assms(2) by simp
  with nonzero_set_grown [OF this assms(5), of k] assms show ?thesis unfolding own_ok_def by blast
qed

lemma own_ok_take: "own_ok sb c i m \<Longrightarrow> own_ok sb c i (take k m)"
proof -
  assume o: "own_ok sb c i m"
  have "nonzero m = nonzero (take k m) @ nonzero (drop k m)" by (metis append_take_drop_id filter_append)
  with o show ?thesis unfolding own_ok_def by (metis UnCI distinct_append set_append)
qed

lemma of_nat_below: "i < unat n \<Longrightarrow> of_nat i < (n :: 'a::len word)"
  by (simp add: word_less_nat_alt unat_of_nat le_less_trans [OF mod_less_eq_dividend])

text \<open>How many names any inode has been found to have, at most.\<close>

definition names_below :: "checker \<Rightarrow> nat \<Rightarrow> bool" where
  "names_below c k \<longleftrightarrow> (\<forall>n \<in> set (c_names c). unat n \<le> k)"

lemma names_below_simps [simp]:
  "names_below (c\<lparr>report := r\<rparr>) k = names_below c k" "names_below (c\<lparr>suppressed := n\<rparr>) k = names_below c k"
  "names_below (c\<lparr>c_kind := ks\<rparr>) k = names_below c k" "names_below (c\<lparr>owner := own\<rparr>) k = names_below c k"
  "names_below (c\<lparr>dir_blocks := ds\<rparr>) k = names_below c k"
  by (simp_all add: names_below_def)

definition checked :: "superblock \<Rightarrow> checker \<Rightarrow> bool" where
  "checked sb c \<longleftrightarrow> base sb c \<and> claims_ok sb c \<and> names_below c 0"

section \<open>Up to the walk\<close>

definition at_inode :: "superblock \<Rightarrow> u32 \<Rightarrow> u32 list \<Rightarrow> checker \<Rightarrow> bool" where
  "at_inode sb ino m c \<longleftrightarrow> base sb c \<and> claims_ok sb c \<and> names_below c 0 \<and> own_ok sb c ino m"

lemma checked_report [simp]:
  "checked sb (c\<lparr>report := r\<rparr>) = checked sb c" "checked sb (c\<lparr>suppressed := n\<rparr>) = checked sb c"
  "checked sb (c\<lparr>c_kind := ks\<rparr>) = checked sb c"
  by (simp_all add: checked_def base_def claims_ok_def own_ok_def)

lemma at_inode_report [simp]:
  "at_inode sb ino m (c\<lparr>report := r\<rparr>) = at_inode sb ino m c" "at_inode sb ino m (c\<lparr>suppressed := n\<rparr>) = at_inode sb ino m c"
  by (simp_all add: at_inode_def base_def claims_ok_def own_ok_def)

lemma at_inode_start: "checked sb c \<Longrightarrow> 0 < ino \<Longrightarrow> ino < inode_count sb \<Longrightarrow> at_inode sb ino (dir_blocks c ! unat ino) c"
  by (simp add: checked_def at_inode_def claims_ok_def)

lemma at_inode_checked: "at_inode sb ino m c \<Longrightarrow> checked sb c"
  by (simp add: checked_def at_inode_def)

lemma at_inode_stored:
  assumes "at_inode sb ino m c" and "ino < inode_count sb"
  shows "checked sb (c\<lparr>dir_blocks := (dir_blocks c)[unat ino := take k m]\<rparr>)"
proof -
  have "unat ino < length (dir_blocks c)" using assms by (simp add: at_inode_def base_def word_less_nat_alt)
  have "own_ok sb c i ((dir_blocks c)[unat ino := take k m] ! unat i)" if "0 < i" "i < inode_count sb" for i
  proof (cases "i = ino")
    case False
    then have "unat ino \<noteq> unat i" by (metis word_unat_eq_iff)
    then show ?thesis using assms(1) that by (simp add: at_inode_def claims_ok_def)
  qed (use \<open>unat ino < _\<close> assms(1) in \<open>simp add: at_inode_def own_ok_take\<close>)
  then show ?thesis using assms(1) by (simp add: checked_def at_inode_def base_def claims_ok_def)
qed

context block_dev
begin

text \<open>The checker's state and the device's: nothing on the device changes.\<close>

definition seeing :: "(u32 \<Rightarrow> block) \<Rightarrow> (checker \<Rightarrow> bool) \<Rightarrow> 'd check_state \<Rightarrow> bool" where
  "seeing v C s \<longleftrightarrow> C (fst s) \<and> invar (snd s) \<and> blocks (snd s) = v"

lemma upd_ck_works: "(\<And>c. C c \<Longrightarrow> C' (f c)) \<Longrightarrow> works (seeing v C) (upd_ck f) (\<lambda>_. seeing v C')"
  unfolding upd_ck_def by (rule works_mod) (auto simp: seeing_def split: prod.splits)

lemma ck_works: "works (seeing v C) (ck f) (\<lambda>x. seeing v (\<lambda>c. C c \<and> x = f c))"
  unfolding ck_def by (rule works_get) (auto simp: seeing_def split: prod.splits)

lemma ck_steady [works_rules]: "steady (seeing v C) (ck f)"
  by (rule works_conseq [OF ck_works]) (auto simp: seeing_def)

lemma problem_works [works_rules]:
  "(\<And>c r n. C (c\<lparr>report := r\<rparr>) = C c \<and> C (c\<lparr>suppressed := n\<rparr>) = C c) \<Longrightarrow> steady (seeing v C) (problem t)"
  unfolding problem_def by (rule upd_ck_works) auto

lemma read_works:
  assumes "b < dev_count D"
  shows "steady (seeing v C) (ck_read D b)"
  unfolding ck_read_def on_device_def
proof (rule works_zoom [where P' = "\<lambda>d. invar d \<and> blocks d = v" and Q' = "\<lambda>_ d. invar d \<and> blocks d = v"])
  show "works (\<lambda>d. invar d \<and> blocks d = v) (read_block D b) (\<lambda>_ d. invar d \<and> blocks d = v)"
    using read_ok [OF _ assms] by (intro worksI) blast
qed (auto simp: seeing_def)

lemma read_pointers_works: "b < dev_count D \<Longrightarrow> steady (seeing v C) (read_pointers D b)"
  unfolding read_pointers_def by (intro works_rules read_works)

lemma test_bit_works: "i < nbits bm \<Longrightarrow> steady P (test_bit_of bm i)"
  by (simp add: test_bit_of_def is_set_def works_ret linorder_not_le [symmetric])

lemma claim_works:
  assumes "wf_super sb" and "0 < ino"
  shows "works (seeing v (at_inode sb ino m)) (claim ino b p k)
    (\<lambda>mine. seeing v (\<lambda>c. at_inode sb ino m c \<and> (mine \<longrightarrow> 0 < b \<and> b < total_blocks sb \<and> owner c ! unat b = ino \<and> b \<notin> set m)))"
    (is "works _ _ ?Q")
proof (rule worksI)
  fix s assume s: "seeing v (at_inode sb ino m) s"
  obtain c d where cd: "s = (c, d)" by fastforce
  have c: "at_inode sb ino m c" "invar d" "blocks d = v" "c_sb c = sb" using s by (simp_all add: seeing_def cd at_inode_def base_def)
  have refused: "\<exists>x s'. thenE (problem t) (retE False) s = (Ret x, s') \<and> ?Q x s'" for t
    using worksD [OF works_then [OF problem_works works_ret [where Q = ?Q and x = False]] s] by (simp add: seeing_def)
  let ?out = "b < data_start sb \<or> b \<ge> total_blocks sb" and ?o = "owner c ! unat b"
  show "\<exists>x s'. claim ino b p k s = (Ret x, s') \<and> ?Q x s'"
  proof (cases "?out \<or> ?o \<noteq> 0")
    case True
    then show ?thesis using refused assms(2) unfolding cd claim_def ck_def by (auto simp: c(4))
  next
    case False
    then have b: "0 < b" "b < total_blocks sb" "?o = 0"
      using assms(1) by (auto simp: wf_super_def word_less_nat_alt not_le not_less word_le_nat_alt)
    let ?c = "c\<lparr>owner := (owner c)[unat b := ino]\<rparr>"
    have run: "claim ino b p k s = (Ret True, (?c, d))"
      using False assms(2) by (auto simp: cd claim_def ck_def c(4) upd_ck_def thenE_def)
    have len: "unat b < length (owner c)" using c(1) b(2) by (simp add: at_inode_def base_def word_less_nat_alt)
    have own: "own_ok sb ?c i xs" if "own_ok sb c i xs" "i \<noteq> 0" for i xs
      by (rule own_ok_claim [OF that b(3) refl])
    have "b \<notin> set m" using c(1) b(1,3) assms(2) by (auto simp: at_inode_def own_ok_def)
    moreover have "at_inode sb ino m ?c" using c(1) own assms(2) by (auto simp: at_inode_def base_def claims_ok_def)
    ultimately show ?thesis using run b(1,2) len c(2,3) by (intro exI [of _ True] exI [of _ "(?c, d)"]) (simp add: seeing_def)
  qed
qed

abbreviation scanning :: "superblock \<Rightarrow> (u32 \<Rightarrow> block) \<Rightarrow> u32 \<Rightarrow> blocks_acc \<Rightarrow> 'd check_state \<Rightarrow> bool" where
  "scanning sb v ino acc \<equiv> seeing v (at_inode sb ino (b_map acc))"

lemma check_data_works:
  assumes "wf_super sb" and "0 < ino"
  shows "works (scanning sb v ino acc) (check_data ino dirp k b acc) (scanning sb v ino)"
  unfolding check_data_def
  by (rule works_bind [OF claim_works [OF assms]], rule works_ret)
     (auto simp: seeing_def at_inode_def intro: own_ok_grow)

lemma check_row_works:
  assumes "wf_super sb" and "0 < ino"
  shows "works (scanning sb v ino acc) (check_row ino dirp k ps acc) (scanning sb v ino)"
  unfolding check_row_def
proof (rule works_fold)
  fix x :: "nat \<times> u32" and acc
  obtain j p where x: "x = (j, p)" by fastforce
  show "works (scanning sb v ino acc) (case x of (i, p) \<Rightarrow> if p \<noteq> 0 then check_data ino dirp i p acc else retE acc) (scanning sb v ino)"
    using check_data_works [OF assms] by (simp add: x works_ret)
qed

text \<open>A block that has been claimed is there to be read, and its pointers are followed.\<close>

lemma claimed_works:
  assumes "wf_super sb" and "0 < ino" and "dev_count D = total_blocks sb"
    and "b < dev_count D \<Longrightarrow> works (scanning sb v ino acc) m (scanning sb v ino)"
  shows "works (scanning sb v ino acc) (bindE (claim ino b p j) (\<lambda>mine. if \<not> mine then retE acc else m)) (scanning sb v ino)"
proof (rule works_bind [OF claim_works [OF assms(1,2)]], rule works_fact)
  fix mine s
  let ?C = "\<lambda>c. at_inode sb ino (b_map acc) c \<and> (mine \<longrightarrow> 0 < b \<and> b < total_blocks sb \<and> owner c ! unat b = ino \<and> b \<notin> set (b_map acc))"
  show "seeing v ?C s \<Longrightarrow> mine \<longrightarrow> b < dev_count D" by (simp add: seeing_def assms(3))
  assume "mine \<longrightarrow> b < dev_count D"
  then have "works (scanning sb v ino acc) (if \<not> mine then retE acc else m) (scanning sb v ino)"
    using assms(4) by (simp add: works_ret)
  then show "works (seeing v ?C) (if \<not> mine then retE acc else m) (scanning sb v ino)"
    by (rule works_conseq) (simp_all add: seeing_def)
qed

lemma claimed_row_works:
  assumes "wf_super sb" and "0 < ino" and "dev_count D = total_blocks sb"
  shows "works (scanning sb v ino acc) (bindE (claim ino b p j) (\<lambda>mine. if \<not> mine then retE acc
      else bindE (read_pointers D b) (\<lambda>ps. check_row ino dirp k ps acc))) (scanning sb v ino)"
  by (rule claimed_works [OF assms], intro works_bind [OF read_pointers_works] check_row_works assms)

lemma check_single_works:
  assumes "wf_super sb" and "0 < ino" and "dev_count D = total_blocks sb"
  shows "works (scanning sb v ino acc) (check_single D ino dirp i acc) (scanning sb v ino)"
  unfolding check_single_def Let_def
  using claimed_row_works [OF assms, of v "acc\<lparr>b_owned := b_owned acc + 1\<rparr>"] by (simp add: works_ret)

lemma check_double_works:
  assumes "wf_super sb" and "0 < ino" and "dev_count D = total_blocks sb"
  shows "works (scanning sb v ino acc) (check_double D ino dirp i acc) (scanning sb v ino)"
proof -
  let ?b = "double_indirect i" and ?acc = "acc\<lparr>b_owned := b_owned acc + 1\<rparr>"
  let ?row = "\<lambda>acc (k, second). if second = 0 then retE acc
            else
              let acc = acc\<lparr>b_owned := b_owned acc + 1\<rparr> in
              bindE (claim ino second P_dbl2 k) (\<lambda>mine.
              if \<not> mine then retE acc
              else bindE (read_pointers D second) (\<lambda>p.
                check_row ino dirp (DIRECT_PTRS + PTRS_PER_BLOCK + k * PTRS_PER_BLOCK) p acc))"
  have row: "works (scanning sb v ino acc) (?row acc x) (scanning sb v ino)" for acc x
    using claimed_row_works [OF assms, of v "acc\<lparr>b_owned := Suc (b_owned acc)\<rparr>"]
    by (cases x) (simp add: works_ret Let_def)
  have rows: "works (scanning sb v ino ?acc) (bindE (read_pointers D ?b) (\<lambda>top. foldE (enumerate 0 top) ?row ?acc))
      (scanning sb v ino)" if "?b < dev_count D"
    using row that by (intro works_bind [OF read_pointers_works] works_fold)
  have "works (scanning sb v ino ?acc) (bindE (claim ino ?b P_dbl 0) (\<lambda>mine. if \<not> mine then retE ?acc
      else bindE (read_pointers D ?b) (\<lambda>top. foldE (enumerate 0 top) ?row ?acc))) (scanning sb v ino)"
    by (rule claimed_works [OF assms]) (use rows in simp_all)
  then show ?thesis unfolding check_double_def Let_def by (simp add: works_ret)
qed

lemma check_file_size_works: "steady (scanning sb v ino acc) (check_file_size ino' i k)"
  unfolding check_file_size_def Let_def by (intro works_rules) simp

lemma check_dir_size_works: "steady (scanning sb v ino acc) (check_dir_size ino' i k m)"
  unfolding check_dir_size_def Let_def by (intro works_rules) simp_all

lemma check_blocks_works:
  assumes "wf_super sb" and "0 < ino" and "ino < inode_count sb" and "dev_count D = total_blocks sb"
  shows "steady (seeing v (checked sb)) (check_blocks D ino)"
proof -
  let ?acc = "\<lambda>m. \<lparr>b_owned = 0, b_end = 0, b_map = m\<rparr>"
  have start: "works (seeing v (checked sb)) (ck (\<lambda>c. dir_blocks c ! unat ino)) (\<lambda>m. scanning sb v ino (?acc m))"
    by (rule works_conseq [OF ck_works [where C = "checked sb"]]) (auto simp: seeing_def intro: at_inode_start assms)
  have finish: "works (scanning sb v ino acc) (if \<not> dirp then check_file_size ino i (b_end acc)
     else thenE (check_dir_size ino i (b_end acc) (b_map acc))
       (upd_ck (\<lambda>c. c\<lparr>dir_blocks := (dir_blocks c)[unat ino := take (unat (size_of i) div BLOCK_SIZE) (b_map acc)]\<rparr>)))
     (\<lambda>_. seeing v (checked sb))" for acc dirp i
  proof (rule works_if)
    show "works (scanning sb v ino acc) (check_file_size ino i (b_end acc)) (\<lambda>_. seeing v (checked sb))"
      by (rule works_conseq [OF check_file_size_works]) (auto simp: seeing_def intro: at_inode_checked)
  qed (intro works_then [OF check_dir_size_works] upd_ck_works at_inode_stored assms)
  show ?thesis unfolding check_blocks_def
    by (intro works_bind [OF ck_steady] works_prod works_bind [OF start] works_bind [OF check_row_works]
        works_bind [OF check_single_works] works_bind [OF check_double_works] steady_rules(5,6) problem_works finish assms) simp_all
qed

lemma check_kind_works: "steady (seeing v (checked sb)) (check_kind ino i)"
  unfolding check_kind_def by (intro works_rules upd_ck_works) simp_all

lemma upd_report_works [works_rules]:
  "(\<And>c r. C (c\<lparr>report := r\<rparr>) = C c) \<Longrightarrow> steady (seeing v C) (upd_report f)"
  unfolding upd_report_def by (rule upd_ck_works) simp

lemma tested_works:
  assumes "works P m (\<lambda>x s. R s \<and> i < nbits (h x))" and "\<And>x marked. works R (k x marked) Q"
  shows "works P (bindE m (\<lambda>x. bindE (test_bit_of (h x) i) (k x))) Q"
proof (rule works_bind [OF assms(1)], rule works_fact)
  fix x assume "i < nbits (h x)"
  then show "works (\<lambda>s. R s \<and> i < nbits (h x)) (bindE (test_bit_of (h x) i) (k x)) Q"
    by (intro works_conseq [OF works_bind [OF test_bit_works assms(2)]]) simp_all
qed simp

lemma check_inode_works:
  assumes "wf_super sb" and "ino < inode_count sb" and "dev_count D = total_blocks sb"
  shows "steady (seeing v (checked sb)) (check_inode D ino)"
proof -
  have start: "works (seeing v (checked sb)) (ck (\<lambda>c. (c_inodes c ! unat ino, inode_bm c)))
      (\<lambda>x s. seeing v (checked sb) s \<and> ino < nbits (snd x))"
    by (rule works_conseq [OF ck_works [where C = "checked sb"]])
       (use assms(2) in \<open>auto simp: seeing_def checked_def base_def\<close>)
  show ?thesis unfolding check_inode_def case_prod_beta Let_def
    by (rule tested_works [OF start])
       (intro works_rules check_kind_works check_blocks_works assms; simp add: word_neq_0_conv)
qed

lemma known_works:
  assumes "\<And>c. C c \<Longrightarrow> f c = a" and "works (seeing v C) (k a) Q"
  shows "works (seeing v C) (bindE (ck f) k) Q"
proof (rule works_bind [OF ck_works], rule works_fact)
  fix x s assume "seeing v (\<lambda>c. C c \<and> x = f c) s"
  then show "x = a" using assms(1) by (simp add: seeing_def)
next
  fix x assume x: "x = a"
  show "works (seeing v (\<lambda>c. C c \<and> x = f c)) (k x) Q"
    unfolding x by (rule works_conseq [OF assms(2)]) (simp_all add: seeing_def)
qed

lemma check_inodes_works:
  assumes "wf_super sb" and "dev_count D = total_blocks sb"
  shows "steady (seeing v (checked sb)) (check_inodes D)"
  unfolding check_inodes_def
proof (rule known_works [where a = sb], goal_cases)
  case 2
  have "steady (seeing v (checked sb)) (check_inode D (of_nat i))" if "i \<in> set [0..<unat (inode_count sb)]" for i
    by (rule check_inode_works [OF assms(1) _ assms(2)]) (use that in \<open>simp add: of_nat_below\<close>)
  then show ?case by (intro works_rules works_for) simp_all
qed (simp add: checked_def base_def)

end

section \<open>The walk\<close>

text \<open>
  The walk has been in the directories \<^term>\<open>V\<close>; the others on the stack are waiting. A directory
  gets there when its first name is found, so with less than \<^term>\<open>K\<close> names found so far, and no
  counter of names past its range, none is there twice.
\<close>

definition walking :: "superblock \<Rightarrow> u32 list list \<Rightarrow> u32 list \<Rightarrow> nat \<Rightarrow> dir_stack \<Rightarrow> checker \<Rightarrow> bool" where
  "walking sb ds V k stack c \<longleftrightarrow> base sb c \<and> dir_blocks c = ds \<and> names_below c k \<and>
     distinct (V @ map fst stack) \<and>
     (\<forall>x \<in> set (V @ map fst stack). 0 < x \<and> x < inode_count sb \<and> (x = ROOT_INODE \<or> 0 < c_names c ! unat x))"

lemma walking_simps [simp]:
  "walking sb ds V k stack (c\<lparr>report := r\<rparr>) = walking sb ds V k stack c"
  "walking sb ds V k stack (c\<lparr>suppressed := n\<rparr>) = walking sb ds V k stack c"
  "walking sb ds V k stack (add_ref x c) = walking sb ds V k stack c"
  "walking sb ds V k stack (mark_reachable x c) = walking sb ds V k stack c"
  by (simp_all add: walking_def base_def names_below_def add_ref_def mark_reachable_def)

lemma walking_more: "walking sb ds V k stack c \<Longrightarrow> k \<le> k' \<Longrightarrow> walking sb ds V k' stack c"
  by (fastforce simp: walking_def names_below_def)

lemma names_below_nth: "names_below c k \<Longrightarrow> i < length (c_names c) \<Longrightarrow> unat (c_names c ! i) \<le> k"
  by (simp add: names_below_def)

text \<open>A name is counted. The first that a directory gets shows that the walk has not met it.\<close>

lemma walking_name:
  assumes "walking sb ds V k stack c" and "x < inode_count sb" and "k + 1 < 2 ^ 32"
  shows "walking sb ds V (k + 1) stack (add_name x c)"
    and "\<not> 1 < c_names (add_name x c) ! unat x \<Longrightarrow> x \<noteq> ROOT_INODE \<Longrightarrow> x \<notin> set (V @ map fst stack)"
    and "0 < c_names (add_name x c) ! unat x"
proof -
  let ?n = "c_names c ! unat x"
  have len: "unat x < length (c_names c)" using assms(1,2) by (simp add: walking_def base_def word_less_nat_alt)
  then have "unat ?n \<le> k" using assms(1) names_below_nth by (simp add: walking_def)
  then have inc: "unat (?n + 1) = unat ?n + 1" using assms(3) by (simp add: unat_word_ariths)
  have "names_below (add_name x c) (k + 1)"
    using assms(1) inc \<open>unat ?n \<le> k\<close> set_update_subset_insert [of "c_names c" "unat x" "?n + 1"]
    by (fastforce simp: names_below_def add_name_def walking_def)
  moreover have "0 < c_names (add_name x c) ! unat y" if "0 < c_names c ! unat y" for y
    using that inc len by (cases "unat y = unat x") (auto simp: add_name_def word_less_nat_alt)
  ultimately show "walking sb ds V (k + 1) stack (add_name x c)"
    using assms(1) by (auto simp: walking_def base_def) (simp_all add: add_name_def)
  show "0 < c_names (add_name x c) ! unat x" using inc len by (simp add: add_name_def word_less_nat_alt)
  show "x \<notin> set (V @ map fst stack)" if "\<not> 1 < c_names (add_name x c) ! unat x" "x \<noteq> ROOT_INODE"
  proof
    assume "x \<in> set (V @ map fst stack)"
    with assms(1) that(2) have "0 < ?n" unfolding walking_def by blast
    then show False using that(1) inc len by (simp add: add_name_def word_less_nat_alt)
  qed
qed

lemma walking_push:
  "walking sb ds V k stack c \<Longrightarrow> 0 < x \<Longrightarrow> x < inode_count sb \<Longrightarrow> x \<notin> set (V @ map fst stack) \<Longrightarrow>
   0 < c_names c ! unat x \<Longrightarrow> walking sb ds V k (stack @ [(x, parent)]) c"
  by (auto simp: walking_def)

lemma walking_pop:
  "walking sb ds V k stack c \<Longrightarrow> stack \<noteq> [] \<Longrightarrow> walking sb ds (fst (last stack) # V) k (butlast stack) c"
  by (cases stack rule: rev_cases) (auto simp: walking_def)

text \<open>There is always room on the way: the walk has been in fewer directories than there are inodes.\<close>

lemma walking_room:
  assumes "walking sb ds V k stack c" and "stack \<noteq> []"
  shows "length V + 1 < unat (inode_count sb)"
proof -
  let ?xs = "V @ map fst stack"
  have "inj_on unat (set ?xs)" by (rule inj_onI) (metis word_unat_eq_iff)
  moreover have "distinct ?xs" using assms(1) unfolding walking_def by blast
  ultimately have "length ?xs = card (unat ` set ?xs)" by (simp only: card_image distinct_card)
  also have "\<dots> \<le> card {1..<unat (inode_count sb)}"
  proof (intro card_mono image_subsetI)
    fix x assume "x \<in> set ?xs"
    then have "0 < x \<and> x < inode_count sb" using assms(1) unfolding walking_def by blast
    then show "unat x \<in> {1..<unat (inode_count sb)}" by (simp add: word_less_nat_alt Suc_le_eq)
  qed simp
  finally show ?thesis using assms(2) by (cases stack) auto
qed

text \<open>What the walk needs of the directories' blocks.\<close>

definition dirs_ok :: "superblock \<Rightarrow> u32 list list \<Rightarrow> bool" where
  "dirs_ok sb ds \<longleftrightarrow> (\<forall>S. (\<forall>i \<in> S. 0 < i \<and> i < inode_count sb) \<longrightarrow>
      (\<Sum>i \<in> S. length (nonzero (ds ! unat i))) \<le> unat (total_blocks sb) \<and>
      (\<forall>i \<in> S. \<forall>b \<in> set (nonzero (ds ! unat i)). b < total_blocks sb))"

lemma checked_dirs_ok: "checked sb c \<Longrightarrow> dirs_ok sb (dir_blocks c)"
  using blocks_of_dirs by (auto simp: checked_def dirs_ok_def claims_ok_def own_ok_def)

context block_dev
begin

lemma named_works:
  assumes "x < inode_count sb" and "k + 1 < 2 ^ 32"
  shows "works (seeing v (walking sb ds V k stack)) (upd_ck (add_name x)) (\<lambda>_. seeing v (\<lambda>c.
    walking sb ds V (k + 1) stack c \<and> 0 < c_names c ! unat x \<and>
    (\<not> 1 < c_names c ! unat x \<longrightarrow> x \<noteq> ROOT_INODE \<longrightarrow> x \<notin> set (V @ map fst stack))))"
  by (rule upd_ck_works) (use walking_name [OF _ assms] in blast)

lemma first_name_works:
  assumes "0 < x" and "x < inode_count sb"
  shows "works (seeing v (\<lambda>c. walking sb ds V k stack c \<and> 0 < c_names c ! unat x \<and>
      (\<not> 1 < c_names c ! unat x \<longrightarrow> x \<noteq> ROOT_INODE \<longrightarrow> x \<notin> set (V @ map fst stack))))
    (bindE (ck (\<lambda>c. c_names c ! unat x)) (\<lambda>n.
          if n > 1 \<or> x = ROOT_INODE then retE stack
          else thenE (upd_ck (mark_reachable x))
            (if kd = K_dir then retE (stack @ [(x, dir)])
             else thenE (upd_report (\<lambda>r. r\<lparr>r_files := r_files r + 1\<rparr>)) (retE stack))))
    (\<lambda>stack. seeing v (walking sb ds V k stack))" (is "works (seeing v ?C) _ _")
proof (rule worksI)
  fix s assume s: "seeing v ?C s"
  obtain c d where cd: "s = (c, d)" by fastforce
  let ?n = "c_names c ! unat x"
  have push: "walking sb ds V k (stack @ [(x, dir)]) c" if "\<not> 1 < ?n" "x \<noteq> ROOT_INODE"
    by (rule walking_push) (use s assms that in \<open>simp_all add: seeing_def cd\<close>)
  show "\<exists>stack' s'. bindE (ck (\<lambda>c. c_names c ! unat x)) (\<lambda>n.
          if n > 1 \<or> x = ROOT_INODE then retE stack
          else thenE (upd_ck (mark_reachable x))
            (if kd = K_dir then retE (stack @ [(x, dir)])
             else thenE (upd_report (\<lambda>r. r\<lparr>r_files := r_files r + 1\<rparr>)) (retE stack))) s = (Ret stack', s') \<and>
      seeing v (walking sb ds V k stack') s'"
    using s push by (auto simp: seeing_def cd ck_def upd_ck_def upd_report_def thenE_def)
qed

lemma walking_kept:
  "(\<And>c. walking sb ds V k stack c \<Longrightarrow> walking sb ds V k stack (f c)) \<Longrightarrow> steady (seeing v (walking sb ds V k stack)) (upd_ck f)"
  by (rule upd_ck_works)

lemma check_target_works:
  assumes "0 < inode_id e" and "k + 1 < 2 ^ 32"
  shows "works (seeing v (walking sb ds V k stack)) (check_target dir who e nm stack)
    (\<lambda>stack. seeing v (walking sb ds V (k + 1) stack))"
proof -
  let ?P = "seeing v (walking sb ds V k stack)" and ?x = "inode_id e"
  have stay: "works ?P (retE stack) (\<lambda>stack. seeing v (walking sb ds V (k + 1) stack))"
    by (rule works_ret) (auto simp: seeing_def intro: walking_more)
  have said: "steady ?P (problem t)" for t by (rule problem_works) simp
  have bad: "works ?P (thenE (upd_ck (\<lambda>c. mark_reachable ?x (add_name ?x c))) (retE stack))
      (\<lambda>stack. seeing v (walking sb ds V (k + 1) stack))" if "?x < inode_count sb"
    by (rule works_then [where R = "seeing v (walking sb ds V (k + 1) stack)"], rule upd_ck_works)
       (use walking_name(1) [OF _ that assms(2)] in \<open>simp_all add: works_ret\<close>)
  show ?thesis unfolding check_target_def Let_def
    by (rule known_works [where a = sb], simp add: walking_def base_def)
       (intro works_if steady_rules(4-6) said stay bad walking_kept ck_steady
          works_then [OF named_works [OF _ assms(2)]] first_name_works assms(1); simp)
qed

lemma check_slot_works:
  assumes "k + 1 < 2 ^ 32"
  shows "works (seeing v (walking sb ds V k (snd acc))) (check_slot dir parent b fb acc s)
    (\<lambda>acc. seeing v (walking sb ds V (k + 1) (snd acc)))"
proof -
  let ?P = "seeing v (walking sb ds V k (snd acc))"
  have stay: "works ?P (retE acc) (\<lambda>acc. seeing v (walking sb ds V (k + 1) (snd acc)))"
    by (rule works_ret) (auto simp: seeing_def intro: walking_more)
  have said: "steady ?P (problem t)" for t by (rule problem_works) simp
  have dot: "steady ?P (check_dot who e nm want)" for who e nm want
    unfolding check_dot_def Let_def by (intro works_rules) simp_all
  have named: "steady ?P (check_name who e slot nm)" for who e slot nm
    unfolding check_name_def by (intro works_rules) simp_all
  show ?thesis unfolding check_slot_def Let_def
    by (intro works_if steady_rules(4-6) said stay dot named walking_kept ck_steady
          works_bind [OF check_target_works [OF _ assms]] works_ret; simp add: word_neq_0_conv)
qed

lemma check_block_works:
  assumes "k + DIRENTS_PER_BLOCK < 2 ^ 32" and "blk < dev_count D"
  shows "works (seeing v (walking sb ds V k (snd acc))) (bindE (ck_read D blk) (\<lambda>b.
      foldE [0..<DIRENTS_PER_BLOCK] (\<lambda>acc s. check_slot dir parent b fb acc s) acc))
    (\<lambda>acc. seeing v (walking sb ds V (k + DIRENTS_PER_BLOCK) (snd acc)))"
proof (rule works_bind [OF read_works [OF assms(2)]])
  fix b
  show "works (seeing v (walking sb ds V k (snd acc))) (foldE [0..<DIRENTS_PER_BLOCK] (\<lambda>acc s. check_slot dir parent b fb acc s) acc)
    (\<lambda>acc. seeing v (walking sb ds V (k + DIRENTS_PER_BLOCK) (snd acc)))"
    using works_fold_share [where xs = "[0..<DIRENTS_PER_BLOCK]" and w = "\<lambda>_. 1" and N = "2 ^ 32 - 1" and n = k
        and I = "\<lambda>k acc. seeing v (walking sb ds V k (snd acc))" and f = "\<lambda>acc s. check_slot dir parent b fb acc s" and acc = acc,
        OF check_slot_works] assms(1)
    by (simp add: sum_list_triv)
qed

lemma check_directory_works:
  assumes "dirs_ok sb ds" and "0 < dir" and "dir < inode_count sb" and "dev_count D = total_blocks sb"
    and "k + DIRENTS_PER_BLOCK * length (nonzero (ds ! unat dir)) < 2 ^ 32"
  shows "works (seeing v (walking sb ds V k stack)) (check_directory D dir parent stack)
    (\<lambda>stack. seeing v (walking sb ds V (k + DIRENTS_PER_BLOCK * length (nonzero (ds ! unat dir))) stack))"
proof -
  let ?ds = "ds ! unat dir" and ?w = "\<lambda>(fb :: nat, blk :: u32). if blk = 0 then 0 else DIRENTS_PER_BLOCK"
  let ?I = "\<lambda>k (acc :: bytes set \<times> dir_stack). seeing v (walking sb ds V k (snd acc))"
  let ?f = "\<lambda>acc (fb :: nat, blk :: u32). if blk = 0 then retE acc
        else bindE (ck_read D blk) (\<lambda>b. foldE [0..<DIRENTS_PER_BLOCK] (\<lambda>acc s. check_slot dir parent b fb acc s) acc)"
  have total: "sum_list (map ?w (enumerate n bs)) = DIRENTS_PER_BLOCK * length (nonzero bs)" for n bs
    by (induction bs arbitrary: n) auto
  have here: "b < dev_count D" if "b \<in> set ?ds" "b \<noteq> 0" for b
    using assms(1) [unfolded dirs_ok_def, rule_format, of "{dir}"] assms(2-4) that by simp
  have each: "works (?I n acc) (?f acc x) (?I (n + ?w x))" if "x \<in> set (enumerate 0 ?ds)" "n + ?w x \<le> 2 ^ 32 - 1" for x n acc
  proof -
    obtain fb blk where x: "x = (fb, blk)" by fastforce
    then have "blk \<in> set ?ds" using that(1) by (auto simp: in_set_enumerate_eq)
    then show ?thesis using that(2) here check_block_works [of n blk v sb ds V acc dir parent fb]
      by (cases "blk = 0") (simp_all add: x works_ret)
  qed
  have "works (?I k ({}, stack)) (foldE (enumerate 0 ?ds) ?f ({}, stack)) (?I (k + sum_list (map ?w (enumerate 0 ?ds))))"
    by (rule works_fold_share [where I = ?I and f = ?f and w = ?w and N = "2 ^ 32 - 1"], rule each) (use assms(5) in \<open>simp_all only: total\<close>)
  then have run: "works (seeing v (walking sb ds V k stack)) (foldE (enumerate 0 ?ds) ?f ({}, stack))
      (?I (k + DIRENTS_PER_BLOCK * length (nonzero ?ds)))" by (simp add: total)
  show ?thesis unfolding check_directory_def
    by (rule known_works [where a = ?ds], simp add: walking_def, rule works_bind [OF run])
       (intro works_prod works_ret, simp)
qed

text \<open>The fuel is enough: every turn is in a directory of its own.\<close>

abbreviation names_of :: "u32 list list \<Rightarrow> u32 list \<Rightarrow> nat" where
  "names_of ds V \<equiv> DIRENTS_PER_BLOCK * (\<Sum>i \<in> set V. length (nonzero (ds ! unat i)))"

lemma walk_stack_works:
  assumes "dirs_ok sb ds" and "dev_count D = total_blocks sb" and "unat (total_blocks sb) < 2 ^ 26"
    and "unat (inode_count sb) \<le> length V + fuel"
  shows "works (seeing v (walking sb ds V (names_of ds V) stack)) (walk_stack D fuel stack) (\<lambda>_. seeing v (base sb))"
  using assms(4)
proof (induction fuel arbitrary: V stack)
  case 0
  show ?case
  proof (cases stack)
    case Nil
    then show ?thesis by (auto simp: works_def seeing_def walking_def)
  next
    case (Cons x xs)
    have "\<not> seeing v (walking sb ds V (names_of ds V) stack) s" for s
      using walking_room [of sb ds V _ stack "fst s"] 0 Cons by (auto simp: seeing_def)
    then show ?thesis by (simp add: works_def)
  qed
next
  case (Suc fuel)
  show ?case
  proof (cases stack)
    case Nil
    then show ?thesis by (auto simp: works_def seeing_def walking_def)
  next
    case (Cons x xs)
    obtain dir parent where l: "last stack = (dir, parent)" by fastforce
    let ?k = "names_of ds V" and ?V = "dir # V" and ?P = "seeing v (walking sb ds V (names_of ds V) stack)"
    show ?thesis
    proof (rule works_fact [where F = "0 < dir \<and> dir < inode_count sb \<and> dir \<notin> set V \<and> (\<forall>i \<in> set ?V. 0 < i \<and> i < inode_count sb)"])
      fix s assume "?P s"
      with Cons l have w: "walking sb ds ?V ?k (butlast stack) (fst s)" using walking_pop [of sb ds V ?k stack "fst s"] by (simp add: seeing_def)
      then show "0 < dir \<and> dir < inode_count sb \<and> dir \<notin> set V \<and> (\<forall>i \<in> set ?V. 0 < i \<and> i < inode_count sb)"
        unfolding walking_def by auto
    next
      assume dir: "0 < dir \<and> dir < inode_count sb \<and> dir \<notin> set V \<and> (\<forall>i \<in> set ?V. 0 < i \<and> i < inode_count sb)"
      have sum: "names_of ds ?V = ?k + DIRENTS_PER_BLOCK * length (nonzero (ds ! unat dir))"
        using dir by (simp add: algebra_simps)
      have "names_of ds ?V \<le> DIRENTS_PER_BLOCK * unat (total_blocks sb)"
        using assms(1) dir unfolding dirs_ok_def by (intro mult_le_mono2) blast
      then have small: "?k + DIRENTS_PER_BLOCK * length (nonzero (ds ! unat dir)) < 2 ^ 32"
        using assms(3) unfolding sum by simp
      have pop: "works ?P (upd_report g) (\<lambda>_. seeing v (walking sb ds ?V ?k (butlast stack)))" for g
        unfolding upd_report_def by (rule upd_ck_works) (use walking_pop [of sb ds V ?k stack] Cons l in simp)
      have next_turn: "works (seeing v (walking sb ds ?V (?k + DIRENTS_PER_BLOCK * length (nonzero (ds ! unat dir))) stack'))
          (walk_stack D fuel stack') (\<lambda>_. seeing v (base sb))" for stack'
        using Suc.IH [of ?V stack'] Suc.prems unfolding sum by simp
      show "works ?P (walk_stack D (Suc fuel) stack) (\<lambda>_. seeing v (base sb))"
        unfolding Cons walk_stack.simps Let_def
        unfolding Cons [symmetric] l prod.case
        by (rule works_then [OF pop], rule works_bind [OF check_directory_works next_turn])
           (use assms(1,2) dir small in simp_all)
    qed
  qed
qed

lemma walk_tree_works:
  assumes "wf_super sb" and "dev_count D = total_blocks sb" and "unat (total_blocks sb) < 2 ^ 26"
  shows "works (seeing v (checked sb)) (walk_tree D) (\<lambda>_. seeing v (base sb))"
proof (rule works_given [where f = "\<lambda>s. dir_blocks (fst s)"], rule works_fact)
  fix ds s
  let ?P = "\<lambda>s. seeing v (checked sb) s \<and> dir_blocks (fst s) = ds"
  show "?P s \<Longrightarrow> dirs_ok sb ds" by (auto simp: seeing_def intro: checked_dirs_ok)
  assume dirs: "dirs_ok sb ds"
  have root: "0 < ROOT_INODE" "ROOT_INODE < inode_count sb"
    using assms(1) by (auto simp: wf_super_def ROOT_INODE_def word_less_nat_alt)
  let ?W = "seeing v (walking sb ds [] (names_of ds []) [(ROOT_INODE, ROOT_INODE)])"
  have start: "seeing v (checked sb) s \<and> dir_blocks (fst s) = ds \<Longrightarrow> ?W s" for s
    using root by (auto simp: seeing_def checked_def walking_def)
  have walk: "works ?W (thenE (upd_ck (mark_reachable ROOT_INODE)) (walk_stack D (unat (inode_count sb) + 1) [(ROOT_INODE, ROOT_INODE)]))
      (\<lambda>_. seeing v (base sb))"
    by (rule works_then [OF walking_kept walk_stack_works]) (use dirs assms in simp_all)
  have "works ?W (walk_tree D) (\<lambda>_. seeing v (base sb))"
    unfolding walk_tree_def
  proof (rule works_bind [OF ck_works], rule works_fact)
    fix x s
    let ?C = "\<lambda>c. walking sb ds [] (names_of ds []) [(ROOT_INODE, ROOT_INODE)] c \<and> x = (c_kind c, unat (inode_count (c_sb c)))"
    show "seeing v ?C s \<Longrightarrow> snd x = unat (inode_count sb)" by (auto simp: seeing_def walking_def base_def)
    assume x: "snd x = unat (inode_count sb)"
    show "works (seeing v ?C) (case x of (ks, n) \<Rightarrow> if length ks \<le> unat ROOT_INODE \<or> ks ! unat ROOT_INODE \<noteq> K_dir then retE ()
        else thenE (upd_ck (mark_reachable ROOT_INODE)) (walk_stack D (n + 1) [(ROOT_INODE, ROOT_INODE)])) (\<lambda>_. seeing v (base sb))"
    proof (intro works_prod works_if)
      show "works (seeing v ?C) (retE ()) (\<lambda>_. seeing v (base sb))" by (rule works_ret) (auto simp: seeing_def walking_def)
      fix ks n assume "x = (ks, n)"
      with x have n: "n = unat (inode_count sb)" by simp
      show "works (seeing v ?C) (thenE (upd_ck (mark_reachable ROOT_INODE)) (walk_stack D (n + 1) [(ROOT_INODE, ROOT_INODE)]))
          (\<lambda>_. seeing v (base sb))"
        unfolding n by (rule works_conseq [OF walk]) (simp_all add: seeing_def)
    qed
  qed
  then show "works ?P (walk_tree D) (\<lambda>_. seeing v (base sb))" by (rule works_conseq [OF _ start])
qed

lemma base_report [simp]:
  "base sb (c\<lparr>report := r\<rparr>) = base sb c" "base sb (c\<lparr>suppressed := n\<rparr>) = base sb c"
  by (simp_all add: base_def)

lemma check_links_works: "steady (seeing v (base sb)) check_links"
proof -
  have "steady (seeing v (base sb)) (check_link ino)" for ino
    unfolding check_link_def Let_def by (intro works_rules) simp_all
  then show ?thesis unfolding check_links_def
    by (intro known_works [where a = sb] works_for) (simp add: base_def)
qed

lemma check_bit_works:
  assumes "b < total_blocks sb"
  shows "steady (seeing v (base sb)) (check_bit b)"
proof -
  have start: "works (seeing v (base sb)) (ck (\<lambda>c. (block_bm c, c_sb c, owner c ! unat b)))
      (\<lambda>x s. seeing v (base sb) s \<and> b < nbits (fst x))"
    by (rule works_conseq [OF ck_works [where C = "base sb"]]) (use assms in \<open>auto simp: seeing_def base_def\<close>)
  show ?thesis unfolding check_bit_def case_prod_beta
    by (rule tested_works [OF start]) (intro works_rules; simp)
qed

lemma check_data_bitmap_works: "steady (seeing v (base sb)) check_data_bitmap"
  unfolding check_data_bitmap_def
  by (intro known_works [where a = sb] works_for check_bit_works) (simp_all add: base_def of_nat_below)

section \<open>The whole check\<close>

lemma check_superblock_works:
  assumes "0 < dev_count D"
  shows "works (seeing v any) (check_superblock D)
    (\<lambda>good. seeing v (\<lambda>c. good \<longrightarrow> wf_super (c_sb c) \<and> total_blocks (c_sb c) = dev_count D))"
proof -
  let ?ok = "\<lambda>sb. wf_super sb \<and> total_blocks sb = dev_count D"
  have said: "works (seeing v (\<lambda>c. c_sb c = sb)) (thenE (problem t) (retE good)) (\<lambda>good. seeing v (\<lambda>c. good \<longrightarrow> ?ok (c_sb c)))"
    if "good \<longrightarrow> ?ok sb" for t good sb
    by (rule works_then [where R = "seeing v (\<lambda>c. c_sb c = sb)"], rule problem_works, simp, rule works_ret)
       (use that in \<open>simp add: seeing_def\<close>)
  have fine: "works (seeing v (\<lambda>c. c_sb c = sb)) (retE True) (\<lambda>good. seeing v (\<lambda>c. good \<longrightarrow> ?ok (c_sb c)))" if "?ok sb" for sb
    by (rule works_ret) (use that in \<open>simp add: seeing_def\<close>)
  have put: "works (seeing v any) (upd_ck (\<lambda>c. c\<lparr>c_sb := sb\<rparr>)) (\<lambda>_. seeing v (\<lambda>c. c_sb c = sb))" for sb
    by (rule upd_ck_works) simp
  show ?thesis unfolding check_superblock_def Let_def
  proof (rule works_bind [OF read_works [OF assms]], rule works_then [OF put])
    fix b
    show "works (seeing v (\<lambda>c. c_sb c = decode_superblock b))
      (case validate_superblock (decode_superblock b) (dev_count D) of
        Inl e \<Rightarrow> thenE (problem (''superblock: '' @ exn_what e)) (retE False)
      | Inr _ \<Rightarrow> (case find (\<lambda>i. b ! i \<noteq> 0) [48..<BLOCK_SIZE] of
            None \<Rightarrow> retE True
          | Some i \<Rightarrow> thenE (problem (''superblock: block 0 has data after the superblock, at byte '' @ str i)) (retE True)))
      (\<lambda>good. seeing v (\<lambda>c. good \<longrightarrow> ?ok (c_sb c)))"
    proof (cases "validate_superblock (decode_superblock b) (dev_count D)")
      case (Inr u)
      then have "?ok (decode_superblock b)" using validate_superblock_wf [of "decode_superblock b" "dev_count D"] by simp
      then show ?thesis unfolding Inr sum.case by (intro works_option said fine) simp_all
    qed (simp add: said)
  qed
qed

lemma bm_load_works:
  assumes "region_fits (dev_count D) first n"
  shows "works (seeing v C) (on_device (bm_load D first (bitmap_new n))) (\<lambda>bm. seeing v (\<lambda>c. C c \<and> bm_ok v first n bm))"
  unfolding on_device_def
proof (rule works_zoom [where P' = "\<lambda>d. invar d \<and> blocks d = v" and Q' = "\<lambda>bm d. invar d \<and> blocks d = v \<and> bm_ok v first n bm"])
  have new: "nbits (bitmap_new n) = n" "length (words (bitmap_new n)) = unat (blocks_for (nbits (bitmap_new n))) * 512"
    by (simp_all add: bitmap_new_def)
  then have fit: "region_fits (dev_count D) first (nbits (bitmap_new n))" using assms by simp
  show "works (\<lambda>d. invar d \<and> blocks d = v) (bm_load D first (bitmap_new n)) (\<lambda>bm d. invar d \<and> blocks d = v \<and> bm_ok v first n bm)"
  proof (rule worksI)
    fix d assume "invar d \<and> blocks d = v"
    with reader.load_ok [OF _ fit new(2), of d] new(1) obtain bm d' where
      l: "bm_load D first (bitmap_new n) d = (Ret bm, d')" "invar d'" "blocks d' = v" "wf_bitmap bm" "nbits bm = n"
      "\<forall>i < unat n. bit_at bm i \<longleftrightarrow> block_bit (v (first + of_nat (i div 32768))) (i mod 32768)" by auto
    have "bm_ok v first n bm"
      unfolding bm_ok_def map_block_of_nat using l(4-6) by (simp add: used_def word_less_nat_alt)
    with l show "\<exists>bm d'. bm_load D first (bitmap_new n) d = (Ret bm, d') \<and> invar d' \<and> blocks d' = v \<and> bm_ok v first n bm" by blast
  qed
qed (auto simp: seeing_def)

definition maps_read :: "superblock \<Rightarrow> checker \<Rightarrow> bool" where
  "maps_read sb c \<longleftrightarrow> c_sb c = sb \<and> nbits (inode_bm c) = inode_count sb \<and> nbits (block_bm c) = total_blocks sb"

lemma table_block_here:
  assumes "wf_super sb" and "dev_count D = total_blocks sb" and "t < unat (inode_count sb) div INODES_PER_BLOCK"
  shows "inode_table_start sb + of_nat t < dev_count D"
proof -
  have "unat (inode_table_start sb) + t < unat (dev_count D)"
    using assms by (auto simp: wf_super_def word_less_nat_alt)
  then show ?thesis using of_nat_below [of "unat (inode_table_start sb) + t" "dev_count D"] by simp
qed

lemma load_inodes_works:
  assumes "wf_super sb" and "dev_count D = total_blocks sb"
  shows "works (seeing v (maps_read sb)) (load_inodes D) (\<lambda>_. seeing v (checked sb))"
proof -
  note here = table_block_here [OF assms]
  show ?thesis unfolding load_inodes_def Let_def
  proof (rule known_works [where a = sb], simp add: maps_read_def, rule works_bind)
    show "works (seeing v (maps_read sb)) (foldE [0..<unat (inode_count sb) div INODES_PER_BLOCK] (\<lambda>inodes t.
        bindE (ck_read D (inode_table_start sb + of_nat t)) (\<lambda>b.
        retE (put_at (t * INODES_PER_BLOCK) (inodes_of_block b) inodes))) (replicate (unat (inode_count sb)) zero_inode))
        (\<lambda>_. seeing v (maps_read sb))"
      by (rule works_fold, intro works_bind [OF read_works [OF here]] works_ret) simp_all
    fix inodes
    show "works (seeing v (maps_read sb)) (upd_ck (\<lambda>c. c\<lparr>c_inodes := inodes, c_kind := replicate (unat (inode_count sb)) K_none,
       owner := replicate (unat (total_blocks sb)) 0, dir_blocks := replicate (unat (inode_count sb)) [],
       c_refs := replicate (unat (inode_count sb)) 0, c_names := replicate (unat (inode_count sb)) 0,
       reachable := replicate (unat (inode_count sb)) False\<rparr>)) (\<lambda>_. seeing v (checked sb))"
      by (rule upd_ck_works)
         (auto simp: maps_read_def checked_def base_def claims_ok_def own_ok_def names_below_def word_less_nat_alt)
  qed
qed

text \<open>From a good superblock on.\<close>

lemma scan_works:
  assumes "wf_super sb" and "dev_count D = total_blocks sb" and "unat (total_blocks sb) < 2 ^ 26"
  shows "works (seeing v (maps_read sb)) (thenE (load_inodes D) (thenE (check_inodes D) (thenE (walk_tree D)
      (thenE check_links (thenE check_data_bitmap
      (thenE (upd_ck (\<lambda>c. c\<lparr>report := (report c)\<lparr>blocks_used := count_set (block_bm c)\<rparr>\<rparr>))
      (upd_ck (\<lambda>c. if suppressed c > 0
          then c\<lparr>report := (report c)\<lparr>problems := problems (report c)
             @ [''... and '' @ str (suppressed c) @ '' more problems'']\<rparr>\<rparr>
          else c)))))))) (\<lambda>_. seeing v (base sb))"
  by (intro works_then [OF load_inodes_works] works_then [OF check_inodes_works] works_then [OF walk_tree_works]
      works_then [OF check_links_works] works_then [OF check_data_bitmap_works] assms
      works_then [where R = "seeing v (base sb)"] upd_ck_works) simp_all

lemma checker_run_works:
  assumes "0 < dev_count D" and "unat (dev_count D) < 2 ^ 26"
  shows "works (seeing v any) (checker_run D) (\<lambda>_. seeing v any)"
  unfolding checker_run_def
proof (rule works_bind [OF check_superblock_works [OF assms(1)]], rule works_if, rule works_ret)
  fix good assume "\<not> \<not> good"
  then have good: "good" by simp
  let ?C = "\<lambda>c. good \<longrightarrow> wf_super (c_sb c) \<and> total_blocks (c_sb c) = dev_count D"
  show "works (seeing v ?C) (bindE (ck c_sb) (\<lambda>sb.
       bindE (on_device (bm_load D (inode_bitmap_start sb) (bitmap_new (inode_count sb)))) (\<lambda>ibm.
       thenE (upd_ck (\<lambda>c. c\<lparr>inode_bm := ibm\<rparr>))
      (bindE (on_device (bm_load D (data_bitmap_start sb) (bitmap_new (total_blocks sb)))) (\<lambda>bbm.
       thenE (upd_ck (\<lambda>c. c\<lparr>block_bm := bbm\<rparr>))
      (thenE (load_inodes D)
      (thenE (check_inodes D)
      (thenE (walk_tree D)
      (thenE check_links
      (thenE check_data_bitmap
      (thenE (upd_ck (\<lambda>c. c\<lparr>report := (report c)\<lparr>blocks_used := count_set (block_bm c)\<rparr>\<rparr>))
      (upd_ck (\<lambda>c. if suppressed c > 0
          then c\<lparr>report := (report c)\<lparr>problems := problems (report c)
             @ [''... and '' @ str (suppressed c) @ '' more problems'']\<rparr>\<rparr>
          else c))))))))))))) (\<lambda>_. seeing v any)"
  proof (rule works_bind [OF ck_works], rule works_fact)
    fix sb s
    show "seeing v (\<lambda>c. ?C c \<and> sb = c_sb c) s \<Longrightarrow> wf_super sb \<and> dev_count D = total_blocks sb"
      using good by (auto simp: seeing_def)
    assume sb: "wf_super sb \<and> dev_count D = total_blocks sb"
    then have fit: "region_fits (dev_count D) (inode_bitmap_start sb) (inode_count sb)"
      "region_fits (dev_count D) (data_bitmap_start sb) (total_blocks sb)"
      by (auto simp: region_fits_def wf_super_def word_less_nat_alt)
    let ?rest = "thenE (load_inodes D) (thenE (check_inodes D) (thenE (walk_tree D)
      (thenE check_links (thenE check_data_bitmap
      (thenE (upd_ck (\<lambda>c. c\<lparr>report := (report c)\<lparr>blocks_used := count_set (block_bm c)\<rparr>\<rparr>))
      (upd_ck (\<lambda>c. if suppressed c > 0
          then c\<lparr>report := (report c)\<lparr>problems := problems (report c)
             @ [''... and '' @ str (suppressed c) @ '' more problems'']\<rparr>\<rparr>
          else c)))))))"
    have last: "works (seeing v (maps_read sb)) ?rest (\<lambda>_. seeing v any)"
      by (rule works_conseq [OF scan_works]) (use sb assms in \<open>auto simp: seeing_def\<close>)
    show "works (seeing v (\<lambda>c. ?C c \<and> sb = c_sb c)) (
       bindE (on_device (bm_load D (inode_bitmap_start sb) (bitmap_new (inode_count sb)))) (\<lambda>ibm.
       thenE (upd_ck (\<lambda>c. c\<lparr>inode_bm := ibm\<rparr>))
      (bindE (on_device (bm_load D (data_bitmap_start sb) (bitmap_new (total_blocks sb)))) (\<lambda>bbm.
       thenE (upd_ck (\<lambda>c. c\<lparr>block_bm := bbm\<rparr>)) ?rest)))) (\<lambda>_. seeing v any)"
      by (intro works_bind [OF bm_load_works] fit
          works_then [OF upd_ck_works [where C' = "\<lambda>c. c_sb c = sb \<and> nbits (inode_bm c) = inode_count sb"]]
          works_then [OF upd_ck_works [where C' = "maps_read sb"] last]) (simp_all add: maps_read_def bm_ok_def)
  qed
qed (simp add: seeing_def)

lemma fsck_works:
  assumes "0 < dev_count D" and "unat (dev_count D) < 2 ^ 26" and "invar d"
  shows "\<exists>r d'. fsck D d = (Ret r, d') \<and> invar d' \<and> blocks d' = blocks d"
proof -
  have "seeing (blocks d) any (checker_new, d)" using assms(3) by (simp add: seeing_def)
  from worksD [OF checker_run_works [OF assms(1,2)] this] show ?thesis
    by (auto simp: fsck_def seeing_def)
qed

end

text \<open>
  C17. The checker ends with a report on every image there is room to count the names of, whatever
  is in its blocks: no read is out of range, the walk ends however the directories name each other,
  and nothing on the image changes.
\<close>

theorem fsck_always_reports:
  assumes "pd_ok d w" and "0 < pd_count d" and "unat (pd_count d) < 2 ^ 26"
  shows "\<exists>r w'. fsck (pread_device d) w = (Ret r, w') \<and> pd_ok d w' \<and> pd_blocks d w' = pd_blocks d w"
proof -
  have "dev_count (pread_device d) = pd_count d" by (simp add: pread_device_def)
  with pread.fsck_works [of d w] assms show ?thesis by simp
qed

theorem fsck_always_reports_witness:
  "\<exists>sb w1 r w2. mkfs (pread_device \<lparr>pd_fd = 3, pd_count = 64\<rparr>) 0 99 blank_world = (Ret sb, w1) \<and>
     fsck (pread_device \<lparr>pd_fd = 3, pd_count = 64\<rparr>) w1 = (Ret r, w2)"
proof -
  let ?d = "\<lparr>pd_fd = 3, pd_count = 64\<rparr>"
  have cnt: "dev_count (pread_device ?d) = 64" by (simp add: pread_device_def)
  from plan_layout_small obtain sb where "plan_layout 64 0 = Inr sb" by blast
  with pread.mkfs_ok [OF blank_world_ok, of 0 sb 99] cnt obtain w1 where
    1: "mkfs (pread_device ?d) 0 99 blank_world = (Ret sb, w1)" "pd_ok ?d w1" by auto
  with fsck_always_reports [OF 1(2)] show ?thesis by auto
qed

end
