(* ===== verification/Fsck_Sound.thy ===== *)
theory Fsck_Sound
  imports Fsck_Total Free_File "HOL-Library.Multiset"
begin

text \<open>
  What a report without problems means: the superblock is valid, the inodes are as the inode bitmap
  says, and every block of the data region that is marked in use belongs to one inode, at one place.
\<close>

section \<open>No problem so far\<close>

definition clean :: "checker \<Rightarrow> bool" where
  "clean c \<longleftrightarrow> problems (report c) = []"

text \<open>The blocks an inode leads to, in the order in which the checker meets them.\<close>

definition row :: "(u32 \<Rightarrow> block) \<Rightarrow> u32 \<Rightarrow> u32 list" where
  "row v b = (if b = 0 then [] else b # nonzero (rd32s 0 PTRS_PER_BLOCK (v b)))"

definition double_tree :: "(u32 \<Rightarrow> block) \<Rightarrow> u32 \<Rightarrow> u32 list" where
  "double_tree v b = (if b = 0 then [] else b # concat (map (row v) (rd32s 0 PTRS_PER_BLOCK (v b))))"

definition tree :: "(u32 \<Rightarrow> block) \<Rightarrow> inode \<Rightarrow> u32 list" where
  "tree v i = nonzero (direct i) @ row v (single_indirect i) @ double_tree v (double_indirect i)"

text \<open>They are those at the places of the block map.\<close>

lemma mset_rows:
  "mset (concat (map (row v) xs)) =
   mset (concat (map (\<lambda>s. nonzero (rd32s 0 1024 (v s)) @ [s]) (nonzero xs)))"
  by (induction xs) (simp_all add: row_def)

lemma mset_tree:
  assumes "length (direct i) = 12"
  shows "mset (tree v i) = mset (blocks_at (place_ptr v i) all_places)"
proof -
  have double: "mset (double_tree v (double_indirect i)) =
      mset (blocks_at (place_ptr v i) (concat (map second_places [0..<1024]) @ [Double]))"
  proof (cases "double_indirect i = 0")
    case True
    then have "second_at v i k = 0" for k by (simp add: second_at_def)
    then have "blocks_at (place_ptr v i) (concat (map second_places [0..<1024])) = []"
      by (subst blocks_at_seconds) (simp_all add: filter_empty_conv)
    with True show ?thesis by (simp add: double_tree_def place_ptr_def del: upt_conv_Cons)
  next
    case False
    then show ?thesis
      unfolding blocks_at_simps(3) by (subst blocks_at_seconds) (simp_all add: double_tree_def place_ptr_def seconds_of_double mset_rows)
  qed
  have "mset (row v (single_indirect i)) = mset (blocks_at (place_ptr v i) (map (\<lambda>j. Data (12 + j)) [0..<1024] @ [Single]))"
    unfolding single_places by (simp add: row_def)
  with double direct_places [OF assms, of v] show ?thesis
    unfolding tree_def all_places_def blocks_at_simps(3) by simp
qed

text \<open>So when no two of them are the same, the inode owns them.\<close>

lemma blocks_at_inj:
  assumes "distinct (blocks_at f ps)" and "p \<in> set ps" and "q \<in> set ps" and "f p = f q" and "f p \<noteq> 0"
  shows "p = q"
proof -
  have "blocks_at f ps = map f (filter (\<lambda>p. f p \<noteq> 0) ps)" by (simp add: blocks_at_def filter_map comp_def)
  with assms(1) have "inj_on f (set (filter (\<lambda>p. f p \<noteq> 0) ps))" by (simp add: distinct_map)
  then show ?thesis using assms(2-5) by (auto dest: inj_onD)
qed

lemma set_tree:
  assumes "length (direct i) = 12"
  shows "set (tree v i) = range (place_ptr v i) - {0}"
  using mset_tree [OF assms, of v] blocks_at_all [of v i] by (metis mset_eq_setD)

lemma tree_owns:
  assumes "length (direct i) = 12" and "distinct (tree v i)" and "\<And>b. b \<in> set (tree v i) \<Longrightarrow> data_start sb \<le> b \<and> b < total_blocks sb \<and> b \<in> U"
  shows "owns sb U (place_ptr v i)"
proof -
  have "distinct (blocks_at (place_ptr v i) all_places)" using mset_tree [OF assms(1)] assms(2) by (metis mset_eq_imp_distinct_iff)
  then have "p = q" if "place_ptr v i p = place_ptr v i q" "place_ptr v i p \<noteq> 0" for p q
    by (rule blocks_at_inj) (use that all_places_cover in metis)+
  moreover have "place_ptr v i p \<in> set (tree v i)" if "place_ptr v i p \<noteq> 0" for p using set_tree [OF assms(1)] that by simp
  ultimately show ?thesis using assms(3) unfolding owns_def by blast
qed

definition sizes_ok :: "(u32 \<Rightarrow> block) \<Rightarrow> inode \<Rightarrow> bool" where
  "sizes_ok v i \<longleftrightarrow> unat (block_count i) = length (tree v i) \<and> unat (size_of i) \<le> MAX_FILE_BLOCKS * BLOCK_SIZE"

text \<open>What the table says of one inode.\<close>

definition used_tree :: "superblock \<Rightarrow> (u32 \<Rightarrow> block) \<Rightarrow> u32 \<Rightarrow> u32 list" where
  "used_tree sb v i = (if i \<noteq> 0 \<and> i \<in> marked v (inode_bitmap_start sb) (inode_count sb) then tree v (inode_at sb v i) else [])"

definition slot_ok :: "superblock \<Rightarrow> (u32 \<Rightarrow> block) \<Rightarrow> u32 \<Rightarrow> bool" where
  "slot_ok sb v i \<longleftrightarrow> (let ino = inode_at sb v i; inuse = i \<in> marked v (inode_bitmap_start sb) (inode_count sb) in
     (i = 0 \<longrightarrow> inuse) \<and> (i = 0 \<or> \<not> inuse \<longrightarrow> ino = zero_inode) \<and>
     (i \<noteq> 0 \<and> inuse \<longrightarrow> id_of ino = i \<and> mode ino \<in> {MODE_FILE OR FILE_PERM, MODE_DIR OR DIR_PERM} \<and> link_count ino \<noteq> 0 \<and>
        sizes_ok v ino))"

definition all_blocks :: "superblock \<Rightarrow> (u32 \<Rightarrow> block) \<Rightarrow> u32 list" where
  "all_blocks sb v = concat (map (\<lambda>k. used_tree sb v (of_nat k)) [0..<unat (inode_count sb)])"

definition bit_ok :: "superblock \<Rightarrow> (u32 \<Rightarrow> block) \<Rightarrow> u32 list \<Rightarrow> u32 \<Rightarrow> bool" where
  "bit_ok sb v L b \<longleftrightarrow> (b \<in> marked v (data_bitmap_start sb) (total_blocks sb) \<longleftrightarrow> b < data_start sb \<or> b \<in> set L)"

definition accounted :: "superblock \<Rightarrow> (u32 \<Rightarrow> block) \<Rightarrow> bool" where
  "accounted sb v \<longleftrightarrow> distinct (all_blocks sb v) \<and> (\<forall>b \<in> set (all_blocks sb v). data_start sb \<le> b \<and> b < total_blocks sb) \<and>
     (\<forall>k < unat (inode_count sb). slot_ok sb v (of_nat k)) \<and> (\<forall>b < total_blocks sb. bit_ok sb v (all_blocks sb v) b)"

lemma distinct_parts:
  assumes "distinct (concat (map f [0..<n]))"
  shows "\<forall>k < n. \<forall>l < n. distinct (f k) \<and> (k < l \<longrightarrow> set (f k) \<inter> set (f l) = {})"
  using assms
proof (induction n)
  case (Suc n)
  have d: "distinct (concat (map f [0..<n]))" "distinct (f n)" "set (concat (map f [0..<n])) \<inter> set (f n) = {}"
    using Suc.prems by simp_all
  have "set (f k) \<inter> set (f n) = {}" if "k < n" for k
  proof -
    have "set (f k) \<subseteq> set (concat (map f [0..<n]))" using that by auto
    with d(3) show ?thesis by blast
  qed
  with Suc.IH [OF d(1)] d(2) show ?case by (metis less_SucE order_less_asym)
qed simp

lemma word_of_nat_unat_id: "word_of_nat (unat (x :: 'a::len word)) = x"
  by simp

section \<open>What the checker knows while there is no problem\<close>

definition scan :: "superblock \<Rightarrow> (u32 \<Rightarrow> block) \<Rightarrow> u32 list \<Rightarrow> checker \<Rightarrow> bool" where
  "scan sb v L c \<longleftrightarrow> c_sb c = sb \<and> bm_ok v (inode_bitmap_start sb) (inode_count sb) (inode_bm c) \<and>
     bm_ok v (data_bitmap_start sb) (total_blocks sb) (block_bm c) \<and>
     (\<forall>i < inode_count sb. c_inodes c ! unat i = inode_at sb v i) \<and>
     length (owner c) = unat (total_blocks sb) \<and> distinct L \<and> (\<forall>b \<in> set L. data_start sb \<le> b \<and> b < total_blocks sb) \<and>
     (\<forall>b < total_blocks sb. owner c ! unat b \<noteq> 0 \<longleftrightarrow> b \<in> set L)"

lemma scan_simps [simp]:
  "scan sb v L (c\<lparr>report := r\<rparr>) = scan sb v L c" "scan sb v L (c\<lparr>suppressed := n\<rparr>) = scan sb v L c"
  "scan sb v L (c\<lparr>c_kind := ks\<rparr>) = scan sb v L c" "scan sb v L (c\<lparr>dir_blocks := ds\<rparr>) = scan sb v L c"
  "scan sb v L (add_ref x c) = scan sb v L c" "scan sb v L (add_name x c) = scan sb v L c"
  "scan sb v L (mark_reachable x c) = scan sb v L c"
  by (simp_all add: scan_def add_ref_def add_name_def mark_reachable_def)

lemma c_sb_simps [simp]: "c_sb (add_ref x c) = c_sb c" "c_sb (add_name x c) = c_sb c" "c_sb (mark_reachable x c) = c_sb c"
  by (simp_all add: add_ref_def add_name_def mark_reachable_def)

lemma clean_simps [simp]:
  "clean (c\<lparr>suppressed := n\<rparr>) = clean c" "clean (c\<lparr>c_kind := ks\<rparr>) = clean c" "clean (c\<lparr>dir_blocks := ds\<rparr>) = clean c"
  "clean (c\<lparr>owner := own\<rparr>) = clean c" "clean (add_ref x c) = clean c" "clean (add_name x c) = clean c"
  "clean (mark_reachable x c) = clean c"
  by (simp_all add: clean_def add_ref_def add_name_def mark_reachable_def)

lemma scan_claim:
  assumes "scan sb v L c" and "data_start sb \<le> b" and "b < total_blocks sb" and "owner c ! unat b = 0" and "ino \<noteq> 0"
  shows "scan sb v (L @ [b]) (c\<lparr>owner := (owner c)[unat b := ino]\<rparr>)"
proof -
  have len: "unat b < length (owner c)" using assms(1,3) by (simp add: scan_def word_less_nat_alt)
  have "b \<notin> set L" using assms(1,3,4) by (auto simp: scan_def)
  moreover have "(owner c)[unat b := ino] ! unat x \<noteq> 0 \<longleftrightarrow> x \<in> set (L @ [b])" if "x < total_blocks sb" for x
  proof (cases "x = b")
    case False
    then have "unat b \<noteq> unat x" by (metis word_unat_eq_iff)
    with False assms(1) that show ?thesis by (simp add: scan_def)
  qed (use len assms(5) in simp)
  ultimately show ?thesis using assms(1-3) by (auto simp: scan_def)
qed

text \<open>A slot of the table is where \<^term>\<open>inode_at\<close> looks for it.\<close>

lemma inode_at_slot:
  assumes "k < 2 ^ 32"
  shows "inode_at sb v (of_nat k) = decode_inode (get_at (k mod 32 * INODE_SIZE) INODE_SIZE (v (inode_table_start sb + of_nat (k div 32))))"
proof -
  have u: "unat (of_nat k :: u32) = k" using assms by (simp add: unat_of_nat)
  have "(of_nat k :: u32) div 32 = of_nat (k div 32)"
    using u assms by (simp add: word_unat_eq_iff unat_div unat_of_nat order_le_less_trans [OF div_le_dividend])
  then show ?thesis using u by (simp add: inode_at_def inode_block_def inode_offset_def)
qed

text \<open>The slots of one block of the table replaced, the others as they were.\<close>

lemma put_slots:
  assumes "\<forall>t \<in> set ts. \<forall>j < 32. xs ! (t * 32 + j) = X (t * 32 + j)" and "\<forall>t \<in> set ts. t * 32 + 32 \<le> length xs"
    and "t * 32 + 32 \<le> length xs" and "length ys = 32" and "\<And>j. j < 32 \<Longrightarrow> ys ! j = X (t * 32 + j)"
  shows "\<forall>t' \<in> set (ts @ [t]). \<forall>j < 32. put_at (t * 32) ys xs ! (t' * 32 + j) = X (t' * 32 + j)"
proof (intro ballI allI impI)
  fix t' j :: nat assume t': "t' \<in> set (ts @ [t])" and j: "j < 32"
  have r: "t' * 32 + j < length xs" using t' j assms(2,3) by auto
  have fits: "t * 32 + length ys \<le> length xs" using assms(3,4) by simp
  show "put_at (t * 32) ys xs ! (t' * 32 + j) = X (t' * 32 + j)"
  proof (cases "t' = t")
    case True
    then show ?thesis using r j assms(3-5) by (simp add: nth_put_at)
  next
    case False
    then have "Suc t' \<le> t \<or> Suc t \<le> t'" by linarith
    then have "Suc t' * 32 \<le> t * 32 \<or> Suc t * 32 \<le> t' * 32" by (metis mult_le_mono1)
    then have apart: "\<not> (t * 32 \<le> t' * 32 + j \<and> t' * 32 + j < t * 32 + 32)" using j unfolding mult_Suc by linarith
    have "put_at (t * 32) ys xs ! (t' * 32 + j) = xs ! (t' * 32 + j)"
      using nth_put_at [OF fits r] by (simp only: assms(4) apart if_False)
    moreover have "t' \<in> set ts" using t' False by simp
    ultimately show ?thesis using assms(1) j by metis
  qed
qed

context block_dev
begin

abbreviation noted :: "superblock \<Rightarrow> (u32 \<Rightarrow> block) \<Rightarrow> u32 list \<Rightarrow> bool \<Rightarrow> 'd check_state \<Rightarrow> bool" where
  "noted sb v L A \<equiv> seeing v (\<lambda>c. c_sb c = sb \<and> (clean c \<longrightarrow> scan sb v L c \<and> A))"

lemma problem_gives: "gives (noted sb v L' A') (problem t) (\<lambda>_. noted sb v L A)"
  unfolding problem_def by (rule works_gives, rule upd_ck_works) (auto simp: clean_def MAX_LISTED_def)

lemma kept_gives:
  assumes "\<And>c. clean (f c) \<Longrightarrow> clean c" and "\<And>c. scan sb v L (f c) = scan sb v L c" and "\<And>c. c_sb (f c) = c_sb c"
  shows "gives (noted sb v L A) (upd_ck f) (\<lambda>_. noted sb v L A)"
  by (rule works_gives, rule upd_ck_works) (use assms in auto)

lemma ck_gives: "gives (seeing v C) (ck f) (\<lambda>x. seeing v (\<lambda>c. C c \<and> x = f c))"
  by (rule works_gives, rule ck_works)

lemma ck_kept [gives_rules]: "gives P (ck f) (\<lambda>_. P)"
  by (auto simp: gives_def ck_def)

lemma read_gives: "gives (seeing v C) (ck_read D b) (\<lambda>x s. seeing v C s \<and> x = v b)"
proof (rule givesI)
  fix s x s' assume s: "seeing v C s" and r: "ck_read D b s = (Ret x, s')"
  then have "\<exists>d'. read_block D b (snd s) = (Ret x, d') \<and> s' = (fst s, d')"
    by (auto simp: ck_read_def on_device_def zoomE_def split: prod.splits)
  then obtain d' where d': "read_block D b (snd s) = (Ret x, d')" "s' = (fst s, d')" by blast
  then have "b < dev_count D" using read_range [of b "snd s"] by fastforce
  from read_ok [OF _ this, of "snd s"] s d' show "seeing v C s' \<and> x = v b" by (auto simp: seeing_def)
qed

lemma read_pointers_gives:
  assumes "gives (seeing v C) (k (rd32s 0 PTRS_PER_BLOCK (v b))) Q"
  shows "gives (seeing v C) (bindE (read_pointers D b) k) Q"
proof -
  have "gives (seeing v C) (read_pointers D b) (\<lambda>ps s. seeing v C s \<and> ps = rd32s 0 PTRS_PER_BLOCK (v b))"
    unfolding read_pointers_def by (rule gives_bind [OF read_gives], rule gives_ret) simp
  then show ?thesis
    by (rule gives_bind) (use assms in \<open>auto simp: gives_def\<close>)
qed

lemma test_bit_gives: "gives P (test_bit_of bm i) (\<lambda>x s. P s \<and> (wf_bitmap bm \<longrightarrow> x = (i \<in> used bm)))"
proof (cases "i < nbits bm")
  case False
  then show ?thesis by (auto simp: gives_def test_bit_of_def is_set_def)
next
  case True
  then show ?thesis using is_set_in [of bm i] by (auto simp: gives_def test_bit_of_def is_set_def split: if_splits)
qed

lemma claim_gives:
  assumes "0 < ino"
  shows "gives (noted sb v L A) (claim ino b p k) (\<lambda>mine. noted sb v (L @ [b]) (A \<and> mine))"
proof (rule givesI)
  fix s x s' assume s: "noted sb v L A s" and r: "claim ino b p k s = (Ret x, s')"
  obtain c d where cd: "s = (c, d)" by fastforce
  let ?sb = "c_sb c" and ?o = "owner c ! unat b"
  have said: "noted sb v (L @ [b]) (A \<and> x) s'" if "thenE (problem t) (retE False) s = (Ret x, s')" for t
  proof -
    have "gives (noted sb v L A) (thenE (problem t) (retE False)) (\<lambda>mine. noted sb v (L @ [b]) (A \<and> mine))"
      by (rule gives_then [OF problem_gives [where A = False and L = "L @ [b]" and sb = sb]], rule gives_ret) (simp add: seeing_def)
    from givesD [OF this s that] show ?thesis .
  qed
  show "noted sb v (L @ [b]) (A \<and> x) s'"
  proof (cases "b < data_start ?sb \<or> b \<ge> total_blocks ?sb \<or> ?o \<noteq> 0")
    case True
    then show ?thesis using r said assms unfolding cd claim_def ck_def by (auto split: if_splits)
  next
    case False
    then have "x = True" "s' = (c\<lparr>owner := (owner c)[unat b := ino]\<rparr>, d)"
      using r assms by (auto simp: cd claim_def ck_def upd_ck_def thenE_def split: if_splits)
    moreover have "scan sb v (L @ [b]) (c\<lparr>owner := (owner c)[unat b := ino]\<rparr>)" if "scan sb v L c"
      using that False assms by (intro scan_claim) (auto simp: scan_def)
    ultimately show ?thesis using s by (auto simp: seeing_def cd)
  qed
qed

text \<open>The blocks met at one inode are \<^term>\<open>M\<close>, and they are counted.\<close>

definition counted :: "superblock \<Rightarrow> (u32 \<Rightarrow> block) \<Rightarrow> u32 list \<Rightarrow> bool \<Rightarrow> u32 list \<Rightarrow> blocks_acc \<Rightarrow> 'd check_state \<Rightarrow> bool" where
  "counted sb v L A M acc = noted sb v (L @ M) (A \<and> b_owned acc = length M)"

lemma check_data_gives:
  assumes "0 < ino"
  shows "gives (counted sb v L A M acc) (check_data ino dirp k b acc) (counted sb v L A (M @ [b]))"
  unfolding check_data_def counted_def
  by (rule gives_bind [OF claim_gives [OF assms]], rule gives_ret) (simp add: seeing_def)

lemma check_row_gives:
  assumes "0 < ino"
  shows "gives (counted sb v L A M acc) (check_row ino dirp k ps acc) (counted sb v L A (M @ nonzero ps))"
proof -
  have "gives (counted sb v L A (M @ nonzero (map snd ([] :: (nat \<times> u32) list))) acc) (check_row ino dirp k ps acc)
      (counted sb v L A (M @ nonzero (map snd ([] @ enumerate k ps))))"
    unfolding check_row_def
  proof (rule gives_fold [where I = "\<lambda>xs :: (nat \<times> u32) list. counted sb v L A (M @ nonzero (map snd xs))"])
    fix ys :: "(nat \<times> u32) list" and x :: "nat \<times> u32" and acc
    show "gives (counted sb v L A (M @ nonzero (map snd ys)) acc) (case x of (i, p) \<Rightarrow> if p \<noteq> 0 then check_data ino dirp i p acc else retE acc)
       (counted sb v L A (M @ nonzero (map snd (ys @ [x]))))"
      using check_data_gives [OF assms, of sb v L A "M @ nonzero (map snd ys)" acc]
      by (cases x) (auto intro: gives_ret)
  qed
  then show ?thesis by simp
qed

text \<open>A block is claimed, and with no problem there it is read.\<close>

lemma claimed_gives:
  assumes "0 < ino" and "gives (counted sb v L A (M @ [b]) acc) m (counted sb v L A N)" and "b_owned acc = Suc (b_owned acc')"
  shows "gives (counted sb v L A M acc') (bindE (claim ino b p k) (\<lambda>mine. if \<not> mine then retE acc else m)) (counted sb v L A N)"
  unfolding counted_def [of sb v L A M]
proof (rule gives_bind [OF claim_gives [OF assms(1)]])
  fix mine
  show "gives (noted sb v ((L @ M) @ [b]) ((A \<and> b_owned acc' = length M) \<and> mine)) (if \<not> mine then retE acc else m) (counted sb v L A N)"
  proof (cases mine)
    case True
    then show ?thesis by (simp, intro gives_conseq [OF assms(2)]) (auto simp: seeing_def counted_def assms(3))
  next
    case False
    then show ?thesis by (auto simp: seeing_def counted_def gives_def)
  qed
qed

lemma check_reads_gives:
  assumes "0 < ino" and "b \<noteq> 0"
  shows "gives (counted sb v L A (M @ [b]) acc) (bindE (read_pointers D b) (\<lambda>ps. check_row ino dirp j ps acc)) (counted sb v L A (M @ row v b))"
  unfolding counted_def [of sb v L A "M @ [b]"]
proof (rule read_pointers_gives, fold counted_def)
  show "gives (counted sb v L A (M @ [b]) acc) (check_row ino dirp j (rd32s 0 PTRS_PER_BLOCK (v b)) acc) (counted sb v L A (M @ row v b))"
    using check_row_gives [OF assms(1), of sb v L A "M @ [b]"] assms(2) by (simp add: row_def)
qed

lemma claimed_row_gives:
  assumes "0 < ino" and "b \<noteq> 0"
  shows "gives (counted sb v L A M acc) (bindE (claim ino b p k) (\<lambda>mine. if \<not> mine then retE (acc\<lparr>b_owned := b_owned acc + 1\<rparr>)
      else bindE (read_pointers D b) (\<lambda>ps. check_row ino dirp j ps (acc\<lparr>b_owned := b_owned acc + 1\<rparr>)))) (counted sb v L A (M @ row v b))"
  by (rule claimed_gives [OF assms(1) check_reads_gives [OF assms]]) simp

lemma check_single_gives:
  assumes "0 < ino"
  shows "gives (counted sb v L A M acc) (check_single D ino dirp i acc) (counted sb v L A (M @ row v (single_indirect i)))"
  unfolding check_single_def Let_def
  by (rule gives_if, rule gives_ret, simp add: row_def, rule claimed_row_gives [OF assms])

lemma check_double_gives:
  assumes "0 < ino"
  shows "gives (counted sb v L A M acc) (check_double D ino dirp i acc) (counted sb v L A (M @ double_tree v (double_indirect i)))"
proof (cases "double_indirect i = 0")
  case True
  then show ?thesis by (simp add: check_double_def double_tree_def gives_ret)
next
  case False
  let ?b = "double_indirect i" and ?acc = "acc\<lparr>b_owned := b_owned acc + 1\<rparr>"
  let ?ps = "rd32s 0 PTRS_PER_BLOCK (v ?b)"
  let ?I = "\<lambda>xs :: (nat \<times> u32) list. counted sb v L A ((M @ [?b]) @ concat (map (row v) (map snd xs)))"
  let ?f = "\<lambda>acc (k, second). if second = 0 then retE acc
            else
              let acc = acc\<lparr>b_owned := b_owned acc + 1\<rparr> in
              bindE (claim ino second P_dbl2 k) (\<lambda>mine.
              if \<not> mine then retE acc
              else bindE (read_pointers D second) (\<lambda>p.
                check_row ino dirp (DIRECT_PTRS + PTRS_PER_BLOCK + k * PTRS_PER_BLOCK) p acc))"
  have each: "gives (?I ys acc) (?f acc x) (?I (ys @ [x]))" for ys x acc
  proof -
    obtain k b where x: "x = (k, b)" by fastforce
    show ?thesis
      unfolding x prod.case Let_def
      by (rule gives_if, rule gives_ret, simp add: row_def, 
          rule gives_conseq [OF claimed_row_gives [OF assms, where M = "(M @ [?b]) @ concat (map (row v) (map snd ys))"]]) simp_all
  qed
  have "gives (?I [] ?acc) (foldE (enumerate 0 ?ps) ?f ?acc) (?I ([] @ enumerate 0 ?ps))"
    by (rule gives_fold [where I = ?I], rule each)
  then have all: "gives (counted sb v L A (M @ [?b]) ?acc) (foldE (enumerate 0 ?ps) ?f ?acc) (counted sb v L A (M @ double_tree v ?b))"
    using False by (simp add: double_tree_def del: map_map)
  have "gives (counted sb v L A (M @ [?b]) ?acc) (bindE (read_pointers D ?b) (\<lambda>top. foldE (enumerate 0 top) ?f ?acc))
      (counted sb v L A (M @ double_tree v ?b))"
    unfolding counted_def [of sb v L A "M @ [?b]"] by (rule read_pointers_gives, fold counted_def, rule all)
  from claimed_gives [OF assms this, of acc P_dbl 0] False show ?thesis unfolding check_double_def Let_def by simp
qed

lemma said_kept [gives_rules]: "gives (noted sb v L A) (problem t) (\<lambda>_. noted sb v L A)"
  by (rule problem_gives)

lemma report_kept [gives_rules]:
  "(\<And>r. problems (f r) = problems r) \<Longrightarrow> gives (noted sb v L A) (upd_report f) (\<lambda>_. noted sb v L A)"
  unfolding upd_report_def by (rule kept_gives) (simp_all add: clean_def)

lemma sizes_kept [gives_rules]:
  "gives (noted sb v L A) (check_file_size ino i k) (\<lambda>_. noted sb v L A)"
  "gives (noted sb v L A) (check_dir_size ino i k m) (\<lambda>_. noted sb v L A)"
  unfolding check_file_size_def check_dir_size_def Let_def by (intro gives_rules)+

lemma ck_note:
  assumes "\<And>c. scan sb v L c \<Longrightarrow> G (f c)" and "\<And>x. gives (noted sb v L (A \<and> G x)) (k x) Q"
  shows "gives (noted sb v L A) (bindE (ck f) k) Q"
  by (rule gives_bind [OF ck_gives], rule gives_conseq [OF assms(2)]) (use assms(1) in \<open>auto simp: seeing_def\<close>)

lemma check_blocks_gives:
  assumes "0 < ino" and "ino < inode_count sb"
  shows "gives (noted sb v L A) (check_blocks D ino)
    (\<lambda>_. noted sb v (L @ tree v (inode_at sb v ino)) (A \<and> sizes_ok v (inode_at sb v ino)))"
  unfolding check_blocks_def
proof (rule ck_note [where G = "\<lambda>x. fst x = inode_at sb v ino"], use assms(2) in \<open>simp add: scan_def\<close>, rule gives_prod)
  fix x :: "inode \<times> bool" and i dirp assume x: "x = (i, dirp)"
  let ?A = "A \<and> fst x = inode_at sb v ino" and ?i = "inode_at sb v ino"
  let ?acc = "\<lambda>m. \<lparr>b_owned = 0, b_end = 0, b_map = m\<rparr>"
  have first: "gives (noted sb v L ?A) (check_row ino dirp 0 (direct i) (?acc m)) (counted sb v L ?A (nonzero (direct i)))" for m
    using check_row_gives [OF assms(1), of sb v L ?A "[]" "?acc m" dirp 0 "direct i"] by (simp add: counted_def)
  have double: "gives (counted sb v L ?A (nonzero (direct i) @ row v (single_indirect i)) acc) (check_double D ino dirp i acc)
      (counted sb v L ?A (tree v i))" for acc
    using check_double_gives [OF assms(1), of sb v L ?A "nonzero (direct i) @ row v (single_indirect i)" acc] by (simp add: tree_def)
  have counts: "gives (counted sb v L ?A (tree v i) acc) (whenE (b_owned acc \<noteq> unat (block_count i)) (problem t))
      (\<lambda>_. noted sb v (L @ tree v i) (?A \<and> unat (block_count i) = length (tree v i)))" for acc t
    unfolding counted_def by (rule gives_when [OF problem_gives]) (simp add: seeing_def)
  have sz: "gives (noted sb v (L @ tree v i) (?A \<and> unat (block_count i) = length (tree v i)))
      (whenE (unat (size_of i) > MAX_FILE_BLOCKS * BLOCK_SIZE) (problem t))
      (\<lambda>_. noted sb v (L @ tree v ?i) (A \<and> sizes_ok v ?i))" for t
    by (rule gives_when [OF problem_gives]) (auto simp: seeing_def sizes_ok_def not_less x)
  have stored: "gives (noted sb v L' A') (upd_ck (\<lambda>c. c\<lparr>dir_blocks := g c\<rparr>)) (\<lambda>_. noted sb v L' A')" for L' A' g
    by (rule kept_gives) simp_all
  show "gives (noted sb v L ?A) (bindE (ck (\<lambda>c. dir_blocks c ! unat ino)) (\<lambda>dmap.
     bindE (check_row ino dirp 0 (direct i) (?acc dmap)) (\<lambda>acc.
     bindE (check_single D ino dirp i acc) (\<lambda>acc.
     bindE (check_double D ino dirp i acc) (\<lambda>acc.
     thenE (whenE (b_owned acc \<noteq> unat (block_count i))
       (problem (''inode '' @ str32 ino @ '': block_count is '' @ str32 (block_count i) @ '', but it owns ''
          @ str (b_owned acc) @ '' blocks'')))
    (thenE (whenE (unat (size_of i) > MAX_FILE_BLOCKS * BLOCK_SIZE)
       (problem (''inode '' @ str32 ino @ '': size '' @ str (unat (size_of i)) @ '' is larger than any file can be'')))
    (if \<not> dirp then check_file_size ino i (b_end acc)
     else
       thenE (check_dir_size ino i (b_end acc) (b_map acc))
       (upd_ck (\<lambda>c. c\<lparr>dir_blocks := (dir_blocks c)[unat ino := take (unat (size_of i) div BLOCK_SIZE) (b_map acc)]\<rparr>)))))))))
    (\<lambda>_. noted sb v (L @ tree v ?i) (A \<and> sizes_ok v ?i))"
    by (rule gives_bind [OF ck_kept], rule gives_bind [OF first], rule gives_bind [OF check_single_gives [OF assms(1)]],
        rule gives_bind [OF double], rule gives_then [OF counts], rule gives_then [OF sz], intro gives_rules stored)
qed

lemma when_note: "gives (noted sb v L A) (whenE b (problem t)) (\<lambda>_. noted sb v L (A \<and> \<not> b))"
  by (rule gives_when [OF problem_gives]) (simp add: seeing_def)

lemma check_kind_gives:
  "gives (noted sb v L A) (check_kind ino i) (\<lambda>_. noted sb v L (A \<and> mode i \<in> {MODE_FILE OR FILE_PERM, MODE_DIR OR DIR_PERM}))"
proof -
  have kept: "gives (noted sb v L A') (upd_ck (\<lambda>c. c\<lparr>c_kind := g c\<rparr>)) (\<lambda>_. noted sb v L A')" for A' g
    by (rule kept_gives) simp_all
  show ?thesis unfolding check_kind_def
    by (rule gives_if, rule gives_conseq [OF kept], assumption, simp, rule gives_if, rule gives_conseq [OF kept], assumption, simp,
        rule gives_then [OF problem_gives kept])
qed

lemma noted_conseq: "noted sb v L A s \<Longrightarrow> (A \<Longrightarrow> L = L' \<and> A') \<Longrightarrow> noted sb v L' A' s"
  by (auto simp: seeing_def)

lemma tested_gives:
  assumes "\<And>c. scan sb v L c \<Longrightarrow> G (f c) \<and> bm_ok v start n (h (f c))"
    and "\<And>x m. gives (noted sb v L (A \<and> G x \<and> m = (i \<in> marked v start n))) (k x m) Q"
  shows "gives (noted sb v L A) (bindE (ck f) (\<lambda>x. bindE (test_bit_of (h x) i) (k x))) Q"
proof (rule ck_note [where G = "\<lambda>x. G x \<and> bm_ok v start n (h x)"], rule assms(1), assumption,
    rule gives_bind [OF test_bit_gives], rule gives_conseq [OF assms(2)])
  fix x m s
  assume "noted sb v L (A \<and> G x \<and> bm_ok v start n (h x)) s \<and> (wf_bitmap (h x) \<longrightarrow> m = (i \<in> used (h x)))"
  then show "noted sb v L (A \<and> G x \<and> m = (i \<in> marked v start n)) s" by (auto simp: seeing_def bm_ok_marked)
qed

lemma check_inode_gives:
  assumes "ino < inode_count sb"
  shows "gives (noted sb v L A) (check_inode D ino) (\<lambda>_. noted sb v (L @ used_tree sb v ino) (A \<and> slot_ok sb v ino))"
    (is "gives _ _ (\<lambda>_. ?Q)")
  unfolding check_inode_def case_prod_beta
proof (rule tested_gives [where G = "\<lambda>x. fst x = inode_at sb v ino" and start = "inode_bitmap_start sb" and n = "inode_count sb"])
  show "scan sb v L c \<Longrightarrow> fst (c_inodes c ! unat ino, inode_bm c) = inode_at sb v ino \<and>
      bm_ok v (inode_bitmap_start sb) (inode_count sb) (snd (c_inodes c ! unat ino, inode_bm c))" for c
    using assms by (simp add: scan_def)
  fix x :: "inode \<times> bitmap" and m :: bool
  let ?i = "fst x" and ?in = "ino \<in> marked v (inode_bitmap_start sb) (inode_count sb)"
  let ?A = "A \<and> ?i = inode_at sb v ino \<and> m = ?in"
  have zero: "gives (noted sb v L ?A) (thenE (whenE (\<not> m) (problem t)) (whenE (\<not> z) (problem t'))) (\<lambda>_. ?Q)"
    if "ino = 0" "z \<longleftrightarrow> ?i = zero_inode" for t t' z
    by (rule gives_conseq [OF gives_then [OF when_note when_note]], assumption, erule noted_conseq)
       (use that in \<open>auto simp: used_tree_def slot_ok_def\<close>)
  have free: "gives (noted sb v L ?A) (whenE (\<not> z) (problem t)) (\<lambda>_. ?Q)" if "\<not> m" "ino \<noteq> 0" "z \<longleftrightarrow> ?i = zero_inode" for t z
    by (rule gives_conseq [OF when_note], assumption, erule noted_conseq)
       (use that in \<open>auto simp: used_tree_def slot_ok_def\<close>)
  have inuse: "gives (noted sb v L ?A) (thenE (upd_report (\<lambda>r. r\<lparr>inodes_used := inodes_used r + 1\<rparr>))
      (thenE (whenE (id_of ?i \<noteq> ino) (problem t)) (thenE (check_kind ino ?i)
      (thenE (whenE (link_count ?i = 0) (problem t')) (check_blocks D ino))))) (\<lambda>_. ?Q)" if "m" "ino \<noteq> 0" for t t'
    by (rule gives_then [OF report_kept], simp, rule gives_then [OF when_note], rule gives_then [OF check_kind_gives],
        rule gives_then [OF when_note], rule gives_conseq [OF check_blocks_gives], use that assms in \<open>simp_all add: word_neq_0_conv\<close>)
       (erule noted_conseq, use that in \<open>auto simp: used_tree_def slot_ok_def\<close>)
  show "gives (noted sb v L ?A) (let is_zero = ?i = zero_inode in
     if ino = 0 then
       thenE (whenE (\<not> m) (problem ''inode 0 is reserved but not marked in the inode bitmap''))
       (whenE (\<not> is_zero) (problem ''inode 0 is reserved and should be all zeros''))
     else if \<not> m then
       whenE (\<not> is_zero) (problem (''inode '' @ str32 ino @ '' is free but not zeroed''))
     else
       thenE (upd_report (\<lambda>r. r\<lparr>inodes_used := inodes_used r + 1\<rparr>))
      (thenE (whenE (id_of ?i \<noteq> ino)
         (problem (''inode '' @ str32 ino @ '': its id field says '' @ str32 (id_of ?i))))
      (thenE (check_kind ino ?i)
      (thenE (whenE (link_count ?i = 0)
         (problem (''inode '' @ str32 ino @ '' is in use but has link_count 0'')))
      (check_blocks D ino))))) (\<lambda>_. ?Q)"
    unfolding Let_def by (rule gives_if, rule zero, assumption, rule refl, rule gives_if, rule free, assumption, assumption, rule refl, rule inuse) simp_all
qed

lemma known_gives:
  "(\<And>c. C c \<Longrightarrow> c_sb c = sb) \<Longrightarrow> gives (seeing v C) (k sb) Q \<Longrightarrow> gives (seeing v C) (bindE (ck c_sb) k) Q"
  by (auto simp: gives_def ck_def seeing_def)

lemma known_sb: "gives (noted sb v L A) (k sb) Q \<Longrightarrow> gives (noted sb v L A) (bindE (ck c_sb) k) Q"
  by (rule known_gives) simp_all

text \<open>All inodes up to a number.\<close>

lemma check_inodes_gives:
  "gives (noted sb v [] True) (check_inodes D)
    (\<lambda>_. noted sb v (all_blocks sb v) (\<forall>k < unat (inode_count sb). slot_ok sb v (of_nat k)))"
proof -
  let ?I = "\<lambda>ks. noted sb v (concat (map (\<lambda>k. used_tree sb v (of_nat k)) ks)) (\<forall>k \<in> set ks. slot_ok sb v (of_nat k))"
  let ?n = "unat (inode_count sb)"
  have each: "gives (?I ks) (check_inode D (of_nat k)) (\<lambda>_. ?I (ks @ [k]))" if "k \<in> set [0..<?n]" for ks k
  proof -
    have "of_nat k < inode_count sb" using that by (simp add: of_nat_below)
    note one = check_inode_gives [OF this, of v "concat (map (\<lambda>k. used_tree sb v (of_nat k)) ks)" "\<forall>k \<in> set ks. slot_ok sb v (of_nat k)"]
    show ?thesis by (rule gives_conseq [OF one], assumption, erule noted_conseq) auto
  qed
  have "gives (?I []) (forE [0..<?n] (\<lambda>k. check_inode D (of_nat k))) (\<lambda>_. ?I ([] @ [0..<?n]))"
    by (rule gives_for [where I = ?I]) (rule each)
  then have loop: "gives (noted sb v [] True) (forE [0..<?n] (\<lambda>k. check_inode D (of_nat k)))
      (\<lambda>_. noted sb v (all_blocks sb v) (\<forall>k < ?n. slot_ok sb v (of_nat k)))"
    by (rule gives_conseq, simp) (simp add: all_blocks_def Ball_def atLeast0LessThan)
  show ?thesis unfolding check_inodes_def
    by (rule known_sb, rule gives_then [OF loop], intro gives_rules)
qed

section \<open>The walk adds problems only\<close>

lemma walk_kept [gives_rules]:
  "gives (noted sb v L A) (upd_ck (add_ref x)) (\<lambda>_. noted sb v L A)"
  "gives (noted sb v L A) (upd_ck (add_name x)) (\<lambda>_. noted sb v L A)"
  "gives (noted sb v L A) (upd_ck (mark_reachable x)) (\<lambda>_. noted sb v L A)"
  "gives (noted sb v L A) (upd_ck (\<lambda>c. mark_reachable x (add_name x c))) (\<lambda>_. noted sb v L A)"
  by (rule kept_gives; simp)+

lemma read_kept [gives_rules]: "gives (noted sb v L A) (ck_read D b) (\<lambda>_. noted sb v L A)"
  by (rule gives_conseq [OF read_gives]) simp_all

lemma fold_kept: "(\<And>x acc. gives P (f acc x) (\<lambda>_. P)) \<Longrightarrow> gives P (foldE xs f acc) (\<lambda>_. P)"
  using gives_fold [where I = "\<lambda>_ _. P" and xs = xs and f = f] by simp

lemma for_kept: "(\<And>x. gives P (f x) (\<lambda>_. P)) \<Longrightarrow> gives P (forE xs f) (\<lambda>_. P)"
  using gives_for [where I = "\<lambda>_. P" and xs = xs and f = f] by simp

lemma check_slot_kept [gives_rules]: "gives (noted sb v L A) (check_slot dir parent b fb acc s) (\<lambda>_. noted sb v L A)"
  unfolding check_slot_def check_dot_def check_name_def check_target_def Let_def by (intro gives_rules) simp_all

lemma walk_stack_kept: "gives (noted sb v L A) (walk_stack D fuel stack) (\<lambda>_. noted sb v L A)"
proof (induction fuel arbitrary: stack)
  case 0
  show ?case by (cases stack) (simp_all only: walk_stack.simps gives_rules)
next
  case (Suc fuel)
  have dirs: "gives (noted sb v L A) (check_directory D dir parent st) (\<lambda>_. noted sb v L A)" for dir parent st
    unfolding check_directory_def by (intro gives_rules fold_kept)
  show ?case
  proof (cases stack)
    case (Cons x xs)
    show ?thesis unfolding Cons walk_stack.simps Let_def by (intro gives_prod gives_steps(2,3) report_kept dirs Suc) simp
  qed (simp only: walk_stack.simps gives_rules)
qed

lemma walk_tree_kept: "gives (noted sb v L A) (walk_tree D) (\<lambda>_. noted sb v L A)"
  unfolding walk_tree_def by (intro gives_rules walk_stack_kept)

lemma check_links_kept: "gives (noted sb v L A) check_links (\<lambda>_. noted sb v L A)"
  unfolding check_links_def check_link_def Let_def by (intro gives_rules for_kept)

section \<open>The data bitmap\<close>

lemma check_bit_gives:
  assumes "b < total_blocks sb"
  shows "gives (noted sb v L A) (check_bit b) (\<lambda>_. noted sb v L (A \<and> bit_ok sb v L b))" (is "gives _ _ (\<lambda>_. ?Q)")
  unfolding check_bit_def case_prod_beta
proof (rule tested_gives [where G = "\<lambda>x. fst (snd x) = sb \<and> (snd (snd x) \<noteq> 0 \<longleftrightarrow> b \<in> set L) \<and> (b \<in> set L \<longrightarrow> data_start sb \<le> b)"
      and start = "data_bitmap_start sb" and n = "total_blocks sb"], goal_cases)
  case (1 c)
  then show ?case using assms by (auto simp: scan_def)
next
  case (2 x m)
  show ?case
    by (rule gives_if, rule gives_conseq [OF when_note], assumption, erule noted_conseq, force simp: bit_ok_def,
        rule gives_if, rule problem_gives, rule gives_conseq [OF when_note], assumption, erule noted_conseq, force simp: bit_ok_def)
qed

lemma check_data_bitmap_gives:
  "gives (noted sb v L A) check_data_bitmap (\<lambda>_. noted sb v L (A \<and> (\<forall>b < total_blocks sb. bit_ok sb v L b)))"
proof -
  let ?n = "unat (total_blocks sb)" and ?I = "\<lambda>bs. noted sb v L (A \<and> (\<forall>b \<in> set bs. bit_ok sb v L (of_nat b)))"
  have each: "gives (?I bs) (check_bit (of_nat b)) (\<lambda>_. ?I (bs @ [b]))" if "b \<in> set [0..<?n]" for bs b
  proof -
    have "of_nat b < total_blocks sb" using that by (simp add: of_nat_below)
    note one = check_bit_gives [OF this, of v L "A \<and> (\<forall>b \<in> set bs. bit_ok sb v L (of_nat b))"]
    show ?thesis by (rule gives_conseq [OF one], assumption, erule noted_conseq) auto
  qed
  have all: "\<forall>b < total_blocks sb. bit_ok sb v L b" if "\<forall>b \<in> set [0..<?n]. bit_ok sb v L (of_nat b)"
    using that by (auto simp: word_less_nat_alt dest!: bspec [where x = "unat _"])
  have "gives (?I []) (forE [0..<?n] (\<lambda>b. check_bit (of_nat b))) (\<lambda>_. ?I ([] @ [0..<?n]))"
    by (rule gives_for [where I = ?I]) (rule each)
  then show ?thesis unfolding check_data_bitmap_def
    by (intro known_sb, elim gives_conseq) (simp, erule noted_conseq, use all in simp)
qed

section \<open>What is read at the start\<close>

lemma load_inodes_gives:
  assumes "32 dvd unat (inode_count sb)"
  shows "gives (seeing v (\<lambda>c. c_sb c = sb \<and> bm_ok v (inode_bitmap_start sb) (inode_count sb) (inode_bm c) \<and>
      bm_ok v (data_bitmap_start sb) (total_blocks sb) (block_bm c) \<and> (clean c \<longrightarrow> A))) (load_inodes D) (\<lambda>_. noted sb v [] A)"
    (is "gives (seeing v ?C) _ _")
proof -
  let ?n = "unat (inode_count sb)"
  define X where "X k = inode_at sb v (of_nat k)" for k
  let ?I = "\<lambda>ts inodes s. seeing v ?C s \<and> length inodes = ?n \<and> (\<forall>t \<in> set ts. t * 32 + 32 \<le> ?n) \<and>
      (\<forall>t \<in> set ts. \<forall>j < 32. inodes ! (t * 32 + j) = X (t * 32 + j))"
  have each: "gives (?I ts inodes) (bindE (ck_read D (inode_table_start sb + of_nat t)) (\<lambda>b.
        retE (put_at (t * INODES_PER_BLOCK) (inodes_of_block b) inodes))) (?I (ts @ [t]))"
    if "t \<in> set [0..<?n div INODES_PER_BLOCK]" for ts inodes t
  proof -
    let ?b = "inode_table_start sb + of_nat t"
    have t: "t * 32 + 32 \<le> ?n" using that by (simp add: less_eq_div_iff_mult_less_eq Suc_le_eq [symmetric])
    have "inodes_of_block (v ?b) ! j = X (t * 32 + j)" if "j < 32" for j
      using inode_at_slot [of "t * 32 + j" sb v] that t unat_less_2p [of "inode_count sb"]
      by (simp add: inodes_of_block_def X_def del: of_nat_add of_nat_mult)
    note put = put_slots [where X = X and ys = "inodes_of_block (v ?b)", OF _ _ _ _ this]
    have len: "length (inodes_of_block b) = 32" for b by (simp add: inodes_of_block_def)
    show ?thesis
    proof (rule givesI)
      fix s inodes' s' assume i: "?I ts inodes s" and r: "bindE (ck_read D ?b) (\<lambda>b.
        retE (put_at (t * INODES_PER_BLOCK) (inodes_of_block b) inodes)) s = (Ret inodes', s')"
      then obtain b where "ck_read D ?b s = (Ret b, s')" "inodes' = put_at (t * 32) (inodes_of_block b) inodes"
        by (auto simp: bindE_eq_Ret)
      with givesD [OF read_gives, of v ?C s ?b b s'] i have s': "seeing v ?C s'" "inodes' = put_at (t * 32) (inodes_of_block (v ?b)) inodes" by auto
      show "?I (ts @ [t]) inodes' s'" using i s' t put [of ts inodes] len by simp
    qed
  qed
  have "gives (?I [] (replicate ?n zero_inode)) (foldE [0..<?n div INODES_PER_BLOCK] (\<lambda>inodes t.
        bindE (ck_read D (inode_table_start sb + of_nat t)) (\<lambda>b.
        retE (put_at (t * INODES_PER_BLOCK) (inodes_of_block b) inodes))) (replicate ?n zero_inode)) (?I ([] @ [0..<?n div INODES_PER_BLOCK]))"
    by (rule gives_fold [where I = ?I]) (rule each)
  then have loop: "gives (seeing v ?C) (foldE [0..<?n div INODES_PER_BLOCK] (\<lambda>inodes t.
        bindE (ck_read D (inode_table_start sb + of_nat t)) (\<lambda>b.
        retE (put_at (t * INODES_PER_BLOCK) (inodes_of_block b) inodes))) (replicate ?n zero_inode))
      (\<lambda>inodes. seeing v (\<lambda>c. ?C c \<and> (\<forall>i < inode_count sb. inodes ! unat i = inode_at sb v i)))"
  proof (rule gives_conseq)
    fix inodes s assume "?I ([] @ [0..<?n div INODES_PER_BLOCK]) inodes s"
    then have s: "seeing v ?C s" "\<And>t j. t < ?n div 32 \<Longrightarrow> j < 32 \<Longrightarrow> inodes ! (t * 32 + j) = X (t * 32 + j)" by auto
    have "inodes ! unat i = inode_at sb v i" if "i < inode_count sb" for i
    proof -
      have "unat i div 32 < ?n div 32" using that assms by (auto simp: word_less_nat_alt)
      from s(2) [OF this, of "unat i mod 32"] show ?thesis by (simp add: X_def)
    qed
    with s(1) show "seeing v (\<lambda>c. ?C c \<and> (\<forall>i < inode_count sb. inodes ! unat i = inode_at sb v i)) s" by (simp add: seeing_def)
  qed simp
  show ?thesis unfolding load_inodes_def Let_def
    by (rule known_gives [where sb = sb], simp, rule gives_bind [OF loop], rule works_gives, rule upd_ck_works)
       (auto simp: scan_def clean_def word_less_nat_alt)
qed

section \<open>The whole check\<close>

lemma check_superblock_gives:
  defines "sb \<equiv> \<lambda>v :: u32 \<Rightarrow> block. decode_superblock (v 0)"
  shows "gives (seeing v any) (check_superblock D)
    (\<lambda>good. seeing v (\<lambda>c. c_sb c = sb v \<and> (clean c \<longrightarrow> good) \<and> (good \<longrightarrow> validate_superblock (sb v) (dev_count D) = Inr ())))"
    (is "gives _ _ ?Q")
proof -
  have said: "gives (seeing v (\<lambda>c. c_sb c = sb v)) (problem t) (\<lambda>_. seeing v (\<lambda>c. c_sb c = sb v \<and> \<not> clean c))" for t
    unfolding problem_def by (rule works_gives, rule upd_ck_works) (auto simp: clean_def MAX_LISTED_def)
  have bad: "gives (seeing v (\<lambda>c. c_sb c = sb v)) (thenE (problem t) (retE good)) ?Q"
    if "good \<longrightarrow> validate_superblock (sb v) (dev_count D) = Inr ()" for t good
    by (rule gives_then [OF said], rule gives_ret) (use that in \<open>auto simp: seeing_def\<close>)
  have fine: "gives (seeing v (\<lambda>c. c_sb c = sb v)) (retE True) ?Q" if "validate_superblock (sb v) (dev_count D) = Inr ()"
    by (rule gives_ret) (use that in \<open>auto simp: seeing_def\<close>)
  have put: "gives (seeing v any) (upd_ck (\<lambda>c. c\<lparr>c_sb := sb v\<rparr>)) (\<lambda>_. seeing v (\<lambda>c. c_sb c = sb v))"
    by (rule works_gives, rule upd_ck_works) simp
  have rest: "gives (seeing v any) (thenE (upd_ck (\<lambda>c. c\<lparr>c_sb := sb v\<rparr>))
     (case validate_superblock (sb v) (dev_count D) of
        Inl e \<Rightarrow> thenE (problem (''superblock: '' @ exn_what e)) (retE False)
      | Inr _ \<Rightarrow> (case find (\<lambda>i. v 0 ! i \<noteq> 0) [48..<BLOCK_SIZE] of
            None \<Rightarrow> retE True
          | Some i \<Rightarrow> thenE (problem (''superblock: block 0 has data after the superblock, at byte '' @ str i)) (retE True)))) ?Q"
  proof (rule gives_then [OF put], cases "validate_superblock (sb v) (dev_count D)")
    case (Inr u)
    then have ok: "validate_superblock (sb v) (dev_count D) = Inr ()" by simp
    show "gives (seeing v (\<lambda>c. c_sb c = sb v)) (case validate_superblock (sb v) (dev_count D) of
        Inl e \<Rightarrow> thenE (problem (''superblock: '' @ exn_what e)) (retE False)
      | Inr _ \<Rightarrow> (case find (\<lambda>i. v 0 ! i \<noteq> 0) [48..<BLOCK_SIZE] of
            None \<Rightarrow> retE True
          | Some i \<Rightarrow> thenE (problem (''superblock: block 0 has data after the superblock, at byte '' @ str i)) (retE True))) ?Q"
      by (subst Inr, unfold sum.case, rule gives_option, rule fine, rule ok, rule bad, rule impI, rule ok)
  qed (erule ssubst, unfold sum.case, rule gives_conseq [OF bad [where good = False]], simp_all add: seeing_def)
  show ?thesis unfolding check_superblock_def Let_def
    by (rule gives_bind [OF read_gives], rule gives_fact [where F = "_ = v 0"], erule conjunct2)
       (use rest in \<open>simp add: sb_def gives_def\<close>)
qed

text \<open>From a good superblock on.\<close>

lemma scan_gives:
  assumes "wf_super sb"
  shows "gives (seeing v (\<lambda>c. c_sb c = sb \<and> bm_ok v (inode_bitmap_start sb) (inode_count sb) (inode_bm c) \<and>
      bm_ok v (data_bitmap_start sb) (total_blocks sb) (block_bm c)))
    (thenE (load_inodes D) (thenE (check_inodes D) (thenE (walk_tree D)
      (thenE check_links (thenE check_data_bitmap
      (thenE (upd_ck (\<lambda>c. c\<lparr>report := (report c)\<lparr>blocks_used := count_set (block_bm c)\<rparr>\<rparr>))
      (upd_ck (\<lambda>c. if suppressed c > 0
          then c\<lparr>report := (report c)\<lparr>problems := problems (report c)
             @ [''... and '' @ str (suppressed c) @ '' more problems'']\<rparr>\<rparr>
          else c)))))))) (\<lambda>_. seeing v (\<lambda>c. clean c \<longrightarrow> accounted sb v))"
proof -
  have "32 dvd unat (inode_count sb)" using assms by (simp add: wf_super_def)
  note load = load_inodes_gives [OF this, where A = True and v = v]
  let ?A = "(\<forall>k < unat (inode_count sb). slot_ok sb v (of_nat k)) \<and> (\<forall>b < total_blocks sb. bit_ok sb v (all_blocks sb v) b)"
  have count: "gives (noted sb v L A) (upd_ck (\<lambda>c. c\<lparr>report := (report c)\<lparr>blocks_used := g c\<rparr>\<rparr>)) (\<lambda>_. noted sb v L A)" for L A g
    by (rule kept_gives) (simp_all add: clean_def)
  have more: "gives (noted sb v (all_blocks sb v) ?A) (upd_ck (\<lambda>c. if suppressed c > 0
          then c\<lparr>report := (report c)\<lparr>problems := problems (report c)
             @ [''... and '' @ str (suppressed c) @ '' more problems'']\<rparr>\<rparr>
          else c)) (\<lambda>_. seeing v (\<lambda>c. clean c \<longrightarrow> accounted sb v))"
    by (rule works_gives, rule upd_ck_works) (auto simp: clean_def accounted_def scan_def)
  show ?thesis
    by (rule gives_then [OF gives_conseq [OF load]], simp add: seeing_def, assumption, rule gives_then [OF check_inodes_gives],
        rule gives_then [OF walk_tree_kept], rule gives_then [OF check_links_kept], rule gives_then [OF check_data_bitmap_gives],
        rule gives_then [OF count], rule more)
qed

lemma bm_load_gives:
  assumes "region_fits (dev_count D) first n"
  shows "gives (seeing v C) (on_device (bm_load D first (bitmap_new n))) (\<lambda>bm. seeing v (\<lambda>c. C c \<and> bm_ok v first n bm))"
  by (rule works_gives, rule bm_load_works [OF assms])

lemma checker_run_gives:
  assumes "sb = decode_superblock (v 0)"
  shows "gives (seeing v any) (checker_run D)
    (\<lambda>_. seeing v (\<lambda>c. clean c \<longrightarrow> validate_superblock sb (dev_count D) = Inr () \<and> accounted sb v))"
proof -
  let ?valid = "validate_superblock sb (dev_count D) = Inr ()"
  let ?rest = "thenE (load_inodes D) (thenE (check_inodes D) (thenE (walk_tree D)
      (thenE check_links (thenE check_data_bitmap
      (thenE (upd_ck (\<lambda>c. c\<lparr>report := (report c)\<lparr>blocks_used := count_set (block_bm c)\<rparr>\<rparr>))
      (upd_ck (\<lambda>c. if suppressed c > 0
          then c\<lparr>report := (report c)\<lparr>problems := problems (report c)
             @ [''... and '' @ str (suppressed c) @ '' more problems'']\<rparr>\<rparr>
          else c)))))))"
  let ?Q = "\<lambda>_. seeing v (\<lambda>c. clean c \<longrightarrow> ?valid \<and> accounted sb v)"
  have go: "gives (seeing v (\<lambda>c. c_sb c = sb)) (bindE (ck c_sb) (\<lambda>sb.
       bindE (on_device (bm_load D (inode_bitmap_start sb) (bitmap_new (inode_count sb)))) (\<lambda>ibm.
       thenE (upd_ck (\<lambda>c. c\<lparr>inode_bm := ibm\<rparr>))
      (bindE (on_device (bm_load D (data_bitmap_start sb) (bitmap_new (total_blocks sb)))) (\<lambda>bbm.
       thenE (upd_ck (\<lambda>c. c\<lparr>block_bm := bbm\<rparr>)) ?rest))))) ?Q" if valid: ?valid
  proof (rule known_gives [where sb = sb], assumption)
    have wf: "wf_super sb" "total_blocks sb = dev_count D" using validate_superblock_wf [OF valid] by simp_all
    then have fit: "region_fits (dev_count D) (inode_bitmap_start sb) (inode_count sb)"
      "region_fits (dev_count D) (data_bitmap_start sb) (total_blocks sb)"
      by (auto simp: region_fits_def wf_super_def word_less_nat_alt)
    let ?I = "bm_ok v (inode_bitmap_start sb) (inode_count sb)" and ?B = "bm_ok v (data_bitmap_start sb) (total_blocks sb)"
    have i: "gives (seeing v (\<lambda>c. c_sb c = sb \<and> ?I bm)) (upd_ck (\<lambda>c. c\<lparr>inode_bm := bm\<rparr>)) (\<lambda>_. seeing v (\<lambda>c. c_sb c = sb \<and> ?I (inode_bm c)))" for bm
      by (rule works_gives, rule upd_ck_works) simp
    have b: "gives (seeing v (\<lambda>c. (c_sb c = sb \<and> ?I (inode_bm c)) \<and> ?B bm)) (upd_ck (\<lambda>c. c\<lparr>block_bm := bm\<rparr>))
        (\<lambda>_. seeing v (\<lambda>c. c_sb c = sb \<and> ?I (inode_bm c) \<and> ?B (block_bm c)))" for bm
      by (rule works_gives, rule upd_ck_works) simp
    have last: "gives (seeing v (\<lambda>c. c_sb c = sb \<and> ?I (inode_bm c) \<and> ?B (block_bm c))) ?rest ?Q"
      by (rule gives_conseq [OF scan_gives [OF wf(1)]], assumption) (use valid in \<open>simp add: seeing_def\<close>)
    show "gives (seeing v (\<lambda>c. c_sb c = sb)) (bindE (on_device (bm_load D (inode_bitmap_start sb) (bitmap_new (inode_count sb)))) (\<lambda>ibm.
       thenE (upd_ck (\<lambda>c. c\<lparr>inode_bm := ibm\<rparr>))
      (bindE (on_device (bm_load D (data_bitmap_start sb) (bitmap_new (total_blocks sb)))) (\<lambda>bbm.
       thenE (upd_ck (\<lambda>c. c\<lparr>block_bm := bbm\<rparr>)) ?rest)))) ?Q"
      by (rule gives_bind [OF bm_load_gives [OF fit(1)]], rule gives_then [OF i],
          rule gives_bind [OF bm_load_gives [OF fit(2)]], rule gives_then [OF b], rule last)
  qed
  show ?thesis unfolding checker_run_def
  proof (rule gives_bind [OF check_superblock_gives], fold assms, rule gives_if)
    fix good
    let ?C = "\<lambda>c. c_sb c = sb \<and> (clean c \<longrightarrow> good) \<and> (good \<longrightarrow> ?valid)"
    show "\<not> good \<Longrightarrow> gives (seeing v ?C) (retE ()) ?Q" by (rule gives_ret) (simp add: seeing_def)
    assume good: "\<not> \<not> good"
    show "gives (seeing v ?C) (bindE (ck c_sb) (\<lambda>sb.
       bindE (on_device (bm_load D (inode_bitmap_start sb) (bitmap_new (inode_count sb)))) (\<lambda>ibm.
       thenE (upd_ck (\<lambda>c. c\<lparr>inode_bm := ibm\<rparr>))
      (bindE (on_device (bm_load D (data_bitmap_start sb) (bitmap_new (total_blocks sb)))) (\<lambda>bbm.
       thenE (upd_ck (\<lambda>c. c\<lparr>block_bm := bbm\<rparr>)) ?rest))))) ?Q"
      by (rule gives_fact [where F = ?valid], use good in \<open>simp add: seeing_def\<close>, rule gives_conseq [OF go]) (simp_all add: seeing_def)
  qed
qed

lemma fsck_gives:
  assumes "invar d" and "fsck D d = (Ret r, d')" and "report_ok r"
  shows "validate_superblock (decode_superblock (blocks d 0)) (dev_count D) = Inr () \<and> accounted (decode_superblock (blocks d 0)) (blocks d)"
proof -
  obtain c where run: "checker_run D (checker_new, d) = (Ret (), (c, d'))" "r = report c"
    using assms(2) by (auto simp: fsck_def split: prod.splits outcome.splits)
  have "seeing (blocks d) any (checker_new, d)" using assms(1) by (simp add: seeing_def)
  from givesD [OF checker_run_gives [OF refl] this run(1)] assms(3) run(2) show ?thesis
    by (simp add: seeing_def clean_def report_ok_def)
qed

end

section \<open>A clean report\<close>

text \<open>
  What the engine relies on, of the contents of an image: an inode is in use or empty; the blocks in
  use are those of the metadata and those of the inodes in use, every one of which has its own.
\<close>

definition inodes_used_on :: "superblock \<Rightarrow> (u32 \<Rightarrow> block) \<Rightarrow> u32 set" where
  "inodes_used_on sb v = {i \<in> marked v (inode_bitmap_start sb) (inode_count sb). i \<noteq> 0}"

abbreviation blocks_used_on :: "superblock \<Rightarrow> (u32 \<Rightarrow> block) \<Rightarrow> u32 set" where
  "blocks_used_on sb v \<equiv> marked v (data_bitmap_start sb) (total_blocks sb)"

definition blocks_of_inode :: "superblock \<Rightarrow> (u32 \<Rightarrow> block) \<Rightarrow> u32 \<Rightarrow> u32 set" where
  "blocks_of_inode sb v i = range (place_ptr v (inode_at sb v i)) - {0}"

definition inode_sound :: "superblock \<Rightarrow> (u32 \<Rightarrow> block) \<Rightarrow> u32 \<Rightarrow> bool" where
  "inode_sound sb v i \<longleftrightarrow> (let ino = inode_at sb v i in
     id_of ino = i \<and> mode ino \<in> {MODE_FILE OR FILE_PERM, MODE_DIR OR DIR_PERM} \<and> link_count ino \<noteq> 0 \<and>
     unat (block_count ino) = card (blocks_of_inode sb v i) \<and> unat (size_of ino) \<le> MAX_FILE_BLOCKS * BLOCK_SIZE \<and>
     owns sb (blocks_used_on sb v) (place_ptr v ino))"

definition consistent :: "superblock \<Rightarrow> (u32 \<Rightarrow> block) \<Rightarrow> bool" where
  "consistent sb v \<longleftrightarrow> 0 \<in> marked v (inode_bitmap_start sb) (inode_count sb) \<and>
     (\<forall>i < inode_count sb. i \<notin> inodes_used_on sb v \<longrightarrow> inode_at sb v i = zero_inode) \<and>
     (\<forall>i \<in> inodes_used_on sb v. inode_sound sb v i) \<and>
     (\<forall>i \<in> inodes_used_on sb v. \<forall>j \<in> inodes_used_on sb v. i \<noteq> j \<longrightarrow> blocks_of_inode sb v i \<inter> blocks_of_inode sb v j = {}) \<and>
     blocks_used_on sb v = {b. b < data_start sb} \<union> (\<Union>i \<in> inodes_used_on sb v. blocks_of_inode sb v i)"

lemma blocks_of_used:
  assumes "i \<in> inodes_used_on sb v"
  shows "blocks_of_inode sb v i = set (used_tree sb v i)"
proof -
  have "length (direct (inode_at sb v i)) = 12" using wf_decode_inode by (simp add: inode_at_def wf_inode_def)
  from set_tree [OF this, of v] assms show ?thesis by (simp add: blocks_of_inode_def used_tree_def inodes_used_on_def)
qed

lemma all_blocks_parts:
  assumes "distinct (all_blocks sb v)" and "i < inode_count sb" and "j < inode_count sb"
  shows "set (used_tree sb v i) \<subseteq> set (all_blocks sb v)" "distinct (used_tree sb v i)"
    "i \<noteq> j \<Longrightarrow> set (used_tree sb v i) \<inter> set (used_tree sb v j) = {}"
proof -
  let ?f = "\<lambda>k. used_tree sb v (of_nat k)" and ?n = "unat (inode_count sb)"
  have u: "unat i < ?n" "unat j < ?n" using assms(2,3) by (simp_all add: word_less_nat_alt)
  have f: "?f (unat i) = used_tree sb v i" "?f (unat j) = used_tree sb v j" by simp_all
  show "set (used_tree sb v i) \<subseteq> set (all_blocks sb v)" using u(1) f(1) by (force simp: all_blocks_def)
  have parts: "distinct (?f k) \<and> (k < l \<longrightarrow> set (?f k) \<inter> set (?f l) = {})" if "k < ?n" "l < ?n" for k l
    using distinct_parts [OF assms(1) [unfolded all_blocks_def]] that by blast
  then show "distinct (used_tree sb v i)" using u f by metis
  assume "i \<noteq> j"
  then have "unat i < unat j \<or> unat j < unat i" by (metis linorder_neqE_nat word_unat_eq_iff)
  then show "set (used_tree sb v i) \<inter> set (used_tree sb v j) = {}" using parts u f by (metis inf_commute)
qed

lemma all_blocks_used: "set (all_blocks sb v) = (\<Union>i \<in> inodes_used_on sb v. set (used_tree sb v i))"
proof -
  have below: "of_nat ` {0..<unat (inode_count sb)} = {i. i < inode_count sb}"
  proof (intro set_eqI iffI)
    fix x assume "x \<in> {i. i < inode_count sb}"
    then show "x \<in> of_nat ` {0..<unat (inode_count sb)}"
      by (intro image_eqI [where x = "unat x"]) (simp_all add: word_less_nat_alt)
  qed (auto simp: of_nat_below)
  have "set (all_blocks sb v) = (\<Union>i \<in> of_nat ` {0..<unat (inode_count sb)}. set (used_tree sb v i))"
    by (simp add: all_blocks_def)
  also have "\<dots> = (\<Union>i \<in> inodes_used_on sb v. set (used_tree sb v i))"
    unfolding below by (auto simp: used_tree_def inodes_used_on_def marked_def split: if_splits)
  finally show ?thesis .
qed

lemma accounted_consistent:
  assumes "accounted sb v" and "wf_super sb"
  shows "consistent sb v"
proof -
  let ?U = "inodes_used_on sb v" and ?I = "marked v (inode_bitmap_start sb) (inode_count sb)"
  have acc: "distinct (all_blocks sb v)" "\<And>b. b \<in> set (all_blocks sb v) \<Longrightarrow> data_start sb \<le> b \<and> b < total_blocks sb"
    "\<And>b. b < total_blocks sb \<Longrightarrow> b \<in> blocks_used_on sb v \<longleftrightarrow> b < data_start sb \<or> b \<in> set (all_blocks sb v)"
    using assms(1) by (auto simp: accounted_def bit_ok_def)
  have slot: "slot_ok sb v i" if "i < inode_count sb" for i
    using assms(1) that unfolding accounted_def word_less_nat_alt by (metis word_of_nat_unat_id)
  have zero: "0 < inode_count sb" using assms(2) by (auto simp: wf_super_def word_less_nat_alt)
  have used: "i < inode_count sb \<and> i \<noteq> 0 \<and> i \<in> ?I" if "i \<in> ?U" for i using that by (simp add: inodes_used_on_def marked_def)
  have blocks: "blocks_used_on sb v = {b. b < data_start sb} \<union> (\<Union>i \<in> ?U. blocks_of_inode sb v i)"
  proof (rule set_eqI)
    fix b
    have u: "(\<Union>i \<in> ?U. blocks_of_inode sb v i) = set (all_blocks sb v)" by (simp add: all_blocks_used blocks_of_used)
    have ds: "data_start sb < total_blocks sb" using assms(2) by (simp add: wf_super_def)
    show "b \<in> blocks_used_on sb v \<longleftrightarrow> b \<in> {b. b < data_start sb} \<union> (\<Union>i \<in> ?U. blocks_of_inode sb v i)"
    proof (cases "b < total_blocks sb")
      case False
      then have "b \<notin> blocks_used_on sb v" "\<not> b < data_start sb" "b \<notin> set (all_blocks sb v)"
        using ds acc(2) by (auto simp: marked_def)
      then show ?thesis unfolding u by simp
    qed (unfold u, simp add: acc(3))
  qed
  have sound: "inode_sound sb v i" if i: "i \<in> ?U" for i
  proof -
    let ?ino = "inode_at sb v i"
    have t: "used_tree sb v i = tree v ?ino" using used [OF i] by (simp add: used_tree_def)
    have d: "distinct (tree v ?ino)" "set (tree v ?ino) \<subseteq> set (all_blocks sb v)"
      using all_blocks_parts(1,2) [OF acc(1), of i i] used [OF i] unfolding t by simp_all
    have len: "length (direct ?ino) = 12" using wf_decode_inode by (simp add: inode_at_def wf_inode_def)
    have "owns sb (blocks_used_on sb v) (place_ptr v ?ino)"
      by (rule tree_owns [OF len d(1)]) (use d(2) acc(2,3) in blast)
    moreover have "card (blocks_of_inode sb v i) = length (tree v ?ino)"
      unfolding blocks_of_used [OF i] t by (rule distinct_card [OF d(1)])
    ultimately show ?thesis
      using slot [of i] used [OF i] by (simp add: inode_sound_def slot_ok_def sizes_ok_def Let_def)
  qed
  have apart: "blocks_of_inode sb v i \<inter> blocks_of_inode sb v j = {}" if "i \<in> ?U" "j \<in> ?U" "i \<noteq> j" for i j
    unfolding blocks_of_used [OF that(1)] blocks_of_used [OF that(2)]
    by (rule all_blocks_parts(3) [OF acc(1) _ _ that(3)]) (use used that in blast)+
  have empty: "inode_at sb v i = zero_inode" if "i < inode_count sb" "i \<notin> ?U" for i
    using slot [OF that(1)] that(2) by (auto simp: slot_ok_def inodes_used_on_def Let_def)
  have "0 \<in> ?I" using slot [OF zero] by (simp add: slot_ok_def Let_def)
  with blocks sound apart empty show ?thesis unfolding consistent_def by blast
qed

end
