(* ===== verification/Fsck_Clean.thy ===== *)
theory Fsck_Clean
  imports Fsck_Sound Dir_Map
begin

text \<open>
  The checker on a disk that has just been formatted: it goes through all its passes and finds no
  problem.
\<close>

section \<open>Single steps\<close>

lemma test_bit_run: "bm_ok v start n bm \<Longrightarrow> i < n \<Longrightarrow> test_bit_of bm i = retE (i \<in> marked v start n)"
  using is_set_in [of bm i] by (auto simp: test_bit_of_def bm_ok_marked)

lemma bind_ret [simp]: "thenE (retE y) m = m"
  by (simp add: thenE_def)

lemma forE_skip: "(\<And>x. x \<in> set xs \<Longrightarrow> f x s = (Ret (), s)) \<Longrightarrow> forE xs f s = (Ret (), s)"
  by (induction xs) (simp_all add: thenE_def)

lemma foldE_skip: "(\<And>x. x \<in> set xs \<Longrightarrow> f acc x s = (Ret acc, s)) \<Longrightarrow> foldE xs f acc s = (Ret acc, s)"
  by (induction xs) simp_all

lemma card_word_atMost: "card {b :: 'a::len word. b \<le> n} = unat n + 1"
proof -
  have "unat ` {b. b \<le> n} = {..unat n}"
  proof (intro set_eqI iffI)
    fix k assume "k \<in> {..unat n}"
    then have "k \<le> unat n" by simp
    moreover from this have "k < 2 ^ LENGTH('a)" by (rule le_less_trans) (rule unat_less_2p)
    ultimately have k: "k \<le> unat n" "unat (of_nat k :: 'a word) = k" by (simp_all add: unat_of_nat)
    then show "k \<in> unat ` {b. b \<le> n}" by (intro image_eqI [where x = "of_nat k"]) (simp_all add: word_le_nat_alt)
  qed (auto simp: word_le_nat_alt)
  moreover have "inj_on unat {b. b \<le> n}" by (rule inj_onI) (metis word_unat_eq_iff)
  ultimately show ?thesis by (metis One_nat_def Suc_eq_plus1 card_atMost card_image)
qed

section \<open>The checker after each pass\<close>

text \<open>What no pass changes.\<close>

definition at_work :: "superblock \<Rightarrow> u64 \<Rightarrow> (u32 \<Rightarrow> block) \<Rightarrow> checker \<Rightarrow> bool" where
  "at_work sb t v c \<longleftrightarrow> wf_super sb \<and> formatted sb t v \<and> clean c \<and> suppressed c = 0 \<and> c_sb c = sb \<and>
     bm_ok v (inode_bitmap_start sb) (inode_count sb) (inode_bm c) \<and>
     bm_ok v (data_bitmap_start sb) (total_blocks sb) (block_bm c) \<and>
     (\<forall>i < inode_count sb. c_inodes c ! unat i = inode_at sb v i)"

lemma root_number: "unat ROOT_INODE = 1"
  by (simp add: ROOT_INODE_def)

lemma at_workD:
  assumes "at_work sb t v c"
  shows "c_sb c = sb" "problems (report c) = []" "suppressed c = 0" "1 < unat (inode_count sb)"
    "i < inode_count sb \<Longrightarrow> c_inodes c ! unat i = (if i = ROOT_INODE then mkfs_root sb t else zero_inode)"
    "i < inode_count sb \<Longrightarrow> test_bit_of (inode_bm c) i = retE (i = 0 \<or> i = ROOT_INODE)"
    "b < total_blocks sb \<Longrightarrow> test_bit_of (block_bm c) b = retE (b \<le> data_start sb)"
    "data_start sb < total_blocks sb" "0 < data_start sb" "v (data_start sb) = mkfs_root_block"
proof -
  have i: "bm_ok v (inode_bitmap_start sb) (inode_count sb) (inode_bm c)" "marked v (inode_bitmap_start sb) (inode_count sb) = {0, ROOT_INODE}"
    and b: "bm_ok v (data_bitmap_start sb) (total_blocks sb) (block_bm c)" "marked v (data_bitmap_start sb) (total_blocks sb) = {b. b \<le> data_start sb}"
    using assms by (simp_all add: at_work_def formatted_def)
  show "i < inode_count sb \<Longrightarrow> test_bit_of (inode_bm c) i = retE (i = 0 \<or> i = ROOT_INODE)"
    using test_bit_run [OF i(1)] unfolding i(2) by simp
  show "b < total_blocks sb \<Longrightarrow> test_bit_of (block_bm c) b = retE (b \<le> data_start sb)"
    using test_bit_run [OF b(1)] unfolding b(2) by simp
qed (use assms in \<open>auto simp: at_work_def formatted_def clean_def wf_super_def word_less_nat_alt\<close>)

text \<open>An inode that is not the root is passed over.\<close>

lemma check_inode_skip:
  assumes "at_work sb t v c" and "i < inode_count sb" and "i \<noteq> ROOT_INODE"
  shows "check_inode D i (c, d) = (Ret (), (c, d))"
  using assms(3) by (auto simp: check_inode_def ck_def Let_def at_workD(5,6) [OF assms(1,2)])

lemma mkfs_root_fields:
  "id_of (mkfs_root sb t) = ROOT_INODE" "mode (mkfs_root sb t) = MODE_DIR OR DIR_PERM" "link_count (mkfs_root sb t) = 2"
  "size_of (mkfs_root sb t) = 4096" "block_count (mkfs_root sb t) = 1" "single_indirect (mkfs_root sb t) = 0"
  "double_indirect (mkfs_root sb t) = 0" "direct (mkfs_root sb t) = data_start sb # replicate 11 0"
  "MODE_DIR OR DIR_PERM \<noteq> MODE_FILE OR FILE_PERM" "ROOT_INODE \<noteq> 0"
proof -
  show "direct (mkfs_root sb t) = data_start sb # replicate 11 0"
    by (simp add: mkfs_root_def zero_inode_def numeral_eq_Suc)
qed (simp_all add: mkfs_root_def zero_inode_def DIR_PERM_def MODE_DIR_def MODE_FILE_def FILE_PERM_def ROOT_INODE_def)

text \<open>The root claims its one block.\<close>

definition after_root :: "superblock \<Rightarrow> checker \<Rightarrow> checker" where
  "after_root sb c = c\<lparr>report := (report c)\<lparr>inodes_used := inodes_used (report c) + 1\<rparr>, c_kind := (c_kind c)[1 := K_dir],
     owner := (owner c)[unat (data_start sb) := ROOT_INODE], dir_blocks := (dir_blocks c)[1 := [data_start sb]]\<rparr>"

lemma check_inode_root:
  assumes "at_work sb t v c" and "owner c ! unat (data_start sb) = 0" and "dir_blocks c ! 1 = []" and "1 < length (c_kind c)"
  shows "check_inode D ROOT_INODE (c, d :: 'd) = (Ret (), (after_root sb c, d))"
proof -
  note w = at_workD [OF assms(1)]
  have i: "c_inodes c ! 1 = mkfs_root sb t" using w(4) w(5) [of ROOT_INODE] by (simp add: ROOT_INODE_def word_less_nat_alt)
  have m: "test_bit_of (inode_bm c) ROOT_INODE = (retE True :: ('d check_state, bool) op)"
    using w(4) by (subst w(6)) (simp_all add: ROOT_INODE_def word_less_nat_alt)
  let ?c = "c\<lparr>report := (report c)\<lparr>inodes_used := inodes_used (report c) + 1\<rparr>, c_kind := (c_kind c)[1 := K_dir]\<rparr>"
  have row: "check_row ROOT_INODE True 0 (direct (mkfs_root sb t)) \<lparr>b_owned = 0, b_end = 0, b_map = []\<rparr> (?c, d) =
      (Ret \<lparr>b_owned = 1, b_end = 1, b_map = [data_start sb]\<rparr>, (?c\<lparr>owner := (owner c)[unat (data_start sb) := ROOT_INODE]\<rparr>, d))"
  proof -
    have claimed: "claim ROOT_INODE (data_start sb) P_data 0 (?c, d) =
        (Ret True, (?c\<lparr>owner := (owner c)[unat (data_start sb) := ROOT_INODE]\<rparr>, d))"
      using w(1,8) assms(2) by (simp add: claim_def ck_def upd_ck_def thenE_def ROOT_INODE_def not_le)
    have rest: "foldE (enumerate 1 (replicate 11 0)) (\<lambda>acc (i, p). if p \<noteq> 0 then check_data ROOT_INODE True i p acc else retE acc) acc s = (Ret acc, s)"
      for acc and s :: "'d check_state"
      by (rule foldE_skip) (auto simp: in_set_enumerate_eq)
    show ?thesis unfolding check_row_def mkfs_root_fields(8) enumerate_simps foldE.simps
      using w(9) [unfolded word_neq_0_conv [symmetric]] claimed rest [of "\<lparr>b_owned = 1, b_end = 1, b_map = [data_start sb]\<rparr>"]
      by (simp add: check_data_def set_grown_def)
  qed
  have blocks: "check_blocks D ROOT_INODE (?c, d) = (Ret (), (after_root sb c, d))"
    using i row assms(3,4) w(9) [unfolded word_neq_0_conv [symmetric]]
    by (simp add: check_blocks_def ck_def root_number check_single_def check_double_def mkfs_root_fields check_dir_size_def Let_def
        upd_ck_def after_root_def)
  show ?thesis
    using i m blocks by (simp add: check_inode_def ck_def Let_def root_number mkfs_root_fields upd_report_def upd_ck_def check_kind_def)
qed

section \<open>The walk\<close>

lemma root_slot:
  assumes "s < 64"
  shows "decode_dir_entry (get_at (s * 64) 64 mkfs_root_block) =
    (if s = 0 then mkfs_entry ''.'' ROOT_INODE FT_DIR else if s = 1 then mkfs_entry ''..'' ROOT_INODE FT_DIR else zero_dir_entry)"
proof -
  have wf: "wf_dir_entry (mkfs_entry ''.'' ROOT_INODE FT_DIR)" "wf_dir_entry (mkfs_entry ''..'' ROOT_INODE FT_DIR)"
    by (simp_all add: wf_mkfs_entry)
  note rt = decode_encode_dir_entry [OF wf(1), of "[]"] decode_encode_dir_entry [OF wf(2), of "[]"]
  have z: "get_at (s * 64) 64 zero_block = replicate 64 0" using assms by (simp add: get_at_def zero_block_def)
  consider "s = 0" | "s = 1" | "2 \<le> s" by linarith
  then show ?thesis
  proof cases
    case 1
    then show ?thesis using wf rt by (simp add: mkfs_root_block_def get_at_put_at_disjoint)
  next
    case 2
    then show ?thesis using wf rt by (simp add: mkfs_root_block_def)
  next
    case 3
    then show ?thesis using wf z assms by (simp add: mkfs_root_block_def get_at_put_at_disjoint)
  qed
qed

lemma mkfs_entry_fields:
  "inode_id (mkfs_entry nm ROOT_INODE FT_DIR) = ROOT_INODE" "dtype (mkfs_entry nm ino ty) = ty"
  "unat (name_len (mkfs_entry ''.'' ino ty)) = 1" "unat (name_len (mkfs_entry ''..'' ino ty)) = 2"
  "take 1 (name (mkfs_entry ''.'' ino ty)) = str_bytes ''.''" "take 2 (name (mkfs_entry ''..'' ino ty)) = str_bytes ''..''"
  by (simp_all add: mkfs_entry_def str_bytes_def put_at_def)

lemma check_slot_dots:
  assumes "at_work sb t v c" and "s < 2"
  shows "check_slot ROOT_INODE ROOT_INODE mkfs_root_block 0 acc s (c, d) = (Ret acc, (add_ref ROOT_INODE c, d))"
proof -
  note w = at_workD [OF assms(1)]
  have n: "ROOT_INODE < inode_count sb" using w(4) by (simp add: ROOT_INODE_def word_less_nat_alt)
  consider "s = 0" | "s = 1" using assms(2) by linarith
  then show ?thesis
    by cases (simp_all add: check_slot_def Let_def root_slot [of 0, simplified] root_slot [of 1, simplified] check_dot_def mkfs_entry_fields [simplified] mkfs_entry_fields(6) [unfolded numeral_2_eq_2] mkfs_root_fields ck_def upd_ck_def w(1) n thenE_def)
qed

lemma check_slot_free:
  assumes "2 \<le> s" and "s < 64"
  shows "check_slot dir parent mkfs_root_block 0 acc s st = (Ret acc, st)"
  using assms by (simp add: check_slot_def Let_def root_slot zero_dir_entry_def)

definition after_walk :: "checker \<Rightarrow> checker" where
  "after_walk c = (add_ref ROOT_INODE (add_ref ROOT_INODE ((mark_reachable ROOT_INODE c)\<lparr>report := (report c)\<lparr>r_directories := r_directories (report c) + 1\<rparr>\<rparr>)))"

lemma at_work_simps [simp]:
  "at_work sb t v (add_ref x c) = at_work sb t v c" "at_work sb t v (mark_reachable x c) = at_work sb t v c"
  "problems r = problems (report c) \<Longrightarrow> at_work sb t v (c\<lparr>report := r\<rparr>) = at_work sb t v c"
  "at_work sb t v (c\<lparr>c_kind := ks\<rparr>) = at_work sb t v c" "at_work sb t v (c\<lparr>owner := ow\<rparr>) = at_work sb t v c"
  "at_work sb t v (c\<lparr>dir_blocks := ds\<rparr>) = at_work sb t v c"
  by (simp_all add: at_work_def add_ref_def mark_reachable_def clean_def)

context block_dev
begin

lemma root_slots:
  fixes d :: 'e
  assumes "at_work sb t v c"
  shows "foldE [0..<DIRENTS_PER_BLOCK] (\<lambda>acc s. check_slot ROOT_INODE ROOT_INODE mkfs_root_block 0 acc s) acc (c, d) =
    (Ret acc, (add_ref ROOT_INODE (add_ref ROOT_INODE c), d))"
proof -
  have l: "[0..<DIRENTS_PER_BLOCK] = 0 # 1 # [2..<64]" by (simp add: upt_rec numeral_2_eq_2)
  have rest: "foldE [2..<64] (\<lambda>acc s. check_slot ROOT_INODE ROOT_INODE mkfs_root_block 0 acc s) acc s = (Ret acc, s)" for s :: "'e check_state"
    by (rule foldE_skip, rule check_slot_free) (simp_all only: set_upt atLeastLessThan_iff)
  have one: "at_work sb t v (add_ref ROOT_INODE c)" using assms by simp
  let ?f = "check_slot ROOT_INODE ROOT_INODE mkfs_root_block 0 acc"
  have dots: "?f 0 (c, d) = (Ret acc, (add_ref ROOT_INODE c, d))"
    "?f 1 (add_ref ROOT_INODE c, d) = (Ret acc, (add_ref ROOT_INODE (add_ref ROOT_INODE c), d))"
    by (rule check_slot_dots [OF assms], simp, rule check_slot_dots [OF one], simp)
  show ?thesis unfolding l foldE.simps
    by (simp only: bindE_Ret [where m = "?f 0", OF dots(1)] bindE_Ret [where m = "?f 1", OF dots(2)] rest)
qed

lemma walk_root:
  assumes "at_work sb t v c" and "dir_blocks c ! 1 = [data_start sb]" and "c_kind c ! 1 = K_dir" and "1 < length (c_kind c)"
    and "invar d" and "blocks d = v" and "total_blocks sb = dev_count D"
  shows "\<exists>d'. walk_tree D (c, d) = (Ret (), (after_walk c, d')) \<and> invar d' \<and> blocks d' = v"
proof -
  note w = at_workD [OF assms(1)]
  let ?c = "(mark_reachable ROOT_INODE c)\<lparr>report := (report c)\<lparr>r_directories := r_directories (report c) + 1\<rparr>\<rparr>"
  from read_ok [OF assms(5), of "data_start sb"] w(8,10) assms(6,7) obtain d' where
    r: "read_block D (data_start sb) d = (Ret mkfs_root_block, d')" "invar d'" "blocks d' = v" by auto
  have "at_work sb t v ?c" using assms(1) by (simp add: at_work_def clean_def mark_reachable_def)
  note slots = root_slots [OF this, of "({}, [])" d']
  have "check_directory D ROOT_INODE ROOT_INODE [] (?c, d) = (Ret [], (after_walk c, d'))"
    using slots r(1) w(9) [unfolded word_neq_0_conv [symmetric]] assms(2)
    by (simp add: check_directory_def ck_def root_number mark_reachable_def ck_read_def on_device_def zoomE_def after_walk_def)
  then have "walk_tree D (c, d) = (Ret (), (after_walk c, d'))"
    using assms(3,4) by (simp add: walk_tree_def ck_def root_number upd_ck_def upd_report_def mark_reachable_def Let_def)
  with r show ?thesis by blast
qed

section \<open>Links and bits\<close>

lemma links_run:
  assumes "at_work sb t v c" and "c_kind c = (replicate (unat (inode_count sb)) K_none)[1 := K_dir]" and "c_names c ! 1 = 0" and "c_refs c ! 1 = 2"
    and "reachable c ! 1"
  shows "check_links (c, d) = (Ret (), (c, d))"
proof -
  note w = at_workD [OF assms(1)]
  have i: "c_inodes c ! 1 = mkfs_root sb t" using w(4) w(5) [of ROOT_INODE] by (simp add: ROOT_INODE_def word_less_nat_alt)
  have "check_link (of_nat k) (c, d) = (Ret (), (c, d))" if "k \<in> set [1..<unat (inode_count sb)]" for k
  proof (cases "k = 1")
    case True
    then show ?thesis using assms(2-5) w(4) i
      by (simp add: check_link_def ck_def Let_def ROOT_INODE_def mkfs_root_fields [unfolded ROOT_INODE_def])
  next
    case False
    have "unat (of_nat k :: u32) = k" using that unat_less_2p [of "inode_count sb"] by (simp add: unat_of_nat)
    then show ?thesis using False that assms(2) by (simp add: check_link_def ck_def)
  qed
  then have "forE [1..<unat (inode_count sb)] (\<lambda>i. check_link (of_nat i)) (c, d) = (Ret (), (c, d))" by (rule forE_skip)
  then show ?thesis using w(1) by (simp add: check_links_def ck_def)
qed

lemma bits_run:
  assumes "at_work sb t v c" and "owner c = (replicate (unat (total_blocks sb)) 0)[unat (data_start sb) := ROOT_INODE]"
  shows "check_data_bitmap (c, d) = (Ret (), (c, d))"
proof -
  note w = at_workD [OF assms(1)]
  have "check_bit b (c, d) = (Ret (), (c, d))" if b: "b < total_blocks sb" for b
  proof -
    have own: "owner c ! unat b = (if b = data_start sb then ROOT_INODE else 0)"
    proof (cases "b = data_start sb")
      case False
      then have "unat (data_start sb) \<noteq> unat b" by (metis word_unat_eq_iff)
      with False b assms(2) show ?thesis by (simp add: word_less_nat_alt)
    qed (use b assms(2) in \<open>simp add: word_less_nat_alt\<close>)
    show ?thesis
      using w(1) own by (auto simp: check_bit_def ck_def w(7) [OF b] mkfs_root_fields(10) order_less_imp_le)
  qed
  then have "check_bit (of_nat k) (c, d) = (Ret (), (c, d))" if "k \<in> set [0..<unat (total_blocks sb)]" for k
    using that by (simp add: of_nat_below)
  then have "forE [0..<unat (total_blocks sb)] (\<lambda>b. check_bit (of_nat b)) (c, d) = (Ret (), (c, d))" by (rule forE_skip)
  then show ?thesis using w(1) by (simp add: check_data_bitmap_def ck_def)
qed

section \<open>All passes\<close>

text \<open>What there is once the tables have been read.\<close>

definition tables_read :: "superblock \<Rightarrow> u64 \<Rightarrow> (u32 \<Rightarrow> block) \<Rightarrow> checker \<Rightarrow> bool" where
  "tables_read sb t v c \<longleftrightarrow> at_work sb t v c \<and> report c = empty_report \<and>
     c_kind c = replicate (unat (inode_count sb)) K_none \<and> owner c = replicate (unat (total_blocks sb)) 0 \<and>
     dir_blocks c = replicate (unat (inode_count sb)) [] \<and> c_refs c = replicate (unat (inode_count sb)) 0 \<and>
     c_names c = replicate (unat (inode_count sb)) 0 \<and> reachable c = replicate (unat (inode_count sb)) False"

lemma check_inodes_run:
  assumes "tables_read sb t v c"
  shows "check_inodes D (c, d) = (Ret (), (after_root sb c, d))"
proof -
  have at: "at_work sb t v c" using assms by (simp add: tables_read_def)
  note w = at_workD [OF at]
  have at': "at_work sb t v (after_root sb c)" using at by (simp add: after_root_def at_work_def clean_def)
  have l: "[0..<unat (inode_count sb)] = 0 # 1 # [2..<unat (inode_count sb)]"
    using w(4) by (simp add: upt_rec [of 0] upt_rec [of "Suc 0"] numeral_2_eq_2)
  have first: "check_inode D (of_nat 0) (c, d) = (Ret (), (c, d))"
    using check_inode_skip [OF at, of 0] w(4) by (simp add: ROOT_INODE_def word_less_nat_alt)
  have root: "check_inode D (of_nat 1) (c, d) = (Ret (), (after_root sb c, d))"
    using check_inode_root [OF at, of D d] assms w(4,8) by (simp add: tables_read_def ROOT_INODE_def word_less_nat_alt)
  have "check_inode D (of_nat k) (after_root sb c, d) = (Ret (), (after_root sb c, d))" if "k \<in> set [2..<unat (inode_count sb)]" for k
  proof (rule check_inode_skip [OF at'])
    show "of_nat k < inode_count sb" using that by (simp add: of_nat_below)
    have "unat (of_nat k :: u32) = k" using that unat_less_2p [of "inode_count sb"] by (simp add: unat_of_nat)
    then show "of_nat k \<noteq> ROOT_INODE" using that root_number by auto
  qed
  then have "forE [2..<unat (inode_count sb)] (\<lambda>i. check_inode D (of_nat i)) (after_root sb c, d) = (Ret (), (after_root sb c, d))"
    by (rule forE_skip)
  then have "forE [0..<unat (inode_count sb)] (\<lambda>i. check_inode D (of_nat i)) (c, d) = (Ret (), (after_root sb c, d))"
    using first root unfolding l forE.simps by (simp add: thenE_def)
  moreover have "c_kind (after_root sb c) ! 1 = K_dir" "\<not> inode_count sb \<le> ROOT_INODE" "c_sb (after_root sb c) = sb"
    using assms w(1,4) by (simp_all add: after_root_def tables_read_def ROOT_INODE_def word_le_nat_alt not_le)
  ultimately show ?thesis using w(1) by (simp add: check_inodes_def ck_def root_number)
qed

lemma passes_run:
  assumes "tables_read sb t v c" and "invar d" and "blocks d = v" and "total_blocks sb = dev_count D"
  shows "\<exists>d'. check_inodes D (c, d) = (Ret (), (after_root sb c, d)) \<and>
    walk_tree D (after_root sb c, d) = (Ret (), (after_walk (after_root sb c), d')) \<and>
    check_links (after_walk (after_root sb c), d') = (Ret (), (after_walk (after_root sb c), d')) \<and>
    check_data_bitmap (after_walk (after_root sb c), d') = (Ret (), (after_walk (after_root sb c), d')) \<and> invar d' \<and> blocks d' = v"
proof -
  have at: "at_work sb t v c" using assms by (simp add: tables_read_def)
  note w = at_workD [OF at]
  let ?c = "after_root sb c" and ?n = "unat (inode_count sb)"
  have at1: "at_work sb t v ?c" using at by (simp add: after_root_def at_work_def clean_def)
  have at2: "at_work sb t v (after_walk ?c)" using at1 by (simp add: after_walk_def at_work_def clean_def mark_reachable_def add_ref_def)
  have f1: "dir_blocks ?c ! 1 = [data_start sb]" "c_kind ?c ! 1 = K_dir" "1 < length (c_kind ?c)"
    using assms(1) w(4) by (simp_all add: after_root_def tables_read_def)
  from walk_root [OF at1 f1 assms(2-4)] obtain d' where
    d': "walk_tree D (?c, d) = (Ret (), (after_walk ?c, d'))" "invar d'" "blocks d' = v" by blast
  have "check_links (after_walk ?c, d') = (Ret (), (after_walk ?c, d'))"
    by (rule links_run [OF at2]) (use assms(1) w(4) in \<open>simp_all add: after_walk_def after_root_def tables_read_def
      add_ref_def mark_reachable_def root_number\<close>)
  moreover have "check_data_bitmap (after_walk ?c, d') = (Ret (), (after_walk ?c, d'))"
    by (rule bits_run [OF at2]) (use assms(1) in \<open>simp add: after_walk_def after_root_def tables_read_def add_ref_def mark_reachable_def\<close>)
  ultimately show ?thesis using check_inodes_run [OF assms(1), of d] d' by blast
qed

text \<open>The tables are read.\<close>

lemma works_gives_both: "works P m Q \<Longrightarrow> gives P' m Q' \<Longrightarrow> works (\<lambda>s. P s \<and> P' s) m (\<lambda>x s. Q x s \<and> Q' x s)"
  unfolding works_def gives_def by blast

lemma load_inodes_sets:
  assumes "wf_super sb" and "dev_count D = total_blocks sb" and "c_sb c = sb"
  shows "works (seeing v (\<lambda>x. x = c)) (load_inodes D) (\<lambda>_. seeing v (\<lambda>x. \<exists>inodes. x = c\<lparr>c_inodes := inodes,
      c_kind := replicate (unat (inode_count sb)) K_none, owner := replicate (unat (total_blocks sb)) 0,
      dir_blocks := replicate (unat (inode_count sb)) [], c_refs := replicate (unat (inode_count sb)) 0,
      c_names := replicate (unat (inode_count sb)) 0, reachable := replicate (unat (inode_count sb)) False\<rparr>))"
  unfolding load_inodes_def Let_def
proof (rule known_works [where a = sb], simp add: assms(3), rule works_bind)
  show "works (seeing v (\<lambda>x. x = c)) (foldE [0..<unat (inode_count sb) div INODES_PER_BLOCK] (\<lambda>inodes t.
      bindE (ck_read D (inode_table_start sb + of_nat t)) (\<lambda>b.
      retE (put_at (t * INODES_PER_BLOCK) (inodes_of_block b) inodes))) (replicate (unat (inode_count sb)) zero_inode))
      (\<lambda>_. seeing v (\<lambda>x. x = c))"
    by (rule works_fold, intro works_bind [OF read_works [OF table_block_here [OF assms(1,2)]]] works_ret) simp_all
qed (rule upd_ck_works, blast)

lemma load_run:
  assumes "wf_super sb" and "dev_count D = total_blocks sb" and "formatted sb t v" and "c_sb c = sb" and "report c = empty_report"
    and "suppressed c = 0" and "bm_ok v (inode_bitmap_start sb) (inode_count sb) (inode_bm c)"
    and "bm_ok v (data_bitmap_start sb) (total_blocks sb) (block_bm c)" and "invar d" and "blocks d = v"
  shows "\<exists>c' d'. load_inodes D (c, d) = (Ret (), (c', d')) \<and> tables_read sb t v c' \<and> invar d' \<and> blocks d' = v \<and>
    block_bm c' = block_bm c"
proof -
  have "32 dvd unat (inode_count sb)" using assms(1) by (simp add: wf_super_def)
  note both = works_gives_both [OF load_inodes_sets [OF assms(1,2,4), of v] load_inodes_gives [OF this, of v True]]
  have "seeing v (\<lambda>x. x = c) (c, d) \<and> seeing v (\<lambda>c. c_sb c = sb \<and> bm_ok v (inode_bitmap_start sb) (inode_count sb) (inode_bm c) \<and>
      bm_ok v (data_bitmap_start sb) (total_blocks sb) (block_bm c) \<and> (clean c \<longrightarrow> True)) (c, d)"
    using assms by (simp add: seeing_def)
  from worksD [OF both this] show ?thesis
    using assms by (auto simp: seeing_def tables_read_def at_work_def clean_def empty_report_def scan_def)
qed

lemma check_superblock_run:
  assumes "formatted sb t v" and "validate_superblock sb (dev_count D) = Inr ()" and "0 < dev_count D" and "invar d" and "blocks d = v"
  shows "\<exists>d'. check_superblock D (c, d) = (Ret True, (c\<lparr>c_sb := sb\<rparr>, d')) \<and> invar d' \<and> blocks d' = v"
proof -
  have img: "v 0 = super_image sb" using assms(1) by (simp add: formatted_def)
  have "find (\<lambda>i. super_image sb ! i \<noteq> 0) [48..<BLOCK_SIZE] = None"
    by (auto simp: find_None_iff super_image_def nth_put_at zero_block_def simp del: upt_rec_numeral)
  then have tail: "find (\<lambda>i. super_image sb ! i \<noteq> 0) [48..<4096] = None" by (simp only: BLOCK_SIZE_def)
  from read_ok [OF assms(4,3)] assms(5) img obtain d' where
    "read_block D 0 d = (Ret (super_image sb), d')" "invar d'" "blocks d' = v" by auto
  then show ?thesis using assms(2) tail
    by (intro exI [of _ d']) (simp add: check_superblock_def ck_read_def on_device_def zoomE_def upd_ck_def Let_def thenE_def del: upt_rec_numeral)
qed

lemma bm_load_run:
  assumes "region_fits (dev_count D) first n" and "invar d" and "blocks d = v"
  shows "\<exists>bm d'. on_device (bm_load D first (bitmap_new n)) (c, d) = (Ret bm, (c, d')) \<and> bm_ok v first n bm \<and> invar d' \<and> blocks d' = v"
proof -
  have "seeing v (\<lambda>x. x = c) (c, d)" using assms by (simp add: seeing_def)
  from worksD [OF bm_load_works [OF assms(1)] this] show ?thesis by (auto simp: seeing_def)
qed

lemma fsck_formatted:
  assumes "formatted sb t v" and "validate_superblock sb (dev_count D) = Inr ()" and "0 < dev_count D" and "invar d" and "blocks d = v"
  shows "\<exists>r d'. fsck D d = (Ret r, d') \<and> invar d' \<and> blocks d' = v \<and> report_ok r \<and> r_files r = 0 \<and> r_directories r = 1 \<and>
    inodes_used r = 1 \<and> unat (blocks_used r) = unat (data_start sb) + 1"
proof -
  have wf: "wf_super sb" "dev_count D = total_blocks sb" using validate_superblock_wf [OF assms(2)] by simp_all
  then have fit: "region_fits (dev_count D) (inode_bitmap_start sb) (inode_count sb)"
    "region_fits (dev_count D) (data_bitmap_start sb) (total_blocks sb)"
    by (auto simp: region_fits_def wf_super_def word_less_nat_alt)
  let ?c1 = "checker_new\<lparr>c_sb := sb\<rparr>"
  from check_superblock_run [OF assms, of checker_new] obtain d1 where
    1: "check_superblock D (checker_new, d) = (Ret True, (?c1, d1))" "invar d1" "blocks d1 = v" by blast
  from bm_load_run [OF fit(1) 1(2,3), of ?c1] obtain ibm d2 where
    2: "on_device (bm_load D (inode_bitmap_start sb) (bitmap_new (inode_count sb))) (?c1, d1) = (Ret ibm, (?c1, d2))"
    "bm_ok v (inode_bitmap_start sb) (inode_count sb) ibm" "invar d2" "blocks d2 = v" by blast
  let ?c2 = "?c1\<lparr>inode_bm := ibm\<rparr>"
  from bm_load_run [OF fit(2) 2(3,4), of ?c2] obtain bbm d3 where
    3: "on_device (bm_load D (data_bitmap_start sb) (bitmap_new (total_blocks sb))) (?c2, d2) = (Ret bbm, (?c2, d3))"
    "bm_ok v (data_bitmap_start sb) (total_blocks sb) bbm" "invar d3" "blocks d3 = v" by blast
  let ?c3 = "?c2\<lparr>block_bm := bbm\<rparr>"
  have "c_sb ?c3 = sb" "report ?c3 = empty_report" "suppressed ?c3 = 0" by (simp_all add: checker_new_def)
  from load_run [OF wf assms(1) this _ _ 3(3,4)] 2(2) 3(2) obtain c4 d4 where
    4: "load_inodes D (?c3, d3) = (Ret (), (c4, d4))" "tables_read sb t v c4" "invar d4" "blocks d4 = v" "block_bm c4 = bbm" by auto
  let ?c5 = "after_walk (after_root sb c4)"
  from passes_run [OF 4(2-4) wf(2) [symmetric]] obtain d5 where
    5: "check_inodes D (c4, d4) = (Ret (), (after_root sb c4, d4))" "walk_tree D (after_root sb c4, d4) = (Ret (), (?c5, d5))"
    "check_links (?c5, d5) = (Ret (), (?c5, d5))" "check_data_bitmap (?c5, d5) = (Ret (), (?c5, d5))" "invar d5" "blocks d5 = v" by blast
  have c5: "suppressed ?c5 = 0" "block_bm ?c5 = bbm" "problems (report ?c5) = []" "r_files (report ?c5) = 0" "r_directories (report ?c5) = 1"
    "inodes_used (report ?c5) = 1"
    using 4(2,5) by (simp_all add: tables_read_def at_work_def after_walk_def after_root_def add_ref_def mark_reachable_def empty_report_def)
  let ?c6 = "?c5\<lparr>report := (report ?c5)\<lparr>blocks_used := count_set bbm\<rparr>\<rparr>"
  have "checker_run D (checker_new, d) = (Ret (), (?c6, d5))"
    using 1(1) 2(1) 3(1) 4(1) 5(1-4) c5(1,2) by (simp add: checker_run_def ck_def upd_ck_def thenE_def)
  then have "fsck D d = (Ret (report ?c6), d5)" by (simp add: fsck_def)
  moreover have "unat (count_set bbm) = unat (data_start sb) + 1"
  proof -
    have "wf_bitmap bbm" "used bbm = {b. b \<le> data_start sb}" using 3(2) assms(1) by (simp_all add: bm_ok_marked formatted_def)
    then show ?thesis using count_set_used [of bbm] card_word_atMost [of "data_start sb"] by simp
  qed
  ultimately show ?thesis using 5(5,6) c5 by (simp add: report_ok_def)
qed

end

text \<open>On a disk image.\<close>

lemma mkfs_then_fsck:
  assumes "pd_ok d w" and "plan_layout (pd_count d) n = Inr sb"
  shows "\<exists>w1 r w2. mkfs (pread_device d) n t w = (Ret sb, w1) \<and> pd_ok d w1 \<and> formatted sb t (pd_blocks d w1) \<and>
    fsck (pread_device d) w1 = (Ret r, w2) \<and>
    report_ok r \<and> r_files r = 0 \<and> r_directories r = 1 \<and> inodes_used r = 1 \<and> unat (blocks_used r) = unat (data_start sb) + 1 \<and>
    pd_ok d w2 \<and> pd_blocks d w2 = pd_blocks d w1"
proof -
  have cnt: "dev_count (pread_device d) = pd_count d" by (simp add: pread_device_def)
  from pread.mkfs_ok [OF assms(1), of n sb t] assms(2) cnt obtain w1 where
    1: "mkfs (pread_device d) n t w = (Ret sb, w1)" "pd_ok d w1" "formatted sb t (pd_blocks d w1)" by auto
  note v = validate_plan_layout [OF assms(2), where c = "clean_unmount sb" and l = "last_checkpoint_lsn sb"]
  have z: "0 < pd_count d" using layout_blocks(9) plan_layout_wf [OF assms(2)] by metis
  from pread.fsck_formatted [OF 1(3) _ _ 1(2) refl] v z cnt 1 show ?thesis by auto
qed

text \<open>
  C15. A clean report can be believed. If the checker finds no problem, the superblock is valid for
  the image, inode 0 is reserved, every other inode is empty or in use, an inode in use says its own number,
  is a file or a directory and has a link, counts its blocks exactly, and owns them: no block is
  reached twice, from the same inode or from two, and the blocks marked in use are those of the
  metadata and those of the inodes, no others.
\<close>

theorem clean_report_sound:
  assumes "pd_ok d w" and "fsck (pread_device d) w = (Ret r, w')" and "report_ok r"
    and "sb = decode_superblock (pd_blocks d w 0)"
  shows "validate_superblock sb (pd_count d) = Inr () \<and> consistent sb (pd_blocks d w)"
proof -
  have cnt: "dev_count (pread_device d) = pd_count d" by (simp add: pread_device_def)
  from pread.fsck_gives [OF assms(1-3)] have
    v: "validate_superblock sb (pd_count d) = Inr ()" "accounted sb (pd_blocks d w)" unfolding assms(4) cnt by simp_all
  with accounted_consistent validate_superblock_wf [OF v(1)] show ?thesis by blast
qed

theorem clean_report_sound_witness:
  "\<exists>w r w' sb. pd_ok \<lparr>pd_fd = 3, pd_count = 64\<rparr> w \<and> fsck (pread_device \<lparr>pd_fd = 3, pd_count = 64\<rparr>) w = (Ret r, w') \<and> report_ok r \<and>
     consistent sb (pd_blocks \<lparr>pd_fd = 3, pd_count = 64\<rparr> w)"
proof -
  from plan_layout_small obtain sb where "plan_layout 64 0 = Inr sb" by blast
  with mkfs_then_fsck [OF blank_world_ok, of 0 sb 99] obtain w1 r w2 where
    1: "pd_ok \<lparr>pd_fd = 3, pd_count = 64\<rparr> w1" "fsck (pread_device \<lparr>pd_fd = 3, pd_count = 64\<rparr>) w1 = (Ret r, w2)" "report_ok r" by auto
  from clean_report_sound [OF 1 refl] 1 show ?thesis by blast
qed

text \<open>
  C16. A new file system is clean. Checking a disk image right after it has been formatted reports no
  problem: one directory and no file, one inode in use, and the blocks of the metadata and the
  root's one block; and the image is as it was.
\<close>

theorem fsck_after_mkfs:
  assumes "pd_ok d w" and "plan_layout (pd_count d) n = Inr sb"
  shows "\<exists>w1 r w2. mkfs (pread_device d) n t w = (Ret sb, w1) \<and> fsck (pread_device d) w1 = (Ret r, w2) \<and>
    report_ok r \<and> r_files r = 0 \<and> r_directories r = 1 \<and> inodes_used r = 1 \<and> unat (blocks_used r) = unat (data_start sb) + 1 \<and>
    pd_ok d w2 \<and> pd_blocks d w2 = pd_blocks d w1"
  using mkfs_then_fsck [OF assms, of t] by blast

theorem fsck_after_mkfs_witness:
  "\<exists>sb w1 r w2. mkfs (pread_device \<lparr>pd_fd = 3, pd_count = 64\<rparr>) 0 99 blank_world = (Ret sb, w1) \<and>
     fsck (pread_device \<lparr>pd_fd = 3, pd_count = 64\<rparr>) w1 = (Ret r, w2) \<and> report_ok r \<and> r_directories r = 1"
proof -
  from plan_layout_small obtain sb where "plan_layout 64 0 = Inr sb" by blast
  with fsck_after_mkfs [OF blank_world_ok, of 0 sb 99] show ?thesis by auto
qed

end
