(* ===== verification/Engine_Codes.thy ===== *)
theory Engine_Codes
  imports Outcomes Errors Storage
begin

text \<open>
  Which exceptions come out of the engine. The file system knows an error by its code, one of
  those in \<^verbatim>\<open>errors.h\<close>; whatever else is thrown below it becomes \<^verbatim>\<open>VFS_EIO\<close>. An exception that
  ended a commit is kept and thrown again, so the state has to hold a proper one.
\<close>

definition proper :: "exn \<Rightarrow> bool" where
  "proper e \<longleftrightarrow> (case e of FsError c \<Rightarrow> c \<in> set error_codes | _ \<Rightarrow> True)"

lemma proper_exns [simp, ends_rules]:
  "proper (RuntimeError m)" "proper (OutOfRange m)" "proper (InvalidArgument m)" "proper (LogicError m)"
  "proper (throw_errno m)" "proper (log_errno m)" "proper (unreadable b)" "proper (not_in_txn b)"
  by (simp_all add: proper_def throw_errno_def log_errno_def unreadable_def not_in_txn_def)

text \<open>An operation that throws nothing else and halts by a crash only.\<close>

abbreviation proper_op :: "('s, 'a) op \<Rightarrow> bool" where
  "proper_op \<equiv> ends any any proper crash_only"

definition fine :: "'a outcome \<Rightarrow> bool" where
  "fine r \<longleftrightarrow> (case r of Ret x \<Rightarrow> True | Raise e \<Rightarrow> proper e | Halted h \<Rightarrow> h = Crash)"

lemma fine_simps [simp]: "fine (Ret x)" "fine (Raise e) = proper e" "fine (Halted h) = (h = Crash)"
  by (simp_all add: fine_def)

lemma proper_opI: "(\<And>s r s'. m s = (r, s') \<Longrightarrow> fine r) \<Longrightarrow> proper_op m"
  by (rule endsI) force+

lemma proper_opD: "proper_op m \<Longrightarrow> m s = (r, s') \<Longrightarrow> fine r"
  using endsD(3) [of any any proper crash_only m s] endsH [of any any proper crash_only m s] by (cases r) auto

lemma proper_zoom: "proper_op m \<Longrightarrow> proper_op (zoomE get put m)"
  by (rule ends_zoom) simp_all

section \<open>Files and devices\<close>

lemma proper_on_file [ends_rules]: "proper_op m \<Longrightarrow> proper_op (on_file fd m)"
  by (rule proper_opI) (auto simp: on_file_def split: prod.splits dest: proper_opD)

lemma proper_before_write [ends_rules]: "proper_op (before_write fd buf off)"
  by (rule proper_opI) (auto simp: before_write_def Let_def split: if_splits)

lemma read_full_loop_raise: "read_full_loop done off f = (r, f') \<Longrightarrow> fine r"
proof (induction "done" off f rule: read_full_loop.induct)
  case (1 "done" off f)
  then show ?case
    by (auto simp: read_full_loop.simps [of "done" off f] split: if_splits prod.splits sum.splits)
qed

lemma write_full_loop_raise: "write_full_loop src off f = (r, f') \<Longrightarrow> fine r"
proof (induction src off f rule: write_full_loop.induct)
  case (1 src off f)
  then show ?case
    by (auto simp: write_full_loop.simps [of src off f] split: if_splits prod.splits sum.splits)
qed

lemma fsync_loop_raise: "fsync_loop f = (r, f') \<Longrightarrow> fine r"
proof (induction f rule: fsync_loop.induct)
  case (1 f)
  then show ?case by (auto simp: fsync_loop.simps [of f] split: if_splits prod.splits option.splits)
qed

definition proper_device :: "'d device \<Rightarrow> bool" where
  "proper_device dev \<longleftrightarrow> (\<forall>b. proper_op (read_block dev b)) \<and> (\<forall>b x. proper_op (write_block dev b x)) \<and>
     (\<forall>b bs n. proper_op (write_run dev b bs n)) \<and> proper_op (dev_sync dev)"

lemma proper_deviceD [ends_rules]:
  assumes "proper_device dev"
  shows "proper_op (read_block dev b)" "proper_op (write_block dev b x)" "proper_op (write_run dev b bs n)" "proper_op (dev_sync dev)"
  using assms by (simp_all add: proper_device_def)

lemma proper_pread [ends_rules]: "proper_device (pread_device d)"
proof -
  have r: "proper_op (read_full_loop done off)" and w: "proper_op (write_full_loop src off)" and s: "proper_op fsync_loop" for "done" src off
    by (rule proper_opI, erule read_full_loop_raise write_full_loop_raise fsync_loop_raise)+
  show ?thesis
    unfolding proper_device_def pread_device_def device.simps pd_read_block_def pd_write_block_def pd_write_run_def pd_sync_def
      read_full_def write_full_def
    by (intro conjI allI ends_rules r w s)
qed

lemma proper_disk [ends_rules]: "proper_device (disk_of d sy)"
proof -
  have inner: "proper_op m \<Longrightarrow> proper_op (on_inner m)" for m :: "(world, 'a) op" unfolding on_inner_def by (rule proper_zoom)
  note D = proper_deviceD [OF proper_pread [of d]]
  have "proper_op (inst_read_block (pread_device d) b)" "proper_op (inst_write_block (pread_device d) b x)"
    "proper_op (inst_write_run (pread_device d) b bs n)" "proper_op (inst_sync (pread_device d) sy)" for b x bs n
    unfolding inst_read_block_def inst_write_block_def inst_write_run_def inst_sync_def
    by (intro ends_rules inner D)+
  then show ?thesis by (simp add: proper_device_def disk_of_def instrumented_device_def)
qed

section \<open>The log\<close>

lemma proper_on_log [ends_rules]: "proper_op m \<Longrightarrow> proper_op (on_log m)"
  by (rule proper_opI) (auto simp: on_log_def split: prod.splits dest: proper_opD [OF proper_on_file])

lemma write_out_loop_raise: "write_out_loop src off f = (r, f') \<Longrightarrow> fine r"
proof (induction src off f rule: write_out_loop.induct)
  case (1 src off f)
  then show ?case
    by (auto simp: write_out_loop.simps [of src off f] split: if_splits prod.splits sum.splits)
qed

lemma full_sync_raise: "full_sync f = (r, f') \<Longrightarrow> fine r"
proof (induction f rule: full_sync.induct)
  case (1 f)
  then show ?case by (auto simp: full_sync.simps [of f] split: if_splits prod.splits option.splits)
qed

lemma proper_wal_flush [ends_rules]: "proper_op wal_flush"
proof -
  have "proper_op (write_out_loop bs off)" for bs off by (rule proper_opI) (erule write_out_loop_raise)
  note log = proper_on_log [OF this]
  have wo: "proper_op (write_out bs)" for bs
    unfolding write_out_def
  proof (intro ends_rules)
    show "proper_op (\<lambda>(l, w). case before_write (wl_fd l) bs (wl_end l) w of (r, w') \<Rightarrow> (r, (l, w')))"
      by (rule proper_opI) (auto split: prod.splits dest: proper_opD [OF proper_before_write])
    show "proper_op (\<lambda>(l, w). on_log (write_out_loop bs (wl_end l)) (l, w))"
      by (rule proper_opI) (auto split: prod.splits dest: proper_opD [OF log])
  qed
  show ?thesis
  proof (rule proper_opI)
    fix s r s' assume "wal_flush s = (r, s')"
    then show "fine r"
      by (cases r) (auto simp: wal_flush_def thenE_def bindE_eq_Raise bindE_eq_Halted split: if_splits prod.splits dest!: proper_opD [OF wo])
  qed
qed

lemma proper_on_wal [ends_rules]: "proper_op m \<Longrightarrow> proper_op (on_wal m)" "proper_op f \<Longrightarrow> proper_op (on_env f)"
  unfolding on_wal_def on_env_def by (erule proper_zoom)+

lemma proper_encode [ends_rules]:
  assumes "\<And>f. fill = Some f \<Longrightarrow> proper_op f"
  shows "proper_op (wal_encode typ txn b fill)"
proof -
  have "proper_op (case fill of None \<Rightarrow> retE [] | Some f \<Rightarrow> on_env f)"
    using assms by (cases fill) (auto intro: ends_rules)
  then show ?thesis
    unfolding wal_encode_def
    by (intro ends_if ends_throw proper_exns ends_bind_any proper_on_wal) (auto intro!: proper_opI simp: Let_def)
qed

lemma proper_append [ends_rules]: "proper_op (wal_append typ txn b pl)"
  unfolding wal_append_def by (intro ends_rules) (cases pl; simp add: ends_ret; auto intro: ends_rules)

lemma proper_stage [ends_rules]:
  "proper_op (wal_stage typ txn b pl)" "proper_op f \<Longrightarrow> proper_op (wal_stage_block txn b f)"
proof -
  have "proper_op (wal_stage_record ty txn b fill)" if "\<And>f. fill = Some f \<Longrightarrow> proper_op f" for ty and fill :: "('e, block) op option"
    unfolding wal_stage_record_def
  proof (intro ends_rules)
    let ?len = "HEADER_SIZE + (if fill \<noteq> None then BLOCK_SIZE else 0)"
    show "proper_op (\<lambda>(l, w). let len = ?len in
      if length (batch l) > 0 \<and> length (batch l) + len > BATCH_BYTES then wal_flush (l, w) else (Ret (), (l, w)))"
      by (rule proper_opI) (auto simp: Let_def split: prod.splits if_splits dest: proper_opD [OF proper_wal_flush])
  qed (rule that)
  note rec = this
  show "proper_op (wal_stage typ txn b pl)" unfolding wal_stage_def by (rule rec) (cases pl; auto intro: ends_rules)
  show "proper_op f \<Longrightarrow> proper_op (wal_stage_block txn b f)" unfolding wal_stage_block_def by (rule rec) simp
qed

lemma proper_log_sync: "proper_op (\<lambda>(l, w). if wl_sync l then on_log full_sync (l, w) else (Ret (), (l, w)))"
proof -
  have "proper_op full_sync" by (rule proper_opI) (erule full_sync_raise)
  note log = proper_on_log [OF this]
  show ?thesis by (rule proper_opI) (auto split: prod.splits if_splits dest: proper_opD [OF log])
qed

lemma proper_wal_sync [ends_rules]: "proper_op wal_sync"
  unfolding wal_sync_def by (intro ends_rules proper_log_sync)

lemma proper_wal_reset [ends_rules]: "proper_op (wal_reset n)"
proof -
  have "proper_op (\<lambda>f. case posix_ftruncate 0 f of (r, f') \<Rightarrow> (Ret r, f'))" by (rule proper_opI) (auto split: prod.splits)
  then show ?thesis unfolding wal_reset_def by (intro ends_rules proper_log_sync)
qed

section \<open>The cache\<close>

lemma proper_on_dev [ends_rules]: "proper_op m \<Longrightarrow> proper_op (on_dev m)"
  unfolding on_dev_def by (erule proper_zoom)

lemma proper_in_shard [ends_rules]: "proper_op (in_shard k g)"
  unfolding in_shard_def by (intro ends_rules)

lemma proper_take_frame [ends_rules]:
  assumes "proper_device dev"
  shows "proper_op (take_frame dev durable k)"
proof (rule proper_opI)
  fix s r s' assume run: "take_frame dev durable k s = (r, s')"
  have quiet: "proper_op (take_new k)" "proper_op (evict k f)" for f
    by (rule proper_opI; auto simp: take_new_def evict_def Let_def split: prod.splits if_splits)+
  note wr = proper_opD [OF proper_on_dev [OF proper_deviceD(2) [OF assms]]]
  obtain c d where s: "s = (c, d)" by fastforce
  show "fine r" using run
    by (cases r) (auto simp: s take_frame_def Let_def thenE_def bindE_eq_Raise bindE_eq_Halted split: if_splits prod.splits option.splits
        dest: wr proper_opD [OF quiet(1)] proper_opD [OF quiet(2)])
qed

text \<open>What \<^verbatim>\<open>acquire\<close> does when the block is not in the cache.\<close>

definition load_frame :: "'d device \<Rightarrow> u64 \<Rightarrow> u32 \<Rightarrow> bool \<Rightarrow> bool \<Rightarrow> ('d cache_state, nat \<times> bool \<times> bool) op" where
  "load_frame dev durable b zero_fill join_txn =
     (let k = shard_for b in
      bindE (take_frame dev durable k) (\<lambda>f.
      thenE (in_shard k (upd_frame f (\<lambda>x. x\<lparr>f_block_no := b, mapped := True, dirty := False,
         in_txn := join_txn, f_lsn := 0, version := 0, pins := 1\<rparr>)))
     (thenE (in_shard k (\<lambda>s. s\<lparr>smap := (smap s)(b := Some f)\<rparr>))
     (thenE (in_shard k (\<lambda>s. lru_push_front f (lru_unlink f s)))
     (thenE (in_shard k (upd_frame f (\<lambda>x. x\<lparr>load_failed := False\<rparr>)))
     (thenE (if zero_fill then in_shard k (upd_frame f (\<lambda>x. x\<lparr>f_data := zero_block\<rparr>))
       else cleanupE
         (bindE (on_dev (read_block dev b)) (\<lambda>b. in_shard k (upd_frame f (\<lambda>x. x\<lparr>f_data := b\<rparr>))))
         (in_shard k (\<lambda>s. lru_push_back f (lru_unlink f
            (upd_frame f (\<lambda>x. x\<lparr>load_failed := True, mapped := False, in_txn := False, pins := pins x - 1\<rparr>)
            (s\<lparr>smap := (smap s)(b := None)\<rparr>))))))
     (retE (f, True, join_txn))))))))"

lemma acquire_loads:
  "smap (shards c ! shard_for b) b = None \<Longrightarrow>
   acquire dev durable b zero_fill join_txn (c, d) = load_frame dev durable b zero_fill join_txn (c\<lparr>misses := misses c + 1\<rparr>, d)"
  by (simp add: acquire_def load_frame_def Let_def)

lemma proper_acquire [ends_rules]:
  assumes "proper_device dev"
  shows "proper_op (acquire dev durable b zero_fill join_txn)"
proof (rule proper_opI)
  fix s r s' assume run: "acquire dev durable b zero_fill join_txn s = (r, s')"
  obtain c d where s: "s = (c, d)" by fastforce
  have load: "proper_op (load_frame dev durable b zero_fill join_txn)"
    unfolding load_frame_def Let_def by (intro ends_rules assms)
  show "fine r"
  proof (cases "smap (shards c ! shard_for b) b")
    case (Some f)
    with run show ?thesis by (auto simp: s acquire_def Let_def)
  next
    case None
    with run show ?thesis using proper_opD [OF load] by (simp add: s acquire_loads)
  qed
qed

lemma proper_cache_read [ends_rules]: "proper_device dev \<Longrightarrow> proper_op (cache_read dev durable b)"
  unfolding cache_read_def unpin_def by (intro ends_rules)

text \<open>What the caller's function threw is handed on.\<close>

lemma proper_cache_modify:
  assumes "proper_device dev" and "proper_op fn"
  shows "ends any (\<lambda>(_, err). \<forall>e. err = Some e \<longrightarrow> proper e) proper crash_only (cache_modify dev durable b fresh join fn)"
proof -
  let ?W = "\<lambda>(_, err). \<forall>e. err = Some e \<longrightarrow> proper e"
  have fn: "ends any ?W proper crash_only (case fn start of
          (Ret _, b') \<Rightarrow> thenE (in_shard (shard_for b) (upd_frame f (\<lambda>x. x\<lparr>f_data := b'\<rparr>)))
            (thenE (finish_modify (shard_for b) f join) (retE (joined, None)))
        | (Raise e, b') \<Rightarrow> thenE (in_shard (shard_for b) (upd_frame f (\<lambda>x. x\<lparr>f_data := b'\<rparr>)))
            (thenE (finish_modify (shard_for b) f join) (retE (joined, Some e)))
        | (Halted h, b') \<Rightarrow> haltE h)" for start f joined
    by (auto simp: finish_modify_def intro!: ends_rules ends_halt split: prod.split outcome.split dest!: proper_opD [OF assms(2)])
  show ?thesis
    unfolding cache_modify_def Let_def unpin_def
    by (rule ends_bind_any [OF proper_acquire [OF assms(1)]], rule ends_prod, rule ends_prod, rule ends_bind_any [OF ends_get],
        rule ends_if, intro ends_rules, rule fn)
qed

lemma proper_txn_frames [ends_rules]: "proper_op (copy_txn_frame b)" "proper_op (commit_frame b lsn)"
  by (rule proper_opI; auto simp: copy_txn_frame_def commit_frame_def Let_def split: option.splits if_splits)+

lemma proper_write_back [ends_rules]:
  assumes "proper_device dev"
  shows "proper_op (write_back dev durable limit)"
proof -
  have f: "proper_op (flush_run dev run buf)" for run buf
    unfolding flush_run_def by (intro ends_rules assms)
  have "proper_op (write_back_loop dev durable run buf n ps)" for run buf n ps
  proof (induction ps arbitrary: run buf n)
    case Nil
    show ?case unfolding write_back_loop.simps by (intro ends_rules f)
  next
    case (Cons p ps)
    show ?case unfolding write_back_loop.simps Let_def by (intro ends_rules f Cons)
  qed
  then show ?thesis unfolding write_back_def by (intro ends_rules)
qed

section \<open>The journal\<close>

definition stored_in :: "control \<Rightarrow> bool" where
  "stored_in c \<longleftrightarrow> (\<forall>e. failed c = Some e \<longrightarrow> proper e)"

definition stored_ok :: "engine \<Rightarrow> bool" where
  "stored_ok s \<longleftrightarrow> stored_in (ctl s)"

lemma stored_upd [simp]:
  "stored_ok (s\<lparr>ctl := c\<rparr>) = stored_in c" "stored_in (c\<lparr>gate := g\<rparr>) = stored_in c"
  "stored_in (c\<lparr>ended := n\<rparr>) = stored_in c" "stored_in (c\<lparr>committing := b\<rparr>) = stored_in c"
  "stored_in (c\<lparr>commit_requested := b\<rparr>) = stored_in c" "stored_in (c\<lparr>checkpoint_requested := b\<rparr>) = stored_in c"
  "stored_in (c\<lparr>txn_blocks := bs\<rparr>) = stored_in c" "stored_in (c\<lparr>txn_set := B\<rparr>) = stored_in c"
  "stored_in (c\<lparr>txn_count := n\<rparr>) = stored_in c" "stored_in (commit_done n d c) = stored_in c"
  "stored_in (commit_failed e c) = proper e"
  by (simp_all add: stored_ok_def stored_in_def commit_done_def commit_failed_def)

abbreviation sound_op :: "(engine, 'a) op \<Rightarrow> bool" where
  "sound_op \<equiv> ends stored_ok any proper crash_only"

lemma sound_parts [ends_rules]:
  "proper_op f \<Longrightarrow> sound_op (on_frames f)" "proper_op st \<Longrightarrow> sound_op (on_stable st)" "proper_op l \<Longrightarrow> sound_op (on_txn_log l)"
  "ends any V proper crash_only c \<Longrightarrow> ends stored_ok V proper crash_only (on_cache c)"
  unfolding on_frames_def on_stable_def on_txn_log_def on_cache_def
  by (erule ends_zoom; auto simp: stored_ok_def)+

lemma proper_stable [ends_rules]: "proper_op d \<Longrightarrow> proper_op (on_disk d)" "proper_op l \<Longrightarrow> proper_op (on_wal_file l)"
  unfolding on_disk_def on_wal_file_def by (erule proper_zoom)+

lemma sound_durable [ends_rules]: "(\<And>n. ends stored_ok V proper crash_only (f n)) \<Longrightarrow> ends stored_ok V proper crash_only (with_durable f)"
  unfolding with_durable_def by (intro ends_rules)

lemma sound_ctl: "(\<And>c. failed (f c) = failed c) \<Longrightarrow> sound_op (upd_ctl f)"
  unfolding upd_ctl_def by (rule ends_mod) (simp add: stored_ok_def stored_in_def)

lemma sound_kick [ends_rules]: "sound_op kick_if_dirty"
  unfolding kick_if_dirty_def by (rule ends_mod) (simp add: stored_ok_def stored_in_def)

lemma sound_check [ends_rules]: "sound_op (check_block b)" "sound_op rethrow_if_failed"
  by (rule endsI; auto simp: check_block_def rethrow_if_failed_def stored_ok_def stored_in_def split: if_splits option.splits)+

lemma sound_add [ends_rules]: "sound_op (add_to_txn b)"
  unfolding add_to_txn_def by (rule ends_mod) (simp add: stored_ok_def stored_in_def Let_def)

lemma sound_read [ends_rules]: "proper_device dev \<Longrightarrow> sound_op (journal_read dev b)"
  unfolding journal_read_def by (intro ends_rules)

lemma sound_write [ends_rules]:
  assumes "proper_device dev" and "proper_op fn"
  shows "sound_op (journal_write dev b fresh fn)"
proof -
  let ?W = "\<lambda>(_, err). \<forall>e. err = Some e \<longrightarrow> proper e"
  have m: "ends stored_ok ?W proper crash_only (with_durable (\<lambda>durable. on_cache (cache_modify dev durable b fresh join fn)))" for join
    by (intro sound_durable sound_parts proper_cache_modify assms)
  have plain: "sound_op (bindE (with_durable (\<lambda>durable. on_cache (cache_modify dev durable b fresh False fn))) (\<lambda>(_, err).
      case err of Some e \<Rightarrow> throwE e | None \<Rightarrow> kick_if_dirty))"
    by (rule ends_bind [OF m]) (auto intro!: ends_throw sound_kick split: prod.splits option.split)
  have logged: "sound_op (bindE (with_durable (\<lambda>durable. on_cache (cache_modify dev durable b fresh True fn))) (\<lambda>(joined, err).
      thenE (whenE joined (add_to_txn b)) (case err of Some e \<Rightarrow> throwE e | None \<Rightarrow> retE ())))"
    by (rule ends_bind [OF m]) (auto intro!: ends_then ends_when ends_throw ends_ret sound_add split: prod.splits option.split)
  show ?thesis
    unfolding journal_write_def by (intro ends_then ends_bind_any [OF ends_get] ends_if sound_check plain logged)
qed

lemma sound_work [ends_rules]: "proper_device dev \<Longrightarrow> sound_op (commit_work dev blocks wanted)"
  unfolding commit_work_def write_txn_def do_checkpoint_def write_superblock_def by (intro ends_rules sound_ctl) simp_all

lemma sound_run_commit [ends_rules]:
  assumes "proper_device dev"
  shows "sound_op (run_commit dev)"
proof -
  have body: "sound_op (catchE
      (bindE (commit_work dev blocks wanted) (\<lambda>checkpointed.
       thenE kick_if_dirty (thenE (upd_ctl (commit_done n checkpointed)) (retE True))))
      (\<lambda>e. thenE (upd_ctl (commit_failed e)) (throwE e)))" for blocks wanted n
  proof (rule ends_catch)
    show "sound_op (bindE (commit_work dev blocks wanted) (\<lambda>checkpointed.
        thenE kick_if_dirty (thenE (upd_ctl (commit_done n checkpointed)) (retE True))))"
      by (intro ends_rules assms sound_ctl) (simp add: commit_done_def)
  next
    fix e assume e: "proper e"
    then have "sound_op (upd_ctl (commit_failed e))"
      unfolding upd_ctl_def by (intro ends_mod) simp
    then show "sound_op (thenE (upd_ctl (commit_failed e)) (throwE e))" using e by (intro ends_then ends_throw)
  qed
  show ?thesis
    by (rule ends_by) (auto simp: run_commit_def Let_def stored_ok_def intro!: ends_at [OF body])
qed

text \<open>
  The loops that wait: what the other threads do meanwhile must not store anything else. A loop
  whose turns are used up waits.
\<close>

abbreviation sound_turns :: "turns \<Rightarrow> bool" where
  "sound_turns turns \<equiv> (\<forall>w \<in> set turns. \<forall>s. stored_ok s \<longrightarrow> stored_ok (w s))"

abbreviation waiting_op :: "(engine, 'a) op \<Rightarrow> bool" where
  "waiting_op \<equiv> ends stored_ok any proper (\<lambda>h s. h = Waits)"

lemma sound_wait:
  assumes "\<And>s. stored_ok s \<Longrightarrow> stored_ok (w s)" and "waiting_op m"
  shows "waiting_op (\<lambda>s. m (w s))"
  by (rule ends_by) (intro ends_at [OF assms(2)] assms(1))

lemma sound_cases:
  assumes "waiting_op m" and "waiting_op m'"
  shows "waiting_op (\<lambda>s. if b s then m s else m' s)"
  by (rule ends_by) (simp add: ends_at [OF assms(1)] ends_at [OF assms(2)])

lemma sound_turn:
  assumes "proper_device dev" and "\<And>s. stored_ok s \<Longrightarrow> stored_ok (wait s)" and "waiting_op loop"
  shows "waiting_op (bindE (run_commit dev) (\<lambda>done s. loop (if done then s else wait s)))"
  by (intro ends_bind_any [OF ends_quiet [OF sound_run_commit [OF assms(1)]]] sound_wait [OF _ assms(3)]) (simp add: assms(2))

lemma waits: "waiting_op (haltE Waits)" "waiting_op rethrow_if_failed" "waiting_op (retE x)"
  by (simp_all add: ends_halt ends_ret ends_quiet [OF sound_check(2)])

lemma sound_begin_slow:
  assumes "proper_device dev" and "sound_turns turns"
  shows "waiting_op (begin_op_slow dev turns)"
  using assms(2)
proof (induction turns)
  case (Cons wait turns)
  let ?loop = "begin_op_slow dev turns"
  have w: "\<And>s. stored_ok s \<Longrightarrow> stored_ok (wait s)" and loop: "waiting_op ?loop" using Cons by simp_all
  note turn = sound_turn [OF assms(1) w loop]
  show ?case
    unfolding begin_op_slow.simps
  proof (intro ends_then waits(2) sound_cases sound_wait [OF w loop])
    show "waiting_op (\<lambda>s. let c = ctl s; g = gate c;
             full = (g AND CLOSED = 0 \<and> \<not> fits c (g AND NOT CLOSED));
             c1 = (if full then c\<lparr>commit_requested := True, gate := g OR CLOSED\<rparr> else c);
             s1 = s\<lparr>ctl := c1\<rparr>
         in if gate c1 AND CLOSED = 0
            then (Ret (), s1\<lparr>ctl := c1\<lparr>gate := gate c1 + 1\<rparr>\<rparr>)
            else bindE (run_commit dev) (\<lambda>done s2. ?loop (if done then s2 else wait s2)) s1)"
      by (rule ends_by) (auto simp: Let_def stored_ok_def intro!: ends_at [OF turn])
  qed
qed (simp add: waits)

lemma sound_commit_loop:
  assumes "proper_device dev" and "sound_turns turns"
  shows "waiting_op (commit_loop dev target turns)"
  using assms(2)
proof (induction turns)
  case (Cons wait turns)
  let ?loop = "commit_loop dev target turns"
  have w: "\<And>s. stored_ok s \<Longrightarrow> stored_ok (wait s)" and loop: "waiting_op ?loop" using Cons by simp_all
  have "waiting_op (thenE rethrow_if_failed (\<lambda>s. if committing (ctl s) then ?loop (wait s)
      else bindE (run_commit dev) (\<lambda>done s. ?loop (if done then s else wait s)) s))"
    by (intro ends_then waits(2) sound_cases sound_wait [OF w loop] sound_turn [OF assms(1) w loop])
  from sound_cases [OF this waits(3) [of "()"], of "\<lambda>s. committed_through (ctl s) < target"] show ?case by (simp cong: if_cong)
qed (use sound_cases [OF waits(1) waits(3) [of "()"], of "\<lambda>s. committed_through (ctl s) < target"] in \<open>simp cong: if_cong\<close>)

lemma sound_checkpoint_loop:
  assumes "proper_device dev" and "sound_turns turns"
  shows "waiting_op (checkpoint_loop dev target turns)"
  using assms(2)
proof (induction turns)
  case (Cons wait turns)
  let ?loop = "checkpoint_loop dev target turns"
  have w: "\<And>s. stored_ok s \<Longrightarrow> stored_ok (wait s)" and loop: "waiting_op ?loop" using Cons by simp_all
  have want: "waiting_op (upd_ctl (\<lambda>c. c\<lparr>checkpoint_requested := True\<rparr>))" by (rule ends_quiet, rule sound_ctl) simp
  have "waiting_op (thenE rethrow_if_failed (\<lambda>s. if committing (ctl s) then ?loop (wait s)
      else thenE (upd_ctl (\<lambda>c. c\<lparr>checkpoint_requested := True\<rparr>))
        (bindE (run_commit dev) (\<lambda>done s. ?loop (if done then s else wait s))) s))"
    by (intro ends_then waits(2) want sound_cases sound_wait [OF w loop] sound_turn [OF assms(1) w loop])
  from sound_cases [OF this waits(3) [of "()"], of "\<lambda>s. checkpoints_done (ctl s) < target"] show ?case by (simp cong: if_cong)
qed (use sound_cases [OF waits(1) waits(3) [of "()"], of "\<lambda>s. checkpoints_done (ctl s) < target"] in \<open>simp cong: if_cong\<close>)

subsection \<open>What a commit leaves\<close>

lemma leaves_any: "ends any any any some_way m"
  by (rule endsI) simp_all

text \<open>The work of a commit itself touches none of these members.\<close>

abbreviation ctl_key :: "engine \<Rightarrow> u64 \<times> u64 \<times> u64 \<times> bool \<times> u64" where
  "ctl_key s \<equiv> (gate (ctl s), txn_count (ctl s), ended (ctl s), committing (ctl s), checkpoints_done (ctl s))"

lemma commit_work_key: "ends (\<lambda>s. ctl_key s = k) any any some_way (commit_work dev bs wanted)"
proof -
  have z: "ends (\<lambda>s. ctl_key s = k) any any some_way (on_cache c)" "ends (\<lambda>s. ctl_key s = k) any any some_way (on_frames f)"
    "ends (\<lambda>s. ctl_key s = k) any any some_way (on_stable m)" "ends (\<lambda>s. ctl_key s = k) any any some_way (on_txn_log l)"
    for c :: "(disk cache_state, 'c) op" and f :: "(cache, 'f) op" and m :: "(stable, 'm) op" and l :: "(cache \<times> wal_state, 'l) op"
    unfolding on_cache_def on_frames_def on_stable_def on_txn_log_def by (rule ends_zoom [OF leaves_any]; auto)+
  have u: "ends (\<lambda>s. ctl_key s = k) any any some_way (upd_ctl g)"
    if "\<And>c. (gate (g c), txn_count (g c), ended (g c), committing (g c), checkpoints_done (g c)) =
      (gate c, txn_count c, ended c, committing c, checkpoints_done c)" for g
    using that unfolding upd_ctl_def by (intro ends_mod) auto
  show ?thesis
    unfolding commit_work_def write_txn_def do_checkpoint_def with_durable_def by (intro ends_rules z u) simp_all
qed

lemma commit_work_wanted: "commit_work dev bs True s = (Ret x, s') \<Longrightarrow> x"
  by (auto simp: commit_work_def thenE_eq_Ret bindE_eq_Ret)

lemma run_commit_False: "run_commit dev s = (Ret False, s') \<Longrightarrow> gate (ctl s') AND NOT CLOSED = gate (ctl s) AND NOT CLOSED \<and> gate (ctl s') AND NOT CLOSED \<noteq> 0"
  by (auto simp: run_commit_def Let_def catchE_eq bindE_eq_Ret thenE_eq_Ret bit.conj_disj_distrib2 and.assoc [symmetric] split: if_splits)

lemma run_commit_True:
  assumes "run_commit dev s = (Ret True, s')"
  shows "gate (ctl s') = 0" "\<not> committing (ctl s')" "txn_count (ctl s') = 0" "ended (ctl s') = ended (ctl s)"
    "committed_through (ctl s') = ended (ctl s)" "checkpoint_requested (ctl s) \<Longrightarrow> checkpoints_done (ctl s') = checkpoints_done (ctl s) + 1"
proof -
  let ?c = "ctl s"
  let ?s2 = "s\<lparr>ctl := ?c\<lparr>gate := gate ?c OR CLOSED, committing := True, commit_requested := False, checkpoint_requested := False,
             txn_blocks := [], txn_set := {}, txn_count := 0\<rparr>\<rparr>"
  have idle: "gate ?c AND NOT CLOSED = 0" using assms by (auto simp: run_commit_def Let_def split: if_splits)
  have "catchE (bindE (commit_work dev (txn_blocks ?c) (checkpoint_requested ?c)) (\<lambda>checkpointed.
      thenE kick_if_dirty (thenE (upd_ctl (commit_done (ended ?c) checkpointed)) (retE True))))
      (\<lambda>e. thenE (upd_ctl (commit_failed e)) (throwE e)) ?s2 = (Ret True, s')"
    using assms idle by (simp add: run_commit_def Let_def)
  then obtain x s3 where w: "commit_work dev (txn_blocks ?c) (checkpoint_requested ?c) ?s2 = (Ret x, s3)"
    and c': "ctl s' = commit_done (ended ?c) x (ctl s3)"
    unfolding catchE_eq bindE_eq_Ret thenE_eq_Ret by (auto simp: kick_if_dirty_def upd_ctl_def)
  from endsD(2) [OF commit_work_key [of "ctl_key ?s2"] refl w]
  have k: "gate (ctl s3) = gate ?c OR CLOSED" "txn_count (ctl s3) = 0" "ended (ctl s3) = ended ?c" "checkpoints_done (ctl s3) = checkpoints_done ?c"
    by simp_all
  have "(gate ?c OR CLOSED) AND NOT CLOSED = gate ?c AND NOT CLOSED" by (simp add: bit.conj_disj_distrib2)
  with idle k c' show "gate (ctl s') = 0" "\<not> committing (ctl s')" "txn_count (ctl s') = 0" "ended (ctl s') = ended ?c"
    "committed_through (ctl s') = ended ?c" by (simp_all add: commit_done_def)
  show "checkpoints_done (ctl s') = checkpoints_done ?c + 1" if "checkpoint_requested ?c"
    using commit_work_wanted w that k c' by (simp add: commit_done_def)
qed

lemma run_commit_throws: "run_commit dev s = (Raise e, s') \<Longrightarrow> failed (ctl s') = Some e"
  by (auto simp: run_commit_def Let_def catchE_eq thenE_def bindE_def upd_ctl_def commit_failed_def split: if_splits)

subsection \<open>When the only thread waits, and when the process is ended\<close>

text \<open>A commit is under way, or an operation that has begun has not ended.\<close>

definition busy :: "engine \<Rightarrow> bool" where
  "busy s \<longleftrightarrow> committing (ctl s) \<or> gate (ctl s) AND NOT CLOSED \<noteq> 0"

definition engine_stop :: "cause \<Rightarrow> engine \<Rightarrow> bool" where
  "engine_stop h s \<longleftrightarrow> h = Waits \<and> busy s \<or> h = Terminates \<and> failed (ctl s) \<noteq> None"

abbreviation engine_op :: "(engine, 'a) op \<Rightarrow> bool" where
  "engine_op \<equiv> ends stored_ok any proper engine_stop"

text \<open>One turn of a loop that waits.\<close>

lemma run_commit_busy:
  assumes "proper_device dev" and "stored_ok s"
    and "bindE (run_commit dev) (\<lambda>done s. loop (if done then s else s)) s = (Halted h, s')"
    and "\<And>t. stored_ok t \<Longrightarrow> busy t \<Longrightarrow> loop t = (Halted h, s') \<Longrightarrow> h = Crash \<or> busy s'"
    and "\<And>t. stored_ok t \<Longrightarrow> run_commit dev s = (Ret True, t) \<Longrightarrow> loop t = (Halted h, s') \<Longrightarrow> h = Crash \<or> busy s'"
  shows "h = Crash \<or> busy s'"
proof -
  note so = sound_run_commit [OF assms(1)]
  from assms(3) consider "run_commit dev s = (Halted h, s')" | x t where "run_commit dev s = (Ret x, t)" "loop t = (Halted h, s')"
    by (auto simp: bindE_eq_Halted)
  then show ?thesis
  proof cases
    case 1
    with endsH [OF so assms(2)] show ?thesis by blast
  next
    case 2
    note t = endsD(2) [OF so assms(2) 2(1)]
    show ?thesis
    proof (cases x)
      case True
      with assms(5) [OF t] 2 show ?thesis by simp
    next
      case False
      with 2(1) have "run_commit dev s = (Ret False, t)" by simp
      from run_commit_False [OF this] have "gate (ctl t) AND NOT CLOSED \<noteq> 0" by blast
      then have "busy t" by (simp add: busy_def)
      from assms(4) [OF t this 2(2)] show ?thesis .
    qed
  qed
qed

text \<open>What is waited for stays as it is while nobody else runs.\<close>

lemma busy_begin:
  assumes "proper_device dev" and "set turns \<subseteq> {\<lambda>s. s}"
  shows "stored_ok s \<Longrightarrow> busy s \<Longrightarrow> begin_op_slow dev turns s = (Halted h, s') \<Longrightarrow> h = Crash \<or> busy s'"
  using assms(2)
proof (induction turns arbitrary: s)
  case (Cons w turns)
  have w: "w = (\<lambda>s. s)" and ts: "set turns \<subseteq> {\<lambda>s. s}" using Cons.prems(4) by auto
  have nf: "failed (ctl s) = None" using Cons.prems(3) by (auto simp: rethrow_if_failed_def thenE_def bindE_def split: option.splits)
  show ?case
  proof (cases "committing (ctl s)")
    case True
    with Cons.prems(3) nf w have "begin_op_slow dev turns s = (Halted h, s')" by (simp add: rethrow_if_failed_def thenE_def bindE_def)
    with Cons.IH [OF Cons.prems(1,2) _ ts] show ?thesis by blast
  next
    case False
    define c1 where "c1 = (if gate (ctl s) AND CLOSED = 0 \<and> \<not> fits (ctl s) (gate (ctl s) AND NOT CLOSED)
      then (ctl s)\<lparr>commit_requested := True, gate := gate (ctl s) OR CLOSED\<rparr> else ctl s)"
    let ?s1 = "s\<lparr>ctl := c1\<rparr>"
    have "gate c1 AND NOT CLOSED = gate (ctl s) AND NOT CLOSED" by (simp add: c1_def bit.conj_disj_distrib2)
    then have active: "gate c1 AND NOT CLOSED \<noteq> 0" using Cons.prems(2) False by (simp add: busy_def)
    have ok1: "stored_ok ?s1" using Cons.prems(1) by (simp add: stored_ok_def c1_def)
    have "bindE (run_commit dev) (\<lambda>done s. begin_op_slow dev turns (if done then s else s)) ?s1 = (Halted h, s')"
      using Cons.prems(3) nf False unfolding begin_op_slow.simps w
      by (simp add: rethrow_if_failed_def thenE_def bindE_def [of rethrow_if_failed] Let_def c1_def [symmetric] split: if_splits)
    then show ?thesis
    proof (rule run_commit_busy [OF assms(1) ok1])
      show "stored_ok t \<Longrightarrow> busy t \<Longrightarrow> begin_op_slow dev turns t = (Halted h, s') \<Longrightarrow> h = Crash \<or> busy s'" for t
        using Cons.IH ts by blast
      show "run_commit dev ?s1 = (Ret True, t) \<Longrightarrow> h = Crash \<or> busy s'" for t
        using active by (simp add: run_commit_def Let_def)
    qed
  qed
qed simp

lemma begin_alone:
  assumes "proper_device dev" and "stored_ok s" and "begin_op_slow dev alone s = (Halted h, s')"
  shows "h = Crash \<or> busy s'"
proof (cases "busy s")
  case True
  have "set alone \<subseteq> {\<lambda>s. s}" by (simp add: alone_def)
  from busy_begin [OF assms(1) this assms(2) True assms(3)] show ?thesis .
next
  case False
  then have idle: "\<not> committing (ctl s)" by (simp add: busy_def)
  have nf: "failed (ctl s) = None" using assms(3) by (auto simp: alone_def rethrow_if_failed_def thenE_def bindE_def split: option.splits)
  define c1 where "c1 = (if gate (ctl s) AND CLOSED = 0 \<and> \<not> fits (ctl s) (gate (ctl s) AND NOT CLOSED)
    then (ctl s)\<lparr>commit_requested := True, gate := gate (ctl s) OR CLOSED\<rparr> else ctl s)"
  let ?s1 = "s\<lparr>ctl := c1\<rparr>" and ?loop = "begin_op_slow dev [\<lambda>s. s]"
  have ok1: "stored_ok ?s1" using assms(2) by (simp add: stored_ok_def c1_def)
  have "bindE (run_commit dev) (\<lambda>done s. ?loop (if done then s else s)) ?s1 = (Halted h, s')"
    using assms(3) nf idle unfolding alone_def begin_op_slow.simps(2) [of dev "\<lambda>s. s" "[\<lambda>s. s]"]
    by (simp add: rethrow_if_failed_def thenE_def bindE_def [of rethrow_if_failed] Let_def c1_def [symmetric] split: if_splits)
  then show ?thesis
  proof (rule run_commit_busy [OF assms(1) ok1])
    show "stored_ok t \<Longrightarrow> busy t \<Longrightarrow> ?loop t = (Halted h, s') \<Longrightarrow> h = Crash \<or> busy s'" for t
      using busy_begin [OF assms(1), of "[\<lambda>s. s]"] by simp
    show "run_commit dev ?s1 = (Ret True, t) \<Longrightarrow> ?loop t = (Halted h, s') \<Longrightarrow> h = Crash \<or> busy s'" for t
      using run_commit_True(1-3) [of dev ?s1 t] by (auto simp: rethrow_if_failed_def thenE_def bindE_def fits_def Let_def split: option.splits)
  qed
qed

lemma busy_commit:
  assumes "proper_device dev" and "set turns \<subseteq> {\<lambda>s. s}"
  shows "stored_ok s \<Longrightarrow> (target = ended (ctl s) \<or> busy s) \<Longrightarrow> commit_loop dev target turns s = (Halted h, s') \<Longrightarrow> turns \<noteq> [] \<or> busy s \<Longrightarrow> h = Crash \<or> busy s'"
  using assms(2)
proof (induction turns arbitrary: s)
  case Nil
  then show ?case by (simp split: if_splits)
next
  case (Cons w turns)
  have w: "w = (\<lambda>s. s)" and ts: "set turns \<subseteq> {\<lambda>s. s}" using Cons.prems(5) by auto
  have due: "committed_through (ctl s) < target" and nf: "failed (ctl s) = None"
    using Cons.prems(3) by (auto simp: rethrow_if_failed_def thenE_def bindE_def split: option.splits if_splits)
  show ?case
  proof (cases "committing (ctl s)")
    case True
    then have "busy s" by (simp add: busy_def)
    moreover have "commit_loop dev target turns s = (Halted h, s')"
      using Cons.prems(3) nf w due True by (simp add: rethrow_if_failed_def thenE_def bindE_def)
    ultimately show ?thesis using Cons.IH [OF Cons.prems(1) _ _ _ ts] by blast
  next
    case False
    have "bindE (run_commit dev) (\<lambda>done s. commit_loop dev target turns (if done then s else s)) s = (Halted h, s')"
      using Cons.prems(3) nf False due unfolding commit_loop.simps w
      by (simp add: rethrow_if_failed_def thenE_def bindE_def [of rethrow_if_failed])
    then show ?thesis
    proof (rule run_commit_busy [OF assms(1) Cons.prems(1)])
      show "stored_ok t \<Longrightarrow> busy t \<Longrightarrow> commit_loop dev target turns t = (Halted h, s') \<Longrightarrow> h = Crash \<or> busy s'" for t
        using Cons.IH ts by blast
      fix t assume t: "run_commit dev s = (Ret True, t)" "commit_loop dev target turns t = (Halted h, s')"
      then have "gate (ctl s) AND NOT CLOSED = 0" by (auto simp: run_commit_def Let_def split: if_splits)
      then have "target = ended (ctl s)" using Cons.prems(2) False by (simp add: busy_def)
      then have "commit_loop dev target turns t = (Ret (), t)" using run_commit_True(5) [OF t(1)] by (cases turns) simp_all
      with t(2) show "h = Crash \<or> busy s'" by simp
    qed
  qed
qed

lemma busy_checkpoint:
  assumes "proper_device dev" and "set turns \<subseteq> {\<lambda>s. s}"
  shows "stored_ok s \<Longrightarrow> (target = checkpoints_done (ctl s) + 1 \<or> busy s) \<Longrightarrow> checkpoint_loop dev target turns s = (Halted h, s') \<Longrightarrow>
    turns \<noteq> [] \<or> busy s \<Longrightarrow> h = Crash \<or> busy s'"
  using assms(2)
proof (induction turns arbitrary: s)
  case Nil
  then show ?case by (simp split: if_splits)
next
  case (Cons w turns)
  have w: "w = (\<lambda>s. s)" and ts: "set turns \<subseteq> {\<lambda>s. s}" using Cons.prems(5) by auto
  have due: "checkpoints_done (ctl s) < target" and nf: "failed (ctl s) = None"
    using Cons.prems(3) by (auto simp: rethrow_if_failed_def thenE_def bindE_def split: option.splits if_splits)
  show ?case
  proof (cases "committing (ctl s)")
    case True
    then have "busy s" by (simp add: busy_def)
    moreover have "checkpoint_loop dev target turns s = (Halted h, s')"
      using Cons.prems(3) nf w due True by (simp add: rethrow_if_failed_def thenE_def bindE_def)
    ultimately show ?thesis using Cons.IH [OF Cons.prems(1) _ _ _ ts] by blast
  next
    case False
    let ?s1 = "s\<lparr>ctl := (ctl s)\<lparr>checkpoint_requested := True\<rparr>\<rparr>"
    have ok1: "stored_ok ?s1" using Cons.prems(1) by (simp add: stored_ok_def)
    have "bindE (run_commit dev) (\<lambda>done s. checkpoint_loop dev target turns (if done then s else s)) ?s1 = (Halted h, s')"
      using Cons.prems(3) nf False due unfolding checkpoint_loop.simps w
      by (simp add: rethrow_if_failed_def thenE_def bindE_def [of rethrow_if_failed] bindE_def [of "upd_ctl _"] upd_ctl_def)
    then show ?thesis
    proof (rule run_commit_busy [OF assms(1) ok1])
      show "stored_ok t \<Longrightarrow> busy t \<Longrightarrow> checkpoint_loop dev target turns t = (Halted h, s') \<Longrightarrow> h = Crash \<or> busy s'" for t
        using Cons.IH ts by blast
      fix t assume t: "run_commit dev ?s1 = (Ret True, t)" "checkpoint_loop dev target turns t = (Halted h, s')"
      then have "gate (ctl s) AND NOT CLOSED = 0" by (auto simp: run_commit_def Let_def split: if_splits)
      then have "target = checkpoints_done (ctl s) + 1" using Cons.prems(2) False by (simp add: busy_def)
      then have "checkpoint_loop dev target turns t = (Ret (), t)" using run_commit_True(6) [OF t(1)] by (cases turns) simp_all
      with t(2) show "h = Crash \<or> busy s'" by simp
    qed
  qed
qed

text \<open>An operation that waits only for what it finds busy.\<close>

lemma engine_opI:
  assumes "waiting_op m" and "\<And>s h s'. stored_ok s \<Longrightarrow> m s = (Halted h, s') \<Longrightarrow> h = Crash \<or> busy s'"
  shows "engine_op m"
proof (rule endsI)
  fix s h s' assume m: "stored_ok s" "m s = (Halted h, s')"
  from assms(2) [OF m] endsH [OF assms(1) m] show "h = Crash \<or> engine_stop h s'" by (auto simp: engine_stop_def)
qed (use endsD [OF assms(1)] in blast)+

lemma alone_sound [simp]: "sound_turns alone" "set alone \<subseteq> {\<lambda>s. s}" "alone \<noteq> []"
  by (simp_all add: alone_def)

lemma sound_begin:
  assumes "proper_device dev"
  shows "engine_op (journal_begin_op dev alone)"
proof -
  have slow: "engine_op (begin_op_slow dev alone)"
    by (rule engine_opI [OF sound_begin_slow [OF assms alone_sound(1)]]) (rule begin_alone [OF assms])
  show ?thesis by (rule ends_by) (auto simp: journal_begin_op_def Let_def stored_ok_def intro!: ends_at [OF slow])
qed

lemma sound_end:
  assumes "proper_device dev"
  shows "sound_op (journal_end_op dev)"
proof -
  have run: "sound_op (thenE (run_commit dev) (retE ()))" by (intro ends_rules assms)
  have slow: "sound_op (end_op_slow dev)"
    by (rule ends_by) (auto simp: end_op_slow_def Let_def intro!: ends_at [OF run])
  show ?thesis
    by (rule ends_by) (auto simp: journal_end_op_def Let_def stored_ok_def intro!: ends_at [OF slow])
qed

text \<open>What \<^verbatim>\<open>end_op\<close> throws is the error of the commit it made.\<close>

lemma end_throws: "journal_end_op dev s = (Raise e, s') \<Longrightarrow> failed (ctl s') = Some e"
  by (auto simp: journal_end_op_def end_op_slow_def Let_def thenE_def bindE_eq_Raise dest: run_commit_throws split: if_splits)

lemma sound_commit:
  assumes "proper_device dev"
  shows "engine_op (journal_commit dev alone)"
proof -
  have plain: "engine_op (thenE (with_durable (\<lambda>durable. on_cache (write_back dev durable None))) (on_stable (on_disk (dev_sync dev))))"
    by (rule ends_quiet) (intro ends_rules assms(1))
  have "waiting_op (\<lambda>s. commit_loop dev (ended (ctl s)) alone s)"
    by (rule ends_by) (rule ends_at [OF sound_commit_loop [OF assms alone_sound(1)]])
  then have loop: "engine_op (\<lambda>s. commit_loop dev (ended (ctl s)) alone s)"
    by (rule engine_opI) (rule busy_commit [OF assms alone_sound(2)], simp_all)
  show ?thesis unfolding journal_commit_def by (rule ends_by) (auto intro: ends_at [OF plain] ends_at [OF loop])
qed

lemma sound_checkpoint:
  assumes "proper_device dev"
  shows "engine_op (journal_checkpoint dev alone)"
proof -
  have "waiting_op (\<lambda>s. checkpoint_loop dev (checkpoints_done (ctl s) + 1) alone s)"
    by (rule ends_by) (rule ends_at [OF sound_checkpoint_loop [OF assms alone_sound(1)]])
  then have loop: "engine_op (\<lambda>s. checkpoint_loop dev (checkpoints_done (ctl s) + 1) alone s)"
    by (rule engine_opI) (rule busy_checkpoint [OF assms alone_sound(2)], simp_all)
  show ?thesis unfolding journal_checkpoint_def
    by (rule ends_by) (auto intro: ends_at [OF sound_commit [OF assms]] ends_at [OF loop])
qed

section \<open>Opening the engine\<close>

lemma read_at_loop_raise: "read_at_loop done n off f = (r, f') \<Longrightarrow> fine r"
proof (induction "done" n off f rule: read_at_loop.induct)
  case (1 "done" n off f)
  then show ?case
    by (auto simp: read_at_loop.simps [of "done" n off f] split: if_splits prod.splits sum.splits)
qed

lemma scan_loop_raise: "scan_loop nblocks st_size records off f = (r, f') \<Longrightarrow> fine r"
proof (induction nblocks st_size records off f rule: scan_loop.induct)
  case (1 nblocks st_size records off f)
  have r: "read_at n o1 g = (x, g') \<Longrightarrow> fine x" for n o1 g g' x unfolding read_at_def by (rule read_at_loop_raise)
  show ?case using "1.prems"
    by (subst (asm) scan_loop.simps) (auto simp: Let_def split: if_splits prod.splits outcome.splits intro: "1.IH" [OF sym] dest: r)
qed

lemma proper_scan [ends_rules]: "proper_op (wal_scan n)"
proof -
  have s: "proper_op (scan_loop n st_size records off)" for st_size records off by (rule proper_opI) (erule scan_loop_raise)
  have f: "proper_op (\<lambda>f. case posix_fstat_size f of (r, f') \<Rightarrow> (Ret r, f'))" by (rule proper_opI) (auto split: prod.splits)
  show ?thesis unfolding wal_scan_def by (intro ends_rules s f)
qed

lemma proper_recover [ends_rules]: "proper_device dev \<Longrightarrow> proper_op (recover dev sb)"
  unfolding recover_def replay_record_def write_superblock_def Let_def by (intro ends_rules)

lemma proper_storage_start: "proper_device dev \<Longrightarrow> ends any stored_ok proper crash_only (storage_start opts dev sb)"
  unfolding storage_start_def write_superblock_def Let_def inst_reset_counts_def wal_reset_stats_def
  by (intro ends_rules) (simp_all add: ends_def [of _ _ _ _ "getE _"] stored_ok_def stored_in_def journal_new_def)

lemma validate_proper: "validate_superblock sb n = Inl e \<Longrightarrow> proper e"
proof -
  have p: "plan_layout n i = Inl e \<Longrightarrow> \<exists>m. e = InvalidArgument m" for n i e
    by (auto simp: plan_layout_def Let_def split: if_splits)
  have a: "andThen x y = Inl e \<Longrightarrow> (x = Inl e \<Longrightarrow> proper e) \<Longrightarrow> (y = Inl e \<Longrightarrow> proper e) \<Longrightarrow> proper e" for x and y :: "exn + unit"
    by (auto simp: andThen_def split: sum.splits)
  have x: "expect_field f v w = Inl e \<Longrightarrow> proper e" for f v w
    by (auto simp: expect_field_def corrupt_def split: if_splits)
  assume "validate_superblock sb n = Inl e"
  then show ?thesis
    by (auto simp: validate_superblock_def corrupt_def split: if_splits sum.splits exn.splits elim!: a dest: x dest!: p)
qed

lemma proper_pd_open [ends_rules]: "proper_op (pd_open path)"
  unfolding pd_open_def by (intro ends_rules; (rule proper_opI, auto split: prod.splits)?)

lemma proper_wal_open [ends_rules]: "proper_op (wal_open path sy)"
  unfolding wal_open_def by (intro ends_rules; (rule proper_opI, auto split: prod.splits)?)

lemma proper_read_superblock [ends_rules]: "proper_device dev \<Longrightarrow> proper_op (read_superblock dev)"
  unfolding read_superblock_def Let_def by (intro ends_rules ends_lift validate_proper)

lemma proper_storage_open: "ends any (\<lambda>x. stored_ok (snd x)) proper crash_only (storage_open disk_path wal_path opts)"
  unfolding storage_open_def
proof (rule ends_bind_any [OF proper_pd_open], rule ends_by)
  fix raw w
  let ?dev = "disk_of raw (so_fsync opts)"
  show "outcome_ok any (\<lambda>x. stored_ok (snd x)) proper crash_only (let dev = ?dev in case read_superblock dev (fresh_disk w) of
         (Raise e, d) \<Rightarrow> (Raise e, inner d)
       | (Halted h, d) \<Rightarrow> (Halted h, inner d)
       | (Ret sb, d) \<Rightarrow> (case wal_open wal_path (so_fsync opts) (inner d) of
           (Raise e, w) \<Rightarrow> (Raise e, w)
         | (Halted h, w) \<Rightarrow> (Halted h, w)
         | (Ret l, w) \<Rightarrow> (case storage_start opts dev sb (l, d\<lparr>inner := w\<rparr>) of
             (Raise e, st) \<Rightarrow> (Raise e, inner (snd st))
           | (Halted h, st) \<Rightarrow> (Halted h, inner (snd st))
           | (Ret eng, st) \<Rightarrow> (Ret (raw, eng), inner (snd st)))))"
  proof -
    obtain r1 d1 where 1: "read_superblock ?dev (fresh_disk w) = (r1, d1)" by fastforce
    note f1 = proper_opD [OF proper_read_superblock [OF proper_disk] 1]
    show ?thesis
    proof (cases r1)
      case (Ret sb)
      obtain r2 w2 where 2: "wal_open wal_path (so_fsync opts) (inner d1) = (r2, w2)" by fastforce
      note f2 = proper_opD [OF proper_wal_open 2]
      show ?thesis
      proof (cases r2)
        case l: (Ret l)
        obtain r3 st where 3: "storage_start opts ?dev sb (l, d1\<lparr>inner := w2\<rparr>) = (r3, st)" by (metis surj_pair)
        have "outcome_ok any stored_ok proper crash_only (storage_start opts ?dev sb (l, d1\<lparr>inner := w2\<rparr>))"
          by (rule ends_at [OF proper_storage_start [OF proper_disk]]) simp
        with 1 2 3 Ret l show ?thesis by (cases r3) (simp_all add: Let_def)
      qed (use 1 2 f2 Ret in \<open>simp_all add: Let_def\<close>)
    qed (use 1 f1 in \<open>simp_all add: Let_def\<close>)
  qed
qed

section \<open>A journal that throws proper exceptions\<close>

text \<open>
  What the file system relies on: whatever the journal throws has a code of \<^verbatim>\<open>errors.h\<close> or none, and
  \<^term>\<open>stop\<close> says for which causes but a crash, and in which states, the process halts in it or, when
  \<^verbatim>\<open>end_op\<close> throws, in the destructor that called it.
\<close>

locale proper_journal =
  fixes J :: "'j journal" and ok :: "'j \<Rightarrow> bool" and stop :: "cause \<Rightarrow> 'j \<Rightarrow> bool"
  assumes begins: "ends ok any proper stop (begin_op J)"
    and ended: "ends ok any proper stop (end_op J)"
    and thrown: "ok s \<Longrightarrow> end_op J s = (Raise e, s') \<Longrightarrow> stop Terminates s'"
    and reads: "ends ok any proper stop (jread J b)"
    and writes: "proper_op fn \<Longrightarrow> ends ok any proper stop (jwrite J b fresh fn)"
    and commits: "ends ok any proper stop (jcommit J)"

end
