(* ===== verification/Call_Codes.thy ===== *)
theory Call_Codes
  imports Engine_Codes Vfs_Calls Mount
begin

text \<open>
  What the public calls return: a result that is not negative, or the negation of one of the codes
  in \<^verbatim>\<open>errors.h\<close>. Proved for any journal that throws proper exceptions, bottom up along the calls,
  and then for the engine.
\<close>

section \<open>Codes\<close>

lemma proper_codes [simp, ends_rules]:
  "proper (FsError VFS_ENOENT)" "proper (FsError VFS_EIO)" "proper (FsError VFS_EBADF)" "proper (FsError VFS_EBUSY)"
  "proper (FsError VFS_EEXIST)" "proper (FsError VFS_ENOTDIR)" "proper (FsError VFS_EISDIR)" "proper (FsError VFS_EINVAL)"
  "proper (FsError VFS_EMFILE)" "proper (FsError VFS_EFBIG)" "proper (FsError VFS_ENOSPC)" "proper (FsError VFS_ENAMETOOLONG)"
  "proper (FsError VFS_ENOTEMPTY)"
  by (simp_all add: proper_def error_codes_def)

lemma ends_fs_error [ends_rules]: "E (FsError c) \<Longrightarrow> ends P V E H (fs_error c)"
  unfolding fs_error_def by (rule ends_throw)

lemma split_loop_proper: "split_loop names p = Inl e \<Longrightarrow> proper e"
proof (induction "length p" arbitrary: names p rule: less_induct)
  case less
  let ?p1 = "dropWhile (\<lambda>c. c = SLASH) p"
  let ?p2 = "dropWhile (\<lambda>c. c \<noteq> SLASH) ?p1"
  have IH: "split_loop ns ?p2 = Inl e \<Longrightarrow> proper e" if "p \<noteq> []" for ns
    using less.hyps [of ?p2 ns] dropWhile_shorter [OF that] by simp
  from less.prems show ?case
    by (subst (asm) split_loop.simps) (auto simp: Let_def dest: IH split: if_split_asm)
qed

lemma split_path_ends [ends_rules]: "ends P any proper H (liftE (split_path path))"
  by (rule ends_lift) (auto simp: split_path_def Let_def split: option.splits if_splits dest: split_loop_proper)

lemma ends_chunk [ends_rules]:
  "(\<And>p. ends P V E H (f p)) \<Longrightarrow> (\<And>n at full. ends P V E H (g n at full)) \<Longrightarrow>
   ends P V E H (case r of Chunk_break p \<Rightarrow> f p | Chunk_done n at full \<Rightarrow> g n at full)"
  by (cases r) simp_all

text \<open>Waiting for an inode's lock, which somebody holds.\<close>

definition locked :: "locks \<Rightarrow> bool" where
  "locked m \<longleftrightarrow> (\<exists>i e. m i = Some e \<and> (writer e \<or> 0 < readers e))"

definition lock_stop :: "cause \<Rightarrow> locks \<Rightarrow> bool" where
  "lock_stop h m \<longleftrightarrow> h = Waits \<and> locked m"

lemma ends_locks [ends_rules]:
  "ends any any E lock_stop (lm_acquire i)" "ends any any E lock_stop (lm_release i)" "ends any any E lock_stop (mutex_lock i)"
  "ends any any E lock_stop (mutex_unlock i)" "ends any any E lock_stop (mutex_lock_shared i)"
  "ends any any E lock_stop (mutex_unlock_shared i)" "ends any any E lock_stop (inode_lock_new i x)"
  "ends any any E lock_stop (il_drop l)" "ends any any E lock_stop (il_move_assign l l')"
proof -
  show a: "ends any any E lock_stop (lm_acquire i)" "ends any any E lock_stop (lm_release i)"
    "ends any any E lock_stop (mutex_unlock i)" "ends any any E lock_stop (mutex_unlock_shared i)" for i
    unfolding lm_acquire_def lm_release_def mutex_unlock_def mutex_unlock_shared_def by (rule ends_mod_any)+
  have held: "writer (the_entry i m) \<or> 0 < readers (the_entry i m) \<Longrightarrow> locked m" for i m
    by (auto simp: the_entry_def new_entry_def locked_def split: option.splits)
  show l: "ends any any E lock_stop (mutex_lock i)" "ends any any E lock_stop (mutex_lock_shared i)" for i
    using held [of i] by (auto simp: ends_def mutex_lock_def mutex_lock_shared_def Let_def lock_stop_def)
  show "ends any any E lock_stop (inode_lock_new i x)" unfolding inode_lock_new_def by (intro ends_rules a l)
  show d: "ends any any E lock_stop (il_drop l)" for l unfolding il_drop_def by (intro ends_rules a)
  show "ends any any E lock_stop (il_move_assign l l')" unfolding il_move_assign_def by (intro ends_rules d)
qed

text \<open>On the file system the process can halt in the journal or in an inode's lock.\<close>

definition fs_stop :: "(cause \<Rightarrow> 'j \<Rightarrow> bool) \<Rightarrow> cause \<Rightarrow> 'j fs \<Rightarrow> bool" where
  "fs_stop stop h s \<longleftrightarrow> stop h (fs_j s) \<or> lock_stop h (fs_locks s)"

definition vfs_stop :: "(cause \<Rightarrow> 'j \<Rightarrow> bool) \<Rightarrow> cause \<Rightarrow> 'j vfs \<Rightarrow> bool" where
  "vfs_stop stop h v \<longleftrightarrow> (\<exists>fs. g_fs v = Some fs \<and> fs_stop stop h fs)"

lemma proper_bits [ends_rules]: "proper_op (is_set i)" "proper_op (set_bit_in i)" "proper_op (clear_bit_in i)"
proof -
  show i: "proper_op (is_set i)" by (rule ends_by) (simp add: is_set_def)
  show "proper_op (set_bit_in i)" "proper_op (clear_bit_in i)"
    unfolding set_bit_in_def clear_bit_in_def by (intro ends_rules i)+
qed

definition result_code :: "int \<Rightarrow> bool" where
  "result_code n \<longleftrightarrow> 0 \<le> n \<or> - n \<in> set error_codes"

definition fs_ok :: "('j \<Rightarrow> bool) \<Rightarrow> 'j vfs \<Rightarrow> bool" where
  "fs_ok ok v \<longleftrightarrow> (case g_fs v of None \<Rightarrow> gate_closed (g_gate v) | Some fs \<Rightarrow> ok (fs_j fs))"

text \<open>There is a file system behind the gate.\<close>

definition fs_here :: "('j \<Rightarrow> bool) \<Rightarrow> 'j vfs \<Rightarrow> bool" where
  "fs_here ok v \<longleftrightarrow> (\<exists>fs. g_fs v = Some fs \<and> ok (fs_j fs))"

abbreviation none :: "'a \<Rightarrow> bool" where
  "none \<equiv> (\<lambda>_. False)"

lemma gate_ends [ends_rules]: "ends (fs_here ok) any E H (on_gate (gate_enter k))" "ends (fs_here ok) any E H (on_gate (gate_leave k))"
proof -
  have g: "ends (fs_here ok) any E H (on_gate m)" if "ends any any E crash_only m" for m :: "(mount_gate, 'c) op"
    unfolding on_gate_def by (rule ends_zoom [OF that]) (simp_all add: fs_here_def)
  show "ends (fs_here ok) any E H (on_gate (gate_enter k))" "ends (fs_here ok) any E H (on_gate (gate_leave k))"
    unfolding gate_enter_def gate_leave_def by (intro g ends_rules)+
qed

section \<open>Over a proper journal\<close>

text \<open>
  The loop of a write: with a turn for every byte that is left and one more it ends, by a return
  that has written no more than there is, and less only if the disk is full or the file as large
  as a file can be; a chunk that does not end it has written something.
\<close>

definition wrote_some :: "bytes \<Rightarrow> nat \<Rightarrow> nat \<times> nat \<times> bool \<Rightarrow> bool" where
  "wrote_some src done = (\<lambda>(n, at, full). done \<le> n \<and> n \<le> length src \<and> (n < length src \<longrightarrow> full \<or> MAX_FILE_BYTES \<le> at))"

definition chunk_ok :: "bytes \<Rightarrow> nat \<Rightarrow> chunk_end \<Rightarrow> bool" where
  "chunk_ok src done c = (case c of Chunk_break at \<Rightarrow> MAX_FILE_BYTES \<le> at
     | Chunk_done n at full \<Rightarrow> done + n \<le> length src \<and> (\<not> full \<longrightarrow> 0 < n))"

context proper_journal
begin

lemmas journal_rules [ends_rules] = begins ended reads writes commits

lemma alloc_parts [ends_rules]:
  "ends ok V E stop m \<Longrightarrow> ends (\<lambda>s. ok (snd s)) V E (\<lambda>h s. stop h (snd s)) (on_journal m)"
  "ends any V E crash_only bm \<Longrightarrow> ends (\<lambda>s. ok (snd s)) V E (\<lambda>h s. stop h (snd s)) (on_inodes bm)"
  "ends any V E crash_only bm \<Longrightarrow> ends (\<lambda>s. ok (snd s)) V E (\<lambda>h s. stop h (snd s)) (on_blocks bm)"
  unfolding on_journal_def on_inodes_def on_blocks_def by (erule ends_zoom; simp)+

lemma inode_parts [ends_rules]:
  "ends (\<lambda>s. ok (snd s)) V E (\<lambda>h s. stop h (snd s)) a \<Longrightarrow> ends (\<lambda>s. ok (snd (snd s))) V E (\<lambda>h s. stop h (snd (snd s))) (on_alloc a)"
  "ends ok V E stop m \<Longrightarrow> ends (\<lambda>s. ok (snd (snd s))) V E (\<lambda>h s. stop h (snd (snd s))) (on_ijournal m)"
  "ends (\<lambda>s. ok (snd (snd s))) any E (\<lambda>h s. stop h (snd (snd s))) (upd_inode f)"
proof -
  show a: "ends (\<lambda>s. ok (snd s)) V E (\<lambda>h s. stop h (snd s)) a \<Longrightarrow> ends (\<lambda>s. ok (snd (snd s))) V E (\<lambda>h s. stop h (snd (snd s))) (on_alloc a)" for a :: "('j alloc_state, 'b) op" and V
    unfolding on_alloc_def by (erule ends_zoom; simp)
  show "ends ok V E stop m \<Longrightarrow> ends (\<lambda>s. ok (snd (snd s))) V E (\<lambda>h s. stop h (snd (snd s))) (on_ijournal m)"
    unfolding on_ijournal_def by (intro a alloc_parts)
  show "ends (\<lambda>s. ok (snd (snd s))) any E (\<lambda>h s. stop h (snd (snd s))) (upd_inode f)"
    unfolding upd_inode_def by (rule ends_mod) auto
qed

lemma fs_parts [ends_rules]:
  "ends ok V E stop m \<Longrightarrow> ends (\<lambda>s. ok (fs_j s)) V E (fs_stop stop) (on_j m)"
  "ends (\<lambda>s. ok (snd s)) V E (\<lambda>h s. stop h (snd s)) a \<Longrightarrow> ends (\<lambda>s. ok (fs_j s)) V E (fs_stop stop) (on_allocator a)"
  "ends any V E lock_stop l \<Longrightarrow> ends (\<lambda>s. ok (fs_j s)) V E (fs_stop stop) (on_locks l)"
  unfolding on_j_def on_allocator_def on_locks_def by (erule ends_zoom; auto simp: fs_stop_def)+

lemma fs_small [ends_rules]:
  "ends (\<lambda>s. ok (fs_j s)) any E (fs_stop stop) now" "ends (\<lambda>s. ok (fs_j s)) any E (fs_stop stop) (upd_file fd f)"
  by (rule ends_by; simp add: now_def upd_file_def)+

lemma with_inode_ends [ends_rules]:
  assumes "ends (\<lambda>s. ok (snd (snd s))) any E (\<lambda>h s. stop h (snd (snd s))) m"
  shows "ends (\<lambda>s. ok (fs_j s)) any E (fs_stop stop) (with_inode i m)"
proof (rule ends_by)
  fix s :: "'j fs" assume "ok (fs_j s)"
  then have "outcome_ok (\<lambda>s. ok (snd (snd s))) any E (\<lambda>h s. stop h (snd (snd s))) (m (i, (fs_alloc s, fs_j s)))" by (intro ends_at [OF assms]) simp
  then show "outcome_ok (\<lambda>s. ok (fs_j s)) any E (fs_stop stop) (with_inode i m s)"
    by (cases "m (i, (fs_alloc s, fs_j s))"; cases "fst (m (i, (fs_alloc s, fs_j s)))") (auto simp: with_inode_def fs_stop_def split: prod.splits)
qed

text \<open>The destructor of an operation returns, or ends the process when \<^verbatim>\<open>end_op\<close> throws.\<close>

lemma scope_end_ends: "ends (\<lambda>s. ok (fs_j s)) any E (fs_stop stop) (catchE (on_j (end_op J)) (\<lambda>_. haltE Terminates))"
proof (rule ends_by)
  fix s :: "'j fs" assume s: "ok (fs_j s)"
  obtain r j where e: "end_op J (fs_j s) = (r, j)" by fastforce
  have "outcome_ok ok any proper stop (r, j)" using ends_at [OF ended s] e by simp
  then show "outcome_ok (\<lambda>s. ok (fs_j s)) any E (fs_stop stop) (catchE (on_j (end_op J)) (\<lambda>_. haltE Terminates) s)"
    using thrown [OF s] e by (cases r) (auto simp: on_j_def zoomE_def catchE_def fs_stop_def)
qed

lemma op_in_fs_ends [ends_rules]:
  "ends (\<lambda>s. ok (fs_j s)) V proper (fs_stop stop) m \<Longrightarrow> ends (\<lambda>s. ok (fs_j s)) V proper (fs_stop stop) (op_in_fs J m)"
  unfolding op_in_fs_def op_scope_def by (intro ends_then ends_finally scope_end_ends fs_parts(1) begins)

lemma scopes_end [ends_rules]:
  assumes "ends (\<lambda>s. ok (fs_j s)) V E (fs_stop stop) m"
  shows "ends (\<lambda>s. ok (fs_j s)) V E (fs_stop stop) (holding l m)" "ends (\<lambda>s. ok (fs_j s)) V E (fs_stop stop) (with_lock i x m)"
    "ends (\<lambda>s. ok (fs_j s)) V E (fs_stop stop) (with_shared i m)" "ends (\<lambda>s. ok (fs_j s)) V E (fs_stop stop) (with_unique i m)"
  unfolding with_lock_def holding_def with_shared_def with_unique_def by (intro ends_rules assms)+

lemma upd_lock_ends [ends_rules]: "ends (\<lambda>s. ok (fs_j s)) any E (fs_stop stop) (upd_lock_entry i f)"
  unfolding upd_lock_entry_def by (intro ends_rules)

subsection \<open>Inodes, blocks and directories\<close>

lemma inode_ends [ends_rules]:
  "ends ok any proper stop (read_inode J sb i)" "ends ok any proper stop (write_inode J sb ino)" "ends ok any proper stop (clear_inode J sb i)"
  unfolding read_inode_def write_inode_def clear_inode_def check_id_def by (intro ends_rules)+

lemma set_bit_ends [ends_rules]: "ends ok any proper stop (journal_set_bit J r i v)"
  unfolding journal_set_bit_def by (intro ends_rules)

lemma alloc_ends [ends_rules]:
  "ends (\<lambda>s. ok (snd s)) any proper (\<lambda>h s. stop h (snd s)) (alloc_block J)" "ends (\<lambda>s. ok (snd s)) any proper (\<lambda>h s. stop h (snd s)) (alloc_inode J)"
  "ends (\<lambda>s. ok (snd s)) any proper (\<lambda>h s. stop h (snd s)) (free_inode J i)"
  unfolding alloc_block_def alloc_inode_def free_inode_def by (intro ends_rules)+

lemma alloc_new_ends: "ends ok any proper stop (alloc_new J sb)"
  unfolding alloc_new_def bm_load_def journal_reader_def Let_def device.simps by (intro ends_rules)

lemma free_blocks_ends [ends_rules]: "ends (\<lambda>s. ok (snd s)) any proper (\<lambda>h s. stop h (snd s)) (free_blocks J bs)"
proof -
  have c: "ends (\<lambda>s. ok (snd s)) any proper (\<lambda>h s. stop h (snd s)) (check_frees sb prev bs)" for sb prev bs
    by (induction bs arbitrary: prev) (auto intro!: ends_rules)
  have "ends (\<lambda>s. ok (snd s)) any proper (\<lambda>h s. stop h (snd s)) (free_runs j sb bs)" if "j = J" for j sb bs
    using that
  proof (induction j sb bs rule: free_runs.induct)
    case (2 j sb b bs)
    show ?case unfolding free_runs.simps Let_def \<open>j = J\<close> by (intro ends_rules "2.IH" [OF refl refl refl \<open>j = J\<close>, unfolded \<open>j = J\<close>])
  qed (simp add: ends_ret)
  then show ?thesis unfolding free_blocks_def by (intro ends_rules c) simp
qed

lemma ptr_ends [ends_rules]:
  "ends ok any proper stop (get_ptr J b i)" "ends ok any proper stop (set_ptr J b fresh i v)" "ends ok any proper stop (collect J b)"
  unfolding get_ptr_def set_ptr_def collect_def by (intro ends_rules)+

lemma alloc_all_ends [ends_rules]: "ends (\<lambda>s. ok (snd s)) any proper (\<lambda>h s. stop h (snd s)) (alloc_all J n)"
proof -
  have "ends (\<lambda>s. ok (snd s)) any proper (\<lambda>h s. stop h (snd s)) (alloc_loop J n got)" for got
    by (induction n arbitrary: got) (auto intro!: ends_rules)
  then show ?thesis unfolding alloc_all_def .
qed

lemma bmap_ends [ends_rules]:
  "ends ok any proper stop (bmap_read J ino k)" "ends (\<lambda>s. ok (snd (snd s))) any proper (\<lambda>h s. stop h (snd (snd s))) (bmap_alloc J k)"
  "ends (\<lambda>s. ok (snd (snd s))) any proper (\<lambda>h s. stop h (snd (snd s))) (free_all_blocks J)"
  unfolding bmap_read_def bmap_alloc_def bmap_alloc_direct_def bmap_alloc_single_def bmap_alloc_double_def
    free_all_blocks_def owned_blocks_def Let_def
  by (intro ends_rules)+

lemma dir_block_ends [ends_rules]: "ends ok any proper stop (read_dir_block J dir k)"
  unfolding read_dir_block_def by (intro ends_rules)

lemma scan_ends [ends_rules]: "ends ok any proper stop (scan_dir J dir P ks)"
proof (induction ks)
  case (Cons k ks)
  show ?case unfolding scan_dir.simps by (intro ends_rules Cons)
qed (unfold scan_dir.simps, intro ends_rules)

lemma dir_ends [ends_rules]:
  "ends ok any proper stop (dir_lookup J dir nm)" "ends ok any proper stop (dir_remove J dir nm)" "ends ok any proper stop (dir_list J dir)"
  "ends ok any proper stop (dir_init J b i p)" "ends (\<lambda>s. ok (snd (snd s))) any proper (\<lambda>h s. stop h (snd (snd s))) (dir_add J nm i ty)"
  unfolding dir_lookup_def dir_remove_def dir_list_def dir_init_def dir_add_def Let_def by (intro ends_rules)+

lemma dir_empty_ends [ends_rules]: "ends ok any proper stop (dir_is_empty J dir)"
proof -
  have "ends ok any proper stop (dir_empty_from J dir ks)" for ks
  proof (induction ks)
    case (Cons k ks)
    show ?case unfolding dir_empty_from.simps by (intro ends_rules Cons)
  qed (unfold dir_empty_from.simps, intro ends_rules)
  then show ?thesis unfolding dir_is_empty_def .
qed

subsection \<open>The calls\<close>

lemma walk_ends [ends_rules]: "ends (\<lambda>s. ok (fs_j s)) any proper (fs_stop stop) (walk J names x)"
proof -
  have "ends (\<lambda>s. ok (fs_j s)) any proper (fs_stop stop) (walk_from J x cur names)" for cur
  proof (induction names arbitrary: cur)
    case (Cons nm names)
    show ?case unfolding walk_from.simps by (intro ends_rules Cons)
  qed (unfold walk_from.simps, intro ends_rules)
  then show ?thesis unfolding walk_def by (intro ends_rules)
qed

lemma table_ends [ends_rules]:
  "ends (\<lambda>s. ok (fs_j s)) any proper (fs_stop stop) reserve_fd" "ends (\<lambda>s. ok (fs_j s)) any E (fs_stop stop) (release_fd fd)"
  "ends (\<lambda>s. ok (fs_j s)) any proper (fs_stop stop) (file_at i)" "ends (\<lambda>s. ok (fs_j s)) any proper (fs_stop stop) (snapshot fd)"
  "ends (\<lambda>s. ok (fs_j s)) any E (fs_stop stop) (register_open ino)"
  unfolding reserve_fd_def release_fd_def file_at_def snapshot_def register_open_def by (intro ends_rules)+

lemma file_ends [ends_rules]:
  "ends (\<lambda>s. ok (fs_j s)) any proper (fs_stop stop) (file_inode J ino)" "ends (\<lambda>s. ok (fs_j s)) any proper (fs_stop stop) (truncate_file J ino)"
  "ends (\<lambda>s. ok (fs_j s)) any proper (fs_stop stop) (create_file J dir nm)" "ends ok any proper stop (read_range J i pos n)"
  unfolding file_inode_def truncate_file_def create_file_def new_inode_def read_range_def read_piece_def Let_def
  by (intro ends_rules)+

lemma open_ends [ends_rules]:
  "ends (\<lambda>s. ok (fs_j s)) any proper (fs_stop stop) (open_existing J names)" "ends (\<lambda>s. ok (fs_j s)) any proper (fs_stop stop) (open_changing J names flags)"
  unfolding open_existing_def open_changing_def open_new_def Let_def by (intro ends_rules)+

lemma pieces_end [ends_rules]: "ends (\<lambda>s. ok (snd (snd s))) any proper (\<lambda>h s. stop h (snd (snd s))) (write_pieces J src pos at changed ps)"
proof (induction ps arbitrary: at changed)
  case (Cons p ps)
  obtain index off len where p: "p = (index, off, len)" by (metis prod_cases3)
  show ?case unfolding p write_pieces.simps Let_def by (intro ends_rules Cons; assumption)
qed (unfold write_pieces.simps, intro ends_rules)

lemma chunk_ends [ends_rules]: "ends (\<lambda>s. ok (fs_j s)) any proper (fs_stop stop) (write_chunk J ino app src n pos)"
  unfolding write_chunk_def finish_chunk_def Let_def by (intro ends_rules)

lemma chunk_moves:
  assumes "done < length src"
  shows "ends (\<lambda>s. ok (fs_j s)) (chunk_ok src done) proper (fs_stop stop) (write_chunk J ino app src done pos)"
proof (rule endsI)
  fix s c s' assume run: "ok (fs_j s)" "write_chunk J ino app src done pos s = (Ret c, s')"
  have "chunk_ok src done c"
    using run(2) write_chunk_break [of J ino app src "done" pos s _ s'] write_chunk_progress [OF _ assms, of J ino app pos s _ _ _ s']
    by (cases c) (simp_all add: chunk_ok_def)
  with endsD(2) [OF chunk_ends run] show "chunk_ok src done c \<and> ok (fs_j s')" by simp
next
  fix s e s' assume run: "ok (fs_j s)" "write_chunk J ino app src done pos s = (Raise e, s')"
  from endsD(3,4) [OF chunk_ends run] show "proper e \<and> ok (fs_j s')" by simp
next
  fix s h s' assume run: "ok (fs_j s)" "write_chunk J ino app src done pos s = (Halted h, s')"
  from endsH [OF chunk_ends run] show "h = Crash \<or> fs_stop stop h s'" .
qed

lemma write_loop_within:
  assumes "length src - done < fuel" and "done \<le> length src"
  shows "ends (\<lambda>s. ok (fs_j s)) (wrote_some src done) proper (fs_stop stop) (write_loop J ino app src fuel done pos)"
  using assms
proof (induction fuel arbitrary: "done" pos)
  case (Suc fuel)
  show ?case
    unfolding write_loop.simps
  proof (rule ends_if)
    assume lt: "done < length src"
    show "ends (\<lambda>s. ok (fs_j s)) (wrote_some src done) proper (fs_stop stop) (bindE (write_chunk J ino app src done pos) (\<lambda>r. case r of
          Chunk_break pos \<Rightarrow> retE (done, pos, False)
        | Chunk_done n at disk_full \<Rightarrow>
            if disk_full then retE (done + n, at, True)
            else write_loop J ino app src fuel (done + n) at))"
    proof (rule ends_bind [OF chunk_moves [OF lt]])
      fix c assume c: "chunk_ok src done c"
      show "ends (\<lambda>s. ok (fs_j s)) (wrote_some src done) proper (fs_stop stop) (case c of
          Chunk_break pos \<Rightarrow> retE (done, pos, False)
        | Chunk_done n at disk_full \<Rightarrow>
            if disk_full then retE (done + n, at, True)
            else write_loop J ino app src fuel (done + n) at)"
      proof (cases c)
        case (Chunk_break at)
        with c lt show ?thesis by (simp add: ends_ret wrote_some_def chunk_ok_def)
      next
        case (Chunk_done n at full)
        show ?thesis
        proof (cases full)
          case True
          with c Chunk_done show ?thesis by (simp add: ends_ret wrote_some_def chunk_ok_def)
        next
          case False
          with c Chunk_done Suc.prems have "length src - (done + n) < fuel" "done + n \<le> length src" by (auto simp: chunk_ok_def)
          from ends_weaken [OF Suc.IH [OF this], of "wrote_some src done" proper] False show ?thesis
            by (auto simp: Chunk_done wrote_some_def)
        qed
      qed
    qed
  qed (use Suc.prems in \<open>simp add: ends_ret wrote_some_def\<close>)
qed simp

lemma write_loop_ends_proper [ends_rules]:
  "ends (\<lambda>s. ok (fs_j s)) any proper (fs_stop stop) (write_loop J ino app src (length src + 1) 0 pos)"
  by (rule ends_weaken [OF write_loop_within]) simp_all

lemma make_dir_ends [ends_rules]:
  "ends (\<lambda>s. ok (fs_j s)) (\<lambda>n. 0 \<le> n) proper (fs_stop stop) (make_dir J parent dir nm)"
  "ends (\<lambda>s. ok (fs_j s)) any proper (fs_stop stop) (remove_inode J dir nm ino i)"
  unfolding make_dir_def remove_inode_def new_inode_def Let_def by (intro ends_rules; simp)+

lemma file_calls:
  "ends (\<lambda>s. ok (fs_j s)) (\<lambda>n. 0 \<le> n) proper (fs_stop stop) (vfs_open_fs J path flags)"
  "ends (\<lambda>s. ok (fs_j s)) (\<lambda>n. 0 \<le> n) proper (fs_stop stop) (vfs_close_fs fd)"
  "ends (\<lambda>s. ok (fs_j s)) (\<lambda>x. 0 \<le> fst x) proper (fs_stop stop) (vfs_read_fs J fd null_buf n)"
  "ends (\<lambda>s. ok (fs_j s)) (\<lambda>n. 0 \<le> n) proper (fs_stop stop) (vfs_write_fs J fd null_buf buf)"
  "ends (\<lambda>s. ok (fs_j s)) (\<lambda>n. 0 \<le> n) proper (fs_stop stop) (vfs_lseek_fs J fd off whence)"
  unfolding vfs_open_fs_def vfs_close_fs_def vfs_read_fs_def vfs_write_fs_def vfs_lseek_fs_def Let_def
  by (intro ends_rules; simp)+

lemma path_calls:
  "ends (\<lambda>s. ok (fs_j s)) (\<lambda>n. 0 \<le> n) proper (fs_stop stop) (vfs_mkdir_fs J path)"
  "ends (\<lambda>s. ok (fs_j s)) (\<lambda>n. 0 \<le> n) proper (fs_stop stop) (vfs_unlink_fs J path)"
  "ends (\<lambda>s. ok (fs_j s)) (\<lambda>n. 0 \<le> n) proper (fs_stop stop) (vfs_rmdir_fs J path)"
  "ends (\<lambda>s. ok (fs_j s)) (\<lambda>x. 0 \<le> fst x) proper (fs_stop stop) (vfs_stat_fs J path null_out)"
  "ends (\<lambda>s. ok (fs_j s)) (\<lambda>x. 0 \<le> fst x) proper (fs_stop stop) (vfs_readdir_fs J path null_out limit)"
  unfolding vfs_mkdir_fs_def vfs_unlink_fs_def vfs_rmdir_fs_def vfs_stat_fs_def vfs_readdir_fs_def
  by (intro ends_rules; simp)+

lemma on_fs_ends:
  assumes "ends (\<lambda>s. ok (fs_j s)) V E (fs_stop stop) m"
  shows "ends (fs_here ok) V E (vfs_stop stop) (on_fs m)"
proof (rule ends_by)
  fix s :: "'j vfs" assume "fs_here ok s"
  then obtain fs where fs: "g_fs s = Some fs" "ok (fs_j fs)" by (auto simp: fs_here_def)
  have "outcome_ok (\<lambda>s. ok (fs_j s)) V E (fs_stop stop) (m fs)" by (rule ends_at [OF assms fs(2)])
  with fs(1) show "outcome_ok (fs_here ok) V E (vfs_stop stop) (on_fs m s)"
    by (cases "m fs"; cases "fst (m fs)") (auto simp: on_fs_def fs_here_def vfs_stop_def)
qed

text \<open>With nothing mounted a call does not get past the gate.\<close>

lemma with_fs_unmounted:
  assumes "fs_ok ok v" and "g_fs v = None"
  shows "\<exists>v'. with_fs k nothing body v = (Ret (- VFS_EINVAL, nothing), v') \<and> fs_ok ok v'"
proof -
  have "gate_closed (g_gate v)" using assms by (simp add: fs_ok_def)
  then show ?thesis using assms(2)
    by (simp add: with_fs_def bindE_def thenE_def on_gate_def zoomE_def gate_enter_def slot_add_def fs_ok_def)
qed

lemma with_fs_value:
  assumes "ends (\<lambda>s. ok (fs_j s)) V proper (fs_stop stop) body" and "\<And>c. c \<in> set error_codes \<Longrightarrow> V (- c, nothing)"
  shows "ends (fs_ok ok) V none (vfs_stop stop) (with_fs k nothing body)"
proof -
  have codes: "V (- VFS_EINVAL, nothing)" "V (- VFS_EIO, nothing)" "proper (FsError c) \<Longrightarrow> V (- c, nothing)" for c
    by (rule assms(2), simp add: proper_def error_codes_def)+
  have "ends (fs_here ok) V none (vfs_stop stop) (catchE (on_fs body) (\<lambda>e. case e of
           FsError code \<Rightarrow> retE (- code, nothing)
         | _ \<Rightarrow> retE (- VFS_EIO, nothing)))"
    by (rule ends_handler [OF on_fs_ends [OF assms(1)]]) (auto intro!: ends_ret codes split: exn.split)
  then have here: "ends (fs_here ok) V none (vfs_stop stop) (with_fs k nothing body)"
    unfolding with_fs_def by (intro ends_bind_any gate_ends ends_if ends_ret ends_finally) (simp_all add: codes)
  show ?thesis
  proof (rule ends_by)
    fix v assume v: "fs_ok ok v"
    show "outcome_ok (fs_ok ok) V none (vfs_stop stop) (with_fs k nothing body v)"
    proof (cases "g_fs v")
      case None
      with with_fs_unmounted [OF v None, of k nothing body] codes(1) show ?thesis by auto
    next
      case (Some fs)
      with v have "fs_here ok v" by (simp add: fs_ok_def fs_here_def)
      from ends_at [OF here this] show ?thesis
        by (cases "with_fs k nothing body v"; cases "fst (with_fs k nothing body v)") (auto simp: fs_here_def fs_ok_def)
    qed
  qed
qed

lemma simple_call_value:
  assumes "ends (\<lambda>s. ok (fs_j s)) V proper (fs_stop stop) body" and "\<And>c. c \<in> set error_codes \<Longrightarrow> V (- c)"
  shows "ends (fs_ok ok) V none (vfs_stop stop) (simple_call k body)"
proof -
  have "ends (\<lambda>s. ok (fs_j s)) (\<lambda>x. V (fst x)) proper (fs_stop stop) (bindE body (\<lambda>r. retE (r, ())))"
    by (rule ends_bind [OF assms(1)]) (simp add: ends_ret)
  from with_fs_value [OF this] assms(2) show ?thesis
    unfolding simple_call_def by (intro ends_bind [where W = "\<lambda>x. V (fst x)"]) (auto intro: ends_ret)
qed

lemma with_fs_ends:
  assumes "ends (\<lambda>s. ok (fs_j s)) (\<lambda>x. 0 \<le> fst x) proper (fs_stop stop) body"
  shows "ends (fs_ok ok) (\<lambda>x. result_code (fst x)) none (vfs_stop stop) (with_fs k nothing body)"
  by (rule with_fs_value [OF ends_weaken [OF assms]]) (simp_all add: result_code_def)

lemma simple_call_ends:
  assumes "ends (\<lambda>s. ok (fs_j s)) (\<lambda>n. 0 \<le> n) proper (fs_stop stop) body"
  shows "ends (fs_ok ok) result_code none (vfs_stop stop) (simple_call k body)"
  by (rule simple_call_value [OF ends_weaken [OF assms]]) (simp_all add: result_code_def)

lemmas call_ends =
  file_calls(1,2,4,5) [THEN simple_call_ends] path_calls(1-3) [THEN simple_call_ends]
  file_calls(3) [THEN with_fs_ends] path_calls(4,5) [THEN with_fs_ends]

end

interpretation engine: proper_journal "engine_journal (disk_of d sy)" stored_ok engine_stop for d sy
  by unfold_locales (simp_all add: engine_journal_def sound_begin sound_commit proper_disk end_throws engine_stop_def [of Terminates]
      ends_quiet [OF sound_end] ends_quiet [OF sound_read] ends_quiet [OF sound_write])

definition demo_engine_fs :: "engine fs" where
  "demo_engine_fs = \<lparr>fs_j = demo_engine, fs_sb = demo_super,
     fs_alloc = \<lparr>a_sb = demo_super, a_inodes = bitmap_new 0, a_blocks = bitmap_new 0\<rparr>, fs_locks = (\<lambda>_. None),
     fs_files = replicate MAX_OPEN closed_file, fs_clock = (\<lambda>n. of_nat n), fs_ticks = 0\<rparr>"

lemma demo_engine_fs_ok: "stored_ok (fs_j demo_engine_fs)"
  by (simp add: demo_engine_fs_def stored_ok_def stored_in_def demo_engine_def new_engine_def journal_new_def Let_def)



section \<open>Every public call\<close>

datatype call =
    Open "bytes option" u32 | Close int | Read int bool nat | Write int bool bytes | Lseek int int int | Fsync int | Sync
  | Mkdir "bytes option" | Unlink "bytes option" | Rmdir "bytes option" | Stat "bytes option" bool | Readdir "bytes option" bool nat

fun do_call :: "disk device \<Rightarrow> nat \<Rightarrow> call \<Rightarrow> (engine vfs, int) op" where
  "do_call dev k (Open path flags) = vfs_open (engine_journal dev) k path flags"
| "do_call dev k (Close fd) = vfs_close k fd"
| "do_call dev k (Read fd null_buf n) = bindE (vfs_read (engine_journal dev) k fd null_buf n) (\<lambda>x. retE (fst x))"
| "do_call dev k (Write fd null_buf buf) = vfs_write (engine_journal dev) k fd null_buf buf"
| "do_call dev k (Lseek fd off whence) = vfs_lseek (engine_journal dev) k fd off whence"
| "do_call dev k (Fsync fd) = vfs_fsync (engine_journal dev) k fd"
| "do_call dev k Sync = vfs_sync dev k"
| "do_call dev k (Mkdir path) = vfs_mkdir (engine_journal dev) k path"
| "do_call dev k (Unlink path) = vfs_unlink (engine_journal dev) k path"
| "do_call dev k (Rmdir path) = vfs_rmdir (engine_journal dev) k path"
| "do_call dev k (Stat path null_out) = bindE (vfs_stat (engine_journal dev) k path null_out) (\<lambda>x. retE (fst x))"
| "do_call dev k (Readdir path null_out n) = bindE (vfs_readdir (engine_journal dev) k path null_out n) (\<lambda>x. retE (fst x))"

lemma do_call_ends: "ends (fs_ok stored_ok) result_code none (vfs_stop engine_stop) (do_call (disk_of d sy) k c)"
proof (cases c)
  case (Fsync fd)
  have "ends (\<lambda>s. stored_ok (fs_j s)) (\<lambda>n :: int. 0 \<le> n) proper (fs_stop engine_stop)
      (bindE (file_at fd) (\<lambda>i. thenE (snapshot i) (thenE (on_j (jcommit (engine_journal (disk_of d sy)))) (retE 0))))"
    by (intro ends_rules; simp)
  then show ?thesis unfolding Fsync do_call.simps vfs_fsync_def by (rule engine.simple_call_ends)
next
  case Sync
  have "ends stored_ok any proper engine_stop (storage_checkpoint (disk_of d sy) alone)"
    unfolding storage_checkpoint_def by (intro sound_checkpoint proper_disk)
  then have "ends (\<lambda>s. stored_ok (fs_j s)) (\<lambda>n :: int. 0 \<le> n) proper (fs_stop engine_stop) (thenE (on_j (storage_checkpoint (disk_of d sy) alone)) (retE 0))"
    by (intro ends_rules) simp_all
  then show ?thesis unfolding Sync do_call.simps vfs_sync_def by (rule engine.simple_call_ends)
qed (simp_all add: vfs_open_def vfs_close_def vfs_read_def vfs_write_def vfs_lseek_def vfs_mkdir_def vfs_unlink_def vfs_rmdir_def
    vfs_stat_def vfs_readdir_def engine.call_ends engine.call_ends [THEN ends_bind] ends_ret)

primrec run_calls :: "disk device \<Rightarrow> nat \<Rightarrow> call list \<Rightarrow> (engine vfs, int list) op" where
  "run_calls dev k [] = retE []"
| "run_calls dev k (c # cs) = bindE (do_call dev k c) (\<lambda>n. bindE (run_calls dev k cs) (\<lambda>ns. retE (n # ns)))"

lemma run_calls_ends:
  "ends (fs_ok stored_ok) (\<lambda>ns. length ns = length cs \<and> list_all result_code ns) none (vfs_stop engine_stop) (run_calls (disk_of d sy) k cs)"
proof (induction cs)
  case (Cons c cs)
  show ?case unfolding run_calls.simps
    by (rule ends_bind [OF do_call_ends], rule ends_bind [OF Cons], rule ends_ret) simp
qed (unfold run_calls.simps, rule ends_ret, simp)

text \<open>Mounting returns a code too, and a file system in which no commit has failed yet.\<close>

abbreviation halts_in_turn :: "cause \<Rightarrow> 's \<Rightarrow> bool" where
  "halts_in_turn \<equiv> (\<lambda>h _. h = Waits \<or> h = Terminates)"

lemma proper_close: "ends stored_ok any proper halts_in_turn (storage_close (disk_of d sy) alone)"
proof (rule ends_by)
  fix s assume s: "stored_ok s"
  have c: "ends stored_ok any proper halts_in_turn (journal_checkpoint (disk_of d sy) alone)"
    by (rule ends_halts [OF sound_checkpoint [OF proper_disk]]) (auto simp: engine_stop_def)
  have "ends stored_ok any proper halts_in_turn (journal_close (disk_of d sy) alone)"
    unfolding journal_close_def write_superblock_def
    by (intro ends_then ends_bind_any ends_get c ends_quiet [OF sound_ctl] ends_quiet [OF sound_parts(2)] ends_rules) simp_all
  then show "outcome_ok stored_ok any proper halts_in_turn (storage_close (disk_of d sy) alone s)"
    using s by (auto simp: storage_close_def stored_ok_def intro!: ends_at)
qed

lemma file_system_new_ends: "ends any (\<lambda>x. stored_ok (fs_j (snd x)) \<and> length (fs_files (snd x)) = MAX_OPEN) proper halts_in_turn
    (file_system_new disk_path wal_path opts clock)"
  unfolding file_system_new_def
proof (rule ends_bind [OF ends_quiet [OF proper_storage_open]], rule ends_by)
  fix x :: "pread_dev \<times> engine" and w
  assume x: "stored_ok (snd x)"
  obtain raw eng where re: "x = (raw, eng)" by fastforce
  let ?dev = "disk_of raw (so_fsync opts)"
  obtain r1 e1 where 1: "alloc_new (engine_journal ?dev) (s_sb eng) eng = (r1, e1)" by (metis surj_pair)
  have a: "outcome_ok stored_ok any proper engine_stop (r1, e1)"
    using ends_at [OF engine.alloc_new_ends, of eng raw "so_fsync opts" "s_sb eng"] x 1 by (simp add: re)
  obtain r2 e2 where 2: "storage_destroy ?dev alone e1 = (r2, e2)" by (metis surj_pair)
  have c: "h = Waits \<or> h = Terminates \<or> h = Crash" if "stored_ok e1" "r2 = Halted h" for h
    using endsH [OF proper_close that(1)] 2 that(2) by (auto simp: storage_destroy_def catchE_eq)
  have "outcome_ok any (\<lambda>x. stored_ok (fs_j (snd x)) \<and> length (fs_files (snd x)) = MAX_OPEN) proper halts_in_turn
     (case alloc_new (engine_journal ?dev) (s_sb eng) eng of
         (Ret a, eng) \<Rightarrow> (Ret (raw, \<lparr>fs_j = eng, fs_sb = s_sb eng, fs_alloc = a, fs_locks = (\<lambda>_. None),
             fs_files = replicate MAX_OPEN closed_file, fs_clock = clock, fs_ticks = 0\<rparr>), world_of eng)
       | (Halted h, eng) \<Rightarrow> (Halted h, world_of eng)
       | (Raise e, eng) \<Rightarrow> (case storage_destroy ?dev alone eng of
             (Halted h, eng) \<Rightarrow> (Halted h, world_of eng)
           | (_, eng) \<Rightarrow> (Raise e, world_of eng)))"
    using a c by (cases r1; cases r2) (auto simp: 1 2 engine_stop_def)
  then show "outcome_ok any (\<lambda>x. stored_ok (fs_j (snd x)) \<and> length (fs_files (snd x)) = MAX_OPEN) proper halts_in_turn ((case x of (raw, eng) \<Rightarrow> \<lambda>w.
       let dev = disk_of raw (so_fsync opts) in
       case alloc_new (engine_journal dev) (s_sb eng) eng of
         (Ret a, eng) \<Rightarrow> (Ret (raw, \<lparr>fs_j = eng, fs_sb = s_sb eng, fs_alloc = a, fs_locks = (\<lambda>_. None),
             fs_files = replicate MAX_OPEN closed_file, fs_clock = clock, fs_ticks = 0\<rparr>), world_of eng)
       | (Halted h, eng) \<Rightarrow> (Halted h, world_of eng)
       | (Raise e, eng) \<Rightarrow> (case storage_destroy dev alone eng of
             (Halted h, eng) \<Rightarrow> (Halted h, world_of eng)
           | (_, eng) \<Rightarrow> (Raise e, world_of eng))) w)"
    by (simp add: re Let_def)
qed

lemma mount_codes:
  assumes "vfs_mount dp wp opts clock (g, ses) = (Ret n, (g', ses'))"
  shows "result_code n" "ses = Unmounted w \<Longrightarrow> ses' = Mounted raw sy fs \<Longrightarrow> stored_ok (fs_j fs)"
proof -
  note new = endsD [OF file_system_new_ends]
  have codes: "result_code 0" "result_code (- VFS_EBUSY)" "result_code (- VFS_ENOENT)" "result_code (- VFS_EINVAL)"
    "proper (FsError c) \<Longrightarrow> result_code (- c)" for c
    by (simp_all add: result_code_def proper_def error_codes_def)
  show "result_code n"
    using assms codes new(3) by (auto simp: vfs_mount_def Let_def split: session.splits option.splits if_splits prod.splits outcome.splits exn.splits)
  show "ses = Unmounted w \<Longrightarrow> ses' = Mounted raw sy fs \<Longrightarrow> stored_ok (fs_j fs)"
    using assms new(1) by (fastforce simp: vfs_mount_def Let_def split: option.splits if_splits prod.splits outcome.splits)
qed

text \<open>
  C21. Every call returns a result or an error code. On a mounted engine any sequence of calls, with
  any arguments, returns as many numbers, each of them not negative or the negation of one of the
  codes in \<^verbatim>\<open>errors.h\<close>, and no exception is thrown out of a call. A call that does not return has been
  killed by the crash injection, waits for an inode's lock somebody holds or for the journal while a
  commit or an operation is under way, or has ended the process: \<^verbatim>\<open>std::terminate\<close>, because the commit
  that the end of an operation made has failed with an error. No call loops for ever, and none
  follows a null pointer. The engine holds no other error than that of a failed commit, which
  mounting starts without and the calls keep to.
\<close>

theorem calls_return_codes:
  assumes "fs_ok stored_ok v"
  shows "case run_calls (disk_of d sy) k cs v of
      (Ret ns, v') \<Rightarrow> length ns = length cs \<and> list_all result_code ns \<and> fs_ok stored_ok v'
    | (Raise e, v') \<Rightarrow> False
    | (Halted h, v') \<Rightarrow> h \<in> {Crash, Waits, Terminates} \<and> (h \<noteq> Crash \<longrightarrow> (\<exists>fs. g_fs v' = Some fs \<and>
        (if h = Terminates then \<exists>e. failed (ctl (fs_j fs)) = Some e
         else busy (fs_j fs) \<or> (\<exists>i e. fs_locks fs i = Some e \<and> (writer e \<or> 0 < readers e)))))"
  using ends_at [OF run_calls_ends assms, of cs d sy k]
  by (cases "run_calls (disk_of d sy) k cs v"; cases "fst (run_calls (disk_of d sy) k cs v)")
    (auto simp: vfs_stop_def fs_stop_def engine_stop_def lock_stop_def locked_def)

theorem calls_return_codes_witness:
  "\<exists>v v' ns. fs_ok stored_ok v \<and> run_calls (disk_of demo_disk True) 3 [Close 5000] v = (Ret ns, v') \<and>
     length ns = 1 \<and> list_all result_code ns"
proof -
  define v where "v = \<lparr>g_gate = gate_new\<lparr>gate_closed := False\<rparr>, g_fs = Some demo_engine_fs\<rparr>"
  have ok: "fs_ok stored_ok v"
    using demo_engine_fs_ok by (simp add: v_def fs_ok_def)
  have g: "gate_ok (g_gate v)" "\<not> gate_closed (g_gate v)" "g_fs v = Some (the (g_fs v))"
    by (simp_all add: v_def gate_ok_def gate_new_def)
  have "vfs_close_fs 5000 (the (g_fs v)) = (Raise (FsError VFS_EBADF), the (g_fs v))"
    by (simp add: vfs_close_fs_def file_at_def MAX_OPEN_def fs_error_def)
  from simple_call_throws [where body = "vfs_close_fs 5000" and k = 3, OF g this]
  have "run_calls (disk_of demo_disk True) 3 [Close 5000] v = (Ret [- VFS_EBADF], v)"
    by (simp add: vfs_close_def code_of_def)
  with calls_return_codes [where d = demo_disk and sy = True and k = 3 and cs = "[Close 5000]", OF ok] ok show ?thesis by fastforce
qed

end
