(* ===== verification/Shell_Text.thy ===== *)
theory Shell_Text
  imports Fsck
begin

text \<open>
  \<^verbatim>\<open>src/tools/vfs_shell.cpp\<close>, the parts without effects: reading numbers and sizes from the command line,
  and the texts it prints. An argument is a byte string; the end of the list is the terminating
  zero. A malformed argument is a \<^const>\<open>UsageError\<close>.
\<close>

section \<open>Argument parsing\<close>

definition isdigit :: "byte \<Rightarrow> bool" where
  "isdigit c \<longleftrightarrow> 48 \<le> c \<and> c \<le> 57"

definition isprint :: "byte \<Rightarrow> bool" where
  "isprint c \<longleftrightarrow> 32 \<le> c \<and> c \<le> 126"

text \<open>The loop of \<^verbatim>\<open>parse_digits\<close>, with what it has read and what is left.\<close>

fun digits_loop :: "bytes \<Rightarrow> u64 \<Rightarrow> bytes \<Rightarrow> exn + (u64 \<times> bytes)" where
  "digits_loop whole n [] = Inr (n, [])"
| "digits_loop whole n (c # p) =
     (if isdigit c
      then let digit = ucast (c - 48) in
           if n > (- 1 - digit) div 10 then Inl (UsageError (''too large: '' @ text_of whole))
           else digits_loop whole (n * 10 + digit) p
      else Inr (n, c # p))"

definition parse_digits :: "bytes \<Rightarrow> bytes \<Rightarrow> exn + (u64 \<times> bytes)" where
  "parse_digits p whole =
     (if p = [] \<or> \<not> isdigit (hd p) then Inl (UsageError (''not a number: '' @ text_of whole))
      else digits_loop whole 0 p)"

definition parse_u32 :: "bytes \<Rightarrow> exn + u32" where
  "parse_u32 txt = (case parse_digits txt txt of
       Inl e \<Rightarrow> Inl e
     | Inr (n, p) \<Rightarrow>
         if p \<noteq> [] \<or> n > 0xFFFFFFFF then Inl (UsageError (''not a 32-bit number: '' @ text_of txt))
         else Inr (ucast n))"

text \<open>The unit at the front of what is left: the shift, and what is left after it.\<close>

definition size_suffix :: "bytes \<Rightarrow> nat \<times> bytes" where
  "size_suffix p = (case p of
       [] \<Rightarrow> (0, [])
     | c # cs \<Rightarrow>
         if c \<in> {75, 107} then (10, cs)
         else if c \<in> {77, 109} then (20, cs)
         else if c \<in> {71, 103} then (30, cs)
         else (0, p))"

definition parse_size :: "bytes \<Rightarrow> exn + u64" where
  "parse_size txt = (case parse_digits txt txt of
       Inl e \<Rightarrow> Inl e
     | Inr (n, p) \<Rightarrow> (case size_suffix p of (shift, p) \<Rightarrow>
         if p \<noteq> [] then Inl (UsageError (''not a size: '' @ text_of txt @ '' (try 256M)''))
         else if n > drop_bit shift (- 1) then Inl (UsageError (''too large: '' @ text_of txt))
         else Inr (push_bit shift n)))"

section \<open>Printing\<close>

text \<open>The loop of \<^verbatim>\<open>human_size\<close>; \<^term>\<open>u\<close> is the index of the unit.\<close>

function human_loop :: "nat \<Rightarrow> u64 \<Rightarrow> u64 \<times> nat" where
  "human_loop u bs =
     (if u < 4 \<and> bs \<ge> 1024 \<and> bs mod 1024 = 0 then human_loop (u + 1) (bs div 1024) else (bs, u))"
  by pat_completeness auto
termination by (relation "measure (\<lambda>(u, _). 4 - u)") auto

declare human_loop.simps [simp del]

definition size_units :: "string list" where
  "size_units = [''bytes'', ''KB'', ''MB'', ''GB'', ''TB'']"

definition human_size :: "u64 \<Rightarrow> string" where
  "human_size bs = (case human_loop 0 bs of (n, u) \<Rightarrow> to_string (unat n) @ '' '' @ size_units ! u)"

text \<open>The half-open range from \<^term>\<open>first\<close> to \<^term>\<open>stop\<close>.\<close>

definition block_range :: "u32 \<Rightarrow> u32 \<Rightarrow> string" where
  "block_range first stop =
     (if stop \<le> first then ''none''
      else if stop - first = 1 then ''block '' @ str32 first
      else ''blocks '' @ str32 first @ ''-'' @ str32 (stop - 1) @ '' ('' @ str32 (stop - first) @ '')'')"

text \<open>The time zone is the host's: \<^term>\<open>local_time\<close> is what \<^verbatim>\<open>localtime_r\<close> and \<^verbatim>\<open>strftime\<close> make of a time.\<close>

definition format_time :: "(u64 \<Rightarrow> string option) \<Rightarrow> u64 \<Rightarrow> string" where
  "format_time local_time seconds =
     (if seconds = 0 then ''-''
      else case local_time seconds of Some t \<Rightarrow> t | None \<Rightarrow> to_string (unat seconds))"

definition type_name :: "u16 \<Rightarrow> string" where
  "type_name md = (let t = md AND MODE_TYPE_MASK in
     if t = MODE_DIR then ''directory''
     else if t = MODE_FILE then ''file''
     else if t = 0 then ''-''
     else ''unknown'')"

subsection \<open>The runs of a bitmap\<close>

definition bit_in :: "bitmap \<Rightarrow> nat \<Rightarrow> bool" where
  "bit_in bm i = (fst (is_set (of_nat i) bm) = Ret True)"

text \<open>The inner loop of \<^verbatim>\<open>print_runs\<close>: the first number from \<^term>\<open>i\<close> on that is not set.\<close>

function run_end :: "bitmap \<Rightarrow> nat \<Rightarrow> nat" where
  "run_end bm i = (if i < unat (nbits bm) \<and> bit_in bm i then run_end bm (i + 1) else i)"
  by pat_completeness auto
termination by (relation "measure (\<lambda>(bm, i). unat (nbits bm) - i)") auto

declare run_end.simps [simp del]

lemma run_end_ge: "i \<le> run_end bm i"
proof (induction bm i rule: run_end.induct)
  case (1 bm i)
  then show ?case by (subst run_end.simps) auto
qed

text \<open>The outer loop: the line, whether there was a run before, and the lines that are finished.\<close>

definition run_text :: "nat \<Rightarrow> nat \<Rightarrow> string" where
  "run_text start stop = to_string start @ (if stop - start > 1 then ''-'' @ to_string (stop - 1) else [])"

definition add_run :: "string \<Rightarrow> bool \<Rightarrow> string \<Rightarrow> string list \<times> string" where
  "add_run line some_run run =
     (let line = (if some_run then line @ '','' else line) in
      if length line + length run + 1 > 78 then ([line], '' '' @ '' '' @ run)
      else ([], line @ '' '' @ run))"

function runs_loop :: "bitmap \<Rightarrow> nat \<Rightarrow> string \<Rightarrow> bool \<Rightarrow> string list" where
  "runs_loop bm i line some_run =
     (if i < unat (nbits bm)
      then if \<not> bit_in bm i then runs_loop bm (i + 1) line some_run
           else let stop = run_end bm i in
                case add_run line some_run (run_text i stop) of (out, line) \<Rightarrow> out @ runs_loop bm stop line True
      else [if some_run then line else ''  (none)''])"
  by pat_completeness auto
termination
proof (relation "measure (\<lambda>(bm, i, _, _). unat (nbits bm) - i)", goal_cases)
  case (3 bm i)
  then have "run_end bm i = run_end bm (i + 1)" by (subst run_end.simps) simp
  with 3 show ?case using run_end_ge [of "i + 1" bm] by simp
qed auto

declare runs_loop.simps [simp del]

text \<open>The lines that \<^verbatim>\<open>print_runs\<close> prints.\<close>

definition print_runs :: "bitmap \<Rightarrow> string list" where
  "print_runs bm = runs_loop bm 0 '' '' False"

section \<open>Numbers are read exactly\<close>

definition decimal :: "bytes \<Rightarrow> nat" where
  "decimal ds = foldl (\<lambda>n c. n * 10 + (unat c - 48)) 0 ds"

definition size_value :: "bytes \<Rightarrow> nat option" where
  "size_value txt =
     (let n = decimal (takeWhile isdigit txt); rest = dropWhile isdigit txt in
      if takeWhile isdigit txt = [] then None
      else if rest = [] then Some n
      else if rest \<in> {str_bytes ''K'', str_bytes ''k''} then Some (n * 1024)
      else if rest \<in> {str_bytes ''M'', str_bytes ''m''} then Some (n * 1048576)
      else if rest \<in> {str_bytes ''G'', str_bytes ''g''} then Some (n * 1073741824)
      else None)"

text \<open>The units and the shifts of the code agree.\<close>

lemma size_value_shift:
  "size_value txt = (case size_suffix (dropWhile isdigit txt) of (shift, rest) \<Rightarrow>
     if takeWhile isdigit txt = [] \<or> rest \<noteq> [] then None else Some (decimal (takeWhile isdigit txt) * 2 ^ shift))"
proof -
  have "(if rest = [] then Some n else if rest \<in> {str_bytes ''K'', str_bytes ''k''} then Some (n * 1024)
      else if rest \<in> {str_bytes ''M'', str_bytes ''m''} then Some (n * 1048576)
      else if rest \<in> {str_bytes ''G'', str_bytes ''g''} then Some (n * 1073741824) else None) =
    (case size_suffix rest of (shift, rest) \<Rightarrow> if rest \<noteq> [] then None else Some (n * 2 ^ shift))" for rest and n :: nat
    by (cases rest) (auto simp: size_suffix_def str_bytes_def)
  from this [of "dropWhile isdigit txt" "decimal (takeWhile isdigit txt)"] show ?thesis
    unfolding size_value_def Let_def by (simp split: prod.split)
qed

definition number_value :: "bytes \<Rightarrow> nat option" where
  "number_value txt = (if txt = [] \<or> \<not> list_all isdigit txt then None else Some (decimal txt))"

lemma foldl_digits_ge: "n \<le> foldl (\<lambda>n c. n * 10 + (unat c - 48)) n (ds :: bytes)"
proof (induction ds arbitrary: n)
  case (Cons d ds)
  have "n \<le> n * 10 + (unat d - 48)" by simp
  with Cons [of "n * 10 + (unat d - 48)"] show ?case by simp
qed simp

text \<open>One digit: the test says exactly whether the number still fits.\<close>

lemma next_digit:
  fixes n :: u64
  assumes "isdigit c"
  shows "n > (- 1 - ucast (c - 48)) div 10 \<longleftrightarrow> 2 ^ 64 \<le> unat n * 10 + (unat c - 48)"
    "unat n * 10 + (unat c - 48) < 2 ^ 64 \<Longrightarrow> unat (n * 10 + ucast (c - 48) :: u64) = unat n * 10 + (unat c - 48)"
proof -
  let ?d = "ucast (c - 48) :: u64" and ?k = "unat c - 48"
  have c: "48 \<le> unat c" "unat c \<le> 57" using assms by (simp_all add: isdigit_def word_le_nat_alt)
  have "unat (c - 48) = ?k" using c(1) by (simp add: unat_sub_if_size word_le_nat_alt word_size)
  then have d: "unat ?d = ?k" by (simp add: unsigned_ucast_eq take_bit_eq_mod) (use c in simp)
  have "?d \<le> - 1" by simp
  then have "unat (- 1 - ?d) = 2 ^ 64 - 1 - ?k" using d by (simp add: unat_sub unsigned_minus_1_eq_mask mask_eq_exp_minus_1)
  then have "unat ((- 1 - ?d) div 10) = (2 ^ 64 - 1 - ?k) div 10" by (simp add: unat_div)
  then show "n > (- 1 - ?d) div 10 \<longleftrightarrow> 2 ^ 64 \<le> unat n * 10 + ?k" using c by (simp add: word_less_nat_alt) linarith
  show "unat n * 10 + ?k < 2 ^ 64 \<Longrightarrow> unat (n * 10 + ?d) = unat n * 10 + ?k"
    using d by (simp add: unat_word_ariths)
qed

lemma digits_loop_value:
  "digits_loop whole n p =
     (let v = foldl (\<lambda>n c. n * 10 + (unat c - 48)) (unat n) (takeWhile isdigit p) in
      if v < 2 ^ 64 then Inr (of_nat v, dropWhile isdigit p) else Inl (UsageError (''too large: '' @ text_of whole)))"
proof (induction p arbitrary: n)
  case Nil
  then show ?case using unat_less_2p [of n] by simp
next
  case (Cons c p)
  show ?case
  proof (cases "isdigit c")
    case False
    then show ?thesis using unat_less_2p [of n] by simp
  next
    case True
    note nd = next_digit [OF True, of n]
    show ?thesis
    proof (cases "unat n * 10 + (unat c - 48) < 2 ^ 64")
      case fits: True
      have "\<not> n > (- 1 - ucast (c - 48)) div 10" unfolding nd(1) using fits by linarith
      then have "digits_loop whole n (c # p) = digits_loop whole (n * 10 + ucast (c - 48)) p" using True by (simp add: Let_def)
      then show ?thesis using True unfolding Cons.IH nd(2) [OF fits]
        by (simp del: digits_loop.simps add: Let_def cong: if_cong)
    next
      case big: False
      then have "n > (- 1 - ucast (c - 48)) div 10" unfolding nd(1) by linarith
      then have "digits_loop whole n (c # p) = Inl (UsageError (''too large: '' @ text_of whole))" using True by (simp add: Let_def)
      moreover have "\<not> foldl (\<lambda>n c. n * 10 + (unat c - 48)) (unat n) (takeWhile isdigit (c # p)) < 2 ^ 64"
        using foldl_digits_ge [of "unat n * 10 + (unat c - 48)" "takeWhile isdigit p"] big True by simp
      ultimately show ?thesis by (simp only: Let_def if_False)
    qed
  qed
qed

lemma parse_digits_value:
  "parse_digits txt txt =
     (if takeWhile isdigit txt = [] then Inl (UsageError (''not a number: '' @ text_of txt))
      else if decimal (takeWhile isdigit txt) < 2 ^ 64 then Inr (of_nat (decimal (takeWhile isdigit txt)), dropWhile isdigit txt)
      else Inl (UsageError (''too large: '' @ text_of txt)))"
  unfolding parse_digits_def digits_loop_value decimal_def by (cases "txt") (simp_all add: Let_def)

lemma sizes_read:
  "case size_value txt of
      Some v \<Rightarrow> if v < 2 ^ 64 then parse_size txt = Inr (of_nat v) else \<exists>m. parse_size txt = Inl (UsageError m)
    | None \<Rightarrow> \<exists>m. parse_size txt = Inl (UsageError m)"
proof -
  define ds where "ds = takeWhile isdigit txt"
  obtain shift rest where suf: "size_suffix (dropWhile isdigit txt) = (shift, rest)" by fastforce
  have sh: "shift \<le> 30" using suf by (auto simp: size_suffix_def split: list.splits if_splits)
  note pd = parse_digits_value [of "txt", folded ds_def]
  show ?thesis
  proof (cases "ds = [] \<or> rest \<noteq> []")
    case True
    then show ?thesis using suf by (auto simp: size_value_shift ds_def [symmetric] parse_size_def pd)
  next
    case False
    then have v: "size_value txt = Some (decimal ds * 2 ^ shift)" using suf by (simp add: size_value_shift ds_def [symmetric])
    show ?thesis
    proof (cases "decimal ds < 2 ^ 64")
      case small: True
      let ?n = "of_nat (decimal ds) :: u64"
      have n: "unat ?n = decimal ds" using small by (simp add: unat_of_nat)
      have "unat (drop_bit shift (- 1 :: u64)) = (2 ^ 64 - 1) div 2 ^ shift"
        by (simp only: unsigned_drop_bit_eq unsigned_minus_1_eq_mask) (simp add: drop_bit_eq_div mask_eq_exp_minus_1)
      then have fits: "?n > drop_bit shift (- 1) \<longleftrightarrow> \<not> decimal ds * 2 ^ shift < 2 ^ 64"
        unfolding word_less_nat_alt n by (simp add: less_eq_div_iff_mult_less_eq not_less [symmetric] div_less_iff_less_mult) auto
      have "parse_size txt = (if decimal ds * 2 ^ shift < 2 ^ 64 then Inr (push_bit shift ?n) else Inl (UsageError (''too large: '' @ text_of txt)))"
        using False small suf fits by (simp add: parse_size_def pd)
      moreover have "push_bit shift ?n = of_nat (decimal ds * 2 ^ shift)" by (simp add: push_bit_of_nat push_bit_eq_mult)
      ultimately show ?thesis unfolding v by simp
    next
      case big: False
      moreover have "decimal ds \<le> decimal ds * 2 ^ shift" by simp
      ultimately have "\<not> decimal ds * 2 ^ shift < 2 ^ 64" by linarith
      then show ?thesis unfolding v using big False by (simp add: parse_size_def pd)
    qed
  qed
qed

lemma numbers_read:
  "case number_value txt of
      Some v \<Rightarrow> if v < 2 ^ 32 then parse_u32 txt = Inr (of_nat v) else \<exists>m. parse_u32 txt = Inl (UsageError m)
    | None \<Rightarrow> \<exists>m. parse_u32 txt = Inl (UsageError m)"
proof -
  define ds where "ds = takeWhile isdigit txt"
  note pd = parse_digits_value [of "txt", folded ds_def]
  show ?thesis
  proof (cases "number_value txt")
    case None
    then have "ds = [] \<or> dropWhile isdigit txt \<noteq> []"
      by (auto simp: number_value_def ds_def dropWhile_eq_Nil_conv list_all_iff split: if_splits)
    then show ?thesis using None by (auto simp: parse_u32_def pd)
  next
    case (Some v)
    then have all: "txt \<noteq> []" "\<forall>c \<in> set txt. isdigit c" and v: "v = decimal txt"
      by (auto simp: number_value_def list_all_iff split: if_splits)
    then have ds: "ds = txt" "dropWhile isdigit txt = []" by (simp_all add: ds_def takeWhile_eq_all_conv dropWhile_eq_Nil_conv)
    show ?thesis
    proof (cases "v < 2 ^ 64")
      case True
      have "unat (of_nat v :: u64) = v" using True by (simp add: unat_of_nat)
      then have "(of_nat v :: u64) > 0xFFFFFFFF \<longleftrightarrow> \<not> v < 2 ^ 32" by (simp add: word_less_nat_alt) linarith
      moreover have "ucast (of_nat v :: u64) = (of_nat v :: u32)"
        by (simp add: word_unat_eq_iff unsigned_ucast_eq unsigned_of_nat)
      ultimately show ?thesis using Some True all(1) ds v by (simp add: parse_u32_def pd)
    next
      case False
      then show ?thesis using Some all(1) ds v by (simp add: parse_u32_def pd)
    qed
  qed
qed

text \<open>
  C40. Sizes and numbers on the command line are read exactly. \<^verbatim>\<open>parse_size\<close> returns the number of bytes a
  string of digits with an optional K, M or G stands for, computed without bounds, when it fits in
  64 bits, and is a usage error otherwise; \<^verbatim>\<open>parse_u32\<close> returns the number a string of digits stands
  for when it fits in 32 bits. No sum or shift wraps around.
\<close>

theorem sizes_read_exactly:
  "(case size_value txt of
      Some v \<Rightarrow> if v < 2 ^ 64 then parse_size txt = Inr (of_nat v) else \<exists>m. parse_size txt = Inl (UsageError m)
    | None \<Rightarrow> \<exists>m. parse_size txt = Inl (UsageError m)) \<and>
   (case number_value txt of
      Some v \<Rightarrow> if v < 2 ^ 32 then parse_u32 txt = Inr (of_nat v) else \<exists>m. parse_u32 txt = Inl (UsageError m)
    | None \<Rightarrow> \<exists>m. parse_u32 txt = Inl (UsageError m))"
  using sizes_read [of "txt"] numbers_read [of "txt"] by (rule conjI)

section \<open>Sizes are printed exactly\<close>

lemma unat_mod_1024: "bs mod 1024 = 0 \<longleftrightarrow> unat (bs :: u64) mod 1024 = 0"
proof -
  have "unat (bs mod 1024) = unat bs mod unat (1024 :: u64)" by (rule unat_mod)
  moreover have "unat (1024 :: u64) = 1024" by simp
  ultimately have "unat (bs mod 1024) = unat bs mod 1024" by (simp only:)
  then show ?thesis by (metis unat_0 unat_eq_zero)
qed

lemma human_loop_exact:
  assumes "u \<le> 4" and "human_loop u bs = (n, u')"
  shows "u \<le> u' \<and> u' \<le> 4 \<and> unat n * 1024 ^ (u' - u) = unat bs \<and> (u' = 4 \<or> n < 1024 \<or> n mod 1024 \<noteq> 0)"
  using assms
proof (induction u bs arbitrary: n u' rule: human_loop.induct)
  case (1 u bs)
  show ?case
  proof (cases "u < 4 \<and> bs \<ge> 1024 \<and> bs mod 1024 = 0")
    case False
    then have "human_loop u bs = (bs, u)" unfolding human_loop.simps [of u bs] by (rule if_not_P)
    then have e: "n = bs" "u' = u" using "1.prems"(2) by simp_all
    have "u = 4 \<or> bs < 1024 \<or> bs mod 1024 \<noteq> 0" using False "1.prems"(1) by (auto simp: not_le)
    then show ?thesis unfolding e using "1.prems"(1) by simp
  next
    case True
    then have "human_loop u bs = human_loop (u + 1) (bs div 1024)" unfolding human_loop.simps [of u bs] by (rule if_P)
    then have h: "human_loop (u + 1) (bs div 1024) = (n, u')" using "1.prems"(2) by simp
    have "u + 1 \<le> 4" using True by simp
    note ih = "1.IH" [OF True this h]
    have "unat bs mod 1024 = 0" using True unat_mod_1024 [of bs] by simp
    then have "1024 * (unat bs div 1024) = unat bs" by auto
    moreover have "u' - u = Suc (u' - (u + 1))" using ih by linarith
    moreover have "unat (bs div 1024) = unat bs div 1024" by (simp add: unat_div)
    ultimately have "unat n * 1024 ^ (u' - u) = unat bs" using ih by (simp add: mult.left_commute)
    then show ?thesis using ih by simp
  qed
qed

text \<open>A number that is printed is read.\<close>

lemma digit_char:
  assumes "n < 10"
  shows "isdigit (of_nat (of_char (char_of (48 + n) :: char)) :: byte)" "unat (of_nat (of_char (char_of (48 + n) :: char)) :: byte) = 48 + n"
proof -
  have c: "(of_char (char_of (48 + n) :: char) :: nat) = 48 + n" using assms by simp
  have u: "unat (of_nat (48 + n) :: byte) = 48 + n" using assms by (simp only: unat_of_nat) simp
  show "isdigit (of_nat (of_char (char_of (48 + n) :: char)) :: byte)" "unat (of_nat (of_char (char_of (48 + n) :: char)) :: byte) = 48 + n"
    unfolding c isdigit_def word_le_nat_alt u using assms by simp_all
qed

lemma to_string_digits: "to_string n \<noteq> [] \<and> list_all isdigit (str_bytes (to_string n)) \<and> decimal (str_bytes (to_string n)) = n"
proof (induction n rule: to_string.induct)
  case (1 n)
  show ?case
  proof (cases "n < 10")
    case True
    then have "to_string n = [char_of (48 + n)]" by (simp add: to_string.simps [of n])
    then show ?thesis using digit_char [OF True] by (simp add: str_bytes_def decimal_def)
  next
    case False
    then have t: "to_string n = to_string (n div 10) @ [char_of (48 + n mod 10)]" by (subst to_string.simps) simp
    have "n mod 10 < 10" by simp
    note d = digit_char [OF this]
    show ?thesis unfolding t using 1 [OF False] d by (simp add: str_bytes_def decimal_def)
  qed
qed

definition size_letters :: "string list" where
  "size_letters = [[], ''K'', ''M'', ''G'']"

lemma letters_suffix:
  assumes "u < 4"
  shows "size_suffix (str_bytes (size_letters ! u)) = (10 * u, [])" "takeWhile isdigit (str_bytes (size_letters ! u)) = []"
proof -
  consider "u = 0" | "u = 1" | "u = 2" | "u = 3" using assms by linarith
  then show "size_suffix (str_bytes (size_letters ! u)) = (10 * u, [])"
    by cases (simp_all add: size_letters_def size_suffix_def str_bytes_def)
  consider "u = 0" | "u = 1" | "u = 2" | "u = 3" using assms by linarith
  then show "takeWhile isdigit (str_bytes (size_letters ! u)) = []"
    by cases (simp_all add: size_letters_def str_bytes_def isdigit_def word_le_nat_alt)
qed

text \<open>
  A size is printed exactly, and what is printed can be read. \<^verbatim>\<open>human_size\<close> prints a number and a
  unit whose product is the size, in the largest unit that leaves nothing over; and \<^verbatim>\<open>parse_size\<close>
  reads the number with the unit's letter back as the size, for the units it has a letter for.
\<close>

lemma printed_size_is_read:
  "\<exists>n u. human_size bs = to_string n @ '' '' @ size_units ! u \<and> u < length size_units \<and> n * 1024 ^ u = unat bs \<and>
     (u = 4 \<or> n < 1024 \<or> 0 < n mod 1024) \<and>
     (if u < 4 then parse_size (str_bytes (to_string n @ size_letters ! u)) = Inr bs else n * 1024 ^ 4 = unat bs)"
proof -
  obtain n u where h: "human_loop 0 bs = (n, u)" by fastforce
  have x: "u \<le> 4" "unat n * 1024 ^ u = unat bs" "u = 4 \<or> n < 1024 \<or> n mod 1024 \<noteq> 0"
    using human_loop_exact [OF _ h] by simp_all
  have most: "u = 4 \<or> unat n < 1024 \<or> 0 < unat n mod 1024"
    using x(3) unfolding unat_mod_1024 by (simp add: word_less_nat_alt)
  have "parse_size (str_bytes (to_string (unat n) @ size_letters ! u)) = Inr bs" if u: "u < 4"
  proof -
    let ?d = "str_bytes (to_string (unat n))" and ?l = "str_bytes (size_letters ! u)"
    note t = to_string_digits [of "unat n"] and l = letters_suffix [OF u]
    have d: "\<forall>c \<in> set ?d. isdigit c" "?d \<noteq> []" using t by (simp_all add: list_all_iff str_bytes_def)
    have "takeWhile isdigit (?d @ ?l) = ?d" "dropWhile isdigit (?d @ ?l) = ?l"
      using d(1) l by (simp_all add: takeWhile_append2 dropWhile_append2) (metis takeWhile_dropWhile_id append_Nil)
    then have "size_value (?d @ ?l) = Some (unat n * 2 ^ (10 * u))" using l t d(2) by (simp add: size_value_shift)
    moreover have "unat n * 2 ^ (10 * u) = unat bs" using x(2) by (simp add: power_mult)
    ultimately have v: "size_value (?d @ ?l) = Some (unat bs)" by simp
    show ?thesis
      using sizes_read [of "?d @ ?l"] v unat_less_2p [of bs] by (simp add: str_bytes_def)
  qed
  then show ?thesis using h x most by (intro exI [of _ "unat n"] exI [of _ u]) (auto simp: human_size_def size_units_def)
qed

section \<open>The runs of a bitmap\<close>

text \<open>The runs from \<^term>\<open>i\<close> on, and the lines they are laid out in.\<close>

function runs :: "bitmap \<Rightarrow> nat \<Rightarrow> (nat \<times> nat) list" where
  "runs bm i =
     (if i < unat (nbits bm)
      then if \<not> bit_in bm i then runs bm (i + 1) else (i, run_end bm i) # runs bm (run_end bm i)
      else [])"
  by pat_completeness auto
termination
proof (relation "measure (\<lambda>(bm, i). unat (nbits bm) - i)", goal_cases)
  case (3 bm i)
  then have "run_end bm i = run_end bm (i + 1)" by (subst run_end.simps) simp
  with 3 show ?case using run_end_ge [of "i + 1" bm] by simp
qed auto

declare runs.simps [simp del]

fun lay_out :: "(nat \<times> nat) list \<Rightarrow> string \<Rightarrow> bool \<Rightarrow> string list" where
  "lay_out [] line some_run = [if some_run then line else ''  (none)'']"
| "lay_out ((a, b) # rs) line some_run =
     (case add_run line some_run (run_text a b) of (out, line') \<Rightarrow> out @ lay_out rs line' True)"

lemma runs_loop_runs: "runs_loop bm i line some_run = lay_out (runs bm i) line some_run"
proof (induction bm i arbitrary: line some_run rule: runs.induct)
  case (1 bm i)
  show ?case
  proof (cases "i < unat (nbits bm)")
    case False
    then show ?thesis by (simp add: runs_loop.simps [of bm i] runs.simps [of bm i])
  next
    case True
    show ?thesis
    proof (cases "bit_in bm i")
      case False
      then show ?thesis using True "1.IH"(1) by (simp add: runs_loop.simps [of bm i] runs.simps [of bm i])
    next
      case b: True
      then show ?thesis using True "1.IH"(2)
        by (simp add: runs_loop.simps [of bm i] runs.simps [of bm i] Let_def split: prod.split)
    qed
  qed
qed

lemma run_end_run:
  "run_end bm i \<le> max i (unat (nbits bm))" "j \<in> {i..<run_end bm i} \<Longrightarrow> bit_in bm j"
  "run_end bm i < unat (nbits bm) \<Longrightarrow> \<not> bit_in bm (run_end bm i)"
proof (induction bm i rule: run_end.induct)
  case (1 bm i)
  {
    case 1
    then show ?case using "1.IH"(1) by (cases "i < unat (nbits bm) \<and> bit_in bm i") (auto simp: run_end.simps [of bm i])
  next
    case 2
    then show ?case
    proof (cases "i < unat (nbits bm) \<and> bit_in bm i")
      case True
      then have "j = i \<or> j \<in> {i + 1..<run_end bm (i + 1)}" using 2 by (auto simp: run_end.simps [of bm i])
      then show ?thesis using "1.IH"(2) [OF True] True by blast
    qed (simp add: run_end.simps [of bm i])
  next
    case 3
    then show ?case using "1.IH"(3) by (cases "i < unat (nbits bm) \<and> bit_in bm i") (auto simp: run_end.simps [of bm i])
  }
qed

text \<open>The runs are not empty, in order, apart from each other, and hold exactly the numbers that are set.\<close>

fun apart :: "nat \<Rightarrow> (nat \<times> nat) list \<Rightarrow> bool" where
  "apart i [] = True"
| "apart i ((a, b) # rs) = (i \<le> a \<and> a < b \<and> apart (b + 1) rs)"

lemma apart_nonempty: "apart i rs \<Longrightarrow> (a, b) \<in> set rs \<Longrightarrow> a < b"
  by (induction i rs rule: apart.induct) auto

lemma runs_ok:
  "apart (if bit_in bm i then i else i + 1) (runs bm i) \<and>
   (\<Union>(a, b) \<in> set (runs bm i). {a..<b}) = {j. i \<le> j \<and> j < unat (nbits bm) \<and> bit_in bm j}"
proof (induction bm i rule: runs.induct)
  case (1 bm i)
  show ?case
  proof (cases "i < unat (nbits bm)")
    case False
    then show ?thesis by (auto simp: runs.simps [of bm i])
  next
    case lt: True
    show ?thesis
    proof (cases "bit_in bm i")
      case False
      then have "{j. i \<le> j \<and> j < unat (nbits bm) \<and> bit_in bm j} = {j. i + 1 \<le> j \<and> j < unat (nbits bm) \<and> bit_in bm j}"
        by (auto simp: Suc_le_eq le_less)
      moreover have "apart (i + 1) (runs bm (i + 1))" if "apart (if bit_in bm (i + 1) then i + 1 else i + 1 + 1) (runs bm (i + 1))"
        using that by (cases "runs bm (i + 1)") (auto split: if_splits)
      ultimately show ?thesis using "1.IH"(1) [OF lt False] False lt by (simp add: runs.simps [of bm i])
    next
      case True
      let ?e = "run_end bm i"
      have e: "?e = run_end bm (i + 1)" using lt True by (subst run_end.simps) simp
      note re = run_end_run [where bm = bm and i = i] and ge = run_end_ge [of "i + 1" bm, folded e]
      have ih: "apart (if bit_in bm ?e then ?e else ?e + 1) (runs bm ?e)"
        "(\<Union>(a, b) \<in> set (runs bm ?e). {a..<b}) = {j. ?e \<le> j \<and> j < unat (nbits bm) \<and> bit_in bm j}" using "1.IH"(2) [OF lt] True by simp_all
      have "apart (?e + 1) (runs bm ?e)"
      proof (cases "?e < unat (nbits bm)")
        case True
        then show ?thesis using ih(1) re(3) by simp
      qed (simp add: runs.simps [of bm ?e])
      moreover have "{i..<?e} \<union> {j. ?e \<le> j \<and> j < unat (nbits bm) \<and> bit_in bm j} = {j. i \<le> j \<and> j < unat (nbits bm) \<and> bit_in bm j}"
        using re(1,2) ge lt by (auto simp: max_def)
      moreover have "runs bm i = (i, ?e) # runs bm ?e" using lt True by (simp add: runs.simps [of bm i])
      ultimately show ?thesis using True ge ih(2) by simp
    qed
  qed
qed

text \<open>No line is longer than a terminal is wide.\<close>

lemma length_to_string: "n < 10 ^ k \<Longrightarrow> 0 < k \<Longrightarrow> length (to_string n) \<le> k"
proof (induction n arbitrary: k rule: to_string.induct)
  case (1 n)
  show ?case
  proof (cases "n < 10")
    case True
    then show ?thesis using 1 by (subst to_string.simps) simp
  next
    case False
    have "1 < k"
    proof (rule ccontr)
      assume "\<not> 1 < k"
      with "1.prems" have "n < 10 ^ 1" by (cases "k = 1") auto
      with False show False by simp
    qed
    then obtain k' where k: "k = Suc k'" "0 < k'" by (cases k) auto
    have "n div 10 < 10 ^ k'" using "1.prems"(1) k(1) by (simp add: less_mult_imp_div_less mult.commute)
    from "1.IH" [OF False this k(2)] show ?thesis using False k(1) by (subst to_string.simps) simp
  qed
qed

lemma length_run_text:
  assumes "b \<le> 2 ^ 32" and "a < b"
  shows "length (run_text a b) \<le> 21"
proof -
  have "length (to_string a) \<le> 10" "length (to_string (b - 1)) \<le> 10" using assms by (auto intro!: length_to_string)
  then show ?thesis by (simp add: run_text_def)
qed

lemma lay_out_width:
  assumes "\<And>a b. (a, b) \<in> set rs \<Longrightarrow> length (run_text a b) \<le> 21" and "length line \<le> 78"
  shows "\<forall>l \<in> set (lay_out rs line some_run). length l \<le> 79"
  using assms
proof (induction rs arbitrary: line some_run)
  case (Cons r rs)
  obtain a b where r: "r = (a, b)" by fastforce
  obtain out line' where o: "add_run line some_run (run_text a b) = (out, line')" by fastforce
  have "length (run_text a b) \<le> 21" using Cons.prems(1) r by simp
  then have "length line' \<le> 78" "\<forall>l \<in> set out. length l \<le> 79"
    using o Cons.prems(2) by (auto simp: add_run_def Let_def split: if_splits)
  moreover have "\<forall>l \<in> set (lay_out rs line' True). length l \<le> 79"
    using Cons.prems(1) calculation(1) by (intro Cons.IH) auto
  ultimately show ?case using r o by auto
qed auto

text \<open>
  The runs of a bitmap are listed completely. The runs \<^verbatim>\<open>print_runs\<close> lays out in lines are not empty, in
  ascending order, apart from each other, and hold exactly the numbers that are in use; and no
  line is longer than 79 characters.
\<close>

lemma print_runs_lists_used:
  assumes "wf_bitmap bm"
  shows "\<exists>rs. print_runs bm = lay_out rs '' '' False \<and> apart 0 rs \<and> (\<Union>(a, b) \<in> set rs. {a..<b}) = unat ` used bm \<and>
    (\<forall>l \<in> set (print_runs bm). length l \<le> 79)"
proof -
  have bit: "bit_in bm j \<longleftrightarrow> of_nat j \<in> used bm" "unat (of_nat j :: u32) = j" if "j < unat (nbits bm)" for j
  proof -
    show u: "unat (of_nat j :: u32) = j" using that unat_less_2p [of "nbits bm"] by (simp add: unat_of_nat)
    then have "of_nat j < nbits bm" using that by (simp add: word_less_nat_alt)
    then show "bit_in bm j \<longleftrightarrow> of_nat j \<in> used bm" using is_set_in [OF assms] by (simp add: bit_in_def)
  qed
  have ub: "i < nbits bm" if "i \<in> used bm" for i using assms that by (auto simp: wf_bitmap_def used_def word_less_nat_alt)
  note ok = runs_ok [where bm = bm and i = 0]
  have cover: "(\<Union>(a, b) \<in> set (runs bm 0). {a..<b}) = {j. j < unat (nbits bm) \<and> bit_in bm j}" unfolding ok [THEN conjunct2] by simp
  also have "\<dots> = unat ` used bm"
  proof (intro set_eqI iffI)
    fix j assume j: "j \<in> {j. j < unat (nbits bm) \<and> bit_in bm j}"
    then have "of_nat j \<in> used bm" "j = unat (of_nat j :: u32)" using bit by auto
    then show "j \<in> unat ` used bm" by blast
  next
    fix j assume "j \<in> unat ` used bm"
    then obtain i where i: "i \<in> used bm" "j = unat i" by blast
    then have lt: "j < unat (nbits bm)" using ub by (simp add: word_less_nat_alt)
    moreover have "of_nat j = i" using i(2) by simp
    ultimately show "j \<in> {j. j < unat (nbits bm) \<and> bit_in bm j}" using i(1) bit(1) [OF lt] by simp
  qed
  finally have c: "(\<Union>(a, b) \<in> set (runs bm 0). {a..<b}) = unat ` used bm" .
  have "apart 0 (runs bm 0)" using ok [THEN conjunct1] by (cases "runs bm 0") (auto split: if_splits)
  moreover have "\<forall>l \<in> set (lay_out (runs bm 0) '' '' False). length l \<le> 79"
  proof (rule lay_out_width)
    fix a b assume ab: "(a, b) \<in> set (runs bm 0)"
    have lt: "a < b" using apart_nonempty [OF \<open>apart 0 (runs bm 0)\<close> ab] .
    then have "b - 1 \<in> (\<Union>(a, b) \<in> set (runs bm 0). {a..<b})" using ab by fastforce
    then have "b - 1 < unat (nbits bm)" unfolding cover by simp
    then have "b \<le> 2 ^ 32" using unat_less_2p [of "nbits bm"] by simp
    with lt show "length (run_text a b) \<le> 21" by (intro length_run_text)
  qed simp
  ultimately show ?thesis unfolding print_runs_def runs_loop_runs using c by (intro exI [of _ "runs bm 0"] conjI refl)
qed

end
