(* ===== verification/Shell.thy ===== *)
theory Shell
  imports Shell_Text Outcomes Vfs_Calls Mkfs "HOL-Library.List_Lexorder"
begin

text \<open>
  \<^verbatim>\<open>src/tools/vfs_shell.cpp\<close>, the commands, and \<^verbatim>\<open>src/src/version.cpp\<close>. The state is what the process shares
  with the world: the gate and the session of \<^verbatim>\<open>vfs_mount\<close>, and what has gone to the standard
  output and the standard error. \<^term>\<open>sh_local\<close> is the host's time zone and \<^term>\<open>clock\<close> its clock. A
  command gets the arguments after its name and returns the exit status.
\<close>

record shell =
  sh_gate :: mount_gate
  sh_ses :: session
  sh_out :: string
  sh_err :: string
  sh_local :: "u64 \<Rightarrow> string option"

section \<open>Parts of the state\<close>

definition on_session :: "(mount_gate \<times> session, 'a) op \<Rightarrow> (shell, 'a) op" where
  "on_session = zoomE (\<lambda>s. (sh_gate s, sh_ses s)) (\<lambda>(g, ses) s. s\<lparr>sh_gate := g, sh_ses := ses\<rparr>)"

text \<open>Work on the host's files, which the commands do while nothing is mounted.\<close>

definition on_world :: "(world, 'a) op \<Rightarrow> (shell, 'a) op" where
  "on_world m = (\<lambda>s. case sh_ses s of
       Unmounted w \<Rightarrow> (case m w of (r, w') \<Rightarrow> (r, s\<lparr>sh_ses := Unmounted w'\<rparr>))
     | Mounted raw sy fs \<Rightarrow> (Halted Faults, s))"

text \<open>A call of the API. Without a mount the gate is closed, and no call gets as far as a disk.\<close>

definition no_disk :: "disk device" where
  "no_disk = disk_of \<lparr>pd_fd = 0, pd_count = 0\<rparr> False"

definition call_fs :: "(disk device \<Rightarrow> (engine vfs, 'a) op) \<Rightarrow> (shell, 'a) op" where
  "call_fs f = (\<lambda>s. case sh_ses s of
       Mounted raw sy fs \<Rightarrow> (case f (disk_of raw sy) \<lparr>g_gate = sh_gate s, g_fs = Some fs\<rparr> of
           (r, v) \<Rightarrow> (r, s\<lparr>sh_gate := g_gate v, sh_ses := Mounted raw sy (case g_fs v of Some fs' \<Rightarrow> fs' | None \<Rightarrow> fs)\<rparr>))
     | Unmounted w \<Rightarrow> (case f no_disk \<lparr>g_gate = sh_gate s, g_fs = None\<rparr> of (r, v) \<Rightarrow> (r, s\<lparr>sh_gate := g_gate v\<rparr>)))"

definition text_line :: "string \<Rightarrow> string" where
  "text_line t = t @ [CHR 0x0A]"

definition print_out :: "string \<Rightarrow> (shell, unit) op" where
  "print_out t = modE (\<lambda>s. s\<lparr>sh_out := sh_out s @ t\<rparr>)"

definition print_err :: "string \<Rightarrow> (shell, unit) op" where
  "print_err t = modE (\<lambda>s. s\<lparr>sh_err := sh_err s @ t\<rparr>)"

definition print_line :: "string \<Rightarrow> (shell, unit) op" where
  "print_line t = print_out (text_line t)"

definition usage_error :: "string \<Rightarrow> (shell, 'a) op" where
  "usage_error t = throwE (UsageError t)"

text \<open>Conversions of \<^verbatim>\<open>printf\<close>: \<^verbatim>\<open>%08x\<close>, \<^verbatim>\<open>%04o\<close> and \<^verbatim>\<open>%-5s\<close>.\<close>

fun hex :: "nat \<Rightarrow> string" where
  "hex n = (let d = (\<lambda>k. char_of (if k < 10 then 48 + k else 87 + k)) in
     if n < 16 then [d n] else hex (n div 16) @ [d (n mod 16)])"

declare hex.simps [simp del]

definition zero_pad :: "nat \<Rightarrow> string \<Rightarrow> string" where
  "zero_pad n t = replicate (n - length t) (CHR ''0'') @ t"

definition left_in :: "nat \<Rightarrow> string \<Rightarrow> string" where
  "left_in n t = t @ replicate (n - length t) (CHR '' '')"

section \<open>Mounting\<close>

definition log_path :: "bytes \<Rightarrow> bytes" where
  "log_path img = img @ str_bytes ''.log''"

definition must :: "int \<Rightarrow> (shell, int) op" where
  "must rc = (if rc < 0 then throwE (RuntimeError (vfs_strerror rc)) else retE rc)"

text \<open>The class \<^verbatim>\<open>Mounted\<close>: the constructor mounts; \<^verbatim>\<open>unmount()\<close>, which every command calls last,
  reports a failed final commit; the destructor unmounts when the command has thrown before.\<close>

definition mounted :: "(nat \<Rightarrow> u64) \<Rightarrow> bytes \<Rightarrow> (shell, 'a) op \<Rightarrow> (shell, 'a) op" where
  "mounted clock img body =
     bindE (on_session (vfs_mount (Some img) (Some (log_path img)) None clock)) (\<lambda>rc.
     if rc < 0 then throwE (RuntimeError (''cannot mount '' @ text_of img @ '': '' @ vfs_strerror rc))
     else bindE (cleanupE body (thenE (on_session vfs_unmount) (retE ()))) (\<lambda>x.
          thenE (bindE (on_session vfs_unmount) must) (retE x)))"

section \<open>mkfs\<close>

text \<open>The loop over the arguments: the path, the size and the number of inodes.\<close>

fun mkfs_args :: "bytes list \<Rightarrow> bytes option \<Rightarrow> bytes option \<Rightarrow> u32 \<Rightarrow> exn + (bytes option \<times> bytes option \<times> u32)" where
  "mkfs_args [] path size_text inodes = Inr (path, size_text, inodes)"
| "mkfs_args (arg # argv) path size_text inodes =
     (if arg = str_bytes ''--inodes''
      then (case argv of
          [] \<Rightarrow> Inl (UsageError ''--inodes needs a number'')
        | v # argv' \<Rightarrow> (case parse_u32 v of
            Inl e \<Rightarrow> Inl e
          | Inr n \<Rightarrow> if n = 0 then Inl (UsageError ''--inodes must be at least 1'')
                     else mkfs_args argv' path size_text n))
      else if path = None then mkfs_args argv (Some arg) size_text inodes
      else if size_text = None then mkfs_args argv path (Some arg) inodes
      else Inl (UsageError (''unexpected argument: '' @ text_of arg)))"

text \<open>What the command line asks for: the path, the size in bytes and the number of inodes.\<close>

definition mkfs_line :: "bytes list \<Rightarrow> exn + (bytes \<times> u64 \<times> u32)" where
  "mkfs_line argv = (case mkfs_args argv None None 0 of
       Inl e \<Rightarrow> Inl e
     | Inr (Some path, Some size_text, inodes) \<Rightarrow> (case parse_size size_text of
         Inl e \<Rightarrow> Inl e
       | Inr bs \<Rightarrow>
           if bs = 0 \<or> bs mod 4096 \<noteq> 0 then Inl (UsageError ''the size must be a whole number of 4096-byte blocks'')
           else if bs div 4096 > 0xFFFFFFFF then Inl (UsageError ''too large: block numbers are 32 bits'')
           else Inr (path, bs, inodes))
     | Inr _ \<Rightarrow> Inl (UsageError ''needs an image path and a size''))"

definition cmd_mkfs :: "(nat \<Rightarrow> u64) \<Rightarrow> bytes list \<Rightarrow> (shell, int) op" where
  "cmd_mkfs clock argv =
     bindE (liftE (mkfs_line argv)) (\<lambda>(path, bs, inodes).
     let blocks = ucast (bs div 4096) in
     thenE (bindE (liftE (plan_layout blocks inodes)) (\<lambda>_. retE ()))
    (bindE (on_world (pd_create path blocks)) (\<lambda>dev.
     bindE (on_world (cleanupE (mkfs (pread_device dev) inodes (clock 0)) (modE (posix_remove path)))) (\<lambda>sb.
     thenE (on_world (modE (posix_remove (log_path path))))
    (thenE (print_line (''formatted '' @ text_of path))
    (thenE (print_line (''  size         '' @ human_size bs @ '', '' @ str32 (total_blocks sb) @ '' blocks of '' @ to_string BLOCK_SIZE @ '' bytes''))
    (thenE (print_line (''  inodes       '' @ str32 (inode_count sb)))
    (thenE (print_line (''  data blocks  '' @ str32 (total_blocks sb - data_start sb) @ '', from block '' @ str32 (data_start sb)))
    (thenE (print_line (''  root         inode '' @ str32 (root_inode sb) @ '', its directory in block '' @ str32 (data_start sb)))
    (retE 0))))))))))"

section \<open>dump\<close>

definition dump_super :: "pread_dev \<Rightarrow> (shell, int) op" where
  "dump_super dev =
     bindE (on_world (read_block (pread_device dev) 0)) (\<lambda>b.
     let sb = decode_superblock b;
         magic_text = text_of (map (\<lambda>c. if isprint c then c else 46) (take 4 b))
     in
     thenE (print_line ''superblock, block 0'')
    (thenE (print_line (''  magic                0x'' @ zero_pad 8 (hex (unat (magic sb))) @ '' '' @ quoted magic_text))
    (thenE (print_line (''  block size           '' @ str32 (block_size sb)))
    (thenE (print_line (''  total blocks         '' @ str32 (total_blocks sb) @ '' ('' @ human_size (ucast (total_blocks sb) * 4096) @ '')''))
    (thenE (print_line (''  inodes               '' @ str32 (inode_count sb)))
    (thenE (print_line (''  inode bitmap         '' @ block_range (inode_bitmap_start sb) (data_bitmap_start sb)))
    (thenE (print_line (''  data bitmap          '' @ block_range (data_bitmap_start sb) (inode_table_start sb)))
    (thenE (print_line (''  inode table          '' @ block_range (inode_table_start sb) (data_start sb)))
    (thenE (print_line (''  data                 '' @ block_range (data_start sb) (total_blocks sb)))
    (thenE (print_line (''  root inode           '' @ str32 (root_inode sb)))
    (thenE (print_line (''  clean unmount        '' @ (if clean_unmount sb \<noteq> 0 then ''yes'' else ''no'')))
    (thenE (print_line (''  last checkpoint lsn  '' @ to_string (unat (last_checkpoint_lsn sb))))
    (case validate_superblock sb (pd_count dev) of
        Inl e \<Rightarrow> thenE (print_line (''  INVALID: '' @ exn_what e)) (retE 1)
      | Inr _ \<Rightarrow> thenE (print_line ''  valid'') (retE 0))))))))))))))"

definition dump_bitmap :: "pread_dev \<Rightarrow> string \<Rightarrow> string \<Rightarrow> u32 \<Rightarrow> u32 \<Rightarrow> u32 \<Rightarrow> (shell, unit) op" where
  "dump_bitmap dev title things n start stop =
     bindE (on_world (bm_load (pread_device dev) start (bitmap_new n))) (\<lambda>bm.
     thenE (print_line (title @ '' bitmap, '' @ block_range start stop))
    (thenE (print_line (''  '' @ str32 (count_set bm) @ '' of '' @ str32 (nbits bm) @ '' '' @ things @ '' in use:''))
     (forE (print_runs bm) print_line)))"

definition dump_bitmaps :: "pread_dev \<Rightarrow> superblock \<Rightarrow> (shell, unit) op" where
  "dump_bitmaps dev sb =
     thenE (dump_bitmap dev ''inode'' ''inodes'' (inode_count sb) (inode_bitmap_start sb) (data_bitmap_start sb))
     (dump_bitmap dev ''data'' ''blocks'' (total_blocks sb) (data_bitmap_start sb) (inode_table_start sb))"

text \<open>A bit of a bitmap in memory; asking past the end throws.\<close>

definition test_bit :: "u32 \<Rightarrow> bitmap \<Rightarrow> (shell, bool) op" where
  "test_bit i bm = (\<lambda>s. (fst (is_set i bm), s))"

definition pointer_text :: "u32 \<Rightarrow> string" where
  "pointer_text p = (if p \<noteq> 0 then str32 p else ''-'')"

definition direct_text :: "inode \<Rightarrow> string" where
  "direct_text ino = concat (map (\<lambda>i. if direct ino ! i \<noteq> 0 then '' ['' @ to_string i @ ''] '' @ str32 (direct ino ! i) else [])
     [0..<DIRECT_PTRS])"

definition dump_inode :: "pread_dev \<Rightarrow> superblock \<Rightarrow> u32 \<Rightarrow> (shell, unit) op" where
  "dump_inode dev sb ident =
     (if ident \<ge> inode_count sb
      then throwE (OutOfRange (''there is no inode '' @ str32 ident @ '': this disk has '' @ str32 (inode_count sb)))
      else
        bindE (on_world (bm_load (pread_device dev) (inode_bitmap_start sb) (bitmap_new (inode_count sb)))) (\<lambda>bm.
        let blk = inode_block sb ident; off = inode_offset ident in
        bindE (on_world (read_block (pread_device dev) blk)) (\<lambda>b.
        let ino = decode_inode (get_at off INODE_SIZE b) in
        bindE (test_bit ident bm) (\<lambda>taken.
        let st = (if ident = 0 then ''reserved'' else if taken then ''in use'' else ''free'') in
        bindE (getE sh_local) (\<lambda>local_time.
        thenE (print_line (''inode '' @ str32 ident @ '', '' @ st @ '' - block '' @ str32 blk @ '', bytes '' @ to_string off
                 @ ''-'' @ to_string (off + INODE_SIZE - 1)))
       (thenE (print_line (''  id           '' @ str32 (id_of ino)
                 @ (if taken \<and> ident \<noteq> 0 \<and> id_of ino \<noteq> ident then ''  (WRONG: should be '' @ str32 ident @ '')'' else [])))
       (thenE (print_line (''  type         '' @ type_name (mode ino)))
       (thenE (print_line (''  permissions  '' @ zero_pad 4 (octal (unat (mode ino AND MODE_PERM_MASK)))))
       (thenE (print_line (''  links        '' @ to_string (unat (link_count ino))))
       (thenE (print_line (''  size         '' @ to_string (unat (size_of ino)) @ '' bytes''))
       (thenE (print_line (''  blocks       '' @ str32 (block_count ino)))
       (thenE (print_line (''  modified     '' @ format_time local_time (mtime ino)))
       (thenE (print_line (''  direct      '' @ (if direct_text ino = [] then '' -'' else direct_text ino)))
       (thenE (print_line (''  indirect     '' @ pointer_text (single_indirect ino)))
        (print_line (''  double ind.  '' @ pointer_text (double_indirect ino)))))))))))))))))"

datatype what = What_super | What_bitmaps | What_inode u32

fun dump_args :: "bytes list \<Rightarrow> exn + what list" where
  "dump_args [] = Inr []"
| "dump_args (arg # argv) =
     (if arg = str_bytes ''--super'' then map_sum (\<lambda>e. e) (\<lambda>ws. What_super # ws) (dump_args argv)
      else if arg = str_bytes ''--bitmaps'' then map_sum (\<lambda>e. e) (\<lambda>ws. What_bitmaps # ws) (dump_args argv)
      else if arg = str_bytes ''--inode''
      then (case argv of
          [] \<Rightarrow> Inl (UsageError ''--inode needs an inode number'')
        | v # argv' \<Rightarrow> (case parse_u32 v of
            Inl e \<Rightarrow> Inl e
          | Inr n \<Rightarrow> map_sum (\<lambda>e. e) (\<lambda>ws. What_inode n # ws) (dump_args argv')))
      else Inl (UsageError (''unknown option: '' @ text_of arg)))"

definition dump_one :: "pread_dev \<Rightarrow> what \<Rightarrow> (shell, int) op" where
  "dump_one dev w = (case w of
       What_super \<Rightarrow> dump_super dev
     | What_bitmaps \<Rightarrow> bindE (on_world (read_superblock (pread_device dev))) (\<lambda>sb. thenE (dump_bitmaps dev sb) (retE 0))
     | What_inode n \<Rightarrow> bindE (on_world (read_superblock (pread_device dev))) (\<lambda>sb. thenE (dump_inode dev sb n) (retE 0)))"

text \<open>The statuses are zeros and ones, so the source's \<^verbatim>\<open>|=\<close> is their maximum.\<close>

definition cmd_dump :: "bytes list \<Rightarrow> (shell, int) op" where
  "cmd_dump argv = (case argv of
       [] \<Rightarrow> usage_error ''needs an image path''
     | img # opts \<Rightarrow>
         bindE (liftE (dump_args opts)) (\<lambda>ws.
         let wanted = (if ws = [] then [What_super] else ws) in
         bindE (on_world (pd_open img)) (\<lambda>dev.
         foldE (enumerate 0 wanted) (\<lambda>st (i, w).
           thenE (whenE (i > 0) (print_line []))
          (bindE (dump_one dev w) (\<lambda>r. retE (max st r)))) 0)))"

section \<open>File commands\<close>

definition is_dir_mode :: "u16 \<Rightarrow> bool" where
  "is_dir_mode md \<longleftrightarrow> md AND MODE_TYPE_MASK = MODE_DIR"

definition sh_mkdir :: "bytes \<Rightarrow> (shell, int) op" where
  "sh_mkdir path = call_fs (\<lambda>dev. vfs_mkdir (engine_journal dev) 0 (Some path))"

text \<open>\<^verbatim>\<open>must(vfs_stat(path, &st))\<close>\<close>

definition sh_stat :: "bytes \<Rightarrow> (shell, vfs_stat_buf option) op" where
  "sh_stat path =
     bindE (call_fs (\<lambda>dev. vfs_stat (engine_journal dev) 0 (Some path) False)) (\<lambda>(rc, st).
     thenE (must rc) (retE st))"

definition stat_is_dir :: "vfs_stat_buf option \<Rightarrow> bool" where
  "stat_is_dir st = (case st of Some x \<Rightarrow> is_dir_mode (vs_mode x) | None \<Rightarrow> False)"

text \<open>One turn of the loop of \<^verbatim>\<open>mkdir -p\<close>: a prefix that ends before a slash or at the end.\<close>

definition mkdir_prefix :: "bytes \<Rightarrow> nat \<Rightarrow> (shell, unit) op" where
  "mkdir_prefix path at =
     (if at < length path \<and> path ! at \<noteq> 47 then retE ()
      else
        let pre = take at path in
        bindE (sh_mkdir pre) (\<lambda>rc.
        if rc = - VFS_EEXIST
        then bindE (sh_stat pre) (\<lambda>st.
             if \<not> stat_is_dir st then throwE (RuntimeError (text_of pre @ '': '' @ vfs_strerror VFS_ENOTDIR))
             else retE ())
        else thenE (must rc) (retE ())))"

definition cmd_mkdir :: "(nat \<Rightarrow> u64) \<Rightarrow> bytes list \<Rightarrow> (shell, int) op" where
  "cmd_mkdir clock argv =
     (let parents = (str_bytes ''-p'' \<in> set argv); args = filter (\<lambda>a. a \<noteq> str_bytes ''-p'') argv in
      if length args \<noteq> 2 then usage_error ''needs an image and a path''
      else let path = args ! 1 in
        mounted clock (args ! 0)
         (thenE (if \<not> parents then thenE (bindE (sh_mkdir path) must) (retE ())
                 else forE [1..<length path + 1] (mkdir_prefix path))
         (retE 0)))"

text \<open>The bytes before the first zero, and the order of \<^verbatim>\<open>strcmp\<close>.\<close>

definition c_str :: "bytes \<Rightarrow> bytes" where
  "c_str b = takeWhile (\<lambda>c. c \<noteq> 0) b"

definition name_key :: "vfs_dirent \<Rightarrow> nat list" where
  "name_key e = map unat (c_str (vd_name e))"

definition zero_dirent :: vfs_dirent where
  "zero_dirent = \<lparr>vd_inode = 0, vd_type = 0, vd_name = replicate 59 0\<rparr>"

definition sh_readdir :: "bytes \<Rightarrow> bool \<Rightarrow> nat \<Rightarrow> (shell, int \<times> vfs_dirent list) op" where
  "sh_readdir path null_out n =
     bindE (call_fs (\<lambda>dev. vfs_readdir (engine_journal dev) 0 (Some path) null_out n)) (\<lambda>(rc, es).
     thenE (must rc) (retE (rc, es)))"

definition list_entry :: "vfs_dirent \<Rightarrow> (shell, unit) op" where
  "list_entry e =
     (let nm = c_str (vd_name e) in
      if nm = str_bytes ''.'' \<or> nm = str_bytes ''..'' then retE ()
      else print_line (text_of nm @ (if vd_type e = FT_DIR then ''/'' else [])))"

definition cmd_ls :: "(nat \<Rightarrow> u64) \<Rightarrow> bytes list \<Rightarrow> (shell, int) op" where
  "cmd_ls clock argv =
     (if length argv < 1 \<or> length argv > 2 then usage_error ''needs an image, and optionally a path''
      else let path = (if length argv = 2 then argv ! 1 else str_bytes ''/'') in
        mounted clock (argv ! 0)
         (bindE (sh_stat path) (\<lambda>st.
          thenE (if \<not> stat_is_dir st then print_line (text_of path)
                 else bindE (sh_readdir path True 0) (\<lambda>(count, _).
                      bindE (sh_readdir path False (nat count)) (\<lambda>(got, es).
                      let entries = take (nat (min got count)) (es @ replicate (nat count) zero_dirent)
                      in forE (sort_key name_key entries) list_entry)))
          (retE 0))))"

text \<open>
  The loop of \<^verbatim>\<open>cat\<close>, with fuel: every read that returns bytes moves the offset, a 64-bit number, up
  without wrapping around, so \<^term>\<open>2 ^ 64\<close> turns are enough.
\<close>

fun cat_loop :: "nat \<Rightarrow> int \<Rightarrow> (shell, unit) op" where
  "cat_loop 0 fd = haltE Spins"
| "cat_loop (Suc fuel) fd =
     bindE (call_fs (\<lambda>dev. vfs_read (engine_journal dev) 0 fd False (64 * 1024))) (\<lambda>(n, bs).
     thenE (must n)
     (if n = 0 then retE () else thenE (print_out (text_of bs)) (cat_loop fuel fd)))"

definition sh_open :: "bytes \<Rightarrow> u32 \<Rightarrow> (shell, int) op" where
  "sh_open path flags = bindE (call_fs (\<lambda>dev. vfs_open (engine_journal dev) 0 (Some path) flags)) must"

definition sh_close :: "int \<Rightarrow> (shell, int) op" where
  "sh_close fd = bindE (call_fs (\<lambda>dev. vfs_close 0 fd)) must"

definition CAT_FUEL :: nat where "CAT_FUEL = 2 ^ 64"

definition cmd_cat :: "(nat \<Rightarrow> u64) \<Rightarrow> bytes list \<Rightarrow> (shell, int) op" where
  "cmd_cat clock argv =
     (if length argv \<noteq> 2 then usage_error ''needs an image and a path''
      else mounted clock (argv ! 0)
         (bindE (sh_open (argv ! 1) VFS_O_RDONLY) (\<lambda>fd.
          thenE (cat_loop CAT_FUEL fd)
         (thenE (sh_close fd) (retE 0)))))"

text \<open>The words of the text with a space between them, and a newline.\<close>

fun join_words :: "bytes list \<Rightarrow> bytes" where
  "join_words [] = []"
| "join_words [w] = w"
| "join_words (w # ws) = w @ 32 # join_words ws"

text \<open>The loop of \<^verbatim>\<open>write\<close>, with fuel: a call that does not fail writes at least one byte.\<close>

fun write_all :: "nat \<Rightarrow> int \<Rightarrow> bytes \<Rightarrow> nat \<Rightarrow> (shell, unit) op" where
  "write_all 0 fd src done = haltE Spins"
| "write_all (Suc fuel) fd src done =
     (if done < length src
      then bindE (call_fs (\<lambda>dev. vfs_write (engine_journal dev) 0 fd False (drop done src))) (\<lambda>n.
           thenE (must n) (write_all fuel fd src (done + nat n)))
      else retE ())"

definition cmd_write :: "(nat \<Rightarrow> u64) \<Rightarrow> bytes list \<Rightarrow> (shell, int) op" where
  "cmd_write clock argv =
     (if length argv < 3 then usage_error ''needs an image, a path and some text''
      else let src = join_words (drop 2 argv) @ [10] in
        mounted clock (argv ! 0)
         (bindE (sh_open (argv ! 1) (VFS_O_WRONLY OR VFS_O_CREAT OR VFS_O_TRUNC)) (\<lambda>fd.
          thenE (write_all (length src + 1) fd src 0)
         (thenE (sh_close fd) (retE 0)))))"

definition cmd_rm :: "(nat \<Rightarrow> u64) \<Rightarrow> bytes list \<Rightarrow> (shell, int) op" where
  "cmd_rm clock argv =
     (if length argv \<noteq> 2 then usage_error ''needs an image and a path''
      else mounted clock (argv ! 0)
         (bindE (sh_stat (argv ! 1)) (\<lambda>st.
          thenE (bindE (call_fs (\<lambda>dev. (if stat_is_dir st then vfs_rmdir else vfs_unlink) (engine_journal dev) 0 (Some (argv ! 1)))) must)
          (retE 0))))"

definition plural :: "nat \<Rightarrow> string" where
  "plural n = (if n = 1 then [] else ''s'')"

definition cmd_sync :: "(nat \<Rightarrow> u64) \<Rightarrow> bytes list \<Rightarrow> (shell, int) op" where
  "cmd_sync clock argv =
     (if length argv \<noteq> 1 then usage_error ''needs an image''
      else let img = argv ! 0 in
        thenE (mounted clock img
         (bindE (call_fs (\<lambda>dev. vfs_get_stats 0)) (\<lambda>stats.
          let txns = unat (vt_recovered_txns stats) in
          thenE (if txns > 0
                 then print_line (text_of img @ '': replayed '' @ to_string txns @ '' transaction'' @ plural txns
                        @ '' ('' @ to_string (unat (vt_recovered_blocks stats)) @ '' blocks) from '' @ text_of (log_path img))
                 else print_line (text_of img @ '': nothing to replay''))
          (bindE (call_fs (\<lambda>dev. vfs_sync dev 0)) must))))
       (thenE (print_line (text_of img @ '': everything written back, log empty''))
        (retE 0)))"

definition cmd_fsck :: "(nat \<Rightarrow> u64) \<Rightarrow> bytes list \<Rightarrow> (shell, int) op" where
  "cmd_fsck clock argv =
     (if length argv \<noteq> 1 then usage_error ''needs an image''
      else let img = argv ! 0 in
        thenE (mounted clock img (retE ()))
       (bindE (on_world (pd_open img)) (\<lambda>dev.
        bindE (on_world (fsck (pread_device dev))) (\<lambda>r.
        thenE (forE (problems r) (\<lambda>p. print_line (''  '' @ p)))
        (if problems r = []
         then thenE (print_line (text_of img @ '': clean (files '' @ str32 (r_files r) @ '', directories '' @ str32 (r_directories r)
                 @ '', inodes in use '' @ str32 (inodes_used r) @ '', blocks in use '' @ str32 (blocks_used r) @ '')''))
              (retE 0)
         else thenE (print_line (text_of img @ '': '' @ to_string (length (problems r)) @ '' problem'' @ plural (length (problems r))))
              (retE 1))))))"

section \<open>The program\<close>

record command =
  c_name :: string
  c_args :: string
  c_help :: string
  c_run :: "bytes list \<Rightarrow> (shell, int) op"

definition commands :: "(nat \<Rightarrow> u64) \<Rightarrow> command list" where
  "commands clock =
     [\<lparr>c_name = ''mkfs'', c_args = ''<image> <size> [--inodes N]'', c_help = ''format a new disk image'', c_run = cmd_mkfs clock\<rparr>,
      \<lparr>c_name = ''dump'', c_args = ''<image> [--super] [--bitmaps] [--inode N]...'',
        c_help = ''print the superblock, bitmaps or an inode'', c_run = cmd_dump\<rparr>,
      \<lparr>c_name = ''mkdir'', c_args = ''<image> [-p] <path>'', c_help = ''create a directory'', c_run = cmd_mkdir clock\<rparr>,
      \<lparr>c_name = ''ls'', c_args = ''<image> [path]'', c_help = ''list a directory'', c_run = cmd_ls clock\<rparr>,
      \<lparr>c_name = ''cat'', c_args = ''<image> <path>'', c_help = ''print a file'', c_run = cmd_cat clock\<rparr>,
      \<lparr>c_name = ''write'', c_args = ''<image> <path> <text>...'', c_help = ''write text into a file, replacing it'',
        c_run = cmd_write clock\<rparr>,
      \<lparr>c_name = ''rm'', c_args = ''<image> <path>'', c_help = ''remove a file or an empty directory'', c_run = cmd_rm clock\<rparr>,
      \<lparr>c_name = ''sync'', c_args = ''<image>'', c_help = ''replay the log if needed, write it all back'', c_run = cmd_sync clock\<rparr>,
      \<lparr>c_name = ''fsck'', c_args = ''<image>'', c_help = ''check the image for damage'', c_run = cmd_fsck clock\<rparr>]"

definition version_string :: string where
  "version_string = ''ConcurrentFS'' @ '' '' @ to_string 1 @ ''.'' @ to_string 0 @ '' ('' @ ''all ten stages'' @ '')''"

definition print_usage :: "command list \<Rightarrow> (shell, unit) op" where
  "print_usage cs =
     thenE (print_out (text_line (text_line version_string)))
    (thenE (print_out (text_line (text_line ''usage: vfs_shell [--version] [--help] <command> <image> [args]'')))
    (thenE (print_line ''commands:'')
    (thenE (forE cs (\<lambda>c. print_line (''  '' @ left_in 5 (c_name c) @ ''  '' @ left_in 46 (c_args c) @ '' '' @ c_help c)))
    (thenE (print_out (CHR 0x0A # text_line ''sizes are in bytes, or end in K, M or G: 256M''))
     (print_line ''each image's write-ahead log lives next to it, in <image>.log'')))))"

text \<open>The exceptions of a command become an exit status.\<close>

definition run_command :: "command \<Rightarrow> bytes list \<Rightarrow> (shell, int) op" where
  "run_command c argv = catchE (c_run c argv) (\<lambda>e. case e of
       UsageError m \<Rightarrow>
         thenE (print_err (text_line (''vfs_shell '' @ c_name c @ '': '' @ m)))
        (thenE (print_err (text_line (''usage: vfs_shell '' @ c_name c @ '' '' @ c_args c)))
         (retE 2))
     | _ \<Rightarrow> thenE (print_err (text_line (''vfs_shell '' @ c_name c @ '': '' @ exn_what e))) (retE 1))"

text \<open>\<^verbatim>\<open>main\<close>, with the arguments after the program's name.\<close>

definition shell_main :: "(nat \<Rightarrow> u64) \<Rightarrow> bytes list \<Rightarrow> (shell, int) op" where
  "shell_main clock argv = (case argv of
       [] \<Rightarrow> thenE (print_usage (commands clock)) (retE 0)
     | arg # args \<Rightarrow>
         if arg \<in> {str_bytes ''--version'', str_bytes ''-v''} then thenE (print_line version_string) (retE 0)
         else if arg \<in> {str_bytes ''--help'', str_bytes ''-h''} then thenE (print_usage (commands clock)) (retE 0)
         else (case find (\<lambda>c. str_bytes (c_name c) = arg) (commands clock) of
             Some c \<Rightarrow> run_command c args
           | None \<Rightarrow>
               thenE (print_err (text_line (''vfs_shell: unknown command '' @ [CHR 0x27] @ text_of arg @ [CHR 0x27])))
              (thenE (print_err (text_line ''try: vfs_shell --help''))
               (retE 1))))"

section \<open>Malformed command lines\<close>

text \<open>What the commands accept as arguments, written down apart from the commands.\<close>

definition well_formed :: "string \<Rightarrow> bytes list \<Rightarrow> bool" where
  "well_formed nm args \<longleftrightarrow>
     (nm = ''mkfs'' \<and> (\<exists>x. mkfs_line args = Inr x)) \<or>
     (nm = ''dump'' \<and> args \<noteq> [] \<and> (\<exists>ws. dump_args (tl args) = Inr ws)) \<or>
     (nm = ''mkdir'' \<and> length (filter (\<lambda>a. a \<noteq> str_bytes ''-p'') args) = 2) \<or>
     (nm = ''ls'' \<and> 1 \<le> length args \<and> length args \<le> 2) \<or>
     (nm \<in> {''cat'', ''rm''} \<and> length args = 2) \<or>
     (nm = ''write'' \<and> 3 \<le> length args) \<or>
     (nm \<in> {''sync'', ''fsck''} \<and> length args = 1)"

definition is_usage :: "exn \<Rightarrow> bool" where
  "is_usage e \<longleftrightarrow> (\<exists>m. e = UsageError m \<and> m \<noteq> [])"

lemma parse_usage: "parse_u32 t = Inl e \<Longrightarrow> is_usage e" "parse_size t = Inl e \<Longrightarrow> is_usage e"
  by (auto simp: parse_u32_def parse_size_def parse_digits_value is_usage_def split: prod.splits if_splits)

lemma mkfs_args_usage: "mkfs_args argv p z n = Inl e \<Longrightarrow> is_usage e"
  by (induction argv p z n rule: mkfs_args.induct)
     (auto simp: is_usage_def dest: parse_usage split: if_splits list.splits sum.splits)

lemma mkfs_line_usage: "mkfs_line argv = Inl e \<Longrightarrow> is_usage e"
  unfolding mkfs_line_def using mkfs_args_usage parse_usage(2)
  by (auto simp: is_usage_def split: sum.splits prod.splits option.splits if_splits)

lemma dump_args_usage: "dump_args argv = Inl e \<Longrightarrow> is_usage e"
proof (induction argv rule: dump_args.induct)
  case (2 arg argv)
  then show ?case
    by (auto simp: is_usage_def map_sum_def dest: parse_usage split: if_splits list.splits sum.splits)
qed simp

lemma malformed_mkfs:
  assumes "\<nexists>x. mkfs_line args = Inr x"
  shows "\<exists>m. m \<noteq> [] \<and> cmd_mkfs clock args s = (Raise (UsageError m), s)"
proof -
  from assms obtain e where e: "mkfs_line args = Inl e" by (cases "mkfs_line args") auto
  from mkfs_line_usage [OF this] obtain m where "e = UsageError m" "m \<noteq> []" by (auto simp: is_usage_def)
  then show ?thesis by (simp add: cmd_mkfs_def e bindE_def)
qed

lemma malformed_dump:
  assumes "args = [] \<or> (\<nexists>ws. dump_args (tl args) = Inr ws)"
  shows "\<exists>m. m \<noteq> [] \<and> cmd_dump args s = (Raise (UsageError m), s)"
proof (cases args)
  case (Cons img opts)
  with assms obtain e where e: "dump_args opts = Inl e" by (cases "dump_args opts") auto
  from dump_args_usage [OF this] obtain m where "e = UsageError m" "m \<noteq> []" by (auto simp: is_usage_def)
  then show ?thesis by (simp add: cmd_dump_def Cons e bindE_def)
qed (simp add: cmd_dump_def usage_error_def)

lemma malformed_files:
  "length (filter (\<lambda>a. a \<noteq> str_bytes ''-p'') args) \<noteq> 2 \<Longrightarrow> \<exists>m. m \<noteq> [] \<and> cmd_mkdir clock args s = (Raise (UsageError m), s)"
  "\<not> (1 \<le> length args \<and> length args \<le> 2) \<Longrightarrow> \<exists>m. m \<noteq> [] \<and> cmd_ls clock args s = (Raise (UsageError m), s)"
  "length args \<noteq> 2 \<Longrightarrow> \<exists>m. m \<noteq> [] \<and> cmd_cat clock args s = (Raise (UsageError m), s)"
  "\<not> 3 \<le> length args \<Longrightarrow> \<exists>m. m \<noteq> [] \<and> cmd_write clock args s = (Raise (UsageError m), s)"
  "length args \<noteq> 2 \<Longrightarrow> \<exists>m. m \<noteq> [] \<and> cmd_rm clock args s = (Raise (UsageError m), s)"
  "length args \<noteq> 1 \<Longrightarrow> \<exists>m. m \<noteq> [] \<and> cmd_sync clock args s = (Raise (UsageError m), s)"
  "length args \<noteq> 1 \<Longrightarrow> \<exists>m. m \<noteq> [] \<and> cmd_fsck clock args s = (Raise (UsageError m), s)"
  by (simp_all add: cmd_mkdir_def cmd_ls_def cmd_cat_def cmd_write_def cmd_rm_def cmd_sync_def cmd_fsck_def usage_error_def Let_def
      not_le Suc_le_eq)

lemma malformed_command:
  assumes "c \<in> set (commands clock)" and "\<not> well_formed (c_name c) args"
  shows "\<exists>m. m \<noteq> [] \<and> c_run c args s = (Raise (UsageError m), s)"
proof -
  have "map (\<lambda>c. (c_name c, c_run c)) (commands clock) =
     [(''mkfs'', cmd_mkfs clock), (''dump'', cmd_dump), (''mkdir'', cmd_mkdir clock), (''ls'', cmd_ls clock),
      (''cat'', cmd_cat clock), (''write'', cmd_write clock), (''rm'', cmd_rm clock), (''sync'', cmd_sync clock), (''fsck'', cmd_fsck clock)]"
    by (simp add: commands_def)
  moreover have "(c_name c, c_run c) \<in> set (map (\<lambda>c. (c_name c, c_run c)) (commands clock))"
    unfolding set_map using assms(1) by (rule imageI)
  ultimately have "(c_name c, c_run c) \<in> set
     [(''mkfs'', cmd_mkfs clock), (''dump'', cmd_dump), (''mkdir'', cmd_mkdir clock), (''ls'', cmd_ls clock),
      (''cat'', cmd_cat clock), (''write'', cmd_write clock), (''rm'', cmd_rm clock), (''sync'', cmd_sync clock), (''fsck'', cmd_fsck clock)]"
    by (rule subst)
  then show ?thesis
    unfolding list.set insert_iff empty_iff prod.inject
  proof (elim disjE conjE)
    assume n: "c_name c = ''mkfs''" and r: "c_run c = cmd_mkfs clock"
    have "\<nexists>x. mkfs_line args = Inr x" using assms(2) by (simp add: n well_formed_def)
    then show ?thesis unfolding r by (rule malformed_mkfs)
  next
    assume n: "c_name c = ''dump''" and r: "c_run c = cmd_dump"
    have "args = [] \<or> (\<nexists>ws. dump_args (tl args) = Inr ws)" using assms(2) by (simp add: n well_formed_def)
    then show ?thesis unfolding r by (rule malformed_dump)
  next
    assume n: "c_name c = ''mkdir''" and r: "c_run c = cmd_mkdir clock"
    have "length (filter (\<lambda>a. a \<noteq> str_bytes ''-p'') args) \<noteq> 2" using assms(2) by (simp add: n well_formed_def)
    then show ?thesis unfolding r by (rule malformed_files(1))
  next
    assume n: "c_name c = ''ls''" and r: "c_run c = cmd_ls clock"
    have "\<not> (1 \<le> length args \<and> length args \<le> 2)" using assms(2) by (simp add: n well_formed_def)
    then show ?thesis unfolding r by (rule malformed_files(2))
  next
    assume n: "c_name c = ''cat''" and r: "c_run c = cmd_cat clock"
    have "length args \<noteq> 2" using assms(2) by (simp add: n well_formed_def)
    then show ?thesis unfolding r by (rule malformed_files(3))
  next
    assume n: "c_name c = ''write''" and r: "c_run c = cmd_write clock"
    have "\<not> 3 \<le> length args" using assms(2) by (simp add: n well_formed_def)
    then show ?thesis unfolding r by (rule malformed_files(4))
  next
    assume n: "c_name c = ''rm''" and r: "c_run c = cmd_rm clock"
    have "length args \<noteq> 2" using assms(2) by (simp add: n well_formed_def)
    then show ?thesis unfolding r by (rule malformed_files(5))
  next
    assume n: "c_name c = ''sync''" and r: "c_run c = cmd_sync clock"
    have "length args \<noteq> 1" using assms(2) by (simp add: n well_formed_def)
    then show ?thesis unfolding r by (rule malformed_files(6))
  next
    assume n: "c_name c = ''fsck''" and r: "c_run c = cmd_fsck clock"
    have "length args \<noteq> 1" using assms(2) by (simp add: n well_formed_def)
    then show ?thesis unfolding r by (rule malformed_files(7))
  qed simp
qed

text \<open>
  C39. A command line that is not understood changes nothing. If the command is unknown, \<^verbatim>\<open>main\<close> says on
  the standard error which it was and how to get help, and ends with status 1; if its arguments are
  not what it accepts, a message that names the command and what is wrong, and the line that shows
  its usage, are written there and the status is 2. No file has been opened or created, nothing
  mounted and nothing printed on the standard output.
\<close>

theorem malformed_line_changes_nothing:
  assumes "arg \<notin> {str_bytes ''--version'', str_bytes ''-v'', str_bytes ''--help'', str_bytes ''-h''}"
    and "\<not> (\<exists>nm \<in> c_name ` set (commands clock). arg = str_bytes nm \<and> well_formed nm args)"
  shows "if arg \<in> str_bytes ` c_name ` set (commands clock)
    then \<exists>c m. c \<in> set (commands clock) \<and> arg = str_bytes (c_name c) \<and> m \<noteq> [] \<and>
      shell_main clock (arg # args) s = (Ret 2, s\<lparr>sh_err := sh_err s @
        text_line (''vfs_shell '' @ c_name c @ '': '' @ m) @
        text_line (''usage: vfs_shell '' @ c_name c @ '' '' @ c_args c)\<rparr>)
    else shell_main clock (arg # args) s = (Ret 1, s\<lparr>sh_err := sh_err s @
        text_line (''vfs_shell: unknown command '' @ [CHR 0x27] @ text_of arg @ [CHR 0x27]) @
        text_line ''try: vfs_shell --help''\<rparr>)"
proof (cases "find (\<lambda>c. str_bytes (c_name c) = arg) (commands clock)")
  case None
  then have no: "arg \<notin> str_bytes ` c_name ` set (commands clock)" by (auto simp: find_None_iff)
  have "shell_main clock (arg # args) s = (Ret 1, s\<lparr>sh_err := sh_err s @
        text_line (''vfs_shell: unknown command '' @ [CHR 0x27] @ text_of arg @ [CHR 0x27]) @ text_line ''try: vfs_shell --help''\<rparr>)"
    using None assms(1) by (simp add: shell_main_def print_err_def thenE_def bindE_def)
  then show ?thesis unfolding if_not_P [OF no] .
next
  case (Some c)
  then have c: "c \<in> set (commands clock)" "str_bytes (c_name c) = arg" by (auto simp: find_Some_iff in_set_conv_nth)
  then have "\<not> well_formed (c_name c) args" using assms(2) by blast
  from malformed_command [OF c(1) this, of s] obtain m where m: "m \<noteq> []" "c_run c args s = (Raise (UsageError m), s)" by blast
  then have "run_command c args s = (Ret 2, s\<lparr>sh_err := sh_err s @ text_line (''vfs_shell '' @ c_name c @ '': '' @ m) @
      text_line (''usage: vfs_shell '' @ c_name c @ '' '' @ c_args c)\<rparr>)"
    by (simp add: run_command_def catchE_def print_err_def thenE_def bindE_def)
  then have run: "shell_main clock (arg # args) s = (Ret 2, s\<lparr>sh_err := sh_err s @ text_line (''vfs_shell '' @ c_name c @ '': '' @ m) @
      text_line (''usage: vfs_shell '' @ c_name c @ '' '' @ c_args c)\<rparr>)"
    using Some assms(1) by (simp add: shell_main_def)
  have yes: "arg \<in> str_bytes ` c_name ` set (commands clock)" using c by blast
  show ?thesis unfolding if_P [OF yes] by (intro exI [of _ c] exI [of _ m] conjI c c(2) [symmetric] m run)
qed

definition demo_shell :: shell where
  "demo_shell = \<lparr>sh_gate = gate_new, sh_ses = Unmounted small_world, sh_out = [], sh_err = [], sh_local = (\<lambda>_. None)\<rparr>"

theorem malformed_line_changes_nothing_witness:
  "(\<exists>m. m \<noteq> [] \<and> shell_main (\<lambda>_. 0) [str_bytes ''cat'', str_bytes ''disk''] demo_shell =
     (Ret 2, demo_shell\<lparr>sh_err := text_line (''vfs_shell cat: '' @ m) @ text_line ''usage: vfs_shell cat <image> <path>''\<rparr>)) \<and>
   shell_main (\<lambda>_. 0) [str_bytes ''mount''] demo_shell =
     (Ret 1, demo_shell\<lparr>sh_err := text_line (''vfs_shell: unknown command '' @ [CHR 0x27] @ text_of (str_bytes ''mount'') @ [CHR 0x27]) @
        text_line ''try: vfs_shell --help''\<rparr>)"
proof -
  let ?opts = "{str_bytes ''--version'', str_bytes ''-v'', str_bytes ''--help'', str_bytes ''-h''}" and ?cs = "commands (\<lambda>_. 0)"
  have h: "str_bytes ''cat'' \<notin> ?opts"
    "\<not> (\<exists>nm \<in> c_name ` set ?cs. str_bytes ''cat'' = str_bytes nm \<and> well_formed nm [str_bytes ''disk''])"
    by (simp_all add: str_bytes_def commands_def well_formed_def)
  have u: "str_bytes ''mount'' \<notin> ?opts"
    "\<not> (\<exists>nm \<in> c_name ` set ?cs. str_bytes ''mount'' = str_bytes nm \<and> well_formed nm [])"
    by (simp_all add: str_bytes_def commands_def well_formed_def)
  have known: "str_bytes ''cat'' \<in> str_bytes ` c_name ` set ?cs" "str_bytes ''mount'' \<notin> str_bytes ` c_name ` set ?cs"
    by (simp_all add: str_bytes_def commands_def)
  have cat: "c_name c = ''cat'' \<and> c_args c = ''<image> <path>''" if "c \<in> set ?cs" "str_bytes ''cat'' = str_bytes (c_name c)" for c
    using that by (auto simp: commands_def str_bytes_def)
  from malformed_line_changes_nothing [OF h, of demo_shell, unfolded if_P [OF known(1)]] obtain c m where
    c: "c \<in> set ?cs" "str_bytes ''cat'' = str_bytes (c_name c)" and m: "m \<noteq> []" and
    run: "shell_main (\<lambda>_. 0) [str_bytes ''cat'', str_bytes ''disk''] demo_shell = (Ret 2, demo_shell\<lparr>sh_err := sh_err demo_shell @
        text_line (''vfs_shell '' @ c_name c @ '': '' @ m) @ text_line (''usage: vfs_shell '' @ c_name c @ '' '' @ c_args c)\<rparr>)" by blast
  note unknown = malformed_line_changes_nothing [OF u, of demo_shell, unfolded if_not_P [OF known(2)]]
  have "shell_main (\<lambda>_. 0) [str_bytes ''cat'', str_bytes ''disk''] demo_shell =
      (Ret 2, demo_shell\<lparr>sh_err := text_line (''vfs_shell cat: '' @ m) @ text_line ''usage: vfs_shell cat <image> <path>''\<rparr>)"
    using run cat [OF c] by (simp add: demo_shell_def)
  moreover have "shell_main (\<lambda>_. 0) [str_bytes ''mount''] demo_shell =
     (Ret 1, demo_shell\<lparr>sh_err := text_line (''vfs_shell: unknown command '' @ [CHR 0x27] @ text_of (str_bytes ''mount'') @ [CHR 0x27]) @
        text_line ''try: vfs_shell --help''\<rparr>)"
    using unknown by (simp add: demo_shell_def)
  ultimately show ?thesis using m by blast
qed

end
