(* ===== verification/Shell_Loops.thy ===== *)
theory Shell_Loops
  imports Shell Call_Codes
begin

text \<open>
  The loops of \<^verbatim>\<open>cat\<close> and \<^verbatim>\<open>write\<close> end before their fuel does: a read that returns bytes moves the offset
  up, and a write that does not fail writes something.
\<close>

section \<open>A write that does not fail\<close>

lemma write_loop_ge: "write_loop J ino app src fuel done pos s = (Ret (n, at, full), s') \<Longrightarrow> done \<le> n"
proof (induction fuel arbitrary: "done" pos s)
  case (Suc fuel)
  show ?case
  proof (cases "done < length src")
    case True
    with Suc.prems obtain r s1 where "write_chunk J ino app src done pos s = (Ret r, s1)" and
      rest: "(case r of Chunk_break pos \<Rightarrow> retE (done, pos, False)
        | Chunk_done n at disk_full \<Rightarrow> if disk_full then retE (done + n, at, True)
            else write_loop J ino app src fuel (done + n) at) s1 = (Ret (n, at, full), s')"
      by (auto simp: bindE_eq_Ret)
    then show ?thesis using Suc.IH by (cases r) (fastforce split: if_splits)+
  qed (use Suc.prems in simp)
qed simp

lemma first_chunk: "write_chunk J ino app src 0 pos s \<noteq> (Ret (Chunk_break p), s')"
proof
  assume "write_chunk J ino app src 0 pos s = (Ret (Chunk_break p), s')"
  from op_in_fs_eq_Ret [OF this [unfolded write_chunk_body]] obtain t1 t2 where
    "with_unique ino (bindE (file_inode J ino) (chunk_body J ino app src 0 pos)) t1 = (Ret (Chunk_break p), t2)" by blast
  from with_unique_eq_Ret [OF this] obtain i t3 t4 where "chunk_body J ino app src 0 pos i t3 = (Ret (Chunk_break p), t4)"
    by (auto simp: bindE_eq_Ret)
  then show False
    by (auto simp: chunk_body_def Let_def thenE_eq_Ret bindE_eq_Ret fs_error_def split: if_splits prod.splits)
qed

lemma write_loop_some:
  assumes "write_loop J ino app src (Suc fuel) 0 pos s = (Ret (n, at, full), s')" and "src \<noteq> []"
  shows "0 < n \<or> full"
proof -
  from assms obtain r s1 where r: "write_chunk J ino app src 0 pos s = (Ret r, s1)" and
    rest: "(case r of Chunk_break pos \<Rightarrow> retE (0, pos, False)
      | Chunk_done n at disk_full \<Rightarrow> if disk_full then retE (0 + n, at, True)
          else write_loop J ino app src fuel (0 + n) at) s1 = (Ret (n, at, full), s')"
    by (auto simp: bindE_eq_Ret)
  obtain m at' f where m: "r = Chunk_done m at' f" using r first_chunk [of J ino app src pos s] by (cases r) auto
  with write_chunk_progress [OF r [unfolded m]] assms(2) have "\<not> f \<longrightarrow> 0 < m" by simp
  with rest m show ?thesis using write_loop_ge [of J ino app src fuel m at' s1 n at full s'] by (auto split: if_splits)
qed

lemma write_fs_some:
  assumes "vfs_write_fs J fd null_buf buf s = (Ret n, s')" and "buf \<noteq> []"
  shows "0 < n"
proof -
  define src where "src = take SSIZE_MAX buf"
  have src: "src \<noteq> []" using assms(2) by (simp add: src_def SSIZE_MAX_def)
  from assms obtain ino app pos at full s1 s2 m where
    w: "write_loop J ino app src (Suc (length src)) 0 pos s1 = (Ret (m, at, full), s2)" "\<not> (m = 0 \<and> full)" "n = int m"
    unfolding vfs_write_fs_def Let_def src_def [symmetric]
    by (auto simp: bindE_eq_Ret thenE_eq_Ret fs_error_def simp del: write_loop.simps split: if_splits)
  from write_loop_some [OF w(1) src] w(2,3) show ?thesis by auto
qed

lemma error_codes_positive: "c \<in> set error_codes \<Longrightarrow> 0 < c"
  by (auto simp: error_codes_def errno_defs)

lemma write_not_zero:
  assumes "buf \<noteq> []"
  shows "ends (fs_ok stored_ok) (\<lambda>n. n \<noteq> 0) none (vfs_stop engine_stop) (vfs_write (engine_journal (disk_of d sy)) k fd null_buf buf)"
  unfolding vfs_write_def
proof (rule engine.simple_call_value)
  show "ends (\<lambda>s. stored_ok (fs_j s)) (\<lambda>n. n \<noteq> 0) proper (fs_stop engine_stop) (vfs_write_fs (engine_journal (disk_of d sy)) fd null_buf buf)"
  proof (rule endsI)
    fix s n s' assume "stored_ok (fs_j s)" and run: "vfs_write_fs (engine_journal (disk_of d sy)) fd null_buf buf s = (Ret n, s')"
    from endsD(2) [OF engine.file_calls(4) this] write_fs_some [OF run assms] show "n \<noteq> 0 \<and> stored_ok (fs_j s')" by simp
  next
    fix s e s' assume "stored_ok (fs_j s)" "vfs_write_fs (engine_journal (disk_of d sy)) fd null_buf buf s = (Raise e, s')"
    from endsD(3,4) [OF engine.file_calls(4) this] show "proper e \<and> stored_ok (fs_j s')" by simp
  next
    fix s h s' assume "stored_ok (fs_j s)" "vfs_write_fs (engine_journal (disk_of d sy)) fd null_buf buf s = (Halted h, s')"
    from endsH [OF engine.file_calls(4) this] show "h = Crash \<or> fs_stop engine_stop h s'" .
  qed
qed (use error_codes_positive in fastforce)

section \<open>The loop of write\<close>

definition mount_ok :: "shell \<Rightarrow> bool" where
  "mount_ok s \<longleftrightarrow> (case sh_ses s of Mounted raw sy fs \<Rightarrow> stored_ok (fs_j fs) | Unmounted w \<Rightarrow> gate_closed (sh_gate s))"

lemma engine_stops: "vfs_stop engine_stop h v \<Longrightarrow> h = Waits \<or> h = Terminates"
  by (auto simp: vfs_stop_def fs_stop_def engine_stop_def lock_stop_def)

lemma call_fs_ends:
  assumes "\<And>d sy. ends (fs_ok stored_ok) V none (vfs_stop engine_stop) (f (disk_of d sy))"
    and "\<And>d sy v r v'. f (disk_of d sy) v = (r, v') \<Longrightarrow> g_fs v = None \<Longrightarrow> g_fs v' = None"
  shows "ends mount_ok V none halts_in_turn (call_fs f)"
proof (rule ends_by)
  fix s assume s: "mount_ok s"
  show "outcome_ok mount_ok V none halts_in_turn (call_fs f s)"
  proof (cases "sh_ses s")
    case (Unmounted w)
    let ?r = "f no_disk \<lparr>g_gate = sh_gate s, g_fs = None\<rparr>"
    have o: "outcome_ok (fs_ok stored_ok) V none (vfs_stop engine_stop) ?r"
      using s Unmounted unfolding no_disk_def by (intro ends_at [OF assms(1)]) (simp add: fs_ok_def mount_ok_def)
    have "g_fs (snd ?r) = None" unfolding no_disk_def by (rule assms(2) [OF surjective_pairing]) simp
    with o Unmounted show ?thesis
      by (cases ?r; cases "fst ?r") (auto simp: call_fs_def mount_ok_def fs_ok_def dest: engine_stops)
  next
    case (Mounted raw sy fs)
    let ?r = "f (disk_of raw sy) \<lparr>g_gate = sh_gate s, g_fs = Some fs\<rparr>"
    have "outcome_ok (fs_ok stored_ok) V none (vfs_stop engine_stop) ?r"
      using s Mounted by (intro ends_at [OF assms(1)]) (simp add: fs_ok_def mount_ok_def)
    with Mounted s show ?thesis
      by (cases ?r; cases "fst ?r") (auto simp: call_fs_def mount_ok_def fs_ok_def dest: engine_stops split: option.splits)
  qed
qed

text \<open>No call mounts anything.\<close>

lemma with_fs_none:
  assumes "with_fs k x body v = (r, v')" and "g_fs v = None"
  shows "g_fs v' = None"
proof -
  have g: "on_gate m t = (y, t') \<Longrightarrow> g_fs t' = g_fs t" for m :: "(mount_gate, 'c) op" and t t' :: "'b vfs" and y
    by (auto simp: on_gate_def zoomE_def split: prod.splits)
  obtain e v1 where e: "on_gate (gate_enter k) v = (e, v1)" by fastforce
  then have "g_fs v1 = None" using g assms(2) by metis
  with assms(1) e show ?thesis
    by (cases e) (auto simp: with_fs_def bindE_def finallyE_def cleanupE_def catchE_def on_fs_def split: if_splits)
qed

lemma simple_call_none: "simple_call k body v = (r, v') \<Longrightarrow> g_fs v = None \<Longrightarrow> g_fs v' = None"
  by (auto simp: simple_call_def bindE_def dest: with_fs_none split: prod.splits outcome.splits)

text \<open>The fuel of the loop of \<^verbatim>\<open>write\<close> is enough: it never runs out of turns.\<close>

lemma write_all_ends:
  "length src - done < fuel \<Longrightarrow> ends mount_ok any any halts_in_turn (write_all fuel fd src done)"
proof (induction fuel arbitrary: "done")
  case (Suc fuel)
  let ?call = "call_fs (\<lambda>dev. vfs_write (engine_journal dev) 0 fd False (drop done src))"
  show ?case
    unfolding write_all.simps
  proof (rule ends_if)
    assume lt: "done < length src"
    then have "ends mount_ok (\<lambda>n. n \<noteq> 0) none halts_in_turn ?call"
      by (intro call_fs_ends write_not_zero) (auto simp: vfs_write_def dest: simple_call_none)
    then have call: "ends mount_ok (\<lambda>n. n \<noteq> 0) any halts_in_turn ?call" by (rule ends_weaken) simp_all
    show "ends mount_ok any any halts_in_turn (bindE ?call (\<lambda>n. thenE (must n) (write_all fuel fd src (done + nat n))))"
    proof (rule ends_bind [OF call])
      fix n :: int assume n: "n \<noteq> 0"
      show "ends mount_ok any any halts_in_turn (thenE (must n) (write_all fuel fd src (done + nat n)))"
      proof (cases "n < 0")
        case True
        then show ?thesis by (intro ends_by) (simp add: must_def thenE_def bindE_def)
      next
        case False
        with n Suc.prems lt have "length src - (done + nat n) < fuel" by linarith
        from Suc.IH [OF this] False show ?thesis by (simp add: must_def thenE_def)
      qed
    qed
  qed (simp add: ends_ret)
qed simp

section \<open>A read that returns bytes\<close>

lemma read_pieces_length:
  assumes "foldE (pieces at e) (\<lambda>done p. bindE (read_piece J ino p) (\<lambda>bs. retE (done @ bs))) acc s = (Ret bs, s')"
  shows "length bs \<le> length acc + (e - at)"
  using assms
proof (induction at e arbitrary: acc s rule: pieces.induct)
  case (1 at e)
  show ?case
  proof (cases "at < e")
    case False
    with "1.prems" show ?thesis by (simp add: pieces_Nil)
  next
    case True
    define off where "off = at mod BLOCK_SIZE"
    define len where "len = min (BLOCK_SIZE - off) (e - at)"
    have p: "pieces at e = (at div BLOCK_SIZE, off, len) # pieces (at + len) e"
      using True by (subst pieces.simps) (simp add: Let_def off_def len_def)
    from "1.prems" [unfolded p] obtain x s1 where
      x: "read_piece J ino (at div BLOCK_SIZE, off, len) s = (Ret x, s1)" and
      rest: "foldE (pieces (at + len) e) (\<lambda>done p. bindE (read_piece J ino p) (\<lambda>bs. retE (done @ bs))) (acc @ x) s1 = (Ret bs, s')"
      unfolding foldE.simps bindE_eq_Ret by (auto simp only: retE_apply prod.inject outcome.inject)
    have "length x \<le> len" using x by (auto simp: read_piece_def bindE_eq_Ret get_at_def split: if_splits)
    moreover have "length bs \<le> length (acc @ x) + (e - (at + len))"
      using "1.IH" [OF True off_def len_def rest] .
    moreover have "len \<le> e - at" by (simp add: len_def)
    ultimately show ?thesis using True by simp
  qed
qed

lemma read_range_length:
  assumes "read_range J ino pos n s = (Ret bs, s')"
  shows "bs \<noteq> [] \<Longrightarrow> pos + length bs \<le> unat (size_of ino)"
proof -
  assume "bs \<noteq> []"
  then have lt: "pos < unat (size_of ino)" using assms by (auto simp: read_range_def split: if_splits)
  define tot where "tot = (if unat (size_of ino) - pos < n then unat (size_of ino) - pos else n)"
  have "foldE (pieces pos (pos + tot)) (\<lambda>done p. bindE (read_piece J ino p) (\<lambda>bs. retE (done @ bs))) [] s = (Ret bs, s')"
    using assms lt by (simp add: read_range_def tot_def Let_def)
  from read_pieces_length [OF this] lt show ?thesis by (simp add: tot_def split: if_splits)
qed

text \<open>Reading a file leaves the table of open files alone, but for the offset.\<close>

lemma files_stay:
  "ends (\<lambda>s. fs_files s = F) any any some_way (on_j m)" "ends (\<lambda>s. fs_files s = F) any any some_way (on_locks l)"
  unfolding on_j_def on_locks_def by (rule ends_zoom [OF leaves_any]; simp)+

lemma read_keeps_files:
  "ends (\<lambda>s. fs_files s = F) any any some_way (with_shared i (bindE (file_inode J i) (\<lambda>ino. on_j (read_range J ino pos n))))"
  unfolding with_shared_def file_inode_def by (intro ends_rules files_stay)

lemma on_j_eq_Ret: "on_j m s = (Ret x, s') \<Longrightarrow> \<exists>t t'. m t = (Ret x, t')"
  by (cases "m (fs_j s)") (auto simp: on_j_def zoomE_def)

text \<open>The table of open files keeps its size.\<close>

abbreviation sized :: "nat \<Rightarrow> ('j fs, 'a) op \<Rightarrow> bool" where
  "sized n m \<equiv> ends (\<lambda>s. length (fs_files s) = n) any any some_way m"

lemma sized_parts [ends_rules]:
  "sized n (on_j m)" "sized n (on_locks l)" "sized n (on_allocator a)" "sized n now" "sized n (upd_file i g)"
  unfolding on_j_def on_locks_def on_allocator_def now_def upd_file_def
  by ((rule ends_zoom [OF leaves_any]; auto) | (rule ends_by; auto))+

lemma sized_inode [ends_rules]: "sized n (with_inode i m)"
  by (rule ends_by) (auto simp: with_inode_def split: prod.split outcome.split)

lemma sized_stops [ends_rules]: "ends P any any some_way (liftE r)" "ends P any any some_way (haltE h)" "ends P any any some_way (fs_error c)"
  by (rule ends_lift; simp) (simp_all add: ends_halt ends_fs_error)

lemma sized_scopes [ends_rules]:
  assumes "sized n m"
  shows "sized n (holding l m)" "sized n (with_lock i x m)" "sized n (with_shared i m)" "sized n (op_in_fs J m)"
  unfolding with_lock_def holding_def with_shared_def op_in_fs_def op_scope_def by (intro ends_rules assms)+

lemma sized_table [ends_rules]:
  "sized n (upd_lock_entry i f)" "sized n reserve_fd" "sized n (release_fd fd)" "sized n (file_at fd')" "sized n (snapshot fd)"
  "sized n (register_open ino)" "sized n (file_inode J ino)"
  unfolding upd_lock_entry_def reserve_fd_def release_fd_def file_at_def snapshot_def register_open_def file_inode_def
  by (intro ends_rules)+

lemma sized_walk [ends_rules]: "sized n (walk J names x)"
proof -
  have "sized n (walk_from J x cur names)" for cur
  proof (induction names arbitrary: cur)
    case (Cons nm names)
    show ?case unfolding walk_from.simps by (intro ends_rules Cons)
  qed (unfold walk_from.simps, intro ends_rules)
  then show ?thesis unfolding walk_def by (intro ends_rules)
qed

lemma sized_open [ends_rules]: "sized n (open_existing J names)" "sized n (open_changing J names flags)"
  unfolding open_existing_def open_changing_def open_new_def create_file_def new_inode_def truncate_file_def Let_def
  by (intro ends_rules)+

lemma sized_calls: "sized n (vfs_open_fs J path flags)" "sized n (vfs_close_fs fd)" "sized n (vfs_read_fs J fd null_buf k)"
  unfolding vfs_open_fs_def vfs_close_fs_def vfs_read_fs_def Let_def by (intro ends_rules)+

lemma read_fs_moves:
  assumes "vfs_read_fs J fd null_buf n s = (Ret (m, bs), s')" and "length (fs_files s) = MAX_OPEN" and "0 < m"
  shows "length (fs_files s') = MAX_OPEN" "unat (f_offset (fs_files s ! nat fd)) < unat (f_offset (fs_files s' ! nat fd))"
proof -
  let ?f = "fs_files s ! nat fd"
  from assms(1,3) obtain s1 where
    fd: "0 \<le> fd" "fd < int MAX_OPEN" and m: "m = int (length bs)" and
    run: "with_shared (f_inode ?f) (bindE (file_inode J (f_inode ?f)) (\<lambda>ino.
        on_j (read_range J ino (unat (f_offset ?f)) (min n SSIZE_MAX)))) s = (Ret bs, s1)" and
    s': "fs_files s' = (fs_files s1)[nat fd := (fs_files s1 ! nat fd)\<lparr>f_offset := f_offset (fs_files s1 ! nat fd) + of_nat (length bs)\<rparr>]"
    unfolding vfs_read_fs_def
    by (auto simp: bindE_eq_Ret thenE_eq_Ret file_at_def snapshot_def fs_error_def upd_file_def split: if_splits)
  have same: "fs_files s1 = fs_files s" using endsD(2) [OF read_keeps_files refl run] .
  from run obtain ino t t' where "read_range J ino (unat (f_offset ?f)) (min n SSIZE_MAX) t = (Ret bs, t')"
    unfolding with_shared_def by (auto simp: thenE_eq_Ret bindE_eq_Ret dest!: finallyE_eq_Ret on_j_eq_Ret)
  from read_range_length [OF this] m assms(3) have "unat (f_offset ?f) + length bs \<le> unat (size_of ino)" by simp
  then have "unat (f_offset ?f) + length bs < 2 ^ 64" using unat_less_2p [of "size_of ino"] by simp
  then have "unat (f_offset ?f + of_nat (length bs)) = unat (f_offset ?f) + length bs"
    by (simp add: unat_word_ariths unat_of_nat)
  moreover have "nat fd < length (fs_files s)" using fd assms(2) by simp
  ultimately show "unat (f_offset ?f) < unat (f_offset (fs_files s' ! nat fd))" using s' same m assms(3) by simp
  show "length (fs_files s') = MAX_OPEN" using s' same assms(2) by simp
qed

section \<open>The loop of cat\<close>

lemma finallyE_Ret: "finallyE m c s = (Ret x, s') \<Longrightarrow> \<exists>s1. m s = (Ret x, s1) \<and> c s1 = (Ret (), s')"
  by (auto simp: finallyE_def cleanupE_def bindE_eq_Ret thenE_eq_Ret catchE_eq)

lemma on_gate_fs: "on_gate m v = (r, v') \<Longrightarrow> g_fs v' = g_fs v"
  by (auto simp: on_gate_def zoomE_def split: prod.splits)

text \<open>A call that returns a positive number has got through to its body, which returned it.\<close>

lemma with_fs_returns:
  assumes "with_fs k nothing body v = (Ret x, v')" and "0 < fst x" and "fs_ok ok v"
    and "ends (\<lambda>s. ok (fs_j s)) V proper H body"
  shows "\<exists>fs fs'. g_fs v = Some fs \<and> body fs = (Ret x, fs') \<and> g_fs v' = Some fs'"
proof -
  let ?h = "\<lambda>e. case e of FsError code \<Rightarrow> retE (- code, nothing) | _ \<Rightarrow> retE (- VFS_EIO, nothing)"
  have neg: "\<not> VFS_EINVAL < 0" by (simp add: errno_defs)
  from assms(1,2) obtain v1 v2 where e: "on_gate (gate_enter k) v = (Ret True, v1)" and
    run: "catchE (on_fs body) ?h v1 = (Ret x, v2)" and out: "on_gate (gate_leave k) v2 = (Ret (), v')"
    unfolding with_fs_def by (auto simp: bindE_eq_Ret neg dest!: finallyE_Ret split: if_splits)
  obtain fs where fs: "g_fs v1 = Some fs" using run by (cases "g_fs v1") (auto simp: on_fs_def catchE_def)
  then have ok: "ok (fs_j fs)" using on_gate_fs [OF e] assms(3) by (simp add: fs_ok_def)
  obtain r fs' where b: "body fs = (r, fs')" by fastforce
  have of: "on_fs body v1 = (r, v1\<lparr>g_fs := Some fs'\<rparr>)" using b fs by (simp add: on_fs_def)
  show ?thesis
  proof (cases r)
    case (Ret y)
    then have "y = x" "g_fs v' = Some fs'" using of run on_gate_fs [OF out] by (auto simp: catchE_def)
    then show ?thesis using Ret b fs on_gate_fs [OF e] by (intro exI [of _ fs] exI [of _ fs']) simp
  next
    case (Raise e)
    then have "proper e" using endsD(3) [OF assms(4) ok] b by blast
    moreover have "?h e (v1\<lparr>g_fs := Some fs'\<rparr>) = (Ret x, v2)" using of run Raise by (simp add: catchE_def)
    ultimately have "fst x \<le> 0" using error_codes_positive by (fastforce simp: proper_def errno_defs split: exn.splits)
    with assms(2) show ?thesis by simp
  next
    case (Halted h)
    with of run show ?thesis by (simp add: catchE_def)
  qed
qed

definition table_ok :: "shell \<Rightarrow> bool" where
  "table_ok s \<longleftrightarrow> (case sh_ses s of
       Mounted raw sy fs \<Rightarrow> stored_ok (fs_j fs) \<and> length (fs_files fs) = MAX_OPEN
     | Unmounted w \<Rightarrow> gate_closed (sh_gate s))"

definition offset_of :: "int \<Rightarrow> shell \<Rightarrow> nat" where
  "offset_of fd s = (case sh_ses s of Mounted raw sy fs \<Rightarrow> unat (f_offset (fs_files fs ! nat fd)) | Unmounted w \<Rightarrow> 0)"

lemma read_call_moves:
  assumes "call_fs (\<lambda>dev. vfs_read (engine_journal dev) 0 fd False n) s = (Ret (m, bs), s')" and "table_ok s" and "0 < m"
  shows "table_ok s'" "offset_of fd s < offset_of fd s'"
proof -
  from assms(2) have ok: "mount_ok s" by (auto simp: mount_ok_def table_ok_def split: session.splits)
  show "table_ok s'" "offset_of fd s < offset_of fd s'"
  proof (atomize (full), cases "sh_ses s")
    case (Unmounted w)
    then obtain v' where "vfs_read (engine_journal no_disk) 0 fd False n \<lparr>g_gate = sh_gate s, g_fs = None\<rparr> = (Ret (m, bs), v')"
      using assms(1) by (auto simp: call_fs_def split: prod.splits)
    from with_fs_returns [OF this [unfolded vfs_read_def no_disk_def] _ _ engine.file_calls(3)] assms(2,3) Unmounted
    show "table_ok s' \<and> offset_of fd s < offset_of fd s'" by (simp add: fs_ok_def table_ok_def)
  next
    case (Mounted raw sy fs)
    let ?v = "\<lparr>g_gate = sh_gate s, g_fs = Some fs\<rparr>"
    have fs: "stored_ok (fs_j fs)" "length (fs_files fs) = MAX_OPEN" using assms(2) Mounted by (simp_all add: table_ok_def)
    obtain v' where r: "vfs_read (engine_journal (disk_of raw sy)) 0 fd False n ?v = (Ret (m, bs), v')" and
      s': "sh_ses s' = Mounted raw sy (case g_fs v' of Some fs' \<Rightarrow> fs' | None \<Rightarrow> fs)"
      using assms(1) Mounted by (auto simp: call_fs_def split: prod.splits)
    from with_fs_returns [OF r [unfolded vfs_read_def] _ _ engine.file_calls(3)] assms(3) fs(1) obtain fs' where
      b: "vfs_read_fs (engine_journal (disk_of raw sy)) fd False n fs = (Ret (m, bs), fs')" "g_fs v' = Some fs'"
      by (auto simp: fs_ok_def)
    have "stored_ok (fs_j fs')" using endsD(2) [OF engine.file_calls(3) fs(1) b(1)] .
    with read_fs_moves [OF b(1) fs(2) assms(3)] b(2) s' Mounted show "table_ok s' \<and> offset_of fd s < offset_of fd s'"
      by (simp add: table_ok_def offset_of_def)
  qed
qed

lemma table_mount: "table_ok s \<Longrightarrow> mount_ok s"
  by (simp add: table_ok_def mount_ok_def split: session.splits)

text \<open>A call whose body keeps the size of the table.\<close>

abbreviation sized_fs :: "nat \<Rightarrow> 'j vfs \<Rightarrow> bool" where
  "sized_fs n v \<equiv> \<exists>fs. g_fs v = Some fs \<and> length (fs_files fs) = n"

lemma sized_gate [ends_rules]: "ends (sized_fs n) any any some_way (on_gate m)"
  unfolding on_gate_def by (rule ends_zoom [OF leaves_any]) auto

lemma sized_with_fs:
  fixes body :: "('j fs, int \<times> 'b) op"
  assumes "sized n body"
  shows "ends (sized_fs n) any any some_way (with_fs k nothing body)"
proof -
  have "ends (sized_fs n) any any some_way (on_fs body)"
  proof (rule ends_by)
    fix v :: "'j vfs" assume "sized_fs n v"
    then obtain fs where fs: "g_fs v = Some fs" "length (fs_files fs) = n" by blast
    from ends_at [OF assms fs(2)] fs(1) show "outcome_ok (sized_fs n) any any some_way (on_fs body v)"
      by (cases "body fs"; cases "fst (body fs)") (auto simp: on_fs_def)
  qed
  then show ?thesis unfolding with_fs_def by (intro ends_rules) (auto intro: ends_ret split: exn.split)
qed

lemma sized_simple_call: "sized n body \<Longrightarrow> ends (sized_fs n) any any some_way (simple_call k body)"
  unfolding simple_call_def by (intro ends_rules sized_with_fs) simp_all

lemma call_table:
  assumes "\<And>d sy. ends (fs_ok stored_ok) V none (vfs_stop engine_stop) (f (disk_of d sy))"
    and "\<And>d sy v r v'. f (disk_of d sy) v = (r, v') \<Longrightarrow> g_fs v = None \<Longrightarrow> g_fs v' = None"
    and "\<And>d sy. ends (sized_fs MAX_OPEN) any any some_way (f (disk_of d sy))"
  shows "ends table_ok V none halts_in_turn (call_fs f)"
proof -
  have c: "ends mount_ok V none halts_in_turn (call_fs f)" by (rule call_fs_ends) (fact assms(1), fact assms(2))
  show ?thesis
  proof (rule endsI)
    fix s x s' assume s: "table_ok s" and run: "call_fs f s = (Ret x, s')"
    from endsD(1,2) [OF c table_mount [OF s] run] have x: "V x" "mount_ok s'" .
    have "table_ok s'"
    proof (cases "sh_ses s")
      case (Unmounted w)
      with run x(2) show ?thesis by (auto simp: call_fs_def table_ok_def mount_ok_def split: prod.splits)
    next
      case (Mounted raw sy fs)
      obtain r v where v: "f (disk_of raw sy) \<lparr>g_gate = sh_gate s, g_fs = Some fs\<rparr> = (r, v)" by fastforce
      with run Mounted have r: "r = Ret x" "sh_ses s' = Mounted raw sy (case g_fs v of Some fs' \<Rightarrow> fs' | None \<Rightarrow> fs)"
        by (auto simp: call_fs_def)
      have "sized_fs MAX_OPEN v"
        by (rule endsD(2) [OF assms(3) _ v [unfolded r(1)]]) (use s Mounted in \<open>simp add: table_ok_def\<close>)
      with r(2) x(2) show ?thesis by (auto simp: table_ok_def mount_ok_def)
    qed
    with x show "V x \<and> table_ok s'" by simp
  next
    fix s e s' assume "table_ok s" "call_fs f s = (Raise e, s')"
    then show "none e \<and> table_ok s'" using endsD(3) [OF c table_mount] by blast
  next
    fix s h s' assume "table_ok s" "call_fs f s = (Halted h, s')"
    then show "h = Crash \<or> halts_in_turn h s'" using endsH [OF c table_mount] by blast
  qed
qed

lemma table_calls:
  "ends table_ok any none halts_in_turn (call_fs (\<lambda>dev. vfs_open (engine_journal dev) 0 path flags))"
  "ends table_ok any none halts_in_turn (call_fs (\<lambda>dev. vfs_close 0 fd))"
  "ends table_ok any none halts_in_turn (call_fs (\<lambda>dev. vfs_read (engine_journal dev) 0 fd null_buf n))"
proof -
  have o: "ends (fs_ok stored_ok) any none (vfs_stop engine_stop) (vfs_open (engine_journal (disk_of d sy)) 0 path flags)"
    "ends (fs_ok stored_ok) any none (vfs_stop engine_stop) (vfs_close 0 fd)"
    "ends (fs_ok stored_ok) any none (vfs_stop engine_stop) (vfs_read (engine_journal (disk_of d sy)) 0 fd null_buf n)" for d sy
    unfolding vfs_open_def vfs_close_def vfs_read_def by (rule ends_weaken, rule engine.call_ends; simp)+
  show "ends table_ok any none halts_in_turn (call_fs (\<lambda>dev. vfs_open (engine_journal dev) 0 path flags))"
    by (rule call_table [where f = "\<lambda>dev. vfs_open (engine_journal dev) 0 path flags", OF o(1)]) (auto simp: vfs_open_def intro: sized_simple_call sized_calls dest: simple_call_none)
  show "ends table_ok any none halts_in_turn (call_fs (\<lambda>dev. vfs_close 0 fd))"
    by (rule call_table [where f = "\<lambda>_. vfs_close 0 fd", OF o(2)]) (auto simp: vfs_close_def intro: sized_simple_call sized_calls dest: simple_call_none)
  show "ends table_ok any none halts_in_turn (call_fs (\<lambda>dev. vfs_read (engine_journal dev) 0 fd null_buf n))"
    by (rule call_table [where f = "\<lambda>dev. vfs_read (engine_journal dev) 0 fd null_buf n", OF o(3)]) (auto simp: vfs_read_def intro: sized_with_fs sized_calls dest: with_fs_none)
qed

text \<open>Nor does the loop of \<^verbatim>\<open>cat\<close> run out of turns.\<close>

lemma cat_loop_ends:
  "table_ok s \<Longrightarrow> 2 ^ 64 - offset_of fd s \<le> fuel \<Longrightarrow> outcome_ok table_ok any any halts_in_turn (cat_loop fuel fd s)"
proof (induction fuel arbitrary: s)
  case 0
  have "offset_of fd s < 2 ^ 64" using unat_less_2p [where 'a = 64] by (simp add: offset_of_def split: session.split)
  with 0 show ?case by simp
next
  case (Suc fuel)
  let ?call = "call_fs (\<lambda>dev. vfs_read (engine_journal dev) 0 fd False (64 * 1024))"
  obtain r s1 where r: "?call s = (r, s1)" by fastforce
  show ?case
  proof (cases r)
    case (Ret x)
    obtain n bs where x: "x = (n, bs)" by fastforce
    note t = endsD(2) [OF table_calls(3) Suc.prems(1) r [unfolded Ret]]
    show ?thesis
    proof (cases "0 < n")
      case True
      from read_call_moves [OF r [unfolded Ret x] Suc.prems(1) True] Suc.prems(2)
      have "table_ok (s1\<lparr>sh_out := sh_out s1 @ text_of bs\<rparr>)" "2 ^ 64 - offset_of fd (s1\<lparr>sh_out := sh_out s1 @ text_of bs\<rparr>) \<le> fuel"
        by (auto simp: table_ok_def offset_of_def split: session.splits)
      from Suc.IH [OF this] True r Ret x show ?thesis by (simp add: bindE_def thenE_def must_def print_out_def)
    next
      case False
      with r Ret x t show ?thesis by (simp add: bindE_def thenE_def must_def)
    qed
  next
    case (Raise e)
    then show ?thesis using endsD(3) [OF table_calls(3) Suc.prems(1)] r by blast
  next
    case (Halted h)
    with endsH [OF table_calls(3) Suc.prems(1)] r show ?thesis by (simp add: bindE_def)
  qed
qed

lemma cat_fuel_enough: "ends table_ok any any halts_in_turn (cat_loop CAT_FUEL fd)"
  by (rule ends_by, rule cat_loop_ends) (simp_all add: CAT_FUEL_def)

end
