(* ===== verification/Shell_Ends.thy ===== *)
theory Shell_Ends
  imports Shell_Loops
begin

text \<open>
  How a command of the shell ends, whatever the command line: with which exit status, with nothing
  mounted, and for what reasons it can fail to end. The commands are taken bottom up: the calls they
  make, the scope of the mount, and their work on the host's files.
\<close>

section \<open>Nothing mounted\<close>

text \<open>Between the commands nothing is mounted and the gate is closed.\<close>

definition idle :: "shell \<Rightarrow> bool" where
  "idle s \<longleftrightarrow> (\<exists>w. sh_ses s = Unmounted w) \<and> gate_closed (sh_gate s)"

abbreviation idle_ends :: "('a \<Rightarrow> bool) \<Rightarrow> (shell, 'a) op \<Rightarrow> bool" where
  "idle_ends V \<equiv> ends idle V any halts_in_turn"

abbreviation mount_ends :: "('a \<Rightarrow> bool) \<Rightarrow> (shell, 'a) op \<Rightarrow> bool" where
  "mount_ends V \<equiv> ends mount_ok V any halts_in_turn"

lemma idle_ok: "idle s \<Longrightarrow> table_ok s" "idle s \<Longrightarrow> mount_ok s"
  by (auto simp: idle_def table_ok_def mount_ok_def)

lemma prints_end [ends_rules]:
  "ends idle any E H (print_out t)" "ends idle any E H (print_line t)" "ends idle any E H (print_err t)"
  "ends mount_ok any E H (print_out t)" "ends mount_ok any E H (print_line t)"
  by (auto simp: ends_def print_out_def print_line_def print_err_def idle_def mount_ok_def split: session.splits)

lemma must_ends [ends_rules]: "ends P any any H (must rc)"
  unfolding must_def by (intro ends_rules)

lemma usage_ends [ends_rules]: "ends P V any H (usage_error t)"
  unfolding usage_error_def by (intro ends_rules)

section \<open>Mounting and unmounting\<close>

lemma on_session_run: "on_session m s = (case m (sh_gate s, sh_ses s) of (r, (g, ses)) \<Rightarrow> (r, s\<lparr>sh_gate := g, sh_ses := ses\<rparr>))"
  by (simp add: on_session_def zoomE_def split: prod.split)

text \<open>Mounting returns, with a file system mounted or, if the code is negative, without; or it halts.\<close>

lemma mount_from_idle:
  assumes "idle s" and "on_session (vfs_mount dp wp opts clock) s = (r, s')"
  shows "case r of Ret rc \<Rightarrow> table_ok s' \<and> (rc < 0 \<longrightarrow> idle s') | Raise e \<Rightarrow> False | Halted h \<Rightarrow> h = Crash \<or> halts_in_turn h s'"
proof -
  obtain w where w: "sh_ses s = Unmounted w" and g: "gate_closed (sh_gate s)" using assms(1) by (auto simp: idle_def)
  have new: "outcome_ok any (\<lambda>x. stored_ok (fs_j (snd x)) \<and> length (fs_files (snd x)) = MAX_OPEN) proper halts_in_turn
      (file_system_new a b c clock w)" for a b c
    by (rule ends_at [OF file_system_new_ends]) simp
  obtain r1 g' ses where m: "vfs_mount dp wp opts clock (sh_gate s, Unmounted w) = (r1, (g', ses))" by (metis surj_pair)
  have s': "r = r1" "s' = s\<lparr>sh_gate := g', sh_ses := ses\<rparr>" using assms(2) m w by (auto simp: on_session_run)
  show ?thesis
    using m g new [of "the dp" "the wp" "storage_options_of (case opts of Some x \<Rightarrow> x | None \<Rightarrow> default_vfs_options)"]
    unfolding s'
    by (auto simp: vfs_mount_def Let_def gate_open_def table_ok_def idle_def split: option.splits if_splits prod.splits outcome.splits)
qed

text \<open>Unmounting leaves nothing mounted, whatever it returns.\<close>

lemma close_file_ends: "ends (\<lambda>s. stored_ok (fs_j s)) any proper halts_in_turn (close_file fd :: (engine fs, unit) op)"
proof -
  have "ends (\<lambda>s. stored_ok (fs_j s)) any proper (fs_stop engine_stop) (close_file fd :: (engine fs, unit) op)"
    unfolding close_file_def by (intro ends_rules engine.upd_lock_ends engine.fs_parts engine.fs_small)
  then show ?thesis by (rule ends_halts) (auto simp: fs_stop_def engine_stop_def lock_stop_def)
qed

lemma unmount_idle:
  assumes "mount_ok s"
  shows "outcome_ok idle any none halts_in_turn (on_session vfs_unmount s)"
proof (cases "sh_ses s")
  case (Unmounted w)
  with assms show ?thesis by (simp add: on_session_run vfs_unmount_def idle_def mount_ok_def)
next
  case (Mounted raw sy fs)
  let ?m = "thenE (forE [0..<MAX_OPEN] close_file) (on_j (storage_close (disk_of raw sy) alone))"
  have "ends (\<lambda>s. stored_ok (fs_j s)) any proper halts_in_turn (on_j (storage_close (disk_of raw sy) alone))"
    unfolding on_j_def by (rule ends_zoom [OF proper_close]) simp_all
  then have "ends (\<lambda>s. stored_ok (fs_j s)) any proper halts_in_turn ?m"
    by (intro ends_then ends_for close_file_ends)
  then have m: "outcome_ok (\<lambda>s. stored_ok (fs_j s)) any proper halts_in_turn (?m fs)"
    using assms Mounted by (intro ends_at) (simp_all add: mount_ok_def)
  obtain r fs' where r: "?m fs = (r, fs')" by fastforce
  obtain g where g: "gate_close_and_drain (sh_gate s) \<in> {(Ret (), g), (Halted Waits, g)}" "gate_closed g"
    by (auto simp: gate_close_and_drain_def thenE_def bindE_def)
  show ?thesis
    using m Mounted g unfolding on_session_run vfs_unmount_def Let_def
    by (cases r) (auto simp: r idle_def)
qed

text \<open>A command's work between the two.\<close>

lemma ends_mounted:
  assumes body: "\<And>s. table_ok s \<Longrightarrow> outcome_ok mount_ok V any halts_in_turn (body s)"
  shows "idle_ends V (mounted clock img body)"
proof (rule ends_by)
  fix s assume s: "idle s"
  let ?u = "on_session vfs_unmount"
  obtain r s1 where m: "on_session (vfs_mount (Some img) (Some (log_path img)) None clock) s = (r, s1)" by fastforce
  note mount = mount_from_idle [OF s m]
  have tail: "outcome_ok idle V any halts_in_turn (bindE (cleanupE body (thenE ?u (retE ()))) (\<lambda>x. thenE (bindE ?u must) (retE x)) s1)"
    if "table_ok s1"
  proof -
    obtain rb s2 where b: "body s1 = (rb, s2)" by fastforce
    note ok = body [OF that, unfolded b]
    obtain ru s3 where u: "?u s2 = (ru, s3)" by fastforce
    show ?thesis using ok unmount_idle [of s2] u
      by (cases rb; cases ru) (auto simp: bindE_def cleanupE_def catchE_def thenE_def b must_def)
  qed
  show "outcome_ok idle V any halts_in_turn (mounted clock img body s)"
    using mount tail by (cases r) (auto simp: mounted_def bindE_def [of "on_session _"] m)
qed

lemma mounted_ends [ends_rules]: "mount_ends V body \<Longrightarrow> idle_ends V (mounted clock img body)"
  by (rule ends_mounted) (auto intro: ends_at table_mount)

section \<open>Work on the host's files\<close>

text \<open>It halts by a crash only; whatever it throws, nothing gets mounted.\<close>

abbreviation quiet :: "('s, 'a) op \<Rightarrow> bool" where
  "quiet \<equiv> ends any any any crash_only"

lemma quiet_proper: "proper_op m \<Longrightarrow> quiet m"
  by (rule ends_weaken) simp_all

lemma ends_world:
  assumes "ends any V E H m"
  shows "ends idle V E (\<lambda>h _. \<exists>w. H h w) (on_world m)"
proof (rule ends_by)
  fix s assume "idle s"
  then obtain w where w: "sh_ses s = Unmounted w" "gate_closed (sh_gate s)" by (auto simp: idle_def)
  have "outcome_ok any V E H (m w)" by (rule ends_at [OF assms]) simp
  with w show "outcome_ok idle V E (\<lambda>h _. \<exists>w. H h w) (on_world m s)"
    by (cases "m w"; cases "fst (m w)") (auto simp: on_world_def idle_def)
qed

lemma idle_world [ends_rules]: "quiet m \<Longrightarrow> ends idle any any H (on_world m)"
  by (drule ends_world, erule ends_halts) simp

lemma quiet_device [ends_rules]:
  "quiet (read_block (pread_device d) b)" "quiet (write_block (pread_device d) b x)" "quiet (dev_sync (pread_device d))"
  "quiet (read_superblock (pread_device d))" "quiet (pd_open path)"
  by (intro quiet_proper ends_rules)+

lemma lift_ends [ends_rules]: "ends P any any H (liftE r)"
  by (rule ends_lift) simp

lemma quiet_create [ends_rules]: "quiet (pd_create path n)"
  unfolding pd_create_def by (intro ends_rules; (rule ends_by, simp split: prod.split)?)

lemma quiet_load [ends_rules]: "quiet (bm_load (pread_device d) b bm)"
  unfolding bm_load_def Let_def by (intro ends_rules)

lemma quiet_with_bits: "ends any any any crash_only m \<Longrightarrow> quiet (with_bits m bm)"
  by (drule ends_at [of _ _ _ _ _ bm]) (auto simp: with_bits_def ends_halt split: prod.splits outcome.splits intro: ends_rules)

lemma quiet_mkfs [ends_rules]: "quiet (mkfs (pread_device d) n t)"
proof -
  have bits: "quiet (set_bit_in i)" for i by (intro quiet_proper ends_rules)
  show ?thesis
    unfolding mkfs_def bm_store_def write_superblock_def Let_def by (intro ends_rules quiet_with_bits bits)
qed

text \<open>The checker halts by a crash, or when its walk has run out of turns.\<close>

abbreviation spins :: "cause \<Rightarrow> 's \<Rightarrow> bool" where
  "spins \<equiv> (\<lambda>h _. h = Spins)"

abbreviation checks :: "('d check_state, 'a) op \<Rightarrow> bool" where
  "checks \<equiv> ends any any any spins"

lemma checks_parts [ends_rules]:
  "checks (ck f)" "checks (upd_ck g)" "checks (upd_report r)" "checks (problem t)"
  unfolding ck_def upd_ck_def upd_report_def problem_def by (intro ends_rules)+

lemma checks_bit [ends_rules]: "checks (test_bit_of bm i)"
  by (simp add: test_bit_of_def is_set_def ends_throw ends_ret)

lemma checks_read [ends_rules]: "checks (ck_read (pread_device d) b)" "checks (read_pointers (pread_device d) b)"
  "checks (on_device (bm_load (pread_device d) b bm))"
proof -
  have dev: "checks (on_device m)" if "quiet m" for m :: "(world, 'b) op"
    unfolding on_device_def by (rule ends_zoom [OF that]) simp_all
  show "checks (ck_read (pread_device d) b)" "checks (on_device (bm_load (pread_device d) b bm))"
    unfolding ck_read_def by (intro dev ends_rules)+
  then show "checks (read_pointers (pread_device d) b)" unfolding read_pointers_def by (intro ends_rules)
qed

lemma checks_super [ends_rules]: "checks (check_superblock (pread_device d))" "checks (load_inodes (pread_device d))"
  unfolding check_superblock_def load_inodes_def Let_def by (intro ends_rules)+

lemma checks_claim [ends_rules]: "checks (claim ino b p i)"
  unfolding claim_def by (intro ends_rules)

lemma checks_rows [ends_rules]:
  "checks (check_row ino dirp base ps acc)" "checks (check_single (pread_device d) ino dirp i acc)"
  "checks (check_double (pread_device d) ino dirp i acc)"
proof -
  show row: "checks (check_row ino dirp base ps acc)" for base ps acc
    unfolding check_row_def check_data_def by (intro ends_rules)
  show "checks (check_single (pread_device d) ino dirp i acc)" "checks (check_double (pread_device d) ino dirp i acc)"
    unfolding check_single_def check_double_def Let_def by (intro ends_rules row)+
qed

lemma checks_inodes [ends_rules]: "checks (check_inodes (pread_device d))"
proof -
  have "checks (check_blocks (pread_device d) i)" for i
    unfolding check_blocks_def check_file_size_def check_dir_size_def Let_def by (intro ends_rules)
  then show ?thesis
    unfolding check_inodes_def check_inode_def check_kind_def Let_def by (intro ends_rules)
qed

lemma checks_directory [ends_rules]: "checks (check_directory (pread_device d) i parent stack)"
proof -
  have "checks (check_slot i parent b fb acc k)" for b fb acc k
    unfolding check_slot_def check_dot_def check_name_def check_target_def Let_def by (intro ends_rules)
  then show ?thesis unfolding check_directory_def by (intro ends_rules)
qed

lemma checks_walk [ends_rules]: "checks (walk_tree (pread_device d))"
proof -
  have "checks (walk_stack (pread_device d) fuel stack)" for fuel stack
  proof (induction fuel arbitrary: stack)
    case 0
    show ?case by (cases stack) (simp_all add: ends_def)
  next
    case (Suc fuel)
    show ?case
    proof (cases stack)
      case (Cons x xs)
      show ?thesis unfolding Cons walk_stack.simps Let_def by (intro ends_rules Suc)
    qed (simp add: ends_def)
  qed
  then show ?thesis unfolding walk_tree_def by (intro ends_rules)
qed

lemma checks_all: "ends any any any spins (fsck (pread_device d))"
proof -
  have "checks (checker_run (pread_device d))"
    unfolding checker_run_def check_links_def check_link_def check_data_bitmap_def check_bit_def Let_def by (intro ends_rules)
  then show ?thesis
    by (intro ends_by; drule_tac s = "(checker_new, s)" in ends_at) (auto simp: fsck_def split: prod.splits outcome.splits)
qed

section \<open>The calls a command makes\<close>

lemma stats_end:
  "ends (fs_ok stored_ok) any none (vfs_stop engine_stop) (vfs_get_stats k)"
  "vfs_get_stats k v = (r, v') \<Longrightarrow> g_fs v = None \<Longrightarrow> g_fs v' = None"
proof -
  note parts = vfs_get_stats_def on_gate_def zoomE_def gate_enter_def gate_leave_def bindE_def thenE_def
    finallyE_def cleanupE_def catchE_def on_fs_def slot_add_def
  show "ends (fs_ok stored_ok) any none (vfs_stop engine_stop) (vfs_get_stats k)"
    by (rule ends_by) (auto simp: parts fs_ok_def split: option.splits)
  show "vfs_get_stats k v = (r, v') \<Longrightarrow> g_fs v = None \<Longrightarrow> g_fs v' = None"
    by (cases "gate_closed (g_gate v)") (auto simp: parts)
qed

lemma mount_calls [ends_rules]:
  "mount_ends any (sh_mkdir path)" "mount_ends any (sh_stat path)" "mount_ends any (sh_readdir path null_out n)" "mount_ends any (sh_open path flags)"
  "mount_ends any (sh_close fd)" "mount_ends any (call_fs (\<lambda>dev. vfs_get_stats 0))" "mount_ends any (call_fs (\<lambda>dev. vfs_sync dev 0))"
  "mount_ends any (call_fs (\<lambda>dev. (if b then vfs_rmdir else vfs_unlink) (engine_journal dev) 0 p))"
proof -
  have call: "mount_ends any (call_fs f)" if "\<And>d sy. ends (fs_ok stored_ok) V none (vfs_stop engine_stop) (f (disk_of d sy))"
    "\<And>d sy v r v'. f (disk_of d sy) v = (r, v') \<Longrightarrow> g_fs v = None \<Longrightarrow> g_fs v' = None" for V and f :: "disk device \<Rightarrow> (engine vfs, 'x) op"
    by (rule ends_weaken [of _ V none], rule call_fs_ends) (fact that, fact that, simp_all)
  show "mount_ends any (sh_mkdir path)" unfolding sh_mkdir_def vfs_mkdir_def by (rule call, rule engine.call_ends, erule (1) simple_call_none)
  show "mount_ends any (sh_open path flags)"
    unfolding sh_open_def vfs_open_def by (intro ends_bind_any must_ends, rule call, rule engine.call_ends, erule (1) simple_call_none)
  show "mount_ends any (sh_close fd)"
    unfolding sh_close_def vfs_close_def by (intro ends_bind_any must_ends, rule call, rule engine.call_ends, erule (1) simple_call_none)
  have st: "mount_ends any (call_fs (\<lambda>dev. vfs_stat (engine_journal dev) 0 (Some path) False))"
    unfolding vfs_stat_def by (rule call, rule engine.call_ends, erule (1) with_fs_none)
  have rd: "mount_ends any (call_fs (\<lambda>dev. vfs_readdir (engine_journal dev) 0 (Some path) null_out n))"
    unfolding vfs_readdir_def by (rule call, rule engine.call_ends, erule (1) with_fs_none)
  show "mount_ends any (sh_stat path)" "mount_ends any (sh_readdir path null_out n)"
    unfolding sh_stat_def sh_readdir_def by (intro ends_rules st rd)+
  show "mount_ends any (call_fs (\<lambda>dev. vfs_get_stats 0))" by (rule call, rule stats_end(1), erule (1) stats_end(2))
  show "mount_ends any (call_fs (\<lambda>dev. vfs_sync dev 0))"
    by (rule call, rule do_call_ends [of _ _ _ Sync, unfolded do_call.simps]) (auto simp: vfs_sync_def dest: simple_call_none)
  have rm: "mount_ends any (call_fs (\<lambda>dev. vfs_rmdir (engine_journal dev) 0 p))" "mount_ends any (call_fs (\<lambda>dev. vfs_unlink (engine_journal dev) 0 p))"
    unfolding vfs_rmdir_def vfs_unlink_def by (rule call, rule engine.call_ends, erule (1) simple_call_none)+
  show "mount_ends any (call_fs (\<lambda>dev. (if b then vfs_rmdir else vfs_unlink) (engine_journal dev) 0 p))"
    using rm by (cases b) simp_all
qed

section \<open>The commands\<close>

definition exit_status :: "int \<Rightarrow> bool" where
  "exit_status c \<longleftrightarrow> c \<in> {0, 1, 2}"

lemma exit_statuses [simp]: "exit_status 0" "exit_status 1" "exit_status 2" "exit_status a \<Longrightarrow> exit_status b \<Longrightarrow> exit_status (max a b)"
  by (auto simp: exit_status_def)

lemma print_usage_ends: "ends idle any E H (print_usage cs)"
  unfolding print_usage_def by (intro ends_rules)

lemma test_bit_ends [ends_rules]: "ends idle any any H (test_bit i bm)"
  by (simp add: ends_def test_bit_def is_set_def)

lemma idle_dump: "idle_ends exit_status (cmd_dump argv)"
proof -
  have super: "idle_ends exit_status (dump_super dev)" for dev
    unfolding dump_super_def Let_def by (intro ends_rules) simp_all
  have bitmaps: "idle_ends any (dump_bitmaps dev sb)" and node: "idle_ends any (dump_inode dev sb n)" for dev sb n
    unfolding dump_bitmaps_def dump_bitmap_def dump_inode_def Let_def by (intro ends_rules)+
  have one: "idle_ends exit_status (dump_one dev w)" for dev w
    unfolding dump_one_def by (cases w) (auto intro!: ends_rules super bitmaps node)
  show ?thesis
    unfolding cmd_dump_def Let_def by (cases argv) (auto intro!: ends_rules ends_fold ends_bind [OF one])
qed

lemma idle_mkfs: "idle_ends exit_status (cmd_mkfs clock argv)"
  unfolding cmd_mkfs_def Let_def by (intro ends_rules) simp

lemma outcome_weaken: "outcome_ok P V E H x \<Longrightarrow> (\<And>s. P s \<Longrightarrow> P' s) \<Longrightarrow> outcome_ok P' V E H x"
  by (cases x; cases "fst x") auto

lemma cat_body:
  assumes "table_ok s"
  shows "outcome_ok mount_ok exit_status any halts_in_turn
    (bindE (sh_open p VFS_O_RDONLY) (\<lambda>fd. thenE (cat_loop CAT_FUEL fd) (thenE (sh_close fd) (retE 0))) s)"
proof -
  have o: "ends table_ok any any halts_in_turn (sh_open p flags)" and c: "ends table_ok any any halts_in_turn (sh_close fd)" for p flags fd
    unfolding sh_open_def sh_close_def by (intro ends_bind_any ends_weaken [OF table_calls(1)] ends_weaken [OF table_calls(2)] must_ends; simp)+
  have "ends table_ok exit_status any halts_in_turn (bindE (sh_open p VFS_O_RDONLY) (\<lambda>fd. thenE (cat_loop CAT_FUEL fd) (thenE (sh_close fd) (retE 0))))"
    by (intro ends_bind_any ends_then o c cat_fuel_enough ends_ret) simp
  from ends_at [OF this assms] show ?thesis by (rule outcome_weaken) (rule table_mount)
qed

lemma idle_files:
  "idle_ends exit_status (cmd_mkdir clock argv)" "idle_ends exit_status (cmd_ls clock argv)" "idle_ends exit_status (cmd_cat clock argv)"
  "idle_ends exit_status (cmd_write clock argv)" "idle_ends exit_status (cmd_rm clock argv)" "idle_ends exit_status (cmd_sync clock argv)"
proof -
  have wr: "mount_ends any (write_all (length src + 1) fd src 0)" for fd src by (rule write_all_ends) simp
  have pre: "mount_ends any (mkdir_prefix path n)" for path n unfolding mkdir_prefix_def Let_def by (intro ends_rules)
  have en: "mount_ends any (list_entry e)" for e unfolding list_entry_def Let_def by (intro ends_rules)
  show "idle_ends exit_status (cmd_mkdir clock argv)" "idle_ends exit_status (cmd_ls clock argv)"
    "idle_ends exit_status (cmd_write clock argv)" "idle_ends exit_status (cmd_rm clock argv)" "idle_ends exit_status (cmd_sync clock argv)"
    unfolding cmd_mkdir_def cmd_ls_def cmd_write_def cmd_rm_def cmd_sync_def Let_def
    by (intro ends_rules wr pre en; simp)+
  show "idle_ends exit_status (cmd_cat clock argv)"
    unfolding cmd_cat_def by (intro ends_if usage_ends ends_mounted cat_body)
qed

text \<open>The check can run out of turns as well.\<close>

lemma fsck_ends: "ends idle exit_status any (\<lambda>h s. halts_in_turn h s \<or> h = Spins) (cmd_fsck clock argv)"
proof -
  let ?H = "\<lambda>h (s :: shell). halts_in_turn h s \<or> h = Spins"
  have f: "ends idle any any ?H (on_world (fsck (pread_device d)))" for d
    by (rule ends_halts [OF ends_world [OF checks_all]]) simp
  have m: "ends idle any any ?H (mounted clock img (retE ()))" for img
    by (rule ends_halts [OF mounted_ends]) (auto intro: ends_ret)
  show ?thesis unfolding cmd_fsck_def Let_def by (intro ends_rules f m) simp_all
qed

section \<open>The program\<close>

text \<open>Reporting an exception of a command is the end of it.\<close>

lemma run_command_ends:
  assumes "ends idle exit_status any H (c_run c argv)"
  shows "ends idle exit_status none H (run_command c argv)"
  unfolding run_command_def by (rule ends_handler [OF assms]) (auto intro!: ends_then ends_ret prints_end split: exn.split)

text \<open>The commands, the check apart.\<close>

lemma idle_commands:
  assumes "c \<in> set (commands clock)" and "c_name c \<noteq> ''fsck''"
  shows "idle_ends exit_status (c_run c argv)"
  using assms idle_mkfs idle_dump idle_files by (auto simp: commands_def)

abbreviation ends_main :: "bytes list \<Rightarrow> cause \<Rightarrow> shell \<Rightarrow> bool" where
  "ends_main argv \<equiv> (\<lambda>h s. halts_in_turn h s \<or> h = Spins \<and> (\<exists>args. argv = str_bytes ''fsck'' # args))"

lemma main_ends: "ends idle exit_status none (ends_main argv) (shell_main clock argv)"
proof (cases argv)
  case Nil
  then show ?thesis unfolding shell_main_def by (auto intro!: ends_then ends_ret print_usage_ends)
next
  case (Cons arg args)
  have run: "ends idle exit_status none (ends_main argv) (run_command c args)"
    if find: "find (\<lambda>c. str_bytes (c_name c) = arg) (commands clock) = Some c" for c
  proof (rule run_command_ends)
    have c: "c \<in> set (commands clock)" "str_bytes (c_name c) = arg" using find by (auto simp: find_Some_iff in_set_conv_nth)
    show "ends idle exit_status any (ends_main argv) (c_run c args)"
    proof (cases "c_name c = ''fsck''")
      case True
      with c(1) have "c_run c = cmd_fsck clock" by (auto simp: commands_def)
      moreover have "ends idle exit_status any (ends_main argv) (cmd_fsck clock args)"
        by (rule ends_halts [OF fsck_ends]) (use True c(2) Cons in auto)
      ultimately show ?thesis by simp
    next
      case False
      show ?thesis by (rule ends_halts [OF idle_commands [OF c(1) False]]) simp
    qed
  qed
  note print = ends_then ends_ret print_usage_ends prints_end
  have "shell_main clock argv = (
         if arg \<in> {str_bytes ''--version'', str_bytes ''-v''} then thenE (print_line version_string) (retE 0)
         else if arg \<in> {str_bytes ''--help'', str_bytes ''-h''} then thenE (print_usage (commands clock)) (retE 0)
         else (case find (\<lambda>c. str_bytes (c_name c) = arg) (commands clock) of
             Some c \<Rightarrow> run_command c args
           | None \<Rightarrow>
               thenE (print_err (text_line (''vfs_shell: unknown command '' @ [CHR 0x27] @ text_of arg @ [CHR 0x27])))
              (thenE (print_err (text_line ''try: vfs_shell --help'')) (retE 1))))"
    by (simp add: shell_main_def Cons)
  then show ?thesis
    using run by (cases "find (\<lambda>c. str_bytes (c_name c) = arg) (commands clock)") (simp_all, (intro conjI impI print; simp)+)
qed

text \<open>
  C38. The shell ends, and leaves nothing mounted. From a process with nothing mounted and the gate
  closed, whatever the command line and the world, \<^verbatim>\<open>main\<close> returns an exit status of 0, 1 or 2, with
  no file system mounted and the gate closed, however the command failed, and no exception gets past
  it. If it does not return, the process has been killed by the crash injection; or waits, for an
  inode's lock (its own, on a damaged image where a directory names one that leads to it), for the
  journal or for the gate to drain; or was ended by \<^verbatim>\<open>std::terminate\<close> because a commit failed as an
  operation's scope closed. No loop of a command mount_ends out of its turns, those of \<^verbatim>\<open>cat\<close>, of \<^verbatim>\<open>write\<close>
  and of a write's chunks among them, but for the walk of \<^verbatim>\<open>fsck\<close>, which \<^verbatim>\<open>Fsck_Total\<close> bounds on images
  of fewer than \<^term>\<open>2 ^ 26\<close> blocks only.
\<close>

theorem shell_leaves_unmounted:
  assumes "sh_ses s = Unmounted w" and "gate_closed (sh_gate s)"
  shows "case shell_main clock argv s of
      (Ret c, s') \<Rightarrow> c \<in> {0, 1, 2} \<and> (\<exists>w'. sh_ses s' = Unmounted w') \<and> gate_closed (sh_gate s')
    | (Raise e, s') \<Rightarrow> False
    | (Halted h, s') \<Rightarrow> h \<in> {Crash, Waits, Terminates} \<or> (h = Spins \<and> (\<exists>args. argv = str_bytes ''fsck'' # args))"
proof -
  have "idle s" using assms by (simp add: idle_def)
  from ends_at [OF main_ends this, of argv clock] show ?thesis
    by (cases "shell_main clock argv s"; cases "fst (shell_main clock argv s)") (auto simp: exit_status_def idle_def)
qed

theorem shell_leaves_unmounted_witness:
  "\<exists>c s'. shell_main (\<lambda>_. 0) [str_bytes ''--version''] demo_shell = (Ret c, s') \<and> c \<in> {0, 1, 2} \<and>
     (\<exists>w. sh_ses s' = Unmounted w) \<and> gate_closed (sh_gate s')"
proof -
  have u: "sh_ses demo_shell = Unmounted small_world" "gate_closed (sh_gate demo_shell)" by (simp_all add: demo_shell_def gate_new_def)
  have "shell_main (\<lambda>_. 0) [str_bytes ''--version''] demo_shell = (Ret 0, demo_shell\<lparr>sh_out := text_line version_string\<rparr>)"
    by (simp add: shell_main_def print_line_def print_out_def demo_shell_def thenE_def)
  with shell_leaves_unmounted [OF u, where clock = "\<lambda>_. 0" and argv = "[str_bytes ''--version'']"] show ?thesis by auto
qed

end
