(* ===== verification/Spec2Isabelle.thy ===== *)
theory Spec2Isabelle
  imports Prelude Posix Fault Errors Layout Block_Device Bitmap Crc32 Superblock Path
    Wal Wal_Log Recovery Buffer_Cache Lru_List Crash_Device Cache_Frames Cache_Coherence Cache_Writeback
    Journal Alloc Inode_Table Block_Map Directory Mkfs Lock_Manager Flusher Mount_Gate Storage Engine Commit
    Durability Mount Vfs Vfs_Calls File_Data Dir_Map Free_File Engine_Files Fsck Fsck_Total
    Fsck_Sound Fsck_Clean
    Outcomes Engine_Codes Call_Codes Shell_Text Shell Shell_Loops Shell_Ends
begin

text \<open>
  A verification library for ConcurrentFS, the journaling file system under \<^verbatim>\<open>src/\<close>: a disk image
  and a write-ahead log, a sharded block cache and a redo journal between them, and above the
  journal inodes, directories and the public calls \<^verbatim>\<open>vfs_*\<close>. Definitions translate the C++ source
  function by function and keep its names; lemmas about a component stand in its theory; the
  properties that span components stand here and in \<^verbatim>\<open>Engine_Files\<close>.

  \<^bold>\<open>How the code is modelled.\<close> A C++ call is an operation \<^typ>\<open>('s, 'a) op\<close> on an explicit state
  (\<^verbatim>\<open>Prelude\<close>): it returns a value, throws one of the exceptions the source throws, or halts for
  good, and a halt says why: \<^const>\<open>Crash\<close> is the crash injection's \<^verbatim>\<open>SIGKILL\<close> (\<^term>\<open>Killed\<close> for short),
  \<^const>\<open>Waits\<close> a wait nobody ends, \<^const>\<open>Spins\<close> a loop that is out of fuel, \<^const>\<open>Terminates\<close>
  \<^verbatim>\<open>std::terminate\<close>, which is what an exception out of \<^verbatim>\<open>~OpScope\<close> comes to, and \<^const>\<open>Faults\<close> the use
  of a null pointer. The state an exception or a halt leaves behind is part of the result. Machine
  integers are words of their width; a \<^verbatim>\<open>size_t\<close> that counts things in memory is a \<^typ>\<open>nat\<close>.
  A mutex that makes a call atomic is not visible; where interleaving is the point of the code
  (the mount gate, the inode locks, the flusher) the theory also has a step relation whose steps
  are the critical sections or atomic accesses of the source.

  \<^bold>\<open>The theories.\<close>
  \<^item> \<^verbatim>\<open>Prelude\<close>: operations, loops, byte strings, little-endian integers; \<^verbatim>\<open>Outcomes\<close>: how an operation
    can end, with a rule per combinator.
  \<^item> \<^verbatim>\<open>Posix\<close>: files as bytes with a script of what \<^verbatim>\<open>pread\<close> and \<^verbatim>\<open>pwrite\<close> do (short counts,
    \<^verbatim>\<open>EINTR\<close>, errors); \<^verbatim>\<open>Fault\<close> (\<^verbatim>\<open>fault.cpp\<close>): crash injection and torn writes.
  \<^item> \<^verbatim>\<open>Errors\<close>, \<^verbatim>\<open>Layout\<close> (\<^verbatim>\<open>layout.h\<close>): error codes, on-disk structures and their codecs.
  \<^item> \<^verbatim>\<open>Block_Device\<close> (\<^verbatim>\<open>block_device.cpp\<close>): the device on a file and the instrumented one; the locale
    \<^verbatim>\<open>block_dev\<close> is their contract, interpreted for both.
  \<^item> \<^verbatim>\<open>Bitmap\<close>, \<^verbatim>\<open>Superblock\<close>, \<^verbatim>\<open>Mkfs\<close>, \<^verbatim>\<open>Crc32\<close>, \<^verbatim>\<open>Path\<close>, \<^verbatim>\<open>Fsck\<close>: the files of these names.
  \<^item> \<^verbatim>\<open>Wal\<close> (\<^verbatim>\<open>wal.cpp\<close>), \<^verbatim>\<open>Wal_Log\<close>: the log and what its bytes mean; \<^verbatim>\<open>Recovery\<close>
    (\<^verbatim>\<open>recovery.cpp\<close>): redo recovery; \<^verbatim>\<open>Crash_Device\<close>: a device whose writes may be the last.
  \<^item> \<^verbatim>\<open>Buffer_Cache\<close> (\<^verbatim>\<open>buffer_cache.cpp\<close>): shards, frames, LRU lists in arrays, eviction;
    \<^verbatim>\<open>Lru_List\<close>, \<^verbatim>\<open>Cache_Frames\<close>, \<^verbatim>\<open>Cache_Coherence\<close>, \<^verbatim>\<open>Cache_Writeback\<close>: its invariant and what a
    block of the cache shows.
  \<^item> \<^verbatim>\<open>Flusher\<close> (\<^verbatim>\<open>flusher.cpp\<close>); \<^verbatim>\<open>Storage\<close> (\<^verbatim>\<open>storage.cpp\<close>): the journal's gate, transactions,
    commit, checkpoint, opening and closing; \<^verbatim>\<open>Journal\<close>: the interface above it, with the locale
    \<^verbatim>\<open>journal_store\<close> the upper layers are proved against.
  \<^item> \<^verbatim>\<open>Engine\<close>, \<^verbatim>\<open>Commit\<close>, \<^verbatim>\<open>Durability\<close>, \<^verbatim>\<open>Mount\<close>: the invariant of the running engine, what a commit
    leaves behind at every write, operations and their end, and mounting.
  \<^item> \<^verbatim>\<open>Inode_Table\<close>, \<^verbatim>\<open>Alloc\<close>, \<^verbatim>\<open>Block_Map\<close>, \<^verbatim>\<open>Directory\<close>: the files of these names, over a journal.
  \<^item> \<^verbatim>\<open>Lock_Manager\<close>, \<^verbatim>\<open>Mount_Gate\<close>, \<^verbatim>\<open>Vfs\<close> (\<^verbatim>\<open>lock_manager.cpp\<close>, \<^verbatim>\<open>vfs.cpp\<close>): locks, the gate and
    every public call; \<^verbatim>\<open>Vfs_Calls\<close>: what the calls have in common; \<^verbatim>\<open>File_Data\<close>: the bytes of a file
    and the loops of \<^verbatim>\<open>vfs_read\<close> and \<^verbatim>\<open>vfs_write\<close> over its blocks; \<^verbatim>\<open>Free_File\<close>: giving them back;
    \<^verbatim>\<open>Dir_Map\<close>: directories as maps from names to inodes.
  \<^item> \<^verbatim>\<open>Engine_Files\<close>: the contracts of the inode table, the allocator, the block map, files and
    directories, proved over \<^verbatim>\<open>journal_store\<close>, on the engine.
  \<^item> \<^verbatim>\<open>Engine_Codes\<close>, \<^verbatim>\<open>Call_Codes\<close>: which exceptions come out of the engine and what the calls
    return; the locale \<^verbatim>\<open>proper_journal\<close> is what the calls need of the engine for it.
  \<^item> \<^verbatim>\<open>Fsck_Total\<close>: the checker ends with a report whatever the image holds; \<^verbatim>\<open>Fsck_Sound\<close>: what a report
    without problems says of the image; \<^verbatim>\<open>Fsck_Clean\<close>: there is such a report after \<^verbatim>\<open>mkfs\<close>.
  \<^item> \<^verbatim>\<open>Shell_Text\<close>, \<^verbatim>\<open>Shell\<close> (\<^verbatim>\<open>tools/vfs_shell.cpp\<close>, \<^verbatim>\<open>version.cpp\<close>): the command line, the texts it
    prints, and the commands, on the host's files and the session of \<^verbatim>\<open>vfs_mount\<close>; \<^verbatim>\<open>Shell_Loops\<close>: its loops end;
    \<^verbatim>\<open>Shell_Ends\<close>: how the commands end.

  \<^bold>\<open>What is shown.\<close> Crash safety, below: a commit is atomic and durable at every write it can be
  killed at, an operation that is cut short leaves no trace, recovery can itself be killed any
  number of times, and a mount establishes the engine's invariant. The engine then satisfies
  \<^verbatim>\<open>journal_store\<close>, through which the inode table, the allocator, the block map, files and
  directories are proved: a file owns its blocks and its indirect blocks alone, growing it moves no
  other block, what is written is read, freeing it frees its blocks and no others, and a directory
  is a map that the operations read and update at one name. The codecs, the log,
  the bitmap, the checksum and path resolution have their own theorems, as have the concurrent
  parts and the error behaviour of the calls. A call that returns, returns a result or a code of
  \<^verbatim>\<open>errors.h\<close>, and no exception gets out of one; but not every call returns. On a mounted engine a call
  can also wait for an inode's lock that is held or for a journal that is busy, and when the commit
  that \<^verbatim>\<open>~OpScope\<close> runs fails with an error, the process ends by \<^verbatim>\<open>std::terminate\<close>: \<^verbatim>\<open>storage.h\<close> says so,
  while \<^verbatim>\<open>vfs.h\<close> and the README promise a code from every call. No call loops for ever or uses a null
  pointer. The checker reports on every image of less than $2^{26}$ blocks, however damaged;
  a report without problems means that the image has what the engine asks for of its inodes and
  blocks (\<^verbatim>\<open>consistent\<close>); and a freshly formatted image has one. Of the directory tree a clean report
  is not shown to mean anything. The shell reads numbers exactly or not
  at all, says what is wrong with a command line it does not understand and changes nothing, and ends with
  nothing mounted, but for the halts of the calls.

  \<^bold>\<open>Bounds and fuel.\<close> A loop that is out of fuel halts with \<^const>\<open>Spins\<close>, and that fuel is enough means
  that this outcome is excluded. \<^verbatim>\<open>write_loop\<close> has one unit of fuel per byte and one more, which
  \<^verbatim>\<open>Call_Codes\<close> shows to be enough; the walk of \<^verbatim>\<open>fsck\<close> has one per inode and one more, which \<^verbatim>\<open>Fsck_Total\<close> shows to be enough on
  images of less than $2^{26}$ blocks: it enters no directory twice as long as the 32-bit counters of
  names do not wrap, and a block holds 64 names. For larger images nothing is claimed: \<^verbatim>\<open>fsck.cpp\<close> has
  no bound, and the shell's \<^verbatim>\<open>fsck\<close> is the one command whose loop is not shown to end. The shell's loop of \<^verbatim>\<open>cat\<close> has one per value of the 64-bit offset, which every turn moves up, and that
  of \<^verbatim>\<open>write\<close> one per byte and one more; from any mounted state in which no improper error is stored,
  neither runs out (\<^verbatim>\<open>cat_fuel_enough\<close>, \<^verbatim>\<open>write_all_ends\<close>). The loops of \<^verbatim>\<open>storage.cpp\<close> that wait for other threads take what those threads do as an argument;
  with \<^verbatim>\<open>alone\<close> there is no other thread, and a wait that only another thread could end is \<^const>\<open>Waits\<close>. The theorems about commits ask for room in the 64-bit
  counter of log sequence numbers (\<^verbatim>\<open>lsn_room\<close>). The offsets \<^verbatim>\<open>end_\<close> and \<^verbatim>\<open>bytes_appended_\<close> of the log are
  natural numbers where the source has 64-bit ones: a log of $2^{64}$ bytes is out of reach.

  \<^bold>\<open>Not modelled.\<close> The tests and benchmarks under \<^verbatim>\<open>tools/\<close>, which only call the parts above and
  compare or time the results. The branches for macOS (\<^verbatim>\<open>F_FULLFSYNC\<close>)
  and for the ARM checksum instruction, which are under preprocessor conditions. Latency
  injection and timers, which change when things happen and not what. The interleaving of two
  calls inside the cache, the allocator and the journal, whose mutexes make each step atomic.
\<close>

section \<open>Crash safety\<close>

text \<open>
  C1. A commit is atomic and durable. Called between operations when there is something to
  commit, \<^verbatim>\<open>commit()\<close> returns or is killed at one of its writes; it never throws. Whatever was
  torn, and however many mounts are killed before one gets through, that mount leaves in every
  block what was committed before, or in every block what the engine showed when the commit was
  called; and if the commit returned it is the latter.
\<close>

theorem commit_atomic_durable:
  assumes "logged d G s" and "at_rest s" and "lsn_room s" and "0 < pd_count d"
    and "committed_through (ctl s) < ended (ctl s) \<or> txns (e_cache s) = {}"
    and "journal_commit (disk_of d sy) alone s = (r, s')"
    and "reopened d (e_stable s') st0" and "crashed_mounts d sy' st0 st" and "\<not> armed st"
  shows "\<exists>info sb st'. recover (disk_of d sy') (decode_superblock (dblocks d st 0)) st = (Ret (info, sb), st') \<and>
    (r = Ret () \<or> r = Killed) \<and>
    ((\<forall>b. 0 < b \<longrightarrow> b < pd_count d \<longrightarrow> dblocks d st' b = engine_view d s b) \<or>
     r = Killed \<and> (\<forall>b. 0 < b \<longrightarrow> b < pd_count d \<longrightarrow> dblocks d st' b = G b))"
proof -
  from journal_commit_ok [OF assms(1-5), of sy] assms(6) have
    r: "r = Killed \<and> (recovers d G s' \<or> recovers d (engine_view d s) s') \<or> r = Ret () \<and> recovers d (engine_view d s) s'"
    using settled_recovers by auto
  have mount: "\<exists>info sb st'. recover (disk_of d sy') (decode_superblock (dblocks d st 0)) st = (Ret (info, sb), st') \<and>
      (\<forall>b. 0 < b \<longrightarrow> b < pd_count d \<longrightarrow> dblocks d st' b = V b)" if "recovers d V s'" for V
    by (rule recovers_mount [OF that assms(4,7,8,9)])
  from r show ?thesis
  proof (elim disjE conjE)
    assume "r = Killed" "recovers d G s'" with mount [of G] show ?thesis by blast
  next
    assume "r = Killed" "recovers d (engine_view d s) s'" with mount [of "engine_view d s"] show ?thesis by blast
  next
    assume "r = Ret ()" "recovers d (engine_view d s) s'" with mount [of "engine_view d s"] show ?thesis by blast
  qed
qed

theorem commit_atomic_durable_witness:
  "\<exists>s1 s2 info sb st'. journal_write (disk_of demo_disk True) 5 True (retE ()) demo_ended = (Ret (), s1) \<and>
     journal_commit (disk_of demo_disk True) alone s1 = (Ret (), s2) \<and>
     recover (disk_of demo_disk True) (decode_superblock (dblocks demo_disk (e_stable s2) 0)) (e_stable s2) = (Ret (info, sb), st') \<and>
     dblocks demo_disk st' 5 = zero_block"
proof -
  let ?D = "disk_of demo_disk True" and ?G = "dblocks demo_disk demo_mounted"
  from demo_write obtain s1 where
    w: "journal_write ?D 5 True (retE ()) demo_ended = (Ret (), s1)" "logged demo_disk ?G s1" "unarmed s1" "at_rest s1" "lsn_room s1"
    "committed_through (ctl s1) < ended (ctl s1)" "engine_view demo_disk s1 5 = zero_block" by blast
  then have some: "committed_through (ctl s1) < ended (ctl s1) \<or> txns (e_cache s1) = {}" by blast
  have count: "0 < pd_count demo_disk" "(0 :: u32) < 5" "5 < pd_count demo_disk" by (simp_all add: demo_disk_def)
  from journal_commit_ok [OF w(2,4,5) count(1) some, of True] w(3) obtain s2 where
    c: "journal_commit ?D alone s1 = (Ret (), s2)" "unarmed s2" "settled demo_disk (engine_view demo_disk s1) s2" "txn_ok (ctl s2) (e_cache s2)"
    by auto
  then obtain G' where "logged demo_disk G' s2" using settled_logged by blast
  note re = reopened_as_is [OF this c(2)]
  from commit_atomic_durable [OF w(2,4,5) count(1) some c(1) re(1) crashed_mounts.start re(2), of True] count(2,3) w(7)
  obtain info sb st' where "recover ?D (decode_superblock (dblocks demo_disk (e_stable s2) 0)) (e_stable s2) = (Ret (info, sb), st')"
    "dblocks demo_disk st' 5 = zero_block" by auto
  with w(1) c(1) show ?thesis by blast
qed

text \<open>
  C2. An operation that is cut short leaves no trace. A process that has entered an operation and
  is gone before the operation ends, killed at any write or between two calls, after any sequence
  of reads and writes, leaves files from which the next mount to get through recovers, in every
  block, the contents at the last commit before the operation, or those at its beginning.
\<close>

theorem cut_short_operation_leaves_no_trace:
  assumes "logged d G s" and "at_rest s" and "lsn_room s" and "0 < pd_count d"
    and "journal_begin_op (disk_of d sy) alone s = (Ret (), s1)" and "op_run d sy s1 k s2"
    and "reopened d (e_stable s2) st0" and "crashed_mounts d sy' st0 st" and "\<not> armed st"
  shows "\<exists>info sb st'. recover (disk_of d sy') (decode_superblock (dblocks d st 0)) st = (Ret (info, sb), st') \<and>
    ((\<forall>b. 0 < b \<longrightarrow> b < pd_count d \<longrightarrow> dblocks d st' b = G b) \<or>
     (\<forall>b. 0 < b \<longrightarrow> b < pd_count d \<longrightarrow> dblocks d st' b = engine_view d s b))"
proof -
  from begin_op_ok [OF assms(1-4), of sy] assms(5) obtain G' where
    G': "logged d G' s1" "G' = G \<or> (\<forall>b. 0 < b \<longrightarrow> b < pd_count d \<longrightarrow> G' b = engine_view d s b)" by auto
  from recovers_mount [OF op_run_recovers [OF assms(6) G'(1)] assms(4,7,8,9)] G'(2) show ?thesis by auto
qed

theorem cut_short_operation_leaves_no_trace_witness:
  "\<exists>s1 s2 info sb st'. journal_begin_op (disk_of demo_disk True) alone demo_engine = (Ret (), s1) \<and>
     journal_write (disk_of demo_disk True) 5 True (retE ()) s1 = (Ret (), s2) \<and> engine_view demo_disk s2 5 = zero_block \<and>
     recover (disk_of demo_disk True) (decode_superblock (dblocks demo_disk (e_stable s2) 0)) (e_stable s2) = (Ret (info, sb), st') \<and>
     dblocks demo_disk st' 5 = replicate 4096 1"
proof -
  let ?D = "disk_of demo_disk True" and ?G = "dblocks demo_disk demo_mounted"
  define s1 where "s1 = demo_engine\<lparr>ctl := (ctl demo_engine)\<lparr>gate := 1\<rparr>\<rparr>"
  have beg: "journal_begin_op ?D alone demo_engine = (Ret (), s1)"
    using demo_engine_facts by (simp add: journal_begin_op_def Let_def fits_def at_rest_def s1_def)
  have ls: "logged demo_disk ?G s1" unfolding s1_def by (rule logged_ctl [OF demo_engine_facts(1)]) simp_all
  have five: "(0 :: u32) < 5" "5 < pd_count demo_disk" by (simp_all add: demo_disk_def)
  have fn: "(retE () :: (block, unit) op) (if True then zero_block else engine_view demo_disk s1 5) = (Ret (), zero_block)" by simp
  have z: "is_block zero_block" by simp
  have un: "unarmed s1" using demo_engine_facts(4) by (simp add: s1_def)
  from logged_write [where fn = "retE ()" and fresh = True and x = zero_block and b = 5 and sy = True, OF ls five fn z] un obtain s2 where
    w: "journal_write ?D 5 True (retE ()) s1 = (Ret (), s2)" "unarmed s2" "logged demo_disk ?G s2" "engine_view demo_disk s2 5 = zero_block" by auto
  have run: "op_run demo_disk True s1 False s2" by (rule op_run.wrote [OF whole_ret w(1) _ op_run.stop]) simp
  note re = reopened_as_is [OF w(3,2)]
  from cut_short_operation_leaves_no_trace [OF demo_engine_facts(1,2,5,6) beg run re(1) crashed_mounts.start re(2), of True]
  obtain info sb st' where "recover ?D (decode_superblock (dblocks demo_disk (e_stable s2) 0)) (e_stable s2) = (Ret (info, sb), st')"
    "dblocks demo_disk st' 5 = ?G 5" using five demo_engine_facts(3) by auto
  with beg w(1,4) demo_mounted_facts(5) show ?thesis by metis
qed

text \<open>
  C3. A mount establishes the engine's invariant. From a disk with a valid superblock and any log,
  \<^verbatim>\<open>Storage\<close>'s constructor returns an engine with an empty transaction and an open gate that
  shows, in every block but the superblock, the disk's contents after a clean unmount and
  otherwise what the committed transactions of the log make of them, and whose committed
  contents are the same.
\<close>

theorem mount_establishes_invariant:
  assumes "recoverable d st" and "\<not> armed st" and "so_journal opts" and "sb = decode_superblock (dblocks d st 0)"
  shows "\<exists>eng G. fst (storage_start opts (disk_of d sy) sb st) = Ret eng \<and> logged d G eng \<and> at_rest eng \<and> engine_inv d eng \<and>
    txns (e_cache eng) = {} \<and>
    (\<forall>b. b \<noteq> 0 \<longrightarrow> engine_view d eng b = (if clean_unmount sb = 0 then recovered d st b else dblocks d st b) \<and>
       G b = engine_view d eng b)"
proof -
  from storage_start_ok [OF assms, of sy] obtain eng st' G where
    e: "storage_start opts (disk_of d sy) sb st = (Ret eng, st')" "unarmed eng" "logged d G eng" "at_rest eng"
    "txns (e_cache eng) = {}" "\<forall>b. b \<noteq> 0 \<longrightarrow> engine_view d eng b = mounts_to d st b \<and> G b = mounts_to d st b" by blast
  have "engine_inv d eng" using e(2) logged_engine [OF e(3)] by (auto simp: engine_inv_def)
  then show ?thesis using e unfolding mounts_to_def assms(4) by (intro exI [of _ eng] exI [of _ G]) auto
qed

theorem mount_establishes_invariant_witness:
  "recoverable demo_disk demo_stable \<and>
   (\<exists>eng G. fst (storage_start default_storage_options (disk_of demo_disk True) demo_super demo_stable) = Ret eng \<and>
     logged demo_disk G eng \<and> at_rest eng \<and> engine_view demo_disk eng 5 = recovered demo_disk demo_stable 5)"
proof -
  note demo = demo_recoverable [folded demo_disk_def] demo_stable_facts(2) [folded demo_disk_def]
  have sb: "demo_super = decode_superblock (dblocks demo_disk demo_stable 0)" by (simp add: demo(3))
  have opts: "so_journal default_storage_options" by (simp add: default_storage_options_def)
  have "clean_unmount demo_super = 0" by (simp add: demo_super_def)
  with mount_establishes_invariant [OF demo(1,2) opts sb, of True] demo(1) show ?thesis by fastforce
qed

end
